(* ===== verification/Pvr_Prelude.thy ===== *)
theory Pvr_Prelude
  imports Main "HOL-Library.Word" "HOL-Library.Multiset"
begin

text \<open>
  The shared vocabulary of the development: the machine integers of \<open>include4/img_types.h\<close>, the
  error codes of \<open>include4/servicesext.h\<close>, the memory services of
  \<open>services4/srvkm/env/linux/osfunc.c\<close> on which every component allocates, the resource locks of
  the same file, and the generic lemmas on words, lists and multisets the component theories use.

  The kernel's \<open>kmalloc\<close> and \<open>vmalloc\<close> are not part of the repository. They are a parameter of the
  model, kept as data: the field \<open>os_allocs\<close> lists the addresses the coming calls return, 0 for a
  failed call. The only thing relied on is what every allocator promises: an address that is in
  use is not handed out again. An entry of the list that would break the promise is read as a
  failed call, so every list is an admissible behaviour and no theorem needs a hypothesis on it.
\<close>

unbundle bit_operations_syntax

section \<open>Machine integers\<close>

type_synonym IMG_UINT16 = "16 word"
type_synonym IMG_UINT32 = "32 word"
type_synonym IMG_UINTPTR_T = "64 word"
type_synonym IMG_SIZE_T = "32 word"

text \<open>The widths are those of the x86\_64 build: \<open>IMG_UINTPTR_T\<close> is pointer-sized, \<open>IMG_SIZE_T\<close>
  stays at 32 bits for the sake of the 32-bit user space.\<close>

abbreviation IMG_NULL :: IMG_UINTPTR_T where "IMG_NULL \<equiv> 0"

named_theorems os_simps "equations of the memory services"
named_theorems u32_simps "facts on 32-bit arithmetic"

section \<open>Error codes\<close>

text \<open>The enumerators of \<open>PVRSRV_ERROR\<close> the modelled code produces; a code that only a callback
  outside the modelled components can return is \<open>PVRSRV_ERROR_CODE n\<close>.\<close>

datatype PVRSRV_ERROR =
    PVRSRV_OK
  | PVRSRV_ERROR_OUT_OF_MEMORY
  | PVRSRV_ERROR_INVALID_PARAMS
  | PVRSRV_ERROR_INIT_FAILURE
  | PVRSRV_ERROR_NOT_OWNER
  | PVRSRV_ERROR_FAILED_DEPENDENCIES
  | PVRSRV_ERROR_CMD_NOT_PROCESSED
  | PVRSRV_ERROR_CMD_TOO_BIG
  | PVRSRV_ERROR_NOT_SUPPORTED
  | PVRSRV_ERROR_CANNOT_FLUSH_QUEUE
  | PVRSRV_ERROR_CANNOT_GET_QUEUE_SPACE
  | PVRSRV_ERROR_RETRY
  | PVRSRV_ERROR_UNABLE_TO_LOCK_RESOURCE
  | PVRSRV_ERROR_INVALID_LOCK_ID
  | PVRSRV_ERROR_RESOURCE_NOT_LOCKED
  | PVRSRV_ERROR_HANDLE_INDEX_OUT_OF_RANGE
  | PVRSRV_ERROR_HANDLE_NOT_ALLOCATED
  | PVRSRV_ERROR_HANDLE_TYPE_MISMATCH
  | PVRSRV_ERROR_UNABLE_TO_ADD_HANDLE
  | PVRSRV_ERROR_HANDLE_NOT_SHAREABLE
  | PVRSRV_ERROR_HANDLE_NOT_FOUND
  | PVRSRV_ERROR_INVALID_SUBHANDLE
  | PVRSRV_ERROR_HANDLE_BATCH_IN_USE
  | PVRSRV_ERROR_HANDLE_BATCH_COMMIT_FAILURE
  | PVRSRV_ERROR_UNABLE_TO_CREATE_HASH_TABLE
  | PVRSRV_ERROR_INSERT_HASH_TABLE_DATA_FAILED
  | PVRSRV_ERROR_BAD_MAPPING
  | PVRSRV_ERROR_FAILED_TO_ALLOC_PAGES
  | PVRSRV_ERROR_FAILED_TO_ALLOC_VIRT_MEMORY
  | PVRSRV_ERROR_FAILED_TO_MAP_PAGE_TABLE
  | PVRSRV_ERROR_INVALID_CPU_ADDR
  | PVRSRV_ERROR_UNKNOWN_INIT_SERVER_STATE
  | PVRSRV_ERROR_CODE nat

section \<open>Memory services\<close>

record os =
  os_allocs :: "IMG_UINTPTR_T list"
  os_live :: "IMG_UINTPTR_T list"

definition PAGE_SIZE :: IMG_UINT32 where
  "PAGE_SIZE = 4096"

definition kmalloc :: "os \<Rightarrow> IMG_UINTPTR_T \<times> os" where
  "kmalloc s =
     (case os_allocs s of
        [] \<Rightarrow> (IMG_NULL, s)
      | a # as \<Rightarrow>
          if a = IMG_NULL \<or> a \<in> set (os_live s) then (IMG_NULL, s\<lparr>os_allocs := as\<rparr>)
          else (a, s\<lparr>os_allocs := as, os_live := a # os_live s\<rparr>))"

definition OSAllocMem :: "IMG_UINT32 \<Rightarrow> os \<Rightarrow> PVRSRV_ERROR \<times> IMG_UINTPTR_T \<times> os" where
  "OSAllocMem ui32Size s =
     (let (a1, s1) = (if ui32Size > PAGE_SIZE then kmalloc s else (IMG_NULL, s)) in
      if a1 \<noteq> IMG_NULL then (PVRSRV_OK, a1, s1)
      else
        (let (a2, s2) = kmalloc s1 in
         if a2 = IMG_NULL then (PVRSRV_ERROR_OUT_OF_MEMORY, IMG_NULL, s2)
         else (PVRSRV_OK, a2, s2)))"

definition OSFreeMem :: "IMG_UINTPTR_T \<Rightarrow> os \<Rightarrow> os" where
  "OSFreeMem pvCpuVAddr s = s\<lparr>os_live := remove1 pvCpuVAddr (os_live s)\<rparr>"

definition os_ok :: "os \<Rightarrow> bool" where
  "os_ok s \<longleftrightarrow> distinct (os_live s) \<and> IMG_NULL \<notin> set (os_live s)"

text \<open>The live blocks as a multiset: the resource a component must give back.\<close>

definition blocks :: "os \<Rightarrow> IMG_UINTPTR_T multiset" where
  "blocks s = mset (os_live s)"

lemma kmalloc_cases:
  assumes "kmalloc s = (a, s')"
  obtains (ok) "a \<noteq> IMG_NULL" "a \<notin> set (os_live s)" "os_live s' = a # os_live s"
  | (oom) "a = IMG_NULL" "os_live s' = os_live s"
proof (cases "os_allocs s")
  case Nil
  with assms oom show ?thesis by (simp add: kmalloc_def)
next
  case (Cons b bs)
  show ?thesis
  proof (cases "b = IMG_NULL \<or> b \<in> set (os_live s)")
    case True
    with assms Cons have "a = IMG_NULL" "s' = s\<lparr>os_allocs := bs\<rparr>"
      by (auto simp: kmalloc_def)
    then show ?thesis using oom by simp
  next
    case False
    with assms Cons have "a = b" "s' = s\<lparr>os_allocs := bs, os_live := b # os_live s\<rparr>"
      by (auto simp: kmalloc_def)
    with False show ?thesis using ok by simp
  qed
qed

lemma OSAllocMem_cases:
  assumes "OSAllocMem n s = (e, a, s')"
  obtains (ok) "e = PVRSRV_OK" "a \<noteq> IMG_NULL" "a \<notin> set (os_live s)" "os_live s' = a # os_live s"
  | (oom) "e = PVRSRV_ERROR_OUT_OF_MEMORY" "a = IMG_NULL" "os_live s' = os_live s"
  using assms that unfolding OSAllocMem_def Let_def
  by (auto split: prod.splits if_splits elim!: kmalloc_cases)

lemma OSAllocMem_ok_iff:
  "OSAllocMem n s = (e, a, s') \<Longrightarrow> (e = PVRSRV_OK) = (a \<noteq> IMG_NULL)"
  by (erule OSAllocMem_cases) auto

lemma OSAllocMem_blocks:
  "OSAllocMem n s = (e, a, s') \<Longrightarrow>
     blocks s' = (if a = IMG_NULL then blocks s else add_mset a (blocks s))"
  by (erule OSAllocMem_cases) (auto simp: blocks_def)

lemma OSAllocMem_os_ok: "OSAllocMem n s = (e, a, s') \<Longrightarrow> os_ok s \<Longrightarrow> os_ok s'"
  by (erule OSAllocMem_cases) (auto simp: os_ok_def)

lemma OSAllocMem_fresh:
  "OSAllocMem n s = (e, a, s') \<Longrightarrow> a \<noteq> IMG_NULL \<Longrightarrow> a \<notin># blocks s"
  by (erule OSAllocMem_cases) (auto simp: blocks_def)

lemma blocks_OSFreeMem [os_simps]: "blocks (OSFreeMem a s) = blocks s - {#a#}"
  by (simp add: blocks_def OSFreeMem_def)

lemma OSFreeMem_os_ok: "os_ok s \<Longrightarrow> os_ok (OSFreeMem a s)"
  by (auto simp: os_ok_def OSFreeMem_def dest: notin_set_remove1)

section \<open>Resource locks\<close>

text \<open>A \<open>PVRSRV_RESOURCE\<close>: a test-and-set word and the identity of the holder.\<close>

record PVRSRV_RESOURCE =
  ui32Lock :: bool
  ui32ID :: IMG_UINT32

definition KERNEL_ID :: IMG_UINT32 where "KERNEL_ID = 0xffffffff"
definition ISR_ID :: IMG_UINT32 where "ISR_ID = 0xfffffffd"

definition OSCreateResource :: PVRSRV_RESOURCE where
  "OSCreateResource = \<lparr>ui32Lock = False, ui32ID = 0\<rparr>"

definition OSLockResource ::
  "PVRSRV_RESOURCE \<Rightarrow> IMG_UINT32 \<Rightarrow> PVRSRV_ERROR \<times> PVRSRV_RESOURCE" where
  "OSLockResource r n =
     (if \<not> ui32Lock r then (PVRSRV_OK, r\<lparr>ui32Lock := True, ui32ID := n\<rparr>)
      else (PVRSRV_ERROR_UNABLE_TO_LOCK_RESOURCE, r\<lparr>ui32Lock := True\<rparr>))"

definition OSUnlockResource ::
  "PVRSRV_RESOURCE \<Rightarrow> IMG_UINT32 \<Rightarrow> PVRSRV_ERROR \<times> PVRSRV_RESOURCE" where
  "OSUnlockResource r n =
     (if ui32Lock r then
        if ui32ID r = n then (PVRSRV_OK, r\<lparr>ui32ID := 0, ui32Lock := False\<rparr>)
        else (PVRSRV_ERROR_INVALID_LOCK_ID, r)
      else (PVRSRV_ERROR_RESOURCE_NOT_LOCKED, r))"

definition OSIsResourceLocked :: "PVRSRV_RESOURCE \<Rightarrow> IMG_UINT32 \<Rightarrow> bool" where
  "OSIsResourceLocked r n \<longleftrightarrow> ui32Lock r \<and> ui32ID r = n"

text \<open>The contract of a test-and-set lock with owners: taking it needs it free, only its owner can
  release it.\<close>

locale owned_lock =
  fixes lock :: "'r \<Rightarrow> 'i \<Rightarrow> PVRSRV_ERROR \<times> 'r"
    and unlock :: "'r \<Rightarrow> 'i \<Rightarrow> PVRSRV_ERROR \<times> 'r"
    and locked :: "'r \<Rightarrow> 'i \<Rightarrow> bool"
    and free :: "'r \<Rightarrow> bool"
  assumes lock_free: "free r \<Longrightarrow> fst (lock r i) = PVRSRV_OK \<and> locked (snd (lock r i)) i"
    and lock_busy: "\<not> free r \<Longrightarrow> fst (lock r i) \<noteq> PVRSRV_OK \<and> snd (lock r i) = r"
    and unlock_owner: "locked r i \<Longrightarrow> fst (unlock r i) = PVRSRV_OK \<and> free (snd (unlock r i))"
    and unlock_other: "\<not> locked r i \<Longrightarrow> fst (unlock r i) \<noteq> PVRSRV_OK \<and> snd (unlock r i) = r"
    and locked_unique: "locked r i \<Longrightarrow> locked r j \<Longrightarrow> i = j"
    and locked_busy: "locked r i \<Longrightarrow> \<not> free r"
begin

lemma lock_ok_iff: "fst (lock r i) = PVRSRV_OK \<longleftrightarrow> free r"
  using lock_free lock_busy by blast

lemma lock_excludes: "fst (lock r i) = PVRSRV_OK \<Longrightarrow> fst (lock (snd (lock r i)) j) \<noteq> PVRSRV_OK"
  using lock_free lock_busy locked_busy by blast

lemma lock_unlock: "free r \<Longrightarrow> free (snd (unlock (snd (lock r i)) i))"
  using lock_free unlock_owner by blast

lemma unlock_not_owner: "locked r i \<Longrightarrow> i \<noteq> j \<Longrightarrow> snd (unlock r j) = r"
  using unlock_other locked_unique by blast

end

interpretation res: owned_lock OSLockResource OSUnlockResource OSIsResourceLocked
  "\<lambda>r. \<not> ui32Lock r"
  by unfold_locales (auto simp: OSLockResource_def OSUnlockResource_def OSIsResourceLocked_def)

section \<open>Lists\<close>

lemma map_update_id: "i < length xs \<Longrightarrow> f y = f (xs ! i) \<Longrightarrow> map f (xs[i := y]) = map f xs"
  by (simp add: map_update list_update_same_conv)

lemma mset_nth_concat: "i < length xss \<Longrightarrow> mset (xss ! i) \<subseteq># mset (concat xss)"
  by (metis concat.simps(2) concat_append id_take_nth_drop mset_append
      mset_subset_eq_add_left mset_subset_eq_add_right subset_mset.order_trans)

lemma in_concat_nth: "x \<in> set (concat xss) \<longleftrightarrow> (\<exists>i < length xss. x \<in> set (xss ! i))"
  by (simp add: set_conv_nth [of xss]) blast

lemma concat_update_mset:
  "i < length xss \<Longrightarrow>
     mset (concat (xss[i := ys])) = mset (concat xss) - mset (xss ! i) + mset ys"
proof (induction xss arbitrary: i)
  case Nil
  then show ?case by simp
next
  case (Cons xs xss)
  show ?case
  proof (cases i)
    case 0
    then show ?thesis by simp
  next
    case (Suc j)
    with Cons.prems have j: "j < length xss" by simp
    note sub = mset_nth_concat [OF j]
    have "mset (concat ((xs # xss)[i := ys])) = mset xs + (mset (concat xss) - mset (xss ! j) + mset ys)"
      using Cons.IH [OF j] Suc by simp
    also have "\<dots> = (mset xs + mset (concat xss)) - mset (xss ! j) + mset ys"
      by (simp only: multiset_diff_union_assoc [OF sub] union_assoc)
    finally show ?thesis using Suc by simp
  qed
qed

lemma filter_one_distinct:
  "distinct (map f xs) \<Longrightarrow> x \<in> set xs \<Longrightarrow> filter (\<lambda>y. f y = f x) xs = [x]"
  by (induction xs) (auto simp: filter_empty_conv image_iff)

lemma filter_mset_empty: "filter_mset P M = {#} \<longleftrightarrow> (\<forall>x \<in># M. \<not> P x)"
  by (induction M) auto

lemma distinct_mset_subset: "mset xs \<subseteq># mset ys \<Longrightarrow> distinct ys \<Longrightarrow> distinct xs"
  by (metis distinct_append ex_mset mset_eq_imp_distinct_iff mset_append mset_subset_eq_exists_conv)

lemma find_distinct:
  "distinct (map f xs) \<Longrightarrow> x \<in> set xs \<Longrightarrow> List.find (\<lambda>y. f y = f x) xs = Some x"
  by (induction xs) (auto simp: image_iff)

lemma find_None_all: "List.find P xs = None \<longleftrightarrow> (\<forall>x \<in> set xs. \<not> P x)"
  by (auto simp: find_None_iff)

lemma find_map: "List.find P (map f xs) = map_option f (List.find (P \<circ> f) xs)"
  by (induction xs) auto

lemma find_filter: "List.find P xs = (case filter P xs of [] \<Rightarrow> None | x # _ \<Rightarrow> Some x)"
  by (induction xs) auto

section \<open>Words\<close>

lemma unat_mod_less [u32_simps]: "(n :: IMG_UINT32) \<noteq> 0 \<Longrightarrow> unat (m mod n) < unat n"
  by (simp add: unat_mod unat_gt_0)

lemma unat_mod_less64 [u32_simps]: "(n :: IMG_UINTPTR_T) \<noteq> 0 \<Longrightarrow> unat (m mod n) < unat n"
  by (simp add: unat_mod unat_gt_0)

end
