(* ===== verification/Linked_List.thy ===== *)
theory Linked_List
  imports Pvr_Prelude "HOL-Library.Monad_Syntax"
begin

text \<open>
  The intrusive lists of \<open>services4/srvkm/include/lists.h\<close>. The header's macros generate, for each
  node type, functions on nodes that carry a pointer \<open>psNext\<close> to the next node and a pointer
  \<open>ppsThis\<close> to the cell that points at the node (the head variable or the predecessor's
  \<open>psNext\<close>). The macros are modelled here on an explicit store of pointer cells, so that the
  aliasing is visible: removal goes through \<open>ppsThis\<close> without knowing the list, and a traversal
  callback may unlink the node it is given.

  The predicate \<open>is_list\<close> relates a store to the list of node addresses. The theorems show that the
  pointer code implements the list functions the other components are written with: insertion at
  the head, removal of one element, reversal, and traversal up to the first interesting result.
\<close>

section \<open>The store\<close>

type_synonym node = IMG_UINTPTR_T

datatype loc = Head nat | Next node

record list_mem =
  cell :: "loc \<Rightarrow> node"
  ppsThis :: "node \<Rightarrow> loc"

abbreviation psNext :: "list_mem \<Rightarrow> node \<Rightarrow> node" where
  "psNext m p \<equiv> cell m (Next p)"

section \<open>The macros of lists.h\<close>

definition List_Insert :: "loc \<Rightarrow> node \<Rightarrow> list_mem \<Rightarrow> list_mem" where
  "List_Insert ppsHead psNewNode m =
     (let m1 = m\<lparr>ppsThis := (ppsThis m)(psNewNode := ppsHead)\<rparr>;
          m2 = m1\<lparr>cell := (cell m1)(Next psNewNode := cell m1 ppsHead)\<rparr>;
          m3 = m2\<lparr>cell := (cell m2)(ppsHead := psNewNode)\<rparr>
      in if psNext m3 psNewNode \<noteq> IMG_NULL
         then m3\<lparr>ppsThis := (ppsThis m3)(psNext m3 psNewNode := Next psNewNode)\<rparr>
         else m3)"

definition List_Remove :: "node \<Rightarrow> list_mem \<Rightarrow> list_mem" where
  "List_Remove psNode m =
     (let m1 = m\<lparr>cell := (cell m)(ppsThis m psNode := psNext m psNode)\<rparr>
      in if psNext m1 psNode \<noteq> IMG_NULL
         then m1\<lparr>ppsThis := (ppsThis m1)(psNext m1 psNode := ppsThis m1 psNode)\<rparr>
         else m1)"

partial_function (option) reverse_loop ::
  "loc \<Rightarrow> node \<Rightarrow> node \<Rightarrow> list_mem \<Rightarrow> (node \<times> list_mem) option" where
  "reverse_loop ppsHead psTmpNode1 psCurNode m =
     (if psCurNode = IMG_NULL then Some (psTmpNode1, m)
      else
        (let psTmpNode2 = psNext m psCurNode;
             m1 = m\<lparr>cell := (cell m)(Next psCurNode := psTmpNode1)\<rparr>;
             m2 = (if psTmpNode2 \<noteq> IMG_NULL
                   then m1\<lparr>ppsThis := (ppsThis m1)(psCurNode := Next psTmpNode2)\<rparr>
                   else m1\<lparr>ppsThis := (ppsThis m1)(psCurNode := ppsHead)\<rparr>)
         in reverse_loop ppsHead psCurNode psTmpNode2 m2))"

definition List_Reverse :: "loc \<Rightarrow> list_mem \<Rightarrow> list_mem option" where
  "List_Reverse ppsHead m =
     do { (psTmpNode1, m1) \<leftarrow> reverse_loop ppsHead IMG_NULL (cell m ppsHead) m;
          Some (m1\<lparr>cell := (cell m1)(ppsHead := psTmpNode1)\<rparr>) }"

partial_function (option) List_Any_va ::
  "'r \<Rightarrow> (node \<Rightarrow> list_mem \<times> 's \<Rightarrow> 'r \<times> list_mem \<times> 's) \<Rightarrow> node \<Rightarrow> 'r \<Rightarrow> list_mem \<times> 's
    \<Rightarrow> ('r \<times> list_mem \<times> 's) option" where
  "List_Any_va CONTINUE pfnCallBack psHead result st =
     (if psHead \<noteq> IMG_NULL \<and> result = CONTINUE then
        (let psNextNode = psNext (fst st) psHead;
             (result', st') = pfnCallBack psHead st
         in List_Any_va CONTINUE pfnCallBack psNextNode result' st')
      else Some (result, st))"

section \<open>Lists as the components see them\<close>

text \<open>Traversal of a list up to the first result other than \<open>CONTINUE\<close>.\<close>

fun any_va :: "'r \<Rightarrow> ('n \<Rightarrow> 's \<Rightarrow> 'r \<times> 's) \<Rightarrow> 'n list \<Rightarrow> 's \<Rightarrow> 'r \<times> 's" where
  "any_va CONTINUE pfnCallBack [] s = (CONTINUE, s)"
| "any_va CONTINUE pfnCallBack (x # xs) s =
     (let (r, s') = pfnCallBack x s
      in if r = CONTINUE then any_va CONTINUE pfnCallBack xs s' else (r, s'))"

text \<open>The same for a callback that updates the node it visits in place.\<close>

fun any_va_upd ::
  "'r \<Rightarrow> ('n \<Rightarrow> 's \<Rightarrow> 'r \<times> 'n \<times> 's) \<Rightarrow> 'n list \<Rightarrow> 's \<Rightarrow> 'r \<times> 'n list \<times> 's" where
  "any_va_upd CONTINUE pfnCallBack [] s = (CONTINUE, [], s)"
| "any_va_upd CONTINUE pfnCallBack (x # xs) s =
     (let (r, x', s') = pfnCallBack x s
      in if r = CONTINUE
         then (let (r2, xs', s2) = any_va_upd CONTINUE pfnCallBack xs s' in (r2, x' # xs', s2))
         else (r, x' # xs, s'))"

lemma any_va_append:
  "any_va c f (xs @ ys) s =
     (let (r, s') = any_va c f xs s in if r = c then any_va c f ys s' else (r, s'))"
  by (induction xs arbitrary: s) (auto simp: Let_def split: prod.splits)

lemma any_va_upd_length:
  "any_va_upd c f xs s = (r, xs', s') \<Longrightarrow> length xs' = length xs"
  by (induction xs arbitrary: s r xs' s') (auto simp: Let_def split: prod.splits if_splits)

lemma any_va_upd_inv:
  assumes "any_va_upd c f xs s = (r, xs', s')"
    and "\<And>x w r x' w'. f x w = (r, x', w') \<Longrightarrow> r = c \<Longrightarrow> P x x'"
  shows "r = c \<Longrightarrow> list_all2 P xs xs'"
  using assms(1)
  by (induction xs arbitrary: s r xs' s') (auto simp: Let_def split: prod.splits if_splits intro: assms(2))

section \<open>Abstraction\<close>

fun is_list :: "list_mem \<Rightarrow> loc \<Rightarrow> node list \<Rightarrow> bool" where
  "is_list m l [] \<longleftrightarrow> cell m l = IMG_NULL"
| "is_list m l (x # xs) \<longleftrightarrow>
     x \<noteq> IMG_NULL \<and> cell m l = x \<and> ppsThis m x = l \<and> is_list m (Next x) xs"

definition list_at :: "list_mem \<Rightarrow> nat \<Rightarrow> node list \<Rightarrow> bool" where
  "list_at m h xs \<longleftrightarrow> is_list m (Head h) xs \<and> distinct xs"

lemma is_list_frame:
  assumes "is_list m l xs" "cell m' l = cell m l"
    and "\<And>x. x \<in> set xs \<Longrightarrow> psNext m' x = psNext m x"
    and "\<And>x. x \<in> set xs \<Longrightarrow> ppsThis m' x = ppsThis m x"
  shows "is_list m' l xs"
  using assms by (induction xs arbitrary: l) auto

text \<open>The chain of successors from a node, which is all a traversal reads.\<close>

fun chain :: "list_mem \<Rightarrow> node \<Rightarrow> node list \<Rightarrow> bool" where
  "chain m p [] \<longleftrightarrow> p = IMG_NULL"
| "chain m p (x # xs) \<longleftrightarrow> p = x \<and> x \<noteq> IMG_NULL \<and> chain m (psNext m x) xs"

lemma is_list_chain: "is_list m l xs \<Longrightarrow> chain m (cell m l) xs"
  by (induction xs arbitrary: l) auto

lemma chain_frame:
  "chain m p xs \<Longrightarrow> (\<And>x. x \<in> set xs \<Longrightarrow> psNext m' x = psNext m x) \<Longrightarrow> chain m' p xs"
  by (induction xs arbitrary: p) auto

lemma is_list_this:
  "is_list m l xs \<Longrightarrow> p \<in> set xs \<Longrightarrow> ppsThis m p = l \<or> ppsThis m p \<in> Next ` set xs"
  by (induction xs arbitrary: l) fastforce+

lemma is_list_next:
  "is_list m l xs \<Longrightarrow> p \<in> set xs \<Longrightarrow> psNext m p = IMG_NULL \<or> psNext m p \<in> set xs"
  by (induction xs arbitrary: l) (auto, metis is_list.elims(2) list.set_intros(1))

section \<open>Insertion and removal\<close>

lemma List_Insert_is_list:
  assumes "is_list m l xs" "distinct xs" "p \<notin> set xs" "p \<noteq> IMG_NULL"
    and "l \<notin> Next ` set (p # xs)"
  shows "is_list (List_Insert l p m) l (p # xs)"
proof (cases xs)
  case Nil
  with assms show ?thesis by (simp add: List_Insert_def)
next
  case (Cons y ys)
  with assms have y: "cell m l = y" "y \<noteq> IMG_NULL" "y \<noteq> p" and tl: "is_list m (Next y) ys" by auto
  from tl have "is_list (List_Insert l p m) (Next y) ys"
    by (rule is_list_frame) (use assms Cons y in \<open>auto simp: List_Insert_def\<close>)
  with Cons assms y show ?thesis by (auto simp: List_Insert_def)
qed

lemma List_Remove_is_list:
  assumes "is_list m l (us @ p # vs)" "distinct (us @ p # vs)"
    and "l \<notin> Next ` set (us @ p # vs)"
  shows "is_list (List_Remove p m) l (us @ vs)"
  using assms
proof (induction us arbitrary: l)
  case Nil
  then have p: "ppsThis m p = l" "p \<noteq> IMG_NULL" "l \<noteq> Next p" and tl: "is_list m (Next p) vs" by auto
  show ?case
  proof (cases vs)
    case Nil
    with p tl show ?thesis by (simp add: List_Remove_def)
  next
    case (Cons v ws)
    with tl have v: "psNext m p = v" "v \<noteq> IMG_NULL" "is_list m (Next v) ws" by auto
    have off: "Next x \<noteq> l" if "x \<in> set ws" for x using Nil.prems(3) Cons that by auto
    from v(3) have "is_list (List_Remove p m) (Next v) ws"
      by (rule is_list_frame)
        (use p v Cons Nil.prems off in \<open>auto simp: List_Remove_def dest: off\<close>)
    with Cons p v show ?thesis by (simp add: List_Remove_def)
  qed
next
  case (Cons u us)
  then have u: "u \<noteq> IMG_NULL" "cell m l = u" "ppsThis m u = l" "is_list m (Next u) (us @ p # vs)"
    by auto
  have IH: "is_list (List_Remove p m) (Next u) (us @ vs)"
    using Cons u by (intro Cons.IH) auto
  have "ppsThis m p \<in> Next ` set (u # us @ p # vs)"
    using is_list_this [OF u(4), of p] by auto
  then have "ppsThis m p \<noteq> l" using Cons.prems(3) by auto
  moreover have "psNext m p \<noteq> u"
    using is_list_next [OF u(4), of p] Cons.prems(2) u(1) by auto
  ultimately show ?case using IH u by (simp add: List_Remove_def Let_def)
qed

section \<open>Reversal\<close>

text \<open>The loop's invariant: the nodes already visited form the reversed prefix, whose first node's
  \<open>ppsThis\<close> is the next cell still to be written.\<close>

fun rev_part :: "list_mem \<Rightarrow> loc \<Rightarrow> node \<Rightarrow> node list \<Rightarrow> bool" where
  "rev_part m l p [] \<longleftrightarrow> p = IMG_NULL"
| "rev_part m l p (x # xs) \<longleftrightarrow>
     p = x \<and> x \<noteq> IMG_NULL \<and> ppsThis m x = l \<and> rev_part m (Next x) (psNext m x) xs"

lemma rev_part_frame:
  assumes "rev_part m l p xs"
    and "\<And>x. x \<in> set xs \<Longrightarrow> psNext m' x = psNext m x"
    and "\<And>x. x \<in> set xs \<Longrightarrow> ppsThis m' x = ppsThis m x"
  shows "rev_part m' l p xs"
  using assms by (induction xs arbitrary: l p) auto

lemma rev_part_is_list:
  "rev_part m l p xs \<Longrightarrow> cell m l = p \<Longrightarrow> is_list m l xs"
  by (induction xs arbitrary: l p) auto

lemma reverse_loop_spec:
  assumes "rev_part m (if cur = IMG_NULL then h else Next cur) tmp rs" "chain m cur xs"
    and "distinct (rs @ xs)" "h \<notin> Next ` set (rs @ xs)"
  shows "\<exists>p m'. reverse_loop h tmp cur m = Some (p, m') \<and> rev_part m' h p (rev xs @ rs) \<and>
           (\<forall>l. l \<notin> Next ` set xs \<longrightarrow> cell m' l = cell m l) \<and>
           (\<forall>q. q \<notin> set xs \<longrightarrow> ppsThis m' q = ppsThis m q)"
  using assms
proof (induction xs arbitrary: m cur tmp rs)
  case Nil
  then show ?case by (simp add: reverse_loop.simps)
next
  case (Cons x xs)
  then have cur: "cur = x" "x \<noteq> IMG_NULL" by auto
  let ?nx = "psNext m x"
  let ?m2 = "m\<lparr>cell := (cell m)(Next x := tmp),
               ppsThis := (ppsThis m)(x := if ?nx = IMG_NULL then h else Next ?nx)\<rparr>"
  have step: "reverse_loop h tmp cur m = reverse_loop h x ?nx ?m2"
    using cur by (subst reverse_loop.simps) (simp add: Let_def)
  have "rev_part ?m2 (if ?nx = IMG_NULL then h else Next ?nx) x (x # rs)"
    using Cons.prems(1,3) cur by (auto elim: rev_part_frame)
  moreover have "chain ?m2 ?nx xs"
    by (rule chain_frame [of m]) (use Cons.prems(2,3) in auto)
  moreover have "distinct ((x # rs) @ xs)" "h \<notin> Next ` set ((x # rs) @ xs)"
    using Cons.prems(3,4) by auto
  ultimately obtain p m' where r: "reverse_loop h x ?nx ?m2 = Some (p, m')"
    "rev_part m' h p (rev xs @ x # rs)"
    "\<forall>l. l \<notin> Next ` set xs \<longrightarrow> cell m' l = cell ?m2 l"
    "\<forall>q. q \<notin> set xs \<longrightarrow> ppsThis m' q = ppsThis ?m2 q"
    using Cons.IH [of ?m2 ?nx x "x # rs"] by blast
  show ?case
    by (rule exI [of _ p], rule exI [of _ m'], intro conjI) (use step r in simp_all)
qed

section \<open>Other lists are left alone\<close>

lemma List_Insert_frame:
  "list_at m k ys \<Longrightarrow> k \<noteq> h \<Longrightarrow> p \<notin> set ys \<Longrightarrow> cell m (Head h) \<notin> set ys \<Longrightarrow>
     list_at (List_Insert (Head h) p m) k ys"
  by (auto simp: list_at_def List_Insert_def Let_def elim!: is_list_frame)

lemma List_Remove_frame:
  assumes "list_at m k ys" "k \<noteq> h" "list_at m h xs" "p \<in> set xs" "set ys \<inter> set xs = {}"
  shows "list_at (List_Remove p m) k ys"
proof -
  from assms have th: "ppsThis m p = Head h \<or> ppsThis m p \<in> Next ` set xs"
    and nx: "psNext m p = IMG_NULL \<or> psNext m p \<in> set xs"
    using is_list_this is_list_next unfolding list_at_def by blast+
  from assms(1) have "is_list m (Head k) ys" by (simp add: list_at_def)
  then have "is_list (List_Remove p m) (Head k) ys"
    by (rule is_list_frame) (use th nx assms(2-) in \<open>auto simp: List_Remove_def Let_def\<close>)
  with assms(1) show ?thesis by (simp add: list_at_def)
qed

section \<open>Correctness\<close>

text \<open>C19: Insertion and removal through the pointer cells implement the list operations. A new
  node becomes the head; a node is taken out wherever it stands, through its \<open>ppsThis\<close> alone; the
  order of the other nodes is kept; and every other list of the store, with nodes of its own, is
  left as it was.\<close>

theorem list_insert_remove_refines:
  assumes "list_at m h xs"
    and "list_at m k ys" "k \<noteq> h" "set ys \<inter> set xs = {}"
    and "p \<noteq> IMG_NULL" "p \<notin> set xs" "p \<notin> set ys" "q \<in> set xs"
  shows "list_at (List_Insert (Head h) p m) h (p # xs) \<and>
         list_at (List_Insert (Head h) p m) k ys \<and>
         list_at (List_Remove q m) h (remove1 q xs) \<and>
         list_at (List_Remove q m) k ys"
proof (intro conjI)
  show "list_at (List_Insert (Head h) p m) h (p # xs)"
    using assms List_Insert_is_list [of m "Head h" xs p] by (auto simp: list_at_def)
  have "cell m (Head h) \<notin> set ys"
    using assms by (cases xs) (auto simp: list_at_def)
  then show "list_at (List_Insert (Head h) p m) k ys"
    using assms by (intro List_Insert_frame) auto
  obtain us vs where xs: "xs = us @ q # vs" "q \<notin> set us"
    using split_list_first [OF assms(8)] by blast
  then have "is_list (List_Remove q m) (Head h) (us @ vs)"
    using assms(1) by (intro List_Remove_is_list) (auto simp: list_at_def)
  then show "list_at (List_Remove q m) h (remove1 q xs)"
    using assms(1) xs by (auto simp: list_at_def remove1_append)
  show "list_at (List_Remove q m) k ys"
    using assms by (intro List_Remove_frame [of m k ys h xs]) auto
qed

text \<open>The in-place reversal of a list always returns, with the list reversed and every other
  list of the store left as it was.\<close>

theorem list_reverse_refines:
  assumes "list_at m h xs" "list_at m k ys" "k \<noteq> h" "set ys \<inter> set xs = {}"
  shows "\<exists>m'. List_Reverse (Head h) m = Some m' \<and> list_at m' h (rev xs) \<and> list_at m' k ys"
proof -
  from assms(1) have ch: "chain m (cell m (Head h)) xs" "distinct xs"
    by (auto simp: list_at_def is_list_chain)
  obtain p m' where r: "reverse_loop (Head h) IMG_NULL (cell m (Head h)) m = Some (p, m')"
    "rev_part m' (Head h) p (rev xs)"
    "\<forall>l. l \<notin> Next ` set xs \<longrightarrow> cell m' l = cell m l"
    "\<forall>q. q \<notin> set xs \<longrightarrow> ppsThis m' q = ppsThis m q"
    using reverse_loop_spec [of m "cell m (Head h)" "Head h" IMG_NULL "[]" xs] ch by auto
  let ?m = "m'\<lparr>cell := (cell m')(Head h := p)\<rparr>"
  from r(2) have "rev_part ?m (Head h) p (rev xs)" by (rule rev_part_frame) auto
  then have "is_list ?m (Head h) (rev xs)" by (rule rev_part_is_list) simp
  moreover have "is_list ?m (Head k) ys"
    by (rule is_list_frame [of m]) (use assms r(3,4) in \<open>auto simp: list_at_def image_iff disjoint_iff\<close>)
  ultimately show ?thesis
    using r(1) ch(2) assms(2) by (simp add: List_Reverse_def list_at_def)
qed

lemma is_list_suffix_chain: "is_list m l (us @ xs) \<Longrightarrow> \<exists>p. chain m p xs"
  by (induction us arbitrary: l) (auto dest: is_list_chain)

lemma List_Any_va_suffix:
  assumes cb: "\<And>us x ys st r st'. list_at (fst st) h (us @ x # ys) \<Longrightarrow> f x st = (r, st') \<Longrightarrow>
           \<exists>us'. list_at (fst st') h (us' @ ys)"
    and "list_at (fst st) h (us @ xs)" "chain (fst st) p xs"
  shows "List_Any_va c f p c st = Some (any_va c f xs st)"
  using assms(2,3)
proof (induction xs arbitrary: p st us)
  case Nil
  then show ?case by (simp add: List_Any_va.simps)
next
  case (Cons x xs)
  obtain r st' where f: "f x st = (r, st')" by (cases "f x st")
  let ?nx = "psNext (fst st) x"
  have ch: "p = x" "x \<noteq> IMG_NULL" "chain (fst st) ?nx xs" using Cons.prems(2) by auto
  obtain us' where us': "list_at (fst st') h (us' @ xs)" using cb [OF Cons.prems(1) f] by blast
  then obtain p' where p': "chain (fst st') p' xs"
    using is_list_suffix_chain unfolding list_at_def by blast
  have "p' = ?nx" using p' ch(3) by (cases xs) auto
  then have IH: "List_Any_va c f ?nx c st' = Some (any_va c f xs st')"
    using Cons.IH [OF us'] p' by simp
  have "List_Any_va c f p c st = List_Any_va c f ?nx r st'"
    using ch f by (subst List_Any_va.simps) auto
  then show ?case
    using IH f by (cases "r = c") (simp_all add: List_Any_va.simps)
qed

text \<open>A traversal calls the callback on the nodes of the list in order, up to the first result
  other than the one that means continue, and always returns. The callback is free to unlink the
  node it is given, or any node already visited, and to insert new ones at the head: what it must
  keep is the rest of the list after the node.\<close>

theorem list_any_va_refines:
  assumes "list_at (fst st) h xs"
    and "\<And>us x ys st r st'. list_at (fst st) h (us @ x # ys) \<Longrightarrow> f x st = (r, st') \<Longrightarrow>
           \<exists>us'. list_at (fst st') h (us' @ ys)"
  shows "List_Any_va c f (cell (fst st) (Head h)) c st = Some (any_va c f xs st)"
proof (rule List_Any_va_suffix [OF assms(2), where us = "[]"])
  show "chain (fst st) (cell (fst st) (Head h)) xs"
    using assms(1) by (simp add: list_at_def is_list_chain)
qed (use assms(1) in simp_all)

section \<open>Examples\<close>

definition ex_mem :: list_mem where
  "ex_mem = List_Insert (Head 0) 10 (List_Insert (Head 0) 20 (List_Insert (Head 1) 30
     \<lparr>cell = \<lambda>_. IMG_NULL, ppsThis = \<lambda>_. Head 0\<rparr>))"

lemma ex_mem_lists: "list_at ex_mem 0 [10, 20]" "list_at ex_mem 1 [30]"
  by (simp_all add: ex_mem_def List_Insert_def list_at_def)

theorem list_insert_remove_refines_witness:
  "list_at (List_Insert (Head 0) 40 ex_mem) 0 [40, 10, 20] \<and>
   list_at (List_Remove 20 ex_mem) 0 [10] \<and> list_at (List_Remove 20 ex_mem) 1 [30]"
  using list_insert_remove_refines [OF ex_mem_lists, of 40 20] by simp

theorem list_reverse_refines_witness:
  "\<exists>m'. List_Reverse (Head 0) ex_mem = Some m' \<and> list_at m' 0 [20, 10] \<and> list_at m' 1 [30]"
  using list_reverse_refines [OF ex_mem_lists] by simp

text \<open>A callback that unlinks every node it visits and records its address.\<close>

definition ex_unlink :: "node \<Rightarrow> list_mem \<times> node list \<Rightarrow> bool \<times> list_mem \<times> node list" where
  "ex_unlink p st = (True, List_Remove p (fst st), snd st @ [p])"

lemma ex_unlink_keeps:
  assumes "list_at (fst st) h (us @ x # ys)" "ex_unlink x st = (r, st')"
  shows "\<exists>us'. list_at (fst st') h (us' @ ys)"
proof
  show "list_at (fst st') h (us @ ys)"
    using assms List_Remove_is_list [of "fst st" "Head h" us x ys]
    by (auto simp: ex_unlink_def list_at_def image_iff)
qed

theorem list_any_va_refines_witness:
  "List_Any_va True ex_unlink (cell ex_mem (Head 0)) True (ex_mem, []) =
     Some (True, List_Remove 20 (List_Remove 10 ex_mem), [10, 20])"
proof -
  have "List_Any_va True ex_unlink (cell (fst (ex_mem, [])) (Head 0)) True (ex_mem, []) =
          Some (any_va True ex_unlink [10, 20] (ex_mem, []))"
    using list_any_va_refines [of "(ex_mem, [])" 0 "[10, 20]" ex_unlink True] ex_mem_lists(1)
      ex_unlink_keeps by (metis fst_conv)
  then show ?thesis by (simp add: ex_unlink_def)
qed

end
