(* ===== verification/System_Config.thy ===== *)
theory System_Config
  imports Linked_List
begin

text \<open>
  The power hooks of the CE5300 system layer, \<open>services4/system/ce5300/sysconfig.c\<close>: the register
  window of the SGX core is unmapped on the way into D3 and mapped again on the way back to D0.

  The state is the part of \<open>SYS_SPECIFIC_DATA\<close>, of \<open>gsSGXDeviceMap\<close> and of the device nodes that the
  hooks touch. The kernel's \<open>ioremap\<close>, behind \<open>OSMapPhysToLin\<close>, is a parameter of the model kept as
  data, as \<open>kmalloc\<close> is: \<open>io_maps\<close> lists the addresses the coming calls return, 0 for a failed
  call. \<open>sys_calls\<close> records the calls into the operating system layer that have no other effect on
  the state.
\<close>

datatype PVRSRV_DEVICE_TYPE = PVRSRV_DEVICE_TYPE_SGX | PVRSRV_DEVICE_TYPE_EXT | PVRSRV_DEVICE_TYPE_OTHER

datatype PVRSRV_SYS_POWER_STATE =
    PVRSRV_SYS_POWER_STATE_Unspecified
  | PVRSRV_SYS_POWER_STATE_D0
  | PVRSRV_SYS_POWER_STATE_D1
  | PVRSRV_SYS_POWER_STATE_D2
  | PVRSRV_SYS_POWER_STATE_D3
  | PVRSRV_SYS_POWER_STATE_D4

datatype PVRSRV_DEV_POWER_STATE =
    PVRSRV_DEV_POWER_STATE_DEFAULT
  | PVRSRV_DEV_POWER_STATE_ON
  | PVRSRV_DEV_POWER_STATE_IDLE
  | PVRSRV_DEV_POWER_STATE_OFF

datatype os_call = OSPCIReleaseDev IMG_UINTPTR_T | OSUnMapPhysToLin IMG_UINTPTR_T

record PVRSRV_SGXDEV_INFO =
  eDeviceType :: PVRSRV_DEVICE_TYPE
  pvRegsBaseKM :: IMG_UINTPTR_T
  ui32RegSize :: IMG_UINT32
  sRegsPhysBase :: IMG_UINTPTR_T

record SYS_SPECIFIC_DATA =
  ui32SysSpecificData :: IMG_UINT32
  hSGXPCI :: IMG_UINTPTR_T
  map_sRegsSysPBase :: IMG_UINTPTR_T
  map_ui32RegsSize :: IMG_UINT32
  psDeviceNodeList :: "PVRSRV_SGXDEV_INFO list"
  io_maps :: "IMG_UINTPTR_T list"
  sys_calls :: "os_call list"

definition SYS_SPECIFIC_DATA_IRQ_ENABLED :: IMG_UINT32 where
  "SYS_SPECIFIC_DATA_IRQ_ENABLED = 0x800"
definition SYS_SPECIFIC_DATA_PM_UNMAP_SGX_REGS :: IMG_UINT32 where
  "SYS_SPECIFIC_DATA_PM_UNMAP_SGX_REGS = 0x1000"

definition SYS_SPECIFIC_DATA_SET :: "SYS_SPECIFIC_DATA \<Rightarrow> IMG_UINT32 \<Rightarrow> SYS_SPECIFIC_DATA" where
  "SYS_SPECIFIC_DATA_SET d flag = d\<lparr>ui32SysSpecificData := ui32SysSpecificData d OR flag\<rparr>"
definition SYS_SPECIFIC_DATA_CLEAR :: "SYS_SPECIFIC_DATA \<Rightarrow> IMG_UINT32 \<Rightarrow> SYS_SPECIFIC_DATA" where
  "SYS_SPECIFIC_DATA_CLEAR d flag = d\<lparr>ui32SysSpecificData := ui32SysSpecificData d AND NOT flag\<rparr>"
definition SYS_SPECIFIC_DATA_TEST :: "SYS_SPECIFIC_DATA \<Rightarrow> IMG_UINT32 \<Rightarrow> bool" where
  "SYS_SPECIFIC_DATA_TEST d flag \<longleftrightarrow> ui32SysSpecificData d AND flag \<noteq> 0"

definition OSMapPhysToLin :: "SYS_SPECIFIC_DATA \<Rightarrow> IMG_UINTPTR_T \<times> SYS_SPECIFIC_DATA" where
  "OSMapPhysToLin d =
     (case io_maps d of [] \<Rightarrow> (IMG_NULL, d) | a # as \<Rightarrow> (a, d\<lparr>io_maps := as\<rparr>))"

fun map_nodes ::
  "PVRSRV_SGXDEV_INFO list \<Rightarrow> SYS_SPECIFIC_DATA
    \<Rightarrow> PVRSRV_ERROR \<times> PVRSRV_SGXDEV_INFO list \<times> SYS_SPECIFIC_DATA" where
  "map_nodes [] d = (PVRSRV_OK, [], d)"
| "map_nodes (n # ns) d =
     (if eDeviceType n = PVRSRV_DEVICE_TYPE_SGX then
        (let (eError, n1, d1) =
               (if SYS_SPECIFIC_DATA_TEST d SYS_SPECIFIC_DATA_PM_UNMAP_SGX_REGS then
                  (let (a, d0) = OSMapPhysToLin d in
                   if a = IMG_NULL then (PVRSRV_ERROR_BAD_MAPPING, n\<lparr>pvRegsBaseKM := a\<rparr>, d0)
                   else (PVRSRV_OK, n\<lparr>pvRegsBaseKM := a\<rparr>,
                         SYS_SPECIFIC_DATA_CLEAR d0 SYS_SPECIFIC_DATA_PM_UNMAP_SGX_REGS))
                else (PVRSRV_OK, n, d))
         in if eError \<noteq> PVRSRV_OK then (eError, n1 # ns, d1)
            else
              (let n2 = n1\<lparr>ui32RegSize := map_ui32RegsSize d1,
                           sRegsPhysBase := map_sRegsSysPBase d1\<rparr>;
                   (eError, ns', d2) = map_nodes ns d1
               in (eError, n2 # ns', d2)))
      else (let (eError, ns', d') = map_nodes ns d in (eError, n # ns', d')))"

definition SysMapInRegisters :: "SYS_SPECIFIC_DATA \<Rightarrow> PVRSRV_ERROR \<times> SYS_SPECIFIC_DATA" where
  "SysMapInRegisters d =
     (let (eError, ns, d') = map_nodes (psDeviceNodeList d) d in (eError, d'\<lparr>psDeviceNodeList := ns\<rparr>))"

fun unmap_nodes ::
  "PVRSRV_SGXDEV_INFO list \<Rightarrow> SYS_SPECIFIC_DATA \<Rightarrow> PVRSRV_SGXDEV_INFO list \<times> SYS_SPECIFIC_DATA" where
  "unmap_nodes [] d = ([], d)"
| "unmap_nodes (n # ns) d =
     (if eDeviceType n = PVRSRV_DEVICE_TYPE_SGX then
        (let d1 = (if pvRegsBaseKM n \<noteq> IMG_NULL then
                     SYS_SPECIFIC_DATA_SET
                       (d\<lparr>sys_calls := sys_calls d @ [OSUnMapPhysToLin (pvRegsBaseKM n)]\<rparr>)
                       SYS_SPECIFIC_DATA_PM_UNMAP_SGX_REGS
                   else d);
             n1 = n\<lparr>pvRegsBaseKM := IMG_NULL, ui32RegSize := 0, sRegsPhysBase := 0\<rparr>;
             (ns', d2) = unmap_nodes ns d1
         in (n1 # ns', d2))
      else (let (ns', d') = unmap_nodes ns d in (n # ns', d')))"

definition SysUnmapRegisters :: "SYS_SPECIFIC_DATA \<Rightarrow> PVRSRV_ERROR \<times> SYS_SPECIFIC_DATA" where
  "SysUnmapRegisters d =
     (let (ns, d') = unmap_nodes (psDeviceNodeList d) d in (PVRSRV_OK, d'\<lparr>psDeviceNodeList := ns\<rparr>))"

definition SysSystemPrePowerState ::
  "PVRSRV_SYS_POWER_STATE \<Rightarrow> SYS_SPECIFIC_DATA \<Rightarrow> PVRSRV_ERROR \<times> SYS_SPECIFIC_DATA" where
  "SysSystemPrePowerState eNewPowerState d =
     (if eNewPowerState = PVRSRV_SYS_POWER_STATE_D3 then
        (let d1 = (if SYS_SPECIFIC_DATA_TEST d SYS_SPECIFIC_DATA_IRQ_ENABLED then
                     SYS_SPECIFIC_DATA_CLEAR
                       (d\<lparr>sys_calls := sys_calls d @ [OSPCIReleaseDev (hSGXPCI d)]\<rparr>)
                       SYS_SPECIFIC_DATA_IRQ_ENABLED
                   else d)
         in SysUnmapRegisters d1)
      else (PVRSRV_OK, d))"

definition SysSystemPostPowerState ::
  "PVRSRV_SYS_POWER_STATE \<Rightarrow> SYS_SPECIFIC_DATA \<Rightarrow> PVRSRV_ERROR \<times> SYS_SPECIFIC_DATA" where
  "SysSystemPostPowerState eNewPowerState d =
     (if eNewPowerState = PVRSRV_SYS_POWER_STATE_D0 then SysMapInRegisters d else (PVRSRV_OK, d))"

definition SysDevicePrePowerState ::
  "IMG_UINT32 \<Rightarrow> PVRSRV_DEV_POWER_STATE \<Rightarrow> PVRSRV_DEV_POWER_STATE \<Rightarrow> PVRSRV_ERROR" where
  "SysDevicePrePowerState ui32DeviceIndex eNewPowerState eCurrentPowerState = PVRSRV_OK"

definition SysDevicePostPowerState ::
  "IMG_UINT32 \<Rightarrow> PVRSRV_DEV_POWER_STATE \<Rightarrow> PVRSRV_DEV_POWER_STATE \<Rightarrow> PVRSRV_ERROR" where
  "SysDevicePostPowerState ui32DeviceIndex eNewPowerState eCurrentPowerState = PVRSRV_OK"

section \<open>Suspend and resume of the register window\<close>

definition sgx_mapped :: "SYS_SPECIFIC_DATA \<Rightarrow> bool" where
  "sgx_mapped d \<longleftrightarrow>
     \<not> SYS_SPECIFIC_DATA_TEST d SYS_SPECIFIC_DATA_PM_UNMAP_SGX_REGS \<and>
     (\<forall>n \<in> set (psDeviceNodeList d). eDeviceType n = PVRSRV_DEVICE_TYPE_SGX \<longrightarrow>
        pvRegsBaseKM n \<noteq> IMG_NULL \<and> ui32RegSize n = map_ui32RegsSize d \<and>
        sRegsPhysBase n = map_sRegsSysPBase d)"

definition sgx_unmapped :: "SYS_SPECIFIC_DATA \<Rightarrow> bool" where
  "sgx_unmapped d \<longleftrightarrow>
     (\<forall>n \<in> set (psDeviceNodeList d). eDeviceType n = PVRSRV_DEVICE_TYPE_SGX \<longrightarrow>
        pvRegsBaseKM n = IMG_NULL \<and> ui32RegSize n = 0 \<and> sRegsPhysBase n = 0) \<and>
     ((\<exists>n \<in> set (psDeviceNodeList d). eDeviceType n = PVRSRV_DEVICE_TYPE_SGX) \<longrightarrow>
        SYS_SPECIFIC_DATA_TEST d SYS_SPECIFIC_DATA_PM_UNMAP_SGX_REGS)"

definition is_sgx :: "PVRSRV_SGXDEV_INFO \<Rightarrow> bool" where
  "is_sgx n \<longleftrightarrow> eDeviceType n = PVRSRV_DEVICE_TYPE_SGX"

lemma word_or_and_absorb: "((x :: IMG_UINT32) OR f) AND f = f"
  by (rule bit_word_eqI) (auto simp: bit_simps)

lemma word_and_not_and: "((x :: IMG_UINT32) AND NOT f) AND f = 0"
  by (rule bit_word_eqI) (auto simp: bit_simps)

lemma word_and_not_other: "f AND g = 0 \<Longrightarrow> ((x :: IMG_UINT32) AND NOT f) AND g = x AND g"
proof (rule bit_word_eqI)
  fix n assume fg: "f AND g = 0" and n: "n < LENGTH(32)"
  have "\<not> (bit f n \<and> bit g n)" using fg by (metis bit_0_eq bit_and_iff bot_apply bot_bool_def)
  with n show "bit ((x AND NOT f) AND g) n = bit (x AND g) n" by (auto simp: bit_simps)
qed

lemma flag_set_test: "flag \<noteq> 0 \<Longrightarrow> SYS_SPECIFIC_DATA_TEST (SYS_SPECIFIC_DATA_SET d flag) flag"
  by (simp add: SYS_SPECIFIC_DATA_TEST_def SYS_SPECIFIC_DATA_SET_def word_or_and_absorb)

lemma flag_clear_test: "\<not> SYS_SPECIFIC_DATA_TEST (SYS_SPECIFIC_DATA_CLEAR d flag) flag"
  by (simp add: SYS_SPECIFIC_DATA_TEST_def SYS_SPECIFIC_DATA_CLEAR_def word_and_not_and)

lemma flag_clear_other:
  "f AND g = 0 \<Longrightarrow> SYS_SPECIFIC_DATA_TEST (SYS_SPECIFIC_DATA_CLEAR d f) g = SYS_SPECIFIC_DATA_TEST d g"
  by (simp add: SYS_SPECIFIC_DATA_TEST_def SYS_SPECIFIC_DATA_CLEAR_def word_and_not_other)

lemma pm_flag_nonzero [simp]: "SYS_SPECIFIC_DATA_PM_UNMAP_SGX_REGS \<noteq> 0"
  by (simp add: SYS_SPECIFIC_DATA_PM_UNMAP_SGX_REGS_def)

abbreviation pm_unmapped :: "SYS_SPECIFIC_DATA \<Rightarrow> bool" where
  "pm_unmapped d \<equiv> SYS_SPECIFIC_DATA_TEST d SYS_SPECIFIC_DATA_PM_UNMAP_SGX_REGS"

lemma unmap_nodes_spec:
  assumes "unmap_nodes ns d = (ns', d')"
  shows "map eDeviceType ns' = map eDeviceType ns \<and>
         (\<forall>n \<in> set ns'. is_sgx n \<longrightarrow> pvRegsBaseKM n = IMG_NULL \<and> ui32RegSize n = 0 \<and> sRegsPhysBase n = 0) \<and>
         (pm_unmapped d' \<longleftrightarrow> pm_unmapped d \<or> (\<exists>n \<in> set ns. is_sgx n \<and> pvRegsBaseKM n \<noteq> IMG_NULL)) \<and>
         map_ui32RegsSize d' = map_ui32RegsSize d \<and> map_sRegsSysPBase d' = map_sRegsSysPBase d \<and>
         io_maps d' = io_maps d \<and> psDeviceNodeList d' = psDeviceNodeList d"
  using assms
proof (induction ns arbitrary: d ns' d')
  case Nil
  then show ?case by simp
next
  case (Cons n ns)
  show ?case
  proof (cases "is_sgx n")
    case False
    then obtain ns1 where u: "unmap_nodes ns d = (ns1, d')" "ns' = n # ns1"
      using Cons.prems by (auto simp: is_sgx_def Let_def split: prod.splits)
    from Cons.IH [OF u(1)] u(2) False show ?thesis by (auto simp: is_sgx_def)
  next
    case True
    let ?d1 = "if pvRegsBaseKM n \<noteq> IMG_NULL then
                 SYS_SPECIFIC_DATA_SET (d\<lparr>sys_calls := sys_calls d @ [OSUnMapPhysToLin (pvRegsBaseKM n)]\<rparr>)
                   SYS_SPECIFIC_DATA_PM_UNMAP_SGX_REGS else d"
    obtain ns1 where u: "unmap_nodes ns ?d1 = (ns1, d')"
      "ns' = n\<lparr>pvRegsBaseKM := IMG_NULL, ui32RegSize := 0, sRegsPhysBase := 0\<rparr> # ns1"
      using Cons.prems True unfolding is_sgx_def by (auto simp: Let_def split: prod.splits if_splits)
    have d1: "pm_unmapped ?d1 \<longleftrightarrow> pm_unmapped d \<or> pvRegsBaseKM n \<noteq> IMG_NULL"
      "map_ui32RegsSize ?d1 = map_ui32RegsSize d" "map_sRegsSysPBase ?d1 = map_sRegsSysPBase d"
      "io_maps ?d1 = io_maps d" "psDeviceNodeList ?d1 = psDeviceNodeList d"
      by (auto simp: flag_set_test) (auto simp: SYS_SPECIFIC_DATA_SET_def)
    from Cons.IH [OF u(1)] u(2) d1 True show ?thesis by (auto simp: is_sgx_def)
  qed
qed

lemma map_nodes_no_sgx:
  "\<forall>n \<in> set ns. \<not> is_sgx n \<Longrightarrow> map_nodes ns d = (PVRSRV_OK, ns, d)"
  by (induction ns) (auto simp: is_sgx_def)

lemma map_nodes_types:
  "map_nodes ns d = (e, ns', d') \<Longrightarrow> map eDeviceType ns' = map eDeviceType ns"
  by (induction ns arbitrary: d e ns' d') (auto simp: Let_def split: prod.splits if_splits)

text \<open>The system has one SGX core (\<open>SysInitialise\<close> registers one SGX device).\<close>

definition one_sgx :: "SYS_SPECIFIC_DATA \<Rightarrow> bool" where
  "one_sgx d \<longleftrightarrow> length (filter is_sgx (psDeviceNodeList d)) = 1"

lemma map_nodes_one:
  assumes "map_nodes ns d = (e, ns', d')" "length (filter is_sgx ns) = 1" "pm_unmapped d"
  shows "if fst (OSMapPhysToLin d) = IMG_NULL then e = PVRSRV_ERROR_BAD_MAPPING
         else e = PVRSRV_OK \<and> \<not> pm_unmapped d' \<and>
              (\<forall>n \<in> set ns'. is_sgx n \<longrightarrow> pvRegsBaseKM n = fst (OSMapPhysToLin d) \<and>
                 ui32RegSize n = map_ui32RegsSize d' \<and> sRegsPhysBase n = map_sRegsSysPBase d')"
  using assms
proof (induction ns arbitrary: d e ns' d')
  case Nil
  then show ?case by simp
next
  case (Cons n ns)
  obtain a d0 where a: "OSMapPhysToLin d = (a, d0)" by (cases "OSMapPhysToLin d")
  show ?case
  proof (cases "is_sgx n")
    case True
    then have no: "\<forall>n \<in> set ns. \<not> is_sgx n" using Cons.prems(2) by (simp add: filter_empty_conv)
    let ?c = "SYS_SPECIFIC_DATA_CLEAR d0 SYS_SPECIFIC_DATA_PM_UNMAP_SGX_REGS"
    show ?thesis
    proof (cases "a = IMG_NULL")
      case True
      with Cons.prems \<open>is_sgx n\<close> a show ?thesis by (auto simp: is_sgx_def)
    next
      case False
      with Cons.prems \<open>is_sgx n\<close> a map_nodes_no_sgx [OF no]
      have "e = PVRSRV_OK" "d' = ?c"
        "ns' = n\<lparr>pvRegsBaseKM := a, ui32RegSize := map_ui32RegsSize ?c, sRegsPhysBase := map_sRegsSysPBase ?c\<rparr> # ns"
        by (auto simp: is_sgx_def Let_def)
      with no False a show ?thesis by (auto simp: flag_clear_test)
    qed
  next
    case False
    then obtain ns1 where u: "map_nodes ns d = (e, ns1, d')" "ns' = n # ns1"
      using Cons.prems by (auto simp: is_sgx_def Let_def split: prod.splits)
    have "length (filter is_sgx ns) = 1" using Cons.prems(2) False by simp
    from Cons.IH [OF u(1) this Cons.prems(3)] u(2) False show ?thesis by auto
  qed
qed

lemma sgx_unmap:
  assumes "sgx_mapped d" "SysSystemPrePowerState PVRSRV_SYS_POWER_STATE_D3 d = (e, d')"
  shows "e = PVRSRV_OK" "sgx_unmapped d'" "io_maps d' = io_maps d"
    "map eDeviceType (psDeviceNodeList d') = map eDeviceType (psDeviceNodeList d)"
proof -
  define d1 where "d1 = (if SYS_SPECIFIC_DATA_TEST d SYS_SPECIFIC_DATA_IRQ_ENABLED then
      SYS_SPECIFIC_DATA_CLEAR (d\<lparr>sys_calls := sys_calls d @ [OSPCIReleaseDev (hSGXPCI d)]\<rparr>)
        SYS_SPECIFIC_DATA_IRQ_ENABLED else d)"
  obtain ns d2 where u: "unmap_nodes (psDeviceNodeList d1) d1 = (ns, d2)"
    by (cases "unmap_nodes (psDeviceNodeList d1) d1")
  have d1: "psDeviceNodeList d1 = psDeviceNodeList d" "io_maps d1 = io_maps d"
    by (simp_all add: d1_def SYS_SPECIFIC_DATA_CLEAR_def)
  have r: "e = PVRSRV_OK" "d' = d2\<lparr>psDeviceNodeList := ns\<rparr>"
    using assms(2) u unfolding SysSystemPrePowerState_def SysUnmapRegisters_def
    by (simp_all add: d1_def [symmetric])
  note sp = unmap_nodes_spec [OF u]
  then have ty: "map eDeviceType ns = map eDeviceType (psDeviceNodeList d)" using d1 by simp
  have "\<exists>n \<in> set (psDeviceNodeList d). is_sgx n \<and> pvRegsBaseKM n \<noteq> IMG_NULL"
    if n: "n \<in> set ns" "is_sgx n" for n
  proof -
    have "eDeviceType n \<in> set (map eDeviceType (psDeviceNodeList d))"
      using n(1) ty by (metis image_eqI list.set_map)
    then obtain x where "x \<in> set (psDeviceNodeList d)" "is_sgx x"
      using n(2) by (auto simp: is_sgx_def)
    then show ?thesis using assms(1) unfolding sgx_mapped_def is_sgx_def by blast
  qed
  then show "sgx_unmapped d'"
    using sp d1 r(2) unfolding sgx_unmapped_def
    by (auto simp: is_sgx_def SYS_SPECIFIC_DATA_TEST_def)
  show "e = PVRSRV_OK" by (rule r)
  show "io_maps d' = io_maps d" using r(2) sp d1 by simp
  show "map eDeviceType (psDeviceNodeList d') = map eDeviceType (psDeviceNodeList d)"
    using r(2) ty by simp
qed

lemma sgx_remap:
  assumes "sgx_unmapped d" "one_sgx d" "SysSystemPostPowerState PVRSRV_SYS_POWER_STATE_D0 d = (e, d')"
  shows "if fst (OSMapPhysToLin d) = IMG_NULL then e = PVRSRV_ERROR_BAD_MAPPING
         else e = PVRSRV_OK \<and> sgx_mapped d'"
proof -
  obtain ns d2 where m: "map_nodes (psDeviceNodeList d) d = (e, ns, d2)"
    "d' = d2\<lparr>psDeviceNodeList := ns\<rparr>"
    using assms(3) by (auto simp: SysSystemPostPowerState_def SysMapInRegisters_def split: prod.splits)
  have one: "length (filter is_sgx (psDeviceNodeList d)) = 1" using assms(2) by (simp add: one_sgx_def)
  then have "filter is_sgx (psDeviceNodeList d) \<noteq> []" by auto
  then have "pm_unmapped d"
    using assms(1) by (auto simp: sgx_unmapped_def filter_empty_conv is_sgx_def)
  note sp = map_nodes_one [OF m(1) one this]
  then show ?thesis using m(2)
    by (auto simp: sgx_mapped_def is_sgx_def SYS_SPECIFIC_DATA_TEST_def split: if_splits)
qed

text \<open>Suspending to D3 and resuming to D0 gives the SGX core its register window back: after
  the suspend hook no SGX node keeps a mapping or a size, and the resume hook either fails with a
  mapping error, exactly when the kernel refuses the mapping, or leaves every SGX node mapped with
  the size and physical base of the device map.\<close>

theorem suspend_resume_registers:
  assumes "sgx_mapped d" "one_sgx d"
    and "SysSystemPrePowerState PVRSRV_SYS_POWER_STATE_D3 d = (e1, d1)"
    and "SysSystemPostPowerState PVRSRV_SYS_POWER_STATE_D0 d1 = (e2, d2)"
  shows "e1 = PVRSRV_OK \<and> sgx_unmapped d1 \<and>
         (if fst (OSMapPhysToLin d) = IMG_NULL then e2 = PVRSRV_ERROR_BAD_MAPPING
          else e2 = PVRSRV_OK \<and> sgx_mapped d2)"
proof -
  note un = sgx_unmap [OF assms(1,3)]
  have is_sgx_type: "is_sgx = (\<lambda>t. t = PVRSRV_DEVICE_TYPE_SGX) \<circ> eDeviceType"
    by (simp add: fun_eq_iff is_sgx_def)
  have "length (filter is_sgx ns) = length (filter (\<lambda>t. t = PVRSRV_DEVICE_TYPE_SGX) (map eDeviceType ns))" for ns
    unfolding is_sgx_type by (simp add: filter_map comp_def)
  then have "one_sgx d1" using assms(2) un(4) unfolding one_sgx_def by metis
  from sgx_remap [OF un(2) this assms(4)] have
    "if fst (OSMapPhysToLin d1) = IMG_NULL then e2 = PVRSRV_ERROR_BAD_MAPPING
     else e2 = PVRSRV_OK \<and> sgx_mapped d2" .
  moreover have "fst (OSMapPhysToLin d1) = fst (OSMapPhysToLin d)"
    using un(3) by (simp add: OSMapPhysToLin_def split: list.splits)
  ultimately show ?thesis using un by simp
qed

definition ex_sys :: SYS_SPECIFIC_DATA where
  "ex_sys = \<lparr>ui32SysSpecificData = 0x343, hSGXPCI = 7, map_sRegsSysPBase = 0xdc000000,
     map_ui32RegsSize = 0x4000,
     psDeviceNodeList =
       [\<lparr>eDeviceType = PVRSRV_DEVICE_TYPE_EXT, pvRegsBaseKM = 0, ui32RegSize = 0, sRegsPhysBase = 0\<rparr>,
        \<lparr>eDeviceType = PVRSRV_DEVICE_TYPE_SGX, pvRegsBaseKM = 0x9000, ui32RegSize = 0x4000,
         sRegsPhysBase = 0xdc000000\<rparr>],
     io_maps = [0xa000], sys_calls = []\<rparr>"

lemma ex_sys_mapped: "sgx_mapped ex_sys" "one_sgx ex_sys"
  by (simp_all add: ex_sys_def sgx_mapped_def one_sgx_def is_sgx_def SYS_SPECIFIC_DATA_TEST_def
      SYS_SPECIFIC_DATA_PM_UNMAP_SGX_REGS_def)

theorem suspend_resume_registers_witness:
  "let (e1, d1) = SysSystemPrePowerState PVRSRV_SYS_POWER_STATE_D3 ex_sys;
       (e2, d2) = SysSystemPostPowerState PVRSRV_SYS_POWER_STATE_D0 d1
   in e1 = PVRSRV_OK \<and> sgx_unmapped d1 \<and> e2 = PVRSRV_OK \<and> sgx_mapped d2"
  using suspend_resume_registers [OF ex_sys_mapped]
  by (simp add: OSMapPhysToLin_def ex_sys_def split: prod.splits)

end
