(* ===== verification/Power_Manager.thy ===== *)
theory Power_Manager
  imports System_Config
begin

text \<open>
  Power management: \<open>services4/srvkm/common/power.c\<close>. The state is the part of \<open>SYS_DATA\<close> that the
  file works on, with the system layer's state inside it. A registered power device carries the
  callbacks of its driver; they are parameters of the model, functions on the state \<open>'w\<close> of the
  drivers, and nothing is assumed of them.

  The power lock is shared with other threads. What they do while a caller waits for the lock is the
  parameter \<open>others\<close>, applied to the state at every turn of the waiting loop.

  When the system is powered again the devices are told to look for finished commands. Those callbacks run without the lock and may enter this
  component again (the SGX one powers its device up): the parameter \<open>complete\<close> gives, for the function pointer of a device and the device
  node, the change of the whole state, and nothing is assumed of it.
\<close>

section \<open>Data\<close>

datatype PVRSRV_INIT_SERVER_STATE =
    PVRSRV_INIT_SERVER_Unspecified
  | PVRSRV_INIT_SERVER_RUNNING
  | PVRSRV_INIT_SERVER_RAN
  | PVRSRV_INIT_SERVER_SUCCESSFUL
  | PVRSRV_INIT_SERVER_NUM

type_synonym 'w PFN_POWER =
  "IMG_UINTPTR_T \<Rightarrow> PVRSRV_DEV_POWER_STATE \<Rightarrow> PVRSRV_DEV_POWER_STATE \<Rightarrow> 'w \<Rightarrow> PVRSRV_ERROR \<times> 'w"
type_synonym 'w PFN_CLOCKSPEED_CHANGE =
  "IMG_UINTPTR_T \<Rightarrow> bool \<Rightarrow> PVRSRV_DEV_POWER_STATE \<Rightarrow> 'w \<Rightarrow> PVRSRV_ERROR \<times> 'w"

record 'w PVRSRV_POWER_DEV =
  psPowerDevice :: IMG_UINTPTR_T
  pfnPrePower :: "'w PFN_POWER option"
  pfnPostPower :: "'w PFN_POWER option"
  pfnPreClockSpeedChange :: "'w PFN_CLOCKSPEED_CHANGE option"
  pfnPostClockSpeedChange :: "'w PFN_CLOCKSPEED_CHANGE option"
  hDevCookie :: IMG_UINTPTR_T
  ui32DeviceIndex :: IMG_UINT32
  dev_eDefaultPowerState :: PVRSRV_DEV_POWER_STATE
  dev_eCurrentPowerState :: PVRSRV_DEV_POWER_STATE

text \<open>A node of the list of devices: its address and its function for finished commands, which may be \<open>NULL\<close>.\<close>

record COMPLETE_NODE =
  pn_psDeviceNode :: IMG_UINTPTR_T
  pn_pfnDeviceCommandComplete :: IMG_UINTPTR_T

record 'w SYS_DATA =
  eCurrentPowerState :: PVRSRV_SYS_POWER_STATE
  eFailedPowerState :: PVRSRV_SYS_POWER_STATE
  sPowerStateChangeResource :: PVRSRV_RESOURCE
  psPowerDeviceList :: "'w PVRSRV_POWER_DEV list"
  sys_psDeviceNodeList :: "COMPLETE_NODE list"
  pvSysSpecificData :: SYS_SPECIFIC_DATA
  gbInitServerRunning :: bool
  gbInitServerRan :: bool
  gbInitSuccessful :: bool
  sys_os :: os
  drivers :: 'w

section \<open>Operations\<close>

definition PVRSRVSetInitServerState ::
  "PVRSRV_INIT_SERVER_STATE \<Rightarrow> bool \<Rightarrow> 'w SYS_DATA \<Rightarrow> PVRSRV_ERROR \<times> 'w SYS_DATA" where
  "PVRSRVSetInitServerState eInitServerState bState s =
     (case eInitServerState of
        PVRSRV_INIT_SERVER_RUNNING \<Rightarrow> (PVRSRV_OK, s\<lparr>gbInitServerRunning := bState\<rparr>)
      | PVRSRV_INIT_SERVER_RAN \<Rightarrow> (PVRSRV_OK, s\<lparr>gbInitServerRan := bState\<rparr>)
      | PVRSRV_INIT_SERVER_SUCCESSFUL \<Rightarrow> (PVRSRV_OK, s\<lparr>gbInitSuccessful := bState\<rparr>)
      | _ \<Rightarrow> (PVRSRV_ERROR_UNKNOWN_INIT_SERVER_STATE, s))"

definition PVRSRVGetInitServerState :: "PVRSRV_INIT_SERVER_STATE \<Rightarrow> 'w SYS_DATA \<Rightarrow> bool" where
  "PVRSRVGetInitServerState eInitServerState s =
     (case eInitServerState of
        PVRSRV_INIT_SERVER_RUNNING \<Rightarrow> gbInitServerRunning s
      | PVRSRV_INIT_SERVER_RAN \<Rightarrow> gbInitServerRan s
      | PVRSRV_INIT_SERVER_SUCCESSFUL \<Rightarrow> gbInitSuccessful s
      | _ \<Rightarrow> False)"

fun sys_power_state_value :: "PVRSRV_SYS_POWER_STATE \<Rightarrow> int" where
  "sys_power_state_value PVRSRV_SYS_POWER_STATE_Unspecified = - 1"
| "sys_power_state_value PVRSRV_SYS_POWER_STATE_D0 = 0"
| "sys_power_state_value PVRSRV_SYS_POWER_STATE_D1 = 1"
| "sys_power_state_value PVRSRV_SYS_POWER_STATE_D2 = 2"
| "sys_power_state_value PVRSRV_SYS_POWER_STATE_D3 = 3"
| "sys_power_state_value PVRSRV_SYS_POWER_STATE_D4 = 4"

definition IsSystemStatePowered :: "PVRSRV_SYS_POWER_STATE \<Rightarrow> bool" where
  "IsSystemStatePowered eSystemPowerState \<longleftrightarrow>
     sys_power_state_value eSystemPowerState < sys_power_state_value PVRSRV_SYS_POWER_STATE_D2"

definition PVRSRVPowerUnlock :: "IMG_UINT32 \<Rightarrow> 'w SYS_DATA \<Rightarrow> 'w SYS_DATA" where
  "PVRSRVPowerUnlock ui32CallerID s =
     s\<lparr>sPowerStateChangeResource := snd (OSUnlockResource (sPowerStateChangeResource s) ui32CallerID)\<rparr>"

function power_lock_loop ::
  "(nat \<Rightarrow> 'w SYS_DATA \<Rightarrow> 'w SYS_DATA) \<Rightarrow> IMG_UINT32 \<Rightarrow> bool \<Rightarrow> nat \<Rightarrow> 'w SYS_DATA
    \<Rightarrow> PVRSRV_ERROR \<times> 'w SYS_DATA" where
  "power_lock_loop others ui32CallerID bTryLock ui32Timeout s =
     (let (eError, r) = OSLockResource (sPowerStateChangeResource s) ui32CallerID;
          s1 = s\<lparr>sPowerStateChangeResource := r\<rparr>
      in if eError = PVRSRV_OK then (PVRSRV_OK, s1)
         else if bTryLock then (PVRSRV_ERROR_RETRY, s1)
         else
           (let s2 = others ui32Timeout s1
            in if ui32Timeout - 1 > 0
               then power_lock_loop others ui32CallerID bTryLock (ui32Timeout - 1) s2
               else (eError, s2)))"
  by pat_completeness auto
termination
  by (relation "measure (\<lambda>(others, c, b, t, s). t)") auto

declare power_lock_loop.simps [simp del]

definition PVRSRVPowerLock ::
  "(nat \<Rightarrow> 'w SYS_DATA \<Rightarrow> 'w SYS_DATA) \<Rightarrow> IMG_UINT32 \<Rightarrow> bool \<Rightarrow> 'w SYS_DATA
    \<Rightarrow> PVRSRV_ERROR \<times> 'w SYS_DATA" where
  "PVRSRVPowerLock others ui32CallerID bSystemPowerEvent s =
     (let bTryLock = (ui32CallerID = ISR_ID);
          (eError, s1) = power_lock_loop others ui32CallerID bTryLock 1000000 s
      in if eError = PVRSRV_OK \<and> \<not> bSystemPowerEvent \<and> \<not> IsSystemStatePowered (eCurrentPowerState s1)
         then (PVRSRV_ERROR_RETRY, PVRSRVPowerUnlock ui32CallerID s1)
         else (eError, s1))"

definition PVRSRVDevicePrePowerStateKM_AnyVaCb ::
  "bool \<Rightarrow> IMG_UINT32 \<Rightarrow> PVRSRV_DEV_POWER_STATE \<Rightarrow> 'w PVRSRV_POWER_DEV \<Rightarrow> 'w
    \<Rightarrow> PVRSRV_ERROR \<times> 'w PVRSRV_POWER_DEV \<times> 'w" where
  "PVRSRVDevicePrePowerStateKM_AnyVaCb bAllDevices ui32Index eNewPowerState dev w =
     (if bAllDevices \<or> ui32Index = ui32DeviceIndex dev then
        (let eNewDevicePowerState =
               (if eNewPowerState = PVRSRV_DEV_POWER_STATE_DEFAULT
                then dev_eDefaultPowerState dev else eNewPowerState)
         in if dev_eCurrentPowerState dev \<noteq> eNewDevicePowerState then
              (let (eError, w1) =
                     (case pfnPrePower dev of
                        None \<Rightarrow> (PVRSRV_OK, w)
                      | Some f \<Rightarrow> f (hDevCookie dev) eNewDevicePowerState (dev_eCurrentPowerState dev) w)
               in if eError \<noteq> PVRSRV_OK then (eError, dev, w1)
                  else (SysDevicePrePowerState (ui32DeviceIndex dev) eNewDevicePowerState
                          (dev_eCurrentPowerState dev), dev, w1))
            else (PVRSRV_OK, dev, w))
      else (PVRSRV_OK, dev, w))"

definition PVRSRVDevicePrePowerStateKM ::
  "bool \<Rightarrow> IMG_UINT32 \<Rightarrow> PVRSRV_DEV_POWER_STATE \<Rightarrow> 'w SYS_DATA \<Rightarrow> PVRSRV_ERROR \<times> 'w SYS_DATA" where
  "PVRSRVDevicePrePowerStateKM bAllDevices ui32Index eNewPowerState s =
     (let (eError, devs, w) =
            any_va_upd PVRSRV_OK (PVRSRVDevicePrePowerStateKM_AnyVaCb bAllDevices ui32Index eNewPowerState)
              (psPowerDeviceList s) (drivers s)
      in (eError, s\<lparr>psPowerDeviceList := devs, drivers := w\<rparr>))"

definition PVRSRVDevicePostPowerStateKM_AnyVaCb ::
  "bool \<Rightarrow> IMG_UINT32 \<Rightarrow> PVRSRV_DEV_POWER_STATE \<Rightarrow> 'w PVRSRV_POWER_DEV \<Rightarrow> 'w
    \<Rightarrow> PVRSRV_ERROR \<times> 'w PVRSRV_POWER_DEV \<times> 'w" where
  "PVRSRVDevicePostPowerStateKM_AnyVaCb bAllDevices ui32Index eNewPowerState dev w =
     (if bAllDevices \<or> ui32Index = ui32DeviceIndex dev then
        (let eNewDevicePowerState =
               (if eNewPowerState = PVRSRV_DEV_POWER_STATE_DEFAULT
                then dev_eDefaultPowerState dev else eNewPowerState)
         in if dev_eCurrentPowerState dev \<noteq> eNewDevicePowerState then
              (let eError = SysDevicePostPowerState (ui32DeviceIndex dev) eNewDevicePowerState
                              (dev_eCurrentPowerState dev)
               in if eError \<noteq> PVRSRV_OK then (eError, dev, w)
                  else
                    (let (eError, w1) =
                           (case pfnPostPower dev of
                              None \<Rightarrow> (PVRSRV_OK, w)
                            | Some f \<Rightarrow> f (hDevCookie dev) eNewDevicePowerState (dev_eCurrentPowerState dev) w)
                     in if eError \<noteq> PVRSRV_OK then (eError, dev, w1)
                        else (PVRSRV_OK, dev\<lparr>dev_eCurrentPowerState := eNewDevicePowerState\<rparr>, w1)))
            else (PVRSRV_OK, dev, w))
      else (PVRSRV_OK, dev, w))"

definition PVRSRVDevicePostPowerStateKM ::
  "bool \<Rightarrow> IMG_UINT32 \<Rightarrow> PVRSRV_DEV_POWER_STATE \<Rightarrow> 'w SYS_DATA \<Rightarrow> PVRSRV_ERROR \<times> 'w SYS_DATA" where
  "PVRSRVDevicePostPowerStateKM bAllDevices ui32Index eNewPowerState s =
     (let (eError, devs, w) =
            any_va_upd PVRSRV_OK (PVRSRVDevicePostPowerStateKM_AnyVaCb bAllDevices ui32Index eNewPowerState)
              (psPowerDeviceList s) (drivers s)
      in (eError, s\<lparr>psPowerDeviceList := devs, drivers := w\<rparr>))"

definition PVRSRVSetDevicePowerStateKM ::
  "(nat \<Rightarrow> 'w SYS_DATA \<Rightarrow> 'w SYS_DATA) \<Rightarrow> IMG_UINT32 \<Rightarrow> PVRSRV_DEV_POWER_STATE \<Rightarrow> IMG_UINT32 \<Rightarrow> bool
    \<Rightarrow> 'w SYS_DATA \<Rightarrow> PVRSRV_ERROR \<times> 'w SYS_DATA" where
  "PVRSRVSetDevicePowerStateKM others ui32Index eNewPowerState ui32CallerID bRetainMutex s =
     (let (eError, s1) = PVRSRVPowerLock others ui32CallerID False s
      in if eError \<noteq> PVRSRV_OK then (eError, s1)
         else
           (let (eError, s2) = PVRSRVDevicePrePowerStateKM False ui32Index eNewPowerState s1;
                (eError, s3) = (if eError \<noteq> PVRSRV_OK then (eError, s2)
                                else PVRSRVDevicePostPowerStateKM False ui32Index eNewPowerState s2)
            in (eError, if \<not> bRetainMutex \<or> eError \<noteq> PVRSRV_OK
                        then PVRSRVPowerUnlock ui32CallerID s3 else s3)))"

definition PVRSRVSystemPrePowerStateKM ::
  "(nat \<Rightarrow> 'w SYS_DATA \<Rightarrow> 'w SYS_DATA) \<Rightarrow> PVRSRV_SYS_POWER_STATE \<Rightarrow> 'w SYS_DATA
    \<Rightarrow> PVRSRV_ERROR \<times> 'w SYS_DATA" where
  "PVRSRVSystemPrePowerStateKM others eNewSysPowerState s =
     (let (eError, s1) = PVRSRVPowerLock others KERNEL_ID True s
      in if eError \<noteq> PVRSRV_OK then (eError, s1)
         else
           (let (eError, s2) =
                  (if IsSystemStatePowered eNewSysPowerState \<noteq> IsSystemStatePowered (eCurrentPowerState s1) then
                     PVRSRVDevicePrePowerStateKM True 0
                       (if IsSystemStatePowered eNewSysPowerState then PVRSRV_DEV_POWER_STATE_DEFAULT
                        else PVRSRV_DEV_POWER_STATE_OFF) s1
                   else (eError, s1));
                (eError, s3) =
                  (if eError = PVRSRV_OK \<and> eNewSysPowerState \<noteq> eCurrentPowerState s2 then
                     (let (e, d) = SysSystemPrePowerState eNewSysPowerState (pvSysSpecificData s2)
                      in (e, s2\<lparr>pvSysSpecificData := d\<rparr>))
                   else (eError, s2))
            in if eError = PVRSRV_OK then (eError, s3)
               else (eError, PVRSRVPowerUnlock KERNEL_ID (s3\<lparr>eFailedPowerState := eNewSysPowerState\<rparr>))))"

type_synonym 'w complete_call = "IMG_UINTPTR_T \<Rightarrow> IMG_UINTPTR_T \<Rightarrow> 'w SYS_DATA \<Rightarrow> 'w SYS_DATA"

definition PVRSRVScheduleDeviceCallbacks :: "'w complete_call \<Rightarrow> 'w SYS_DATA \<Rightarrow> 'w SYS_DATA" where
  "PVRSRVScheduleDeviceCallbacks complete s =
     fold (\<lambda>n s. if pn_pfnDeviceCommandComplete n \<noteq> IMG_NULL
                 then complete (pn_pfnDeviceCommandComplete n) (pn_psDeviceNode n) s else s)
       (sys_psDeviceNodeList s) s"

definition PVRSRVSystemPostPowerStateKM ::
  "'w complete_call \<Rightarrow> PVRSRV_SYS_POWER_STATE \<Rightarrow> 'w SYS_DATA \<Rightarrow> PVRSRV_ERROR \<times> 'w SYS_DATA" where
  "PVRSRVSystemPostPowerStateKM complete eNewSysPowerState s =
     (let (eError, s1) =
            (if eNewSysPowerState \<noteq> eCurrentPowerState s then
               (let (e, d) = SysSystemPostPowerState eNewSysPowerState (pvSysSpecificData s)
                in (e, s\<lparr>pvSysSpecificData := d\<rparr>))
             else (PVRSRV_OK, s));
          (eError, s2) =
            (if eError = PVRSRV_OK \<and>
                IsSystemStatePowered eNewSysPowerState \<noteq> IsSystemStatePowered (eCurrentPowerState s1) then
               PVRSRVDevicePostPowerStateKM True 0
                 (if IsSystemStatePowered eNewSysPowerState then PVRSRV_DEV_POWER_STATE_DEFAULT
                  else PVRSRV_DEV_POWER_STATE_OFF) s1
             else (eError, s1));
          s3 = (if eError = PVRSRV_OK then s2\<lparr>eCurrentPowerState := eNewSysPowerState\<rparr> else s2);
          s4 = PVRSRVPowerUnlock KERNEL_ID s3
      in (eError,
          if IsSystemStatePowered eNewSysPowerState \<and>
             PVRSRVGetInitServerState PVRSRV_INIT_SERVER_SUCCESSFUL s4
          then PVRSRVScheduleDeviceCallbacks complete s4 else s4))"

definition PVRSRVSetPowerStateKM ::
  "'w complete_call \<Rightarrow> (nat \<Rightarrow> 'w SYS_DATA \<Rightarrow> 'w SYS_DATA) \<Rightarrow> PVRSRV_SYS_POWER_STATE \<Rightarrow> 'w SYS_DATA
    \<Rightarrow> PVRSRV_ERROR \<times> 'w SYS_DATA" where
  "PVRSRVSetPowerStateKM complete others eNewSysPowerState s =
     (let (eError, s1) = PVRSRVSystemPrePowerStateKM others eNewSysPowerState s;
          (eError, s2) = (if eError \<noteq> PVRSRV_OK then (eError, s1)
                          else PVRSRVSystemPostPowerStateKM complete eNewSysPowerState s1)
      in if eError = PVRSRV_OK
         then (PVRSRV_OK, s2\<lparr>eFailedPowerState := PVRSRV_SYS_POWER_STATE_Unspecified\<rparr>)
         else (eError, s2\<lparr>eFailedPowerState := eNewSysPowerState\<rparr>))"

definition MatchPowerDeviceIndex_AnyVaCb :: "IMG_UINT32 \<Rightarrow> 'w PVRSRV_POWER_DEV \<Rightarrow> bool" where
  "MatchPowerDeviceIndex_AnyVaCb ui32Index dev \<longleftrightarrow> ui32DeviceIndex dev = ui32Index"

definition PVRSRVRemovePowerDevice ::
  "IMG_UINT32 \<Rightarrow> 'w SYS_DATA \<Rightarrow> PVRSRV_ERROR \<times> 'w SYS_DATA" where
  "PVRSRVRemovePowerDevice ui32Index s =
     (case List.find (MatchPowerDeviceIndex_AnyVaCb ui32Index) (psPowerDeviceList s) of
        None \<Rightarrow> (PVRSRV_OK, s)
      | Some dev \<Rightarrow>
          (PVRSRV_OK,
           s\<lparr>psPowerDeviceList := filter (\<lambda>d. psPowerDevice d \<noteq> psPowerDevice dev) (psPowerDeviceList s),
             sys_os := OSFreeMem (psPowerDevice dev) (sys_os s)\<rparr>))"

definition sizeof_PVRSRV_POWER_DEV :: IMG_UINT32 where "sizeof_PVRSRV_POWER_DEV = 72"

definition PVRSRVRegisterPowerDevice ::
  "IMG_UINT32 \<Rightarrow> 'w PFN_POWER option \<Rightarrow> 'w PFN_POWER option \<Rightarrow> 'w PFN_CLOCKSPEED_CHANGE option
    \<Rightarrow> 'w PFN_CLOCKSPEED_CHANGE option \<Rightarrow> IMG_UINTPTR_T \<Rightarrow> PVRSRV_DEV_POWER_STATE
    \<Rightarrow> PVRSRV_DEV_POWER_STATE \<Rightarrow> 'w SYS_DATA \<Rightarrow> PVRSRV_ERROR \<times> 'w SYS_DATA" where
  "PVRSRVRegisterPowerDevice ui32Index pre post preClk postClk cookie eCurrent eDefault s =
     (if pre = None \<and> post = None then PVRSRVRemovePowerDevice ui32Index s
      else
        (let (eError, p, os') = OSAllocMem sizeof_PVRSRV_POWER_DEV (sys_os s)
         in if eError \<noteq> PVRSRV_OK then (eError, s\<lparr>sys_os := os'\<rparr>)
            else
              (PVRSRV_OK,
               s\<lparr>sys_os := os',
                 psPowerDeviceList :=
                   \<lparr>psPowerDevice = p, pfnPrePower = pre, pfnPostPower = post,
                    pfnPreClockSpeedChange = preClk, pfnPostClockSpeedChange = postClk,
                    hDevCookie = cookie, ui32DeviceIndex = ui32Index,
                    dev_eDefaultPowerState = eDefault, dev_eCurrentPowerState = eCurrent\<rparr>
                   # psPowerDeviceList s\<rparr>)))"

definition PVRSRVIsDevicePowered :: "IMG_UINT32 \<Rightarrow> 'w SYS_DATA \<Rightarrow> bool" where
  "PVRSRVIsDevicePowered ui32Index s =
     (if OSIsResourceLocked (sPowerStateChangeResource s) KERNEL_ID \<or>
         OSIsResourceLocked (sPowerStateChangeResource s) ISR_ID then False
      else
        (case List.find (MatchPowerDeviceIndex_AnyVaCb ui32Index) (psPowerDeviceList s) of
           None \<Rightarrow> False
         | Some dev \<Rightarrow> dev_eCurrentPowerState dev = PVRSRV_DEV_POWER_STATE_ON))"

text \<open>A call through a function pointer that is \<open>NULL\<close> has no result: \<open>None\<close>.\<close>

definition PVRSRVDevicePreClockSpeedChange ::
  "(nat \<Rightarrow> 'w SYS_DATA \<Rightarrow> 'w SYS_DATA) \<Rightarrow> IMG_UINT32 \<Rightarrow> bool \<Rightarrow> 'w SYS_DATA
    \<Rightarrow> (PVRSRV_ERROR \<times> 'w SYS_DATA) option" where
  "PVRSRVDevicePreClockSpeedChange others ui32Index bIdleDevice s =
     (let (eError, s1) = (if bIdleDevice then PVRSRVPowerLock others KERNEL_ID False s else (PVRSRV_OK, s))
      in if eError \<noteq> PVRSRV_OK then Some (eError, s1)
         else
           do {
             (eError, s2) \<leftarrow>
               (case List.find (MatchPowerDeviceIndex_AnyVaCb ui32Index) (psPowerDeviceList s1) of
                  None \<Rightarrow> Some (eError, s1)
                | Some dev \<Rightarrow>
                    if pfnPostClockSpeedChange dev = None then Some (eError, s1)
                    else
                      (case pfnPreClockSpeedChange dev of
                         None \<Rightarrow> None
                       | Some f \<Rightarrow>
                           (let (e, w) = f (hDevCookie dev) bIdleDevice (dev_eCurrentPowerState dev) (drivers s1)
                            in Some (e, s1\<lparr>drivers := w\<rparr>))));
             Some (eError, if bIdleDevice \<and> eError \<noteq> PVRSRV_OK then PVRSRVPowerUnlock KERNEL_ID s2 else s2)
           })"

definition PVRSRVDevicePostClockSpeedChange ::
  "IMG_UINT32 \<Rightarrow> bool \<Rightarrow> 'w SYS_DATA \<Rightarrow> 'w SYS_DATA" where
  "PVRSRVDevicePostClockSpeedChange ui32Index bIdleDevice s =
     (let s1 =
            (case List.find (MatchPowerDeviceIndex_AnyVaCb ui32Index) (psPowerDeviceList s) of
               None \<Rightarrow> s
             | Some dev \<Rightarrow>
                 (case pfnPostClockSpeedChange dev of
                    None \<Rightarrow> s
                  | Some f \<Rightarrow>
                      s\<lparr>drivers := snd (f (hDevCookie dev) bIdleDevice (dev_eCurrentPowerState dev) (drivers s))\<rparr>))
      in if bIdleDevice then PVRSRVPowerUnlock KERNEL_ID s1 else s1)"

section \<open>The power lock\<close>

definition power_locked :: "'w SYS_DATA \<Rightarrow> IMG_UINT32 \<Rightarrow> bool" where
  "power_locked s c \<longleftrightarrow> OSIsResourceLocked (sPowerStateChangeResource s) c"

text \<open>Other threads do not take the lock under the caller's own identity.\<close>

definition others_ok :: "(nat \<Rightarrow> 'w SYS_DATA \<Rightarrow> 'w SYS_DATA) \<Rightarrow> IMG_UINT32 \<Rightarrow> bool" where
  "others_ok others c \<longleftrightarrow> (\<forall>t s. \<not> power_locked s c \<longrightarrow> \<not> power_locked (others t s) c)"

lemma power_locked_update [simp]:
  "power_locked (s\<lparr>psPowerDeviceList := a\<rparr>) c = power_locked s c"
  "power_locked (s\<lparr>drivers := b\<rparr>) c = power_locked s c"
  "power_locked (s\<lparr>eFailedPowerState := d\<rparr>) c = power_locked s c"
  "power_locked (s\<lparr>eCurrentPowerState := d\<rparr>) c = power_locked s c"
  "power_locked (s\<lparr>pvSysSpecificData := f\<rparr>) c = power_locked s c"
  by (simp_all add: power_locked_def)

lemma PVRSRVPowerUnlock_simps [simp]:
  "eCurrentPowerState (PVRSRVPowerUnlock c s) = eCurrentPowerState s"
  "eFailedPowerState (PVRSRVPowerUnlock c s) = eFailedPowerState s"
  "psPowerDeviceList (PVRSRVPowerUnlock c s) = psPowerDeviceList s"
  "pvSysSpecificData (PVRSRVPowerUnlock c s) = pvSysSpecificData s"
  "drivers (PVRSRVPowerUnlock c s) = drivers s"
  by (simp_all add: PVRSRVPowerUnlock_def)

lemma PVRSRVPowerUnlock_released [simp]: "\<not> power_locked (PVRSRVPowerUnlock c s) c"
  by (auto simp: power_locked_def PVRSRVPowerUnlock_def OSUnlockResource_def OSIsResourceLocked_def)

lemma PVRSRVPowerUnlock_free:
  "power_locked s c \<Longrightarrow> \<not> ui32Lock (sPowerStateChangeResource (PVRSRVPowerUnlock c s))"
  using res.unlock_owner by (simp add: power_locked_def PVRSRVPowerUnlock_def)

lemma power_lock_loop_cases:
  assumes "power_lock_loop others c b t s = (e, s')" "others_ok others c" "\<not> power_locked s c"
  shows "e = PVRSRV_OK \<and> power_locked s' c \<or>
         \<not> power_locked s' c \<and> e = (if b then PVRSRV_ERROR_RETRY else PVRSRV_ERROR_UNABLE_TO_LOCK_RESOURCE)"
  using assms
proof (induction others c b t s rule: power_lock_loop.induct)
  case (1 others c b t s)
  let ?r = "sPowerStateChangeResource s"
  obtain el r where l: "OSLockResource ?r c = (el, r)" by (cases "OSLockResource ?r c")
  let ?s1 = "s\<lparr>sPowerStateChangeResource := r\<rparr>"
  show ?case
  proof (cases "ui32Lock ?r")
    case False
    with l have "el = PVRSRV_OK" "power_locked ?s1 c"
      using res.lock_free [of ?r c] by (auto simp: power_locked_def)
    with 1(2) l show ?thesis by (simp add: power_lock_loop.simps)
  next
    case True
    with l have l': "el = PVRSRV_ERROR_UNABLE_TO_LOCK_RESOURCE" "r = ?r"
      by (auto simp: OSLockResource_def)
    have s1: "\<not> power_locked ?s1 c" using 1(4) l' by (simp add: power_locked_def)
    then have s2: "\<not> power_locked (others t ?s1) c" using 1(3) by (simp add: others_ok_def)
    consider "b" | "\<not> b" "t - 1 > 0" | "\<not> b" "\<not> t - 1 > 0" by blast
    then show ?thesis
    proof cases
      case 1
      with \<open>power_lock_loop others c b t s = (e, s')\<close> l l' s1 show ?thesis
        by (subst (asm) power_lock_loop.simps) auto
    next
      case 2
      then have rec: "power_lock_loop others c b (t - 1) (others t ?s1) = (e, s')"
        using "1.prems"(1) l l' by (subst (asm) power_lock_loop.simps) simp
      show ?thesis
        using "1.IH" [OF l [symmetric] refl refl _ _ refl _ rec "1.prems"(2) s2] l' 2 by simp
    next
      case 3
      with "1.prems"(1) l l' s2 show ?thesis
        by (subst (asm) power_lock_loop.simps) auto
    qed
  qed
qed

lemma PVRSRVPowerLock_cases:
  assumes "PVRSRVPowerLock others c ev s = (e, s')" "others_ok others c" "\<not> power_locked s c"
  shows "e = PVRSRV_OK \<and> power_locked s' c \<and> (ev \<or> IsSystemStatePowered (eCurrentPowerState s')) \<or>
         \<not> power_locked s' c \<and>
         (e = PVRSRV_ERROR_RETRY \<and> (c = ISR_ID \<or> \<not> ev \<and> \<not> IsSystemStatePowered (eCurrentPowerState s')) \<or>
          e = PVRSRV_ERROR_UNABLE_TO_LOCK_RESOURCE \<and> c \<noteq> ISR_ID)"
proof -
  obtain e1 s1 where l: "power_lock_loop others c (c = ISR_ID) 1000000 s = (e1, s1)"
    by (cases "power_lock_loop others c (c = ISR_ID) 1000000 s")
  from power_lock_loop_cases [OF this assms(2,3)] assms(1) l show ?thesis
    by (auto simp: PVRSRVPowerLock_def split: if_splits)
qed

lemma PVRSRVPowerLock_free:
  assumes "\<not> ui32Lock (sPowerStateChangeResource s)" "ev \<or> IsSystemStatePowered (eCurrentPowerState s)"
  shows "PVRSRVPowerLock others c ev s =
           (PVRSRV_OK, s\<lparr>sPowerStateChangeResource := snd (OSLockResource (sPowerStateChangeResource s) c)\<rparr>)"
  using assms by (auto simp: PVRSRVPowerLock_def power_lock_loop.simps OSLockResource_def)

section \<open>Switching the devices\<close>

text \<open>The device state a transition asks for, and the device after it.\<close>

definition switch_dev ::
  "bool \<Rightarrow> IMG_UINT32 \<Rightarrow> PVRSRV_DEV_POWER_STATE \<Rightarrow> 'w PVRSRV_POWER_DEV \<Rightarrow> 'w PVRSRV_POWER_DEV" where
  "switch_dev bAll idx new d =
     (if bAll \<or> idx = ui32DeviceIndex d then
        d\<lparr>dev_eCurrentPowerState :=
            if new = PVRSRV_DEV_POWER_STATE_DEFAULT then dev_eDefaultPowerState d else new\<rparr>
      else d)"

lemma pre_cb_keeps:
  "PVRSRVDevicePrePowerStateKM_AnyVaCb a i n d w = (e, d', w') \<Longrightarrow> d' = d"
  by (auto simp: PVRSRVDevicePrePowerStateKM_AnyVaCb_def Let_def split: if_splits prod.splits)

lemma post_cb_switches:
  "PVRSRVDevicePostPowerStateKM_AnyVaCb a i n d w = (e, d', w') \<Longrightarrow>
     d' = (if e = PVRSRV_OK then switch_dev a i n d else d)"
  by (auto simp: PVRSRVDevicePostPowerStateKM_AnyVaCb_def switch_dev_def Let_def
      split: if_splits prod.splits)

lemma pre_devices_keep:
  "any_va_upd PVRSRV_OK (PVRSRVDevicePrePowerStateKM_AnyVaCb a i n) ds w = (e, ds', w') \<Longrightarrow> ds' = ds"
  by (induction ds arbitrary: w e ds' w')
    (auto simp: Let_def dest: pre_cb_keeps split: prod.splits if_splits)

lemma post_devices_switch:
  "any_va_upd PVRSRV_OK (PVRSRVDevicePostPowerStateKM_AnyVaCb a i n) ds w = (e, ds', w') \<Longrightarrow>
     \<exists>k \<le> length ds. ds' = map (switch_dev a i n) (take k ds) @ drop k ds \<and>
                    (e = PVRSRV_OK \<longrightarrow> k = length ds) \<and> (e \<noteq> PVRSRV_OK \<longrightarrow> k < length ds)"
proof (induction ds arbitrary: w e ds' w')
  case Nil
  then show ?case by simp
next
  case (Cons d ds)
  obtain e1 d1 w1 where cb: "PVRSRVDevicePostPowerStateKM_AnyVaCb a i n d w = (e1, d1, w1)"
    by (cases "PVRSRVDevicePostPowerStateKM_AnyVaCb a i n d w")
  note d1 = post_cb_switches [OF cb]
  show ?case
  proof (cases "e1 = PVRSRV_OK")
    case False
    with Cons.prems cb d1 show ?thesis by (intro exI [of _ 0]) auto
  next
    case True
    then obtain ds1 where r: "any_va_upd PVRSRV_OK (PVRSRVDevicePostPowerStateKM_AnyVaCb a i n) ds w1 = (e, ds1, w')"
      "ds' = d1 # ds1" using Cons.prems cb by (auto simp: Let_def split: prod.splits)
    from Cons.IH [OF r(1)] obtain k where "k \<le> length ds"
      "ds1 = map (switch_dev a i n) (take k ds) @ drop k ds"
      "e = PVRSRV_OK \<longrightarrow> k = length ds" "e \<noteq> PVRSRV_OK \<longrightarrow> k < length ds" by blast
    with True d1 r(2) show ?thesis by (intro exI [of _ "Suc k"]) auto
  qed
qed

text \<open>What a transition leaves alone: everything but the devices and the drivers' own state.\<close>

definition same_but_devices :: "'w SYS_DATA \<Rightarrow> 'w SYS_DATA \<Rightarrow> bool" where
  "same_but_devices s s' \<longleftrightarrow>
     (\<exists>ds w. s' = s\<lparr>psPowerDeviceList := ds, drivers := w\<rparr>)"

lemma same_but_devices_refl [simp]: "same_but_devices s s"
  unfolding same_but_devices_def by (rule exI [of _ "psPowerDeviceList s"], rule exI [of _ "drivers s"]) simp

lemma DevicePre_spec:
  "PVRSRVDevicePrePowerStateKM a i n s = (e, s') \<Longrightarrow>
     psPowerDeviceList s' = psPowerDeviceList s \<and> same_but_devices s s'"
  by (auto simp: PVRSRVDevicePrePowerStateKM_def same_but_devices_def Let_def
      dest: pre_devices_keep split: prod.splits)

lemma DevicePost_spec:
  "PVRSRVDevicePostPowerStateKM a i n s = (e, s') \<Longrightarrow>
     same_but_devices s s' \<and>
     (\<exists>k \<le> length (psPowerDeviceList s).
        psPowerDeviceList s' = map (switch_dev a i n) (take k (psPowerDeviceList s)) @ drop k (psPowerDeviceList s) \<and>
        (e = PVRSRV_OK \<longrightarrow> k = length (psPowerDeviceList s)))"
  by (auto simp: PVRSRVDevicePostPowerStateKM_def same_but_devices_def Let_def
      dest!: post_devices_switch split: prod.splits)

lemma same_but_devices_simps:
  assumes "same_but_devices s s'"
  shows "eCurrentPowerState s' = eCurrentPowerState s" "eFailedPowerState s' = eFailedPowerState s"
    "sPowerStateChangeResource s' = sPowerStateChangeResource s"
    "pvSysSpecificData s' = pvSysSpecificData s" "power_locked s' c = power_locked s c"
  using assms by (auto simp: same_but_devices_def power_locked_def)

section \<open>Device transitions\<close>

text \<open>Taking the power lock ends in one of three ways: the caller holds the lock, and the system
  is powered unless the caller is a system power event; the caller is told to retry, because an
  interrupt handler found the lock taken or because the system is not powered; or the wait timed
  out. When the call fails the caller does not hold the lock.\<close>

theorem power_lock_outcome:
  assumes "PVRSRVPowerLock others c ev s = (e, s')" "others_ok others c" "\<not> power_locked s c"
  shows "e = PVRSRV_OK \<and> power_locked s' c \<and> (ev \<or> IsSystemStatePowered (eCurrentPowerState s')) \<or>
         \<not> power_locked s' c \<and>
         (e = PVRSRV_ERROR_RETRY \<and> (c = ISR_ID \<or> \<not> ev \<and> \<not> IsSystemStatePowered (eCurrentPowerState s')) \<or>
          e = PVRSRV_ERROR_UNABLE_TO_LOCK_RESOURCE \<and> c \<noteq> ISR_ID)"
  by (rule PVRSRVPowerLock_cases [OF assms])

text \<open>Setting a device's power state: if the lock is not obtained nothing is switched. Otherwise,
  on success every device with the index is in the requested state (its default state where the
  default was asked for), every other device is as it was, and the lock is kept exactly when the
  caller asked to retain it. On an error from a callback the lock is released in every case, the
  system state is untouched and no device is in a state other than its old or its requested one.\<close>

theorem set_device_power_state:
  assumes "others_ok others c" "\<not> power_locked s c"
    and "PVRSRVSetDevicePowerStateKM others idx new c retain s = (e, s')"
    and "PVRSRVPowerLock others c False s = (e1, s1)"
  shows "(e1 \<noteq> PVRSRV_OK \<longrightarrow> e = e1 \<and> s' = s1) \<and>
         (e = PVRSRV_OK \<longrightarrow>
            psPowerDeviceList s' = map (switch_dev False idx new) (psPowerDeviceList s1) \<and>
            (power_locked s' c \<longleftrightarrow> retain)) \<and>
         (e \<noteq> PVRSRV_OK \<longrightarrow> \<not> power_locked s' c \<and>
            (\<exists>k. psPowerDeviceList s' = map (switch_dev False idx new) (take k (psPowerDeviceList s1))
                                       @ drop k (psPowerDeviceList s1))) \<and>
         eCurrentPowerState s' = eCurrentPowerState s1 \<and>
         pvSysSpecificData s' = pvSysSpecificData s1"
proof (cases "e1 = PVRSRV_OK")
  case False
  then have "e = e1" "s' = s1" using assms(3,4) by (auto simp: PVRSRVSetDevicePowerStateKM_def)
  moreover have "\<not> power_locked s1 c"
    using PVRSRVPowerLock_cases [OF assms(4,1,2)] False by blast
  ultimately show ?thesis using False by (auto intro: exI [of _ 0])
next
  case True
  then have held: "power_locked s1 c"
    using PVRSRVPowerLock_cases [OF assms(4,1,2)] by blast
  obtain e2 s2 where pre: "PVRSRVDevicePrePowerStateKM False idx new s1 = (e2, s2)"
    by (cases "PVRSRVDevicePrePowerStateKM False idx new s1")
  note P = DevicePre_spec [OF pre]
  note PS = same_but_devices_simps [OF conjunct2 [OF P]]
  show ?thesis
  proof (cases "e2 = PVRSRV_OK")
    case False
    with True assms(3,4) pre have "e = e2" "s' = PVRSRVPowerUnlock c s2"
      by (auto simp: PVRSRVSetDevicePowerStateKM_def)
    with False True P PS show ?thesis by (auto intro: exI [of _ 0])
  next
    case ok: True
    obtain e3 s3 where post: "PVRSRVDevicePostPowerStateKM False idx new s2 = (e3, s3)"
      by (cases "PVRSRVDevicePostPowerStateKM False idx new s2")
    note Q = DevicePost_spec [OF post]
    note QS = same_but_devices_simps [OF conjunct1 [OF Q]]
    have r: "e = e3" "s' = (if \<not> retain \<or> e3 \<noteq> PVRSRV_OK then PVRSRVPowerUnlock c s3 else s3)"
      using True ok assms(3,4) pre post by (auto simp: PVRSRVSetDevicePowerStateKM_def)
    have "power_locked s3 c" using held PS QS by simp
    then show ?thesis using r True P Q PS QS by auto
  qed
qed

section \<open>System transitions\<close>

text \<open>The devices after a system transition from \<open>old\<close> to \<open>new\<close>: they follow it only when it
  crosses the line between the powered and the unpowered states.\<close>

definition follow_system ::
  "PVRSRV_SYS_POWER_STATE \<Rightarrow> PVRSRV_SYS_POWER_STATE \<Rightarrow> 'w PVRSRV_POWER_DEV list \<Rightarrow> 'w PVRSRV_POWER_DEV list" where
  "follow_system old new ds =
     (if IsSystemStatePowered new = IsSystemStatePowered old then ds
      else map (switch_dev True 0 (if IsSystemStatePowered new then PVRSRV_DEV_POWER_STATE_DEFAULT
                                   else PVRSRV_DEV_POWER_STATE_OFF)) ds)"

lemma DevicePre_drivers: "PVRSRVDevicePrePowerStateKM a i n s = (e, s') \<Longrightarrow> \<exists>w. s' = s\<lparr>drivers := w\<rparr>"
  by (auto simp: PVRSRVDevicePrePowerStateKM_def Let_def dest!: pre_devices_keep split: prod.splits)

lemma DevicePost_devices:
  "PVRSRVDevicePostPowerStateKM a i n s = (e, s') \<Longrightarrow>
     \<exists>k w. s' = s\<lparr>psPowerDeviceList := map (switch_dev a i n) (take k (psPowerDeviceList s)) @ drop k (psPowerDeviceList s), drivers := w\<rparr> \<and>
       (e = PVRSRV_OK \<longrightarrow> k = length (psPowerDeviceList s))"
  by (auto simp: PVRSRVDevicePostPowerStateKM_def Let_def dest!: post_devices_switch split: prod.splits)

lemma SystemPre_spec:
  assumes "PVRSRVSystemPrePowerStateKM others new s = (e, s')" and lock: "PVRSRVPowerLock others KERNEL_ID True s = (e1, s1)"
  shows "(e1 \<noteq> PVRSRV_OK \<longrightarrow> e = e1 \<and> s' = s1) \<and>
    (e1 = PVRSRV_OK \<and> e \<noteq> PVRSRV_OK \<longrightarrow>
       IsSystemStatePowered new \<noteq> IsSystemStatePowered (eCurrentPowerState s1) \<and>
       (\<exists>w. s' = PVRSRVPowerUnlock KERNEL_ID (s1\<lparr>drivers := w, eFailedPowerState := new\<rparr>))) \<and>
    (e = PVRSRV_OK \<longrightarrow> e1 = PVRSRV_OK \<and> (\<exists>w d. s' = s1\<lparr>drivers := w, pvSysSpecificData := d\<rparr>))"
proof (cases "e1 = PVRSRV_OK")
  case False
  then show ?thesis using assms by (auto simp: PVRSRVSystemPrePowerStateKM_def)
next
  case True
  define dp where "dp = (if IsSystemStatePowered new \<noteq> IsSystemStatePowered (eCurrentPowerState s1) then
      PVRSRVDevicePrePowerStateKM True 0 (if IsSystemStatePowered new then PVRSRV_DEV_POWER_STATE_DEFAULT
        else PVRSRV_DEV_POWER_STATE_OFF) s1 else (PVRSRV_OK, s1))"
  obtain e2 s2 where d: "dp = (e2, s2)" by (cases dp)
  have "\<exists>w. s2 = s1\<lparr>drivers := w\<rparr>"
  proof (cases "IsSystemStatePowered new = IsSystemStatePowered (eCurrentPowerState s1)")
    case True
    then have "s2 = s1\<lparr>drivers := drivers s1\<rparr>" using d by (simp add: dp_def)
    then show ?thesis by blast
  next
    case False
    then have "PVRSRVDevicePrePowerStateKM True 0 (if IsSystemStatePowered new then PVRSRV_DEV_POWER_STATE_DEFAULT
        else PVRSRV_DEV_POWER_STATE_OFF) s1 = (e2, s2)" using d by (simp add: dp_def)
    then show ?thesis by (rule DevicePre_drivers)
  qed
  then obtain w where w: "s2 = s1\<lparr>drivers := w\<rparr>" by blast
  have x: "e2 \<noteq> PVRSRV_OK \<Longrightarrow> IsSystemStatePowered new \<noteq> IsSystemStatePowered (eCurrentPowerState s1)"
    using d by (cases "IsSystemStatePowered new = IsSystemStatePowered (eCurrentPowerState s1)") (simp_all add: dp_def)
  obtain e3 d3 where sp: "SysSystemPrePowerState new (pvSysSpecificData s2) = (e3, d3)"
    by (cases "SysSystemPrePowerState new (pvSysSpecificData s2)")
  then have e3: "e3 = PVRSRV_OK"
    by (auto simp: SysSystemPrePowerState_def SysUnmapRegisters_def Let_def split: if_splits prod.splits)
  have r: "(e, s') = (if e2 \<noteq> PVRSRV_OK then (e2, PVRSRVPowerUnlock KERNEL_ID (s2\<lparr>eFailedPowerState := new\<rparr>))
      else if new \<noteq> eCurrentPowerState s2 then (PVRSRV_OK, s2\<lparr>pvSysSpecificData := d3\<rparr>) else (PVRSRV_OK, s2))"
    using assms(1) lock True d sp e3
    unfolding PVRSRVSystemPrePowerStateKM_def dp_def by (auto simp: Let_def split: if_splits)
  have ok: "\<exists>w d. s' = s1\<lparr>drivers := w, pvSysSpecificData := d\<rparr>" if "e = PVRSRV_OK"
  proof -
    have "s' = s1\<lparr>drivers := w, pvSysSpecificData := if new \<noteq> eCurrentPowerState s2 then d3 else pvSysSpecificData s1\<rparr>"
      using r w that by (auto split: if_splits)
    then show ?thesis by blast
  qed
  have "IsSystemStatePowered new \<noteq> IsSystemStatePowered (eCurrentPowerState s1) \<and>
      (\<exists>w. s' = PVRSRVPowerUnlock KERNEL_ID (s1\<lparr>drivers := w, eFailedPowerState := new\<rparr>))" if "e \<noteq> PVRSRV_OK"
    using r w x that by (auto split: if_splits)
  with ok True show ?thesis by simp
qed

text \<open>The state a post-transition step leaves before it wakes the devices: the lock is released, and only devices, drivers, the system layer and,
  on success, the system state have changed.\<close>

definition after_post ::
  "PVRSRV_SYS_POWER_STATE \<Rightarrow> PVRSRV_ERROR \<Rightarrow> 'w SYS_DATA \<Rightarrow> 'w SYS_DATA \<Rightarrow> bool" where
  "after_post new e s m \<longleftrightarrow>
     (\<exists>k ds w d.
        ds = take k (follow_system (eCurrentPowerState s) new (psPowerDeviceList s)) @ drop k (psPowerDeviceList s) \<and>
        (e = PVRSRV_OK \<longrightarrow> k = length (psPowerDeviceList s)) \<and>
        m = PVRSRVPowerUnlock KERNEL_ID
          (s\<lparr>psPowerDeviceList := ds, pvSysSpecificData := d, drivers := w,
             eCurrentPowerState := (if e = PVRSRV_OK then new else eCurrentPowerState s)\<rparr>))"

lemma SystemPost_spec:
  assumes "PVRSRVSystemPostPowerStateKM complete new s = (e, s')"
  shows "\<exists>m. after_post new e s m \<and>
    s' = (if IsSystemStatePowered new \<and> gbInitSuccessful m then PVRSRVScheduleDeviceCallbacks complete m else m)"
proof -
  define sp where "sp = (if new \<noteq> eCurrentPowerState s then
      (let (e, d) = SysSystemPostPowerState new (pvSysSpecificData s) in (e, s\<lparr>pvSysSpecificData := d\<rparr>))
      else (PVRSRV_OK, s))"
  obtain e1 s1 where s1: "sp = (e1, s1)" by (cases sp)
  have "s1 = s\<lparr>pvSysSpecificData := pvSysSpecificData s1\<rparr>"
    using s1 by (auto simp: sp_def Let_def split: if_splits prod.splits)
  then obtain d where d: "s1 = s\<lparr>pvSysSpecificData := d\<rparr>" by blast
  define dp where "dp = (if e1 = PVRSRV_OK \<and> IsSystemStatePowered new \<noteq> IsSystemStatePowered (eCurrentPowerState s1) then
      PVRSRVDevicePostPowerStateKM True 0 (if IsSystemStatePowered new then PVRSRV_DEV_POWER_STATE_DEFAULT
        else PVRSRV_DEV_POWER_STATE_OFF) s1 else (e1, s1))"
  obtain e2 s2 where s2: "dp = (e2, s2)" by (cases dp)
  let ?F = "follow_system (eCurrentPowerState s) new (psPowerDeviceList s)" and ?D = "psPowerDeviceList s"
  have "\<exists>k w. s2 = s\<lparr>psPowerDeviceList := take k ?F @ drop k ?D, pvSysSpecificData := d, drivers := w\<rparr> \<and>
      (e2 = PVRSRV_OK \<longrightarrow> k = length ?D)"
  proof (cases "e1 = PVRSRV_OK \<and> IsSystemStatePowered new \<noteq> IsSystemStatePowered (eCurrentPowerState s1)")
    case True
    let ?t = "if IsSystemStatePowered new then PVRSRV_DEV_POWER_STATE_DEFAULT else PVRSRV_DEV_POWER_STATE_OFF"
    have "PVRSRVDevicePostPowerStateKM True 0 ?t s1 = (e2, s2)"
      using s2 True by (simp add: dp_def)
    from DevicePost_devices [OF this] obtain k w where
        k: "s2 = s1\<lparr>psPowerDeviceList := map (switch_dev True 0 ?t) (take k ?D) @ drop k ?D, drivers := w\<rparr>" "e2 = PVRSRV_OK \<longrightarrow> k = length ?D"
      by (auto simp: d)
    have "?F = map (switch_dev True 0 ?t) ?D"
      using True by (simp add: d follow_system_def)
    then have "s2 = s\<lparr>psPowerDeviceList := take k ?F @ drop k ?D, pvSysSpecificData := d, drivers := w\<rparr>"
      unfolding k(1) d by (simp add: take_map)
    with k(2) show ?thesis by blast
  next
    case False
    then have r: "e2 = e1" "s2 = s1" using s2 unfolding dp_def by auto
    have "take (if e1 = PVRSRV_OK then length ?D else 0) ?F @ drop (if e1 = PVRSRV_OK then length ?D else 0) ?D = ?D"
      using False d by (simp add: follow_system_def)
    with r d have "s2 = s\<lparr>psPowerDeviceList := take (if e1 = PVRSRV_OK then length ?D else 0) ?F @ drop (if e1 = PVRSRV_OK then length ?D else 0) ?D,
        pvSysSpecificData := d, drivers := drivers s\<rparr>"
      by simp
    then show ?thesis
      using r(1) by (intro exI [of _ "if e1 = PVRSRV_OK then length ?D else 0"] exI [of _ "drivers s"] conjI) simp_all
  qed
  then obtain k w where k: "s2 = s\<lparr>psPowerDeviceList := take k ?F @ drop k ?D, pvSysSpecificData := d, drivers := w\<rparr>"
      "e2 = PVRSRV_OK \<longrightarrow> k = length ?D"
    by blast
  define m where "m = PVRSRVPowerUnlock KERNEL_ID (if e2 = PVRSRV_OK then s2\<lparr>eCurrentPowerState := new\<rparr> else s2)"
  have r: "e = e2" "s' = (if IsSystemStatePowered new \<and> gbInitSuccessful m then PVRSRVScheduleDeviceCallbacks complete m else m)"
    using assms s1 s2 unfolding PVRSRVSystemPostPowerStateKM_def sp_def dp_def m_def PVRSRVGetInitServerState_def
    by (auto simp: Let_def split: if_splits)
  have "after_post new e s m"
    unfolding after_post_def m_def k(1) r(1) using k(2)
    by (intro exI [of _ k] exI [of _ "take k ?F @ drop k ?D"] exI [of _ w] exI [of _ d]) simp
  with r(2) show ?thesis by blast
qed

lemma after_post_update [simp]: "after_post new e (s\<lparr>drivers := w, pvSysSpecificData := d\<rparr>) m = after_post new e s m"
  by (simp add: after_post_def cong: if_cong)

lemma after_post_free: "after_post new e s m \<Longrightarrow> power_locked s KERNEL_ID \<Longrightarrow> \<not> ui32Lock (sPowerStateChangeResource m)"
  unfolding after_post_def by (auto intro!: PVRSRVPowerUnlock_free)

text \<open>C16: The outcome of a system power transition, exactly. If the lock is not obtained only the failed state is recorded. If a driver vetoes
  the transition, the devices, the system layer and the system state are as before, the lock is released and the failed state is recorded; the
  drivers asked before the veto may have changed their own state. Otherwise the devices follow the system in order, switched off when it loses power,
  back in their default states when it regains it, untouched when it does neither: all of them on success, and then the system is in the new state and
  no failed state is recorded; on an error the ones before the failing one, and then the system stays in the old state with some devices switched,
  and the failed state is recorded. The lock is released before the devices are told to look for finished commands, which happens, also on
  an error, when the new state is a powered one and the initialisation has succeeded.\<close>

theorem set_power_state:
  assumes "others_ok others KERNEL_ID" "\<not> power_locked s KERNEL_ID"
    and "PVRSRVSetPowerStateKM complete others new s = (e, s')"
    and "PVRSRVPowerLock others KERNEL_ID True s = (e1, s1)"
    and "PVRSRVSystemPrePowerStateKM others new s = (e2, s2)"
  shows "(e1 \<noteq> PVRSRV_OK \<longrightarrow> e = e1 \<and> s' = s1\<lparr>eFailedPowerState := new\<rparr> \<and> \<not> power_locked s' KERNEL_ID) \<and>
    (e1 = PVRSRV_OK \<and> e2 \<noteq> PVRSRV_OK \<longrightarrow> e = e2 \<and>
       (\<exists>w. s' = PVRSRVPowerUnlock KERNEL_ID (s1\<lparr>drivers := w, eFailedPowerState := new\<rparr>)) \<and>
       \<not> ui32Lock (sPowerStateChangeResource s')) \<and>
    (e2 = PVRSRV_OK \<longrightarrow> (\<exists>m. after_post new e s1 m \<and> \<not> ui32Lock (sPowerStateChangeResource m) \<and>
       s' = (if IsSystemStatePowered new \<and> gbInitSuccessful m then PVRSRVScheduleDeviceCallbacks complete m else m)
              \<lparr>eFailedPowerState := if e = PVRSRV_OK then PVRSRV_SYS_POWER_STATE_Unspecified else new\<rparr>))"
proof -
  note P = SystemPre_spec [OF assms(5,4)]
  note L = PVRSRVPowerLock_cases [OF assms(4,1,2)]
  have held: "e1 = PVRSRV_OK \<Longrightarrow> power_locked s1 KERNEL_ID" "e1 \<noteq> PVRSRV_OK \<Longrightarrow> \<not> power_locked s1 KERNEL_ID"
    using L by blast+
  show ?thesis
  proof (cases "e2 = PVRSRV_OK")
    case False
    then have r: "e = e2" "s' = s2\<lparr>eFailedPowerState := new\<rparr>"
      using assms(3,5) by (auto simp: PVRSRVSetPowerStateKM_def)
    show ?thesis
    proof (cases "e1 = PVRSRV_OK")
      case True
      then obtain w where w: "s2 = PVRSRVPowerUnlock KERNEL_ID (s1\<lparr>drivers := w, eFailedPowerState := new\<rparr>)"
        using P False by blast
      then have "s' = PVRSRVPowerUnlock KERNEL_ID (s1\<lparr>drivers := w, eFailedPowerState := new\<rparr>)"
        using r by (simp add: PVRSRVPowerUnlock_def)
      then show ?thesis
        using True False r(1) PVRSRVPowerUnlock_free [of "s1\<lparr>drivers := w, eFailedPowerState := new\<rparr>" KERNEL_ID] held by auto
    next
      case f1: False
      then show ?thesis using P False r held by simp
    qed
  next
    case True
    obtain w d where s2: "e1 = PVRSRV_OK" "s2 = s1\<lparr>drivers := w, pvSysSpecificData := d\<rparr>"
      using P True by blast
    obtain e3 s3 where post: "PVRSRVSystemPostPowerStateKM complete new s2 = (e3, s3)"
      by (cases "PVRSRVSystemPostPowerStateKM complete new s2")
    obtain m where m: "after_post new e3 s2 m"
        "s3 = (if IsSystemStatePowered new \<and> gbInitSuccessful m then PVRSRVScheduleDeviceCallbacks complete m else m)"
      using SystemPost_spec [OF post] by blast
    have r: "e = e3" "s' = s3\<lparr>eFailedPowerState := if e = PVRSRV_OK then PVRSRV_SYS_POWER_STATE_Unspecified else new\<rparr>"
      using assms(3,5) post True by (auto simp: PVRSRVSetPowerStateKM_def split: if_splits)
    have "after_post new e s1 m"
      using m(1) unfolding r(1) s2(2) after_post_update .
    moreover have "\<not> ui32Lock (sPowerStateChangeResource m)"
      using after_post_free [OF m(1)] held s2 by simp
    ultimately show ?thesis
      using True s2(1) r m(2) by blast
  qed
qed


section \<open>Registration and queries\<close>

text \<open>The registered devices own their blocks: distinct addresses, all live.\<close>

definition power_devices_ok :: "'w SYS_DATA \<Rightarrow> bool" where
  "power_devices_ok s \<longleftrightarrow> os_ok (sys_os s) \<and> distinct (map psPowerDevice (psPowerDeviceList s)) \<and>
     psPowerDevice ` set (psPowerDeviceList s) \<subseteq> set (os_live (sys_os s))"

lemma filter_other_addresses:
  "distinct (map f xs) \<Longrightarrow> y \<notin> f ` set xs \<Longrightarrow> filter (\<lambda>d. f d \<noteq> y) xs = xs"
  by (induction xs) auto

text \<open>Registering a power device and removing it again restores the device list and gives its
  memory back; a failed registration changes neither; a registration without power callbacks is a
  removal. The list keeps owning its blocks.\<close>

theorem power_register_remove:
  assumes "power_devices_ok s" "pre \<noteq> None \<or> post \<noteq> None"
    and "PVRSRVRegisterPowerDevice idx pre post preClk postClk cookie cur def s = (e, s')"
    and "PVRSRVRemovePowerDevice idx s' = (e2, s2)"
  shows "power_devices_ok s' \<and>
         (if e = PVRSRV_OK then
            List.find (MatchPowerDeviceIndex_AnyVaCb idx) (psPowerDeviceList s') \<noteq> None \<and>
            e2 = PVRSRV_OK \<and> psPowerDeviceList s2 = psPowerDeviceList s \<and>
            blocks (sys_os s2) = blocks (sys_os s)
          else e = PVRSRV_ERROR_OUT_OF_MEMORY \<and> psPowerDeviceList s' = psPowerDeviceList s \<and>
            blocks (sys_os s') = blocks (sys_os s)) \<and>
         PVRSRVRegisterPowerDevice idx None None preClk postClk cookie cur def s =
           PVRSRVRemovePowerDevice idx s"
proof -
  obtain ea p os' where al: "OSAllocMem sizeof_PVRSRV_POWER_DEV (sys_os s) = (ea, p, os')"
    by (cases "OSAllocMem sizeof_PVRSRV_POWER_DEV (sys_os s)")
  have ok: "os_ok os'" using OSAllocMem_os_ok [OF al] assms(1) by (simp add: power_devices_ok_def)
  from al show ?thesis
  proof (cases rule: OSAllocMem_cases)
    case oom
    then have "e = PVRSRV_ERROR_OUT_OF_MEMORY" "s' = s\<lparr>sys_os := os'\<rparr>"
      using assms(2,3) al by (auto simp: PVRSRVRegisterPowerDevice_def)
    with oom ok assms(1) show ?thesis
      by (simp add: power_devices_ok_def blocks_def PVRSRVRegisterPowerDevice_def)
  next
    case ok': ok
    then have r: "e = PVRSRV_OK" "s' = s\<lparr>sys_os := os', psPowerDeviceList :=
        \<lparr>psPowerDevice = p, pfnPrePower = pre, pfnPostPower = post,
         pfnPreClockSpeedChange = preClk, pfnPostClockSpeedChange = postClk,
         hDevCookie = cookie, ui32DeviceIndex = idx,
         dev_eDefaultPowerState = def, dev_eCurrentPowerState = cur\<rparr> # psPowerDeviceList s\<rparr>"
      using assms(2,3) al by (auto simp: PVRSRVRegisterPowerDevice_def)
    have fresh: "p \<notin> psPowerDevice ` set (psPowerDeviceList s)"
      using assms(1) ok'(3) by (auto simp: power_devices_ok_def)
    then have "filter (\<lambda>d. psPowerDevice d \<noteq> p) (psPowerDeviceList s) = psPowerDeviceList s"
      using assms(1) by (intro filter_other_addresses) (auto simp: power_devices_ok_def)
    with r fresh ok ok' assms show ?thesis
      by (auto simp: power_devices_ok_def PVRSRVRegisterPowerDevice_def PVRSRVRemovePowerDevice_def
          MatchPowerDeviceIndex_AnyVaCb_def blocks_def OSFreeMem_def)
  qed
qed

text \<open>A device is reported as powered only when it is registered and on and no kernel or
  interrupt-level transition is under way; in particular, after it was switched on successfully
  without retaining the lock it is reported as powered, and after it was switched to any other
  state it is not.\<close>

theorem device_powered_after_set:
  assumes "others_ok others c" "\<not> power_locked s c" "new \<noteq> PVRSRV_DEV_POWER_STATE_DEFAULT"
    and "PVRSRVSetDevicePowerStateKM others idx new c False s = (PVRSRV_OK, s')"
    and "idx \<in> ui32DeviceIndex ` set (psPowerDeviceList s')"
  shows "PVRSRVIsDevicePowered idx s' \<longleftrightarrow> new = PVRSRV_DEV_POWER_STATE_ON"
proof -
  obtain e1 s1 where lock: "PVRSRVPowerLock others c False s = (e1, s1)"
    by (cases "PVRSRVPowerLock others c False s")
  have e1: "e1 = PVRSRV_OK" and held: "power_locked s1 c"
    using assms(4) lock PVRSRVPowerLock_cases [OF lock assms(1,2)]
    by (auto simp: PVRSRVSetDevicePowerStateKM_def split: if_splits)
  obtain e2 s2 where pre: "PVRSRVDevicePrePowerStateKM False idx new s1 = (e2, s2)"
    by (cases "PVRSRVDevicePrePowerStateKM False idx new s1")
  obtain e3 s3 where post: "PVRSRVDevicePostPowerStateKM False idx new s2 = (e3, s3)"
    by (cases "PVRSRVDevicePostPowerStateKM False idx new s2")
  have r: "e2 = PVRSRV_OK" "e3 = PVRSRV_OK" "s' = PVRSRVPowerUnlock c s3"
    using assms(4) lock e1 pre post by (auto simp: PVRSRVSetDevicePowerStateKM_def split: if_splits)
  note P = DevicePre_spec [OF pre] and Q = DevicePost_spec [OF post]
  have "power_locked s3 c"
    using held same_but_devices_simps [OF conjunct2 [OF P]] same_but_devices_simps [OF conjunct1 [OF Q]] by simp
  then have free: "\<not> ui32Lock (sPowerStateChangeResource s')"
    using PVRSRVPowerUnlock_free r(3) by simp
  have devs: "psPowerDeviceList s' = map (switch_dev False idx new) (psPowerDeviceList s1)"
    using P Q r by auto
  obtain d where d: "List.find (MatchPowerDeviceIndex_AnyVaCb idx) (psPowerDeviceList s') = Some d"
    using assms(5) by (cases "List.find (MatchPowerDeviceIndex_AnyVaCb idx) (psPowerDeviceList s')")
      (auto simp: find_None_iff MatchPowerDeviceIndex_AnyVaCb_def)
  then have "d \<in> set (psPowerDeviceList s')" "ui32DeviceIndex d = idx"
    by (auto simp: find_Some_iff MatchPowerDeviceIndex_AnyVaCb_def)
  then have "dev_eCurrentPowerState d = new"
    using devs assms(3) by (auto simp: switch_dev_def split: if_splits)
  with free d show ?thesis by (simp add: PVRSRVIsDevicePowered_def OSIsResourceLocked_def)
qed

text \<open>C18: The notification before a clock-speed change is guarded by the wrong callback: a device
  with a callback for after the change and none for before it is called through a null pointer,
  and the callback for before the change of a device that has no callback for after is never
  called.\<close>

theorem pre_clock_speed_wrong_guard:
  assumes "List.find (MatchPowerDeviceIndex_AnyVaCb idx) (psPowerDeviceList s) = Some dev"
  shows "(pfnPostClockSpeedChange dev \<noteq> None \<and> pfnPreClockSpeedChange dev = None \<longrightarrow>
            PVRSRVDevicePreClockSpeedChange others idx False s = None) \<and>
         (pfnPostClockSpeedChange dev = None \<longrightarrow>
            PVRSRVDevicePreClockSpeedChange others idx False s = Some (PVRSRV_OK, s))"
  using assms by (auto simp: PVRSRVDevicePreClockSpeedChange_def)

text \<open>Whenever the first one returns, the notifications around a clock-speed change that idles
  the device bracket it with the power lock: the lock is held after a successful first
  notification and not after a failed one, and the second notification releases it.\<close>

theorem clock_speed_lock_bracket:
  assumes "others_ok others KERNEL_ID" "\<not> power_locked s KERNEL_ID"
    and "PVRSRVDevicePreClockSpeedChange others idx True s = Some (e, s')"
  shows "(power_locked s' KERNEL_ID \<longleftrightarrow> e = PVRSRV_OK) \<and>
         \<not> power_locked (PVRSRVDevicePostClockSpeedChange idx True s') KERNEL_ID"
proof -
  obtain e1 s1 where lock: "PVRSRVPowerLock others KERNEL_ID False s = (e1, s1)"
    by (cases "PVRSRVPowerLock others KERNEL_ID False s")
  from PVRSRVPowerLock_cases [OF this assms(1,2)] assms(3) lock
  have "power_locked s' KERNEL_ID \<longleftrightarrow> e = PVRSRV_OK"
    by (auto simp: PVRSRVDevicePreClockSpeedChange_def Let_def split: if_splits option.splits prod.splits)
  then show ?thesis by (simp add: PVRSRVDevicePostClockSpeedChange_def Let_def)
qed

section \<open>Examples\<close>

definition ex_dev :: "nat list PVRSRV_POWER_DEV" where
  "ex_dev = \<lparr>psPowerDevice = 0x100, pfnPrePower = Some (\<lambda>h n c w. (PVRSRV_OK, 1 # w)),
     pfnPostPower = Some (\<lambda>h n c w. (PVRSRV_OK, 2 # w)), pfnPreClockSpeedChange = None,
     pfnPostClockSpeedChange = Some (\<lambda>h b c w. (PVRSRV_OK, 3 # w)), hDevCookie = 9,
     ui32DeviceIndex = 1, dev_eDefaultPowerState = PVRSRV_DEV_POWER_STATE_OFF,
     dev_eCurrentPowerState = PVRSRV_DEV_POWER_STATE_OFF\<rparr>"

definition ex_sysdata :: "nat list SYS_DATA" where
  "ex_sysdata = \<lparr>eCurrentPowerState = PVRSRV_SYS_POWER_STATE_D0,
     eFailedPowerState = PVRSRV_SYS_POWER_STATE_Unspecified,
     sPowerStateChangeResource = OSCreateResource, psPowerDeviceList = [ex_dev],
     sys_psDeviceNodeList = [\<lparr>pn_psDeviceNode = 7, pn_pfnDeviceCommandComplete = 8\<rparr>], pvSysSpecificData = ex_sys,
     gbInitServerRunning = False, gbInitServerRan = True, gbInitSuccessful = True,
     sys_os = \<lparr>os_allocs = [0x200], os_live = [0x100]\<rparr>, drivers = []\<rparr>"

definition ex_others :: "nat \<Rightarrow> nat list SYS_DATA \<Rightarrow> nat list SYS_DATA" where
  "ex_others t s = s"

lemma ex_others_ok [simp]: "others_ok ex_others c"
  by (simp add: others_ok_def ex_others_def)

lemma ex_unlocked [simp]: "\<not> power_locked ex_sysdata c"
  by (simp add: power_locked_def ex_sysdata_def OSCreateResource_def OSIsResourceLocked_def)

lemma ex_lock: "PVRSRVPowerLock others c ev ex_sysdata =
    (PVRSRV_OK, ex_sysdata\<lparr>sPowerStateChangeResource := \<lparr>ui32Lock = True, ui32ID = c\<rparr>\<rparr>)"
  by (subst PVRSRVPowerLock_free)
    (simp_all add: ex_sysdata_def OSCreateResource_def OSLockResource_def IsSystemStatePowered_def)

theorem power_lock_outcome_witness:
  "fst (PVRSRVPowerLock ex_others 42 False ex_sysdata) = PVRSRV_OK \<and>
   power_locked (snd (PVRSRVPowerLock ex_others 42 False ex_sysdata)) 42"
  using power_lock_outcome [OF ex_lock ex_others_ok ex_unlocked, of 42 False]
  by (simp add: ex_lock)

lemmas power_eval = PVRSRVDevicePrePowerStateKM_def PVRSRVDevicePrePowerStateKM_AnyVaCb_def
  PVRSRVDevicePostPowerStateKM_def PVRSRVDevicePostPowerStateKM_AnyVaCb_def
  SysDevicePrePowerState_def SysDevicePostPowerState_def ex_sysdata_def ex_dev_def

lemma ex_set_device:
  "fst (PVRSRVSetDevicePowerStateKM ex_others 1 PVRSRV_DEV_POWER_STATE_ON 42 retain ex_sysdata) = PVRSRV_OK"
  unfolding PVRSRVSetDevicePowerStateKM_def ex_lock by (simp add: Let_def power_eval)

theorem set_device_power_state_witness:
  "let s' = snd (PVRSRVSetDevicePowerStateKM ex_others 1 PVRSRV_DEV_POWER_STATE_ON 42 True ex_sysdata)
   in psPowerDeviceList s' = [ex_dev\<lparr>dev_eCurrentPowerState := PVRSRV_DEV_POWER_STATE_ON\<rparr>] \<and>
      power_locked s' 42"
  using set_device_power_state [OF ex_others_ok ex_unlocked prod.collapse [symmetric] ex_lock,
      of 1 PVRSRV_DEV_POWER_STATE_ON 42 True] ex_set_device [of True]
  by (simp add: switch_dev_def ex_sysdata_def ex_dev_def)

text \<open>The device of the example powers itself up when it is told to look for finished commands.\<close>

definition ex_complete :: "nat list complete_call" where
  "ex_complete pfn node s = snd (PVRSRVSetDevicePowerStateKM ex_others 1 PVRSRV_DEV_POWER_STATE_ON 42 False s)"

lemma ex_system_pre:
  "fst (PVRSRVSystemPrePowerStateKM ex_others PVRSRV_SYS_POWER_STATE_D3 ex_sysdata) = PVRSRV_OK"
  unfolding PVRSRVSystemPrePowerStateKM_def ex_lock
  by (simp add: Let_def power_eval SysSystemPrePowerState_def SysUnmapRegisters_def IsSystemStatePowered_def split: prod.splits)

lemma ex_set_power:
  "fst (PVRSRVSetPowerStateKM ex_complete ex_others PVRSRV_SYS_POWER_STATE_D3 ex_sysdata) = PVRSRV_OK"
  unfolding PVRSRVSetPowerStateKM_def PVRSRVSystemPrePowerStateKM_def ex_lock
  by (simp add: PVRSRVSystemPostPowerStateKM_def Let_def power_eval SysSystemPrePowerState_def SysUnmapRegisters_def
      SysSystemPostPowerState_def IsSystemStatePowered_def split: prod.splits)

theorem set_power_state_witness:
  "let s' = snd (PVRSRVSetPowerStateKM ex_complete ex_others PVRSRV_SYS_POWER_STATE_D3 ex_sysdata)
   in eCurrentPowerState s' = PVRSRV_SYS_POWER_STATE_D3 \<and> \<not> ui32Lock (sPowerStateChangeResource s') \<and>
      psPowerDeviceList s' = [ex_dev]"
  using set_power_state [OF ex_others_ok ex_unlocked prod.collapse [symmetric] ex_lock prod.collapse [symmetric],
      of ex_complete PVRSRV_SYS_POWER_STATE_D3] ex_set_power ex_system_pre
  by (auto simp: after_post_def follow_system_def switch_dev_def IsSystemStatePowered_def ex_sysdata_def ex_dev_def)




theorem power_register_remove_witness:
  "let (e, s') = PVRSRVRegisterPowerDevice 2 (pfnPrePower ex_dev) None None None 5
                   PVRSRV_DEV_POWER_STATE_OFF PVRSRV_DEV_POWER_STATE_OFF ex_sysdata
   in e = PVRSRV_OK \<and> length (psPowerDeviceList s') = 2 \<and>
      psPowerDeviceList (snd (PVRSRVRemovePowerDevice 2 s')) = [ex_dev]"
proof -
  let ?r = "PVRSRVRegisterPowerDevice 2 (pfnPrePower ex_dev) None None None 5
              PVRSRV_DEV_POWER_STATE_OFF PVRSRV_DEV_POWER_STATE_OFF ex_sysdata"
  have ok: "power_devices_ok ex_sysdata"
    by (simp add: power_devices_ok_def ex_sysdata_def ex_dev_def os_ok_def)
  have e: "fst ?r = PVRSRV_OK" "length (psPowerDeviceList (snd ?r)) = 2"
    by (simp_all add: PVRSRVRegisterPowerDevice_def OSAllocMem_def kmalloc_def ex_sysdata_def ex_dev_def
        sizeof_PVRSRV_POWER_DEV_def PAGE_SIZE_def)
  have "pfnPrePower ex_dev \<noteq> None \<or> None \<noteq> None" by (simp add: ex_dev_def)
  from power_register_remove [OF ok this prod.collapse [symmetric] prod.collapse [symmetric],
      of 2 None None 5 PVRSRV_DEV_POWER_STATE_OFF PVRSRV_DEV_POWER_STATE_OFF] e(1)
  have "psPowerDeviceList (snd (PVRSRVRemovePowerDevice 2 (snd ?r))) = psPowerDeviceList ex_sysdata"
    by simp
  then have "psPowerDeviceList (snd (PVRSRVRemovePowerDevice 2 (snd ?r))) = [ex_dev]"
    by (simp add: ex_sysdata_def)
  with e show ?thesis by (simp add: split_beta)
qed

theorem device_powered_after_set_witness:
  "PVRSRVIsDevicePowered 1
     (snd (PVRSRVSetDevicePowerStateKM ex_others 1 PVRSRV_DEV_POWER_STATE_ON 42 False ex_sysdata))"
proof -
  let ?r = "PVRSRVSetDevicePowerStateKM ex_others 1 PVRSRV_DEV_POWER_STATE_ON 42 False ex_sysdata"
  have r: "?r = (PVRSRV_OK, snd ?r)" using ex_set_device [of False] by (metis prod.collapse)
  have "1 \<in> ui32DeviceIndex ` set (psPowerDeviceList (snd ?r))"
    unfolding PVRSRVSetDevicePowerStateKM_def ex_lock by (simp add: Let_def power_eval)
  from device_powered_after_set [OF ex_others_ok ex_unlocked _ r this] show ?thesis by simp
qed

theorem pre_clock_speed_wrong_guard_witness:
  "PVRSRVDevicePreClockSpeedChange ex_others 1 False ex_sysdata = None"
  using pre_clock_speed_wrong_guard [of 1 ex_sysdata ex_dev ex_others]
  by (simp add: ex_sysdata_def ex_dev_def MatchPowerDeviceIndex_AnyVaCb_def)

theorem clock_speed_lock_bracket_witness:
  "\<exists>s'. PVRSRVDevicePreClockSpeedChange ex_others 7 True ex_sysdata = Some (PVRSRV_OK, s') \<and>
        power_locked s' KERNEL_ID \<and>
        \<not> power_locked (PVRSRVDevicePostClockSpeedChange 7 True s') KERNEL_ID"
proof -
  let ?s = "ex_sysdata\<lparr>sPowerStateChangeResource := \<lparr>ui32Lock = True, ui32ID = KERNEL_ID\<rparr>\<rparr>"
  have "PVRSRVDevicePreClockSpeedChange ex_others 7 True ex_sysdata = Some (PVRSRV_OK, ?s)"
    unfolding PVRSRVDevicePreClockSpeedChange_def ex_lock
    by (simp add: MatchPowerDeviceIndex_AnyVaCb_def ex_sysdata_def ex_dev_def)
  with clock_speed_lock_bracket [OF ex_others_ok ex_unlocked this] show ?thesis by auto
qed

end
