(* ===== verification/Resource_Manager.thy ===== *)
theory Resource_Manager
  imports Linked_List "HOL-Library.Sublist"
begin

text \<open>
  The resource manager, \<open>services4/srvkm/common/resman.c\<close>: each process owns a context, a list of
  items, each of which knows how to free one resource; when the process disconnects, whatever is
  left on its list is freed, type by type in a fixed order.

  The callbacks that free a resource are code outside this component. A callback is called while the
  manager's lock is released and may enter the manager again, so it is a function on the manager's
  whole state: the parameter \<open>call\<close> gives, for a function pointer and the arguments, the error code
  and the state after the call. Reading or unlinking an item or a context through a pointer that is
  not on a list is undefined in C; here it has no result (\<open>None\<close>), and so has a loop that does not
  end.
\<close>

section \<open>Data\<close>

record RESMAN_ITEM =
  psResItem :: IMG_UINTPTR_T
  ui32Flags :: IMG_UINT32
  ui32ResType :: IMG_UINT32
  pvParam :: IMG_UINTPTR_T
  ui32Param :: IMG_UINT32
  pfnFreeResource :: IMG_UINTPTR_T

record RESMAN_CONTEXT =
  psContext :: IMG_UINTPTR_T
  psPerProc :: IMG_UINTPTR_T
  psResItemList :: "RESMAN_ITEM list"

record 'w RESMAN =
  gpsResList :: IMG_UINTPTR_T
  psContextList :: "RESMAN_CONTEXT list"
  rm_os :: os
  rm_world :: 'w

type_synonym 'w free_call =
  "IMG_UINTPTR_T \<Rightarrow> IMG_UINTPTR_T \<Rightarrow> IMG_UINT32 \<Rightarrow> bool \<Rightarrow> 'w RESMAN \<Rightarrow> PVRSRV_ERROR \<times> 'w RESMAN"

abbreviation RESMAN_TYPE_SHARED_PB_DESC :: IMG_UINT32 where "RESMAN_TYPE_SHARED_PB_DESC \<equiv> 1"
abbreviation RESMAN_TYPE_SHARED_PB_DESC_CREATE_LOCK :: IMG_UINT32 where "RESMAN_TYPE_SHARED_PB_DESC_CREATE_LOCK \<equiv> 2"
abbreviation RESMAN_TYPE_HW_RENDER_CONTEXT :: IMG_UINT32 where "RESMAN_TYPE_HW_RENDER_CONTEXT \<equiv> 3"
abbreviation RESMAN_TYPE_HW_TRANSFER_CONTEXT :: IMG_UINT32 where "RESMAN_TYPE_HW_TRANSFER_CONTEXT \<equiv> 4"
abbreviation RESMAN_TYPE_HW_2D_CONTEXT :: IMG_UINT32 where "RESMAN_TYPE_HW_2D_CONTEXT \<equiv> 5"
abbreviation RESMAN_TYPE_TRANSFER_CONTEXT :: IMG_UINT32 where "RESMAN_TYPE_TRANSFER_CONTEXT \<equiv> 6"
abbreviation RESMAN_TYPE_DMA_CLIENT_FIFO_DATA :: IMG_UINT32 where "RESMAN_TYPE_DMA_CLIENT_FIFO_DATA \<equiv> 7"
abbreviation RESMAN_TYPE_DISPLAYCLASS_SWAPCHAIN_REF :: IMG_UINT32 where "RESMAN_TYPE_DISPLAYCLASS_SWAPCHAIN_REF \<equiv> 8"
abbreviation RESMAN_TYPE_DISPLAYCLASS_DEVICE :: IMG_UINT32 where "RESMAN_TYPE_DISPLAYCLASS_DEVICE \<equiv> 9"
abbreviation RESMAN_TYPE_BUFFERCLASS_DEVICE :: IMG_UINT32 where "RESMAN_TYPE_BUFFERCLASS_DEVICE \<equiv> 10"
abbreviation RESMAN_TYPE_OS_USERMODE_MAPPING :: IMG_UINT32 where "RESMAN_TYPE_OS_USERMODE_MAPPING \<equiv> 11"
abbreviation RESMAN_TYPE_DEVICEMEM_CONTEXT :: IMG_UINT32 where "RESMAN_TYPE_DEVICEMEM_CONTEXT \<equiv> 12"
abbreviation RESMAN_TYPE_DEVICECLASSMEM_MAPPING :: IMG_UINT32 where "RESMAN_TYPE_DEVICECLASSMEM_MAPPING \<equiv> 13"
abbreviation RESMAN_TYPE_DEVICEMEM_MAPPING :: IMG_UINT32 where "RESMAN_TYPE_DEVICEMEM_MAPPING \<equiv> 14"
abbreviation RESMAN_TYPE_DEVICEMEM_WRAP :: IMG_UINT32 where "RESMAN_TYPE_DEVICEMEM_WRAP \<equiv> 15"
abbreviation RESMAN_TYPE_DEVICEMEM_ALLOCATION :: IMG_UINT32 where "RESMAN_TYPE_DEVICEMEM_ALLOCATION \<equiv> 16"
abbreviation RESMAN_TYPE_EVENT_OBJECT :: IMG_UINT32 where "RESMAN_TYPE_EVENT_OBJECT \<equiv> 17"
abbreviation RESMAN_TYPE_SHARED_MEM_INFO :: IMG_UINT32 where "RESMAN_TYPE_SHARED_MEM_INFO \<equiv> 18"
abbreviation RESMAN_TYPE_MODIFY_SYNC_OPS :: IMG_UINT32 where "RESMAN_TYPE_MODIFY_SYNC_OPS \<equiv> 19"
abbreviation RESMAN_TYPE_SYNC_INFO :: IMG_UINT32 where "RESMAN_TYPE_SYNC_INFO \<equiv> 20"
abbreviation RESMAN_TYPE_KERNEL_DEVICEMEM_ALLOCATION :: IMG_UINT32 where "RESMAN_TYPE_KERNEL_DEVICEMEM_ALLOCATION \<equiv> 21"

definition RESMAN_CRITERIA_RESTYPE :: IMG_UINT32 where "RESMAN_CRITERIA_RESTYPE = 1"
definition RESMAN_CRITERIA_PVOID_PARAM :: IMG_UINT32 where "RESMAN_CRITERIA_PVOID_PARAM = 2"
definition RESMAN_CRITERIA_UI32_PARAM :: IMG_UINT32 where "RESMAN_CRITERIA_UI32_PARAM = 4"
definition CLEANUP_WITH_POLL :: bool where "CLEANUP_WITH_POLL = False"

definition sizeof_RESMAN_LIST :: IMG_UINT32 where "sizeof_RESMAN_LIST = 8"
definition sizeof_RESMAN_CONTEXT :: IMG_UINT32 where "sizeof_RESMAN_CONTEXT = 32"
definition sizeof_RESMAN_ITEM :: IMG_UINT32 where "sizeof_RESMAN_ITEM = 48"

text \<open>Access through pointers.\<close>

definition rm_context :: "IMG_UINTPTR_T \<Rightarrow> 'w RESMAN \<Rightarrow> RESMAN_CONTEXT option" where
  "rm_context p s = List.find (\<lambda>c. psContext c = p) (psContextList s)"

definition rm_items :: "'w RESMAN \<Rightarrow> RESMAN_ITEM list" where
  "rm_items s = concat (map psResItemList (psContextList s))"

definition rm_item :: "IMG_UINTPTR_T \<Rightarrow> 'w RESMAN \<Rightarrow> RESMAN_ITEM option" where
  "rm_item p s = List.find (\<lambda>i. psResItem i = p) (rm_items s)"

definition update_items ::
  "(RESMAN_CONTEXT \<Rightarrow> RESMAN_ITEM list \<Rightarrow> RESMAN_ITEM list) \<Rightarrow> 'w RESMAN \<Rightarrow> 'w RESMAN" where
  "update_items f s =
     s\<lparr>psContextList := map (\<lambda>c. c\<lparr>psResItemList := f c (psResItemList c)\<rparr>) (psContextList s)\<rparr>"

definition unlink_item :: "IMG_UINTPTR_T \<Rightarrow> 'w RESMAN \<Rightarrow> 'w RESMAN" where
  "unlink_item p = update_items (\<lambda>c. filter (\<lambda>i. psResItem i \<noteq> p))"

definition link_item :: "IMG_UINTPTR_T \<Rightarrow> RESMAN_ITEM \<Rightarrow> 'w RESMAN \<Rightarrow> 'w RESMAN" where
  "link_item ctx i = update_items (\<lambda>c is. if psContext c = ctx then i # is else is)"

definition reverse_items :: "IMG_UINTPTR_T \<Rightarrow> 'w RESMAN \<Rightarrow> 'w RESMAN" where
  "reverse_items ctx = update_items (\<lambda>c is. if psContext c = ctx then rev is else is)"

section \<open>Operations\<close>

definition ResManInit :: "'w RESMAN \<Rightarrow> PVRSRV_ERROR \<times> 'w RESMAN" where
  "ResManInit s =
     (if gpsResList s = IMG_NULL then
        (let (eError, p, os') = OSAllocMem sizeof_RESMAN_LIST (rm_os s)
         in if eError \<noteq> PVRSRV_OK
            then (PVRSRV_ERROR_OUT_OF_MEMORY, s\<lparr>gpsResList := p, rm_os := os'\<rparr>)
            else (PVRSRV_OK, s\<lparr>gpsResList := p, psContextList := [], rm_os := os'\<rparr>))
      else (PVRSRV_OK, s))"

definition ResManDeInit :: "'w RESMAN \<Rightarrow> 'w RESMAN" where
  "ResManDeInit s =
     (if gpsResList s \<noteq> IMG_NULL
      then s\<lparr>rm_os := OSFreeMem (gpsResList s) (rm_os s), gpsResList := IMG_NULL\<rparr>
      else s)"

definition PVRSRVResManConnect ::
  "IMG_UINTPTR_T \<Rightarrow> 'w RESMAN \<Rightarrow> PVRSRV_ERROR \<times> IMG_UINTPTR_T \<times> 'w RESMAN" where
  "PVRSRVResManConnect hPerProc s =
     (let (eError, p, os') = OSAllocMem sizeof_RESMAN_CONTEXT (rm_os s)
      in if eError \<noteq> PVRSRV_OK then (eError, IMG_NULL, s\<lparr>rm_os := os'\<rparr>)
         else (PVRSRV_OK, p,
               s\<lparr>rm_os := os',
                 psContextList :=
                   \<lparr>psContext = p, psPerProc = hPerProc, psResItemList = []\<rparr> # psContextList s\<rparr>))"

definition FreeResourceByPtr ::
  "'w free_call \<Rightarrow> IMG_UINTPTR_T \<Rightarrow> bool \<Rightarrow> bool \<Rightarrow> 'w RESMAN \<Rightarrow> (PVRSRV_ERROR \<times> 'w RESMAN) option" where
  "FreeResourceByPtr call psItem bExecuteCallback bForceCleanup s =
     (if psItem = IMG_NULL then Some (PVRSRV_ERROR_INVALID_PARAMS, s)
      else
        do {
          i \<leftarrow> rm_item psItem s;
          let s1 = unlink_item psItem s;
          let (eError, s2) =
            (if bExecuteCallback
             then call (pfnFreeResource i) (pvParam i) (ui32Param i) bForceCleanup s1
             else (PVRSRV_OK, s1));
          Some (eError, s2\<lparr>rm_os := OSFreeMem psItem (rm_os s2)\<rparr>)
        })"

definition FreeResourceByCriteria_AnyVaCb ::
  "IMG_UINT32 \<Rightarrow> IMG_UINT32 \<Rightarrow> IMG_UINTPTR_T \<Rightarrow> IMG_UINT32 \<Rightarrow> RESMAN_ITEM \<Rightarrow> bool" where
  "FreeResourceByCriteria_AnyVaCb ui32SearchCriteria ty pv ui psCurItem \<longleftrightarrow>
     (ui32SearchCriteria AND RESMAN_CRITERIA_RESTYPE = 0 \<or> ui32ResType psCurItem = ty) \<and>
     (ui32SearchCriteria AND RESMAN_CRITERIA_PVOID_PARAM = 0 \<or> pvParam psCurItem = pv) \<and>
     (ui32SearchCriteria AND RESMAN_CRITERIA_UI32_PARAM = 0 \<or> ui32Param psCurItem = ui)"

partial_function (option) criteria_loop ::
  "'w free_call \<Rightarrow> IMG_UINTPTR_T \<Rightarrow> (RESMAN_ITEM \<Rightarrow> bool) \<Rightarrow> bool \<Rightarrow> PVRSRV_ERROR \<Rightarrow> 'w RESMAN
    \<Rightarrow> (PVRSRV_ERROR \<times> 'w RESMAN) option" where
  "criteria_loop call ctx match bExecuteCallback eError s =
     do {
       c \<leftarrow> rm_context ctx s;
       (case List.find match (psResItemList c) of
          None \<Rightarrow> Some (eError, s)
        | Some psCurItem \<Rightarrow>
            if eError = PVRSRV_OK then
              do {
                (e, s') \<leftarrow> FreeResourceByPtr call (psResItem psCurItem) bExecuteCallback CLEANUP_WITH_POLL s;
                criteria_loop call ctx match bExecuteCallback e s'
              }
            else Some (eError, s))
     }"

definition FreeResourceByCriteria ::
  "'w free_call \<Rightarrow> IMG_UINTPTR_T \<Rightarrow> IMG_UINT32 \<Rightarrow> IMG_UINT32 \<Rightarrow> IMG_UINTPTR_T \<Rightarrow> IMG_UINT32 \<Rightarrow> bool
    \<Rightarrow> 'w RESMAN \<Rightarrow> (PVRSRV_ERROR \<times> 'w RESMAN) option" where
  "FreeResourceByCriteria call psResManContext ui32SearchCriteria ty pv ui bExecuteCallback s =
     criteria_loop call psResManContext (FreeResourceByCriteria_AnyVaCb ui32SearchCriteria ty pv ui)
       bExecuteCallback PVRSRV_OK s"

text \<open>One call of the sequence in \<open>PVRSRVResManDisconnect\<close>; the error code is dropped there.\<close>

definition free_type ::
  "'w free_call \<Rightarrow> IMG_UINTPTR_T \<Rightarrow> IMG_UINT32 \<Rightarrow> 'w RESMAN \<Rightarrow> 'w RESMAN option" where
  "free_type call psResManContext ty s =
     map_option snd
       (FreeResourceByCriteria call psResManContext RESMAN_CRITERIA_RESTYPE ty IMG_NULL 0 True s)"

definition free_all_types ::
  "'w free_call \<Rightarrow> IMG_UINTPTR_T \<Rightarrow> 'w RESMAN \<Rightarrow> 'w RESMAN option" where
  "free_all_types call psResManContext s =
     do {
       s1 \<leftarrow> free_type call psResManContext RESMAN_TYPE_OS_USERMODE_MAPPING s;
       s2 \<leftarrow> free_type call psResManContext RESMAN_TYPE_DMA_CLIENT_FIFO_DATA s1;
       s3 \<leftarrow> free_type call psResManContext RESMAN_TYPE_EVENT_OBJECT s2;
       s4 \<leftarrow> free_type call psResManContext RESMAN_TYPE_MODIFY_SYNC_OPS (reverse_items psResManContext s3);
       s5 \<leftarrow> free_type call psResManContext RESMAN_TYPE_HW_RENDER_CONTEXT (reverse_items psResManContext s4);
       s6 \<leftarrow> free_type call psResManContext RESMAN_TYPE_HW_TRANSFER_CONTEXT s5;
       s7 \<leftarrow> free_type call psResManContext RESMAN_TYPE_HW_2D_CONTEXT s6;
       s8 \<leftarrow> free_type call psResManContext RESMAN_TYPE_TRANSFER_CONTEXT s7;
       s9 \<leftarrow> free_type call psResManContext RESMAN_TYPE_SHARED_PB_DESC_CREATE_LOCK s8;
       s10 \<leftarrow> free_type call psResManContext RESMAN_TYPE_SHARED_PB_DESC s9;
       s11 \<leftarrow> free_type call psResManContext RESMAN_TYPE_SYNC_INFO s10;
       s12 \<leftarrow> free_type call psResManContext RESMAN_TYPE_DEVICECLASSMEM_MAPPING s11;
       s13 \<leftarrow> free_type call psResManContext RESMAN_TYPE_DEVICEMEM_WRAP s12;
       s14 \<leftarrow> free_type call psResManContext RESMAN_TYPE_DEVICEMEM_MAPPING s13;
       s15 \<leftarrow> free_type call psResManContext RESMAN_TYPE_KERNEL_DEVICEMEM_ALLOCATION s14;
       s16 \<leftarrow> free_type call psResManContext RESMAN_TYPE_DEVICEMEM_ALLOCATION s15;
       s17 \<leftarrow> free_type call psResManContext RESMAN_TYPE_DEVICEMEM_CONTEXT s16;
       s18 \<leftarrow> free_type call psResManContext RESMAN_TYPE_SHARED_MEM_INFO s17;
       s19 \<leftarrow> free_type call psResManContext RESMAN_TYPE_DISPLAYCLASS_SWAPCHAIN_REF s18;
       s20 \<leftarrow> free_type call psResManContext RESMAN_TYPE_DISPLAYCLASS_DEVICE s19;
       s21 \<leftarrow> free_type call psResManContext RESMAN_TYPE_BUFFERCLASS_DEVICE s20;
       Some s21
     }"

definition PVRSRVResManDisconnect ::
  "'w free_call \<Rightarrow> IMG_UINTPTR_T \<Rightarrow> bool \<Rightarrow> 'w RESMAN \<Rightarrow> 'w RESMAN option" where
  "PVRSRVResManDisconnect call psResManContext bKernelContext s =
     do {
       s1 \<leftarrow> (if bKernelContext then Some s else free_all_types call psResManContext s);
       c \<leftarrow> rm_context psResManContext s1;
       Some (s1\<lparr>psContextList := filter (\<lambda>c. psContext c \<noteq> psResManContext) (psContextList s1),
               rm_os := OSFreeMem psResManContext (rm_os s1)\<rparr>)
     }"

definition ResManRegisterRes ::
  "IMG_UINTPTR_T \<Rightarrow> IMG_UINT32 \<Rightarrow> IMG_UINTPTR_T \<Rightarrow> IMG_UINT32 \<Rightarrow> IMG_UINTPTR_T \<Rightarrow> 'w RESMAN
    \<Rightarrow> (IMG_UINTPTR_T \<times> 'w RESMAN) option" where
  "ResManRegisterRes psResManContext ty pv ui pfn s =
     (if psResManContext = IMG_NULL then Some (IMG_NULL, s)
      else
        (let (eError, p, os') = OSAllocMem sizeof_RESMAN_ITEM (rm_os s);
             s1 = s\<lparr>rm_os := os'\<rparr>
         in if eError \<noteq> PVRSRV_OK then Some (IMG_NULL, s1)
            else
              do {
                c \<leftarrow> rm_context psResManContext s1;
                Some (p, link_item psResManContext
                  \<lparr>psResItem = p, ui32Flags = 0, ui32ResType = ty, pvParam = pv, ui32Param = ui,
                   pfnFreeResource = pfn\<rparr> s1)
              }))"

definition ResManFreeResByPtr ::
  "'w free_call \<Rightarrow> IMG_UINTPTR_T \<Rightarrow> bool \<Rightarrow> 'w RESMAN \<Rightarrow> (PVRSRV_ERROR \<times> 'w RESMAN) option" where
  "ResManFreeResByPtr call p bForceCleanup s =
     (if p = IMG_NULL then Some (PVRSRV_OK, s) else FreeResourceByPtr call p True bForceCleanup s)"

definition ResManFreeResByCriteria ::
  "'w free_call \<Rightarrow> IMG_UINTPTR_T \<Rightarrow> IMG_UINT32 \<Rightarrow> IMG_UINT32 \<Rightarrow> IMG_UINTPTR_T \<Rightarrow> IMG_UINT32
    \<Rightarrow> 'w RESMAN \<Rightarrow> (PVRSRV_ERROR \<times> 'w RESMAN) option" where
  "ResManFreeResByCriteria call psResManContext ui32SearchCriteria ty pv ui s =
     FreeResourceByCriteria call psResManContext ui32SearchCriteria ty pv ui True s"

definition ResManDissociateRes ::
  "'w free_call \<Rightarrow> IMG_UINTPTR_T \<Rightarrow> IMG_UINTPTR_T \<Rightarrow> 'w RESMAN \<Rightarrow> (PVRSRV_ERROR \<times> 'w RESMAN) option" where
  "ResManDissociateRes call p psNewResManContext s =
     (if p = IMG_NULL then Some (PVRSRV_ERROR_INVALID_PARAMS, s)
      else if psNewResManContext \<noteq> IMG_NULL then
        do {
          i \<leftarrow> rm_item p s;
          c \<leftarrow> rm_context psNewResManContext s;
          Some (PVRSRV_OK, link_item psNewResManContext i (unlink_item p s))
        }
      else FreeResourceByPtr call p False CLEANUP_WITH_POLL s)"

definition ResManFindResourceByPtr ::
  "IMG_UINTPTR_T \<Rightarrow> IMG_UINTPTR_T \<Rightarrow> 'w RESMAN \<Rightarrow> PVRSRV_ERROR option" where
  "ResManFindResourceByPtr psResManContext psItem s =
     (if psItem = IMG_NULL \<or> psResManContext = IMG_NULL then Some PVRSRV_ERROR_INVALID_PARAMS
      else
        do {
          c \<leftarrow> rm_context psResManContext s;
          Some (if List.find (\<lambda>i. psResItem i = psItem) (psResItemList c) \<noteq> None
                then PVRSRV_OK else PVRSRV_ERROR_NOT_OWNER)
        })"

section \<open>Ownership\<close>

text \<open>The blocks the manager owns: its list header, the contexts and the items.\<close>

definition rm_addrs :: "'w RESMAN \<Rightarrow> IMG_UINTPTR_T list" where
  "rm_addrs s = (if gpsResList s = IMG_NULL then [] else [gpsResList s]) @
     map psContext (psContextList s) @ map psResItem (rm_items s)"

definition rm_ok :: "'w RESMAN \<Rightarrow> bool" where
  "rm_ok s \<longleftrightarrow> os_ok (rm_os s) \<and> distinct (rm_addrs s) \<and> set (rm_addrs s) \<subseteq> set (os_live (rm_os s))"

text \<open>A state in which the same contexts own the same or fewer items.\<close>

definition ctx_shrinks :: "RESMAN_CONTEXT \<Rightarrow> RESMAN_CONTEXT \<Rightarrow> bool" where
  "ctx_shrinks c c' \<longleftrightarrow> psContext c' = psContext c \<and> psPerProc c' = psPerProc c \<and>
     mset (psResItemList c') \<subseteq># mset (psResItemList c)"

definition shrinks :: "'w RESMAN \<Rightarrow> 'w RESMAN \<Rightarrow> bool" where
  "shrinks s s' \<longleftrightarrow> gpsResList s' = gpsResList s \<and>
     list_all2 ctx_shrinks (psContextList s) (psContextList s')"

lemma ctx_shrinks_trans: "ctx_shrinks a b \<Longrightarrow> ctx_shrinks b c \<Longrightarrow> ctx_shrinks a c"
  by (auto simp: ctx_shrinks_def)

lemma shrinks_refl [simp]: "shrinks s s"
  by (simp add: shrinks_def list_all2_refl ctx_shrinks_def)

lemma shrinks_trans [trans]: "shrinks a b \<Longrightarrow> shrinks b c \<Longrightarrow> shrinks a c"
  using list_all2_trans [of ctx_shrinks ctx_shrinks ctx_shrinks "psContextList a" "psContextList b"
      "psContextList c"] ctx_shrinks_trans unfolding shrinks_def by metis

lemma shrinks_contexts:
  "shrinks s s' \<Longrightarrow> map psContext (psContextList s') = map psContext (psContextList s)"
  unfolding shrinks_def
  by (auto simp: list_all2_conv_all_nth ctx_shrinks_def intro!: nth_equalityI)

lemma list_all2_mset_concat:
  "list_all2 (\<lambda>x y. mset (f y) \<subseteq># mset (f x)) xs ys \<Longrightarrow>
     mset (concat (map f ys)) \<subseteq># mset (concat (map f xs))"
  by (induction rule: list_all2_induct) (auto intro: subset_mset.add_mono)

lemma shrinks_items: "shrinks s s' \<Longrightarrow> mset (rm_items s') \<subseteq># mset (rm_items s)"
  unfolding shrinks_def rm_items_def
  by (rule list_all2_mset_concat) (auto simp: ctx_shrinks_def elim: list_all2_mono)

lemma shrinks_addrs:
  assumes "shrinks s s'"
  shows "mset (rm_addrs s') \<subseteq># mset (rm_addrs s)"
proof -
  have "mset (map psResItem (rm_items s')) \<subseteq># mset (map psResItem (rm_items s))"
    using image_mset_subseteq_mono [OF shrinks_items [OF assms]] by simp
  moreover have "image_mset psContext (mset (psContextList s')) = image_mset psContext (mset (psContextList s))"
    using arg_cong [OF shrinks_contexts [OF assms], of mset] by simp
  ultimately show ?thesis
    using assms by (simp add: rm_addrs_def shrinks_def)
qed


lemma shrinks_ok:
  assumes "rm_ok s" "shrinks s s'" "os_ok (rm_os s')"
    and "set (rm_addrs s') \<subseteq> set (os_live (rm_os s'))"
  shows "rm_ok s'"
  using assms distinct_mset_subset [OF shrinks_addrs [OF assms(2)]] by (simp add: rm_ok_def)

lemma rm_ok_free:
  assumes "rm_ok s" "p \<notin> set (rm_addrs s)"
  shows "rm_ok (s\<lparr>rm_os := OSFreeMem p (rm_os s)\<rparr>)"
proof -
  have "rm_addrs (s\<lparr>rm_os := OSFreeMem p (rm_os s)\<rparr>) = rm_addrs s"
    by (simp add: rm_addrs_def rm_items_def)
  with assms show ?thesis
    by (auto simp: rm_ok_def OSFreeMem_os_ok OSFreeMem_def os_ok_def subset_iff)
qed

lemma rm_items_update:
  "rm_items (update_items f s) = concat (map (\<lambda>c. f c (psResItemList c)) (psContextList s))"
  by (simp add: rm_items_def update_items_def comp_def)

lemma update_items_shrinks:
  "(\<And>c is. mset (f c is) \<subseteq># mset is) \<Longrightarrow> shrinks s (update_items f s)"
  by (simp add: shrinks_def update_items_def ctx_shrinks_def list_all2_map2 list_all2_refl)

lemma update_items_simps [simp]:
  "rm_os (update_items f s) = rm_os s" "rm_world (update_items f s) = rm_world s"
  "gpsResList (update_items f s) = gpsResList s"
  "map psContext (psContextList (update_items f s)) = map psContext (psContextList s)"
  by (simp_all add: update_items_def comp_def)

lemma unlink_shrinks: "shrinks s (unlink_item p s)"
  unfolding unlink_item_def by (rule update_items_shrinks) (simp add: multiset_filter_subset)

lemma reverse_shrinks: "shrinks s (reverse_items p s)" "shrinks (reverse_items p s) s"
  unfolding reverse_items_def
  by (rule update_items_shrinks) (simp_all add: shrinks_def update_items_def ctx_shrinks_def list_all2_map1 list_all2_refl)

lemma unlink_items: "rm_items (unlink_item p s) = filter (\<lambda>i. psResItem i \<noteq> p) (rm_items s)"
  by (simp add: unlink_item_def rm_items_update) (simp add: rm_items_def filter_concat comp_def)

lemma rm_ok_shrinks: "rm_ok s \<Longrightarrow> shrinks s s' \<Longrightarrow> rm_os s' = rm_os s \<Longrightarrow> rm_ok s'"
  using set_mset_mono [OF shrinks_addrs] by (intro shrinks_ok [of s s']) (auto simp: rm_ok_def)

lemma unlink_simps [simp]:
  "rm_os (unlink_item p s) = rm_os s" "rm_world (unlink_item p s) = rm_world s"
  "gpsResList (unlink_item p s) = gpsResList s"
  "map psContext (psContextList (unlink_item p s)) = map psContext (psContextList s)"
  by (simp_all add: unlink_item_def)

lemma rm_ok_unlink: "rm_ok s \<Longrightarrow> rm_ok (unlink_item p s)"
  by (rule rm_ok_shrinks [OF _ unlink_shrinks]) simp_all

lemma rm_addrs_unlink:
  "rm_addrs (unlink_item p s) = (if gpsResList s = IMG_NULL then [] else [gpsResList s]) @
     map psContext (psContextList s) @ map psResItem (filter (\<lambda>i. psResItem i \<noteq> p) (rm_items s))"
  by (simp add: rm_addrs_def unlink_items)

lemma item_unlinked:
  "rm_ok s \<Longrightarrow> i \<in> set (rm_items s) \<Longrightarrow> psResItem i \<notin> set (rm_addrs (unlink_item (psResItem i) s))"
  unfolding rm_addrs_unlink by (auto simp: rm_ok_def rm_addrs_def image_iff split: if_splits)

lemma rm_item_find: "rm_ok s \<Longrightarrow> i \<in> set (rm_items s) \<Longrightarrow> rm_item (psResItem i) s = Some i"
  unfolding rm_item_def by (rule find_distinct) (auto simp: rm_ok_def rm_addrs_def)

lemma rm_context_find: "rm_ok s \<Longrightarrow> c \<in> set (psContextList s) \<Longrightarrow> rm_context (psContext c) s = Some c"
  unfolding rm_context_def by (rule find_distinct) (auto simp: rm_ok_def rm_addrs_def)

lemma rm_context_Some: "rm_context p s = Some c \<Longrightarrow> c \<in> set (psContextList s) \<and> psContext c = p"
  unfolding rm_context_def by (auto simp: find_Some_iff)

lemma rm_context_ex: "(\<exists>c. rm_context p s = Some c) \<longleftrightarrow> p \<in> psContext ` set (psContextList s)"
  unfolding rm_context_def by (cases "List.find (\<lambda>c. psContext c = p) (psContextList s)")
    (auto simp: find_None_iff find_Some_iff)

lemma context_item: "rm_context p s = Some c \<Longrightarrow> i \<in> set (psResItemList c) \<Longrightarrow> i \<in> set (rm_items s)"
  using rm_context_Some by (fastforce simp: rm_items_def)

lemma shrinks_context:
  assumes "shrinks s s'" "rm_context p s = Some c"
  obtains c' where "rm_context p s' = Some c'" "ctx_shrinks c c'"
proof -
  have "list_all2 ctx_shrinks (psContextList s) (psContextList s')" using assms(1) by (simp add: shrinks_def)
  then have "\<exists>c'. rm_context p s' = Some c' \<and> ctx_shrinks c c'"
    using assms(2) unfolding rm_context_def
    by (induction rule: list_all2_induct) (auto simp: ctx_shrinks_def split: if_splits)
  then show thesis using that by blast
qed

section \<open>Callbacks that keep the house in order\<close>

text \<open>What the manager relies on: a callback may free other resources, but it registers none, does
  not connect or disconnect, and leaves the manager's blocks alone.\<close>

definition tidy :: "'w free_call \<Rightarrow> bool" where
  "tidy call \<longleftrightarrow> (\<forall>pfn pv ui force s. rm_ok s \<longrightarrow>
     rm_ok (snd (call pfn pv ui force s)) \<and> shrinks s (snd (call pfn pv ui force s)))"

text \<open>A resource whose callback never fails. The callbacks of hardware contexts are not of this kind: they time out when the
  microkernel does not answer.\<close>

definition never_fails :: "'w free_call \<Rightarrow> RESMAN_ITEM \<Rightarrow> bool" where
  "never_fails call i \<longleftrightarrow> (\<forall>force s. fst (call (pfnFreeResource i) (pvParam i) (ui32Param i) force s) = PVRSRV_OK)"

lemma FreeResourceByPtr_tidy:
  assumes "rm_ok s" "tidy call" "i \<in> set (rm_items s)"
  obtains e s' where "FreeResourceByPtr call (psResItem i) b f s = Some (e, s')"
    "rm_ok s'" "shrinks s s'" "\<forall>j \<in> set (rm_items s'). psResItem j \<noteq> psResItem i"
    "never_fails call i \<Longrightarrow> e = PVRSRV_OK"
proof -
  let ?p = "psResItem i" and ?s1 = "unlink_item (psResItem i) s"
  obtain e s2 where c: "(if b then call (pfnFreeResource i) (pvParam i) (ui32Param i) f ?s1 else (PVRSRV_OK, ?s1)) = (e, s2)"
    by fastforce
  have s2: "rm_ok s2" "shrinks ?s1 s2"
    using c assms(2) rm_ok_unlink [OF assms(1)] unfolding tidy_def
    by (metis (full_types) prod.collapse prod.inject shrinks_refl)+
  let ?s3 = "s2\<lparr>rm_os := OSFreeMem ?p (rm_os s2)\<rparr>"
  have fresh: "?p \<notin> set (rm_addrs s2)"
    using item_unlinked [OF assms(1,3)] set_mset_mono [OF shrinks_addrs [OF s2(2)]] by auto
  have nz: "?p \<noteq> IMG_NULL"
    using assms(1,3) by (auto simp: rm_ok_def rm_addrs_def os_ok_def)
  show thesis
  proof (rule that)
    show "FreeResourceByPtr call ?p b f s = Some (e, ?s3)"
      using nz c rm_item_find [OF assms(1,3)] by (simp add: FreeResourceByPtr_def)
    show "rm_ok ?s3" by (rule rm_ok_free [OF s2(1) fresh])
    show "shrinks s ?s3"
      using shrinks_trans [OF unlink_shrinks s2(2)] by (simp add: shrinks_def)
    show "\<forall>j \<in> set (rm_items ?s3). psResItem j \<noteq> ?p"
      using fresh by (simp add: rm_items_def rm_addrs_def image_iff) metis
    show "never_fails call i \<Longrightarrow> e = PVRSRV_OK"
      using c by (auto simp: never_fails_def split: if_splits dest: arg_cong [of _ _ fst])
  qed
qed

lemma criteria_loop_tidy:
  assumes "rm_ok s" "tidy call" "rm_context ctx s = Some c"
  shows "\<exists>e s' c'. criteria_loop call ctx match b PVRSRV_OK s = Some (e, s') \<and> rm_ok s' \<and> shrinks s s' \<and>
           rm_context ctx s' = Some c' \<and>
           ((\<forall>i \<in> set (psResItemList c). match i \<longrightarrow> never_fails call i) \<longrightarrow> e = PVRSRV_OK) \<and>
           (e = PVRSRV_OK \<longrightarrow> (\<forall>i \<in> set (psResItemList c'). \<not> match i))"
  using assms
proof (induction "length (psResItemList c)" arbitrary: s c rule: less_induct)
  case less
  show ?case
  proof (cases "List.find match (psResItemList c)")
    case None
    then have "criteria_loop call ctx match b PVRSRV_OK s = Some (PVRSRV_OK, s)"
      using less.prems(3) by (subst criteria_loop.simps) simp
    moreover have "\<forall>i \<in> set (psResItemList c). \<not> match i" using None by (simp add: find_None_all)
    ultimately show ?thesis using less.prems by auto
  next
    case (Some i)
    then have i: "i \<in> set (psResItemList c)" "match i" by (auto simp: find_Some_iff)
    obtain e s1 where f: "FreeResourceByPtr call (psResItem i) b CLEANUP_WITH_POLL s = Some (e, s1)"
      "rm_ok s1" "shrinks s s1" "\<forall>j \<in> set (rm_items s1). psResItem j \<noteq> psResItem i"
      "never_fails call i \<Longrightarrow> e = PVRSRV_OK"
      using FreeResourceByPtr_tidy [OF less.prems(1,2) context_item [OF less.prems(3) i(1)]] by metis
    obtain c1 where c1: "rm_context ctx s1 = Some c1" "ctx_shrinks c c1"
      using shrinks_context [OF f(3) less.prems(3)] by blast
    have step: "criteria_loop call ctx match b PVRSRV_OK s = criteria_loop call ctx match b e s1"
      using less.prems(3) Some f(1) by (subst criteria_loop.simps) simp
    show ?thesis
    proof (cases "e = PVRSRV_OK")
      case False
      have "criteria_loop call ctx match b e s1 = Some (e, s1)"
        using False c1(1) by (subst criteria_loop.simps) (auto split: option.splits)
      with False step f(2,3,5) c1(1) i show ?thesis
        by (intro exI [of _ e] exI [of _ s1] exI [of _ c1]) auto
    next
      case True
      have sub: "set (psResItemList c1) \<subseteq> set (psResItemList c)"
        using c1(2) set_mset_mono by (fastforce simp: ctx_shrinks_def)
      have "i \<notin> set (psResItemList c1)" using f(4) context_item [OF c1(1)] by blast
      then have "psResItemList c1 \<noteq> psResItemList c" "mset (psResItemList c1) \<noteq> mset (psResItemList c)"
        using i(1) by (auto dest: mset_eq_setD)
      then have "mset (psResItemList c1) \<subset># mset (psResItemList c)"
        using c1(2) by (simp add: ctx_shrinks_def subset_mset.less_le)
      then have "length (psResItemList c1) < length (psResItemList c)"
        using mset_subset_size by fastforce
      from less.hyps [OF this f(2) less.prems(2) c1(1)]
      obtain e' s' c' where "criteria_loop call ctx match b PVRSRV_OK s1 = Some (e', s')" "rm_ok s'"
        "shrinks s1 s'" "rm_context ctx s' = Some c'"
        "(\<forall>i \<in> set (psResItemList c1). match i \<longrightarrow> never_fails call i) \<longrightarrow> e' = PVRSRV_OK"
        "e' = PVRSRV_OK \<longrightarrow> (\<forall>i \<in> set (psResItemList c'). \<not> match i)" by blast
      with step True shrinks_trans [OF f(3) this(3)] sub show ?thesis
        by (intro exI [of _ e'] exI [of _ s'] exI [of _ c']) auto
    qed
  qed
qed

text \<open>A state on the way through the disconnection of a context: of the types in \<open>T\<close> only items of the types in \<open>B\<close> are left, those
  for which some callback may fail.\<close>

definition cleaned :: "IMG_UINTPTR_T \<Rightarrow> IMG_UINT32 set \<Rightarrow> 'w RESMAN \<Rightarrow> IMG_UINT32 set \<Rightarrow> 'w RESMAN \<Rightarrow> bool" where
  "cleaned ctx B s0 T s \<longleftrightarrow> rm_ok s \<and> shrinks s0 s \<and>
     (\<exists>c. rm_context ctx s = Some c \<and> (\<forall>i \<in> set (psResItemList c). ui32ResType i \<in> T \<longrightarrow> ui32ResType i \<in> B))"

text \<open>The types of the items whose callbacks may fail.\<close>

definition failing_types :: "'w free_call \<Rightarrow> RESMAN_CONTEXT \<Rightarrow> IMG_UINT32 set" where
  "failing_types call c = {ui32ResType j | j. j \<in> set (psResItemList c) \<and> \<not> never_fails call j}"

lemma ctx_shrinks_set: "ctx_shrinks c c' \<Longrightarrow> set (psResItemList c') \<subseteq> set (psResItemList c)"
  using set_mset_mono by (fastforce simp: ctx_shrinks_def)

lemma cleaned_shrinks:
  assumes "cleaned ctx B s0 T s" "shrinks s s'" "rm_ok s'"
  shows "cleaned ctx B s0 T s'"
proof -
  obtain c where c: "rm_context ctx s = Some c" "\<forall>i \<in> set (psResItemList c). ui32ResType i \<in> T \<longrightarrow> ui32ResType i \<in> B"
    "shrinks s0 s" using assms(1) by (auto simp: cleaned_def)
  obtain c' where "rm_context ctx s' = Some c'" "ctx_shrinks c c'"
    using shrinks_context [OF assms(2) c(1)] by blast
  with c(2) ctx_shrinks_set show ?thesis
    using shrinks_trans [OF c(3) assms(2)] assms(3) by (auto simp: cleaned_def)
qed

lemma cleaned_reverse: "cleaned ctx B s0 T s \<Longrightarrow> cleaned ctx B s0 T (reverse_items p s)"
  by (rule cleaned_shrinks [OF _ reverse_shrinks(1)])
    (auto simp: cleaned_def reverse_items_def intro: rm_ok_shrinks [OF _ reverse_shrinks(1) [unfolded reverse_items_def]])

lemma criteria_restype:
  "FreeResourceByCriteria_AnyVaCb RESMAN_CRITERIA_RESTYPE ty pv ui i \<longleftrightarrow> ui32ResType i = ty"
  by (simp add: FreeResourceByCriteria_AnyVaCb_def RESMAN_CRITERIA_RESTYPE_def
      RESMAN_CRITERIA_PVOID_PARAM_def RESMAN_CRITERIA_UI32_PARAM_def)

lemma criteria_restype_fun:
  "FreeResourceByCriteria_AnyVaCb RESMAN_CRITERIA_RESTYPE ty pv ui = (\<lambda>i. ui32ResType i = ty)"
  by (simp add: fun_eq_iff criteria_restype)

lemma free_type_cleaned:
  assumes "cleaned ctx B s0 T s" "tidy call" "rm_context ctx s0 = Some c0" "failing_types call c0 \<subseteq> B"
  shows "\<exists>s'. free_type call ctx ty s = Some s' \<and> cleaned ctx B s0 (insert ty T) s'"
proof -
  obtain c where c: "rm_context ctx s = Some c" "rm_ok s" "shrinks s0 s" using assms(1) by (auto simp: cleaned_def)
  obtain c1 where "rm_context ctx s = Some c1" "ctx_shrinks c0 c1" by (rule shrinks_context [OF c(3) assms(3)])
  then have sub: "set (psResItemList c) \<subseteq> set (psResItemList c0)" using ctx_shrinks_set c(1) by auto
  from criteria_loop_tidy [OF c(2) assms(2) c(1),
      of "FreeResourceByCriteria_AnyVaCb RESMAN_CRITERIA_RESTYPE ty IMG_NULL 0" True]
  obtain e s' c' where l: "free_type call ctx ty s = Some s'" "rm_ok s'" "shrinks s s'" "rm_context ctx s' = Some c'"
    "(\<forall>i \<in> set (psResItemList c). ui32ResType i = ty \<longrightarrow> never_fails call i) \<longrightarrow> e = PVRSRV_OK"
    "e = PVRSRV_OK \<longrightarrow> (\<forall>i \<in> set (psResItemList c'). ui32ResType i \<noteq> ty)"
    by (auto simp: free_type_def FreeResourceByCriteria_def criteria_restype)
  have "\<forall>i \<in> set (psResItemList c). ui32ResType i = ty \<longrightarrow> never_fails call i" if "ty \<notin> B"
    using that sub assms(4) by (auto simp: failing_types_def)
  then have "\<forall>i \<in> set (psResItemList c'). ui32ResType i = ty \<longrightarrow> ty \<in> B"
    using l(5,6) by blast
  with cleaned_shrinks [OF assms(1) l(3,2)] l(4) have "cleaned ctx B s0 (insert ty T) s'"
    by (auto simp: cleaned_def)
  with l(1) show ?thesis by blast
qed

lemma free_type_bind:
  assumes "cleaned ctx B s0 T s" "tidy call" "rm_context ctx s0 = Some c0" "failing_types call c0 \<subseteq> B"
    and "\<And>s'. cleaned ctx B s0 (insert ty T) s' \<Longrightarrow> \<exists>r. k s' = Some r \<and> Q r"
  shows "\<exists>r. (free_type call ctx ty s \<bind> k) = Some r \<and> Q r"
  using free_type_cleaned [OF assms(1-4), of ty] assms(5) by auto

definition resman_types :: "IMG_UINT32 set" where
  "resman_types = {1, 2, 3, 4, 5, 6, 7, 8, 9, 10, 11, 12, 13, 14, 15, 16, 17, 18, 19, 20, 21}"

lemma free_all_types_cleaned:
  assumes "cleaned ctx B s0 {} s" "tidy call" "rm_context ctx s0 = Some c0" "failing_types call c0 \<subseteq> B"
  shows "\<exists>r. free_all_types call ctx s = Some r \<and> cleaned ctx B s0 resman_types r"
  unfolding free_all_types_def resman_types_def
  apply (rule free_type_bind [OF assms])
  apply (rule free_type_bind [OF _ assms(2-4)], assumption)
  apply (rule free_type_bind [OF _ assms(2-4)], assumption)
  apply (rule free_type_bind [OF cleaned_reverse assms(2-4)], assumption)
  apply (rule free_type_bind [OF cleaned_reverse assms(2-4)], assumption)
  apply (rule free_type_bind [OF _ assms(2-4)], assumption)+
  apply (auto simp: insert_commute elim!: back_subst [where P = "\<lambda>T. cleaned ctx B s0 T _"])
  done

section \<open>Callbacks that only touch their own state\<close>

type_synonym 'w world_fn = "IMG_UINTPTR_T \<Rightarrow> IMG_UINTPTR_T \<Rightarrow> IMG_UINT32 \<Rightarrow> bool \<Rightarrow> 'w \<Rightarrow> PVRSRV_ERROR \<times> 'w"

definition own_state :: "'w world_fn \<Rightarrow> 'w free_call" where
  "own_state g pfn pv ui f s =
     (let (e, w) = g pfn pv ui f (rm_world s) in (e, s\<lparr>rm_world := w\<rparr>))"

definition run_item :: "'w world_fn \<Rightarrow> RESMAN_ITEM \<Rightarrow> 'w \<Rightarrow> PVRSRV_ERROR \<times> 'w" where
  "run_item g i w = g (pfnFreeResource i) (pvParam i) (ui32Param i) CLEANUP_WITH_POLL w"

text \<open>The items a run of the callbacks over a list gets to: up to and including the first failure.\<close>

fun reached :: "'w world_fn \<Rightarrow> RESMAN_ITEM list \<Rightarrow> 'w \<Rightarrow> RESMAN_ITEM list" where
  "reached g [] w = []"
| "reached g (i # is) w =
     i # (if fst (run_item g i w) = PVRSRV_OK then reached g is (snd (run_item g i w)) else [])"

definition removed :: "RESMAN_ITEM list \<Rightarrow> 'w RESMAN \<Rightarrow> 'w RESMAN \<Rightarrow> bool" where
  "removed fs s s' \<longleftrightarrow> gpsResList s' = gpsResList s \<and>
     psContextList s' = map (\<lambda>c. c\<lparr>psResItemList :=
       filter (\<lambda>i. psResItem i \<notin> psResItem ` set fs) (psResItemList c)\<rparr>) (psContextList s) \<and>
     blocks (rm_os s') = blocks (rm_os s) - mset (map psResItem fs)"

lemma removed_Nil: "removed [] s s"
  by (simp add: removed_def)

lemma removed_Cons: "removed [i] s s1 \<Longrightarrow> removed fs s1 s' \<Longrightarrow> removed (i # fs) s s'"
  by (auto simp: removed_def comp_def filter_filter intro!: filter_cong) 
     

lemma own_state_shrinks: "shrinks s (snd (own_state g pfn pv ui f s))"
  by (simp add: own_state_def shrinks_def split: prod.splits)
    (metis shrinks_def shrinks_refl)

lemma own_state_tidy: "tidy (own_state g)"
  unfolding tidy_def
  by (auto simp: own_state_shrinks intro!: rm_ok_shrinks [OF _ own_state_shrinks])
    (simp add: own_state_def split: prod.splits)

lemma FreeResourceByPtr_own:
  assumes "rm_ok s" "i \<in> set (rm_items s)"
  obtains s' where "FreeResourceByPtr (own_state g) (psResItem i) True CLEANUP_WITH_POLL s =
      Some (fst (run_item g i (rm_world s)), s')"
    "removed [i] s s'" "rm_world s' = snd (run_item g i (rm_world s))" "rm_ok s'"
proof -
  let ?p = "psResItem i" and ?w = "run_item g i (rm_world s)"
  let ?s' = "(unlink_item ?p s)\<lparr>rm_world := snd ?w, rm_os := OSFreeMem ?p (rm_os s)\<rparr>"
  have nz: "?p \<noteq> IMG_NULL"
    using assms by (auto simp: rm_ok_def rm_addrs_def os_ok_def)
  have f: "FreeResourceByPtr (own_state g) ?p True CLEANUP_WITH_POLL s = Some (fst ?w, ?s')"
    using nz rm_item_find [OF assms]
    by (simp add: FreeResourceByPtr_def own_state_def run_item_def split: prod.splits)
  show thesis
  proof (rule that [OF f])
    show "removed [i] s ?s'"
      by (simp add: removed_def unlink_item_def update_items_def blocks_OSFreeMem)
    show "rm_world ?s' = snd ?w" by simp
    show "rm_ok ?s'"
      using FreeResourceByPtr_tidy [OF assms(1) own_state_tidy assms(2)] f by (metis option.inject prod.inject)
  qed
qed

lemma rm_context_removed:
  "removed fs s s' \<Longrightarrow> rm_context p s = Some c \<Longrightarrow>
     rm_context p s' = Some (c\<lparr>psResItemList := filter (\<lambda>i. psResItem i \<notin> psResItem ` set fs) (psResItemList c)\<rparr>)"
  by (simp add: removed_def rm_context_def find_map comp_def)

lemma context_items_distinct:
  assumes "rm_ok s" "rm_context p s = Some c"
  shows "distinct (map psResItem (psResItemList c))"
proof -
  have "mset (psResItemList c) \<subseteq># mset (rm_items s)"
    using rm_context_Some [OF assms(2)] mset_nth_concat [of _ "map psResItemList (psContextList s)"]
    by (auto simp: rm_items_def in_set_conv_nth)
  then have "mset (map psResItem (psResItemList c)) \<subseteq># mset (map psResItem (rm_items s))"
    using image_mset_subseteq_mono by fastforce
  moreover have "distinct (map psResItem (rm_items s))" using assms(1) by (simp add: rm_ok_def rm_addrs_def)
  ultimately show ?thesis by (rule distinct_mset_subset)
qed

lemma criteria_loop_own:
  assumes "rm_ok s" "rm_context ctx s = Some c" "ms = filter match (psResItemList c)"
  shows "\<exists>s'. criteria_loop (own_state g) ctx match True PVRSRV_OK s =
             Some (fst (any_va PVRSRV_OK (run_item g) ms (rm_world s)), s') \<and>
           rm_ok s' \<and> removed (reached g ms (rm_world s)) s s' \<and>
           rm_world s' = snd (any_va PVRSRV_OK (run_item g) ms (rm_world s))"
  using assms
proof (induction ms arbitrary: s c)
  case Nil
  then have "List.find match (psResItemList c) = None" by (simp add: find_filter)
  then have "criteria_loop (own_state g) ctx match True PVRSRV_OK s = Some (PVRSRV_OK, s)"
    using Nil.prems(2) by (subst criteria_loop.simps) simp
  with Nil.prems show ?case by (simp add: removed_Nil)
next
  case (Cons i ms)
  have fnd: "List.find match (psResItemList c) = Some i"
    by (simp add: find_filter Cons.prems(3) [symmetric])
  then have i: "i \<in> set (psResItemList c)" by (auto simp: find_Some_iff)
  let ?r = "run_item g i (rm_world s)"
  obtain s1 where f: "FreeResourceByPtr (own_state g) (psResItem i) True CLEANUP_WITH_POLL s = Some (fst ?r, s1)"
    "removed [i] s s1" "rm_world s1 = snd ?r" "rm_ok s1"
    using FreeResourceByPtr_own [OF Cons.prems(1) context_item [OF Cons.prems(2) i], where g = g] by metis
  have c1: "rm_context ctx s1 = Some (c\<lparr>psResItemList := filter (\<lambda>j. psResItem j \<noteq> psResItem i) (psResItemList c)\<rparr>)"
    (is "_ = Some ?c1") using rm_context_removed [OF f(2) Cons.prems(2)] by simp
  have step: "criteria_loop (own_state g) ctx match True PVRSRV_OK s =
      criteria_loop (own_state g) ctx match True (fst ?r) s1"
    using Cons.prems(2) fnd f(1) by (subst criteria_loop.simps) simp
  show ?case
  proof (cases "fst ?r = PVRSRV_OK")
    case False
    then have "criteria_loop (own_state g) ctx match True (fst ?r) s1 = Some (fst ?r, s1)"
      using c1 by (subst criteria_loop.simps) (auto split: option.splits)
    with False step f(2-4) show ?thesis by (auto simp: split_beta)
  next
    case True
    have dm: "distinct (map psResItem (i # ms))"
      using context_items_distinct [OF Cons.prems(1,2)] Cons.prems(3)
      by (metis distinct_map_filter)
    have "filter match (psResItemList ?c1) = filter (\<lambda>j. psResItem j \<noteq> psResItem i) (i # ms)"
      unfolding Cons.prems(3) by (simp add: conj_commute)
    also have "\<dots> = ms" using dm by (auto simp: filter_id_conv image_iff)
    finally have ms: "ms = filter match (psResItemList ?c1)" by simp
    obtain s' where "criteria_loop (own_state g) ctx match True PVRSRV_OK s1 =
        Some (fst (any_va PVRSRV_OK (run_item g) ms (rm_world s1)), s')" "rm_ok s'"
      "removed (reached g ms (rm_world s1)) s1 s'"
      "rm_world s' = snd (any_va PVRSRV_OK (run_item g) ms (rm_world s1))"
      using Cons.IH [OF f(4) c1 ms] by blast
    with True step f(2,3) show ?thesis by (auto simp: split_beta intro: removed_Cons)
  qed
qed

section \<open>The order of a disconnection\<close>

definition disconnect_types :: "(IMG_UINT32 \<times> bool) list" where
  "disconnect_types =
     [(RESMAN_TYPE_OS_USERMODE_MAPPING, False), (RESMAN_TYPE_DMA_CLIENT_FIFO_DATA, False),
      (RESMAN_TYPE_EVENT_OBJECT, False), (RESMAN_TYPE_MODIFY_SYNC_OPS, True),
      (RESMAN_TYPE_HW_RENDER_CONTEXT, False), (RESMAN_TYPE_HW_TRANSFER_CONTEXT, False),
      (RESMAN_TYPE_HW_2D_CONTEXT, False), (RESMAN_TYPE_TRANSFER_CONTEXT, False),
      (RESMAN_TYPE_SHARED_PB_DESC_CREATE_LOCK, False), (RESMAN_TYPE_SHARED_PB_DESC, False),
      (RESMAN_TYPE_SYNC_INFO, False), (RESMAN_TYPE_DEVICECLASSMEM_MAPPING, False),
      (RESMAN_TYPE_DEVICEMEM_WRAP, False), (RESMAN_TYPE_DEVICEMEM_MAPPING, False),
      (RESMAN_TYPE_KERNEL_DEVICEMEM_ALLOCATION, False), (RESMAN_TYPE_DEVICEMEM_ALLOCATION, False),
      (RESMAN_TYPE_DEVICEMEM_CONTEXT, False), (RESMAN_TYPE_SHARED_MEM_INFO, False),
      (RESMAN_TYPE_DISPLAYCLASS_SWAPCHAIN_REF, False), (RESMAN_TYPE_DISPLAYCLASS_DEVICE, False),
      (RESMAN_TYPE_BUFFERCLASS_DEVICE, False)]"

text \<open>The items of a context in the order the disconnection frees them: by type, the newest of a type
  first, but the operations on synchronisation objects in the order they were registered.\<close>

definition of_type :: "IMG_UINT32 \<times> bool \<Rightarrow> RESMAN_ITEM list \<Rightarrow> RESMAN_ITEM list" where
  "of_type t is = (if snd t then rev else id) (filter (\<lambda>i. ui32ResType i = fst t) is)"

definition disconnect_order :: "RESMAN_ITEM list \<Rightarrow> RESMAN_ITEM list" where
  "disconnect_order is = concat (map (\<lambda>t. of_type t is) disconnect_types)"

definition all_ok :: "'w world_fn \<Rightarrow> bool" where
  "all_ok g \<longleftrightarrow> (\<forall>pfn pv ui f w. fst (g pfn pv ui f w) = PVRSRV_OK)"

lemma all_ok_run: "all_ok g \<Longrightarrow> fst (run_item g i w) = PVRSRV_OK"
  by (simp add: all_ok_def run_item_def)

lemma all_ok_reached: "all_ok g \<Longrightarrow> reached g is w = is"
  by (induction "is" arbitrary: w) (auto simp: all_ok_run)

lemma all_ok_any: "all_ok g \<Longrightarrow> any_va PVRSRV_OK (run_item g) is w = (PVRSRV_OK, fold (\<lambda>i w. snd (run_item g i w)) is w)"
  by (induction "is" arbitrary: w) (auto simp: split_beta all_ok_run)

text \<open>What a disconnection gets to when callbacks may fail: of every type, in that order, the items up to and including the first whose
  callback fails.\<close>

fun disconnect_log :: "'w world_fn \<Rightarrow> (IMG_UINT32 \<times> bool) list \<Rightarrow> RESMAN_ITEM list \<Rightarrow> 'w \<Rightarrow> RESMAN_ITEM list" where
  "disconnect_log g [] is w = []"
| "disconnect_log g (t # ts) is w =
     (let l = reached g (of_type t is) w in l @ disconnect_log g ts is (fold (\<lambda>i w. snd (run_item g i w)) l w))"

lemma any_va_world:
  "snd (any_va PVRSRV_OK (run_item g) is w) = fold (\<lambda>i w. snd (run_item g i w)) (reached g is w) w"
  by (induction "is" arbitrary: w) (auto simp: split_beta)

lemma reached_subset: "set (reached g is w) \<subseteq> set is"
  by (induction "is" arbitrary: w) auto

lemma disconnect_log_ok: "all_ok g \<Longrightarrow> disconnect_log g ts is w = concat (map (\<lambda>t. of_type t is) ts)"
  by (induction ts arbitrary: w) (simp_all add: all_ok_reached)

text \<open>The state of the walk through the types: \<open>T\<close> are done, \<open>log\<close> are the items freed, and the
  context's list is reversed when \<open>rv\<close> is set.\<close>

definition walked ::
  "'w world_fn \<Rightarrow> IMG_UINTPTR_T \<Rightarrow> 'w RESMAN \<Rightarrow> RESMAN_ITEM list \<Rightarrow> bool \<Rightarrow> IMG_UINT32 set \<Rightarrow> RESMAN_ITEM list
    \<Rightarrow> 'w RESMAN \<Rightarrow> bool" where
  "walked g ctx s0 is rv T log s \<longleftrightarrow> rm_ok s \<and>
     (\<exists>c. rm_context ctx s = Some c \<and>
        psResItemList c = (if rv then rev else id) (filter (\<lambda>i. psResItem i \<notin> psResItem ` set log) is)) \<and>
     (\<forall>i \<in> set log. i \<in> set is \<and> ui32ResType i \<in> T) \<and> distinct (map psResItem is) \<and>
     rm_world s = fold (\<lambda>i w. snd (run_item g i w)) log (rm_world s0) \<and>
     blocks (rm_os s) = blocks (rm_os s0) - mset (map psResItem log) \<and>
     filter (\<lambda>c. psContext c \<noteq> ctx) (psContextList s) = filter (\<lambda>c. psContext c \<noteq> ctx) (psContextList s0)"

lemma rev_filter_if: "filter P ((if b then rev else id) xs) = (if b then rev else id) (filter P xs)"
  by (simp add: rev_filter)

lemma other_context_items:
  assumes "rm_ok s" "d \<in> set (psContextList s)" "c \<in> set (psContextList s)" "psContext d \<noteq> psContext c"
    and "i \<in> set (psResItemList d)" "j \<in> set (psResItemList c)"
  shows "psResItem i \<noteq> psResItem j"
proof -
  obtain us vs where u: "psContextList s = us @ d # vs" using split_list [OF assms(2)] by blast
  have "distinct (map psResItem (rm_items s))" using assms(1) by (simp add: rm_ok_def rm_addrs_def)
  moreover have "c \<in> set us \<or> c \<in> set vs" using u assms(3,4) by auto
  ultimately have "psResItem ` set (psResItemList d) \<inter> psResItem ` set (psResItemList c) = {}"
    using u by (simp add: rm_items_def) blast
  then show ?thesis using assms(5,6) by (metis disjoint_iff image_eqI)
qed

lemma removed_others:
  assumes "removed fs s s'" "rm_ok s" "rm_context ctx s = Some c" "set fs \<subseteq> set (psResItemList c)"
  shows "filter (\<lambda>c. psContext c \<noteq> ctx) (psContextList s') = filter (\<lambda>c. psContext c \<noteq> ctx) (psContextList s)"
proof -
  have c: "c \<in> set (psContextList s)" "psContext c = ctx" using rm_context_Some [OF assms(3)] by auto
  have keep: "filter (\<lambda>i. psResItem i \<notin> psResItem ` set fs) (psResItemList d) = psResItemList d"
    if "d \<in> set (psContextList s)" "psContext d \<noteq> ctx" for d
    using other_context_items [OF assms(2) that(1) c(1)] that(2) c(2) assms(4)
    by (auto simp: filter_id_conv)
  have "psContextList s' = map (\<lambda>c. c\<lparr>psResItemList :=
       filter (\<lambda>i. psResItem i \<notin> psResItem ` set fs) (psResItemList c)\<rparr>) (psContextList s)"
    using assms(1) by (simp add: removed_def)
  then show ?thesis
    by (simp add: filter_map comp_def) (rule map_idI, simp add: keep)
qed

lemma free_type_walked:
  assumes "walked g ctx s0 is rv T log s" "ty \<notin> T"
  shows "\<exists>s'. free_type (own_state g) ctx ty s = Some s' \<and>
           walked g ctx s0 is rv (insert ty T) (log @ reached g (of_type (ty, rv) is) (rm_world s)) s'"
proof -
  obtain c where c: "rm_ok s" "rm_context ctx s = Some c"
    "psResItemList c = (if rv then rev else id) (filter (\<lambda>i. psResItem i \<notin> psResItem ` set log) is)"
    using assms(1) by (auto simp: walked_def)
  have lg: "\<forall>i \<in> set log. i \<in> set is \<and> ui32ResType i \<in> T" and di: "distinct (map psResItem is)"
    using assms(1) by (auto simp: walked_def)
  let ?ms = "filter (\<lambda>i. ui32ResType i = ty) (psResItemList c)"
  have new: "psResItem i \<notin> psResItem ` set log" if "i \<in> set is" "ui32ResType i = ty" for i
    using that lg di assms(2) by (auto simp: distinct_map inj_on_def)
  then have ms: "?ms = of_type (ty, rv) is"
    unfolding c(3) rev_filter_if of_type_def by (auto intro!: arg_cong [of _ _ rev] filter_cong)
  let ?l = "reached g ?ms (rm_world s)"
  obtain s' where s': "free_type (own_state g) ctx ty s = Some s'" "rm_ok s'" "removed ?l s s'"
    "rm_world s' = fold (\<lambda>i w. snd (run_item g i w)) ?l (rm_world s)"
    using criteria_loop_own [OF c(1,2) refl,
        where match = "FreeResourceByCriteria_AnyVaCb RESMAN_CRITERIA_RESTYPE ty IMG_NULL 0" and g = g]
    by (auto simp: free_type_def FreeResourceByCriteria_def criteria_restype_fun any_va_world)
  have sub: "set ?l \<subseteq> set (psResItemList c)"
    using reached_subset [of g ?ms "rm_world s"] by auto
  have lt: "\<forall>i \<in> set ?l. i \<in> set is \<and> ui32ResType i = ty"
    using reached_subset [of g ?ms "rm_world s"] c(3) by (auto split: if_splits)
  have "filter (\<lambda>i. psResItem i \<notin> psResItem ` set ?l) (psResItemList c) =
      (if rv then rev else id) (filter (\<lambda>i. psResItem i \<notin> psResItem ` set (log @ ?l)) is)"
    unfolding c(3) rev_filter_if by (auto intro!: arg_cong [of _ _ rev] filter_cong)
  then have c': "rm_context ctx s' = Some (c\<lparr>psResItemList := (if rv then rev else id) (filter (\<lambda>i. psResItem i \<notin> psResItem ` set (log @ ?l)) is)\<rparr>)"
    using rm_context_removed [OF s'(3) c(2)] by simp
  have "blocks (rm_os s') = blocks (rm_os s0) - mset (map psResItem (log @ ?l))"
    using s'(3) assms(1) by (simp add: removed_def walked_def)
  moreover have "filter (\<lambda>c. psContext c \<noteq> ctx) (psContextList s') = filter (\<lambda>c. psContext c \<noteq> ctx) (psContextList s0)"
    using removed_others [OF s'(3) c(1,2) sub] assms(1) by (simp add: walked_def)
  moreover have "\<exists>c. rm_context ctx s' = Some c \<and>
      psResItemList c = (if rv then rev else id) (filter (\<lambda>i. psResItem i \<notin> psResItem ` set (log @ ?l)) is)"
    by (rule exI, rule conjI [OF c']) simp
  moreover have "\<forall>i \<in> set (log @ ?l). i \<in> set is \<and> ui32ResType i \<in> insert ty T"
    using lg lt unfolding set_append by blast
  moreover have "rm_world s' = fold (\<lambda>i w. snd (run_item g i w)) (log @ ?l) (rm_world s0)"
    using s'(4) assms(1) by (simp add: walked_def)
  ultimately have "walked g ctx s0 is rv (insert ty T) (log @ ?l) s'"
    unfolding walked_def using s'(2) di by - (intro conjI; assumption)
  with s'(1) show ?thesis
    unfolding ms by blast
qed

lemma walked_reverse:
  assumes "walked g ctx s0 is rv T log s"
  shows "walked g ctx s0 is (\<not> rv) T log (reverse_items ctx s)"
proof -
  obtain c where c: "rm_ok s" "rm_context ctx s = Some c"
    "psResItemList c = (if rv then rev else id) (filter (\<lambda>i. psResItem i \<notin> psResItem ` set log) is)"
    using assms by (auto simp: walked_def)
  have ok: "rm_ok (reverse_items ctx s)"
    by (rule rm_ok_shrinks [OF c(1) reverse_shrinks(1)]) (simp add: reverse_items_def)
  have "rm_context ctx (reverse_items ctx s) = Some (c\<lparr>psResItemList := rev (psResItemList c)\<rparr>)"
    using c(2) rm_context_Some [OF c(2)]
    by (simp add: rm_context_def reverse_items_def update_items_def find_map comp_def)
  moreover have "filter (\<lambda>c. psContext c \<noteq> ctx) (psContextList (reverse_items ctx s)) =
      filter (\<lambda>c. psContext c \<noteq> ctx) (psContextList s)"
    by (simp add: reverse_items_def update_items_def filter_map comp_def) (rule map_idI, simp)
  ultimately show ?thesis
    using assms ok c(3) by (simp add: walked_def) (simp add: reverse_items_def)
qed

text \<open>The walk with the types that are still to come.\<close>

definition walking ::
  "'w world_fn \<Rightarrow> IMG_UINTPTR_T \<Rightarrow> 'w RESMAN \<Rightarrow> RESMAN_ITEM list \<Rightarrow> bool \<Rightarrow> IMG_UINT32 set \<Rightarrow> (IMG_UINT32 \<times> bool) list
    \<Rightarrow> 'w RESMAN \<Rightarrow> bool" where
  "walking g ctx s0 is rv T ts s \<longleftrightarrow>
     (\<exists>log. walked g ctx s0 is rv T log s \<and>
        disconnect_log g disconnect_types is (rm_world s0) = log @ disconnect_log g ts is (rm_world s))"

lemma walking_reverse: "walking g ctx s0 is rv T ts s \<Longrightarrow> walking g ctx s0 is (\<not> rv) T ts (reverse_items ctx s)"
  unfolding walking_def using walked_reverse by (fastforce simp: reverse_items_def)

lemma free_type_walking_bind:
  assumes "walking g ctx s0 is rv T ((ty, rv) # ts) s" "ty \<notin> T"
    and "\<And>s'. walking g ctx s0 is rv (insert ty T) ts s' \<Longrightarrow> \<exists>r. k s' = Some r \<and> Q r"
  shows "\<exists>r. (free_type (own_state g) ctx ty s \<bind> k) = Some r \<and> Q r"
proof -
  obtain log where l: "walked g ctx s0 is rv T log s"
    "disconnect_log g disconnect_types is (rm_world s0) = log @ disconnect_log g ((ty, rv) # ts) is (rm_world s)"
    using assms(1) by (auto simp: walking_def)
  let ?l = "reached g (of_type (ty, rv) is) (rm_world s)"
  obtain s' where s': "free_type (own_state g) ctx ty s = Some s'" "walked g ctx s0 is rv (insert ty T) (log @ ?l) s'"
    using free_type_walked [OF l(1) assms(2)] by blast
  have "rm_world s' = fold (\<lambda>i w. snd (run_item g i w)) ?l (rm_world s)"
    using s'(2) l(1) by (simp add: walked_def)
  then have "walking g ctx s0 is rv (insert ty T) ts s'"
    unfolding walking_def using s'(2) l(2) by (intro exI [of _ "log @ ?l"]) (simp add: Let_def)
  with s'(1) assms(3) show ?thesis by simp
qed

lemma free_all_types_walking:
  assumes "walking g ctx s0 is False {} disconnect_types s"
  shows "\<exists>r. free_all_types (own_state g) ctx s = Some r \<and> walking g ctx s0 is False resman_types [] r"
  unfolding free_all_types_def resman_types_def
  apply (insert assms [unfolded disconnect_types_def])
  apply (rule free_type_walking_bind, assumption, simp)
  apply (rule free_type_walking_bind, assumption, simp)
  apply (rule free_type_walking_bind, assumption, simp)
  apply (rule free_type_walking_bind, erule walking_reverse [where rv = False, simplified], simp)
  apply (rule free_type_walking_bind, erule walking_reverse [where rv = True, simplified], simp)
  apply (rule free_type_walking_bind, assumption, simp)+
  apply (auto simp: insert_commute elim!: back_subst [where P = "\<lambda>T. walking g ctx s0 is False T _ _"])
  done

lemma free_all_types_walked:
  assumes "rm_ok s" "rm_context ctx s = Some c"
  shows "\<exists>r. free_all_types (own_state g) ctx s = Some r \<and>
    walked g ctx s (psResItemList c) False resman_types (disconnect_log g disconnect_types (psResItemList c) (rm_world s)) r"
proof -
  have "walked g ctx s (psResItemList c) False {} [] s"
    using assms context_items_distinct [OF assms] by (auto simp: walked_def)
  then have "walking g ctx s (psResItemList c) False {} disconnect_types s"
    unfolding walking_def by auto
  from free_all_types_walking [OF this] show ?thesis
    by (auto simp: walking_def)
qed

lemma disconnect_order_all:
  assumes "\<forall>i \<in> set is. ui32ResType i \<in> resman_types"
  shows "mset (disconnect_order is) = mset is"
  using assms
proof (induction "is")
  case Nil
  then show ?case by (simp add: disconnect_order_def of_type_def disconnect_types_def)
next
  case (Cons i "is")
  have "mset (disconnect_order (i # is)) = mset (disconnect_order is) +
      mset (concat (map (\<lambda>t. filter (\<lambda>i. ui32ResType i = fst t) [i]) disconnect_types))"
    by (simp add: disconnect_order_def disconnect_types_def of_type_def)
  moreover have "mset (concat (map (\<lambda>t. filter (\<lambda>i. ui32ResType i = fst t) [i]) disconnect_types)) = {#i#}"
    using Cons.prems by (auto simp: disconnect_types_def resman_types_def)
  ultimately show ?case using Cons by simp
qed

section \<open>Correctness\<close>

text \<open>Dropping a context: what its list still held is allocated and out of reach.\<close>

lemma dropped_addrs:
  "mset (rm_addrs (s\<lparr>psContextList := filter P (psContextList s), rm_os := os'\<rparr>)) \<subseteq># mset (rm_addrs s)"
proof -
  have "mset (concat (map psResItemList (filter P cs))) \<subseteq># mset (concat (map psResItemList cs))" for cs
    by (induction cs) (auto intro: subset_mset.add_mono subset_mset.add_increasing)
  then have "mset (map psResItem (concat (map psResItemList (filter P cs)))) \<subseteq># mset (map psResItem (concat (map psResItemList cs)))" for cs
    unfolding mset_map by (rule image_mset_subseteq_mono)
  moreover have "mset (map psContext (filter P cs)) \<subseteq># mset (map psContext cs)" for cs
    unfolding mset_map by (rule image_mset_subseteq_mono) (simp add: multiset_filter_subset)
  ultimately show ?thesis
    by (simp add: rm_addrs_def rm_items_def subset_mset.add_mono del: mset_map)
qed

lemma dropped_context:
  assumes "rm_ok s" "rm_context ctx s = Some c"
  defines "s' \<equiv> s\<lparr>psContextList := filter (\<lambda>c. psContext c \<noteq> ctx) (psContextList s), rm_os := OSFreeMem ctx (rm_os s)\<rparr>"
  shows "rm_ok s' \<and> (\<forall>i \<in> set (psResItemList c). psResItem i \<in> set (os_live (rm_os s')) \<and> psResItem i \<notin> set (rm_addrs s'))"
proof -
  let ?t = "s\<lparr>psContextList := filter (\<lambda>c. psContext c \<noteq> ctx) (psContextList s), rm_os := rm_os s\<rparr>"
  have c: "c \<in> set (psContextList s)" "psContext c = ctx" using rm_context_Some [OF assms(2)] by auto
  have m: "mset (rm_addrs ?t) \<subseteq># mset (rm_addrs s)" by (rule dropped_addrs)
  have "rm_ok ?t"
    using assms(1) distinct_mset_subset [OF m] set_mset_mono [OF m] by (auto simp: rm_ok_def)
  moreover have "ctx \<notin> set (rm_addrs ?t)"
    using assms(1) c by (auto simp: rm_ok_def rm_addrs_def rm_items_def image_iff split: if_splits)
  ultimately have ok: "rm_ok s'"
    using rm_ok_free [of ?t ctx] by (simp add: s'_def)
  have "psResItem i \<in> set (os_live (rm_os s'))" "psResItem i \<notin> set (rm_addrs s')" if i: "i \<in> set (psResItemList c)" for i
  proof -
    have mem: "i \<in> set (rm_items s)" by (rule context_item [OF assms(2) i])
    have "gpsResList s \<noteq> psResItem i"
      using assms(1) mem by (auto simp: rm_ok_def rm_addrs_def os_ok_def split: if_splits)
    then have gp: "psResItem i \<noteq> gpsResList s"
      by simp
    from mem have ne: "psResItem i \<noteq> ctx" "psResItem i \<notin> psContext ` set (psContextList s)"
      and live: "psResItem i \<in> set (os_live (rm_os s))"
      using assms(1) c by (auto simp: rm_ok_def rm_addrs_def os_ok_def split: if_splits)
    then show "psResItem i \<in> set (os_live (rm_os s'))"
      by (simp add: s'_def OSFreeMem_def)
    have "psResItem i \<noteq> psResItem j" if "d \<in> set (psContextList s)" "psContext d \<noteq> ctx" "j \<in> set (psResItemList d)" for d j
      using other_context_items [OF assms(1) that(1) c(1) _ that(3) i] that(2) c(2) by auto
    then show "psResItem i \<notin> set (rm_addrs s')"
      using ne gp by (auto simp: rm_addrs_def rm_items_def s'_def)
  qed
  then show ?thesis
    using ok by blast
qed

text \<open>C13: Disconnecting a process always completes, whatever the callbacks return, as long as they register nothing and keep the
  manager's blocks. The context leaves the list, and the other contexts keep their places and gain nothing. Every item of a type whose callbacks
  do not fail is freed before the context is dropped. The error of a callback that fails is lost, and it ends the freeing of its type: an item that
  is left when the context goes is of a type that has an item whose callback may fail. Such an item stays allocated and no list of the manager leads to
  it any more.\<close>

theorem resman_disconnect_complete:
  assumes "rm_ok s" "rm_context ctx s = Some c" "tidy call" "\<forall>i \<in> set (psResItemList c). ui32ResType i \<in> resman_types"
  shows "\<exists>s1 c1 s'. free_all_types call ctx s = Some s1 \<and> rm_context ctx s1 = Some c1 \<and> shrinks s s1 \<and>
           (\<forall>i \<in> set (psResItemList c1). \<exists>j \<in> set (psResItemList c). ui32ResType j = ui32ResType i \<and> \<not> never_fails call j) \<and>
           PVRSRVResManDisconnect call ctx False s = Some s' \<and> rm_ok s' \<and> rm_context ctx s' = None \<and>
           psContextList s' = filter (\<lambda>c. psContext c \<noteq> ctx) (psContextList s1) \<and>
           (\<forall>i \<in> set (psResItemList c1). psResItem i \<in> set (os_live (rm_os s')) \<and> psResItem i \<notin> set (rm_addrs s'))"
proof -
  let ?B = "failing_types call c"
  have "cleaned ctx ?B s {} s" using assms(1,2) by (auto simp: cleaned_def)
  from free_all_types_cleaned [OF this assms(3,2) order.refl]
  obtain s1 c1 where s1: "free_all_types call ctx s = Some s1" "shrinks s s1" "rm_context ctx s1 = Some c1" "rm_ok s1"
    "\<forall>i \<in> set (psResItemList c1). ui32ResType i \<in> resman_types \<longrightarrow> ui32ResType i \<in> ?B"
    by (auto simp: cleaned_def)
  have "ctx_shrinks c c1" using shrinks_context [OF s1(2) assms(2)] s1(3) by auto
  then have left: "\<forall>i \<in> set (psResItemList c1). \<exists>j \<in> set (psResItemList c). ui32ResType j = ui32ResType i \<and> \<not> never_fails call j"
    using s1(5) assms(4) ctx_shrinks_set [of c c1] by (fastforce simp: failing_types_def)
  define s2 where "s2 = s1\<lparr>psContextList := filter (\<lambda>c. psContext c \<noteq> ctx) (psContextList s1), rm_os := OSFreeMem ctx (rm_os s1)\<rparr>"
  have d: "PVRSRVResManDisconnect call ctx False s = Some s2" "rm_context ctx s2 = None"
      "psContextList s2 = filter (\<lambda>c. psContext c \<noteq> ctx) (psContextList s1)"
    using s1 by (simp_all add: PVRSRVResManDisconnect_def rm_context_def find_None_all s2_def)
  have "rm_ok s2" "\<forall>i \<in> set (psResItemList c1). psResItem i \<in> set (os_live (rm_os s2)) \<and> psResItem i \<notin> set (rm_addrs s2)"
    using dropped_context [OF s1(4,3)] unfolding s2_def by blast+
  with s1(1-3) left d show ?thesis
    by - (intro exI [of _ s1] exI [of _ c1] exI [of _ s2], intro conjI; assumption)
qed

text \<open>C14: When the callbacks keep to their own state, a disconnection runs them in the order the code documents: by type, user
  mappings first and device classes last, the newest item of a type first except for the operations on synchronisation objects,
  which go oldest first. A callback that fails ends its own type only. Exactly the items whose callbacks ran are freed, with the context; the memory of the
  others is never given back. When no callback fails, every item is freed exactly once. The other contexts are as before.\<close>

theorem resman_disconnect_order:
  fixes g :: "'w world_fn" and s :: "'w RESMAN"
  assumes "rm_ok s" "rm_context ctx s = Some c" "\<forall>i \<in> set (psResItemList c). ui32ResType i \<in> resman_types"
  defines "log \<equiv> disconnect_log g disconnect_types (psResItemList c) (rm_world s)"
  shows "\<exists>s'. PVRSRVResManDisconnect (own_state g) ctx False s = Some s' \<and>
           rm_world s' = fold (\<lambda>i w. snd (run_item g i w)) log (rm_world s) \<and>
           blocks (rm_os s') = blocks (rm_os s) - mset (ctx # map psResItem log) \<and>
           psContextList s' = filter (\<lambda>c. psContext c \<noteq> ctx) (psContextList s) \<and>
           set log \<subseteq> set (psResItemList c) \<and>
           (all_ok g \<longrightarrow> log = disconnect_order (psResItemList c) \<and> mset log = mset (psResItemList c))"
proof -
  obtain s1 where s1: "free_all_types (own_state g) ctx s = Some s1"
    "walked g ctx s (psResItemList c) False resman_types log s1"
    using free_all_types_walked [OF assms(1,2)] unfolding log_def by blast
  obtain c1 where c1: "rm_context ctx s1 = Some c1"
    using s1(2) by (auto simp: walked_def)
  have "log = disconnect_order (psResItemList c)" if "all_ok g"
    unfolding log_def using that by (simp add: disconnect_log_ok disconnect_order_def)
  moreover have "set log \<subseteq> set (psResItemList c)"
    using s1(2) by (auto simp: walked_def)
  ultimately show ?thesis
    using s1 c1 disconnect_order_all [OF assms(3)] by (auto simp: PVRSRVResManDisconnect_def walked_def blocks_OSFreeMem)
qed

text \<open>Freeing by criteria runs the callbacks of the matching items in list order and stops at the
  first one that fails, returning its error. The item whose callback failed is dropped and its
  memory freed like the others; the matching items behind it stay registered.\<close>

theorem resman_free_by_criteria:
  assumes "rm_ok s" "rm_context ctx s = Some c"
    and "ms = filter (FreeResourceByCriteria_AnyVaCb crit ty pv ui) (psResItemList c)"
    and "any_va PVRSRV_OK (run_item g) ms (rm_world s) = (e, w)"
  shows "\<exists>s'. ResManFreeResByCriteria (own_state g) ctx crit ty pv ui s = Some (e, s') \<and>
           rm_ok s' \<and> rm_world s' = w \<and> removed (reached g ms (rm_world s)) s s' \<and>
           (e = PVRSRV_OK \<longrightarrow> reached g ms (rm_world s) = ms) \<and>
           (\<exists>vs. ms = reached g ms (rm_world s) @ vs)"
proof -
  have *: "fst (any_va PVRSRV_OK (run_item g) ms w0) = PVRSRV_OK \<Longrightarrow> reached g ms w0 = ms" for ms w0
    by (induction ms arbitrary: w0) (auto simp: split_beta split: if_splits)
  have "\<exists>vs. ms = reached g ms w0 @ vs" for ms w0
    by (induction ms arbitrary: w0) auto
  with * [of ms "rm_world s"] criteria_loop_own [OF assms(1-3), of g] assms(4) show ?thesis
    by (auto simp: ResManFreeResByCriteria_def FreeResourceByCriteria_def)
qed

section \<open>Registration and ownership\<close>

lemma link_items_mset:
  assumes "rm_ok s" "rm_context ctx s = Some c"
  shows "mset (rm_items (link_item ctx i s)) = add_mset i (mset (rm_items s))"
proof -
  have "ctx \<in> psContext ` set (psContextList s)" using assms(2) rm_context_ex by blast
  moreover have "distinct (map psContext (psContextList s))" using assms(1) by (simp add: rm_ok_def rm_addrs_def)
  ultimately show ?thesis
    unfolding rm_items_def link_item_def update_items_def
  proof (induction "psContextList s" arbitrary: s)
    case Nil
    then show ?case by simp
  next
    case (Cons d ds)
    have rest: "map (\<lambda>c. if psContext c = ctx then i # psResItemList c else psResItemList c) ds = map psResItemList ds"
      if "psContext d = ctx" using Cons.prems(2) that by (auto simp: Cons.hyps(2) [symmetric] image_iff)
    have IH: "mset (concat (map (\<lambda>c. if psContext c = ctx then i # psResItemList c else psResItemList c) ds)) =
        add_mset i (mset (concat (map psResItemList ds)))" if "psContext d \<noteq> ctx"
      using Cons.hyps(1) [of "s\<lparr>psContextList := ds\<rparr>"] Cons.prems that
      by (auto simp: Cons.hyps(2) [symmetric] comp_def)
    show ?case
    proof (cases "psContext d = ctx")
      case True
      have "concat (map (\<lambda>c. if psContext c = ctx then i # psResItemList c else psResItemList c) ds) =
          concat (map psResItemList ds)" by (simp only: rest [OF True])
      with True show ?thesis by (simp add: Cons.hyps(2) [symmetric] comp_def)
    next
      case False
      from IH [OF this] False show ?thesis by (simp add: Cons.hyps(2) [symmetric] comp_def)
    qed
  qed
qed

lemma rm_context_link:
  "rm_context p s = Some c \<Longrightarrow>
     rm_context p (link_item ctx i s) = Some (c\<lparr>psResItemList := if p = ctx then i # psResItemList c else psResItemList c\<rparr>)"
  using rm_context_Some [of p s c]
  by (simp add: rm_context_def link_item_def update_items_def find_map comp_def)

lemma link_addrs:
  assumes "rm_ok s" "rm_context ctx s = Some c"
  shows "mset (rm_addrs (link_item ctx i s)) = add_mset (psResItem i) (mset (rm_addrs s))"
proof -
  have "map psContext (psContextList (link_item ctx i s)) = map psContext (psContextList s)"
    "gpsResList (link_item ctx i s) = gpsResList s"
    by (simp_all add: link_item_def)
  then show ?thesis
    using link_items_mset [OF assms, of i] by (simp add: rm_addrs_def)
qed

lemma rm_ok_link:
  assumes "rm_ok s" "rm_context ctx s = Some c" "psResItem i \<notin> set (rm_addrs s)"
    and "psResItem i \<in> set (os_live (rm_os s))"
  shows "rm_ok (link_item ctx i s)"
proof -
  note m = link_addrs [OF assms(1,2), of i]
  have "distinct (rm_addrs (link_item ctx i s))"
    using mset_eq_imp_distinct_iff [of "rm_addrs (link_item ctx i s)" "psResItem i # rm_addrs s"] m assms(1,3)
    by (simp add: rm_ok_def)
  moreover have "set (rm_addrs (link_item ctx i s)) = insert (psResItem i) (set (rm_addrs s))"
    using mset_eq_setD [of "rm_addrs (link_item ctx i s)" "psResItem i # rm_addrs s"] m by simp
  ultimately show ?thesis using assms(1,4) by (simp add: rm_ok_def link_item_def)
qed

lemma find_by_ptr:
  assumes "rm_context ctx s = Some c" "p \<noteq> IMG_NULL" "ctx \<noteq> IMG_NULL"
  shows "ResManFindResourceByPtr ctx p s =
           Some (if p \<in> psResItem ` set (psResItemList c) then PVRSRV_OK else PVRSRV_ERROR_NOT_OWNER)"
  using assms by (auto simp: ResManFindResourceByPtr_def find_None_all)

lemma context_nonnull: "rm_ok s \<Longrightarrow> rm_context ctx s = Some c \<Longrightarrow> ctx \<noteq> IMG_NULL"
  using rm_context_Some by (fastforce simp: rm_ok_def rm_addrs_def os_ok_def)

lemma unlink_link:
  "psResItem i \<notin> psResItem ` set (rm_items s) \<Longrightarrow>
     psContextList (unlink_item (psResItem i) (link_item ctx i s)) = psContextList s"
proof -
  assume a: "psResItem i \<notin> psResItem ` set (rm_items s)"
  have "filter (\<lambda>j. psResItem j \<noteq> psResItem i) (psResItemList d) = psResItemList d"
    if "d \<in> set (psContextList s)" for d
    using a that by (simp add: rm_items_def filter_id_conv image_iff) metis
  then show "psContextList (unlink_item (psResItem i) (link_item ctx i s)) = psContextList s"
    by (simp add: unlink_item_def link_item_def update_items_def) (rule map_idI, simp)
qed

text \<open>C15: A registered resource belongs to the context it was registered with and to no other, and
  freeing it runs its callback once, with the parameters it was registered with, and restores the
  lists and the memory. A registration that runs out of memory returns no item and changes
  nothing.\<close>

theorem resman_register_free:
  assumes "rm_ok s" "rm_context ctx s = Some c"
    and "ResManRegisterRes ctx ty pv ui pfn s = Some (p, s')"
  shows "rm_ok s' \<and>
         (if p = IMG_NULL then psContextList s' = psContextList s \<and> blocks (rm_os s') = blocks (rm_os s)
          else
            (\<forall>d. d \<in> set (psContextList s) \<longrightarrow>
               ResManFindResourceByPtr (psContext d) p s' =
                 Some (if psContext d = ctx then PVRSRV_OK else PVRSRV_ERROR_NOT_OWNER)) \<and>
            (\<exists>s2. ResManFreeResByPtr (own_state g) p f s' = Some (fst (g pfn pv ui f (rm_world s)), s2) \<and>
               psContextList s2 = psContextList s \<and> rm_world s2 = snd (g pfn pv ui f (rm_world s)) \<and>
               blocks (rm_os s2) = blocks (rm_os s)))"
proof -
  have ctx: "ctx \<noteq> IMG_NULL" by (rule context_nonnull [OF assms(1,2)])
  obtain e a os' where al: "OSAllocMem sizeof_RESMAN_ITEM (rm_os s) = (e, a, os')"
    by (cases "OSAllocMem sizeof_RESMAN_ITEM (rm_os s)")
  let ?s1 = "s\<lparr>rm_os := os'\<rparr>"
  let ?i = "\<lparr>psResItem = a, ui32Flags = 0, ui32ResType = ty, pvParam = pv, ui32Param = ui, pfnFreeResource = pfn\<rparr>"
  have addrs: "rm_addrs ?s1 = rm_addrs s" by (simp add: rm_addrs_def rm_items_def)
  have ok1: "rm_ok ?s1"
    using OSAllocMem_os_ok [OF al] assms(1) addrs al
    by (auto simp: rm_ok_def elim!: OSAllocMem_cases)
  have c1: "rm_context ctx ?s1 = Some c" using assms(2) by (simp add: rm_context_def)
  from al show ?thesis
  proof (cases rule: OSAllocMem_cases)
    case oom
    then have "p = IMG_NULL" "s' = ?s1" using assms(3) ctx al by (auto simp: ResManRegisterRes_def)
    with ok1 oom show ?thesis by (simp add: blocks_def)
  next
    case ok
    then have p: "p = a" "s' = link_item ctx ?i ?s1"
      using assms(3) ctx al c1 by (auto simp: ResManRegisterRes_def)
    have fresh: "a \<notin> set (rm_addrs ?s1)" using ok(3) assms(1) addrs by (auto simp: rm_ok_def)
    then have fi: "a \<notin> psResItem ` set (rm_items ?s1)" by (auto simp: rm_addrs_def)
    have ok': "rm_ok s'" unfolding p by (rule rm_ok_link [OF ok1 c1]) (use fresh ok in auto)
    have own: "ResManFindResourceByPtr (psContext d) a s' =
        Some (if psContext d = ctx then PVRSRV_OK else PVRSRV_ERROR_NOT_OWNER)"
      if d: "d \<in> set (psContextList s)" for d
    proof -
      have d1: "rm_context (psContext d) ?s1 = Some d" using rm_context_find [OF ok1, of d] d by simp
      have "a \<notin> psResItem ` set (psResItemList d)" using fi d by (fastforce simp: rm_items_def)
      with find_by_ptr [OF rm_context_link [OF d1, of ctx ?i] ok(2)] context_nonnull [OF ok1 d1] show ?thesis
        by (simp add: p)
    qed
    have "?i \<in> set (rm_items s')"
      using link_items_mset [OF ok1 c1, of ?i] p(2) by (metis set_mset_mset union_single_eq_member)
    then have "rm_item a s' = Some ?i" using rm_item_find [OF ok', of ?i] by simp
    moreover have "psContextList (unlink_item a s') = psContextList s"
      using unlink_link [of ?i ?s1 ctx] fi p(2) by simp
    moreover have "rm_os s' = os'" "rm_world s' = rm_world s" using p(2) by (simp_all add: link_item_def)
    ultimately have "\<exists>s2. ResManFreeResByPtr (own_state g) a f s' = Some (fst (g pfn pv ui f (rm_world s)), s2) \<and>
        psContextList s2 = psContextList s \<and> rm_world s2 = snd (g pfn pv ui f (rm_world s)) \<and>
        blocks (rm_os s2) = blocks (rm_os s)"
      using ok by (simp add: ResManFreeResByPtr_def FreeResourceByPtr_def own_state_def blocks_def
          OSFreeMem_def split: prod.splits)
    with own ok' ok(2) p(1) show ?thesis by simp
  qed
qed

lemma rm_item_Some: "rm_item p s = Some i \<Longrightarrow> i \<in> set (rm_items s) \<and> psResItem i = p"
  unfolding rm_item_def by (auto simp: find_Some_iff)

text \<open>Moving a resource to another context changes its owner and nothing else: afterwards the new
  context owns it, no other context does, and it stands at the head of the new context's list.
  Dissociating it from every context drops the item and its memory without running its
  callback.\<close>

theorem resman_dissociate:
  assumes "rm_ok s" "rm_item p s = Some i" "rm_context ctx s = Some c"
  shows "(\<exists>s'. ResManDissociateRes call p ctx s = Some (PVRSRV_OK, s') \<and> rm_ok s' \<and>
            mset (rm_items s') = mset (rm_items s) \<and> rm_os s' = rm_os s \<and> rm_world s' = rm_world s \<and>
            (\<forall>d. d \<in> psContext ` set (psContextList s) \<longrightarrow> ResManFindResourceByPtr d p s' =
               Some (if d = ctx then PVRSRV_OK else PVRSRV_ERROR_NOT_OWNER))) \<and>
         (\<exists>s'. ResManDissociateRes call p IMG_NULL s = Some (PVRSRV_OK, s') \<and>
            rm_items s' = filter (\<lambda>j. psResItem j \<noteq> p) (rm_items s) \<and> rm_world s' = rm_world s \<and>
            blocks (rm_os s') = blocks (rm_os s) - {#p#})"
proof -
  have i: "i \<in> set (rm_items s)" "psResItem i = p" using rm_item_Some [OF assms(2)] by auto
  have nz: "p \<noteq> IMG_NULL" using assms(1) i by (auto simp: rm_ok_def rm_addrs_def os_ok_def)
  have cz: "ctx \<noteq> IMG_NULL" by (rule context_nonnull [OF assms(1,3)])
  let ?u = "unlink_item p s" let ?s' = "link_item ctx i ?u"
  have oku: "rm_ok ?u" by (rule rm_ok_unlink [OF assms(1)])
  obtain cu where cu: "rm_context ctx ?u = Some cu" using shrinks_context [OF unlink_shrinks assms(3)] by blast
  have ok': "rm_ok ?s'"
    by (rule rm_ok_link [OF oku cu]) (use item_unlinked [OF assms(1) i(1)] i assms(1) in \<open>auto simp: rm_ok_def rm_addrs_def\<close>)
  have di: "distinct (map psResItem (rm_items s))" using assms(1) by (simp add: rm_ok_def rm_addrs_def)
  have "filter_mset (\<lambda>j. psResItem j = p) (mset (rm_items s)) = {#i#}"
    using filter_one_distinct [OF di i(1)] i(2) by (metis mset_filter mset_single_iff)
  then have items: "mset (rm_items ?s') = mset (rm_items s)"
    using link_items_mset [OF oku cu, of i] multiset_partition [of "mset (rm_items s)" "\<lambda>j. psResItem j = p"]
    by (simp add: unlink_items)
  have own: "ResManFindResourceByPtr (psContext d) p ?s' =
      Some (if psContext d = ctx then PVRSRV_OK else PVRSRV_ERROR_NOT_OWNER)"
    if d: "d \<in> set (psContextList s)" for d
  proof -
    obtain du where du: "rm_context (psContext d) ?u = Some du"
      using shrinks_context [OF unlink_shrinks rm_context_find [OF assms(1) d]] by blast
    have "p \<notin> psResItem ` set (psResItemList du)"
      using context_item [OF du] by (auto simp: unlink_items)
    with find_by_ptr [OF rm_context_link [OF du, of ctx i] nz context_nonnull [OF oku du]] i(2) show ?thesis by simp
  qed
  have "ResManDissociateRes call p ctx s = Some (PVRSRV_OK, ?s')"
    using nz cz assms(2,3) by (simp add: ResManDissociateRes_def)
  moreover have "rm_os ?s' = rm_os s" "rm_world ?s' = rm_world s" by (simp_all add: link_item_def)
  moreover have "\<exists>s'. ResManDissociateRes call p IMG_NULL s = Some (PVRSRV_OK, s') \<and>
      rm_items s' = filter (\<lambda>j. psResItem j \<noteq> p) (rm_items s) \<and> rm_world s' = rm_world s \<and>
      blocks (rm_os s') = blocks (rm_os s) - {#p#}"
    using nz assms(2) unlink_items [of p s]
    by (simp add: ResManDissociateRes_def FreeResourceByPtr_def blocks_OSFreeMem) (simp add: rm_items_def)
  ultimately show ?thesis using ok' items own by blast
qed

section \<open>Examples\<close>

definition ex_item :: "IMG_UINTPTR_T \<Rightarrow> IMG_UINT32 \<Rightarrow> RESMAN_ITEM" where
  "ex_item p ty = \<lparr>psResItem = p, ui32Flags = 0, ui32ResType = ty, pvParam = p + 1, ui32Param = 0, pfnFreeResource = 1\<rparr>"

definition ex_rm :: "IMG_UINTPTR_T list RESMAN" where
  "ex_rm = \<lparr>gpsResList = 1,
     psContextList = [\<lparr>psContext = 2, psPerProc = 0,
       psResItemList = [ex_item 10 RESMAN_TYPE_SYNC_INFO, ex_item 11 RESMAN_TYPE_MODIFY_SYNC_OPS,
         ex_item 12 RESMAN_TYPE_MODIFY_SYNC_OPS, ex_item 13 RESMAN_TYPE_OS_USERMODE_MAPPING]\<rparr>,
       \<lparr>psContext = 3, psPerProc = 0, psResItemList = []\<rparr>],
     rm_os = \<lparr>os_allocs = [20], os_live = [1, 2, 3, 10, 11, 12, 13]\<rparr>, rm_world = []\<rparr>"

definition ex_free :: "IMG_UINTPTR_T list world_fn" where
  "ex_free pfn pv ui f w = (PVRSRV_OK, w @ [pv])"

definition ex_fail :: "IMG_UINTPTR_T list world_fn" where
  "ex_fail pfn pv ui f w = (PVRSRV_ERROR_RETRY, w @ [pv])"

definition ex_ctx :: RESMAN_CONTEXT where
  "ex_ctx = hd (psContextList ex_rm)"

lemma ex_rm_ok: "rm_ok ex_rm" "rm_context 2 ex_rm = Some ex_ctx" "all_ok ex_free"
  "\<forall>i \<in> set (psResItemList ex_ctx). ui32ResType i \<in> resman_types"
  by (simp_all add: rm_ok_def rm_addrs_def rm_items_def ex_rm_def ex_item_def os_ok_def rm_context_def
      ex_ctx_def all_ok_def ex_free_def resman_types_def)

theorem resman_disconnect_complete_witness:
  "\<exists>s'. PVRSRVResManDisconnect (own_state ex_free) 2 False ex_rm = Some s' \<and> rm_context 2 s' = None"
  using resman_disconnect_complete [OF ex_rm_ok(1,2) own_state_tidy ex_rm_ok(4)] by blast

theorem resman_disconnect_order_witness:
  "\<exists>s'. PVRSRVResManDisconnect (own_state ex_fail) 2 False ex_rm = Some s' \<and>
        rm_world s' = [14, 13, 11] \<and> blocks (rm_os s') = {#1, 3, 11#}"
proof -
  have "disconnect_log ex_fail disconnect_types (psResItemList ex_ctx) (rm_world ex_rm) =
      [ex_item 13 RESMAN_TYPE_OS_USERMODE_MAPPING, ex_item 12 RESMAN_TYPE_MODIFY_SYNC_OPS, ex_item 10 RESMAN_TYPE_SYNC_INFO]"
    by (simp add: disconnect_types_def of_type_def ex_ctx_def ex_rm_def ex_item_def run_item_def ex_fail_def)
  with resman_disconnect_order [OF ex_rm_ok(1,2,4), of ex_fail] show ?thesis
    by (auto simp: run_item_def ex_fail_def ex_item_def ex_rm_def blocks_def)
qed

theorem resman_free_by_criteria_witness:
  "\<exists>s'. ResManFreeResByCriteria (own_state ex_fail) 2 RESMAN_CRITERIA_RESTYPE RESMAN_TYPE_MODIFY_SYNC_OPS 0 0 ex_rm
          = Some (PVRSRV_ERROR_RETRY, s') \<and> rm_world s' = [12] \<and>
        removed [ex_item 11 RESMAN_TYPE_MODIFY_SYNC_OPS] ex_rm s'"
proof -
  have ms: "filter (FreeResourceByCriteria_AnyVaCb RESMAN_CRITERIA_RESTYPE RESMAN_TYPE_MODIFY_SYNC_OPS 0 0)
      (psResItemList ex_ctx) = [ex_item 11 RESMAN_TYPE_MODIFY_SYNC_OPS, ex_item 12 RESMAN_TYPE_MODIFY_SYNC_OPS]"
    by (simp add: criteria_restype ex_ctx_def ex_rm_def ex_item_def)
  have w: "rm_world ex_rm = []" by (simp add: ex_rm_def)
  have "any_va PVRSRV_OK (run_item ex_fail) [ex_item 11 RESMAN_TYPE_MODIFY_SYNC_OPS, ex_item 12 RESMAN_TYPE_MODIFY_SYNC_OPS]
      (rm_world ex_rm) = (PVRSRV_ERROR_RETRY, [12])"
    by (simp add: w run_item_def ex_fail_def ex_item_def)
  from resman_free_by_criteria [OF ex_rm_ok(1,2) ms [symmetric] this] show ?thesis
    by (auto simp: w run_item_def ex_fail_def)
qed

theorem resman_register_free_witness:
  "\<exists>s'. ResManRegisterRes 2 RESMAN_TYPE_SYNC_INFO 5 6 7 ex_rm = Some (20, s') \<and>
        ResManFindResourceByPtr 2 20 s' = Some PVRSRV_OK \<and>
        ResManFindResourceByPtr 3 20 s' = Some PVRSRV_ERROR_NOT_OWNER"
proof -
  obtain s' where r: "ResManRegisterRes 2 RESMAN_TYPE_SYNC_INFO 5 6 7 ex_rm = Some (20, s')"
    by (simp add: ResManRegisterRes_def OSAllocMem_def kmalloc_def ex_rm_def sizeof_RESMAN_ITEM_def
        PAGE_SIZE_def rm_context_def)
  have "\<exists>d \<in> set (psContextList ex_rm). psContext d = 3" "\<exists>d \<in> set (psContextList ex_rm). psContext d = 2"
    by (simp_all add: ex_rm_def)
  with resman_register_free [OF ex_rm_ok(1,2) r, of undefined undefined] r show ?thesis by fastforce
qed

theorem resman_dissociate_witness:
  "\<exists>s'. ResManDissociateRes (own_state ex_free) 11 3 ex_rm = Some (PVRSRV_OK, s') \<and>
        ResManFindResourceByPtr 3 11 s' = Some PVRSRV_OK \<and>
        ResManFindResourceByPtr 2 11 s' = Some PVRSRV_ERROR_NOT_OWNER"
proof -
  have i: "rm_item 11 ex_rm = Some (ex_item 11 RESMAN_TYPE_MODIFY_SYNC_OPS)"
    by (simp add: rm_item_def rm_items_def ex_rm_def ex_item_def)
  have c: "rm_context 3 ex_rm = Some \<lparr>psContext = 3, psPerProc = 0, psResItemList = []\<rparr>"
    by (simp add: rm_context_def ex_rm_def)
  have "3 \<in> psContext ` set (psContextList ex_rm)" "2 \<in> psContext ` set (psContextList ex_rm)"
    by (simp_all add: ex_rm_def)
  with resman_dissociate [OF ex_rm_ok(1) i c, of "own_state ex_free"] show ?thesis by fastforce
qed

end
