(* ===== verification/Hash_Table.thy ===== *)
theory Hash_Table
  imports Pvr_Prelude
begin

text \<open>
  The chained hash table of \<open>services4/srvkm/common/hash.c\<close>. A chain of buckets linked by \<open>pNext\<close>
  is a list of \<open>BUCKET\<close> records, the bucket array a list of chains; every heap block (the table
  header, the bucket array, each bucket) carries its address, so that memory accounting can be
  stated. The abstract view is the multiset of (key, value) pairs the table holds: the table does
  not forbid duplicate keys. For clients that keep keys unique (all of them do) the view is a map,
  and the locale \<open>hash_store\<close> states that contract.
\<close>

section \<open>Data\<close>

record BUCKET =
  pBucket :: IMG_UINTPTR_T
  bucket_v :: IMG_UINTPTR_T
  bucket_k :: "IMG_UINTPTR_T list"

type_synonym HASH_FUNC = "IMG_SIZE_T \<Rightarrow> IMG_UINTPTR_T list \<Rightarrow> IMG_UINT32 \<Rightarrow> IMG_UINT32"
type_synonym HASH_KEY_COMP = "IMG_SIZE_T \<Rightarrow> IMG_UINTPTR_T list \<Rightarrow> IMG_UINTPTR_T list \<Rightarrow> bool"

record HASH_TABLE =
  pHash :: IMG_UINTPTR_T
  pTable :: IMG_UINTPTR_T
  ppBucketTable :: "BUCKET list list"
  uSize :: IMG_UINT32
  uCount :: IMG_UINT32
  uMinimumSize :: IMG_UINT32
  uKeySize :: IMG_UINT32
  pfnHashFunc :: HASH_FUNC
  pfnKeyComp :: HASH_KEY_COMP

section \<open>Operations\<close>

definition uHashPart :: "IMG_UINT32 \<Rightarrow> IMG_UINT32" where
  "uHashPart p0 =
     (let p1 = p0 + push_bit 12 p0;
          p2 = p1 XOR drop_bit 22 p1;
          p3 = p2 + push_bit 4 p2;
          p4 = p3 XOR drop_bit 9 p3;
          p5 = p4 + push_bit 10 p4;
          p6 = p5 XOR drop_bit 2 p5;
          p7 = p6 + push_bit 7 p6;
          p8 = p7 XOR drop_bit 12 p7
      in p8)"

definition uKeyLen :: "IMG_SIZE_T \<Rightarrow> nat" where
  "uKeyLen n = unat (n div 8)"

definition HASH_Func_Default :: HASH_FUNC where
  "HASH_Func_Default uKeySz pKey uHashTabLen =
     foldl (\<lambda>uHashKey p. uHashKey + uHashPart (ucast p)) 0 (take (uKeyLen uKeySz) pKey)"

text \<open>The comparison loop; a key shorter than the size says is never read past its end.\<close>

fun key_comp_loop :: "nat \<Rightarrow> IMG_UINTPTR_T list \<Rightarrow> IMG_UINTPTR_T list \<Rightarrow> bool" where
  "key_comp_loop 0 p1 p2 = True"
| "key_comp_loop (Suc n) (a # p1) (b # p2) = (if a \<noteq> b then False else key_comp_loop n p1 p2)"
| "key_comp_loop (Suc n) _ _ = False"

definition HASH_Key_Comp_Default :: HASH_KEY_COMP where
  "HASH_Key_Comp_Default uKeySz pKey1 pKey2 = key_comp_loop (uKeyLen uKeySz) pKey1 pKey2"

definition KEY_TO_INDEX :: "HASH_TABLE \<Rightarrow> IMG_UINTPTR_T list \<Rightarrow> IMG_UINT32 \<Rightarrow> nat" where
  "KEY_TO_INDEX h key n = unat (pfnHashFunc h (uKeySize h) key n mod n)"

definition KEY_COMPARE :: "HASH_TABLE \<Rightarrow> IMG_UINTPTR_T list \<Rightarrow> IMG_UINTPTR_T list \<Rightarrow> bool" where
  "KEY_COMPARE h k1 k2 = pfnKeyComp h (uKeySize h) k1 k2"

definition ChainInsert ::
  "HASH_TABLE \<Rightarrow> BUCKET \<Rightarrow> BUCKET list list \<Rightarrow> IMG_UINT32 \<Rightarrow> PVRSRV_ERROR \<times> BUCKET list list" where
  "ChainInsert h b t n =
     (if n = 0 then (PVRSRV_ERROR_INVALID_PARAMS, t)
      else
        (let uIndex = KEY_TO_INDEX h (bucket_k b) n in
         (PVRSRV_OK, t[uIndex := b # t ! uIndex])))"

fun Rehash_chain ::
  "HASH_TABLE \<Rightarrow> BUCKET list \<Rightarrow> BUCKET list list \<Rightarrow> IMG_UINT32 \<Rightarrow> PVRSRV_ERROR \<times> BUCKET list list"
where
  "Rehash_chain h [] t n = (PVRSRV_OK, t)"
| "Rehash_chain h (b # bs) t n =
     (let (eError, t') = ChainInsert h b t n in
      if eError \<noteq> PVRSRV_OK then (eError, t') else Rehash_chain h bs t' n)"

fun Rehash ::
  "HASH_TABLE \<Rightarrow> BUCKET list list \<Rightarrow> BUCKET list list \<Rightarrow> IMG_UINT32 \<Rightarrow>
     PVRSRV_ERROR \<times> BUCKET list list"
where
  "Rehash h [] t n = (PVRSRV_OK, t)"
| "Rehash h (c # cs) t n =
     (let (eError, t') = Rehash_chain h c t n in
      if eError \<noteq> PVRSRV_OK then (eError, t') else Rehash h cs t' n)"

definition Resize :: "HASH_TABLE \<Rightarrow> IMG_UINT32 \<Rightarrow> os \<Rightarrow> bool \<times> HASH_TABLE \<times> os" where
  "Resize h uNewSize s =
     (if uNewSize \<noteq> uSize h then
        (let (_, ppNewTable, s1) = OSAllocMem (8 * uNewSize) s in
         if ppNewTable = IMG_NULL then (False, h, s1)
         else
           (let (eError, t) =
              Rehash h (take (unat (uSize h)) (ppBucketTable h)) (replicate (unat uNewSize) []) uNewSize in
            if eError \<noteq> PVRSRV_OK then (False, h, OSFreeMem ppNewTable s1)
            else (True,
                  h\<lparr>pTable := ppNewTable, ppBucketTable := t, uSize := uNewSize\<rparr>,
                  OSFreeMem (pTable h) s1)))
      else (True, h, s))"

definition sizeof_HASH_TABLE :: IMG_UINT32 where "sizeof_HASH_TABLE = 40"
definition sizeof_BUCKET :: IMG_UINT32 where "sizeof_BUCKET = 16"

definition HASH_Create_Extended ::
  "IMG_UINT32 \<Rightarrow> IMG_SIZE_T \<Rightarrow> HASH_FUNC \<Rightarrow> HASH_KEY_COMP \<Rightarrow> os \<Rightarrow> HASH_TABLE option \<times> os" where
  "HASH_Create_Extended uInitialLen uKeySz f g s =
     (let (eError, p, s1) = OSAllocMem sizeof_HASH_TABLE s in
      if eError \<noteq> PVRSRV_OK then (None, s1)
      else
        (let (_, q, s2) = OSAllocMem (8 * uInitialLen) s1 in
         if q = IMG_NULL then (None, OSFreeMem p s2)
         else
           (Some \<lparr>pHash = p, pTable = q, ppBucketTable = replicate (unat uInitialLen) [],
                  uSize = uInitialLen, uCount = 0, uMinimumSize = uInitialLen,
                  uKeySize = uKeySz, pfnHashFunc = f, pfnKeyComp = g\<rparr>, s2)))"

definition HASH_Create :: "IMG_UINT32 \<Rightarrow> os \<Rightarrow> HASH_TABLE option \<times> os" where
  "HASH_Create uInitialLen s =
     HASH_Create_Extended uInitialLen 8 HASH_Func_Default HASH_Key_Comp_Default s"

definition HASH_Delete :: "HASH_TABLE option \<Rightarrow> os \<Rightarrow> os" where
  "HASH_Delete ph s =
     (case ph of None \<Rightarrow> s | Some h \<Rightarrow> OSFreeMem (pHash h) (OSFreeMem (pTable h) s))"

definition HASH_Insert_Extended ::
  "HASH_TABLE \<Rightarrow> IMG_UINTPTR_T list \<Rightarrow> IMG_UINTPTR_T \<Rightarrow> os \<Rightarrow> bool \<times> HASH_TABLE \<times> os" where
  "HASH_Insert_Extended h pKey val s =
     (let (eError, p, s1) = OSAllocMem (sizeof_BUCKET + uKeySize h) s in
      if eError \<noteq> PVRSRV_OK then (False, h, s1)
      else
        (let b = \<lparr>pBucket = p, bucket_v = val, bucket_k = take (uKeyLen (uKeySize h)) pKey\<rparr>;
             (e2, t) = ChainInsert h b (ppBucketTable h) (uSize h) in
         if e2 \<noteq> PVRSRV_OK then (False, h, OSFreeMem p s1)
         else
           (let h1 = h\<lparr>ppBucketTable := t, uCount := uCount h + 1\<rparr> in
            if push_bit 1 (uCount h1) > uSize h1
            then (let (_, h2, s2) = Resize h1 (push_bit 1 (uSize h1)) s1 in (True, h2, s2))
            else (True, h1, s1))))"

definition HASH_Insert ::
  "HASH_TABLE \<Rightarrow> IMG_UINTPTR_T \<Rightarrow> IMG_UINTPTR_T \<Rightarrow> os \<Rightarrow> bool \<times> HASH_TABLE \<times> os" where
  "HASH_Insert h key val s = HASH_Insert_Extended h [key] val s"

text \<open>The search loop over a chain: the value found and the chain without its bucket.\<close>

fun chain_find :: "HASH_TABLE \<Rightarrow> IMG_UINTPTR_T list \<Rightarrow> BUCKET list \<Rightarrow> BUCKET option" where
  "chain_find h pKey [] = None"
| "chain_find h pKey (b # bs) =
     (if KEY_COMPARE h (bucket_k b) pKey then Some b else chain_find h pKey bs)"

fun chain_unlink :: "HASH_TABLE \<Rightarrow> IMG_UINTPTR_T list \<Rightarrow> BUCKET list \<Rightarrow> BUCKET list" where
  "chain_unlink h pKey [] = []"
| "chain_unlink h pKey (b # bs) =
     (if KEY_COMPARE h (bucket_k b) pKey then bs else b # chain_unlink h pKey bs)"

definition HASH_Remove_Extended ::
  "HASH_TABLE \<Rightarrow> IMG_UINTPTR_T list \<Rightarrow> os \<Rightarrow> IMG_UINTPTR_T \<times> HASH_TABLE \<times> os" where
  "HASH_Remove_Extended h pKey s =
     (let uIndex = KEY_TO_INDEX h pKey (uSize h);
          c = ppBucketTable h ! uIndex in
      case chain_find h pKey c of
        None \<Rightarrow> (0, h, s)
      | Some b \<Rightarrow>
          (let h1 = h\<lparr>ppBucketTable := (ppBucketTable h)[uIndex := chain_unlink h pKey c],
                      uCount := uCount h - 1\<rparr>;
               s1 = OSFreeMem (pBucket b) s in
           if uSize h1 > push_bit 2 (uCount h1) \<and> uSize h1 > uMinimumSize h1
           then (let (_, h2, s2) = Resize h1 (max (drop_bit 1 (uSize h1)) (uMinimumSize h1)) s1 in
                 (bucket_v b, h2, s2))
           else (bucket_v b, h1, s1)))"

definition HASH_Remove :: "HASH_TABLE \<Rightarrow> IMG_UINTPTR_T \<Rightarrow> os \<Rightarrow> IMG_UINTPTR_T \<times> HASH_TABLE \<times> os" where
  "HASH_Remove h key s = HASH_Remove_Extended h [key] s"

definition HASH_Retrieve_Extended :: "HASH_TABLE \<Rightarrow> IMG_UINTPTR_T list \<Rightarrow> IMG_UINTPTR_T" where
  "HASH_Retrieve_Extended h pKey =
     (case chain_find h pKey (ppBucketTable h ! KEY_TO_INDEX h pKey (uSize h)) of
        None \<Rightarrow> 0
      | Some b \<Rightarrow> bucket_v b)"

definition HASH_Retrieve :: "HASH_TABLE \<Rightarrow> IMG_UINTPTR_T \<Rightarrow> IMG_UINTPTR_T" where
  "HASH_Retrieve h key = HASH_Retrieve_Extended h [key]"

text \<open>\<open>HASH_Iterate\<close> calls back on the first key word and the value of every bucket, table order,
  until a call fails; the callback's own state is threaded through.\<close>

fun iterate_buckets ::
  "(IMG_UINTPTR_T \<Rightarrow> IMG_UINTPTR_T \<Rightarrow> 's \<Rightarrow> PVRSRV_ERROR \<times> 's) \<Rightarrow> BUCKET list \<Rightarrow> 's \<Rightarrow> PVRSRV_ERROR \<times> 's"
where
  "iterate_buckets pfn [] st = (PVRSRV_OK, st)"
| "iterate_buckets pfn (b # bs) st =
     (let (eError, st') = pfn (hd (bucket_k b)) (bucket_v b) st in
      if eError \<noteq> PVRSRV_OK then (eError, st') else iterate_buckets pfn bs st')"

fun iterate_chains ::
  "(IMG_UINTPTR_T \<Rightarrow> IMG_UINTPTR_T \<Rightarrow> 's \<Rightarrow> PVRSRV_ERROR \<times> 's) \<Rightarrow> BUCKET list list \<Rightarrow> 's \<Rightarrow>
     PVRSRV_ERROR \<times> 's"
where
  "iterate_chains pfn [] st = (PVRSRV_OK, st)"
| "iterate_chains pfn (c # cs) st =
     (let (eError, st') = iterate_buckets pfn c st in
      if eError \<noteq> PVRSRV_OK then (eError, st') else iterate_chains pfn cs st')"

definition HASH_Iterate ::
  "HASH_TABLE \<Rightarrow> (IMG_UINTPTR_T \<Rightarrow> IMG_UINTPTR_T \<Rightarrow> 's \<Rightarrow> PVRSRV_ERROR \<times> 's) \<Rightarrow> 's \<Rightarrow> PVRSRV_ERROR \<times> 's"
where
  "HASH_Iterate h pfn st = iterate_chains pfn (take (unat (uSize h)) (ppBucketTable h)) st"


section \<open>Invariant and abstraction\<close>

definition key_ok :: "HASH_TABLE \<Rightarrow> IMG_UINTPTR_T list \<Rightarrow> bool" where
  "key_ok h key \<longleftrightarrow> length key = uKeyLen (uKeySize h)"

definition table_ok :: "HASH_TABLE \<Rightarrow> BUCKET list list \<Rightarrow> IMG_UINT32 \<Rightarrow> bool" where
  "table_ok h t n \<longleftrightarrow>
     n \<noteq> 0 \<and> length t = unat n \<and>
     (\<forall>i < length t. \<forall>b \<in> set (t ! i). key_ok h (bucket_k b) \<and> KEY_TO_INDEX h (bucket_k b) n = i)"

definition comp_ok :: "HASH_TABLE \<Rightarrow> bool" where
  "comp_ok h \<longleftrightarrow> (\<forall>k1 k2. key_ok h k1 \<longrightarrow> key_ok h k2 \<longrightarrow> KEY_COMPARE h k1 k2 = (k1 = k2))"

definition hash_entries :: "HASH_TABLE \<Rightarrow> BUCKET multiset" where
  "hash_entries h = mset (concat (ppBucketTable h))"

definition hash_inv :: "HASH_TABLE \<Rightarrow> bool" where
  "hash_inv h \<longleftrightarrow>
     table_ok h (ppBucketTable h) (uSize h) \<and> uMinimumSize h \<noteq> 0 \<and>
     uCount h = of_nat (size (hash_entries h)) \<and> comp_ok h"

definition pair_of :: "BUCKET \<Rightarrow> IMG_UINTPTR_T list \<times> IMG_UINTPTR_T" where
  "pair_of b = (bucket_k b, bucket_v b)"

definition hash_pairs :: "HASH_TABLE \<Rightarrow> (IMG_UINTPTR_T list \<times> IMG_UINTPTR_T) multiset" where
  "hash_pairs h = image_mset pair_of (hash_entries h)"

definition hash_blocks :: "HASH_TABLE \<Rightarrow> IMG_UINTPTR_T multiset" where
  "hash_blocks h = {#pHash h, pTable h#} + image_mset pBucket (hash_entries h)"

lemma index_less: "n \<noteq> 0 \<Longrightarrow> KEY_TO_INDEX h key n < unat n"
  by (simp add: KEY_TO_INDEX_def u32_simps)

text \<open>The hash and comparison functions and the key size are never changed.\<close>

definition same_fns :: "HASH_TABLE \<Rightarrow> HASH_TABLE \<Rightarrow> bool" where
  "same_fns h h' \<longleftrightarrow>
     pfnHashFunc h' = pfnHashFunc h \<and> pfnKeyComp h' = pfnKeyComp h \<and> uKeySize h' = uKeySize h"

lemma same_fns_refl [simp]: "same_fns h h"
  by (simp add: same_fns_def)

lemma same_fns_trans: "same_fns h h' \<Longrightarrow> same_fns h' h'' \<Longrightarrow> same_fns h h''"
  by (simp add: same_fns_def)

lemma same_fns_simps:
  assumes "same_fns h h'"
  shows "KEY_TO_INDEX h' = KEY_TO_INDEX h" "KEY_COMPARE h' = KEY_COMPARE h" "key_ok h' = key_ok h"
    "table_ok h' = table_ok h" "comp_ok h' = comp_ok h"
proof -
  show i: "KEY_TO_INDEX h' = KEY_TO_INDEX h" and c: "KEY_COMPARE h' = KEY_COMPARE h"
    and k: "key_ok h' = key_ok h"
    using assms by (auto simp: same_fns_def KEY_TO_INDEX_def KEY_COMPARE_def key_ok_def fun_eq_iff)
  show "table_ok h' = table_ok h" "comp_ok h' = comp_ok h"
    by (auto simp: table_ok_def comp_ok_def i c k fun_eq_iff)
qed

section \<open>Chains and rehashing\<close>

lemma ChainInsert_ok:
  assumes t: "table_ok h t n" and b: "key_ok h (bucket_k b)"
  obtains t' where "ChainInsert h b t n = (PVRSRV_OK, t')" "table_ok h t' n"
    "mset (concat t') = add_mset b (mset (concat t))"
proof -
  let ?i = "KEY_TO_INDEX h (bucket_k b) n"
  let ?t = "t[?i := b # t ! ?i]"
  from t have n: "n \<noteq> 0" and len: "length t = unat n" by (auto simp: table_ok_def)
  with index_less have i: "?i < length t" by simp
  have "table_ok h ?t n"
    using t b i by (auto simp: table_ok_def nth_list_update)
  moreover have "mset (concat ?t) = add_mset b (mset (concat t))"
    using mset_nth_concat [OF i] by (simp add: concat_update_mset i)
  ultimately show ?thesis using n that by (auto simp: ChainInsert_def Let_def)
qed

lemma Rehash_chain_ok:
  assumes "table_ok h t n" and "\<forall>b \<in> set bs. key_ok h (bucket_k b)"
  shows "\<exists>t'. Rehash_chain h bs t n = (PVRSRV_OK, t') \<and> table_ok h t' n \<and>
           mset (concat t') = mset bs + mset (concat t)"
  using assms
proof (induction bs arbitrary: t)
  case Nil
  then show ?case by simp
next
  case (Cons b bs)
  then obtain t1 where t1: "ChainInsert h b t n = (PVRSRV_OK, t1)" "table_ok h t1 n"
    "mset (concat t1) = add_mset b (mset (concat t))"
    by (auto elim: ChainInsert_ok)
  with Cons.IH [of t1] Cons.prems show ?case by auto
qed

lemma Rehash_ok:
  assumes "table_ok h t n" and "\<forall>b \<in> set (concat cs). key_ok h (bucket_k b)"
  shows "\<exists>t'. Rehash h cs t n = (PVRSRV_OK, t') \<and> table_ok h t' n \<and>
           mset (concat t') = mset (concat cs) + mset (concat t)"
  using assms
proof (induction cs arbitrary: t)
  case Nil
  then show ?case by simp
next
  case (Cons c cs)
  then obtain t1 where t1: "Rehash_chain h c t n = (PVRSRV_OK, t1)" "table_ok h t1 n"
    "mset (concat t1) = mset c + mset (concat t)"
    using Rehash_chain_ok [of h t n c] by auto
  with Cons.IH [of t1] Cons.prems show ?case by (auto simp: ac_simps)
qed

lemma Rehash_zero:
  "Rehash h cs t 0 = (if concat cs = [] then (PVRSRV_OK, t) else (PVRSRV_ERROR_INVALID_PARAMS, t))"
proof (induction cs arbitrary: t)
  case Nil
  then show ?case by simp
next
  case (Cons c cs)
  then show ?case by (cases c) (simp_all add: ChainInsert_def)
qed

lemma table_ok_replicate: "n \<noteq> 0 \<Longrightarrow> table_ok h (replicate (unat n) []) n"
  by (simp add: table_ok_def)

lemma concat_replicate_Nil [simp]: "concat (replicate n []) = []"
  by (induction n) simp_all

lemma hash_inv_keys: "hash_inv h \<Longrightarrow> b \<in># hash_entries h \<Longrightarrow> key_ok h (bucket_k b)"
  by (auto simp: hash_inv_def table_ok_def hash_entries_def in_concat_nth simp del: set_concat)


lemma hash_inv_comp:
  "hash_inv h \<Longrightarrow> key_ok h k1 \<Longrightarrow> key_ok h k2 \<Longrightarrow> KEY_COMPARE h k1 k2 = (k1 = k2)"
  by (simp add: hash_inv_def comp_ok_def)

lemma hash_inv_index:
  "hash_inv h \<Longrightarrow> KEY_TO_INDEX h key (uSize h) < length (ppBucketTable h)"
  by (simp add: hash_inv_def table_ok_def index_less)

text \<open>A resize, successful or not, keeps the entries; the only size that is refused is 0.\<close>

lemma Resize_cases:
  assumes inv: "hash_inv h" and n: "n \<noteq> 0 \<or> hash_entries h \<noteq> {#}"
    and r: "Resize h n s = (b, h', s')"
  obtains
    (same) "h' = h" "blocks s' = blocks s" "\<not> b \<or> n = uSize h"
  | (moved) a t where "h' = h\<lparr>pTable := a, ppBucketTable := t, uSize := n\<rparr>" "table_ok h t n"
      "mset (concat t) = hash_entries h" "blocks s' = add_mset a (blocks s) - {#pTable h#}" "b"
proof (cases "n = uSize h")
  case True
  with r same show ?thesis by (simp add: Resize_def)
next
  case False
  obtain e a s1 where al: "OSAllocMem (8 * n) s = (e, a, s1)" by (metis prod_cases3)
  note bl = OSAllocMem_blocks [OF al]
  show ?thesis
  proof (cases "a = IMG_NULL")
    case True
    with False r al bl same show ?thesis by (simp add: Resize_def)
  next
    case a: False
    have tk: "take (unat (uSize h)) (ppBucketTable h) = ppBucketTable h"
      using inv by (simp add: hash_inv_def table_ok_def)
    have keys: "\<forall>b \<in> set (concat (ppBucketTable h)). key_ok h (bucket_k b)"
      using hash_inv_keys [OF inv] by (simp add: hash_entries_def)
    show ?thesis
    proof (cases "n = 0")
      case True
      with n have "concat (ppBucketTable h) \<noteq> []" by (auto simp: hash_entries_def)
      with True have "Rehash h (ppBucketTable h) (replicate (unat n) []) n =
          (PVRSRV_ERROR_INVALID_PARAMS, [])"
        by (simp add: Rehash_zero del: concat_eq_Nil_conv)
      with False a r al bl show ?thesis
        by (intro same) (auto simp: Resize_def tk os_simps)
    next
      case n0: False
      from Rehash_ok [OF table_ok_replicate [OF n0] keys] obtain t where
        "Rehash h (ppBucketTable h) (replicate (unat n) []) n = (PVRSRV_OK, t)"
        "table_ok h t n" "mset (concat t) = hash_entries h"
        by (auto simp: hash_entries_def)
      with False a r al bl show ?thesis
        by (intro moved [where a = a and t = t]) (auto simp: Resize_def tk os_simps)
    qed
  qed
qed

lemma Resize_keeps:
  assumes inv: "hash_inv h" and n: "n \<noteq> 0 \<or> hash_entries h \<noteq> {#}"
    and r: "Resize h n s = (b, h', s')"
  shows "hash_inv h'" "hash_entries h' = hash_entries h" "same_fns h h'" "pHash h' = pHash h"
    "uCount h' = uCount h" "uMinimumSize h' = uMinimumSize h"
    "blocks s = hash_blocks h + F \<Longrightarrow> blocks s' = hash_blocks h' + F"
proof -
  have "hash_inv h' \<and> hash_entries h' = hash_entries h \<and> same_fns h h' \<and> pHash h' = pHash h \<and>
    uCount h' = uCount h \<and> uMinimumSize h' = uMinimumSize h \<and>
    (blocks s = hash_blocks h + F \<longrightarrow> blocks s' = hash_blocks h' + F)"
    using inv n r
  proof (cases rule: Resize_cases)
    case same
    with inv show ?thesis by simp
  next
    case (moved a t)
    have fns: "same_fns h h'" by (simp add: moved same_fns_def)
    have ent: "hash_entries h' = hash_entries h" by (simp add: moved hash_entries_def)
    have "hash_inv h'"
      using inv moved(2) unfolding hash_inv_def same_fns_simps [OF fns] ent
      by (simp add: moved(1))
    with fns ent show ?thesis by (simp add: moved hash_blocks_def)
  qed
  then show "hash_inv h'" "hash_entries h' = hash_entries h" "same_fns h h'" "pHash h' = pHash h"
    "uCount h' = uCount h" "uMinimumSize h' = uMinimumSize h"
    "blocks s = hash_blocks h + F \<Longrightarrow> blocks s' = hash_blocks h' + F" by blast+
qed


section \<open>Search\<close>

lemma chain_find_Some:
  "chain_find h key c = Some b \<Longrightarrow> b \<in> set c \<and> KEY_COMPARE h (bucket_k b) key"
  by (induction c) (auto split: if_splits)

lemma chain_find_None:
  "chain_find h key c = None \<longleftrightarrow> (\<forall>b \<in> set c. \<not> KEY_COMPARE h (bucket_k b) key)"
  by (induction c) auto

lemma mset_chain_unlink:
  "chain_find h key c = Some b \<Longrightarrow> mset c = add_mset b (mset (chain_unlink h key c))"
  by (induction c) (auto split: if_splits)

lemma set_chain_unlink: "set (chain_unlink h key c) \<subseteq> set c"
  by (induction c) auto

abbreviation find_key :: "HASH_TABLE \<Rightarrow> IMG_UINTPTR_T list \<Rightarrow> BUCKET option" where
  "find_key h key \<equiv> chain_find h key (ppBucketTable h ! KEY_TO_INDEX h key (uSize h))"

lemma find_key_Some:
  assumes "hash_inv h" "key_ok h key" "find_key h key = Some b"
  shows "b \<in># hash_entries h \<and> bucket_k b = key"
proof -
  have "b \<in># hash_entries h"
    using assms(3) hash_inv_index [OF assms(1), of key]
    by (auto simp: hash_entries_def in_concat_nth simp del: set_concat dest: chain_find_Some)
  with assms hash_inv_keys hash_inv_comp chain_find_Some show ?thesis by metis
qed

lemma find_key_None:
  assumes "hash_inv h" "key_ok h key" "find_key h key = None" "b \<in># hash_entries h"
  shows "bucket_k b \<noteq> key"
proof
  assume k: "bucket_k b = key"
  from assms(4) obtain i where i: "i < length (ppBucketTable h)" "b \<in> set (ppBucketTable h ! i)"
    by (auto simp: hash_entries_def in_concat_nth simp del: set_concat)
  with assms(1) k have "KEY_TO_INDEX h key (uSize h) = i"
    by (auto simp: hash_inv_def table_ok_def)
  with i assms(3) have "\<not> KEY_COMPARE h (bucket_k b) key" by (auto simp: chain_find_None)
  with assms(1,2) k hash_inv_comp show False by metis
qed

lemma find_key_present:
  assumes "hash_inv h" "key_ok h key"
  shows "find_key h key \<noteq> None \<longleftrightarrow> (\<exists>b \<in># hash_entries h. bucket_k b = key)"
proof
  assume "find_key h key \<noteq> None"
  then obtain b where "find_key h key = Some b" by auto
  from find_key_Some [OF assms this] show "\<exists>b \<in># hash_entries h. bucket_k b = key" by blast
next
  assume "\<exists>b \<in># hash_entries h. bucket_k b = key"
  with find_key_None [OF assms] show "find_key h key \<noteq> None" by metis
qed

section \<open>Insertion\<close>

lemma HASH_Insert_Extended_cases:
  assumes inv: "hash_inv h" and key: "key_ok h key"
    and ins: "HASH_Insert_Extended h key val s = (ok, h', s')"
  obtains
    (oom) "\<not> ok" "h' = h" "blocks s' = blocks s"
  | (stored) p where "ok" "hash_inv h'" "same_fns h h'" "pHash h' = pHash h"
      "hash_entries h' = add_mset \<lparr>pBucket = p, bucket_v = val, bucket_k = key\<rparr> (hash_entries h)"
      "\<And>F. blocks s = hash_blocks h + F \<Longrightarrow> blocks s' = hash_blocks h' + F"
proof -
  obtain e p s1 where al: "OSAllocMem (sizeof_BUCKET + uKeySize h) s = (e, p, s1)"
    by (metis prod_cases3)
  show ?thesis
  proof (cases "e = PVRSRV_OK")
    case False
    with OSAllocMem_ok_iff [OF al] OSAllocMem_blocks [OF al] have "blocks s1 = blocks s" by simp
    with ins al False oom show ?thesis by (simp add: HASH_Insert_Extended_def)
  next
    case True
    with OSAllocMem_ok_iff [OF al] OSAllocMem_blocks [OF al]
    have bl: "blocks s1 = add_mset p (blocks s)" by simp
    let ?b = "\<lparr>pBucket = p, bucket_v = val, bucket_k = key\<rparr>"
    from inv have tok: "table_ok h (ppBucketTable h) (uSize h)" by (simp add: hash_inv_def)
    have kb: "key_ok h (bucket_k ?b)" using key by simp
    obtain t where t: "ChainInsert h ?b (ppBucketTable h) (uSize h) = (PVRSRV_OK, t)"
      "table_ok h t (uSize h)" "mset (concat t) = add_mset ?b (hash_entries h)"
      using ChainInsert_ok [OF tok kb] by (auto simp: hash_entries_def)
    let ?h = "h\<lparr>ppBucketTable := t, uCount := uCount h + 1\<rparr>"
    have fns: "same_fns h ?h" by (simp add: same_fns_def)
    have ent: "hash_entries ?h = add_mset ?b (hash_entries h)" by (simp add: hash_entries_def t)
    have inv1: "hash_inv ?h"
      using inv t(2) unfolding hash_inv_def same_fns_simps [OF fns] ent by simp
    have fr: "blocks s1 = hash_blocks ?h + F" if "blocks s = hash_blocks h + F" for F
      using that bl ent by (simp add: hash_blocks_def)
    have tk: "take (uKeyLen (uKeySize h)) key = key" using key by (simp add: key_ok_def)
    show ?thesis
    proof (cases "push_bit 1 (uCount ?h) > uSize ?h")
      case False
      with ins al True t tk have r: "ok" "h' = ?h" "s' = s1"
        by (simp_all add: HASH_Insert_Extended_def Let_def)
      show ?thesis
        by (rule stored [of p]) (use r inv1 fns ent fr in auto)
    next
      case big: True
      obtain c h2 s2 where rs: "Resize ?h (push_bit 1 (uSize ?h)) s1 = (c, h2, s2)"
        by (metis prod_cases3)
      with ins al True t tk big have r: "ok" "h' = h2" "s' = s2"
        by (auto simp: HASH_Insert_Extended_def Let_def)
      have ne: "push_bit 1 (uSize ?h) \<noteq> 0 \<or> hash_entries ?h \<noteq> {#}" by (simp add: ent)
      note keep = Resize_keeps [OF inv1 ne rs]
      show ?thesis
        by (rule stored [of p])
           (use r keep ent fns fr in \<open>auto intro: same_fns_trans\<close>)
    qed
  qed
qed

section \<open>Removal\<close>

lemma HASH_Remove_Extended_cases:
  assumes inv: "hash_inv h" and key: "key_ok h key"
    and rem: "HASH_Remove_Extended h key s = (val, h', s')"
  obtains
    (absent) "find_key h key = None" "val = 0" "h' = h" "s' = s"
  | (found) b where "find_key h key = Some b" "val = bucket_v b" "hash_inv h'" "same_fns h h'"
      "pHash h' = pHash h" "hash_entries h = add_mset b (hash_entries h')"
      "\<And>F. blocks s = hash_blocks h + F \<Longrightarrow> blocks s' = hash_blocks h' + F"
proof (cases "find_key h key")
  case None
  with rem have "val = 0" "h' = h" "s' = s" by (simp_all add: HASH_Remove_Extended_def)
  with None show ?thesis by (rule absent)
next
  case (Some b)
  let ?i = "KEY_TO_INDEX h key (uSize h)"
  let ?c = "ppBucketTable h ! ?i"
  let ?t = "(ppBucketTable h)[?i := chain_unlink h key ?c]"
  let ?h = "h\<lparr>ppBucketTable := ?t, uCount := uCount h - 1\<rparr>"
  let ?s = "OSFreeMem (pBucket b) s"
  note i = hash_inv_index [OF inv, of key]
  have fns: "same_fns h ?h" by (simp add: same_fns_def)
  have ent: "hash_entries h = add_mset b (hash_entries ?h)"
  proof -
    have "hash_entries ?h = hash_entries h - mset ?c + mset (chain_unlink h key ?c)"
      by (simp add: hash_entries_def concat_update_mset i)
    then have "add_mset b (hash_entries ?h) =
        hash_entries h - mset ?c + add_mset b (mset (chain_unlink h key ?c))"
      by (simp only: union_mset_add_mset_right)
    also have "\<dots> = hash_entries h - mset ?c + mset ?c"
      by (simp only: mset_chain_unlink [OF Some])
    also have "\<dots> = hash_entries h"
      using mset_nth_concat [OF i] by (simp add: hash_entries_def)
    finally show ?thesis by (rule sym)
  qed
  have tok: "table_ok h ?t (uSize h)"
    using inv set_chain_unlink [of h key ?c] i
    by (auto simp: hash_inv_def table_ok_def nth_list_update)
  define E where "E = hash_entries ?h"
  have cnt: "uCount ?h = of_nat (size E)"
    using inv ent by (simp add: hash_inv_def E_def [symmetric])
  have inv1: "hash_inv ?h"
    using inv tok cnt unfolding hash_inv_def same_fns_simps [OF fns] E_def [symmetric] by simp
  have fr: "blocks ?s = hash_blocks ?h + F" if "blocks s = hash_blocks h + F" for F
    using that ent by (simp add: hash_blocks_def os_simps)
  show ?thesis
  proof (cases "uSize ?h > push_bit 2 (uCount ?h) \<and> uSize ?h > uMinimumSize ?h")
    case False
    with rem Some have r: "val = bucket_v b" "h' = ?h" "s' = ?s"
      by (auto simp: HASH_Remove_Extended_def Let_def)
    show ?thesis by (rule found [of b]) (use Some r inv1 fns ent fr in auto)
  next
    case small: True
    let ?n = "max (drop_bit 1 (uSize ?h)) (uMinimumSize ?h)"
    obtain c h2 s2 where rs: "Resize ?h ?n ?s = (c, h2, s2)" by (metis prod_cases3)
    with rem Some small have r: "val = bucket_v b" "h' = h2" "s' = s2"
      by (auto simp: HASH_Remove_Extended_def Let_def)
    have "uMinimumSize h \<noteq> 0" using inv by (simp add: hash_inv_def)
    then have ne: "?n \<noteq> 0 \<or> hash_entries ?h \<noteq> {#}"
      by (auto simp: max_def)
    note keep = Resize_keeps [OF inv1 ne rs]
    show ?thesis
      by (rule found [of b])
         (use Some r keep ent fns fr in \<open>auto intro: same_fns_trans\<close>)
  qed
qed


section \<open>The table as a map\<close>

definition hash_map :: "HASH_TABLE \<Rightarrow> IMG_UINTPTR_T list \<rightharpoonup> IMG_UINTPTR_T" where
  "hash_map h key = (if key_ok h key then map_option bucket_v (find_key h key) else None)"

definition keys_unique :: "BUCKET multiset \<Rightarrow> bool" where
  "keys_unique E \<longleftrightarrow> (\<forall>key. size {#b \<in># E. bucket_k b = key#} \<le> 1)"

text \<open>What every client keeps true: no key twice, and 0 is no value (it means "not found").\<close>

definition hash_ok :: "HASH_TABLE \<Rightarrow> bool" where
  "hash_ok h \<longleftrightarrow>
     hash_inv h \<and> keys_unique (hash_entries h) \<and> (\<forall>b \<in># hash_entries h. bucket_v b \<noteq> 0)"

lemma hash_okD: "hash_ok h \<Longrightarrow> hash_inv h"
  by (simp add: hash_ok_def)

lemma keys_unique_eq:
  assumes u: "keys_unique E" and "b \<in># E" "c \<in># E" "bucket_k b = bucket_k c"
  shows "b = c"
proof (rule ccontr)
  assume "b \<noteq> c"
  then have "{#b, c#} \<subseteq># {#x \<in># E. bucket_k x = bucket_k b#}"
    using assms(2-4) by (auto simp: insert_subset_eq_iff in_diff_count)
  from size_mset_mono [OF this] u show False by (auto simp: keys_unique_def dest: spec [of _ "bucket_k b"])
qed

lemma keys_unique_add:
  "keys_unique (add_mset b E) \<longleftrightarrow> keys_unique E \<and> (\<forall>c \<in># E. bucket_k c \<noteq> bucket_k b)"
proof
  assume u: "keys_unique (add_mset b E)"
  have "size {#x \<in># E. bucket_k x = bucket_k b#} = 0"
    using spec [OF u [unfolded keys_unique_def], of "bucket_k b"] by simp
  then have "\<forall>c \<in># E. bucket_k c \<noteq> bucket_k b" by (auto simp: filter_mset_empty)
  moreover have "keys_unique E"
    unfolding keys_unique_def
  proof
    fix key
    have "size {#x \<in># E. bucket_k x = key#} \<le> size {#x \<in># add_mset b E. bucket_k x = key#}"
      by (intro size_mset_mono multiset_filter_mono) simp
    then show "size {#x \<in># E. bucket_k x = key#} \<le> 1"
      using spec [OF u [unfolded keys_unique_def], of key] by linarith
  qed
  ultimately show "keys_unique E \<and> (\<forall>c \<in># E. bucket_k c \<noteq> bucket_k b)" by blast
next
  assume a: "keys_unique E \<and> (\<forall>c \<in># E. bucket_k c \<noteq> bucket_k b)"
  then have e: "{#x \<in># E. bucket_k x = bucket_k b#} = {#}" by (auto simp: filter_mset_empty)
  show "keys_unique (add_mset b E)"
    unfolding keys_unique_def using a e by (auto simp: keys_unique_def)
qed

lemma hash_map_eq_Some:
  assumes "hash_ok h"
  shows "hash_map h key = Some v \<longleftrightarrow> (\<exists>b \<in># hash_entries h. bucket_k b = key \<and> bucket_v b = v)"
proof
  assume "hash_map h key = Some v"
  with find_key_Some [OF hash_okD [OF assms], of key] show
    "\<exists>b \<in># hash_entries h. bucket_k b = key \<and> bucket_v b = v"
    by (auto simp: hash_map_def split: if_splits)
next
  assume "\<exists>b \<in># hash_entries h. bucket_k b = key \<and> bucket_v b = v"
  then obtain b where b: "b \<in># hash_entries h" "bucket_k b = key" "bucket_v b = v" by blast
  note inv = hash_okD [OF assms]
  from hash_inv_keys [OF inv b(1)] b have k: "key_ok h key" by simp
  from find_key_present [OF inv k] b obtain c where c: "find_key h key = Some c" by auto
  from find_key_Some [OF inv k c] have "c \<in># hash_entries h" "bucket_k c = bucket_k b"
    using b by auto
  then have "c = b" using keys_unique_eq b(1) assms by (auto simp: hash_ok_def)
  with b c k show "hash_map h key = Some v" by (simp add: hash_map_def)
qed

lemma hash_map_nonzero: "hash_ok h \<Longrightarrow> hash_map h key \<noteq> Some 0"
  by (auto simp: hash_map_eq_Some hash_ok_def)

lemma hash_map_cong:
  assumes "hash_ok h" "hash_ok h'"
    and "\<And>v. (\<exists>b \<in># hash_entries h'. bucket_k b = key \<and> bucket_v b = v) \<longleftrightarrow> m = Some v"
  shows "hash_map h' key = m"
  using assms(3) hash_map_eq_Some [OF assms(2), of key] by (metis option.exhaust)

lemma hash_map_None:
  "hash_ok h \<Longrightarrow> hash_map h key = None \<longleftrightarrow> (\<forall>b \<in># hash_entries h. bucket_k b \<noteq> key)"
  using hash_map_eq_Some [of h key] by (metis option.exhaust option.distinct(1))

lemma HASH_Retrieve_map:
  "hash_ok h \<Longrightarrow> key_ok h key \<Longrightarrow>
     HASH_Retrieve_Extended h key = (case hash_map h key of None \<Rightarrow> 0 | Some v \<Rightarrow> v)"
  by (simp add: HASH_Retrieve_Extended_def hash_map_def split: option.splits)

lemma hash_insert_map:
  assumes ok: "hash_ok h" and key: "key_ok h key" and new: "hash_map h key = None" and v: "v \<noteq> 0"
    and ins: "HASH_Insert_Extended h key v s = (True, h', s')"
  shows "hash_ok h'" "hash_map h' = (hash_map h)(key \<mapsto> v)" "key_ok h' = key_ok h"
    "blocks s = hash_blocks h + F \<Longrightarrow> blocks s' = hash_blocks h' + F"
proof -
  note inv = hash_okD [OF ok]
  from inv key ins obtain p where r: "hash_inv h'" "same_fns h h'"
      "hash_entries h' = add_mset \<lparr>pBucket = p, bucket_v = v, bucket_k = key\<rparr> (hash_entries h)"
      "\<And>F. blocks s = hash_blocks h + F \<Longrightarrow> blocks s' = hash_blocks h' + F"
    by (cases rule: HASH_Insert_Extended_cases) auto
  from new have fresh: "\<forall>b \<in># hash_entries h. bucket_k b \<noteq> key" by (simp add: hash_map_None [OF ok])
  show ok': "hash_ok h'" using ok v fresh by (simp add: hash_ok_def r keys_unique_add)
  show "key_ok h' = key_ok h" using same_fns_simps [OF r(2)] by simp
  show "hash_map h' = (hash_map h)(key \<mapsto> v)"
  proof
    fix k
    show "hash_map h' k = ((hash_map h)(key \<mapsto> v)) k"
      by (rule hash_map_cong [OF ok ok'])
         (use fresh hash_map_eq_Some [OF ok, of k] in \<open>auto simp: r\<close>)
  qed
  show "blocks s = hash_blocks h + F \<Longrightarrow> blocks s' = hash_blocks h' + F" by (rule r)
qed

lemma hash_remove_map:
  assumes ok: "hash_ok h" and key: "key_ok h key"
    and rem: "HASH_Remove_Extended h key s = (v, h', s')"
  shows "hash_ok h'" "hash_map h' = (hash_map h)(key := None)" "key_ok h' = key_ok h"
    "v = HASH_Retrieve_Extended h key"
    "blocks s = hash_blocks h + F \<Longrightarrow> blocks s' = hash_blocks h' + F"
proof -
  note inv = hash_okD [OF ok]
  have "hash_ok h' \<and> hash_map h' = (hash_map h)(key := None) \<and> key_ok h' = key_ok h \<and>
     v = HASH_Retrieve_Extended h key \<and>
     (blocks s = hash_blocks h + F \<longrightarrow> blocks s' = hash_blocks h' + F)"
    using inv key rem
  proof (cases rule: HASH_Remove_Extended_cases)
    case absent
    then have "hash_map h key = None" by (simp add: hash_map_def)
    with absent ok show ?thesis by (auto simp: HASH_Retrieve_Extended_def)
  next
    case (found b)
    from find_key_Some [OF inv key found(1)] have b: "bucket_k b = key" by simp
    have ok': "hash_ok h'"
      using ok found(3,6) by (simp add: hash_ok_def keys_unique_add)
    have gone: "\<forall>c \<in># hash_entries h'. bucket_k c \<noteq> key"
      using ok found(6) b by (simp add: hash_ok_def keys_unique_add)
    have "hash_map h' = (hash_map h)(key := None)"
    proof
      fix k
      show "hash_map h' k = ((hash_map h)(key := None)) k"
        by (rule hash_map_cong [OF ok ok'])
           (use gone b hash_map_eq_Some [OF ok, of k] found(6) in auto)
    qed
    with found ok' same_fns_simps [OF found(4)] show ?thesis
      by (simp add: HASH_Retrieve_Extended_def)
  qed
  then show "hash_ok h'" "hash_map h' = (hash_map h)(key := None)" "key_ok h' = key_ok h"
    "v = HASH_Retrieve_Extended h key"
    "blocks s = hash_blocks h + F \<Longrightarrow> blocks s' = hash_blocks h' + F" by blast+
qed


section \<open>The contract for clients\<close>

text \<open>What the handle table, the arena and the per-process table rely on: a partial map from keys to
  non-zero values, insertion that either adds the binding or changes nothing, and exact memory
  accounting (\<open>owned\<close> are the heap blocks of the table, \<open>mem\<close> all live blocks).\<close>

locale hash_store =
  fixes retrieve :: "'h \<Rightarrow> 'k \<Rightarrow> 'v::zero"
    and insert :: "'h \<Rightarrow> 'k \<Rightarrow> 'v \<Rightarrow> 'm \<Rightarrow> bool \<times> 'h \<times> 'm"
    and remove :: "'h \<Rightarrow> 'k \<Rightarrow> 'm \<Rightarrow> 'v \<times> 'h \<times> 'm"
    and invar :: "'h \<Rightarrow> bool"
    and good :: "'h \<Rightarrow> 'k \<Rightarrow> bool"
    and lookup :: "'h \<Rightarrow> 'k \<rightharpoonup> 'v"
    and owned :: "'h \<Rightarrow> 'a multiset"
    and mem :: "'m \<Rightarrow> 'a multiset"
  assumes retrieve_law: "invar h \<Longrightarrow> good h k \<Longrightarrow>
      retrieve h k = (case lookup h k of None \<Rightarrow> 0 | Some v \<Rightarrow> v)"
    and nonzero: "invar h \<Longrightarrow> lookup h k \<noteq> Some 0"
    and insert_law: "invar h \<Longrightarrow> good h k \<Longrightarrow> lookup h k = None \<Longrightarrow> v \<noteq> 0 \<Longrightarrow>
      insert h k v m = (True, h', m') \<Longrightarrow>
      invar h' \<and> lookup h' = (lookup h)(k \<mapsto> v) \<and> good h' = good h"
    and insert_fail: "invar h \<Longrightarrow> good h k \<Longrightarrow> insert h k v m = (False, h', m') \<Longrightarrow>
      h' = h \<and> mem m' = mem m"
    and insert_frame: "invar h \<Longrightarrow> good h k \<Longrightarrow> lookup h k = None \<Longrightarrow> v \<noteq> 0 \<Longrightarrow>
      insert h k v m = (b, h', m') \<Longrightarrow> mem m = owned h + F \<Longrightarrow> mem m' = owned h' + F"
    and remove_law: "invar h \<Longrightarrow> good h k \<Longrightarrow> remove h k m = (v, h', m') \<Longrightarrow>
      invar h' \<and> lookup h' = (lookup h)(k := None) \<and> good h' = good h \<and> v = retrieve h k"
    and remove_frame: "invar h \<Longrightarrow> good h k \<Longrightarrow> remove h k m = (v, h', m') \<Longrightarrow>
      mem m = owned h + F \<Longrightarrow> mem m' = owned h' + F"
begin

lemma retrieve_eq_0: "invar h \<Longrightarrow> good h k \<Longrightarrow> retrieve h k = 0 \<longleftrightarrow> lookup h k = None"
  using nonzero [of h k] by (auto simp: retrieve_law split: option.splits)

lemma retrieve_iff: "invar h \<Longrightarrow> good h k \<Longrightarrow> v \<noteq> 0 \<Longrightarrow> retrieve h k = v \<longleftrightarrow> lookup h k = Some v"
  by (auto simp: retrieve_law split: option.splits)

lemma insert_retrieve:
  assumes "invar h" "good h k" "good h k'" "retrieve h k = 0" "v \<noteq> 0"
    "insert h k v m = (True, h', m')"
  shows "retrieve h' k' = (if k' = k then v else retrieve h k')"
proof -
  have "lookup h k = None" using assms retrieve_eq_0 by blast
  from insert_law [OF assms(1,2) this assms(5,6)] assms(1,3) show ?thesis
    by (simp add: retrieve_law)
qed

lemma remove_retrieve:
  assumes "invar h" "good h k" "good h k'" "remove h k m = (v, h', m')"
  shows "v = retrieve h k" "retrieve h' k' = (if k' = k then 0 else retrieve h k')"
  using remove_law [OF assms(1,2,4)] assms(1,3) by (auto simp: retrieve_law)

lemma insert_remove_roundtrip:
  assumes "invar h" "good h k" "retrieve h k = 0" "v \<noteq> 0"
    "insert h k v m = (True, h1, m1)" "remove h1 k m1 = (w, h2, m2)"
  shows "w = v" "lookup h2 = lookup h" "mem m = owned h + F \<Longrightarrow> mem m2 = owned h2 + F"
proof -
  have n: "lookup h k = None" using assms retrieve_eq_0 by blast
  note i = insert_law [OF assms(1,2) n assms(4,5)]
  then have i1: "invar h1" and g1: "good h1 k" using assms by auto
  note r = remove_law [OF i1 g1 assms(6)]
  show "w = v" using r i i1 g1 by (simp add: retrieve_law)
  show "lookup h2 = lookup h" using r i n by (simp add: fun_upd_idem)
  show "mem m = owned h + F \<Longrightarrow> mem m2 = owned h2 + F"
    using insert_frame [OF assms(1,2) n assms(4,5)] remove_frame [OF i1 g1 assms(6)] by blast
qed

end

interpretation ht: hash_store HASH_Retrieve_Extended HASH_Insert_Extended HASH_Remove_Extended
  hash_ok key_ok hash_map hash_blocks blocks
proof unfold_locales
  fix h k v s b h' s' F
  assume ok: "hash_ok h" and k: "key_ok h k" and n: "hash_map h k = None" and v: "v \<noteq> 0"
    and i: "HASH_Insert_Extended h k v s = (b, h', s')" and F: "blocks s = hash_blocks h + F"
  from hash_okD [OF ok] k i show "blocks s' = hash_blocks h' + F"
    by (cases rule: HASH_Insert_Extended_cases) (simp_all add: F)
next
  fix h k v s h' s'
  assume ok: "hash_ok h" and k: "key_ok h k"
    and i: "HASH_Insert_Extended h k v s = (False, h', s')"
  from hash_okD [OF ok] k i show "h' = h \<and> blocks s' = blocks s"
    by (cases rule: HASH_Insert_Extended_cases) simp_all
next
  fix h k v s h' s'
  assume "hash_ok h" "key_ok h k" "hash_map h k = None" "v \<noteq> 0"
    "HASH_Insert_Extended h k v s = (True, h', s')"
  note r = hash_insert_map [OF this]
  show "hash_ok h' \<and> hash_map h' = (hash_map h)(k \<mapsto> v) \<and> key_ok h' = key_ok h"
    using r(1-3) by blast
next
  fix h k v s h' s' F
  assume "hash_ok h" "key_ok h k" "HASH_Remove_Extended h k s = (v, h', s')"
  note r = hash_remove_map [OF this]
  show "hash_ok h' \<and> hash_map h' = (hash_map h)(k := None) \<and> key_ok h' = key_ok h \<and>
      v = HASH_Retrieve_Extended h k"
    using r(1-4) by blast
  show "blocks s = hash_blocks h + F \<Longrightarrow> blocks s' = hash_blocks h' + F" by (rule r)
qed (fact HASH_Retrieve_map hash_map_nonzero)+

section \<open>Creation and deletion\<close>

lemma Resize_os_ok: "Resize h n s = (b, h', s') \<Longrightarrow> os_ok s \<Longrightarrow> os_ok s'"
  by (auto simp: Resize_def Let_def OSFreeMem_os_ok split: if_splits prod.splits dest: OSAllocMem_os_ok)

lemma HASH_Insert_Extended_os_ok: "HASH_Insert_Extended h k v s = (b, h', s') \<Longrightarrow> os_ok s \<Longrightarrow> os_ok s'"
  by (auto simp: HASH_Insert_Extended_def Let_def OSFreeMem_os_ok split: if_splits prod.splits
      dest: OSAllocMem_os_ok Resize_os_ok)

lemma HASH_Remove_Extended_os_ok: "HASH_Remove_Extended h k s = (v, h', s') \<Longrightarrow> os_ok s \<Longrightarrow> os_ok s'"
  by (auto simp: HASH_Remove_Extended_def Let_def OSFreeMem_os_ok split: if_splits prod.splits option.splits
      dest: Resize_os_ok)

lemma HASH_Create_os_ok: "HASH_Create n s = (r, s') \<Longrightarrow> os_ok s \<Longrightarrow> os_ok s'"
  by (auto simp: HASH_Create_def HASH_Create_Extended_def Let_def OSFreeMem_os_ok split: if_splits prod.splits
      dest: OSAllocMem_os_ok)

text \<open>The contract extended by the health of the memory: clients that allocate blocks of their own
  rely on the table never handing out or freeing a block twice.\<close>

locale hash_store_mem = hash_store +
  fixes mem_ok :: "'b \<Rightarrow> bool"
  assumes insert_mem_ok: "insert h k v m = (b, h', m') \<Longrightarrow> mem_ok m \<Longrightarrow> mem_ok m'"
    and remove_mem_ok: "remove h k m = (v, h', m') \<Longrightarrow> mem_ok m \<Longrightarrow> mem_ok m'"
begin

lemma insert_client:
  assumes "invar h" "good h k" "lookup h k = None" "v \<noteq> 0" "insert h k v m = (b, h', m')"
    and "mem m = owned h + F" "mem_ok m"
  shows "mem m' = owned h' + F \<and> mem_ok m' \<and> invar h' \<and> good h' = good h \<and>
         lookup h' = (if b then (lookup h)(k \<mapsto> v) else lookup h)"
  using assms insert_frame insert_mem_ok insert_law [of h k v m h' m'] insert_fail [of h k v m h' m']
  by (cases b) auto

lemma remove_client:
  assumes "invar h" "good h k" "remove h k m = (v, h', m')" "mem m = owned h + F" "mem_ok m"
  shows "mem m' = owned h' + F \<and> mem_ok m' \<and> invar h' \<and> good h' = good h \<and>
         lookup h' = (lookup h)(k := None) \<and> v = (case lookup h k of None \<Rightarrow> 0 | Some w \<Rightarrow> w)"
  using assms remove_frame remove_mem_ok remove_law [of h k m v h' m'] retrieve_law by auto

end

interpretation htm: hash_store_mem HASH_Retrieve_Extended HASH_Insert_Extended HASH_Remove_Extended
  hash_ok key_ok hash_map hash_blocks blocks os_ok
  by unfold_locales (auto intro: HASH_Insert_Extended_os_ok HASH_Remove_Extended_os_ok)

lemma key_comp_loop_eq: "length k1 = n \<Longrightarrow> length k2 = n \<Longrightarrow> key_comp_loop n k1 k2 = (k1 = k2)"
  by (induction n k1 k2 rule: key_comp_loop.induct) auto

lemma comp_ok_default: "pfnKeyComp h = HASH_Key_Comp_Default \<Longrightarrow> comp_ok h"
  by (simp add: comp_ok_def KEY_COMPARE_def HASH_Key_Comp_Default_def key_comp_loop_eq key_ok_def)

lemma HASH_Create_Extended_cases:
  assumes r: "HASH_Create_Extended n ks f HASH_Key_Comp_Default s = (r, s')" and n: "n \<noteq> 0"
  obtains
    (oom) "r = None" "blocks s' = blocks s"
  | (created) h where "r = Some h" "hash_ok h" "hash_map h = Map.empty" "uKeySize h = ks"
      "hash_entries h = {#}" "blocks s' = hash_blocks h + blocks s"
proof -
  obtain e p s1 where a1: "OSAllocMem sizeof_HASH_TABLE s = (e, p, s1)" by (metis prod_cases3)
  obtain e2 q s2 where a2: "OSAllocMem (8 * n) s1 = (e2, q, s2)" by (metis prod_cases3)
  note b1 = OSAllocMem_ok_iff [OF a1] OSAllocMem_blocks [OF a1]
  note b2 = OSAllocMem_blocks [OF a2]
  show ?thesis
  proof (cases "e = PVRSRV_OK \<and> q \<noteq> IMG_NULL")
    case False
    with r a1 a2 have "r = None" by (auto simp: HASH_Create_Extended_def split: if_splits)
    moreover have "blocks s' = blocks s"
      using False r a1 a2 b1 b2 by (auto simp: HASH_Create_Extended_def os_simps split: if_splits)
    ultimately show ?thesis by (rule oom)
  next
    case True
    define h where "h = \<lparr>pHash = p, pTable = q, ppBucketTable = replicate (unat n) [],
        uSize = n, uCount = 0, uMinimumSize = n, uKeySize = ks, pfnHashFunc = f,
        pfnKeyComp = HASH_Key_Comp_Default\<rparr>"
    have ent: "hash_entries h = {#}" by (simp add: h_def hash_entries_def)
    have "hash_inv h"
      using n by (simp add: hash_inv_def ent comp_ok_default)
                 (simp add: h_def table_ok_replicate comp_ok_default)
    then have ok: "hash_ok h" by (simp add: hash_ok_def ent keys_unique_def)
    show ?thesis
    proof (rule created)
      show "r = Some h" using True r a1 a2 by (simp add: HASH_Create_Extended_def h_def)
      show "hash_ok h" by (rule ok)
      show "hash_map h = Map.empty" using hash_map_None [OF ok] ent by auto
      show "uKeySize h = ks" by (simp add: h_def)
      show "hash_entries h = {#}" by (rule ent)
      have "s' = s2" using True r a1 a2 by (simp add: HASH_Create_Extended_def)
      then show "blocks s' = hash_blocks h + blocks s"
        using True b1 b2 by (simp add: hash_blocks_def ent) (simp add: h_def add_mset_commute)
    qed
  qed
qed


section \<open>Properties\<close>

text \<open>A two-bucket table and a heap with four blocks to hand out, for the examples.\<close>

definition ex_table :: HASH_TABLE where
  "ex_table = \<lparr>pHash = 0x100, pTable = 0x200, ppBucketTable = [[], []], uSize = 2, uCount = 0,
     uMinimumSize = 2, uKeySize = 8, pfnHashFunc = HASH_Func_Default,
     pfnKeyComp = HASH_Key_Comp_Default\<rparr>"

definition ex_os :: os where
  "ex_os = \<lparr>os_allocs = [0x300, 0x400, 0x500, 0x600], os_live = [0x100, 0x200]\<rparr>"

lemma ex_table_entries [simp]: "hash_entries ex_table = {#}"
  by (simp add: ex_table_def hash_entries_def)

lemma ex_table_ok [simp]: "hash_ok ex_table"
proof -
  have "comp_ok ex_table" by (simp add: comp_ok_default ex_table_def)
  moreover have "table_ok ex_table (ppBucketTable ex_table) (uSize ex_table)"
    by (auto simp: table_ok_def ex_table_def less_Suc_eq nth_Cons')
  ultimately show ?thesis by (simp add: hash_ok_def hash_inv_def keys_unique_def)
                            (simp add: ex_table_def)
qed

lemma ex_table_key [simp]: "key_ok ex_table [k]"
  by (simp add: key_ok_def uKeyLen_def ex_table_def)

lemma ex_insert: "fst (HASH_Insert_Extended ex_table [5] 7 ex_os) = True"
  by code_simp

text \<open>C1: Inserting under a key that is not in the table either reports failure and leaves the
  table as it was, or reports success and afterwards a retrieval of that key returns the new value
  while every other key returns what it did before, whether or not the insertion made the table
  grow and rehash (or failed to grow for lack of memory).\<close>

theorem hash_insert_refines:
  assumes "hash_ok h" "key_ok h key" "HASH_Retrieve_Extended h key = 0" "v \<noteq> 0"
    and "HASH_Insert_Extended h key v s = (b, h', s')"
  shows "hash_ok h' \<and> (\<not> b \<longrightarrow> h' = h) \<and>
    (\<forall>k. key_ok h k \<longrightarrow> HASH_Retrieve_Extended h' k =
       (if b \<and> k = key then v else HASH_Retrieve_Extended h k))"
proof (cases b)
  case True
  have "hash_map h key = None" using assms ht.retrieve_eq_0 by blast
  with assms True ht.insert_law [of h key v s h' s'] ht.insert_retrieve [of h key _ v s h' s']
  show ?thesis by auto
next
  case False
  with assms ht.insert_fail [of h key v s h' s'] show ?thesis by auto
qed

theorem hash_insert_refines_witness:
  "HASH_Retrieve_Extended (fst (snd (HASH_Insert_Extended ex_table [5] 7 ex_os))) [5] = 7"
proof -
  obtain b h' s' where r: "HASH_Insert_Extended ex_table [5] 7 ex_os = (b, h', s')"
    by (metis prod_cases3)
  with ex_insert have "b" by simp
  moreover have "HASH_Retrieve_Extended ex_table [5] = 0" by code_simp
  ultimately show ?thesis using hash_insert_refines [OF ex_table_ok ex_table_key _ _ r] r by simp
qed

text \<open>C6: Removing a key returns the value a retrieval would have returned (0 if there is none);
  afterwards the key is not found and every other key is unaffected, even when the removal makes
  the table shrink and rehash.\<close>

theorem hash_remove_refines:
  assumes "hash_ok h" "key_ok h key" and "HASH_Remove_Extended h key s = (v, h', s')"
  shows "hash_ok h' \<and> v = HASH_Retrieve_Extended h key \<and>
    (\<forall>k. key_ok h k \<longrightarrow> HASH_Retrieve_Extended h' k =
       (if k = key then 0 else HASH_Retrieve_Extended h k))"
  using assms ht.remove_law [OF assms] ht.remove_retrieve [OF assms(1,2) _ assms(3)] by auto

theorem hash_remove_refines_witness:
  "fst (HASH_Remove_Extended (fst (snd (HASH_Insert_Extended ex_table [5] 7 ex_os))) [5] ex_os) = 7"
proof -
  obtain b h' s' where r: "HASH_Insert_Extended ex_table [5] 7 ex_os = (b, h', s')"
    by (metis prod_cases3)
  with ex_insert have "b" by simp
  have z: "HASH_Retrieve_Extended ex_table [5] = 0" by code_simp
  have h': "hash_ok h'" "key_ok h' [5]" "HASH_Retrieve_Extended h' [5] = 7"
    using ht.insert_law [of ex_table "[5]" 7 ex_os h' s'] ht.insert_retrieve [of ex_table "[5]" "[5]"]
      \<open>b\<close> r z ht.retrieve_eq_0 [of ex_table "[5]"] by auto
  obtain v h2 s2 where "HASH_Remove_Extended h' [5] ex_os = (v, h2, s2)" by (metis prod_cases3)
  with hash_remove_refines [OF h'(1,2) this] h'(3) r show ?thesis by simp
qed

text \<open>C7: The table, duplicate keys included, is a multiset of (key, value) pairs: insertion adds
  exactly one pair or changes nothing, removal takes away exactly one pair with the given key if
  there is one and changes nothing otherwise, and the entry counter and the placement of every
  bucket stay right through growing, shrinking and failed resizes.\<close>

theorem hash_multiset:
  assumes "hash_inv h" "key_ok h key"
    and "HASH_Insert_Extended h key v s = (b, hi, si)"
    and "HASH_Remove_Extended h key s = (w, hr, sr)"
  shows "hash_inv hi \<and> hash_inv hr \<and>
    hash_pairs hi = (if b then add_mset (key, v) (hash_pairs h) else hash_pairs h) \<and>
    (if \<exists>x. (key, x) \<in># hash_pairs h
     then (key, w) \<in># hash_pairs h \<and> hash_pairs hr = hash_pairs h - {#(key, w)#}
     else w = 0 \<and> hr = h)"
proof -
  have present: "(\<exists>x. (key, x) \<in># hash_pairs h) \<longleftrightarrow> find_key h key \<noteq> None"
    using find_key_present [OF assms(1,2)] by (auto simp: hash_pairs_def pair_of_def)
  have "hash_inv hi \<and> hash_pairs hi = (if b then add_mset (key, v) (hash_pairs h) else hash_pairs h)"
    using assms(1,2,3)
    by (cases rule: HASH_Insert_Extended_cases) (simp_all add: assms(1) hash_pairs_def pair_of_def)
  moreover have "hash_inv hr \<and> (if find_key h key \<noteq> None
     then (key, w) \<in># hash_pairs h \<and> hash_pairs hr = hash_pairs h - {#(key, w)#}
     else w = 0 \<and> hr = h)"
    using assms(1,2,4)
  proof (cases rule: HASH_Remove_Extended_cases)
    case absent
    with assms(1) show ?thesis by simp
  next
    case (found x)
    with find_key_Some [OF assms(1,2) found(1)] show ?thesis by (simp add: hash_pairs_def pair_of_def)
  qed
  ultimately show ?thesis unfolding present by blast
qed

theorem hash_multiset_witness:
  "hash_pairs (fst (snd (HASH_Insert_Extended ex_table [5] 7 ex_os))) = {#([5], 7)#}"
proof -
  obtain b hi si where i: "HASH_Insert_Extended ex_table [5] 7 ex_os = (b, hi, si)"
    by (metis prod_cases3)
  obtain w hr sr where r: "HASH_Remove_Extended ex_table [5] ex_os = (w, hr, sr)"
    by (metis prod_cases3)
  have "b" using ex_insert i by simp
  then show ?thesis
    using hash_multiset [OF hash_okD [OF ex_table_ok] ex_table_key i r] i by (simp add: hash_pairs_def)
qed

text \<open>C8: No insertion or removal leaks or loses memory: if the blocks in use are those of the table
  and a remainder F, then afterwards they are those of the new table and the same F, on every
  branch, including a failed allocation of the bucket or of the larger bucket array.\<close>

theorem hash_memory_exact:
  assumes "hash_inv h" "key_ok h key" "blocks s = hash_blocks h + F"
    and "HASH_Insert_Extended h key v s = (b, hi, si)"
    and "HASH_Remove_Extended h key s = (w, hr, sr)"
  shows "blocks si = hash_blocks hi + F \<and> blocks sr = hash_blocks hr + F"
proof
  show "blocks si = hash_blocks hi + F"
    using assms(1,2,4) by (cases rule: HASH_Insert_Extended_cases) (simp_all add: assms(3))
  show "blocks sr = hash_blocks hr + F"
    using assms(1,2,5) by (cases rule: HASH_Remove_Extended_cases) (simp_all add: assms(3))
qed

theorem hash_memory_exact_witness:
  "blocks (snd (snd (HASH_Insert_Extended ex_table [5] 7 ex_os))) =
     hash_blocks (fst (snd (HASH_Insert_Extended ex_table [5] 7 ex_os)))"
proof -
  have b: "blocks ex_os = hash_blocks ex_table + {#}"
    by (simp add: blocks_def hash_blocks_def) (simp add: ex_os_def ex_table_def)
  obtain c hi si where i: "HASH_Insert_Extended ex_table [5] 7 ex_os = (c, hi, si)"
    by (metis prod_cases3)
  obtain w hr sr where r: "HASH_Remove_Extended ex_table [5] ex_os = (w, hr, sr)"
    by (metis prod_cases3)
  from hash_memory_exact [OF hash_okD [OF ex_table_ok] ex_table_key b i r] i show ?thesis by simp
qed


text \<open>Creating a table of non-zero size gives an empty table on which every retrieval finds
  nothing, or nothing at all when memory runs out, in which case no block stays allocated; deleting
  the new table gives back exactly the memory it took.\<close>

theorem hash_create_delete:
  assumes "n \<noteq> 0" and "HASH_Create n s = (r, s')"
  shows "case r of None \<Rightarrow> blocks s' = blocks s
    | Some h \<Rightarrow> hash_ok h \<and> (\<forall>k. key_ok h [k] \<and> HASH_Retrieve h k = 0) \<and>
        blocks (HASH_Delete r s') = blocks s"
  using assms(2) [unfolded HASH_Create_def] assms(1)
proof (cases rule: HASH_Create_Extended_cases)
  case oom
  then show ?thesis by simp
next
  case (created h)
  have key: "key_ok h [k]" for k by (simp add: key_ok_def created uKeyLen_def)
  have "HASH_Retrieve h k = 0" for k
    using HASH_Retrieve_map [OF created(2) key] created(3) by (simp add: HASH_Retrieve_def)
  moreover have "blocks (HASH_Delete r s') = blocks s"
    by (simp add: HASH_Delete_def created os_simps hash_blocks_def)
  ultimately show ?thesis using created key by simp
qed

theorem hash_create_delete_witness:
  "blocks (HASH_Delete (fst (HASH_Create 2 ex_os)) (snd (HASH_Create 2 ex_os))) = blocks ex_os"
proof -
  obtain r s' where r: "HASH_Create 2 ex_os = (r, s')" by fastforce
  have "fst (HASH_Create 2 ex_os) \<noteq> None" by code_simp
  with hash_create_delete [OF _ r] r show ?thesis by (auto split: option.splits)
qed

lemma iterate_chains_concat: "iterate_chains pfn cs st = iterate_buckets pfn (concat cs) st"
proof (induction cs arbitrary: st)
  case Nil
  then show ?case by simp
next
  case (Cons c cs)
  have app: "iterate_buckets pfn (xs @ ys) st =
    (let (e, st') = iterate_buckets pfn xs st in
     if e \<noteq> PVRSRV_OK then (e, st') else iterate_buckets pfn ys st')" for xs ys st
    by (induction xs arbitrary: st) (auto simp: Let_def split: prod.splits)
  show ?case by (simp add: app Cons.IH Let_def split: prod.splits)
qed

lemma iterate_buckets_log:
  "iterate_buckets (\<lambda>k v st. (PVRSRV_OK, (k, v) # st)) bs st =
     (PVRSRV_OK, rev (map (\<lambda>b. (hd (bucket_k b), bucket_v b)) bs) @ st)"
  by (induction bs arbitrary: st) auto

text \<open>Iterating with a callback that never fails visits every entry of the table exactly once.\<close>

theorem hash_iterate_visits_all:
  assumes "hash_inv h"
  shows "\<exists>visited. HASH_Iterate h (\<lambda>k v st. (PVRSRV_OK, (k, v) # st)) [] = (PVRSRV_OK, visited) \<and>
    mset visited = image_mset (\<lambda>(key, v). (hd key, v)) (hash_pairs h)"
proof -
  have "take (unat (uSize h)) (ppBucketTable h) = ppBucketTable h"
    using assms by (simp add: hash_inv_def table_ok_def)
  then show ?thesis
    by (simp add: HASH_Iterate_def iterate_chains_concat iterate_buckets_log hash_pairs_def
        hash_entries_def pair_of_def multiset.map_comp comp_def)
qed

theorem hash_iterate_visits_all_witness:
  "\<exists>visited. HASH_Iterate ex_table (\<lambda>k v st. (PVRSRV_OK, (k, v) # st)) [] = (PVRSRV_OK, visited) \<and>
    mset visited = {#}"
  using hash_iterate_visits_all [OF hash_okD [OF ex_table_ok]] by (simp add: hash_pairs_def)

end
