(* ===== verification/Resource_Arena.thy ===== *)
theory Resource_Arena
  imports Hash_Table
begin

text \<open>
  The resource arenas of \<open>services4/srvkm/common/ra.c\<close>: the allocator of address ranges behind the
  device memory heaps. An arena is a list of segments in address order, each free, live or the
  marker of an imported span; thirty-two free lists by the logarithm of the size; and a hash table
  from the base of a live segment to its boundary tag.

  The segment list is a list of \<open>BT\<close> records, each with its address; a free list is a list of
  addresses, and a pointer to a boundary tag is its address. The functions that import and release
  spans of another arena, and that free backing store, are parameters stored in the arena, acting
  on a state \<open>'w\<close> of their own; so are the flags of a mapping, which belongs to the buffer manager.
  A call through a null function pointer, or through a pointer that is not on the segment list,
  sets \<open>ra_fault\<close>. The statistics (\<open>RA_STATS\<close>), the validation build and the proc entries of the
  debug build are not modelled.
\<close>

section \<open>Data\<close>

datatype bt_kind = btt_span | btt_free | btt_live

record BT =
  bt :: IMG_UINTPTR_T
  bt_type :: bt_kind
  bt_base :: IMG_UINTPTR_T
  bt_uSize :: IMG_SIZE_T
  bt_psMapping :: IMG_UINTPTR_T

type_synonym 'w import_alloc =
  "IMG_UINTPTR_T \<Rightarrow> IMG_SIZE_T \<Rightarrow> IMG_UINT32 \<Rightarrow> 'w \<Rightarrow> (bool \<times> IMG_SIZE_T \<times> IMG_UINTPTR_T \<times> IMG_UINTPTR_T) \<times> 'w"
type_synonym 'w import_free = "IMG_UINTPTR_T \<Rightarrow> IMG_UINTPTR_T \<Rightarrow> IMG_UINTPTR_T \<Rightarrow> 'w \<Rightarrow> 'w"
type_synonym 'w backing_free = "IMG_UINTPTR_T \<Rightarrow> IMG_SIZE_T \<Rightarrow> IMG_SIZE_T \<Rightarrow> 'w \<Rightarrow> 'w"

record 'w RA_ARENA =
  pArena :: IMG_UINTPTR_T
  uQuantum :: IMG_SIZE_T
  pImportAlloc :: "'w import_alloc"
  pImportFree :: "'w import_free option"
  pBackingStoreFree :: "'w backing_free option"
  pImportHandle :: IMG_UINTPTR_T
  aHeadFree :: "IMG_UINTPTR_T list list"
  segments :: "BT list"
  pSegmentHash :: HASH_TABLE
  mapping_flags :: "IMG_UINTPTR_T \<Rightarrow> IMG_UINT32"
  ra_os :: os
  ra_world :: 'w
  ra_fault :: bool

definition FREE_TABLE_LIMIT :: nat where "FREE_TABLE_LIMIT = 32"
definition MINIMUM_HASH_SIZE :: IMG_UINT32 where "MINIMUM_HASH_SIZE = 64"
definition sizeof_BT :: IMG_UINT32 where "sizeof_BT = 72"
definition sizeof_RA_ARENA :: IMG_UINT32 where "sizeof_RA_ARENA = 336"

abbreviation seg_at :: "IMG_UINTPTR_T \<Rightarrow> 'w RA_ARENA \<Rightarrow> BT option" where
  "seg_at p A \<equiv> List.find (\<lambda>b. bt b = p) (segments A)"

section \<open>Operations\<close>

definition RequestAllocFail :: "'w import_alloc" where
  "RequestAllocFail h sz uFlags w = ((False, sz, IMG_NULL, 0), w)"

function log2_loop :: "IMG_SIZE_T \<Rightarrow> nat \<Rightarrow> nat" where
  "log2_loop n l = (if n > 0 then log2_loop (drop_bit 1 n) (l + 1) else l)"
  by pat_completeness auto
termination
  by (relation "measure (\<lambda>(n, l). unat n)") (auto simp: drop_bit_eq_div unat_div unat_gt_0)

declare log2_loop.simps [simp del]

definition pvr_log2 :: "IMG_SIZE_T \<Rightarrow> nat" where
  "pvr_log2 n = log2_loop (drop_bit 1 n) 0"

fun insert_after :: "IMG_UINTPTR_T \<Rightarrow> BT \<Rightarrow> BT list \<Rightarrow> BT list" where
  "insert_after p b [] = []"
| "insert_after p b (x # xs) = (if bt x = p then x # b # xs else x # insert_after p b xs)"

definition SegmentListInsertAfter ::
  "IMG_UINTPTR_T \<Rightarrow> BT \<Rightarrow> 'w RA_ARENA \<Rightarrow> PVRSRV_ERROR \<times> 'w RA_ARENA" where
  "SegmentListInsertAfter pInsertionPoint b A =
     (if pInsertionPoint = IMG_NULL then (PVRSRV_ERROR_INVALID_PARAMS, A)
      else (PVRSRV_OK, A\<lparr>segments := insert_after pInsertionPoint b (segments A)\<rparr>))"

text \<open>The scan from the head to the last segment whose successor does not start at or below the new
  base.\<close>

fun segment_scan :: "IMG_UINTPTR_T \<Rightarrow> BT list \<Rightarrow> IMG_UINTPTR_T" where
  "segment_scan base [] = IMG_NULL"
| "segment_scan base [x] = bt x"
| "segment_scan base (x # y # ys) = (if base \<ge> bt_base y then segment_scan base (y # ys) else bt x)"

definition SegmentListInsert :: "BT \<Rightarrow> 'w RA_ARENA \<Rightarrow> PVRSRV_ERROR \<times> 'w RA_ARENA" where
  "SegmentListInsert b A =
     (case segments A of
        [] \<Rightarrow> (PVRSRV_OK, A\<lparr>segments := [b]\<rparr>)
      | x # xs \<Rightarrow>
          if bt_base b < bt_base x then (PVRSRV_OK, A\<lparr>segments := b # x # xs\<rparr>)
          else SegmentListInsertAfter (segment_scan (bt_base b) (x # xs)) b A)"

definition SegmentListRemove :: "IMG_UINTPTR_T \<Rightarrow> 'w RA_ARENA \<Rightarrow> 'w RA_ARENA" where
  "SegmentListRemove p A = A\<lparr>segments := filter (\<lambda>b. bt b \<noteq> p) (segments A)\<rparr>"

fun split_segment :: "IMG_UINTPTR_T \<Rightarrow> IMG_SIZE_T \<Rightarrow> IMG_UINTPTR_T \<Rightarrow> BT list \<Rightarrow> BT list" where
  "split_segment p sz q [] = []"
| "split_segment p sz q (x # xs) =
     (if bt x = p then
        x\<lparr>bt_uSize := sz\<rparr>
        # \<lparr>bt = q, bt_type = btt_free, bt_base = bt_base x + ucast sz,
           bt_uSize = bt_uSize x - sz, bt_psMapping = bt_psMapping x\<rparr>
        # xs
      else x # split_segment p sz q xs)"

definition SegmentSplit ::
  "IMG_UINTPTR_T \<Rightarrow> IMG_SIZE_T \<Rightarrow> 'w RA_ARENA \<Rightarrow> IMG_UINTPTR_T \<times> 'w RA_ARENA" where
  "SegmentSplit p sz A =
     (let (eError, q, os') = OSAllocMem sizeof_BT (ra_os A);
          A1 = A\<lparr>ra_os := os'\<rparr>
      in if eError \<noteq> PVRSRV_OK then (IMG_NULL, A1)
         else (q, A1\<lparr>segments := split_segment p sz q (segments A1)\<rparr>))"

definition FreeListInsert :: "IMG_UINTPTR_T \<Rightarrow> 'w RA_ARENA \<Rightarrow> 'w RA_ARENA" where
  "FreeListInsert p A =
     (case seg_at p A of
        None \<Rightarrow> A\<lparr>ra_fault := True\<rparr>
      | Some b \<Rightarrow>
          (let uIndex = pvr_log2 (bt_uSize b)
           in A\<lparr>segments := map (\<lambda>x. if bt x = p then x\<lparr>bt_type := btt_free\<rparr> else x) (segments A),
                aHeadFree := (aHeadFree A)[uIndex := p # aHeadFree A ! uIndex]\<rparr>))"

definition FreeListRemove :: "IMG_UINTPTR_T \<Rightarrow> 'w RA_ARENA \<Rightarrow> 'w RA_ARENA" where
  "FreeListRemove p A =
     (case seg_at p A of
        None \<Rightarrow> A\<lparr>ra_fault := True\<rparr>
      | Some b \<Rightarrow>
          (let uIndex = pvr_log2 (bt_uSize b)
           in A\<lparr>aHeadFree := (aHeadFree A)[uIndex := remove1 p (aHeadFree A ! uIndex)]\<rparr>))"

definition BuildSpanMarker ::
  "IMG_UINTPTR_T \<Rightarrow> IMG_SIZE_T \<Rightarrow> 'w RA_ARENA \<Rightarrow> BT option \<times> 'w RA_ARENA" where
  "BuildSpanMarker base sz A =
     (let (eError, p, os') = OSAllocMem sizeof_BT (ra_os A);
          A1 = A\<lparr>ra_os := os'\<rparr>
      in if eError \<noteq> PVRSRV_OK then (None, A1)
         else (Some \<lparr>bt = p, bt_type = btt_span, bt_base = base, bt_uSize = sz, bt_psMapping = IMG_NULL\<rparr>, A1))"

definition BuildBT ::
  "IMG_UINTPTR_T \<Rightarrow> IMG_SIZE_T \<Rightarrow> 'w RA_ARENA \<Rightarrow> BT option \<times> 'w RA_ARENA" where
  "BuildBT base sz A =
     (let (eError, p, os') = OSAllocMem sizeof_BT (ra_os A);
          A1 = A\<lparr>ra_os := os'\<rparr>
      in if eError \<noteq> PVRSRV_OK then (None, A1)
         else (Some \<lparr>bt = p, bt_type = btt_free, bt_base = base, bt_uSize = sz, bt_psMapping = IMG_NULL\<rparr>, A1))"

definition ra_free_mem :: "IMG_UINTPTR_T \<Rightarrow> 'w RA_ARENA \<Rightarrow> 'w RA_ARENA" where
  "ra_free_mem p A = A\<lparr>ra_os := OSFreeMem p (ra_os A)\<rparr>"

definition InsertResource ::
  "IMG_UINTPTR_T \<Rightarrow> IMG_SIZE_T \<Rightarrow> 'w RA_ARENA \<Rightarrow> IMG_UINTPTR_T \<times> 'w RA_ARENA" where
  "InsertResource base sz A =
     (case BuildBT base sz A of
        (None, A1) \<Rightarrow> (IMG_NULL, A1)
      | (Some b, A1) \<Rightarrow>
          (let (eError, A2) = SegmentListInsert b A1
           in if eError \<noteq> PVRSRV_OK then (IMG_NULL, A2) else (bt b, FreeListInsert (bt b) A2)))"

definition InsertResourceSpan ::
  "IMG_UINTPTR_T \<Rightarrow> IMG_SIZE_T \<Rightarrow> 'w RA_ARENA \<Rightarrow> IMG_UINTPTR_T \<times> 'w RA_ARENA" where
  "InsertResourceSpan base sz A =
     (case BuildSpanMarker base sz A of
        (None, A1) \<Rightarrow> (IMG_NULL, A1)
      | (Some pSpanStart, A1) \<Rightarrow>
     (case BuildSpanMarker (base + ucast sz) 0 A1 of
        (None, A2) \<Rightarrow> (IMG_NULL, ra_free_mem (bt pSpanStart) A2)
      | (Some pSpanEnd, A2) \<Rightarrow>
     (case BuildBT base sz A2 of
        (None, A3) \<Rightarrow> (IMG_NULL, ra_free_mem (bt pSpanStart) (ra_free_mem (bt pSpanEnd) A3))
      | (Some pBT, A3) \<Rightarrow>
          (let (e1, A4) = SegmentListInsert pSpanStart A3;
               (e2, A5) = (if e1 = PVRSRV_OK then SegmentListInsertAfter (bt pSpanStart) pBT A4 else (e1, A4));
               A6 = (if e2 = PVRSRV_OK then FreeListInsert (bt pBT) A5 else A5);
               (e3, A7) = (if e2 = PVRSRV_OK then SegmentListInsertAfter (bt pBT) pSpanEnd A6 else (e2, A6))
           in if e3 = PVRSRV_OK then (bt pBT, A7)
              else (IMG_NULL, ra_free_mem (bt pSpanStart) (ra_free_mem (bt pSpanEnd)
                      (ra_free_mem (bt pBT) A7)))))))"

text \<open>The segments before and after a boundary tag: \<open>pPrevSegment\<close> and \<open>pNextSegment\<close>.\<close>

fun prev_segment :: "IMG_UINTPTR_T \<Rightarrow> BT list \<Rightarrow> BT option" where
  "prev_segment p (x # y # ys) = (if bt y = p then Some x else prev_segment p (y # ys))"
| "prev_segment p _ = None"

fun next_segment :: "IMG_UINTPTR_T \<Rightarrow> BT list \<Rightarrow> BT option" where
  "next_segment p (x # y # ys) = (if bt x = p then Some y else next_segment p (y # ys))"
| "next_segment p _ = None"

definition update_segment :: "IMG_UINTPTR_T \<Rightarrow> (BT \<Rightarrow> BT) \<Rightarrow> 'w RA_ARENA \<Rightarrow> 'w RA_ARENA" where
  "update_segment p f A = A\<lparr>segments := map (\<lambda>x. if bt x = p then f x else x) (segments A)\<rparr>"

definition coalesce_prev :: "IMG_UINTPTR_T \<Rightarrow> BT \<Rightarrow> 'w RA_ARENA \<Rightarrow> 'w RA_ARENA" where
  "coalesce_prev p b A =
     (case prev_segment p (segments A) of
        None \<Rightarrow> A
      | Some n \<Rightarrow>
          if bt_type n = btt_free \<and> bt_base n + ucast (bt_uSize n) = bt_base b then
            ra_free_mem (bt n)
              (update_segment p (\<lambda>x. x\<lparr>bt_base := bt_base n, bt_uSize := bt_uSize x + bt_uSize n\<rparr>)
                (SegmentListRemove (bt n) (FreeListRemove (bt n) A)))
          else A)"

definition coalesce_next :: "IMG_UINTPTR_T \<Rightarrow> BT \<Rightarrow> 'w RA_ARENA \<Rightarrow> 'w RA_ARENA" where
  "coalesce_next p b A =
     (case next_segment p (segments A) of
        None \<Rightarrow> A
      | Some n \<Rightarrow>
          if bt_type n = btt_free \<and> bt_base b + ucast (bt_uSize b) = bt_base n then
            ra_free_mem (bt n)
              (update_segment p (\<lambda>x. x\<lparr>bt_uSize := bt_uSize x + bt_uSize n\<rparr>)
                (SegmentListRemove (bt n) (FreeListRemove (bt n) A)))
          else A)"

text \<open>The range of whole quanta that the freed range completes inside the coalesced segment.\<close>

definition backing_range ::
  "IMG_SIZE_T \<Rightarrow> IMG_UINTPTR_T \<Rightarrow> IMG_SIZE_T \<Rightarrow> BT \<Rightarrow> IMG_UINTPTR_T \<times> IMG_UINTPTR_T" where
  "backing_range q uOrigBase uOrigSize b =
     (let uRoundedStart = (uOrigBase div ucast q) * ucast q;
          uRoundedStart = (if uRoundedStart < bt_base b then uRoundedStart + ucast q else uRoundedStart);
          uRoundedEnd = ((uOrigBase + ucast uOrigSize + ucast q - 1) div ucast q) * ucast q;
          uRoundedEnd = (if uRoundedEnd > bt_base b + ucast (bt_uSize b) then uRoundedEnd - ucast q else uRoundedEnd)
      in (uRoundedStart, uRoundedEnd))"

definition free_backing ::
  "IMG_UINTPTR_T \<Rightarrow> IMG_SIZE_T \<Rightarrow> BT \<Rightarrow> 'w RA_ARENA \<Rightarrow> 'w RA_ARENA" where
  "free_backing uOrigBase uOrigSize b A =
     (case pBackingStoreFree A of
        None \<Rightarrow> A
      | Some f \<Rightarrow>
          (let (uRoundedStart, uRoundedEnd) = backing_range (uQuantum A) uOrigBase uOrigSize b
           in if uRoundedStart < uRoundedEnd
              then A\<lparr>ra_world := f (pImportHandle A) (ucast uRoundedStart) (ucast uRoundedEnd) (ra_world A)\<rparr>
              else A))"

definition call_import_free :: "IMG_UINTPTR_T \<Rightarrow> IMG_UINTPTR_T \<Rightarrow> 'w RA_ARENA \<Rightarrow> 'w RA_ARENA" where
  "call_import_free base psMapping A =
     (case pImportFree A of
        None \<Rightarrow> A\<lparr>ra_fault := True\<rparr>
      | Some f \<Rightarrow> A\<lparr>ra_world := f (pImportHandle A) base psMapping (ra_world A)\<rparr>)"

definition FreeBT :: "IMG_UINTPTR_T \<Rightarrow> bool \<Rightarrow> 'w RA_ARENA \<Rightarrow> 'w RA_ARENA" where
  "FreeBT p bFreeBackingStore A =
     (case seg_at p A of
        None \<Rightarrow> A\<lparr>ra_fault := True\<rparr>
      | Some b0 \<Rightarrow>
          (let A1 = coalesce_prev p b0 A;
               b1 = (case seg_at p A1 of None \<Rightarrow> b0 | Some x \<Rightarrow> x);
               A2 = coalesce_next p b1 A1;
               b2 = (case seg_at p A2 of None \<Rightarrow> b1 | Some x \<Rightarrow> x);
               A3 = (if bFreeBackingStore then free_backing (bt_base b0) (bt_uSize b0) b2 A2 else A2)
           in (case (next_segment p (segments A3), prev_segment p (segments A3)) of
                 (Some next, Some prev) \<Rightarrow>
                   if bt_type next = btt_span \<and> bt_type prev = btt_span then
                     ra_free_mem p (ra_free_mem (bt prev) (ra_free_mem (bt next)
                       (call_import_free (bt_base b2) (bt_psMapping b2)
                         (SegmentListRemove p (SegmentListRemove (bt prev) (SegmentListRemove (bt next) A3))))))
                   else FreeListInsert p A3
               | _ \<Rightarrow> FreeListInsert p A3)))"

definition aligned_base :: "IMG_UINTPTR_T \<Rightarrow> IMG_UINT32 \<Rightarrow> IMG_UINT32 \<Rightarrow> IMG_UINTPTR_T" where
  "aligned_base base uAlignment uAlignmentOffset =
     (if uAlignment > 1
      then (base + ucast uAlignmentOffset + ucast uAlignment - 1) div ucast uAlignment * ucast uAlignment
             - ucast uAlignmentOffset
      else base)"

definition segment_fits ::
  "IMG_SIZE_T \<Rightarrow> IMG_UINT32 \<Rightarrow> IMG_UINT32 \<Rightarrow> IMG_UINT32 \<Rightarrow> 'w RA_ARENA \<Rightarrow> IMG_UINTPTR_T \<Rightarrow> bool" where
  "segment_fits sz uFlags uAlignment uAlignmentOffset A p =
     (case seg_at p A of
        None \<Rightarrow> False
      | Some b \<Rightarrow>
          bt_base b + ucast (bt_uSize b) \<ge> aligned_base (bt_base b) uAlignment uAlignmentOffset + ucast sz \<and>
          (bt_psMapping b = IMG_NULL \<or> mapping_flags A (bt_psMapping b) = uFlags))"

function skip_empty :: "'w RA_ARENA \<Rightarrow> nat \<Rightarrow> nat" where
  "skip_empty A uIndex =
     (if uIndex < FREE_TABLE_LIMIT \<and> aHeadFree A ! uIndex = [] then skip_empty A (uIndex + 1) else uIndex)"
  by pat_completeness auto
termination
  by (relation "measure (\<lambda>(A, i). FREE_TABLE_LIMIT - i)") auto

declare skip_empty.simps [simp del]

function scan_tables :: "(IMG_UINTPTR_T \<Rightarrow> bool) \<Rightarrow> 'w RA_ARENA \<Rightarrow> nat \<Rightarrow> IMG_UINTPTR_T option" where
  "scan_tables fits A uIndex =
     (if uIndex < FREE_TABLE_LIMIT then
        (case List.find fits (aHeadFree A ! uIndex) of
           Some p \<Rightarrow> Some p
         | None \<Rightarrow> scan_tables fits A (uIndex + 1))
      else None)"
  by pat_completeness auto
termination
  by (relation "measure (\<lambda>(f, A, i). FREE_TABLE_LIMIT - i)") auto

declare scan_tables.simps [simp del]

text \<open>What happens to the segment that was found: it leaves its free list, is split in front for the
  alignment and behind for the size, and becomes live.\<close>

definition take_segment ::
  "IMG_SIZE_T \<Rightarrow> IMG_UINTPTR_T \<Rightarrow> BT \<Rightarrow> 'w RA_ARENA \<Rightarrow> bool \<times> IMG_UINTPTR_T \<times> IMG_UINTPTR_T \<times> 'w RA_ARENA" where
  "take_segment sz abase b A =
     (let A1 = FreeListRemove (bt b) A;
          (bFront, p, A2) =
            (if abase > bt_base b then
               (let (q, A') = SegmentSplit (bt b) (ucast (abase - bt_base b)) A1
                in (q \<noteq> IMG_NULL, q, FreeListInsert (bt b) A'))
             else (True, bt b, A1))
      in if \<not> bFront then (False, 0, IMG_NULL, A2)
         else
           (case seg_at p A2 of
              None \<Rightarrow> (False, 0, IMG_NULL, A2\<lparr>ra_fault := True\<rparr>)
            | Some b2 \<Rightarrow>
                (let (bBack, A3) =
                       (if bt_uSize b2 > sz then
                          (let (q, A') = SegmentSplit p sz A2
                           in if q = IMG_NULL then (False, FreeListInsert p A')
                              else (True, FreeListInsert q A'))
                        else (True, A2))
                 in if \<not> bBack then (False, 0, IMG_NULL, A3)
                    else
                      (let A4 = update_segment p (\<lambda>x. x\<lparr>bt_type := btt_live\<rparr>) A3;
                           (ok, h, os') = HASH_Insert (pSegmentHash A4) (bt_base b2) p (ra_os A4);
                           A5 = A4\<lparr>pSegmentHash := h, ra_os := os'\<rparr>
                       in if \<not> ok then (False, 0, IMG_NULL, FreeBT p False A5)
                          else (True, bt_base b2, bt_psMapping b2, A5)))))"

definition AttemptAllocAligned ::
  "IMG_SIZE_T \<Rightarrow> IMG_UINT32 \<Rightarrow> IMG_UINT32 \<Rightarrow> IMG_UINT32 \<Rightarrow> 'w RA_ARENA
    \<Rightarrow> bool \<times> IMG_UINTPTR_T \<times> IMG_UINTPTR_T \<times> 'w RA_ARENA" where
  "AttemptAllocAligned sz uFlags uAlignment uAlignmentOffset A =
     (let off = (if uAlignment > 1 then uAlignmentOffset mod uAlignment else uAlignmentOffset);
          uIndex = skip_empty A (pvr_log2 sz)
      in (case scan_tables (segment_fits sz uFlags uAlignment off A) A uIndex of
            None \<Rightarrow> (False, 0, IMG_NULL, A)
          | Some p \<Rightarrow>
              (case seg_at p A of
                 None \<Rightarrow> (False, 0, IMG_NULL, A\<lparr>ra_fault := True\<rparr>)
               | Some b \<Rightarrow> take_segment sz (aligned_base (bt_base b) uAlignment off) b A)))"

definition round_quantum :: "IMG_SIZE_T \<Rightarrow> IMG_SIZE_T \<Rightarrow> IMG_SIZE_T" where
  "round_quantum q sz = (sz + q - 1) div q * q"

definition RA_Create ::
  "IMG_UINTPTR_T \<Rightarrow> IMG_SIZE_T \<Rightarrow> IMG_UINTPTR_T \<Rightarrow> IMG_SIZE_T \<Rightarrow> 'w import_alloc option
    \<Rightarrow> 'w import_free option \<Rightarrow> 'w backing_free option \<Rightarrow> IMG_UINTPTR_T
    \<Rightarrow> (IMG_UINTPTR_T \<Rightarrow> IMG_UINT32) \<Rightarrow> os \<Rightarrow> 'w \<Rightarrow> 'w RA_ARENA option \<times> os" where
  "RA_Create base sz psMapping q imp_alloc imp_free backingstore_free hImport mflags s w =
     (let (eError, p, s1) = OSAllocMem sizeof_RA_ARENA s
      in if eError \<noteq> PVRSRV_OK then (None, s1)
         else
           (case HASH_Create MINIMUM_HASH_SIZE s1 of
              (None, s2) \<Rightarrow> (None, OSFreeMem p s2)
            | (Some h, s2) \<Rightarrow>
                (let A = \<lparr>pArena = p, uQuantum = q,
                          pImportAlloc = (case imp_alloc of None \<Rightarrow> RequestAllocFail | Some f \<Rightarrow> f),
                          pImportFree = imp_free, pBackingStoreFree = backingstore_free,
                          pImportHandle = hImport, aHeadFree = replicate FREE_TABLE_LIMIT [],
                          segments = [], pSegmentHash = h, mapping_flags = mflags, ra_os = s2,
                          ra_world = w, ra_fault = False\<rparr>
                 in if sz > 0 then
                      (let (pBT, A1) = InsertResource base (round_quantum q sz) A
                       in if pBT = IMG_NULL
                          then (None, OSFreeMem p (HASH_Delete (Some (pSegmentHash A1)) (ra_os A1)))
                          else (let A2 = update_segment pBT (\<lambda>x. x\<lparr>bt_psMapping := psMapping\<rparr>) A1
                                in (Some A2, ra_os A2)))
                    else (Some A, s2))))"

definition RA_Delete :: "'w RA_ARENA \<Rightarrow> os" where
  "RA_Delete A =
     OSFreeMem (pArena A)
       (HASH_Delete (Some (pSegmentHash A)) (fold (\<lambda>b s. OSFreeMem (bt b) s) (segments A) (ra_os A)))"

partial_function (option) RA_TestDelete :: "'w RA_ARENA \<Rightarrow> bool option" where
  "RA_TestDelete A =
     (case segments A of
        [] \<Rightarrow> Some True
      | b # _ \<Rightarrow> if bt_type b \<noteq> btt_free then Some False else RA_TestDelete A)"

definition RA_Add :: "IMG_UINTPTR_T \<Rightarrow> IMG_SIZE_T \<Rightarrow> 'w RA_ARENA \<Rightarrow> bool \<times> 'w RA_ARENA" where
  "RA_Add base sz A =
     (let (p, A1) = InsertResource base (round_quantum (uQuantum A) sz) A in (p \<noteq> IMG_NULL, A1))"

text \<open>The results of \<open>RA_Alloc\<close> besides the flag: the actual size, the mapping and the base.\<close>

definition RA_Alloc ::
  "IMG_SIZE_T \<Rightarrow> IMG_UINT32 \<Rightarrow> IMG_UINT32 \<Rightarrow> IMG_UINT32 \<Rightarrow> 'w RA_ARENA
    \<Rightarrow> bool \<times> IMG_SIZE_T \<times> IMG_UINTPTR_T \<times> IMG_UINTPTR_T \<times> 'w RA_ARENA" where
  "RA_Alloc uRequestSize uFlags uAlignment uAlignmentOffset A =
     (let sz = uRequestSize;
          (bResult, base, mapping, A1) = AttemptAllocAligned sz uFlags uAlignment uAlignmentOffset A
      in if bResult then (True, sz, mapping, base, A1)
         else
           (let uImportSize = (if uAlignment > uQuantum A1 then sz + (uAlignment - 1) else sz);
                uImportSize = round_quantum (uQuantum A1) uImportSize;
                ((bResult, n, psImportMapping, import_base), w) =
                  pImportAlloc A1 (pImportHandle A1) uImportSize uFlags (ra_world A1);
                A2 = A1\<lparr>ra_world := w\<rparr>
            in if \<not> bResult then (False, sz, IMG_NULL, 0, A2)
               else
                 (let (pBT, A3) = InsertResourceSpan import_base n A2
                  in if pBT = IMG_NULL
                     then (False, sz, IMG_NULL, 0, call_import_free import_base psImportMapping A3)
                     else
                       (let A4 = update_segment pBT (\<lambda>x. x\<lparr>bt_psMapping := psImportMapping\<rparr>) A3;
                            (bResult, base, mapping, A5) =
                              AttemptAllocAligned sz uFlags uAlignment uAlignmentOffset A4
                        in (bResult, sz, mapping, base, A5)))))"

definition RA_Free :: "IMG_UINTPTR_T \<Rightarrow> bool \<Rightarrow> 'w RA_ARENA \<Rightarrow> 'w RA_ARENA" where
  "RA_Free base bFreeBackingStore A =
     (let (p, h, os') = HASH_Remove (pSegmentHash A) base (ra_os A);
          A1 = A\<lparr>pSegmentHash := h, ra_os := os'\<rparr>
      in if p \<noteq> IMG_NULL then FreeBT p bFreeBackingStore A1 else A1)"

record RA_SEGMENT_DETAILS =
  uiSize :: IMG_SIZE_T
  sCpuPhyAddr :: IMG_UINTPTR_T
  hSegment :: IMG_UINTPTR_T

fun next_live :: "BT list \<Rightarrow> (BT \<times> IMG_UINTPTR_T) option" where
  "next_live [] = None"
| "next_live (b # bs) =
     (if bt_type b = btt_live then Some (b, case bs of [] \<Rightarrow> IMG_NULL | n # _ \<Rightarrow> bt n) else next_live bs)"

definition IMG_UNDEF :: IMG_UINTPTR_T where "IMG_UNDEF = - 1"

definition RA_GetNextLiveSegment ::
  "'w RA_ARENA \<Rightarrow> RA_SEGMENT_DETAILS \<Rightarrow> bool \<times> RA_SEGMENT_DETAILS" where
  "RA_GetNextLiveSegment A d =
     (let bs = (if hSegment d \<noteq> IMG_NULL then dropWhile (\<lambda>b. bt b \<noteq> hSegment d) (segments A) else segments A)
      in (case next_live bs of
            Some (b, n) \<Rightarrow> (True, \<lparr>uiSize = bt_uSize b, sCpuPhyAddr = bt_base b, hSegment = n\<rparr>)
          | None \<Rightarrow> (False, \<lparr>uiSize = 0, sCpuPhyAddr = 0, hSegment = IMG_UNDEF\<rparr>)))"

section \<open>The size classes\<close>

lemma log2_loop_spec:
  "l \<le> log2_loop n l \<and> unat n < 2 ^ (log2_loop n l - l) \<and>
   (n \<noteq> 0 \<longrightarrow> 2 ^ (log2_loop n l - l) \<le> 2 * unat n)"
proof (induction n l rule: log2_loop.induct)
  case (1 n l)
  show ?case
  proof (cases "n = 0")
    case True
    then show ?thesis by (simp add: log2_loop.simps)
  next
    case False
    let ?r = "log2_loop (drop_bit 1 n) (l + 1)"
    have r: "log2_loop n l = ?r" using False by (subst log2_loop.simps) (simp add: word_neq_0_conv)
    have h: "unat (drop_bit 1 n) = unat n div 2" by (simp add: drop_bit_eq_div unat_div)
    have IH: "l + 1 \<le> ?r" "unat n div 2 < 2 ^ (?r - (l + 1))"
      "drop_bit 1 n \<noteq> 0 \<longrightarrow> 2 ^ (?r - (l + 1)) \<le> 2 * (unat n div 2)"
      using 1 False h by (auto simp: word_neq_0_conv)
    have e: "2 ^ (?r - l) = 2 * (2 :: nat) ^ (?r - (l + 1))"
      using IH(1) by (metis Suc_diff_le Suc_eq_plus1 diff_Suc_Suc power_Suc)
    have "2 ^ (?r - l) \<le> 2 * unat n"
    proof (cases "drop_bit 1 n = 0")
      case True
      then have "?r = l + 1" by (simp add: log2_loop.simps)
      moreover have "0 < unat n" using False by (simp add: unat_gt_0)
      ultimately show ?thesis by simp
    next
      case False
      then show ?thesis using IH(3) e by simp
    qed
    then show ?thesis using IH(1,2) e r by simp
  qed
qed

lemma pvr_log2_lower: "n \<noteq> 0 \<Longrightarrow> 2 ^ pvr_log2 n \<le> unat n"
proof -
  assume n: "n \<noteq> 0"
  let ?h = "drop_bit 1 n"
  have h: "unat ?h = unat n div 2" by (simp add: drop_bit_eq_div unat_div)
  have "0 < unat n" using n by (simp add: unat_gt_0)
  then show ?thesis
    using log2_loop_spec [of 0 ?h] h log2_loop.simps [of 0 0] by (cases "?h = 0") (auto simp: pvr_log2_def)
qed

lemma pvr_log2_upper: "unat n < 2 ^ (pvr_log2 n + 1)"
proof -
  have "unat (drop_bit 1 n) = unat n div 2" by (simp add: drop_bit_eq_div unat_div)
  then show ?thesis using log2_loop_spec [of 0 "drop_bit 1 n"] by (auto simp: pvr_log2_def)
qed

lemma unat_less32: "unat (n :: IMG_SIZE_T) < 2 ^ 32"
proof -
  have "unat n < 2 ^ LENGTH(32)" by (rule unsigned_less)
  then show ?thesis by simp
qed

lemma pvr_log2_limit: "pvr_log2 n < 32"
proof (cases "n = 0")
  case True
  then show ?thesis by (simp add: pvr_log2_def log2_loop.simps)
next
  case False
  have "2 ^ pvr_log2 n < (2 :: nat) ^ 32"
    using pvr_log2_lower [OF False] unat_less32 [of n] by (rule order.strict_trans1)
  then show ?thesis by (rule power_less_imp_less_exp [rotated]) simp
qed

lemma pvr_log2_mono: "n \<le> m \<Longrightarrow> pvr_log2 n \<le> pvr_log2 m"
proof (cases "n = 0")
  case True
  then show ?thesis by (simp add: pvr_log2_def log2_loop.simps)
next
  case False
  assume "n \<le> m"
  then have "2 ^ pvr_log2 n < (2 :: nat) ^ (pvr_log2 m + 1)"
    using pvr_log2_lower [OF False] pvr_log2_upper [of m] by (simp add: word_le_nat_alt)
  then have "pvr_log2 n < pvr_log2 m + 1" by (rule power_less_imp_less_exp [rotated]) simp
  then show ?thesis by simp
qed

section \<open>Geometry\<close>

lemma unat_ucast_widen: "unat (ucast (n :: IMG_SIZE_T) :: IMG_UINTPTR_T) = unat n"
proof -
  have "unat n < 2 ^ 32" by (rule unat_less32)
  then show ?thesis by (simp add: unsigned_ucast_eq take_bit_nat_eq_self_iff order.strict_trans)
qed

lemma unat_add_exact:
  "unat x + unat y < 2 ^ LENGTH('a) \<Longrightarrow> unat (x + y) = unat x + unat (y :: 'a :: len word)"
  by (simp add: unat_word_ariths)


definition seg_lo :: "BT \<Rightarrow> nat" where "seg_lo b = unat (bt_base b)"
definition seg_len :: "BT \<Rightarrow> nat" where
  "seg_len b = (if bt_type b = btt_span then 0 else unat (bt_uSize b))"
definition seg_hi :: "BT \<Rightarrow> nat" where "seg_hi b = seg_lo b + seg_len b"

definition seg_ok :: "BT \<Rightarrow> bool" where
  "seg_ok b \<longleftrightarrow> (bt_type b \<noteq> btt_span \<longrightarrow> bt_uSize b \<noteq> 0) \<and> seg_hi b < 2 ^ 63"

text \<open>The segments do not overlap and are in address order; they lie in the lower half of the address
  space, so that rounding up to an alignment does not wrap around, and their sizes add up to less
  than 4 GB, so that coalescing does not either.\<close>

definition geo :: "BT list \<Rightarrow> bool" where
  "geo bs \<longleftrightarrow> (\<forall>b \<in> set bs. seg_ok b) \<and> sorted_wrt (\<lambda>a b. seg_hi a \<le> seg_lo b) bs \<and>
     sum_list (map seg_len bs) < 2 ^ 32"

lemma geo_append:
  "geo (us @ vs) \<longleftrightarrow> (\<forall>b \<in> set us \<union> set vs. seg_ok b) \<and>
     sorted_wrt (\<lambda>a b. seg_hi a \<le> seg_lo b) us \<and> sorted_wrt (\<lambda>a b. seg_hi a \<le> seg_lo b) vs \<and>
     (\<forall>a \<in> set us. \<forall>b \<in> set vs. seg_hi a \<le> seg_lo b) \<and>
     sum_list (map seg_len us) + sum_list (map seg_len vs) < 2 ^ 32"
  by (auto simp: geo_def sorted_wrt_append)

lemma unat_base_size:
  "seg_ok b \<Longrightarrow> bt_type b \<noteq> btt_span \<Longrightarrow> n \<le> bt_uSize b \<Longrightarrow>
     unat (bt_base b + ucast n) = seg_lo b + unat n"
proof -
  assume a: "seg_ok b" "bt_type b \<noteq> btt_span" "n \<le> bt_uSize b"
  have "unat (ucast n :: IMG_UINTPTR_T) = unat n" by (rule unat_ucast_widen)
  moreover have "seg_lo b + unat n < 2 ^ 64"
    using a by (auto simp: seg_ok_def seg_hi_def seg_len_def word_le_nat_alt)
  ultimately show ?thesis by (simp add: seg_lo_def unat_add_exact)
qed

lemma geo_split:
  assumes "geo (us @ b # vs)" "bt_type b \<noteq> btt_span" "n \<noteq> 0" "n < bt_uSize b"
  shows "geo (us @ b\<lparr>bt_uSize := n\<rparr> # \<lparr>bt = q, bt_type = btt_free, bt_base = bt_base b + ucast n,
           bt_uSize = bt_uSize b - n, bt_psMapping = m\<rparr> # vs)"
proof -
  have b: "seg_ok b" using assms(1) by (simp add: geo_def)
  have u: "unat (bt_base b + ucast n) = seg_lo b + unat n"
    using unat_base_size [OF b assms(2), of n] assms(4) by simp
  have n: "unat n < unat (bt_uSize b)" using assms(4) by (simp add: word_less_nat_alt)
  then have d: "unat (bt_uSize b - n) = unat (bt_uSize b) - unat n" by (simp add: unat_sub word_le_nat_alt)
  have nz: "bt_uSize b - n \<noteq> 0" using assms(4) by auto
  show ?thesis
    using assms(1-3) u n d nz
    by (auto simp: geo_append seg_ok_def seg_hi_def seg_lo_def seg_len_def)
qed

lemma geo_merge:
  assumes "geo (us @ a # b # vs)" "bt_type a \<noteq> btt_span" "bt_type b \<noteq> btt_span"
    and "bt_base a + ucast (bt_uSize a) = bt_base b"
    and "bt_type c \<noteq> btt_span" "bt_base c = bt_base a" "bt_uSize c = bt_uSize b + bt_uSize a"
  shows "geo (us @ c # vs)" and "seg_hi c = seg_hi b" and "seg_lo c = seg_lo a" and "seg_hi a = seg_lo b"
proof -
  have ok: "seg_ok a" "seg_ok b" using assms(1) by (auto simp: geo_def)
  have "unat (bt_base a + ucast (bt_uSize a)) = seg_lo a + unat (bt_uSize a)"
    using unat_base_size [OF ok(1) assms(2), of "bt_uSize a"] by simp
  then show ab: "seg_hi a = seg_lo b" using assms(2,4) by (simp add: seg_hi_def seg_len_def seg_lo_def)
  have "unat (bt_uSize b) + unat (bt_uSize a) < 2 ^ 32"
    using assms(1-3) by (simp add: geo_append seg_len_def)
  then have sz: "unat (bt_uSize c) = unat (bt_uSize b) + unat (bt_uSize a)"
    unfolding assms(7) by (intro unat_add_exact) simp
  then have nz: "bt_uSize c \<noteq> 0" using ok(1) assms(2) by (auto simp: seg_ok_def unat_eq_zero)
  show lo: "seg_lo c = seg_lo a" using assms(6) by (simp add: seg_lo_def)
  show hi: "seg_hi c = seg_hi b"
    using ab sz lo assms(2,3,5) by (simp add: seg_hi_def seg_len_def)
  have okc: "seg_ok c" using ok(2) nz hi by (simp add: seg_ok_def)
  have "seg_len c = seg_len a + seg_len b" using sz assms(2,3,5) by (simp add: seg_len_def)
  then show "geo (us @ c # vs)"
    using assms(1) okc lo hi by (auto simp: geo_append)
qed

lemma geo_type:
  "geo (us @ b # vs) \<Longrightarrow> bt_type b \<noteq> btt_span \<Longrightarrow> t \<noteq> btt_span \<Longrightarrow> geo (us @ b\<lparr>bt_type := t\<rparr> # vs)"
  by (auto simp: geo_append seg_ok_def seg_hi_def seg_lo_def seg_len_def)

lemma geo_remove: "geo (us @ b # vs) \<Longrightarrow> geo (us @ vs)"
  by (auto simp: geo_append)

section \<open>The free lists and the segment hash\<close>

text \<open>The entries the free lists and the hash must hold for a list of segments, leaving out the
  segments in \<open>X\<close>, which an operation has in hand.\<close>

definition free_set :: "BT list \<Rightarrow> IMG_UINTPTR_T set \<Rightarrow> (IMG_UINTPTR_T \<times> nat) set" where
  "free_set bs X = {(bt b, pvr_log2 (bt_uSize b)) | b. b \<in> set bs \<and> bt_type b = btt_free \<and> bt b \<notin> X}"

definition live_set :: "BT list \<Rightarrow> IMG_UINTPTR_T set \<Rightarrow> (IMG_UINTPTR_T \<times> IMG_UINTPTR_T) set" where
  "live_set bs X = {(bt_base b, bt b) | b. b \<in> set bs \<and> bt_type b = btt_live \<and> bt b \<notin> X}"

definition tables_ok :: "IMG_UINTPTR_T list list \<Rightarrow> (IMG_UINTPTR_T \<times> nat) set \<Rightarrow> bool" where
  "tables_ok T S \<longleftrightarrow> length T = FREE_TABLE_LIMIT \<and>
     (\<forall>i < FREE_TABLE_LIMIT. distinct (T ! i) \<and> set (T ! i) = {p. (p, i) \<in> S})"

definition seg_hash_ok :: "HASH_TABLE \<Rightarrow> (IMG_UINTPTR_T \<times> IMG_UINTPTR_T) set \<Rightarrow> bool" where
  "seg_hash_ok h S \<longleftrightarrow> hash_ok h \<and> (\<forall>k. key_ok h [k]) \<and> (\<forall>k p. hash_map h [k] = Some p \<longleftrightarrow> (k, p) \<in> S)"

lemma tables_ok_remove:
  "tables_ok T S \<Longrightarrow> i < FREE_TABLE_LIMIT \<Longrightarrow> tables_ok (T[i := remove1 p (T ! i)]) (S - {(p, i)})"
  by (auto simp: tables_ok_def nth_list_update)

lemma tables_ok_insert:
  "tables_ok T S \<Longrightarrow> i < FREE_TABLE_LIMIT \<Longrightarrow> (p, i) \<notin> S \<Longrightarrow> tables_ok (T[i := p # T ! i]) (insert (p, i) S)"
  by (auto simp: tables_ok_def nth_list_update)

lemma free_set_append: "free_set (us @ vs) X = free_set us X \<union> free_set vs X"
  by (auto simp: free_set_def)

lemma free_set_Cons: "free_set (b # bs) X =
    (if bt_type b = btt_free \<and> bt b \<notin> X then {(bt b, pvr_log2 (bt_uSize b))} else {}) \<union> free_set bs X"
  by (auto simp: free_set_def)

lemma live_set_append: "live_set (us @ vs) X = live_set us X \<union> live_set vs X"
  by (auto simp: live_set_def)

lemma live_set_Cons: "live_set (b # bs) X =
    (if bt_type b = btt_live \<and> bt b \<notin> X then {(bt_base b, bt b)} else {}) \<union> live_set bs X"
  by (auto simp: live_set_def)

lemma free_set_Nil [simp]: "free_set [] X = {}" by (simp add: free_set_def)
lemma live_set_Nil [simp]: "live_set [] X = {}" by (simp add: live_set_def)

lemmas sets_simps = free_set_append free_set_Cons live_set_append live_set_Cons

lemma free_set_insert: "free_set bs (insert p X) = free_set bs X - {p} \<times> UNIV"
  by (auto simp: free_set_def)

lemma live_set_insert: "live_set bs (insert p X) = live_set bs X - UNIV \<times> {p}"
  by (auto simp: live_set_def)

lemma free_set_outside: "p \<notin> bt ` set bs \<Longrightarrow> free_set bs (insert p X) = free_set bs X"
  by (auto simp: free_set_def)

lemma live_set_outside: "p \<notin> bt ` set bs \<Longrightarrow> live_set bs (insert p X) = live_set bs X"
  by (auto simp: live_set_def)

lemma free_set_addr: "(p, i) \<in> free_set bs X \<Longrightarrow> p \<in> bt ` set bs \<and> p \<notin> X"
  by (auto simp: free_set_def)

lemma live_set_addr: "(k, p) \<in> live_set bs X \<Longrightarrow> p \<in> bt ` set bs \<and> p \<notin> X"
  by (auto simp: live_set_def)

section \<open>The invariant\<close>

text \<open>The arena with the segments \<open>X\<close> in hand; \<open>F\<close> are the heap blocks of everybody else.\<close>

definition ra_inv :: "IMG_UINTPTR_T multiset \<Rightarrow> IMG_UINTPTR_T set \<Rightarrow> 'w RA_ARENA \<Rightarrow> bool" where
  "ra_inv F X A \<longleftrightarrow>
     geo (segments A) \<and>
     tables_ok (aHeadFree A) (free_set (segments A) X) \<and>
     seg_hash_ok (pSegmentHash A) (live_set (segments A) X) \<and>
     os_ok (ra_os A) \<and>
     blocks (ra_os A) = hash_blocks (pSegmentHash A) + mset (pArena A # map bt (segments A)) + F \<and>
     ((\<exists>b \<in> set (segments A). bt_type b = btt_span) \<longrightarrow> pImportFree A \<noteq> None) \<and>
     uQuantum A \<noteq> 0 \<and> \<not> ra_fault A"

abbreviation ra_ok :: "IMG_UINTPTR_T multiset \<Rightarrow> 'w RA_ARENA \<Rightarrow> bool" where
  "ra_ok F A \<equiv> ra_inv F {} A"

lemma os_ok_blocks: "os_ok s \<Longrightarrow> count (blocks s) p \<le> 1 \<and> p \<noteq> IMG_NULL \<or> p \<notin># blocks s"
  unfolding os_ok_def blocks_def by (auto simp: distinct_count_atmost_1)

lemma os_ok_distinct: "os_ok s \<Longrightarrow> blocks s = M + mset xs + F \<Longrightarrow> distinct xs \<and> IMG_NULL \<notin> set xs"
proof -
  assume ok: "os_ok s" and b: "blocks s = M + mset xs + F"
  have "mset xs \<subseteq># mset (os_live s)" using b by (simp add: blocks_def)
  moreover have "distinct (os_live s)" "IMG_NULL \<notin> set (os_live s)" using ok by (auto simp: os_ok_def)
  ultimately show ?thesis
    using distinct_mset_subset by (metis mset_subset_eqD set_mset_mset)
qed

section \<open>Operations on a segment in its place\<close>

definition at_seg :: "BT list \<Rightarrow> BT \<Rightarrow> BT list \<Rightarrow> bool" where
  "at_seg us b vs \<longleftrightarrow> distinct (map bt (us @ b # vs))"

lemma at_segD: "at_seg us b vs \<Longrightarrow> bt b \<notin> bt ` set us \<and> bt b \<notin> bt ` set vs"
  by (auto simp: at_seg_def)

lemma map_outside: "p \<notin> bt ` set us \<Longrightarrow> map (\<lambda>x. if bt x = p then f x else x) us = us"
  by (induction us) auto

lemma filter_outside: "p \<notin> bt ` set us \<Longrightarrow> filter (\<lambda>x. bt x \<noteq> p) us = us"
  by (induction us) auto

lemma map_at: "at_seg us b vs \<Longrightarrow> p = bt b \<Longrightarrow> map (\<lambda>x. if bt x = p then f x else x) (us @ b # vs) = us @ f b # vs"
  using at_segD [of us b vs] by (simp add: map_outside)

lemma filter_at: "at_seg us b vs \<Longrightarrow> p = bt b \<Longrightarrow> filter (\<lambda>x. bt x \<noteq> p) (us @ b # vs) = us @ vs"
  using at_segD [of us b vs] by (simp add: filter_outside)

lemma insert_after_at: "bt b \<notin> bt ` set us \<Longrightarrow> insert_after (bt b) n (us @ b # vs) = us @ b # n # vs"
  by (induction us) auto

lemma split_segment_at: "bt b \<notin> bt ` set us \<Longrightarrow> split_segment (bt b) sz q (us @ b # vs) =
    us @ b\<lparr>bt_uSize := sz\<rparr> # \<lparr>bt = q, bt_type = btt_free, bt_base = bt_base b + ucast sz,
      bt_uSize = bt_uSize b - sz, bt_psMapping = bt_psMapping b\<rparr> # vs"
  by (induction us) auto

lemma prev_segment_at:
  "at_seg us b vs \<Longrightarrow> prev_segment (bt b) (us @ b # vs) = (if us = [] then None else Some (last us))"
proof (induction us)
  case Nil
  then have "bt b \<notin> bt ` set vs" by (auto simp: at_seg_def)
  then have "prev_segment (bt b) (x # vs) = None" for x
    by (induction vs arbitrary: x) auto
  then show ?case by simp
next
  case (Cons u us)
  then show ?case by (cases us) (auto simp: at_seg_def)
qed

lemma next_segment_at:
  "bt b \<notin> bt ` set us \<Longrightarrow> next_segment (bt b) (us @ b # vs) = (case vs of [] \<Rightarrow> None | n # _ \<Rightarrow> Some n)"
proof (induction us)
  case Nil
  then show ?case by (cases vs) auto
next
  case (Cons u us)
  then show ?case by (cases us) auto
qed

lemma ra_inv_distinct: "ra_inv F X A \<Longrightarrow> distinct (map bt (segments A)) \<and> IMG_NULL \<notin> bt ` set (segments A)"
  using os_ok_distinct [of "ra_os A" "hash_blocks (pSegmentHash A)" "pArena A # map bt (segments A)" F]
  by (auto simp: ra_inv_def)

lemma ra_inv_at: "ra_inv F X A \<Longrightarrow> segments A = us @ b # vs \<Longrightarrow> at_seg us b vs"
  using ra_inv_distinct by (fastforce simp: at_seg_def)

lemma ra_inv_nonnull: "ra_inv F X A \<Longrightarrow> b \<in> set (segments A) \<Longrightarrow> bt b \<noteq> IMG_NULL"
  using ra_inv_distinct by fastforce

lemma seg_at_found: "ra_inv F X A \<Longrightarrow> b \<in> set (segments A) \<Longrightarrow> seg_at (bt b) A = Some b"
  using ra_inv_distinct by (blast intro: find_distinct)

lemma FreeListRemove_inv:
  assumes inv: "ra_inv F X A" and sg: "segments A = us @ b # vs" and b: "bt_type b = btt_free" "bt b \<notin> X"
  shows "ra_inv F (insert (bt b) X) (FreeListRemove (bt b) A)"
    and "segments (FreeListRemove (bt b) A) = us @ b # vs"
proof -
  let ?i = "pvr_log2 (bt_uSize b)"
  have at: "at_seg us b vs" by (rule ra_inv_at [OF inv sg])
  have f: "FreeListRemove (bt b) A = A\<lparr>aHeadFree := (aHeadFree A)[?i := remove1 (bt b) (aHeadFree A ! ?i)]\<rparr>"
    using seg_at_found [OF inv, of b] sg by (simp add: FreeListRemove_def Let_def)
  have "tables_ok (aHeadFree A) (free_set (us @ b # vs) X)" using inv sg by (simp add: ra_inv_def)
  then have "tables_ok ((aHeadFree A)[?i := remove1 (bt b) (aHeadFree A ! ?i)]) (free_set (us @ b # vs) X - {(bt b, ?i)})"
    by (rule tables_ok_remove) (simp add: pvr_log2_limit FREE_TABLE_LIMIT_def)
  moreover have "free_set (us @ b # vs) X - {(bt b, ?i)} = free_set (us @ b # vs) (insert (bt b) X)"
    using at_segD [OF at] by (auto simp: sets_simps free_set_insert dest: free_set_addr)
  moreover have "live_set (us @ b # vs) X = live_set (us @ b # vs) (insert (bt b) X)"
    using at_segD [OF at] b by (auto simp: sets_simps live_set_insert dest: live_set_addr)
  ultimately show "ra_inv F (insert (bt b) X) (FreeListRemove (bt b) A)"
    using inv sg unfolding f by (simp add: ra_inv_def)
  show "segments (FreeListRemove (bt b) A) = us @ b # vs" by (simp add: f sg)
qed

lemma FreeListInsert_inv:
  assumes inv: "ra_inv F (insert (bt b) X) A" and sg: "segments A = us @ b # vs"
    and b: "bt_type b \<noteq> btt_span" "bt b \<notin> X"
  shows "ra_inv F X (FreeListInsert (bt b) A)"
    and "segments (FreeListInsert (bt b) A) = us @ b\<lparr>bt_type := btt_free\<rparr> # vs"
proof -
  let ?i = "pvr_log2 (bt_uSize b)" let ?b = "b\<lparr>bt_type := btt_free\<rparr>"
  have at: "at_seg us b vs" by (rule ra_inv_at [OF inv sg])
  have f: "FreeListInsert (bt b) A = A\<lparr>segments := us @ ?b # vs, aHeadFree := (aHeadFree A)[?i := bt b # aHeadFree A ! ?i]\<rparr>"
    using seg_at_found [OF inv, of b] map_at [OF at refl] by (simp add: FreeListInsert_def sg Let_def)
  have "tables_ok (aHeadFree A) (free_set (us @ b # vs) (insert (bt b) X))" using inv sg by (simp add: ra_inv_def)
  then have "tables_ok ((aHeadFree A)[?i := bt b # aHeadFree A ! ?i]) (insert (bt b, ?i) (free_set (us @ b # vs) (insert (bt b) X)))"
    by (rule tables_ok_insert) (auto simp: pvr_log2_limit FREE_TABLE_LIMIT_def dest: free_set_addr)
  moreover have "insert (bt b, ?i) (free_set (us @ b # vs) (insert (bt b) X)) = free_set (us @ ?b # vs) X"
    using at_segD [OF at] b by (auto simp: sets_simps free_set_insert dest: free_set_addr)
  moreover have "live_set (us @ b # vs) (insert (bt b) X) = live_set (us @ ?b # vs) X"
    using at_segD [OF at] b by (auto simp: sets_simps live_set_insert dest: live_set_addr)
  moreover have "geo (us @ ?b # vs)" using inv sg b geo_type by (simp add: ra_inv_def)
  ultimately show "ra_inv F X (FreeListInsert (bt b) A)"
    using inv sg unfolding f by (auto simp: ra_inv_def)
  show "segments (FreeListInsert (bt b) A) = us @ ?b # vs" by (simp add: f)
qed

lemma OSAllocMem_frame:
  assumes "OSAllocMem n s = (e, q, s')" "os_ok s"
  shows "os_ok s' \<and> (if e = PVRSRV_OK then q \<noteq> IMG_NULL \<and> q \<notin># blocks s \<and> blocks s' = add_mset q (blocks s)
           else q = IMG_NULL \<and> blocks s' = blocks s)"
  using OSAllocMem_os_ok [OF assms] OSAllocMem_ok_iff [OF assms(1)] OSAllocMem_blocks [OF assms(1)]
    OSAllocMem_fresh [OF assms(1)] by simp

lemma free_set_cong:
  "(\<And>b. b \<in> set bs \<Longrightarrow> bt b \<in> X \<longleftrightarrow> bt b \<in> Y) \<Longrightarrow> free_set bs X = free_set bs Y"
  by (auto simp: free_set_def)

lemma live_set_cong:
  "(\<And>b. b \<in> set bs \<Longrightarrow> bt b \<in> X \<longleftrightarrow> bt b \<in> Y) \<Longrightarrow> live_set bs X = live_set bs Y"
  by (auto simp: live_set_def)

lemma ra_inv_os:
  "ra_inv F X A \<Longrightarrow> os_ok s \<Longrightarrow> blocks s = blocks (ra_os A) \<Longrightarrow> ra_inv F X (A\<lparr>ra_os := s\<rparr>)"
  by (simp add: ra_inv_def)

lemma SegmentSplit_inv:
  assumes inv: "ra_inv F X A" and sg: "segments A = us @ b # vs" and b: "bt_type b \<noteq> btt_span" "bt b \<in> X"
    and n: "n \<noteq> 0" "n < bt_uSize b" and r: "SegmentSplit (bt b) n A = (q, A')"
  shows "q = IMG_NULL \<and> ra_inv F X A' \<and> segments A' = us @ b # vs \<or>
         q \<noteq> IMG_NULL \<and> q \<notin> bt ` set (us @ b # vs) \<and> ra_inv F (insert q X) A' \<and>
         segments A' = us @ b\<lparr>bt_uSize := n\<rparr> # \<lparr>bt = q, bt_type = btt_free, bt_base = bt_base b + ucast n,
           bt_uSize = bt_uSize b - n, bt_psMapping = bt_psMapping b\<rparr> # vs"
proof -
  obtain e q' s' where al: "OSAllocMem sizeof_BT (ra_os A) = (e, q', s')" by (metis prod_cases3)
  have fr: "os_ok s'" "if e = PVRSRV_OK then q' \<noteq> IMG_NULL \<and> q' \<notin># blocks (ra_os A) \<and> blocks s' = add_mset q' (blocks (ra_os A))
      else q' = IMG_NULL \<and> blocks s' = blocks (ra_os A)"
    using OSAllocMem_frame [OF al] inv unfolding ra_inv_def by blast+
  show ?thesis
  proof (cases "e = PVRSRV_OK")
    case False
    then have "q = IMG_NULL" "A' = A\<lparr>ra_os := s'\<rparr>" using r al by (auto simp: SegmentSplit_def)
    then show ?thesis using ra_inv_os [OF inv fr(1)] fr(2) False sg by simp
  next
    case True
    have at: "at_seg us b vs" by (rule ra_inv_at [OF inv sg])
    let ?b = "b\<lparr>bt_uSize := n\<rparr>"
    let ?nb = "\<lparr>bt = q, bt_type = btt_free, bt_base = bt_base b + ucast n, bt_uSize = bt_uSize b - n, bt_psMapping = bt_psMapping b\<rparr>"
    have q: "q = q'" "A' = A\<lparr>ra_os := s', segments := us @ ?b # ?nb # vs\<rparr>"
      using r al True split_segment_at [of b us] at_segD [OF at] by (auto simp: SegmentSplit_def sg)
    have qf: "q \<notin> bt ` set (us @ b # vs)" "q \<noteq> IMG_NULL"
      using fr(2) True q(1) inv sg by (auto simp: ra_inv_def)
    have g: "geo (us @ ?b # ?nb # vs)" using geo_split [OF _ b(1) n] inv sg by (simp add: ra_inv_def)
    have "free_set (us @ ?b # ?nb # vs) (insert q X) = free_set (us @ b # vs) X"
      "live_set (us @ ?b # ?nb # vs) (insert q X) = live_set (us @ b # vs) X"
      using qf(1) b(2) by (auto simp: sets_simps free_set_outside live_set_outside image_Un)
    then have "ra_inv F (insert q X) A'"
      using inv sg fr True q g by (auto simp: ra_inv_def)
    with q qf show ?thesis by simp
  qed
qed

lemma update_type_inv:
  assumes inv: "ra_inv F X A" and sg: "segments A = us @ b # vs"
    and b: "bt_type b \<noteq> btt_span" "bt b \<in> X" "t \<noteq> btt_span"
  shows "ra_inv F X (update_segment (bt b) (\<lambda>x. x\<lparr>bt_type := t\<rparr>) A)"
    and "segments (update_segment (bt b) (\<lambda>x. x\<lparr>bt_type := t\<rparr>) A) = us @ b\<lparr>bt_type := t\<rparr> # vs"
proof -
  have at: "at_seg us b vs" by (rule ra_inv_at [OF inv sg])
  show s: "segments (update_segment (bt b) (\<lambda>x. x\<lparr>bt_type := t\<rparr>) A) = us @ b\<lparr>bt_type := t\<rparr> # vs"
    using map_at [OF at refl] by (simp add: update_segment_def sg)
  have "geo (us @ b\<lparr>bt_type := t\<rparr> # vs)" using inv sg b geo_type by (simp add: ra_inv_def)
  then show "ra_inv F X (update_segment (bt b) (\<lambda>x. x\<lparr>bt_type := t\<rparr>) A)"
    using inv sg b s unfolding update_segment_def by (auto simp: ra_inv_def sets_simps)
qed

lemma live_base_unique:
  assumes "geo (us @ b # vs)" "bt_type b \<noteq> btt_span" "a \<in> set us \<union> set vs" "bt_type a \<noteq> btt_span"
  shows "bt_base a \<noteq> bt_base b"
proof -
  have "seg_ok a" "seg_ok b" using assms(1,3) by (auto simp: geo_def)
  then have "0 < unat (bt_uSize a)" "0 < unat (bt_uSize b)"
    using assms(2,4) by (auto simp: seg_ok_def unat_gt_0)
  moreover have "seg_hi a \<le> seg_lo b \<or> seg_hi b \<le> seg_lo a"
    using assms(1,3) by (auto simp: geo_append)
  ultimately show ?thesis using assms(2,4) by (auto simp: seg_hi_def seg_len_def seg_lo_def)
qed

lemma hash_insert_inv:
  assumes inv: "ra_inv F (insert (bt b) X) A" and sg: "segments A = us @ b # vs"
    and b: "bt_type b = btt_live" "bt b \<notin> X"
    and r: "HASH_Insert (pSegmentHash A) (bt_base b) (bt b) (ra_os A) = (ok, h, s')"
  shows "ra_inv F (if ok then X else insert (bt b) X) (A\<lparr>pSegmentHash := h, ra_os := s'\<rparr>)"
proof -
  let ?h = "pSegmentHash A" and ?M = "mset (pArena A # map bt (segments A))"
  have at: "at_seg us b vs" by (rule ra_inv_at [OF inv sg])
  have g: "geo (us @ b # vs)" using inv sg by (simp add: ra_inv_def)
  have hs: "hash_ok ?h" "\<forall>k. key_ok ?h [k]"
    "\<forall>k p. hash_map ?h [k] = Some p \<longleftrightarrow> (k, p) \<in> live_set (us @ b # vs) (insert (bt b) X)"
    using inv sg by (auto simp: ra_inv_def seg_hash_ok_def)
  have none: "hash_map ?h [bt_base b] = None"
  proof (rule ccontr)
    assume "hash_map ?h [bt_base b] \<noteq> None"
    then obtain p where "(bt_base b, p) \<in> live_set (us @ b # vs) (insert (bt b) X)" using hs(3) by auto
    then obtain a where "a \<in> set us \<union> set vs" "bt_type a = btt_live" "bt_base a = bt_base b"
      by (auto simp: live_set_def) metis+
    with live_base_unique [OF g _ this(1)] b show False by simp
  qed
  have nz: "bt b \<noteq> 0" using ra_inv_nonnull [OF inv, of b] sg by simp
  have bl: "blocks (ra_os A) = hash_blocks ?h + (?M + F)" "os_ok (ra_os A)" using inv by (auto simp: ra_inv_def)
  note C = htm.insert_client [OF hs(1) _ none nz _ bl, of ok h s'] 
  have C: "blocks s' = hash_blocks h + (?M + F)" "os_ok s'" "hash_ok h" "key_ok h = key_ok ?h"
    "hash_map h = (if ok then (hash_map ?h)([bt_base b] \<mapsto> bt b) else hash_map ?h)"
    using C r hs(2) by (auto simp: HASH_Insert_def)
  have "seg_hash_ok h (live_set (us @ b # vs) (if ok then X else insert (bt b) X))"
  proof (cases ok)
    case False
    then show ?thesis using C hs by (simp add: seg_hash_ok_def)
  next
    case True
    have "live_set (us @ b # vs) X = insert (bt_base b, bt b) (live_set (us @ b # vs) (insert (bt b) X))"
      using at_segD [OF at] b by (auto simp: sets_simps live_set_outside)
    moreover have "(bt_base b, p) \<notin> live_set (us @ b # vs) (insert (bt b) X)" for p
      using none hs(3) by (metis option.distinct(1))
    ultimately show ?thesis using True C hs by (auto simp: seg_hash_ok_def)
  qed
  moreover have "free_set (us @ b # vs) (if ok then X else insert (bt b) X) = free_set (us @ b # vs) (insert (bt b) X)"
    using at_segD [OF at] b by (auto simp: sets_simps free_set_outside)
  ultimately show ?thesis using inv sg C by (simp add: ra_inv_def)
qed

lemma hash_remove_inv:
  assumes inv: "ra_inv F X A" and sg: "segments A = us @ b # vs"
    and b: "bt_type b = btt_live" "bt b \<notin> X"
    and r: "HASH_Remove (pSegmentHash A) (bt_base b) (ra_os A) = (p, h, s')"
  shows "p = bt b" and "ra_inv F (insert (bt b) X) (A\<lparr>pSegmentHash := h, ra_os := s'\<rparr>)"
proof -
  let ?h = "pSegmentHash A" and ?M = "mset (pArena A # map bt (segments A))"
  have at: "at_seg us b vs" by (rule ra_inv_at [OF inv sg])
  have g: "geo (us @ b # vs)" using inv sg by (simp add: ra_inv_def)
  have hs: "hash_ok ?h" "\<forall>k. key_ok ?h [k]" "\<forall>k p. hash_map ?h [k] = Some p \<longleftrightarrow> (k, p) \<in> live_set (us @ b # vs) X"
    using inv sg by (auto simp: ra_inv_def seg_hash_ok_def)
  have some: "hash_map ?h [bt_base b] = Some (bt b)" using hs(3) b by (auto simp: sets_simps)
  have bl: "blocks (ra_os A) = hash_blocks ?h + (?M + F)" "os_ok (ra_os A)" using inv by (auto simp: ra_inv_def)
  have C: "blocks s' = hash_blocks h + (?M + F)" "os_ok s'" "hash_ok h" "key_ok h = key_ok ?h"
    "hash_map h = (hash_map ?h)([bt_base b] := None)" "p = bt b"
    using htm.remove_client [OF hs(1) _ _ bl, of "[bt_base b]" p h s'] r hs(2) some by (auto simp: HASH_Remove_def)
  show "p = bt b" by (rule C)
  have "(k, p) \<in> live_set (us @ b # vs) (insert (bt b) X) \<longleftrightarrow> k \<noteq> bt_base b \<and> (k, p) \<in> live_set (us @ b # vs) X" for k p
    using at_segD [OF at] b live_base_unique [OF g] unfolding live_set_def
    by (auto simp: image_iff) metis+
  then have "seg_hash_ok h (live_set (us @ b # vs) (insert (bt b) X))"
    using C hs by (auto simp: seg_hash_ok_def)
  moreover have "free_set (us @ b # vs) (insert (bt b) X) = free_set (us @ b # vs) X"
    using at_segD [OF at] b by (auto simp: sets_simps free_set_outside)
  ultimately show "ra_inv F (insert (bt b) X) (A\<lparr>pSegmentHash := h, ra_os := s'\<rparr>)"
    using inv sg C by (simp add: ra_inv_def)
qed

section \<open>Freeing\<close>

definition free_space :: "BT list \<Rightarrow> nat set" where
  "free_space bs = (\<Union>b \<in> {b \<in> set bs. bt_type b = btt_free}. {seg_lo b ..< seg_hi b})"

definition live_segs :: "BT list \<Rightarrow> BT list" where
  "live_segs bs = filter (\<lambda>b. bt_type b = btt_live) bs"

lemma free_space_append: "free_space (us @ vs) = free_space us \<union> free_space vs"
  by (auto simp: free_space_def)

lemma free_space_Cons:
  "free_space (b # bs) = (if bt_type b = btt_free then {seg_lo b ..< seg_hi b} else {}) \<union> free_space bs"
  by (auto simp: free_space_def)

lemma free_space_Nil [simp]: "free_space [] = {}" by (simp add: free_space_def)

lemma free_space_member: "b \<in> set bs \<Longrightarrow> bt_type b = btt_free \<Longrightarrow> {seg_lo b ..< seg_hi b} \<subseteq> free_space bs"
  by (auto simp: free_space_def)

lemmas space_simps = free_space_append free_space_Cons

text \<open>What coalescing does to a segment in hand: it may swallow free neighbours.\<close>

definition grown :: "BT list \<Rightarrow> BT \<Rightarrow> BT list \<Rightarrow> BT list \<Rightarrow> BT \<Rightarrow> BT list \<Rightarrow> bool" where
  "grown us b vs us' b' vs' \<longleftrightarrow> bt b' = bt b \<and> bt_type b' = bt_type b \<and> bt_psMapping b' = bt_psMapping b \<and>
     free_space (us' @ vs') \<union> {seg_lo b' ..< seg_hi b'} = free_space (us @ vs) \<union> {seg_lo b ..< seg_hi b} \<and>
     live_segs (us' @ vs') = live_segs (us @ vs) \<and> seg_lo b' \<le> seg_lo b \<and> seg_hi b \<le> seg_hi b' \<and>
     filter (\<lambda>b. bt_type b = btt_span) (us' @ vs') = filter (\<lambda>b. bt_type b = btt_span) (us @ vs)"

lemma grown_refl: "grown us b vs us b vs"
  by (simp add: grown_def)

lemma grown_trans: "grown us b vs us1 b1 vs1 \<Longrightarrow> grown us1 b1 vs1 us2 b2 vs2 \<Longrightarrow> grown us b vs us2 b2 vs2"
  by (auto simp: grown_def)

text \<open>What freeing a segment does to the list: the free segment that ends where it begins and the free segment that begins where it ends become one
  with it, and a span that is empty then goes, with its markers.\<close>

definition join_before :: "BT list \<Rightarrow> BT \<Rightarrow> BT list \<times> nat" where
  "join_before us b =
     (if us \<noteq> [] \<and> bt_type (last us) = btt_free \<and> seg_hi (last us) = seg_lo b then (butlast us, seg_lo (last us)) else (us, seg_lo b))"

definition join_after :: "BT \<Rightarrow> BT list \<Rightarrow> BT list \<times> nat" where
  "join_after b vs =
     (if vs \<noteq> [] \<and> bt_type (hd vs) = btt_free \<and> seg_hi b = seg_lo (hd vs) then (tl vs, seg_hi (hd vs)) else (vs, seg_hi b))"

definition free_merged :: "BT list \<Rightarrow> BT \<Rightarrow> BT list \<Rightarrow> BT list \<Rightarrow> bool" where
  "free_merged us b vs bs \<longleftrightarrow>
     (let (us', lo) = join_before us b; (vs', hi) = join_after b vs
      in if us' \<noteq> [] \<and> vs' \<noteq> [] \<and> bt_type (last us') = btt_span \<and> bt_type (hd vs') = btt_span
         then bs = butlast us' @ tl vs'
         else \<exists>c. bs = us' @ c # vs' \<and> bt c = bt b \<and> bt_type c = btt_free \<and> seg_lo c = lo \<and> seg_hi c = hi \<and>
                bt_psMapping c = bt_psMapping b)"

lemma segs_touch:
  assumes "seg_ok a" "bt_type a \<noteq> btt_span"
  shows "bt_base a + ucast (bt_uSize a) = bt_base b \<longleftrightarrow> seg_hi a = seg_lo b"
proof -
  have "unat (bt_base a + ucast (bt_uSize a)) = seg_hi a"
    using unat_base_size [OF assms, of "bt_uSize a"] assms(2) by (simp add: seg_hi_def seg_len_def)
  then show ?thesis
    by (metis seg_lo_def word_unat_eq_iff)
qed

lemma ra_free_mem_inv:
  assumes "ra_inv F X A" "segments A = us @ n # vs" "bt n \<in> X"
    and "geo bs" "free_set bs X = free_set (us @ vs) X" "live_set bs X = live_set (us @ vs) X"
    and "mset (map bt bs) = mset (map bt (us @ vs))"
    and "\<And>b. b \<in> set bs \<Longrightarrow> bt_type b = btt_span \<Longrightarrow> \<exists>c \<in> set (us @ vs). bt_type c = btt_span"
  shows "ra_inv F X (ra_free_mem (bt n) (A\<lparr>segments := bs\<rparr>))"
proof -
  have sets: "free_set (us @ n # vs) X = free_set (us @ vs) X" "live_set (us @ n # vs) X = live_set (us @ vs) X"
    using assms(3) by (auto simp: sets_simps)
  have "blocks (ra_os A) - {#bt n#} = hash_blocks (pSegmentHash A) + mset (pArena A # map bt bs) + F"
    using assms(1,2,7) by (simp add: ra_inv_def)
  moreover have "(\<exists>b \<in> set bs. bt_type b = btt_span) \<longrightarrow> pImportFree A \<noteq> None"
    using assms(1,2,8) by (fastforce simp: ra_inv_def)
  ultimately show ?thesis
    using assms sets by (simp add: ra_inv_def ra_free_mem_def blocks_OSFreeMem OSFreeMem_os_ok)
qed

lemma ra_inv_drop:
  "ra_inv F (insert p X) A \<Longrightarrow> p \<notin> bt ` set (segments A) \<Longrightarrow> ra_inv F X A"
  by (simp add: ra_inv_def free_set_outside live_set_outside)

lemma coalesce_prev_inv:
  assumes inv: "ra_inv F {bt b} A" and sg: "segments A = us @ b # vs" and b: "bt_type b \<noteq> btt_span"
  obtains us' b' where "ra_inv F {bt b} (coalesce_prev (bt b) b A)"
    "segments (coalesce_prev (bt b) b A) = us' @ b' # vs" "grown us b vs us' b' vs"
    "join_before us b = (us', seg_lo b')" "seg_hi b' = seg_hi b"
proof -
  have at: "at_seg us b vs" by (rule ra_inv_at [OF inv sg])
  show thesis
  proof (cases "us \<noteq> [] \<and> bt_type (last us) = btt_free \<and> bt_base (last us) + ucast (bt_uSize (last us)) = bt_base b")
    case False
    then have "coalesce_prev (bt b) b A = A"
      using prev_segment_at [OF at] by (auto simp: coalesce_prev_def sg)
    moreover have "seg_ok (last us)" if "us \<noteq> []"
      using inv that by (simp add: ra_inv_def geo_def sg)
    then have "join_before us b = (us, seg_lo b)"
      using False by (auto simp: join_before_def segs_touch)
    ultimately show thesis using that [OF _ _ grown_refl] inv sg by simp
  next
    case True
    then obtain us' n where us: "us = us' @ [n]" and n: "bt_type n = btt_free" "bt_base n + ucast (bt_uSize n) = bt_base b"
      by (metis append_butlast_last_id)
    have nb: "bt n \<noteq> bt b" "bt n \<notin> bt ` set us'" "bt n \<notin> bt ` set vs" "bt b \<notin> bt ` set us'" "bt b \<notin> bt ` set vs"
      using at us by (auto simp: at_seg_def)
    let ?A1 = "FreeListRemove (bt n) A" and ?b = "b\<lparr>bt_base := bt_base n, bt_uSize := bt_uSize b + bt_uSize n\<rparr>"
    have sg': "segments A = us' @ n # b # vs" using sg us by simp
    have i1: "ra_inv F {bt n, bt b} ?A1" "segments ?A1 = us' @ n # b # vs"
      using FreeListRemove_inv [OF inv sg' n(1)] nb by auto
    have f: "coalesce_prev (bt b) b A = ra_free_mem (bt n) (?A1\<lparr>segments := us' @ ?b # vs\<rparr>)"
      using prev_segment_at [OF at] True us n nb
      by (simp add: coalesce_prev_def sg SegmentListRemove_def update_segment_def i1(2) filter_outside map_outside)
    have g: "geo (us' @ n # b # vs)" using i1 by (simp add: ra_inv_def)
    note m = geo_merge [OF g _ b n(2), of ?b]
    have "ra_inv F {bt n, bt b} (ra_free_mem (bt n) (?A1\<lparr>segments := us' @ ?b # vs\<rparr>))"
      by (rule ra_free_mem_inv [OF i1(1,2)]) (use m n b in \<open>auto simp: sets_simps\<close>)
    then have "ra_inv F {bt b} (coalesce_prev (bt b) b A)"
      unfolding f by (rule ra_inv_drop) (use nb in \<open>auto simp: ra_free_mem_def\<close>)
    moreover have "segments (coalesce_prev (bt b) b A) = us' @ ?b # vs" by (simp add: f ra_free_mem_def)
    moreover have "grown us b vs us' ?b vs"
      using m n b us by (auto simp: grown_def space_simps live_segs_def seg_hi_def)
    moreover have "join_before us b = (us', seg_lo ?b)" "seg_hi ?b = seg_hi b"
      using m n b us by (simp_all add: join_before_def)
    ultimately show thesis by (rule that)
  qed
qed

lemma coalesce_next_inv:
  assumes inv: "ra_inv F {bt b} A" and sg: "segments A = us @ b # vs" and b: "bt_type b \<noteq> btt_span"
  obtains b' vs' where "ra_inv F {bt b} (coalesce_next (bt b) b A)"
    "segments (coalesce_next (bt b) b A) = us @ b' # vs'" "grown us b vs us b' vs'"
    "join_after b vs = (vs', seg_hi b')" "seg_lo b' = seg_lo b"
proof -
  have at: "at_seg us b vs" by (rule ra_inv_at [OF inv sg])
  note nx = next_segment_at [of b us vs, OF conjunct1 [OF at_segD [OF at]]]
  show thesis
  proof (cases "vs \<noteq> [] \<and> bt_type (hd vs) = btt_free \<and> bt_base b + ucast (bt_uSize b) = bt_base (hd vs)")
    case False
    then have "coalesce_next (bt b) b A = A"
      using nx by (auto simp: coalesce_next_def sg split: list.splits)
    moreover have "seg_ok b"
      using inv by (simp add: ra_inv_def geo_def sg)
    then have "join_after b vs = (vs, seg_hi b)"
      using False b by (auto simp: join_after_def segs_touch)
    ultimately show thesis using that [OF _ _ grown_refl] inv sg by simp
  next
    case True
    then obtain n vs' where vs: "vs = n # vs'" and n: "bt_type n = btt_free" "bt_base b + ucast (bt_uSize b) = bt_base n"
      by (cases vs) auto
    have nb: "bt n \<noteq> bt b" "bt n \<notin> bt ` set us" "bt n \<notin> bt ` set vs'" "bt b \<notin> bt ` set us" "bt b \<notin> bt ` set vs'"
      using at vs by (auto simp: at_seg_def)
    let ?A1 = "FreeListRemove (bt n) A" and ?b = "b\<lparr>bt_uSize := bt_uSize b + bt_uSize n\<rparr>"
    have sg': "segments A = (us @ [b]) @ n # vs'" using sg vs by simp
    have i1: "ra_inv F {bt n, bt b} ?A1" "segments ?A1 = (us @ [b]) @ n # vs'"
      using FreeListRemove_inv [OF inv sg' n(1)] nb by auto
    have f: "coalesce_next (bt b) b A = ra_free_mem (bt n) (?A1\<lparr>segments := us @ ?b # vs'\<rparr>)"
      using nx vs True n nb
      by (simp add: coalesce_next_def sg SegmentListRemove_def update_segment_def i1(2) filter_outside map_outside)
    have g: "geo (us @ b # n # vs')" using i1 by (simp add: ra_inv_def)
    note m = geo_merge [OF g b _ n(2), of ?b]
    have "ra_inv F {bt n, bt b} (ra_free_mem (bt n) (?A1\<lparr>segments := us @ ?b # vs'\<rparr>))"
      by (rule ra_free_mem_inv [OF i1(1,2)]) (use m n b in \<open>auto simp: sets_simps add.commute\<close>)
    then have "ra_inv F {bt b} (coalesce_next (bt b) b A)"
      unfolding f by (rule ra_inv_drop) (use nb in \<open>auto simp: ra_free_mem_def\<close>)
    moreover have "segments (coalesce_next (bt b) b A) = us @ ?b # vs'" by (simp add: f ra_free_mem_def)
    moreover have "grown us b vs us ?b vs'"
      using m n b vs by (auto simp: grown_def space_simps live_segs_def seg_hi_def add.commute)
    moreover have "join_after b vs = (vs', seg_hi ?b)" "seg_lo ?b = seg_lo b"
      using m n b vs by (simp_all add: join_after_def add.commute)
    ultimately show thesis by (rule that)
  qed
qed

lemma ra_inv_world: "ra_inv F X (A\<lparr>ra_world := w\<rparr>) = ra_inv F X A"
  by (simp add: ra_inv_def)

lemma free_backing_simps:
  "ra_inv F X (free_backing o' n b A) = ra_inv F X A" "segments (free_backing o' n b A) = segments A"
  by (simp_all add: free_backing_def ra_inv_world split: option.splits prod.splits)

lemma export_inv:
  assumes inv: "ra_inv F {bt b} A" and sg: "segments A = us @ s # b # e # vs"
    and sp: "bt_type s = btt_span" "bt_type e = btt_span"
    and A': "A' = ra_free_mem (bt b) (ra_free_mem (bt s) (ra_free_mem (bt e)
           (call_import_free base m (SegmentListRemove (bt b) (SegmentListRemove (bt s) (SegmentListRemove (bt e) A))))))"
  shows "ra_inv F {} A'" and "segments A' = us @ vs"
proof -
  have d: "distinct (map bt (us @ s # b # e # vs))" using ra_inv_distinct [OF inv] sg by simp
  have "filter (\<lambda>x. bt x \<noteq> bt b) (filter (\<lambda>x. bt x \<noteq> bt s) (filter (\<lambda>x. bt x \<noteq> bt e) (us @ s # b # e # vs))) = us @ vs"
    using d by (simp add: filter_outside)
  moreover obtain f where f: "pImportFree A = Some f" using inv sg sp by (auto simp: ra_inv_def)
  ultimately have A: "A' = A\<lparr>segments := us @ vs, ra_world := f (pImportHandle A) base m (ra_world A),
      ra_os := OSFreeMem (bt b) (OSFreeMem (bt s) (OSFreeMem (bt e) (ra_os A)))\<rparr>"
    by (simp add: A' SegmentListRemove_def call_import_free_def ra_free_mem_def sg)
  have g: "geo (us @ vs)" using inv sg by (auto simp: ra_inv_def geo_append)
  have "free_set (us @ vs) {} = free_set (us @ s # b # e # vs) {bt b}"
    "live_set (us @ vs) {} = live_set (us @ s # b # e # vs) {bt b}"
    using d sp by (simp_all add: sets_simps free_set_outside live_set_outside image_Un)
  then show "ra_inv F {} A'"
    unfolding A using inv sg g f by (auto simp: ra_inv_def blocks_OSFreeMem OSFreeMem_os_ok)
  show "segments A' = us @ vs" by (simp add: A)
qed

lemma FreeBT_inv:
  assumes inv: "ra_inv F {bt b} A" and sg: "segments A = us @ b # vs" and b: "bt_type b \<noteq> btt_span"
  obtains
    (kept) us' b' vs' where "ra_ok F (FreeBT (bt b) f A)"
      "segments (FreeBT (bt b) f A) = us' @ b'\<lparr>bt_type := btt_free\<rparr> # vs'" "grown us b vs us' b' vs'"
      "free_merged us b vs (us' @ b'\<lparr>bt_type := btt_free\<rparr> # vs')"
  | (exported) us' s b' e vs' where "ra_ok F (FreeBT (bt b) f A)"
      "segments (FreeBT (bt b) f A) = us' @ vs'" "grown us b vs (us' @ [s]) b' (e # vs')"
      "bt_type s = btt_span" "bt_type e = btt_span" "free_merged us b vs (us' @ vs')"
proof -
  have b0: "seg_at (bt b) A = Some b" using seg_at_found [OF inv, of b] sg by simp
  obtain us1 b1 where c1: "ra_inv F {bt b} (coalesce_prev (bt b) b A)"
    "segments (coalesce_prev (bt b) b A) = us1 @ b1 # vs" "grown us b vs us1 b1 vs"
    "join_before us b = (us1, seg_lo b1)" "seg_hi b1 = seg_hi b"
    by (rule coalesce_prev_inv [OF inv sg b])
  have bb1: "bt b1 = bt b" "bt_type b1 \<noteq> btt_span" using c1(3) b by (auto simp: grown_def)
  define A1 where "A1 = coalesce_prev (bt b) b A"
  have s1: "seg_at (bt b) A1 = Some b1"
    using seg_at_found [of F "{bt b}" A1 b1] c1(1,2) bb1 by (simp add: A1_def)
  obtain b2 vs2 where c2: "ra_inv F {bt b} (coalesce_next (bt b) b1 A1)"
    "segments (coalesce_next (bt b) b1 A1) = us1 @ b2 # vs2" "grown us1 b1 vs us1 b2 vs2"
    "join_after b1 vs = (vs2, seg_hi b2)" "seg_lo b2 = seg_lo b1"
    using coalesce_next_inv [of F b1 A1 us1 vs] c1(1,2) bb1 by (auto simp: A1_def)
  have g2: "grown us b vs us1 b2 vs2" by (rule grown_trans [OF c1(3) c2(3)])
  have jn: "join_before us b = (us1, seg_lo b2)" "join_after b vs = (vs2, seg_hi b2)"
    using c1(4,5) c2(4,5) by (simp_all add: join_after_def cong: if_cong)
  have bb2: "bt b2 = bt b" "bt_type b2 \<noteq> btt_span" using g2 b by (auto simp: grown_def)
  define A2 where "A2 = coalesce_next (bt b) b1 A1"
  have s2: "seg_at (bt b) A2 = Some b2"
    using seg_at_found [of F "{bt b}" A2 b2] c2(1,2) bb2 by (simp add: A2_def)
  define A3 where "A3 = (if f then free_backing (bt_base b) (bt_uSize b) b2 A2 else A2)"
  have i3: "ra_inv F {bt b2} A3" and sg3: "segments A3 = us1 @ b2 # vs2"
    using c2(1,2) bb2 by (auto simp: A3_def A2_def free_backing_simps)
  have at: "at_seg us1 b2 vs2" by (rule ra_inv_at [OF i3 sg3])
  have F: "FreeBT (bt b) f A =
      (case (next_segment (bt b) (segments A3), prev_segment (bt b) (segments A3)) of
         (Some next, Some prev) \<Rightarrow>
           if bt_type next = btt_span \<and> bt_type prev = btt_span then
             ra_free_mem (bt b) (ra_free_mem (bt prev) (ra_free_mem (bt next)
               (call_import_free (bt_base b2) (bt_psMapping b2)
                 (SegmentListRemove (bt b) (SegmentListRemove (bt prev) (SegmentListRemove (bt next) A3))))))
           else FreeListInsert (bt b) A3
       | _ \<Rightarrow> FreeListInsert (bt b) A3)"
    by (simp only: FreeBT_def Let_def b0 option.case A1_def [symmetric] s1 A2_def [symmetric] s2 A3_def [symmetric])
  have nx: "next_segment (bt b) (segments A3) = (case vs2 of [] \<Rightarrow> None | n # _ \<Rightarrow> Some n)"
    and pv: "prev_segment (bt b) (segments A3) = (if us1 = [] then None else Some (last us1))"
    using next_segment_at [of b2 us1 vs2] prev_segment_at [OF at] at_segD [OF at] sg3 bb2 by auto
  show thesis
  proof (cases "us1 \<noteq> [] \<and> vs2 \<noteq> [] \<and> bt_type (last us1) = btt_span \<and> bt_type (hd vs2) = btt_span")
    case True
    then obtain us' s e vs' where us: "us1 = us' @ [s]" "vs2 = e # vs'" "bt_type s = btt_span" "bt_type e = btt_span"
      by (metis append_butlast_last_id list.collapse)
    then have F': "FreeBT (bt b) f A = ra_free_mem (bt b2) (ra_free_mem (bt s) (ra_free_mem (bt e)
               (call_import_free (bt_base b2) (bt_psMapping b2)
                 (SegmentListRemove (bt b2) (SegmentListRemove (bt s) (SegmentListRemove (bt e) A3))))))"
      using F nx pv bb2 by simp
    have sg4: "segments A3 = us' @ s # b2 # e # vs'" using sg3 us by simp
    show thesis
      by (rule exported [where us' = us' and s = s and b' = b2 and e = e and vs' = vs']) (use export_inv [OF i3 sg4 us(3,4) F'] g2 us jn in \<open>auto simp: free_merged_def\<close>)
  next
    case False
    then have F': "FreeBT (bt b) f A = FreeListInsert (bt b2) A3"
      using F nx pv bb2 by (auto split: list.splits)
    have "free_merged us b vs (us1 @ b2\<lparr>bt_type := btt_free\<rparr> # vs2)"
      using False g2 bb2 jn by (auto simp: free_merged_def grown_def seg_lo_def seg_hi_def seg_len_def)
    then show thesis
      by (intro kept) (use FreeListInsert_inv [of F b2 "{}" A3 us1 vs2] i3 sg3 bb2 F' g2 in auto)
  qed
qed

section \<open>Finding a segment\<close>

lemma scan_tables_Some:
  assumes "scan_tables fits A i = Some p"
  shows "\<exists>j \<ge> i. j < FREE_TABLE_LIMIT \<and> p \<in> set (aHeadFree A ! j) \<and> fits p"
  using assms
proof (induction fits A i rule: scan_tables.induct)
  case (1 fits A i)
  show ?case
  proof (cases "i < FREE_TABLE_LIMIT")
    case False
    with 1(2) show ?thesis by (simp add: scan_tables.simps)
  next
    case True
    show ?thesis
    proof (cases "List.find fits (aHeadFree A ! i)")
      case None
      with 1(2) True have "scan_tables fits A (i + 1) = Some p" by (subst (asm) scan_tables.simps) simp
      from 1(1) [OF True None this] show ?thesis by (meson add_leD1)
    next
      case (Some q)
      with 1(2) True have "q = p" by (subst (asm) scan_tables.simps) simp
      with Some True show ?thesis by (auto simp: find_Some_iff)
    qed
  qed
qed

lemma scan_tables_None:
  assumes "scan_tables fits A i = None" "i \<le> j" "j < FREE_TABLE_LIMIT" "p \<in> set (aHeadFree A ! j)"
  shows "\<not> fits p"
  using assms
proof (induction fits A i rule: scan_tables.induct)
  case (1 fits A i)
  have i: "i < FREE_TABLE_LIMIT" using 1(3,4) by simp
  have n: "List.find fits (aHeadFree A ! i) = None"
    using 1(2) i by (subst (asm) scan_tables.simps) (auto split: option.splits)
  with 1(2) i have r: "scan_tables fits A (i + 1) = None" by (subst (asm) scan_tables.simps) simp
  show ?case
  proof (cases "i = j")
    case True
    then show ?thesis using n 1(5) by (simp add: find_None_all)
  next
    case False
    then show ?thesis using 1(1) [OF i n r] 1(3-5) by simp
  qed
qed

lemma skip_empty_spec:
  "i \<le> skip_empty A i \<and> (\<forall>j. i \<le> j \<longrightarrow> j < skip_empty A i \<longrightarrow> j < FREE_TABLE_LIMIT \<longrightarrow> aHeadFree A ! j = [])"
proof (induction A i rule: skip_empty.induct)
  case (1 A i)
  show ?case
  proof (cases "i < FREE_TABLE_LIMIT \<and> aHeadFree A ! i = []")
    case False
    then have "skip_empty A i = i" by (auto simp: skip_empty.simps)
    then show ?thesis by simp
  next
    case True
    then have "skip_empty A i = skip_empty A (i + 1)" by (subst skip_empty.simps) simp
    moreover have "aHeadFree A ! j = []" if "i \<le> j" "j < skip_empty A (i + 1)" "j < FREE_TABLE_LIMIT" for j
      using 1 [OF True] True that by (cases "j = i") auto
    ultimately show ?thesis using 1 [OF True] by auto
  qed
qed

lemma free_table_segment:
  assumes "ra_ok F A" "j < FREE_TABLE_LIMIT" "p \<in> set (aHeadFree A ! j)"
  obtains b where "b \<in> set (segments A)" "bt b = p" "bt_type b = btt_free" "pvr_log2 (bt_uSize b) = j"
proof -
  have "(p, j) \<in> free_set (segments A) {}" using assms by (auto simp: ra_inv_def tables_ok_def)
  then show thesis using that by (auto simp: free_set_def)
qed

definition find_segment ::
  "IMG_SIZE_T \<Rightarrow> IMG_UINT32 \<Rightarrow> IMG_UINT32 \<Rightarrow> IMG_UINT32 \<Rightarrow> 'w RA_ARENA \<Rightarrow> IMG_UINTPTR_T option" where
  "find_segment sz uFlags uAlignment off A =
     scan_tables (segment_fits sz uFlags uAlignment off A) A (skip_empty A (pvr_log2 sz))"

lemma unat_mult_exact:
  "unat x * unat y < 2 ^ LENGTH('a) \<Longrightarrow> unat (x * y) = unat x * unat (y :: 'a :: len word)"
  by (simp add: unat_word_ariths)

lemma aligned_base_spec:
  assumes "seg_lo b < 2 ^ 63" "uAlignment > 1" "off < uAlignment"
  shows "seg_lo b \<le> unat (aligned_base (bt_base b) uAlignment off) \<and>
         unat (aligned_base (bt_base b) uAlignment off) < seg_lo b + unat uAlignment \<and>
         (unat (aligned_base (bt_base b) uAlignment off) + unat off) mod unat uAlignment = 0"
proof -
  let ?a = "ucast uAlignment :: IMG_UINTPTR_T" and ?o = "ucast off :: IMG_UINTPTR_T"
  let ?N = "bt_base b + ?o + ?a - 1"
  have a: "unat ?a = unat uAlignment" "unat ?o = unat off" by (rule unat_ucast_widen)+
  have lt: "unat off < unat uAlignment" "1 < unat uAlignment" using assms(2,3) by (auto simp: word_less_nat_alt)
  have b32: "unat uAlignment < 2 ^ 32" by (rule unat_less32)
  have s1: "unat (bt_base b + ?o) = seg_lo b + unat off"
    using assms(1) lt b32 a by (subst unat_add_exact) (auto simp: seg_lo_def)
  have s2: "unat (bt_base b + ?o + ?a) = seg_lo b + unat off + unat uAlignment"
    using assms(1) lt b32 a s1 by (subst unat_add_exact) auto
  then have "1 \<le> bt_base b + ?o + ?a" using lt by (simp add: word_le_nat_alt)
  then have N: "unat ?N = seg_lo b + unat off + unat uAlignment - 1" using s2 by (simp add: unat_sub)
  let ?q = "unat ?N div unat uAlignment * unat uAlignment"
  have q: "?q \<le> unat ?N" "unat ?N < ?q + unat uAlignment"
  proof -
    have e: "?q + unat ?N mod unat uAlignment = unat ?N" by (rule div_mult_mod_eq)
    have "unat ?N mod unat uAlignment < unat uAlignment" by (rule mod_less_divisor) (use lt in simp)
    with e show "?q \<le> unat ?N" "unat ?N < ?q + unat uAlignment" by linarith+
  qed
  have m: "unat (?N div ?a * ?a) = ?q"
  proof -
    have "unat ?N < 2 ^ 64" using N assms(1) lt b32 by simp
    with q(1) have "?q < 2 ^ 64" by (rule order.strict_trans1)
    then have "unat (?N div ?a) * unat ?a < 2 ^ 64" using a by (simp add: unat_div)
    then have "unat (?N div ?a * ?a) = unat (?N div ?a) * unat ?a" by (intro unat_mult_exact) simp
    then show ?thesis by (simp only: unat_div a)
  qed
  have "?o \<le> ?N div ?a * ?a" using m q(2) N a lt by (simp add: word_le_nat_alt)
  then have r: "unat (?N div ?a * ?a - ?o) = ?q - unat off" using m a by (simp add: unat_sub)
  have "aligned_base (bt_base b) uAlignment off = ?N div ?a * ?a - ?o" using assms(2) by (simp add: aligned_base_def)
  then have u: "unat (aligned_base (bt_base b) uAlignment off) = ?q - unat off" using r by simp
  define Q where "Q = ?q"
  have Q: "Q \<le> seg_lo b + unat off + unat uAlignment - 1" "seg_lo b + unat off + unat uAlignment - 1 < Q + unat uAlignment"
    using q N by (simp_all add: Q_def)
  then have "seg_lo b \<le> Q - unat off" "Q - unat off < seg_lo b + unat uAlignment" "Q - unat off + unat off = Q"
    using lt by linarith+
  moreover have "Q mod unat uAlignment = 0" by (simp add: Q_def)
  ultimately show ?thesis using u by (simp add: Q_def [symmetric])
qed

section \<open>Allocating\<close>

lemma seg_hi_free: "bt_type b \<noteq> btt_span \<Longrightarrow> seg_hi b = seg_lo b + unat (bt_uSize b)"
  by (simp add: seg_hi_def seg_len_def)

lemma split_parts:
  assumes "geo (us @ b # vs)" "bt_type b = btt_free" "n \<noteq> 0" "n < bt_uSize b"
    and "nb = \<lparr>bt = q, bt_type = btt_free, bt_base = bt_base b + ucast n, bt_uSize = bt_uSize b - n, bt_psMapping = m\<rparr>"
  shows "seg_lo (b\<lparr>bt_uSize := n\<rparr>) = seg_lo b" "seg_hi (b\<lparr>bt_uSize := n\<rparr>) = seg_lo b + unat n"
    "seg_lo nb = seg_lo b + unat n" "seg_hi nb = seg_hi b"
proof -
  have ok: "seg_ok b" using assms(1) by (simp add: geo_def)
  have u: "unat (bt_base b + ucast n) = seg_lo b + unat n"
    using unat_base_size [OF ok _ , of n] assms(2,4) by simp
  have n: "unat n < unat (bt_uSize b)" using assms(4) by (simp add: word_less_nat_alt)
  then have d: "unat (bt_uSize b - n) = unat (bt_uSize b) - unat n" by (simp add: unat_sub word_le_nat_alt)
  show "seg_lo (b\<lparr>bt_uSize := n\<rparr>) = seg_lo b" "seg_hi (b\<lparr>bt_uSize := n\<rparr>) = seg_lo b + unat n"
    "seg_lo nb = seg_lo b + unat n" "seg_hi nb = seg_hi b"
    using u d n assms(2,5) by (auto simp: seg_lo_def seg_hi_def seg_len_def)
qed

text \<open>The front split: afterwards the segment in hand starts at the aligned base.\<close>

definition front_split :: "IMG_UINTPTR_T \<Rightarrow> BT \<Rightarrow> 'w RA_ARENA \<Rightarrow> bool \<times> IMG_UINTPTR_T \<times> 'w RA_ARENA" where
  "front_split abase b A1 =
     (if abase > bt_base b then
        (let (q, A') = SegmentSplit (bt b) (ucast (abase - bt_base b)) A1
         in (q \<noteq> IMG_NULL, q, FreeListInsert (bt b) A'))
      else (True, bt b, A1))"

definition back_split :: "IMG_SIZE_T \<Rightarrow> IMG_UINTPTR_T \<Rightarrow> BT \<Rightarrow> 'w RA_ARENA \<Rightarrow> bool \<times> 'w RA_ARENA" where
  "back_split sz p b2 A2 =
     (if bt_uSize b2 > sz then
        (let (q, A') = SegmentSplit p sz A2
         in if q = IMG_NULL then (False, FreeListInsert p A') else (True, FreeListInsert q A'))
      else (True, A2))"

lemma take_segment_alt:
  "take_segment sz abase b A =
     (case front_split abase b (FreeListRemove (bt b) A) of (bFront, p, A2) \<Rightarrow>
        if \<not> bFront then (False, 0, IMG_NULL, A2)
        else
          (case seg_at p A2 of
             None \<Rightarrow> (False, 0, IMG_NULL, A2\<lparr>ra_fault := True\<rparr>)
           | Some b2 \<Rightarrow>
               (case back_split sz p b2 A2 of (bBack, A3) \<Rightarrow>
                  if \<not> bBack then (False, 0, IMG_NULL, A3)
                  else
                    (let A4 = update_segment p (\<lambda>x. x\<lparr>bt_type := btt_live\<rparr>) A3;
                         (ok, h, os') = HASH_Insert (pSegmentHash A4) (bt_base b2) p (ra_os A4);
                         A5 = A4\<lparr>pSegmentHash := h, ra_os := os'\<rparr>
                     in if \<not> ok then (False, 0, IMG_NULL, FreeBT p False A5)
                        else (True, bt_base b2, bt_psMapping b2, A5)))))"
  unfolding take_segment_def front_split_def back_split_def Let_def by (simp split: prod.splits)

lemma front_split_inv:
  assumes inv: "ra_inv F {bt b} A" and sg: "segments A = us @ b # vs" and b: "bt_type b = btt_free"
    and ab: "seg_lo b \<le> unat abase" "unat abase < seg_hi b"
    and r: "front_split abase b A = (bF, p, A2)"
  obtains
    (oom) "\<not> bF" "ra_ok F A2" "segments A2 = us @ b # vs"
  | (taken) us' b' where "bF" "ra_inv F {bt b'} A2" "p = bt b'" "segments A2 = us' @ b' # vs"
      "bt_type b' = btt_free" "bt_base b' = abase" "seg_hi b' = seg_hi b" "bt_psMapping b' = bt_psMapping b"
      "live_segs us' = live_segs us" "free_space us' = free_space us \<union> {seg_lo b ..< unat abase}"
proof (cases "abase > bt_base b")
  case False
  moreover have "bt_base b \<le> abase" using ab(1) by (simp add: seg_lo_def word_le_nat_alt)
  ultimately have "abase = bt_base b" by simp
  then show thesis
    using False r inv sg b by (intro taken [where us' = us and b' = b]) (auto simp: front_split_def seg_lo_def)
next
  case True
  let ?n = "ucast (abase - bt_base b) :: IMG_SIZE_T"
  have d: "unat (abase - bt_base b) = unat abase - seg_lo b"
    using True by (simp add: unat_sub seg_lo_def)
  have "unat abase - seg_lo b < unat (bt_uSize b)" using ab b seg_hi_free [of b] by simp
  then have small: "unat abase - seg_lo b < 2 ^ 32" using unat_less32 [of "bt_uSize b"] by linarith
  have n: "unat ?n = unat abase - seg_lo b"
    using d small by (simp add: unsigned_ucast_eq take_bit_nat_eq_self_iff)
  have n0: "?n \<noteq> 0" "?n < bt_uSize b"
  proof -
    show "?n < bt_uSize b" using n ab b seg_hi_free [of b] by (simp add: word_less_nat_alt)
    have "0 < unat ?n" using n True by (simp add: seg_lo_def word_less_nat_alt)
    then show "?n \<noteq> 0" by auto
  qed
  obtain q A' where sp: "SegmentSplit (bt b) ?n A = (q, A')" by (cases "SegmentSplit (bt b) ?n A")
  have F: "bF = (q \<noteq> IMG_NULL)" "p = q" "A2 = FreeListInsert (bt b) A'"
    using r True sp by (auto simp: front_split_def)
  let ?b1 = "b\<lparr>bt_uSize := ?n\<rparr>"
  define nb where "nb = \<lparr>bt = q, bt_type = btt_free, bt_base = bt_base b + ucast ?n, bt_uSize = bt_uSize b - ?n, bt_psMapping = bt_psMapping b\<rparr>"
  have g: "geo (us @ b # vs)" using inv sg by (simp add: ra_inv_def)
  note parts = split_parts [OF g b n0 nb_def]
  have base: "bt_base nb = abase"
    using parts(3) n True by (simp add: nb_def seg_lo_def word_unat_eq_iff word_less_nat_alt)
  from SegmentSplit_inv [OF inv sg _ _ n0 sp] b
  consider "q = IMG_NULL" "ra_inv F {bt b} A'" "segments A' = us @ b # vs"
    | "q \<noteq> IMG_NULL" "q \<notin> bt ` set (us @ b # vs)" "ra_inv F {q, bt b} A'" "segments A' = us @ ?b1 # nb # vs"
    by (auto simp: nb_def)
  then show thesis
  proof cases
    case 1
    have "b\<lparr>bt_type := btt_free\<rparr> = b" using b by simp
    with FreeListInsert_inv [OF 1(2,3)] F 1 b show thesis by (intro oom) auto
  next
    case 2
    have e: "?b1\<lparr>bt_type := btt_free\<rparr> = ?b1" using b by simp
    have i: "ra_inv F (insert (bt ?b1) {q}) A'" using 2(3) by (simp add: insert_commute)
    from FreeListInsert_inv [OF i 2(4)] 2(2) b e F
    have "ra_inv F {q} A2" "segments A2 = us @ ?b1 # nb # vs" by auto
    then show thesis
      using 2 F b parts base n ab
      by (intro taken [where us' = "us @ [?b1]" and b' = nb]) (auto simp: nb_def live_segs_def space_simps)
  qed
qed

lemma back_split_inv:
  assumes inv: "ra_inv F {bt b} A" and sg: "segments A = us @ b # vs" and b: "bt_type b = btt_free"
    and sz: "sz \<noteq> 0" "unat sz \<le> unat (bt_uSize b)"
    and r: "back_split sz (bt b) b A = (bB, A3)"
  obtains
    (oom) "\<not> bB" "ra_ok F A3" "segments A3 = us @ b # vs"
  | (taken) b' vs' where "bB" "ra_inv F {bt b} A3" "bt b' = bt b" "segments A3 = us @ b' # vs'"
      "bt_type b' = btt_free" "bt_base b' = bt_base b" "bt_uSize b' = sz" "bt_psMapping b' = bt_psMapping b"
      "live_segs vs' = live_segs vs" "free_space vs' = {seg_lo b + unat sz ..< seg_hi b} \<union> free_space vs"
proof (cases "bt_uSize b > sz")
  case False
  then have "bt_uSize b = sz" using sz(2) by (simp add: word_less_nat_alt word_unat_eq_iff)
  then show thesis
    using False r inv sg b by (intro taken [where b' = b and vs' = vs]) (auto simp: back_split_def seg_hi_free)
next
  case True
  obtain q A' where sp: "SegmentSplit (bt b) sz A = (q, A')" by (cases "SegmentSplit (bt b) sz A")
  have F: "bB = (q \<noteq> IMG_NULL)" "A3 = (if q = IMG_NULL then FreeListInsert (bt b) A' else FreeListInsert q A')"
    using r True sp by (auto simp: back_split_def split: if_splits)
  let ?b = "b\<lparr>bt_uSize := sz\<rparr>"
  define nb where "nb = \<lparr>bt = q, bt_type = btt_free, bt_base = bt_base b + ucast sz, bt_uSize = bt_uSize b - sz, bt_psMapping = bt_psMapping b\<rparr>"
  have g: "geo (us @ b # vs)" using inv sg by (simp add: ra_inv_def)
  note parts = split_parts [OF g b sz(1) True nb_def]
  have nbf: "bt nb = q" "bt_type nb = btt_free" "nb\<lparr>bt_type := btt_free\<rparr> = nb" by (simp_all add: nb_def)
  from SegmentSplit_inv [OF inv sg _ _ sz(1) True sp] b
  consider "q = IMG_NULL" "ra_inv F {bt b} A'" "segments A' = us @ b # vs"
    | "q \<noteq> IMG_NULL" "q \<notin> bt ` set (us @ b # vs)" "ra_inv F {q, bt b} A'" "segments A' = us @ ?b # nb # vs"
    by (auto simp: nb_def)
  then show thesis
  proof cases
    case 1
    have "b\<lparr>bt_type := btt_free\<rparr> = b" using b by simp
    with FreeListInsert_inv [OF 1(2,3)] F 1 b show thesis by (intro oom) auto
  next
    case 2
    have sg': "segments A' = (us @ [?b]) @ nb # vs" using 2(4) by simp
    have i: "ra_inv F (insert (bt nb) {bt b}) A'" using 2(3) nbf by simp
    from FreeListInsert_inv [OF i sg'] 2(1,2) nbf F
    have "ra_inv F {bt b} A3" "segments A3 = us @ ?b # nb # vs" by auto
    then show thesis
      using 2 F b parts nbf by (intro taken [where b' = ?b and vs' = "nb # vs"]) (auto simp: live_segs_def space_simps)
  qed
qed

lemma live_segs_append: "live_segs (us @ vs) = live_segs us @ live_segs vs"
  by (simp add: live_segs_def)

lemma FreeBT_live:
  assumes "ra_inv F {bt b} A" "segments A = us @ b # vs" "bt_type b \<noteq> btt_span"
  shows "ra_ok F (FreeBT (bt b) f A)" and "live_segs (segments (FreeBT (bt b) f A)) = live_segs (us @ vs)"
    and "free_space (segments (FreeBT (bt b) f A)) \<subseteq> free_space (us @ vs) \<union> {seg_lo b ..< seg_hi b}"
proof -
  have "ra_ok F (FreeBT (bt b) f A) \<and> live_segs (segments (FreeBT (bt b) f A)) = live_segs (us @ vs) \<and>
      free_space (segments (FreeBT (bt b) f A)) \<subseteq> free_space (us @ vs) \<union> {seg_lo b ..< seg_hi b}"
    using assms
  proof (cases rule: FreeBT_inv [where f = f])
    case (kept us' b' vs')
    have "{seg_lo (b'\<lparr>bt_type := btt_free\<rparr>) ..< seg_hi (b'\<lparr>bt_type := btt_free\<rparr>)} = {seg_lo b' ..< seg_hi b'}"
      using kept(3) assms(3) by (simp add: grown_def seg_lo_def seg_hi_def seg_len_def)
    then have "free_space (us' @ b'\<lparr>bt_type := btt_free\<rparr> # vs') = free_space (us @ vs) \<union> {seg_lo b ..< seg_hi b}"
      using kept(3) unfolding grown_def by (auto simp: space_simps)
    moreover have "live_segs (us' @ b'\<lparr>bt_type := btt_free\<rparr> # vs') = live_segs (us @ vs)"
      using kept(3) by (simp add: grown_def live_segs_def)
    ultimately show ?thesis
      using kept(1,2) by simp
  next
    case (exported us' x b' e vs')
    have "free_space (us' @ vs') \<union> {seg_lo b' ..< seg_hi b'} = free_space (us @ vs) \<union> {seg_lo b ..< seg_hi b}"
      using exported(3-5) by (simp add: grown_def space_simps)
    moreover have "live_segs (us' @ vs') = live_segs (us @ vs)"
      using exported(3-5) by (simp add: grown_def live_segs_def)
    ultimately show ?thesis
      using exported(1,2) by auto
  qed
  then show "ra_ok F (FreeBT (bt b) f A)" "live_segs (segments (FreeBT (bt b) f A)) = live_segs (us @ vs)"
    "free_space (segments (FreeBT (bt b) f A)) \<subseteq> free_space (us @ vs) \<union> {seg_lo b ..< seg_hi b}" by auto
qed

lemma free_space_above: "geo (us @ b # vs) \<Longrightarrow> free_space vs \<inter> {..< seg_hi b} = {}"
  by (fastforce simp: geo_append free_space_def)

lemma free_space_below: "geo (us @ b # vs) \<Longrightarrow> free_space us \<inter> {seg_lo b ..} = {}"
  by (fastforce simp: geo_append free_space_def)

lemma take_segment_inv:
  assumes inv: "ra_ok F A" and sg: "segments A = us @ b # vs" and b: "bt_type b = btt_free"
    and sz: "sz \<noteq> 0" and ab: "seg_lo b \<le> unat abase" "unat abase + unat sz \<le> seg_hi b"
    and r: "take_segment sz abase b A = (ok, base, m, A')"
  shows "ra_ok F A'"
    and "\<not> ok \<Longrightarrow> live_segs (segments A') = live_segs (segments A) \<and> free_space (segments A') \<subseteq> free_space (segments A)"
    and "ok \<Longrightarrow> base = abase \<and> m = bt_psMapping b \<and>
           free_space (segments A') = free_space (segments A) - {unat abase ..< unat abase + unat sz} \<and>
           (\<exists>x. live_segs (segments A') = live_segs us @ x # live_segs vs \<and>
                bt_base x = abase \<and> bt_uSize x = sz \<and> bt_psMapping x = m)"
proof -
  have live: "live_segs (us @ b # vs) = live_segs us @ live_segs vs" using b by (simp add: live_segs_def)
  have szp: "0 < unat sz" using sz by (simp add: unat_gt_0)
  have hb: "unat abase < seg_hi b" using ab(2) szp by simp
  have i1: "ra_inv F {bt b} (FreeListRemove (bt b) A)" "segments (FreeListRemove (bt b) A) = us @ b # vs"
    using FreeListRemove_inv [OF inv sg b] by auto
  obtain bF p A2 where fs: "front_split abase b (FreeListRemove (bt b) A) = (bF, p, A2)" by (metis prod_cases3)
  have "ra_ok F A' \<and>
      (\<not> ok \<longrightarrow> live_segs (segments A') = live_segs (segments A) \<and> free_space (segments A') \<subseteq> free_space (segments A)) \<and>
      (ok \<longrightarrow> base = abase \<and> m = bt_psMapping b \<and>
         free_space (segments A') = free_space (segments A) - {unat abase ..< unat abase + unat sz} \<and>
         (\<exists>x. live_segs (segments A') = live_segs us @ x # live_segs vs \<and>
              bt_base x = abase \<and> bt_uSize x = sz \<and> bt_psMapping x = m))"
    using i1 b ab(1) hb fs
  proof (cases rule: front_split_inv)
    case oom
    then show ?thesis using r fs sg by (auto simp: take_segment_alt)
  next
    case (taken us' b')
    have s2: "seg_at p A2 = Some b'" using seg_at_found [OF taken(2), of b'] taken(3,4) by simp
    have lo: "seg_lo b' = unat abase" using taken(6) by (simp add: seg_lo_def)
    have sz': "unat sz \<le> unat (bt_uSize b')"
      using ab(2) taken(5,7) lo seg_hi_free [of b'] by simp
    obtain bB A3 where bs: "back_split sz (bt b') b' A2 = (bB, A3)" by fastforce
    show ?thesis
      using taken(2,4,5) sz sz' bs
    proof (cases rule: back_split_inv)
      case oom
      show ?thesis
      proof -
        have "\<not> ok" "segments A' = us' @ b' # vs" "A' = A3"
          using r fs taken s2 bs oom by (auto simp: take_segment_alt)
        moreover have "live_segs (us' @ b' # vs) = live_segs (us @ b # vs)"
          using taken(5,9) b by (simp add: live_segs_append) (simp add: live_segs_def)
        moreover have "free_space (us' @ b' # vs) \<subseteq> free_space (us @ b # vs)"
          using taken(5,7,10) b lo ab by (auto simp: space_simps)
        ultimately show ?thesis
          using oom(2) sg by simp
      qed
    next
      case t: (taken b'' vs')
      let ?A4 = "update_segment (bt b'') (\<lambda>x. x\<lparr>bt_type := btt_live\<rparr>) A3" and ?l = "b''\<lparr>bt_type := btt_live\<rparr>"
      have i4: "ra_inv F {bt ?l} ?A4" "segments ?A4 = us' @ ?l # vs'"
        using update_type_inv [of F "{bt b}" A3 us' b'' vs' btt_live] update_type_inv [of F "{bt b'}" A3 us' b'' vs' btt_live] t by auto
      obtain ok' h s' where hi: "HASH_Insert (pSegmentHash ?A4) (bt_base b') (bt b') (ra_os ?A4) = (ok', h, s')"
        by (metis prod_cases3)
      let ?A5 = "?A4\<lparr>pSegmentHash := h, ra_os := s'\<rparr>"
      have i5: "ra_inv F (if ok' then {} else {bt ?l}) ?A5"
        using hash_insert_inv [of F ?l "{}" ?A4 us' vs' ok' h s'] i4 hi t by simp
      have R: "(ok, base, m, A') = (if \<not> ok' then (False, 0, IMG_NULL, FreeBT (bt ?l) False ?A5)
          else (True, bt_base b', bt_psMapping b', ?A5))"
        using r fs taken(1,3) s2 bs t(1,3) hi by (simp add: take_segment_alt Let_def split: if_splits)
      have lv: "live_segs (us' @ vs') = live_segs us @ live_segs vs"
        using taken(9) t(9) by (simp add: live_segs_append)
      show ?thesis
      proof (cases ok')
        case False
        then have "ra_ok F A'" "live_segs (segments A') = live_segs (us' @ vs')"
            "free_space (segments A') \<subseteq> free_space (us' @ vs') \<union> {seg_lo ?l ..< seg_hi ?l}"
          using R FreeBT_live [of F ?l ?A5 us' vs' False] i5 i4 by simp_all
        moreover have "seg_lo ?l = unat abase" "seg_hi ?l = unat abase + unat sz"
          using t(6,7) lo by (simp_all add: seg_lo_def seg_hi_def seg_len_def)
        then have "free_space (us' @ vs') \<union> {seg_lo ?l ..< seg_hi ?l} \<subseteq> free_space (us @ b # vs)"
          using taken(7,10) t(10) lo b ab by (auto simp: space_simps)
        ultimately show ?thesis
          using R False lv live sg by auto
      next
        case True
        have g: "geo (us @ b # vs)" using inv sg by (simp add: ra_inv_def)
        have "free_space (us' @ ?l # vs') = free_space (us @ b # vs) - {unat abase ..< unat abase + unat sz}"
          using taken(7,10) t(10) lo b ab free_space_above [OF g] free_space_below [OF g]
          by (auto simp: space_simps)
        then show ?thesis
          using True R i5 i4 taken t lv sg live by (auto simp: live_segs_append) (simp add: live_segs_def)
      qed
    qed
  qed
  then show "ra_ok F A'"
    "\<not> ok \<Longrightarrow> live_segs (segments A') = live_segs (segments A) \<and> free_space (segments A') \<subseteq> free_space (segments A)"
    "ok \<Longrightarrow> base = abase \<and> m = bt_psMapping b \<and>
           free_space (segments A') = free_space (segments A) - {unat abase ..< unat abase + unat sz} \<and>
           (\<exists>x. live_segs (segments A') = live_segs us @ x # live_segs vs \<and>
                bt_base x = abase \<and> bt_uSize x = sz \<and> bt_psMapping x = m)" by auto
qed

text \<open>The blocks handed out: the base and size of every live segment.\<close>

definition live_blocks :: "'w RA_ARENA \<Rightarrow> (IMG_UINTPTR_T \<times> IMG_SIZE_T) multiset" where
  "live_blocks A = mset (map (\<lambda>b. (bt_base b, bt_uSize b)) (live_segs (segments A)))"

lemma aligned_base_bounds:
  assumes "seg_ok b" "off = (if uAlignment > 1 then o' mod uAlignment else o')"
  shows "seg_lo b \<le> unat (aligned_base (bt_base b) uAlignment off)"
    and "unat (aligned_base (bt_base b) uAlignment off) < seg_lo b + 2 ^ 32"
    and "uAlignment > 1 \<Longrightarrow> (unat (aligned_base (bt_base b) uAlignment off) + unat off) mod unat uAlignment = 0"
proof -
  have lo: "seg_lo b < 2 ^ 63" using assms(1) by (simp add: seg_ok_def seg_hi_def)
  have off: "off < uAlignment" if "uAlignment > 1"
  proof -
    have "uAlignment \<noteq> 0" using that by auto
    then show ?thesis using that assms(2) unat_mod_less [of uAlignment o'] by (simp add: word_less_nat_alt)
  qed
  show "seg_lo b \<le> unat (aligned_base (bt_base b) uAlignment off)"
    "unat (aligned_base (bt_base b) uAlignment off) < seg_lo b + 2 ^ 32"
    "uAlignment > 1 \<Longrightarrow> (unat (aligned_base (bt_base b) uAlignment off) + unat off) mod unat uAlignment = 0"
    using aligned_base_spec [OF lo, of uAlignment off] off unat_less32 [of uAlignment]
    by (cases "uAlignment > 1"; force simp: aligned_base_def seg_lo_def)+
qed

lemma segment_fits_iff:
  assumes inv: "ra_ok F A" and b: "b \<in> set (segments A)" "bt_type b = btt_free"
    and off: "off = (if al > 1 then o' mod al else o')"
  shows "segment_fits sz fl al off A (bt b) \<longleftrightarrow>
           unat (aligned_base (bt_base b) al off) + unat sz \<le> seg_hi b \<and>
           (bt_psMapping b = IMG_NULL \<or> mapping_flags A (bt_psMapping b) = fl)"
proof -
  have ok: "seg_ok b" using inv b(1) by (simp add: ra_inv_def geo_def)
  have hi: "unat (bt_base b + ucast (bt_uSize b)) = seg_hi b"
    using unat_base_size [OF ok, of "bt_uSize b"] b(2) by (simp add: seg_hi_free)
  have "unat (aligned_base (bt_base b) al off) + unat (ucast sz :: IMG_UINTPTR_T) < 2 ^ 64"
    using aligned_base_bounds(2) [OF ok off] ok unat_less32 [of sz] unat_ucast_widen [of sz]
    by (simp add: seg_ok_def seg_hi_def)
  then have "unat (aligned_base (bt_base b) al off + ucast sz) = unat (aligned_base (bt_base b) al off) + unat sz"
    using unat_ucast_widen [of sz] by (simp add: unat_add_exact)
  then show ?thesis
    using seg_at_found [OF inv b(1)] hi by (simp add: segment_fits_def word_le_nat_alt)
qed

lemma find_segment_complete:
  assumes inv: "ra_ok F A" and off: "off = (if al > 1 then o' mod al else o')"
  shows "find_segment sz fl al off A = None \<longleftrightarrow>
           \<not> (\<exists>b \<in> set (segments A). bt_type b = btt_free \<and> segment_fits sz fl al off A (bt b))"
proof
  assume n: "find_segment sz fl al off A = None"
  show "\<not> (\<exists>b \<in> set (segments A). bt_type b = btt_free \<and> segment_fits sz fl al off A (bt b))"
  proof
    assume "\<exists>b \<in> set (segments A). bt_type b = btt_free \<and> segment_fits sz fl al off A (bt b)"
    then obtain b where b: "b \<in> set (segments A)" "bt_type b = btt_free" and f: "segment_fits sz fl al off A (bt b)" by blast
    let ?j = "pvr_log2 (bt_uSize b)"
    have ok: "seg_ok b" using inv b(1) by (simp add: ra_inv_def geo_def)
    have "unat sz \<le> unat (bt_uSize b)"
      using f segment_fits_iff [OF inv b off] aligned_base_bounds(1) [OF ok off] b(2) seg_hi_free [of b] by simp
    then have j: "pvr_log2 sz \<le> ?j" "?j < FREE_TABLE_LIMIT"
      using pvr_log2_mono [of sz "bt_uSize b"] pvr_log2_limit by (simp_all add: word_le_nat_alt FREE_TABLE_LIMIT_def)
    have "(bt b, ?j) \<in> free_set (segments A) {}" using b by (auto simp: free_set_def)
    then have m: "bt b \<in> set (aHeadFree A ! ?j)" using inv j(2) by (auto simp: ra_inv_def tables_ok_def)
    then have "\<not> ?j < skip_empty A (pvr_log2 sz)" using skip_empty_spec [of "pvr_log2 sz" A] j by fastforce
    then have "skip_empty A (pvr_log2 sz) \<le> ?j" by simp
    from scan_tables_None [OF n [unfolded find_segment_def] this j(2) m] f show False by simp
  qed
next
  assume a: "\<not> (\<exists>b \<in> set (segments A). bt_type b = btt_free \<and> segment_fits sz fl al off A (bt b))"
  show "find_segment sz fl al off A = None"
  proof (cases "find_segment sz fl al off A")
    case (Some p)
    then obtain j where "j < FREE_TABLE_LIMIT" "p \<in> set (aHeadFree A ! j)" "segment_fits sz fl al off A p"
      using scan_tables_Some unfolding find_segment_def by blast
    with free_table_segment [OF inv this(1,2)] a show ?thesis by metis
  qed simp
qed

text \<open>What a successful allocation of \<open>sz\<close> bytes at \<open>base\<close> means.\<close>

definition allocated ::
  "IMG_SIZE_T \<Rightarrow> IMG_UINT32 \<Rightarrow> IMG_UINT32 \<Rightarrow> IMG_UINT32 \<Rightarrow> IMG_UINTPTR_T \<Rightarrow> IMG_UINTPTR_T
    \<Rightarrow> 'w RA_ARENA \<Rightarrow> 'w RA_ARENA \<Rightarrow> bool" where
  "allocated sz fl al o' base m A A' \<longleftrightarrow>
     live_blocks A' = add_mset (base, sz) (live_blocks A) \<and>
     {unat base ..< unat base + unat sz} \<subseteq> free_space (segments A) \<and>
     free_space (segments A') = free_space (segments A) - {unat base ..< unat base + unat sz} \<and>
     (al > 1 \<longrightarrow> (unat base + unat (o' mod al)) mod unat al = 0) \<and>
     (m = IMG_NULL \<or> mapping_flags A m = fl)"

lemma AttemptAllocAligned_inv:
  assumes inv: "ra_ok F A" and sz: "sz \<noteq> 0"
    and r: "AttemptAllocAligned sz fl al o' A = (ok, base, m, A')"
  shows "ra_ok F A' \<and> (if ok then allocated sz fl al o' base m A A'
    else live_blocks A' = live_blocks A \<and> free_space (segments A') \<subseteq> free_space (segments A))"
proof -
  define off where "off = (if al > 1 then o' mod al else o')"
  have R: "(ok, base, m, A') = (case find_segment sz fl al off A of
        None \<Rightarrow> (False, 0, IMG_NULL, A)
      | Some p \<Rightarrow> (case seg_at p A of None \<Rightarrow> (False, 0, IMG_NULL, A\<lparr>ra_fault := True\<rparr>)
          | Some b \<Rightarrow> take_segment sz (aligned_base (bt_base b) al off) b A))"
    using r unfolding AttemptAllocAligned_def find_segment_def Let_def off_def [symmetric] by (rule sym)
  show ?thesis
  proof (cases "find_segment sz fl al off A")
    case None
    then show ?thesis using R inv by simp
  next
    case (Some p)
    then obtain j where j: "j < FREE_TABLE_LIMIT" "p \<in> set (aHeadFree A ! j)" "segment_fits sz fl al off A p"
      using scan_tables_Some unfolding find_segment_def by blast
    obtain b where b: "b \<in> set (segments A)" "bt b = p" "bt_type b = btt_free"
      by (rule free_table_segment [OF inv j(1,2)])
    have ok: "seg_ok b" using inv b(1) by (simp add: ra_inv_def geo_def)
    have T: "take_segment sz (aligned_base (bt_base b) al off) b A = (ok, base, m, A')"
      using R Some seg_at_found [OF inv b(1)] b(2) by simp
    obtain us vs where sg: "segments A = us @ b # vs" using split_list [OF b(1)] by blast
    let ?a = "aligned_base (bt_base b) al off"
    note bd = aligned_base_bounds [OF ok off_def]
    have fit: "unat ?a + unat sz \<le> seg_hi b" "bt_psMapping b = IMG_NULL \<or> mapping_flags A (bt_psMapping b) = fl"
      using j(3) segment_fits_iff [OF inv b(1,3) off_def] b(2) by auto
    note t = take_segment_inv [OF inv sg b(3) sz bd(1) fit(1) T]
    show ?thesis
    proof (cases ok)
      case False
      then show ?thesis using t by (simp add: live_blocks_def)
    next
      case True
      have ba: "base = ?a" using t(3) [OF True] by blast
      have "{unat base ..< unat base + unat sz} \<subseteq> {seg_lo b ..< seg_hi b}"
        using bd(1) fit(1) unfolding ba by auto
      then have "{unat base ..< unat base + unat sz} \<subseteq> free_space (segments A)"
        using free_space_member [OF b(1,3)] by (rule subset_trans)
      moreover have "live_blocks A' = add_mset (base, sz) (live_blocks A)"
        using t(3) [OF True] sg b(3) by (auto simp: live_blocks_def live_segs_append) (simp add: live_segs_def)
      moreover have "al > 1 \<longrightarrow> (unat base + unat (o' mod al)) mod unat al = 0"
        using t(3) [OF True] bd(3) by (auto simp: off_def)
      ultimately show ?thesis using t(1) t(3) [OF True] fit(2) True by (simp add: allocated_def)
    qed
  qed
qed

section \<open>Adding resources\<close>

text \<open>A new region that overlaps no segment and keeps the total below 4 GB.\<close>

definition region_clear :: "IMG_UINTPTR_T \<Rightarrow> IMG_SIZE_T \<Rightarrow> 'w RA_ARENA \<Rightarrow> bool" where
  "region_clear base n A \<longleftrightarrow> n \<noteq> 0 \<and> unat base + unat n < 2 ^ 63 \<and>
     sum_list (map seg_len (segments A)) + unat n < 2 ^ 32 \<and>
     (\<forall>s \<in> set (segments A). seg_hi s \<le> unat base \<or> unat base + unat n \<le> seg_lo s)"

lemma segment_scan_last:
  "xs \<noteq> [] \<Longrightarrow> bt_base (hd xs) \<le> base \<Longrightarrow>
     segment_scan base xs = bt (last (takeWhile (\<lambda>s. bt_base s \<le> base) xs))"
proof (induction base xs rule: segment_scan.induct)
  case (3 base x y ys)
  then show ?case by auto
qed auto

lemma sorted_lo: "geo bs \<Longrightarrow> sorted_wrt (\<lambda>a b. seg_lo a \<le> seg_lo b) bs"
  using sorted_wrt_mono_rel [of bs "\<lambda>a b. seg_hi a \<le> seg_lo b" "\<lambda>a b. seg_lo a \<le> seg_lo b"]
  by (simp add: geo_def seg_hi_def)

lemma SegmentListInsert_at:
  assumes inv: "ra_inv F X A" and cl: "region_clear base n A" and b: "bt_base b = base"
  obtains us vs where "segments A = us @ vs" "SegmentListInsert b A = (PVRSRV_OK, A\<lparr>segments := us @ b # vs\<rparr>)"
    "\<forall>u \<in> set us. seg_hi u \<le> unat base" "\<forall>v \<in> set vs. unat base + unat n \<le> seg_lo v"
proof -
  let ?P = "\<lambda>s. bt_base s \<le> base"
  let ?us = "takeWhile ?P (segments A)" and ?vs = "dropWhile ?P (segments A)"
  have g: "geo (segments A)" using inv by (simp add: ra_inv_def)
  have np: "0 < unat n" using cl by (simp add: region_clear_def unat_gt_0)
  have sg: "segments A = ?us @ ?vs" by simp
  have us: "seg_hi u \<le> unat base" if "u \<in> set ?us" for u
  proof -
    have "u \<in> set (segments A)" "seg_lo u \<le> unat base"
      using that by (auto dest: set_takeWhileD simp: seg_lo_def word_le_nat_alt)
    then show ?thesis using cl np by (auto simp: region_clear_def)
  qed
  have vs: "unat base + unat n \<le> seg_lo v" if v: "v \<in> set ?vs" for v
  proof -
    have "?vs \<noteq> []" using v by (metis empty_iff list.set(1))
    then have h: "\<not> ?P (hd ?vs)" by (rule hd_dropWhile)
    have "sorted_wrt (\<lambda>a b. seg_lo a \<le> seg_lo b) (?us @ ?vs)" using sorted_lo [OF g] by simp
    then have "sorted_wrt (\<lambda>a b. seg_lo a \<le> seg_lo b) ?vs" by (simp only: sorted_wrt_append)
    then have "seg_lo (hd ?vs) \<le> seg_lo v" using v by (cases ?vs) auto
    then have "unat base < seg_lo v" using h by (simp add: seg_lo_def word_le_nat_alt)
    moreover have "v \<in> set (segments A)" using v by (rule set_dropWhileD)
    ultimately show ?thesis using cl by (auto simp: region_clear_def seg_hi_def)
  qed
  have "SegmentListInsert b A = (PVRSRV_OK, A\<lparr>segments := ?us @ b # ?vs\<rparr>)"
  proof (cases "segments A")
    case Nil
    then show ?thesis by (simp add: SegmentListInsert_def)
  next
    case (Cons x xs)
    show ?thesis
    proof (cases "base < bt_base x")
      case True
      then show ?thesis using Cons b by (simp add: SegmentListInsert_def)
    next
      case False
      let ?l = "last ?us"
      have ne: "?us \<noteq> []" using Cons False by (simp add: not_less)
      then have l: "?us = butlast ?us @ [?l]" by simp
      have "?l \<in> set (segments A)" using ne by (metis last_in_set set_takeWhileD)
      then have nz: "bt ?l \<noteq> IMG_NULL" by (rule ra_inv_nonnull [OF inv])
      have sc: "segment_scan base (segments A) = bt ?l" using segment_scan_last [of "segments A" base] Cons False by (simp add: not_less)
      have "segments A = butlast ?us @ ?l # ?vs" using sg l by (metis append.assoc append_Cons append_Nil)
      moreover from this have "bt ?l \<notin> bt ` set (butlast ?us)"
        using ra_inv_at [OF inv] at_segD by blast
      ultimately have "insert_after (bt ?l) b (segments A) = butlast ?us @ ?l # b # ?vs"
        using insert_after_at [of ?l "butlast ?us" b ?vs] by simp
      also have "\<dots> = ?us @ b # ?vs" using l by (metis append.assoc append_Cons append_Nil)
      finally show ?thesis
        using Cons False b nz sc by (simp add: SegmentListInsert_def SegmentListInsertAfter_def)
    qed
  qed
  from that [OF sg this] us vs show thesis by blast
qed

lemma geo_insert:
  assumes "geo (us @ vs)" "\<forall>u \<in> set us. seg_hi u \<le> seg_lo b" "\<forall>v \<in> set vs. seg_hi b \<le> seg_lo v"
    and "sum_list (map seg_len (us @ vs)) + seg_len b < 2 ^ 32" "seg_ok b"
  shows "geo (us @ b # vs)"
  using assms by (auto simp: geo_append)

text \<open>Memory taken and returned inside an operation.\<close>

lemma ra_free_mem_os: "ra_free_mem p (A\<lparr>ra_os := s\<rparr>) = A\<lparr>ra_os := OSFreeMem p s\<rparr>"
  by (simp add: ra_free_mem_def)

definition bt_of :: "IMG_UINTPTR_T \<Rightarrow> bt_kind \<Rightarrow> IMG_UINTPTR_T \<Rightarrow> IMG_SIZE_T \<Rightarrow> BT" where
  "bt_of p t base n = \<lparr>bt = p, bt_type = t, bt_base = base, bt_uSize = n, bt_psMapping = IMG_NULL\<rparr>"

lemma bt_of_simps [simp]:
  "bt (bt_of p t base n) = p" "bt_type (bt_of p t base n) = t" "bt_base (bt_of p t base n) = base"
  "bt_uSize (bt_of p t base n) = n" "bt_psMapping (bt_of p t base n) = IMG_NULL"
  by (simp_all add: bt_of_def)

lemma build_cases:
  assumes "ra_inv F X A"
    and "BuildBT base n A = (r, A1) \<and> t = btt_free \<or> BuildSpanMarker base n A = (r, A1) \<and> t = btt_span"
  obtains (oom) s where "r = None" "A1 = A\<lparr>ra_os := s\<rparr>" "ra_inv F X A1" "blocks s = blocks (ra_os A)"
  | (built) p s where "r = Some (bt_of p t base n)" "p \<noteq> IMG_NULL" "A1 = A\<lparr>ra_os := s\<rparr>"
      "ra_inv (add_mset p F) X A1"
proof -
  obtain e p s where al: "OSAllocMem sizeof_BT (ra_os A) = (e, p, s)" by (metis prod_cases3)
  have r: "A1 = A\<lparr>ra_os := s\<rparr>" "r = (if e = PVRSRV_OK then Some (bt_of p t base n) else None)"
    using assms(2) al by (auto simp: BuildBT_def BuildSpanMarker_def bt_of_def Let_def split: if_splits)
  have "os_ok (ra_os A)" using assms(1) by (simp add: ra_inv_def)
  note fr = OSAllocMem_frame [OF al this]
  show thesis
  proof (cases "e = PVRSRV_OK")
    case False
    then have f: "os_ok s" "blocks s = blocks (ra_os A)" "r = None" using fr r(2) by simp_all
    from oom [OF f(3) r(1) _ f(2)] ra_inv_os [OF assms(1) f(1,2)] r(1) show thesis by blast
  next
    case True
    then have "ra_inv (add_mset p F) X A1" using assms(1) fr r by (simp add: ra_inv_def)
    then show thesis using built [of p s] True fr r by simp
  qed
qed

text \<open>A heap block that was allocated for a boundary tag becomes a segment.\<close>

lemma insert_segment_inv:
  assumes inv: "ra_inv (add_mset (bt b) F) X A" and sg: "segments A = us @ vs" and g: "geo (us @ b # vs)"
    and sp: "bt_type b = btt_span \<Longrightarrow> pImportFree A \<noteq> None" and b: "bt b \<notin> X"
  shows "ra_inv F (if bt_type b = btt_span then X else insert (bt b) X) (A\<lparr>segments := us @ b # vs\<rparr>)"
proof -
  have "os_ok (ra_os A)" "blocks (ra_os A) = hash_blocks (pSegmentHash A) + mset (bt b # pArena A # map bt (us @ vs)) + F"
    using inv sg by (auto simp: ra_inv_def)
  from os_ok_distinct [OF this] have n: "bt b \<notin> bt ` set us" "bt b \<notin> bt ` set vs" by auto
  have "free_set (us @ b # vs) (if bt_type b = btt_span then X else insert (bt b) X) = free_set (us @ vs) X"
    "live_set (us @ b # vs) (if bt_type b = btt_span then X else insert (bt b) X) = live_set (us @ vs) X"
    using n by (auto simp: sets_simps free_set_outside live_set_outside)
  then show ?thesis using inv sg g sp by (auto simp: ra_inv_def)
qed

lemma update_mapping_inv:
  assumes inv: "ra_inv F X A" and sg: "segments A = us @ b # vs"
  shows "ra_inv F X (update_segment (bt b) (\<lambda>x. x\<lparr>bt_psMapping := m\<rparr>) A)"
    and "segments (update_segment (bt b) (\<lambda>x. x\<lparr>bt_psMapping := m\<rparr>) A) = us @ b\<lparr>bt_psMapping := m\<rparr> # vs"
proof -
  have at: "at_seg us b vs" by (rule ra_inv_at [OF inv sg])
  show s: "segments (update_segment (bt b) (\<lambda>x. x\<lparr>bt_psMapping := m\<rparr>) A) = us @ b\<lparr>bt_psMapping := m\<rparr> # vs"
    using map_at [OF at refl] by (simp add: update_segment_def sg)
  have "geo (us @ b\<lparr>bt_psMapping := m\<rparr> # vs)"
    using inv sg by (auto simp: ra_inv_def geo_append seg_ok_def seg_hi_def seg_lo_def seg_len_def)
  then show "ra_inv F X (update_segment (bt b) (\<lambda>x. x\<lparr>bt_psMapping := m\<rparr>) A)"
    using inv sg s unfolding update_segment_def by (auto simp: ra_inv_def sets_simps)
qed

lemma seg_free_simps:
  "bt_type b = btt_free \<Longrightarrow> bt_base b = base \<Longrightarrow> bt_uSize b = n \<Longrightarrow>
     seg_lo b = unat base \<and> seg_len b = unat n \<and> seg_hi b = unat base + unat n"
  by (simp add: seg_lo_def seg_len_def seg_hi_def)

lemma InsertResource_inv:
  assumes inv: "ra_ok F A" and cl: "region_clear base n A" and r: "InsertResource base n A = (p, A')"
  obtains (oom) s where "p = IMG_NULL" "A' = A\<lparr>ra_os := s\<rparr>" "ra_ok F A'" "blocks s = blocks (ra_os A)"
  | (added) us vs where "p \<noteq> IMG_NULL" "ra_ok F A'" "segments A = us @ vs"
      "segments A' = us @ bt_of p btt_free base n # vs"
proof -
  obtain x A1 where bb: "BuildBT base n A = (x, A1)" by (cases "BuildBT base n A")
  from inv disjI1 [OF conjI [OF bb refl]] show thesis
  proof (cases rule: build_cases)
    case (oom s)
    then have "p = IMG_NULL" "A' = A1" using r bb by (auto simp: InsertResource_def)
    then show thesis using that(1) [of s] oom by simp
  next
    case (built q s)
    let ?B = "bt_of q btt_free base n"
    have c1: "region_clear base n A1" using cl built(3) by (simp add: region_clear_def)
    obtain us vs where sg: "segments A1 = us @ vs" "SegmentListInsert ?B A1 = (PVRSRV_OK, A1\<lparr>segments := us @ ?B # vs\<rparr>)"
      and bd: "\<forall>u \<in> set us. seg_hi u \<le> unat base" "\<forall>v \<in> set vs. unat base + unat n \<le> seg_lo v"
      by (rule SegmentListInsert_at [OF built(4) c1, of ?B]) simp_all
    have "geo (us @ ?B # vs)"
      using geo_insert [of us vs ?B] built(4) sg(1) bd c1 seg_free_simps [of ?B base n]
      by (auto simp: ra_inv_def region_clear_def seg_ok_def)
    then have i2: "ra_inv F {bt ?B} (A1\<lparr>segments := us @ ?B # vs\<rparr>)"
      using insert_segment_inv [of ?B F "{}" A1 us vs] built(4) sg(1) by simp
    have A': "p = q" "A' = FreeListInsert (bt ?B) (A1\<lparr>segments := us @ ?B # vs\<rparr>)"
      using r bb built(1) sg(2) by (auto simp: InsertResource_def)
    have "?B\<lparr>bt_type := btt_free\<rparr> = ?B" by (simp add: bt_of_def)
    then have "ra_ok F A'" "segments A' = us @ ?B # vs"
      using FreeListInsert_inv [OF i2, of us vs] A' by simp_all
    then show thesis using that(2) [of us vs] A'(1) built(2,3) sg(1) by simp
  qed
qed

lemma insert_span_inv:
  assumes inv: "ra_inv (add_mset (bt S) (add_mset (bt B) (add_mset (bt E) F))) {} A"
    and cl: "region_clear base n A" and imp: "pImportFree A \<noteq> None"
    and S: "bt_type S = btt_span" "bt_base S = base" and B: "bt_type B = btt_free" "bt_base B = base" "bt_uSize B = n"
    and E: "bt_type E = btt_span" "bt_base E = base + ucast n"
  obtains us vs A2 A3 A4 where "segments A = us @ vs" "SegmentListInsert S A = (PVRSRV_OK, A2)"
    "SegmentListInsertAfter (bt S) B A2 = (PVRSRV_OK, A3)"
    "SegmentListInsertAfter (bt B) E (FreeListInsert (bt B) A3) = (PVRSRV_OK, A4)"
    "ra_ok F A4" "segments A4 = us @ S # B # E # vs"
proof -
  obtain us vs where sg: "segments A = us @ vs" "SegmentListInsert S A = (PVRSRV_OK, A\<lparr>segments := us @ S # vs\<rparr>)"
    and bd: "\<forall>u \<in> set us. seg_hi u \<le> unat base" "\<forall>v \<in> set vs. unat base + unat n \<le> seg_lo v"
    by (rule SegmentListInsert_at [OF inv cl S(2)])
  have n: "0 < unat n" "unat base + unat n < 2 ^ 63" "sum_list (map seg_len (us @ vs)) + unat n < 2 ^ 32"
    using cl sg(1) by (auto simp: region_clear_def unat_gt_0)
  have "unat (base + ucast n) = unat base + unat n"
    using n(2) unat_ucast_widen [of n] by (simp add: unat_add_exact)
  then have lo: "seg_lo S = unat base" "seg_hi S = unat base" "seg_len S = 0" "seg_ok S"
    "seg_lo E = unat base + unat n" "seg_hi E = unat base + unat n" "seg_len E = 0" "seg_ok E"
    using S E n(2) by (auto simp: seg_lo_def seg_hi_def seg_len_def seg_ok_def)
  note B' = seg_free_simps [OF B]
  have okB: "seg_ok B" using B' B n by (auto simp: seg_ok_def unat_gt_0)
  have g: "geo (us @ vs)" using inv sg(1) by (simp add: ra_inv_def)
  have g1: "geo (us @ S # vs)" using geo_insert [OF g, of S] bd n lo by fastforce
  have g2: "geo (us @ S # B # vs)" using geo_insert [of "us @ [S]" vs B] g1 bd n lo B' okB by fastforce
  have g3: "geo (us @ S # B # E # vs)" using geo_insert [of "us @ [S, B]" vs E] g2 bd n lo B' by fastforce
  let ?A2 = "A\<lparr>segments := us @ S # vs\<rparr>" let ?A3 = "?A2\<lparr>segments := us @ S # B # vs\<rparr>"
  have i2: "ra_inv (add_mset (bt B) (add_mset (bt E) F)) {} ?A2"
    using insert_segment_inv [OF inv sg(1) g1] S imp by simp
  have i3: "ra_inv (add_mset (bt E) F) {bt B} ?A3"
    using insert_segment_inv [OF i2, of "us @ [S]" vs] B g2 by simp
  have nz: "bt S \<noteq> IMG_NULL" "bt B \<noteq> IMG_NULL"
    using ra_inv_nonnull [OF i3, of S] ra_inv_nonnull [OF i3, of B] by auto
  have a2: "SegmentListInsertAfter (bt S) B ?A2 = (PVRSRV_OK, ?A3)"
    using insert_after_at [of S us B vs] ra_inv_at [OF i2, of us S vs] at_segD nz by (simp add: SegmentListInsertAfter_def)
  let ?A4 = "FreeListInsert (bt B) ?A3"
  have BB: "B\<lparr>bt_type := btt_free\<rparr> = B" using B(1) by simp
  have i4: "ra_inv (add_mset (bt E) F) {} ?A4" "segments ?A4 = us @ S # B # vs"
    using FreeListInsert_inv [of _ B "{}" ?A3 "us @ [S]" vs] i3 B(1) BB by auto
  have im4: "pImportFree ?A4 \<noteq> None" using imp by (simp add: FreeListInsert_def Let_def split: option.splits)
  have i5: "ra_ok F (?A4\<lparr>segments := us @ S # B # E # vs\<rparr>)"
    using insert_segment_inv [OF i4(1), of "us @ [S, B]" vs] E g3 im4 i4(2) by simp
  have "bt B \<notin> bt ` set (us @ [S])" using ra_inv_at [OF i4(1), of "us @ [S]" B vs] i4(2) at_segD by fastforce
  then have a3: "SegmentListInsertAfter (bt B) E ?A4 = (PVRSRV_OK, ?A4\<lparr>segments := us @ S # B # E # vs\<rparr>)"
    using insert_after_at [of B "us @ [S]" E vs] nz i4(2) by (simp add: SegmentListInsertAfter_def)
  show thesis by (rule that [OF sg a2 a3 i5]) simp
qed

lemma ra_free_mem_foreign:
  assumes "ra_inv (add_mset p F) X A"
  shows "ra_inv F X (ra_free_mem p A)"
  using assms by (simp add: ra_inv_def ra_free_mem_def blocks_OSFreeMem OSFreeMem_os_ok)

lemma InsertResourceSpan_inv:
  assumes inv: "ra_ok F A" and cl: "region_clear base n A" and imp: "pImportFree A \<noteq> None"
    and r: "InsertResourceSpan base n A = (p, A')"
  obtains (oom) s where "p = IMG_NULL" "A' = A\<lparr>ra_os := s\<rparr>" "ra_ok F A'"
  | (added) us vs S E where "p \<noteq> IMG_NULL" "ra_ok F A'" "segments A = us @ vs"
      "segments A' = us @ S # bt_of p btt_free base n # E # vs" "bt_type S = btt_span" "bt_type E = btt_span"
proof -
  obtain x1 A1 where b1: "BuildSpanMarker base n A = (x1, A1)" by fastforce
  from inv disjI2 [OF conjI [OF b1 refl]] show thesis
  proof (cases rule: build_cases)
    case (oom s)
    then have "p = IMG_NULL" "A' = A1" using r b1 by (auto simp: InsertResourceSpan_def)
    then show thesis using that(1) [of s] oom by simp
  next
    case (built p1 s1)
    note B1 = built
    obtain x2 A2 where b2: "BuildSpanMarker (base + ucast n) 0 A1 = (x2, A2)" by fastforce
    from B1(4) disjI2 [OF conjI [OF b2 refl]] show thesis
    proof (cases rule: build_cases)
      case (oom s)
      then have "p = IMG_NULL" "A' = ra_free_mem p1 A2" using r b1 b2 B1(1) by (auto simp: InsertResourceSpan_def)
      then show thesis
        using that(1) [of "OSFreeMem p1 s"] ra_free_mem_foreign [OF oom(3)] oom(2) B1(3) by (simp add: ra_free_mem_os)
    next
      case (built p2 s2)
      note B2 = built
      obtain x3 A3 where b3: "BuildBT base n A2 = (x3, A3)" by fastforce
      from B2(4) disjI1 [OF conjI [OF b3 refl]] show thesis
      proof (cases rule: build_cases)
        case (oom s)
        have "ra_ok F (ra_free_mem p1 (ra_free_mem p2 A3))" using oom(3) by (intro ra_free_mem_foreign)
        moreover have "p = IMG_NULL" "A' = ra_free_mem p1 (ra_free_mem p2 A3)"
          using r b1 b2 b3 B1(1) B2(1) oom(1) by (auto simp: InsertResourceSpan_def)
        ultimately show thesis
          using that(1) [of "OSFreeMem p1 (OSFreeMem p2 s)"] oom(2) B1(3) B2(3) by (simp add: ra_free_mem_os)
      next
        case (built p3 s3)
        let ?S = "bt_of p1 btt_span base n" and ?B = "bt_of p3 btt_free base n" and ?E = "bt_of p2 btt_span (base + ucast n) 0"
        have A3: "segments A3 = segments A" "pImportFree A3 = pImportFree A" using B1 B2 built by simp_all
        have i: "ra_inv (add_mset (bt ?S) (add_mset (bt ?B) (add_mset (bt ?E) F))) {} A3"
          using built(4) by (simp add: add_mset_commute)
        have cl3: "region_clear base n A3" using cl A3 by (simp add: region_clear_def)
        obtain us vs A4 A5 A6 where "segments A3 = us @ vs" "SegmentListInsert ?S A3 = (PVRSRV_OK, A4)"
          "SegmentListInsertAfter (bt ?S) ?B A4 = (PVRSRV_OK, A5)"
          "SegmentListInsertAfter (bt ?B) ?E (FreeListInsert (bt ?B) A5) = (PVRSRV_OK, A6)"
          "ra_ok F A6" "segments A6 = us @ ?S # ?B # ?E # vs"
          by (rule insert_span_inv [OF i cl3]) (use A3 imp in simp_all)
        then show thesis
          using that(2) [of us vs ?S ?E] r b1 b2 b3 B1(1) B2(1) built(1,2) A3(1)
          by (simp add: InsertResourceSpan_def)
      qed
    qed
  qed
qed

section \<open>What no operation changes\<close>

definition ra_config :: "'w RA_ARENA \<Rightarrow>
    (IMG_UINTPTR_T \<Rightarrow> IMG_UINT32) \<times> 'w import_alloc \<times> 'w import_free option \<times> 'w backing_free option \<times> IMG_SIZE_T \<times> IMG_UINTPTR_T" where
  "ra_config A = (mapping_flags A, pImportAlloc A, pImportFree A, pBackingStoreFree A, uQuantum A, pImportHandle A)"

lemma ra_config_simps [simp]:
  "ra_config (FreeListInsert p A) = ra_config A"
  "ra_config (FreeListRemove p A) = ra_config A"
  "ra_config (SegmentListRemove p A) = ra_config A"
  "ra_config (update_segment p f A) = ra_config A"
  "ra_config (ra_free_mem p A) = ra_config A"
  "ra_config (coalesce_prev p b A) = ra_config A"
  "ra_config (coalesce_next p b A) = ra_config A"
  "ra_config (free_backing base n b A) = ra_config A"
  "ra_config (call_import_free base m A) = ra_config A"
  by (simp_all add: ra_config_def FreeListInsert_def FreeListRemove_def SegmentListRemove_def update_segment_def ra_free_mem_def
      coalesce_prev_def coalesce_next_def free_backing_def call_import_free_def Let_def
      split: option.splits prod.splits)

lemma ra_config_fault [simp]:
  "ra_config (A\<lparr>ra_fault := x\<rparr>) = ra_config A" "ra_config (A\<lparr>pSegmentHash := h\<rparr>) = ra_config A"
  "ra_config (A\<lparr>ra_os := s\<rparr>) = ra_config A" "ra_config (A\<lparr>ra_world := w\<rparr>) = ra_config A"
  "ra_config (A\<lparr>segments := bs\<rparr>) = ra_config A"
  by (simp_all add: ra_config_def)

lemma ra_config_FreeBT [simp]: "ra_config (FreeBT p f A) = ra_config A"
  by (simp add: FreeBT_def Let_def ra_config_fault split: option.splits)

lemma ra_config_SegmentSplit: "SegmentSplit p n A = (q, A') \<Longrightarrow> ra_config A' = ra_config A"
  by (auto simp: ra_config_def SegmentSplit_def Let_def split: prod.splits if_splits)

lemma ra_config_take_segment:
  "take_segment sz a b A = (ok, base, m, A') \<Longrightarrow> ra_config A' = ra_config A"
  unfolding take_segment_alt front_split_def back_split_def
  by (auto simp: Let_def ra_config_fault split: prod.splits if_splits option.splits dest!: ra_config_SegmentSplit)

lemma ra_config_AttemptAllocAligned:
  "AttemptAllocAligned sz fl al o' A = (ok, base, m, A') \<Longrightarrow> ra_config A' = ra_config A"
  by (auto simp: AttemptAllocAligned_def Let_def ra_config_fault split: option.splits dest: ra_config_take_segment)

lemma ra_config_InsertResourceSpan:
  "InsertResourceSpan base n A = (p, A') \<Longrightarrow> ra_config A' = ra_config A"
  by (auto simp: InsertResourceSpan_def BuildSpanMarker_def BuildBT_def SegmentListInsert_def
      SegmentListInsertAfter_def Let_def split: prod.splits if_splits option.splits list.splits)

lemma ra_config_InsertResource:
  "InsertResource base n A = (p, A') \<Longrightarrow> ra_config A' = ra_config A"
  by (auto simp: InsertResource_def BuildBT_def SegmentListInsert_def
      SegmentListInsertAfter_def Let_def split: prod.splits if_splits option.splits list.splits)

section \<open>Allocating and freeing\<close>

text \<open>What the arena expects of the function it imports spans with: what it hands over is a region the
  arena does not have yet, and there is a function to give it back.\<close>

definition import_clear :: "IMG_SIZE_T \<Rightarrow> IMG_UINT32 \<Rightarrow> 'w RA_ARENA \<Rightarrow> bool" where
  "import_clear n fl A \<longleftrightarrow>
     (case pImportAlloc A (pImportHandle A) n fl (ra_world A) of
        ((ok, m, _, b), _) \<Rightarrow> ok \<longrightarrow> region_clear b m A \<and> pImportFree A \<noteq> None)"

lemma call_import_free_inv:
  "ra_inv F X A \<Longrightarrow> pImportFree A \<noteq> None \<Longrightarrow>
     ra_inv F X (call_import_free base m A) \<and> segments (call_import_free base m A) = segments A"
  by (auto simp: call_import_free_def ra_inv_world)

lemma import_inv:
  assumes inv: "ra_ok F A" and cl: "import_clear n fl A" and sz: "sz \<noteq> 0"
    and i: "pImportAlloc A (pImportHandle A) n fl (ra_world A) = ((True, n', m', b'), w)"
    and r: "InsertResourceSpan b' n' (A\<lparr>ra_world := w\<rparr>) = (p, A2)"
  shows "p = IMG_NULL \<Longrightarrow> ra_ok F (call_import_free b' m' A2) \<and> live_blocks (call_import_free b' m' A2) = live_blocks A"
    and "p \<noteq> IMG_NULL \<Longrightarrow> ra_ok F (update_segment p (\<lambda>x. x\<lparr>bt_psMapping := m'\<rparr>) A2) \<and>
           live_blocks (update_segment p (\<lambda>x. x\<lparr>bt_psMapping := m'\<rparr>) A2) = live_blocks A \<and>
           free_space (segments (update_segment p (\<lambda>x. x\<lparr>bt_psMapping := m'\<rparr>) A2)) =
             free_space (segments A) \<union> {unat b' ..< unat b' + unat n'}"
proof -
  have c: "region_clear b' n' (A\<lparr>ra_world := w\<rparr>)" "pImportFree (A\<lparr>ra_world := w\<rparr>) \<noteq> None"
    using cl i by (auto simp: import_clear_def region_clear_def)
  have inv': "ra_ok F (A\<lparr>ra_world := w\<rparr>)" using inv by (simp add: ra_inv_world)
  have "(p = IMG_NULL \<longrightarrow> ra_ok F (call_import_free b' m' A2) \<and> live_blocks (call_import_free b' m' A2) = live_blocks A) \<and>
    (p \<noteq> IMG_NULL \<longrightarrow> ra_ok F (update_segment p (\<lambda>x. x\<lparr>bt_psMapping := m'\<rparr>) A2) \<and>
           live_blocks (update_segment p (\<lambda>x. x\<lparr>bt_psMapping := m'\<rparr>) A2) = live_blocks A \<and>
           free_space (segments (update_segment p (\<lambda>x. x\<lparr>bt_psMapping := m'\<rparr>) A2)) =
             free_space (segments A) \<union> {unat b' ..< unat b' + unat n'})"
    using inv' c r
  proof (cases rule: InsertResourceSpan_inv)
    case (oom s)
    then show ?thesis using call_import_free_inv [OF oom(3), of b' m'] c(2) by (simp add: live_blocks_def)
  next
    case (added us vs S E)
    let ?B = "bt_of p btt_free b' n'" let ?B' = "?B\<lparr>bt_psMapping := m'\<rparr>"
    have sg: "segments A2 = (us @ [S]) @ ?B # (E # vs)" using added(4) by simp
    note u = update_mapping_inv [OF added(2) sg, of m']
    have "{seg_lo ?B' ..< seg_hi ?B'} = {unat b' ..< unat b' + unat n'}"
      using seg_free_simps [of ?B' b' n'] by simp
    then show ?thesis
      using u added(1,3,5,6) by (auto simp: live_blocks_def live_segs_def space_simps)
  qed
  then show "p = IMG_NULL \<Longrightarrow> ra_ok F (call_import_free b' m' A2) \<and> live_blocks (call_import_free b' m' A2) = live_blocks A"
    "p \<noteq> IMG_NULL \<Longrightarrow> ra_ok F (update_segment p (\<lambda>x. x\<lparr>bt_psMapping := m'\<rparr>) A2) \<and>
           live_blocks (update_segment p (\<lambda>x. x\<lparr>bt_psMapping := m'\<rparr>) A2) = live_blocks A \<and>
           free_space (segments (update_segment p (\<lambda>x. x\<lparr>bt_psMapping := m'\<rparr>) A2)) =
             free_space (segments A) \<union> {unat b' ..< unat b' + unat n'}"
    by auto
qed

lemma mset_map_add:
  assumes "mset (map f xs) = add_mset y M"
  obtains us x vs where "xs = us @ x # vs" "f x = y" "M = mset (map f (us @ vs))"
proof -
  have "y \<in> set (map f xs)" using assms by (metis set_mset_mset union_single_eq_member)
  then obtain x where x: "x \<in> set xs" "f x = y" by auto
  then obtain us vs where xs: "xs = us @ x # vs" by (metis split_list)
  show thesis by (rule that [OF xs x(2)]) (use assms xs x(2) in simp)
qed

text \<open>No two live blocks overlap.\<close>

lemma live_blocks_disjoint:
  assumes "geo (segments A)" "live_blocks A = add_mset (base, sz) M" "(b, n) \<in># M"
  shows "unat b + unat n \<le> unat base \<or> unat base + unat sz \<le> unat b"
proof -
  obtain us x vs where l: "live_segs (segments A) = us @ x # vs" "(bt_base x, bt_uSize x) = (base, sz)"
    "M = mset (map (\<lambda>b. (bt_base b, bt_uSize b)) (us @ vs))"
    using mset_map_add [OF assms(2) [unfolded live_blocks_def]] by blast
  then obtain y where y: "y \<in> set (us @ vs)" "bt_base y = b" "bt_uSize y = n" using assms(3) by auto
  have "sorted_wrt (\<lambda>a b. seg_hi a \<le> seg_lo b) (us @ x # vs)"
    using assms(1) l(1) sorted_wrt_filter [of _ "segments A"] by (metis geo_def live_segs_def)
  then have "seg_hi y \<le> seg_lo x \<or> seg_hi x \<le> seg_lo y" using y(1) by (auto simp: sorted_wrt_append)
  moreover have "bt_type x = btt_live" "bt_type y = btt_live"
    using l(1) y(1) unfolding live_segs_def by (auto dest!: arg_cong [where f = set])
  ultimately show ?thesis using l(2) y(2,3) by (simp add: seg_hi_def seg_len_def seg_lo_def)
qed

definition alloc_result ::
  "IMG_SIZE_T \<Rightarrow> IMG_UINT32 \<Rightarrow> IMG_UINT32 \<Rightarrow> IMG_UINT32 \<Rightarrow> IMG_UINTPTR_T \<Rightarrow> IMG_UINTPTR_T
    \<Rightarrow> 'w RA_ARENA \<Rightarrow> 'w RA_ARENA \<Rightarrow> bool" where
  "alloc_result sz fl al o' base m A A' \<longleftrightarrow>
     live_blocks A' = add_mset (base, sz) (live_blocks A) \<and>
     (\<forall>(b, n) \<in># live_blocks A. unat b + unat n \<le> unat base \<or> unat base + unat sz \<le> unat b) \<and>
     (al > 1 \<longrightarrow> (unat base + unat (o' mod al)) mod unat al = 0) \<and>
     (m = IMG_NULL \<or> mapping_flags A m = fl)"

lemma attempt_result:
  assumes "ra_ok F A" "sz \<noteq> 0" "AttemptAllocAligned sz fl al o' A = (ok, base, m, A')"
  shows "ra_ok F A' \<and> (if ok then alloc_result sz fl al o' base m A A' else live_blocks A' = live_blocks A)"
proof -
  note a = AttemptAllocAligned_inv [OF assms]
  have "geo (segments A')" using a by (simp add: ra_inv_def)
  have "\<forall>(b, n) \<in># live_blocks A. unat b + unat n \<le> unat base \<or> unat base + unat sz \<le> unat b" if ok
  proof (clarify)
    fix b n
    assume m: "(b, n) \<in># live_blocks A" "\<not> unat base + unat sz \<le> unat b"
    have "live_blocks A' = add_mset (base, sz) (live_blocks A)" using a that by (simp add: allocated_def)
    from live_blocks_disjoint [OF \<open>geo (segments A')\<close> this m(1)] m(2) show "unat b + unat n \<le> unat base" by simp
  qed
  then show ?thesis using a by (cases ok) (simp_all add: alloc_result_def allocated_def)
qed

lemma RA_Alloc_inv:
  assumes inv: "ra_ok F A" and sz: "sz \<noteq> 0"
    and imp: "\<forall>n. import_clear n fl (snd (snd (snd (AttemptAllocAligned sz fl al o' A))))"
    and r: "RA_Alloc sz fl al o' A = (ok, actual, m, base, A')"
  shows "ra_ok F A' \<and> actual = sz \<and>
    (if ok then alloc_result sz fl al o' base m A A' else live_blocks A' = live_blocks A)"
proof -
  obtain ok1 base1 m1 A1 where a1: "AttemptAllocAligned sz fl al o' A = (ok1, base1, m1, A1)" by (metis prod_cases4)
  note t1 = attempt_result [OF inv sz a1]
  show ?thesis
  proof (cases ok1)
    case True
    then show ?thesis using r a1 t1 by (simp add: RA_Alloc_def)
  next
    case False
    define n where "n = round_quantum (uQuantum A1) (if al > uQuantum A1 then sz + (al - 1) else sz)"
    obtain oki n' m' b' w where i: "pImportAlloc A1 (pImportHandle A1) n fl (ra_world A1) = ((oki, n', m', b'), w)"
      by (metis prod_cases5 surj_pair)
    have i1: "ra_ok F A1" "live_blocks A1 = live_blocks A" using t1 False by auto
    have mf: "mapping_flags A1 = mapping_flags A" using ra_config_AttemptAllocAligned [OF a1] by (simp add: ra_config_def)
    show ?thesis
    proof (cases oki)
      case False
      then have "A' = A1\<lparr>ra_world := w\<rparr>" "\<not> ok" "actual = sz"
        using r a1 i \<open>\<not> ok1\<close> by (auto simp: RA_Alloc_def Let_def n_def)
      then show ?thesis using i1 by (simp add: ra_inv_world live_blocks_def)
    next
      case True
      have cl: "import_clear n fl A1" using imp a1 by simp
      obtain p A2 where irs: "InsertResourceSpan b' n' (A1\<lparr>ra_world := w\<rparr>) = (p, A2)" by fastforce
      have "pImportAlloc A1 (pImportHandle A1) n fl (ra_world A1) = ((True, n', m', b'), w)" using i True by simp
      note s2 = import_inv [OF i1(1) cl sz this irs]
      show ?thesis
      proof (cases "p = IMG_NULL")
        case True
        then have "A' = call_import_free b' m' A2" "\<not> ok" "actual = sz"
          using r a1 i \<open>\<not> ok1\<close> \<open>oki\<close> irs by (auto simp: RA_Alloc_def Let_def n_def)
        then show ?thesis using s2(1) [OF True] i1(2) by simp
      next
        case False
        let ?A3 = "update_segment p (\<lambda>x. x\<lparr>bt_psMapping := m'\<rparr>) A2"
        obtain ok4 base4 m4 A4 where a4: "AttemptAllocAligned sz fl al o' ?A3 = (ok4, base4, m4, A4)" by (metis prod_cases4)
        have e: "ok = ok4" "actual = sz" "m = m4" "base = base4" "A' = A4"
          using r a1 i \<open>\<not> ok1\<close> \<open>oki\<close> irs False a4 by (auto simp: RA_Alloc_def Let_def n_def)
        have "mapping_flags ?A3 = mapping_flags A"
          using ra_config_InsertResourceSpan [OF irs] ra_config_simps(4) [of p _ A2] mf by (simp add: ra_config_def)
        then show ?thesis
          using attempt_result [OF conjunct1 [OF s2(2) [OF False]] sz a4] s2(2) [OF False] i1(2) unfolding e
          by (cases ok4) (simp_all add: alloc_result_def)
      qed
    qed
  qed
qed

lemma live_block_segment:
  assumes "(base, n) \<in># live_blocks A"
  obtains us b vs where "segments A = us @ b # vs" "bt_type b = btt_live" "bt_base b = base" "bt_uSize b = n"
proof -
  obtain b where "b \<in> set (segments A)" "bt_type b = btt_live" "bt_base b = base" "bt_uSize b = n"
    using assms by (auto simp: live_blocks_def live_segs_def)
  then show thesis using that split_list by metis
qed

text \<open>What freeing a live block means: its space is free again, merged with its free neighbours, unless
  the block was the last one of an imported span; then the span is given back as a whole.\<close>

definition freed :: "IMG_UINTPTR_T \<Rightarrow> IMG_SIZE_T \<Rightarrow> 'w RA_ARENA \<Rightarrow> 'w RA_ARENA \<Rightarrow> bool" where
  "freed base n A A' \<longleftrightarrow>
     live_blocks A' = live_blocks A - {#(base, n)#} \<and>
     (free_space (segments A') = free_space (segments A) \<union> {unat base ..< unat base + unat n} \<or>
      (\<exists>lo hi. free_space (segments A') \<union> {lo ..< hi} = free_space (segments A) \<union> {unat base ..< unat base + unat n} \<and>
         length (filter (\<lambda>b. bt_type b = btt_span) (segments A)) =
           length (filter (\<lambda>b. bt_type b = btt_span) (segments A')) + 2))"

lemma freedI:
  assumes "live_segs (segments A') = live_segs (us @ vs)" "segments A = us @ b # vs" "bt_type b = btt_live"
    "bt_base b = base" "bt_uSize b = n"
    "free_space (segments A') = free_space (us @ vs) \<union> {seg_lo b ..< seg_hi b} \<or>
      (\<exists>lo hi. free_space (segments A') \<union> {lo ..< hi} = free_space (us @ vs) \<union> {seg_lo b ..< seg_hi b} \<and>
         length (filter (\<lambda>b. bt_type b = btt_span) (us @ vs)) =
           length (filter (\<lambda>b. bt_type b = btt_span) (segments A')) + 2)"
  shows "freed base n A A'"
proof -
  have hi: "{seg_lo b ..< seg_hi b} = {unat base ..< unat base + unat n}"
    using assms by (simp add: seg_lo_def seg_hi_def seg_len_def)
  have fs: "free_space (us @ b # vs) = free_space (us @ vs)" using assms(3) by (simp add: space_simps)
  have lv: "live_blocks A' = live_blocks A - {#(base, n)#}"
    using assms(1-5) by (simp add: live_blocks_def live_segs_def)
  have sp: "filter (\<lambda>b. bt_type b = btt_span) (us @ b # vs) = filter (\<lambda>b. bt_type b = btt_span) (us @ vs)"
    using assms(3) by simp
  show ?thesis unfolding freed_def assms(2) fs sp using assms(6) lv unfolding hi by blast
qed

lemma RA_Free_segment:
  assumes inv: "ra_ok F A" and sg: "segments A = us @ b # vs" and b: "bt_type b = btt_live" "bt_base b = base" "bt_uSize b = n"
  shows "ra_ok F (RA_Free base f A) \<and> freed base n A (RA_Free base f A) \<and> free_merged us b vs (segments (RA_Free base f A))"
proof -
  obtain p h s where hr: "HASH_Remove (pSegmentHash A) (bt_base b) (ra_os A) = (p, h, s)" by (metis prod_cases3)
  let ?A1 = "A\<lparr>pSegmentHash := h, ra_os := s\<rparr>"
  have p: "p = bt b" and i1: "ra_inv F {bt b} ?A1" using hash_remove_inv [OF inv sg b(1) _ hr] by auto
  have nz: "bt b \<noteq> IMG_NULL" using ra_inv_nonnull [OF inv, of b] sg by simp
  have R: "RA_Free base f A = FreeBT (bt b) f ?A1" using hr p nz b(2) by (simp add: RA_Free_def)
  have sg1: "segments ?A1 = us @ b # vs" and nsp: "bt_type b \<noteq> btt_span" using sg b(1) by simp_all
  show ?thesis
    using i1 sg1 nsp
  proof (cases rule: FreeBT_inv [where f = f])
    case (kept us' b' vs')
    let ?b = "b'\<lparr>bt_type := btt_free\<rparr>"
    have "{seg_lo ?b ..< seg_hi ?b} = {seg_lo b' ..< seg_hi b'}"
      using kept(3) b(1) by (simp add: grown_def seg_lo_def seg_hi_def seg_len_def)
    then have "free_space (us' @ ?b # vs') = free_space (us @ vs) \<union> {seg_lo b ..< seg_hi b}"
      using kept(3) unfolding grown_def by (auto simp: space_simps)
    moreover have "live_segs (us' @ ?b # vs') = live_segs (us @ vs)" using kept(3) by (simp add: grown_def live_segs_def)
    ultimately show ?thesis
      using freedI [OF _ sg b, of "RA_Free base f A"] kept(1,2,4) unfolding R by metis
  next
    case (exported us' x b' e vs')
    have "free_space (us' @ vs') \<union> {seg_lo b' ..< seg_hi b'} = free_space (us @ vs) \<union> {seg_lo b ..< seg_hi b}"
      using exported(3-5) by (simp add: grown_def space_simps)
    moreover have "live_segs (us' @ vs') = live_segs (us @ vs)" using exported(3-5) by (simp add: grown_def live_segs_def)
    moreover have "filter (\<lambda>b. bt_type b = btt_span) (us @ vs) = filter (\<lambda>b. bt_type b = btt_span) (us' @ [x] @ e # vs')"
      using exported(3) by (simp add: grown_def)
    then have "length (filter (\<lambda>b. bt_type b = btt_span) (us @ vs)) = length (filter (\<lambda>b. bt_type b = btt_span) (us' @ vs')) + 2"
      using exported(4,5) by simp
    ultimately show ?thesis
      using freedI [OF _ sg b, of "RA_Free base f A"] exported(1,2,6) unfolding R by metis
  qed
qed

lemma RA_Free_inv:
  assumes inv: "ra_ok F A" and m: "(base, n) \<in># live_blocks A"
  shows "ra_ok F (RA_Free base f A) \<and> freed base n A (RA_Free base f A)"
proof -
  obtain us b vs where sg: "segments A = us @ b # vs" and b: "bt_type b = btt_live" "bt_base b = base" "bt_uSize b = n"
    by (rule live_block_segment [OF m])
  show ?thesis
    using RA_Free_segment [OF inv sg b] by blast
qed

text \<open>Freeing an address that is not the base of a live block does nothing.\<close>

lemma RA_Free_unknown:
  assumes inv: "ra_ok F A" and m: "\<forall>n. (base, n) \<notin># live_blocks A"
  shows "RA_Free base f A = A"
proof -
  have h: "hash_ok (pSegmentHash A)" "key_ok (pSegmentHash A) [base]"
    "\<And>p. hash_map (pSegmentHash A) [base] = Some p \<longleftrightarrow> (base, p) \<in> live_set (segments A) {}"
    using inv by (auto simp: ra_inv_def seg_hash_ok_def)
  have "(base, p) \<notin> live_set (segments A) {}" for p
    using m by (auto simp: live_set_def live_blocks_def live_segs_def)
  then have none: "find_key (pSegmentHash A) [base] = None"
    using h(2,3) by (cases "find_key (pSegmentHash A) [base]") (auto simp: hash_map_def)
  obtain v h' s' where r: "HASH_Remove (pSegmentHash A) base (ra_os A) = (v, h', s')" by (metis prod_cases3)
  have hi: "hash_inv (pSegmentHash A)" using h(1) by (simp add: hash_ok_def)
  from hi h(2) r [unfolded HASH_Remove_def] have "v = 0 \<and> h' = pSegmentHash A \<and> s' = ra_os A"
    by (cases rule: HASH_Remove_Extended_cases) (use none in auto)
  then show ?thesis using r by (simp add: RA_Free_def)
qed

section \<open>Creating and deleting\<close>

lemma blocks_free_all:
  "blocks (fold (\<lambda>b s. OSFreeMem (bt b) s) bs s) = blocks s - mset (map bt bs)"
  by (induction bs arbitrary: s) (simp_all add: os_simps)

text \<open>Deleting gives back the arena, its segments and the table of the segment hash; the hash entries
  of blocks that are still live are lost.\<close>

lemma RA_Delete_blocks:
  assumes "ra_ok F A"
  shows "blocks (RA_Delete A) = F + image_mset pBucket (hash_entries (pSegmentHash A))"
proof -
  let ?h = "pSegmentHash A"
  have "blocks (ra_os A) = {#pHash ?h, pTable ?h#} + image_mset pBucket (hash_entries ?h) + mset (pArena A # map bt (segments A)) + F"
    using assms by (simp add: ra_inv_def hash_blocks_def)
  then show ?thesis by (simp add: RA_Delete_def HASH_Delete_def os_simps blocks_free_all)
qed

lemma no_live_entries:
  assumes "ra_ok F A" "live_blocks A = {#}"
  shows "hash_entries (pSegmentHash A) = {#}"
proof (rule ccontr)
  let ?h = "pSegmentHash A"
  assume "hash_entries ?h \<noteq> {#}"
  then obtain b where b: "b \<in># hash_entries ?h" by (meson multiset_nonemptyE)
  have h: "hash_ok ?h" "\<And>k. key_ok ?h [k]" "\<And>k p. hash_map ?h [k] = Some p \<longleftrightarrow> (k, p) \<in> live_set (segments A) {}"
    using assms(1) by (auto simp: ra_inv_def seg_hash_ok_def)
  have "key_ok ?h (bucket_k b)" by (rule hash_inv_keys [OF hash_okD [OF h(1)] b])
  then have "length (bucket_k b) = 1" using h(2) [of 0] by (simp add: key_ok_def)
  then obtain k where k: "bucket_k b = [k]" by (metis One_nat_def length_0_conv length_Suc_conv)
  have "find_key ?h [k] \<noteq> None" using find_key_present [OF hash_okD [OF h(1)] h(2)] b k by blast
  then obtain x where "find_key ?h [k] = Some x" by blast
  then have "hash_map ?h [k] = Some (bucket_v x)" using h(2) by (simp add: hash_map_def)
  then have "(k, bucket_v x) \<in> live_set (segments A) {}" using h(3) by simp
  then show False using assms(2) by (auto simp: live_set_def live_blocks_def live_segs_def filter_empty_conv)
qed

lemma tables_ok_empty: "tables_ok (replicate FREE_TABLE_LIMIT []) {}"
  by (simp add: tables_ok_def)

text \<open>The request of a new arena is sound: the quantum is not zero and the rounded region does not leave
  the lower half of the address space.\<close>

definition create_ok :: "IMG_UINTPTR_T \<Rightarrow> IMG_SIZE_T \<Rightarrow> IMG_SIZE_T \<Rightarrow> bool" where
  "create_ok base sz q \<longleftrightarrow> q \<noteq> 0 \<and>
     (sz > 0 \<longrightarrow> round_quantum q sz \<noteq> 0 \<and> unat base + unat (round_quantum q sz) < 2 ^ 63)"

lemma RA_Create_inv:
  assumes c: "create_ok base sz q" and os: "os_ok s"
    and r: "RA_Create base sz m q ia ifr bf hI mf s w = (r, s')"
  shows "case r of
      None \<Rightarrow> blocks s' = blocks s
    | Some A \<Rightarrow> ra_ok (blocks s) A \<and> ra_os A = s' \<and> live_blocks A = {#} \<and>
        free_space (segments A) = (if sz > 0 then {unat base ..< unat base + unat (round_quantum q sz)} else {})"
proof -
  obtain e p s1 where a1: "OSAllocMem sizeof_RA_ARENA s = (e, p, s1)" by (metis prod_cases3)
  note f1 = OSAllocMem_frame [OF a1 os]
  show ?thesis
  proof (cases "e = PVRSRV_OK")
    case False
    then show ?thesis using r a1 f1 by (auto simp: RA_Create_def)
  next
    case e: True
    obtain x s2 where hc: "HASH_Create MINIMUM_HASH_SIZE s1 = (x, s2)" by fastforce
    have os2: "os_ok s2" using HASH_Create_os_ok [OF hc] f1 by simp
    have n: "MINIMUM_HASH_SIZE \<noteq> 0" by (simp add: MINIMUM_HASH_SIZE_def)
    from hc [unfolded HASH_Create_def] n show ?thesis
    proof (cases rule: HASH_Create_Extended_cases)
      case oom
      then show ?thesis using r a1 e hc f1 by (auto simp: RA_Create_def os_simps)
    next
      case (created h)
      define A where "A = \<lparr>pArena = p, uQuantum = q,
          pImportAlloc = (case ia of None \<Rightarrow> RequestAllocFail | Some f \<Rightarrow> f),
          pImportFree = ifr, pBackingStoreFree = bf, pImportHandle = hI, aHeadFree = replicate FREE_TABLE_LIMIT [],
          segments = [], pSegmentHash = h, mapping_flags = mf, ra_os = s2, ra_world = w, ra_fault = False\<rparr>"
      have sg: "segments A = []" "ra_os A = s2" "pArena A = p" "pSegmentHash A = h" by (simp_all add: A_def)
      have "seg_hash_ok h {}" using created by (simp add: seg_hash_ok_def key_ok_def uKeyLen_def)
      then have inv: "ra_ok (blocks s) A"
        using tables_ok_empty os2 created(6) f1 e c
        by (simp add: ra_inv_def A_def geo_def free_set_def live_set_def create_ok_def)
      show ?thesis
      proof (cases "sz > 0")
        case False
        then show ?thesis using r a1 e hc created(1) inv sg
          by (auto simp: RA_Create_def A_def live_blocks_def live_segs_def)
      next
        case True
        obtain pb A1 where ir: "InsertResource base (round_quantum q sz) A = (pb, A1)" by fastforce
        have R: "(r, s') = (if pb = IMG_NULL then (None, OSFreeMem p (HASH_Delete (Some (pSegmentHash A1)) (ra_os A1)))
            else let A2 = update_segment pb (\<lambda>x. x\<lparr>bt_psMapping := m\<rparr>) A1 in (Some A2, ra_os A2))"
          using r a1 e hc created(1) True ir by (simp add: RA_Create_def A_def Let_def)
        have "region_clear base (round_quantum q sz) A"
          using c True sg unat_less32 by (simp add: region_clear_def create_ok_def)
        with inv show ?thesis using ir
        proof (cases rule: InsertResource_inv)
          case (oom t)
          then have "r = None" "s' = OSFreeMem p (HASH_Delete (Some h) t)" using R sg by auto
          then show ?thesis using oom(4) created(5,6) f1 e sg by (simp add: HASH_Delete_def os_simps hash_blocks_def)
        next
          case (added us vs)
          let ?B = "bt_of pb btt_free base (round_quantum q sz)"
          have s1: "segments A1 = [] @ ?B # []" using added(3,4) sg by simp
          note u = update_mapping_inv [OF added(2) s1, of m]
          show ?thesis
            using R added(1) u True seg_free_simps [of "?B\<lparr>bt_psMapping := m\<rparr>"]
            by (simp add: Let_def live_blocks_def live_segs_def space_simps)
        qed
      qed
    qed
  qed
qed

section \<open>The interface of the arena\<close>

text \<open>What the heaps above rely on: the live blocks are exactly what was allocated and not freed.\<close>

locale arena_alloc =
  fixes invar :: "'a \<Rightarrow> bool"
    and live :: "'a \<Rightarrow> ('p \<times> 'n) multiset"
    and alloc :: "'r \<Rightarrow> 'a \<Rightarrow> ('p \<times> 'n) option \<times> 'a"
    and free :: "'p \<Rightarrow> 'a \<Rightarrow> 'a"
    and ready :: "'r \<Rightarrow> 'a \<Rightarrow> bool"
  assumes alloc_law: "invar A \<Longrightarrow> ready r A \<Longrightarrow> alloc r A = (x, A') \<Longrightarrow>
      invar A' \<and> live A' = (case x of None \<Rightarrow> live A | Some b \<Rightarrow> add_mset b (live A))"
    and free_law: "invar A \<Longrightarrow> (p, n) \<in># live A \<Longrightarrow> invar (free p A) \<and> live (free p A) = live A - {#(p, n)#}"
    and free_none: "invar A \<Longrightarrow> \<forall>n. (p, n) \<notin># live A \<Longrightarrow> free p A = A"
begin

lemma alloc_free:
  assumes "invar A" "ready r A" "alloc r A = (Some (p, n), A')"
  shows "invar (free p A') \<and> live (free p A') = live A"
proof -
  have "invar A'" "live A' = add_mset (p, n) (live A)" using alloc_law [OF assms] by auto
  then show ?thesis using free_law [of A' p n] by simp
qed

lemma free_invar: "invar A \<Longrightarrow> invar (free p A)"
  using free_law free_none by metis

lemma free_all:
  "invar A \<Longrightarrow> live A = mset bs \<Longrightarrow> invar (fold (\<lambda>(p, n). free p) bs A) \<and> live (fold (\<lambda>(p, n). free p) bs A) = {#}"
proof (induction bs arbitrary: A)
  case Nil
  then show ?case by simp
next
  case (Cons b bs)
  obtain p n where b: "b = (p, n)" by fastforce
  then have "invar (free p A)" "live (free p A) = mset bs" using free_law [of A p n] Cons.prems by auto
  with Cons.IH [of "free p A"] b show ?case by simp
qed

end

text \<open>A request: the size, the flags, the alignment and its offset.\<close>

type_synonym ra_request = "IMG_SIZE_T \<times> IMG_UINT32 \<times> IMG_UINT32 \<times> IMG_UINT32"

definition ra_alloc :: "ra_request \<Rightarrow> 'w RA_ARENA \<Rightarrow> (IMG_UINTPTR_T \<times> IMG_SIZE_T) option \<times> 'w RA_ARENA" where
  "ra_alloc = (\<lambda>(sz, fl, al, o') A. case RA_Alloc sz fl al o' A of
     (ok, actual, _, base, A') \<Rightarrow> (if ok then Some (base, actual) else None, A'))"

definition ra_ready :: "ra_request \<Rightarrow> 'w RA_ARENA \<Rightarrow> bool" where
  "ra_ready = (\<lambda>(sz, fl, al, o') A. sz \<noteq> 0 \<and>
     (\<forall>n. import_clear n fl (snd (snd (snd (AttemptAllocAligned sz fl al o' A))))))"

lemma ra_alloc_law:
  assumes "ra_ok F A" "ra_ready r A" "ra_alloc r A = (x, A')"
  shows "ra_ok F A' \<and> live_blocks A' = (case x of None \<Rightarrow> live_blocks A | Some b \<Rightarrow> add_mset b (live_blocks A))"
proof -
  obtain sz fl al o' where r: "r = (sz, fl, al, o')" by (metis prod_cases4)
  obtain ok actual m base A1 where a: "RA_Alloc sz fl al o' A = (ok, actual, m, base, A1)" by (metis prod_cases5)
  show ?thesis
    using RA_Alloc_inv [OF assms(1) _ _ a] assms(2,3) a
    by (cases ok) (auto simp: ra_alloc_def ra_ready_def r alloc_result_def)
qed

lemma ra_free_law:
  "ra_ok F A \<Longrightarrow> (p, n) \<in># live_blocks A \<Longrightarrow>
     ra_ok F (RA_Free p f A) \<and> live_blocks (RA_Free p f A) = live_blocks A - {#(p, n)#}"
  using RA_Free_inv [of F A p n f] by (simp add: freed_def)

interpretation ra: arena_alloc "ra_ok F" live_blocks ra_alloc "\<lambda>p. RA_Free p f" ra_ready for F f
  by unfold_locales (rule ra_alloc_law ra_free_law RA_Free_unknown; assumption)+

section \<open>Concrete arenas\<close>

definition ex_ra_os :: os where
  "ex_ra_os = \<lparr>os_allocs = [0x300, 0x400, 0x500, 0x600, 0x700, 0x800, 0x900], os_live = [0x100, 0x200]\<rparr>"

definition ex_arena :: "unit RA_ARENA" where
  "ex_arena = the (fst (RA_Create 0x1000 0x3800 0 0x1000 None None None 0 (\<lambda>_. 0) ex_ra_os ()))"

lemma ex_create: "fst (RA_Create 0x1000 0x3800 0 0x1000 None None None 0 (\<lambda>_. 0) ex_ra_os ()) \<noteq> None"
  unfolding ex_ra_os_def by code_simp

lemma ex_create_ok: "create_ok 0x1000 0x3800 0x1000" "os_ok ex_ra_os"
  by (simp_all add: create_ok_def round_quantum_def os_ok_def ex_ra_os_def)

lemma ex_arena_ok:
  "ra_ok (blocks ex_ra_os) ex_arena" "live_blocks ex_arena = {#}"
  "free_space (segments ex_arena) = {0x1000 ..< 0x5000}"
proof -
  obtain r s' where r: "RA_Create 0x1000 0x3800 0 0x1000 None None None 0 (\<lambda>_. 0) ex_ra_os () = (r, s')" by fastforce
  have A: "r = Some ex_arena" using ex_create r by (simp add: ex_arena_def)
  from RA_Create_inv [OF ex_create_ok r] A
  show "ra_ok (blocks ex_ra_os) ex_arena" "live_blocks ex_arena = {#}"
    "free_space (segments ex_arena) = {0x1000 ..< 0x5000}"
    by (simp_all add: round_quantum_def)
qed

definition ex_arena2 :: "unit RA_ARENA" where
  "ex_arena2 = (case RA_Alloc 0x800 0 0x2000 0 ex_arena of (_, _, _, _, A) \<Rightarrow> A)"

lemma ex_alloc: "(case RA_Alloc 0x800 0 0x2000 0 ex_arena of (ok, n, _, base, A) \<Rightarrow> (ok, n, base)) = (True, 0x800, 0x2000)"
  unfolding ex_arena_def ex_ra_os_def by code_simp

lemma RA_Create_config:
  assumes "RA_Create base sz m q None ifr bf hI mf s w = (Some A, s')"
  shows "ra_config A = (mf, RequestAllocFail, ifr, bf, q, hI)"
  using assms
  by (auto simp: RA_Create_def Let_def split: prod.splits if_splits option.splits
      dest!: ra_config_InsertResource) (simp_all add: ra_config_def)

lemma RA_Create_import:
  "RA_Create base sz m q None ifr bf hI mf s w = (Some A, s') \<Longrightarrow> pImportAlloc A = RequestAllocFail"
  by (drule RA_Create_config) (simp add: ra_config_def)

lemma ex_arena_import: "pImportAlloc ex_arena = RequestAllocFail"
proof -
  obtain r s' where r: "RA_Create 0x1000 0x3800 0 0x1000 None None None 0 (\<lambda>_. 0) ex_ra_os () = (r, s')" by fastforce
  have "r = Some ex_arena" using ex_create r by (simp add: ex_arena_def)
  with r RA_Create_import show ?thesis by metis
qed

lemma ex_import:
  "import_clear n fl (snd (snd (snd (AttemptAllocAligned sz fl al o' ex_arena))))"
proof -
  obtain ok b m A where a: "AttemptAllocAligned sz fl al o' ex_arena = (ok, b, m, A)" by (metis prod_cases4)
  have "pImportAlloc A = RequestAllocFail"
    using ra_config_AttemptAllocAligned [OF a] ex_arena_import by (simp add: ra_config_def)
  then show ?thesis by (simp add: a import_clear_def RequestAllocFail_def)
qed

lemma ex_arena2:
  "RA_Alloc 0x800 0 0x2000 0 ex_arena = (True, 0x800, fst (snd (snd (RA_Alloc 0x800 0 0x2000 0 ex_arena))), 0x2000, ex_arena2)"
  using ex_alloc by (auto simp: ex_arena2_def split: prod.splits)

lemma ex_arena2_ok: "ra_ok (blocks ex_ra_os) ex_arena2" "live_blocks ex_arena2 = {#(0x2000, 0x800)#}"
proof -
  have "ra_ok (blocks ex_ra_os) ex_arena2 \<and> live_blocks ex_arena2 = add_mset (0x2000, 0x800) (live_blocks ex_arena)"
    using RA_Alloc_inv [OF ex_arena_ok(1) _ _ ex_arena2] ex_import by (simp add: alloc_result_def)
  then show "ra_ok (blocks ex_ra_os) ex_arena2" "live_blocks ex_arena2 = {#(0x2000, 0x800)#}"
    using ex_arena_ok(2) by simp_all
qed

definition ex_arena_full :: "unit RA_ARENA" where
  "ex_arena_full = (case RA_Alloc 0x4000 0 0 0 ex_arena of (_, _, _, _, A) \<Rightarrow> A)"

lemma next_live_last:
  "bs \<noteq> [] \<Longrightarrow> bt_type (last bs) = btt_live \<Longrightarrow>
     \<exists>b n. next_live bs = Some (b, n) \<and> n \<in> insert IMG_NULL (bt ` set bs)"
proof (induction bs)
  case (Cons b bs)
  show ?case
  proof (cases "bt_type b = btt_live")
    case True
    then show ?thesis by (cases bs) auto
  next
    case False
    then show ?thesis using Cons by (cases "bs = []") auto
  qed
qed simp

lemma next_live_step:
  assumes "segments A \<noteq> []" "bt_type (last (segments A)) = btt_live"
    and "hSegment d \<in> insert IMG_NULL (bt ` set (segments A))"
  shows "fst (RA_GetNextLiveSegment A d) \<and> hSegment (snd (RA_GetNextLiveSegment A d)) \<in> insert IMG_NULL (bt ` set (segments A))"
proof -
  define bs where "bs = (if hSegment d \<noteq> IMG_NULL then dropWhile (\<lambda>b. bt b \<noteq> hSegment d) (segments A) else segments A)"
  have ne: "bs \<noteq> []" using assms(1,3) by (auto simp: bs_def)
  have "\<exists>us. segments A = us @ bs"
  proof (cases "hSegment d \<noteq> IMG_NULL")
    case True
    then have "segments A = takeWhile (\<lambda>b. bt b \<noteq> hSegment d) (segments A) @ bs" by (simp add: bs_def)
    then show ?thesis ..
  qed (simp add: bs_def)
  then obtain us where us: "segments A = us @ bs" ..
  then have l: "bt_type (last bs) = btt_live" using assms(2) ne by simp
  obtain b n where n: "next_live bs = Some (b, n)" "n \<in> insert IMG_NULL (bt ` set bs)"
    using next_live_last [OF ne l] by blast
  then have "n \<in> insert IMG_NULL (bt ` set (segments A))" using us by auto
  with n(1) show ?thesis unfolding RA_GetNextLiveSegment_def bs_def [symmetric] Let_def by simp
qed

section \<open>Properties\<close>

text \<open>C20: Allocating from an arena keeps its invariant. A successful allocation returns a block of the
  requested size that overlaps no live block, is aligned as asked (the base plus the offset is a
  multiple of the alignment) and comes from a mapping with the requested flags; a failed one leaves
  the live blocks as they were. This holds whether the block comes from the free lists or from a span
  imported on demand, and whenever memory runs out in between.\<close>

theorem ra_alloc_correct:
  assumes "ra_ok F A" "sz \<noteq> 0"
    and "\<forall>n. import_clear n fl (snd (snd (snd (AttemptAllocAligned sz fl al o' A))))"
    and "RA_Alloc sz fl al o' A = (ok, actual, m, base, A')"
  shows "ra_ok F A' \<and> actual = sz \<and>
    (if ok then alloc_result sz fl al o' base m A A' else live_blocks A' = live_blocks A)"
  by (rule RA_Alloc_inv [OF assms])

theorem ra_alloc_correct_witness:
  "alloc_result 0x800 0 0x2000 0 0x2000 (fst (snd (snd (RA_Alloc 0x800 0 0x2000 0 ex_arena)))) ex_arena ex_arena2"
  using ra_alloc_correct [OF ex_arena_ok(1) _ _ ex_arena2] ex_import by simp



text \<open>C22: The search over the size classes is complete: it fails exactly when no free segment of the
  arena can hold the request at the requested alignment with matching flags. Skipping the empty
  classes and starting at the class of the size loses no segment.\<close>

theorem ra_search_complete:
  assumes "ra_ok F A" "off = (if al > 1 then o' mod al else o')"
  shows "scan_tables (segment_fits sz fl al off A) A (skip_empty A (pvr_log2 sz)) = None \<longleftrightarrow>
    \<not> (\<exists>b \<in> set (segments A). bt_type b = btt_free \<and>
          unat (aligned_base (bt_base b) al off) + unat sz \<le> seg_hi b \<and>
          (bt_psMapping b = IMG_NULL \<or> mapping_flags A (bt_psMapping b) = fl))"
  using find_segment_complete [OF assms, of sz fl] segment_fits_iff [OF assms(1) _ _ assms(2), of _ sz fl]
  unfolding find_segment_def by blast

theorem ra_search_complete_witness:
  "\<not> (\<exists>b \<in> set (segments ex_arena). bt_type b = btt_free \<and>
          unat (aligned_base (bt_base b) 0x2000 0) + unat (0x3001 :: IMG_SIZE_T) \<le> seg_hi b \<and>
          (bt_psMapping b = IMG_NULL \<or> mapping_flags ex_arena (bt_psMapping b) = 0))"
proof -
  have "scan_tables (segment_fits 0x3001 0 0x2000 0 ex_arena) ex_arena (skip_empty ex_arena (pvr_log2 0x3001)) = None"
    unfolding ex_arena_def ex_ra_os_def by code_simp
  then show ?thesis using ra_search_complete [OF ex_arena_ok(1), of 0 "0x2000" 0 "0x3001" 0] by simp
qed

text \<open>Allocating a block and freeing it again restores the live blocks of the arena.\<close>

theorem ra_alloc_free:
  assumes "ra_ok F A" "ra_ready r A" "ra_alloc r A = (Some (p, n), A')"
  shows "ra_ok F (RA_Free p f A') \<and> live_blocks (RA_Free p f A') = live_blocks A"
  by (rule ra.alloc_free [OF assms])

theorem ra_alloc_free_witness:
  "live_blocks (RA_Free 0x2000 True ex_arena2) = {#}"
proof -
  have "ra_ready (0x800, 0, 0x2000, 0) ex_arena" using ex_import by (simp add: ra_ready_def)
  moreover have "ra_alloc (0x800, 0, 0x2000, 0) ex_arena = (Some (0x2000, 0x800), ex_arena2)"
    by (simp add: ra_alloc_def) (subst ex_arena2, simp)
  ultimately show ?thesis using ra_alloc_free [OF ex_arena_ok(1)] ex_arena_ok(2) by metis
qed

text \<open>C23: Creating an arena gives an arena with no live block whose free space is the initial region
  rounded up to the quantum, or nothing, with all memory given back, when memory runs out. Freeing
  every live block of an arena in any order and deleting it gives back exactly the memory that is not
  other people's.\<close>

theorem ra_create_delete:
  assumes "create_ok base sz q" "os_ok s" "RA_Create base sz m q ia ifr bf hI mf s w = (r, s')"
    and "ra_ok F A" "live_blocks A = mset bs"
  shows "(case r of
      None \<Rightarrow> blocks s' = blocks s
    | Some A0 \<Rightarrow> ra_ok (blocks s) A0 \<and> ra_os A0 = s' \<and> live_blocks A0 = {#} \<and>
        free_space (segments A0) = (if sz > 0 then {unat base ..< unat base + unat (round_quantum q sz)} else {})) \<and>
    blocks (RA_Delete (fold (\<lambda>(p, n). RA_Free p f) bs A)) = F"
proof -
  have "ra_ok F (fold (\<lambda>(p, n). RA_Free p f) bs A) \<and> live_blocks (fold (\<lambda>(p, n). RA_Free p f) bs A) = {#}"
    by (rule ra.free_all [OF assms(4,5)])
  then have "blocks (RA_Delete (fold (\<lambda>(p, n). RA_Free p f) bs A)) = F"
    using RA_Delete_blocks no_live_entries by fastforce
  then show ?thesis using RA_Create_inv [OF assms(1-3)] by blast
qed

theorem ra_create_delete_witness:
  "blocks (RA_Delete (RA_Free 0x2000 True ex_arena2)) = blocks ex_ra_os"
proof -
  obtain r s' where r: "RA_Create 0x1000 0x3800 0 0x1000 None None None 0 (\<lambda>_. 0) ex_ra_os () = (r, s')" by fastforce
  show ?thesis
    using ra_create_delete [OF ex_create_ok r ex_arena2_ok(1), of "[(0x2000, 0x800)]" True] ex_arena2_ok(2) by simp
qed

text \<open>The free table of a segment is the binary logarithm of its size, rounded down: every non-zero
  size has a class below the number of tables, and a larger size never has a smaller class.\<close>

theorem pvr_log2_classes:
  "pvr_log2 n < FREE_TABLE_LIMIT \<and> unat n < 2 ^ (pvr_log2 n + 1) \<and> (n \<noteq> 0 \<longrightarrow> 2 ^ pvr_log2 n \<le> unat n) \<and>
   (n \<le> m \<longrightarrow> pvr_log2 n \<le> pvr_log2 m)"
  using pvr_log2_limit pvr_log2_upper pvr_log2_lower pvr_log2_mono by (simp add: FREE_TABLE_LIMIT_def)

theorem pvr_log2_classes_witness: "(2 :: nat) ^ pvr_log2 0x3000 \<le> 0x3000 \<and> pvr_log2 0x1000 \<le> pvr_log2 0x3000"
  using pvr_log2_classes [of "0x3000" "0x3000"] pvr_log2_classes [of "0x1000" "0x3000"] by simp

text \<open>The test whether an arena can be deleted answers only when the arena is empty or its first
  segment is not free: with a free first segment the loop never moves on and never returns.\<close>

theorem ra_test_delete_loops:
  "RA_TestDelete A = (case segments A of
      [] \<Rightarrow> Some True
    | b # _ \<Rightarrow> if bt_type b = btt_free then None else Some False)"
proof (cases "segments A")
  case Nil
  then show ?thesis by (simp add: RA_TestDelete.simps)
next
  case (Cons b bs)
  have "\<not> (\<exists>b bs. segments A = b # bs \<and> bt_type b = btt_free)" if "RA_TestDelete A = Some y" for y
    using that by (rule RA_TestDelete.raw_induct [rotated]) (auto split: list.splits if_splits)
  then have "RA_TestDelete A = None" if "bt_type b = btt_free" using that Cons by (cases "RA_TestDelete A") auto
  moreover have "RA_TestDelete A = Some False" if "bt_type b \<noteq> btt_free"
    using that Cons by (subst RA_TestDelete.simps) simp
  ultimately show ?thesis using Cons by simp
qed

text \<open>The enumeration of the live segments never ends when the last segment of the arena is live:
  it then hands out a null segment handle, with which the next call starts again at the head. The
  loop that saves the live segments of an arena for suspend relies on the enumeration to end.\<close>

theorem ra_next_live_restarts:
  assumes "segments A \<noteq> []" "bt_type (last (segments A)) = btt_live" "hSegment d = IMG_NULL"
  shows "fst (RA_GetNextLiveSegment A (((\<lambda>d. snd (RA_GetNextLiveSegment A d)) ^^ k) d))"
proof -
  have "hSegment (((\<lambda>d. snd (RA_GetNextLiveSegment A d)) ^^ k) d) \<in> insert IMG_NULL (bt ` set (segments A))"
  proof (induction k)
    case 0
    then show ?case using assms(3) by simp
  next
    case (Suc k)
    then show ?case using next_live_step [OF assms(1,2)] by simp
  qed
  then show ?thesis using next_live_step [OF assms(1,2)] by blast
qed

theorem ra_next_live_restarts_witness:
  "fst (RA_GetNextLiveSegment ex_arena_full (((\<lambda>d. snd (RA_GetNextLiveSegment ex_arena_full d)) ^^ 7)
     \<lparr>uiSize = 0, sCpuPhyAddr = 0, hSegment = IMG_NULL\<rparr>))"
proof -
  have "segments ex_arena_full \<noteq> []" "bt_type (last (segments ex_arena_full)) = btt_live"
    unfolding ex_arena_full_def ex_arena_def ex_ra_os_def by code_simp+
  then show ?thesis by (rule ra_next_live_restarts) simp
qed

end
