(* ===== verification/Handle_Base.thy ===== *)
theory Handle_Base
  imports Hash_Table "HOL-Library.Monad_Syntax"
begin

text \<open>
  The handle bases of \<open>services4/srvkm/common/handle.c\<close>: the tables that translate the handles user
  space holds into kernel pointers. A base is an array of blocks of 256 handle structures, a free
  list threaded through the structures, a hash table from (data, type, parent) to handles, a ring of
  children for every handle, and a batch of handles that are committed or released together.

  A pointer to a handle structure is its index; the field \<open>ui32Index\<close> of the source, written once when
  a block is allocated and equal to that index, is therefore left out. The structures are a function of
  the index, of which the entries below \<open>ui32TotalHandCount\<close> exist: a new block keeps arbitrary
  contents in the fields the source leaves uninitialised. Operations that follow indices found in the
  structures return an option; \<open>None\<close> stands for an access outside the array or a loop that does not
  end, so that a result \<open>Some\<close> is a claim of memory safety and termination. The build is the release
  build (blocks of 256) with \<open>PVR_SECURE_HANDLES\<close> and without \<open>SUPPORT_SID_INTERFACE\<close>.
\<close>

section \<open>Data\<close>

type_synonym IMG_HANDLE = IMG_UINTPTR_T
type_synonym PVRSRV_HANDLE_TYPE = IMG_UINT32
type_synonym PVRSRV_HANDLE_ALLOC_FLAG = IMG_UINT32

definition PVRSRV_HANDLE_TYPE_NONE :: PVRSRV_HANDLE_TYPE where "PVRSRV_HANDLE_TYPE_NONE = 0"
definition PVRSRV_HANDLE_ALLOC_FLAG_SHARED :: PVRSRV_HANDLE_ALLOC_FLAG where "PVRSRV_HANDLE_ALLOC_FLAG_SHARED = 1"
definition PVRSRV_HANDLE_ALLOC_FLAG_MULTI :: PVRSRV_HANDLE_ALLOC_FLAG where "PVRSRV_HANDLE_ALLOC_FLAG_MULTI = 2"
definition PVRSRV_HANDLE_ALLOC_FLAG_PRIVATE :: PVRSRV_HANDLE_ALLOC_FLAG where "PVRSRV_HANDLE_ALLOC_FLAG_PRIVATE = 4"

definition HANDLE_BLOCK_SHIFT :: nat where "HANDLE_BLOCK_SHIFT = 8"
definition HANDLE_BLOCK_SIZE :: IMG_UINT32 where "HANDLE_BLOCK_SIZE = push_bit HANDLE_BLOCK_SHIFT 1"
definition HANDLE_SUB_BLOCK_MASK :: IMG_UINT32 where "HANDLE_SUB_BLOCK_MASK = HANDLE_BLOCK_SIZE - 1"
definition HANDLE_BLOCK_MASK :: IMG_UINT32 where "HANDLE_BLOCK_MASK = NOT HANDLE_SUB_BLOCK_MASK"
definition HANDLE_HASH_TAB_INIT_SIZE :: IMG_UINT32 where "HANDLE_HASH_TAB_INIT_SIZE = 32"
definition DEFAULT_MAX_HANDLE :: IMG_UINT32 where "DEFAULT_MAX_HANDLE = 0x7fffffff"

definition INDEX_TO_BLOCK_INDEX :: "IMG_UINT32 \<Rightarrow> IMG_UINT32" where
  "INDEX_TO_BLOCK_INDEX i = drop_bit HANDLE_BLOCK_SHIFT i"

definition BLOCK_INDEX_TO_INDEX :: "IMG_UINT32 \<Rightarrow> IMG_UINT32" where
  "BLOCK_INDEX_TO_INDEX i = push_bit HANDLE_BLOCK_SHIFT i"

definition INDEX_TO_HANDLE :: "IMG_UINT32 \<Rightarrow> IMG_HANDLE" where
  "INDEX_TO_HANDLE i = ucast i + 1"

definition HANDLE_TO_INDEX :: "IMG_HANDLE \<Rightarrow> IMG_UINT32" where
  "HANDLE_TO_INDEX h = ucast h - 1"

definition ROUND_DOWN_TO_MULTIPLE_OF_BLOCK_SIZE :: "IMG_UINT32 \<Rightarrow> IMG_UINT32" where
  "ROUND_DOWN_TO_MULTIPLE_OF_BLOCK_SIZE a = HANDLE_BLOCK_MASK AND a"

definition ROUND_UP_TO_MULTIPLE_OF_BLOCK_SIZE :: "IMG_UINT32 \<Rightarrow> IMG_UINT32" where
  "ROUND_UP_TO_MULTIPLE_OF_BLOCK_SIZE a = ROUND_DOWN_TO_MULTIPLE_OF_BLOCK_SIZE (a + HANDLE_BLOCK_SIZE - 1)"

definition DEFAULT_MAX_INDEX_PLUS_ONE :: IMG_UINT32 where
  "DEFAULT_MAX_INDEX_PLUS_ONE = ROUND_DOWN_TO_MULTIPLE_OF_BLOCK_SIZE DEFAULT_MAX_HANDLE"

definition HANDLE_ARRAY_SIZE :: "IMG_UINT32 \<Rightarrow> IMG_UINT32" where
  "HANDLE_ARRAY_SIZE n = drop_bit HANDLE_BLOCK_SHIFT (ROUND_UP_TO_MULTIPLE_OF_BLOCK_SIZE n)"

definition sizeof_sHandleIndex :: IMG_UINT32 where "sizeof_sHandleIndex = 24"
definition sizeof_sHandle :: IMG_UINT32 where "sizeof_sHandle = 64"
definition sizeof_HANDLE_BASE :: IMG_UINT32 where "sizeof_HANDLE_BASE = 72"
definition sizeof_HAND_KEY :: IMG_SIZE_T where "sizeof_HAND_KEY = 24"

record sHandleList =
  ui32Prev :: IMG_UINT32
  ui32Next :: IMG_UINT32
  hl_hParent :: IMG_HANDLE

definition INTERNAL_HANDLE_FLAG_NONE :: IMG_UINT32 where "INTERNAL_HANDLE_FLAG_NONE = 0"
definition INTERNAL_HANDLE_FLAG_BATCHED :: IMG_UINT32 where "INTERNAL_HANDLE_FLAG_BATCHED = 1"
definition INTERNAL_HANDLE_FLAG_BATCHED_PARTIALLY_FREE :: IMG_UINT32 where
  "INTERNAL_HANDLE_FLAG_BATCHED_PARTIALLY_FREE = 2"

record sHandle =
  h_eType :: PVRSRV_HANDLE_TYPE
  h_pvData :: IMG_UINTPTR_T
  ui32NextIndexPlusOne :: IMG_UINT32
  eInternalFlag :: IMG_UINT32
  h_eFlag :: PVRSRV_HANDLE_ALLOC_FLAG
  sChildren :: sHandleList
  sSiblings :: sHandleList

text \<open>The array of \<open>sHandleIndex\<close> is split in its columns: the addresses of the blocks, the handle
  structures themselves and the free count of each block.\<close>

record HANDLE_BASE =
  psBase :: IMG_UINTPTR_T
  psHandleArray :: IMG_UINTPTR_T
  psHandleBlocks :: "IMG_UINTPTR_T list"
  hands :: "IMG_UINT32 \<Rightarrow> sHandle"
  ui32FreeHandBlockCount :: "IMG_UINT32 \<Rightarrow> IMG_UINT32"
  psHashTab :: "HASH_TABLE option"
  ui32FreeHandCount :: IMG_UINT32
  ui32FirstFreeIndex :: IMG_UINT32
  ui32MaxIndexPlusOne :: IMG_UINT32
  ui32TotalHandCount :: IMG_UINT32
  ui32LastFreeIndexPlusOne :: IMG_UINT32
  ui32HandBatchSize :: IMG_UINT32
  ui32TotalHandCountPreBatch :: IMG_UINT32
  ui32FirstBatchIndexPlusOne :: IMG_UINT32
  ui32BatchHandAllocFailures :: IMG_UINT32
  bPurgingEnabled :: bool
  hb_os :: os

definition TEST_FLAG :: "IMG_UINT32 \<Rightarrow> IMG_UINT32 \<Rightarrow> bool" where
  "TEST_FLAG v f \<longleftrightarrow> v AND f \<noteq> 0"

definition HANDLES_BATCHED :: "HANDLE_BASE \<Rightarrow> bool" where
  "HANDLES_BATCHED b \<longleftrightarrow> ui32HandBatchSize b \<noteq> 0"

definition BATCHED_HANDLE :: "sHandle \<Rightarrow> bool" where
  "BATCHED_HANDLE h = TEST_FLAG (eInternalFlag h) INTERNAL_HANDLE_FLAG_BATCHED"

definition BATCHED_HANDLE_PARTIALLY_FREE :: "sHandle \<Rightarrow> bool" where
  "BATCHED_HANDLE_PARTIALLY_FREE h = TEST_FLAG (eInternalFlag h) INTERNAL_HANDLE_FLAG_BATCHED_PARTIALLY_FREE"

definition SET_INTERNAL_FLAG :: "IMG_UINT32 \<Rightarrow> sHandle \<Rightarrow> sHandle" where
  "SET_INTERNAL_FLAG f h = h\<lparr>eInternalFlag := eInternalFlag h OR f\<rparr>"

definition CLEAR_INTERNAL_FLAG :: "IMG_UINT32 \<Rightarrow> sHandle \<Rightarrow> sHandle" where
  "CLEAR_INTERNAL_FLAG f h = h\<lparr>eInternalFlag := eInternalFlag h AND NOT f\<rparr>"

definition HANDLE_STRUCT_IS_FREE :: "sHandle \<Rightarrow> bool" where
  "HANDLE_STRUCT_IS_FREE h \<longleftrightarrow> h_eType h = PVRSRV_HANDLE_TYPE_NONE \<and> eInternalFlag h = INTERNAL_HANDLE_FLAG_NONE"

definition INDEX_IS_VALID :: "HANDLE_BASE \<Rightarrow> IMG_UINT32 \<Rightarrow> bool" where
  "INDEX_IS_VALID b i \<longleftrightarrow> i < ui32TotalHandCount b"

section \<open>Access to the structures\<close>

definition hnd :: "IMG_UINT32 \<Rightarrow> HANDLE_BASE \<Rightarrow> sHandle option" where
  "hnd i b = (if i < ui32TotalHandCount b then Some (hands b i) else None)"

definition upd :: "IMG_UINT32 \<Rightarrow> (sHandle \<Rightarrow> sHandle) \<Rightarrow> HANDLE_BASE \<Rightarrow> HANDLE_BASE option" where
  "upd i f b =
     (if i < ui32TotalHandCount b then Some (b\<lparr>hands := (hands b)(i := f (hands b i))\<rparr>) else None)"

text \<open>\<open>LIST_PTR_FROM_INDEX_AND_OFFSET\<close>: in the ring of the parent \<open>p\<close> the link of the parent is its
  \<open>sChildren\<close>, the link of every other handle its \<open>sSiblings\<close>.\<close>

definition list_ptr :: "IMG_UINT32 \<Rightarrow> IMG_UINT32 \<Rightarrow> HANDLE_BASE \<Rightarrow> sHandleList option" where
  "list_ptr i p b = map_option (if i = p then sChildren else sSiblings) (hnd i b)"

definition list_upd ::
  "IMG_UINT32 \<Rightarrow> IMG_UINT32 \<Rightarrow> (sHandleList \<Rightarrow> sHandleList) \<Rightarrow> HANDLE_BASE \<Rightarrow> HANDLE_BASE option" where
  "list_upd i p f b = upd i (if i = p then sChildren_update f else sSiblings_update f) b"

section \<open>The rings of children\<close>

definition HandleListInit :: "IMG_UINT32 \<Rightarrow> IMG_HANDLE \<Rightarrow> sHandleList" where
  "HandleListInit ui32Index hParent = \<lparr>ui32Prev = ui32Index, ui32Next = ui32Index, hl_hParent = hParent\<rparr>"

definition InitParentList :: "IMG_UINT32 \<Rightarrow> sHandle \<Rightarrow> sHandle" where
  "InitParentList i h = h\<lparr>sChildren := HandleListInit i (INDEX_TO_HANDLE i)\<rparr>"

definition InitChildEntry :: "IMG_UINT32 \<Rightarrow> sHandle \<Rightarrow> sHandle" where
  "InitChildEntry i h = h\<lparr>sSiblings := HandleListInit i IMG_NULL\<rparr>"

definition HandleListIsEmpty :: "IMG_UINT32 \<Rightarrow> sHandleList \<Rightarrow> bool" where
  "HandleListIsEmpty i l \<longleftrightarrow> ui32Next l = i"

definition ParentHandle :: "sHandle \<Rightarrow> IMG_HANDLE" where
  "ParentHandle h = hl_hParent (sSiblings h)"

definition HandleListInsertBefore ::
  "IMG_UINT32 \<Rightarrow> IMG_UINT32 \<Rightarrow> IMG_UINT32 \<Rightarrow> HANDLE_BASE \<Rightarrow> HANDLE_BASE option" where
  "HandleListInsertBefore ui32InsIndex ui32EntryIndex ui32ParentIndex b =
     do {
       psIns \<leftarrow> list_ptr ui32InsIndex ui32ParentIndex b;
       let ui32PrevIns = ui32Prev psIns;
       b1 \<leftarrow> list_upd ui32EntryIndex ui32ParentIndex (\<lambda>l. l\<lparr>ui32Prev := ui32PrevIns\<rparr>) b;
       b2 \<leftarrow> list_upd ui32InsIndex ui32ParentIndex (\<lambda>l. l\<lparr>ui32Prev := ui32EntryIndex\<rparr>) b1;
       b3 \<leftarrow> list_upd ui32EntryIndex ui32ParentIndex (\<lambda>l. l\<lparr>ui32Next := ui32InsIndex\<rparr>) b2;
       b4 \<leftarrow> list_upd ui32PrevIns ui32ParentIndex (\<lambda>l. l\<lparr>ui32Next := ui32EntryIndex\<rparr>) b3;
       list_upd ui32EntryIndex ui32ParentIndex (\<lambda>l. l\<lparr>hl_hParent := INDEX_TO_HANDLE ui32ParentIndex\<rparr>) b4
     }"

definition AdoptChild :: "IMG_UINT32 \<Rightarrow> IMG_UINT32 \<Rightarrow> HANDLE_BASE \<Rightarrow> HANDLE_BASE option" where
  "AdoptChild psParent psChild b =
     do {
       h \<leftarrow> hnd psParent b;
       let ui32Parent = HANDLE_TO_INDEX (hl_hParent (sChildren h));
       HandleListInsertBefore ui32Parent psChild ui32Parent b
     }"

definition HandleListRemove :: "IMG_UINT32 \<Rightarrow> HANDLE_BASE \<Rightarrow> HANDLE_BASE option" where
  "HandleListRemove ui32EntryIndex b =
     do {
       h \<leftarrow> hnd ui32EntryIndex b;
       let psEntry = sSiblings h;
       if HandleListIsEmpty ui32EntryIndex psEntry then Some b
       else
         do {
           let p = HANDLE_TO_INDEX (hl_hParent psEntry);
           b1 \<leftarrow> list_upd (ui32Prev psEntry) p (\<lambda>l. l\<lparr>ui32Next := ui32Next psEntry\<rparr>) b;
           b2 \<leftarrow> list_upd (ui32Next psEntry) p (\<lambda>l. l\<lparr>ui32Prev := ui32Prev psEntry\<rparr>) b1;
           upd ui32EntryIndex (\<lambda>h. h\<lparr>sSiblings := HandleListInit ui32EntryIndex IMG_NULL\<rparr>) b2
         }
     }"

definition UnlinkFromParent :: "IMG_UINT32 \<Rightarrow> HANDLE_BASE \<Rightarrow> HANDLE_BASE option" where
  "UnlinkFromParent psHandle b = HandleListRemove psHandle b"

section \<open>Looking up and keys\<close>

definition GetHandleStructure ::
  "IMG_HANDLE \<Rightarrow> PVRSRV_HANDLE_TYPE \<Rightarrow> HANDLE_BASE \<Rightarrow> PVRSRV_ERROR + IMG_UINT32" where
  "GetHandleStructure hHandle eType b =
     (let ui32Index = HANDLE_TO_INDEX hHandle
      in if \<not> INDEX_IS_VALID b ui32Index then Inl PVRSRV_ERROR_HANDLE_INDEX_OUT_OF_RANGE
         else
           (let psHandle = hands b ui32Index
            in if h_eType psHandle = PVRSRV_HANDLE_TYPE_NONE then Inl PVRSRV_ERROR_HANDLE_NOT_ALLOCATED
               else if eType \<noteq> PVRSRV_HANDLE_TYPE_NONE \<and> eType \<noteq> h_eType psHandle
               then Inl PVRSRV_ERROR_HANDLE_TYPE_MISMATCH
               else Inr ui32Index))"

definition ParentIfPrivate :: "sHandle \<Rightarrow> IMG_HANDLE" where
  "ParentIfPrivate h =
     (if TEST_FLAG (h_eFlag h) PVRSRV_HANDLE_ALLOC_FLAG_PRIVATE then ParentHandle h else IMG_NULL)"

definition InitKey :: "IMG_UINTPTR_T \<Rightarrow> PVRSRV_HANDLE_TYPE \<Rightarrow> IMG_HANDLE \<Rightarrow> IMG_UINTPTR_T list" where
  "InitKey pvData eType hParent = [pvData, ucast eType, hParent]"

definition FindHandle ::
  "IMG_UINTPTR_T \<Rightarrow> PVRSRV_HANDLE_TYPE \<Rightarrow> IMG_HANDLE \<Rightarrow> HANDLE_BASE \<Rightarrow> IMG_HANDLE option" where
  "FindHandle pvData eType hParent b =
     map_option (\<lambda>t. HASH_Retrieve_Extended t (InitKey pvData eType hParent)) (psHashTab b)"

section \<open>The array of blocks\<close>

text \<open>Blocks for the new indices; a failed allocation leaves a null pointer, and the loop goes on.\<close>

fun alloc_blocks :: "nat \<Rightarrow> os \<Rightarrow> PVRSRV_ERROR \<times> IMG_UINTPTR_T list \<times> os" where
  "alloc_blocks 0 s = (PVRSRV_OK, [], s)"
| "alloc_blocks (Suc n) s =
     (let (eError, p, s1) = OSAllocMem (sizeof_sHandle * HANDLE_BLOCK_SIZE) s;
          (eReturn, ps, s2) = alloc_blocks n s1
      in (if eReturn = PVRSRV_OK then eError else eReturn, p # ps, s2))"

definition free_blocks :: "IMG_UINTPTR_T list \<Rightarrow> os \<Rightarrow> os" where
  "free_blocks ps s = fold (\<lambda>p s. if p \<noteq> IMG_NULL then OSFreeMem p s else s) ps s"

definition init_handle :: "sHandle \<Rightarrow> sHandle" where
  "init_handle h = h\<lparr>h_eType := PVRSRV_HANDLE_TYPE_NONE, eInternalFlag := INTERNAL_HANDLE_FLAG_NONE,
     ui32NextIndexPlusOne := 0\<rparr>"

text \<open>The bookkeeping of the free handles after the array has been replaced.\<close>

definition grow_free_list :: "IMG_UINT32 \<Rightarrow> IMG_UINT32 \<Rightarrow> HANDLE_BASE \<Rightarrow> HANDLE_BASE option" where
  "grow_free_list ui32OldCount ui32NewCount b =
     do {
       let b1 = b\<lparr>ui32FreeHandCount := ui32FreeHandCount b + (ui32NewCount - ui32OldCount)\<rparr>;
       b2 \<leftarrow> (if ui32FirstFreeIndex b1 = 0 then Some (b1\<lparr>ui32FirstFreeIndex := ui32OldCount\<rparr>)
              else if \<not> bPurgingEnabled b1
              then upd (ui32LastFreeIndexPlusOne b1 - 1) (\<lambda>h. h\<lparr>ui32NextIndexPlusOne := ui32OldCount + 1\<rparr>) b1
              else Some b1);
       Some (if \<not> bPurgingEnabled b2 then b2\<lparr>ui32LastFreeIndexPlusOne := ui32NewCount\<rparr> else b2)
     }"

definition shrink_free_list :: "IMG_UINT32 \<Rightarrow> IMG_UINT32 \<Rightarrow> HANDLE_BASE \<Rightarrow> HANDLE_BASE" where
  "shrink_free_list ui32OldCount ui32NewCount b =
     (let b1 = b\<lparr>ui32FreeHandCount := ui32FreeHandCount b - (ui32OldCount - ui32NewCount)\<rparr>
      in if ui32NewCount = 0 then b1\<lparr>ui32FirstFreeIndex := 0, ui32LastFreeIndexPlusOne := 0\<rparr> else b1)"

definition ReallocHandleArray :: "IMG_UINT32 \<Rightarrow> HANDLE_BASE \<Rightarrow> (PVRSRV_ERROR \<times> HANDLE_BASE) option" where
  "ReallocHandleArray ui32NewCount b =
     (let ui32OldCount = ui32TotalHandCount b in
      if ui32NewCount = ui32OldCount then Some (PVRSRV_OK, b)
      else if ui32NewCount \<noteq> 0 \<and> \<not> bPurgingEnabled b \<and> ui32NewCount < ui32OldCount
      then Some (PVRSRV_ERROR_INVALID_PARAMS, b)
      else if ui32OldCount mod HANDLE_BLOCK_SIZE \<noteq> 0 \<or> ui32NewCount mod HANDLE_BLOCK_SIZE \<noteq> 0
      then Some (PVRSRV_ERROR_INVALID_PARAMS, b)
      else
        (let (eError, psNewArray, s1) =
               (if ui32NewCount \<noteq> 0
                then OSAllocMem (HANDLE_ARRAY_SIZE ui32NewCount * sizeof_sHandleIndex) (hb_os b)
                else (PVRSRV_OK, IMG_NULL, hb_os b))
         in if eError \<noteq> PVRSRV_OK then Some (eError, b\<lparr>hb_os := s1\<rparr>)
            else
              (let n = unat (INDEX_TO_BLOCK_INDEX ui32NewCount);
                   m = unat (INDEX_TO_BLOCK_INDEX ui32OldCount);
                   s2 = free_blocks (drop n (psHandleBlocks b)) s1;
                   (eReturn, ps, s3) = alloc_blocks (n - m) s2
               in if eReturn \<noteq> PVRSRV_OK
                  then Some (eReturn, b\<lparr>hb_os := OSFreeMem psNewArray (free_blocks ps s3)\<rparr>)
                  else
                    (let b1 = b\<lparr>psHandleArray := psNewArray,
                               psHandleBlocks := take n (psHandleBlocks b) @ ps,
                               hands := (\<lambda>i. if ui32OldCount \<le> i \<and> i < ui32NewCount then init_handle (hands b i) else hands b i),
                               ui32FreeHandBlockCount :=
                                 (\<lambda>k. if m \<le> unat k \<and> unat k < n then HANDLE_BLOCK_SIZE else ui32FreeHandBlockCount b k),
                               ui32TotalHandCount := ui32NewCount,
                               hb_os := (if psHandleArray b \<noteq> IMG_NULL then OSFreeMem (psHandleArray b) s3 else s3)\<rparr>
                     in map_option (Pair PVRSRV_OK)
                          (if ui32NewCount > ui32OldCount then grow_free_list ui32OldCount ui32NewCount b1
                           else Some (shrink_free_list ui32OldCount ui32NewCount b1))))))"

definition FreeHandleArray :: "HANDLE_BASE \<Rightarrow> (PVRSRV_ERROR \<times> HANDLE_BASE) option" where
  "FreeHandleArray b = ReallocHandleArray 0 b"

definition IncreaseHandleArraySize :: "IMG_UINT32 \<Rightarrow> HANDLE_BASE \<Rightarrow> (PVRSRV_ERROR \<times> HANDLE_BASE) option" where
  "IncreaseHandleArraySize ui32Delta b =
     (let ui32DeltaAdjusted = ROUND_UP_TO_MULTIPLE_OF_BLOCK_SIZE ui32Delta;
          ui32NewTotalHandCount = ui32TotalHandCount b + ui32DeltaAdjusted
      in if ui32NewTotalHandCount > ui32MaxIndexPlusOne b \<or> ui32NewTotalHandCount \<le> ui32TotalHandCount b
         then
           (let ui32NewTotalHandCount = ui32MaxIndexPlusOne b;
                ui32DeltaAdjusted = ui32NewTotalHandCount - ui32TotalHandCount b
            in if ui32DeltaAdjusted < ui32Delta then Some (PVRSRV_ERROR_OUT_OF_MEMORY, b)
               else ReallocHandleArray ui32NewTotalHandCount b)
         else ReallocHandleArray ui32NewTotalHandCount b)"

definition EnsureFreeHandles :: "IMG_UINT32 \<Rightarrow> HANDLE_BASE \<Rightarrow> (PVRSRV_ERROR \<times> HANDLE_BASE) option" where
  "EnsureFreeHandles ui32Free b =
     (if ui32Free > ui32FreeHandCount b then IncreaseHandleArraySize (ui32Free - ui32FreeHandCount b) b
      else Some (PVRSRV_OK, b))"

section \<open>Freeing\<close>

text \<open>\<open>FreeHandle\<close> and the iteration over the children that calls it are mutually recursive: the two
  calls are the two constructors.\<close>

datatype free_call = Free_Handle IMG_UINT32 | Iterate_Children IMG_UINT32 IMG_UINT32

definition hash_out :: "sHandle \<Rightarrow> HANDLE_BASE \<Rightarrow> HANDLE_BASE option" where
  "hash_out h b =
     (if \<not> TEST_FLAG (h_eFlag h) PVRSRV_HANDLE_ALLOC_FLAG_MULTI \<and> \<not> BATCHED_HANDLE_PARTIALLY_FREE h
      then map_option (\<lambda>t. case HASH_Remove_Extended t (InitKey (h_pvData h) (h_eType h) (ParentIfPrivate h)) (hb_os b) of
             (_, t', s') \<Rightarrow> b\<lparr>psHashTab := Some t', hb_os := s'\<rparr>) (psHashTab b)
      else Some b)"

definition append_free :: "IMG_UINT32 \<Rightarrow> HANDLE_BASE \<Rightarrow> HANDLE_BASE option" where
  "append_free ui32Index b =
     do {
       b1 \<leftarrow> (if \<not> bPurgingEnabled b then
                do {
                  b' \<leftarrow> (if ui32FreeHandCount b = 0 then Some (b\<lparr>ui32FirstFreeIndex := ui32Index\<rparr>)
                         else upd (ui32LastFreeIndexPlusOne b - 1) (\<lambda>h. h\<lparr>ui32NextIndexPlusOne := ui32Index + 1\<rparr>) b);
                  Some (b'\<lparr>ui32LastFreeIndexPlusOne := ui32Index + 1\<rparr>)
                }
              else Some b);
       let k = INDEX_TO_BLOCK_INDEX ui32Index;
       Some (b1\<lparr>ui32FreeHandCount := ui32FreeHandCount b1 + 1,
               ui32FreeHandBlockCount := (ui32FreeHandBlockCount b1)(k := ui32FreeHandBlockCount b1 k + 1)\<rparr>)
     }"

text \<open>The end of \<open>FreeHandle\<close>, after the children are gone: a batched handle stays in its batch, marked as
  partially free; any other joins the free list.\<close>

definition retire_handle :: "IMG_UINT32 \<Rightarrow> HANDLE_BASE \<Rightarrow> HANDLE_BASE option" where
  "retire_handle ui32Index b =
     do {
       b1 \<leftarrow> upd ui32Index (\<lambda>h. h\<lparr>h_eType := PVRSRV_HANDLE_TYPE_NONE\<rparr>) b;
       h \<leftarrow> hnd ui32Index b1;
       if BATCHED_HANDLE h \<and> \<not> BATCHED_HANDLE_PARTIALLY_FREE h
       then upd ui32Index (SET_INTERNAL_FLAG INTERNAL_HANDLE_FLAG_BATCHED_PARTIALLY_FREE) b1
       else append_free ui32Index b1
     }"

partial_function (option) free_run :: "free_call \<Rightarrow> HANDLE_BASE \<Rightarrow> (PVRSRV_ERROR \<times> HANDLE_BASE) option" where
  "free_run c b =
     (case c of
        Free_Handle psHandle \<Rightarrow>
          do {
            h \<leftarrow> hnd psHandle b;
            b1 \<leftarrow> hash_out h b;
            b2 \<leftarrow> UnlinkFromParent psHandle b1;
            h2 \<leftarrow> hnd psHandle b2;
            r \<leftarrow> free_run (Iterate_Children (HANDLE_TO_INDEX (hl_hParent (sChildren h2))) (ui32Next (sChildren h2))) b2;
            if fst r \<noteq> PVRSRV_OK then Some r
            else map_option (Pair PVRSRV_OK) (retire_handle psHandle (snd r))
          }
      | Iterate_Children ui32Parent ui32Index \<Rightarrow>
          if ui32Index = ui32Parent then Some (PVRSRV_OK, b)
          else
            do {
              psEntry \<leftarrow> list_ptr ui32Index ui32Parent b;
              r \<leftarrow> free_run (Free_Handle ui32Index) b;
              if fst r \<noteq> PVRSRV_OK then Some r
              else free_run (Iterate_Children ui32Parent (ui32Next psEntry)) (snd r)
            })"

definition FreeHandle :: "IMG_UINT32 \<Rightarrow> HANDLE_BASE \<Rightarrow> (PVRSRV_ERROR \<times> HANDLE_BASE) option" where
  "FreeHandle psHandle b = free_run (Free_Handle psHandle) b"

definition HandleListIterate :: "sHandleList \<Rightarrow> HANDLE_BASE \<Rightarrow> (PVRSRV_ERROR \<times> HANDLE_BASE) option" where
  "HandleListIterate psHead b =
     free_run (Iterate_Children (HANDLE_TO_INDEX (hl_hParent psHead)) (ui32Next psHead)) b"

text \<open>The loop over all indices, which stops at the first error and when every handle is free; freeing
  does not change the number of structures.\<close>

fun free_all_loop :: "IMG_UINT32 list \<Rightarrow> HANDLE_BASE \<Rightarrow> (PVRSRV_ERROR \<times> HANDLE_BASE) option" where
  "free_all_loop [] b = Some (PVRSRV_OK, b)"
| "free_all_loop (i # is) b =
     do {
       psHandle \<leftarrow> hnd i b;
       if h_eType psHandle \<noteq> PVRSRV_HANDLE_TYPE_NONE then
         do {
           r \<leftarrow> FreeHandle i b;
           if fst r \<noteq> PVRSRV_OK \<or> ui32FreeHandCount (snd r) = ui32TotalHandCount (snd r) then Some r
           else free_all_loop is (snd r)
         }
       else free_all_loop is b
     }"

definition FreeAllHandles :: "HANDLE_BASE \<Rightarrow> (PVRSRV_ERROR \<times> HANDLE_BASE) option" where
  "FreeAllHandles b =
     (if ui32FreeHandCount b = ui32TotalHandCount b then Some (PVRSRV_OK, b)
      else free_all_loop (map of_nat [0 ..< unat (ui32TotalHandCount b)]) b)"

section \<open>Batches\<close>

definition PVRSRVNewHandleBatch :: "IMG_UINT32 \<Rightarrow> HANDLE_BASE \<Rightarrow> (PVRSRV_ERROR \<times> HANDLE_BASE) option" where
  "PVRSRVNewHandleBatch ui32BatchSize b =
     (if HANDLES_BATCHED b then Some (PVRSRV_ERROR_HANDLE_BATCH_IN_USE, b)
      else if ui32BatchSize = 0 then Some (PVRSRV_ERROR_INVALID_PARAMS, b)
      else
        do {
          (eError, b1) \<leftarrow> EnsureFreeHandles ui32BatchSize b;
          if eError \<noteq> PVRSRV_OK then Some (eError, b1)
          else Some (PVRSRV_OK, b1\<lparr>ui32HandBatchSize := ui32BatchSize,
                       ui32TotalHandCountPreBatch := ui32TotalHandCount b1\<rparr>)
        })"

partial_function (option) batch_loop :: "bool \<Rightarrow> IMG_UINT32 \<Rightarrow> HANDLE_BASE \<Rightarrow> HANDLE_BASE option" where
  "batch_loop bCommitBatch ui32IndexPlusOne b =
     (if ui32IndexPlusOne = 0 then Some b
      else
        do {
          psHandle \<leftarrow> hnd (ui32IndexPlusOne - 1) b;
          let ui32Next = ui32NextIndexPlusOne psHandle;
          b1 \<leftarrow> upd (ui32IndexPlusOne - 1) (\<lambda>h. h\<lparr>ui32NextIndexPlusOne := 0\<rparr>) b;
          b2 \<leftarrow> (if \<not> bCommitBatch \<or> BATCHED_HANDLE_PARTIALLY_FREE psHandle then
                   do {
                     b' \<leftarrow> (if \<not> BATCHED_HANDLE_PARTIALLY_FREE psHandle
                            then upd (ui32IndexPlusOne - 1) (CLEAR_INTERNAL_FLAG INTERNAL_HANDLE_FLAG_BATCHED) b1
                            else Some b1);
                     r \<leftarrow> FreeHandle (ui32IndexPlusOne - 1) b';
                     Some (snd r)
                   }
                 else upd (ui32IndexPlusOne - 1) (CLEAR_INTERNAL_FLAG INTERNAL_HANDLE_FLAG_BATCHED) b1);
          batch_loop bCommitBatch ui32Next b2
        })"

definition PVRSRVHandleBatchCommitOrRelease :: "bool \<Rightarrow> HANDLE_BASE \<Rightarrow> (PVRSRV_ERROR \<times> HANDLE_BASE) option" where
  "PVRSRVHandleBatchCommitOrRelease bCommit b =
     (if \<not> HANDLES_BATCHED b then Some (PVRSRV_ERROR_INVALID_PARAMS, b)
      else
        do {
          let bCommitBatch = (if ui32BatchHandAllocFailures b \<noteq> 0 then False else bCommit);
          b1 \<leftarrow> batch_loop bCommitBatch (ui32FirstBatchIndexPlusOne b) b;
          let b2 = b1\<lparr>ui32HandBatchSize := 0, ui32FirstBatchIndexPlusOne := 0,
                      ui32TotalHandCountPreBatch := 0, ui32BatchHandAllocFailures := 0\<rparr>;
          if ui32BatchHandAllocFailures b2 \<noteq> 0 \<and> bCommit
          then Some (PVRSRV_ERROR_HANDLE_BATCH_COMMIT_FAILURE, b2)
          else Some (PVRSRV_OK, b2)
        })"

definition PVRSRVCommitHandleBatch :: "HANDLE_BASE \<Rightarrow> (PVRSRV_ERROR \<times> HANDLE_BASE) option" where
  "PVRSRVCommitHandleBatch b = PVRSRVHandleBatchCommitOrRelease True b"

definition PVRSRVReleaseHandleBatch :: "HANDLE_BASE \<Rightarrow> HANDLE_BASE option" where
  "PVRSRVReleaseHandleBatch b = map_option snd (PVRSRVHandleBatchCommitOrRelease False b)"

section \<open>Allocating\<close>

text \<open>The search of a base with purging: the inner loop leaves at the first free structure of its block,
  the outer loop goes on to the next block. The state is \<open>ui32NewIndex\<close> and the index that
  \<open>psNewHandle\<close> points to.\<close>

fun search_block :: "HANDLE_BASE \<Rightarrow> nat \<Rightarrow> IMG_UINT32 \<Rightarrow> IMG_UINT32 option \<Rightarrow> IMG_UINT32 \<times> IMG_UINT32 option" where
  "search_block b 0 ui32NewIndex psNewHandle = (ui32NewIndex, psNewHandle)"
| "search_block b (Suc n) ui32NewIndex psNewHandle =
     (if HANDLE_STRUCT_IS_FREE (hands b ui32NewIndex) then (ui32NewIndex, Some ui32NewIndex)
      else search_block b n (ui32NewIndex + 1) (Some ui32NewIndex))"

fun search_blocks ::
  "HANDLE_BASE \<Rightarrow> IMG_UINT32 list \<Rightarrow> IMG_UINT32 \<times> IMG_UINT32 option \<Rightarrow> IMG_UINT32 \<times> IMG_UINT32 option" where
  "search_blocks b [] r = r"
| "search_blocks b (k # ks) r =
     (if ui32FreeHandBlockCount b k = 0 then search_blocks b ks r
      else search_blocks b ks (search_block b (unat HANDLE_BLOCK_SIZE) (BLOCK_INDEX_TO_INDEX k) (snd r)))"

definition find_free :: "HANDLE_BASE \<Rightarrow> IMG_UINT32 \<times> IMG_UINT32 option" where
  "find_free b =
     (if \<not> bPurgingEnabled b then (ui32FirstFreeIndex b, Some (ui32FirstFreeIndex b))
      else search_blocks b
             (map of_nat [unat (INDEX_TO_BLOCK_INDEX (ui32FirstFreeIndex b)) ..< unat (HANDLE_ARRAY_SIZE (ui32TotalHandCount b))])
             (DEFAULT_MAX_INDEX_PLUS_ONE, None))"

definition take_free :: "IMG_UINT32 \<Rightarrow> sHandle \<Rightarrow> HANDLE_BASE \<Rightarrow> HANDLE_BASE" where
  "take_free ui32NewIndex h b =
     (let k = INDEX_TO_BLOCK_INDEX ui32NewIndex;
          b1 = b\<lparr>ui32FreeHandCount := ui32FreeHandCount b - 1,
                 ui32FreeHandBlockCount := (ui32FreeHandBlockCount b)(k := ui32FreeHandBlockCount b k - 1)\<rparr>
      in if bPurgingEnabled b1 then b1
         else if ui32FreeHandCount b1 = 0 then b1\<lparr>ui32LastFreeIndexPlusOne := 0, ui32FirstFreeIndex := 0\<rparr>
         else b1\<lparr>ui32FirstFreeIndex := (if ui32NextIndexPlusOne h = 0 then ui32NewIndex + 1 else ui32NextIndexPlusOne h - 1)\<rparr>)"

definition AllocHandle ::
  "IMG_UINTPTR_T \<Rightarrow> PVRSRV_HANDLE_TYPE \<Rightarrow> PVRSRV_HANDLE_ALLOC_FLAG \<Rightarrow> IMG_HANDLE \<Rightarrow> HANDLE_BASE
    \<Rightarrow> (PVRSRV_ERROR \<times> IMG_HANDLE \<times> HANDLE_BASE) option" where
  "AllocHandle pvData eType eFlag hParent b =
     do {
       (eError, b1) \<leftarrow> EnsureFreeHandles 1 b;
       if eError \<noteq> PVRSRV_OK then Some (eError, IMG_NULL, b1)
       else
         do {
           let (ui32NewIndex, p) = find_free b1;
           psNewHandle \<leftarrow> p;
           h \<leftarrow> hnd psNewHandle b1;
           let b2 = (if bPurgingEnabled b1 then b1\<lparr>ui32FirstFreeIndex := 0\<rparr> else b1);
           let hHandle = INDEX_TO_HANDLE ui32NewIndex;
           (ok, b3) \<leftarrow> (if TEST_FLAG eFlag PVRSRV_HANDLE_ALLOC_FLAG_MULTI then Some (True, b2)
                      else map_option (\<lambda>t. case HASH_Insert_Extended t (InitKey pvData eType hParent) hHandle (hb_os b2) of
                             (ok, t', s') \<Rightarrow> (ok, b2\<lparr>psHashTab := Some t', hb_os := s'\<rparr>)) (psHashTab b2));
           if \<not> ok then Some (PVRSRV_ERROR_UNABLE_TO_ADD_HANDLE, IMG_NULL, b3)
           else
             do {
               let b4 = take_free ui32NewIndex h b3;
               b5 \<leftarrow> upd psNewHandle
                 (\<lambda>h. InitChildEntry psNewHandle (InitParentList psNewHandle
                   (h\<lparr>h_eType := eType, h_pvData := pvData, eInternalFlag := INTERNAL_HANDLE_FLAG_NONE, h_eFlag := eFlag\<rparr>))) b4;
               b6 \<leftarrow> (if HANDLES_BATCHED b5 then
                        map_option (\<lambda>b. b\<lparr>ui32FirstBatchIndexPlusOne := ui32NewIndex + 1\<rparr>)
                          (upd psNewHandle (\<lambda>h. SET_INTERNAL_FLAG INTERNAL_HANDLE_FLAG_BATCHED
                             (h\<lparr>ui32NextIndexPlusOne := ui32FirstBatchIndexPlusOne b5\<rparr>)) b5)
                      else upd psNewHandle (\<lambda>h. h\<lparr>ui32NextIndexPlusOne := 0\<rparr>) b5);
               Some (PVRSRV_OK, hHandle, b6)
             }
         }
     }"

definition batch_failure :: "(IMG_UINT32 \<Rightarrow> IMG_UINT32) \<Rightarrow> HANDLE_BASE \<Rightarrow> HANDLE_BASE" where
  "batch_failure f b =
     (if HANDLES_BATCHED b then b\<lparr>ui32BatchHandAllocFailures := f (ui32BatchHandAllocFailures b)\<rparr> else b)"

definition PVRSRVAllocHandle ::
  "IMG_UINTPTR_T \<Rightarrow> PVRSRV_HANDLE_TYPE \<Rightarrow> PVRSRV_HANDLE_ALLOC_FLAG \<Rightarrow> HANDLE_BASE
    \<Rightarrow> (PVRSRV_ERROR \<times> IMG_HANDLE \<times> HANDLE_BASE) option" where
  "PVRSRVAllocHandle pvData eType eFlag b =
     do {
       let b1 = batch_failure (\<lambda>n. n + 1) b;
       hFound \<leftarrow> (if TEST_FLAG eFlag PVRSRV_HANDLE_ALLOC_FLAG_MULTI then Some IMG_NULL
                  else FindHandle pvData eType IMG_NULL b1);
       if hFound \<noteq> IMG_NULL then
         (case GetHandleStructure hFound eType b1 of
            Inl eError \<Rightarrow> Some (eError, IMG_NULL, b1)
          | Inr psHandle \<Rightarrow>
              if TEST_FLAG (h_eFlag (hands b1 psHandle) AND eFlag) PVRSRV_HANDLE_ALLOC_FLAG_SHARED
              then Some (PVRSRV_OK, hFound, batch_failure (\<lambda>n. n - 1) b1)
              else Some (PVRSRV_ERROR_HANDLE_NOT_SHAREABLE, IMG_NULL, b1))
       else
         do {
           (eError, hHandle, b2) \<leftarrow> AllocHandle pvData eType eFlag IMG_NULL b1;
           Some (eError, hHandle, if eError = PVRSRV_OK then batch_failure (\<lambda>n. n - 1) b2 else b2)
         }
     }"

definition PVRSRVAllocSubHandle ::
  "IMG_UINTPTR_T \<Rightarrow> PVRSRV_HANDLE_TYPE \<Rightarrow> PVRSRV_HANDLE_ALLOC_FLAG \<Rightarrow> IMG_HANDLE \<Rightarrow> HANDLE_BASE
    \<Rightarrow> (PVRSRV_ERROR \<times> IMG_HANDLE \<times> HANDLE_BASE) option" where
  "PVRSRVAllocSubHandle pvData eType eFlag hParent b =
     do {
       let b1 = batch_failure (\<lambda>n. n + 1) b;
       let hParentKey = (if TEST_FLAG eFlag PVRSRV_HANDLE_ALLOC_FLAG_PRIVATE then hParent else IMG_NULL);
       case GetHandleStructure hParent PVRSRV_HANDLE_TYPE_NONE b1 of
         Inl eError \<Rightarrow> Some (eError, IMG_NULL, b1)
       | Inr psPHand \<Rightarrow>
           do {
             hFound \<leftarrow> (if TEST_FLAG eFlag PVRSRV_HANDLE_ALLOC_FLAG_MULTI then Some IMG_NULL
                        else FindHandle pvData eType hParentKey b1);
             if hFound \<noteq> IMG_NULL then
               (case GetHandleStructure hFound eType b1 of
                  Inl eErr \<Rightarrow> Some (eErr, IMG_NULL, b1)
                | Inr psCHandle \<Rightarrow>
                    if TEST_FLAG (h_eFlag (hands b1 psCHandle) AND eFlag) PVRSRV_HANDLE_ALLOC_FLAG_SHARED \<and>
                       ParentHandle (hands b1 psCHandle) = hParent
                    then Some (PVRSRV_OK, hFound, batch_failure (\<lambda>n. n - 1) b1)
                    else Some (PVRSRV_ERROR_HANDLE_NOT_SHAREABLE, IMG_NULL, b1))
             else
               do {
                 (eError, hHandle, b2) \<leftarrow> AllocHandle pvData eType eFlag hParentKey b1;
                 if eError \<noteq> PVRSRV_OK then Some (eError, IMG_NULL, b2)
                 else
                   do {
                     b3 \<leftarrow> AdoptChild (HANDLE_TO_INDEX hParent) (HANDLE_TO_INDEX hHandle) b2;
                     Some (PVRSRV_OK, hHandle, batch_failure (\<lambda>n. n - 1) b3)
                   }
               }
           }
     }"

section \<open>The interface for lookups\<close>

definition PVRSRVFindHandle ::
  "IMG_UINTPTR_T \<Rightarrow> PVRSRV_HANDLE_TYPE \<Rightarrow> HANDLE_BASE \<Rightarrow> (PVRSRV_ERROR + IMG_HANDLE) option" where
  "PVRSRVFindHandle pvData eType b =
     map_option (\<lambda>hHandle. if hHandle = IMG_NULL then Inl PVRSRV_ERROR_HANDLE_NOT_FOUND else Inr hHandle)
       (FindHandle pvData eType IMG_NULL b)"

definition PVRSRVLookupHandleAnyType ::
  "IMG_HANDLE \<Rightarrow> HANDLE_BASE \<Rightarrow> PVRSRV_ERROR + (IMG_UINTPTR_T \<times> PVRSRV_HANDLE_TYPE)" where
  "PVRSRVLookupHandleAnyType hHandle b =
     (case GetHandleStructure hHandle PVRSRV_HANDLE_TYPE_NONE b of
        Inl eError \<Rightarrow> Inl eError
      | Inr psHandle \<Rightarrow> Inr (h_pvData (hands b psHandle), h_eType (hands b psHandle)))"

definition PVRSRVLookupHandle ::
  "IMG_HANDLE \<Rightarrow> PVRSRV_HANDLE_TYPE \<Rightarrow> HANDLE_BASE \<Rightarrow> PVRSRV_ERROR + IMG_UINTPTR_T" where
  "PVRSRVLookupHandle hHandle eType b =
     (case GetHandleStructure hHandle eType b of
        Inl eError \<Rightarrow> Inl eError
      | Inr psHandle \<Rightarrow> Inr (h_pvData (hands b psHandle)))"

partial_function (option) ancestor_loop :: "IMG_HANDLE \<Rightarrow> IMG_UINT32 \<Rightarrow> HANDLE_BASE \<Rightarrow> PVRSRV_ERROR option" where
  "ancestor_loop hAncestor psPHand b =
     (if ParentHandle (hands b psPHand) = hAncestor then Some PVRSRV_OK
      else (case GetHandleStructure (ParentHandle (hands b psPHand)) PVRSRV_HANDLE_TYPE_NONE b of
              Inl eError \<Rightarrow> Some PVRSRV_ERROR_INVALID_SUBHANDLE
            | Inr psPHand' \<Rightarrow> ancestor_loop hAncestor psPHand' b))"

definition PVRSRVLookupSubHandle ::
  "IMG_HANDLE \<Rightarrow> PVRSRV_HANDLE_TYPE \<Rightarrow> IMG_HANDLE \<Rightarrow> HANDLE_BASE \<Rightarrow> (PVRSRV_ERROR + IMG_UINTPTR_T) option" where
  "PVRSRVLookupSubHandle hHandle eType hAncestor b =
     (case GetHandleStructure hHandle eType b of
        Inl eError \<Rightarrow> Some (Inl eError)
      | Inr psCHand \<Rightarrow>
          map_option (\<lambda>e. if e \<noteq> PVRSRV_OK then Inl e else Inr (h_pvData (hands b psCHand)))
            (ancestor_loop hAncestor psCHand b))"

definition PVRSRVGetParentHandle ::
  "IMG_HANDLE \<Rightarrow> PVRSRV_HANDLE_TYPE \<Rightarrow> HANDLE_BASE \<Rightarrow> PVRSRV_ERROR + IMG_HANDLE" where
  "PVRSRVGetParentHandle hHandle eType b =
     (case GetHandleStructure hHandle eType b of
        Inl eError \<Rightarrow> Inl eError
      | Inr psHandle \<Rightarrow> Inr (ParentHandle (hands b psHandle)))"

definition PVRSRVLookupAndReleaseHandle ::
  "IMG_HANDLE \<Rightarrow> PVRSRV_HANDLE_TYPE \<Rightarrow> HANDLE_BASE \<Rightarrow> (PVRSRV_ERROR \<times> IMG_UINTPTR_T option \<times> HANDLE_BASE) option" where
  "PVRSRVLookupAndReleaseHandle hHandle eType b =
     (case GetHandleStructure hHandle eType b of
        Inl eError \<Rightarrow> Some (eError, None, b)
      | Inr psHandle \<Rightarrow>
          map_option (\<lambda>(eError, b'). (eError, Some (h_pvData (hands b psHandle)), b')) (FreeHandle psHandle b))"

definition PVRSRVReleaseHandle ::
  "IMG_HANDLE \<Rightarrow> PVRSRV_HANDLE_TYPE \<Rightarrow> HANDLE_BASE \<Rightarrow> (PVRSRV_ERROR \<times> HANDLE_BASE) option" where
  "PVRSRVReleaseHandle hHandle eType b =
     (case GetHandleStructure hHandle eType b of
        Inl eError \<Rightarrow> Some (eError, b)
      | Inr psHandle \<Rightarrow> FreeHandle psHandle b)"

section \<open>Limits and purging\<close>

definition PVRSRVSetMaxHandle :: "IMG_UINT32 \<Rightarrow> HANDLE_BASE \<Rightarrow> PVRSRV_ERROR \<times> HANDLE_BASE" where
  "PVRSRVSetMaxHandle ui32MaxHandle b =
     (if HANDLES_BATCHED b then (PVRSRV_ERROR_INVALID_PARAMS, b)
      else if ui32MaxHandle = 0 \<or> ui32MaxHandle > DEFAULT_MAX_HANDLE then (PVRSRV_ERROR_INVALID_PARAMS, b)
      else if ui32TotalHandCount b \<noteq> 0 then (PVRSRV_ERROR_INVALID_PARAMS, b)
      else
        (let ui32MaxHandleRounded = ROUND_DOWN_TO_MULTIPLE_OF_BLOCK_SIZE ui32MaxHandle
         in (PVRSRV_OK,
             if ui32MaxHandleRounded \<noteq> 0 \<and> ui32MaxHandleRounded < ui32MaxIndexPlusOne b
             then b\<lparr>ui32MaxIndexPlusOne := ui32MaxHandleRounded\<rparr> else b)))"

definition PVRSRVGetMaxHandle :: "HANDLE_BASE \<Rightarrow> IMG_UINT32" where
  "PVRSRVGetMaxHandle b = ui32MaxIndexPlusOne b"

definition PVRSRVEnableHandlePurging :: "HANDLE_BASE \<Rightarrow> PVRSRV_ERROR \<times> HANDLE_BASE" where
  "PVRSRVEnableHandlePurging b =
     (if bPurgingEnabled b then (PVRSRV_OK, b)
      else if ui32TotalHandCount b \<noteq> 0 then (PVRSRV_ERROR_INVALID_PARAMS, b)
      else (PVRSRV_OK, b\<lparr>bPurgingEnabled := True\<rparr>))"

text \<open>The number of blocks up to the last one that is not completely free.\<close>

fun purge_scan :: "(IMG_UINT32 \<Rightarrow> IMG_UINT32) \<Rightarrow> nat \<Rightarrow> nat" where
  "purge_scan cnt 0 = 0"
| "purge_scan cnt (Suc k) = (if cnt (of_nat k) \<noteq> HANDLE_BLOCK_SIZE then Suc k else purge_scan cnt k)"

definition PVRSRVPurgeHandles :: "HANDLE_BASE \<Rightarrow> (PVRSRV_ERROR \<times> HANDLE_BASE) option" where
  "PVRSRVPurgeHandles b =
     (if \<not> bPurgingEnabled b then Some (PVRSRV_ERROR_NOT_SUPPORTED, b)
      else if HANDLES_BATCHED b then Some (PVRSRV_ERROR_INVALID_PARAMS, b)
      else
        (let ui32BlockIndex = purge_scan (ui32FreeHandBlockCount b) (unat (INDEX_TO_BLOCK_INDEX (ui32TotalHandCount b)));
             ui32NewHandCount = BLOCK_INDEX_TO_INDEX (of_nat ui32BlockIndex)
         in if ui32NewHandCount \<le> ui32TotalHandCount b div 2 then ReallocHandleArray ui32NewHandCount b
            else Some (PVRSRV_OK, b)))"

section \<open>Creating and deleting a base\<close>

text \<open>Freeing a base leaves only the memory state; a base that cannot be freed stays.\<close>

definition FreeHandleBase :: "HANDLE_BASE \<Rightarrow> (PVRSRV_ERROR \<times> HANDLE_BASE option \<times> os) option" where
  "FreeHandleBase b =
     do {
       b1 \<leftarrow> (if HANDLES_BATCHED b then PVRSRVReleaseHandleBatch b else Some b);
       (eError, b2) \<leftarrow> FreeAllHandles b1;
       if eError \<noteq> PVRSRV_OK then Some (eError, Some b2, hb_os b2)
       else
         do {
           (eError, b3) \<leftarrow> FreeHandleArray b2;
           if eError \<noteq> PVRSRV_OK then Some (eError, Some b3, hb_os b3)
           else Some (PVRSRV_OK, None, OSFreeMem (psBase b3) (HASH_Delete (psHashTab b3) (hb_os b3)))
         }
     }"

definition PVRSRVFreeHandleBase :: "HANDLE_BASE \<Rightarrow> (PVRSRV_ERROR \<times> HANDLE_BASE option \<times> os) option" where
  "PVRSRVFreeHandleBase b = FreeHandleBase b"

text \<open>\<open>OSMemSet\<close> zeroes the base; the handle structures do not exist yet, so their contents are a
  parameter.\<close>

definition zero_base :: "(IMG_UINT32 \<Rightarrow> sHandle) \<Rightarrow> IMG_UINTPTR_T \<Rightarrow> os \<Rightarrow> HANDLE_BASE" where
  "zero_base junk p s = \<lparr>psBase = p, psHandleArray = IMG_NULL, psHandleBlocks = [], hands = junk,
     ui32FreeHandBlockCount = (\<lambda>_. 0), psHashTab = None, ui32FreeHandCount = 0, ui32FirstFreeIndex = 0,
     ui32MaxIndexPlusOne = 0, ui32TotalHandCount = 0, ui32LastFreeIndexPlusOne = 0, ui32HandBatchSize = 0,
     ui32TotalHandCountPreBatch = 0, ui32FirstBatchIndexPlusOne = 0, ui32BatchHandAllocFailures = 0,
     bPurgingEnabled = False, hb_os = s\<rparr>"

definition PVRSRVAllocHandleBase ::
  "(IMG_UINT32 \<Rightarrow> sHandle) \<Rightarrow> os \<Rightarrow> (PVRSRV_ERROR \<times> HANDLE_BASE option \<times> os) option" where
  "PVRSRVAllocHandleBase junk s =
     (let (eError, p, s1) = OSAllocMem sizeof_HANDLE_BASE s
      in if eError \<noteq> PVRSRV_OK then Some (eError, None, s1)
         else
           (case HASH_Create_Extended HANDLE_HASH_TAB_INIT_SIZE sizeof_HAND_KEY HASH_Func_Default HASH_Key_Comp_Default s1 of
              (None, s2) \<Rightarrow>
                map_option (\<lambda>(_, _, s3). (PVRSRV_ERROR_UNABLE_TO_CREATE_HASH_TABLE, None, s3))
                  (PVRSRVFreeHandleBase (zero_base junk p s2))
            | (Some t, s2) \<Rightarrow>
                Some (PVRSRV_OK, Some ((zero_base junk p s2)\<lparr>psHashTab := Some t,
                        ui32MaxIndexPlusOne := DEFAULT_MAX_INDEX_PLUS_ONE\<rparr>), s2)))"

definition PVRSRVHandleDeInit ::
  "HANDLE_BASE option \<Rightarrow> os \<Rightarrow> (PVRSRV_ERROR \<times> HANDLE_BASE option \<times> os) option" where
  "PVRSRVHandleDeInit gpsKernelHandleBase s =
     (case gpsKernelHandleBase of
        None \<Rightarrow> Some (PVRSRV_OK, None, s)
      | Some b \<Rightarrow> FreeHandleBase b)"

definition PVRSRVHandleInit ::
  "(IMG_UINT32 \<Rightarrow> sHandle) \<Rightarrow> os \<Rightarrow> (PVRSRV_ERROR \<times> HANDLE_BASE option \<times> os) option" where
  "PVRSRVHandleInit junk s =
     do {
       (eError, g, s1) \<leftarrow> PVRSRVAllocHandleBase junk s;
       if eError \<noteq> PVRSRV_OK then
         do { (_, g', s2) \<leftarrow> PVRSRVHandleDeInit g s1; Some (eError, g', s2) }
       else
         do {
           b \<leftarrow> g;
           let (eError, b') = PVRSRVEnableHandlePurging b;
           if eError \<noteq> PVRSRV_OK then
             do { (_, g', s2) \<leftarrow> PVRSRVHandleDeInit (Some b') s1; Some (eError, g', s2) }
           else Some (PVRSRV_OK, Some b', s1)
         }
     }"

section \<open>Indices and handles\<close>

lemma unat_INDEX_TO_HANDLE: "unat (INDEX_TO_HANDLE i) = unat i + 1"
proof -
  have "unat i < 2 ^ 32" using unsigned_less [of i] by simp
  then have "unat (ucast i :: IMG_HANDLE) = unat i" "unat i + 1 < 2 ^ 64"
    by (simp_all add: unsigned_ucast_eq take_bit_nat_eq_self_iff)
  then show ?thesis by (simp add: INDEX_TO_HANDLE_def unat_word_ariths)
qed

lemma INDEX_TO_HANDLE_nonnull [simp]: "INDEX_TO_HANDLE i \<noteq> IMG_NULL"
  using unat_INDEX_TO_HANDLE [of i] by auto

lemma HANDLE_TO_INDEX_inverse [simp]: "HANDLE_TO_INDEX (INDEX_TO_HANDLE i) = i"
proof -
  have "unat (ucast (INDEX_TO_HANDLE i) :: IMG_UINT32) = (unat i + 1) mod 2 ^ 32"
    by (simp add: unsigned_ucast_eq unat_INDEX_TO_HANDLE take_bit_eq_mod)
  also have "\<dots> = unat (i + 1)" by (simp add: unat_word_ariths)
  finally have "ucast (INDEX_TO_HANDLE i) = i + 1" by (simp only: word_unat_eq_iff)
  then show ?thesis by (simp add: HANDLE_TO_INDEX_def)
qed

lemma INDEX_TO_HANDLE_inject [simp]: "INDEX_TO_HANDLE i = INDEX_TO_HANDLE j \<longleftrightarrow> i = j"
  by (metis HANDLE_TO_INDEX_inverse)

section \<open>Rings\<close>

text \<open>Following \<open>N\<close> from \<open>x\<close> leads through \<open>ks\<close> to \<open>z\<close>.\<close>

fun path :: "('a \<Rightarrow> 'a) \<Rightarrow> 'a \<Rightarrow> 'a list \<Rightarrow> 'a \<Rightarrow> bool" where
  "path N x [] z \<longleftrightarrow> N x = z"
| "path N x (k # ks) z \<longleftrightarrow> N x = k \<and> path N k ks z"

lemma path_cong: "(\<And>s. s \<in> set (x # ks) \<Longrightarrow> N s = N' s) \<Longrightarrow> path N x ks z = path N' x ks z"
  by (induction ks arbitrary: x) auto

lemma path_outside: "s \<notin> set (x # ks) \<Longrightarrow> path (N(s := v)) x ks z = path N x ks z"
  by (rule path_cong) auto

lemma path_append: "path N x (us @ i # vs) z \<longleftrightarrow> path N x us i \<and> path N i vs z"
  by (induction us arbitrary: x) auto

lemma path_remove:
  "path N x (us @ i # vs) z \<Longrightarrow> distinct (x # us @ i # vs) \<Longrightarrow>
     path (N(last (x # us) := hd (vs @ [z]))) x (us @ vs) z"
proof (induction us arbitrary: x)
  case Nil
  show ?case
  proof (cases vs)
    case (Cons v ws)
    then have "path (N(x := v)) v ws z" using Nil by (subst path_outside) auto
    then show ?thesis using Cons by (simp del: fun_upd_apply add: fun_upd_same)
  qed (use Nil in simp)
next
  case (Cons u us)
  have "path (N(last (u # us) := hd (vs @ [z]))) u (us @ vs) z" by (rule Cons.IH) (use Cons.prems in auto)
  moreover have "x \<noteq> last (u # us)"
    using Cons.prems(2) by (metis UnI1 append_Cons distinct.simps(2) last_in_set list.discI set_append)
  ultimately show ?case using Cons.prems(1) by (simp del: fun_upd_apply add: fun_upd_other)
qed

lemma path_at: "path N x (us @ i # vs) z \<Longrightarrow> N (last (x # us)) = i \<and> N i = hd (vs @ [z])"
proof (induction us arbitrary: x)
  case Nil
  then show ?case by (cases vs) auto
next
  case (Cons u us)
  then show ?case by (cases us) auto
qed

lemma path_snoc:
  "path N x ks z \<Longrightarrow> distinct (x # ks) \<Longrightarrow> e \<notin> set (x # ks) \<Longrightarrow>
     path (N(last (x # ks) := e, e := z)) x (ks @ [e]) z"
proof (induction ks arbitrary: x)
  case Nil
  then show ?case by auto
next
  case (Cons k ks)
  have "path (N(last (k # ks) := e, e := z)) k (ks @ [e]) z" by (rule Cons.IH) (use Cons.prems in auto)
  moreover have "x \<noteq> last (k # ks)" "x \<noteq> e" "N x = k"
    using Cons.prems by (metis distinct.simps(2) last_in_set list.discI, auto)
  ultimately show ?case by (simp del: fun_upd_apply add: fun_upd_other)
qed

lemma path_last: "path N x ks z \<Longrightarrow> N (last (x # ks)) = z"
  by (induction ks arbitrary: x) auto

text \<open>The link of a handle in the ring of parent \<open>p\<close>, and the ring itself.\<close>

definition link :: "(IMG_UINT32 \<Rightarrow> sHandle) \<Rightarrow> IMG_UINT32 \<Rightarrow> IMG_UINT32 \<Rightarrow> sHandleList" where
  "link h p i = (if i = p then sChildren (h i) else sSiblings (h i))"

definition ring :: "(IMG_UINT32 \<Rightarrow> sHandle) \<Rightarrow> IMG_UINT32 \<Rightarrow> IMG_UINT32 list \<Rightarrow> bool" where
  "ring h p ks \<longleftrightarrow> path (\<lambda>i. ui32Next (link h p i)) p ks p \<and> path (\<lambda>i. ui32Prev (link h p i)) p (rev ks) p"

lemma ring_cong: "(\<And>i. i \<in> set (p # ks) \<Longrightarrow> link h p i = link h' p i) \<Longrightarrow> ring h p ks = ring h' p ks"
  unfolding ring_def using path_cong [of p ks "\<lambda>i. ui32Next (link h p i)" "\<lambda>i. ui32Next (link h' p i)" p]
    path_cong [of p "rev ks" "\<lambda>i. ui32Prev (link h p i)" "\<lambda>i. ui32Prev (link h' p i)" p] by simp

definition links_ok ::
  "(IMG_UINT32 \<Rightarrow> sHandle) \<Rightarrow> IMG_UINT32 set \<Rightarrow> (IMG_UINT32 \<Rightarrow> IMG_UINT32 list) \<Rightarrow> (IMG_UINT32 \<Rightarrow> nat) \<Rightarrow> bool" where
  "links_ok h A K d \<longleftrightarrow>
     (\<forall>i \<in> A. hl_hParent (sChildren (h i)) = INDEX_TO_HANDLE i \<and> ring h i (K i) \<and> distinct (K i) \<and>
        (\<forall>j \<in> set (K i). j \<in> A \<and> d j < d i \<and> ParentHandle (h j) = INDEX_TO_HANDLE i)) \<and>
     (\<forall>j \<in> A. sSiblings (h j) = HandleListInit j IMG_NULL \<or> (\<exists>i \<in> A. j \<in> set (K i)))"

lemma links_ok_cong:
  assumes "links_ok h A K d" "\<And>i. i \<in> A \<Longrightarrow> sChildren (h' i) = sChildren (h i) \<and> sSiblings (h' i) = sSiblings (h i)"
    and "\<And>i. i \<in> A \<Longrightarrow> K' i = K i"
  shows "links_ok h' A K' d"
proof -
  have "ring h' i (K i) = ring h i (K i)" if "i \<in> A" for i
    by (rule ring_cong) (use assms(1,2) that in \<open>auto simp: links_ok_def link_def\<close>)
  then show ?thesis using assms unfolding links_ok_def ParentHandle_def by simp
qed

lemma links_ok_kid:
  "links_ok h A K d \<Longrightarrow> i \<in> A \<Longrightarrow> j \<in> set (K i) \<Longrightarrow>
     j \<in> A \<and> d j < d i \<and> j \<noteq> i \<and> ParentHandle (h j) = INDEX_TO_HANDLE i"
  by (auto simp: links_ok_def)

lemma links_ok_parent:
  "links_ok h A K d \<Longrightarrow> i \<in> A \<Longrightarrow> q \<in> A \<Longrightarrow> j \<in> set (K i) \<Longrightarrow> j \<in> set (K q) \<longleftrightarrow> q = i"
  using links_ok_kid [of h A K d i j] links_ok_kid [of h A K d q j] by auto

lemma links_ok_root:
  "links_ok h A K d \<Longrightarrow> q \<in> A \<Longrightarrow> ParentHandle (h j) = IMG_NULL \<Longrightarrow> j \<notin> set (K q)"
  using links_ok_kid [of h A K d q j] by auto

text \<open>Setting the successor or the predecessor of a link.\<close>

definition set_link ::
  "IMG_UINT32 \<Rightarrow> IMG_UINT32 \<Rightarrow> (sHandleList \<Rightarrow> sHandleList) \<Rightarrow> (IMG_UINT32 \<Rightarrow> sHandle) \<Rightarrow> IMG_UINT32 \<Rightarrow> sHandle" where
  "set_link p a f h = h(a := (if a = p then sChildren_update f else sSiblings_update f) (h a))"

lemma list_upd_set_link:
  "a < ui32TotalHandCount b \<Longrightarrow> list_upd a p f b = Some (b\<lparr>hands := set_link p a f (hands b)\<rparr>)"
  by (simp add: list_upd_def upd_def set_link_def)

lemma link_set_link:
  "link (set_link p a f h) q j = (if j = a \<and> (j = q \<longleftrightarrow> a = p) then f (link h q j) else link h q j)"
  by (auto simp: link_def set_link_def)

definition core :: "sHandle \<Rightarrow> PVRSRV_HANDLE_TYPE \<times> IMG_UINTPTR_T \<times> IMG_UINT32 \<times> IMG_UINT32 \<times> PVRSRV_HANDLE_ALLOC_FLAG" where
  "core h = (h_eType h, h_pvData h, ui32NextIndexPlusOne h, eInternalFlag h, h_eFlag h)"

lemma core_set_link [simp]: "core (set_link p a f h j) = core (h j)"
  by (simp add: core_def set_link_def)

lemma core_links [simp]: "core (h\<lparr>sSiblings := l\<rparr>) = core h" "core (h\<lparr>sChildren := l\<rparr>) = core h"
  by (simp_all add: core_def)

lemma sChildren_link: "sChildren (h j) = link h j j"
  by (simp add: link_def)

lemma sSiblings_link: "q \<noteq> j \<Longrightarrow> sSiblings (h j) = link h q j"
  by (simp add: link_def)

lemma HandleListRemove_child:
  assumes ok: "links_ok (hands b) A K d" and A: "A \<subseteq> {..< ui32TotalHandCount b}"
    and p: "p \<in> A" and k: "K p = us @ i # vs"
  obtains h' where "HandleListRemove i b = Some (b\<lparr>hands := h'\<rparr>)" "\<forall>j. core (h' j) = core (hands b j)"
    "\<forall>j. j \<noteq> i \<longrightarrow> ParentHandle (h' j) = ParentHandle (hands b j)" "sSiblings (h' i) = HandleListInit i IMG_NULL"
    "links_ok h' A (K(p := us @ vs)) d"
proof -
  let ?h = "hands b"
  define a where "a = last (p # us)"
  define c where "c = hd (vs @ [p])"
  have ip: "i \<noteq> p" "i \<in> A" "ParentHandle (?h i) = INDEX_TO_HANDLE p" using links_ok_kid [OF ok p, of i] k by auto
  have "ring ?h p (K p) \<and> distinct (K p)" using ok p unfolding links_ok_def by blast
  then have r: "ring ?h p (us @ i # vs)" "distinct (us @ i # vs)" "\<forall>j \<in> set (K p). j \<noteq> p"
    using k links_ok_kid [OF ok p] by simp_all
  then have dp: "distinct (p # us @ i # vs)" "distinct (p # rev vs @ i # rev us)" using k by auto
  have P: "path (\<lambda>i. ui32Prev (link ?h p i)) p (rev vs @ i # rev us) p" using r(1) by (simp add: ring_def)
  have N: "path (\<lambda>i. ui32Next (link ?h p i)) p (us @ i # vs) p" using r(1) by (simp add: ring_def)
  have hl: "hd (rev us @ [p]) = a" "last (p # rev vs) = c" by (simp_all add: a_def c_def hd_append last_rev hd_rev)
  have e: "ui32Next (sSiblings (?h i)) = c" "ui32Prev (sSiblings (?h i)) = a"
    using path_at [OF N] path_at [OF P] hl ip(1) by (simp_all add: link_def a_def c_def)
  have ac: "a \<in> set (p # us)" "c \<in> set (p # vs)" unfolding a_def c_def by (metis last_in_set list.discI) (cases vs; simp)
  have ai: "a \<noteq> i" "c \<noteq> i" using ac dp(1) by auto
  have bd: "a < ui32TotalHandCount b" "c < ui32TotalHandCount b" "i < ui32TotalHandCount b"
  proof -
    have "set (p # us) \<subseteq> A" "set (p # vs) \<subseteq> A" using p k links_ok_kid [OF ok p] by auto
    then show "a < ui32TotalHandCount b" "c < ui32TotalHandCount b" "i < ui32TotalHandCount b"
      using ac A ip(2) by (meson lessThan_iff subsetD)+
  qed
  define h2 where "h2 = set_link p c (ui32Prev_update (\<lambda>_. a)) (set_link p a (ui32Next_update (\<lambda>_. c)) ?h)"
  define h' where "h' = h2(i := (h2 i)\<lparr>sSiblings := HandleListInit i IMG_NULL\<rparr>)"
  have R: "HandleListRemove i b = Some (b\<lparr>hands := h'\<rparr>)"
    using ip(3) ai(2) bd unfolding HandleListRemove_def
    by (simp add: hnd_def e HandleListIsEmpty_def ParentHandle_def [symmetric] list_upd_set_link upd_def h'_def h2_def)
  have lk: "link h' q j = (if j = i \<and> q \<noteq> i then HandleListInit i IMG_NULL else link h2 q j)" for q j
    by (auto simp: h'_def link_def)
  note lk2 = link_set_link [of p c "ui32Prev_update (\<lambda>_. a)" "set_link p a (ui32Next_update (\<lambda>_. c)) ?h", folded h2_def]
    link_set_link
  have ring_p: "ring h' p (us @ vs)"
  proof -
    have "path ((\<lambda>i. ui32Next (link ?h p i))(a := c)) p (us @ vs) p" unfolding a_def c_def by (rule path_remove [OF N dp(1)])
    also have "path ((\<lambda>i. ui32Next (link ?h p i))(a := c)) p (us @ vs) p = path (\<lambda>i. ui32Next (link h' p i)) p (us @ vs) p"
      by (rule path_cong) (use dp(1) ip(1) ac in \<open>auto simp: lk lk2\<close>)
    finally have 1: "path (\<lambda>i. ui32Next (link h' p i)) p (us @ vs) p" .
    have "path ((\<lambda>i. ui32Prev (link ?h p i))(c := a)) p (rev vs @ rev us) p"
      using path_remove [OF P dp(2)] by (simp only: hl)
    also have "path ((\<lambda>i. ui32Prev (link ?h p i))(c := a)) p (rev vs @ rev us) p = path (\<lambda>i. ui32Prev (link h' p i)) p (rev vs @ rev us) p"
      by (rule path_cong) (use dp(1) ip(1) ac in \<open>auto simp: lk lk2\<close>)
    finally show ?thesis using 1 by (simp add: ring_def)
  qed
  have same: "link h' q j = link ?h q j" if q: "q \<in> A" "q \<noteq> p" and j: "j \<in> set (q # K q)" for q j
  proof -
    have "j = q \<or> j \<notin> set (p # us @ i # vs) \<and> j \<noteq> q \<or> j = p \<and> j \<noteq> q"
      using links_ok_parent [OF ok p q(1), of j] links_ok_kid [OF ok q(1), of j] k q(2) j by auto
    then show ?thesis using q(2) ac ip(1) by (auto simp: lk lk2)
  qed
  show thesis
  proof (rule that [OF R])
    show "\<forall>j. core (h' j) = core (hands b j)" by (simp add: h'_def h2_def)
    show "sSiblings (h' i) = HandleListInit i IMG_NULL" by (simp add: h'_def)
    show P': "\<forall>j. j \<noteq> i \<longrightarrow> ParentHandle (h' j) = ParentHandle (hands b j)"
      by (auto simp: ParentHandle_def h'_def h2_def set_link_def)
    have ch: "hl_hParent (sChildren (h' j)) = hl_hParent (sChildren (?h j))" for j
      by (auto simp: h'_def h2_def set_link_def)
    have sib: "sSiblings (h' j) = sSiblings (?h j)" if "j \<in> A" "sSiblings (?h j) = HandleListInit j IMG_NULL" for j
    proof -
      have "ParentHandle (?h j) = IMG_NULL" using that(2) by (simp add: ParentHandle_def HandleListInit_def)
      then have "j \<notin> set (K p)" by (rule links_ok_root [OF ok p])
      then show ?thesis using k ac by (auto simp: h'_def h2_def set_link_def)
    qed
    show "links_ok h' A (K(p := us @ vs)) d"
      unfolding links_ok_def
    proof (intro conjI ballI)
      fix q assume q: "q \<in> A"
      show "hl_hParent (sChildren (h' q)) = INDEX_TO_HANDLE q" using ok q ch by (simp add: links_ok_def)
      show "ring h' q ((K(p := us @ vs)) q)"
        using ring_p ring_cong [of q "K q" h' ?h] same [OF q] ok q by (auto simp: links_ok_def)
      show "distinct ((K(p := us @ vs)) q)" using ok q dp(1) by (auto simp: links_ok_def)
      fix j assume j: "j \<in> set ((K(p := us @ vs)) q)"
      have "j \<in> set (K q)" "j \<noteq> i"
        using j k dp(1) links_ok_parent [OF ok p q, of i] by (auto split: if_splits)
      then show "j \<in> A" "d j < d q" "ParentHandle (h' j) = INDEX_TO_HANDLE q"
        using links_ok_kid [OF ok q] P' by auto
    next
      fix j assume j: "j \<in> A"
      show "sSiblings (h' j) = HandleListInit j IMG_NULL \<or> (\<exists>q \<in> A. j \<in> set ((K(p := us @ vs)) q))"
      proof (cases "j = i \<or> sSiblings (?h j) = HandleListInit j IMG_NULL")
        case True
        then show ?thesis using sib [OF j] by (auto simp: h'_def)
      next
        case False
        then obtain q where "q \<in> A" "j \<in> set (K q)" using ok j by (auto simp: links_ok_def)
        then show ?thesis using False k by (intro disjI2 bexI [of _ q]) auto
      qed
    qed
  qed
qed

lemma HandleListRemove_links:
  assumes ok: "links_ok (hands b) A K d" and A: "A \<subseteq> {..< ui32TotalHandCount b}" and i: "i \<in> A"
  obtains h' where "HandleListRemove i b = Some (b\<lparr>hands := h'\<rparr>)" "\<forall>j. core (h' j) = core (hands b j)"
    "\<forall>j. j \<noteq> i \<longrightarrow> ParentHandle (h' j) = ParentHandle (hands b j)" "sSiblings (h' i) = HandleListInit i IMG_NULL"
    "links_ok h' A (\<lambda>q. filter (\<lambda>k. k \<noteq> i) (K q)) d"
proof (cases "sSiblings (hands b i) = HandleListInit i IMG_NULL")
  case True
  then have r: "HandleListRemove i b = Some (b\<lparr>hands := hands b\<rparr>)"
    using A i by (auto simp: HandleListRemove_def hnd_def HandleListIsEmpty_def HandleListInit_def)
  have "ParentHandle (hands b i) = IMG_NULL" using True by (simp add: ParentHandle_def HandleListInit_def)
  then have "filter (\<lambda>k. k \<noteq> i) (K q) = K q" if "q \<in> A" for q
    using links_ok_root [OF ok that, of i] by (metis (mono_tags, lifting) filter_True)
  then have "links_ok (hands b) A (\<lambda>q. filter (\<lambda>k. k \<noteq> i) (K q)) d" by (intro links_ok_cong [OF ok]) auto
  then show thesis by (intro that [OF r]) (use True in auto)
next
  case False
  then obtain p where p: "p \<in> A" "i \<in> set (K p)" using ok i by (auto simp: links_ok_def)
  then obtain us vs where k: "K p = us @ i # vs" by (metis split_list)
  have di: "distinct (us @ i # vs)" using ok p k by (metis links_ok_def)
  obtain h' where h': "HandleListRemove i b = Some (b\<lparr>hands := h'\<rparr>)" "\<forall>j. core (h' j) = core (hands b j)"
    "\<forall>j. j \<noteq> i \<longrightarrow> ParentHandle (h' j) = ParentHandle (hands b j)" "sSiblings (h' i) = HandleListInit i IMG_NULL"
    "links_ok h' A (K(p := us @ vs)) d"
    by (rule HandleListRemove_child [OF ok A p(1) k])
  have "filter (\<lambda>k. k \<noteq> i) (K q) = (K(p := us @ vs)) q" if q: "q \<in> A" for q
  proof (cases "q = p")
    case True
    have "filter (\<lambda>k. k \<noteq> i) us = us" "filter (\<lambda>k. k \<noteq> i) vs = vs" using di by (auto intro!: filter_True)
    then show ?thesis using True k by simp
  next
    case False
    then have "i \<notin> set (K q)" using links_ok_parent [OF ok p(1) q p(2)] by simp
    then show ?thesis using False by (auto intro!: filter_True)
  qed
  then have "links_ok h' A (\<lambda>q. filter (\<lambda>k. k \<noteq> i) (K q)) d" by (intro links_ok_cong [OF h'(5)]) auto
  then show thesis using that h'(1-4) by blast
qed

section \<open>The free list\<close>

fun chain :: "(IMG_UINT32 \<Rightarrow> sHandle) \<Rightarrow> IMG_UINT32 list \<Rightarrow> bool" where
  "chain h [] \<longleftrightarrow> True"
| "chain h [i] \<longleftrightarrow> ui32NextIndexPlusOne (h i) = 0"
| "chain h (i # j # is) \<longleftrightarrow>
     (if ui32NextIndexPlusOne (h i) = 0 then i + 1 else ui32NextIndexPlusOne (h i) - 1) = j \<and> chain h (j # is)"

lemma chain_cong: "(\<And>i. i \<in> set is \<Longrightarrow> ui32NextIndexPlusOne (h i) = ui32NextIndexPlusOne (h' i)) \<Longrightarrow> chain h is = chain h' is"
  by (induction h "is" rule: chain.induct) auto

lemma chain_snoc:
  assumes "chain h fl" "fl \<noteq> []" "distinct fl" "i \<notin> set fl" "i + 1 \<noteq> 0" "chain h (i # is)"
    and "set fl \<inter> set (i # is) = {}"
  shows "chain (h(last fl := (h (last fl))\<lparr>ui32NextIndexPlusOne := i + 1\<rparr>)) (fl @ i # is)"
  using assms
proof (induction h fl rule: chain.induct)
  case (2 h j)
  then have "chain (h(j := (h j)\<lparr>ui32NextIndexPlusOne := i + 1\<rparr>)) (i # is) = chain h (i # is)"
    by (intro chain_cong) auto
  with 2 show ?case by (simp del: fun_upd_apply add: fun_upd_same)
next
  case (3 h j k ks)
  have "chain (h(last (k # ks) := (h (last (k # ks)))\<lparr>ui32NextIndexPlusOne := i + 1\<rparr>)) ((k # ks) @ i # is)"
    by (rule 3(1)) (use 3 in auto)
  moreover have "j \<noteq> last (k # ks)" using 3(4) by (metis distinct.simps(2) last_in_set list.discI)
  ultimately show ?case using 3(2) by (simp del: fun_upd_apply add: fun_upd_other split: if_splits)
qed simp

text \<open>A base without purging links its free structures; \<open>fl\<close> is the list in that order.\<close>

definition list_ok :: "HANDLE_BASE \<Rightarrow> IMG_UINT32 list \<Rightarrow> bool" where
  "list_ok b fl \<longleftrightarrow> chain (hands b) fl \<and>
     (if fl = [] then ui32FirstFreeIndex b = 0 \<and> ui32LastFreeIndexPlusOne b = 0
      else ui32FirstFreeIndex b = hd fl \<and> ui32LastFreeIndexPlusOne b = last fl + 1)"

text \<open>A base with purging searches for a free structure: they carry no internal flag, the count of every block
  is right, and the search does not start behind them; \<open>fl\<close> is any enumeration of them.\<close>

definition free_in :: "IMG_UINT32 list \<Rightarrow> IMG_UINT32 \<Rightarrow> IMG_UINT32 set" where
  "free_in fl k = {i \<in> set fl. INDEX_TO_BLOCK_INDEX i = k}"

definition search_ok :: "HANDLE_BASE \<Rightarrow> IMG_UINT32 list \<Rightarrow> bool" where
  "search_ok b fl \<longleftrightarrow> (\<forall>i \<in> set fl. eInternalFlag (hands b i) = 0) \<and>
     (\<forall>k < INDEX_TO_BLOCK_INDEX (ui32TotalHandCount b). ui32FreeHandBlockCount b k = of_nat (card (free_in fl k))) \<and>
     (ui32FirstFreeIndex b = 0 \<or> (\<exists>i \<in> set fl. ui32FirstFreeIndex b \<le> i))"

definition free_ok :: "HANDLE_BASE \<Rightarrow> IMG_UINT32 list \<Rightarrow> bool" where
  "free_ok b fl \<longleftrightarrow> (if bPurgingEnabled b then search_ok b fl else list_ok b fl) \<and> distinct fl \<and>
     (\<forall>i \<in> set fl. i < ui32TotalHandCount b \<and> h_eType (hands b i) = PVRSRV_HANDLE_TYPE_NONE) \<and>
     ui32FreeHandCount b = of_nat (length fl)"

lemma free_ok_cong:
  assumes "free_ok b fl" "ui32TotalHandCount b' = ui32TotalHandCount b" "ui32FreeHandCount b' = ui32FreeHandCount b"
    and "ui32FirstFreeIndex b' = ui32FirstFreeIndex b" "ui32LastFreeIndexPlusOne b' = ui32LastFreeIndexPlusOne b"
    and "bPurgingEnabled b' = bPurgingEnabled b" "ui32FreeHandBlockCount b' = ui32FreeHandBlockCount b"
    and h: "\<And>i. i \<in> set fl \<Longrightarrow> ui32NextIndexPlusOne (hands b' i) = ui32NextIndexPlusOne (hands b i) \<and>
      h_eType (hands b' i) = h_eType (hands b i) \<and> eInternalFlag (hands b' i) = eInternalFlag (hands b i)"
  shows "free_ok b' fl"
proof -
  have "chain (hands b') fl = chain (hands b) fl" by (rule chain_cong) (use h in blast)
  then show ?thesis using assms unfolding free_ok_def list_ok_def search_ok_def by simp
qed

lemma free_in_block: "i \<in> free_in fl (INDEX_TO_BLOCK_INDEX i) \<longleftrightarrow> i \<in> set fl"
  by (simp add: free_in_def)

text \<open>The sizes of a base: whole blocks, within the limit, which leaves room for one more index.\<close>

definition size_ok :: "HANDLE_BASE \<Rightarrow> bool" where
  "size_ok b \<longleftrightarrow> ui32TotalHandCount b mod HANDLE_BLOCK_SIZE = 0 \<and> ui32MaxIndexPlusOne b mod HANDLE_BLOCK_SIZE = 0 \<and>
     ui32TotalHandCount b \<le> ui32MaxIndexPlusOne b \<and> ui32MaxIndexPlusOne b \<le> DEFAULT_MAX_INDEX_PLUS_ONE"

lemma DEFAULT_MAX_value: "DEFAULT_MAX_INDEX_PLUS_ONE = 0x7fffff00"
  by (simp add: DEFAULT_MAX_INDEX_PLUS_ONE_def ROUND_DOWN_TO_MULTIPLE_OF_BLOCK_SIZE_def DEFAULT_MAX_HANDLE_def
      HANDLE_BLOCK_MASK_def HANDLE_SUB_BLOCK_MASK_def HANDLE_BLOCK_SIZE_def HANDLE_BLOCK_SHIFT_def)

lemma size_ok_bound: "size_ok b \<Longrightarrow> unat (ui32TotalHandCount b) \<le> 0x7fffff00"
proof -
  assume "size_ok b"
  then have "ui32TotalHandCount b \<le> 0x7fffff00" unfolding size_ok_def DEFAULT_MAX_value by (meson order.trans)
  then show ?thesis by (simp add: word_le_nat_alt)
qed

section \<open>The hash table and the memory of a base\<close>

definition key_of :: "sHandle \<Rightarrow> IMG_UINTPTR_T list" where
  "key_of h = InitKey (h_pvData h) (h_eType h) (ParentIfPrivate h)"

text \<open>The handles in the hash table: allocated, not \<open>MULTI\<close>, and not among the handles \<open>X\<close> that are being
  freed.\<close>

definition hashed :: "HANDLE_BASE \<Rightarrow> IMG_UINT32 set \<Rightarrow> IMG_UINT32 set" where
  "hashed b X = {i. i < ui32TotalHandCount b \<and> h_eType (hands b i) \<noteq> PVRSRV_HANDLE_TYPE_NONE \<and>
     \<not> TEST_FLAG (h_eFlag (hands b i)) PVRSRV_HANDLE_ALLOC_FLAG_MULTI \<and> i \<notin> X}"

definition htab_ok :: "HANDLE_BASE \<Rightarrow> IMG_UINT32 set \<Rightarrow> bool" where
  "htab_ok b X \<longleftrightarrow> (case psHashTab b of None \<Rightarrow> False | Some t \<Rightarrow>
     hash_ok t \<and> (\<forall>k. length k = 3 \<longrightarrow> key_ok t k) \<and>
     (\<forall>k v. hash_map t k = Some v \<longleftrightarrow> (\<exists>i \<in> hashed b X. k = key_of (hands b i) \<and> v = INDEX_TO_HANDLE i)))"

definition hmem_ok :: "IMG_UINTPTR_T multiset \<Rightarrow> HANDLE_BASE \<Rightarrow> bool" where
  "hmem_ok F b \<longleftrightarrow> os_ok (hb_os b) \<and>
     blocks (hb_os b) = (case psHashTab b of None \<Rightarrow> {#} | Some t \<Rightarrow> hash_blocks t) +
       ({#psBase b#} + (if psHandleArray b = IMG_NULL then {#} else {#psHandleArray b#}) + mset (psHandleBlocks b) + F) \<and>
     IMG_NULL \<notin> set (psHandleBlocks b) \<and> (ui32TotalHandCount b = 0 \<longrightarrow> psHandleArray b = IMG_NULL) \<and>
     length (psHandleBlocks b) = unat (INDEX_TO_BLOCK_INDEX (ui32TotalHandCount b))"

lemma hash_out_ok:
  assumes t: "htab_ok b X" and m: "hmem_ok F b" and i: "i < ui32TotalHandCount b" "i \<notin> X"
    and ty: "h_eType (hands b i) \<noteq> PVRSRV_HANDLE_TYPE_NONE" "\<not> BATCHED_HANDLE_PARTIALLY_FREE (hands b i)"
  obtains t' s' where "hash_out (hands b i) b = Some (b\<lparr>psHashTab := t', hb_os := s'\<rparr>)"
    "htab_ok (b\<lparr>psHashTab := t', hb_os := s'\<rparr>) (insert i X)" "hmem_ok F (b\<lparr>psHashTab := t', hb_os := s'\<rparr>)"
proof -
  obtain T where T: "psHashTab b = Some T" "hash_ok T" "\<And>k. length k = 3 \<Longrightarrow> key_ok T k"
    "\<And>k v. hash_map T k = Some v \<longleftrightarrow> (\<exists>i \<in> hashed b X. k = key_of (hands b i) \<and> v = INDEX_TO_HANDLE i)"
    using t by (auto simp: htab_ok_def split: option.splits)
  show thesis
  proof (cases "TEST_FLAG (h_eFlag (hands b i)) PVRSRV_HANDLE_ALLOC_FLAG_MULTI")
    case True
    then have e: "hashed b (insert i X) = hashed b X" by (auto simp: hashed_def)
    have "htab_ok b (insert i X)" using t unfolding htab_ok_def e .
    then show thesis using True m that [where t' = "psHashTab b" and s' = "hb_os b"] by (simp add: hash_out_def)
  next
    case False
    let ?k = "key_of (hands b i)"
    have ki: "hash_map T ?k = Some (INDEX_TO_HANDLE i)" using T(4) i ty False by (auto simp: hashed_def)
    obtain v t' s' where r: "HASH_Remove_Extended T ?k (hb_os b) = (v, t', s')" by (metis prod_cases3)
    have kk: "key_ok T ?k" by (rule T(3)) (simp add: key_of_def InitKey_def)
    note C = htm.remove_client [OF T(2) kk r]
    have R: "hash_out (hands b i) b = Some (b\<lparr>psHashTab := Some t', hb_os := s'\<rparr>)"
      using False ty(2) T(1) r by (simp add: hash_out_def key_of_def)
    have sub: "hashed (b\<lparr>psHashTab := Some t', hb_os := s'\<rparr>) (insert i X) = hashed b X - {i}"
      by (auto simp: hashed_def)
    have m': "blocks s' = hash_blocks t' + ({#psBase b#} + (if psHandleArray b = IMG_NULL then {#} else {#psHandleArray b#}) +
        mset (psHandleBlocks b) + F)" "os_ok s'" "hash_ok t'" "key_ok t' = key_ok T" "hash_map t' = (hash_map T)(?k := None)"
      using C m T(1) by (auto simp: hmem_ok_def)
    have uniq: "j = i" if "j \<in> hashed b X" "key_of (hands b j) = ?k" for j
    proof -
      have "hash_map T ?k = Some (INDEX_TO_HANDLE j)" using T(4) that by auto
      with ki show ?thesis by simp
    qed
    have "htab_ok (b\<lparr>psHashTab := Some t', hb_os := s'\<rparr>) (insert i X)"
      unfolding htab_ok_def sub using m' T(3,4) uniq by auto
    moreover have "hmem_ok F (b\<lparr>psHashTab := Some t', hb_os := s'\<rparr>)" using m m' by (simp add: hmem_ok_def)
    ultimately show thesis using that R by blast
  qed
qed

lemma htab_ok_cong:
  assumes "htab_ok b X" "psHashTab b' = psHashTab b" "hashed b' X' = hashed b X"
    and "\<And>i. i \<in> hashed b X \<Longrightarrow> key_of (hands b' i) = key_of (hands b i)"
  shows "htab_ok b' X'"
  using assms(1) unfolding htab_ok_def assms(2,3) using assms(4) by (auto split: option.splits)

section \<open>The invariant\<close>

definition used :: "HANDLE_BASE \<Rightarrow> IMG_UINT32 list \<Rightarrow> IMG_UINT32 set" where
  "used b fl = {..< ui32TotalHandCount b} - set fl"

fun bchain :: "(IMG_UINT32 \<Rightarrow> sHandle) \<Rightarrow> IMG_UINT32 \<Rightarrow> IMG_UINT32 list \<Rightarrow> bool" where
  "bchain h s [] \<longleftrightarrow> s = 0"
| "bchain h s (i # is) \<longleftrightarrow> s = i + 1 \<and> bchain h (ui32NextIndexPlusOne (h i)) is"

lemma bchain_cong: "(\<And>i. i \<in> set is \<Longrightarrow> ui32NextIndexPlusOne (h i) = ui32NextIndexPlusOne (h' i)) \<Longrightarrow> bchain h s is = bchain h' s is"
  by (induction h s "is" rule: bchain.induct) auto

text \<open>The batch from \<open>s\<close> on: its handles are marked as batched, and marked as partially free once they have
  been freed; every other handle in use is allocated and unmarked.\<close>

definition mark_ok :: "IMG_UINT32 list \<Rightarrow> IMG_UINT32 \<Rightarrow> sHandle \<Rightarrow> bool" where
  "mark_ok bl i h \<longleftrightarrow>
     (if i \<in> set bl then eInternalFlag h = (if h_eType h = PVRSRV_HANDLE_TYPE_NONE then 3 else 1)
      else h_eType h \<noteq> PVRSRV_HANDLE_TYPE_NONE \<and> eInternalFlag h = 0 \<and> ui32NextIndexPlusOne h = 0)"

definition batch_ok :: "IMG_UINT32 \<Rightarrow> IMG_UINT32 list \<Rightarrow> IMG_UINT32 list \<Rightarrow> HANDLE_BASE \<Rightarrow> bool" where
  "batch_ok s fl bl b \<longleftrightarrow> bchain (hands b) s bl \<and> distinct bl \<and> set bl \<subseteq> used b fl \<and>
     (\<forall>i \<in> used b fl. mark_ok bl i (hands b i))"

text \<open>Batches are for bases without purging: with it, a structure that was freed in a batch would keep its
  internal flag and never be found again.\<close>

definition unbatched :: "IMG_UINT32 list \<Rightarrow> HANDLE_BASE \<Rightarrow> bool" where
  "unbatched bl b \<longleftrightarrow> (bPurgingEnabled b \<longrightarrow> bl = [] \<and> \<not> HANDLES_BATCHED b)"

definition hb_inv ::
  "IMG_UINTPTR_T multiset \<Rightarrow> IMG_UINT32 \<Rightarrow> IMG_UINT32 set \<Rightarrow> IMG_UINT32 list \<Rightarrow> IMG_UINT32 list
    \<Rightarrow> (IMG_UINT32 \<Rightarrow> IMG_UINT32 list) \<Rightarrow> (IMG_UINT32 \<Rightarrow> nat) \<Rightarrow> HANDLE_BASE \<Rightarrow> bool" where
  "hb_inv F s X fl bl K d b \<longleftrightarrow>
     unbatched bl b \<and> size_ok b \<and> free_ok b fl \<and> links_ok (hands b) (used b fl) K d \<and>
     htab_ok b X \<and> hmem_ok F b \<and> batch_ok s fl bl b \<and>
     (\<forall>i \<in> used b fl. h_eType (hands b i) = PVRSRV_HANDLE_TYPE_NONE \<longrightarrow>
        K i = [] \<and> sSiblings (hands b i) = HandleListInit i IMG_NULL)"

lemma index_plus_one: "size_ok b \<Longrightarrow> i < ui32TotalHandCount b \<Longrightarrow> i + 1 \<noteq> 0"
proof
  assume a: "size_ok b" "i < ui32TotalHandCount b" "i + 1 = 0"
  have "unat i < 0x7fffff00"
    using a(2) size_ok_bound [OF a(1)] by (simp add: word_less_nat_alt)
  then have "unat (i + 1) = unat i + 1" by (simp add: unat_word_ariths)
  then show False using a(3) by simp
qed

lemma free_count_zero:
  assumes "free_ok b fl"
  shows "ui32FreeHandCount b = 0 \<longleftrightarrow> fl = []" and "length fl \<le> unat (ui32TotalHandCount b)"
proof -
  have "unat ` set fl \<subseteq> {..< unat (ui32TotalHandCount b)}"
    using assms by (auto simp: free_ok_def word_less_nat_alt)
  then have "card (unat ` set fl) \<le> unat (ui32TotalHandCount b)" by (metis card_lessThan card_mono finite_lessThan)
  moreover have "card (unat ` set fl) = card (set fl)" by (intro card_image) (simp add: inj_on_def word_unat_eq_iff)
  moreover have "card (set fl) = length fl" using assms by (simp add: free_ok_def distinct_card)
  ultimately show l: "length fl \<le> unat (ui32TotalHandCount b)" by simp
  moreover have "unat (ui32TotalHandCount b) < 2 ^ LENGTH(32)" by (rule unsigned_less)
  ultimately have "length fl < 2 ^ 32" by simp
  then have "unat (of_nat (length fl) :: IMG_UINT32) = length fl" by (simp add: unat_of_nat)
  then show "ui32FreeHandCount b = 0 \<longleftrightarrow> fl = []" using assms unfolding free_ok_def by (metis length_0_conv unat_eq_zero)
qed

definition data_of :: "sHandle \<Rightarrow> PVRSRV_HANDLE_TYPE \<times> IMG_UINTPTR_T \<times> PVRSRV_HANDLE_ALLOC_FLAG \<times> IMG_UINT32 \<times> IMG_HANDLE" where
  "data_of h = (h_eType h, h_pvData h, h_eFlag h, eInternalFlag h, ParentHandle h)"

lemma card_free_in_snoc:
  assumes "i \<notin> set fl"
  shows "card (free_in (fl @ [i]) k) = card (free_in fl k) + (if INDEX_TO_BLOCK_INDEX i = k then 1 else 0)"
proof (cases "INDEX_TO_BLOCK_INDEX i = k")
  case True
  then have "free_in (fl @ [i]) k = insert i (free_in fl k)" by (auto simp: free_in_def)
  then show ?thesis using True assms by (simp add: free_in_def)
next
  case False
  then have "free_in (fl @ [i]) k = free_in fl k" by (auto simp: free_in_def)
  then show ?thesis using False by simp
qed

lemma append_free_ok:
  assumes sz: "size_ok b" and f: "free_ok b fl"
    and i: "i < ui32TotalHandCount b" "i \<notin> set fl" "h_eType (hands b i) = PVRSRV_HANDLE_TYPE_NONE" "ui32NextIndexPlusOne (hands b i) = 0"
      "bPurgingEnabled b \<longrightarrow> eInternalFlag (hands b i) = 0"
  obtains h' x y c' b' where "append_free i b = Some b'"
    "b' = b\<lparr>hands := h', ui32FirstFreeIndex := x, ui32LastFreeIndexPlusOne := y,
       ui32FreeHandCount := of_nat (length fl + 1), ui32FreeHandBlockCount := c'\<rparr>"
    "free_ok b' (fl @ [i])" "bPurgingEnabled b \<Longrightarrow> x = ui32FirstFreeIndex b"
    "\<forall>j. j \<notin> set fl \<longrightarrow> h' j = hands b j"
    "\<forall>j. h_eType (h' j) = h_eType (hands b j)" "\<forall>j. data_of (h' j) = data_of (hands b j)"
proof -
  let ?c = "(ui32FreeHandBlockCount b)(INDEX_TO_BLOCK_INDEX i := ui32FreeHandBlockCount b (INDEX_TO_BLOCK_INDEX i) + 1)"
  consider (purging) "bPurgingEnabled b" | (first) "\<not> bPurgingEnabled b" "fl = []" | (more) "\<not> bPurgingEnabled b" "fl \<noteq> []" by blast
  then show thesis
  proof cases
    case purging
    let ?b = "b\<lparr>hands := hands b, ui32FirstFreeIndex := ui32FirstFreeIndex b, ui32LastFreeIndexPlusOne := ui32LastFreeIndexPlusOne b,
       ui32FreeHandCount := of_nat (length fl + 1), ui32FreeHandBlockCount := ?c\<rparr>"
    have r: "append_free i b = Some ?b" using purging f by (simp add: append_free_def free_ok_def Let_def)
    have "free_ok ?b (fl @ [i])"
      using purging f i by (auto simp: free_ok_def search_ok_def card_free_in_snoc)
    then show thesis by (rule that [OF r refl]) simp_all
  next
    case first
    let ?b = "b\<lparr>hands := hands b, ui32FirstFreeIndex := i, ui32LastFreeIndexPlusOne := i + 1,
       ui32FreeHandCount := of_nat (length fl + 1), ui32FreeHandBlockCount := ?c\<rparr>"
    have r: "append_free i b = Some ?b"
      using first f free_count_zero(1) [OF f] by (simp add: append_free_def free_ok_def Let_def)
    have fr: "free_ok ?b (fl @ [i])" using first i by (simp add: free_ok_def list_ok_def)
    show thesis by (rule that [OF r refl fr]) (use first in simp_all)
  next
    case more
    let ?l = "last fl" let ?h = "(hands b)(?l := (hands b ?l)\<lparr>ui32NextIndexPlusOne := i + 1\<rparr>)"
    let ?b = "b\<lparr>hands := ?h, ui32FirstFreeIndex := hd fl, ui32LastFreeIndexPlusOne := i + 1,
       ui32FreeHandCount := of_nat (length fl + 1), ui32FreeHandBlockCount := ?c\<rparr>"
    have l: "?l \<in> set fl" "?l < ui32TotalHandCount b" using more f by (auto simp: free_ok_def)
    have r: "append_free i b = Some ?b"
      using more f free_count_zero(1) [OF f] l(2) by (simp add: append_free_def free_ok_def list_ok_def upd_def Let_def)
    have "chain ?h (fl @ [i])"
      using chain_snoc [of "hands b" fl i "[]"] f more i index_plus_one [OF sz i(1)] by (simp add: free_ok_def list_ok_def)
    then have fr: "free_ok ?b (fl @ [i])" using f more i by (auto simp: free_ok_def list_ok_def)
    show thesis by (rule that [OF r refl fr]) (use more l(1) in \<open>auto simp: data_of_def ParentHandle_def\<close>)
  qed
qed

definition same_shape :: "HANDLE_BASE \<Rightarrow> HANDLE_BASE \<Rightarrow> bool" where
  "same_shape b b' \<longleftrightarrow> ui32TotalHandCount b' = ui32TotalHandCount b \<and> ui32MaxIndexPlusOne b' = ui32MaxIndexPlusOne b \<and>
     ui32HandBatchSize b' = ui32HandBatchSize b \<and> ui32FirstBatchIndexPlusOne b' = ui32FirstBatchIndexPlusOne b \<and>
     ui32BatchHandAllocFailures b' = ui32BatchHandAllocFailures b \<and> psBase b' = psBase b \<and>
     bPurgingEnabled b' = bPurgingEnabled b \<and> (bPurgingEnabled b \<longrightarrow> ui32FirstFreeIndex b' = ui32FirstFreeIndex b)"

lemma same_shape_refl [simp]: "same_shape b b" by (simp add: same_shape_def)
lemma same_shape_trans: "same_shape a b \<Longrightarrow> same_shape b c \<Longrightarrow> same_shape a c" by (simp add: same_shape_def)

lemma key_of_data: "data_of h = data_of h' \<Longrightarrow> key_of h = key_of h'"
  by (simp add: data_of_def key_of_def ParentIfPrivate_def)

lemma links_ok_drop:
  assumes ok: "links_ok h A K d" and i: "K i = []" "sSiblings (h i) = HandleListInit i IMG_NULL"
  shows "links_ok h (A - {i}) K d"
proof -
  have "ParentHandle (h i) = IMG_NULL" using i(2) by (simp add: ParentHandle_def HandleListInit_def)
  then have n: "i \<notin> set (K q)" if "q \<in> A" for q using links_ok_root [OF ok that] by blast
  show ?thesis
    unfolding links_ok_def
  proof (intro conjI ballI)
    fix q assume "q \<in> A - {i}"
    then have q: "q \<in> A" by simp
    then show "hl_hParent (sChildren (h q)) = INDEX_TO_HANDLE q" "ring h q (K q)" "distinct (K q)"
      using ok by (simp_all add: links_ok_def)
    fix j assume j: "j \<in> set (K q)"
    then show "j \<in> A - {i}" "d j < d q" "ParentHandle (h j) = INDEX_TO_HANDLE q"
      using links_ok_kid [OF ok q j] n [OF q] by auto
  next
    fix j assume "j \<in> A - {i}"
    then show "sSiblings (h j) = HandleListInit j IMG_NULL \<or> (\<exists>q \<in> A - {i}. j \<in> set (K q))"
      using ok i(1) unfolding links_ok_def by (metis Diff_iff empty_iff list.set(1) singletonD)
  qed
qed

lemma flag_bits [simp]:
  "TEST_FLAG 0 f = False" "TEST_FLAG 1 INTERNAL_HANDLE_FLAG_BATCHED" "TEST_FLAG 3 INTERNAL_HANDLE_FLAG_BATCHED"
  "\<not> TEST_FLAG 1 INTERNAL_HANDLE_FLAG_BATCHED_PARTIALLY_FREE" "TEST_FLAG 3 INTERNAL_HANDLE_FLAG_BATCHED_PARTIALLY_FREE"
  "(1 :: IMG_UINT32) OR INTERNAL_HANDLE_FLAG_BATCHED_PARTIALLY_FREE = 3"
  "(1 :: IMG_UINT32) AND NOT INTERNAL_HANDLE_FLAG_BATCHED = 0" "(0 :: IMG_UINT32) OR INTERNAL_HANDLE_FLAG_BATCHED = 1"
  by (simp_all add: TEST_FLAG_def INTERNAL_HANDLE_FLAG_BATCHED_def INTERNAL_HANDLE_FLAG_BATCHED_PARTIALLY_FREE_def)

lemma retire_ok:
  assumes inv: "hb_inv F s (insert i X) fl bl K d b" and i: "i \<in> used b fl" "i \<notin> X"
    and ty: "h_eType (hands b i) \<noteq> PVRSRV_HANDLE_TYPE_NONE" and k: "K i = []" "sSiblings (hands b i) = HandleListInit i IMG_NULL"
  obtains b' fl' where "retire_handle i b = Some b'" "hb_inv F s X fl' bl K d b'" "same_shape b b'"
    "h_eType (hands b' i) = PVRSRV_HANDLE_TYPE_NONE" "\<forall>j. j \<noteq> i \<longrightarrow> data_of (hands b' j) = data_of (hands b j)"
    "set fl' = (if i \<in> set bl then set fl else insert i (set fl))"
proof -
  have it: "i < ui32TotalHandCount b" "i \<notin> set fl" using i(1) by (auto simp: used_def)
  have P: "unbatched bl b" "size_ok b" "free_ok b fl" "links_ok (hands b) (used b fl) K d" "htab_ok b (insert i X)"
    "hmem_ok F b" "batch_ok s fl bl b"
    "\<And>j. j \<in> used b fl \<Longrightarrow> h_eType (hands b j) = PVRSRV_HANDLE_TYPE_NONE \<Longrightarrow> K j = [] \<and> sSiblings (hands b j) = HandleListInit j IMG_NULL"
    using inv by (auto simp: hb_inv_def)
  have B: "bchain (hands b) s bl" "distinct bl" "set bl \<subseteq> used b fl"
    "\<And>j. j \<in> used b fl \<Longrightarrow> mark_ok bl j (hands b j)"
    using P(7) by (auto simp: batch_ok_def)
  let ?h1 = "(hands b)(i := (hands b i)\<lparr>h_eType := PVRSRV_HANDLE_TYPE_NONE\<rparr>)"
  let ?b1 = "b\<lparr>hands := ?h1\<rparr>"
  have free1: "free_ok ?b1 fl" by (rule free_ok_cong [OF P(3)]) (use it in auto)
  show thesis
  proof (cases "i \<in> set bl")
    case True
    have f: "eInternalFlag (hands b i) = 1" using B(4) [OF i(1)] True ty by (simp add: mark_ok_def)
    let ?h2 = "(hands b)(i := (hands b i)\<lparr>h_eType := PVRSRV_HANDLE_TYPE_NONE, eInternalFlag := 3\<rparr>)"
    let ?b2 = "b\<lparr>hands := ?h2\<rparr>"
    have R: "retire_handle i b = Some ?b2"
      using f it(1) by (simp add: retire_handle_def upd_def hnd_def BATCHED_HANDLE_def BATCHED_HANDLE_PARTIALLY_FREE_def SET_INTERNAL_FLAG_def)
    have u: "used ?b2 fl = used b fl" by (simp add: used_def)
    have "free_ok ?b2 fl" by (rule free_ok_cong [OF P(3)]) (use it in auto)
    moreover have "links_ok ?h2 (used b fl) K d" by (rule links_ok_cong [OF P(4)]) auto
    moreover have "htab_ok ?b2 X"
      by (rule htab_ok_cong [OF P(5)]) (auto simp: hashed_def)
    moreover have "batch_ok s fl bl ?b2"
    proof -
      have "bchain ?h2 s bl = bchain (hands b) s bl" by (rule bchain_cong) simp
      moreover have "mark_ok bl j (?h2 j)" if "j \<in> used b fl" for j
        using B(4) [OF that] True by (cases "j = i") (simp_all add: mark_ok_def)
      ultimately show ?thesis unfolding batch_ok_def u using B(1-3) by (simp del: fun_upd_apply)
    qed
    ultimately have I: "hb_inv F s X fl bl K d ?b2"
      using P(1,2,6) P(8) k unfolding hb_inv_def u by (auto simp: size_ok_def hmem_ok_def unbatched_def HANDLES_BATCHED_def)
    show thesis by (rule that [OF R I]) (use True in \<open>auto simp: same_shape_def\<close>)
  next
    case False
    have f: "eInternalFlag (hands b i) = 0" "ui32NextIndexPlusOne (hands b i) = 0" using B(4) [OF i(1)] False by (simp_all add: mark_ok_def)
    have sz1: "size_ok ?b1" using P(2) by (simp add: size_ok_def)
    obtain h' x y c' b' where af: "append_free i ?b1 = Some b'"
      "b' = ?b1\<lparr>hands := h', ui32FirstFreeIndex := x, ui32LastFreeIndexPlusOne := y,
         ui32FreeHandCount := of_nat (length fl + 1), ui32FreeHandBlockCount := c'\<rparr>"
      "free_ok b' (fl @ [i])" "bPurgingEnabled ?b1 \<Longrightarrow> x = ui32FirstFreeIndex ?b1" "\<forall>j. j \<notin> set fl \<longrightarrow> h' j = hands ?b1 j" "\<forall>j. h_eType (h' j) = h_eType (hands ?b1 j)"
      "\<forall>j. data_of (h' j) = data_of (hands ?b1 j)"
      by (rule append_free_ok [of ?b1 fl i]) (use sz1 free1 it f in auto)
    have R: "retire_handle i b = Some b'"
      using f it(1) af(1) by (simp add: retire_handle_def upd_def hnd_def BATCHED_HANDLE_def)
    have u: "used b' (fl @ [i]) = used b fl - {i}" by (auto simp: used_def af(2))
    have same: "h' j = hands b j" if "j \<in> used b fl - {i}" for j using af(5) that by (auto simp: used_def)
    have dt: "data_of (h' j) = data_of (hands b j)" if "j \<noteq> i" for j using af(7) that by simp
    have "links_ok h' (used b fl - {i}) K d"
      by (rule links_ok_cong [OF links_ok_drop [OF P(4) k]]) (use same in auto)
    moreover have "htab_ok b' X"
    proof (rule htab_ok_cong [OF P(5)])
      show "hashed b' X = hashed b (insert i X)" using af(6,7) i(2) by (auto simp: hashed_def af(2) data_of_def)
      show "key_of (hands b' j) = key_of (hands b j)" if "j \<in> hashed b (insert i X)" for j
        using that dt [THEN key_of_data] by (auto simp: hashed_def af(2))
    qed (simp add: af(2))
    moreover have "batch_ok s (fl @ [i]) bl b'"
    proof -
      have "bchain h' s bl = bchain (hands b) s bl" by (rule bchain_cong) (metis same B(3) False DiffI singletonD subsetD)
      then show ?thesis unfolding batch_ok_def u using B False same by (auto simp: af(2))
    qed
    ultimately have I: "hb_inv F s X (fl @ [i]) bl K d b'"
      using P(1,2,6) P(8) af(3) same unfolding hb_inv_def u by (auto simp: size_ok_def hmem_ok_def af(2) unbatched_def HANDLES_BATCHED_def)
    show thesis by (rule that [OF R I]) (use False dt af(4,6) in \<open>auto simp: same_shape_def af(2)\<close>)
  qed
qed

section \<open>Descendants\<close>

inductive_set desc :: "(IMG_UINT32 \<Rightarrow> IMG_UINT32 list) \<Rightarrow> IMG_UINT32 \<Rightarrow> IMG_UINT32 set" for K i where
  desc_self: "i \<in> desc K i"
| desc_kid: "j \<in> desc K i \<Longrightarrow> k \<in> set (K j) \<Longrightarrow> k \<in> desc K i"

declare desc_self [simp]

lemma desc_used:
  assumes "links_ok h A K d" "i \<in> A" "j \<in> desc K i"
  shows "j \<in> A \<and> d j \<le> d i"
  using assms(3)
proof (induction rule: desc.induct)
  case (desc_kid j k)
  then show ?case using links_ok_kid [OF assms(1), of j k] by auto
qed (use assms(2) in simp)

lemma desc_trans: "k \<in> desc K j \<Longrightarrow> j \<in> desc K i \<Longrightarrow> k \<in> desc K i"
  by (induction rule: desc.induct) (auto intro: desc_kid)

lemma desc_unfold: "desc K i = insert i (\<Union>k \<in> set (K i). desc K k)"
proof
  show "desc K i \<subseteq> insert i (\<Union>k \<in> set (K i). desc K k)"
  proof
    fix j assume "j \<in> desc K i"
    then show "j \<in> insert i (\<Union>k \<in> set (K i). desc K k)"
    proof (induction rule: desc.induct)
      case (desc_kid j k)
      show ?case
      proof (cases "j = i")
        case True
        then have "k \<in> set (K i)" "k \<in> desc K k" using desc_kid(2) by simp_all
        then show ?thesis by blast
      next
        case False
        then obtain c where "c \<in> set (K i)" "j \<in> desc K c" using desc_kid.IH by blast
        then show ?thesis using desc.desc_kid [of j K c k] desc_kid(2) by blast
      qed
    qed simp
  qed
  show "insert i (\<Union>k \<in> set (K i). desc K k) \<subseteq> desc K i"
  proof -
    have "k \<in> desc K i" if "k \<in> set (K i)" for k using desc_kid [of i K i k] that by simp
    then show ?thesis using desc_trans [of _ K _ i] by auto
  qed
qed

lemma desc_filter:
  assumes "\<And>j k. j \<in> desc K c \<Longrightarrow> k \<in> set (K j) \<Longrightarrow> k \<notin> D"
  shows "desc (\<lambda>q. filter (\<lambda>k. k \<notin> D) (K q)) c = desc K c"
proof
  show "desc (\<lambda>q. filter (\<lambda>k. k \<notin> D) (K q)) c \<subseteq> desc K c"
  proof
    fix j assume "j \<in> desc (\<lambda>q. filter (\<lambda>k. k \<notin> D) (K q)) c"
    then show "j \<in> desc K c" by (induction rule: desc.induct) (auto intro: desc_kid)
  qed
  show "desc K c \<subseteq> desc (\<lambda>q. filter (\<lambda>k. k \<notin> D) (K q)) c"
  proof
    fix j assume "j \<in> desc K c"
    then show "j \<in> desc (\<lambda>q. filter (\<lambda>k. k \<notin> D) (K q)) c"
    proof (induction rule: desc.induct)
      case (desc_kid j k)
      have "k \<in> set (filter (\<lambda>k. k \<notin> D) (K j))" using assms [OF desc_kid(1,2)] desc_kid(2) by simp
      with desc_kid.IH show ?case by (rule desc.desc_kid)
    qed simp
  qed
qed

lemma desc_parent:
  assumes "links_ok h A K d" "c \<in> A" "p \<in> A" "k \<in> set (K p)" "k \<in> desc K c" "k \<noteq> c"
  shows "p \<in> desc K c"
  using assms(5)
proof cases
  case (desc_kid j)
  then show ?thesis using links_ok_parent [OF assms(1,3) _ assms(4), of j] desc_used [OF assms(1,2)] by auto
qed (use assms(6) in simp)

lemma desc_siblings:
  assumes ok: "links_ok h A K d" and i: "i \<in> A" "c \<in> set (K i)" "c' \<in> set (K i)" "c \<noteq> c'"
  shows "desc K c \<inter> desc K c' = {}"
proof -
  have cA: "c \<in> A" "c' \<in> A" "d c < d i" "d c' < d i" using links_ok_kid [OF ok i(1)] i(2,3) by auto
  have ni: "i \<notin> desc K c" "i \<notin> desc K c'" using desc_used [OF ok] cA by fastforce+
  have "j \<notin> desc K c'" if "j \<in> desc K c" for j
    using that
  proof (induction rule: desc.induct)
    case desc_self
    then show ?case using desc_parent [OF ok cA(2) i(1,2)] i(4) ni by auto
  next
    case (desc_kid j k)
    have jA: "j \<in> A" using desc_used [OF ok cA(1) desc_kid(1)] by simp
    show ?case
    proof
      assume k: "k \<in> desc K c'"
      show False
      proof (cases "k = c'")
        case True
        then have "j = i" using links_ok_parent [OF ok i(1) jA i(3)] desc_kid(2) by simp
        then show False using desc_kid(1) ni by simp
      next
        case False
        then show False using desc_parent [OF ok cA(2) jA desc_kid(2) k] desc_kid.IH by simp
      qed
    qed
  qed
  then show ?thesis by blast
qed

section \<open>Freeing a handle frees its descendants\<close>

definition freed_to ::
  "IMG_UINTPTR_T multiset \<Rightarrow> IMG_UINT32 \<Rightarrow> IMG_UINT32 set \<Rightarrow> IMG_UINT32 list \<Rightarrow> IMG_UINT32 list
    \<Rightarrow> (IMG_UINT32 \<Rightarrow> IMG_UINT32 list) \<Rightarrow> (IMG_UINT32 \<Rightarrow> nat) \<Rightarrow> IMG_UINT32 set \<Rightarrow> HANDLE_BASE \<Rightarrow> HANDLE_BASE \<Rightarrow> bool" where
  "freed_to F s X fl bl K d D b b' \<longleftrightarrow>
     (\<exists>fl'. hb_inv F s X fl' bl (\<lambda>q. filter (\<lambda>k. k \<notin> D) (K q)) d b' \<and> set fl' = set fl \<union> (D - set bl)) \<and>
     same_shape b b' \<and> (\<forall>j \<in> D. h_eType (hands b' j) = PVRSRV_HANDLE_TYPE_NONE) \<and>
     (\<forall>j. j \<notin> D \<longrightarrow> data_of (hands b' j) = data_of (hands b j))"

lemma links_ok_null: "links_ok h A K d \<Longrightarrow> j \<in> A \<Longrightarrow> ParentHandle (h j) = IMG_NULL \<Longrightarrow> sSiblings (h j) = HandleListInit j IMG_NULL"
  using links_ok_root [of h A K d] unfolding links_ok_def by metis

lemma hb_inv_kid_type:
  assumes "hb_inv F s X fl bl K d b" "i \<in> used b fl" "k \<in> set (K i)"
  shows "h_eType (hands b k) \<noteq> PVRSRV_HANDLE_TYPE_NONE"
proof
  assume n: "h_eType (hands b k) = PVRSRV_HANDLE_TYPE_NONE"
  have ok: "links_ok (hands b) (used b fl) K d" using assms(1) by (simp add: hb_inv_def)
  note kid = links_ok_kid [OF ok assms(2,3)]
  then have "sSiblings (hands b k) = HandleListInit k IMG_NULL" using assms(1) n by (simp add: hb_inv_def)
  then have "ParentHandle (hands b k) = IMG_NULL" by (simp add: ParentHandle_def HandleListInit_def)
  with kid show False by simp
qed

lemma used_shape: "same_shape b b' \<Longrightarrow> used b' fl' = used b fl - (set fl' - set fl) \<union> ({..< ui32TotalHandCount b} \<inter> (set fl - set fl'))"
  by (auto simp: used_def same_shape_def)

lemma iterate_ok:
  assumes IH: "\<And>c b X fl K. hb_inv F s X fl bl K d b \<Longrightarrow> c \<in> used b fl \<Longrightarrow> X \<inter> desc K c = {} \<Longrightarrow>
      h_eType (hands b c) \<noteq> PVRSRV_HANDLE_TYPE_NONE \<Longrightarrow> d c < d i \<Longrightarrow>
      \<exists>b'. free_run (Free_Handle c) b = Some (PVRSRV_OK, b') \<and> freed_to F s X fl bl K d (desc K c) b b'"
  shows "hb_inv F s X fl bl K d b \<Longrightarrow> i \<in> used b fl \<Longrightarrow> K i = ks \<Longrightarrow> X \<inter> (\<Union>k \<in> set ks. desc K k) = {} \<Longrightarrow>
    \<exists>b'. free_run (Iterate_Children i (hd (ks @ [i]))) b = Some (PVRSRV_OK, b') \<and>
      freed_to F s X fl bl K d (\<Union>k \<in> set ks. desc K k) b b'"
proof (induction ks arbitrary: b fl K)
  case Nil
  have "free_run (Iterate_Children i i) b = Some (PVRSRV_OK, b)" by (subst free_run.simps) simp
  then show ?case using Nil(1) by (auto simp: freed_to_def intro!: exI [of _ fl])
next
  case (Cons c cs)
  let ?D = "desc K c"
  have ok: "links_ok (hands b) (used b fl) K d" using Cons.prems(1) by (simp add: hb_inv_def)
  have ring: "ring (hands b) i (c # cs)" "distinct (c # cs)" using ok Cons.prems(2,3) unfolding links_ok_def by metis+
  have kid: "c \<in> used b fl" "d c < d i" "c \<noteq> i" using links_ok_kid [OF ok Cons.prems(2), of c] Cons.prems(3) by auto
  have nx: "ui32Next (sSiblings (hands b c)) = hd (cs @ [i])"
    using path_at [of "\<lambda>j. ui32Next (link (hands b) i j)" i "[]" c cs i] ring(1) kid(3) by (simp add: ring_def link_def)
  have "h_eType (hands b c) \<noteq> PVRSRV_HANDLE_TYPE_NONE"
    using hb_inv_kid_type [OF Cons.prems(1,2)] Cons.prems(3) by simp
  then obtain b1 where f1: "free_run (Free_Handle c) b = Some (PVRSRV_OK, b1)" "freed_to F s X fl bl K d ?D b b1"
    using IH [OF Cons.prems(1) kid(1) _ _ kid(2)] Cons.prems(4) by auto
  let ?K = "\<lambda>q. filter (\<lambda>k. k \<notin> ?D) (K q)"
  obtain fl1 where i1: "hb_inv F s X fl1 bl ?K d b1" "set fl1 = set fl \<union> (?D - set bl)" and sh: "same_shape b b1"
    using f1(2) by (auto simp: freed_to_def)
  have niD: "i \<notin> ?D" using desc_used [OF ok kid(1)] kid(2) by fastforce
  have iu: "i \<in> used b1 fl1" using Cons.prems(2) niD i1(2) sh by (auto simp: used_def same_shape_def)
  have dis: "?D \<inter> desc K k = {}" if "k \<in> set cs" for k
    using desc_siblings [OF ok Cons.prems(2), of c k] Cons.prems(3) ring(2) that by auto
  have "k \<notin> ?D" if "k \<in> set cs" for k using dis [OF that] desc_self [of k K] by blast
  then have "filter (\<lambda>k. k \<notin> ?D) cs = cs" by (auto intro!: filter_True)
  then have Ki: "?K i = cs" using Cons.prems(3) by simp
  have dk: "desc ?K k = desc K k" if "k \<in> set cs" for k
    by (rule desc_filter) (use dis [OF that] desc_kid [of _ K k] in blast)
  then have X1: "X \<inter> (\<Union>k \<in> set cs. desc ?K k) = {}" using Cons.prems(4) by auto
  obtain b2 where f2: "free_run (Iterate_Children i (hd (cs @ [i]))) b1 = Some (PVRSRV_OK, b2)"
    "freed_to F s X fl1 bl ?K d (\<Union>k \<in> set cs. desc ?K k) b1 b2"
    using Cons.IH [OF i1(1) iu Ki X1] by blast
  have D: "(\<Union>k \<in> set cs. desc ?K k) = (\<Union>k \<in> set cs. desc K k)" using dk by simp
  have "list_ptr c i b = Some (sSiblings (hands b c))"
    using kid by (simp add: list_ptr_def hnd_def used_def)
  then have r: "free_run (Iterate_Children i (hd ((c # cs) @ [i]))) b = Some (PVRSRV_OK, b2)"
    using f1(1) f2(1) nx kid(3) by (subst free_run.simps) simp
  have K2: "(\<lambda>q. filter (\<lambda>k. k \<notin> (\<Union>k \<in> set cs. desc K k)) (?K q)) = (\<lambda>q. filter (\<lambda>k. k \<notin> (\<Union>k \<in> set (c # cs). desc K k)) (K q))"
    by (auto intro!: filter_cong)
  obtain fl2 where i2: "hb_inv F s X fl2 bl (\<lambda>q. filter (\<lambda>k. k \<notin> (\<Union>k \<in> set (c # cs). desc K k)) (K q)) d b2"
    "set fl2 = set fl1 \<union> ((\<Union>k \<in> set cs. desc K k) - set bl)" and sh2: "same_shape b1 b2"
    using f2(2) unfolding freed_to_def D K2 by blast
  have "freed_to F s X fl bl K d (\<Union>k \<in> set (c # cs). desc K k) b b2"
    unfolding freed_to_def
  proof (intro conjI exI [of _ fl2] ballI allI impI)
    show "set fl2 = set fl \<union> ((\<Union>k \<in> set (c # cs). desc K k) - set bl)" using i1(2) i2(2) by auto
    show "same_shape b b2" by (rule same_shape_trans [OF sh sh2])
    have nD: "data_of (hands b2 j) = data_of (hands b1 j)" if "j \<notin> (\<Union>k \<in> set cs. desc K k)" for j
      using f2(2) that unfolding freed_to_def D by blast
    fix j
    show "h_eType (hands b2 j) = PVRSRV_HANDLE_TYPE_NONE" if j: "j \<in> (\<Union>k \<in> set (c # cs). desc K k)"
    proof (cases "j \<in> (\<Union>k \<in> set cs. desc K k)")
      case True
      then show ?thesis using f2(2) unfolding freed_to_def D by blast
    next
      case False
      then have "h_eType (hands b1 j) = PVRSRV_HANDLE_TYPE_NONE" using j f1(2) unfolding freed_to_def by auto
      then show ?thesis using nD [OF False] by (simp add: data_of_def)
    qed
    show "data_of (hands b2 j) = data_of (hands b j)" if j: "j \<notin> (\<Union>k \<in> set (c # cs). desc K k)"
      using j nD f1(2) unfolding freed_to_def by auto
  qed (rule i2(1))
  with r show ?case by blast
qed

lemma unlink_inv:
  assumes inv: "hb_inv F s X fl bl K d b" and i: "i \<in> used b fl" "i \<in> X" "h_eType (hands b i) \<noteq> PVRSRV_HANDLE_TYPE_NONE"
  obtains h' where "UnlinkFromParent i b = Some (b\<lparr>hands := h'\<rparr>)"
    "hb_inv F s X fl bl (\<lambda>q. filter (\<lambda>k. k \<noteq> i) (K q)) d (b\<lparr>hands := h'\<rparr>)"
    "\<forall>j. j \<noteq> i \<longrightarrow> data_of (h' j) = data_of (hands b j)" "h_eType (h' i) = h_eType (hands b i)"
    "ParentHandle (h' i) = IMG_NULL"
proof -
  have P: "unbatched bl b" "size_ok b" "free_ok b fl" "links_ok (hands b) (used b fl) K d" "htab_ok b X"
    "hmem_ok F b" "batch_ok s fl bl b"
    "\<And>j. j \<in> used b fl \<Longrightarrow> h_eType (hands b j) = PVRSRV_HANDLE_TYPE_NONE \<Longrightarrow> K j = [] \<and> sSiblings (hands b j) = HandleListInit j IMG_NULL"
    using inv by (auto simp: hb_inv_def)
  have A: "used b fl \<subseteq> {..< ui32TotalHandCount b}" by (auto simp: used_def)
  obtain h' where h': "HandleListRemove i b = Some (b\<lparr>hands := h'\<rparr>)" "\<forall>j. core (h' j) = core (hands b j)"
    "\<forall>j. j \<noteq> i \<longrightarrow> ParentHandle (h' j) = ParentHandle (hands b j)" "sSiblings (h' i) = HandleListInit i IMG_NULL"
    "links_ok h' (used b fl) (\<lambda>q. filter (\<lambda>k. k \<noteq> i) (K q)) d"
    by (rule HandleListRemove_links [OF P(4) A i(1)])
  have c: "h_eType (h' j) = h_eType (hands b j)" "eInternalFlag (h' j) = eInternalFlag (hands b j)"
    "ui32NextIndexPlusOne (h' j) = ui32NextIndexPlusOne (hands b j)" "h_eFlag (h' j) = h_eFlag (hands b j)" for j
    using h'(2) by (simp_all add: core_def)
  have dt: "data_of (h' j) = data_of (hands b j)" if "j \<noteq> i" for j using h'(2,3) that by (simp add: data_of_def core_def)
  let ?b = "b\<lparr>hands := h'\<rparr>"
  have u: "used ?b fl = used b fl" by (simp add: used_def)
  have "free_ok ?b fl" by (rule free_ok_cong [OF P(3)]) (use c in auto)
  moreover have "htab_ok ?b X"
  proof (rule htab_ok_cong [OF P(5)])
    show "hashed ?b X = hashed b X" using c by (auto simp: hashed_def)
    show "key_of (hands ?b j) = key_of (hands b j)" if "j \<in> hashed b X" for j
      using that dt [THEN key_of_data, of j] i(2) by (auto simp: hashed_def)
  qed simp
  moreover have "batch_ok s fl bl ?b"
    unfolding batch_ok_def u using P(7) c bchain_cong [of bl h' "hands b" s] by (auto simp: batch_ok_def mark_ok_def)
  moreover have "sSiblings (h' j) = HandleListInit j IMG_NULL" if "j \<in> used b fl" "h_eType (h' j) = PVRSRV_HANDLE_TYPE_NONE" for j
  proof (cases "j = i")
    case False
    have "ParentHandle (h' j) = IMG_NULL" using P(8) [OF that(1)] that(2) c dt [OF False] by (simp add: data_of_def ParentHandle_def HandleListInit_def)
    then show ?thesis by (rule links_ok_null [OF h'(5) that(1)])
  qed (use h'(4) in simp)
  ultimately have I: "hb_inv F s X fl bl (\<lambda>q. filter (\<lambda>k. k \<noteq> i) (K q)) d ?b"
    using P(1,2,6) P(8) h'(5) c unfolding hb_inv_def u by (auto simp: size_ok_def hmem_ok_def unbatched_def HANDLES_BATCHED_def)
  show thesis
    by (rule that [OF _ I]) (use h'(1,4) dt c in \<open>auto simp: UnlinkFromParent_def ParentHandle_def HandleListInit_def\<close>)
qed

lemma hash_out_inv:
  assumes inv: "hb_inv F s X fl bl K d b" and i: "i \<in> used b fl" "i \<notin> X" "h_eType (hands b i) \<noteq> PVRSRV_HANDLE_TYPE_NONE"
  obtains b1 where "hash_out (hands b i) b = Some b1" "hb_inv F s (insert i X) fl bl K d b1"
    "hands b1 = hands b" "same_shape b b1"
proof -
  have P: "unbatched bl b" "size_ok b" "free_ok b fl" "links_ok (hands b) (used b fl) K d" "htab_ok b X"
    "hmem_ok F b" "batch_ok s fl bl b"
    "\<And>j. j \<in> used b fl \<Longrightarrow> h_eType (hands b j) = PVRSRV_HANDLE_TYPE_NONE \<Longrightarrow> K j = [] \<and> sSiblings (hands b j) = HandleListInit j IMG_NULL"
    using inv by (auto simp: hb_inv_def)
  have it: "i < ui32TotalHandCount b" using i(1) by (simp add: used_def)
  have "mark_ok bl i (hands b i)" using P(7) i(1) by (simp add: batch_ok_def)
  then have "\<not> BATCHED_HANDLE_PARTIALLY_FREE (hands b i)"
    using i(3) by (auto simp: mark_ok_def BATCHED_HANDLE_PARTIALLY_FREE_def split: if_splits)
  then obtain t' s' where r: "hash_out (hands b i) b = Some (b\<lparr>psHashTab := t', hb_os := s'\<rparr>)"
    "htab_ok (b\<lparr>psHashTab := t', hb_os := s'\<rparr>) (insert i X)" "hmem_ok F (b\<lparr>psHashTab := t', hb_os := s'\<rparr>)"
    by (rule hash_out_ok [OF P(5,6) it i(2,3)])
  have "hb_inv F s (insert i X) fl bl K d (b\<lparr>psHashTab := t', hb_os := s'\<rparr>)"
    using P(1,2,4,7,8) r(2,3) free_ok_cong [OF P(3), of "b\<lparr>psHashTab := t', hb_os := s'\<rparr>"]
    unfolding hb_inv_def by (auto simp: size_ok_def used_def batch_ok_def unbatched_def HANDLES_BATCHED_def)
  then show thesis by (intro that [OF r(1)]) (auto simp: same_shape_def)
qed

lemma FreeHandle_inv:
  assumes "hb_inv F s X fl bl K d b" "i \<in> used b fl" "X \<inter> desc K i = {}" "h_eType (hands b i) \<noteq> PVRSRV_HANDLE_TYPE_NONE"
  shows "\<exists>b'. free_run (Free_Handle i) b = Some (PVRSRV_OK, b') \<and> freed_to F s X fl bl K d (desc K i) b b'"
  using assms
proof (induction "d i" arbitrary: i b X fl K rule: less_induct)
  case less
  let ?K = "\<lambda>q. filter (\<lambda>k. k \<noteq> i) (K q)" and ?D = "\<Union>k \<in> set (K i). desc K k"
  have ok: "links_ok (hands b) (used b fl) K d" using less.prems(1) by (simp add: hb_inv_def)
  have iX: "i \<notin> X" using less.prems(3) by auto
  obtain b1 where b1: "hash_out (hands b i) b = Some b1" "hb_inv F s (insert i X) fl bl K d b1" "hands b1 = hands b" "same_shape b b1"
    by (rule hash_out_inv [OF less.prems(1,2) iX less.prems(4)])
  have u1: "used b1 fl = used b fl" using b1(4) by (simp add: used_def same_shape_def)
  obtain h' where b2: "UnlinkFromParent i b1 = Some (b1\<lparr>hands := h'\<rparr>)"
    "hb_inv F s (insert i X) fl bl ?K d (b1\<lparr>hands := h'\<rparr>)"
    "\<forall>j. j \<noteq> i \<longrightarrow> data_of (h' j) = data_of (hands b1 j)" "h_eType (h' i) = h_eType (hands b1 i)" "ParentHandle (h' i) = IMG_NULL"
    by (rule unlink_inv [OF b1(2)]) (use less.prems(2,4) u1 b1(3) in auto)
  let ?b2 = "b1\<lparr>hands := h'\<rparr>"
  have sh2: "same_shape b ?b2" using b1(4) by (simp add: same_shape_def)
  have iu: "i \<in> used ?b2 fl" using less.prems(2) u1 by (simp add: used_def)
  have low: "j \<noteq> i \<and> d j < d i" if j: "j \<in> ?D" for j
  proof -
    obtain k where k: "k \<in> set (K i)" "j \<in> desc K k" using j by blast
    then show ?thesis using links_ok_kid [OF ok less.prems(2) k(1)] desc_used [OF ok _ k(2)] by auto
  qed
  have kd: "desc ?K k = desc K k" if "k \<in> set (K i)" for k
  proof -
    have "desc (\<lambda>q. filter (\<lambda>k. k \<notin> {i}) (K q)) k = desc K k"
      by (rule desc_filter) (use low that desc_kid [of _ K k] in blast)
    then show ?thesis by simp
  qed
  have "i \<notin> set (K i)" using links_ok_kid [OF ok less.prems(2)] by blast
  then have Ki: "?K i = K i" by (auto intro!: filter_True)
  have ok2: "links_ok h' (used ?b2 fl) ?K d" using b2(2) by (simp add: hb_inv_def)
  then have pc: "hl_hParent (sChildren (h' i)) = INDEX_TO_HANDLE i" "ring h' i (K i)" using iu Ki unfolding links_ok_def by force+
  have nx: "ui32Next (sChildren (h' i)) = hd (K i @ [i])"
    using pc(2) by (cases "K i") (auto simp: ring_def link_def)
  have D2: "(\<Union>k \<in> set (K i). desc ?K k) = ?D" using kd by simp
  have XD: "insert i X \<inter> (\<Union>k \<in> set (K i). desc ?K k) = {}"
    unfolding D2 using low less.prems(3) desc_unfold [of K i] by auto
  have IH: "\<exists>b'. free_run (Free_Handle c) b = Some (PVRSRV_OK, b') \<and> freed_to F s X fl bl K d (desc K c) b b'"
    if "hb_inv F s X fl bl K d b" "c \<in> used b fl" "X \<inter> desc K c = {}" "h_eType (hands b c) \<noteq> PVRSRV_HANDLE_TYPE_NONE" "d c < d i"
    for c b X fl K using less.hyps [OF that(5,1,2,3,4)] .
  obtain b3 where f3: "free_run (Iterate_Children i (hd (K i @ [i]))) ?b2 = Some (PVRSRV_OK, b3)"
    "freed_to F s (insert i X) fl bl ?K d ?D ?b2 b3"
    using iterate_ok [OF IH b2(2) iu Ki XD] unfolding D2 by blast
  let ?K3 = "\<lambda>q. filter (\<lambda>k. k \<notin> ?D) (?K q)"
  obtain fl3 where i3: "hb_inv F s (insert i X) fl3 bl ?K3 d b3" "set fl3 = set fl \<union> (?D - set bl)" and sh3: "same_shape ?b2 b3"
    using f3(2) by (auto simp: freed_to_def)
  have iD: "i \<notin> ?D" using low by blast
  have d3: "data_of (hands b3 i) = data_of (h' i)" using f3(2) iD by (simp add: freed_to_def)
  have iu3: "i \<in> used b3 fl3" using iu i3(2) iD sh3 by (auto simp: used_def same_shape_def)
  have ok3: "links_ok (hands b3) (used b3 fl3) ?K3 d" using i3(1) by (simp add: hb_inv_def)
  have "ParentHandle (hands b3 i) = IMG_NULL" using d3 b2(5) by (simp add: data_of_def)
  then have s3: "sSiblings (hands b3 i) = HandleListInit i IMG_NULL" by (rule links_ok_null [OF ok3 iu3])
  have t3: "h_eType (hands b3 i) \<noteq> PVRSRV_HANDLE_TYPE_NONE" using d3 b2(4) b1(3) less.prems(4) by (simp add: data_of_def)
  have K3: "?K3 i = []"
  proof -
    have "k \<in> ?D" if "k \<in> set (K i)" for k using that desc_self by blast
    then show ?thesis by (simp add: filter_empty_conv)
  qed
  obtain b4 fl4 where b4: "retire_handle i b3 = Some b4" "hb_inv F s X fl4 bl ?K3 d b4" "same_shape b3 b4"
    "h_eType (hands b4 i) = PVRSRV_HANDLE_TYPE_NONE" "\<forall>j. j \<noteq> i \<longrightarrow> data_of (hands b4 j) = data_of (hands b3 j)"
    "set fl4 = (if i \<in> set bl then set fl3 else insert i (set fl3))"
    by (rule retire_ok [OF i3(1) iu3 iX t3 K3 s3])
  have r: "free_run (Free_Handle i) b = Some (PVRSRV_OK, b4)"
    using less.prems(2) b1(1) b2(1) f3(1) b4(1) sh2 pc(1) nx
    by (subst free_run.simps) (simp add: hnd_def used_def same_shape_def)
  have DD: "desc K i = insert i ?D" by (rule desc_unfold)
  have KK: "?K3 = (\<lambda>q. filter (\<lambda>k. k \<notin> desc K i) (K q))" unfolding DD by (auto intro!: filter_cong)
  have "freed_to F s X fl bl K d (desc K i) b b4"
    unfolding freed_to_def
  proof (intro conjI exI [of _ fl4] ballI allI impI)
    show "hb_inv F s X fl4 bl (\<lambda>q. filter (\<lambda>k. k \<notin> desc K i) (K q)) d b4" using b4(2) unfolding KK .
    show "set fl4 = set fl \<union> (desc K i - set bl)" unfolding DD using b4(6) i3(2) by auto
    show "same_shape b b4" using sh2 sh3 b4(3) same_shape_trans by blast
    fix j
    show "h_eType (hands b4 j) = PVRSRV_HANDLE_TYPE_NONE" if "j \<in> desc K i"
    proof (cases "j = i")
      case False
      then have "h_eType (hands b3 j) = PVRSRV_HANDLE_TYPE_NONE" using that f3(2) unfolding DD freed_to_def by blast
      then show ?thesis using b4(5) False by (simp add: data_of_def)
    qed (use b4(4) in simp)
    show "data_of (hands b4 j) = data_of (hands b j)" if "j \<notin> desc K i"
      using that b4(5) f3(2) b2(3) b1(3) unfolding DD freed_to_def by simp
  qed
  with r show ?case by blast
qed

end
