(* ===== verification/Handle_Alloc.thy ===== *)
theory Handle_Alloc
  imports Handle_Base "HOL-Library.Sublist"
begin

text \<open>
  Growing, allocating, batching and deleting handle bases (\<open>handle.c\<close>): the lemmas on the definitions of
  \<open>Handle_Base\<close> beyond freeing, that is, the invariant of a base through every operation that changes it.
\<close>

section \<open>Growing the array\<close>

lemma alloc_blocks_frame:
  assumes "alloc_blocks n s = (e, ps, s')" "os_ok s"
  shows "os_ok s' \<and> length ps = n \<and> (e = PVRSRV_OK \<longleftrightarrow> IMG_NULL \<notin> set ps) \<and>
    blocks s' = blocks s + mset (filter (\<lambda>p. p \<noteq> IMG_NULL) ps)"
  using assms
proof (induction n arbitrary: e ps s s')
  case (Suc n)
  obtain e1 p s1 where a: "OSAllocMem (sizeof_sHandle * HANDLE_BLOCK_SIZE) s = (e1, p, s1)" by (metis prod_cases3)
  obtain e2 qs s2 where r: "alloc_blocks n s1 = (e2, qs, s2)" by (metis prod_cases3)
  have ok1: "os_ok s1" by (rule OSAllocMem_os_ok [OF a Suc.prems(2)])
  note IH = Suc.IH [OF r ok1] and b1 = OSAllocMem_ok_iff [OF a] OSAllocMem_blocks [OF a]
  show ?case using Suc.prems(1) a r IH b1 by auto
qed simp

lemma free_blocks_frame:
  "os_ok s \<Longrightarrow> os_ok (free_blocks ps s) \<and> blocks (free_blocks ps s) = blocks s - mset (filter (\<lambda>p. p \<noteq> IMG_NULL) ps)"
  unfolding free_blocks_def by (induction ps arbitrary: s) (simp_all add: OSFreeMem_os_ok os_simps)

lemma mod_block: "(a :: IMG_UINT32) mod HANDLE_BLOCK_SIZE = take_bit 8 a"
  by (simp add: HANDLE_BLOCK_SIZE_def HANDLE_BLOCK_SHIFT_def take_bit_eq_mod)

lemma round_down_mod: "ROUND_DOWN_TO_MULTIPLE_OF_BLOCK_SIZE a mod HANDLE_BLOCK_SIZE = 0"
proof -
  have "HANDLE_BLOCK_MASK = NOT (mask 8)"
    by (simp add: HANDLE_BLOCK_MASK_def HANDLE_SUB_BLOCK_MASK_def HANDLE_BLOCK_SIZE_def HANDLE_BLOCK_SHIFT_def mask_eq_exp_minus_1)
  then show ?thesis
    by (simp add: mod_block ROUND_DOWN_TO_MULTIPLE_OF_BLOCK_SIZE_def bit_eq_iff bit_simps)
qed

lemma block_add_mod:
  "(a :: IMG_UINT32) mod HANDLE_BLOCK_SIZE = 0 \<Longrightarrow> b mod HANDLE_BLOCK_SIZE = 0 \<Longrightarrow> (a + b) mod HANDLE_BLOCK_SIZE = 0"
proof -
  assume a: "a mod HANDLE_BLOCK_SIZE = 0" "b mod HANDLE_BLOCK_SIZE = 0"
  have e: "unat (x mod HANDLE_BLOCK_SIZE) = unat x mod 256" for x :: IMG_UINT32
    by (simp add: HANDLE_BLOCK_SIZE_def HANDLE_BLOCK_SHIFT_def unat_mod_distrib)
  have "unat (a + b) mod 256 = (unat a + unat b) mod 2 ^ 32 mod 256" by (simp add: unat_word_ariths)
  also have "\<dots> = (unat a + unat b) mod 256" by (rule mod_mod_cancel) simp
  also have "\<dots> = (unat a mod 256 + unat b mod 256) mod 256" by (simp add: mod_add_eq)
  also have "\<dots> = 0" using a e [of a] e [of b] by simp
  finally show ?thesis using e [of "a + b"] by (simp only: word_unat_eq_iff) simp
qed

lemma set_word_upt: "set (map of_nat [unat a ..< unat c]) = {i :: IMG_UINT32. a \<le> i \<and> i < c}"
proof
  show "set (map of_nat [unat a ..< unat c]) \<subseteq> {i :: IMG_UINT32. a \<le> i \<and> i < c}"
  proof
    fix i :: IMG_UINT32 assume "i \<in> set (map of_nat [unat a ..< unat c])"
    then obtain n where n: "i = of_nat n" "unat a \<le> n" "n < unat c" by auto
    have "unat c < 2 ^ LENGTH(32)" by (rule unsigned_less)
    then have "unat i = n" using n by (simp add: unat_of_nat)
    then show "i \<in> {i. a \<le> i \<and> i < c}" using n by (simp add: word_le_nat_alt word_less_nat_alt)
  qed
  show "{i :: IMG_UINT32. a \<le> i \<and> i < c} \<subseteq> set (map of_nat [unat a ..< unat c])"
  proof
    fix i :: IMG_UINT32 assume "i \<in> {i. a \<le> i \<and> i < c}"
    then have "unat i \<in> set [unat a ..< unat c]" by (simp add: word_le_nat_alt word_less_nat_alt)
    then have "(of_nat (unat i) :: IMG_UINT32) \<in> of_nat ` set [unat a ..< unat c]" by (rule imageI)
    then show "i \<in> set (map of_nat [unat a ..< unat c])" by (simp only: set_map of_nat_unat ucast_id)
  qed
qed

lemma distinct_word_upt: "distinct (map of_nat [unat a ..< unat (c :: IMG_UINT32)] :: IMG_UINT32 list)"
proof -
  have "unat c < 2 ^ LENGTH(32)" by (rule unsigned_less)
  then have "inj_on (of_nat :: nat \<Rightarrow> IMG_UINT32) (set [unat a ..< unat c])"
    by (intro inj_onI) (metis atLeastLessThan_iff atLeastLessThan_upt less_trans mod_less unat_of_nat)
  then show ?thesis by (simp add: distinct_map)
qed

lemma chain_upt: "\<forall>i \<in> set (map of_nat [a ..< c]). ui32NextIndexPlusOne (h i) = 0 \<Longrightarrow> chain h (map of_nat [a ..< c])"
proof (induction "c - a" arbitrary: a)
  case (Suc n)
  have IH: "chain h (map of_nat [Suc a ..< c])" by (rule Suc.hyps(1)) (use Suc in auto)
  have u: "[a ..< c] = a # [Suc a ..< c]" using Suc.hyps(2) by (simp add: upt_rec)
  show ?case
  proof (cases "Suc a < c")
    case True
    then have "[Suc a ..< c] = Suc a # [Suc (Suc a) ..< c]" by (simp add: upt_rec)
    then show ?thesis using u IH Suc.prems by (simp add: add.commute)
  next
    case False
    then show ?thesis using u Suc.prems by simp
  qed
qed simp


text \<open>What the invariant says, one fact per conjunct.\<close>

lemma hb_invD:
  assumes "hb_inv F s X fl bl K d b"
  shows "unbatched bl b" "size_ok b" "free_ok b fl" "links_ok (hands b) (used b fl) K d" "htab_ok b X"
    "hmem_ok F b" "batch_ok s fl bl b"
    "\<And>j. j \<in> used b fl \<Longrightarrow> h_eType (hands b j) = PVRSRV_HANDLE_TYPE_NONE \<Longrightarrow>
      K j = [] \<and> sSiblings (hands b j) = HandleListInit j IMG_NULL"
  using assms by (auto simp: hb_inv_def)

lemma hb_invI:
  assumes "unbatched bl b" "size_ok b" "free_ok b fl" "links_ok (hands b) (used b fl) K d" "htab_ok b X"
    "hmem_ok F b" "batch_ok s fl bl b"
    and "\<And>j. j \<in> used b fl \<Longrightarrow> h_eType (hands b j) = PVRSRV_HANDLE_TYPE_NONE \<Longrightarrow>
      K j = [] \<and> sSiblings (hands b j) = HandleListInit j IMG_NULL"
  shows "hb_inv F s X fl bl K d b"
  using assms by (auto simp: hb_inv_def)

text \<open>The parts of a base that growing and allocating leave alone.\<close>

definition same_base :: "HANDLE_BASE \<Rightarrow> HANDLE_BASE \<Rightarrow> bool" where
  "same_base b b' \<longleftrightarrow> ui32MaxIndexPlusOne b' = ui32MaxIndexPlusOne b \<and> ui32HandBatchSize b' = ui32HandBatchSize b \<and>
     ui32BatchHandAllocFailures b' = ui32BatchHandAllocFailures b \<and> psBase b' = psBase b \<and>
     ui32TotalHandCount b \<le> ui32TotalHandCount b' \<and> bPurgingEnabled b' = bPurgingEnabled b"

text \<open>The new part of the array: the structures from \<open>a\<close> to \<open>c\<close> are initialised, free and in order.\<close>

definition init_from :: "IMG_UINT32 \<Rightarrow> IMG_UINT32 \<Rightarrow> (IMG_UINT32 \<Rightarrow> sHandle) \<Rightarrow> IMG_UINT32 \<Rightarrow> sHandle" where
  "init_from a c h i = (if a \<le> i \<and> i < c then init_handle (h i) else h i)"

abbreviation new_indices :: "IMG_UINT32 \<Rightarrow> IMG_UINT32 \<Rightarrow> IMG_UINT32 list" where
  "new_indices a c \<equiv> map of_nat [unat a ..< unat c]"

lemma new_indices_ends:
  assumes "a < (c :: IMG_UINT32)"
  shows "new_indices a c \<noteq> []" "hd (new_indices a c) = a" "last (new_indices a c) + 1 = c"
    "length (new_indices a c) = unat (c - a)"
proof -
  have u: "unat a < unat c" using assms by (simp add: word_less_nat_alt)
  then show "new_indices a c \<noteq> []" by simp
  show "hd (new_indices a c) = a" using u by (simp add: hd_map)
  have "last (new_indices a c) = of_nat (unat c - 1)" using u by (simp add: last_map)
  then show "last (new_indices a c) + 1 = c" using u by (simp add: of_nat_diff)
  show "length (new_indices a c) = unat (c - a)" using assms by (simp add: unat_sub order.strict_implies_order)
qed

lemma chain_init:
  "chain (init_from a c h) (new_indices a c)"
  by (rule chain_upt) (simp add: set_word_upt init_from_def init_handle_def del: set_map)

lemma chain_append:
  assumes fl: "chain h fl" "fl \<noteq> []" "distinct fl" and n: "chain h ns" "ns \<noteq> []" "hd ns + 1 \<noteq> 0" "set fl \<inter> set ns = {}"
  shows "chain (h(last fl := (h (last fl))\<lparr>ui32NextIndexPlusOne := hd ns + 1\<rparr>)) (fl @ ns)"
proof (cases ns)
  case (Cons i "is")
  then show ?thesis using chain_snoc [OF fl, of i "is"] n by auto
qed (use n(2) in simp)

lemma grow_list_ok:
  assumes p: "\<not> bPurgingEnabled b" and f: "chain (hands b) fl" "distinct fl" "\<forall>i \<in> set fl. i < a"
    and n: "a < c" "ui32TotalHandCount b = c" "a + 1 \<noteq> 0" and cnt: "ui32FreeHandCount b = of_nat (length fl)"
    and e: "if fl = [] then ui32FirstFreeIndex b = 0 \<and> ui32LastFreeIndexPlusOne b = 0
      else ui32FirstFreeIndex b = hd fl \<and> ui32LastFreeIndexPlusOne b = last fl + 1"
    and ff: "fl = [] \<or> ui32FirstFreeIndex b \<noteq> 0"
    and ini: "chain (hands b) (new_indices a c)"
  obtains h' where "grow_free_list a c b = Some (b\<lparr>hands := h', ui32FreeHandCount := of_nat (length (fl @ new_indices a c)),
      ui32FirstFreeIndex := hd (fl @ new_indices a c), ui32LastFreeIndexPlusOne := last (fl @ new_indices a c) + 1\<rparr>)"
    "chain h' (fl @ new_indices a c)" "\<forall>j. j \<notin> set fl \<longrightarrow> h' j = hands b j" "\<forall>j. data_of (h' j) = data_of (hands b j)"
proof -
  note E = new_indices_ends [OF n(1)]
  have l: "last (fl @ new_indices a c) + 1 = c" using E by (simp add: last_append)
  have ct: "of_nat (length (fl @ new_indices a c)) = ui32FreeHandCount b + (c - a)"
    unfolding length_append of_nat_add E(4) cnt by simp
  show thesis
  proof (cases "fl = []")
    case True
    have "grow_free_list a c b = Some (b\<lparr>hands := hands b, ui32FreeHandCount := of_nat (length (fl @ new_indices a c)),
      ui32FirstFreeIndex := hd (fl @ new_indices a c), ui32LastFreeIndexPlusOne := last (fl @ new_indices a c) + 1\<rparr>)"
      unfolding l ct using True e p E(2) by (simp add: grow_free_list_def)
    then show thesis by (rule that) (use True ini in auto)
  next
    case False
    let ?h = "(hands b)(last fl := (hands b (last fl))\<lparr>ui32NextIndexPlusOne := a + 1\<rparr>)"
    have lf: "last fl \<in> set fl" using False by simp
    then have lt: "last fl < ui32TotalHandCount b" using f(3) n(1,2) by (metis less_trans)
    have "grow_free_list a c b = Some (b\<lparr>hands := ?h, ui32FreeHandCount := of_nat (length (fl @ new_indices a c)),
      ui32FirstFreeIndex := hd (fl @ new_indices a c), ui32LastFreeIndexPlusOne := last (fl @ new_indices a c) + 1\<rparr>)"
      unfolding l ct using False e p ff lt by (simp add: grow_free_list_def upd_def)
    moreover have "chain ?h (fl @ new_indices a c)"
    proof -
      have "set fl \<inter> set (new_indices a c) = {}" using f(3) by (auto simp: set_word_upt simp del: set_map)
      then show ?thesis using chain_append [OF f(1) False f(2) ini E(1)] n(3) E(2) by simp
    qed
    ultimately show thesis by (rule that) (use lf in \<open>auto simp: data_of_def ParentHandle_def\<close>)
  qed
qed

lemma block_index: "unat (INDEX_TO_BLOCK_INDEX i) = unat i div 256"
  by (simp add: INDEX_TO_BLOCK_INDEX_def HANDLE_BLOCK_SHIFT_def drop_bit_eq_div unat_div_distrib)

text \<open>The counts of free structures by block.\<close>

lemma block_eq: "INDEX_TO_BLOCK_INDEX i = k \<longleftrightarrow> unat i div 256 = unat k"
  by (metis block_index word_unat_eq_iff)

lemma card_block:
  assumes "unat k < 2 ^ 24" shows "card {i. INDEX_TO_BLOCK_INDEX i = k} = 256"
proof -
  have "unat ` {i. INDEX_TO_BLOCK_INDEX i = k} = {unat k * 256 ..< unat k * 256 + 256}"
  proof (intro set_eqI iffI)
    fix n assume "n \<in> {unat k * 256 ..< unat k * 256 + 256}"
    then have n: "n div 256 = unat k" "n < 2 ^ 32" using assms by auto
    then have "unat (of_nat n :: IMG_UINT32) = n" by (simp add: unat_of_nat)
    then show "n \<in> unat ` {i. INDEX_TO_BLOCK_INDEX i = k}" using n(1) unfolding block_eq by (metis (mono_tags) image_eqI mem_Collect_eq)
  qed (auto simp: block_eq)
  moreover have "inj_on unat {i. INDEX_TO_BLOCK_INDEX i = k}" by (simp add: inj_on_def word_unat_eq_iff)
  ultimately show ?thesis by (metis (no_types, lifting) card_atLeastLessThan card_image diff_add_inverse)
qed

lemma block_size_nat: "HANDLE_BLOCK_SIZE = of_nat 256"
  by (simp add: HANDLE_BLOCK_SIZE_def HANDLE_BLOCK_SHIFT_def)

lemma mod_block_nat: "(a :: IMG_UINT32) mod HANDLE_BLOCK_SIZE = 0 \<Longrightarrow> unat a mod 256 = 0"
  using arg_cong [of "a mod HANDLE_BLOCK_SIZE" 0 unat] unfolding unat_mod_distrib by (simp add: HANDLE_BLOCK_SIZE_def HANDLE_BLOCK_SHIFT_def)

lemma block_nat:
  fixes n i m :: nat
  assumes "n mod 256 = 0"
  shows "n div 256 \<le> i div 256 \<Longrightarrow> n \<le> i" "i div 256 < n div 256 \<Longrightarrow> i < n" "i < n \<Longrightarrow> i div 256 < n div 256"
    "k < n div 256 \<Longrightarrow> m < 256 \<Longrightarrow> k * 256 + m < n" "(n + 255) div 256 = n div 256"
proof -
  obtain q where q: "n = q * 256" using assms by (metis mod_0_imp_dvd dvd_div_mult_self)
  show "n div 256 \<le> i div 256 \<Longrightarrow> n \<le> i" "i div 256 < n div 256 \<Longrightarrow> i < n" "i < n \<Longrightarrow> i div 256 < n div 256"
    "k < n div 256 \<Longrightarrow> m < 256 \<Longrightarrow> k * 256 + m < n" "(n + 255) div 256 = n div 256"
    unfolding q by simp_all
qed

definition new_counts :: "IMG_UINT32 \<Rightarrow> IMG_UINT32 \<Rightarrow> HANDLE_BASE \<Rightarrow> (IMG_UINT32 \<Rightarrow> IMG_UINT32) \<Rightarrow> bool" where
  "new_counts a c b f \<longleftrightarrow> f = (\<lambda>k. if unat (INDEX_TO_BLOCK_INDEX a) \<le> unat k \<and> unat k < unat (INDEX_TO_BLOCK_INDEX c)
     then HANDLE_BLOCK_SIZE else ui32FreeHandBlockCount b k)"

lemma free_in_new:
  assumes fl: "\<forall>i \<in> set fl. i < a" and a: "a mod HANDLE_BLOCK_SIZE = 0" "c mod HANDLE_BLOCK_SIZE = 0"
  shows "unat k < unat (INDEX_TO_BLOCK_INDEX a) \<Longrightarrow> free_in (fl @ new_indices a c) k = free_in fl k"
    and "unat (INDEX_TO_BLOCK_INDEX a) \<le> unat k \<Longrightarrow> unat k < unat (INDEX_TO_BLOCK_INDEX c) \<Longrightarrow>
      free_in (fl @ new_indices a c) k = {i. INDEX_TO_BLOCK_INDEX i = k}"
proof -
  note m = block_nat [OF mod_block_nat [OF a(1)]] block_nat [OF mod_block_nat [OF a(2)]]
  have new: "set (new_indices a c) = {i. a \<le> i \<and> i < c}" by (rule set_word_upt)
  show "free_in (fl @ new_indices a c) k = free_in fl k" if "unat k < unat (INDEX_TO_BLOCK_INDEX a)"
  proof -
    have "unat i < unat a" if "unat i div 256 = unat k" for i :: IMG_UINT32
    proof -
      have "unat i div 256 < unat a div 256" using that \<open>unat k < _\<close> by (simp add: block_index)
      then show ?thesis by (metis div_le_mono leD not_le_imp_less)
    qed
    then show ?thesis unfolding free_in_def set_append new block_eq by (auto simp: word_le_nat_alt not_less [symmetric])
  qed
  assume k: "unat (INDEX_TO_BLOCK_INDEX a) \<le> unat k" "unat k < unat (INDEX_TO_BLOCK_INDEX c)"
  have "unat a \<le> unat i \<and> unat i < unat c" if "unat i div 256 = unat k" for i :: IMG_UINT32
  proof -
    have "unat a div 256 \<le> unat i div 256" "unat i div 256 < unat c div 256" using k that by (simp_all add: block_index)
    then show ?thesis using m(1,7) by blast
  qed
  moreover have "\<not> unat i < unat a" if "unat i div 256 = unat k" for i :: IMG_UINT32 using calculation [OF that] by simp
  ultimately show "free_in (fl @ new_indices a c) k = {i. INDEX_TO_BLOCK_INDEX i = k}"
    unfolding free_in_def set_append new block_eq using fl by (auto simp: word_le_nat_alt word_less_nat_alt)
qed

text \<open>The array after it has been replaced, before the free list is extended.\<close>

abbreviation grown_array :: "IMG_UINT32 \<Rightarrow> IMG_UINTPTR_T \<Rightarrow> IMG_UINTPTR_T list \<Rightarrow> (IMG_UINT32 \<Rightarrow> IMG_UINT32) \<Rightarrow> os \<Rightarrow> HANDLE_BASE \<Rightarrow> HANDLE_BASE" where
  "grown_array c p ps f s b \<equiv> b\<lparr>psHandleArray := p, psHandleBlocks := psHandleBlocks b @ ps,
     hands := init_from (ui32TotalHandCount b) c (hands b), ui32FreeHandBlockCount := f, ui32TotalHandCount := c, hb_os := s\<rparr>"

lemma grow_free_list_ok:
  assumes fo: "free_ok b fl" and sz: "size_ok b" "size_ok (grown_array c p ps f s b)" and ff: "fl = [] \<or> ui32FirstFreeIndex b \<noteq> 0"
    and c: "ui32TotalHandCount b < c" and f: "new_counts (ui32TotalHandCount b) c b f"
  obtains h' x y where "grow_free_list (ui32TotalHandCount b) c (grown_array c p ps f s b) =
      Some ((grown_array c p ps f s b)\<lparr>hands := h', ui32FreeHandCount := of_nat (length (fl @ new_indices (ui32TotalHandCount b) c)),
        ui32FirstFreeIndex := x, ui32LastFreeIndexPlusOne := y\<rparr>)"
    "\<forall>j. j \<notin> set fl \<longrightarrow> h' j = init_from (ui32TotalHandCount b) c (hands b) j"
    "\<forall>j. data_of (h' j) = data_of (init_from (ui32TotalHandCount b) c (hands b) j)"
    "\<forall>b'. hands b' = h' \<and> bPurgingEnabled b' = bPurgingEnabled b \<and> ui32FirstFreeIndex b' = x \<and>
      ui32LastFreeIndexPlusOne b' = y \<and> ui32FreeHandBlockCount b' = f \<and> ui32TotalHandCount b' = c \<longrightarrow>
      (if bPurgingEnabled b' then search_ok b' (fl @ new_indices (ui32TotalHandCount b) c)
       else list_ok b' (fl @ new_indices (ui32TotalHandCount b) c))"
proof -
  let ?a = "ui32TotalHandCount b" let ?n = "new_indices ?a c" let ?b1 = "grown_array c p ps f s b"
  have a1: "?a + 1 \<noteq> 0" using index_plus_one [OF sz(2), of ?a] c by simp
  have lo: "init_from ?a c (hands b) j = hands b j" if "j < ?a" for j using that by (simp add: init_from_def not_le [symmetric])
  have fr: "distinct fl" "\<forall>i \<in> set fl. i < ?a" "ui32FreeHandCount b = of_nat (length fl)" using fo by (simp_all add: free_ok_def)
  have m: "?a mod HANDLE_BLOCK_SIZE = 0" "c mod HANDLE_BLOCK_SIZE = 0" using sz by (simp_all add: size_ok_def)
  show thesis
  proof (cases "bPurgingEnabled b")
    case False
    then have l: "chain (hands b) fl" "if fl = [] then ui32FirstFreeIndex b = 0 \<and> ui32LastFreeIndexPlusOne b = 0
      else ui32FirstFreeIndex b = hd fl \<and> ui32LastFreeIndexPlusOne b = last fl + 1"
      using fo by (simp_all add: free_ok_def list_ok_def)
    have ch: "chain (init_from ?a c (hands b)) fl" using l(1) chain_cong [of fl "hands b" "init_from ?a c (hands b)"] fr(2) lo by metis
    obtain h' where g: "grow_free_list ?a c ?b1 = Some (?b1\<lparr>hands := h', ui32FreeHandCount := of_nat (length (fl @ ?n)),
        ui32FirstFreeIndex := hd (fl @ ?n), ui32LastFreeIndexPlusOne := last (fl @ ?n) + 1\<rparr>)"
      "chain h' (fl @ ?n)" "\<forall>j. j \<notin> set fl \<longrightarrow> h' j = init_from ?a c (hands b) j"
      "\<forall>j. data_of (h' j) = data_of (init_from ?a c (hands b) j)"
      by (rule grow_list_ok [of ?b1 fl ?a c]) (use False ch fr l c a1 ff chain_init in auto)
    show thesis
      by (rule that [OF g(1,3,4)]) (use False g(2) new_indices_ends(1) [OF c] in \<open>auto simp: list_ok_def\<close>)
  next
    case True
    let ?x = "if ui32FirstFreeIndex b = 0 then ?a else ui32FirstFreeIndex b"
    have ct: "of_nat (length (fl @ ?n)) = ui32FreeHandCount b + (c - ?a)"
      unfolding length_append of_nat_add new_indices_ends(4) [OF c] fr(3) by simp
    have r: "grow_free_list ?a c ?b1 = Some (?b1\<lparr>hands := init_from ?a c (hands b), ui32FreeHandCount := of_nat (length (fl @ ?n)),
        ui32FirstFreeIndex := ?x, ui32LastFreeIndexPlusOne := ui32LastFreeIndexPlusOne b\<rparr>)"
      unfolding ct using True by (simp add: grow_free_list_def)
    have new: "set ?n = {i. ?a \<le> i \<and> i < c}" by (rule set_word_upt)
    have so: "search_ok b fl" using fo True by (simp add: free_ok_def)
    have lt: "unat k < 2 ^ 24" if "k < INDEX_TO_BLOCK_INDEX c" for k
    proof -
      have "unat k < unat c div 256" using that by (simp add: word_less_nat_alt block_index)
      moreover have "unat c < 2 ^ LENGTH(32)" by (rule unsigned_less)
      ultimately show ?thesis by simp
    qed
    show thesis
    proof (rule that [OF r], simp, simp, intro allI impI, elim conjE)
      fix b' :: HANDLE_BASE
      assume b': "hands b' = init_from ?a c (hands b)" "bPurgingEnabled b' = bPurgingEnabled b" "ui32FirstFreeIndex b' = ?x"
        "ui32FreeHandBlockCount b' = f" "ui32TotalHandCount b' = c"
      have "search_ok b' (fl @ ?n)"
        unfolding search_ok_def
      proof (intro conjI ballI allI impI)
        fix i assume "i \<in> set (fl @ ?n)"
        then show "eInternalFlag (hands b' i) = 0"
          using so lo fr(2) unfolding b'(1) set_append new search_ok_def
          by (auto simp: init_from_def init_handle_def INTERNAL_HANDLE_FLAG_NONE_def)
      next
        fix k assume "k < INDEX_TO_BLOCK_INDEX (ui32TotalHandCount b')"
        then have k: "k < INDEX_TO_BLOCK_INDEX c" by (simp add: b'(5))
        show "ui32FreeHandBlockCount b' k = of_nat (card (free_in (fl @ ?n) k))"
        proof (cases "unat k < unat (INDEX_TO_BLOCK_INDEX ?a)")
          case True
          then have "ui32FreeHandBlockCount b k = of_nat (card (free_in fl k))" using so by (simp add: search_ok_def word_less_nat_alt)
          then show ?thesis using True f free_in_new(1) [OF fr(2) m] by (simp add: b'(4) new_counts_def)
        next
          case False
          then have "free_in (fl @ ?n) k = {i. INDEX_TO_BLOCK_INDEX i = k}"
            using k by (intro free_in_new(2) [OF fr(2) m]) (simp_all add: word_less_nat_alt)
          then show ?thesis using False k f card_block [OF lt [OF k]] by (simp add: b'(4) new_counts_def word_less_nat_alt block_size_nat)
        qed
      next
        have "?a \<in> set ?n" unfolding new using c by simp
        then show "ui32FirstFreeIndex b' = 0 \<or> (\<exists>i \<in> set (fl @ ?n). ui32FirstFreeIndex b' \<le> i)"
          using so unfolding b'(3) search_ok_def by auto
      qed
      then show "if bPurgingEnabled b' then search_ok b' (fl @ ?n) else list_ok b' (fl @ ?n)" using True b'(2) by simp
    qed
  qed
qed

lemma links_ok_frame:
  "links_ok h A K d \<Longrightarrow> (\<And>i. i \<in> A \<Longrightarrow> h' i = h i) \<Longrightarrow> links_ok h' A K d"
  by (rule links_ok_cong) auto

lemma batch_ok_frame:
  assumes "batch_ok s fl bl b" "used b' fl' = used b fl" "\<And>i. i \<in> used b fl \<Longrightarrow> hands b' i = hands b i"
  shows "batch_ok s fl' bl b'"
proof -
  have "set bl \<subseteq> used b fl" using assms(1) by (simp add: batch_ok_def)
  then have "bchain (hands b') s bl = bchain (hands b) s bl" using assms(3) by (intro bchain_cong) (metis subsetD)
  then show ?thesis using assms by (simp add: batch_ok_def)
qed

lemma grow_inv:
  assumes inv: "hb_inv F s X fl bl K d b" and ff: "fl = [] \<or> ui32FirstFreeIndex b \<noteq> 0"
    and c: "ui32TotalHandCount b < c" "c mod HANDLE_BLOCK_SIZE = 0" "c \<le> ui32MaxIndexPlusOne b"
    and m: "hmem_ok F (grown_array c p ps f s' b)" and f: "new_counts (ui32TotalHandCount b) c b f"
  obtains b' where "grow_free_list (ui32TotalHandCount b) c (grown_array c p ps f s' b) = Some b'"
    "hb_inv F s X (fl @ new_indices (ui32TotalHandCount b) c) bl K d b'" "same_base b b'" "ui32TotalHandCount b' = c"
    "ui32FirstBatchIndexPlusOne b' = ui32FirstBatchIndexPlusOne b"
    "\<forall>j < ui32TotalHandCount b. data_of (hands b' j) = data_of (hands b j)"
    "\<forall>j. ui32TotalHandCount b \<le> j \<and> j < c \<longrightarrow> h_eType (hands b' j) = PVRSRV_HANDLE_TYPE_NONE"
proof -
  note P = hb_invD [OF inv]
  let ?a = "ui32TotalHandCount b" let ?n = "new_indices ?a c" let ?b1 = "grown_array c p ps f s' b"
  have szo: "size_ok ?b1" using P(2) c by (simp add: size_ok_def)
  have a1: "?a + 1 \<noteq> 0" using index_plus_one [OF szo, of ?a] c(1) by simp
  have lo: "init_from ?a c (hands b) j = hands b j" if "j < ?a" for j using that by (simp add: init_from_def not_le [symmetric])
  have fr: "distinct fl" "\<forall>i \<in> set fl. i < ?a" "ui32FreeHandCount b = of_nat (length fl)"
    "\<forall>i \<in> set fl. h_eType (hands b i) = PVRSRV_HANDLE_TYPE_NONE"
    using P(3) by (simp_all add: free_ok_def)
  obtain h' x y where g: "grow_free_list ?a c ?b1 = Some (?b1\<lparr>hands := h', ui32FreeHandCount := of_nat (length (fl @ ?n)),
      ui32FirstFreeIndex := x, ui32LastFreeIndexPlusOne := y\<rparr>)"
    "\<forall>j. j \<notin> set fl \<longrightarrow> h' j = init_from ?a c (hands b) j" "\<forall>j. data_of (h' j) = data_of (init_from ?a c (hands b) j)"
    "\<forall>b'. hands b' = h' \<and> bPurgingEnabled b' = bPurgingEnabled b \<and> ui32FirstFreeIndex b' = x \<and>
      ui32LastFreeIndexPlusOne b' = y \<and> ui32FreeHandBlockCount b' = f \<and> ui32TotalHandCount b' = c \<longrightarrow>
      (if bPurgingEnabled b' then search_ok b' (fl @ ?n) else list_ok b' (fl @ ?n))"
    by (rule grow_free_list_ok [OF P(3,2) szo ff c(1) f])
  let ?b' = "?b1\<lparr>hands := h', ui32FreeHandCount := of_nat (length (fl @ ?n)),
      ui32FirstFreeIndex := x, ui32LastFreeIndexPlusOne := y\<rparr>"
  have sl: "if bPurgingEnabled ?b' then search_ok ?b' (fl @ ?n) else list_ok ?b' (fl @ ?n)" by (rule g(4) [rule_format]) simp
  have new: "set ?n = {i. ?a \<le> i \<and> i < c}" by (rule set_word_upt)
  have u: "used ?b' (fl @ ?n) = used b fl" using c(1) fr(2) by (auto simp: used_def new simp del: set_map)
  have same: "h' j = hands b j" if "j \<in> used b fl" for j using that g(2) lo by (simp add: used_def)
  have dt: "data_of (h' j) = data_of (hands b j)" if "j < ?a" for j using g(3) lo that by simp
  have ty: "h_eType (h' j) = PVRSRV_HANDLE_TYPE_NONE" if "?a \<le> j" "j < c" for j
    using g(3) [rule_format, of j] that by (simp add: data_of_def init_from_def init_handle_def)
  have "hb_inv F s X (fl @ ?n) bl K d ?b'"
  proof (rule hb_invI)
    show "free_ok ?b' (fl @ ?n)"
      unfolding free_ok_def
    proof (intro conjI ballI)
      show "distinct (fl @ ?n)"
        unfolding distinct_append using fr(1,2) distinct_word_upt new by (auto simp del: set_map)
      fix i assume i: "i \<in> set (fl @ ?n)"
      then show "i < ui32TotalHandCount ?b'" using fr(2) c(1) new by (auto simp del: set_map)
      have "h_eType (h' i) = h_eType (hands b i)" if "i < ?a" using dt [OF that] by (simp add: data_of_def)
      then have "h_eType (h' i) = PVRSRV_HANDLE_TYPE_NONE" using i fr(2,4) ty new by (auto simp del: set_map)
      then show "h_eType (hands ?b' i) = PVRSRV_HANDLE_TYPE_NONE" by simp
    qed (use sl in auto)
    have "hashed ?b' X = hashed b X"
    proof -
      have "i < ?a" if "i < c" "h_eType (h' i) \<noteq> PVRSRV_HANDLE_TYPE_NONE" for i using ty that by (meson not_le)
      then show ?thesis using dt c(1) by (force simp: hashed_def data_of_def)
    qed
    moreover have "key_of (hands ?b' i) = key_of (hands b i)" if "i \<in> hashed b X" for i
      using dt [THEN key_of_data] that by (simp add: hashed_def)
    ultimately show "htab_ok ?b' X" by (intro htab_ok_cong [OF P(5)]) auto
    show "batch_ok s (fl @ ?n) bl ?b'" by (rule batch_ok_frame [OF P(7) u]) (use same in simp)
    show "links_ok (hands ?b') (used ?b' (fl @ ?n)) K d"
      unfolding u by (rule links_ok_frame [OF P(4)]) (use same in simp)
    show "size_ok ?b'" using szo by (simp add: size_ok_def)
    show "K j = [] \<and> sSiblings (hands ?b' j) = HandleListInit j IMG_NULL"
      if "j \<in> used ?b' (fl @ ?n)" "h_eType (hands ?b' j) = PVRSRV_HANDLE_TYPE_NONE" for j
      using that P(8) same unfolding u by simp
  qed (use P(1) m in \<open>auto simp: hmem_ok_def unbatched_def HANDLES_BATCHED_def\<close>)
  then show thesis
    by (rule that [OF g(1)]) (use dt ty c(1) in \<open>auto simp: same_base_def\<close>)
qed

lemma ReallocHandleArray_grow:
  assumes inv: "hb_inv F s X fl bl K d b" and ff: "fl = [] \<or> ui32FirstFreeIndex b \<noteq> 0"
    and c: "ui32TotalHandCount b < c" "c mod HANDLE_BLOCK_SIZE = 0" "c \<le> ui32MaxIndexPlusOne b"
  obtains (grown) b' where "ReallocHandleArray c b = Some (PVRSRV_OK, b')"
      "hb_inv F s X (fl @ new_indices (ui32TotalHandCount b) c) bl K d b'" "same_base b b'" "ui32TotalHandCount b' = c"
      "ui32FirstBatchIndexPlusOne b' = ui32FirstBatchIndexPlusOne b"
      "\<forall>j < ui32TotalHandCount b. data_of (hands b' j) = data_of (hands b j)"
      "\<forall>j. ui32TotalHandCount b \<le> j \<and> j < c \<longrightarrow> h_eType (hands b' j) = PVRSRV_HANDLE_TYPE_NONE"
  | (oom) e s' where "ReallocHandleArray c b = Some (e, b\<lparr>hb_os := s'\<rparr>)" "e \<noteq> PVRSRV_OK"
      "hb_inv F s X fl bl K d (b\<lparr>hb_os := s'\<rparr>)"
proof -
  note P = hb_invD [OF inv]
  let ?a = "ui32TotalHandCount b" let ?m = "unat (INDEX_TO_BLOCK_INDEX ?a)" and ?n = "unat (INDEX_TO_BLOCK_INDEX c)"
  let ?H = "(case psHashTab b of None \<Rightarrow> {#} | Some t \<Rightarrow> hash_blocks t)"
  have M: "os_ok (hb_os b)" "blocks (hb_os b) = ?H + ({#psBase b#} + (if psHandleArray b = IMG_NULL then {#} else {#psHandleArray b#}) + mset (psHandleBlocks b) + F)"
    "IMG_NULL \<notin> set (psHandleBlocks b)" "length (psHandleBlocks b) = ?m"
    using P(6) by (simp_all add: hmem_ok_def)
  have mn: "?m \<le> ?n" using c(1) by (simp add: block_index word_less_nat_alt div_le_mono)
  then have dn: "drop ?n (psHandleBlocks b) = []" "take ?n (psHandleBlocks b) = psHandleBlocks b" using M(4) by simp_all
  have am: "?a mod HANDLE_BLOCK_SIZE = 0" "c \<noteq> ?a" "c \<noteq> 0" "\<not> c < ?a" using P(2) c(1) by (auto simp: size_ok_def)
  obtain e1 p s1 where al: "OSAllocMem (HANDLE_ARRAY_SIZE c * sizeof_sHandleIndex) (hb_os b) = (e1, p, s1)" by (metis prod_cases3)
  have ok1: "os_ok s1" "e1 = PVRSRV_OK \<longleftrightarrow> p \<noteq> IMG_NULL" "blocks s1 = (if p = IMG_NULL then {#} else {#p#}) + blocks (hb_os b)"
    using OSAllocMem_os_ok [OF al M(1)] OSAllocMem_ok_iff [OF al] OSAllocMem_blocks [OF al] by auto
  have keep: "hb_inv F s X fl bl K d (b\<lparr>hb_os := s'\<rparr>)" if "os_ok s'" "blocks s' = blocks (hb_os b)" for s'
    using P(1,2,4-8) that free_ok_cong [OF P(3), of "b\<lparr>hb_os := s'\<rparr>"] unfolding hb_inv_def
    by (auto simp: size_ok_def used_def batch_ok_def htab_ok_def hashed_def hmem_ok_def unbatched_def HANDLES_BATCHED_def split: option.splits)
  obtain e2 ps s2 where ab: "alloc_blocks (?n - ?m) s1 = (e2, ps, s2)" by (metis prod_cases3)
  note A = alloc_blocks_frame [OF ab ok1(1)]
  show thesis
  proof (cases "p = IMG_NULL")
    case True
    show thesis
    proof (rule oom)
      show "ReallocHandleArray c b = Some (e1, b\<lparr>hb_os := s1\<rparr>)"
        using True al am c(2) ok1(2) by (simp add: ReallocHandleArray_def Let_def)
    qed (use True ok1 keep in auto)
  next
    case p: False
    show thesis
    proof (cases "e2 = PVRSRV_OK")
      case False
      let ?s = "OSFreeMem p (free_blocks ps s2)"
      have s: "os_ok ?s" "blocks ?s = blocks (hb_os b)"
        using A ok1 p free_blocks_frame [of s2 ps] by (simp_all add: OSFreeMem_os_ok os_simps)
      show thesis
      proof (rule oom)
        show "ReallocHandleArray c b = Some (e2, b\<lparr>hb_os := ?s\<rparr>)"
          using p al am c(2) ok1(2) ab False dn by (simp add: ReallocHandleArray_def Let_def free_blocks_def)
      qed (use False s keep in auto)
    next
      case True
      let ?s = "if psHandleArray b \<noteq> IMG_NULL then OSFreeMem (psHandleArray b) s2 else s2"
      let ?f = "\<lambda>k. if ?m \<le> unat k \<and> unat k < ?n then HANDLE_BLOCK_SIZE else ui32FreeHandBlockCount b k"
      have ps: "filter (\<lambda>p. p \<noteq> IMG_NULL) ps = ps" using A True by (auto intro!: filter_True)
      have "blocks s2 = blocks s1 + mset ps" using A ps by simp
      then have m: "hmem_ok F (grown_array c p ps ?f ?s b)"
        using A True M ok1 p mn am(3) by (auto simp: hmem_ok_def os_simps OSFreeMem_os_ok split: option.splits)
      have r: "ReallocHandleArray c b = map_option (Pair PVRSRV_OK) (grow_free_list ?a c (grown_array c p ps ?f ?s b))"
        using p al am c(1,2) ok1(2) ab True dn
        by (simp add: ReallocHandleArray_def Let_def free_blocks_def init_from_def [abs_def])
      show thesis
        by (rule grow_inv [OF inv ff c m]) (simp add: new_counts_def, rule grown, simp add: r)
    qed
  qed
qed

lemma round_down_value: "unat (ROUND_DOWN_TO_MULTIPLE_OF_BLOCK_SIZE a) = unat a div 256 * 256"
proof -
  have "HANDLE_BLOCK_MASK = NOT (mask 8)"
    by (simp add: HANDLE_BLOCK_MASK_def HANDLE_SUB_BLOCK_MASK_def HANDLE_BLOCK_SIZE_def HANDLE_BLOCK_SHIFT_def mask_eq_exp_minus_1)
  then have "ROUND_DOWN_TO_MULTIPLE_OF_BLOCK_SIZE a = push_bit 8 (drop_bit 8 a)"
    by (simp add: ROUND_DOWN_TO_MULTIPLE_OF_BLOCK_SIZE_def bit_eq_iff bit_simps) auto
  also have "\<dots> = a div 256 * 256" by (simp add: push_bit_eq_mult drop_bit_eq_div)
  finally have "unat (ROUND_DOWN_TO_MULTIPLE_OF_BLOCK_SIZE a) = (unat a div 256 * 256) mod 2 ^ 32"
    by (simp add: unat_word_ariths unat_div_distrib mod_mult_left_eq)
  moreover have "unat a < 2 ^ LENGTH(32)" by (rule unsigned_less)
  moreover have "unat a div 256 * 256 \<le> unat a" by simp
  ultimately show ?thesis by (simp add: mod_less)
qed

lemma round_up_ge:
  assumes "ROUND_UP_TO_MULTIPLE_OF_BLOCK_SIZE a \<noteq> 0" shows "a \<le> ROUND_UP_TO_MULTIPLE_OF_BLOCK_SIZE a"
proof -
  have a: "unat a < 2 ^ LENGTH(32)" by (rule unsigned_less)
  have e: "unat (a + HANDLE_BLOCK_SIZE - 1) = (unat a + 255) mod 2 ^ 32"
  proof -
    have "a + HANDLE_BLOCK_SIZE - 1 = a + 255" by (simp add: HANDLE_BLOCK_SIZE_def HANDLE_BLOCK_SHIFT_def)
    then show ?thesis by (simp only:) (simp add: unat_word_ariths)
  qed
  have u: "unat (ROUND_UP_TO_MULTIPLE_OF_BLOCK_SIZE a) = (unat a + 255) mod 2 ^ 32 div 256 * 256"
    by (simp add: ROUND_UP_TO_MULTIPLE_OF_BLOCK_SIZE_def round_down_value e)
  have "unat a + 255 < 2 ^ 32"
  proof (rule ccontr)
    assume "\<not> unat a + 255 < 2 ^ 32"
    then have "(unat a + 255) mod 2 ^ 32 = unat a + 255 - 2 ^ 32" using a by (simp add: mod_if)
    then have "(unat a + 255) mod 2 ^ 32 div 256 = 0" using a by simp
    then show False using assms u by (simp add: unat_eq_zero)
  qed
  then have "unat (ROUND_UP_TO_MULTIPLE_OF_BLOCK_SIZE a) = (unat a + 255) div 256 * 256" using u by simp
  then show ?thesis by (simp add: word_le_nat_alt)
qed

lemma EnsureFreeHandles_cases:
  assumes sz: "size_ok b" and more: "n > ui32FreeHandCount b"
  obtains (full) "EnsureFreeHandles n b = Some (PVRSRV_ERROR_OUT_OF_MEMORY, b)"
  | (grow) c where "EnsureFreeHandles n b = ReallocHandleArray c b" "ui32TotalHandCount b < c" "c mod HANDLE_BLOCK_SIZE = 0"
      "c \<le> ui32MaxIndexPlusOne b" "n - ui32FreeHandCount b \<le> c - ui32TotalHandCount b"
proof -
  let ?t = "ui32TotalHandCount b" and ?mx = "ui32MaxIndexPlusOne b" and ?d = "n - ui32FreeHandCount b"
  have sz: "?t mod HANDLE_BLOCK_SIZE = 0" "?mx mod HANDLE_BLOCK_SIZE = 0" "?t \<le> ?mx" using sz by (simp_all add: size_ok_def)
  let ?r = "ROUND_UP_TO_MULTIPLE_OF_BLOCK_SIZE ?d" let ?c = "?t + ?r"
  have rm: "?r mod HANDLE_BLOCK_SIZE = 0" by (simp add: ROUND_UP_TO_MULTIPLE_OF_BLOCK_SIZE_def round_down_mod)
  have dp: "?d \<noteq> 0" using more by auto
  consider (fits) "\<not> (?c > ?mx \<or> ?c \<le> ?t)" | (small) "?c > ?mx \<or> ?c \<le> ?t" "?mx - ?t < ?d" | (rest) "?c > ?mx \<or> ?c \<le> ?t" "\<not> ?mx - ?t < ?d"
    by blast
  then show thesis
  proof cases
    case fits
    have "?r \<noteq> 0" using fits by auto
    then have "?d \<le> ?c - ?t" using round_up_ge by simp
    then show thesis
      using fits more by (intro grow [of ?c]) (auto simp: EnsureFreeHandles_def IncreaseHandleArraySize_def Let_def block_add_mod [OF sz(1) rm])
  next
    case small
    then show thesis using more by (intro full) (simp add: EnsureFreeHandles_def IncreaseHandleArraySize_def Let_def)
  next
    case rest
    have "?t \<noteq> ?mx" using rest(2) dp by (auto simp: word_gt_0)
    then show thesis
      using rest more sz by (intro grow [of ?mx]) (auto simp: EnsureFreeHandles_def IncreaseHandleArraySize_def Let_def not_less)
  qed
qed

text \<open>\<open>EnsureFreeHandles\<close> either fails and leaves the base as it was, or there are as many free handles as
  asked for.\<close>

lemma EnsureFreeHandles_inv:
  assumes inv: "hb_inv F s X fl bl K d b" and ff: "fl = [] \<or> ui32FirstFreeIndex b \<noteq> 0"
  obtains (ok) fl' b' where "EnsureFreeHandles n b = Some (PVRSRV_OK, b')" "hb_inv F s X fl' bl K d b'" "same_base b b'"
      "unat n \<le> length fl'" "set fl \<subseteq> set fl'" "used b' fl' = used b fl" "prefix fl fl'"
      "ui32FirstBatchIndexPlusOne b' = ui32FirstBatchIndexPlusOne b"
      "\<forall>j < ui32TotalHandCount b. data_of (hands b' j) = data_of (hands b j)"
      "\<forall>j. ui32TotalHandCount b \<le> j \<and> j < ui32TotalHandCount b' \<longrightarrow> h_eType (hands b' j) = PVRSRV_HANDLE_TYPE_NONE"
  | (oom) e s' where "EnsureFreeHandles n b = Some (e, b\<lparr>hb_os := s'\<rparr>)" "e \<noteq> PVRSRV_OK"
      "hb_inv F s X fl bl K d (b\<lparr>hb_os := s'\<rparr>)"
proof -
  note P = hb_invD [OF inv]
  have cnt: "unat (ui32FreeHandCount b) = length fl"
  proof -
    have "unat (ui32TotalHandCount b) < 2 ^ LENGTH(32)" by (rule unsigned_less)
    then have "length fl < 2 ^ 32" using free_count_zero(2) [OF P(3)] by simp
    then show ?thesis using P(3) by (simp add: free_ok_def unat_of_nat)
  qed
  let ?t = "ui32TotalHandCount b" and ?mx = "ui32MaxIndexPlusOne b" and ?d = "n - ui32FreeHandCount b"
  show thesis
  proof (cases "n > ui32FreeHandCount b")
    case False
    show thesis
    proof (rule ok)
      show "EnsureFreeHandles n b = Some (PVRSRV_OK, b)" using False by (simp add: EnsureFreeHandles_def)
    qed (use inv False cnt in \<open>auto simp: same_base_def word_less_nat_alt word_le_nat_alt not_less\<close>)
  next
    case more: True
    have ud: "unat ?d = unat n - length fl" using more cnt by (simp add: unat_sub order.strict_implies_order)
    have go: thesis if E: "EnsureFreeHandles n b = ReallocHandleArray c b"
      and c: "?t < c" "c mod HANDLE_BLOCK_SIZE = 0" "c \<le> ?mx" "?d \<le> c - ?t" for c
    proof (rule ReallocHandleArray_grow [OF inv ff c(1-3)])
      fix b' assume R: "ReallocHandleArray c b = Some (PVRSRV_OK, b')" and I: "hb_inv F s X (fl @ new_indices ?t c) bl K d b'"
        and sb: "same_base b b'" "ui32TotalHandCount b' = c" "ui32FirstBatchIndexPlusOne b' = ui32FirstBatchIndexPlusOne b"
        and dt: "\<forall>j < ?t. data_of (hands b' j) = data_of (hands b j)"
        and ty: "\<forall>j. ?t \<le> j \<and> j < c \<longrightarrow> h_eType (hands b' j) = PVRSRV_HANDLE_TYPE_NONE"
      have lt: "\<forall>i \<in> set fl. i < ?t" using P(3) by (simp add: free_ok_def)
      have "unat ?d \<le> length (new_indices ?t c)" unfolding new_indices_ends(4) [OF c(1)] using c(4) by (simp add: word_le_nat_alt)
      then have l: "unat n \<le> length (fl @ new_indices ?t c)" using ud by simp
      have u: "used b' (fl @ new_indices ?t c) = used b fl"
        using sb(2) lt c(1) unfolding used_def set_append set_word_upt by auto
      have E': "EnsureFreeHandles n b = Some (PVRSRV_OK, b')" using E R by simp
      have ty': "\<forall>j. ?t \<le> j \<and> j < ui32TotalHandCount b' \<longrightarrow> h_eType (hands b' j) = PVRSRV_HANDLE_TYPE_NONE" using ty sb(2) by simp
      show thesis by (rule ok [OF E' I sb(1) l _ u _ sb(3) dt ty']) simp_all
    next
      fix e s' assume R: "ReallocHandleArray c b = Some (e, b\<lparr>hb_os := s'\<rparr>)" "e \<noteq> PVRSRV_OK" "hb_inv F s X fl bl K d (b\<lparr>hb_os := s'\<rparr>)"
      show thesis by (rule oom [OF trans [OF E R(1)] R(2,3)])
    qed
    show thesis
    proof (rule EnsureFreeHandles_cases [OF P(2) more])
      assume "EnsureFreeHandles n b = Some (PVRSRV_ERROR_OUT_OF_MEMORY, b)"
      then have "EnsureFreeHandles n b = Some (PVRSRV_ERROR_OUT_OF_MEMORY, b\<lparr>hb_os := hb_os b\<rparr>)" by simp
      then show thesis by (rule oom) (use inv in auto)
    qed (rule go)
  qed
qed

section \<open>Allocating a handle\<close>

text \<open>The invariant without the hash table, and the table with handle \<open>i\<close> filed under the key \<open>k\<close>: between
  the insertion of a private handle and its adoption the two disagree.\<close>

definition hb_rest ::
  "IMG_UINTPTR_T multiset \<Rightarrow> IMG_UINT32 \<Rightarrow> IMG_UINT32 list \<Rightarrow> IMG_UINT32 list
    \<Rightarrow> (IMG_UINT32 \<Rightarrow> IMG_UINT32 list) \<Rightarrow> (IMG_UINT32 \<Rightarrow> nat) \<Rightarrow> HANDLE_BASE \<Rightarrow> bool" where
  "hb_rest F s fl bl K d b \<longleftrightarrow>
     unbatched bl b \<and> size_ok b \<and> free_ok b fl \<and> links_ok (hands b) (used b fl) K d \<and>
     hmem_ok F b \<and> batch_ok s fl bl b \<and>
     (\<forall>i \<in> used b fl. h_eType (hands b i) = PVRSRV_HANDLE_TYPE_NONE \<longrightarrow>
        K i = [] \<and> sSiblings (hands b i) = HandleListInit i IMG_NULL)"

lemma hb_inv_rest: "hb_inv F s X fl bl K d b \<longleftrightarrow> hb_rest F s fl bl K d b \<and> htab_ok b X"
  by (auto simp: hb_inv_def hb_rest_def)

definition htab_for :: "IMG_UINTPTR_T list \<Rightarrow> IMG_UINT32 \<Rightarrow> HANDLE_BASE \<Rightarrow> bool" where
  "htab_for k i b \<longleftrightarrow> (case psHashTab b of None \<Rightarrow> False | Some t \<Rightarrow>
     hash_ok t \<and> (\<forall>k. length k = 3 \<longrightarrow> key_ok t k) \<and>
     (\<forall>k' v. hash_map t k' = Some v \<longleftrightarrow>
        (\<exists>j \<in> hashed b {}. k' = (if j = i then k else key_of (hands b j)) \<and> v = INDEX_TO_HANDLE j)))"

lemma htab_for_ok: "htab_for (key_of (hands b i)) i b \<Longrightarrow> htab_ok b {}"
  unfolding htab_for_def htab_ok_def by (auto split: option.splits)

lemma htab_for_multi:
  assumes "htab_ok b {}" "TEST_FLAG (h_eFlag (hands b i)) PVRSRV_HANDLE_ALLOC_FLAG_MULTI"
  shows "htab_for k i b"
proof -
  have e: "(\<exists>j \<in> hashed b {}. k' = (if j = i then k else key_of (hands b j)) \<and> v = INDEX_TO_HANDLE j) \<longleftrightarrow>
    (\<exists>j \<in> hashed b {}. k' = key_of (hands b j) \<and> v = INDEX_TO_HANDLE j)" for k' v
    using assms(2) by (intro bex_cong) (auto simp: hashed_def)
  show ?thesis using assms(1) unfolding htab_for_def htab_ok_def e .
qed

lemma htab_for_cong:
  assumes "htab_for k i b" "psHashTab b' = psHashTab b" "hashed b' {} = hashed b {}"
    and "\<And>j. j \<in> hashed b {} \<Longrightarrow> j \<noteq> i \<Longrightarrow> key_of (hands b' j) = key_of (hands b j)"
  shows "htab_for k i b'"
proof -
  have e: "(\<exists>j \<in> hashed b {}. k' = (if j = i then k else key_of (hands b' j)) \<and> v = INDEX_TO_HANDLE j) \<longleftrightarrow>
    (\<exists>j \<in> hashed b {}. k' = (if j = i then k else key_of (hands b j)) \<and> v = INDEX_TO_HANDLE j)" for k' v
    using assms(4) by (intro bex_cong) auto
  show ?thesis using assms(1) unfolding htab_for_def assms(2,3) e .
qed

text \<open>The structure of a handle that has just been allocated.\<close>

definition fresh_handle ::
  "IMG_UINT32 \<Rightarrow> IMG_UINT32 \<Rightarrow> IMG_UINT32 \<Rightarrow> IMG_UINTPTR_T \<Rightarrow> PVRSRV_HANDLE_TYPE \<Rightarrow> PVRSRV_HANDLE_ALLOC_FLAG \<Rightarrow> sHandle" where
  "fresh_handle nx f i pvData eType eFlag =
     \<lparr>h_eType = eType, h_pvData = pvData, ui32NextIndexPlusOne = nx, eInternalFlag = f, h_eFlag = eFlag,
      sChildren = HandleListInit i (INDEX_TO_HANDLE i), sSiblings = HandleListInit i IMG_NULL\<rparr>"

lemma fresh_handle_simps [simp]:
  "h_eType (fresh_handle nx f i p t g) = t" "h_pvData (fresh_handle nx f i p t g) = p"
  "ui32NextIndexPlusOne (fresh_handle nx f i p t g) = nx" "eInternalFlag (fresh_handle nx f i p t g) = f"
  "h_eFlag (fresh_handle nx f i p t g) = g" "sChildren (fresh_handle nx f i p t g) = HandleListInit i (INDEX_TO_HANDLE i)"
  "sSiblings (fresh_handle nx f i p t g) = HandleListInit i IMG_NULL" "ParentHandle (fresh_handle nx f i p t g) = IMG_NULL"
  by (simp_all add: fresh_handle_def ParentHandle_def HandleListInit_def)

text \<open>A new handle is a new leaf.\<close>

abbreviation deepen :: "IMG_UINT32 \<Rightarrow> (IMG_UINT32 \<Rightarrow> nat) \<Rightarrow> IMG_UINT32 \<Rightarrow> nat" where
  "deepen i d \<equiv> (\<lambda>j. if j = i then 0 else Suc (d j))"

lemma links_ok_new:
  assumes ok: "links_ok h A K d" and i: "i \<notin> A"
  shows "links_ok (h(i := fresh_handle nx f i p t g)) (insert i A) (K(i := [])) (deepen i d)"
proof -
  let ?h = "h(i := fresh_handle nx f i p t g)"
  have kid: "j \<in> A \<and> j \<noteq> i \<and> d j < d q" if "q \<in> A" "j \<in> set (K q)" for q j using links_ok_kid [OF ok that] i by auto
  have same: "ring ?h q (K q) = ring h q (K q)" if "q \<in> A" for q
    by (rule ring_cong) (use kid [OF that] that i in \<open>auto simp: link_def\<close>)
  show ?thesis
    unfolding links_ok_def
  proof (intro conjI ballI)
    fix q assume q: "q \<in> insert i A"
    show "hl_hParent (sChildren (?h q)) = INDEX_TO_HANDLE q"
      using q ok by (cases "q = i") (auto simp: links_ok_def HandleListInit_def)
    show "ring ?h q ((K(i := [])) q)"
      using q ok same by (cases "q = i") (auto simp: links_ok_def ring_def link_def HandleListInit_def)
    show "distinct ((K(i := [])) q)" using q ok by (cases "q = i") (auto simp: links_ok_def)
    fix j assume j: "j \<in> set ((K(i := [])) q)"
    then have qA: "q \<in> A" "q \<noteq> i" "j \<in> set (K q)" using q by (auto split: if_splits)
    then show "j \<in> insert i A" "deepen i d j < deepen i d q" "ParentHandle (?h j) = INDEX_TO_HANDLE q"
      using kid [OF qA(1,3)] links_ok_kid [OF ok qA(1,3)] by auto
  next
    fix j assume j: "j \<in> insert i A"
    show "sSiblings (?h j) = HandleListInit j IMG_NULL \<or> (\<exists>q \<in> insert i A. j \<in> set ((K(i := [])) q))"
      using j ok i unfolding links_ok_def by (cases "j = i") (auto split: if_splits)
  qed
qed

text \<open>Between two operations the search of a base with purging starts at the first block.\<close>

definition settled :: "HANDLE_BASE \<Rightarrow> bool" where
  "settled b \<longleftrightarrow> (bPurgingEnabled b \<longrightarrow> ui32FirstFreeIndex b = 0)"

lemma card_free_in_Cons:
  assumes "i \<notin> set fl"
  shows "card (free_in (i # fl) k) = card (free_in fl k) + (if INDEX_TO_BLOCK_INDEX i = k then 1 else 0)"
proof -
  have "free_in (i # fl) k = free_in (fl @ [i]) k" by (auto simp: free_in_def)
  then show ?thesis using card_free_in_snoc [OF assms] by simp
qed

lemma take_free_ok:
  assumes f: "free_ok b (i # fl)" and st: "settled b"
  obtains c l x where "take_free i (hands b i) b = b\<lparr>ui32FreeHandCount := of_nat (length fl), ui32FreeHandBlockCount := c,
      ui32LastFreeIndexPlusOne := l, ui32FirstFreeIndex := x\<rparr>"
    "\<forall>h b'. hands b' = (hands b)(i := h) \<and> ui32FreeHandCount b' = of_nat (length fl) \<and> ui32LastFreeIndexPlusOne b' = l \<and>
      ui32FirstFreeIndex b' = x \<and> ui32TotalHandCount b' = ui32TotalHandCount b \<and> ui32FreeHandBlockCount b' = c \<and>
      bPurgingEnabled b' = bPurgingEnabled b \<longrightarrow> free_ok b' fl"
    "bPurgingEnabled b \<longrightarrow> x = 0"
proof -
  have c: "ui32FreeHandCount b - 1 = of_nat (length fl)" using f by (simp add: free_ok_def)
  have n: "i \<notin> set fl" using f by (simp add: free_ok_def)
  let ?c = "(ui32FreeHandBlockCount b)(INDEX_TO_BLOCK_INDEX i := ui32FreeHandBlockCount b (INDEX_TO_BLOCK_INDEX i) - 1)"
  show thesis
  proof (cases "bPurgingEnabled b")
    case True
    have so: "search_ok b (i # fl)" using f True by (simp add: free_ok_def)
    have r: "take_free i (hands b i) b = b\<lparr>ui32FreeHandCount := of_nat (length fl), ui32FreeHandBlockCount := ?c,
        ui32LastFreeIndexPlusOne := ui32LastFreeIndexPlusOne b, ui32FirstFreeIndex := 0\<rparr>"
      using True c st by (cases b) (simp add: take_free_def settled_def Let_def)
    show thesis
    proof (rule that [OF r])
      show "\<forall>h b'. hands b' = (hands b)(i := h) \<and> ui32FreeHandCount b' = of_nat (length fl) \<and>
          ui32LastFreeIndexPlusOne b' = ui32LastFreeIndexPlusOne b \<and> ui32FirstFreeIndex b' = 0 \<and>
          ui32TotalHandCount b' = ui32TotalHandCount b \<and> ui32FreeHandBlockCount b' = ?c \<and>
          bPurgingEnabled b' = bPurgingEnabled b \<longrightarrow> free_ok b' fl"
        using f True n so by (auto simp: free_ok_def search_ok_def card_free_in_Cons)
    qed simp
  next
    case False
    have "length (i # fl) \<le> unat (ui32TotalHandCount b)" by (rule free_count_zero(2) [OF f])
    moreover have "unat (ui32TotalHandCount b) < 2 ^ LENGTH(32)" by (rule unsigned_less)
    ultimately have "length fl < 2 ^ 32" by simp
    then have "unat (of_nat (length fl) :: IMG_UINT32) = length fl" by (simp add: unat_of_nat)
    then have z: "(of_nat (length fl) :: IMG_UINT32) = 0 \<longleftrightarrow> fl = []" by (metis length_0_conv unat_eq_zero)
    let ?l = "if fl = [] then 0 else ui32LastFreeIndexPlusOne b"
    let ?x = "if fl = [] then 0 else if ui32NextIndexPlusOne (hands b i) = 0 then i + 1 else ui32NextIndexPlusOne (hands b i) - 1"
    have r: "take_free i (hands b i) b = b\<lparr>ui32FreeHandCount := of_nat (length fl), ui32FreeHandBlockCount := ?c,
        ui32LastFreeIndexPlusOne := ?l, ui32FirstFreeIndex := ?x\<rparr>"
      using False c z by (auto simp: take_free_def Let_def)
    have fr: "free_ok b' fl"
      if b': "hands b' = (hands b)(i := h)" "ui32FreeHandCount b' = of_nat (length fl)" "ui32LastFreeIndexPlusOne b' = ?l"
        "ui32FirstFreeIndex b' = ?x" "ui32TotalHandCount b' = ui32TotalHandCount b" "bPurgingEnabled b' = bPurgingEnabled b" for h b'
    proof -
      have "chain ((hands b)(i := h)) fl = chain (hands b) fl" by (rule chain_cong) (use n in auto)
      moreover have "chain (hands b) fl" using f False by (cases fl) (auto simp: free_ok_def list_ok_def)
      ultimately show ?thesis using f b' n False by (cases fl) (auto simp: free_ok_def list_ok_def)
    qed
    show thesis by (rule that [OF r]) (use fr False in auto)
  qed
qed

section \<open>Finding a free structure\<close>

lemma search_block_finds:
  "\<exists>m < n. HANDLE_STRUCT_IS_FREE (hands b (j + of_nat m)) \<Longrightarrow>
     (\<exists>m < n. search_block b n j p = (j + of_nat m, Some (j + of_nat m)) \<and> HANDLE_STRUCT_IS_FREE (hands b (j + of_nat m))) \<and>
     search_block b n j p = search_block b n j q"
proof (induction n arbitrary: j p q)
  case (Suc n)
  show ?case
  proof (cases "HANDLE_STRUCT_IS_FREE (hands b j)")
    case True
    then show ?thesis by (auto intro!: exI [of _ 0])
  next
    case False
    obtain m where m: "m < Suc n" "HANDLE_STRUCT_IS_FREE (hands b (j + of_nat m))" using Suc.prems by blast
    then obtain m' where m': "m = Suc m'" using False by (cases m) auto
    then have "\<exists>m < n. HANDLE_STRUCT_IS_FREE (hands b (j + 1 + of_nat m))" using m by (auto simp: add.assoc)
    from Suc.IH [OF this, of "Some j" "Some j"] obtain k where
      k: "k < n" "search_block b n (j + 1) (Some j) = (j + 1 + of_nat k, Some (j + 1 + of_nat k))" "HANDLE_STRUCT_IS_FREE (hands b (j + 1 + of_nat k))"
      by blast
    then show ?thesis using False by (auto simp: add.assoc intro!: exI [of _ "Suc k"])
  qed
qed simp

definition has_free :: "HANDLE_BASE \<Rightarrow> IMG_UINT32 \<Rightarrow> bool" where
  "has_free b k \<longleftrightarrow> (\<exists>m < 256. HANDLE_STRUCT_IS_FREE (hands b (BLOCK_INDEX_TO_INDEX k + of_nat m)))"

text \<open>The outer loop does not end at the first block with a free structure, so the last such block decides.\<close>

lemma search_blocks_last:
  "(\<And>k. k \<in> set ks \<Longrightarrow> ui32FreeHandBlockCount b k \<noteq> 0 \<Longrightarrow> has_free b k) \<Longrightarrow>
   search_blocks b ks r =
     (let ns = filter (\<lambda>k. ui32FreeHandBlockCount b k \<noteq> 0) ks
      in if ns = [] then r else search_block b 256 (BLOCK_INDEX_TO_INDEX (last ns)) None)"
proof (induction ks arbitrary: r)
  case (Cons k ks)
  have n: "unat HANDLE_BLOCK_SIZE = 256" by (simp add: HANDLE_BLOCK_SIZE_def HANDLE_BLOCK_SHIFT_def)
  have IH: "search_blocks b ks r = (let ns = filter (\<lambda>k. ui32FreeHandBlockCount b k \<noteq> 0) ks
      in if ns = [] then r else search_block b 256 (BLOCK_INDEX_TO_INDEX (last ns)) None)" for r
    by (rule Cons.IH) (use Cons.prems in auto)
  show ?case
  proof (cases "ui32FreeHandBlockCount b k = 0")
    case False
    then have "has_free b k" using Cons.prems by simp
    then have "search_block b 256 (BLOCK_INDEX_TO_INDEX k) p = search_block b 256 (BLOCK_INDEX_TO_INDEX k) None" for p
      using search_block_finds [of 256 b "BLOCK_INDEX_TO_INDEX k" p None] unfolding has_free_def by blast
    then show ?thesis using False IH n by (simp add: Let_def)
  qed (use IH in \<open>simp add: Let_def\<close>)
qed simp

lemma InitKey_length [simp]: "length (InitKey a t p) = 3"
  by (simp add: InitKey_def)

lemma FindHandle_eq:
  assumes "htab_ok b X"
  shows "FindHandle pvData eType hP b = Some IMG_NULL \<longleftrightarrow> (\<forall>j \<in> hashed b X. key_of (hands b j) \<noteq> InitKey pvData eType hP)"
    "i \<in> hashed b X \<Longrightarrow> FindHandle pvData eType hP b = Some (INDEX_TO_HANDLE i) \<longleftrightarrow> key_of (hands b i) = InitKey pvData eType hP"
    "FindHandle pvData eType hP b = Some hF \<Longrightarrow> hF \<noteq> IMG_NULL \<Longrightarrow>
      \<exists>i \<in> hashed b X. hF = INDEX_TO_HANDLE i \<and> key_of (hands b i) = InitKey pvData eType hP"
    "FindHandle pvData eType hP b \<noteq> None"
proof -
  obtain T where T: "psHashTab b = Some T" "hash_ok T" "\<And>k. length k = 3 \<Longrightarrow> key_ok T k"
    "\<And>k v. hash_map T k = Some v \<longleftrightarrow> (\<exists>i \<in> hashed b X. k = key_of (hands b i) \<and> v = INDEX_TO_HANDLE i)"
    using assms by (auto simp: htab_ok_def split: option.splits)
  let ?k = "InitKey pvData eType hP"
  have k: "key_ok T ?k" by (rule T(3)) simp
  have F: "FindHandle pvData eType hP b = Some (HASH_Retrieve_Extended T ?k)" using T(1) by (simp add: FindHandle_def)
  have nz: "INDEX_TO_HANDLE j \<noteq> 0" for j using INDEX_TO_HANDLE_nonnull [of j] by simp
  show "FindHandle pvData eType hP b = Some IMG_NULL \<longleftrightarrow> (\<forall>j \<in> hashed b X. key_of (hands b j) \<noteq> ?k)"
    using F ht.retrieve_eq_0 [OF T(2) k] T(4) by (metis not_None_eq option.inject)
  show "FindHandle pvData eType hP b = Some (INDEX_TO_HANDLE i) \<longleftrightarrow> key_of (hands b i) = ?k" if "i \<in> hashed b X"
    using F ht.retrieve_iff [OF T(2) k nz] T(4) that by auto
  show "\<exists>i \<in> hashed b X. hF = INDEX_TO_HANDLE i \<and> key_of (hands b i) = ?k"
    if "FindHandle pvData eType hP b = Some hF" "hF \<noteq> IMG_NULL"
    using F ht.retrieve_iff [OF T(2) k, of hF] T(4) that by auto
  show "FindHandle pvData eType hP b \<noteq> None" using F by simp
qed

lemma hash_in_ok:
  assumes t: "htab_ok b {}" and m: "hmem_ok F b" and T: "psHashTab b = Some T" and i: "i \<notin> hashed b {}"
    and k: "length k = 3" "hash_map T k = None" and r: "HASH_Insert_Extended T k (INDEX_TO_HANDLE i) (hb_os b) = (ok, t', s')"
  shows "hmem_ok F (b\<lparr>psHashTab := Some t', hb_os := s'\<rparr>)" "\<not> ok \<Longrightarrow> htab_ok (b\<lparr>psHashTab := Some t', hb_os := s'\<rparr>) {}"
    "ok \<Longrightarrow> psHashTab b' = Some t' \<Longrightarrow> hashed b' {} = insert i (hashed b {}) \<Longrightarrow>
      (\<And>j. j \<in> hashed b {} \<Longrightarrow> key_of (hands b' j) = key_of (hands b j)) \<Longrightarrow> htab_for k i b'"
proof -
  have T': "hash_ok T" "\<And>k. length k = 3 \<Longrightarrow> key_ok T k"
    "\<And>k v. hash_map T k = Some v \<longleftrightarrow> (\<exists>i \<in> hashed b {}. k = key_of (hands b i) \<and> v = INDEX_TO_HANDLE i)"
    using t T by (auto simp: htab_ok_def)
  have n: "INDEX_TO_HANDLE i \<noteq> 0" using INDEX_TO_HANDLE_nonnull [of i] by simp
  note C = htm.insert_client [OF T'(1) T'(2) [OF k(1)] k(2) n r]
  have M: "blocks s' = hash_blocks t' + ({#psBase b#} + (if psHandleArray b = IMG_NULL then {#} else {#psHandleArray b#}) +
        mset (psHandleBlocks b) + F)" "os_ok s'" "hash_ok t'" "key_ok t' = key_ok T"
      "hash_map t' = (if ok then (hash_map T)(k \<mapsto> INDEX_TO_HANDLE i) else hash_map T)"
    using C m T by (auto simp: hmem_ok_def)
  show "hmem_ok F (b\<lparr>psHashTab := Some t', hb_os := s'\<rparr>)" using m M by (simp add: hmem_ok_def)
  show "htab_ok (b\<lparr>psHashTab := Some t', hb_os := s'\<rparr>) {}" if "\<not> ok"
    using M T' that by (simp add: htab_ok_def hashed_def)
  assume b': "ok" "psHashTab b' = Some t'" "hashed b' {} = insert i (hashed b {})"
    "\<And>j. j \<in> hashed b {} \<Longrightarrow> key_of (hands b' j) = key_of (hands b j)"
  have e: "hash_map t' k' = Some v \<longleftrightarrow> (\<exists>j \<in> hashed b' {}. k' = (if j = i then k else key_of (hands b' j)) \<and> v = INDEX_TO_HANDLE j)" for k' v
  proof -
    have "key_of (hands b j) \<noteq> k" if "j \<in> hashed b {}" for j using T'(3) k(2) that by force
    then show ?thesis unfolding b'(3) using b'(1,4) i by (auto simp: M(5) T'(3)) metis+
  qed
  show "htab_for k i b'" unfolding htab_for_def b'(2) using M(3,4) T'(2) e by simp
qed

text \<open>Everything but the hash table after handle \<open>i\<close>, the first of the free list, has been taken.\<close>

lemma new_handle_rest:
  assumes r: "hb_rest F s (i # fl) bl K d b" and t: "eType \<noteq> PVRSRV_HANDLE_TYPE_NONE"
    and f: "free_ok b' fl" and h: "hands b' = (hands b)(i := fresh_handle nx g i pvData eType eFlag)"
    and e: "bPurgingEnabled b' = bPurgingEnabled b" "ui32TotalHandCount b' = ui32TotalHandCount b" "ui32MaxIndexPlusOne b' = ui32MaxIndexPlusOne b"
      "HANDLES_BATCHED b' = HANDLES_BATCHED b"
    and m: "hmem_ok F b'" and g: "g = 0 \<and> nx = 0 \<and> s' = s \<and> bl' = bl \<or> HANDLES_BATCHED b \<and> g = 1 \<and> nx = s \<and> s' = i + 1 \<and> bl' = i # bl"
  shows "hb_rest F s' fl bl' (K(i := [])) (deepen i d) b'" "used b' fl = insert i (used b (i # fl))"
proof -
  have R: "size_ok b" "free_ok b (i # fl)" "links_ok (hands b) (used b (i # fl)) K d" "batch_ok s (i # fl) bl b" "unbatched bl b"
    "\<forall>j \<in> used b (i # fl). h_eType (hands b j) = PVRSRV_HANDLE_TYPE_NONE \<longrightarrow> K j = [] \<and> sSiblings (hands b j) = HandleListInit j IMG_NULL"
    using r by (simp_all add: hb_rest_def)
  have i: "i < ui32TotalHandCount b" "i \<notin> set fl" "i \<notin> used b (i # fl)" using R(2) by (auto simp: free_ok_def used_def)
  show u: "used b' fl = insert i (used b (i # fl))" using i e(2) by (auto simp: used_def)
  have B: "bchain (hands b) s bl" "distinct bl" "set bl \<subseteq> used b (i # fl)"
    "\<And>j. j \<in> used b (i # fl) \<Longrightarrow> mark_ok bl j (hands b j)"
    using R(4) by (auto simp: batch_ok_def)
  have ib: "i \<notin> set bl" using B(3) i(3) by blast
  have "bchain (hands b') s bl = bchain (hands b) s bl" by (rule bchain_cong) (use ib h in auto)
  then have c: "bchain (hands b') s bl" using B(1) by simp
  have mk: "mark_ok bl' j (hands b' j)" if "j \<in> insert i (used b (i # fl))" for j
    using that g t B(4) [of j] ib by (cases "j = i") (auto simp: h mark_ok_def split: if_splits)
  have "batch_ok s' fl bl' b'"
    unfolding batch_ok_def u using g c B(2,3) ib mk i(3) by (auto simp: h)
  moreover have "links_ok (hands b') (used b' fl) (K(i := [])) (deepen i d)"
    unfolding u h by (rule links_ok_new [OF R(3) i(3)])
  ultimately show "hb_rest F s' fl bl' (K(i := [])) (deepen i d) b'"
    using e f m g R(1,5,6) i(3) t unfolding hb_rest_def u by (auto simp: size_ok_def h unbatched_def)
qed

text \<open>The hash insertion of \<open>AllocHandle\<close> and the rest of it, as two steps.\<close>

definition hash_in ::
  "IMG_UINTPTR_T \<Rightarrow> PVRSRV_HANDLE_TYPE \<Rightarrow> PVRSRV_HANDLE_ALLOC_FLAG \<Rightarrow> IMG_HANDLE \<Rightarrow> IMG_UINT32 \<Rightarrow> HANDLE_BASE \<Rightarrow> (bool \<times> HANDLE_BASE) option" where
  "hash_in pvData eType eFlag hParent i b =
     (if TEST_FLAG eFlag PVRSRV_HANDLE_ALLOC_FLAG_MULTI then Some (True, b)
      else map_option (\<lambda>t. case HASH_Insert_Extended t (InitKey pvData eType hParent) (INDEX_TO_HANDLE i) (hb_os b) of
             (ok, t', s') \<Rightarrow> (ok, b\<lparr>psHashTab := Some t', hb_os := s'\<rparr>)) (psHashTab b))"

definition set_up_handle ::
  "IMG_UINTPTR_T \<Rightarrow> PVRSRV_HANDLE_TYPE \<Rightarrow> PVRSRV_HANDLE_ALLOC_FLAG \<Rightarrow> IMG_UINT32 \<Rightarrow> HANDLE_BASE \<Rightarrow> HANDLE_BASE" where
  "set_up_handle pvData eType eFlag i b =
     (let b1 = take_free i (hands b i) b
      in if HANDLES_BATCHED b
         then b1\<lparr>hands := (hands b)(i := fresh_handle (ui32FirstBatchIndexPlusOne b) 1 i pvData eType eFlag),
                 ui32FirstBatchIndexPlusOne := i + 1\<rparr>
         else b1\<lparr>hands := (hands b)(i := fresh_handle 0 0 i pvData eType eFlag)\<rparr>)"

lemma take_free_frame [simp]:
  "hands (take_free i h b) = hands b" "ui32TotalHandCount (take_free i h b) = ui32TotalHandCount b"
  "ui32HandBatchSize (take_free i h b) = ui32HandBatchSize b"
  "ui32FirstBatchIndexPlusOne (take_free i h b) = ui32FirstBatchIndexPlusOne b"
  "ui32BatchHandAllocFailures (take_free i h b) = ui32BatchHandAllocFailures b"
  "ui32MaxIndexPlusOne (take_free i h b) = ui32MaxIndexPlusOne b" "psHashTab (take_free i h b) = psHashTab b"
  "psBase (take_free i h b) = psBase b" "bPurgingEnabled (take_free i h b) = bPurgingEnabled b"
  "hb_os (take_free i h b) = hb_os b" "psHandleArray (take_free i h b) = psHandleArray b" "psHandleBlocks (take_free i h b) = psHandleBlocks b"
  by (simp_all add: take_free_def Let_def)

text \<open>Between the search and the hash insertion a base with purging forgets where the search started.\<close>

definition reset_first :: "HANDLE_BASE \<Rightarrow> HANDLE_BASE" where
  "reset_first b = (if bPurgingEnabled b then b\<lparr>ui32FirstFreeIndex := 0\<rparr> else b)"

lemma reset_first_frame [simp]:
  "hands (reset_first b) = hands b" "ui32TotalHandCount (reset_first b) = ui32TotalHandCount b"
  "ui32FirstBatchIndexPlusOne (reset_first b) = ui32FirstBatchIndexPlusOne b" "settled (reset_first b)"
  "bPurgingEnabled (reset_first b) = bPurgingEnabled b" "ui32FreeHandCount (reset_first b) = ui32FreeHandCount b"
  "psHashTab (reset_first b) = psHashTab b" "hb_os (reset_first b) = hb_os b" "HANDLES_BATCHED (reset_first b) = HANDLES_BATCHED b"
  by (simp_all add: reset_first_def settled_def HANDLES_BATCHED_def)

lemma block_split: "BLOCK_INDEX_TO_INDEX (INDEX_TO_BLOCK_INDEX i) + of_nat (unat i mod 256) = i"
proof -
  have "(of_nat (unat i mod 256) :: IMG_UINT32) = i mod 256" unfolding word_arith_nat_mod by simp
  moreover have "i div 256 * 256 + i mod 256 = i" by (rule div_mult_mod_eq)
  ultimately show ?thesis
    by (simp add: BLOCK_INDEX_TO_INDEX_def INDEX_TO_BLOCK_INDEX_def HANDLE_BLOCK_SHIFT_def push_bit_eq_mult drop_bit_eq_div)
qed

lemma block_member:
  assumes "unat k < unat c div 256" "m < 256" "unat (c :: IMG_UINT32) mod 256 = 0"
  shows "unat (BLOCK_INDEX_TO_INDEX k + of_nat m) = unat k * 256 + m" "BLOCK_INDEX_TO_INDEX k + of_nat m < c"
    "INDEX_TO_BLOCK_INDEX (BLOCK_INDEX_TO_INDEX k + of_nat m) = k"
proof -
  have c: "unat c < 2 ^ LENGTH(32)" by (rule unsigned_less)
  have lt: "unat k * 256 + m < unat c" by (rule block_nat(4) [OF assms(3,1,2)])
  have "BLOCK_INDEX_TO_INDEX k + of_nat m = of_nat (unat k * 256 + m)"
    by (simp add: BLOCK_INDEX_TO_INDEX_def HANDLE_BLOCK_SHIFT_def push_bit_eq_mult mult.commute)
  then show u: "unat (BLOCK_INDEX_TO_INDEX k + of_nat m) = unat k * 256 + m" using lt c by (simp only: unat_of_nat) simp
  then show "BLOCK_INDEX_TO_INDEX k + of_nat m < c" using lt by (simp add: word_less_nat_alt)
  show "INDEX_TO_BLOCK_INDEX (BLOCK_INDEX_TO_INDEX k + of_nat m) = k" using u assms(2) by (simp add: block_eq)
qed

lemma array_size: "size_ok b \<Longrightarrow> unat (HANDLE_ARRAY_SIZE (ui32TotalHandCount b)) = unat (ui32TotalHandCount b) div 256"
proof -
  assume sz: "size_ok b"
  let ?t = "ui32TotalHandCount b"
  have m: "unat ?t mod 256 = 0" using sz by (intro mod_block_nat) (simp add: size_ok_def)
  have "unat ?t \<le> 0x7fffff00" by (rule size_ok_bound [OF sz])
  moreover have "?t + HANDLE_BLOCK_SIZE - 1 = ?t + 255" by (simp add: HANDLE_BLOCK_SIZE_def HANDLE_BLOCK_SHIFT_def)
  ultimately have "unat (?t + HANDLE_BLOCK_SIZE - 1) = unat ?t + 255" by (simp only:) (simp add: unat_word_ariths)
  then have "unat (ROUND_UP_TO_MULTIPLE_OF_BLOCK_SIZE ?t) = (unat ?t + 255) div 256 * 256"
    by (simp add: ROUND_UP_TO_MULTIPLE_OF_BLOCK_SIZE_def round_down_value)
  then show ?thesis
    using block_nat(5) [OF m] by (simp add: HANDLE_ARRAY_SIZE_def HANDLE_BLOCK_SHIFT_def drop_bit_eq_div unat_div_distrib)
qed

lemma count_nonzero:
  assumes f: "free_ok b fl" "bPurgingEnabled b" "size_ok b" and k: "unat k < unat (ui32TotalHandCount b) div 256"
  shows "ui32FreeHandBlockCount b k \<noteq> 0 \<longleftrightarrow> (\<exists>i \<in> set fl. INDEX_TO_BLOCK_INDEX i = k)"
proof -
  have c: "ui32FreeHandBlockCount b k = of_nat (card (free_in fl k))"
    using f k by (simp add: free_ok_def search_ok_def word_less_nat_alt block_index)
  have t: "unat (ui32TotalHandCount b) < 2 ^ LENGTH(32)" by (rule unsigned_less)
  then have k24: "unat k < 2 ^ 24" using k by simp
  have "finite {i :: IMG_UINT32. INDEX_TO_BLOCK_INDEX i = k}" by simp
  then have "card (free_in fl k) \<le> 256"
    using card_mono [of "{i. INDEX_TO_BLOCK_INDEX i = k}" "free_in fl k"] card_block [OF k24] by (auto simp: free_in_def)
  then have "unat (of_nat (card (free_in fl k)) :: IMG_UINT32) = card (free_in fl k)" by (simp add: unat_of_nat)
  then have "(of_nat (card (free_in fl k)) :: IMG_UINT32) \<noteq> 0 \<longleftrightarrow> card (free_in fl k) \<noteq> 0" by (metis unat_0 unat_eq_zero)
  moreover have "finite (free_in fl k)" by (simp add: free_in_def)
  ultimately show ?thesis unfolding c by (auto simp: free_in_def)
qed

text \<open>The search of a base with purging ends at a free structure, in the last block that has one.\<close>

lemma find_free_purging:
  assumes inv: "hb_inv F s X fl bl K d b" and p: "bPurgingEnabled b" and fl: "fl \<noteq> []"
  obtains i where "find_free b = (i, Some i)" "i \<in> set fl" "\<forall>j \<in> set fl. INDEX_TO_BLOCK_INDEX j \<le> INDEX_TO_BLOCK_INDEX i"
proof -
  note P = hb_invD [OF inv]
  let ?T = "ui32TotalHandCount b" and ?ks = "map of_nat [unat (INDEX_TO_BLOCK_INDEX (ui32FirstFreeIndex b)) ..< unat (HANDLE_ARRAY_SIZE (ui32TotalHandCount b))] :: IMG_UINT32 list"
  let ?nz = "\<lambda>k. ui32FreeHandBlockCount b k \<noteq> 0"
  have so: "search_ok b fl" and fr: "\<forall>i \<in> set fl. i < ?T \<and> h_eType (hands b i) = PVRSRV_HANDLE_TYPE_NONE"
    using P(3) p by (simp_all add: free_ok_def)
  have m: "unat ?T mod 256 = 0" using P(2) by (intro mod_block_nat) (simp add: size_ok_def)
  have ks: "set ?ks = {k. INDEX_TO_BLOCK_INDEX (ui32FirstFreeIndex b) \<le> k \<and> k < HANDLE_ARRAY_SIZE ?T}" by (rule set_word_upt)
  have kT: "unat k < unat ?T div 256" if "k \<in> set ?ks" for k
    using that [unfolded ks] by (simp add: word_less_nat_alt array_size [OF P(2)])
  have free: "HANDLE_STRUCT_IS_FREE (hands b i) \<longleftrightarrow> i \<in> set fl" if "i < ?T" for i
  proof
    assume "HANDLE_STRUCT_IS_FREE (hands b i)"
    then have "h_eType (hands b i) = PVRSRV_HANDLE_TYPE_NONE" by (simp add: HANDLE_STRUCT_IS_FREE_def)
    then have "\<not> mark_ok bl i (hands b i)" using P(1) p by (simp add: mark_ok_def unbatched_def)
    then have "i \<notin> used b fl" using P(7) by (auto simp: batch_ok_def)
    then show "i \<in> set fl" using that by (simp add: used_def)
  qed (use so fr in \<open>auto simp: HANDLE_STRUCT_IS_FREE_def search_ok_def INTERNAL_HANDLE_FLAG_NONE_def\<close>)
  have hf: "has_free b k" if k: "k \<in> set ?ks" "?nz k" for k
  proof -
    obtain i where i: "i \<in> set fl" "INDEX_TO_BLOCK_INDEX i = k" using count_nonzero [OF P(3) p P(2) kT [OF k(1)]] k(2) by blast
    then have "HANDLE_STRUCT_IS_FREE (hands b i)" using free fr by blast
    then have "HANDLE_STRUCT_IS_FREE (hands b (BLOCK_INDEX_TO_INDEX k + of_nat (unat i mod 256)))" using block_split [of i] i(2) by simp
    then show ?thesis unfolding has_free_def by (intro exI [of _ "unat i mod 256"]) simp
  qed
  let ?ns = "filter ?nz ?ks"
  have inks: "INDEX_TO_BLOCK_INDEX j \<in> set ?ns" if "j \<in> set fl" "ui32FirstFreeIndex b \<le> j" for j
  proof -
    have "unat j div 256 < unat ?T div 256"
    proof -
      have "unat j < unat ?T" using fr that(1) by (simp add: word_less_nat_alt)
      then show ?thesis by (rule block_nat(3) [OF m])
    qed
    then have lt: "unat (INDEX_TO_BLOCK_INDEX j) < unat ?T div 256" by (simp add: block_index)
    moreover have "unat (ui32FirstFreeIndex b) div 256 \<le> unat j div 256" using that(2) by (simp add: word_le_nat_alt div_le_mono)
    ultimately have "INDEX_TO_BLOCK_INDEX j \<in> set ?ks"
      unfolding ks by (simp add: word_less_nat_alt word_le_nat_alt array_size [OF P(2)] block_index)
    moreover have "?nz (INDEX_TO_BLOCK_INDEX j)" using count_nonzero [OF P(3) p P(2) lt] that(1) by blast
    ultimately show ?thesis by simp
  qed
  obtain j0 where "j0 \<in> set fl" "ui32FirstFreeIndex b \<le> j0"
    using so fl unfolding search_ok_def by (metis list.set_sel(1) word_zero_le)
  then have ne: "?ns \<noteq> []" using inks by (metis empty_iff list.set(1))
  have sorted: "sorted_wrt (\<le>) ?ns"
  proof -
    have "sorted_wrt (\<le>) (map of_nat [unat a ..< unat c] :: IMG_UINT32 list)" for a c :: IMG_UINT32
      unfolding sorted_wrt_map
    proof (rule sorted_wrt_mono_rel [OF _ sorted_wrt_upt])
      fix x y assume "x \<in> set [unat a ..< unat c]" "y \<in> set [unat a ..< unat c]" "x < y"
      moreover have "unat c < 2 ^ LENGTH(32)" by (rule unsigned_less)
      ultimately show "(of_nat x :: IMG_UINT32) \<le> of_nat y" by (simp add: word_le_nat_alt unat_of_nat)
    qed
    then show ?thesis by (rule sorted_wrt_filter)
  qed
  let ?k = "last ?ns"
  have k: "?k \<in> set ?ks" "?nz ?k" using last_in_set [OF ne] by auto
  have "find_free b = search_block b 256 (BLOCK_INDEX_TO_INDEX ?k) None"
    using p ne search_blocks_last [of ?ks b, OF hf] by (simp add: find_free_def Let_def)
  moreover obtain n where n: "n < 256" "search_block b 256 (BLOCK_INDEX_TO_INDEX ?k) None = (BLOCK_INDEX_TO_INDEX ?k + of_nat n, Some (BLOCK_INDEX_TO_INDEX ?k + of_nat n))"
    "HANDLE_STRUCT_IS_FREE (hands b (BLOCK_INDEX_TO_INDEX ?k + of_nat n))"
    using search_block_finds [of 256 b "BLOCK_INDEX_TO_INDEX ?k" None None] hf [OF k] unfolding has_free_def by blast
  ultimately have ff: "find_free b = (BLOCK_INDEX_TO_INDEX ?k + of_nat n, Some (BLOCK_INDEX_TO_INDEX ?k + of_nat n))" by simp
  note B = block_member [OF kT [OF k(1)] n(1) m]
  show thesis
  proof (rule that [OF ff])
    show "BLOCK_INDEX_TO_INDEX ?k + of_nat n \<in> set fl" using free [OF B(2)] n(3) by simp
    have srt: "k' \<le> ?k" if "k' \<in> set ?ns" for k'
    proof -
      have "sorted_wrt (\<le>) (butlast ?ns @ [?k])" using sorted append_butlast_last_id [OF ne] by simp
      moreover have "k' \<in> set (butlast ?ns @ [?k])" using that append_butlast_last_id [OF ne] by simp
      ultimately show ?thesis by (auto simp: sorted_wrt_append)
    qed
    show "\<forall>j \<in> set fl. INDEX_TO_BLOCK_INDEX j \<le> INDEX_TO_BLOCK_INDEX (BLOCK_INDEX_TO_INDEX ?k + of_nat n)"
    proof
      fix j assume j: "j \<in> set fl"
      show "INDEX_TO_BLOCK_INDEX j \<le> INDEX_TO_BLOCK_INDEX (BLOCK_INDEX_TO_INDEX ?k + of_nat n)"
      proof (cases "ui32FirstFreeIndex b \<le> j")
        case True
        then show ?thesis unfolding B(3) by (intro srt inks j)
      next
        case False
        then have "INDEX_TO_BLOCK_INDEX j \<le> INDEX_TO_BLOCK_INDEX (ui32FirstFreeIndex b)"
          by (simp add: word_le_nat_alt block_index div_le_mono)
        also have "\<dots> \<le> ?k" using k(1) [unfolded ks] by simp
        finally show ?thesis unfolding B(3) .
      qed
    qed
  qed
qed

lemma AllocHandle_steps:
  assumes E: "EnsureFreeHandles 1 b = Some (PVRSRV_OK, b1)" and fi: "find_free b1 = (i, Some i)" "i < ui32TotalHandCount b1"
    and H: "hash_in pvData eType eFlag hParent i (reset_first b1) = Some (ok, b3)" "hands b3 = hands b1" "ui32TotalHandCount b3 = ui32TotalHandCount b1"
  shows "AllocHandle pvData eType eFlag hParent b =
    Some (if ok then (PVRSRV_OK, INDEX_TO_HANDLE i, set_up_handle pvData eType eFlag i b3)
          else (PVRSRV_ERROR_UNABLE_TO_ADD_HANDLE, IMG_NULL, b3))"
proof -
  have f: "hnd i b1 = Some (hands b1 i)" using fi by (simp add: hnd_def)
  have bit: "INTERNAL_HANDLE_FLAG_BATCHED = 1" by (simp add: INTERNAL_HANDLE_FLAG_BATCHED_def)
  show ?thesis
    using E f fi H
    by (simp add: AllocHandle_def hash_in_def reset_first_def [symmetric], cases "hands b1 i")
       (simp add: bit set_up_handle_def HANDLES_BATCHED_def upd_def Let_def InitChildEntry_def InitParentList_def fresh_handle_def
          SET_INTERNAL_FLAG_def INTERNAL_HANDLE_FLAG_NONE_def)
qed

text \<open>What a failed and a successful step leave of the handles that were there.\<close>

definition kept :: "IMG_UINT32 set \<Rightarrow> HANDLE_BASE \<Rightarrow> HANDLE_BASE \<Rightarrow> bool" where
  "kept D b b' \<longleftrightarrow> same_base b b' \<and> (\<forall>j < ui32TotalHandCount b. j \<notin> D \<longrightarrow> data_of (hands b' j) = data_of (hands b j)) \<and>
     (\<forall>j. ui32TotalHandCount b \<le> j \<and> j < ui32TotalHandCount b' \<and> j \<notin> D \<longrightarrow> h_eType (hands b' j) = PVRSRV_HANDLE_TYPE_NONE)"

lemma kept_hashed:
  assumes "kept {} b b'"
  shows "hashed b' X = hashed b X" "j \<in> hashed b X \<Longrightarrow> key_of (hands b' j) = key_of (hands b j)"
proof -
  have lt: "j < ui32TotalHandCount b" if "j < ui32TotalHandCount b'" "h_eType (hands b' j) \<noteq> PVRSRV_HANDLE_TYPE_NONE" for j
    using assms that by (meson kept_def empty_iff not_le)
  have dt: "data_of (hands b' j) = data_of (hands b j)" if "j < ui32TotalHandCount b" for j using assms that by (simp add: kept_def)
  have le: "ui32TotalHandCount b \<le> ui32TotalHandCount b'" using assms by (simp add: kept_def same_base_def)
  have e: "h_eType (hands b' j) = h_eType (hands b j)" "h_eFlag (hands b' j) = h_eFlag (hands b j)" if "j < ui32TotalHandCount b" for j
    using dt [OF that] by (simp_all add: data_of_def)
  show "hashed b' X = hashed b X"
  proof (intro set_eqI)
    fix j show "j \<in> hashed b' X \<longleftrightarrow> j \<in> hashed b X"
      using lt [of j] e [of j] le unfolding hashed_def by (auto dest: less_le_trans)
  qed
  show "key_of (hands b' j) = key_of (hands b j)" if "j \<in> hashed b X"
    using that dt [THEN key_of_data] by (simp add: hashed_def)
qed

lemma kept_os: "kept {} b (b\<lparr>hb_os := s\<rparr>)" "kept {} b (b\<lparr>psHashTab := t, hb_os := s\<rparr>)"
  by (auto simp: kept_def same_base_def)

lemma set_up_handle_inv:
  assumes I: "hb_rest F (ui32FirstBatchIndexPlusOne b) (i # fl) bl K d b" and st: "settled b" and t: "eType \<noteq> PVRSRV_HANDLE_TYPE_NONE"
    and b': "b' = set_up_handle pvData eType eFlag i b"
  shows "hb_rest F (ui32FirstBatchIndexPlusOne b') fl (if HANDLES_BATCHED b then i # bl else bl) (K(i := [])) (deepen i d) b'"
    "used b' fl = insert i (used b (i # fl))" "settled b'"
proof -
  have p: "free_ok b (i # fl)" "hmem_ok F b" using I by (simp_all add: hb_rest_def)
  obtain c l x where tf: "take_free i (hands b i) b = b\<lparr>ui32FreeHandCount := of_nat (length fl), ui32FreeHandBlockCount := c,
      ui32LastFreeIndexPlusOne := l, ui32FirstFreeIndex := x\<rparr>"
    "\<forall>h b'. hands b' = (hands b)(i := h) \<and> ui32FreeHandCount b' = of_nat (length fl) \<and> ui32LastFreeIndexPlusOne b' = l \<and>
      ui32FirstFreeIndex b' = x \<and> ui32TotalHandCount b' = ui32TotalHandCount b \<and> ui32FreeHandBlockCount b' = c \<and>
      bPurgingEnabled b' = bPurgingEnabled b \<longrightarrow> free_ok b' fl"
    "bPurgingEnabled b \<longrightarrow> x = 0"
    by (rule take_free_ok [OF p(1) st])
  let ?n = "if HANDLES_BATCHED b then ui32FirstBatchIndexPlusOne b else 0" and ?g = "if HANDLES_BATCHED b then 1 else 0"
  have h: "hands b' = (hands b)(i := fresh_handle ?n ?g i pvData eType eFlag)" by (simp add: b' set_up_handle_def Let_def)
  have f: "free_ok b' fl" by (rule tf(2) [rule_format], rule conjI [OF h]) (simp add: b' set_up_handle_def tf(1) Let_def)
  have m: "hmem_ok F b'" using p(2) by (simp add: b' set_up_handle_def hmem_ok_def Let_def)
  note N = new_handle_rest [OF I t f h _ _ _ _ m, of "ui32FirstBatchIndexPlusOne b'" "if HANDLES_BATCHED b then i # bl else bl"]
  show "hb_rest F (ui32FirstBatchIndexPlusOne b') fl (if HANDLES_BATCHED b then i # bl else bl) (K(i := [])) (deepen i d) b'"
    by (rule N(1)) (simp_all add: b' set_up_handle_def HANDLES_BATCHED_def Let_def)
  show "used b' fl = insert i (used b (i # fl))"
    by (rule N(2)) (simp_all add: b' set_up_handle_def HANDLES_BATCHED_def Let_def)
  show "settled b'" using tf(3) by (simp add: settled_def b' set_up_handle_def tf(1) Let_def)
qed

lemma hash_in_inv:
  assumes I: "hb_inv F s {} (i # fl) bl K d b" and key: "TEST_FLAG eFlag PVRSRV_HANDLE_ALLOC_FLAG_MULTI \<or>
      (\<forall>j \<in> hashed b {}. key_of (hands b j) \<noteq> InitKey pvData eType hParent)"
  obtains ok t' s' where "hash_in pvData eType eFlag hParent i b = Some (ok, b\<lparr>psHashTab := t', hb_os := s'\<rparr>)"
    "hb_rest F s (i # fl) bl K d (b\<lparr>psHashTab := t', hb_os := s'\<rparr>)"
    "\<not> ok \<Longrightarrow> htab_ok (b\<lparr>psHashTab := t', hb_os := s'\<rparr>) {}"
    "\<And>b'. ok \<Longrightarrow> psHashTab b' = t' \<Longrightarrow> ui32TotalHandCount b' = ui32TotalHandCount b \<Longrightarrow>
       hands b' = (hands b)(i := fresh_handle nx g i pvData eType eFlag) \<Longrightarrow> eType \<noteq> PVRSRV_HANDLE_TYPE_NONE \<Longrightarrow>
       htab_for (InitKey pvData eType hParent) i b'"
proof -
  note P = hb_invD [OF I]
  have i: "i < ui32TotalHandCount b" "h_eType (hands b i) = PVRSRV_HANDLE_TYPE_NONE" using P(3) by (auto simp: free_ok_def)
  then have ni: "i \<notin> hashed b {}" by (simp add: hashed_def)
  have fresh: "hashed b' {} = (if TEST_FLAG eFlag PVRSRV_HANDLE_ALLOC_FLAG_MULTI then hashed b {} else insert i (hashed b {}))"
      "\<And>j. j \<in> hashed b {} \<Longrightarrow> key_of (hands b' j) = key_of (hands b j)"
    if "ui32TotalHandCount b' = ui32TotalHandCount b" "hands b' = (hands b)(i := fresh_handle nx g i pvData eType eFlag)"
      "eType \<noteq> PVRSRV_HANDLE_TYPE_NONE" for b' :: HANDLE_BASE
    using that i by (auto simp: hashed_def)
  have rest: "hb_rest F s (i # fl) bl K d (b\<lparr>psHashTab := t', hb_os := s'\<rparr>)" if "hmem_ok F (b\<lparr>psHashTab := t', hb_os := s'\<rparr>)" for t' s'
    using P(1,2,4,7,8) that free_ok_cong [OF P(3), of "b\<lparr>psHashTab := t', hb_os := s'\<rparr>"] unfolding hb_rest_def
    by (auto simp: size_ok_def used_def batch_ok_def unbatched_def HANDLES_BATCHED_def)
  show thesis
  proof (cases "TEST_FLAG eFlag PVRSRV_HANDLE_ALLOC_FLAG_MULTI")
    case True
    have r: "hash_in pvData eType eFlag hParent i b = Some (True, b\<lparr>psHashTab := psHashTab b, hb_os := hb_os b\<rparr>)"
      using True by (simp add: hash_in_def)
    show thesis
    proof (rule that [OF r])
      fix b' :: HANDLE_BASE assume b': "psHashTab b' = psHashTab b" "ui32TotalHandCount b' = ui32TotalHandCount b"
        "hands b' = (hands b)(i := fresh_handle nx g i pvData eType eFlag)" "eType \<noteq> PVRSRV_HANDLE_TYPE_NONE"
      have "htab_ok b' {}" by (rule htab_ok_cong [OF P(5) b'(1)]) (use fresh [OF b'(2-4)] True in auto)
      then show "htab_for (InitKey pvData eType hParent) i b'" by (rule htab_for_multi) (use True b'(3) in simp)
    qed (use rest [where t' = "psHashTab b" and s' = "hb_os b"] P(6) in auto)
  next
    case False
    then have kn: "\<forall>j \<in> hashed b {}. key_of (hands b j) \<noteq> InitKey pvData eType hParent" using key by simp
    obtain T where T: "psHashTab b = Some T" "hash_map T (InitKey pvData eType hParent) = None"
      using P(5) kn unfolding htab_ok_def by (auto split: option.splits) (metis not_None_eq)
    obtain ok t' s' where r: "HASH_Insert_Extended T (InitKey pvData eType hParent) (INDEX_TO_HANDLE i) (hb_os b) = (ok, t', s')"
      by (metis prod_cases3)
    note C = hash_in_ok [OF P(5,6) T(1) ni InitKey_length T(2) r]
    have R: "hash_in pvData eType eFlag hParent i b = Some (ok, b\<lparr>psHashTab := Some t', hb_os := s'\<rparr>)"
      using False T(1) r by (simp add: hash_in_def)
    show thesis by (rule that [OF R rest [OF C(1)] C(2)]) (use C(3) fresh False in auto)
  qed
qed

lemma kept_refl [simp]: "kept D b b"
  by (auto simp: kept_def same_base_def)

lemma kept_trans:
  assumes "kept D b b1" "kept D b1 b2" shows "kept D b b2"
proof -
  have le: "ui32TotalHandCount b \<le> ui32TotalHandCount b1" using assms(1) by (simp add: kept_def same_base_def)
  have "h_eType (hands b2 j) = PVRSRV_HANDLE_TYPE_NONE" if "ui32TotalHandCount b \<le> j" "j < ui32TotalHandCount b2" "j \<notin> D" for j
  proof (cases "j < ui32TotalHandCount b1")
    case True
    then show ?thesis using assms that by (auto simp: kept_def data_of_def)
  qed (use assms that in \<open>auto simp: kept_def not_less\<close>)
  moreover have "data_of (hands b2 j) = data_of (hands b j)" if "j < ui32TotalHandCount b" "j \<notin> D" for j
    using assms that less_le_trans [OF that(1) le] by (simp add: kept_def)
  ultimately show ?thesis using assms unfolding kept_def same_base_def by auto
qed

lemma kept_mono: "kept {} b b' \<Longrightarrow> kept D b b'"
  by (auto simp: kept_def)

lemma kept_new: "b' = set_up_handle pvData eType eFlag i b \<Longrightarrow> kept {i} b b'"
  by (auto simp: kept_def same_base_def set_up_handle_def Let_def)

lemma reset_first_inv:
  assumes inv: "hb_inv F s X fl bl K d b" and m: "mset fl' = mset fl" "bPurgingEnabled b \<or> fl' = fl"
  shows "hb_inv F s X fl' bl K d (reset_first b)" "used (reset_first b) fl' = used b fl"
proof -
  note P = hb_invD [OF inv]
  have e: "set fl' = set fl" "length fl' = length fl" "distinct fl' = distinct fl"
    using m(1) by (metis mset_eq_setD, metis mset_eq_length, metis mset_eq_imp_distinct_iff)
  have fi: "free_in fl' = free_in fl" by (simp add: free_in_def e(1) fun_eq_iff)
  show u: "used (reset_first b) fl' = used b fl" by (simp add: used_def e(1))
  show "hb_inv F s X fl' bl K d (reset_first b)"
  proof (cases "bPurgingEnabled b")
    case True
    have "free_ok (reset_first b) fl'"
      using P(3) True by (simp add: free_ok_def search_ok_def reset_first_def e fi)
    moreover have "batch_ok s fl' bl (reset_first b)" by (rule batch_ok_frame [OF P(7) u]) simp
    moreover have "htab_ok (reset_first b) X" by (rule htab_ok_cong [OF P(5)]) (simp_all add: hashed_def)
    ultimately show ?thesis
      using P(1,2,4,6,8) u True unfolding hb_inv_def
      by (auto simp: reset_first_def size_ok_def hmem_ok_def unbatched_def HANDLES_BATCHED_def)
  qed (use inv m(2) in \<open>simp add: reset_first_def\<close>)
qed

lemma pick_free:
  assumes inv: "hb_inv F s X fl bl K d b" and fl: "fl \<noteq> []"
  obtains i fl' where "find_free b = (i, Some i)" "i < ui32TotalHandCount b" "hb_inv F s X (i # fl') bl K d (reset_first b)"
    "used (reset_first b) (i # fl') = used b fl"
proof (cases "bPurgingEnabled b")
  case True
  then obtain i where i: "find_free b = (i, Some i)" "i \<in> set fl" using find_free_purging [OF inv True fl] by metis
  have "mset (i # remove1 i fl) = mset fl" using i(2) by simp
  note R = reset_first_inv [OF inv this disjI1 [OF True]]
  show thesis by (rule that [OF i(1) _ R]) (use i(2) hb_invD(3) [OF inv] in \<open>auto simp: free_ok_def\<close>)
next
  case False
  obtain i fl' where f: "fl = i # fl'" using fl by (cases fl) auto
  have "list_ok b fl" "i < ui32TotalHandCount b" using hb_invD(3) [OF inv] False f by (auto simp: free_ok_def)
  then have "find_free b = (i, Some i)" "i < ui32TotalHandCount b" using False f by (simp_all add: find_free_def list_ok_def)
  then show thesis using that inv reset_first_inv(2) [OF inv, of fl] False f by (simp add: reset_first_def)
qed

lemma AllocHandle_ready:
  assumes E: "EnsureFreeHandles 1 b = Some (PVRSRV_OK, b0)" and I0: "hb_inv F (ui32FirstBatchIndexPlusOne b0) {} fl0 bl K d b0"
    and ne: "fl0 \<noteq> []" and t: "eType \<noteq> PVRSRV_HANDLE_TYPE_NONE" and k0: "kept {} b b0" and u0: "used b0 fl0 = used b fl"
    and key: "TEST_FLAG eFlag PVRSRV_HANDLE_ALLOC_FLAG_MULTI \<or>
      (\<forall>j \<in> hashed b {}. key_of (hands b j) \<noteq> InitKey pvData eType hParent)"
  obtains (ok) i nx g fl' b' where "AllocHandle pvData eType eFlag hParent b = Some (PVRSRV_OK, INDEX_TO_HANDLE i, b')"
      "i \<notin> used b fl" "used b' fl' = insert i (used b fl)" "kept {i} b b'"
      "hb_rest F (ui32FirstBatchIndexPlusOne b') fl' (if HANDLES_BATCHED b then i # bl else bl) (K(i := [])) (deepen i d) b'"
      "htab_for (InitKey pvData eType hParent) i b'" "hands b' i = fresh_handle nx g i pvData eType eFlag" "settled b'"
  | (fails) e fl' b' where "AllocHandle pvData eType eFlag hParent b = Some (e, IMG_NULL, b')" "e \<noteq> PVRSRV_OK"
      "hb_inv F (ui32FirstBatchIndexPlusOne b') {} fl' bl K d b'" "used b' fl' = used b fl" "kept {} b b'" "settled b \<longrightarrow> settled b'"
proof -
  obtain i fl' where pf: "find_free b0 = (i, Some i)" "i < ui32TotalHandCount b0"
    "hb_inv F (ui32FirstBatchIndexPlusOne b0) {} (i # fl') bl K d (reset_first b0)" "used (reset_first b0) (i # fl') = used b0 fl0"
    by (rule pick_free [OF I0 ne])
  define b1 where "b1 = reset_first b0"
  have I: "hb_inv F (ui32FirstBatchIndexPlusOne b1) {} (i # fl') bl K d b1" and u: "used b1 (i # fl') = used b fl" and st: "settled b1"
    using pf(3,4) u0 by (simp_all add: b1_def)
  have k: "kept {} b b1" using k0 by (simp add: b1_def kept_def same_base_def reset_first_def)
  let ?n = "if HANDLES_BATCHED b1 then ui32FirstBatchIndexPlusOne b1 else 0" and ?g = "if HANDLES_BATCHED b1 then 1 else 0"
  have iu: "i \<notin> used b fl" unfolding u [symmetric] by (simp add: used_def)
  have hb: "HANDLES_BATCHED b1 = HANDLES_BATCHED b" using k by (simp add: kept_def same_base_def HANDLES_BATCHED_def)
  have key1: "TEST_FLAG eFlag PVRSRV_HANDLE_ALLOC_FLAG_MULTI \<or>
      (\<forall>j \<in> hashed b1 {}. key_of (hands b1 j) \<noteq> InitKey pvData eType hParent)"
    using key kept_hashed [OF k] by metis
  obtain ok t' s' where H: "hash_in pvData eType eFlag hParent i b1 = Some (ok, b1\<lparr>psHashTab := t', hb_os := s'\<rparr>)"
    "hb_rest F (ui32FirstBatchIndexPlusOne b1) (i # fl') bl K d (b1\<lparr>psHashTab := t', hb_os := s'\<rparr>)"
    "\<not> ok \<Longrightarrow> htab_ok (b1\<lparr>psHashTab := t', hb_os := s'\<rparr>) {}"
    "\<And>b'. ok \<Longrightarrow> psHashTab b' = t' \<Longrightarrow> ui32TotalHandCount b' = ui32TotalHandCount b1 \<Longrightarrow>
       hands b' = (hands b1)(i := fresh_handle ?n ?g i pvData eType eFlag) \<Longrightarrow> eType \<noteq> PVRSRV_HANDLE_TYPE_NONE \<Longrightarrow>
       htab_for (InitKey pvData eType hParent) i b'"
    using hash_in_inv [OF I key1, where nx = ?n and g = ?g] by metis
  let ?b3 = "b1\<lparr>psHashTab := t', hb_os := s'\<rparr>" let ?b' = "set_up_handle pvData eType eFlag i ?b3"
  have R: "AllocHandle pvData eType eFlag hParent b =
    Some (if ok then (PVRSRV_OK, INDEX_TO_HANDLE i, ?b') else (PVRSRV_ERROR_UNABLE_TO_ADD_HANDLE, IMG_NULL, ?b3))"
  proof (rule AllocHandle_steps [OF E pf(1,2)])
    show "hash_in pvData eType eFlag hParent i (reset_first b0) = Some (ok, ?b3)" using H(1) unfolding b1_def .
  qed (simp_all add: b1_def)
  have k3: "kept {} b ?b3" by (rule kept_trans [OF k kept_os(2)])
  have u3: "used ?b3 (i # fl') = used b fl" using u by (simp add: used_def)
  have hb3: "HANDLES_BATCHED ?b3 = HANDLES_BATCHED b" using hb by (simp add: HANDLES_BATCHED_def)
  have st3: "settled ?b3" using st by (simp add: settled_def)
  show thesis
  proof (cases ok)
    case True
    have "hb_rest F (ui32FirstBatchIndexPlusOne ?b3) (i # fl') bl K d ?b3" using H(2) by simp
    note S = set_up_handle_inv [OF this st3 t refl, unfolded hb3, where pvData = pvData and eFlag = eFlag]
    have h: "hands ?b' = (hands b1)(i := fresh_handle ?n ?g i pvData eType eFlag)"
      by (simp add: set_up_handle_def Let_def HANDLES_BATCHED_def)
    show thesis
    proof (rule ok)
      show "kept {i} b ?b'" by (rule kept_trans [OF kept_mono [OF k3] kept_new [OF refl]])
      show "htab_for (InitKey pvData eType hParent) i ?b'"
        by (rule H(4) [OF True _ _ h t]) (simp_all add: set_up_handle_def Let_def)
      show "hands ?b' i = fresh_handle ?n ?g i pvData eType eFlag" using h by simp
    qed (use R True iu S u3 in auto)
  next
    case False
    show thesis
      by (rule fails [of PVRSRV_ERROR_UNABLE_TO_ADD_HANDLE ?b3]) (use R False H(2,3) k3 u3 st3 in \<open>auto simp: hb_inv_rest\<close>)
  qed
qed

lemma AllocHandle_inv:
  assumes inv: "hb_inv F (ui32FirstBatchIndexPlusOne b) {} fl bl K d b" and t: "eType \<noteq> PVRSRV_HANDLE_TYPE_NONE"
    and key: "TEST_FLAG eFlag PVRSRV_HANDLE_ALLOC_FLAG_MULTI \<or>
      (\<forall>j \<in> hashed b {}. key_of (hands b j) \<noteq> InitKey pvData eType hParent)"
  obtains (ok) i nx g fl' b' where "AllocHandle pvData eType eFlag hParent b = Some (PVRSRV_OK, INDEX_TO_HANDLE i, b')"
      "i \<notin> used b fl" "used b' fl' = insert i (used b fl)" "kept {i} b b'"
      "hb_rest F (ui32FirstBatchIndexPlusOne b') fl' (if HANDLES_BATCHED b then i # bl else bl) (K(i := [])) (deepen i d) b'"
      "htab_for (InitKey pvData eType hParent) i b'" "hands b' i = fresh_handle nx g i pvData eType eFlag" "settled b'"
  | (fails) e fl' b' where "AllocHandle pvData eType eFlag hParent b = Some (e, IMG_NULL, b')" "e \<noteq> PVRSRV_OK"
      "hb_inv F (ui32FirstBatchIndexPlusOne b') {} fl' bl K d b'" "used b' fl' = used b fl" "kept {} b b'" "settled b \<longrightarrow> settled b'"
proof (cases "fl = []")
  case Nil: True
  let ?s = "ui32FirstBatchIndexPlusOne b"
  from Nil have ff: "fl = [] \<or> ui32FirstFreeIndex b \<noteq> 0" by simp
  show thesis
  proof (rule EnsureFreeHandles_inv [OF inv ff, of 1])
    fix fl1 b1
    assume E: "EnsureFreeHandles 1 b = Some (PVRSRV_OK, b1)" and I1: "hb_inv F ?s {} fl1 bl K d b1" and sb: "same_base b b1"
      and l: "unat (1 :: IMG_UINT32) \<le> length fl1" and u1: "used b1 fl1 = used b fl" and s1: "ui32FirstBatchIndexPlusOne b1 = ?s"
      and d1: "\<forall>j < ui32TotalHandCount b. data_of (hands b1 j) = data_of (hands b j)"
        "\<forall>j. ui32TotalHandCount b \<le> j \<and> j < ui32TotalHandCount b1 \<longrightarrow> h_eType (hands b1 j) = PVRSRV_HANDLE_TYPE_NONE"
    have k: "kept {} b b1" using sb d1 by (simp add: kept_def)
    have ne: "fl1 \<noteq> []" using l by auto
    show thesis
      by (rule AllocHandle_ready [OF E I1 [folded s1] ne t k u1 key]) (rule ok fails, assumption+)+
  next
    fix e s' assume "EnsureFreeHandles 1 b = Some (e, b\<lparr>hb_os := s'\<rparr>)" "e \<noteq> PVRSRV_OK" "hb_inv F ?s {} fl bl K d (b\<lparr>hb_os := s'\<rparr>)"
    then show thesis
      by (intro fails [of e "b\<lparr>hb_os := s'\<rparr>" fl]) (auto simp: AllocHandle_def kept_os used_def settled_def)
  qed
next
  case ne: False
  have "ui32FreeHandCount b \<noteq> 0" using free_count_zero(1) [OF hb_invD(3) [OF inv]] ne by simp
  then have "\<not> 1 > ui32FreeHandCount b" by (metis word_less_1)
  then have E: "EnsureFreeHandles 1 b = Some (PVRSRV_OK, b)" by (simp add: EnsureFreeHandles_def)
  show thesis
    by (rule AllocHandle_ready [OF E inv ne t kept_refl refl key]) (rule ok fails, assumption+)+
qed

section \<open>Adopting a child\<close>

lemma path_cons:
  "path N x ks z \<Longrightarrow> e \<notin> set (x # ks) \<Longrightarrow> x \<notin> set ks \<Longrightarrow> path (N(x := e, e := N x)) x (e # ks) z"
proof (cases ks)
  case (Cons k ks')
  assume a: "path N x ks z" "e \<notin> set (x # ks)" "x \<notin> set ks"
  then have "path (N(x := e, e := N x)) k ks' z = path N k ks' z" using Cons by (intro path_cong) auto
  then show ?thesis using a Cons by auto
qed auto

lemma ring_prev: "ring h p ks \<Longrightarrow> ui32Prev (link h p p) = last (p # ks)"
proof -
  assume "ring h p ks"
  then have "path (\<lambda>i. ui32Prev (link h p i)) p (rev ks) p" by (simp add: ring_def)
  then show ?thesis by (cases ks rule: rev_cases) auto
qed

lemma link_set_link_own: "link (set_link p a f h) p j = (if j = a then f (link h p j) else link h p j)"
  by (auto simp: link_def set_link_def)

lemma link_set_link_far: "q \<noteq> p \<Longrightarrow> j = q \<or> j = p \<or> j \<noteq> a \<Longrightarrow> link (set_link p a f h) q j = link h q j"
  by (auto simp: link_def set_link_def)

lemma AdoptChild_links:
  assumes ok: "links_ok (hands b) A K d" and A: "A \<subseteq> {..< ui32TotalHandCount b}" and p: "p \<in> A" and c: "c \<in> A" "c \<noteq> p"
    and root: "sSiblings (hands b c) = HandleListInit c IMG_NULL" and d: "d c < d p"
  obtains h' where "AdoptChild p c b = Some (b\<lparr>hands := h'\<rparr>)" "\<forall>j. core (h' j) = core (hands b j)"
    "\<forall>j. j \<noteq> c \<longrightarrow> ParentHandle (h' j) = ParentHandle (hands b j)" "ParentHandle (h' c) = INDEX_TO_HANDLE p"
    "links_ok h' A (K(p := K p @ [c])) d"
    "\<forall>j \<in> A. j \<noteq> c \<longrightarrow> sSiblings (hands b j) = HandleListInit j IMG_NULL \<longrightarrow> sSiblings (h' j) = HandleListInit j IMG_NULL"
proof -
  let ?h = "hands b"
  define a where "a = last (p # K p)"
  have "ParentHandle (?h c) = IMG_NULL" using root by (simp add: ParentHandle_def HandleListInit_def)
  then have cq: "c \<notin> set (K q)" if "q \<in> A" for q using links_ok_root [OF ok that] by blast
  have r: "ring ?h p (K p)" "distinct (K p)" "hl_hParent (sChildren (?h p)) = INDEX_TO_HANDLE p" using ok p by (auto simp: links_ok_def)
  have pn: "p \<notin> set (K p)" using links_ok_kid [OF ok p] by blast
  have aK: "a \<in> set (p # K p)" unfolding a_def by (metis last_in_set list.discI)
  have "a \<in> A" using aK p links_ok_kid [OF ok p] by auto
  then have bd: "a < ui32TotalHandCount b" "c < ui32TotalHandCount b" "p < ui32TotalHandCount b" using A c(1) p by auto
  have ac: "a \<noteq> c" using aK c(2) cq [OF p] by auto
  define h' where "h' = set_link p c (hl_hParent_update (\<lambda>_. INDEX_TO_HANDLE p)) (set_link p a (ui32Next_update (\<lambda>_. c))
    (set_link p c (ui32Next_update (\<lambda>_. p)) (set_link p p (ui32Prev_update (\<lambda>_. c)) (set_link p c (ui32Prev_update (\<lambda>_. a)) ?h))))"
  have pr: "ui32Prev (sChildren (?h p)) = a" using ring_prev [OF r(1)] by (simp add: a_def link_def)
  have R: "AdoptChild p c b = Some (b\<lparr>hands := h'\<rparr>)"
    using bd r(3) pr by (simp add: AdoptChild_def HandleListInsertBefore_def hnd_def list_ptr_def list_upd_set_link h'_def)
  have lc: "link h' p c = \<lparr>ui32Prev = a, ui32Next = p, hl_hParent = INDEX_TO_HANDLE p\<rparr>"
    using ac c(2) by (cases "link ?h p c") (simp add: h'_def link_set_link_own)
  have nx: "ui32Next (link h' p j) = ((\<lambda>i. ui32Next (link ?h p i))(a := c, c := p)) j" for j
    by (cases "j = c") (simp_all add: lc, simp add: h'_def link_set_link_own)
  have pv: "ui32Prev (link h' p j) = ((\<lambda>i. ui32Prev (link ?h p i))(p := c, c := a)) j" for j
    by (cases "j = c") (use c(2) in \<open>simp_all add: lc\<close>, simp add: h'_def link_set_link_own)
  have ring_p: "ring h' p (K p @ [c])"
  proof -
    have D: "distinct (p # K p)" "c \<notin> set (p # K p)" "path (\<lambda>i. ui32Next (link ?h p i)) p (K p) p" "path (\<lambda>i. ui32Prev (link ?h p i)) p (rev (K p)) p"
      using r(1,2) pn cq [OF p] c(2) by (simp_all add: ring_def)
    have "path (\<lambda>i. ui32Next (link h' p i)) p (K p @ [c]) p"
      unfolding nx a_def by (rule path_snoc [OF D(3,1,2)])
    moreover have "path (\<lambda>i. ui32Prev (link h' p i)) p (c # rev (K p)) p"
    proof -
      have e: "ui32Prev (link ?h p p) = a" using pr by (simp add: link_def)
      have "path ((\<lambda>i. ui32Prev (link ?h p i))(p := c, c := ui32Prev (link ?h p p))) p (c # rev (K p)) p"
        by (rule path_cons [OF D(4)]) (use D(1,2) in simp_all)
      then show ?thesis unfolding pv e .
    qed
    ultimately show ?thesis by (simp add: ring_def)
  qed
  have same: "link h' q j = link ?h q j" if q: "q \<in> A" "q \<noteq> p" and j: "j \<in> set (q # K q)" for q j
  proof -
    have "j = q \<or> j \<notin> set (p # K p) \<and> j \<noteq> q \<and> j \<noteq> c \<or> j = p \<and> j \<noteq> q"
      using links_ok_parent [OF ok p q(1), of j] links_ok_kid [OF ok q(1), of j] cq [OF q(1)] q(2) j by auto
    then have "j = q \<or> j = p \<or> j \<noteq> a" "j = q \<or> j = p \<or> j \<noteq> c" using aK by auto
    then show ?thesis unfolding h'_def by (simp only: link_set_link_far [OF q(2)] simp_thms)
  qed
  show thesis
  proof (rule that [OF R])
    show "\<forall>j. core (h' j) = core (hands b j)" by (simp add: h'_def)
    show PC: "ParentHandle (h' c) = INDEX_TO_HANDLE p" using lc c(2) by (simp add: link_def ParentHandle_def)
    show P': "\<forall>j. j \<noteq> c \<longrightarrow> ParentHandle (h' j) = ParentHandle (hands b j)"
      by (auto simp: ParentHandle_def h'_def set_link_def)
    have ch: "hl_hParent (sChildren (h' j)) = hl_hParent (sChildren (?h j))" for j
      using c(2) by (auto simp: h'_def set_link_def)
    have sib: "sSiblings (h' j) = sSiblings (?h j)" if "j \<in> A" "j \<noteq> c" "sSiblings (?h j) = HandleListInit j IMG_NULL" for j
    proof -
      have "ParentHandle (?h j) = IMG_NULL" using that(3) by (simp add: ParentHandle_def HandleListInit_def)
      then have "j \<notin> set (K p)" by (rule links_ok_root [OF ok p])
      then show ?thesis using that(2) aK by (auto simp: h'_def set_link_def)
    qed
    then show "\<forall>j \<in> A. j \<noteq> c \<longrightarrow> sSiblings (hands b j) = HandleListInit j IMG_NULL \<longrightarrow> sSiblings (h' j) = HandleListInit j IMG_NULL"
      by simp
    show "links_ok h' A (K(p := K p @ [c])) d"
      unfolding links_ok_def
    proof (intro conjI ballI)
      fix q assume q: "q \<in> A"
      show "hl_hParent (sChildren (h' q)) = INDEX_TO_HANDLE q" using ok q ch by (simp add: links_ok_def)
      show "ring h' q ((K(p := K p @ [c])) q)"
        using ring_p ring_cong [of q "K q" h' ?h] same [OF q] ok q by (auto simp: links_ok_def)
      show "distinct ((K(p := K p @ [c])) q)" using ok q r(2) cq by (auto simp: links_ok_def)
      fix j assume j: "j \<in> set ((K(p := K p @ [c])) q)"
      then consider "j \<in> set (K q)" "j \<noteq> c" | "j = c" "q = p" using cq [OF q] by (auto split: if_splits)
      then show "j \<in> A" "d j < d q" "ParentHandle (h' j) = INDEX_TO_HANDLE q"
        using links_ok_kid [OF ok q] P' PC c(1) d by (cases; auto)+
    next
      fix j assume j: "j \<in> A"
      show "sSiblings (h' j) = HandleListInit j IMG_NULL \<or> (\<exists>q \<in> A. j \<in> set ((K(p := K p @ [c])) q))"
      proof (cases "j = c")
        case False
        then show ?thesis using ok j sib unfolding links_ok_def by (auto split: if_splits) (metis UnI1 fun_upd_apply set_append)
      qed (use p in auto)
    qed
  qed
qed

end
