(* ===== verification/Handle_Api.thy ===== *)
theory Handle_Api
  imports Handle_Alloc
begin

text \<open>
  The interface of the handle bases (\<open>handle.c\<close>) against an abstract map: \<open>live\<close> gives for every index the
  data, type, flags and parent of the handle allocated there, \<open>handle_ok\<close> hides the free list, the rings,
  the hash table and the batch. The properties of the public operations are stated over these two.
\<close>

section \<open>The abstract view\<close>

type_synonym handle_view = "IMG_UINT32 \<rightharpoonup> IMG_UINTPTR_T \<times> PVRSRV_HANDLE_TYPE \<times> PVRSRV_HANDLE_ALLOC_FLAG \<times> IMG_HANDLE"

definition live :: "HANDLE_BASE \<Rightarrow> handle_view" where
  "live b i = (if i < ui32TotalHandCount b \<and> h_eType (hands b i) \<noteq> PVRSRV_HANDLE_TYPE_NONE
     then Some (h_pvData (hands b i), h_eType (hands b i), h_eFlag (hands b i), ParentHandle (hands b i)) else None)"

definition handle_ok :: "IMG_UINTPTR_T multiset \<Rightarrow> HANDLE_BASE \<Rightarrow> bool" where
  "handle_ok F b \<longleftrightarrow> (\<exists>fl bl K d. hb_inv F (ui32FirstBatchIndexPlusOne b) {} fl bl K d b \<and> (\<not> HANDLES_BATCHED b \<longrightarrow> bl = [])) \<and>
     settled b"

lemma handle_okI:
  "hb_inv F (ui32FirstBatchIndexPlusOne b) {} fl bl K d b \<Longrightarrow> (\<not> HANDLES_BATCHED b \<Longrightarrow> bl = []) \<Longrightarrow> settled b \<Longrightarrow> handle_ok F b"
  by (auto simp: handle_ok_def)

text \<open>The handles in the subtree of \<open>p\<close>, by their parent handles.\<close>

inductive_set subtree :: "handle_view \<Rightarrow> IMG_UINT32 \<Rightarrow> IMG_UINT32 set" for m p where
  subtree_self: "p \<in> subtree m p"
| subtree_kid: "q \<in> subtree m p \<Longrightarrow> m i = Some (v, t, f, INDEX_TO_HANDLE q) \<Longrightarrow> i \<in> subtree m p"

lemma used_live:
  assumes "hb_inv F s X fl bl K d b" "live b i \<noteq> None" shows "i \<in> used b fl"
  using assms hb_invD(3) [OF assms(1)] by (auto simp: live_def free_ok_def used_def split: if_splits)

lemma subtree_desc:
  assumes inv: "hb_inv F s X fl bl K d b" and p: "live b p \<noteq> None"
  shows "subtree (live b) p = desc K p"
proof
  note P = hb_invD [OF inv]
  have kid: "j \<in> set (K q) \<longleftrightarrow> live b j \<noteq> None \<and> ParentHandle (hands b j) = INDEX_TO_HANDLE q" if q: "q \<in> used b fl" for q j
  proof
    assume j: "j \<in> set (K q)"
    show "live b j \<noteq> None \<and> ParentHandle (hands b j) = INDEX_TO_HANDLE q"
      using links_ok_kid [OF P(4) q j] hb_inv_kid_type [OF inv q j] by (auto simp: live_def used_def)
  next
    assume j: "live b j \<noteq> None \<and> ParentHandle (hands b j) = INDEX_TO_HANDLE q"
    have ju: "j \<in> used b fl" using used_live [OF inv] j by blast
    have "sSiblings (hands b j) \<noteq> HandleListInit j IMG_NULL" using j by (auto simp: ParentHandle_def HandleListInit_def)
    then obtain r where r: "r \<in> used b fl" "j \<in> set (K r)" using P(4) ju by (auto simp: links_ok_def)
    then show "j \<in> set (K q)" using links_ok_kid [OF P(4) r] j by simp
  qed
  show "subtree (live b) p \<subseteq> desc K p"
  proof
    fix i assume "i \<in> subtree (live b) p"
    then show "i \<in> desc K p"
    proof induction
      case (subtree_kid q i v t f)
      have "q \<in> used b fl" using desc_used [OF P(4) used_live [OF inv p] subtree_kid.IH] by simp
      then have "i \<in> set (K q)" using kid subtree_kid.hyps(2) by (auto simp: live_def split: if_splits)
      then show ?case by (rule desc_kid [OF subtree_kid.IH])
    qed simp
  qed
  show "desc K p \<subseteq> subtree (live b) p"
  proof
    fix i assume "i \<in> desc K p"
    then show "i \<in> subtree (live b) p"
    proof induction
      case (desc_kid q i)
      have "q \<in> used b fl" using desc_used [OF P(4) used_live [OF inv p] desc_kid.hyps(1)] by simp
      then have "live b i \<noteq> None" "ParentHandle (hands b i) = INDEX_TO_HANDLE q" using kid desc_kid.hyps(2) by blast+
      then have "live b i = Some (h_pvData (hands b i), h_eType (hands b i), h_eFlag (hands b i), INDEX_TO_HANDLE q)"
        by (simp add: live_def split: if_splits)
      then show ?case by (rule subtree_kid [OF desc_kid.IH])
    qed (rule subtree_self)
  qed
qed

lemma kept_live:
  assumes "kept D b b'" "i \<notin> D" shows "live b' i = live b i"
proof (cases "i < ui32TotalHandCount b")
  case True
  then have "data_of (hands b' i) = data_of (hands b i)" "i < ui32TotalHandCount b'"
    using assms by (auto simp: kept_def same_base_def intro: less_le_trans)
  then show ?thesis using True by (simp add: live_def data_of_def)
next
  case False
  then show ?thesis using assms by (auto simp: live_def kept_def)
qed

lemma GetHandleStructure_live:
  "GetHandleStructure (INDEX_TO_HANDLE i) eType b =
     (case live b i of
        None \<Rightarrow> Inl (if i < ui32TotalHandCount b then PVRSRV_ERROR_HANDLE_NOT_ALLOCATED else PVRSRV_ERROR_HANDLE_INDEX_OUT_OF_RANGE)
      | Some (v, t, f, p) \<Rightarrow> if eType \<noteq> PVRSRV_HANDLE_TYPE_NONE \<and> eType \<noteq> t then Inl PVRSRV_ERROR_HANDLE_TYPE_MISMATCH else Inr i)"
  by (simp add: GetHandleStructure_def live_def INDEX_IS_VALID_def Let_def)

lemma hashed_live: "i \<in> hashed b {} \<Longrightarrow> live b i = Some (h_pvData (hands b i), h_eType (hands b i), h_eFlag (hands b i), ParentHandle (hands b i))"
  by (simp add: hashed_def live_def)

lemma InitKey_inject [simp]: "InitKey a t p = InitKey a' t' p' \<longleftrightarrow> a = a' \<and> t = t' \<and> p = p'"
proof -
  have "(ucast t :: IMG_UINTPTR_T) = ucast t' \<longleftrightarrow> t = t'" for t t' :: IMG_UINT32
  proof
    assume "(ucast t :: IMG_UINTPTR_T) = ucast t'"
    then have "INDEX_TO_HANDLE t = INDEX_TO_HANDLE t'" by (simp add: INDEX_TO_HANDLE_def)
    then show "t = t'" by simp
  qed simp
  then show ?thesis by (auto simp: InitKey_def)
qed

section \<open>Batch failures\<close>

lemma batch_failure_frame [simp]:
  "hands (batch_failure f b) = hands b" "ui32TotalHandCount (batch_failure f b) = ui32TotalHandCount b"
  "ui32FirstBatchIndexPlusOne (batch_failure f b) = ui32FirstBatchIndexPlusOne b" "HANDLES_BATCHED (batch_failure f b) = HANDLES_BATCHED b"
  "psHashTab (batch_failure f b) = psHashTab b" "used (batch_failure f b) fl = used b fl" "hashed (batch_failure f b) X = hashed b X"
  "live (batch_failure f b) = live b" "settled (batch_failure f b) = settled b"
  by (auto simp: batch_failure_def HANDLES_BATCHED_def used_def hashed_def live_def settled_def)

lemma hb_inv_cong:
  assumes "hands b' = hands b" "ui32TotalHandCount b' = ui32TotalHandCount b" "ui32MaxIndexPlusOne b' = ui32MaxIndexPlusOne b"
    "psHashTab b' = psHashTab b" "ui32FreeHandCount b' = ui32FreeHandCount b" "ui32FirstFreeIndex b' = ui32FirstFreeIndex b"
    "ui32LastFreeIndexPlusOne b' = ui32LastFreeIndexPlusOne b" "bPurgingEnabled b' = bPurgingEnabled b" "hb_os b' = hb_os b"
    "psHandleArray b' = psHandleArray b" "psHandleBlocks b' = psHandleBlocks b" "psBase b' = psBase b"
    "ui32FreeHandBlockCount b' = ui32FreeHandBlockCount b" and ub: "unbatched bl b' = unbatched bl b"
  shows "hb_inv F s X fl bl K d b' \<longleftrightarrow> hb_inv F s X fl bl K d b"
  unfolding hb_inv_def size_ok_def free_ok_def list_ok_def search_ok_def htab_ok_def hmem_ok_def batch_ok_def used_def hashed_def assms ..

lemma hb_inv_failure [simp]: "hb_inv F s X fl bl K d (batch_failure f b) \<longleftrightarrow> hb_inv F s X fl bl K d b"
  by (rule hb_inv_cong) (simp_all add: batch_failure_def unbatched_def HANDLES_BATCHED_def)

lemma handle_ok_failure [simp]: "handle_ok F (batch_failure f b) \<longleftrightarrow> handle_ok F b"
  by (simp add: handle_ok_def)

lemma FindHandle_failure [simp]: "FindHandle a t p (batch_failure f b) = FindHandle a t p b"
  by (simp add: FindHandle_def)

section \<open>Allocation\<close>

lemma failure_count:
  "ui32BatchHandAllocFailures (batch_failure f b) = (if HANDLES_BATCHED b then f (ui32BatchHandAllocFailures b) else ui32BatchHandAllocFailures b)"
  by (simp add: batch_failure_def)

lemma same_base_batched: "same_base b b' \<Longrightarrow> HANDLES_BATCHED b' = HANDLES_BATCHED b"
  by (simp add: same_base_def HANDLES_BATCHED_def)

text \<open>What a call that may allocate or share a handle promises, as a relation between the base before, the
  results and the base after.\<close>

definition alloc_spec ::
  "IMG_UINTPTR_T multiset \<Rightarrow> IMG_UINTPTR_T \<Rightarrow> PVRSRV_HANDLE_TYPE \<Rightarrow> PVRSRV_HANDLE_ALLOC_FLAG \<Rightarrow> IMG_HANDLE
    \<Rightarrow> HANDLE_BASE \<Rightarrow> PVRSRV_ERROR \<Rightarrow> IMG_HANDLE \<Rightarrow> HANDLE_BASE \<Rightarrow> bool" where
  "alloc_spec F pvData eType eFlag hParent b e h b' \<longleftrightarrow> handle_ok F b' \<and> HANDLES_BATCHED b' = HANDLES_BATCHED b \<and>
     ui32BatchHandAllocFailures b' = (if HANDLES_BATCHED b \<and> e \<noteq> PVRSRV_OK then ui32BatchHandAllocFailures b + 1 else ui32BatchHandAllocFailures b) \<and>
     (if e \<noteq> PVRSRV_OK then h = IMG_NULL \<and> live b' = live b
      else \<exists>i. h = INDEX_TO_HANDLE i \<and>
        (live b i = None \<and> live b' = (live b)(i \<mapsto> (pvData, eType, eFlag, hParent)) \<or>
         live b' = live b \<and> (\<exists>f p. live b i = Some (pvData, eType, f, p) \<and> (hParent \<noteq> IMG_NULL \<longrightarrow> p = hParent) \<and>
           TEST_FLAG (f AND eFlag) PVRSRV_HANDLE_ALLOC_FLAG_SHARED)))"

lemma alloc_spec_failed:
  assumes "handle_ok F b2" "e \<noteq> PVRSRV_OK" "same_base (batch_failure (\<lambda>n. n + 1) b) b2" "live b2 = live b"
  shows "alloc_spec F pvData eType eFlag hP b e IMG_NULL b2"
proof -
  have "HANDLES_BATCHED b2 = HANDLES_BATCHED b" using same_base_batched [OF assms(3)] by simp
  then show ?thesis using assms by (auto simp: alloc_spec_def same_base_def failure_count)
qed

lemma alloc_spec_shared:
  assumes "handle_ok F b" "live b i = Some (pvData, eType, f, p)" "TEST_FLAG (f AND eFlag) PVRSRV_HANDLE_ALLOC_FLAG_SHARED"
    "hP \<noteq> IMG_NULL \<longrightarrow> p = hP"
  shows "alloc_spec F pvData eType eFlag hP b PVRSRV_OK (INDEX_TO_HANDLE i) (batch_failure (\<lambda>n. n - 1) (batch_failure (\<lambda>n. n + 1) b))"
  using assms by (simp add: alloc_spec_def failure_count)

lemma alloc_spec_new:
  assumes "handle_ok F b2" "same_base (batch_failure (\<lambda>n. n + 1) b) b2"
    and "live b i = None" "live b2 = (live b)(i \<mapsto> (pvData, eType, eFlag, hP))"
  shows "alloc_spec F pvData eType eFlag hP b PVRSRV_OK (INDEX_TO_HANDLE i) (batch_failure (\<lambda>n. n - 1) b2)"
proof -
  have "HANDLES_BATCHED b2 = HANDLES_BATCHED b" using same_base_batched [OF assms(2)] by simp
  then show ?thesis using assms by (auto simp: alloc_spec_def same_base_def failure_count)
qed

lemma live_new:
  assumes "kept {i} b b'" "i \<in> used b' fl'" "h_eType (hands b' i) \<noteq> PVRSRV_HANDLE_TYPE_NONE"
  shows "live b' = (live b)(i \<mapsto> (h_pvData (hands b' i), h_eType (hands b' i), h_eFlag (hands b' i), ParentHandle (hands b' i)))"
proof (rule ext)
  fix j show "live b' j = ((live b)(i \<mapsto> (h_pvData (hands b' i), h_eType (hands b' i), h_eFlag (hands b' i), ParentHandle (hands b' i)))) j"
    using assms kept_live [OF assms(1), of j] by (cases "j = i") (auto simp: live_def used_def)
qed

lemma found_live:
  assumes "htab_ok b {}" "FindHandle pvData eType hP b = Some hF" "hF \<noteq> IMG_NULL"
  obtains i where "hF = INDEX_TO_HANDLE i" "live b i = Some (pvData, eType, h_eFlag (hands b i), ParentHandle (hands b i))"
    "GetHandleStructure hF eType b = Inr i"
proof -
  obtain i where i: "i \<in> hashed b {}" "hF = INDEX_TO_HANDLE i" "key_of (hands b i) = InitKey pvData eType hP"
    using FindHandle_eq(3) [OF assms] by blast
  then have "live b i = Some (pvData, eType, h_eFlag (hands b i), ParentHandle (hands b i))"
    using hashed_live [OF i(1)] by (simp add: key_of_def)
  then show thesis using that i(2) by (simp add: GetHandleStructure_live)
qed

lemma PVRSRVAllocHandle_ok:
  assumes ok: "handle_ok F b" and t: "eType \<noteq> PVRSRV_HANDLE_TYPE_NONE"
  shows "\<exists>e h b'. PVRSRVAllocHandle pvData eType eFlag b = Some (e, h, b') \<and> alloc_spec F pvData eType eFlag IMG_NULL b e h b'"
proof -
  obtain fl bl K d where inv: "hb_inv F (ui32FirstBatchIndexPlusOne b) {} fl bl K d b" and bl: "\<not> HANDLES_BATCHED b \<longrightarrow> bl = []"
    and st: "settled b" using ok by (auto simp: handle_ok_def)
  let ?b1 = "batch_failure (\<lambda>n. n + 1) b" and ?multi = "TEST_FLAG eFlag PVRSRV_HANDLE_ALLOC_FLAG_MULTI"
  have inv1: "hb_inv F (ui32FirstBatchIndexPlusOne ?b1) {} fl bl K d ?b1" using inv by simp
  note ht = hb_invD(5) [OF inv]
  obtain hF where hF: "FindHandle pvData eType IMG_NULL b = Some hF" using FindHandle_eq(4) [OF ht] by blast
  show ?thesis
  proof (cases "?multi \<or> hF = IMG_NULL")
    case False
    then obtain i where i: "hF = INDEX_TO_HANDLE i" "live b i = Some (pvData, eType, h_eFlag (hands b i), ParentHandle (hands b i))"
      using found_live [OF ht hF] by blast
    have g: "GetHandleStructure (INDEX_TO_HANDLE i) eType ?b1 = Inr i" using i(2) by (simp add: GetHandleStructure_live)
    show ?thesis
    proof (cases "TEST_FLAG (h_eFlag (hands b i) AND eFlag) PVRSRV_HANDLE_ALLOC_FLAG_SHARED")
      case True
      then show ?thesis
        using False hF i g alloc_spec_shared [OF ok i(2) True, of IMG_NULL] by (simp add: PVRSRVAllocHandle_def)
    next
      case nshared: False
      have "alloc_spec F pvData eType eFlag IMG_NULL b PVRSRV_ERROR_HANDLE_NOT_SHAREABLE IMG_NULL ?b1"
        by (rule alloc_spec_failed) (use ok in \<open>auto simp: same_base_def\<close>)
      then show ?thesis using False hF i g nshared by (simp add: PVRSRVAllocHandle_def)
    qed
  next
    case True
    have R: "PVRSRVAllocHandle pvData eType eFlag b = do {
        (eError, hHandle, b2) \<leftarrow> AllocHandle pvData eType eFlag IMG_NULL ?b1;
        Some (eError, hHandle, if eError = PVRSRV_OK then batch_failure (\<lambda>n. n - 1) b2 else b2) }"
      using True hF by (auto simp: PVRSRVAllocHandle_def Let_def)
    have key: "?multi \<or> (\<forall>j \<in> hashed ?b1 {}. key_of (hands ?b1 j) \<noteq> InitKey pvData eType IMG_NULL)"
      using True hF FindHandle_eq(1) [OF ht, of pvData eType IMG_NULL] by auto
    show ?thesis
    proof (rule AllocHandle_inv [OF inv1 t key])
      fix i nx g fl' b'
      assume A: "AllocHandle pvData eType eFlag IMG_NULL ?b1 = Some (PVRSRV_OK, INDEX_TO_HANDLE i, b')"
        and u: "i \<notin> used ?b1 fl" "used b' fl' = insert i (used ?b1 fl)" and k: "kept {i} ?b1 b'"
        and rest: "hb_rest F (ui32FirstBatchIndexPlusOne b') fl' (if HANDLES_BATCHED ?b1 then i # bl else bl) (K(i := [])) (deepen i d) b'"
        and hf: "htab_for (InitKey pvData eType IMG_NULL) i b'" and fresh: "hands b' i = fresh_handle nx g i pvData eType eFlag" and st': "settled b'"
      have "key_of (hands b' i) = InitKey pvData eType IMG_NULL" using fresh by (simp add: key_of_def ParentIfPrivate_def)
      then have "htab_ok b' {}" using htab_for_ok hf by metis
      moreover have "HANDLES_BATCHED b' = HANDLES_BATCHED b" using k same_base_batched by (auto simp: kept_def)
      ultimately have ok': "handle_ok F b'" using rest bl st'
        by (intro handle_okI [OF hb_inv_rest [THEN iffD2], OF conjI, OF rest]) auto
      have l: "live b i = None" using u(1) used_live [OF inv, of i] by (metis batch_failure_frame(6))
      have "live b' = (live ?b1)(i \<mapsto> (pvData, eType, eFlag, IMG_NULL))"
        using live_new [OF k, of fl'] u(2) t fresh by simp
      then show ?thesis
        using R A alloc_spec_new [OF ok' _ l] k by (simp add: kept_def)
    next
      fix e fl' b'
      assume A: "AllocHandle pvData eType eFlag IMG_NULL ?b1 = Some (e, IMG_NULL, b')" "e \<noteq> PVRSRV_OK"
        and I: "hb_inv F (ui32FirstBatchIndexPlusOne b') {} fl' bl K d b'" and k: "kept {} ?b1 b'" and st': "settled ?b1 \<longrightarrow> settled b'"
      have "HANDLES_BATCHED b' = HANDLES_BATCHED b" using k same_base_batched by (auto simp: kept_def)
      then have ok': "handle_ok F b'" using bl st st' by (intro handle_okI [OF I]) auto
      have "live b' = live b" using kept_live [OF k] by (auto simp: fun_eq_iff)
      then show ?thesis using R A alloc_spec_failed [OF ok' A(2)] k by (simp add: kept_def)
    qed
  qed
qed

text \<open>A new handle that is adopted by the parent \<open>p\<close>.\<close>

lemma adopt_inv:
  assumes rest: "hb_rest F s fl bl K d b" and p: "p \<in> used b fl" "h_eType (hands b p) \<noteq> PVRSRV_HANDLE_TYPE_NONE"
    and c: "c \<in> used b fl" "c \<noteq> p" "sSiblings (hands b c) = HandleListInit c IMG_NULL" "d c < d p"
      "h_eType (hands b c) \<noteq> PVRSRV_HANDLE_TYPE_NONE"
    and hf: "htab_for (InitKey (h_pvData (hands b c)) (h_eType (hands b c))
        (if TEST_FLAG (h_eFlag (hands b c)) PVRSRV_HANDLE_ALLOC_FLAG_PRIVATE then INDEX_TO_HANDLE p else IMG_NULL)) c b"
  obtains h' where "AdoptChild p c b = Some (b\<lparr>hands := h'\<rparr>)" "\<forall>j. core (h' j) = core (hands b j)"
    "\<forall>j. j \<noteq> c \<longrightarrow> data_of (h' j) = data_of (hands b j)" "ParentHandle (h' c) = INDEX_TO_HANDLE p"
    "hb_inv F s {} fl bl (K(p := K p @ [c])) d (b\<lparr>hands := h'\<rparr>)"
proof -
  have R: "unbatched bl b" "size_ok b" "free_ok b fl" "links_ok (hands b) (used b fl) K d" "hmem_ok F b" "batch_ok s fl bl b"
    "\<And>j. j \<in> used b fl \<Longrightarrow> h_eType (hands b j) = PVRSRV_HANDLE_TYPE_NONE \<Longrightarrow> K j = [] \<and> sSiblings (hands b j) = HandleListInit j IMG_NULL"
    using rest by (auto simp: hb_rest_def)
  have A: "used b fl \<subseteq> {..< ui32TotalHandCount b}" by (auto simp: used_def)
  obtain h' where h': "AdoptChild p c b = Some (b\<lparr>hands := h'\<rparr>)" "\<forall>j. core (h' j) = core (hands b j)"
    "\<forall>j. j \<noteq> c \<longrightarrow> ParentHandle (h' j) = ParentHandle (hands b j)" "ParentHandle (h' c) = INDEX_TO_HANDLE p"
    "links_ok h' (used b fl) (K(p := K p @ [c])) d"
    "\<forall>j \<in> used b fl. j \<noteq> c \<longrightarrow> sSiblings (hands b j) = HandleListInit j IMG_NULL \<longrightarrow> sSiblings (h' j) = HandleListInit j IMG_NULL"
    by (rule AdoptChild_links [OF R(4) A p(1) c(1,2,3,4)])
  have e: "h_eType (h' j) = h_eType (hands b j)" "eInternalFlag (h' j) = eInternalFlag (hands b j)" "h_pvData (h' j) = h_pvData (hands b j)"
    "ui32NextIndexPlusOne (h' j) = ui32NextIndexPlusOne (hands b j)" "h_eFlag (h' j) = h_eFlag (hands b j)" for j
    using h'(2) by (simp_all add: core_def)
  have dt: "\<forall>j. j \<noteq> c \<longrightarrow> data_of (h' j) = data_of (hands b j)" using e h'(3) by (simp add: data_of_def)
  let ?b = "b\<lparr>hands := h'\<rparr>"
  have u: "used ?b fl = used b fl" by (simp add: used_def)
  have "free_ok ?b fl" by (rule free_ok_cong [OF R(3)]) (use e in auto)
  moreover have "batch_ok s fl bl ?b"
    unfolding batch_ok_def u using R(6) e bchain_cong [of bl h' "hands b" s] by (auto simp: batch_ok_def mark_ok_def)
  moreover have "htab_ok ?b {}"
  proof (rule htab_for_ok [where i = c])
    have k: "key_of (hands ?b c) = InitKey (h_pvData (hands b c)) (h_eType (hands b c))
        (if TEST_FLAG (h_eFlag (hands b c)) PVRSRV_HANDLE_ALLOC_FLAG_PRIVATE then INDEX_TO_HANDLE p else IMG_NULL)"
      using e h'(4) by (simp add: key_of_def ParentIfPrivate_def)
    show "htab_for (key_of (hands ?b c)) c ?b"
      unfolding k by (rule htab_for_cong [OF hf]) (use e dt [rule_format, THEN key_of_data] in \<open>auto simp: hashed_def\<close>)
  qed
  moreover have "(K(p := K p @ [c])) j = [] \<and> sSiblings (h' j) = HandleListInit j IMG_NULL"
    if "j \<in> used b fl" "h_eType (h' j) = PVRSRV_HANDLE_TYPE_NONE" for j
    using that R(7) e p(2) c(5) h'(6) by auto
  ultimately have "hb_inv F s {} fl bl (K(p := K p @ [c])) d ?b"
    using R(1,2,5) h'(5) unfolding hb_inv_def u by (auto simp: size_ok_def hmem_ok_def unbatched_def HANDLES_BATCHED_def)
  then show thesis using that h'(1,2,4) dt by blast
qed

lemma kept_trans_data:
  assumes "kept D b b1" "same_base b1 b2" "ui32TotalHandCount b2 = ui32TotalHandCount b1" "\<forall>j. j \<notin> D \<longrightarrow> data_of (hands b2 j) = data_of (hands b1 j)"
  shows "kept D b b2"
proof -
  have "\<forall>j. j \<notin> D \<longrightarrow> h_eType (hands b2 j) = h_eType (hands b1 j)" using assms(4) by (simp add: data_of_def)
  then show ?thesis using assms by (auto simp: kept_def same_base_def)
qed

lemma PVRSRVAllocSubHandle_ok:
  assumes ok: "handle_ok F b" and t: "eType \<noteq> PVRSRV_HANDLE_TYPE_NONE"
  shows "\<exists>e h b'. PVRSRVAllocSubHandle pvData eType eFlag (INDEX_TO_HANDLE p) b = Some (e, h, b') \<and>
    alloc_spec F pvData eType eFlag (INDEX_TO_HANDLE p) b e h b' \<and> (live b p = None \<longrightarrow> e \<noteq> PVRSRV_OK)"
proof -
  obtain fl bl K d where inv: "hb_inv F (ui32FirstBatchIndexPlusOne b) {} fl bl K d b" and bl: "\<not> HANDLES_BATCHED b \<longrightarrow> bl = []"
    and st: "settled b" using ok by (auto simp: handle_ok_def)
  let ?b1 = "batch_failure (\<lambda>n. n + 1) b" and ?multi = "TEST_FLAG eFlag PVRSRV_HANDLE_ALLOC_FLAG_MULTI"
  let ?hP = "INDEX_TO_HANDLE p" let ?key = "if TEST_FLAG eFlag PVRSRV_HANDLE_ALLOC_FLAG_PRIVATE then ?hP else IMG_NULL"
  have inv1: "hb_inv F (ui32FirstBatchIndexPlusOne ?b1) {} fl bl K d ?b1" using inv by simp
  note ht = hb_invD(5) [OF inv]
  have failed: "alloc_spec F pvData eType eFlag ?hP b e IMG_NULL ?b1" if "e \<noteq> PVRSRV_OK" for e
    by (rule alloc_spec_failed) (use ok that in \<open>auto simp: same_base_def\<close>)
  show ?thesis
  proof (cases "live b p")
    case None
    then show ?thesis using failed by (auto simp: PVRSRVAllocSubHandle_def GetHandleStructure_live Let_def)
  next
    case (Some pv)
    have gp: "GetHandleStructure ?hP PVRSRV_HANDLE_TYPE_NONE ?b1 = Inr p" using Some by (cases pv) (simp add: GetHandleStructure_live)
    obtain hF where hF: "FindHandle pvData eType ?key b = Some hF" using FindHandle_eq(4) [OF ht] by blast
    show ?thesis
    proof (cases "?multi \<or> hF = IMG_NULL")
      case False
      then obtain i where i: "hF = INDEX_TO_HANDLE i" "live b i = Some (pvData, eType, h_eFlag (hands b i), ParentHandle (hands b i))"
        using found_live [OF ht hF] by blast
      have g: "GetHandleStructure (INDEX_TO_HANDLE i) eType ?b1 = Inr i" using i(2) by (simp add: GetHandleStructure_live)
      have R: "PVRSRVAllocSubHandle pvData eType eFlag ?hP b =
        (if TEST_FLAG (h_eFlag (hands b i) AND eFlag) PVRSRV_HANDLE_ALLOC_FLAG_SHARED \<and> ParentHandle (hands b i) = ?hP
         then Some (PVRSRV_OK, INDEX_TO_HANDLE i, batch_failure (\<lambda>n. n - 1) ?b1)
         else Some (PVRSRV_ERROR_HANDLE_NOT_SHAREABLE, IMG_NULL, ?b1))"
        using False hF i g gp by (simp add: PVRSRVAllocSubHandle_def Let_def)
      show ?thesis
        using R alloc_spec_shared [OF ok i(2), of eFlag ?hP] failed [of PVRSRV_ERROR_HANDLE_NOT_SHAREABLE] Some by (simp split: if_splits)
    next
      case True
      have R: "PVRSRVAllocSubHandle pvData eType eFlag ?hP b = do {
          (eError, hHandle, b2) \<leftarrow> AllocHandle pvData eType eFlag ?key ?b1;
          if eError \<noteq> PVRSRV_OK then Some (eError, IMG_NULL, b2)
          else do {
            b3 \<leftarrow> AdoptChild (HANDLE_TO_INDEX ?hP) (HANDLE_TO_INDEX hHandle) b2;
            Some (PVRSRV_OK, hHandle, batch_failure (\<lambda>n. n - 1) b3) } }"
        using True hF gp by (auto simp: PVRSRVAllocSubHandle_def Let_def)
      have key: "?multi \<or> (\<forall>j \<in> hashed ?b1 {}. key_of (hands ?b1 j) \<noteq> InitKey pvData eType ?key)"
        using True hF FindHandle_eq(1) [OF ht, of pvData eType ?key] by auto
      show ?thesis
      proof (rule AllocHandle_inv [OF inv1 t key])
        fix i nx g fl' b'
        assume A: "AllocHandle pvData eType eFlag ?key ?b1 = Some (PVRSRV_OK, INDEX_TO_HANDLE i, b')"
          and u: "i \<notin> used ?b1 fl" "used b' fl' = insert i (used ?b1 fl)" and k: "kept {i} ?b1 b'"
          and rest: "hb_rest F (ui32FirstBatchIndexPlusOne b') fl' (if HANDLES_BATCHED ?b1 then i # bl else bl) (K(i := [])) (deepen i d) b'"
          and hf: "htab_for (InitKey pvData eType ?key) i b'" and fresh: "hands b' i = fresh_handle nx g i pvData eType eFlag" and st': "settled b'"
        have pu: "p \<in> used b fl" "p \<noteq> i" using used_live [OF inv, of p] Some u(1) by auto
        have lp: "live b' p = live b p" using kept_live [OF k, of p] pu(2) by simp
        then have tp: "h_eType (hands b' p) \<noteq> PVRSRV_HANDLE_TYPE_NONE" using Some by (auto simp: live_def split: if_splits)
        obtain h' where h': "AdoptChild p i b' = Some (b'\<lparr>hands := h'\<rparr>)" "\<forall>j. core (h' j) = core (hands b' j)"
          "\<forall>j. j \<noteq> i \<longrightarrow> data_of (h' j) = data_of (hands b' j)" "ParentHandle (h' i) = INDEX_TO_HANDLE p"
          "hb_inv F (ui32FirstBatchIndexPlusOne b') {} fl' (if HANDLES_BATCHED ?b1 then i # bl else bl) ((K(i := []))(p := (K(i := [])) p @ [i])) (deepen i d) (b'\<lparr>hands := h'\<rparr>)"
          by (rule adopt_inv [OF rest _ tp, of i]) (use u pu fresh hf t in auto)
        let ?b3 = "b'\<lparr>hands := h'\<rparr>"
        have k3: "kept {i} ?b1 ?b3" by (rule kept_trans_data [OF k]) (use h'(3) in \<open>auto simp: same_base_def\<close>)
        have "HANDLES_BATCHED ?b3 = HANDLES_BATCHED b" using k3 same_base_batched by (auto simp: kept_def)
        then have ok': "handle_ok F ?b3" using bl st' by (intro handle_okI [of F ?b3, simplified, OF h'(5)]) (auto simp: settled_def)
        have l: "live b i = None" using u(1) used_live [OF inv, of i] by (metis batch_failure_frame(6))
        have e: "h_eType (h' i) = eType" "h_pvData (h' i) = pvData" "h_eFlag (h' i) = eFlag" using h'(2) fresh by (simp_all add: core_def)
        have "live ?b3 = (live ?b1)(i \<mapsto> (pvData, eType, eFlag, ?hP))"
        proof -
          have "i \<in> used ?b3 fl'" using u(2) by (auto simp: used_def)
          then show ?thesis using live_new [OF k3, of fl'] t e h'(4) by simp
        qed
        then show ?thesis
          using R A h'(1) alloc_spec_new [OF ok' _ l] k3 Some by (simp add: kept_def)
      next
        fix e fl' b'
        assume A: "AllocHandle pvData eType eFlag ?key ?b1 = Some (e, IMG_NULL, b')" "e \<noteq> PVRSRV_OK"
          and I: "hb_inv F (ui32FirstBatchIndexPlusOne b') {} fl' bl K d b'" and k: "kept {} ?b1 b'" and st': "settled ?b1 \<longrightarrow> settled b'"
        have "HANDLES_BATCHED b' = HANDLES_BATCHED b" using k same_base_batched by (auto simp: kept_def)
        then have ok': "handle_ok F b'" using bl st st' by (intro handle_okI [OF I]) auto
        have "live b' = live b" using kept_live [OF k] by (auto simp: fun_eq_iff)
        then show ?thesis using R A alloc_spec_failed [OF ok' A(2)] k by (simp add: kept_def)
      qed
    qed
  qed
qed

section \<open>Release\<close>

lemma freed_live:
  assumes "freed_to F s X fl bl K d D b b'"
  shows "live b' = (\<lambda>j. if j \<in> D then None else live b j)"
proof (rule ext)
  fix j
  have "ui32TotalHandCount b' = ui32TotalHandCount b" using assms by (simp add: freed_to_def same_shape_def)
  then show "live b' j = (if j \<in> D then None else live b j)"
    using assms by (auto simp: freed_to_def live_def data_of_def)
qed

lemma FreeHandle_ok:
  assumes ok: "handle_ok F b" and p: "live b p \<noteq> None"
  shows "\<exists>b'. FreeHandle p b = Some (PVRSRV_OK, b') \<and> handle_ok F b' \<and> HANDLES_BATCHED b' = HANDLES_BATCHED b \<and> same_shape b b' \<and>
    live b' = (\<lambda>j. if j \<in> subtree (live b) p then None else live b j)"
proof -
  obtain fl bl K d where inv: "hb_inv F (ui32FirstBatchIndexPlusOne b) {} fl bl K d b" and bl: "\<not> HANDLES_BATCHED b \<longrightarrow> bl = []"
    using ok by (auto simp: handle_ok_def)
  have "h_eType (hands b p) \<noteq> PVRSRV_HANDLE_TYPE_NONE" using p by (auto simp: live_def)
  then obtain b' where b': "free_run (Free_Handle p) b = Some (PVRSRV_OK, b')"
    "freed_to F (ui32FirstBatchIndexPlusOne b) {} fl bl K d (desc K p) b b'"
    using FreeHandle_inv [OF inv used_live [OF inv p]] by auto
  then obtain fl' where I: "hb_inv F (ui32FirstBatchIndexPlusOne b') {} fl' bl (\<lambda>q. filter (\<lambda>k. k \<notin> desc K p) (K q)) d b'"
    and hb: "HANDLES_BATCHED b' = HANDLES_BATCHED b" "same_shape b b'"
    by (auto simp: freed_to_def same_shape_def HANDLES_BATCHED_def)
  have "handle_ok F b'" using bl hb ok by (intro handle_okI [OF I]) (auto simp: handle_ok_def settled_def same_shape_def)
  then show ?thesis using b'(1) hb freed_live [OF b'(2)] subtree_desc [OF inv p] by (simp add: FreeHandle_def)
qed

section \<open>Batches\<close>

lemma batch_head:
  assumes "hb_inv F s X fl (i # bl) K d b"
  shows "s = i + 1" "s \<noteq> 0" "s - 1 = i" "i \<in> used b fl" "i < ui32TotalHandCount b" "i \<notin> set bl"
    "eInternalFlag (hands b i) = (if h_eType (hands b i) = PVRSRV_HANDLE_TYPE_NONE then 3 else 1)"
    "bchain (hands b) (ui32NextIndexPlusOne (hands b i)) bl" "distinct bl" "set bl \<subseteq> used b fl"
    "\<And>j. j \<in> used b fl \<Longrightarrow> j \<noteq> i \<Longrightarrow> mark_ok bl j (hands b j)"
proof -
  have B: "batch_ok s fl (i # bl) b" "size_ok b" using hb_invD [OF assms] by auto
  then show s: "s = i + 1" and u: "i \<in> used b fl" and "i \<notin> set bl" "bchain (hands b) (ui32NextIndexPlusOne (hands b i)) bl"
    "distinct bl" "set bl \<subseteq> used b fl" by (auto simp: batch_ok_def)
  then show t: "i < ui32TotalHandCount b" by (simp add: used_def)
  show "s \<noteq> 0" using index_plus_one [OF B(2) t] s by simp
  show "s - 1 = i" using s by simp
  have "mark_ok (i # bl) i (hands b i)" using B(1) u by (simp add: batch_ok_def)
  then show "eInternalFlag (hands b i) = (if h_eType (hands b i) = PVRSRV_HANDLE_TYPE_NONE then 3 else 1)" by (simp add: mark_ok_def)
  show "mark_ok bl j (hands b j)" if "j \<in> used b fl" "j \<noteq> i" for j
    using B(1) that unfolding batch_ok_def mark_ok_def by auto
qed

text \<open>Taking an allocated handle out of the batch.\<close>

lemma unbatch_inv:
  assumes inv: "hb_inv F s X fl (i # bl) K d b" and t: "h_eType (hands b i) \<noteq> PVRSRV_HANDLE_TYPE_NONE"
  shows "hb_inv F (ui32NextIndexPlusOne (hands b i)) X fl bl K d
    (b\<lparr>hands := (hands b)(i := (hands b i)\<lparr>ui32NextIndexPlusOne := 0, eInternalFlag := 0\<rparr>)\<rparr>)" (is "hb_inv F ?s X fl bl K d ?b")
proof -
  note P = hb_invD [OF inv] and H = batch_head [OF inv]
  let ?h = "(hands b)(i := (hands b i)\<lparr>ui32NextIndexPlusOne := 0, eInternalFlag := 0\<rparr>)"
  have u: "used ?b fl = used b fl" by (simp add: used_def)
  have ni: "i \<notin> set fl" using H(4) by (simp add: used_def)
  have "free_ok ?b fl" by (rule free_ok_cong [OF P(3)]) (use ni in auto)
  moreover have "links_ok ?h (used b fl) K d" by (rule links_ok_cong [OF P(4)]) auto
  moreover have "htab_ok ?b X" by (rule htab_ok_cong [OF P(5)]) (auto simp: hashed_def key_of_def ParentIfPrivate_def ParentHandle_def)
  moreover have "batch_ok ?s fl bl ?b"
  proof -
    have "bchain ?h ?s bl = bchain (hands b) ?s bl" by (rule bchain_cong) (use H(6) in auto)
    moreover have "mark_ok bl j (?h j)" if "j \<in> used b fl" for j
      using H(6,11) that t by (cases "j = i") (auto simp: mark_ok_def)
    ultimately show ?thesis unfolding batch_ok_def u using H(8-10) by (simp del: fun_upd_apply)
  qed
  moreover have "K j = [] \<and> sSiblings (hands ?b j) = HandleListInit j IMG_NULL"
    if "j \<in> used b fl" "h_eType (hands ?b j) = PVRSRV_HANDLE_TYPE_NONE" for j
    using P(8) [of j] that t by (cases "j = i") auto
  ultimately show ?thesis using P(1,2,6) by (intro hb_invI) (auto simp: size_ok_def hmem_ok_def unbatched_def u)
qed

text \<open>A handle that was freed during the batch goes to the free list when the batch ends.\<close>

lemma FreeHandle_partial:
  assumes inv: "hb_inv F s X fl (i # bl) K d b" and t: "h_eType (hands b i) = PVRSRV_HANDLE_TYPE_NONE"
    and b1: "b1 = b\<lparr>hands := (hands b)(i := (hands b i)\<lparr>ui32NextIndexPlusOne := 0\<rparr>)\<rparr>"
  obtains b2 where "FreeHandle i b1 = Some (PVRSRV_OK, b2)" "hb_inv F (ui32NextIndexPlusOne (hands b i)) X (fl @ [i]) bl K d b2"
    "same_shape b b2" "live b2 = live b"
proof -
  note P = hb_invD [OF inv] and H = batch_head [OF inv]
  let ?s = "ui32NextIndexPlusOne (hands b i)"
  have e: "eInternalFlag (hands b i) = 3" "K i = []" "sSiblings (hands b i) = HandleListInit i IMG_NULL" using H(4,7) t P(8) by auto
  have ni: "i \<notin> set fl" using H(4) by (simp add: used_def)
  have ch: "ring (hands b) i (K i)" "hl_hParent (sChildren (hands b i)) = INDEX_TO_HANDLE i" using P(4) H(4) by (auto simp: links_ok_def)
  then have nx: "ui32Next (sChildren (hands b i)) = i" using e(2) by (simp add: ring_def link_def)
  have sz: "size_ok b1" "\<not> bPurgingEnabled b1" using P(1,2) by (auto simp: b1 size_ok_def unbatched_def)
  have f1: "free_ok b1 fl" by (rule free_ok_cong [OF P(3)]) (use ni in \<open>auto simp: b1\<close>)
  obtain h' x y c' b2 where af: "append_free i b1 = Some b2"
    "b2 = b1\<lparr>hands := h', ui32FirstFreeIndex := x, ui32LastFreeIndexPlusOne := y,
       ui32FreeHandCount := of_nat (length fl + 1), ui32FreeHandBlockCount := c'\<rparr>"
    "free_ok b2 (fl @ [i])" "\<forall>j. j \<notin> set fl \<longrightarrow> h' j = hands b1 j" "\<forall>j. h_eType (h' j) = h_eType (hands b1 j)"
    "\<forall>j. data_of (h' j) = data_of (hands b1 j)"
    by (rule append_free_ok [OF sz(1) f1, of i]) (use H(5) ni t sz(2) in \<open>auto simp: b1\<close>)
  have ty: "hands b1 i\<lparr>h_eType := PVRSRV_HANDLE_TYPE_NONE\<rparr> = hands b1 i" using t by (cases "hands b i") (simp add: b1)
  have b1u: "b1\<lparr>hands := (hands b1)(i := (hands b1 i)\<lparr>h_eType := PVRSRV_HANDLE_TYPE_NONE\<rparr>)\<rparr> = b1" unfolding ty by simp
  have ret: "retire_handle i b1 = Some b2"
    using af(1) H(5) e(1) unfolding retire_handle_def upd_def
    by (simp add: b1u hnd_def BATCHED_HANDLE_def BATCHED_HANDLE_PARTIALLY_FREE_def) (simp add: b1 e(1))
  have it: "free_run (Iterate_Children i i) b1 = Some (PVRSRV_OK, b1)" by (subst free_run.simps) simp
  have ho: "hash_out (hands b1 i) b1 = Some b1" using e(1) by (simp add: hash_out_def b1 BATCHED_HANDLE_PARTIALLY_FREE_def)
  have hi: "hnd i b1 = Some (hands b1 i)" using H(5) by (simp add: hnd_def b1)
  have ul: "UnlinkFromParent i b1 = Some b1"
    using hi e(3) by (simp add: UnlinkFromParent_def HandleListRemove_def HandleListIsEmpty_def b1 HandleListInit_def)
  have ci: "HANDLE_TO_INDEX (hl_hParent (sChildren (hands b1 i))) = i" "ui32Next (sChildren (hands b1 i)) = i"
    using ch nx by (simp_all add: b1)
  have R: "FreeHandle i b1 = Some (PVRSRV_OK, b2)"
    unfolding FreeHandle_def by (subst free_run.simps) (simp add: hi ho ul ci it ret)
  have u: "used b2 (fl @ [i]) = used b fl - {i}" by (auto simp: used_def af(2) b1)
  have same: "h' j = hands b j" if "j \<in> used b fl - {i}" for j using af(4) that by (auto simp: used_def b1)
  have dt: "data_of (h' j) = data_of (hands b j)" for j using af(6) by (simp add: b1 data_of_def ParentHandle_def)
  have de: "h_eType (h' j) = h_eType (hands b j)" "h_eFlag (h' j) = h_eFlag (hands b j)" "h_pvData (h' j) = h_pvData (hands b j)"
    "ParentHandle (h' j) = ParentHandle (hands b j)" for j using dt [of j] by (simp_all add: data_of_def)
  have I: "hb_inv F ?s X (fl @ [i]) bl K d b2"
  proof (rule hb_invI)
    show "links_ok (hands b2) (used b2 (fl @ [i])) K d"
      unfolding u by (rule links_ok_cong [OF links_ok_drop [OF P(4) e(2,3)]]) (use same af(2) in auto)
    show "htab_ok b2 X"
      by (rule htab_ok_cong [OF P(5)]) (use de key_of_data [OF dt] in \<open>auto simp: hashed_def af(2) b1\<close>)
    have "bchain h' ?s bl = bchain (hands b) ?s bl" by (rule bchain_cong) (metis same H(6,10) DiffI singletonD subsetD)
    moreover have "set bl \<subseteq> used b fl - {i}" using H(6,10) by auto
    moreover have "mark_ok bl j (h' j)" if "j \<in> used b fl - {i}" for j using same [OF that] H(11) [of j] that by simp
    ultimately show "batch_ok ?s (fl @ [i]) bl b2" unfolding batch_ok_def u using H(8,9) by (simp add: af(2))
    show "K j = [] \<and> sSiblings (hands b2 j) = HandleListInit j IMG_NULL"
      if "j \<in> used b2 (fl @ [i])" "h_eType (hands b2 j) = PVRSRV_HANDLE_TYPE_NONE" for j
      using that P(8) [of j] same unfolding u by (simp add: af(2))
  qed (use P(1,2,6) af(3) in \<open>auto simp: size_ok_def hmem_ok_def unbatched_def af(2) b1\<close>)
  show thesis
    by (rule that [OF R I]) (use de P(1) in \<open>auto simp: same_shape_def unbatched_def af(2) b1 live_def fun_eq_iff\<close>)
qed

lemma desc_minus:
  "desc (\<lambda>q. filter (\<lambda>k. k \<notin> desc K i) (K q)) x \<union> desc K i = desc K x \<union> desc K i"
proof -
  let ?K = "\<lambda>q. filter (\<lambda>k. k \<notin> desc K i) (K q)"
  have "j \<in> desc K x" if "j \<in> desc ?K x" for j
    using that by induction (auto intro: desc_kid)
  moreover have "j \<in> desc ?K x \<union> desc K i" if "j \<in> desc K x" for j
    using that
  proof induction
    case (desc_kid j k)
    then show ?case
    proof (cases "k \<in> desc K i \<or> j \<in> desc K i")
      case False
      then have "j \<in> desc ?K x" "k \<in> set (?K j)" using desc_kid by auto
      then show ?thesis by (blast intro: desc.desc_kid)
    qed (use desc_kid in \<open>auto intro: desc.desc_kid\<close>)
  qed simp
  ultimately show ?thesis by blast
qed

lemma live_unbatched:
  "live (b\<lparr>hands := (hands b)(i := (hands b i)\<lparr>ui32NextIndexPlusOne := 0, eInternalFlag := 0\<rparr>)\<rparr>) = live b"
  by (auto simp: live_def fun_eq_iff ParentHandle_def)

lemma batch_loop_ok:
  assumes "hb_inv F s {} fl bl K d b"
  shows "\<exists>b' fl' K'. batch_loop c s b = Some b' \<and> hb_inv F 0 {} fl' [] K' d b' \<and> same_shape b b' \<and>
    live b' = (if c then live b else (\<lambda>j. if \<exists>i \<in> set bl. j \<in> desc K i then None else live b j))"
  using assms
proof (induction bl arbitrary: s fl K b)
  case Nil
  then have "s = 0" using hb_invD(7) [OF Nil] by (simp add: batch_ok_def)
  then show ?case using Nil by (subst batch_loop.simps) (auto simp: fun_eq_iff)
next
  case (Cons i bl)
  note H = batch_head [OF Cons.prems]
  let ?s = "ui32NextIndexPlusOne (hands b i)"
  let ?b1 = "b\<lparr>hands := (hands b)(i := (hands b i)\<lparr>ui32NextIndexPlusOne := 0\<rparr>)\<rparr>"
  let ?b2 = "b\<lparr>hands := (hands b)(i := (hands b i)\<lparr>ui32NextIndexPlusOne := 0, eInternalFlag := 0\<rparr>)\<rparr>"
  have step: "batch_loop c s b = do {
      b2 \<leftarrow> (if \<not> c \<or> h_eType (hands b i) = PVRSRV_HANDLE_TYPE_NONE
             then do { b' \<leftarrow> (if h_eType (hands b i) \<noteq> PVRSRV_HANDLE_TYPE_NONE then Some ?b2 else Some ?b1); r \<leftarrow> FreeHandle i b'; Some (snd r) }
             else Some ?b2);
      batch_loop c ?s b2 }"
    using H(2,3,5,7)
    by (subst batch_loop.simps)
       (simp add: hnd_def upd_def BATCHED_HANDLE_PARTIALLY_FREE_def CLEAR_INTERNAL_FLAG_def cong: if_cong)
  have go: ?case
    if b2: "batch_loop c s b = batch_loop c ?s b2" "hb_inv F ?s {} fl2 bl K2 d b2" "same_shape b b2"
      and l2: "(if c then live b2 else (\<lambda>j. if \<exists>i \<in> set bl. j \<in> desc K2 i then None else live b2 j)) =
        (if c then live b else (\<lambda>j. if \<exists>i \<in> set (i # bl). j \<in> desc K i then None else live b j))" for fl2 K2 b2
    using Cons.IH [OF b2(2)] b2(1,3) l2 same_shape_trans by (metis (no_types, lifting))
  show ?case
  proof (cases "h_eType (hands b i) = PVRSRV_HANDLE_TYPE_NONE")
    case True
    obtain b2 where b2: "FreeHandle i ?b1 = Some (PVRSRV_OK, b2)" "hb_inv F ?s {} (fl @ [i]) bl K d b2" "same_shape b b2" "live b2 = live b"
      by (rule FreeHandle_partial [OF Cons.prems True refl])
    have "K i = []" using hb_invD(8) [OF Cons.prems H(4) True] by simp
    then have "desc K i = {i}" using desc_unfold [of K i] by simp
    moreover have "live b i = None" using True by (simp add: live_def)
    ultimately show ?thesis by (intro go [OF _ b2(2,3)]) (use step True b2(1,4) in \<open>auto simp: fun_eq_iff\<close>)
  next
    case False
    note I2 = unbatch_inv [OF Cons.prems False]
    show ?thesis
    proof (cases c)
      case True
      show ?thesis
        by (rule go [OF _ I2]) (use step False True in \<open>simp_all add: same_shape_def live_unbatched\<close>)
    next
      case nc: False
      have iu: "i \<in> used ?b2 fl" using H(4) by (simp add: used_def)
      obtain b3 where f: "free_run (Free_Handle i) ?b2 = Some (PVRSRV_OK, b3)" "freed_to F ?s {} fl bl K d (desc K i) ?b2 b3"
        using FreeHandle_inv [OF I2 iu] False by auto
      let ?K = "\<lambda>q. filter (\<lambda>k. k \<notin> desc K i) (K q)"
      obtain fl3 where I3: "hb_inv F ?s {} fl3 bl ?K d b3" and sh: "same_shape b b3"
        using f(2) by (auto simp: freed_to_def same_shape_def)
      have l3: "live b3 = (\<lambda>j. if j \<in> desc K i then None else live b j)" using freed_live [OF f(2)] unfolding live_unbatched .
      have ds: "(\<exists>x \<in> set bl. j \<in> desc ?K x) \<or> j \<in> desc K i \<longleftrightarrow> (\<exists>x \<in> set bl. j \<in> desc K x) \<or> j \<in> desc K i" for j
        using desc_minus [of K i] by (metis Un_iff)
      show ?thesis
      proof (rule go [OF _ I3 sh])
        show "batch_loop c s b = batch_loop c ?s b3" using step False nc f(1) by (simp add: FreeHandle_def)
        have "(if \<exists>i \<in> set bl. j \<in> desc ?K i then None else live b3 j) = (if \<exists>x \<in> set (i # bl). j \<in> desc K x then None else live b j)" for j
          using ds [of j] unfolding l3 by auto
        then show "(if c then live b3 else (\<lambda>j. if \<exists>i \<in> set bl. j \<in> desc ?K i then None else live b3 j)) =
          (if c then live b else (\<lambda>j. if \<exists>x \<in> set (i # bl). j \<in> desc K x then None else live b j))" using nc by simp
      qed
    qed
  qed
qed

text \<open>The allocated handles of the current batch.\<close>

definition batched :: "HANDLE_BASE \<Rightarrow> IMG_UINT32 set" where
  "batched b = {i. live b i \<noteq> None \<and> BATCHED_HANDLE (hands b i)}"

lemma batched_bl:
  assumes "hb_inv F s X fl bl K d b" shows "batched b = {i \<in> set bl. live b i \<noteq> None}"
proof -
  have "i \<in> batched b \<longleftrightarrow> i \<in> set bl" if l: "live b i \<noteq> None" for i
  proof -
    have "mark_ok bl i (hands b i)" "h_eType (hands b i) \<noteq> PVRSRV_HANDLE_TYPE_NONE"
      using hb_invD(7) [OF assms] used_live [OF assms l] l by (auto simp: batch_ok_def live_def)
    then show ?thesis using l by (auto simp: batched_def mark_ok_def BATCHED_HANDLE_def split: if_splits)
  qed
  then show ?thesis by (auto simp: batched_def)
qed

lemma batch_end_ok:
  assumes ok: "handle_ok F b" and hb: "HANDLES_BATCHED b"
  shows "\<exists>b'. PVRSRVHandleBatchCommitOrRelease c b = Some (PVRSRV_OK, b') \<and> handle_ok F b' \<and> \<not> HANDLES_BATCHED b' \<and> batched b' = {} \<and>
    live b' = (if c \<and> ui32BatchHandAllocFailures b = 0 then live b
               else (\<lambda>j. if \<exists>i \<in> batched b. j \<in> subtree (live b) i then None else live b j))"
proof -
  obtain fl bl K d where inv: "hb_inv F (ui32FirstBatchIndexPlusOne b) {} fl bl K d b" and st: "settled b"
    using ok by (auto simp: handle_ok_def)
  let ?c = "if ui32BatchHandAllocFailures b \<noteq> 0 then False else c"
  obtain b1 fl1 K1 where l: "batch_loop ?c (ui32FirstBatchIndexPlusOne b) b = Some b1" "hb_inv F 0 {} fl1 [] K1 d b1"
    "live b1 = (if ?c then live b else (\<lambda>j. if \<exists>i \<in> set bl. j \<in> desc K i then None else live b j))" and sh: "same_shape b b1"
    using batch_loop_ok [OF inv, of ?c] by blast
  let ?b = "b1\<lparr>ui32HandBatchSize := 0, ui32FirstBatchIndexPlusOne := 0, ui32TotalHandCountPreBatch := 0, ui32BatchHandAllocFailures := 0\<rparr>"
  have R: "PVRSRVHandleBatchCommitOrRelease c b = Some (PVRSRV_OK, ?b)"
    using hb l(1) by (simp add: PVRSRVHandleBatchCommitOrRelease_def Let_def)
  have I: "hb_inv F (ui32FirstBatchIndexPlusOne ?b) {} fl1 [] K1 d ?b" using l(2) hb_inv_cong [of ?b b1] hb_invD(1) [OF l(2)] by (simp add: unbatched_def HANDLES_BATCHED_def)
  have lv: "live ?b = live b1" by (simp add: live_def fun_eq_iff)
  have "(if \<exists>i \<in> set bl. j \<in> desc K i then None else live b j) = (if \<exists>i \<in> batched b. j \<in> subtree (live b) i then None else live b j)" for j
  proof (cases "live b j")
    case (Some v)
    have "i \<in> batched b \<and> desc K i = subtree (live b) i" if i: "i \<in> set bl" "j \<in> desc K i" for i
    proof -
      have "live b i \<noteq> None"
      proof
        assume n: "live b i = None"
        have u: "i \<in> used b fl" using i(1) hb_invD(7) [OF inv] by (auto simp: batch_ok_def)
        then have "K i = []" using hb_invD(8) [OF inv u] n by (auto simp: live_def used_def split: if_splits)
        then have "j = i" using i(2) desc_unfold [of K i] by simp
        then show False using n Some by simp
      qed
      then show ?thesis using subtree_desc [OF inv] batched_bl [OF inv] i(1) by auto
    qed
    moreover have "i \<in> set bl \<and> desc K i = subtree (live b) i" if "i \<in> batched b" for i
      using that subtree_desc [OF inv] batched_bl [OF inv] by auto
    ultimately show ?thesis by metis
  qed simp
  moreover have "batched ?b = {}" using batched_bl [OF I] by simp
  moreover have "handle_ok F ?b" by (rule handle_okI [OF I]) (use st sh in \<open>auto simp: settled_def same_shape_def\<close>)
  ultimately show ?thesis using R l(3) lv by (auto simp: HANDLES_BATCHED_def)
qed

section \<open>Creating and deleting a base\<close>

lemma free_count: "hb_inv F s X fl bl K d b \<Longrightarrow> unat (ui32FreeHandCount b) = length fl"
proof -
  assume "hb_inv F s X fl bl K d b"
  then have f: "free_ok b fl" by (rule hb_invD)
  have "unat (ui32TotalHandCount b) < 2 ^ LENGTH(32)" by (rule unsigned_less)
  then have "length fl < 2 ^ 32" using free_count_zero(2) [OF f] by simp
  then show ?thesis using f by (simp add: free_ok_def unat_of_nat)
qed

lemma all_free:
  assumes ok: "handle_ok F b" and c: "ui32FreeHandCount b = ui32TotalHandCount b" shows "live b = Map.empty"
proof (rule ext)
  fix i
  obtain fl bl K d where inv: "hb_inv F (ui32FirstBatchIndexPlusOne b) {} fl bl K d b" using ok by (auto simp: handle_ok_def)
  have f: "free_ok b fl" by (rule hb_invD(3) [OF inv])
  have "card (unat ` set fl) = unat (ui32TotalHandCount b)"
  proof -
    have "card (unat ` set fl) = card (set fl)" by (rule card_image) (simp add: inj_on_def word_unat_eq_iff)
    then show ?thesis using f free_count [OF inv] c by (simp add: free_ok_def distinct_card)
  qed
  moreover have "unat ` set fl \<subseteq> {..< unat (ui32TotalHandCount b)}" using f by (auto simp: free_ok_def word_less_nat_alt)
  ultimately have "unat ` set fl = {..< unat (ui32TotalHandCount b)}" by (intro card_subset_eq) auto
  then have all: "unat i < unat (ui32TotalHandCount b) \<Longrightarrow> i \<in> set fl" by (metis (no_types, lifting) image_iff lessThan_iff word_unat_eq_iff)
  show "live b i = None"
  proof (rule ccontr)
    assume "live b i \<noteq> None"
    then have "i \<in> used b fl" by (rule used_live [OF inv])
    then show False using all by (simp add: used_def word_less_nat_alt)
  qed
qed

lemma free_all_loop_ok:
  assumes "handle_ok F b" "\<not> HANDLES_BATCHED b" "\<forall>i \<in> set is. i < ui32TotalHandCount b" "\<forall>i. live b i \<noteq> None \<longrightarrow> i \<in> set is"
  shows "\<exists>b'. free_all_loop is b = Some (PVRSRV_OK, b') \<and> handle_ok F b' \<and> live b' = Map.empty"
  using assms
proof (induction "is" arbitrary: b)
  case Nil
  then have "live b = Map.empty" by (intro ext) (metis empty_iff list.set(1))
  then show ?case using Nil by simp
next
  case (Cons i "is")
  have h: "hnd i b = Some (hands b i)" using Cons.prems(3) by (simp add: hnd_def)
  show ?case
  proof (cases "live b i")
    case None
    then have t: "h_eType (hands b i) = PVRSRV_HANDLE_TYPE_NONE" using Cons.prems(3) by (simp add: live_def split: if_splits)
    have "\<forall>j. live b j \<noteq> None \<longrightarrow> j \<in> set is" using Cons.prems(4) None by (metis set_ConsD)
    then show ?thesis using Cons.IH [of b] Cons.prems h t by simp
  next
    case (Some v)
    then have t: "h_eType (hands b i) \<noteq> PVRSRV_HANDLE_TYPE_NONE" by (auto simp: live_def split: if_splits)
    obtain b' where b': "FreeHandle i b = Some (PVRSRV_OK, b')" "handle_ok F b'" "HANDLES_BATCHED b' = HANDLES_BATCHED b" "same_shape b b'"
      "live b' = (\<lambda>j. if j \<in> subtree (live b) i then None else live b j)"
      using FreeHandle_ok [OF Cons.prems(1), of i] Some by auto
    show ?thesis
    proof (cases "ui32FreeHandCount b' = ui32TotalHandCount b'")
      case True
      then show ?thesis using all_free [OF b'(2)] b'(1,2) h t by simp
    next
      case False
      have "\<forall>j. live b' j \<noteq> None \<longrightarrow> j \<in> set is" unfolding b'(5) using Cons.prems(4) subtree_self [of i "live b"] by (metis set_ConsD)
      then show ?thesis using Cons.IH [OF b'(2)] Cons.prems(2,3) b' h t False by (auto simp: same_shape_def)
    qed
  qed
qed

lemma FreeAllHandles_ok:
  assumes "handle_ok F b" "\<not> HANDLES_BATCHED b"
  shows "\<exists>b'. FreeAllHandles b = Some (PVRSRV_OK, b') \<and> handle_ok F b' \<and> live b' = Map.empty"
proof (cases "ui32FreeHandCount b = ui32TotalHandCount b")
  case True
  then show ?thesis using assms all_free by (auto simp: FreeAllHandles_def)
next
  case False
  have s: "set (map of_nat [0 ..< unat (ui32TotalHandCount b)]) = {i. 0 \<le> i \<and> i < ui32TotalHandCount b}"
    using set_word_upt [of 0] by simp
  have "\<exists>b'. free_all_loop (map of_nat [0 ..< unat (ui32TotalHandCount b)]) b = Some (PVRSRV_OK, b') \<and> handle_ok F b' \<and> live b' = Map.empty"
    by (rule free_all_loop_ok [OF assms]) (unfold s, auto simp: live_def split: if_splits)
  then show ?thesis using False by (simp add: FreeAllHandles_def)
qed

lemma FreeHandleArray_ok:
  assumes "size_ok b" "hmem_ok F b"
  obtains b' where "FreeHandleArray b = Some (PVRSRV_OK, b')" "psHashTab b' = psHashTab b" "psBase b' = psBase b"
    "blocks (hb_os b') = (case psHashTab b of None \<Rightarrow> {#} | Some t \<Rightarrow> hash_blocks t) + ({#psBase b#} + F)"
proof -
  let ?H = "(case psHashTab b of None \<Rightarrow> {#} | Some t \<Rightarrow> hash_blocks t)" and ?t = "ui32TotalHandCount b"
  have M: "os_ok (hb_os b)" "blocks (hb_os b) = ?H + ({#psBase b#} + (if psHandleArray b = IMG_NULL then {#} else {#psHandleArray b#}) + mset (psHandleBlocks b) + F)"
    "IMG_NULL \<notin> set (psHandleBlocks b)" "length (psHandleBlocks b) = unat (INDEX_TO_BLOCK_INDEX ?t)"
    "?t = 0 \<longrightarrow> psHandleArray b = IMG_NULL" using assms(2) by (simp_all add: hmem_ok_def)
  show thesis
  proof (cases "?t = 0")
    case True
    then have "psHandleBlocks b = []" using M(4) by (simp add: block_index)
    then show thesis using True M(2,5) that [of b] by (simp add: FreeHandleArray_def ReallocHandleArray_def Let_def)
  next
    case False
    let ?s = "free_blocks (psHandleBlocks b) (hb_os b)"
    let ?s' = "if psHandleArray b \<noteq> IMG_NULL then OSFreeMem (psHandleArray b) ?s else ?s"
    have "filter (\<lambda>p. p \<noteq> IMG_NULL) (psHandleBlocks b) = psHandleBlocks b" using M(3) by (auto intro!: filter_True)
    then have fb: "blocks ?s = ?H + ({#psBase b#} + (if psHandleArray b = IMG_NULL then {#} else {#psHandleArray b#}) + F)"
      using free_blocks_frame [OF M(1), of "psHandleBlocks b"] M(2) by (simp add: add.commute add.left_commute)
    have m: "?t mod HANDLE_BLOCK_SIZE = 0" using assms(1) by (simp add: size_ok_def)
    have i0: "unat (INDEX_TO_BLOCK_INDEX 0) = 0" by (simp add: block_index)
    have n0: "\<not> (0 > ?t)" by simp
    have "\<exists>b'. FreeHandleArray b = Some (PVRSRV_OK, b') \<and> psHashTab b' = psHashTab b \<and> psBase b' = psBase b \<and> hb_os b' = ?s'"
      using False m i0 n0 by (auto simp: FreeHandleArray_def ReallocHandleArray_def Let_def shrink_free_list_def)
    then obtain b' where b': "FreeHandleArray b = Some (PVRSRV_OK, b')" "psHashTab b' = psHashTab b" "psBase b' = psBase b" "hb_os b' = ?s'" by blast
    show thesis
    proof (rule that [OF b'(1-3)])
      show "blocks (hb_os b') = ?H + ({#psBase b#} + F)" unfolding b'(4) using fb by (auto simp: os_simps)
    qed
  qed
qed

lemma htab_empty:
  assumes "htab_ok b {}" "live b = Map.empty" "psHashTab b = Some t" shows "hash_entries t = {#}"
proof (rule ccontr)
  assume "hash_entries t \<noteq> {#}"
  then obtain e where e: "e \<in># hash_entries t" by (meson multiset_nonemptyE)
  have t: "hash_ok t" "\<And>k v. hash_map t k = Some v \<longleftrightarrow> (\<exists>i \<in> hashed b {}. k = key_of (hands b i) \<and> v = INDEX_TO_HANDLE i)"
    using assms(1,3) by (auto simp: htab_ok_def)
  have "hash_map t (bucket_k e) = Some (bucket_v e)" using hash_map_eq_Some [OF t(1)] e by blast
  then obtain i where "i \<in> hashed b {}" using t(2) by blast
  then show False using hashed_live assms(2) by (metis option.distinct(1))
qed

lemma FreeHandleBase_ok:
  assumes ok: "handle_ok F b"
  shows "\<exists>s'. FreeHandleBase b = Some (PVRSRV_OK, None, s') \<and> blocks s' = F"
proof -
  have "\<exists>b1. (if HANDLES_BATCHED b then PVRSRVReleaseHandleBatch b else Some b) = Some b1 \<and> handle_ok F b1 \<and> \<not> HANDLES_BATCHED b1"
    using batch_end_ok [OF ok, of False] ok by (auto simp: PVRSRVReleaseHandleBatch_def)
  then obtain b1 where b1: "(if HANDLES_BATCHED b then PVRSRVReleaseHandleBatch b else Some b) = Some b1" "handle_ok F b1" "\<not> HANDLES_BATCHED b1"
    by blast
  obtain b2 where b2: "FreeAllHandles b1 = Some (PVRSRV_OK, b2)" "handle_ok F b2" "live b2 = Map.empty" using FreeAllHandles_ok [OF b1(2,3)] by blast
  obtain fl bl K d where inv: "hb_inv F (ui32FirstBatchIndexPlusOne b2) {} fl bl K d b2" using b2(2) by (auto simp: handle_ok_def)
  note P = hb_invD [OF inv]
  obtain b3 where b3: "FreeHandleArray b2 = Some (PVRSRV_OK, b3)" "psHashTab b3 = psHashTab b2" "psBase b3 = psBase b2"
    "blocks (hb_os b3) = (case psHashTab b2 of None \<Rightarrow> {#} | Some t \<Rightarrow> hash_blocks t) + ({#psBase b2#} + F)"
    by (rule FreeHandleArray_ok [OF P(2,6)])
  obtain t where t: "psHashTab b2 = Some t" using P(5) by (auto simp: htab_ok_def split: option.splits)
  have "blocks (OSFreeMem (psBase b3) (HASH_Delete (psHashTab b3) (hb_os b3))) = F"
    using b3 t htab_empty [OF P(5) b2(3) t] by (simp add: HASH_Delete_def os_simps hash_blocks_def)
  then show ?thesis using b1(1) b2(1) b3(1) by (simp add: FreeHandleBase_def)
qed

lemma HASH_Create_Extended_os_ok: "HASH_Create_Extended n ks f g s = (r, s') \<Longrightarrow> os_ok s \<Longrightarrow> os_ok s'"
  by (auto simp: HASH_Create_Extended_def Let_def OSFreeMem_os_ok split: if_splits prod.splits dest: OSAllocMem_os_ok)

lemma zero_base_free:
  "FreeHandleBase (zero_base junk p s) = Some (PVRSRV_OK, None, OSFreeMem p s)"
  by (simp add: FreeHandleBase_def zero_base_def HANDLES_BATCHED_def FreeAllHandles_def FreeHandleArray_def ReallocHandleArray_def
      HASH_Delete_def Let_def)

lemma new_base_inv:
  assumes t: "hash_ok t" "hash_map t = Map.empty" "uKeySize t = sizeof_HAND_KEY" and s: "os_ok s" "blocks s = hash_blocks t + ({#p#} + F)"
  shows "hb_inv F 0 {} [] [] K d ((zero_base junk p s)\<lparr>psHashTab := Some t, ui32MaxIndexPlusOne := DEFAULT_MAX_INDEX_PLUS_ONE\<rparr>)"
    (is "hb_inv F 0 {} [] [] K d ?b")
proof -
  have u: "used ?b [] = {}" by (auto simp: used_def zero_base_def)
  have k: "key_ok t k" if "length k = 3" for k using that t(3) by (simp add: key_ok_def uKeyLen_def sizeof_HAND_KEY_def)
  have h: "hashed ?b {} = {}" by (simp add: hashed_def zero_base_def)
  have "DEFAULT_MAX_INDEX_PLUS_ONE mod HANDLE_BLOCK_SIZE = 0" by (simp add: DEFAULT_MAX_INDEX_PLUS_ONE_def round_down_mod)
  then have "size_ok ?b" by (simp add: size_ok_def zero_base_def)
  moreover have "free_ok ?b []" by (simp add: free_ok_def list_ok_def zero_base_def)
  moreover have "htab_ok ?b {}" unfolding htab_ok_def h using t(1,2) k by simp
  moreover have "hmem_ok F ?b" using s by (simp add: hmem_ok_def zero_base_def block_index)
  moreover have "links_ok (hands ?b) {} K d" by (simp add: links_ok_def)
  moreover have "batch_ok 0 [] [] ?b" unfolding batch_ok_def u by simp
  ultimately show ?thesis unfolding hb_inv_def u by (simp add: zero_base_def unbatched_def)
qed

lemma PVRSRVAllocHandleBase_ok:
  assumes "os_ok s"
  shows "\<exists>e r s'. PVRSRVAllocHandleBase junk s = Some (e, r, s') \<and>
    (case r of None \<Rightarrow> e \<noteq> PVRSRV_OK \<and> blocks s' = blocks s
     | Some b \<Rightarrow> e = PVRSRV_OK \<and> hb_os b = s' \<and> handle_ok (blocks s) b \<and> \<not> HANDLES_BATCHED b \<and> live b = Map.empty)"
proof -
  obtain e p s1 where a: "OSAllocMem sizeof_HANDLE_BASE s = (e, p, s1)" by (metis prod_cases3)
  note A = OSAllocMem_ok_iff [OF a] OSAllocMem_blocks [OF a] OSAllocMem_os_ok [OF a assms]
  show ?thesis
  proof (cases "e = PVRSRV_OK")
    case False
    then show ?thesis using a A by (simp add: PVRSRVAllocHandleBase_def)
  next
    case True
    obtain r s2 where c: "HASH_Create_Extended HANDLE_HASH_TAB_INIT_SIZE sizeof_HAND_KEY HASH_Func_Default HASH_Key_Comp_Default s1 = (r, s2)"
      by (metis prod.exhaust)
    note ok2 = HASH_Create_Extended_os_ok [OF c A(3)]
    have n: "HANDLE_HASH_TAB_INIT_SIZE \<noteq> 0" by (simp add: HANDLE_HASH_TAB_INIT_SIZE_def)
    from c n show ?thesis
    proof (cases rule: HASH_Create_Extended_cases)
      case oom
      then show ?thesis
        using a True A c by (simp add: PVRSRVAllocHandleBase_def PVRSRVFreeHandleBase_def zero_base_free os_simps)
    next
      case (created t)
      let ?b = "(zero_base junk p s2)\<lparr>psHashTab := Some t, ui32MaxIndexPlusOne := DEFAULT_MAX_INDEX_PLUS_ONE\<rparr>"
      have R: "PVRSRVAllocHandleBase junk s = Some (PVRSRV_OK, Some ?b, s2)" using a True c created(1) by (simp add: PVRSRVAllocHandleBase_def)
      have "blocks s2 = hash_blocks t + ({#p#} + blocks s)" using created(6) A True by simp
      then have I: "hb_inv (blocks s) (ui32FirstBatchIndexPlusOne ?b) {} [] [] (\<lambda>_. []) (\<lambda>_. 0) ?b"
        using new_base_inv [OF created(2-4) ok2] by (simp add: zero_base_def)
      have "handle_ok (blocks s) ?b" by (rule handle_okI [OF I]) (simp_all add: settled_def zero_base_def)
      moreover have "live ?b = Map.empty" by (simp add: live_def zero_base_def fun_eq_iff)
      ultimately show ?thesis using R by (simp add: zero_base_def HANDLES_BATCHED_def)
    qed
  qed
qed

section \<open>The contract of a handle base\<close>

text \<open>What the bridge relies on: an allocation yields a handle under which the data is found, a lookup checks
  the type, and a release makes a handle and the handles below it unknown.\<close>

locale handle_store =
  fixes alloc :: "'v \<Rightarrow> 't \<Rightarrow> 'f \<Rightarrow> 'b \<Rightarrow> ('e \<times> 'h \<times> 'b) option"
    and release :: "'h \<Rightarrow> 't \<Rightarrow> 'b \<Rightarrow> ('e \<times> 'b) option"
    and lookup :: "'h \<Rightarrow> 't \<Rightarrow> 'b \<Rightarrow> 'e + 'v"
    and handle :: "'i \<Rightarrow> 'h"
    and view :: "'b \<Rightarrow> 'i \<Rightarrow> ('v \<times> 't \<times> 'f \<times> 'h) option"
    and tree :: "('i \<Rightarrow> ('v \<times> 't \<times> 'f \<times> 'h) option) \<Rightarrow> 'i \<Rightarrow> 'i set"
    and invar :: "'b \<Rightarrow> bool"
    and okay :: 'e
    and none :: 't
  assumes alloc_law: "invar b \<Longrightarrow> t \<noteq> none \<Longrightarrow> alloc v t f b = Some (okay, h, b') \<Longrightarrow>
      invar b' \<and> (\<exists>i f' p. h = handle i \<and> view b' i = Some (v, t, f', p) \<and> (\<forall>j. j \<noteq> i \<longrightarrow> view b' j = view b j))"
    and lookup_law: "lookup (handle i) t b = Inr v \<longleftrightarrow> (\<exists>t' f p. view b i = Some (v, t', f, p) \<and> (t = none \<or> t = t'))"
    and release_law: "invar b \<Longrightarrow> view b i = Some (v, t, f, p) \<Longrightarrow>
      \<exists>b'. release (handle i) t b = Some (okay, b') \<and> invar b' \<and> view b' = (\<lambda>j. if j \<in> tree (view b) i then None else view b j)"
    and tree_self: "i \<in> tree m i"
begin

lemma alloc_lookup:
  assumes "invar b" "t \<noteq> none" "alloc v t f b = Some (okay, h, b')"
  shows "invar b'" "lookup h t b' = Inr v" "\<And>j w. handle j \<noteq> h \<Longrightarrow> lookup (handle j) t' b' = Inr w \<longleftrightarrow> lookup (handle j) t' b = Inr w"
proof -
  obtain i f' p where A: "invar b'" "h = handle i" "view b' i = Some (v, t, f', p)" "\<And>j. j \<noteq> i \<Longrightarrow> view b' j = view b j"
    using alloc_law [OF assms] by blast
  show "invar b'" "lookup h t b' = Inr v" using A by (auto simp: lookup_law)
  show "lookup (handle j) t' b' = Inr w \<longleftrightarrow> lookup (handle j) t' b = Inr w" if "handle j \<noteq> h" for j w
  proof -
    have "view b' j = view b j" by (rule A(4)) (use that A(2) in auto)
    then show ?thesis by (simp add: lookup_law)
  qed
qed

lemma lookup_release:
  assumes "invar b" "lookup (handle i) t b = Inr v" "t \<noteq> none"
  shows "\<exists>b'. release (handle i) t b = Some (okay, b') \<and> invar b' \<and> (\<forall>w t'. lookup (handle i) t' b' \<noteq> Inr w)"
proof -
  obtain f p where "view b i = Some (v, t, f, p)" using assms(2,3) by (auto simp: lookup_law)
  then obtain b' where r: "release (handle i) t b = Some (okay, b')" "invar b'"
    "view b' = (\<lambda>j. if j \<in> tree (view b) i then None else view b j)" using release_law [OF assms(1)] by blast
  have "view b' i = None" using r(3) tree_self by simp
  then show ?thesis using r(1,2) by (simp add: lookup_law)
qed

lemma alloc_release:
  assumes "invar b" "t \<noteq> none" "alloc v t f b = Some (okay, h, b1)"
  shows "\<exists>b2. release h t b1 = Some (okay, b2) \<and> invar b2 \<and> (\<forall>w t'. lookup h t' b2 \<noteq> Inr w)"
proof -
  obtain i where "h = handle i" using alloc_law [OF assms] by blast
  then show ?thesis using lookup_release [OF _ _ assms(2)] alloc_lookup(1,2) [OF assms] by blast
qed

end

lemma lookup_live:
  "PVRSRVLookupHandle (INDEX_TO_HANDLE i) t b = Inr v \<longleftrightarrow>
     (\<exists>t' f p. live b i = Some (v, t', f, p) \<and> (t = PVRSRV_HANDLE_TYPE_NONE \<or> t = t'))"
  by (auto simp: PVRSRVLookupHandle_def GetHandleStructure_live live_def split: if_splits)

lemma PVRSRVReleaseHandle_live:
  assumes ok: "handle_ok F b" and l: "live b i = Some (v, t, f, p)" and t: "eType = PVRSRV_HANDLE_TYPE_NONE \<or> eType = t"
  shows "\<exists>b'. PVRSRVReleaseHandle (INDEX_TO_HANDLE i) eType b = Some (PVRSRV_OK, b') \<and> handle_ok F b' \<and>
    live b' = (\<lambda>j. if j \<in> subtree (live b) i then None else live b j)"
proof -
  have "GetHandleStructure (INDEX_TO_HANDLE i) eType b = Inr i" using l t by (auto simp: GetHandleStructure_live)
  then show ?thesis using FreeHandle_ok [OF ok, of i] l by (auto simp: PVRSRVReleaseHandle_def)
qed

interpretation hs: handle_store PVRSRVAllocHandle PVRSRVReleaseHandle PVRSRVLookupHandle INDEX_TO_HANDLE live subtree "handle_ok F"
  PVRSRV_OK PVRSRV_HANDLE_TYPE_NONE for F
proof unfold_locales
  fix b t v f h b'
  assume "handle_ok F b" "t \<noteq> PVRSRV_HANDLE_TYPE_NONE" "PVRSRVAllocHandle v t f b = Some (PVRSRV_OK, h, b')"
  then have "alloc_spec F v t f IMG_NULL b PVRSRV_OK h b'" using PVRSRVAllocHandle_ok [of F b t v f] by auto
  then show "handle_ok F b' \<and> (\<exists>i f' p. h = INDEX_TO_HANDLE i \<and> live b' i = Some (v, t, f', p) \<and> (\<forall>j. j \<noteq> i \<longrightarrow> live b' j = live b j))"
    by (auto simp: alloc_spec_def)
next
  fix b i v t f p assume "handle_ok F b" "live b i = Some (v, t, f, p)"
  then show "\<exists>b'. PVRSRVReleaseHandle (INDEX_TO_HANDLE i) t b = Some (PVRSRV_OK, b') \<and> handle_ok F b' \<and>
      live b' = (\<lambda>j. if j \<in> subtree (live b) i then None else live b j)"
    by (intro PVRSRVReleaseHandle_live) auto
qed (auto simp: lookup_live intro: subtree_self)

section \<open>Ancestors\<close>

inductive ancestor :: "handle_view \<Rightarrow> IMG_HANDLE \<Rightarrow> IMG_UINT32 \<Rightarrow> bool" for m h where
  ancestor_parent: "m i = Some (v, t, f, h) \<Longrightarrow> ancestor m h i"
| ancestor_up: "m i = Some (v, t, f, INDEX_TO_HANDLE q) \<Longrightarrow> m q \<noteq> None \<Longrightarrow> ancestor m h q \<Longrightarrow> ancestor m h i"

text \<open>The parent of an allocated handle is null or an allocated handle of greater depth.\<close>

lemma parent_cases:
  assumes inv: "hb_inv F s X fl bl K d b" and i: "live b i \<noteq> None"
  obtains "ParentHandle (hands b i) = IMG_NULL"
  | q where "ParentHandle (hands b i) = INDEX_TO_HANDLE q" "live b q \<noteq> None" "d i < d q" "q \<in> used b fl"
proof -
  note P = hb_invD [OF inv]
  have u: "i \<in> used b fl" by (rule used_live [OF inv i])
  consider "sSiblings (hands b i) = HandleListInit i IMG_NULL" | q where "q \<in> used b fl" "i \<in> set (K q)"
    using P(4) u by (auto simp: links_ok_def)
  then show thesis
  proof cases
    case 1
    then show thesis using that(1) by (simp add: ParentHandle_def HandleListInit_def)
  next
    case (2 q)
    have "h_eType (hands b q) \<noteq> PVRSRV_HANDLE_TYPE_NONE" using P(8) [OF 2(1)] 2(2) by auto
    then have "live b q \<noteq> None" using 2(1) by (simp add: live_def used_def)
    then show thesis using that(2) links_ok_kid [OF P(4) 2] 2(1) by blast
  qed
qed

lemma GetHandleStructure_null:
  assumes "size_ok b" shows "GetHandleStructure IMG_NULL t b = Inl PVRSRV_ERROR_HANDLE_INDEX_OUT_OF_RANGE"
proof -
  have "HANDLE_TO_INDEX IMG_NULL = - 1" by (simp add: HANDLE_TO_INDEX_def)
  moreover have "\<not> - 1 < ui32TotalHandCount b" using index_plus_one [OF assms, of "- 1"] by auto
  ultimately show ?thesis by (simp add: GetHandleStructure_def INDEX_IS_VALID_def)
qed

lemma ancestor_loop_ok:
  assumes inv: "hb_inv F s X fl bl K d b" and i: "live b i \<noteq> None"
  shows "ancestor_loop hA i b = Some (if ancestor (live b) hA i then PVRSRV_OK else PVRSRV_ERROR_INVALID_SUBHANDLE)"
  using i
proof (induction "Max (d ` used b fl) - d i" arbitrary: i rule: less_induct)
  case less
  let ?p = "ParentHandle (hands b i)"
  have l: "live b i = Some (h_pvData (hands b i), h_eType (hands b i), h_eFlag (hands b i), ?p)" using less.prems by (simp add: live_def split: if_splits)
  show ?case
  proof (cases "?p = hA")
    case True
    then have "ancestor (live b) hA i" using ancestor_parent l by metis
    then show ?thesis using True by (subst ancestor_loop.simps) simp
  next
    case ne: False
    show ?thesis
    proof (rule parent_cases [OF inv less.prems])
      assume z: "?p = IMG_NULL"
      have "\<not> ancestor (live b) hA i"
      proof
        assume "ancestor (live b) hA i"
        then show False using l z ne INDEX_TO_HANDLE_nonnull by cases (metis option.inject prod.inject)+
      qed
      then show ?thesis
        using z ne GetHandleStructure_null [OF hb_invD(2) [OF inv]] by (subst ancestor_loop.simps) simp
    next
      fix q assume q: "?p = INDEX_TO_HANDLE q" "live b q \<noteq> None" "d i < d q" "q \<in> used b fl"
      have "d q \<le> Max (d ` used b fl)" using q(4) by (intro Max_ge) auto
      then have IH: "ancestor_loop hA q b = Some (if ancestor (live b) hA q then PVRSRV_OK else PVRSRV_ERROR_INVALID_SUBHANDLE)"
        using q(2,3) by (intro less.hyps) auto
      have up: "ancestor (live b) hA i \<longleftrightarrow> ancestor (live b) hA q"
      proof
        assume "ancestor (live b) hA i"
        then show "ancestor (live b) hA q" using l ne q(1) by (cases rule: ancestor.cases) auto
      next
        assume "ancestor (live b) hA q"
        then show "ancestor (live b) hA i" using ancestor_up [OF l [unfolded q(1)] q(2)] by simp
      qed
      have "GetHandleStructure ?p PVRSRV_HANDLE_TYPE_NONE b = Inr q" using q(1,2) by (auto simp: GetHandleStructure_live)
      then show ?thesis using ne IH up by (subst ancestor_loop.simps) simp
    qed
  qed
qed

section \<open>Starting a batch\<close>

lemma PVRSRVNewHandleBatch_ok:
  assumes ok: "handle_ok F b" and nb: "\<not> HANDLES_BATCHED b" "\<not> bPurgingEnabled b" and n: "n \<noteq> 0" and ff: "ui32FreeHandCount b = 0 \<or> ui32FirstFreeIndex b \<noteq> 0"
  shows "\<exists>e b'. PVRSRVNewHandleBatch n b = Some (e, b') \<and> handle_ok F b' \<and> live b' = live b \<and>
    (if e = PVRSRV_OK then HANDLES_BATCHED b' \<and> n \<le> ui32FreeHandCount b' else \<not> HANDLES_BATCHED b')"
proof -
  obtain fl K d where inv: "hb_inv F (ui32FirstBatchIndexPlusOne b) {} fl [] K d b" using ok nb by (auto simp: handle_ok_def)
  have "fl = [] \<or> ui32FirstFreeIndex b \<noteq> 0" using ff free_count_zero(1) [OF hb_invD(3) [OF inv]] by auto
  from inv this show ?thesis
  proof (rule EnsureFreeHandles_inv [where n = n])
    fix fl' b'
    assume E: "EnsureFreeHandles n b = Some (PVRSRV_OK, b')" and I: "hb_inv F (ui32FirstBatchIndexPlusOne b) {} fl' [] K d b'"
      and sb: "same_base b b'" and l: "unat n \<le> length fl'" and fb: "ui32FirstBatchIndexPlusOne b' = ui32FirstBatchIndexPlusOne b"
      and d: "\<forall>j < ui32TotalHandCount b. data_of (hands b' j) = data_of (hands b j)"
        "\<forall>j. ui32TotalHandCount b \<le> j \<and> j < ui32TotalHandCount b' \<longrightarrow> h_eType (hands b' j) = PVRSRV_HANDLE_TYPE_NONE"
    let ?b = "b'\<lparr>ui32HandBatchSize := n, ui32TotalHandCountPreBatch := ui32TotalHandCount b'\<rparr>"
    have np: "\<not> bPurgingEnabled b'" using sb nb(2) by (simp add: same_base_def)
    have "kept {} b b'" using sb d by (simp add: kept_def)
    then have lv: "live b' = live b" using kept_live by (auto simp: fun_eq_iff)
    have "hb_inv F (ui32FirstBatchIndexPlusOne ?b) {} fl' [] K d ?b" using I fb hb_inv_cong [of ?b b'] np by (simp add: unbatched_def)
    then have ok': "handle_ok F ?b" by (rule handle_okI) (use np in \<open>simp_all add: settled_def\<close>)
    have "n \<le> ui32FreeHandCount b'" using l free_count [OF I] by (simp add: word_le_nat_alt)
    moreover have "live ?b = live b" unfolding lv [symmetric] by (simp add: live_def fun_eq_iff)
    moreover have "PVRSRVNewHandleBatch n b = Some (PVRSRV_OK, ?b)" using nb n E by (simp add: PVRSRVNewHandleBatch_def)
    ultimately show ?thesis using ok' n by (simp add: HANDLES_BATCHED_def)
  next
    fix e s' assume E: "EnsureFreeHandles n b = Some (e, b\<lparr>hb_os := s'\<rparr>)" "e \<noteq> PVRSRV_OK"
      and I: "hb_inv F (ui32FirstBatchIndexPlusOne b) {} fl [] K d (b\<lparr>hb_os := s'\<rparr>)"
    have "handle_ok F (b\<lparr>hb_os := s'\<rparr>)" by (rule handle_okI [of F _ fl "[]" K d]) (use I nb(2) in \<open>auto simp: settled_def\<close>)
    then show ?thesis using E nb n by (auto simp: PVRSRVNewHandleBatch_def HANDLES_BATCHED_def live_def fun_eq_iff)
  qed
qed

section \<open>Growing while handle 0 is free\<close>

text \<open>The list of free handles, walked from its first entry through structures that still have their
  initial link.\<close>

lemma chain_initial:
  assumes "chain h fl" "fl \<noteq> []" "\<forall>j. hd fl \<le> j \<and> j < c \<longrightarrow> ui32NextIndexPlusOne (h j) = 0" "k < length fl" "unat (hd fl) + k \<le> unat c"
  shows "fl ! k = of_nat (unat (hd fl) + k)"
  using assms
proof (induction h fl arbitrary: k rule: chain.induct)
  case (2 h i)
  then show ?case by simp
next
  case (3 h i j js)
  show ?case
  proof (cases k)
    case (Suc k')
    have c: "unat c < 2 ^ LENGTH(32)" by (rule unsigned_less)
    have ic: "unat i < unat c" using 3(6) Suc by simp
    then have "ui32NextIndexPlusOne (h i) = 0" using 3(4) by (simp add: word_less_nat_alt)
    then have j: "j = i + 1" using 3(2) by auto
    have uj: "unat j = unat i + 1" unfolding j using ic c by (simp add: unat_word_ariths)
    have "(j # js) ! k' = of_nat (unat (hd (j # js)) + k')"
      by (rule 3(1)) (use 3 Suc uj in \<open>auto simp: word_le_nat_alt\<close>)
    then show ?thesis using Suc uj by simp
  qed simp
qed simp

lemma grow_from_zero:
  assumes ok: "handle_ok F b" and np: "\<not> bPurgingEnabled b" and z: "ui32FirstFreeIndex b = 0" and n: "ui32FreeHandCount b \<noteq> 0" "n > ui32FreeHandCount b"
    and E: "EnsureFreeHandles n b = Some (PVRSRV_OK, b')"
  shows "ui32FirstFreeIndex b' = ui32TotalHandCount b \<and> ui32TotalHandCount b < ui32TotalHandCount b' \<and>
    ui32FreeHandCount b' = ui32FreeHandCount b + (ui32TotalHandCount b' - ui32TotalHandCount b) \<and> \<not> bPurgingEnabled b' \<and>
    (\<forall>j. ui32TotalHandCount b \<le> j \<and> j < ui32TotalHandCount b' \<longrightarrow> ui32NextIndexPlusOne (hands b' j) = 0)"
proof -
  obtain fl bl K d where inv: "hb_inv F (ui32FirstBatchIndexPlusOne b) {} fl bl K d b" using ok by (auto simp: handle_ok_def)
  note P = hb_invD [OF inv]
  let ?t = "ui32TotalHandCount b"
  obtain c where c: "ReallocHandleArray c b = Some (PVRSRV_OK, b')" "?t < c"
    by (rule EnsureFreeHandles_cases [OF P(2) n(2)]) (use E in auto)
  obtain b1 where b1: "grow_free_list ?t c b1 = Some b'" "ui32FirstFreeIndex b1 = 0" "ui32FreeHandCount b1 = ui32FreeHandCount b"
    "\<not> bPurgingEnabled b1" "hands b1 = init_from ?t c (hands b)" "ui32TotalHandCount b1 = c"
    using c z np unfolding ReallocHandleArray_def init_from_def [abs_def]
    by (auto simp: Let_def split: if_splits prod.splits)
  then have "b' = b1\<lparr>ui32FreeHandCount := ui32FreeHandCount b + (c - ?t), ui32FirstFreeIndex := ?t, ui32LastFreeIndexPlusOne := c\<rparr>"
    by (simp add: grow_free_list_def)
  then show ?thesis using b1(4-6) c(2) by (simp add: init_from_def init_handle_def)
qed

lemma grow_from_zero_broken:
  assumes ok: "handle_ok F b" and np: "\<not> bPurgingEnabled b" and z: "ui32FirstFreeIndex b = 0" and n: "ui32FreeHandCount b \<noteq> 0" "n > ui32FreeHandCount b"
    and E: "EnsureFreeHandles n b = Some (PVRSRV_OK, b')"
  shows "\<not> hb_inv F' s X fl bl K d b'"
proof
  note G = grow_from_zero [OF assms]
  let ?a = "ui32TotalHandCount b" and ?c = "ui32TotalHandCount b'"
  assume inv: "hb_inv F' s X fl bl K d b'"
  note P = hb_invD [OF inv]
  obtain fl0 bl0 K0 d0 where inv0: "hb_inv F (ui32FirstBatchIndexPlusOne b) {} fl0 bl0 K0 d0 b" using ok by (auto simp: handle_ok_def)
  have ac: "unat ?a < unat ?c" "unat (?c - ?a) = unat ?c - unat ?a" using G by (auto simp: word_less_nat_alt unat_sub order.strict_implies_order)
  have cb: "unat ?c \<le> 0x7fffff00" by (rule size_ok_bound [OF P(2)])
  have le: "unat (ui32FreeHandCount b) \<le> unat ?a"
    using free_count [OF inv0] free_count_zero(2) [OF hb_invD(3) [OF inv0]] by simp
  have "unat (ui32FreeHandCount b') = unat (ui32FreeHandCount b) + (unat ?c - unat ?a)"
    using G le ac cb by (simp add: unat_word_ariths)
  moreover have "unat (ui32FreeHandCount b) \<noteq> 0" using n(1) by (simp add: unat_eq_zero)
  ultimately have len: "unat ?c - unat ?a < length fl" using free_count [OF inv] by simp
  have ne: "fl \<noteq> []" using len by auto
  have hd: "hd fl = ?a" using P(3) ne G by (simp add: free_ok_def list_ok_def)
  have "fl ! (unat ?c - unat ?a) = of_nat (unat (hd fl) + (unat ?c - unat ?a))"
    by (rule chain_initial [of "hands b'" fl ?c]) (use P(3) ne hd G len ac(1) in \<open>auto simp: free_ok_def list_ok_def\<close>)
  also have "\<dots> = ?c" using hd ac(1) by simp
  finally have "?c \<in> set fl" using len by (metis nth_mem)
  then show False using P(3) by (auto simp: free_ok_def)
qed

end
