(* ===== verification/Handle_Properties.thy ===== *)
theory Handle_Properties
  imports Handle_Api
begin

text \<open>
  The properties of the handle bases (\<open>handle.c\<close>), with a small base on which each of them is exercised: it
  is created from a list of addresses the allocator hands out, and handles are allocated in it.
\<close>

section \<open>An example base\<close>

definition ex_junk :: "IMG_UINT32 \<Rightarrow> sHandle" where
  "ex_junk i = \<lparr>h_eType = 77, h_pvData = 77, ui32NextIndexPlusOne = 77, eInternalFlag = 77, h_eFlag = 77,
     sChildren = \<lparr>ui32Prev = 77, ui32Next = 77, hl_hParent = 77\<rparr>,
     sSiblings = \<lparr>ui32Prev = 77, ui32Next = 77, hl_hParent = 77\<rparr>\<rparr>"

definition ex_hb_os :: os where
  "ex_hb_os = \<lparr>os_allocs = [0x1000, 0x2000, 0x3000, 0x4000, 0x5000, 0x6000, 0x7000, 0x8000, 0x9000, 0xa000, 0xb000], os_live = [0x100]\<rparr>"

definition ex_base :: HANDLE_BASE where
  "ex_base = the (fst (snd (the (PVRSRVAllocHandleBase ex_junk ex_hb_os))))"

text \<open>A base with one handle, and with a handle below it.\<close>

definition ex_one :: HANDLE_BASE where
  "ex_one = snd (snd (the (PVRSRVAllocHandle 0x111 3 0 ex_base)))"

definition ex_two :: HANDLE_BASE where
  "ex_two = snd (snd (the (PVRSRVAllocSubHandle 0x222 5 4 1 ex_one)))"

lemma ex_base_created: "map_option fst (PVRSRVAllocHandleBase ex_junk ex_hb_os) = Some PVRSRV_OK"
  by code_simp

lemma ex_one_created: "map_option (\<lambda>(e, h, b). (e, h)) (PVRSRVAllocHandle 0x111 3 0 ex_base) = Some (PVRSRV_OK, 1)"
  by code_simp

lemma ex_two_created: "map_option (\<lambda>(e, h, b). (e, h)) (PVRSRVAllocSubHandle 0x222 5 4 1 ex_one) = Some (PVRSRV_OK, 2)"
  by code_simp

lemma ex_hb_os_ok: "os_ok ex_hb_os"
  by (simp add: os_ok_def ex_hb_os_def)

lemma ex_base_ok: "handle_ok (blocks ex_hb_os) ex_base" "\<not> HANDLES_BATCHED ex_base" "live ex_base = Map.empty"
proof -
  obtain e r s' where R: "PVRSRVAllocHandleBase ex_junk ex_hb_os = Some (e, r, s')"
    and C: "case r of None \<Rightarrow> e \<noteq> PVRSRV_OK \<and> blocks s' = blocks ex_hb_os
     | Some b \<Rightarrow> e = PVRSRV_OK \<and> hb_os b = s' \<and> handle_ok (blocks ex_hb_os) b \<and> \<not> HANDLES_BATCHED b \<and> live b = Map.empty"
    using PVRSRVAllocHandleBase_ok [OF ex_hb_os_ok] by blast
  have "e = PVRSRV_OK" using ex_base_created R by simp
  then have "handle_ok (blocks ex_hb_os) ex_base \<and> \<not> HANDLES_BATCHED ex_base \<and> live ex_base = Map.empty"
    using C R by (auto simp: ex_base_def split: option.splits)
  then show "handle_ok (blocks ex_hb_os) ex_base" "\<not> HANDLES_BATCHED ex_base" "live ex_base = Map.empty" by auto
qed

lemma ex_type: "(3 :: PVRSRV_HANDLE_TYPE) \<noteq> PVRSRV_HANDLE_TYPE_NONE" "(5 :: PVRSRV_HANDLE_TYPE) \<noteq> PVRSRV_HANDLE_TYPE_NONE"
  by (simp_all add: PVRSRV_HANDLE_TYPE_NONE_def)

lemma index_handle_values: "INDEX_TO_HANDLE 0 = 1" "INDEX_TO_HANDLE 1 = 2" "INDEX_TO_HANDLE 2 = 3"
  by (simp_all add: INDEX_TO_HANDLE_def)

lemma ex_one_result: "PVRSRVAllocHandle 0x111 3 0 ex_base = Some (PVRSRV_OK, INDEX_TO_HANDLE 0, ex_one)"
  using ex_one_created by (auto simp: ex_one_def index_handle_values)

lemma ex_one_ok: "handle_ok (blocks ex_hb_os) ex_one" "live ex_one = [0 \<mapsto> (0x111, 3, 0, IMG_NULL)]" "\<not> HANDLES_BATCHED ex_one"
proof -
  have "alloc_spec (blocks ex_hb_os) 0x111 3 0 IMG_NULL ex_base PVRSRV_OK (INDEX_TO_HANDLE 0) ex_one"
    using PVRSRVAllocHandle_ok [OF ex_base_ok(1) ex_type(1), of "0x111" 0] ex_one_result by simp
  then show "handle_ok (blocks ex_hb_os) ex_one" "live ex_one = [0 \<mapsto> (0x111, 3, 0, IMG_NULL)]" "\<not> HANDLES_BATCHED ex_one"
    using ex_base_ok(2,3) by (auto simp: alloc_spec_def)
qed

lemma ex_two_result: "PVRSRVAllocSubHandle 0x222 5 4 (INDEX_TO_HANDLE 0) ex_one = Some (PVRSRV_OK, INDEX_TO_HANDLE 1, ex_two)"
  using ex_two_created by (auto simp: ex_two_def index_handle_values)

lemma ex_two_ok: "handle_ok (blocks ex_hb_os) ex_two" "live ex_two = [0 \<mapsto> (0x111, 3, 0, IMG_NULL), 1 \<mapsto> (0x222, 5, 4, INDEX_TO_HANDLE 0)]"
proof -
  have "alloc_spec (blocks ex_hb_os) 0x222 5 4 (INDEX_TO_HANDLE 0) ex_one PVRSRV_OK (INDEX_TO_HANDLE 1) ex_two"
    using PVRSRVAllocSubHandle_ok [OF ex_one_ok(1) ex_type(2), of "0x222" 4 0] ex_two_result by simp
  then show "handle_ok (blocks ex_hb_os) ex_two" "live ex_two = [0 \<mapsto> (0x111, 3, 0, IMG_NULL), 1 \<mapsto> (0x222, 5, 4, INDEX_TO_HANDLE 0)]"
    using ex_one_ok(2) by (auto simp: alloc_spec_def)
qed

section \<open>Properties\<close>

text \<open>C24: \<open>PVRSRVAllocHandle\<close> on a well-formed base always returns, and leaves a well-formed base whose
  memory is accounted for. If it succeeds, either the handle is one that was not allocated before and now maps to
  the given data, type and flags with no parent, every other handle being as before, or nothing changes and the
  handle already maps to this data and type, both calls asking for a shared handle. If it fails no handle is
  returned and nothing changes but the failure count of a running batch, which is incremented.\<close>

theorem handle_alloc:
  assumes "handle_ok F b" "eType \<noteq> PVRSRV_HANDLE_TYPE_NONE"
  shows "\<exists>e h b'. PVRSRVAllocHandle pvData eType eFlag b = Some (e, h, b') \<and> alloc_spec F pvData eType eFlag IMG_NULL b e h b'"
  by (rule PVRSRVAllocHandle_ok [OF assms])

theorem handle_alloc_witness: "alloc_spec (blocks ex_hb_os) 0x111 3 0 IMG_NULL ex_base PVRSRV_OK (INDEX_TO_HANDLE 0) ex_one"
  using handle_alloc [OF ex_base_ok(1) ex_type(1), of "0x111" 0] ex_one_result by simp

text \<open>C25: \<open>PVRSRVAllocSubHandle\<close> makes the same promise for a handle below the parent it is given: a new handle gets this parent,
  and a handle that is shared already has it. It fails when the parent is not an allocated handle.\<close>

theorem handle_alloc_sub:
  assumes "handle_ok F b" "eType \<noteq> PVRSRV_HANDLE_TYPE_NONE"
  shows "\<exists>e h b'. PVRSRVAllocSubHandle pvData eType eFlag (INDEX_TO_HANDLE p) b = Some (e, h, b') \<and>
    alloc_spec F pvData eType eFlag (INDEX_TO_HANDLE p) b e h b' \<and> (live b p = None \<longrightarrow> e \<noteq> PVRSRV_OK)"
  by (rule PVRSRVAllocSubHandle_ok [OF assms])

theorem handle_alloc_sub_witness: "alloc_spec (blocks ex_hb_os) 0x222 5 4 (INDEX_TO_HANDLE 0) ex_one PVRSRV_OK (INDEX_TO_HANDLE 1) ex_two"
  using handle_alloc_sub [OF ex_one_ok(1) ex_type(2), of "0x222" 4 0] ex_two_result by simp

text \<open>C26: \<open>PVRSRVReleaseHandle\<close> always returns. It succeeds exactly on an allocated handle of the expected
  type; then exactly the handle and the handles below it are no longer allocated, all others are as before and
  the base is well-formed. Otherwise it reports an error and changes nothing.\<close>

theorem handle_release:
  assumes "handle_ok F b"
  shows "\<exists>e b'. PVRSRVReleaseHandle (INDEX_TO_HANDLE i) eType b = Some (e, b') \<and> handle_ok F b' \<and>
    (e = PVRSRV_OK \<longleftrightarrow> (\<exists>v t f p. live b i = Some (v, t, f, p) \<and> (eType = PVRSRV_HANDLE_TYPE_NONE \<or> eType = t))) \<and>
    (if e = PVRSRV_OK then live b' = (\<lambda>j. if j \<in> subtree (live b) i then None else live b j) else b' = b)"
proof (cases "\<exists>v t f p. live b i = Some (v, t, f, p) \<and> (eType = PVRSRV_HANDLE_TYPE_NONE \<or> eType = t)")
  case True
  then obtain v t f p where "live b i = Some (v, t, f, p)" "eType = PVRSRV_HANDLE_TYPE_NONE \<or> eType = t" by blast
  then obtain b' where "PVRSRVReleaseHandle (INDEX_TO_HANDLE i) eType b = Some (PVRSRV_OK, b')" "handle_ok F b'"
    "live b' = (\<lambda>j. if j \<in> subtree (live b) i then None else live b j)" using PVRSRVReleaseHandle_live [OF assms] by blast
  then show ?thesis using True by (intro exI [of _ PVRSRV_OK] exI [of _ b']) simp
next
  case False
  have "\<exists>e. PVRSRVReleaseHandle (INDEX_TO_HANDLE i) eType b = Some (e, b) \<and> e \<noteq> PVRSRV_OK"
    using False by (cases "live b i") (auto simp: PVRSRVReleaseHandle_def GetHandleStructure_live)
  then show ?thesis using False assms by auto
qed

lemma ex_two_subtree: "subtree (live ex_two) 0 = {0, 1}"
proof
  show "subtree (live ex_two) 0 \<subseteq> {0, 1}"
  proof
    fix i assume "i \<in> subtree (live ex_two) 0"
    then show "i \<in> {0, 1}" by induction (auto simp: ex_two_ok(2) split: if_splits)
  qed
  have "1 \<in> subtree (live ex_two) 0" by (rule subtree_kid [OF subtree_self]) (simp add: ex_two_ok(2))
  then show "{0, 1} \<subseteq> subtree (live ex_two) 0" using subtree_self by simp
qed

theorem handle_release_witness:
  "\<exists>b'. PVRSRVReleaseHandle (INDEX_TO_HANDLE 0) 3 ex_two = Some (PVRSRV_OK, b') \<and> live b' = Map.empty"
proof -
  obtain e b' where r: "PVRSRVReleaseHandle (INDEX_TO_HANDLE 0) 3 ex_two = Some (e, b')"
    "e = PVRSRV_OK" "live b' = (\<lambda>j. if j \<in> subtree (live ex_two) 0 then None else live ex_two j)"
    using handle_release [OF ex_two_ok(1), of 0 3] by (auto simp: ex_two_ok(2) split: if_splits)
  have "live b' = Map.empty" unfolding r(3) ex_two_subtree by (auto simp: ex_two_ok(2) fun_eq_iff)
  then show ?thesis using r by blast
qed

text \<open>C27: A handle that \<open>PVRSRVAllocHandle\<close> returned is found by \<open>PVRSRVLookupHandle\<close> under its type with
  the data it was given; releasing it succeeds, and afterwards no lookup of it, of whatever type, succeeds.\<close>

theorem handle_roundtrip:
  assumes "handle_ok F b" "eType \<noteq> PVRSRV_HANDLE_TYPE_NONE" "PVRSRVAllocHandle pvData eType eFlag b = Some (PVRSRV_OK, h, b1)"
  shows "PVRSRVLookupHandle h eType b1 = Inr pvData \<and>
    (\<exists>b2. PVRSRVReleaseHandle h eType b1 = Some (PVRSRV_OK, b2) \<and> handle_ok F b2 \<and> (\<forall>w t. PVRSRVLookupHandle h t b2 \<noteq> Inr w))"
  using hs.alloc_lookup(2) [OF assms] hs.alloc_release [OF assms] by blast

theorem handle_roundtrip_witness: "PVRSRVLookupHandle (INDEX_TO_HANDLE 0) 3 ex_one = Inr 0x111"
  using handle_roundtrip [OF ex_base_ok(1) ex_type(1) ex_one_result] by simp

text \<open>C30: A batch always ends with \<open>PVRSRV_OK\<close>. When it is committed and no allocation of the batch has failed,
  every handle stays; in every other case exactly the handles of the batch and the handles below them are gone.
  In both cases no handle is marked as batched any more and the base is well-formed. In particular a commit that
  has to undo the batch reports success too.\<close>

theorem handle_batch_end:
  assumes "handle_ok F b" "HANDLES_BATCHED b"
  shows "\<exists>b'. PVRSRVHandleBatchCommitOrRelease bCommit b = Some (PVRSRV_OK, b') \<and> handle_ok F b' \<and> \<not> HANDLES_BATCHED b' \<and> batched b' = {} \<and>
    live b' = (if bCommit \<and> ui32BatchHandAllocFailures b = 0 then live b
               else (\<lambda>j. if \<exists>i \<in> batched b. j \<in> subtree (live b) i then None else live b j))"
  by (rule batch_end_ok [OF assms])

definition ex_batch :: HANDLE_BASE where
  "ex_batch = snd (the (PVRSRVNewHandleBatch 2 ex_base))"

definition ex_batch_one :: HANDLE_BASE where
  "ex_batch_one = snd (snd (the (PVRSRVAllocHandle 0x111 3 0 ex_batch)))"

lemma ex_batch_started: "map_option fst (PVRSRVNewHandleBatch 2 ex_base) = Some PVRSRV_OK"
  by code_simp

lemma ex_batch_alloc: "map_option (\<lambda>(e, h, b). (e, h)) (PVRSRVAllocHandle 0x111 3 0 ex_batch) = Some (PVRSRV_OK, 1)"
  by code_simp

lemma ex_batch_failures: "ui32BatchHandAllocFailures ex_batch = 0" "ui32FreeHandCount ex_base = 0"
  by code_simp+

lemma ex_base_unpurged: "\<not> bPurgingEnabled ex_base"
  by code_simp

lemma ex_batch_ok: "handle_ok (blocks ex_hb_os) ex_batch" "HANDLES_BATCHED ex_batch" "live ex_batch = Map.empty"
  using PVRSRVNewHandleBatch_ok [OF ex_base_ok(1,2) ex_base_unpurged, of 2] ex_batch_failures(2) ex_batch_started ex_base_ok(3)
  by (auto simp: ex_batch_def)

lemma ex_batch_one_ok: "handle_ok (blocks ex_hb_os) ex_batch_one" "HANDLES_BATCHED ex_batch_one"
  "live ex_batch_one = [0 \<mapsto> (0x111, 3, 0, IMG_NULL)]" "ui32BatchHandAllocFailures ex_batch_one = 0"
proof -
  have "alloc_spec (blocks ex_hb_os) 0x111 3 0 IMG_NULL ex_batch PVRSRV_OK (INDEX_TO_HANDLE 0) ex_batch_one"
    using PVRSRVAllocHandle_ok [OF ex_batch_ok(1) ex_type(1), of "0x111" 0] ex_batch_alloc
    by (auto simp: ex_batch_one_def index_handle_values)
  then show "handle_ok (blocks ex_hb_os) ex_batch_one" "HANDLES_BATCHED ex_batch_one"
    "live ex_batch_one = [0 \<mapsto> (0x111, 3, 0, IMG_NULL)]" "ui32BatchHandAllocFailures ex_batch_one = 0"
    using ex_batch_ok(2,3) ex_batch_failures(1) by (auto simp: alloc_spec_def)
qed

theorem handle_batch_end_witness:
  "\<exists>b'. PVRSRVHandleBatchCommitOrRelease True ex_batch_one = Some (PVRSRV_OK, b') \<and> live b' = [0 \<mapsto> (0x111, 3, 0, IMG_NULL)]"
  using handle_batch_end [OF ex_batch_one_ok(1,2), of True] ex_batch_one_ok(3,4) by auto

text \<open>A new base is well-formed and has no handles, and a creation that fails gives all memory back. Whatever
  has been allocated in a base since it was created, deleting it succeeds and leaves exactly the memory that was
  in use before its creation.\<close>

theorem handle_base_memory:
  assumes "os_ok s" "PVRSRVAllocHandleBase junk s = Some (e, r, s')"
  shows "(case r of None \<Rightarrow> e \<noteq> PVRSRV_OK \<and> blocks s' = blocks s
     | Some b \<Rightarrow> e = PVRSRV_OK \<and> hb_os b = s' \<and> handle_ok (blocks s) b \<and> \<not> HANDLES_BATCHED b \<and> live b = Map.empty) \<and>
    (\<forall>b. handle_ok (blocks s) b \<longrightarrow> (\<exists>s''. PVRSRVFreeHandleBase b = Some (PVRSRV_OK, None, s'') \<and> blocks s'' = blocks s))"
  using PVRSRVAllocHandleBase_ok [OF assms(1), of junk] assms(2) FreeHandleBase_ok by (auto simp: PVRSRVFreeHandleBase_def)

theorem handle_base_memory_witness:
  "\<exists>s''. PVRSRVFreeHandleBase ex_two = Some (PVRSRV_OK, None, s'') \<and> blocks s'' = {#0x100#}"
proof -
  obtain e r s' where r: "PVRSRVAllocHandleBase ex_junk ex_hb_os = Some (e, r, s')" using ex_base_created by auto
  show ?thesis using handle_base_memory [OF ex_hb_os_ok r] ex_two_ok(1) by (simp add: blocks_def ex_hb_os_def)
qed

text \<open>Starting a batch on a base without purging whose free list is empty or does not start with handle 0 either reports an
  error and starts none, or starts one for which the requested number of handles is free. No handle changes.\<close>

theorem handle_batch_start:
  assumes "handle_ok F b" "\<not> HANDLES_BATCHED b" "\<not> bPurgingEnabled b" "n \<noteq> 0" "ui32FreeHandCount b = 0 \<or> ui32FirstFreeIndex b \<noteq> 0"
  shows "\<exists>e b'. PVRSRVNewHandleBatch n b = Some (e, b') \<and> handle_ok F b' \<and> live b' = live b \<and>
    (if e = PVRSRV_OK then HANDLES_BATCHED b' \<and> n \<le> ui32FreeHandCount b' else \<not> HANDLES_BATCHED b')"
  by (rule PVRSRVNewHandleBatch_ok [OF assms])

theorem handle_batch_start_witness: "HANDLES_BATCHED ex_batch \<and> 2 \<le> ui32FreeHandCount ex_batch"
  using handle_batch_start [OF ex_base_ok(1,2) ex_base_unpurged, of 2] ex_batch_failures(2) ex_batch_started by (auto simp: ex_batch_def)

text \<open>When the array of a base without purging grows while handle 0 heads the free list, the free handles are lost:
  \<open>ReallocHandleArray\<close> takes index 0 for the empty list, makes the first new handle the head and still counts the old
  free handles, so that the base counts more free handles than its list has and is no longer well-formed.\<close>

theorem handle_batch_grow_from_zero:
  assumes "handle_ok F b" "\<not> bPurgingEnabled b" "ui32FirstFreeIndex b = 0" "ui32FreeHandCount b \<noteq> 0" "n > ui32FreeHandCount b"
    and "PVRSRVNewHandleBatch n b = Some (PVRSRV_OK, b')"
  shows "ui32FirstFreeIndex b' = ui32TotalHandCount b \<and>
    ui32FreeHandCount b' = ui32FreeHandCount b + (ui32TotalHandCount b' - ui32TotalHandCount b) \<and> \<not> handle_ok F' b'"
proof -
  obtain b1 where b1: "EnsureFreeHandles n b = Some (PVRSRV_OK, b1)"
    "b' = b1\<lparr>ui32HandBatchSize := n, ui32TotalHandCountPreBatch := ui32TotalHandCount b1\<rparr>"
    using assms(6) by (auto simp: PVRSRVNewHandleBatch_def split: if_splits bind_splits)
  have "\<not> hb_inv F' s X fl bl K d b'" for s X fl bl K d
    using grow_from_zero_broken [OF assms(1-5) b1(1)] grow_from_zero [OF assms(1-5) b1(1)] hb_inv_cong [of b' b1]
    by (simp add: b1(2) unbatched_def)
  then have "\<not> handle_ok F' b'" by (simp add: handle_ok_def)
  then show ?thesis using grow_from_zero [OF assms(1-5) b1(1)] by (simp add: b1(2))
qed

definition ex_idle :: HANDLE_BASE where
  "ex_idle = the (PVRSRVReleaseHandleBatch ex_batch)"

lemma ex_idle_ok: "handle_ok (blocks ex_hb_os) ex_idle"
  using batch_end_ok [OF ex_batch_ok(1,2), of False] by (auto simp: ex_idle_def PVRSRVReleaseHandleBatch_def)

lemma ex_idle_eq: "ex_idle = ex_batch\<lparr>ui32HandBatchSize := 0, ui32FirstBatchIndexPlusOne := 0, ui32TotalHandCountPreBatch := 0, ui32BatchHandAllocFailures := 0\<rparr>"
proof -
  have "ui32FirstBatchIndexPlusOne ex_batch = 0" by code_simp
  then show ?thesis
    using ex_batch_ok(2) by (simp add: ex_idle_def PVRSRVReleaseHandleBatch_def PVRSRVHandleBatchCommitOrRelease_def batch_loop.simps Let_def)
qed

lemma ex_idle_free: "\<not> bPurgingEnabled ex_idle" "ui32FirstFreeIndex ex_idle = 0" "ui32FreeHandCount ex_idle = 256" "ui32TotalHandCount ex_idle = 256"
  "map_option fst (PVRSRVNewHandleBatch 300 ex_idle) = Some PVRSRV_OK"
  unfolding ex_idle_eq by code_simp+

theorem handle_batch_grow_from_zero_witness:
  "ui32FirstFreeIndex (snd (the (PVRSRVNewHandleBatch 300 ex_idle))) = 256 \<and> \<not> handle_ok {#} (snd (the (PVRSRVNewHandleBatch 300 ex_idle)))"
proof -
  obtain b' where r: "PVRSRVNewHandleBatch 300 ex_idle = Some (PVRSRV_OK, b')" using ex_idle_free(5) by auto
  show ?thesis using handle_batch_grow_from_zero [OF ex_idle_ok ex_idle_free(1,2) _ _ r] r ex_idle_free by simp
qed

text \<open>C31: \<open>PVRSRVLookupSubHandle\<close> always returns: the walk to the root ends. It returns data exactly when the handle
  is allocated with the expected type and the given handle is one of its ancestors, and then the data of the
  handle.\<close>

theorem handle_lookup_sub:
  assumes "handle_ok F b"
  shows "\<exists>r. PVRSRVLookupSubHandle (INDEX_TO_HANDLE i) eType hAncestor b = Some r \<and>
    (\<forall>v. r = Inr v \<longleftrightarrow> (\<exists>t f p. live b i = Some (v, t, f, p) \<and> (eType = PVRSRV_HANDLE_TYPE_NONE \<or> eType = t)) \<and>
                    ancestor (live b) hAncestor i)"
proof -
  obtain fl bl K d where inv: "hb_inv F (ui32FirstBatchIndexPlusOne b) {} fl bl K d b" using assms by (auto simp: handle_ok_def)
  show ?thesis
  proof (cases "live b i")
    case None
    then show ?thesis by (auto simp: PVRSRVLookupSubHandle_def GetHandleStructure_live)
  next
    case (Some x)
    obtain v t f p where x: "live b i = Some (v, t, f, p)" using Some by (cases x) auto
    then have v: "h_pvData (hands b i) = v" by (auto simp: live_def split: if_splits)
    show ?thesis
      using x v ancestor_loop_ok [OF inv, of i hAncestor] by (auto simp: PVRSRVLookupSubHandle_def GetHandleStructure_live)
  qed
qed

theorem handle_lookup_sub_witness: "PVRSRVLookupSubHandle (INDEX_TO_HANDLE 1) 5 (INDEX_TO_HANDLE 0) ex_two = Some (Inr 0x222)"
proof -
  have "ancestor (live ex_two) (INDEX_TO_HANDLE 0) 1" by (rule ancestor_parent) (simp add: ex_two_ok(2))
  then show ?thesis using handle_lookup_sub [OF ex_two_ok(1), of 1 5 "INDEX_TO_HANDLE 0"] by (auto simp: ex_two_ok(2))
qed

end
