(* ===== verification/Handle_Purging.thy ===== *)
theory Handle_Purging
  imports Handle_Properties
begin

text \<open>
  Handle bases with purging (\<open>PVRSRVEnableHandlePurging\<close>, \<open>PVRSRVPurgeHandles\<close>, the search in \<open>AllocHandle\<close> of
  \<open>handle.c\<close>), the mode of the kernel's own base. The free structures are not linked: they are counted by block and
  searched for, so that the blocks at the end of the array can be given back. The invariant of the other theories
  covers both modes; this one adds the operations that only bases with purging have.
\<close>

section \<open>The scan for the blocks that are free\<close>

lemma purge_scan_ok:
  "purge_scan cnt m \<le> m \<and> (\<forall>k. purge_scan cnt m \<le> k \<and> k < m \<longrightarrow> cnt (of_nat k) = HANDLE_BLOCK_SIZE) \<and>
   (purge_scan cnt m = 0 \<or> cnt (of_nat (purge_scan cnt m - 1)) \<noteq> HANDLE_BLOCK_SIZE)"
  by (induction m) (auto simp: less_Suc_eq)

lemma full_block:
  assumes inv: "hb_inv F s X fl bl K d b" and p: "bPurgingEnabled b" and k: "unat k < unat (ui32TotalHandCount b) div 256"
  shows "ui32FreeHandBlockCount b k = HANDLE_BLOCK_SIZE \<longleftrightarrow> (\<forall>i. INDEX_TO_BLOCK_INDEX i = k \<longrightarrow> i \<in> set fl)"
proof -
  note P = hb_invD [OF inv]
  let ?B = "{i :: IMG_UINT32. INDEX_TO_BLOCK_INDEX i = k}"
  have c: "ui32FreeHandBlockCount b k = of_nat (card (free_in fl k))"
    using P(3) p k by (simp add: free_ok_def search_ok_def word_less_nat_alt block_index)
  have "unat (ui32TotalHandCount b) < 2 ^ LENGTH(32)" by (rule unsigned_less)
  then have B: "card ?B = 256" "finite ?B" using k by (simp_all add: card_block)
  have sub: "free_in fl k \<subseteq> ?B" by (auto simp: free_in_def)
  then have le: "card (free_in fl k) \<le> 256" using card_mono [OF B(2) sub] B(1) by simp
  then have u: "unat (of_nat (card (free_in fl k)) :: IMG_UINT32) = card (free_in fl k)" by (simp add: unat_of_nat)
  have "ui32FreeHandBlockCount b k = HANDLE_BLOCK_SIZE \<longleftrightarrow> card (free_in fl k) = 256"
  proof
    assume "ui32FreeHandBlockCount b k = HANDLE_BLOCK_SIZE"
    then have "unat (of_nat (card (free_in fl k)) :: IMG_UINT32) = unat (256 :: IMG_UINT32)"
      using c by (simp add: block_size_nat)
    then show "card (free_in fl k) = 256" using u by simp
  qed (simp add: c block_size_nat)
  also have "\<dots> \<longleftrightarrow> free_in fl k = ?B" using card_subset_eq [OF B(2) sub] B(1) by auto
  also have "\<dots> \<longleftrightarrow> (\<forall>i. INDEX_TO_BLOCK_INDEX i = k \<longrightarrow> i \<in> set fl)" by (auto simp: free_in_def)
  finally show ?thesis .
qed

section \<open>Shrinking the array\<close>

text \<open>The array after its blocks from \<open>c\<close> on have been given back.\<close>

abbreviation shrunk_array :: "IMG_UINT32 \<Rightarrow> IMG_UINTPTR_T \<Rightarrow> os \<Rightarrow> HANDLE_BASE \<Rightarrow> HANDLE_BASE" where
  "shrunk_array c p s b \<equiv> shrink_free_list (ui32TotalHandCount b) c
     (b\<lparr>psHandleArray := p, psHandleBlocks := take (unat (INDEX_TO_BLOCK_INDEX c)) (psHandleBlocks b),
        ui32TotalHandCount := c, hb_os := s\<rparr>)"

lemma shrunk_frame [simp]:
  "hands (shrunk_array c p s b) = hands b" "ui32TotalHandCount (shrunk_array c p s b) = c"
  "bPurgingEnabled (shrunk_array c p s b) = bPurgingEnabled b" "psHashTab (shrunk_array c p s b) = psHashTab b"
  "HANDLES_BATCHED (shrunk_array c p s b) = HANDLES_BATCHED b" "hb_os (shrunk_array c p s b) = s"
  "psBase (shrunk_array c p s b) = psBase b" "psHandleArray (shrunk_array c p s b) = p"
  "psHandleBlocks (shrunk_array c p s b) = take (unat (INDEX_TO_BLOCK_INDEX c)) (psHandleBlocks b)"
  "ui32FirstBatchIndexPlusOne (shrunk_array c p s b) = ui32FirstBatchIndexPlusOne b"
  "ui32MaxIndexPlusOne (shrunk_array c p s b) = ui32MaxIndexPlusOne b"
  "ui32FreeHandBlockCount (shrunk_array c p s b) = ui32FreeHandBlockCount b"
  "ui32FreeHandCount (shrunk_array c p s b) = ui32FreeHandCount b - (ui32TotalHandCount b - c)"
  "ui32FirstFreeIndex (shrunk_array c p s b) = (if c = 0 then 0 else ui32FirstFreeIndex b)"
  by (simp_all add: shrink_free_list_def HANDLES_BATCHED_def Let_def)

lemma shrink_inv:
  assumes inv: "hb_inv F s X fl bl K d b" and p: "bPurgingEnabled b" "settled b"
    and c: "c \<le> ui32TotalHandCount b" "c mod HANDLE_BLOCK_SIZE = 0" "{i. c \<le> i \<and> i < ui32TotalHandCount b} \<subseteq> set fl"
    and m: "hmem_ok F (shrunk_array c q s' b)"
  shows "hb_inv F s X (filter (\<lambda>i. i < c) fl) bl K d (shrunk_array c q s' b)" (is "hb_inv F s X ?fl bl K d ?b")
proof -
  note P = hb_invD [OF inv]
  let ?T = "ui32TotalHandCount b"
  have fr: "distinct fl" "\<forall>i \<in> set fl. i < ?T \<and> h_eType (hands b i) = PVRSRV_HANDLE_TYPE_NONE" "ui32FreeHandCount b = of_nat (length fl)"
    and so: "search_ok b fl" using P(3) p(1) by (simp_all add: free_ok_def)
  have gone: "set (filter (\<lambda>i. \<not> i < c) fl) = {i. c \<le> i \<and> i < ?T}" using fr(2) c(3) by auto
  have "card {i. c \<le> i \<and> i < ?T} = unat ?T - unat c"
    using set_word_upt [of c ?T] distinct_card [OF distinct_word_upt [of c ?T]] by simp
  then have lg: "length (filter (\<lambda>i. \<not> i < c) fl) = unat ?T - unat c"
    using gone distinct_card [of "filter (\<lambda>i. \<not> i < c) fl"] fr(1) by simp
  have "length ?fl + length (filter (\<lambda>i. \<not> i < c) fl) = length fl" by (rule sum_length_filter_compl)
  then have len: "of_nat (length fl) = of_nat (length ?fl) + (of_nat (unat ?T - unat c) :: IMG_UINT32)" using lg by (metis of_nat_add)
  have td: "of_nat (unat ?T - unat c) = ?T - c" using c(1) by (simp add: word_le_nat_alt of_nat_diff)
  have u: "used ?b ?fl = used b fl" using c(1,3) by (auto simp: used_def not_less [symmetric])
  have ty: "h_eType (hands b i) = PVRSRV_HANDLE_TYPE_NONE" if "\<not> i < c" "i < ?T" for i using c(3) fr(2) that by (auto simp: not_less)
  have hh: "hashed ?b X = hashed b X" using c(1) ty by (auto simp: hashed_def)
  show ?thesis
  proof (rule hb_invI)
    show "free_ok ?b ?fl"
      unfolding free_ok_def
    proof (intro conjI ballI)
      have "free_in ?fl k = free_in fl k" if "k < INDEX_TO_BLOCK_INDEX c" for k
      proof -
        have "i < c" if "INDEX_TO_BLOCK_INDEX i = k" for i
          using that \<open>k < _\<close> block_nat(2) [OF mod_block_nat [OF c(2)], of "unat i"] by (simp add: word_less_nat_alt block_eq block_index)
        then show ?thesis by (auto simp: free_in_def)
      qed
      moreover have "k < INDEX_TO_BLOCK_INDEX ?T" if "k < INDEX_TO_BLOCK_INDEX c" for k
        using that c(1) by (simp add: word_less_nat_alt word_le_nat_alt block_index)
      ultimately have "search_ok ?b ?fl" using so p by (auto simp: search_ok_def settled_def)
      then show "if bPurgingEnabled ?b then search_ok ?b ?fl else list_ok ?b ?fl" using p by simp
      show "ui32FreeHandCount ?b = of_nat (length ?fl)" using fr(3) len td by simp
    qed (use fr in auto)
    show "batch_ok s ?fl bl ?b" by (rule batch_ok_frame [OF P(7) u]) simp
    show "links_ok (hands ?b) (used ?b ?fl) K d" unfolding u using P(4) by simp
    show "htab_ok ?b X" by (rule htab_ok_cong [OF P(5) _ hh]) simp_all
    show "size_ok ?b" using P(2) c order.trans [OF c(1)] by (auto simp: size_ok_def)
    show "unbatched bl ?b" using P(1) by (simp add: unbatched_def)
    show "K j = [] \<and> sSiblings (hands ?b j) = HandleListInit j IMG_NULL"
      if "j \<in> used ?b ?fl" "h_eType (hands ?b j) = PVRSRV_HANDLE_TYPE_NONE" for j
      using that P(8) unfolding u by simp
  qed (rule m)
qed

lemma ReallocHandleArray_shrink:
  assumes inv: "hb_inv F s X fl bl K d b" and p: "bPurgingEnabled b" "settled b"
    and c: "c < ui32TotalHandCount b" "c mod HANDLE_BLOCK_SIZE = 0" "{i. c \<le> i \<and> i < ui32TotalHandCount b} \<subseteq> set fl"
  obtains (shrunk) q s' where "ReallocHandleArray c b = Some (PVRSRV_OK, shrunk_array c q s' b)"
      "hb_inv F s X (filter (\<lambda>i. i < c) fl) bl K d (shrunk_array c q s' b)"
  | (oom) s' where "ReallocHandleArray c b = Some (PVRSRV_ERROR_OUT_OF_MEMORY, b\<lparr>hb_os := s'\<rparr>)"
      "hb_inv F s X fl bl K d (b\<lparr>hb_os := s'\<rparr>)"
proof -
  note P = hb_invD [OF inv]
  let ?T = "ui32TotalHandCount b" let ?m = "unat (INDEX_TO_BLOCK_INDEX ?T)" and ?n = "unat (INDEX_TO_BLOCK_INDEX c)"
  let ?H = "(case psHashTab b of None \<Rightarrow> {#} | Some t \<Rightarrow> hash_blocks t)" let ?ps = "psHandleBlocks b"
  have M: "os_ok (hb_os b)" "blocks (hb_os b) = ?H + ({#psBase b#} + (if psHandleArray b = IMG_NULL then {#} else {#psHandleArray b#}) + mset ?ps + F)"
    "IMG_NULL \<notin> set ?ps" "length ?ps = ?m" "?T = 0 \<longrightarrow> psHandleArray b = IMG_NULL"
    using P(6) by (simp_all add: hmem_ok_def)
  have nm: "?n \<le> ?m" using c(1) by (simp add: block_index word_less_nat_alt div_le_mono)
  have am: "?T mod HANDLE_BLOCK_SIZE = 0" "c \<noteq> ?T" "\<not> c > ?T" using P(2) c(1) by (auto simp: size_ok_def)
  have keep: "hb_inv F s X fl bl K d (b\<lparr>hb_os := s'\<rparr>)" if "os_ok s'" "blocks s' = blocks (hb_os b)" for s'
    using P(1,2,4-8) that free_ok_cong [OF P(3), of "b\<lparr>hb_os := s'\<rparr>"] unfolding hb_inv_def
    by (auto simp: size_ok_def used_def batch_ok_def htab_ok_def hashed_def hmem_ok_def unbatched_def HANDLES_BATCHED_def split: option.splits)
  obtain e q s1 where al: "(if c \<noteq> 0 then OSAllocMem (HANDLE_ARRAY_SIZE c * sizeof_sHandleIndex) (hb_os b) else (PVRSRV_OK, IMG_NULL, hb_os b)) = (e, q, s1)"
    by (metis prod_cases3)
  have s1: "os_ok s1" "blocks s1 = (if q = IMG_NULL then {#} else {#q#}) + blocks (hb_os b)"
    "e = PVRSRV_OK \<and> (c = 0 \<longrightarrow> q = IMG_NULL) \<or> e = PVRSRV_ERROR_OUT_OF_MEMORY \<and> q = IMG_NULL"
    using al M(1) by (auto split: if_splits elim!: OSAllocMem_cases simp: os_ok_def blocks_def)
  show thesis
  proof (cases "e = PVRSRV_OK")
    case False
    then have e: "e = PVRSRV_ERROR_OUT_OF_MEMORY" "q = IMG_NULL" using s1(3) by auto
    have "ReallocHandleArray c b = Some (PVRSRV_ERROR_OUT_OF_MEMORY, b\<lparr>hb_os := s1\<rparr>)"
      using al am c(2) p(1) e by (simp add: ReallocHandleArray_def Let_def)
    then show thesis by (rule oom) (use keep s1 e in simp)
  next
    case True
    let ?s2 = "free_blocks (drop ?n ?ps) s1" let ?s = "if psHandleArray b \<noteq> IMG_NULL then OSFreeMem (psHandleArray b) ?s2 else ?s2"
    have "set (drop ?n ?ps) \<subseteq> set ?ps" by (rule set_drop_subset)
    then have fl: "filter (\<lambda>p. p \<noteq> IMG_NULL) (drop ?n ?ps) = drop ?n ?ps" using M(3) by (auto intro!: filter_True)
    have "mset ?ps = mset (take ?n ?ps) + mset (drop ?n ?ps)" by (metis append_take_drop_id mset_append)
    then have s2: "os_ok ?s2" "blocks ?s2 = (if q = IMG_NULL then {#} else {#q#}) +
        (?H + ({#psBase b#} + (if psHandleArray b = IMG_NULL then {#} else {#psHandleArray b#}) + mset (take ?n ?ps) + F))"
      using free_blocks_frame [OF s1(1), of "drop ?n ?ps"] s1(2) M(2) fl by auto
    have "IMG_NULL \<notin> set (take ?n ?ps)" using M(3) by (meson in_set_takeD)
    then have m: "hmem_ok F (shrunk_array c q ?s b)"
      using s2 M(4) nm s1(3) True by (auto simp: hmem_ok_def os_simps OSFreeMem_os_ok)
    have k0: "\<not> (?m \<le> unat k \<and> unat k < ?n)" "\<not> (?T \<le> i \<and> i < c)" for k i :: IMG_UINT32 using nm c(1) by auto
    have "ReallocHandleArray c b = Some (PVRSRV_OK, shrunk_array c q ?s b)"
      using al am c(2) p(1) True nm by (simp add: ReallocHandleArray_def k0 Let_def)
    then show thesis by (rule shrunk) (rule shrink_inv [OF inv p order.strict_implies_order [OF c(1)] c(2,3) m])
  qed
qed

section \<open>Purging\<close>

text \<open>The number of blocks up to the last one with a handle.\<close>

definition blocks_needed :: "HANDLE_BASE \<Rightarrow> nat \<Rightarrow> bool" where
  "blocks_needed b n \<longleftrightarrow> (\<forall>i. live b i \<noteq> None \<longrightarrow> unat i div 256 < n) \<and> (n = 0 \<or> (\<exists>i. live b i \<noteq> None \<and> unat i div 256 = n - 1))"

lemma PVRSRVPurgeHandles_ok:
  assumes ok: "handle_ok F b" and p: "bPurgingEnabled b"
  shows "\<exists>e b' n. PVRSRVPurgeHandles b = Some (e, b') \<and> handle_ok F b' \<and> live b' = live b \<and> bPurgingEnabled b' \<and> psBase b' = psBase b \<and>
    blocks_needed b n \<and>
    (if e = PVRSRV_OK
     then unat (ui32TotalHandCount b') = (if n * 256 \<le> unat (ui32TotalHandCount b) div 2 then n * 256 else unat (ui32TotalHandCount b))
     else e = PVRSRV_ERROR_OUT_OF_MEMORY \<and> ui32TotalHandCount b' = ui32TotalHandCount b \<and> blocks (hb_os b') = blocks (hb_os b))"
proof -
  obtain fl bl K d where inv: "hb_inv F (ui32FirstBatchIndexPlusOne b) {} fl bl K d b" and st: "settled b"
    using ok by (auto simp: handle_ok_def)
  note P = hb_invD [OF inv]
  have ub: "bl = []" "\<not> HANDLES_BATCHED b" using P(1) p by (simp_all add: unbatched_def)
  let ?T = "ui32TotalHandCount b" let ?m = "unat (INDEX_TO_BLOCK_INDEX ?T)"
  define n where "n = purge_scan (ui32FreeHandBlockCount b) ?m"
  have n: "n \<le> ?m" "\<And>k. n \<le> k \<Longrightarrow> k < ?m \<Longrightarrow> ui32FreeHandBlockCount b (of_nat k) = HANDLE_BLOCK_SIZE"
    "n = 0 \<or> ui32FreeHandBlockCount b (of_nat (n - 1)) \<noteq> HANDLE_BLOCK_SIZE"
    using purge_scan_ok [of "ui32FreeHandBlockCount b" ?m] by (auto simp: n_def)
  have T: "unat ?T < 2 ^ LENGTH(32)" by (rule unsigned_less)
  have mT: "?m = unat ?T div 256" by (rule block_index)
  have Tm: "unat ?T mod 256 = 0" using P(2) by (intro mod_block_nat) (simp add: size_ok_def)
  have ofn: "unat (of_nat k :: IMG_UINT32) = k" if "k < ?m" for k using that T mT by (simp add: unat_of_nat)
  let ?c = "BLOCK_INDEX_TO_INDEX (of_nat n)"
  have c: "unat ?c = n * 256"
  proof -
    have "n * 256 \<le> unat ?T" using n(1) mT by simp
    moreover have "?c = of_nat (n * 256)" by (simp add: BLOCK_INDEX_TO_INDEX_def HANDLE_BLOCK_SHIFT_def push_bit_eq_mult mult.commute)
    ultimately show ?thesis using T by (simp only: unat_of_nat) simp
  qed
  have cm: "?c mod HANDLE_BLOCK_SIZE = 0"
    by (rule word_unat_eq_iff [THEN iffD2]) (simp add: unat_mod_distrib c HANDLE_BLOCK_SIZE_def HANDLE_BLOCK_SHIFT_def)
  have free: "i \<in> set fl" if "?c \<le> i" "i < ?T" for i
  proof -
    have "n * 256 \<le> unat i" "unat i < unat ?T" using that c by (simp_all add: word_le_nat_alt word_less_nat_alt)
    then have k: "n \<le> unat i div 256" "unat i div 256 < ?m" using block_nat(3) [OF Tm] mT by auto
    let ?k = "of_nat (unat i div 256) :: IMG_UINT32"
    have u: "unat ?k = unat i div 256" by (rule ofn [OF k(2)])
    then have "ui32FreeHandBlockCount b ?k = HANDLE_BLOCK_SIZE" using n(2) [OF k] by simp
    moreover have "INDEX_TO_BLOCK_INDEX i = ?k" using u by (simp add: block_eq)
    ultimately show ?thesis using full_block [OF inv p, of ?k] k(2) u mT by simp
  qed
  have free_live: "live b i = None" if "i \<in> set fl" for i using that P(3) by (auto simp: free_ok_def live_def)
  have need: "blocks_needed b n"
    unfolding blocks_needed_def
  proof (intro conjI allI impI)
    fix i assume i: "live b i \<noteq> None"
    then have "i < ?T" by (auto simp: live_def split: if_splits)
    then have "\<not> ?c \<le> i" using free [of i] free_live [of i] i by argo
    then have "unat i < n * 256" unfolding word_le_nat_alt c by simp
    then show "unat i div 256 < n" by (rule less_mult_imp_div_less)
  next
    show "n = 0 \<or> (\<exists>i. live b i \<noteq> None \<and> unat i div 256 = n - 1)"
    proof (cases "n = 0")
      case False
      then have k: "n - 1 < ?m" using n(1) by simp
      let ?k = "of_nat (n - 1) :: IMG_UINT32"
      have u: "unat ?k = n - 1" by (rule ofn [OF k])
      obtain i where i: "INDEX_TO_BLOCK_INDEX i = ?k" "i \<notin> set fl" using full_block [OF inv p, of ?k] k u mT n(3) False by auto
      then have id: "unat i div 256 = n - 1" using u by (simp add: block_eq)
      then have "i < ?T" using k mT block_nat(2) [OF Tm, of "unat i"] by (simp add: word_less_nat_alt)
      then have iu: "i \<in> used b fl" using i(2) by (simp add: used_def)
      then have "mark_ok [] i (hands b i)" using P(7) ub(1) by (simp add: batch_ok_def)
      then have "live b i \<noteq> None" using \<open>i < ?T\<close> by (simp add: mark_ok_def live_def)
      then show ?thesis using id by blast
    qed simp
  qed
  have R: "PVRSRVPurgeHandles b = (if ?c \<le> ?T div 2 then ReallocHandleArray ?c b else Some (PVRSRV_OK, b))"
    using p ub(2) by (simp add: PVRSRVPurgeHandles_def n_def Let_def)
  have half: "?c \<le> ?T div 2 \<longleftrightarrow> n * 256 \<le> unat ?T div 2" by (simp add: word_le_nat_alt c unat_div_distrib)
  have cT: "?c = ?T \<or> ?c < ?T"
  proof -
    have "unat ?c \<le> unat ?T" using n(1) mT c by simp
    then show ?thesis unfolding word_less_nat_alt word_unat_eq_iff by linarith
  qed
  consider (none) "\<not> ?c \<le> ?T div 2" | (same) "?c = ?T" "?c \<le> ?T div 2" | (less) "?c \<le> ?T div 2" "?c < ?T"
    using cT by blast
  then show ?thesis
  proof cases
    case none
    then show ?thesis using R ok p need half by auto
  next
    case same
    then have "ReallocHandleArray ?c b = Some (PVRSRV_OK, b)" by (simp add: ReallocHandleArray_def Let_def)
    then show ?thesis using R ok p need half same c by auto
  next
    case less
    have sub: "{i. ?c \<le> i \<and> i < ?T} \<subseteq> set fl" using free by auto
    show ?thesis
    proof (rule ReallocHandleArray_shrink [OF inv p st less(2) cm sub])
      fix q s'
      let ?b = "shrunk_array ?c q s' b"
      assume r: "ReallocHandleArray ?c b = Some (PVRSRV_OK, ?b)"
        and I: "hb_inv F (ui32FirstBatchIndexPlusOne b) {} (filter (\<lambda>i. i < ?c) fl) bl K d ?b"
      have "handle_ok F ?b" by (rule handle_okI) (use I ub st in \<open>auto simp: settled_def\<close>)
      moreover have "live ?b = live b"
      proof
        fix i show "live ?b i = live b i"
        proof (cases "i < ?c")
          case False
          then have "i < ?T \<Longrightarrow> live b i = None" using free_live free by (simp add: not_less)
          then have "live b i = None" by (cases "i < ?T") (simp_all add: live_def)
          then show ?thesis using False by (simp add: live_def)
        qed (use less(2) in \<open>simp add: live_def\<close>)
      qed
      ultimately show ?thesis using R r less(1) need half c p by auto
    next
      fix s' assume r: "ReallocHandleArray ?c b = Some (PVRSRV_ERROR_OUT_OF_MEMORY, b\<lparr>hb_os := s'\<rparr>)"
        and I: "hb_inv F (ui32FirstBatchIndexPlusOne b) {} fl bl K d (b\<lparr>hb_os := s'\<rparr>)"
      have "handle_ok F (b\<lparr>hb_os := s'\<rparr>)" by (rule handle_okI) (use I ub st in \<open>auto simp: settled_def\<close>)
      moreover have "blocks s' = blocks (hb_os b)" using hb_invD(6) [OF I] P(6) by (simp add: hmem_ok_def)
      moreover have "live (b\<lparr>hb_os := s'\<rparr>) = live b" by (simp add: live_def fun_eq_iff)
      ultimately show ?thesis using R r less(1) need p by auto
    qed
  qed
qed

section \<open>The base of the kernel\<close>

lemma PVRSRVEnableHandlePurging_ok:
  assumes ok: "handle_ok F b" and e: "ui32TotalHandCount b = 0" "\<not> HANDLES_BATCHED b"
  shows "\<exists>b'. PVRSRVEnableHandlePurging b = (PVRSRV_OK, b') \<and> handle_ok F b' \<and> bPurgingEnabled b' \<and> live b' = live b \<and>
    hb_os b' = hb_os b \<and> psBase b' = psBase b"
proof (cases "bPurgingEnabled b")
  case False
  obtain fl K d where inv: "hb_inv F (ui32FirstBatchIndexPlusOne b) {} fl [] K d b" using ok e(2) by (auto simp: handle_ok_def)
  note P = hb_invD [OF inv]
  let ?b = "b\<lparr>bPurgingEnabled := True\<rparr>"
  have fl: "fl = []" using free_count_zero(2) [OF P(3)] e(1) by simp
  have f0: "ui32FirstFreeIndex b = 0" using P(3) False fl by (simp add: free_ok_def list_ok_def)
  have u: "used ?b fl = used b fl" by (simp add: used_def)
  have "free_ok ?b fl" using P(3) fl f0 e(1) by (auto simp: free_ok_def search_ok_def word_less_nat_alt block_index)
  moreover have "htab_ok ?b {}" by (rule htab_ok_cong [OF P(5)]) (simp_all add: hashed_def)
  moreover have "batch_ok (ui32FirstBatchIndexPlusOne b) fl [] ?b" by (rule batch_ok_frame [OF P(7) u]) simp
  ultimately have "hb_inv F (ui32FirstBatchIndexPlusOne b) {} fl [] K d ?b"
    using P(2,4,6,8) e(2) u by (intro hb_invI) (auto simp: size_ok_def hmem_ok_def unbatched_def HANDLES_BATCHED_def)
  then have "handle_ok F ?b" by (intro handle_okI [of F ?b fl "[]" K d]) (simp_all add: settled_def f0)
  moreover have "live ?b = live b" by (simp add: live_def fun_eq_iff)
  ultimately show ?thesis using False e(1) by (simp add: PVRSRVEnableHandlePurging_def)
qed (use ok in \<open>simp add: PVRSRVEnableHandlePurging_def\<close>)

lemma new_base_empty: "PVRSRVAllocHandleBase junk s = Some (e, Some b, s') \<Longrightarrow> ui32TotalHandCount b = 0"
  by (auto simp: PVRSRVAllocHandleBase_def zero_base_def Let_def split: if_splits prod.splits option.splits)

lemma PVRSRVHandleInit_ok:
  assumes "os_ok s"
  shows "\<exists>e r s'. PVRSRVHandleInit junk s = Some (e, r, s') \<and>
    (case r of None \<Rightarrow> e \<noteq> PVRSRV_OK \<and> blocks s' = blocks s
     | Some b \<Rightarrow> e = PVRSRV_OK \<and> hb_os b = s' \<and> handle_ok (blocks s) b \<and> bPurgingEnabled b \<and> live b = Map.empty)"
proof -
  obtain e r s' where R: "PVRSRVAllocHandleBase junk s = Some (e, r, s')"
    and C: "case r of None \<Rightarrow> e \<noteq> PVRSRV_OK \<and> blocks s' = blocks s
     | Some b \<Rightarrow> e = PVRSRV_OK \<and> hb_os b = s' \<and> handle_ok (blocks s) b \<and> \<not> HANDLES_BATCHED b \<and> live b = Map.empty"
    using PVRSRVAllocHandleBase_ok [OF assms] by blast
  show ?thesis
  proof (cases r)
    case None
    then show ?thesis using R C by (simp add: PVRSRVHandleInit_def PVRSRVHandleDeInit_def)
  next
    case (Some b)
    then have "ui32TotalHandCount b = 0" using R new_base_empty by blast
    then show ?thesis
      using R C Some PVRSRVEnableHandlePurging_ok [of "blocks s" b] by (auto simp: PVRSRVHandleInit_def)
  qed
qed

lemma find_free_last:
  assumes ok: "handle_ok F b" and p: "bPurgingEnabled b" and n: "ui32FreeHandCount b \<noteq> 0" and t: "eType \<noteq> PVRSRV_HANDLE_TYPE_NONE"
    and r: "AllocHandle pvData eType eFlag hParent b = Some (PVRSRV_OK, INDEX_TO_HANDLE i, b')"
    and j: "j < ui32TotalHandCount b" "live b j = None"
  shows "INDEX_TO_BLOCK_INDEX j \<le> INDEX_TO_BLOCK_INDEX i" "live b i = None"
proof -
  obtain fl bl K d where inv: "hb_inv F (ui32FirstBatchIndexPlusOne b) {} fl bl K d b" using ok by (auto simp: handle_ok_def)
  note P = hb_invD [OF inv]
  have bl: "bl = []" using P(1) p by (simp add: unbatched_def)
  have "fl \<noteq> []" using free_count_zero(1) [OF P(3)] n by simp
  then obtain k where k: "find_free b = (k, Some k)" "k \<in> set fl" "\<forall>j \<in> set fl. INDEX_TO_BLOCK_INDEX j \<le> INDEX_TO_BLOCK_INDEX k"
    using find_free_purging [OF inv p] by metis
  have "EnsureFreeHandles 1 b = Some (PVRSRV_OK, b)" using n by (simp add: EnsureFreeHandles_def word_less_1)
  then have "k = i" using r k(1) by (auto simp: AllocHandle_def Let_def split: if_splits bind_splits)
  have "h_eType (hands b j) = PVRSRV_HANDLE_TYPE_NONE" using j by (auto simp: live_def split: if_splits)
  then have "\<not> mark_ok [] j (hands b j)" by (simp add: mark_ok_def)
  then have "j \<notin> used b fl" using P(7) bl by (auto simp: batch_ok_def)
  then have "j \<in> set fl" using j(1) by (simp add: used_def)
  then show "INDEX_TO_BLOCK_INDEX j \<le> INDEX_TO_BLOCK_INDEX i" using k(3) \<open>k = i\<close> by blast
  show "live b i = None" using k(2) \<open>k = i\<close> P(3) by (auto simp: free_ok_def live_def)
qed

section \<open>Properties\<close>

text \<open>The base of the kernel as \<open>PVRSRVHandleInit\<close> makes it, and with two empty blocks.\<close>

definition ex_kernel :: HANDLE_BASE where
  "ex_kernel = the (fst (snd (the (PVRSRVHandleInit ex_junk ex_hb_os))))"

definition ex_wide :: HANDLE_BASE where
  "ex_wide = snd (the (EnsureFreeHandles 257 ex_kernel))"

lemma ex_kernel_created: "map_option fst (PVRSRVHandleInit ex_junk ex_hb_os) = Some PVRSRV_OK"
  "ui32FirstFreeIndex ex_kernel = 0" "ui32FreeHandCount ex_kernel = 0" "ui32FirstBatchIndexPlusOne ex_kernel = 0"
  by code_simp+

lemma ex_wide_created: "map_option fst (EnsureFreeHandles 257 ex_kernel) = Some PVRSRV_OK"
  "ui32FirstFreeIndex ex_wide = 0" "ui32FreeHandCount ex_wide = 512" "ui32TotalHandCount ex_wide = 512" "ui32HandBatchSize ex_wide = 0"
  by code_simp+

lemma ex_wide_alloc: "map_option (\<lambda>(e, h, b). (e, h)) (PVRSRVAllocHandle 0x111 3 0 ex_wide) = Some (PVRSRV_OK, INDEX_TO_HANDLE 256)"
  by code_simp

lemma ex_kernel_ok: "handle_ok (blocks ex_hb_os) ex_kernel" "bPurgingEnabled ex_kernel" "live ex_kernel = Map.empty"
proof -
  obtain e r s' where R: "PVRSRVHandleInit ex_junk ex_hb_os = Some (e, r, s')"
    and C: "case r of None \<Rightarrow> e \<noteq> PVRSRV_OK \<and> blocks s' = blocks ex_hb_os
     | Some b \<Rightarrow> e = PVRSRV_OK \<and> hb_os b = s' \<and> handle_ok (blocks ex_hb_os) b \<and> bPurgingEnabled b \<and> live b = Map.empty"
    using PVRSRVHandleInit_ok [OF ex_hb_os_ok] by blast
  have "e = PVRSRV_OK" using ex_kernel_created(1) R by simp
  then have "handle_ok (blocks ex_hb_os) ex_kernel \<and> bPurgingEnabled ex_kernel \<and> live ex_kernel = Map.empty"
    using C R by (auto simp: ex_kernel_def split: option.splits)
  then show "handle_ok (blocks ex_hb_os) ex_kernel" "bPurgingEnabled ex_kernel" "live ex_kernel = Map.empty" by auto
qed

lemma ex_wide_ok: "handle_ok (blocks ex_hb_os) ex_wide" "bPurgingEnabled ex_wide" "live ex_wide = Map.empty"
proof -
  obtain fl bl K d where inv: "hb_inv (blocks ex_hb_os) (ui32FirstBatchIndexPlusOne ex_kernel) {} fl bl K d ex_kernel"
    using ex_kernel_ok(1) by (auto simp: handle_ok_def)
  have bl: "bl = []" using hb_invD(1) [OF inv] ex_kernel_ok(2) by (simp add: unbatched_def)
  have fl: "fl = []" using free_count_zero(1) [OF hb_invD(3) [OF inv]] ex_kernel_created(3) by simp
  have E: "EnsureFreeHandles 257 ex_kernel = Some (PVRSRV_OK, ex_wide)" using ex_wide_created(1) by (auto simp: ex_wide_def)
  show "handle_ok (blocks ex_hb_os) ex_wide" "bPurgingEnabled ex_wide" "live ex_wide = Map.empty"
  proof -
    have "handle_ok (blocks ex_hb_os) ex_wide \<and> bPurgingEnabled ex_wide \<and> live ex_wide = Map.empty"
    proof (rule EnsureFreeHandles_inv [OF inv disjI1 [OF fl], of 257])
      fix fl' b'
      assume E': "EnsureFreeHandles 257 ex_kernel = Some (PVRSRV_OK, b')"
        and I: "hb_inv (blocks ex_hb_os) (ui32FirstBatchIndexPlusOne ex_kernel) {} fl' bl K d b'" and sb: "same_base ex_kernel b'"
        and fb: "ui32FirstBatchIndexPlusOne b' = ui32FirstBatchIndexPlusOne ex_kernel"
        and d: "\<forall>j < ui32TotalHandCount ex_kernel. data_of (hands b' j) = data_of (hands ex_kernel j)"
          "\<forall>j. ui32TotalHandCount ex_kernel \<le> j \<and> j < ui32TotalHandCount b' \<longrightarrow> h_eType (hands b' j) = PVRSRV_HANDLE_TYPE_NONE"
      have b': "b' = ex_wide" using E E' by simp
      have "kept {} ex_kernel b'" using sb d by (simp add: kept_def)
      then have "live b' = live ex_kernel" using kept_live by (auto simp: fun_eq_iff)
      moreover have "handle_ok (blocks ex_hb_os) b'"
        by (rule handle_okI) (use I fb bl ex_wide_created(2) in \<open>auto simp: b' settled_def\<close>)
      ultimately show ?thesis using ex_kernel_ok sb by (simp add: b' same_base_def)
    qed (use E in auto)
    then show "handle_ok (blocks ex_hb_os) ex_wide" "bPurgingEnabled ex_wide" "live ex_wide = Map.empty" by auto
  qed
qed

text \<open>C28: Purging never fails for another reason than memory, and then nothing changes. Otherwise every handle
  stays, and the array is cut after the last block with a handle if that gives back at least half of it; the base
  stays well-formed, so the blocks that are given back are exactly the ones behind.\<close>

theorem handle_purge:
  assumes "handle_ok F b" "bPurgingEnabled b"
  shows "\<exists>e b' n. PVRSRVPurgeHandles b = Some (e, b') \<and> handle_ok F b' \<and> live b' = live b \<and> bPurgingEnabled b' \<and> blocks_needed b n \<and>
    (if e = PVRSRV_OK
     then unat (ui32TotalHandCount b') = (if n * 256 \<le> unat (ui32TotalHandCount b) div 2 then n * 256 else unat (ui32TotalHandCount b))
     else e = PVRSRV_ERROR_OUT_OF_MEMORY \<and> ui32TotalHandCount b' = ui32TotalHandCount b \<and> blocks (hb_os b') = blocks (hb_os b))"
  using PVRSRVPurgeHandles_ok [OF assms] by blast

theorem handle_purge_witness:
  "\<exists>b'. PVRSRVPurgeHandles ex_wide = Some (PVRSRV_OK, b') \<and> ui32TotalHandCount b' = 0 \<and> handle_ok (blocks ex_hb_os) b'"
proof -
  obtain e b' n where r: "PVRSRVPurgeHandles ex_wide = Some (e, b')" "handle_ok (blocks ex_hb_os) b'" "blocks_needed ex_wide n"
    "if e = PVRSRV_OK then unat (ui32TotalHandCount b') = (if n * 256 \<le> unat (ui32TotalHandCount ex_wide) div 2 then n * 256 else unat (ui32TotalHandCount ex_wide))
     else e = PVRSRV_ERROR_OUT_OF_MEMORY \<and> ui32TotalHandCount b' = ui32TotalHandCount ex_wide \<and> blocks (hb_os b') = blocks (hb_os ex_wide)"
    using handle_purge [OF ex_wide_ok(1,2)] by blast
  have "map_option fst (PVRSRVPurgeHandles ex_wide) = Some PVRSRV_OK" by code_simp
  then have "e = PVRSRV_OK" using r(1) by simp
  moreover have "n = 0" using r(3) by (simp add: blocks_needed_def ex_wide_ok(3))
  ultimately show ?thesis using r by (simp add: unat_eq_zero)
qed

text \<open>C29: In a base with purging a new handle is always taken from the last block that has a free structure: the
  outer loop of the search does not end at the first one. The blocks at the end are thus used first, and with one
  handle in the last block purging gives nothing back.\<close>

theorem handle_purging_last_block:
  assumes "handle_ok F b" "bPurgingEnabled b" "ui32FreeHandCount b \<noteq> 0" "eType \<noteq> PVRSRV_HANDLE_TYPE_NONE"
    and "PVRSRVAllocHandle pvData eType eFlag b = Some (PVRSRV_OK, INDEX_TO_HANDLE i, b')" "live b i = None"
    and "j < ui32TotalHandCount b" "live b j = None"
  shows "unat j div 256 \<le> unat i div 256"
proof -
  obtain fl bl K d where inv: "hb_inv F (ui32FirstBatchIndexPlusOne b) {} fl bl K d b" using assms(1) by (auto simp: handle_ok_def)
  have nb: "batch_failure f b = b" for f using hb_invD(1) [OF inv] assms(2) by (simp add: batch_failure_def unbatched_def)
  have "AllocHandle pvData eType eFlag IMG_NULL b = Some (PVRSRV_OK, INDEX_TO_HANDLE i, b') \<or>
    (\<exists>b2. AllocHandle pvData eType eFlag IMG_NULL b = Some (PVRSRV_OK, INDEX_TO_HANDLE i, b2))"
  proof (cases "TEST_FLAG eFlag PVRSRV_HANDLE_ALLOC_FLAG_MULTI \<or> FindHandle pvData eType IMG_NULL b = Some IMG_NULL")
    case True
    then show ?thesis using assms(5) by (auto simp: PVRSRVAllocHandle_def nb split: bind_splits if_splits)
  next
    case False
    then obtain hF where hF: "FindHandle pvData eType IMG_NULL b = Some hF" "hF \<noteq> IMG_NULL"
      using FindHandle_eq(4) [OF hb_invD(5) [OF inv], of pvData eType IMG_NULL] by auto
    obtain k where k: "hF = INDEX_TO_HANDLE k" "live b k = Some (pvData, eType, h_eFlag (hands b k), ParentHandle (hands b k))"
      "GetHandleStructure hF eType b = Inr k" by (rule found_live [OF hb_invD(5) [OF inv] hF])
    have "hF = INDEX_TO_HANDLE i"
      using assms(5) False hF k(3) by (auto simp: PVRSRVAllocHandle_def nb Let_def split: if_splits)
    then show ?thesis using k(1,2) assms(6) by simp
  qed
  then show ?thesis using find_free_last(1) [OF assms(1-4) _ assms(7,8)] by (auto simp: word_le_nat_alt block_index)
qed

theorem handle_purging_last_block_witness:
  "\<exists>b'. PVRSRVAllocHandle 0x111 3 0 ex_wide = Some (PVRSRV_OK, INDEX_TO_HANDLE 256, b') \<and> unat (511 :: IMG_UINT32) div 256 \<le> unat (256 :: IMG_UINT32) div 256"
proof -
  obtain b' where r: "PVRSRVAllocHandle 0x111 3 0 ex_wide = Some (PVRSRV_OK, INDEX_TO_HANDLE 256, b')" using ex_wide_alloc by auto
  show ?thesis
    using handle_purging_last_block [OF ex_wide_ok(1,2) _ ex_type(1) r, of 511] r ex_wide_ok(3) ex_wide_created(3,4) by simp
qed

end
