(* ===== verification/Command_Queue.thy ===== *)
theory Command_Queue
  imports Pvr_Prelude "HOL-Library.Monad_Syntax"
begin

text \<open>
  The command queues of \<open>services4/srvkm/common/queue.c\<close>. A queue is a ring buffer of commands of different
  sizes. A producer asks for space, fills in the command at the write offset and submits it, which moves the
  write offset; the processing of the queues takes commands at the read offset, hands each to the driver
  of its device once the operations it depends on are complete, and moves the read offset. The driver
  reports the completion of a command through the cookie it was given.

  A ring of size \<open>N\<close>, a power of two, is followed by \<open>PVRSRV_MAX_CMD_SIZE\<close> bytes, so that a command that starts
  below \<open>N\<close> is contiguous. The bytes of a queue are the map \<open>lin\<close> from an offset to the command stored there;
  storing a command erases every other command whose bytes it overlaps. The synchronisation objects
  behind a command are its list \<open>cmd_syncs\<close>; the pointers to them stay fields of the command and are
  compared with the place of the objects when they are followed. An access through a stale pointer, beyond an
  array or beyond the buffer has no result (\<open>None\<close>).

  The drivers' functions are parameters, the record \<open>DRIVERS\<close> of functions on the whole state; what other threads
  do while a caller sleeps is the parameter \<open>others\<close>. A loop that waits for \<open>MAX_HW_TIME_US\<close> runs its body
  at most \<open>turns\<close> times, a number the clock decides (in the code at least once; for 0 the model also has the wait that
  times out without a look, which no theorem needs to exclude). The field \<open>q_log\<close> is a history variable: the commands of each
  queue that were handed over, oldest first. Kernel synchronisation objects exist as long as a command refers to them.
\<close>

section \<open>Data\<close>

record PVRSRV_SYNC_DATA =
  ui32WriteOpsPending :: IMG_UINT32
  ui32WriteOpsComplete :: IMG_UINT32
  ui32ReadOpsPending :: IMG_UINT32
  ui32ReadOpsComplete :: IMG_UINT32

record PVRSRV_SYNC_OBJECT =
  psKernelSyncInfoKM :: IMG_UINTPTR_T
  so_WriteOpsPending :: IMG_UINT32
  so_ReadOpsPending :: IMG_UINT32

record PVRSRV_COMMAND =
  uCmdSize :: IMG_SIZE_T
  cmd_DevIndex :: IMG_UINT32
  CommandType :: IMG_UINT32
  cmd_DstSyncCount :: IMG_UINT32
  cmd_SrcSyncCount :: IMG_UINT32
  cmd_psDstSync :: IMG_UINTPTR_T
  cmd_psSrcSync :: IMG_UINTPTR_T
  uDataSize :: IMG_SIZE_T
  cmd_ProcessID :: IMG_UINT32
  cmd_pvData :: IMG_UINTPTR_T
  cmd_syncs :: "PVRSRV_SYNC_OBJECT list"

record PVRSRV_QUEUE_INFO =
  psQueueInfo :: IMG_UINTPTR_T
  pvLinQueueKM :: IMG_UINTPTR_T
  pvLinQueueUM :: IMG_UINTPTR_T
  ui32ReadOffset :: IMG_SIZE_T
  ui32WriteOffset :: IMG_SIZE_T
  ui32QueueSize :: IMG_SIZE_T
  q_ProcessID :: IMG_UINT32
  lin_size :: nat
  lin :: "nat \<rightharpoonup> PVRSRV_COMMAND"

text \<open>The objects behind a \<open>COMMAND_COMPLETE_DATA\<close> are one array; \<open>psDstSync\<close> points at its beginning, \<open>psSrcSync\<close> at the
  index kept here.\<close>

record COMMAND_COMPLETE_DATA =
  bInUse :: bool
  cc_DstSyncCount :: IMG_UINT32
  cc_SrcSyncCount :: IMG_UINT32
  cc_psSrcSync :: nat
  cc_AllocSize :: IMG_UINT32
  cc_syncs :: "PVRSRV_SYNC_OBJECT list"

record DEVICE_COMMAND_DATA =
  pfnCmdProc :: IMG_UINTPTR_T
  apsCmdCompleteData :: "IMG_UINTPTR_T list"
  ui32CCBOffset :: IMG_UINT32

datatype PVRSRV_DEVICE_CLASS =
    PVRSRV_DEVICE_CLASS_3D
  | PVRSRV_DEVICE_CLASS_DISPLAY
  | PVRSRV_DEVICE_CLASS_BUFFER
  | PVRSRV_DEVICE_CLASS_VIDEO

text \<open>A device node, with the part of its display class information that \<open>PVRSRVSetDCState\<close> reads.\<close>

record Q_DEVICE_NODE =
  qn_psDeviceNode :: IMG_UINTPTR_T
  eDeviceClass :: PVRSRV_DEVICE_CLASS
  bReProcessDeviceCommandComplete :: bool
  pfnDeviceCommandComplete :: IMG_UINTPTR_T
  pfnSetDCState :: IMG_UINTPTR_T
  hExtDevice :: IMG_UINTPTR_T

record 'w Q_SYS_DATA =
  psQueueList :: "PVRSRV_QUEUE_INFO list"
  sQProcessResource :: PVRSRV_RESOURCE
  apsDeviceCommandData :: "IMG_UINT32 \<Rightarrow> (IMG_UINTPTR_T \<times> DEVICE_COMMAND_DATA list) option"
  cc_data :: "IMG_UINTPTR_T \<rightharpoonup> COMMAND_COMPLETE_DATA"
  sync_data :: "IMG_UINTPTR_T \<Rightarrow> PVRSRV_SYNC_DATA"
  q_psDeviceNodeList :: "Q_DEVICE_NODE list"
  q_misr :: nat
  q_os :: os
  q_world :: 'w
  q_log :: "IMG_UINTPTR_T \<Rightarrow> PVRSRV_COMMAND list"

record 'w DRIVERS =
  dr_CmdProc :: "IMG_UINTPTR_T \<Rightarrow> IMG_UINTPTR_T \<Rightarrow> IMG_UINT32 \<Rightarrow> IMG_UINTPTR_T \<Rightarrow> 'w Q_SYS_DATA \<Rightarrow> bool \<times> 'w Q_SYS_DATA"
  dr_DeviceCommandComplete :: "IMG_UINTPTR_T \<Rightarrow> IMG_UINTPTR_T \<Rightarrow> 'w Q_SYS_DATA \<Rightarrow> 'w Q_SYS_DATA"
  dr_SetDCState :: "IMG_UINTPTR_T \<Rightarrow> IMG_UINTPTR_T \<Rightarrow> IMG_UINT32 \<Rightarrow> 'w Q_SYS_DATA \<Rightarrow> 'w Q_SYS_DATA"

definition DC_NUM_COMMANDS_PER_TYPE :: nat where "DC_NUM_COMMANDS_PER_TYPE = 1"
definition PVRSRV_MAX_CMD_SIZE :: IMG_SIZE_T where "PVRSRV_MAX_CMD_SIZE = 1024"
definition SYS_DEVICE_COUNT :: IMG_UINT32 where "SYS_DEVICE_COUNT = 3"
definition DC_STATE_NO_FLUSH_COMMANDS :: IMG_UINT32 where "DC_STATE_NO_FLUSH_COMMANDS = 0"
definition DC_STATE_FLUSH_COMMANDS :: IMG_UINT32 where "DC_STATE_FLUSH_COMMANDS = 1"
definition sizeof_PVRSRV_COMMAND :: IMG_SIZE_T where "sizeof_PVRSRV_COMMAND = 56"
definition sizeof_PVRSRV_SYNC_OBJECT :: IMG_SIZE_T where "sizeof_PVRSRV_SYNC_OBJECT = 16"
definition sizeof_PVRSRV_QUEUE_INFO :: IMG_SIZE_T where "sizeof_PVRSRV_QUEUE_INFO = 72"
definition sizeof_COMMAND_COMPLETE_DATA :: IMG_SIZE_T where "sizeof_COMMAND_COMPLETE_DATA = 40"
definition sizeof_DEVICE_COMMAND_DATA :: IMG_SIZE_T where "sizeof_DEVICE_COMMAND_DATA = 24"

lemmas queue_consts = DC_NUM_COMMANDS_PER_TYPE_def PVRSRV_MAX_CMD_SIZE_def SYS_DEVICE_COUNT_def
  sizeof_PVRSRV_COMMAND_def sizeof_PVRSRV_SYNC_OBJECT_def sizeof_COMMAND_COMPLETE_DATA_def sizeof_DEVICE_COMMAND_DATA_def

section \<open>The ring\<close>

definition GET_SPACE_IN_CMDQ :: "PVRSRV_QUEUE_INFO \<Rightarrow> IMG_SIZE_T" where
  "GET_SPACE_IN_CMDQ q = ((ui32ReadOffset q - ui32WriteOffset q) + (ui32QueueSize q - 1)) AND (ui32QueueSize q - 1)"

definition UPDATE_QUEUE_WOFF :: "PVRSRV_QUEUE_INFO \<Rightarrow> IMG_SIZE_T \<Rightarrow> PVRSRV_QUEUE_INFO" where
  "UPDATE_QUEUE_WOFF q ui32Size = q\<lparr>ui32WriteOffset := (ui32WriteOffset q + ui32Size) AND (ui32QueueSize q - 1)\<rparr>"

definition UPDATE_QUEUE_ROFF :: "PVRSRV_QUEUE_INFO \<Rightarrow> IMG_SIZE_T \<Rightarrow> PVRSRV_QUEUE_INFO" where
  "UPDATE_QUEUE_ROFF q ui32Size = q\<lparr>ui32ReadOffset := (ui32ReadOffset q + ui32Size) AND (ui32QueueSize q - 1)\<rparr>"

definition SYNCOPS_STALE :: "IMG_UINT32 \<Rightarrow> IMG_UINT32 \<Rightarrow> bool" where
  "SYNCOPS_STALE ui32OpsComplete ui32OpsPending \<longleftrightarrow> ui32OpsComplete \<ge> ui32OpsPending"

function nearest_loop :: "IMG_SIZE_T \<Rightarrow> IMG_SIZE_T \<Rightarrow> IMG_SIZE_T" where
  "nearest_loop ui32Temp ui32Result =
     (if ui32Temp = 0 then ui32Result else nearest_loop (drop_bit 1 ui32Temp) (push_bit 1 ui32Result))"
  by pat_completeness auto
termination
proof (relation "measure (\<lambda>(t, r). unat t)")
  fix t r :: IMG_SIZE_T
  assume "t \<noteq> 0"
  then have "unat t \<noteq> 0" by (simp add: unat_eq_0)
  then show "((drop_bit 1 t, push_bit 1 r), (t, r)) \<in> measure (\<lambda>(t, r). unat t)"
    by (simp add: drop_bit_eq_div unat_div)
qed simp

declare nearest_loop.simps [simp del]

definition NearestPower2 :: "IMG_SIZE_T \<Rightarrow> IMG_SIZE_T" where
  "NearestPower2 ui32Value = (if ui32Value = 0 then 0 else nearest_loop (ui32Value - 1) 1)"

section \<open>The list of queues and the buffer\<close>

definition queue_at :: "IMG_UINTPTR_T \<Rightarrow> 'w Q_SYS_DATA \<Rightarrow> PVRSRV_QUEUE_INFO option" where
  "queue_at p s = List.find (\<lambda>q. psQueueInfo q = p) (psQueueList s)"

definition set_queue :: "PVRSRV_QUEUE_INFO \<Rightarrow> 'w Q_SYS_DATA \<Rightarrow> 'w Q_SYS_DATA" where
  "set_queue q s = s\<lparr>psQueueList := map (\<lambda>r. if psQueueInfo r = psQueueInfo q then q else r) (psQueueList s)\<rparr>"

text \<open>The part of the list that begins at a queue, and the pointer to the queue behind it.\<close>

definition from_queue :: "IMG_UINTPTR_T \<Rightarrow> 'w Q_SYS_DATA \<Rightarrow> PVRSRV_QUEUE_INFO list" where
  "from_queue p s = dropWhile (\<lambda>q. psQueueInfo q \<noteq> p) (psQueueList s)"

definition head_queue :: "PVRSRV_QUEUE_INFO list \<Rightarrow> IMG_UINTPTR_T" where
  "head_queue qs = (case qs of [] \<Rightarrow> IMG_NULL | q # _ \<Rightarrow> psQueueInfo q)"

definition cmd_bytes :: "PVRSRV_COMMAND \<Rightarrow> nat" where
  "cmd_bytes c = unat sizeof_PVRSRV_COMMAND + unat sizeof_PVRSRV_SYNC_OBJECT * length (cmd_syncs c) + unat (uDataSize c)"

definition lin_write :: "nat \<Rightarrow> PVRSRV_COMMAND \<Rightarrow> (nat \<rightharpoonup> PVRSRV_COMMAND) \<Rightarrow> (nat \<rightharpoonup> PVRSRV_COMMAND)" where
  "lin_write pos c m p =
     (if p = pos then Some c
      else case m p of
        None \<Rightarrow> None
      | Some d \<Rightarrow> if p < pos + cmd_bytes c \<and> pos < p + cmd_bytes d then None else Some d)"

definition cmd_offset :: "PVRSRV_QUEUE_INFO \<Rightarrow> IMG_UINTPTR_T \<Rightarrow> nat" where
  "cmd_offset q psCommand = unat (psCommand - pvLinQueueKM q)"

definition cmd_at :: "IMG_UINTPTR_T \<Rightarrow> IMG_UINTPTR_T \<Rightarrow> 'w Q_SYS_DATA \<Rightarrow> PVRSRV_COMMAND option" where
  "cmd_at p psCommand s = do { q \<leftarrow> queue_at p s; lin q (cmd_offset q psCommand) }"

section \<open>Creating and destroying a queue\<close>

definition create_error ::
  "PVRSRV_ERROR \<Rightarrow> IMG_UINTPTR_T \<Rightarrow> IMG_UINTPTR_T \<Rightarrow> 'w Q_SYS_DATA \<Rightarrow> PVRSRV_ERROR \<times> IMG_UINTPTR_T \<times> 'w Q_SYS_DATA" where
  "create_error eError p buf s =
     (let s1 = (if p \<noteq> IMG_NULL \<and> buf \<noteq> IMG_NULL then s\<lparr>q_os := OSFreeMem buf (q_os s)\<rparr> else s);
          s2 = (if p \<noteq> IMG_NULL then s1\<lparr>q_os := OSFreeMem p (q_os s1)\<rparr> else s1)
      in (eError, IMG_NULL, s2))"

definition PVRSRVCreateCommandQueueKM ::
  "IMG_UINT32 \<Rightarrow> IMG_SIZE_T \<Rightarrow> 'w Q_SYS_DATA \<Rightarrow> PVRSRV_ERROR \<times> IMG_UINTPTR_T \<times> 'w Q_SYS_DATA" where
  "PVRSRVCreateCommandQueueKM pid qsize s =
     (let ui32Power2QueueSize = NearestPower2 qsize;
          (e1, p, os1) = OSAllocMem sizeof_PVRSRV_QUEUE_INFO (q_os s);
          s1 = s\<lparr>q_os := os1\<rparr>
      in if e1 \<noteq> PVRSRV_OK then create_error e1 IMG_NULL IMG_NULL s1
         else
      (let (e2, buf, os2) = OSAllocMem (ui32Power2QueueSize + PVRSRV_MAX_CMD_SIZE) (q_os s1);
           s2 = s1\<lparr>q_os := os2\<rparr>
       in if e2 \<noteq> PVRSRV_OK then create_error e2 p IMG_NULL s2
          else
       (let q = \<lparr>psQueueInfo = p, pvLinQueueKM = buf, pvLinQueueUM = buf, ui32ReadOffset = 0, ui32WriteOffset = 0,
                 ui32QueueSize = ui32Power2QueueSize, q_ProcessID = pid,
                 lin_size = unat (ui32Power2QueueSize + PVRSRV_MAX_CMD_SIZE), lin = Map.empty\<rparr>;
            s3 = (if psQueueList s2 = [] then s2\<lparr>sQProcessResource := OSCreateResource\<rparr> else s2);
            (e3, r3) = OSLockResource (sQProcessResource s3) KERNEL_ID;
            s4 = s3\<lparr>sQProcessResource := r3\<rparr>
        in if e3 \<noteq> PVRSRV_OK then create_error e3 p buf s4
           else
        (let s5 = s4\<lparr>psQueueList := q # psQueueList s4, q_log := (q_log s4)(p := [])\<rparr>;
             (e4, r5) = OSUnlockResource (sQProcessResource s5) KERNEL_ID;
             s6 = s5\<lparr>sQProcessResource := r5\<rparr>
         in if e4 \<noteq> PVRSRV_OK then create_error e4 p buf s6
            else (PVRSRV_OK, p, s6)))))"

definition OSBreakResourceLock :: "PVRSRV_RESOURCE \<Rightarrow> IMG_UINT32 \<Rightarrow> PVRSRV_RESOURCE" where
  "OSBreakResourceLock r n = (if ui32Lock r \<and> ui32ID r = n then r\<lparr>ui32ID := 0, ui32Lock := False\<rparr> else r)"

definition OSDestroyResource :: "PVRSRV_RESOURCE \<Rightarrow> PVRSRV_ERROR \<times> PVRSRV_RESOURCE" where
  "OSDestroyResource r = (PVRSRV_OK, OSBreakResourceLock r (ui32ID r))"

fun queue_empty_wait ::
  "(nat \<Rightarrow> 'w Q_SYS_DATA \<Rightarrow> 'w Q_SYS_DATA) \<Rightarrow> IMG_UINTPTR_T \<Rightarrow> nat \<Rightarrow> 'w Q_SYS_DATA \<Rightarrow> (bool \<times> 'w Q_SYS_DATA) option" where
  "queue_empty_wait others p 0 s = Some (True, s)"
| "queue_empty_wait others p (Suc t) s =
     do {
       q \<leftarrow> queue_at p s;
       if ui32ReadOffset q = ui32WriteOffset q then Some (False, s)
       else queue_empty_wait others p t (others t s)
     }"

definition free_queue :: "PVRSRV_QUEUE_INFO \<Rightarrow> 'w Q_SYS_DATA \<Rightarrow> 'w Q_SYS_DATA" where
  "free_queue q s = s\<lparr>q_os := OSFreeMem (psQueueInfo q) (OSFreeMem (pvLinQueueKM q) (q_os s))\<rparr>"

text \<open>The walk from the head that was read before the wait to the predecessor of the queue.\<close>

fun find_prev :: "IMG_UINTPTR_T \<Rightarrow> PVRSRV_QUEUE_INFO list \<Rightarrow> IMG_UINTPTR_T option" where
  "find_prev p (a # b # qs) = (if psQueueInfo b = p then Some (psQueueInfo a) else find_prev p (b # qs))"
| "find_prev p _ = None"

definition unlink_queue ::
  "IMG_UINTPTR_T \<Rightarrow> IMG_UINTPTR_T \<Rightarrow> PVRSRV_QUEUE_INFO \<Rightarrow> 'w Q_SYS_DATA \<Rightarrow> (bool \<times> 'w Q_SYS_DATA) option" where
  "unlink_queue psQueue p q s =
     (if psQueue = p then Some (True, free_queue q (s\<lparr>psQueueList := tl (from_queue p s)\<rparr>))
      else if psQueue \<noteq> IMG_NULL \<and> from_queue psQueue s = [] then None
      else case find_prev p (from_queue psQueue s) of
             None \<Rightarrow> Some (False, s)
           | Some _ \<Rightarrow> Some (True, free_queue q (s\<lparr>psQueueList := filter (\<lambda>r. psQueueInfo r \<noteq> p) (psQueueList s)\<rparr>)))"

definition unlock_queues :: "'w Q_SYS_DATA \<Rightarrow> PVRSRV_ERROR \<times> 'w Q_SYS_DATA" where
  "unlock_queues s =
     (let (e, r) = OSUnlockResource (sQProcessResource s) KERNEL_ID in (e, s\<lparr>sQProcessResource := r\<rparr>))"

definition PVRSRVDestroyCommandQueueKM ::
  "(nat \<Rightarrow> 'w Q_SYS_DATA \<Rightarrow> 'w Q_SYS_DATA) \<Rightarrow> nat \<Rightarrow> IMG_UINTPTR_T \<Rightarrow> 'w Q_SYS_DATA
    \<Rightarrow> (PVRSRV_ERROR \<times> 'w Q_SYS_DATA) option" where
  "PVRSRVDestroyCommandQueueKM others turns p s =
     (let psQueue = head_queue (psQueueList s) in
      do {
        (bTimeout, s1) \<leftarrow> queue_empty_wait others p turns s;
        if bTimeout then Some (PVRSRV_ERROR_CANNOT_FLUSH_QUEUE, s1)
        else
          (let (e, r) = OSLockResource (sQProcessResource s1) KERNEL_ID;
               s2 = s1\<lparr>sQProcessResource := r\<rparr>
           in if e \<noteq> PVRSRV_OK then Some (e, s2)
              else do {
                q \<leftarrow> queue_at p s2;
                (found, s3) \<leftarrow> unlink_queue psQueue p q s2;
                (let (e4, s4) = unlock_queues s3
                 in if e4 \<noteq> PVRSRV_OK then Some (e4, s4)
                    else if \<not> found then Some (PVRSRV_ERROR_INVALID_PARAMS, s4)
                    else if psQueueList s4 = [] then
                      (let (e5, r5) = OSDestroyResource (sQProcessResource s4) in Some (e5, s4\<lparr>sQProcessResource := r5\<rparr>))
                    else Some (PVRSRV_OK, s4))
              })
      })"

section \<open>Inserting and submitting a command\<close>

fun queue_space_wait ::
  "(nat \<Rightarrow> 'w Q_SYS_DATA \<Rightarrow> 'w Q_SYS_DATA) \<Rightarrow> IMG_UINTPTR_T \<Rightarrow> IMG_SIZE_T \<Rightarrow> nat \<Rightarrow> 'w Q_SYS_DATA
    \<Rightarrow> (bool \<times> 'w Q_SYS_DATA) option" where
  "queue_space_wait others p n 0 s = Some (True, s)"
| "queue_space_wait others p n (Suc t) s =
     do {
       q \<leftarrow> queue_at p s;
       if GET_SPACE_IN_CMDQ q > n then Some (False, s)
       else queue_space_wait others p n t (others t s)
     }"

definition PVRSRVGetQueueSpaceKM ::
  "(nat \<Rightarrow> 'w Q_SYS_DATA \<Rightarrow> 'w Q_SYS_DATA) \<Rightarrow> nat \<Rightarrow> IMG_UINTPTR_T \<Rightarrow> IMG_SIZE_T \<Rightarrow> 'w Q_SYS_DATA
    \<Rightarrow> (PVRSRV_ERROR \<times> IMG_UINTPTR_T \<times> 'w Q_SYS_DATA) option" where
  "PVRSRVGetQueueSpaceKM others turns p ui32ParamSize s =
     (let n = (ui32ParamSize + 3) AND 0xFFFFFFFC in
      if n > PVRSRV_MAX_CMD_SIZE then Some (PVRSRV_ERROR_CMD_TOO_BIG, IMG_NULL, s)
      else do {
        (bTimeout, s1) \<leftarrow> queue_space_wait others p n turns s;
        if bTimeout then Some (PVRSRV_ERROR_CANNOT_GET_QUEUE_SPACE, IMG_NULL, s1)
        else do {
          q \<leftarrow> queue_at p s1;
          Some (PVRSRV_OK, pvLinQueueUM q + ucast (ui32WriteOffset q), s1)
        }
      })"

definition PVRSRVGetWriteOpsPending ::
  "IMG_UINTPTR_T \<Rightarrow> bool \<Rightarrow> (IMG_UINTPTR_T \<Rightarrow> PVRSRV_SYNC_DATA) \<Rightarrow> IMG_UINT32 \<times> (IMG_UINTPTR_T \<Rightarrow> PVRSRV_SYNC_DATA)" where
  "PVRSRVGetWriteOpsPending psSyncInfo bIsReadOp sd =
     (let n = ui32WriteOpsPending (sd psSyncInfo)
      in if bIsReadOp then (n, sd)
         else (n, sd(psSyncInfo := (sd psSyncInfo)\<lparr>ui32WriteOpsPending := n + 1\<rparr>)))"

definition PVRSRVGetReadOpsPending ::
  "IMG_UINTPTR_T \<Rightarrow> bool \<Rightarrow> (IMG_UINTPTR_T \<Rightarrow> PVRSRV_SYNC_DATA) \<Rightarrow> IMG_UINT32 \<times> (IMG_UINTPTR_T \<Rightarrow> PVRSRV_SYNC_DATA)" where
  "PVRSRVGetReadOpsPending psSyncInfo bIsReadOp sd =
     (let n = ui32ReadOpsPending (sd psSyncInfo)
      in if bIsReadOp then (n, sd(psSyncInfo := (sd psSyncInfo)\<lparr>ui32ReadOpsPending := n + 1\<rparr>))
         else (n, sd))"

fun sample_syncs ::
  "bool \<Rightarrow> IMG_UINTPTR_T list \<Rightarrow> (IMG_UINTPTR_T \<Rightarrow> PVRSRV_SYNC_DATA)
    \<Rightarrow> PVRSRV_SYNC_OBJECT list \<times> (IMG_UINTPTR_T \<Rightarrow> PVRSRV_SYNC_DATA)" where
  "sample_syncs bIsReadOp [] sd = ([], sd)"
| "sample_syncs bIsReadOp (p # ps) sd =
     (let (w, sd1) = PVRSRVGetWriteOpsPending p bIsReadOp sd;
          (r, sd2) = PVRSRVGetReadOpsPending p bIsReadOp sd1;
          (rest, sd3) = sample_syncs bIsReadOp ps sd2
      in (\<lparr>psKernelSyncInfoKM = p, so_WriteOpsPending = w, so_ReadOpsPending = r\<rparr> # rest, sd3))"

definition cmd_size :: "IMG_UINT32 \<Rightarrow> IMG_UINT32 \<Rightarrow> IMG_SIZE_T \<Rightarrow> IMG_SIZE_T" where
  "cmd_size nd ns ui32DataByteSize =
     sizeof_PVRSRV_COMMAND + (nd + ns) * sizeof_PVRSRV_SYNC_OBJECT + ui32DataByteSize"

definition PVRSRVInsertCommandKM ::
  "(nat \<Rightarrow> 'w Q_SYS_DATA \<Rightarrow> 'w Q_SYS_DATA) \<Rightarrow> nat \<Rightarrow> IMG_UINT32 \<Rightarrow> IMG_UINTPTR_T \<Rightarrow> IMG_UINT32 \<Rightarrow> IMG_UINT16
    \<Rightarrow> IMG_UINT32 \<Rightarrow> IMG_UINTPTR_T list \<Rightarrow> IMG_UINT32 \<Rightarrow> IMG_UINTPTR_T list \<Rightarrow> IMG_SIZE_T \<Rightarrow> 'w Q_SYS_DATA
    \<Rightarrow> (PVRSRV_ERROR \<times> IMG_UINTPTR_T \<times> 'w Q_SYS_DATA) option" where
  "PVRSRVInsertCommandKM others turns pid p ui32DevIndex ctype nd apsDstSync ns apsSrcSync uData s =
     (let ui32DataByteSize = (uData + 3) AND NOT 3;
          ui32CommandSize = cmd_size nd ns ui32DataByteSize
      in do {
        (eError, psCommand, s1) \<leftarrow> PVRSRVGetQueueSpaceKM others turns p ui32CommandSize s;
        if eError \<noteq> PVRSRV_OK then Some (eError, IMG_NULL, s1)
        else do {
          q \<leftarrow> queue_at p s1;
          if length apsDstSync < unat nd \<or> length apsSrcSync < unat ns then None
          else
            (let psDstSync = psCommand + ucast sizeof_PVRSRV_COMMAND;
                 psSrcSync = psDstSync + ucast nd * ucast sizeof_PVRSRV_SYNC_OBJECT;
                 pvData = psSrcSync + ucast ns * ucast sizeof_PVRSRV_SYNC_OBJECT;
                 (dst, sd1) = sample_syncs False (take (unat nd) apsDstSync) (sync_data s1);
                 (src, sd2) = sample_syncs True (take (unat ns) apsSrcSync) sd1;
                 c = \<lparr>uCmdSize = ui32CommandSize, cmd_DevIndex = ui32DevIndex, CommandType = ucast ctype,
                      cmd_DstSyncCount = nd, cmd_SrcSyncCount = ns, cmd_psDstSync = psDstSync,
                      cmd_psSrcSync = psSrcSync, uDataSize = ui32DataByteSize, cmd_ProcessID = pid,
                      cmd_pvData = pvData, cmd_syncs = dst @ src\<rparr>;
                 pos = cmd_offset q psCommand
             in if pos + cmd_bytes c > lin_size q then None
                else Some (PVRSRV_OK, psCommand,
                       set_queue (q\<lparr>lin := lin_write pos c (lin q)\<rparr>) (s1\<lparr>sync_data := sd2\<rparr>)))
        }
      })"

definition PVRSRVSubmitCommandKM ::
  "IMG_UINTPTR_T \<Rightarrow> IMG_UINTPTR_T \<Rightarrow> 'w Q_SYS_DATA \<Rightarrow> (PVRSRV_ERROR \<times> 'w Q_SYS_DATA) option" where
  "PVRSRVSubmitCommandKM p psCommand s =
     do {
       q \<leftarrow> queue_at p s;
       c \<leftarrow> lin q (cmd_offset q psCommand);
       (let base = pvLinQueueKM q + ucast (ui32WriteOffset q) + ucast sizeof_PVRSRV_COMMAND;
            dsz = ucast (cmd_DstSyncCount c) * ucast sizeof_PVRSRV_SYNC_OBJECT;
            ssz = ucast (cmd_SrcSyncCount c) * ucast sizeof_PVRSRV_SYNC_OBJECT;
            c1 = (if cmd_DstSyncCount c > 0 then c\<lparr>cmd_psDstSync := base\<rparr> else c);
            c2 = (if cmd_SrcSyncCount c1 > 0 then c1\<lparr>cmd_psSrcSync := base + dsz\<rparr> else c1);
            c3 = c2\<lparr>cmd_pvData := base + dsz + ssz\<rparr>;
            q1 = q\<lparr>lin := (lin q)(cmd_offset q psCommand \<mapsto> c3)\<rparr>
        in Some (PVRSRV_OK, set_queue (UPDATE_QUEUE_WOFF q1 (uCmdSize c3)) s))
     }"

section \<open>Processing the queues\<close>

text \<open>Following the pointers of a command to its objects.\<close>

definition dst_objs :: "IMG_UINTPTR_T \<Rightarrow> PVRSRV_COMMAND \<Rightarrow> PVRSRV_SYNC_OBJECT list option" where
  "dst_objs psCommand c =
     (if cmd_DstSyncCount c = 0 then Some []
      else if cmd_psDstSync c = psCommand + ucast sizeof_PVRSRV_COMMAND \<and> unat (cmd_DstSyncCount c) \<le> length (cmd_syncs c)
        then Some (take (unat (cmd_DstSyncCount c)) (cmd_syncs c)) else None)"

definition src_objs :: "IMG_UINTPTR_T \<Rightarrow> PVRSRV_COMMAND \<Rightarrow> PVRSRV_SYNC_OBJECT list option" where
  "src_objs psCommand c =
     (if cmd_SrcSyncCount c = 0 then Some []
      else if cmd_psSrcSync c = psCommand + ucast sizeof_PVRSRV_COMMAND + ucast (cmd_DstSyncCount c) * ucast sizeof_PVRSRV_SYNC_OBJECT
              \<and> unat (cmd_DstSyncCount c) + unat (cmd_SrcSyncCount c) \<le> length (cmd_syncs c)
        then Some (take (unat (cmd_SrcSyncCount c)) (drop (unat (cmd_DstSyncCount c)) (cmd_syncs c))) else None)"

definition obj_ready :: "bool \<Rightarrow> (IMG_UINTPTR_T \<Rightarrow> PVRSRV_SYNC_DATA) \<Rightarrow> PVRSRV_SYNC_OBJECT \<Rightarrow> bool" where
  "obj_ready bFlush sd x =
     (let w = ui32WriteOpsComplete (sd (psKernelSyncInfoKM x));
          r = ui32ReadOpsComplete (sd (psKernelSyncInfoKM x))
      in \<not> ((w \<noteq> so_WriteOpsPending x \<or> r \<noteq> so_ReadOpsPending x) \<and>
            (\<not> bFlush \<or> \<not> SYNCOPS_STALE w (so_WriteOpsPending x) \<or> \<not> SYNCOPS_STALE r (so_ReadOpsPending x))))"

fun walk_objs :: "bool \<Rightarrow> (IMG_UINTPTR_T \<Rightarrow> PVRSRV_SYNC_DATA) \<Rightarrow> PVRSRV_SYNC_OBJECT list \<Rightarrow> PVRSRV_ERROR" where
  "walk_objs bFlush sd [] = PVRSRV_OK"
| "walk_objs bFlush sd (x # xs) =
     (if \<not> obj_ready bFlush sd x then PVRSRV_ERROR_FAILED_DEPENDENCIES else walk_objs bFlush sd xs)"

fun copy_objs :: "nat \<Rightarrow> PVRSRV_SYNC_OBJECT list \<Rightarrow> PVRSRV_SYNC_OBJECT list \<Rightarrow> PVRSRV_SYNC_OBJECT list option" where
  "copy_objs i [] a = Some a"
| "copy_objs i (x # xs) a = (if i < length a then copy_objs (Suc i) xs (a[i := x]) else None)"

definition set_cc :: "IMG_UINTPTR_T \<Rightarrow> COMMAND_COMPLETE_DATA \<Rightarrow> 'w Q_SYS_DATA \<Rightarrow> 'w Q_SYS_DATA" where
  "set_cc ck cc s = s\<lparr>cc_data := (cc_data s)(ck \<mapsto> cc)\<rparr>"

text \<open>The entry of a command's type in the array of its device, and the cookie the next command of the type uses.\<close>

definition dev_entry :: "PVRSRV_COMMAND \<Rightarrow> 'w Q_SYS_DATA \<Rightarrow> (IMG_UINTPTR_T \<times> DEVICE_COMMAND_DATA list \<times> DEVICE_COMMAND_DATA) option" where
  "dev_entry c s =
     do {
       (a, es) \<leftarrow> apsDeviceCommandData s (cmd_DevIndex c);
       if unat (CommandType c) < length es then Some (a, es, es ! unat (CommandType c)) else None
     }"

definition next_cookie :: "DEVICE_COMMAND_DATA \<Rightarrow> IMG_UINTPTR_T option" where
  "next_cookie d =
     (if unat (ui32CCBOffset d) < length (apsCmdCompleteData d) then Some (apsCmdCompleteData d ! unat (ui32CCBOffset d)) else None)"

definition PVRSRVProcessCommand ::
  "'w DRIVERS \<Rightarrow> IMG_UINTPTR_T \<Rightarrow> IMG_UINTPTR_T \<Rightarrow> bool \<Rightarrow> 'w Q_SYS_DATA \<Rightarrow> (PVRSRV_ERROR \<times> 'w Q_SYS_DATA) option" where
  "PVRSRVProcessCommand D p psCommand bFlush s =
     do {
       c \<leftarrow> cmd_at p psCommand s;
       dst \<leftarrow> dst_objs psCommand c;
       src \<leftarrow> (if walk_objs bFlush (sync_data s) dst = PVRSRV_OK then src_objs psCommand c else Some []);
       if walk_objs bFlush (sync_data s) dst \<noteq> PVRSRV_OK then Some (PVRSRV_ERROR_FAILED_DEPENDENCIES, s)
       else if walk_objs bFlush (sync_data s) src \<noteq> PVRSRV_OK then Some (PVRSRV_ERROR_FAILED_DEPENDENCIES, s)
       else if cmd_DevIndex c \<ge> SYS_DEVICE_COUNT then Some (PVRSRV_ERROR_INVALID_PARAMS, s)
       else do {
         (a, es, d) \<leftarrow> dev_entry c s;
         ck \<leftarrow> next_cookie d;
         cc \<leftarrow> cc_data s ck;
         if bInUse cc then Some (PVRSRV_ERROR_FAILED_DEPENDENCIES, s)
         else do {
           a1 \<leftarrow> copy_objs 0 dst (cc_syncs cc);
           a2 \<leftarrow> copy_objs (cc_psSrcSync cc) src a1;
           (let s1 = set_cc ck (cc\<lparr>bInUse := True, cc_DstSyncCount := cmd_DstSyncCount c,
                                   cc_SrcSyncCount := cmd_SrcSyncCount c, cc_syncs := a2\<rparr>) s;
                (ok, s2) = dr_CmdProc D (pfnCmdProc d) ck (uDataSize c) (cmd_pvData c) s1
            in do {
              s3 \<leftarrow> (if ok then Some (s2\<lparr>q_log := (q_log s2)(p := q_log s2 p @ [c])\<rparr>)
                     else do { cc2 \<leftarrow> cc_data s2 ck; Some (set_cc ck (cc2\<lparr>bInUse := False\<rparr>) s2) });
              c3 \<leftarrow> cmd_at p psCommand s3;
              (a3, es3) \<leftarrow> apsDeviceCommandData s3 (cmd_DevIndex c);
              if a3 \<noteq> a \<or> length es3 \<le> unat (CommandType c3) then None
              else Some (if ok then PVRSRV_OK else PVRSRV_ERROR_CMD_NOT_PROCESSED,
                     s3\<lparr>apsDeviceCommandData := (apsDeviceCommandData s3)
                          (cmd_DevIndex c \<mapsto> (a, es3[unat (CommandType c3) := (es3 ! unat (CommandType c3))
                             \<lparr>ui32CCBOffset := (ui32CCBOffset d + 1) mod of_nat DC_NUM_COMMANDS_PER_TYPE\<rparr>]))\<rparr>)
            })
         }
       }
     }"

definition PVRSRVProcessQueues_ForEachCb ::
  "'w DRIVERS \<Rightarrow> IMG_UINTPTR_T \<Rightarrow> 'w Q_SYS_DATA \<Rightarrow> 'w Q_SYS_DATA option" where
  "PVRSRVProcessQueues_ForEachCb D psDeviceNode s =
     do {
       nd \<leftarrow> List.find (\<lambda>x. qn_psDeviceNode x = psDeviceNode) (q_psDeviceNodeList s);
       Some (if bReProcessDeviceCommandComplete nd \<and> pfnDeviceCommandComplete nd \<noteq> IMG_NULL
             then dr_DeviceCommandComplete D (pfnDeviceCommandComplete nd) psDeviceNode s else s)
     }"

definition PVRSRVCommandCompleteCallbacks_ForEachCb ::
  "'w DRIVERS \<Rightarrow> IMG_UINTPTR_T \<Rightarrow> 'w Q_SYS_DATA \<Rightarrow> 'w Q_SYS_DATA option" where
  "PVRSRVCommandCompleteCallbacks_ForEachCb D psDeviceNode s =
     do {
       nd \<leftarrow> List.find (\<lambda>x. qn_psDeviceNode x = psDeviceNode) (q_psDeviceNodeList s);
       Some (if pfnDeviceCommandComplete nd \<noteq> IMG_NULL
             then dr_DeviceCommandComplete D (pfnDeviceCommandComplete nd) psDeviceNode s else s)
     }"

definition PVRSRVSetDCState_ForEachVaCb ::
  "'w DRIVERS \<Rightarrow> IMG_UINT32 \<Rightarrow> IMG_UINTPTR_T \<Rightarrow> 'w Q_SYS_DATA \<Rightarrow> 'w Q_SYS_DATA option" where
  "PVRSRVSetDCState_ForEachVaCb D ui32State psDeviceNode s =
     do {
       nd \<leftarrow> List.find (\<lambda>x. qn_psDeviceNode x = psDeviceNode) (q_psDeviceNodeList s);
       Some (if eDeviceClass nd = PVRSRV_DEVICE_CLASS_DISPLAY \<and> pfnSetDCState nd \<noteq> IMG_NULL \<and> hExtDevice nd \<noteq> IMG_NULL
             then dr_SetDCState D (pfnSetDCState nd) (hExtDevice nd) ui32State s else s)
     }"

text \<open>\<open>List_PVRSRV_DEVICE_NODE_ForEach\<close>: the nodes in the order of the list.\<close>

fun nodes_ForEach :: "(IMG_UINTPTR_T \<Rightarrow> 'w Q_SYS_DATA \<Rightarrow> 'w Q_SYS_DATA option) \<Rightarrow> IMG_UINTPTR_T list \<Rightarrow> 'w Q_SYS_DATA \<Rightarrow> 'w Q_SYS_DATA option" where
  "nodes_ForEach f [] s = Some s"
| "nodes_ForEach f (n # ns) s = do { s1 \<leftarrow> f n s; nodes_ForEach f ns s1 }"

definition PVRSRVSetDCState :: "'w DRIVERS \<Rightarrow> IMG_UINT32 \<Rightarrow> 'w Q_SYS_DATA \<Rightarrow> 'w Q_SYS_DATA option" where
  "PVRSRVSetDCState D ui32State s =
     nodes_ForEach (PVRSRVSetDCState_ForEachVaCb D ui32State) (map qn_psDeviceNode (q_psDeviceNodeList s)) s"

definition ScheduleDeviceCallbacks :: "'w DRIVERS \<Rightarrow> 'w Q_SYS_DATA \<Rightarrow> 'w Q_SYS_DATA option" where
  "ScheduleDeviceCallbacks D s =
     nodes_ForEach (PVRSRVCommandCompleteCallbacks_ForEachCb D) (map qn_psDeviceNode (q_psDeviceNodeList s)) s"

partial_function (option) process_queue ::
  "'w DRIVERS \<Rightarrow> bool \<Rightarrow> IMG_UINTPTR_T \<Rightarrow> 'w Q_SYS_DATA \<Rightarrow> 'w Q_SYS_DATA option" where
  "process_queue D bFlush p s =
     do {
       q \<leftarrow> queue_at p s;
       if ui32ReadOffset q = ui32WriteOffset q then Some s
       else
         (let psCommand = pvLinQueueKM q + ucast (ui32ReadOffset q) in
          do {
            (e, s1) \<leftarrow> PVRSRVProcessCommand D p psCommand bFlush s;
            if e = PVRSRV_OK then do {
              q1 \<leftarrow> queue_at p s1;
              c \<leftarrow> cmd_at p psCommand s1;
              process_queue D bFlush p (set_queue (UPDATE_QUEUE_ROFF q1 (uCmdSize c)) s1)
            }
            else Some s1
          })
     }"

partial_function (option) process_list ::
  "'w DRIVERS \<Rightarrow> bool \<Rightarrow> IMG_UINTPTR_T \<Rightarrow> 'w Q_SYS_DATA \<Rightarrow> 'w Q_SYS_DATA option" where
  "process_list D bFlush psQueue s =
     (if psQueue = IMG_NULL then Some s
      else do {
        s1 \<leftarrow> process_queue D bFlush psQueue s;
        process_list D bFlush (head_queue (tl (from_queue psQueue s1))) s1
      })"

partial_function (option) process_lock ::
  "(nat \<Rightarrow> 'w Q_SYS_DATA \<Rightarrow> 'w Q_SYS_DATA) \<Rightarrow> nat \<Rightarrow> 'w Q_SYS_DATA \<Rightarrow> 'w Q_SYS_DATA option" where
  "process_lock others n s =
     (let (e, r) = OSLockResource (sQProcessResource s) ISR_ID;
          s1 = s\<lparr>sQProcessResource := r\<rparr>
      in if e = PVRSRV_OK then Some s1 else process_lock others (Suc n) (others n s1))"

definition PVRSRVProcessQueues ::
  "'w DRIVERS \<Rightarrow> (nat \<Rightarrow> 'w Q_SYS_DATA \<Rightarrow> 'w Q_SYS_DATA) \<Rightarrow> bool \<Rightarrow> 'w Q_SYS_DATA \<Rightarrow> (PVRSRV_ERROR \<times> 'w Q_SYS_DATA) option" where
  "PVRSRVProcessQueues D others bFlush s =
     do {
       s1 \<leftarrow> process_lock others 0 s;
       let psQueue = head_queue (psQueueList s1);
       s2 \<leftarrow> (if bFlush then PVRSRVSetDCState D DC_STATE_FLUSH_COMMANDS s1 else Some s1);
       s3 \<leftarrow> process_list D bFlush psQueue s2;
       s4 \<leftarrow> (if bFlush then PVRSRVSetDCState D DC_STATE_NO_FLUSH_COMMANDS s3 else Some s3);
       s5 \<leftarrow> nodes_ForEach (PVRSRVProcessQueues_ForEachCb D) (map qn_psDeviceNode (q_psDeviceNodeList s4)) s4;
       Some (PVRSRV_OK, s5\<lparr>sQProcessResource := snd (OSUnlockResource (sQProcessResource s5) ISR_ID)\<rparr>)
     }"

section \<open>Completion\<close>

fun complete_objs ::
  "bool \<Rightarrow> PVRSRV_SYNC_OBJECT list \<Rightarrow> (IMG_UINTPTR_T \<Rightarrow> PVRSRV_SYNC_DATA) \<Rightarrow> (IMG_UINTPTR_T \<Rightarrow> PVRSRV_SYNC_DATA)" where
  "complete_objs bIsSrc [] sd = sd"
| "complete_objs bIsSrc (x # xs) sd =
     (let k = psKernelSyncInfoKM x; d = sd k
      in complete_objs bIsSrc xs
           (sd(k := if bIsSrc then d\<lparr>ui32ReadOpsComplete := ui32ReadOpsComplete d + 1\<rparr>
                    else d\<lparr>ui32WriteOpsComplete := ui32WriteOpsComplete d + 1\<rparr>)))"

definition cc_objs :: "nat \<Rightarrow> IMG_UINT32 \<Rightarrow> COMMAND_COMPLETE_DATA \<Rightarrow> PVRSRV_SYNC_OBJECT list option" where
  "cc_objs i n cc = (if n = 0 then Some [] else if i + unat n \<le> length (cc_syncs cc) then Some (take (unat n) (drop i (cc_syncs cc))) else None)"

definition PVRSRVCommandCompleteKM ::
  "'w DRIVERS \<Rightarrow> IMG_UINTPTR_T \<Rightarrow> bool \<Rightarrow> 'w Q_SYS_DATA \<Rightarrow> 'w Q_SYS_DATA option" where
  "PVRSRVCommandCompleteKM D hCmdCookie bScheduleMISR s =
     do {
       cc \<leftarrow> cc_data s hCmdCookie;
       dst \<leftarrow> cc_objs 0 (cc_DstSyncCount cc) cc;
       src \<leftarrow> cc_objs (cc_psSrcSync cc) (cc_SrcSyncCount cc) cc;
       let s1 = s\<lparr>sync_data := complete_objs True src (complete_objs False dst (sync_data s))\<rparr>;
       s2 \<leftarrow> ScheduleDeviceCallbacks D (set_cc hCmdCookie (cc\<lparr>bInUse := False\<rparr>) s1);
       Some (if bScheduleMISR then s2\<lparr>q_misr := Suc (q_misr s2)\<rparr> else s2)
     }"

section \<open>Command processors\<close>

fun remove_entries :: "IMG_UINTPTR_T list \<Rightarrow> 'w Q_SYS_DATA \<Rightarrow> 'w Q_SYS_DATA option" where
  "remove_entries [] s = Some s"
| "remove_entries (p # ps) s =
     (if p \<noteq> IMG_NULL then do {
        cc \<leftarrow> cc_data s p;
        remove_entries ps (s\<lparr>q_os := OSFreeMem p (q_os s), cc_data := (cc_data s)(p := None)\<rparr>)
      }
      else remove_entries ps s)"

definition PVRSRVRemoveCmdProcListKM ::
  "IMG_UINT32 \<Rightarrow> IMG_UINT32 \<Rightarrow> 'w Q_SYS_DATA \<Rightarrow> (PVRSRV_ERROR \<times> 'w Q_SYS_DATA) option" where
  "PVRSRVRemoveCmdProcListKM ui32DevIndex ui32CmdCount s =
     (if ui32DevIndex \<ge> SYS_DEVICE_COUNT then Some (PVRSRV_ERROR_INVALID_PARAMS, s)
      else case apsDeviceCommandData s ui32DevIndex of
        None \<Rightarrow> Some (PVRSRV_OK, s)
      | Some (a, es) \<Rightarrow>
          if length es < unat ui32CmdCount then None
          else do {
            s1 \<leftarrow> remove_entries (concat (map apsCmdCompleteData (take (unat ui32CmdCount) es))) s;
            Some (PVRSRV_OK, s1\<lparr>q_os := OSFreeMem a (q_os s1),
              apsDeviceCommandData := (apsDeviceCommandData s1)(ui32DevIndex := None)\<rparr>)
          })"

definition zero_sync_object :: PVRSRV_SYNC_OBJECT where
  "zero_sync_object = \<lparr>psKernelSyncInfoKM = 0, so_WriteOpsPending = 0, so_ReadOpsPending = 0\<rparr>"

definition set_entry :: "IMG_UINT32 \<Rightarrow> nat \<Rightarrow> DEVICE_COMMAND_DATA \<Rightarrow> 'w Q_SYS_DATA \<Rightarrow> 'w Q_SYS_DATA" where
  "set_entry dev i e s =
     s\<lparr>apsDeviceCommandData := (apsDeviceCommandData s)
        (dev := map_option (\<lambda>(a, es). (a, es[i := e])) (apsDeviceCommandData s dev))\<rparr>"

fun register_loop ::
  "IMG_UINT32 \<Rightarrow> (nat \<Rightarrow> DEVICE_COMMAND_DATA) \<Rightarrow> nat \<Rightarrow> (IMG_UINTPTR_T \<times> IMG_UINT32 \<times> IMG_UINT32) list \<Rightarrow> 'w Q_SYS_DATA
    \<Rightarrow> (PVRSRV_ERROR \<times> 'w Q_SYS_DATA) option" where
  "register_loop dev junk i [] s = Some (PVRSRV_OK, s)"
| "register_loop dev junk i ((fn, md, ms) # xs) s =
     (let e0 = (junk i)\<lparr>pfnCmdProc := fn, ui32CCBOffset := 0\<rparr>;
          ui32AllocSize = sizeof_COMMAND_COMPLETE_DATA + (md + ms) * sizeof_PVRSRV_SYNC_OBJECT;
          (eError, p, os1) = OSAllocMem ui32AllocSize (q_os s);
          s1 = set_entry dev i e0 (s\<lparr>q_os := os1\<rparr>)
      in if eError \<noteq> PVRSRV_OK then Some (eError, s1)
         else if ui32AllocSize < sizeof_COMMAND_COMPLETE_DATA then None
         else
           (let cc = \<lparr>bInUse = False, cc_DstSyncCount = 0, cc_SrcSyncCount = 0, cc_psSrcSync = unat md,
                      cc_AllocSize = ui32AllocSize,
                      cc_syncs = replicate (unat (ui32AllocSize - sizeof_COMMAND_COMPLETE_DATA) div unat sizeof_PVRSRV_SYNC_OBJECT) zero_sync_object\<rparr>
            in register_loop dev junk (Suc i) xs
                 (set_cc p cc (set_entry dev i (e0\<lparr>apsCmdCompleteData := [p]\<rparr>) s1))))"

definition PVRSRVRegisterCmdProcListKM ::
  "(nat \<Rightarrow> DEVICE_COMMAND_DATA) \<Rightarrow> IMG_UINT32 \<Rightarrow> IMG_UINTPTR_T list \<Rightarrow> (IMG_UINT32 \<times> IMG_UINT32) list \<Rightarrow> IMG_UINT32
    \<Rightarrow> 'w Q_SYS_DATA \<Rightarrow> (PVRSRV_ERROR \<times> 'w Q_SYS_DATA) option" where
  "PVRSRVRegisterCmdProcListKM junk ui32DevIndex ppfnCmdProcList ui32MaxSyncsPerCmd ui32CmdCount s =
     (if ui32DevIndex \<ge> SYS_DEVICE_COUNT then Some (PVRSRV_ERROR_INVALID_PARAMS, s)
      else
        (let (e1, a, os1) = OSAllocMem (ui32CmdCount * sizeof_DEVICE_COMMAND_DATA) (q_os s);
             s1 = s\<lparr>q_os := os1\<rparr>;
             n = unat ui32CmdCount
         in if e1 \<noteq> PVRSRV_OK then
              do { (_, s2) \<leftarrow> PVRSRVRemoveCmdProcListKM ui32DevIndex ui32CmdCount s1; Some (e1, s2) }
            else if length ppfnCmdProcList < n \<or> length ui32MaxSyncsPerCmd < n \<or> 2 ^ 32 \<le> n * unat sizeof_DEVICE_COMMAND_DATA
              then None
            else do {
              (e2, s2) \<leftarrow> register_loop ui32DevIndex junk 0 (zip (take n ppfnCmdProcList) (take n ui32MaxSyncsPerCmd))
                 (s1\<lparr>apsDeviceCommandData := (apsDeviceCommandData s1)(ui32DevIndex \<mapsto> (a, map junk [0..<n]))\<rparr>);
              if e2 = PVRSRV_OK then Some (PVRSRV_OK, s2)
              else do { (_, s3) \<leftarrow> PVRSRVRemoveCmdProcListKM ui32DevIndex ui32CmdCount s2; Some (e2, s3) }
            }))"

end
