(* ===== verification/Queue_Ring.thy ===== *)
theory Queue_Ring
  imports Command_Queue
begin

text \<open>
  The ring buffer of a command queue: the arithmetic of its offsets, the invariant that relates the buffer to
  the list of pending commands, and its preservation by inserting, submitting and taking a command.
\<close>

section \<open>Arithmetic of the offsets\<close>

lemma ring_mask:
  assumes "k < 32"
  shows "unat (x AND (2 ^ k - 1) :: IMG_SIZE_T) = unat x mod 2 ^ k"
proof -
  have "x AND (2 ^ k - 1) = take_bit k x"
    by (simp add: take_bit_eq_mask mask_eq_exp_minus_1)
  then show ?thesis using unsigned_take_bit_eq [of k x] take_bit_eq_mod [of k "unat x"] by metis
qed

lemma unat_pow2:
  assumes "k < 32"
  shows "unat (2 ^ k :: IMG_SIZE_T) = 2 ^ k"
proof -
  have "(2 :: nat) ^ k < 2 ^ 32" using assms by (intro power_strict_increasing) auto
  then have "unat (of_nat (2 ^ k) :: IMG_SIZE_T) = 2 ^ k" by (simp only: unsigned_of_nat) (simp add: take_bit_nat_eq_self assms)
  then show ?thesis by simp
qed

lemma ring_add:
  assumes "k < 32"
  shows "unat ((r + s) AND (2 ^ k - 1) :: IMG_SIZE_T) = (unat r + unat s) mod 2 ^ k"
proof -
  have "(2 :: nat) ^ k dvd 2 ^ 32" using assms by (intro le_imp_power_dvd) simp
  then show ?thesis using assms by (simp add: ring_mask unat_word_ariths mod_mod_cancel)
qed

lemma mod_hom:
  assumes "(n :: int) dvd 2 ^ 32"
  shows "uint (a + b :: IMG_SIZE_T) mod n = (uint a + uint b) mod n"
  using assms by (simp add: uint_word_ariths mod_mod_cancel)

lemma diff_hom:
  assumes "(n :: int) dvd 2 ^ 32"
  shows "uint (a - b :: IMG_SIZE_T) mod n = (uint a - uint b) mod n"
  using assms by (simp add: uint_word_ariths mod_mod_cancel)

lemma ring_space:
  fixes r w :: IMG_SIZE_T
  assumes k: "k < 32" and w: "unat w = (unat r + t) mod 2 ^ k" and t: "t < 2 ^ k"
  shows "unat (((r - w) + (2 ^ k - 1)) AND (2 ^ k - 1)) = 2 ^ k - 1 - t"
proof -
  let ?N = "(2 :: int) ^ k"
  have dvd: "?N dvd 2 ^ 32" using k by (intro le_imp_power_dvd) simp
  have tN: "int t < ?N" using t by (metis of_nat_less_iff of_nat_numeral of_nat_power)
  have uw: "uint w = (uint r + int t) mod ?N"
    using arg_cong [OF w, of int] by (simp add: zmod_int)
  have un: "uint (2 ^ k - 1 :: IMG_SIZE_T) mod ?N = (?N - 1) mod ?N"
    using arg_cong [OF unat_pow2 [OF k], of int] dvd by (simp add: uint_word_ariths mod_mod_cancel)
  have "uint ((r - w) + (2 ^ k - 1)) mod ?N = (uint r - uint w + uint (2 ^ k - 1 :: IMG_SIZE_T)) mod ?N"
    using mod_hom [OF dvd, of "r - w" "2 ^ k - 1"] diff_hom [OF dvd, of r w] by (metis mod_add_left_eq)
  also have "\<dots> = (uint r - uint w + (?N - 1)) mod ?N" using un by (metis mod_add_right_eq)
  also have "\<dots> = (uint r - (uint r + int t) + (?N - 1)) mod ?N"
    unfolding uw by (metis mod_add_left_eq mod_diff_right_eq)
  also have "\<dots> = (?N - 1 - int t) mod ?N" by simp
  also have "\<dots> = ?N - 1 - int t"
    using tN by (intro mod_pos_pos_trivial) simp_all
  finally have "int (unat ((r - w) + (2 ^ k - 1)) mod 2 ^ k) = ?N - 1 - int t" by (simp add: zmod_int)
  also have "\<dots> = int (2 ^ k - 1 - t)" using t by (simp add: of_nat_diff)
  finally show ?thesis using k by (simp only: ring_mask of_nat_eq_iff)
qed

lemma ring_disjoint:
  assumes "(r :: nat) < N" "w = (r + T) mod N" "len \<le> T" "T + n \<le> N" "0 < len" "0 < n"
  shows "w \<noteq> r" "\<not> (r < w + n \<and> w < r + len)"
proof -
  have "w = (if r + T < N then r + T else r + T - N)"
    using assms by (simp add: mod_if)
  then show "w \<noteq> r" "\<not> (r < w + n \<and> w < r + len)" using assms by (auto split: if_splits)
qed

lemma ring_step: "n \<le> T \<Longrightarrow> ((r + n) mod N + (T - n)) mod N = (r + T :: nat) mod N"
  by (metis (no_types, opaque_lifting) add.assoc le_add_diff_inverse mod_add_left_eq)

section \<open>Pending commands\<close>

abbreviation clen :: "PVRSRV_COMMAND \<Rightarrow> nat" where "clen c \<equiv> unat (uCmdSize c)"

abbreviation cmd_total :: "PVRSRV_COMMAND list \<Rightarrow> nat" where "cmd_total cs \<equiv> sum_list (map clen cs)"

text \<open>A command in the buffer occupies the bytes its size says, and its pointers lead to the objects and to the data behind it.\<close>

definition cmd_ok :: "IMG_UINTPTR_T \<Rightarrow> PVRSRV_COMMAND \<Rightarrow> bool" where
  "cmd_ok psCommand c \<longleftrightarrow>
     clen c = cmd_bytes c \<and> length (cmd_syncs c) = unat (cmd_DstSyncCount c) + unat (cmd_SrcSyncCount c) \<and>
     cmd_psDstSync c = psCommand + ucast sizeof_PVRSRV_COMMAND \<and>
     cmd_psSrcSync c = cmd_psDstSync c + ucast (cmd_DstSyncCount c) * ucast sizeof_PVRSRV_SYNC_OBJECT \<and>
     cmd_pvData c = cmd_psSrcSync c + ucast (cmd_SrcSyncCount c) * ucast sizeof_PVRSRV_SYNC_OBJECT"

fun cmds_at :: "IMG_UINTPTR_T \<Rightarrow> nat \<Rightarrow> (nat \<rightharpoonup> PVRSRV_COMMAND) \<Rightarrow> nat \<Rightarrow> PVRSRV_COMMAND list \<Rightarrow> bool" where
  "cmds_at base N m r [] \<longleftrightarrow> True"
| "cmds_at base N m r (c # cs) \<longleftrightarrow>
     m r = Some c \<and> cmd_ok (base + of_nat r) c \<and> clen c \<le> unat PVRSRV_MAX_CMD_SIZE \<and> cmds_at base N m ((r + clen c) mod N) cs"

definition queue_ok :: "PVRSRV_COMMAND list \<Rightarrow> PVRSRV_QUEUE_INFO \<Rightarrow> bool" where
  "queue_ok cs q \<longleftrightarrow>
     (\<exists>k < 32. ui32QueueSize q = 2 ^ k \<and> lin_size q = 2 ^ k + unat PVRSRV_MAX_CMD_SIZE \<and> pvLinQueueUM q = pvLinQueueKM q \<and>
        unat (ui32ReadOffset q) < 2 ^ k \<and> cmd_total cs < 2 ^ k \<and>
        unat (ui32WriteOffset q) = (unat (ui32ReadOffset q) + cmd_total cs) mod 2 ^ k \<and>
        cmds_at (pvLinQueueKM q) (2 ^ k) (lin q) (unat (ui32ReadOffset q)) cs)"

lemma cmd_bytes_pos: "56 \<le> cmd_bytes c"
  by (simp add: cmd_bytes_def queue_consts)

lemma cmd_ok_pos: "cmd_ok a c \<Longrightarrow> 0 < clen c"
  using cmd_bytes_pos [of c] by (simp add: cmd_ok_def)

lemma cmds_at_append:
  "r < N \<Longrightarrow> cmds_at base N m r (cs @ ds) \<longleftrightarrow> cmds_at base N m r cs \<and> cmds_at base N m ((r + cmd_total cs) mod N) ds"
  by (induction cs arbitrary: r) (simp_all add: mod_simps add.assoc)

text \<open>Storing a command behind the pending ones leaves them in place.\<close>

lemma cmds_at_write:
  assumes "cmds_at base N m r cs" "r < N" "cmd_total cs \<le> T" "T + cmd_bytes c \<le> N"
  shows "cmds_at base N (lin_write ((r + T) mod N) c m) r cs"
  using assms
proof (induction cs arbitrary: r T)
  case (Cons d cs)
  let ?w = "(r + T) mod N"
  have ok: "cmd_ok (base + of_nat r) d" and m: "m r = Some d" using Cons.prems by auto
  have len: "clen d = cmd_bytes d" using ok by (simp add: cmd_ok_def)
  have le: "clen d \<le> T" "0 < cmd_bytes c" using Cons.prems(3) cmd_bytes_pos [of c] by auto
  note dj = ring_disjoint [OF Cons.prems(2) refl le(1) Cons.prems(4) cmd_ok_pos [OF ok] le(2)]
  have "lin_write ?w c m r = Some d" using dj m len by (auto simp: lin_write_def)
  moreover have "cmds_at base N (lin_write (((r + clen d) mod N + (T - clen d)) mod N) c m) ((r + clen d) mod N) cs"
    using Cons.prems by (intro Cons.IH) auto
  moreover have "((r + clen d) mod N + (T - clen d)) mod N = ?w" by (rule ring_step [OF le(1)])
  ultimately show ?case using Cons.prems(1) by simp
qed simp

lemma queue_space:
  assumes "queue_ok cs q"
  shows "unat (GET_SPACE_IN_CMDQ q) + cmd_total cs + 1 = unat (ui32QueueSize q)"
proof -
  obtain k where k: "k < 32" "ui32QueueSize q = 2 ^ k" "cmd_total cs < 2 ^ k"
    "unat (ui32WriteOffset q) = (unat (ui32ReadOffset q) + cmd_total cs) mod 2 ^ k"
    using assms by (auto simp: queue_ok_def)
  show ?thesis unfolding GET_SPACE_IN_CMDQ_def using ring_space [OF k(1,4,3)] k(2,3) unat_pow2 [OF k(1)] by simp
qed

lemma queue_empty_iff:
  assumes "queue_ok cs q"
  shows "ui32ReadOffset q = ui32WriteOffset q \<longleftrightarrow> cs = []"
proof -
  obtain k where k: "k < 32" "unat (ui32ReadOffset q) < 2 ^ k" "cmd_total cs < 2 ^ k"
    "unat (ui32WriteOffset q) = (unat (ui32ReadOffset q) + cmd_total cs) mod 2 ^ k"
    "cmds_at (pvLinQueueKM q) (2 ^ k) (lin q) (unat (ui32ReadOffset q)) cs"
    using assms by (auto simp: queue_ok_def)
  show ?thesis
  proof (cases cs)
    case Nil
    then show ?thesis using k by (simp add: word_unat_eq_iff)
  next
    case (Cons c ds)
    then have "0 < clen c" using k(5) cmd_ok_pos by auto
    then have "unat (ui32WriteOffset q) \<noteq> unat (ui32ReadOffset q)"
      unfolding k(4) using ring_disjoint(1) [OF k(2) refl, where T = "cmd_total cs" and len = 1 and n = 1] k(3) Cons by simp
    then show ?thesis using Cons by auto
  qed
qed

text \<open>Taking the first command.\<close>

lemma queue_take:
  assumes "queue_ok (c # cs) q"
  shows "queue_ok cs (UPDATE_QUEUE_ROFF q (uCmdSize c))" "lin q (unat (ui32ReadOffset q)) = Some c"
    "cmd_ok (pvLinQueueKM q + ucast (ui32ReadOffset q)) c"
proof -
  obtain k where k: "k < 32" "ui32QueueSize q = 2 ^ k" "lin_size q = 2 ^ k + unat PVRSRV_MAX_CMD_SIZE" "pvLinQueueUM q = pvLinQueueKM q"
    "unat (ui32ReadOffset q) < 2 ^ k" "cmd_total (c # cs) < 2 ^ k"
    "unat (ui32WriteOffset q) = (unat (ui32ReadOffset q) + cmd_total (c # cs)) mod 2 ^ k"
    "cmds_at (pvLinQueueKM q) (2 ^ k) (lin q) (unat (ui32ReadOffset q)) (c # cs)"
    using assms by (auto simp: queue_ok_def)
  have r: "unat ((ui32ReadOffset q + uCmdSize c) AND (2 ^ k - 1)) = (unat (ui32ReadOffset q) + clen c) mod 2 ^ k"
    by (rule ring_add [OF k(1)])
  show "queue_ok cs (UPDATE_QUEUE_ROFF q (uCmdSize c))"
    unfolding queue_ok_def using k r by (intro exI [of _ k]) (simp add: UPDATE_QUEUE_ROFF_def mod_simps add.assoc)
  show "lin q (unat (ui32ReadOffset q)) = Some c" using k(8) by simp
  show "cmd_ok (pvLinQueueKM q + ucast (ui32ReadOffset q)) c" using k(8) by (simp add: unsigned_of_nat)
qed

text \<open>Storing a command at the write offset, and submitting it.\<close>

lemma queue_store:
  assumes "queue_ok cs q" "cmd_bytes c < unat (GET_SPACE_IN_CMDQ q) + 1"
  shows "queue_ok cs (q\<lparr>lin := lin_write (unat (ui32WriteOffset q)) c (lin q)\<rparr>)"
proof -
  obtain k where k: "k < 32" "ui32QueueSize q = 2 ^ k" "lin_size q = 2 ^ k + unat PVRSRV_MAX_CMD_SIZE" "pvLinQueueUM q = pvLinQueueKM q"
    "unat (ui32ReadOffset q) < 2 ^ k" "cmd_total cs < 2 ^ k"
    "unat (ui32WriteOffset q) = (unat (ui32ReadOffset q) + cmd_total cs) mod 2 ^ k"
    "cmds_at (pvLinQueueKM q) (2 ^ k) (lin q) (unat (ui32ReadOffset q)) cs"
    using assms by (auto simp: queue_ok_def)
  have "cmd_total cs + cmd_bytes c \<le> 2 ^ k" using queue_space [OF assms(1)] assms(2) k(2) unat_pow2 [OF k(1)] by simp
  then have "cmds_at (pvLinQueueKM q) (2 ^ k) (lin_write (unat (ui32WriteOffset q)) c (lin q)) (unat (ui32ReadOffset q)) cs"
    using cmds_at_write [OF k(8,5) order.refl] k(7) by simp
  then show ?thesis unfolding queue_ok_def using k by (intro exI [of _ k]) simp
qed

lemma queue_submit:
  assumes "queue_ok cs q" "lin q (unat (ui32WriteOffset q)) = Some c"
    "cmd_ok (pvLinQueueKM q + ucast (ui32WriteOffset q)) c" "clen c \<le> unat PVRSRV_MAX_CMD_SIZE"
    "clen c \<le> unat (GET_SPACE_IN_CMDQ q)"
  shows "queue_ok (cs @ [c]) (UPDATE_QUEUE_WOFF q (uCmdSize c))"
proof -
  obtain k where k: "k < 32" "ui32QueueSize q = 2 ^ k" "lin_size q = 2 ^ k + unat PVRSRV_MAX_CMD_SIZE" "pvLinQueueUM q = pvLinQueueKM q"
    "unat (ui32ReadOffset q) < 2 ^ k" "cmd_total cs < 2 ^ k"
    "unat (ui32WriteOffset q) = (unat (ui32ReadOffset q) + cmd_total cs) mod 2 ^ k"
    "cmds_at (pvLinQueueKM q) (2 ^ k) (lin q) (unat (ui32ReadOffset q)) cs"
    using assms by (auto simp: queue_ok_def)
  have t: "cmd_total cs + clen c < 2 ^ k" using queue_space [OF assms(1)] assms(5) k(2) unat_pow2 [OF k(1)] by simp
  have w: "unat ((ui32WriteOffset q + uCmdSize c) AND (2 ^ k - 1)) = (unat (ui32ReadOffset q) + (cmd_total cs + clen c)) mod 2 ^ k"
    unfolding ring_add [OF k(1)] k(7) by (simp add: mod_simps add.assoc)
  have cs: "cmds_at (pvLinQueueKM q) (2 ^ k) (lin q) (unat (ui32ReadOffset q)) (cs @ [c])"
    using assms(2-4) k(8) by (simp add: cmds_at_append [OF k(5)] flip: k(7))
  show ?thesis
    unfolding queue_ok_def using k t w cs by (intro exI [of _ k]) (simp add: UPDATE_QUEUE_WOFF_def)
qed

end
