(* ===== verification/Queue_System.thy ===== *)
theory Queue_System
  imports Queue_Ring "HOL-Library.Sublist"
begin

text \<open>
  The operations on command queues at the level of the system: the list of queues as a store, the invariant
  \<open>fifo\<close>, which says that for every queue the commands handed over followed by the pending ones are the
  submitted ones, and its preservation by every operation, under the conditions the code relies on from
  other threads (\<open>others_fifo\<close>) and from the drivers (\<open>drivers_ok\<close>).
\<close>

section \<open>The list of queues\<close>

definition fifo :: "(IMG_UINTPTR_T \<Rightarrow> PVRSRV_COMMAND list) \<Rightarrow> 'w Q_SYS_DATA \<Rightarrow> bool" where
  "fifo sub s \<longleftrightarrow>
     distinct (map psQueueInfo (psQueueList s)) \<and> IMG_NULL \<notin> psQueueInfo ` set (psQueueList s) \<and>
     (\<forall>q \<in> set (psQueueList s). \<exists>pend. queue_ok pend q \<and> sub (psQueueInfo q) = q_log s (psQueueInfo q) @ pend)"

definition others_fifo ::
  "(IMG_UINTPTR_T \<Rightarrow> PVRSRV_COMMAND list) \<Rightarrow> IMG_UINTPTR_T \<Rightarrow> (nat \<Rightarrow> 'w Q_SYS_DATA \<Rightarrow> 'w Q_SYS_DATA) \<Rightarrow> bool" where
  "others_fifo sub p others \<longleftrightarrow>
     (\<forall>t s. fifo sub s \<and> queue_at p s \<noteq> None \<longrightarrow> fifo sub (others t s) \<and> queue_at p (others t s) \<noteq> None)"

lemma queue_at_SomeD: "queue_at p s = Some q \<Longrightarrow> psQueueInfo q = p \<and> q \<in> set (psQueueList s)"
  by (auto simp: queue_at_def find_Some_iff)

lemma queue_at_eqI:
  "distinct (map psQueueInfo (psQueueList s)) \<Longrightarrow> q \<in> set (psQueueList s) \<Longrightarrow> queue_at (psQueueInfo q) s = Some q"
  unfolding queue_at_def by (rule find_distinct)

lemma fifo_queueD:
  assumes "fifo sub s" "queue_at p s = Some q"
  obtains pend where "queue_ok pend q" "sub p = q_log s p @ pend" "psQueueInfo q = p"
  using assms queue_at_SomeD [OF assms(2)] by (auto simp: fifo_def)

lemma map_set_queue: "map psQueueInfo (psQueueList (set_queue q s)) = map psQueueInfo (psQueueList s)"
  by (simp add: set_queue_def)

lemma queue_at_set_queue:
  "queue_at p s \<noteq> None \<Longrightarrow> psQueueInfo q = p \<Longrightarrow> queue_at p (set_queue q s) = Some q"
proof -
  have *: "List.find (\<lambda>q. psQueueInfo q = p) qs \<noteq> None \<Longrightarrow> psQueueInfo q = p \<Longrightarrow>
    List.find (\<lambda>q. psQueueInfo q = p) (map (\<lambda>r. if psQueueInfo r = p then q else r) qs) = Some q" for qs
    by (induction qs) auto
  show "queue_at p s \<noteq> None \<Longrightarrow> psQueueInfo q = p \<Longrightarrow> queue_at p (set_queue q s) = Some q"
    using * [of "psQueueList s"] by (simp add: queue_at_def set_queue_def)
qed

text \<open>Replacing one queue and its entry of the history.\<close>

lemma fifo_set_queue:
  assumes "fifo sub s" "psQueueInfo q = p" "queue_ok pend q" "sub' p = lg @ pend" "\<And>p'. p' \<noteq> p \<Longrightarrow> sub' p' = sub p'"
  shows "fifo sub' (set_queue q (s\<lparr>q_log := (q_log s)(p := lg)\<rparr>))"
proof -
  let ?s = "set_queue q (s\<lparr>q_log := (q_log s)(p := lg)\<rparr>)"
  have "\<exists>pend. queue_ok pend r \<and> sub' (psQueueInfo r) = q_log ?s (psQueueInfo r) @ pend" if "r \<in> set (psQueueList ?s)" for r
    using that assms by (cases "psQueueInfo r = p") (auto simp: fifo_def set_queue_def split: if_splits)
  moreover have "map psQueueInfo (psQueueList ?s) = map psQueueInfo (psQueueList s)" by (simp add: set_queue_def)
  then have "distinct (map psQueueInfo (psQueueList ?s)) \<and> IMG_NULL \<notin> psQueueInfo ` set (psQueueList ?s)"
    using assms(1) by (metis fifo_def list.set_map)
  ultimately show ?thesis by (simp add: fifo_def)
qed

lemma fifo_cong:
  "psQueueList s' = psQueueList s \<Longrightarrow> q_log s' = q_log s \<Longrightarrow> fifo sub s' = fifo sub s"
  by (simp add: fifo_def)

section \<open>Waiting for space\<close>

lemma queue_space_wait_ok:
  assumes "others_fifo sub p others" "fifo sub s" "queue_at p s \<noteq> None"
  shows "\<exists>b s'. queue_space_wait others p n t s = Some (b, s') \<and> fifo sub s' \<and> queue_at p s' \<noteq> None \<and>
    (\<not> b \<longrightarrow> (\<exists>q. queue_at p s' = Some q \<and> n < GET_SPACE_IN_CMDQ q))"
  using assms(2,3)
proof (induction t arbitrary: s)
  case (Suc t)
  obtain q where q: "queue_at p s = Some q" using Suc.prems by auto
  have "fifo sub (others t s)" "queue_at p (others t s) \<noteq> None" using assms(1) Suc.prems by (auto simp: others_fifo_def)
  from Suc.IH [OF this] show ?case using q Suc.prems by auto
qed auto

lemma unat_round4: "unat (x AND NOT 3 :: IMG_SIZE_T) = unat x div 4 * 4"
proof -
  have m: "(3 :: IMG_SIZE_T) = mask 2" by (simp add: mask_eq_exp_minus_1)
  have sum: "x = (x AND NOT 3) + take_bit 2 x"
    unfolding m take_bit_eq_mask by (subst disjunctive_add_eq_or) (auto intro!: bit_eqI simp: bit_simps)
  have "unat (take_bit 2 x) = take_bit 2 (unat x)" by (rule unsigned_take_bit_eq)
  then have t: "unat (take_bit 2 x) = unat x mod 4" by (simp add: take_bit_eq_mod)
  have "x AND NOT 3 = x - take_bit 2 x" using sum by (simp only: eq_diff_eq)
  then have "unat (x AND NOT 3) = unat x - unat x mod 4" using t by (simp add: unat_sub word_le_nat_alt)
  then show ?thesis by (simp add: minus_mod_eq_div_mult)
qed

section \<open>Inserting and submitting\<close>

lemma sample_syncs_infos: "map psKernelSyncInfoKM (fst (sample_syncs b ps sd)) = ps"
proof (induction ps arbitrary: sd)
  case (Cons p ps)
  obtain w sd1 r sd2 xs sd3 where "PVRSRVGetWriteOpsPending p b sd = (w, sd1)" "PVRSRVGetReadOpsPending p b sd1 = (r, sd2)"
    "sample_syncs b ps sd2 = (xs, sd3)" by (metis surj_pair)
  then show ?case using Cons.IH [of sd2] by simp
qed simp

lemma sample_syncs_length: "sample_syncs b ps sd = (xs, sd') \<Longrightarrow> length xs = length ps"
  using sample_syncs_infos [of b ps sd] by (metis fst_conv length_map)

text \<open>Without wrap-around the size of a command is the number of bytes it occupies.\<close>

lemma cmd_size_bytes:
  assumes "56 + 16 * (unat nd + unat ns) + unat uData + 6 < 2 ^ 32"
  defines "d \<equiv> (uData + 3) AND NOT 3"
  shows "unat (cmd_size nd ns d) = 56 + 16 * (unat nd + unat ns) + unat d"
    "(cmd_size nd ns d + 3) AND 0xFFFFFFFC = cmd_size nd ns d" "unat d = (unat uData + 3) div 4 * 4"
proof -
  have not3: "(0xFFFFFFFC :: IMG_SIZE_T) = NOT 3" by simp
  have "unat (uData + 3) = unat uData + 3" using assms(1) by (simp add: unat_word_ariths)
  then show d: "unat d = (unat uData + 3) div 4 * 4" unfolding d_def unat_round4 by (rule arg_cong)
  then have le: "unat d \<le> unat uData + 3" by simp
  have a: "unat (nd + ns) = unat nd + unat ns" using assms(1) by (simp add: unat_word_ariths)
  have b: "unat ((nd + ns) * 16) = 16 * (unat nd + unat ns)" using assms(1) a by (simp add: unat_word_ariths)
  show sz: "unat (cmd_size nd ns d) = 56 + 16 * (unat nd + unat ns) + unat d"
    unfolding cmd_size_def queue_consts using b le assms(1) by (simp add: unat_word_ariths)
  have "unat (cmd_size nd ns d + 3) = unat (cmd_size nd ns d) + 3" using sz le assms(1) by (simp add: unat_word_ariths)
  moreover have "4 dvd unat (cmd_size nd ns d)" unfolding sz d by presburger
  ultimately have "unat ((cmd_size nd ns d + 3) AND NOT 3) = unat (cmd_size nd ns d)"
    unfolding unat_round4 by presburger
  then show "(cmd_size nd ns d + 3) AND 0xFFFFFFFC = cmd_size nd ns d"
    using not3 by (metis word_unat_eq_iff)
qed

lemma cmd_offset_woff:
  "cmd_offset q (pvLinQueueKM q + ucast (n :: IMG_SIZE_T)) = unat n"
proof -
  have "unat n < 2 ^ 64" by (rule less_trans [OF unsigned_less [of n]]) simp
  then show ?thesis by (simp add: cmd_offset_def unsigned_ucast_eq take_bit_nat_eq_self)
qed

lemma submit_ok:
  assumes "queue_at p s = Some q" "lin q (unat (ui32WriteOffset q)) = Some c"
    "cmd_ok (pvLinQueueKM q + ucast (ui32WriteOffset q)) c"
  shows "PVRSRVSubmitCommandKM p (pvLinQueueKM q + ucast (ui32WriteOffset q)) s =
    Some (PVRSRV_OK, set_queue (UPDATE_QUEUE_WOFF q (uCmdSize c)) s)"
proof -
  have "(lin q)(unat (ui32WriteOffset q) \<mapsto> c) = lin q" using assms(2) by auto
  then have q: "q\<lparr>lin := (lin q)(unat (ui32WriteOffset q) \<mapsto> c)\<rparr> = q" by simp
  have p: "cmd_psDstSync c = pvLinQueueKM q + ucast (ui32WriteOffset q) + ucast sizeof_PVRSRV_COMMAND"
    "cmd_psSrcSync c = pvLinQueueKM q + ucast (ui32WriteOffset q) + ucast sizeof_PVRSRV_COMMAND + ucast (cmd_DstSyncCount c) * ucast sizeof_PVRSRV_SYNC_OBJECT"
    "cmd_pvData c = pvLinQueueKM q + ucast (ui32WriteOffset q) + ucast sizeof_PVRSRV_COMMAND + ucast (cmd_DstSyncCount c) * ucast sizeof_PVRSRV_SYNC_OBJECT
       + ucast (cmd_SrcSyncCount c) * ucast sizeof_PVRSRV_SYNC_OBJECT"
    using assms(3) by (simp_all add: cmd_ok_def)
  have "c\<lparr>cmd_psDstSync := cmd_psDstSync c\<rparr> = c" "c\<lparr>cmd_psSrcSync := cmd_psSrcSync c\<rparr> = c" "c\<lparr>cmd_pvData := cmd_pvData c\<rparr> = c"
    by simp_all
  note c = this [unfolded p]
  show ?thesis
    unfolding PVRSRVSubmitCommandKM_def using assms(1,2) by (simp add: cmd_offset_woff c q Let_def)
qed

definition new_cmd ::
  "PVRSRV_QUEUE_INFO \<Rightarrow> IMG_UINT32 \<Rightarrow> IMG_UINT32 \<Rightarrow> IMG_UINT16 \<Rightarrow> IMG_UINT32 \<Rightarrow> IMG_UINT32 \<Rightarrow> IMG_SIZE_T \<Rightarrow> PVRSRV_SYNC_OBJECT list \<Rightarrow> PVRSRV_COMMAND" where
  "new_cmd q pid dev ctype nd ns uData objs =
     (let d = (uData + 3) AND NOT 3;
          a = pvLinQueueKM q + ucast (ui32WriteOffset q) + ucast sizeof_PVRSRV_COMMAND;
          b = a + ucast nd * ucast sizeof_PVRSRV_SYNC_OBJECT
      in \<lparr>uCmdSize = cmd_size nd ns d, cmd_DevIndex = dev, CommandType = ucast ctype, cmd_DstSyncCount = nd, cmd_SrcSyncCount = ns,
          cmd_psDstSync = a, cmd_psSrcSync = b, uDataSize = d, cmd_ProcessID = pid,
          cmd_pvData = b + ucast ns * ucast sizeof_PVRSRV_SYNC_OBJECT, cmd_syncs = objs\<rparr>)"

lemma new_cmd_ok:
  assumes "56 + 16 * (unat nd + unat ns) + unat uData + 6 < 2 ^ 32" "length objs = unat nd + unat ns"
  shows "cmd_ok (pvLinQueueKM q + ucast (ui32WriteOffset q)) (new_cmd q pid dev ctype nd ns uData objs)"
  using cmd_size_bytes [OF assms(1)] assms(2)
  by (simp add: cmd_ok_def new_cmd_def Let_def cmd_bytes_def queue_consts)

lemma insert_step:
  assumes q: "queue_at p s1 = Some q" "queue_ok pend q"
    and sp: "PVRSRVGetQueueSpaceKM others turns p (cmd_size nd ns ((uData + 3) AND NOT 3)) s = Some (PVRSRV_OK, pvLinQueueKM q + ucast (ui32WriteOffset q), s1)"
    and len: "length dsts = unat nd" "length srcs = unat ns"
    and bound: "56 + 16 * (unat nd + unat ns) + unat uData + 6 < 2 ^ 32" "cmd_size nd ns ((uData + 3) AND NOT 3) \<le> PVRSRV_MAX_CMD_SIZE"
    and smp: "sample_syncs False dsts (sync_data s1) = (dst, sd1)" "sample_syncs True srcs sd1 = (src, sd2)"
  shows "PVRSRVInsertCommandKM others turns pid p dev ctype nd dsts ns srcs uData s =
    Some (PVRSRV_OK, pvLinQueueKM q + ucast (ui32WriteOffset q),
      set_queue (q\<lparr>lin := lin_write (unat (ui32WriteOffset q)) (new_cmd q pid dev ctype nd ns uData (dst @ src)) (lin q)\<rparr>) (s1\<lparr>sync_data := sd2\<rparr>))"
proof -
  let ?c = "new_cmd q pid dev ctype nd ns uData (dst @ src)"
  obtain k where k: "k < 32" "lin_size q = 2 ^ k + unat PVRSRV_MAX_CMD_SIZE"
      "unat (ui32WriteOffset q) = (unat (ui32ReadOffset q) + cmd_total pend) mod 2 ^ k"
    using q(2) by (auto simp: queue_ok_def)
  have l: "length (dst @ src) = unat nd + unat ns" using sample_syncs_length [OF smp(1)] sample_syncs_length [OF smp(2)] len by simp
  have "clen ?c = cmd_bytes ?c" using new_cmd_ok [OF bound(1) l] by (simp add: cmd_ok_def)
  moreover have "clen ?c \<le> unat PVRSRV_MAX_CMD_SIZE" using bound(2) by (simp add: new_cmd_def Let_def word_le_nat_alt)
  moreover have "unat (ui32WriteOffset q) < 2 ^ k" using k(3) by simp
  ultimately have fit: "\<not> lin_size q < unat (ui32WriteOffset q) + cmd_bytes ?c" using k(2) by simp
  show ?thesis
    unfolding PVRSRVInsertCommandKM_def using sp q(1) len smp fit
    by (simp add: Let_def cmd_offset_woff new_cmd_def)
qed

lemma get_space_cases:
  assumes "others_fifo sub p others" "fifo sub s" "queue_at p s \<noteq> None" "(n + 3) AND 0xFFFFFFFC = n"
  obtains (big) "PVRSRVGetQueueSpaceKM others turns p n s = Some (PVRSRV_ERROR_CMD_TOO_BIG, IMG_NULL, s)" "PVRSRV_MAX_CMD_SIZE < n"
  | (full) s1 where "PVRSRVGetQueueSpaceKM others turns p n s = Some (PVRSRV_ERROR_CANNOT_GET_QUEUE_SPACE, IMG_NULL, s1)"
      "n \<le> PVRSRV_MAX_CMD_SIZE" "fifo sub s1" "queue_at p s1 \<noteq> None"
  | (ok) s1 q pend where "PVRSRVGetQueueSpaceKM others turns p n s = Some (PVRSRV_OK, pvLinQueueKM q + ucast (ui32WriteOffset q), s1)"
      "n \<le> PVRSRV_MAX_CMD_SIZE" "fifo sub s1" "queue_at p s1 = Some q" "queue_ok pend q" "sub p = q_log s1 p @ pend"
      "unat n < unat (GET_SPACE_IN_CMDQ q)"
proof (cases "PVRSRV_MAX_CMD_SIZE < n")
  case True
  then show ?thesis using big assms(4) by (simp add: PVRSRVGetQueueSpaceKM_def)
next
  case False
  obtain b s1 where w: "queue_space_wait others p n turns s = Some (b, s1)" "fifo sub s1" "queue_at p s1 \<noteq> None"
    "\<not> b \<longrightarrow> (\<exists>q. queue_at p s1 = Some q \<and> n < GET_SPACE_IN_CMDQ q)"
    using queue_space_wait_ok [OF assms(1-3), of n turns] by blast
  show ?thesis
  proof (cases b)
    case True
    then show ?thesis using full [of s1] w False assms(4) by (simp add: PVRSRVGetQueueSpaceKM_def)
  next
    case nb: False
    then obtain q where q: "queue_at p s1 = Some q" "n < GET_SPACE_IN_CMDQ q" using w by auto
    obtain pend where pd: "queue_ok pend q" "sub p = q_log s1 p @ pend" by (rule fifo_queueD [OF w(2) q(1)])
    have "pvLinQueueUM q = pvLinQueueKM q" using pd(1) by (auto simp: queue_ok_def)
    then have "PVRSRVGetQueueSpaceKM others turns p n s = Some (PVRSRV_OK, pvLinQueueKM q + ucast (ui32WriteOffset q), s1)"
      using w(1) q(1) nb False assms(4) by (simp add: PVRSRVGetQueueSpaceKM_def)
    then show ?thesis using ok w(2) q pd False by (simp add: word_less_nat_alt word_le_nat_alt not_less)
  qed
qed

lemma fifo_set_queue_same:
  assumes "fifo sub s" "psQueueInfo q = p" "queue_ok pend q" "sub' p = q_log s p @ pend" "\<And>p'. p' \<noteq> p \<Longrightarrow> sub' p' = sub p'"
  shows "fifo sub' (set_queue q s)"
  using fifo_set_queue [OF assms] by simp

text \<open>Inserting and submitting a command puts it behind the pending commands of its queue.\<close>

lemma insert_submit_fifo:
  assumes "others_fifo sub p others" "fifo sub s" "queue_at p s \<noteq> None" "length dsts = unat nd" "length srcs = unat ns"
    "56 + 16 * (unat nd + unat ns) + unat uData + 6 < 2 ^ 32"
  shows "\<exists>e a s1. PVRSRVInsertCommandKM others turns pid p dev ctype nd dsts ns srcs uData s = Some (e, a, s1) \<and>
    fifo sub s1 \<and> queue_at p s1 \<noteq> None \<and>
    (if e = PVRSRV_OK
     then \<exists>c s2. PVRSRVSubmitCommandKM p a s1 = Some (PVRSRV_OK, s2) \<and> fifo (sub(p := sub p @ [c])) s2 \<and>
       cmd_ok a c \<and> cmd_at p a s1 = Some c \<and> cmd_DevIndex c = dev \<and> CommandType c = ucast ctype \<and>
       cmd_DstSyncCount c = nd \<and> cmd_SrcSyncCount c = ns \<and>
       map psKernelSyncInfoKM (cmd_syncs c) = dsts @ srcs \<and> unat uData \<le> unat (uDataSize c) \<and> cmd_ProcessID c = pid
     else e = (if 1024 < unat (cmd_size nd ns ((uData + 3) AND NOT 3)) then PVRSRV_ERROR_CMD_TOO_BIG
               else PVRSRV_ERROR_CANNOT_GET_QUEUE_SPACE))"
proof -
  let ?n = "cmd_size nd ns ((uData + 3) AND NOT 3)"
  note sz = cmd_size_bytes [OF assms(6)]
  show ?thesis
  proof (cases rule: get_space_cases [OF assms(1-3) sz(2), of turns, case_names big full ok])
    case big
    then show ?thesis using assms(2,3) by (simp add: PVRSRVInsertCommandKM_def Let_def word_less_nat_alt queue_consts)
  next
    case (full s1)
    then show ?thesis by (simp add: PVRSRVInsertCommandKM_def Let_def word_le_nat_alt queue_consts)
  next
    case (ok s1 q pend)
    obtain dst sd1 src sd2 where smp: "sample_syncs False dsts (sync_data s1) = (dst, sd1)" "sample_syncs True srcs sd1 = (src, sd2)"
      by (metis surj_pair)
    define c where "c = new_cmd q pid dev ctype nd ns uData (dst @ src)"
    define q1 where "q1 = q\<lparr>lin := lin_write (unat (ui32WriteOffset q)) c (lin q)\<rparr>"
    define s2 where "s2 = set_queue q1 (s1\<lparr>sync_data := sd2\<rparr>)"
    let ?a = "pvLinQueueKM q1 + ucast (ui32WriteOffset q1)"
    have l: "length (dst @ src) = unat nd + unat ns"
      using sample_syncs_length [OF smp(1)] sample_syncs_length [OF smp(2)] assms(4,5) by simp
    have f: "cmd_ok ?a c" unfolding c_def q1_def using new_cmd_ok [OF assms(6) l] by simp
    have b: "clen c = cmd_bytes c" "uCmdSize c = ?n" "clen c = unat ?n"
      using f by (simp_all add: cmd_ok_def c_def new_cmd_def Let_def)
    have qp: "psQueueInfo q = p" "psQueueInfo q1 = p" using queue_at_SomeD [OF ok(4)] by (simp_all add: q1_def)
    have qok: "queue_ok pend q1" unfolding q1_def using ok(7) b(1,3) by (intro queue_store ok(5)) simp
    have at: "queue_at p s2 = Some q1" unfolding s2_def using ok(4) qp by (intro queue_at_set_queue) (simp_all add: queue_at_def)
    have f1: "fifo sub s2" unfolding s2_def
      by (rule fifo_set_queue_same [OF _ qp(2) qok]) (use ok(3,6) in \<open>simp_all add: fifo_def\<close>)
    have m: "lin q1 (unat (ui32WriteOffset q1)) = Some c" by (simp add: q1_def lin_write_def)
    have qok2: "queue_ok (pend @ [c]) (UPDATE_QUEUE_WOFF q1 (uCmdSize c))"
      using ok(2,7) b by (intro queue_submit [OF qok m f]) (simp_all add: word_le_nat_alt q1_def GET_SPACE_IN_CMDQ_def)
    have f2: "fifo (sub(p := sub p @ [c])) (set_queue (UPDATE_QUEUE_WOFF q1 (uCmdSize c)) s2)"
      by (rule fifo_set_queue_same [OF f1 _ qok2]) (use ok(6) qp in \<open>simp_all add: UPDATE_QUEUE_WOFF_def s2_def set_queue_def\<close>)
    have ins: "PVRSRVInsertCommandKM others turns pid p dev ctype nd dsts ns srcs uData s = Some (PVRSRV_OK, ?a, s2)"
      using insert_step [OF ok(4,5,1) assms(4,5,6) ok(2) smp] by (simp add: s2_def q1_def c_def)
    have "cmd_at p ?a s2 = Some c" unfolding cmd_at_def at by (simp add: cmd_offset_woff m)
    moreover have "map psKernelSyncInfoKM (cmd_syncs c) = dsts @ srcs" "unat uData \<le> unat (uDataSize c)"
      using sample_syncs_infos [of False dsts "sync_data s1"] sample_syncs_infos [of True srcs sd1] smp sz(3)
      by (simp_all add: c_def new_cmd_def Let_def)
    moreover have "cmd_DevIndex c = dev" "CommandType c = ucast ctype" "cmd_DstSyncCount c = nd" "cmd_SrcSyncCount c = ns" "cmd_ProcessID c = pid"
      by (simp_all add: c_def new_cmd_def Let_def)
    ultimately show ?thesis using ins f1 at submit_ok [OF at m f] f2 f by auto
  qed
qed

section \<open>Processing\<close>

text \<open>What the drivers leave alone: the queues, the lock on them, the tables of command processors (the contents of the
  completion data apart) and the device nodes.\<close>

definition cc_shape :: "'w Q_SYS_DATA \<Rightarrow> IMG_UINTPTR_T \<Rightarrow> (nat \<times> nat) option" where
  "cc_shape s ck = map_option (\<lambda>cc. (cc_psSrcSync cc, length (cc_syncs cc))) (cc_data s ck)"

text \<open>The memory of the queues is in use: every structure and every buffer is a block of its own.\<close>

definition queue_mem :: "PVRSRV_QUEUE_INFO list \<Rightarrow> IMG_UINTPTR_T multiset" where
  "queue_mem qs = mset (map psQueueInfo qs) + mset (map pvLinQueueKM qs)"

definition queues_live :: "'w Q_SYS_DATA \<Rightarrow> bool" where
  "queues_live s \<longleftrightarrow> os_ok (q_os s) \<and> queue_mem (psQueueList s) \<subseteq># blocks (q_os s)"

lemma queues_live_cong: "psQueueList s' = psQueueList s \<Longrightarrow> q_os s' = q_os s \<Longrightarrow> queues_live s' = queues_live s"
  by (simp add: queues_live_def)

definition same_frame :: "'w Q_SYS_DATA \<Rightarrow> 'w Q_SYS_DATA \<Rightarrow> bool" where
  "same_frame s s' \<longleftrightarrow>
     sQProcessResource s' = sQProcessResource s \<and> apsDeviceCommandData s' = apsDeviceCommandData s \<and> cc_shape s' = cc_shape s \<and>
     map qn_psDeviceNode (q_psDeviceNodeList s') = map qn_psDeviceNode (q_psDeviceNodeList s) \<and>
     (queues_live s \<longrightarrow> queues_live s')"

definition same_queues :: "'w Q_SYS_DATA \<Rightarrow> 'w Q_SYS_DATA \<Rightarrow> bool" where
  "same_queues s s' \<longleftrightarrow> psQueueList s' = psQueueList s \<and> q_log s' = q_log s"

definition drivers_ok :: "'w DRIVERS \<Rightarrow> bool" where
  "drivers_ok D \<longleftrightarrow>
     (\<forall>f ck n d s. same_frame s (snd (dr_CmdProc D f ck n d s)) \<and> same_queues s (snd (dr_CmdProc D f ck n d s))) \<and>
     (\<forall>f n s. same_frame s (dr_DeviceCommandComplete D f n s) \<and> same_queues s (dr_DeviceCommandComplete D f n s)) \<and>
     (\<forall>f h x s. same_frame s (dr_SetDCState D f h x s) \<and> same_queues s (dr_SetDCState D f h x s))"

text \<open>A command whose device has registered a processor of its type, with room for the objects of the command.\<close>

definition cmd_fits :: "'w Q_SYS_DATA \<Rightarrow> PVRSRV_COMMAND \<Rightarrow> bool" where
  "cmd_fits s c \<longleftrightarrow> (cmd_DevIndex c < SYS_DEVICE_COUNT \<longrightarrow>
     (\<exists>a es d ck i n. dev_entry c s = Some (a, es, d) \<and> apsCmdCompleteData d = [ck] \<and> ui32CCBOffset d = 0 \<and>
        cc_shape s ck = Some (i, n) \<and> unat (cmd_DstSyncCount c) \<le> n \<and> i + unat (cmd_SrcSyncCount c) \<le> n))"

lemma same_frame_refl [simp]: "same_frame s s" by (simp add: same_frame_def)
lemma same_queues_refl [simp]: "same_queues s s" by (simp add: same_queues_def)

lemma same_frame_trans: "same_frame s s1 \<Longrightarrow> same_frame s1 s2 \<Longrightarrow> same_frame s s2" by (simp add: same_frame_def)

lemma same_queues_trans: "same_queues s s1 \<Longrightarrow> same_queues s1 s2 \<Longrightarrow> same_queues s s2" by (simp add: same_queues_def)

lemma same_frame_fits: "same_frame s s' \<Longrightarrow> cmd_fits s' c = cmd_fits s c"
  by (simp add: same_frame_def cmd_fits_def dev_entry_def)

lemma copy_objs_ok: "i + length xs \<le> length a \<Longrightarrow> \<exists>a'. copy_objs i xs a = Some a' \<and> length a' = length a"
  by (induction i xs a rule: copy_objs.induct) auto

lemma copy_objs_append: "copy_objs (length p) xs (p @ ys) = (if length xs \<le> length ys then Some (p @ xs @ drop (length xs) ys) else None)"
proof (induction xs arbitrary: p ys)
  case (Cons x xs)
  show ?case
  proof (cases ys)
    case (Cons y zs)
    then show ?thesis using Cons.IH [of "p @ [x]" zs] by (simp add: list_update_append)
  qed simp
qed simp

lemma walk_objs_iff: "walk_objs b sd xs = PVRSRV_OK \<longleftrightarrow> (\<forall>x \<in> set xs. obj_ready b sd x)"
  by (induction xs) auto

lemma cmd_objs:
  assumes "cmd_ok a c"
  shows "dst_objs a c = Some (take (unat (cmd_DstSyncCount c)) (cmd_syncs c))"
    "src_objs a c = Some (drop (unat (cmd_DstSyncCount c)) (cmd_syncs c))"
  using assms by (auto simp: dst_objs_def src_objs_def cmd_ok_def unat_eq_0)

text \<open>Every branch of processing a command.\<close>

definition deps_met :: "bool \<Rightarrow> (IMG_UINTPTR_T \<Rightarrow> PVRSRV_SYNC_DATA) \<Rightarrow> PVRSRV_COMMAND \<Rightarrow> bool" where
  "deps_met bFlush sd c \<longleftrightarrow> (\<forall>x \<in> set (cmd_syncs c). obj_ready bFlush sd x)"

definition cookie_of :: "PVRSRV_COMMAND \<Rightarrow> 'w Q_SYS_DATA \<Rightarrow> IMG_UINTPTR_T option" where
  "cookie_of c s = do { (a, es, d) \<leftarrow> dev_entry c s; next_cookie d }"

definition cookie_busy :: "PVRSRV_COMMAND \<Rightarrow> 'w Q_SYS_DATA \<Rightarrow> bool" where
  "cookie_busy c s = (case do { ck \<leftarrow> cookie_of c s; cc_data s ck } of None \<Rightarrow> False | Some cc \<Rightarrow> bInUse cc)"

lemma process_refused:
  assumes "cmd_at p a s = Some c" "cmd_ok a c"
  shows "\<not> deps_met bFlush (sync_data s) c \<Longrightarrow> PVRSRVProcessCommand D p a bFlush s = Some (PVRSRV_ERROR_FAILED_DEPENDENCIES, s)"
    and "deps_met bFlush (sync_data s) c \<Longrightarrow> \<not> cmd_DevIndex c < SYS_DEVICE_COUNT \<Longrightarrow>
      PVRSRVProcessCommand D p a bFlush s = Some (PVRSRV_ERROR_INVALID_PARAMS, s)"
    and "deps_met bFlush (sync_data s) c \<Longrightarrow> cmd_DevIndex c < SYS_DEVICE_COUNT \<Longrightarrow> cookie_busy c s \<Longrightarrow>
      PVRSRVProcessCommand D p a bFlush s = Some (PVRSRV_ERROR_FAILED_DEPENDENCIES, s)"
proof -
  let ?n = "unat (cmd_DstSyncCount c)"
  note objs = cmd_objs [OF assms(2)]
  have split: "set (cmd_syncs c) = set (take ?n (cmd_syncs c)) \<union> set (drop ?n (cmd_syncs c))"
    by (metis append_take_drop_id set_append)
  show "PVRSRVProcessCommand D p a bFlush s = Some (PVRSRV_ERROR_FAILED_DEPENDENCIES, s)" if "\<not> deps_met bFlush (sync_data s) c"
    using that split objs assms(1) by (auto simp: PVRSRVProcessCommand_def deps_met_def walk_objs_iff)
  show "PVRSRVProcessCommand D p a bFlush s = Some (PVRSRV_ERROR_INVALID_PARAMS, s)"
    if "deps_met bFlush (sync_data s) c" "\<not> cmd_DevIndex c < SYS_DEVICE_COUNT"
    using that split objs assms(1) by (simp add: PVRSRVProcessCommand_def deps_met_def walk_objs_iff not_less)
  show "PVRSRVProcessCommand D p a bFlush s = Some (PVRSRV_ERROR_FAILED_DEPENDENCIES, s)"
    if "deps_met bFlush (sync_data s) c" "cmd_DevIndex c < SYS_DEVICE_COUNT" "cookie_busy c s"
    using that split objs assms(1)
    by (auto simp: PVRSRVProcessCommand_def deps_met_def walk_objs_iff cookie_busy_def cookie_of_def split: option.splits bind_splits)
qed

text \<open>The completion data a command is dispatched with.\<close>

definition filled :: "PVRSRV_COMMAND \<Rightarrow> COMMAND_COMPLETE_DATA \<Rightarrow> PVRSRV_SYNC_OBJECT list \<Rightarrow> COMMAND_COMPLETE_DATA" where
  "filled c cc objs = cc\<lparr>bInUse := True, cc_DstSyncCount := cmd_DstSyncCount c, cc_SrcSyncCount := cmd_SrcSyncCount c, cc_syncs := objs\<rparr>"

definition after_dispatch :: "IMG_UINTPTR_T \<Rightarrow> IMG_UINTPTR_T \<Rightarrow> PVRSRV_COMMAND \<Rightarrow> bool \<times> 'w Q_SYS_DATA \<Rightarrow> PVRSRV_ERROR \<times> 'w Q_SYS_DATA" where
  "after_dispatch p ck c r =
     (if fst r then (PVRSRV_OK, (snd r)\<lparr>q_log := (q_log (snd r))(p := q_log (snd r) p @ [c])\<rparr>)
      else (PVRSRV_ERROR_CMD_NOT_PROCESSED, set_cc ck ((the (cc_data (snd r) ck))\<lparr>bInUse := False\<rparr>) (snd r)))"

lemma drivers_CmdProc:
  assumes "drivers_ok D" "dr_CmdProc D f ck n d s = (ok, s')"
  shows "same_frame s s'" "same_queues s s'"
  using assms by (metis drivers_ok_def snd_conv)+

lemma cc_shape_set_cc:
  "cc_shape s ck = Some (cc_psSrcSync cc, length (cc_syncs cc)) \<Longrightarrow> cc_shape (set_cc ck cc s) = cc_shape s"
  by (auto simp: cc_shape_def set_cc_def)

lemma set_cc_frame:
  "cc_shape s ck = Some (cc_psSrcSync cc, length (cc_syncs cc)) \<Longrightarrow> same_frame s (set_cc ck cc s) \<and> same_queues s (set_cc ck cc s)"
  using cc_shape_set_cc [of s ck cc] by (simp add: same_frame_def same_queues_def) (simp add: set_cc_def queues_live_def)

lemma entry_unchanged:
  assumes "dev_entry c s = Some (a, es, d)" "ui32CCBOffset d = 0"
  shows "(apsDeviceCommandData s)(cmd_DevIndex c \<mapsto> (a, es[unat (CommandType c) := (es ! unat (CommandType c))
      \<lparr>ui32CCBOffset := (ui32CCBOffset d + 1) mod of_nat DC_NUM_COMMANDS_PER_TYPE\<rparr>])) = apsDeviceCommandData s"
proof -
  have e: "apsDeviceCommandData s (cmd_DevIndex c) = Some (a, es)" "d = es ! unat (CommandType c)"
    using assms(1) by (auto simp: dev_entry_def split: bind_splits if_splits)
  have "d\<lparr>ui32CCBOffset := 0\<rparr> = d" using assms(2) by simp
  then have "es[unat (CommandType c) := d\<lparr>ui32CCBOffset := 0\<rparr>] = es" using e(2) by (metis list_update_id)
  then show ?thesis using e assms(2) by (auto simp: DC_NUM_COMMANDS_PER_TYPE_def)
qed

lemma process_dispatch:
  assumes "drivers_ok D" "cmd_at p a s = Some c" "cmd_ok a c" "deps_met bFlush (sync_data s) c" "cmd_DevIndex c < SYS_DEVICE_COUNT"
    and entry: "dev_entry c s = Some (b, es, d)" "apsCmdCompleteData d = [ck]" "ui32CCBOffset d = 0"
    and cc: "cc_data s ck = Some cc" "\<not> bInUse cc"
    and copy: "copy_objs 0 (take (unat (cmd_DstSyncCount c)) (cmd_syncs c)) (cc_syncs cc) = Some a1"
      "copy_objs (cc_psSrcSync cc) (drop (unat (cmd_DstSyncCount c)) (cmd_syncs c)) a1 = Some a2" "length a2 = length (cc_syncs cc)"
  shows "PVRSRVProcessCommand D p a bFlush s =
    Some (after_dispatch p ck c (dr_CmdProc D (pfnCmdProc d) ck (uDataSize c) (cmd_pvData c) (set_cc ck (filled c cc a2) s)))"
proof -
  let ?s1 = "set_cc ck (filled c cc a2) s"
  obtain ok s2 where call: "dr_CmdProc D (pfnCmdProc d) ck (uDataSize c) (cmd_pvData c) ?s1 = (ok, s2)" by force
  have fr: "same_frame s ?s1 \<and> same_queues s ?s1" using cc(1) copy(3) by (intro set_cc_frame) (simp add: cc_shape_def filled_def)
  then have fr2: "same_frame s s2" "same_queues s s2"
    using drivers_CmdProc [OF assms(1) call] same_frame_trans same_queues_trans by blast+
  define s3 where "s3 = snd (after_dispatch p ck c (ok, s2))"
  have "cc_shape s2 ck \<noteq> None" using fr2(1) cc(1) by (simp add: same_frame_def cc_shape_def)
  then obtain cc2 where cc2: "cc_data s2 ck = Some cc2" by (auto simp: cc_shape_def)
  have at3: "cmd_at p a s3 = Some c" "apsDeviceCommandData s3 = apsDeviceCommandData s"
    using fr2 assms(2) by (auto simp: s3_def after_dispatch_def cmd_at_def queue_at_def set_cc_def same_queues_def same_frame_def)
  have dev: "apsDeviceCommandData s (cmd_DevIndex c) = Some (b, es)" "unat (CommandType c) < length es"
    using entry(1) by (auto simp: dev_entry_def split: bind_splits if_splits)
  have same: "s3\<lparr>apsDeviceCommandData := (apsDeviceCommandData s3)(cmd_DevIndex c \<mapsto> (b, es[unat (CommandType c) := (es ! unat (CommandType c))
      \<lparr>ui32CCBOffset := (ui32CCBOffset d + 1) mod of_nat DC_NUM_COMMANDS_PER_TYPE\<rparr>]))\<rparr> = s3"
    unfolding at3(2) entry_unchanged [OF entry(1,3)] by (simp flip: at3(2))
  have step: "(if ok then Some (s2\<lparr>q_log := (q_log s2)(p := q_log s2 p @ [c])\<rparr>)
      else cc_data s2 ck \<bind> (\<lambda>cc2. Some (set_cc ck (cc2\<lparr>bInUse := False\<rparr>) s2))) = Some s3"
    using cc2 by (simp add: s3_def after_dispatch_def)
  have split: "set (cmd_syncs c) = set (take (unat (cmd_DstSyncCount c)) (cmd_syncs c)) \<union> set (drop (unat (cmd_DstSyncCount c)) (cmd_syncs c))"
    by (metis append_take_drop_id set_append)
  have walks: "walk_objs bFlush (sync_data s) (take (unat (cmd_DstSyncCount c)) (cmd_syncs c)) = PVRSRV_OK"
    "walk_objs bFlush (sync_data s) (drop (unat (cmd_DstSyncCount c)) (cmd_syncs c)) = PVRSRV_OK"
    using assms(4) split by (auto simp: deps_met_def walk_objs_iff)
  have "PVRSRVProcessCommand D p a bFlush s = Some (if ok then PVRSRV_OK else PVRSRV_ERROR_CMD_NOT_PROCESSED, s3)"
    unfolding PVRSRVProcessCommand_def
    using assms(2,5) cmd_objs [OF assms(3)] walks entry cc copy(1,2) call step at3(1) dev same
    by (simp add: Let_def next_cookie_def not_le at3(2) flip: filled_def)
  then show ?thesis unfolding call by (simp add: s3_def after_dispatch_def)
qed

lemma after_dispatch_frame:
  assumes "drivers_ok D" "dr_CmdProc D f ck n d s = (ok, s')" "cc_data s ck \<noteq> None" "after_dispatch p ck c (ok, s') = (e, s3)"
  shows "same_frame s s3 \<and> psQueueList s3 = psQueueList s \<and>
    q_log s3 = (if e = PVRSRV_OK then (q_log s)(p := q_log s p @ [c]) else q_log s)"
proof (cases ok)
  case True
  then show ?thesis using drivers_CmdProc [OF assms(1,2)] assms(4)
    by (auto simp: after_dispatch_def same_frame_def same_queues_def cc_shape_def fun_eq_iff queues_live_def)
next
  case False
  have "cc_shape s' ck \<noteq> None" using drivers_CmdProc(1) [OF assms(1,2)] assms(3) by (simp add: same_frame_def cc_shape_def)
  then obtain cc where cc: "cc_data s' ck = Some cc" by (auto simp: cc_shape_def)
  then have "same_frame s' (set_cc ck (cc\<lparr>bInUse := False\<rparr>) s')" "same_queues s' (set_cc ck (cc\<lparr>bInUse := False\<rparr>) s')"
    using set_cc_frame [of s' ck "cc\<lparr>bInUse := False\<rparr>"] by (simp_all add: cc_shape_def)
  then have "same_frame s (set_cc ck (cc\<lparr>bInUse := False\<rparr>) s')" "same_queues s (set_cc ck (cc\<lparr>bInUse := False\<rparr>) s')"
    using drivers_CmdProc [OF assms(1,2)] same_frame_trans same_queues_trans by blast+
  then show ?thesis using False assms(4) cc by (auto simp: after_dispatch_def same_queues_def)
qed

lemma cmd_fitsE:
  assumes "cmd_fits s c" "cmd_DevIndex c < SYS_DEVICE_COUNT" "cmd_ok a c"
  obtains b es d ck cc a1 a2 where "dev_entry c s = Some (b, es, d)" "apsCmdCompleteData d = [ck]" "ui32CCBOffset d = 0"
    "cc_data s ck = Some cc" "copy_objs 0 (take (unat (cmd_DstSyncCount c)) (cmd_syncs c)) (cc_syncs cc) = Some a1"
    "copy_objs (cc_psSrcSync cc) (drop (unat (cmd_DstSyncCount c)) (cmd_syncs c)) a1 = Some a2" "length a2 = length (cc_syncs cc)"
    "cookie_busy c s = bInUse cc" "cookie_of c s = Some ck"
proof -
  obtain b es d ck i n where e: "dev_entry c s = Some (b, es, d)" "apsCmdCompleteData d = [ck]" "ui32CCBOffset d = 0"
      "cc_shape s ck = Some (i, n)" "unat (cmd_DstSyncCount c) \<le> n" "i + unat (cmd_SrcSyncCount c) \<le> n"
    using assms(1,2) unfolding cmd_fits_def by blast
  obtain cc where cc: "cc_data s ck = Some cc" "i = cc_psSrcSync cc" "n = length (cc_syncs cc)"
    using e(4) by (auto simp: cc_shape_def)
  have l: "length (cmd_syncs c) = unat (cmd_DstSyncCount c) + unat (cmd_SrcSyncCount c)" using assms(3) by (simp add: cmd_ok_def)
  obtain a1 where a1: "copy_objs 0 (take (unat (cmd_DstSyncCount c)) (cmd_syncs c)) (cc_syncs cc) = Some a1" "length a1 = length (cc_syncs cc)"
    using copy_objs_ok [of 0 "take (unat (cmd_DstSyncCount c)) (cmd_syncs c)" "cc_syncs cc"] l e(5) cc(3) by auto
  obtain a2 where a2: "copy_objs (cc_psSrcSync cc) (drop (unat (cmd_DstSyncCount c)) (cmd_syncs c)) a1 = Some a2" "length a2 = length a1"
    using copy_objs_ok [of "cc_psSrcSync cc" "drop (unat (cmd_DstSyncCount c)) (cmd_syncs c)" a1] l e(6) cc a1(2) by auto
  have "cookie_of c s = Some ck" "cookie_busy c s = bInUse cc"
    using e cc by (simp_all add: cookie_busy_def cookie_of_def next_cookie_def)
  with e cc a1 a2 show ?thesis by (intro that [of b es d ck cc a1 a2]) simp_all
qed

lemma process_command_frame:
  assumes "drivers_ok D" "cmd_at p a s = Some c" "cmd_ok a c" "cmd_fits s c"
  shows "\<exists>e s'. PVRSRVProcessCommand D p a bFlush s = Some (e, s') \<and> same_frame s s' \<and> psQueueList s' = psQueueList s \<and>
    q_log s' = (if e = PVRSRV_OK then (q_log s)(p := q_log s p @ [c]) else q_log s)"
proof -
  consider (deps) "\<not> deps_met bFlush (sync_data s) c"
    | (dev) "deps_met bFlush (sync_data s) c" "\<not> cmd_DevIndex c < SYS_DEVICE_COUNT"
    | (busy) "deps_met bFlush (sync_data s) c" "cmd_DevIndex c < SYS_DEVICE_COUNT" "cookie_busy c s"
    | (go) "deps_met bFlush (sync_data s) c" "cmd_DevIndex c < SYS_DEVICE_COUNT" "\<not> cookie_busy c s"
    by blast
  then show ?thesis
  proof cases
    case go
    obtain b es d ck cc a1 a2 where x: "dev_entry c s = Some (b, es, d)" "apsCmdCompleteData d = [ck]" "ui32CCBOffset d = 0"
      "cc_data s ck = Some cc" "copy_objs 0 (take (unat (cmd_DstSyncCount c)) (cmd_syncs c)) (cc_syncs cc) = Some a1"
      "copy_objs (cc_psSrcSync cc) (drop (unat (cmd_DstSyncCount c)) (cmd_syncs c)) a1 = Some a2" "length a2 = length (cc_syncs cc)"
      "cookie_busy c s = bInUse cc"
      by (rule cmd_fitsE [OF assms(4) go(2) assms(3)])
    let ?s1 = "set_cc ck (filled c cc a2) s"
    obtain ok s2 where call: "dr_CmdProc D (pfnCmdProc d) ck (uDataSize c) (cmd_pvData c) ?s1 = (ok, s2)" by force
    obtain e s3 where ad: "after_dispatch p ck c (ok, s2) = (e, s3)" by force
    have pr: "PVRSRVProcessCommand D p a bFlush s = Some (e, s3)"
      using process_dispatch [OF assms(1-3) go(1,2) x(1-4) _ x(5-7)] x(8) go(3) call ad by simp
    have "same_frame s ?s1 \<and> same_queues s ?s1" using x(4,7) by (intro set_cc_frame) (simp add: cc_shape_def filled_def)
    moreover have "cc_data ?s1 ck \<noteq> None" by (simp add: set_cc_def)
    note after_dispatch_frame [OF assms(1) call this ad]
    ultimately show ?thesis using pr same_frame_trans by (auto simp: same_queues_def)
  qed (use process_refused [OF assms(2,3)] in auto)
qed

text \<open>The loop over one queue hands over a prefix of the pending commands.\<close>

lemma set_queue_mem:
  assumes "distinct (map psQueueInfo (psQueueList s))" "queue_at p s = Some r" "psQueueInfo q = p" "pvLinQueueKM q = pvLinQueueKM r"
  shows "queue_mem (psQueueList (set_queue q s)) = queue_mem (psQueueList s)"
proof -
  have r: "psQueueInfo r = p" "r \<in> set (psQueueList s)" using queue_at_SomeD [OF assms(2)] by auto
  have "pvLinQueueKM (if psQueueInfo x = psQueueInfo q then q else x) = pvLinQueueKM x" if "x \<in> set (psQueueList s)" for x
    using that r assms(1,3,4) by (auto simp: distinct_map dest: inj_onD)
  then have "map pvLinQueueKM (psQueueList (set_queue q s)) = map pvLinQueueKM (psQueueList s)"
    by (simp add: set_queue_def)
  then show ?thesis unfolding queue_mem_def by (simp only: map_set_queue)
qed

lemma set_queue_same_frame:
  assumes "distinct (map psQueueInfo (psQueueList s))" "queue_at p s = Some r" "psQueueInfo q = p" "pvLinQueueKM q = pvLinQueueKM r"
  shows "same_frame s (set_queue q s)"
  using set_queue_mem [OF assms]
  by (simp add: same_frame_def cc_shape_def fun_eq_iff queues_live_def) (simp add: set_queue_def)

lemma set_queue_set_queue: "psQueueInfo q = psQueueInfo r \<Longrightarrow> set_queue q (set_queue r s) = set_queue q s"
  by (simp add: set_queue_def)

lemma psQueueList_set_queue_cong: "psQueueList s = psQueueList s' \<Longrightarrow> psQueueList (set_queue q s) = psQueueList (set_queue q s')"
  by (simp add: set_queue_def)

lemma queue_at_cong: "psQueueList s' = psQueueList s \<Longrightarrow> queue_at p s' = queue_at p s"
  by (simp add: queue_at_def)

lemma set_queue_self:
  assumes "distinct (map psQueueInfo (psQueueList s))" "queue_at p s = Some q"
  shows "set_queue q s = s"
proof -
  have q: "q \<in> set (psQueueList s)" using queue_at_SomeD [OF assms(2)] by simp
  have "map (\<lambda>r. if psQueueInfo r = psQueueInfo q then q else r) (psQueueList s) = psQueueList s"
    using assms(1) q by (intro map_idI) (auto simp: distinct_map dest: inj_onD)
  then show ?thesis by (simp add: set_queue_def)
qed

text \<open>Handing over the pending commands \<open>cs\<close> of the queue at \<open>p\<close>: the commands are offered to their drivers one after the other,
  from the first on, each in the state the one before it left; a command that is taken leaves the queue; the first that is refused ends it, and
  stays. The relation runs from the state before over the commands handed over to the state after.\<close>

inductive hands_over ::
  "'w DRIVERS \<Rightarrow> bool \<Rightarrow> IMG_UINTPTR_T \<Rightarrow> PVRSRV_COMMAND list \<Rightarrow> 'w Q_SYS_DATA \<Rightarrow> PVRSRV_COMMAND list \<Rightarrow> 'w Q_SYS_DATA \<Rightarrow> bool"
  for D bFlush p where
  all: "hands_over D bFlush p [] s [] s"
| refused: "\<lbrakk>queue_at p s = Some q; cmd_at p (pvLinQueueKM q + ucast (ui32ReadOffset q)) s = Some c;
     PVRSRVProcessCommand D p (pvLinQueueKM q + ucast (ui32ReadOffset q)) bFlush s = Some (e, s1); e \<noteq> PVRSRV_OK\<rbrakk>
   \<Longrightarrow> hands_over D bFlush p (c # cs) s [] s1"
| taken: "\<lbrakk>queue_at p s = Some q; cmd_at p (pvLinQueueKM q + ucast (ui32ReadOffset q)) s = Some c;
     PVRSRVProcessCommand D p (pvLinQueueKM q + ucast (ui32ReadOffset q)) bFlush s = Some (PVRSRV_OK, s1);
     hands_over D bFlush p cs (set_queue (UPDATE_QUEUE_ROFF q (uCmdSize c)) s1) hs s'\<rbrakk>
   \<Longrightarrow> hands_over D bFlush p (c # cs) s (c # hs) s'"

inductive_cases hands_over_ConsE: "hands_over D bFlush p (c # cs) s hs s'"

text \<open>The queues of a list in turn; \<open>sub\<close> are the commands ever submitted to each, so the pending ones are those not in its log.\<close>

inductive hands_over_list ::
  "(IMG_UINTPTR_T \<Rightarrow> PVRSRV_COMMAND list) \<Rightarrow> 'w DRIVERS \<Rightarrow> bool \<Rightarrow> IMG_UINTPTR_T list \<Rightarrow> 'w Q_SYS_DATA \<Rightarrow> 'w Q_SYS_DATA \<Rightarrow> bool"
  for sub D bFlush where
  none: "hands_over_list sub D bFlush [] s s"
| queue: "\<lbrakk>hands_over D bFlush p (drop (length (q_log s p)) (sub p)) s hs s1; q_log s1 = (q_log s)(p := q_log s p @ hs);
     hands_over_list sub D bFlush ps s1 s'\<rbrakk>
   \<Longrightarrow> hands_over_list sub D bFlush (p # ps) s s'"

definition drained ::
  "'w DRIVERS \<Rightarrow> bool \<Rightarrow> IMG_UINTPTR_T \<Rightarrow> PVRSRV_COMMAND list \<Rightarrow> 'w Q_SYS_DATA \<Rightarrow> nat \<Rightarrow> PVRSRV_QUEUE_INFO \<Rightarrow> 'w Q_SYS_DATA \<Rightarrow> bool" where
  "drained D bFlush p cs s k q' s' \<longleftrightarrow>
     k \<le> length cs \<and> psQueueInfo q' = p \<and> queue_ok (drop k cs) q' \<and> psQueueList s' = psQueueList (set_queue q' s) \<and>
     q_log s' = (q_log s)(p := q_log s p @ take k cs) \<and> same_frame s s' \<and>
     hands_over D bFlush p cs s (take k cs) s'"

lemma process_queue_ok:
  assumes "drivers_ok D" "distinct (map psQueueInfo (psQueueList s))" "queue_at p s = Some q" "queue_ok cs q" "\<forall>c \<in> set cs. cmd_fits s c"
  shows "\<exists>s' k q'. process_queue D bFlush p s = Some s' \<and> drained D bFlush p cs s k q' s'"
  using assms(2-)
proof (induction cs arbitrary: s q)
  case Nil
  note q = queue_at_SomeD [OF Nil(2)] set_queue_self [OF Nil(1,2)]
  have "process_queue D bFlush p s = Some s"
    using Nil(2) queue_empty_iff [OF Nil(3)] by (subst process_queue.simps) simp
  then show ?case using q Nil(3) by (intro exI [of _ s] exI [of _ 0] exI [of _ q]) (simp add: drained_def hands_over.all)
next
  case (Cons c cs)
  let ?a = "pvLinQueueKM q + ucast (ui32ReadOffset q)"
  let ?q1 = "UPDATE_QUEUE_ROFF q (uCmdSize c)"
  have ne: "ui32ReadOffset q \<noteq> ui32WriteOffset q" using queue_empty_iff [OF Cons.prems(3)] by simp
  have qp: "psQueueInfo q = p" "psQueueInfo ?q1 = p" using queue_at_SomeD [OF Cons.prems(2)] by (simp_all add: UPDATE_QUEUE_ROFF_def)
  note tk = queue_take [OF Cons.prems(3)]
  have at: "cmd_at p ?a s = Some c" using Cons.prems(2) tk(2) by (simp add: cmd_at_def cmd_offset_woff)
  have fits: "cmd_fits s c" using Cons.prems(4) by simp
  obtain e s1 where pc: "PVRSRVProcessCommand D p ?a bFlush s = Some (e, s1)" "same_frame s s1" "psQueueList s1 = psQueueList s"
      "q_log s1 = (if e = PVRSRV_OK then (q_log s)(p := q_log s p @ [c]) else q_log s)"
    using process_command_frame [OF assms(1) at tk(3) fits, of bFlush] by blast
  show ?case
  proof (cases "e = PVRSRV_OK")
    case False
    then have "process_queue D bFlush p s = Some s1" using Cons.prems(2) ne pc(1) by (subst process_queue.simps) simp
    then show ?thesis using pc False qp Cons.prems(3) set_queue_self [OF Cons.prems(1,2)] hands_over.refused [OF Cons.prems(2) at pc(1) False, of cs]
      by (intro exI [of _ s1] exI [of _ 0] exI [of _ q]) (auto simp: drained_def)
  next
    case True
    let ?s2 = "set_queue ?q1 s1"
    have at1: "queue_at p s1 = Some q" "cmd_at p ?a s1 = Some c"
      using Cons.prems(2) at by (simp_all add: queue_at_def cmd_at_def pc(3))
    have at2: "queue_at p ?s2 = Some ?q1" using at1(1) qp by (intro queue_at_set_queue) simp_all
    have "same_frame s1 ?s2" using Cons.prems(1) at1(1) qp pc(3)
      by (intro set_queue_same_frame) (simp_all add: UPDATE_QUEUE_ROFF_def)
    then have fr2: "same_frame s ?s2" using pc(2) same_frame_trans by blast
    have d2: "distinct (map psQueueInfo (psQueueList ?s2))" using Cons.prems(1) pc(3) by (simp add: map_set_queue)
    have "\<forall>c \<in> set cs. cmd_fits ?s2 c" using Cons.prems(4) same_frame_fits [OF fr2] by simp
    from Cons.IH [OF d2 at2 tk(1) this] obtain s' k q' where
      r: "process_queue D bFlush p ?s2 = Some s'" "drained D bFlush p cs ?s2 k q' s'" by blast
    have "psQueueList (set_queue q' ?s2) = psQueueList (set_queue q' s)"
      using r(2) qp pc(3) by (simp add: set_queue_set_queue drained_def) (simp add: set_queue_def)
    moreover have "q_log ?s2 = (q_log s)(p := q_log s p @ [c])" using pc(4) True by (simp add: set_queue_def)
    moreover have "process_queue D bFlush p s = Some s'" using Cons.prems(2) ne pc(1) True at1 r(1)
      by (subst process_queue.simps) simp
    moreover have "hands_over D bFlush p (c # cs) s (c # take k cs) s'"
      using hands_over.taken [OF Cons.prems(2) at _ _, of D bFlush s1 cs "take k cs" s'] pc(1) True r(2) by (simp add: drained_def)
    ultimately show ?thesis using r(2) same_frame_trans [OF fr2]
      by (intro exI [of _ s'] exI [of _ "Suc k"] exI [of _ q']) (auto simp: drained_def)
  qed
qed

text \<open>The loop over the list of queues.\<close>

definition pend_fits :: "(IMG_UINTPTR_T \<Rightarrow> PVRSRV_COMMAND list) \<Rightarrow> 'w Q_SYS_DATA \<Rightarrow> bool" where
  "pend_fits sub s \<longleftrightarrow> (\<forall>q \<in> set (psQueueList s). \<forall>c \<in> set (drop (length (q_log s (psQueueInfo q))) (sub (psQueueInfo q))). cmd_fits s c)"

lemma from_queue_addrs:
  assumes "map psQueueInfo (psQueueList s) = ps @ a # rs" "a \<notin> set ps"
  shows "head_queue (tl (from_queue a s)) = (case rs of [] \<Rightarrow> IMG_NULL | b # _ \<Rightarrow> b)"
proof -
  obtain us q vs where l: "psQueueList s = us @ q # vs" "ps = map psQueueInfo us" "a = psQueueInfo q" "rs = map psQueueInfo vs"
    using assms(1) by (auto simp: map_eq_append_conv)
  have "dropWhile (\<lambda>q. psQueueInfo q \<noteq> a) us = []" using assms(2) l(2) by auto
  then have "from_queue a s = q # vs" using l assms(2) by (simp add: from_queue_def dropWhile_append)
  then show ?thesis using l(4) by (simp add: head_queue_def split: list.splits)
qed

lemma queue_at_addr:
  assumes "distinct (map psQueueInfo (psQueueList s))" "a \<in> set (map psQueueInfo (psQueueList s))"
  obtains q where "queue_at a s = Some q" "psQueueInfo q = a"
  using assms queue_at_eqI by (metis (no_types, lifting) image_iff list.set_map)

lemma queue_at_set_queue_other:
  assumes "psQueueInfo q \<noteq> p"
  shows "queue_at p (set_queue q s) = queue_at p s"
proof -
  have "List.find (\<lambda>q. psQueueInfo q = p) (map (\<lambda>r. if psQueueInfo r = psQueueInfo q then q else r) qs) =
    List.find (\<lambda>q. psQueueInfo q = p) qs" for qs using assms by (induction qs) auto
  then show ?thesis by (simp add: queue_at_def set_queue_def)
qed

lemma drained_step:
  assumes "fifo sub s" "queue_at p s = Some q" "queue_ok cs q" "sub p = q_log s p @ cs" "drained D bFlush p cs s k q' s'" "pend_fits sub s"
  shows "fifo sub s'" "map psQueueInfo (psQueueList s') = map psQueueInfo (psQueueList s)" "pend_fits sub s'"
    "\<And>r. prefix (q_log s r) (q_log s' r)" "\<And>r. r \<noteq> p \<Longrightarrow> queue_at r s' = queue_at r s"
proof -
  note d = assms(5) [unfolded drained_def]
  have "fifo sub (set_queue q' (s\<lparr>q_log := (q_log s)(p := q_log s p @ take k cs)\<rparr>))"
    by (rule fifo_set_queue [OF assms(1), where pend = "drop k cs"]) (use d assms(4) in auto)
  then show "fifo sub s'" using d by (subst fifo_cong) (auto simp: set_queue_def)
  show "map psQueueInfo (psQueueList s') = map psQueueInfo (psQueueList s)" using d by (simp add: map_set_queue)
  show "prefix (q_log s r) (q_log s' r)" for r using d by simp
  show "queue_at r s' = queue_at r s" if "r \<noteq> p" for r
    using d that queue_at_cong [of s' "set_queue q' s"] by (simp add: queue_at_set_queue_other)
  have sub: "set (drop (length (q_log s' x)) (sub x)) \<subseteq> set (drop (length (q_log s x)) (sub x))" for x
    using d by (intro set_drop_subset_set_drop) simp
  have im: "psQueueInfo ` set (psQueueList s') = psQueueInfo ` set (psQueueList s)" using d by (metis list.set_map map_set_queue)
  have "cmd_fits s' c" if r: "r \<in> set (psQueueList s')" and c: "c \<in> set (drop (length (q_log s' (psQueueInfo r))) (sub (psQueueInfo r)))" for r c
  proof -
    have "psQueueInfo r \<in> psQueueInfo ` set (psQueueList s)" using r im by (metis imageI)
    then obtain r0 where "r0 \<in> set (psQueueList s)" "psQueueInfo r0 = psQueueInfo r" by auto
    then have "cmd_fits s c" using assms(6) c sub [of "psQueueInfo r"] by (fastforce simp: pend_fits_def)
    then show ?thesis using d same_frame_fits by blast
  qed
  then show "pend_fits sub s'" by (simp add: pend_fits_def)
qed

lemma process_list_ok:
  assumes "drivers_ok D"
  shows "map psQueueInfo (psQueueList s) = ps @ rs \<Longrightarrow> fifo sub s \<Longrightarrow> pend_fits sub s \<Longrightarrow>
    \<exists>s'. process_list D bFlush (case rs of [] \<Rightarrow> IMG_NULL | b # _ \<Rightarrow> b) s = Some s' \<and> fifo sub s' \<and> same_frame s s' \<and>
      map psQueueInfo (psQueueList s') = map psQueueInfo (psQueueList s) \<and> (\<forall>r. prefix (q_log s r) (q_log s' r)) \<and>
      hands_over_list sub D bFlush rs s s'"
proof (induction rs arbitrary: s ps)
  case Nil
  then show ?case by (subst process_list.simps) (simp add: hands_over_list.none)
next
  case (Cons a rs)
  have dist: "distinct (map psQueueInfo (psQueueList s))" and "IMG_NULL \<notin> set (map psQueueInfo (psQueueList s))"
    using Cons.prems(2) by (auto simp: fifo_def)
  then have a: "a \<noteq> IMG_NULL" "a \<notin> set ps" "a \<notin> set rs" using Cons.prems(1) by auto
  obtain q where q: "queue_at a s = Some q" "psQueueInfo q = a"
    by (rule queue_at_addr [OF dist, of a]) (use Cons.prems(1) in auto)
  obtain cs where cs: "queue_ok cs q" "sub a = q_log s a @ cs" by (rule fifo_queueD [OF Cons.prems(2) q(1)])
  have fits: "\<forall>c \<in> set cs. cmd_fits s c"
    using Cons.prems(3) cs(2) queue_at_SomeD [OF q(1)] q(2) by (force simp: pend_fits_def)
  obtain s1 k q' where r: "process_queue D bFlush a s = Some s1" "drained D bFlush a cs s k q' s1"
    using process_queue_ok [OF assms dist q(1) cs(1) fits, of bFlush] by blast
  note st = drained_step [OF Cons.prems(2) q(1) cs r(2) Cons.prems(3)]
  have "map psQueueInfo (psQueueList s1) = (ps @ [a]) @ rs" using st(2) Cons.prems(1) by simp
  from Cons.IH [OF this st(1,3)] obtain s' where
    s': "process_list D bFlush (case rs of [] \<Rightarrow> IMG_NULL | b # _ \<Rightarrow> b) s1 = Some s'" "fifo sub s'" "same_frame s1 s'"
      "map psQueueInfo (psQueueList s') = map psQueueInfo (psQueueList s1)" "\<forall>r. prefix (q_log s1 r) (q_log s' r)"
      "hands_over_list sub D bFlush rs s1 s'" by blast
  have nx: "head_queue (tl (from_queue a s1)) = (case rs of [] \<Rightarrow> IMG_NULL | b # _ \<Rightarrow> b)"
    by (rule from_queue_addrs) (use st(2) Cons.prems(1) a in auto)
  have "process_list D bFlush a s = Some s'" using a(1) r(1) nx s'(1) by (subst process_list.simps) simp
  moreover have "same_frame s s'" using r(2) s'(3) same_frame_trans by (auto simp: drained_def)
  moreover have "hands_over_list sub D bFlush (a # rs) s s'"
    by (rule hands_over_list.queue [OF _ _ s'(6)]) (use r(2) cs(2) in \<open>auto simp: drained_def\<close>)
  moreover have "prefix (q_log s r) (q_log s' r)" for r using st(4) s'(5) prefix_order.trans by blast
  ultimately show ?case using s' st(2) by auto
qed

section \<open>The whole processing\<close>

lemma nodes_ForEach_ok:
  assumes "\<And>n s. n \<in> set (map qn_psDeviceNode (q_psDeviceNodeList s)) \<Longrightarrow> \<exists>s'. f n s = Some s' \<and> same_frame s s' \<and> same_queues s s'"
    "set ns \<subseteq> set (map qn_psDeviceNode (q_psDeviceNodeList s))"
  shows "\<exists>s'. nodes_ForEach f ns s = Some s' \<and> same_frame s s' \<and> same_queues s s'"
  using assms(2)
proof (induction ns arbitrary: s)
  case (Cons n ns)
  then obtain s1 where s1: "f n s = Some s1" "same_frame s s1" "same_queues s s1" using assms(1) [of n s] by auto
  then have "map qn_psDeviceNode (q_psDeviceNodeList s1) = map qn_psDeviceNode (q_psDeviceNodeList s)" by (simp add: same_frame_def)
  then have "set ns \<subseteq> set (map qn_psDeviceNode (q_psDeviceNodeList s1))" using Cons.prems by (simp del: set_map)
  from Cons.IH [OF this] show ?case using s1 same_frame_trans same_queues_trans by fastforce
qed simp

lemma node_found:
  "n \<in> set (map qn_psDeviceNode (q_psDeviceNodeList s)) \<Longrightarrow> \<exists>x. List.find (\<lambda>x. qn_psDeviceNode x = n) (q_psDeviceNodeList s) = Some x"
  by (cases "List.find (\<lambda>x. qn_psDeviceNode x = n) (q_psDeviceNodeList s)") (auto simp: find_None_iff)

lemma SetDCState_ok:
  assumes "drivers_ok D"
  shows "\<exists>s'. PVRSRVSetDCState D x s = Some s' \<and> same_frame s s' \<and> same_queues s s'"
  unfolding PVRSRVSetDCState_def
proof (rule nodes_ForEach_ok)
  fix n and s :: "'a Q_SYS_DATA"
  assume "n \<in> set (map qn_psDeviceNode (q_psDeviceNodeList s))"
  then show "\<exists>s'. PVRSRVSetDCState_ForEachVaCb D x n s = Some s' \<and> same_frame s s' \<and> same_queues s s'"
    using node_found [of n s] assms by (auto simp: PVRSRVSetDCState_ForEachVaCb_def drivers_ok_def)
qed simp

lemma ForEachCb_ok:
  assumes "drivers_ok D" "n \<in> set (map qn_psDeviceNode (q_psDeviceNodeList s))"
  shows "\<exists>s'. PVRSRVProcessQueues_ForEachCb D n s = Some s' \<and> same_frame s s' \<and> same_queues s s'"
    "\<exists>s'. PVRSRVCommandCompleteCallbacks_ForEachCb D n s = Some s' \<and> same_frame s s' \<and> same_queues s s'"
  using node_found [OF assms(2)] assms(1)
  by (auto simp: PVRSRVProcessQueues_ForEachCb_def PVRSRVCommandCompleteCallbacks_ForEachCb_def drivers_ok_def)

lemma ScheduleDeviceCallbacks_ok:
  "drivers_ok D \<Longrightarrow> \<exists>s'. ScheduleDeviceCallbacks D s = Some s' \<and> same_frame s s' \<and> same_queues s s'"
  unfolding ScheduleDeviceCallbacks_def by (rule nodes_ForEach_ok) (use ForEachCb_ok(2) in blast, simp)

text \<open>Waiting for the lock ends when the other threads release it.\<close>

fun freed_after :: "(nat \<Rightarrow> 'w Q_SYS_DATA \<Rightarrow> 'w Q_SYS_DATA) \<Rightarrow> nat \<Rightarrow> nat \<Rightarrow> 'w Q_SYS_DATA \<Rightarrow> bool" where
  "freed_after others n 0 s \<longleftrightarrow> \<not> ui32Lock (sQProcessResource s)"
| "freed_after others n (Suc t) s \<longleftrightarrow> \<not> ui32Lock (sQProcessResource s) \<or> freed_after others (Suc n) t (others n s)"

lemma lock_busy_same: "ui32Lock r \<Longrightarrow> OSLockResource r i = (PVRSRV_ERROR_UNABLE_TO_LOCK_RESOURCE, r)"
  by (cases r) (simp add: OSLockResource_def)

lemma lock_free_same: "\<not> ui32Lock r \<Longrightarrow> OSLockResource r i = (PVRSRV_OK, r\<lparr>ui32Lock := True, ui32ID := i\<rparr>)"
  by (simp add: OSLockResource_def)

lemma process_lock_ok:
  assumes "\<And>t s. I s \<Longrightarrow> I (others t s)"
  shows "freed_after others n t s \<Longrightarrow> I s \<Longrightarrow>
    \<exists>s1. process_lock others n s = Some (s1\<lparr>sQProcessResource := (sQProcessResource s1)\<lparr>ui32Lock := True, ui32ID := ISR_ID\<rparr>\<rparr>) \<and>
      I s1 \<and> (\<not> ui32Lock (sQProcessResource s) \<longrightarrow> s1 = s)"
proof (induction t arbitrary: n s)
  case 0
  then show ?case by (subst process_lock.simps) (auto simp: lock_free_same)
next
  case (Suc t)
  show ?case
  proof (cases "ui32Lock (sQProcessResource s)")
    case False
    then show ?thesis using Suc.prems by (subst process_lock.simps) (auto simp: lock_free_same)
  next
    case True
    then have "freed_after others (Suc n) t (others n s)" using Suc.prems by simp
    from Suc.IH [OF this assms [OF Suc.prems(2)]] show ?thesis
      using True by (subst process_lock.simps) (auto simp: lock_busy_same)
  qed
qed

lemma fits_frame_cong:
  assumes "same_frame s s'" "same_queues s s'"
  shows "fifo sub s' = fifo sub s" "pend_fits sub s' = pend_fits sub s"
  using assms by (simp_all add: fifo_def pend_fits_def same_queues_def same_frame_fits)

lemma process_queues_ok:
  assumes "drivers_ok D" "fifo sub s" "pend_fits sub s" "freed_after others 0 t s"
    "\<And>t s. fifo sub s \<and> pend_fits sub s \<Longrightarrow> fifo sub (others t s) \<and> pend_fits sub (others t s)"
  shows "\<exists>s1 s2 s3 s'. process_lock others 0 s = Some s1 \<and> (\<not> ui32Lock (sQProcessResource s) \<longrightarrow> same_queues s s1) \<and>
    (if bFlush then PVRSRVSetDCState D DC_STATE_FLUSH_COMMANDS s1 else Some s1) = Some s2 \<and> same_queues s1 s2 \<and>
    hands_over_list sub D bFlush (map psQueueInfo (psQueueList s2)) s2 s3 \<and> same_queues s3 s' \<and>
    PVRSRVProcessQueues D others bFlush s = Some (PVRSRV_OK, s') \<and> fifo sub s' \<and> \<not> ui32Lock (sQProcessResource s') \<and>
    (\<not> ui32Lock (sQProcessResource s) \<longrightarrow> (\<forall>r. prefix (q_log s r) (q_log s' r)) \<and> (queues_live s \<longrightarrow> queues_live s'))"
proof -
  obtain s0 where lk: "process_lock others 0 s = Some (s0\<lparr>sQProcessResource := (sQProcessResource s0)\<lparr>ui32Lock := True, ui32ID := ISR_ID\<rparr>\<rparr>)"
      "fifo sub s0 \<and> pend_fits sub s0" "\<not> ui32Lock (sQProcessResource s) \<longrightarrow> s0 = s"
    using process_lock_ok [where I = "\<lambda>s. fifo sub s \<and> pend_fits sub s", OF assms(5) assms(4)] assms(2,3) by blast
  define s1 where "s1 = s0\<lparr>sQProcessResource := (sQProcessResource s0)\<lparr>ui32Lock := True, ui32ID := ISR_ID\<rparr>\<rparr>"
  have i1: "fifo sub s1" "pend_fits sub s1" "ui32Lock (sQProcessResource s1)" "ui32ID (sQProcessResource s1) = ISR_ID" "q_log s1 = q_log s0"
    using lk(2) by (auto simp: s1_def fifo_def pend_fits_def cmd_fits_def dev_entry_def cc_shape_def)
  obtain s2 where s2: "(if bFlush then PVRSRVSetDCState D DC_STATE_FLUSH_COMMANDS s1 else Some s1) = Some s2" "same_frame s1 s2" "same_queues s1 s2"
    using SetDCState_ok [OF assms(1), of DC_STATE_FLUSH_COMMANDS s1] by (cases bFlush) auto
  have i2: "fifo sub s2" "pend_fits sub s2" using fits_frame_cong [OF s2(2,3)] i1 by auto
  have h2: "head_queue (psQueueList s1) = (case map psQueueInfo (psQueueList s2) of [] \<Rightarrow> IMG_NULL | b # _ \<Rightarrow> b)"
    using s2(3) by (simp add: same_queues_def head_queue_def split: list.splits)
  obtain s3 where s3: "process_list D bFlush (head_queue (psQueueList s1)) s2 = Some s3" "fifo sub s3" "same_frame s2 s3"
      "map psQueueInfo (psQueueList s3) = map psQueueInfo (psQueueList s2)" "\<forall>r. prefix (q_log s2 r) (q_log s3 r)"
      "hands_over_list sub D bFlush (map psQueueInfo (psQueueList s2)) s2 s3"
    using process_list_ok [OF assms(1), of s2 "[]" "map psQueueInfo (psQueueList s2)" sub bFlush] i2 h2 by auto
  obtain s4 where s4: "(if bFlush then PVRSRVSetDCState D DC_STATE_NO_FLUSH_COMMANDS s3 else Some s3) = Some s4" "same_frame s3 s4" "same_queues s3 s4"
    using SetDCState_ok [OF assms(1), of DC_STATE_NO_FLUSH_COMMANDS s3] by (cases bFlush) auto
  obtain s5 where s5: "nodes_ForEach (PVRSRVProcessQueues_ForEachCb D) (map qn_psDeviceNode (q_psDeviceNodeList s4)) s4 = Some s5"
      "same_frame s4 s5" "same_queues s4 s5"
    using nodes_ForEach_ok [where f = "PVRSRVProcessQueues_ForEachCb D" and s = s4] ForEachCb_ok(1) [OF assms(1)] by blast
  define s6 where "s6 = s5\<lparr>sQProcessResource := snd (OSUnlockResource (sQProcessResource s5) ISR_ID)\<rparr>"
  have "PVRSRVProcessQueues D others bFlush s = Some (PVRSRV_OK, s6)"
    using lk(1) s2(1) s3(1) s4(1) s5(1) by (simp add: PVRSRVProcessQueues_def s6_def flip: s1_def)
  moreover have sq: "same_queues s3 s6" using s4(3) s5(3) by (simp add: same_queues_def s6_def)
  moreover have "fifo sub s6" using s3(2) sq by (simp add: fifo_def same_queues_def)
  moreover have "sQProcessResource s5 = sQProcessResource s1" using s2(2) s3(3) s4(2) s5(2) by (simp add: same_frame_def)
  then have "\<not> ui32Lock (sQProcessResource s6)" using i1(3,4) by (simp add: s6_def OSUnlockResource_def)
  moreover have "prefix (q_log s r) (q_log s6 r)" if "\<not> ui32Lock (sQProcessResource s)" for r
    using that lk(3) i1(5) s2(3) s3(5) sq by (simp add: same_queues_def)
  moreover have "queues_live s6" if "\<not> ui32Lock (sQProcessResource s)" "queues_live s"
  proof -
    have "queues_live s1" using that lk(3) by (simp add: s1_def queues_live_def)
    then have "queues_live s5" using s2(2) s3(3) s4(2) s5(2) by (simp add: same_frame_def)
    then show ?thesis by (simp add: s6_def queues_live_def)
  qed
  moreover have "process_lock others 0 s = Some s1" "\<not> ui32Lock (sQProcessResource s) \<longrightarrow> same_queues s s1"
    using lk(1,3) by (auto simp: s1_def same_queues_def)
  ultimately show ?thesis using s2(1,3) s3(6) by blast
qed

section \<open>Completion\<close>

definition completed :: "bool \<Rightarrow> PVRSRV_SYNC_OBJECT list \<Rightarrow> IMG_UINTPTR_T \<Rightarrow> nat" where
  "completed b xs k = length (filter (\<lambda>x. psKernelSyncInfoKM x = k) xs)"

lemma complete_objs_count:
  "complete_objs b xs sd k =
     (if b then (sd k)\<lparr>ui32ReadOpsComplete := ui32ReadOpsComplete (sd k) + of_nat (completed b xs k)\<rparr>
      else (sd k)\<lparr>ui32WriteOpsComplete := ui32WriteOpsComplete (sd k) + of_nat (completed b xs k)\<rparr>)"
  by (induction xs arbitrary: sd) (auto simp: completed_def Let_def)

lemma command_complete_ok:
  assumes "drivers_ok D" "cc_data s ck = Some cc" "cc_objs 0 (cc_DstSyncCount cc) cc = Some dst"
    "cc_objs (cc_psSrcSync cc) (cc_SrcSyncCount cc) cc = Some src"
  shows "\<exists>s1 s'. PVRSRVCommandCompleteKM D ck b s = Some s' \<and> sync_data s1 = complete_objs True src (complete_objs False dst (sync_data s)) \<and>
    cc_data s1 ck = Some (cc\<lparr>bInUse := False\<rparr>) \<and>
    ScheduleDeviceCallbacks D s1 = Some (s'\<lparr>q_misr := q_misr s' - of_bool b\<rparr>) \<and> same_frame s s' \<and> same_queues s s'"
proof -
  define s1 where "s1 = set_cc ck (cc\<lparr>bInUse := False\<rparr>) (s\<lparr>sync_data := complete_objs True src (complete_objs False dst (sync_data s))\<rparr>)"
  have "same_frame (s\<lparr>sync_data := complete_objs True src (complete_objs False dst (sync_data s))\<rparr>) s1 \<and>
    same_queues (s\<lparr>sync_data := complete_objs True src (complete_objs False dst (sync_data s))\<rparr>) s1"
    unfolding s1_def using assms(2) by (intro set_cc_frame) (simp add: cc_shape_def)
  then have f1: "same_frame s s1" "same_queues s s1"
    by (auto simp: same_frame_def same_queues_def cc_shape_def fun_eq_iff queues_live_def)
  obtain s2 where s2: "ScheduleDeviceCallbacks D s1 = Some s2" "same_frame s1 s2" "same_queues s1 s2"
    using ScheduleDeviceCallbacks_ok [OF assms(1)] by blast
  define s' where "s' = (if b then s2\<lparr>q_misr := Suc (q_misr s2)\<rparr> else s2)"
  have "PVRSRVCommandCompleteKM D ck b s = Some s'"
    using assms s2(1) by (simp add: PVRSRVCommandCompleteKM_def s'_def flip: s1_def)
  moreover have "same_frame s2 s' \<and> same_queues s2 s'"
    by (auto simp: s'_def same_frame_def same_queues_def cc_shape_def fun_eq_iff queues_live_def)
  then have "same_frame s s' \<and> same_queues s s'" using f1 s2(2,3) same_frame_trans same_queues_trans by blast
  moreover have "s'\<lparr>q_misr := q_misr s' - of_bool b\<rparr> = s2" by (simp add: s'_def)
  moreover have "cc_data s1 ck = Some (cc\<lparr>bInUse := False\<rparr>)" "sync_data s1 = complete_objs True src (complete_objs False dst (sync_data s))"
    by (simp_all add: s1_def set_cc_def)
  ultimately show ?thesis using s2(1) by (intro exI [of _ s1] exI [of _ s']) simp
qed

section \<open>Creation and destruction\<close>

lemma nearest_loop_pow2:
  "unat t < 2 ^ j \<Longrightarrow> j = 0 \<or> 2 ^ (j - 1) \<le> unat t \<Longrightarrow> nearest_loop t r = r * 2 ^ j"
proof (induction j arbitrary: t r)
  case 0
  then have "t = 0" by (simp add: unat_eq_0)
  then show ?case by (simp add: nearest_loop.simps)
next
  case (Suc j)
  then have ne: "t \<noteq> 0" by (auto simp: unat_eq_0)
  have u: "unat (drop_bit 1 t) = unat t div 2" by (simp add: drop_bit_eq_div unat_div)
  have "unat t div 2 < 2 ^ j" using Suc.prems(1) by simp
  moreover have "j = 0 \<or> 2 ^ (j - 1) \<le> unat t div 2"
    using Suc.prems by (cases j) auto
  ultimately have "nearest_loop (drop_bit 1 t) (push_bit 1 r) = push_bit 1 r * 2 ^ j" using u by (intro Suc.IH) simp_all
  then show ?case using ne by (subst nearest_loop.simps) (simp add: push_bit_eq_mult ac_simps)
qed

lemma pow2_bound: "\<exists>j. (n :: nat) \<le> 2 ^ j \<and> (j = 0 \<or> 2 ^ (j - 1) < n)"
proof -
  define j where "j = (LEAST j. n \<le> 2 ^ j)"
  have "\<exists>j. n \<le> 2 ^ j" using less_exp [of n] by (intro exI [of _ n]) (rule less_imp_le)
  then have "n \<le> 2 ^ j" unfolding j_def by (rule LeastI_ex)
  moreover have "2 ^ (j - 1) < n" if "j \<noteq> 0"
  proof -
    have "\<not> n \<le> 2 ^ (j - 1)"
      by (rule not_less_Least [of _ "\<lambda>j. n \<le> 2 ^ j", folded j_def]) (use that in simp)
    then show ?thesis by simp
  qed
  ultimately show ?thesis by (intro exI [of _ j]) auto
qed

lemma NearestPower2_pow:
  assumes "v \<noteq> 0" "unat v \<le> 2 ^ j" "j = 0 \<or> 2 ^ (j - 1) < unat v"
  shows "NearestPower2 v = 2 ^ j"
proof -
  have v: "0 < unat v" using assms(1) by (simp add: unat_gt_0)
  have "unat (v - 1) = unat v - 1" using assms(1) by (simp add: unat_minus_one)
  then have "nearest_loop (v - 1) 1 = 1 * 2 ^ j" using assms v by (intro nearest_loop_pow2) auto
  then show ?thesis using assms(1) by (simp add: NearestPower2_def)
qed

lemma NearestPower2_cases:
  obtains (zero) "v = 0 \<or> 2 ^ 31 < unat v" "NearestPower2 v = 0"
  | (pow) j where "v \<noteq> 0" "j < 32" "unat v \<le> 2 ^ j" "j = 0 \<or> 2 ^ (j - 1) < unat v" "NearestPower2 v = 2 ^ j"
proof (cases "v = 0")
  case True
  then show ?thesis using zero by (simp add: NearestPower2_def)
next
  case False
  then obtain j where j: "unat v \<le> 2 ^ j" "j = 0 \<or> 2 ^ (j - 1) < unat v"
    using pow2_bound [of "unat v"] by (auto simp: unat_gt_0)
  have n: "NearestPower2 v = 2 ^ j" by (rule NearestPower2_pow [OF False j])
  have lt: "unat v < 2 ^ 32" by (rule less_le_trans [OF unsigned_less [of v]]) simp
  show ?thesis
  proof (cases "j < 32")
    case True
    then show ?thesis using pow False j n by blast
  next
    case ge: False
    then have "(2 :: nat) ^ 31 \<le> 2 ^ (j - 1)" by (intro power_increasing) auto
    then have "2 ^ 31 < unat v" using j(2) ge by auto
    moreover have "j = 32"
    proof (rule ccontr)
      assume "j \<noteq> 32"
      then have "(2 :: nat) ^ 32 \<le> 2 ^ (j - 1)" using ge by (intro power_increasing) auto
      then show False using j(2) ge lt by auto
    qed
    then have "NearestPower2 v = 0" using n by simp
    ultimately show ?thesis using zero by blast
  qed
qed

definition new_queue :: "IMG_UINT32 \<Rightarrow> IMG_SIZE_T \<Rightarrow> IMG_UINTPTR_T \<Rightarrow> IMG_UINTPTR_T \<Rightarrow> PVRSRV_QUEUE_INFO" where
  "new_queue pid n p buf = \<lparr>psQueueInfo = p, pvLinQueueKM = buf, pvLinQueueUM = buf, ui32ReadOffset = 0, ui32WriteOffset = 0,
     ui32QueueSize = n, q_ProcessID = pid, lin_size = unat (n + PVRSRV_MAX_CMD_SIZE), lin = Map.empty\<rparr>"

lemma new_queue_ok:
  assumes "j < 32"
  shows "queue_ok [] (new_queue pid (2 ^ j) p buf)"
proof -
  have "(2 :: nat) ^ j \<le> 2 ^ 31" using assms by (intro power_increasing) auto
  then have "unat (2 ^ j + PVRSRV_MAX_CMD_SIZE) = 2 ^ j + unat PVRSRV_MAX_CMD_SIZE"
    using unat_pow2 [OF assms] by (simp add: unat_word_ariths PVRSRV_MAX_CMD_SIZE_def)
  then show ?thesis unfolding queue_ok_def new_queue_def using assms by (intro exI [of _ j]) simp
qed

text \<open>Every branch of the creation: either the queue heads the list and has taken two fresh blocks, or the list and the memory are as before.\<close>

lemma create_cases:
  assumes "PVRSRVCreateCommandQueueKM pid n s = (e, p, s')"
  obtains (ok) buf where "e = PVRSRV_OK" "p \<noteq> IMG_NULL" "p \<notin># blocks (q_os s)" "buf \<notin># blocks (q_os s)" "buf \<noteq> p"
      "blocks (q_os s') = blocks (q_os s) + {#p, buf#}" "os_ok (q_os s) \<longrightarrow> os_ok (q_os s')"
      "psQueueList s' = new_queue pid (NearestPower2 n) p buf # psQueueList s" "q_log s' = (q_log s)(p := [])"
      "\<not> ui32Lock (sQProcessResource s')" "psQueueList s = [] \<or> \<not> ui32Lock (sQProcessResource s)"
      "apsDeviceCommandData s' = apsDeviceCommandData s" "cc_data s' = cc_data s"
  | (oom) "e = PVRSRV_ERROR_OUT_OF_MEMORY" "p = IMG_NULL" "blocks (q_os s') = blocks (q_os s)" "os_ok (q_os s) \<longrightarrow> os_ok (q_os s')"
      "s' = s\<lparr>q_os := q_os s'\<rparr>"
  | (busy) "e = PVRSRV_ERROR_UNABLE_TO_LOCK_RESOURCE" "p = IMG_NULL" "blocks (q_os s') = blocks (q_os s)" "os_ok (q_os s) \<longrightarrow> os_ok (q_os s')"
      "psQueueList s \<noteq> []" "ui32Lock (sQProcessResource s)" "s' = s\<lparr>q_os := q_os s'\<rparr>"
proof -
  obtain e1 p1 os1 where a1: "OSAllocMem sizeof_PVRSRV_QUEUE_INFO (q_os s) = (e1, p1, os1)" by (metis prod_cases3)
  obtain e2 buf os2 where a2: "OSAllocMem (NearestPower2 n + PVRSRV_MAX_CMD_SIZE) os1 = (e2, buf, os2)" by (metis prod_cases3)
  note b1 = OSAllocMem_blocks [OF a1] OSAllocMem_ok_iff [OF a1] OSAllocMem_os_ok [OF a1] OSAllocMem_fresh [OF a1]
  note b2 = OSAllocMem_blocks [OF a2] OSAllocMem_ok_iff [OF a2] OSAllocMem_os_ok [OF a2] OSAllocMem_fresh [OF a2]
  show ?thesis
  proof (cases "e1 = PVRSRV_OK")
    case False
    then have "e1 = PVRSRV_ERROR_OUT_OF_MEMORY" using a1 by (auto elim: OSAllocMem_cases)
    then show ?thesis using assms a1 b1 False by (intro oom) (auto simp: PVRSRVCreateCommandQueueKM_def create_error_def)
  next
    case ok1: True
    show ?thesis
    proof (cases "e2 = PVRSRV_OK")
      case False
      then have "e2 = PVRSRV_ERROR_OUT_OF_MEMORY" using a2 by (auto elim: OSAllocMem_cases)
      then show ?thesis using assms a1 a2 b1 b2 ok1 False OSFreeMem_os_ok
        by (intro oom) (auto simp: PVRSRVCreateCommandQueueKM_def create_error_def os_simps)
    next
      case ok2: True
      show ?thesis
      proof (cases "psQueueList s = [] \<or> \<not> ui32Lock (sQProcessResource s)")
        case True
        have "PVRSRVCreateCommandQueueKM pid n s = (PVRSRV_OK, p1, s\<lparr>q_os := os2,
            psQueueList := new_queue pid (NearestPower2 n) p1 buf # psQueueList s, q_log := (q_log s)(p1 := []),
            sQProcessResource := (if psQueueList s = [] then OSCreateResource else sQProcessResource s)\<lparr>ui32ID := 0, ui32Lock := False\<rparr>\<rparr>)"
          using True a1 a2 ok1 ok2
          by (cases "psQueueList s = []")
            (simp_all add: PVRSRVCreateCommandQueueKM_def Let_def new_queue_def OSCreateResource_def lock_free_same OSUnlockResource_def)
        then show ?thesis using assms b1 b2 ok1 ok2 True by (intro ok [of buf]) auto
      next
        case False
        then show ?thesis using assms a1 a2 b1 b2 ok1 ok2 OSFreeMem_os_ok
          by (intro busy) (auto simp: PVRSRVCreateCommandQueueKM_def Let_def create_error_def lock_busy_same os_simps)
      qed
    qed
  qed
qed

lemma find_prev_Some: "p \<in> psQueueInfo ` set qs \<Longrightarrow> find_prev p (a # qs) \<noteq> None"
proof (induction qs arbitrary: a)
  case (Cons b qs)
  then show ?case by (cases "psQueueInfo b = p") auto
qed simp

definition without_queue :: "PVRSRV_QUEUE_INFO \<Rightarrow> 'w Q_SYS_DATA \<Rightarrow> 'w Q_SYS_DATA" where
  "without_queue q s = free_queue q (s\<lparr>psQueueList := filter (\<lambda>r. psQueueInfo r \<noteq> psQueueInfo q) (psQueueList s)\<rparr>)"

text \<open>Every branch of the destruction of a queue that is drained when it is first looked at, or not at all.\<close>

lemma destroy_drained:
  assumes "distinct (map psQueueInfo (psQueueList s))" "IMG_NULL \<notin> psQueueInfo ` set (psQueueList s)"
    "queue_at p s = Some q" "ui32ReadOffset q = ui32WriteOffset q"
  shows "ui32Lock (sQProcessResource s) \<Longrightarrow> PVRSRVDestroyCommandQueueKM others (Suc t) p s = Some (PVRSRV_ERROR_UNABLE_TO_LOCK_RESOURCE, s)"
    and "\<not> ui32Lock (sQProcessResource s) \<Longrightarrow> \<exists>r. \<not> ui32Lock r \<and>
      PVRSRVDestroyCommandQueueKM others (Suc t) p s = Some (PVRSRV_OK, (without_queue q s)\<lparr>sQProcessResource := r\<rparr>)"
proof -
  have q: "psQueueInfo q = p" "q \<in> set (psQueueList s)" using queue_at_SomeD [OF assms(3)] by auto
  then obtain a rest where l: "psQueueList s = a # rest" by (cases "psQueueList s") auto
  have w: "queue_empty_wait others p (Suc t) s = Some (False, s)" using assms(3,4) by simp
  show "PVRSRVDestroyCommandQueueKM others (Suc t) p s = Some (PVRSRV_ERROR_UNABLE_TO_LOCK_RESOURCE, s)" if "ui32Lock (sQProcessResource s)"
    unfolding PVRSRVDestroyCommandQueueKM_def w using that by (simp add: Let_def lock_busy_same)
  show "\<exists>r. \<not> ui32Lock r \<and> PVRSRVDestroyCommandQueueKM others (Suc t) p s = Some (PVRSRV_OK, (without_queue q s)\<lparr>sQProcessResource := r\<rparr>)"
    if free: "\<not> ui32Lock (sQProcessResource s)"
  proof -
    let ?r = "(sQProcessResource s)\<lparr>ui32Lock := True, ui32ID := KERNEL_ID\<rparr>"
    have at: "queue_at p (s\<lparr>sQProcessResource := x\<rparr>) = Some q" for x using assms(3) by (simp add: queue_at_def)
    have fq: "from_queue (head_queue (psQueueList s)) (s\<lparr>sQProcessResource := x\<rparr>) = a # rest" for x using l by (simp add: from_queue_def head_queue_def)
    have hd: "head_queue (psQueueList s) \<noteq> IMG_NULL" using assms(2) l by (auto simp: head_queue_def)
    have list: "(if head_queue (psQueueList s) = p then tl (from_queue p (s\<lparr>sQProcessResource := x\<rparr>)) else filter (\<lambda>r. psQueueInfo r \<noteq> p) (psQueueList s)) =
      filter (\<lambda>r. psQueueInfo r \<noteq> p) (psQueueList s)" for x
      using assms(1) l fq [of x] by (auto simp: head_queue_def intro!: filter_True [symmetric]) (metis imageI)
    have fp: "head_queue (psQueueList s) \<noteq> p \<Longrightarrow> find_prev p (a # rest) \<noteq> None"
      using q l by (intro find_prev_Some) (auto simp: head_queue_def)
    define s3 where "s3 = (without_queue q s)\<lparr>sQProcessResource := ?r\<rparr>"
    have step: "unlink_queue (head_queue (psQueueList s)) p q (s\<lparr>sQProcessResource := ?r\<rparr>) = Some (True, s3)"
      using fq list [of ?r] fp hd q(1) by (auto simp: unlink_queue_def s3_def without_queue_def free_queue_def split: if_splits option.splits)
    have "unlock_queues s3 = (PVRSRV_OK, (without_queue q s)\<lparr>sQProcessResource := ?r\<lparr>ui32ID := 0, ui32Lock := False\<rparr>\<rparr>)"
      by (simp add: unlock_queues_def s3_def OSUnlockResource_def)
    then have "PVRSRVDestroyCommandQueueKM others (Suc t) p s =
        Some (PVRSRV_OK, (without_queue q s)\<lparr>sQProcessResource := ?r\<lparr>ui32ID := 0, ui32Lock := False\<rparr>\<rparr>)"
      unfolding PVRSRVDestroyCommandQueueKM_def w using free at step
      by (simp add: Let_def lock_free_same OSDestroyResource_def OSBreakResourceLock_def)
    then show ?thesis by (intro exI [of _ "?r\<lparr>ui32ID := 0, ui32Lock := False\<rparr>"]) simp
  qed
qed

lemma destroy_not_drained:
  assumes "queue_at p s = Some q" "ui32ReadOffset q \<noteq> ui32WriteOffset q"
  shows "PVRSRVDestroyCommandQueueKM (\<lambda>_ s. s) t p s = Some (PVRSRV_ERROR_CANNOT_FLUSH_QUEUE, s)"
proof -
  have "queue_empty_wait (\<lambda>_ s. s) p t s = Some (True, s)" using assms by (induction t) auto
  then show ?thesis by (simp add: PVRSRVDestroyCommandQueueKM_def Let_def)
qed

section \<open>Command processors\<close>

definition syncs_fit :: "(IMG_UINTPTR_T \<times> IMG_UINT32 \<times> IMG_UINT32) list \<Rightarrow> bool" where
  "syncs_fit xs \<longleftrightarrow> (\<forall>(fn, md, ms) \<in> set xs. unat md + unat ms < 2 ^ 27)"

lemma alloc_size:
  assumes "unat (md :: IMG_UINT32) + unat ms < 2 ^ 27"
  defines "n \<equiv> sizeof_COMMAND_COMPLETE_DATA + (md + ms) * sizeof_PVRSRV_SYNC_OBJECT"
  shows "unat n = 40 + 16 * (unat md + unat ms)" "\<not> n < sizeof_COMMAND_COMPLETE_DATA"
    "unat (n - sizeof_COMMAND_COMPLETE_DATA) div unat sizeof_PVRSRV_SYNC_OBJECT = unat md + unat ms"
proof -
  have a: "unat (md + ms) = unat md + unat ms" using assms(1) by (simp add: unat_word_ariths)
  have b: "unat ((md + ms) * 16) = 16 * (unat md + unat ms)" using assms(1) a by (simp add: unat_word_ariths)
  show n: "unat n = 40 + 16 * (unat md + unat ms)" unfolding n_def queue_consts using b assms(1) by (simp add: unat_word_ariths)
  then show "\<not> n < sizeof_COMMAND_COMPLETE_DATA" by (simp add: word_less_nat_alt queue_consts)
  have "n - sizeof_COMMAND_COMPLETE_DATA = (md + ms) * 16" by (simp add: n_def queue_consts)
  then show "unat (n - sizeof_COMMAND_COMPLETE_DATA) div unat sizeof_PVRSRV_SYNC_OBJECT = unat md + unat ms"
    using b by (simp add: queue_consts)
qed

text \<open>The entries a registration leaves behind: those it has filled, the one whose allocation failed, and the rest.\<close>

definition entries_of :: "(nat \<Rightarrow> DEVICE_COMMAND_DATA) \<Rightarrow> nat \<Rightarrow> IMG_UINTPTR_T list \<Rightarrow> nat \<Rightarrow> IMG_UINTPTR_T list" where
  "entries_of junk i ps n = ps @ concat (map (\<lambda>j. apsCmdCompleteData (junk j)) [i + length ps..<i + n])"

definition cookies_added :: "IMG_UINTPTR_T list \<Rightarrow> 'w Q_SYS_DATA \<Rightarrow> 'w Q_SYS_DATA \<Rightarrow> bool" where
  "cookies_added ps s s' \<longleftrightarrow>
     blocks (q_os s') = blocks (q_os s) + mset ps \<and> (os_ok (q_os s) \<longrightarrow> os_ok (q_os s')) \<and> IMG_NULL \<notin> set ps \<and>
     (\<forall>ck \<in> set ps. cc_data s' ck \<noteq> None \<and> ck \<notin># blocks (q_os s)) \<and>
     (\<forall>ck. ck \<notin> set ps \<longrightarrow> cc_data s' ck = cc_data s ck) \<and>
     psQueueList s' = psQueueList s \<and> q_log s' = q_log s \<and> sync_data s' = sync_data s"

lemma set_entry_dev:
  "apsDeviceCommandData s dev = Some (a, es) \<Longrightarrow> apsDeviceCommandData (set_entry dev i e s) = (apsDeviceCommandData s)(dev \<mapsto> (a, es[i := e]))"
  by (simp add: set_entry_def)

lemma set_entry_simps [simp]:
  "q_os (set_entry dev i e s) = q_os s" "cc_data (set_entry dev i e s) = cc_data s" "psQueueList (set_entry dev i e s) = psQueueList s"
  "q_log (set_entry dev i e s) = q_log s" "sync_data (set_entry dev i e s) = sync_data s"
  by (simp_all add: set_entry_def)

lemma register_loop_ok:
  assumes "syncs_fit xs" "apsDeviceCommandData s dev = Some (a, es)" "length es = i + length xs"
    "map apsCmdCompleteData (drop i es) = map (\<lambda>j. apsCmdCompleteData (junk j)) [i..<i + length xs]"
  shows "\<exists>e s' ps es'. register_loop dev junk i xs s = Some (e, s') \<and> cookies_added ps s s' \<and> length ps \<le> length xs \<and>
    (e = PVRSRV_OK \<longleftrightarrow> length ps = length xs) \<and> (e = PVRSRV_OK \<or> e = PVRSRV_ERROR_OUT_OF_MEMORY) \<and>
    apsDeviceCommandData s' = (apsDeviceCommandData s)(dev \<mapsto> (a, es')) \<and> length es' = length es \<and>
    take i es' = take i es \<and> concat (map apsCmdCompleteData (drop i es')) = entries_of junk i ps (length xs) \<and>
    (e = PVRSRV_OK \<longrightarrow> (\<forall>j < length xs. apsCmdCompleteData (es' ! (i + j)) = [ps ! j] \<and> ui32CCBOffset (es' ! (i + j)) = 0 \<and>
       pfnCmdProc (es' ! (i + j)) = fst (xs ! j) \<and>
       cc_shape s' (ps ! j) = Some (unat (fst (snd (xs ! j))), unat (fst (snd (xs ! j))) + unat (snd (snd (xs ! j))))))"
  using assms
proof (induction xs arbitrary: i s es)
  case Nil
  have "apsDeviceCommandData s = (apsDeviceCommandData s)(dev \<mapsto> (a, es))" using Nil.prems(2) by auto
  then show ?case using Nil by (intro exI [of _ PVRSRV_OK] exI [of _ s] exI [of _ "[]"] exI [of _ es]) (simp add: cookies_added_def entries_of_def)
next
  case (Cons x xs)
  obtain fn md ms where x: "x = (fn, md, ms)" by (metis prod_cases3)
  then have fit: "unat md + unat ms < 2 ^ 27" "syncs_fit xs" using Cons.prems(1) by (auto simp: syncs_fit_def)
  let ?n = "sizeof_COMMAND_COMPLETE_DATA + (md + ms) * sizeof_PVRSRV_SYNC_OBJECT"
  obtain e1 p os1 where al: "OSAllocMem ?n (q_os s) = (e1, p, os1)" by (metis prod_cases3)
  note mem = OSAllocMem_blocks [OF al] OSAllocMem_ok_iff [OF al] OSAllocMem_os_ok [OF al] OSAllocMem_fresh [OF al]
  define e0 where "e0 = (junk i)\<lparr>pfnCmdProc := fn, ui32CCBOffset := 0\<rparr>"
  define s1 where "s1 = set_entry dev i e0 (s\<lparr>q_os := os1\<rparr>)"
  have i: "i < length es" using Cons.prems(3) by simp
  have d1: "apsDeviceCommandData s1 = (apsDeviceCommandData s)(dev \<mapsto> (a, es[i := e0]))"
    using Cons.prems(2) by (simp add: s1_def set_entry_dev)
  have u: "[i..<i + length (x # xs)] = i # [Suc i..<Suc i + length xs]" by (simp add: upt_conv_Cons del: upt_Suc)
  have dr: "map apsCmdCompleteData (drop (Suc i) es) = map (\<lambda>j. apsCmdCompleteData (junk j)) [Suc i..<Suc i + length xs]"
    using Cons.prems(4) i unfolding u by (simp add: Cons_nth_drop_Suc [symmetric] del: upt_Suc)
  show ?case
  proof (cases "e1 = PVRSRV_OK")
    case False
    then have "e1 = PVRSRV_ERROR_OUT_OF_MEMORY" using al by (auto elim: OSAllocMem_cases)
    moreover have "register_loop dev junk i (x # xs) s = Some (e1, s1)"
      using al False by (simp add: x Let_def s1_def e0_def)
    moreover have "concat (map apsCmdCompleteData (drop i (es[i := e0]))) = entries_of junk i [] (length (x # xs))"
      using i dr u by (simp add: entries_of_def Cons_nth_drop_Suc [symmetric] e0_def del: upt_Suc)
    moreover have "cookies_added [] s s1" using mem False by (simp add: cookies_added_def s1_def)
    ultimately show ?thesis using d1
      by (intro exI [of _ e1] exI [of _ s1] exI [of _ "[]"] exI [of _ "es[i := e0]"]) simp
  next
    case True
    define cc where "cc = \<lparr>bInUse = False, cc_DstSyncCount = 0, cc_SrcSyncCount = 0, cc_psSrcSync = unat md, cc_AllocSize = ?n,
        cc_syncs = replicate (unat md + unat ms) zero_sync_object\<rparr>"
    define e2 where "e2 = e0\<lparr>apsCmdCompleteData := [p]\<rparr>"
    define s2 where "s2 = set_cc p cc (set_entry dev i e2 s1)"
    have run: "register_loop dev junk i (x # xs) s = register_loop dev junk (Suc i) xs s2"
      using al True alloc_size [OF fit(1)] by (simp add: x Let_def s2_def s1_def e0_def e2_def cc_def)
    have d2: "apsDeviceCommandData s2 = (apsDeviceCommandData s)(dev \<mapsto> (a, es[i := e2]))"
      using d1 by (simp add: s2_def set_cc_def set_entry_def)
    have "map apsCmdCompleteData (drop (Suc i) (es[i := e2])) = map (\<lambda>j. apsCmdCompleteData (junk j)) [Suc i..<Suc i + length xs]"
      using dr by simp
    note IH = Cons.IH [OF fit(2) _ _ this]
    have "apsDeviceCommandData s2 dev = Some (a, es[i := e2])" "length (es[i := e2]) = Suc i + length xs"
      using d2 Cons.prems(3) by simp_all
    from IH [OF this] obtain e s' ps es' where
      r: "register_loop dev junk (Suc i) xs s2 = Some (e, s')" "cookies_added ps s2 s'" "length ps \<le> length xs"
        "e = PVRSRV_OK \<longleftrightarrow> length ps = length xs" "e = PVRSRV_OK \<or> e = PVRSRV_ERROR_OUT_OF_MEMORY"
        "apsDeviceCommandData s' = (apsDeviceCommandData s2)(dev \<mapsto> (a, es'))" "length es' = length (es[i := e2])"
        "take (Suc i) es' = take (Suc i) (es[i := e2])" "concat (map apsCmdCompleteData (drop (Suc i) es')) = entries_of junk (Suc i) ps (length xs)"
        "e = PVRSRV_OK \<longrightarrow> (\<forall>j < length xs. apsCmdCompleteData (es' ! (Suc i + j)) = [ps ! j] \<and> ui32CCBOffset (es' ! (Suc i + j)) = 0 \<and>
           pfnCmdProc (es' ! (Suc i + j)) = fst (xs ! j) \<and>
           cc_shape s' (ps ! j) = Some (unat (fst (snd (xs ! j))), unat (fst (snd (xs ! j))) + unat (snd (snd (xs ! j)))))"
      by (elim exE conjE) (rule that, assumption+)
    have at: "es' ! i = e2" using r(8) i by (metis lessI nth_list_update_eq nth_take)
    have p: "p \<noteq> IMG_NULL" "p \<notin># blocks (q_os s)" "blocks os1 = add_mset p (blocks (q_os s))" using mem True by auto
    have f2: "q_os s2 = os1" "cc_data s2 = (cc_data s)(p \<mapsto> cc)" "psQueueList s2 = psQueueList s" "q_log s2 = q_log s" "sync_data s2 = sync_data s"
      by (simp_all add: s2_def s1_def set_cc_def)
    have np: "p \<notin> set ps" using r(2) p(3) f2(1) by (auto simp: cookies_added_def)
    have cp: "cc_data s' p = Some cc" using r(2) np f2(2) by (simp add: cookies_added_def)
    have ca: "cookies_added (p # ps) s s'"
      using r(2) p mem(3) cp f2 by (auto simp: cookies_added_def)
    have es: "drop i es' = e2 # drop (Suc i) es'" using at i r(7) by (metis Cons_nth_drop_Suc length_list_update)
    have "entries_of junk i (p # ps) (length (x # xs)) = p # entries_of junk (Suc i) ps (length xs)" by (simp add: entries_of_def)
    then have ent: "concat (map apsCmdCompleteData (drop i es')) = entries_of junk i (p # ps) (length (x # xs))"
      using es r(9) by (simp add: e2_def)
    have tk: "take i es' = take i es" using r(8) by (metis le_SucI min_def order_refl take_take take_update_cancel)
    have all: "e = PVRSRV_OK \<longrightarrow> (\<forall>j < length (x # xs). apsCmdCompleteData (es' ! (i + j)) = [(p # ps) ! j] \<and> ui32CCBOffset (es' ! (i + j)) = 0 \<and>
        pfnCmdProc (es' ! (i + j)) = fst ((x # xs) ! j) \<and>
        cc_shape s' ((p # ps) ! j) = Some (unat (fst (snd ((x # xs) ! j))), unat (fst (snd ((x # xs) ! j))) + unat (snd (snd ((x # xs) ! j)))))"
    proof (intro impI allI)
      fix j assume "e = PVRSRV_OK" "j < length (x # xs)"
      then show "apsCmdCompleteData (es' ! (i + j)) = [(p # ps) ! j] \<and> ui32CCBOffset (es' ! (i + j)) = 0 \<and>
          pfnCmdProc (es' ! (i + j)) = fst ((x # xs) ! j) \<and>
          cc_shape s' ((p # ps) ! j) = Some (unat (fst (snd ((x # xs) ! j))), unat (fst (snd ((x # xs) ! j))) + unat (snd (snd ((x # xs) ! j))))"
        using r(10) at cp by (cases j) (simp_all add: e2_def e0_def x cc_shape_def cc_def)
    qed
    show ?thesis
      using run r(1,3-7) ca d2 tk ent all
      by (intro exI [of _ e] exI [of _ s'] exI [of _ "p # ps"] exI [of _ es']) (simp del: nth_Cons_Suc)
  qed
qed

lemma remove_entries_ok:
  assumes "IMG_NULL \<notin> set ps" "distinct ps" "\<forall>p \<in> set ps. cc_data s p \<noteq> None" "\<forall>q \<in> set qs. q = IMG_NULL"
  shows "\<exists>s'. remove_entries (ps @ qs) s = Some s' \<and> blocks (q_os s') = blocks (q_os s) - mset ps \<and> (os_ok (q_os s) \<longrightarrow> os_ok (q_os s')) \<and>
    cc_data s' = (\<lambda>ck. if ck \<in> set ps then None else cc_data s ck) \<and> apsDeviceCommandData s' = apsDeviceCommandData s \<and>
    psQueueList s' = psQueueList s \<and> q_log s' = q_log s \<and> sync_data s' = sync_data s"
  using assms(1-3)
proof (induction ps arbitrary: s)
  case Nil
  have "remove_entries qs s = Some s" using assms(4) by (induction qs) auto
  then show ?case by simp
next
  case (Cons p ps)
  let ?s = "s\<lparr>q_os := OSFreeMem p (q_os s), cc_data := (cc_data s)(p := None)\<rparr>"
  obtain s' where s': "remove_entries (ps @ qs) ?s = Some s'" "blocks (q_os s') = blocks (q_os ?s) - mset ps"
      "os_ok (q_os ?s) \<longrightarrow> os_ok (q_os s')" "cc_data s' = (\<lambda>ck. if ck \<in> set ps then None else cc_data ?s ck)"
      "apsDeviceCommandData s' = apsDeviceCommandData s" "psQueueList s' = psQueueList s" "q_log s' = q_log s" "sync_data s' = sync_data s"
  proof -
    have "IMG_NULL \<notin> set ps" "distinct ps" "\<forall>p \<in> set ps. cc_data ?s p \<noteq> None" using Cons.prems by auto
    from Cons.IH [OF this] show ?thesis by (elim exE conjE) (rule that, assumption, simp_all)
  qed
  have "remove_entries ((p # ps) @ qs) s = Some s'" using Cons.prems(1,3) s'(1) by auto
  moreover have "cc_data s' = (\<lambda>ck. if ck \<in> set (p # ps) then None else cc_data s ck)" using s'(4) by auto
  moreover have "blocks (q_os s') = blocks (q_os s) - mset (p # ps)" using s'(2) by (simp add: os_simps)
  ultimately show ?case using s'(3,5-) OSFreeMem_os_ok by (intro exI [of _ s']) auto
qed

lemma cookies_added_distinct:
  assumes "cookies_added ps s s'" "os_ok (q_os s)"
  shows "distinct ps"
proof -
  have "distinct (os_live (q_os s'))" using assms by (simp add: cookies_added_def os_ok_def)
  moreover have "mset ps \<subseteq># mset (os_live (q_os s'))" using assms(1) by (simp add: cookies_added_def blocks_def)
  ultimately show ?thesis by (rule distinct_mset_subset [rotated])
qed

text \<open>Removing what a registration has added, complete or cut short, when the pointers it never wrote are null.\<close>

lemma remove_registered:
  assumes ca: "cookies_added ps s1 s2" and ok: "os_ok (q_os s1)" and dev: "dev < SYS_DEVICE_COUNT" "apsDeviceCommandData s2 dev = Some (a, es)"
    and es: "length es = unat n" "concat (map apsCmdCompleteData es) = ps @ qs" "\<forall>q \<in> set qs. q = IMG_NULL"
    and old: "\<forall>ck. cc_data s1 ck \<noteq> None \<longrightarrow> ck \<in># blocks (q_os s1)"
  shows "\<exists>s3. PVRSRVRemoveCmdProcListKM dev n s2 = Some (PVRSRV_OK, s3) \<and> blocks (q_os s3) = blocks (q_os s1) - {#a#} \<and>
    cc_data s3 = cc_data s1 \<and> apsDeviceCommandData s3 = (apsDeviceCommandData s2)(dev := None) \<and>
    psQueueList s3 = psQueueList s1 \<and> q_log s3 = q_log s1 \<and> sync_data s3 = sync_data s1"
proof -
  note d = cookies_added_distinct [OF ca ok]
  obtain s3 where s3: "remove_entries (ps @ qs) s2 = Some s3" "blocks (q_os s3) = blocks (q_os s2) - mset ps"
      "cc_data s3 = (\<lambda>ck. if ck \<in> set ps then None else cc_data s2 ck)" "apsDeviceCommandData s3 = apsDeviceCommandData s2"
      "psQueueList s3 = psQueueList s2" "q_log s3 = q_log s2" "sync_data s3 = sync_data s2"
    using remove_entries_ok [of ps s2 qs] ca d es(3) by (auto simp: cookies_added_def)
  have "cc_data s3 ck = cc_data s1 ck" for ck
  proof (cases "ck \<in> set ps")
    case True
    then have "ck \<notin># blocks (q_os s1)" using ca by (simp add: cookies_added_def)
    then show ?thesis using old s3(3) True by (metis (no_types))
  next
    case False
    then show ?thesis using s3(3) ca by (simp add: cookies_added_def)
  qed
  then have "cc_data s3 = cc_data s1" by auto
  moreover have "blocks (q_os s3) = blocks (q_os s1)" using s3(2) ca by (simp add: cookies_added_def)
  moreover have "PVRSRVRemoveCmdProcListKM dev n s2 = Some (PVRSRV_OK, s3\<lparr>q_os := OSFreeMem a (q_os s3),
      apsDeviceCommandData := (apsDeviceCommandData s3)(dev := None)\<rparr>)"
    unfolding PVRSRVRemoveCmdProcListKM_def using dev es s3(1) by (simp add: not_le)
  ultimately show ?thesis using s3 ca by (simp add: os_simps cookies_added_def)
qed

text \<open>Every branch of a registration on a device that has none.\<close>

lemma register_cases:
  assumes "dev < SYS_DEVICE_COUNT" "apsDeviceCommandData s dev = None" "os_ok (q_os s)" "\<forall>ck. cc_data s ck \<noteq> None \<longrightarrow> ck \<in># blocks (q_os s)"
    "length fns = unat n" "length syncs = unat n" "unat n < 2 ^ 27" "syncs_fit (zip fns syncs)"
  obtains (ok) s' s'' a es ps where "PVRSRVRegisterCmdProcListKM junk dev fns syncs n s = Some (PVRSRV_OK, s')"
      "apsDeviceCommandData s' = (apsDeviceCommandData s)(dev \<mapsto> (a, es))" "length es = unat n" "length ps = unat n" "distinct ps"
      "\<forall>j < unat n. apsCmdCompleteData (es ! j) = [ps ! j] \<and> ui32CCBOffset (es ! j) = 0 \<and> pfnCmdProc (es ! j) = fns ! j \<and>
         cc_shape s' (ps ! j) = Some (unat (fst (syncs ! j)), unat (fst (syncs ! j)) + unat (snd (syncs ! j)))"
      "blocks (q_os s') = blocks (q_os s) + {#a#} + mset ps"
      "PVRSRVRemoveCmdProcListKM dev n s' = Some (PVRSRV_OK, s'')" "blocks (q_os s'') = blocks (q_os s)" "cc_data s'' = cc_data s"
      "apsDeviceCommandData s'' = apsDeviceCommandData s" "psQueueList s'' = psQueueList s" "q_log s'' = q_log s" "sync_data s'' = sync_data s"
  | (oom) "\<And>s'. PVRSRVRegisterCmdProcListKM junk dev fns syncs n s \<noteq> Some (PVRSRV_OK, s')"
      "(\<forall>i < unat n. \<forall>p \<in> set (apsCmdCompleteData (junk i)). p = IMG_NULL) \<longrightarrow>
      (\<exists>s'. PVRSRVRegisterCmdProcListKM junk dev fns syncs n s = Some (PVRSRV_ERROR_OUT_OF_MEMORY, s') \<and>
        blocks (q_os s') = blocks (q_os s) \<and> cc_data s' = cc_data s \<and> apsDeviceCommandData s' = apsDeviceCommandData s \<and>
        psQueueList s' = psQueueList s \<and> q_log s' = q_log s \<and> sync_data s' = sync_data s)"
proof -
  obtain e1 a os1 where al: "OSAllocMem (n * sizeof_DEVICE_COMMAND_DATA) (q_os s) = (e1, a, os1)" by (metis prod_cases3)
  note mem = OSAllocMem_blocks [OF al] OSAllocMem_ok_iff [OF al] OSAllocMem_os_ok [OF al] OSAllocMem_fresh [OF al]
  show ?thesis
  proof (cases "e1 = PVRSRV_OK")
    case False
    then have "e1 = PVRSRV_ERROR_OUT_OF_MEMORY" using al by (auto elim: OSAllocMem_cases)
    then have "PVRSRVRegisterCmdProcListKM junk dev fns syncs n s = Some (PVRSRV_ERROR_OUT_OF_MEMORY, s\<lparr>q_os := os1\<rparr>)"
      using al assms(1,2) by (simp add: PVRSRVRegisterCmdProcListKM_def PVRSRVRemoveCmdProcListKM_def Let_def not_le)
    then show ?thesis using mem False by (intro oom) auto
  next
    case True
    let ?xs = "zip fns syncs"
    let ?es = "map junk [0..<unat n]"
    define s1 where "s1 = s\<lparr>q_os := os1, apsDeviceCommandData := (apsDeviceCommandData s)(dev \<mapsto> (a, ?es))\<rparr>"
    have l: "length ?xs = unat n" using assms(5,6) by simp
    have "apsDeviceCommandData s1 dev = Some (a, ?es)" "length ?es = 0 + length ?xs"
      "map apsCmdCompleteData (drop 0 ?es) = map (\<lambda>j. apsCmdCompleteData (junk j)) [0..<0 + length ?xs]"
      using l by (simp_all add: s1_def)
    from register_loop_ok [OF assms(8) this] obtain e s' ps es where
      r: "register_loop dev junk 0 ?xs s1 = Some (e, s')" "cookies_added ps s1 s'" "length ps \<le> length ?xs"
        "e = PVRSRV_OK \<longleftrightarrow> length ps = length ?xs" "e = PVRSRV_OK \<or> e = PVRSRV_ERROR_OUT_OF_MEMORY"
        "apsDeviceCommandData s' = (apsDeviceCommandData s1)(dev \<mapsto> (a, es))" "length es = length ?es" "take 0 es = take 0 ?es"
        "concat (map apsCmdCompleteData (drop 0 es)) = entries_of junk 0 ps (length ?xs)"
        "e = PVRSRV_OK \<longrightarrow> (\<forall>j < length ?xs. apsCmdCompleteData (es ! (0 + j)) = [ps ! j] \<and> ui32CCBOffset (es ! (0 + j)) = 0 \<and>
           pfnCmdProc (es ! (0 + j)) = fst (?xs ! j) \<and>
           cc_shape s' (ps ! j) = Some (unat (fst (snd (?xs ! j))), unat (fst (snd (?xs ! j))) + unat (snd (snd (?xs ! j)))))"
      by (elim exE conjE) (rule that, assumption+)
    have ok1: "os_ok (q_os s1)" using mem assms(3) by (simp add: s1_def)
    have a: "blocks (q_os s1) = add_mset a (blocks (q_os s))" using mem True by (simp add: s1_def)
    have old: "\<forall>ck. cc_data s1 ck \<noteq> None \<longrightarrow> ck \<in># blocks (q_os s1)" using assms(4) a by (simp add: s1_def)
    have run: "PVRSRVRegisterCmdProcListKM junk dev fns syncs n s =
        (if e = PVRSRV_OK then Some (PVRSRV_OK, s') else do { (_, s3) \<leftarrow> PVRSRVRemoveCmdProcListKM dev n s'; Some (e, s3) })"
      using al True iffD2 [OF not_le assms(1)] assms(5-7) r(1)
      by (simp add: PVRSRVRegisterCmdProcListKM_def Let_def sizeof_DEVICE_COMMAND_DATA_def flip: s1_def)
    have dv: "apsDeviceCommandData s' dev = Some (a, es)" "length es = unat n" using r(6,7) by simp_all
    have cat: "concat (map apsCmdCompleteData es) = ps @ concat (map (\<lambda>j. apsCmdCompleteData (junk j)) [length ps..<unat n])"
      using r(9) l by (simp add: entries_of_def)
    have unset: "(apsDeviceCommandData s')(dev := None) = apsDeviceCommandData s" using r(6) assms(2) by (auto simp: s1_def)
    show ?thesis
    proof (cases "e = PVRSRV_OK")
      case e: True
      then have "\<forall>q \<in> set (concat (map (\<lambda>j. apsCmdCompleteData (junk j)) [length ps..<unat n])). q = IMG_NULL" using r(4) l by simp
      from remove_registered [OF r(2) ok1 assms(1) dv cat this old] obtain s'' where
        s'': "PVRSRVRemoveCmdProcListKM dev n s' = Some (PVRSRV_OK, s'')" "blocks (q_os s'') = blocks (q_os s1) - {#a#}" "cc_data s'' = cc_data s1"
          "apsDeviceCommandData s'' = (apsDeviceCommandData s')(dev := None)" "psQueueList s'' = psQueueList s1" "q_log s'' = q_log s1" "sync_data s'' = sync_data s1"
        by blast
      have "blocks (q_os s') = blocks (q_os s) + {#a#} + mset ps" using r(2) a by (simp add: cookies_added_def)
      moreover have "apsDeviceCommandData s' = (apsDeviceCommandData s)(dev \<mapsto> (a, es))" using r(6) by (simp add: s1_def)
      moreover have "\<forall>j < unat n. apsCmdCompleteData (es ! j) = [ps ! j] \<and> ui32CCBOffset (es ! j) = 0 \<and> pfnCmdProc (es ! j) = fns ! j \<and>
         cc_shape s' (ps ! j) = Some (unat (fst (syncs ! j)), unat (fst (syncs ! j)) + unat (snd (syncs ! j)))"
        using r(10) e l assms(5,6) by simp
      ultimately show ?thesis using run e r(4) l dv(2) s'' a unset cookies_added_distinct [OF r(2) ok1]
        by (intro ok [of s' a es ps s'']) (simp_all add: s1_def)
    next
      case e: False
      show ?thesis
      proof (rule oom)
        show "PVRSRVRegisterCmdProcListKM junk dev fns syncs n s \<noteq> Some (PVRSRV_OK, t)" for t
          using run e by (auto split: bind_splits)
      next
        show "(\<forall>i < unat n. \<forall>p \<in> set (apsCmdCompleteData (junk i)). p = IMG_NULL) \<longrightarrow>
          (\<exists>s'. PVRSRVRegisterCmdProcListKM junk dev fns syncs n s = Some (PVRSRV_ERROR_OUT_OF_MEMORY, s') \<and>
            blocks (q_os s') = blocks (q_os s) \<and> cc_data s' = cc_data s \<and> apsDeviceCommandData s' = apsDeviceCommandData s \<and>
            psQueueList s' = psQueueList s \<and> q_log s' = q_log s \<and> sync_data s' = sync_data s)"
        proof
        assume "\<forall>i < unat n. \<forall>p \<in> set (apsCmdCompleteData (junk i)). p = IMG_NULL"
        then have "\<forall>q \<in> set (concat (map (\<lambda>j. apsCmdCompleteData (junk j)) [length ps..<unat n])). q = IMG_NULL" by auto
        from remove_registered [OF r(2) ok1 assms(1) dv cat this old] obtain s'' where
          s'': "PVRSRVRemoveCmdProcListKM dev n s' = Some (PVRSRV_OK, s'')" "blocks (q_os s'') = blocks (q_os s1) - {#a#}" "cc_data s'' = cc_data s1"
            "apsDeviceCommandData s'' = (apsDeviceCommandData s')(dev := None)" "psQueueList s'' = psQueueList s1" "q_log s'' = q_log s1" "sync_data s'' = sync_data s1"
          by blast
        then show "\<exists>s'. PVRSRVRegisterCmdProcListKM junk dev fns syncs n s = Some (PVRSRV_ERROR_OUT_OF_MEMORY, s') \<and>
            blocks (q_os s') = blocks (q_os s) \<and> cc_data s' = cc_data s \<and> apsDeviceCommandData s' = apsDeviceCommandData s \<and>
            psQueueList s' = psQueueList s \<and> q_log s' = q_log s \<and> sync_data s' = sync_data s"
          using run e r(5) a unset by (intro exI [of _ s'']) (simp add: s1_def)
        qed
      qed
    qed
  qed
qed

end
