(* ===== verification/Queue_Machine.thy ===== *)
theory Queue_Machine
  imports Queue_System
begin

text \<open>
  The command queues as a state machine, and the order the synchronisation objects impose. A step is one
  operation of the interface, or any action of the rest of the system that leaves the queues alone; the ghost
  \<open>sub\<close> collects what has been submitted to each queue. Every reachable state satisfies the invariant.
\<close>

section \<open>The state machine\<close>

inductive queue_reach :: "'w DRIVERS \<Rightarrow> (IMG_UINTPTR_T \<Rightarrow> PVRSRV_COMMAND list) \<Rightarrow> 'w Q_SYS_DATA \<Rightarrow> bool" for D where
  start: "psQueueList s = [] \<Longrightarrow> os_ok (q_os s) \<Longrightarrow> \<not> ui32Lock (sQProcessResource s) \<Longrightarrow> queue_reach D sub s"
| create: "queue_reach D sub s \<Longrightarrow> n \<noteq> 0 \<Longrightarrow> unat n \<le> 2 ^ 31 \<Longrightarrow> PVRSRVCreateCommandQueueKM pid n s = (e, p, s') \<Longrightarrow>
    queue_reach D (if e = PVRSRV_OK then sub(p := []) else sub) s'"
| destroy: "queue_reach D sub s \<Longrightarrow> PVRSRVDestroyCommandQueueKM (\<lambda>_ s. s) (Suc t) p s = Some (e, s') \<Longrightarrow> queue_reach D sub s'"
| refuse: "queue_reach D sub s \<Longrightarrow> length dsts = unat nd \<Longrightarrow> length srcs = unat ns \<Longrightarrow>
    56 + 16 * (unat nd + unat ns) + unat uData + 6 < 2 ^ 32 \<Longrightarrow>
    PVRSRVInsertCommandKM (\<lambda>_ s. s) t pid p dev ctype nd dsts ns srcs uData s = Some (e, a, s') \<Longrightarrow> e \<noteq> PVRSRV_OK \<Longrightarrow> queue_reach D sub s'"
| submit: "queue_reach D sub s \<Longrightarrow> length dsts = unat nd \<Longrightarrow> length srcs = unat ns \<Longrightarrow>
    56 + 16 * (unat nd + unat ns) + unat uData + 6 < 2 ^ 32 \<Longrightarrow>
    PVRSRVInsertCommandKM (\<lambda>_ s. s) t pid p dev ctype nd dsts ns srcs uData s = Some (PVRSRV_OK, a, s1) \<Longrightarrow>
    cmd_at p a s1 = Some c \<Longrightarrow> PVRSRVSubmitCommandKM p a s1 = Some (e, s') \<Longrightarrow> queue_reach D (sub(p := sub p @ [c])) s'"
| process: "queue_reach D sub s \<Longrightarrow> pend_fits sub s \<Longrightarrow> PVRSRVProcessQueues D (\<lambda>_ s. s) bFlush s = Some (e, s') \<Longrightarrow> queue_reach D sub s'"
| complete: "queue_reach D sub s \<Longrightarrow> PVRSRVCommandCompleteKM D ck b s = Some s' \<Longrightarrow> queue_reach D sub s'"
| environment: "queue_reach D sub s \<Longrightarrow> same_queues s s' \<Longrightarrow> (queues_live s \<longrightarrow> queues_live s') \<Longrightarrow>
    ui32Lock (sQProcessResource s') = ui32Lock (sQProcessResource s) \<Longrightarrow> queue_reach D sub s'"

definition queue_inv :: "(IMG_UINTPTR_T \<Rightarrow> PVRSRV_COMMAND list) \<Rightarrow> 'w Q_SYS_DATA \<Rightarrow> bool" where
  "queue_inv sub s \<longleftrightarrow> fifo sub s \<and> queues_live s \<and> \<not> ui32Lock (sQProcessResource s)"

lemma queue_mem_blocks: "queues_live s \<Longrightarrow> q \<in> set (psQueueList s) \<Longrightarrow> psQueueInfo q \<in># blocks (q_os s)"
  unfolding queues_live_def queue_mem_def
  by (metis (no_types, lifting) image_eqI in_image_mset mset_subset_eqD set_mset_mset union_iff mset_map)

lemma inv_create:
  assumes "queue_inv sub s" "n \<noteq> 0" "unat n \<le> 2 ^ 31" "PVRSRVCreateCommandQueueKM pid n s = (e, p, s')"
  shows "queue_inv (if e = PVRSRV_OK then sub(p := []) else sub) s'"
  using assms(4)
proof (cases rule: create_cases)
  case (ok buf)
  let ?q = "new_queue pid (NearestPower2 n) p buf"
  have q: "queue_ok [] ?q"
  proof (cases rule: NearestPower2_cases [of n])
    case (pow j)
    then show ?thesis using new_queue_ok [of j pid p buf] by simp
  qed (use assms(2,3) in auto)
  have np: "psQueueInfo r \<noteq> p" if "r \<in> set (psQueueList s)" for r
    using queue_mem_blocks [OF _ that] assms(1) ok(3) by (auto simp: queue_inv_def)
  have i: "fifo sub s" "queues_live s" using assms(1) by (auto simp: queue_inv_def)
  have "fifo (sub(p := [])) s'"
    using i(1) np q ok(2) by (auto simp: fifo_def ok(8,9) new_queue_def)
  moreover have "queues_live s'"
    using i(2) ok(6,7) by (simp add: queues_live_def ok(8) queue_mem_def new_queue_def)
  ultimately show ?thesis using ok(1,10) by (simp add: queue_inv_def)
next
  case oom
  have "psQueueList s' = psQueueList s" "q_log s' = q_log s" "sQProcessResource s' = sQProcessResource s"
    by (subst oom(5), simp)+
  then show ?thesis using assms(1) oom(1,3,4) by (simp add: queue_inv_def fifo_def queues_live_def)
next
  case busy
  then show ?thesis using assms(1) by (simp add: queue_inv_def)
qed

lemma filter_queue_mem:
  assumes "distinct (map psQueueInfo qs)" "q \<in> set qs"
  shows "queue_mem qs = queue_mem (filter (\<lambda>r. psQueueInfo r \<noteq> psQueueInfo q) qs) + {#psQueueInfo q, pvLinQueueKM q#}"
proof -
  obtain us vs where l: "qs = us @ q # vs" using assms(2) by (meson split_list)
  have "filter (\<lambda>r. psQueueInfo r \<noteq> psQueueInfo q) us = us" "filter (\<lambda>r. psQueueInfo r \<noteq> psQueueInfo q) vs = vs"
    using assms(1) l by (auto simp: filter_id_conv) (metis image_eqI)+
  then show ?thesis using l by (simp add: queue_mem_def)
qed

lemma mset_add_le_diff: "A + B \<subseteq># C \<Longrightarrow> A \<subseteq># C - (B :: 'a multiset)"
  by (simp add: subseteq_mset_def add_le_imp_le_diff)

lemma without_queue_inv:
  assumes "fifo sub s" "queues_live s" "q \<in> set (psQueueList s)"
  shows "fifo sub ((without_queue q s)\<lparr>sQProcessResource := r\<rparr>)" "queues_live ((without_queue q s)\<lparr>sQProcessResource := r\<rparr>)"
    "blocks (q_os (without_queue q s)) = blocks (q_os s) - {#psQueueInfo q, pvLinQueueKM q#}"
proof -
  have d: "distinct (map psQueueInfo (psQueueList s))" using assms(1) by (simp add: fifo_def)
  show "fifo sub ((without_queue q s)\<lparr>sQProcessResource := r\<rparr>)"
    using assms(1) by (auto simp: fifo_def without_queue_def free_queue_def distinct_map intro: inj_on_subset)
  show b: "blocks (q_os (without_queue q s)) = blocks (q_os s) - {#psQueueInfo q, pvLinQueueKM q#}"
    by (simp add: without_queue_def free_queue_def os_simps)
  have "queue_mem (filter (\<lambda>r. psQueueInfo r \<noteq> psQueueInfo q) (psQueueList s)) + {#psQueueInfo q, pvLinQueueKM q#} \<subseteq># blocks (q_os s)"
    using assms(2) filter_queue_mem [OF d assms(3)] by (simp add: queues_live_def)
  then have "queue_mem (filter (\<lambda>r. psQueueInfo r \<noteq> psQueueInfo q) (psQueueList s)) \<subseteq># blocks (q_os s) - {#psQueueInfo q, pvLinQueueKM q#}"
    by (rule mset_add_le_diff)
  then show "queues_live ((without_queue q s)\<lparr>sQProcessResource := r\<rparr>)"
    using assms(2) b OSFreeMem_os_ok by (simp add: queues_live_def without_queue_def free_queue_def)
qed

lemma inv_destroy:
  assumes "queue_inv sub s" "PVRSRVDestroyCommandQueueKM (\<lambda>_ s. s) (Suc t) p s = Some (e, s')"
  shows "queue_inv sub s'"
proof -
  have i: "fifo sub s" "queues_live s" "\<not> ui32Lock (sQProcessResource s)" using assms(1) by (auto simp: queue_inv_def)
  obtain q where q: "queue_at p s = Some q" using assms(2)
    by (cases "queue_at p s") (simp_all add: PVRSRVDestroyCommandQueueKM_def Let_def)
  show ?thesis
  proof (cases "ui32ReadOffset q = ui32WriteOffset q")
    case False
    then show ?thesis using destroy_not_drained [OF q] assms by simp
  next
    case True
    from destroy_drained(2) [OF _ _ q True i(3), where others = "\<lambda>_ s. s" and t = t] i(1)
    obtain r where r: "\<not> ui32Lock r" "s' = (without_queue q s)\<lparr>sQProcessResource := r\<rparr>"
      using assms(2) by (auto simp: fifo_def)
    have "q \<in> set (psQueueList s)" using queue_at_SomeD [OF q] by simp
    from without_queue_inv(1,2) [OF i(1,2) this, of r] show ?thesis using r by (simp add: queue_inv_def)
  qed
qed

lemma queue_space_wait_id:
  "queue_space_wait (\<lambda>_ s. s) p n t s = Some (b, s') \<Longrightarrow> s' = s"
  by (induction t) (auto split: bind_splits if_splits)

text \<open>What inserting leaves in the state when nobody interferes.\<close>

lemma insert_okD:
  assumes "PVRSRVInsertCommandKM (\<lambda>_ s. s) t pid p dev ctype nd dsts ns srcs uData s = Some (e, a, s')"
  obtains (no) "e \<noteq> PVRSRV_OK" "s' = s"
  | (yes) q c dst sd1 src sd2 where "e = PVRSRV_OK" "queue_at p s = Some q" "sample_syncs False (take (unat nd) dsts) (sync_data s) = (dst, sd1)"
      "sample_syncs True (take (unat ns) srcs) sd1 = (src, sd2)" "cmd_syncs c = dst @ src" "cmd_DstSyncCount c = nd"
      "s' = set_queue (q\<lparr>lin := lin_write (cmd_offset q a) c (lin q)\<rparr>) (s\<lparr>sync_data := sd2\<rparr>)"
      "cmd_at p a s' = Some c" "unat nd \<le> length dsts" "unat ns \<le> length srcs"
proof (cases "e = PVRSRV_OK")
  case False
  then show ?thesis using assms no
    by (auto simp: PVRSRVInsertCommandKM_def PVRSRVGetQueueSpaceKM_def Let_def dest!: queue_space_wait_id
      split: bind_splits if_splits prod.splits)
next
  case True
  obtain a0 s0 where g: "PVRSRVGetQueueSpaceKM (\<lambda>_ s. s) t p (cmd_size nd ns ((uData + 3) AND NOT 3)) s = Some (PVRSRV_OK, a0, s0)"
    using assms True by (auto simp: PVRSRVInsertCommandKM_def Let_def split: bind_splits if_splits)
  then have s0: "s0 = s" by (auto simp: PVRSRVGetQueueSpaceKM_def Let_def dest!: queue_space_wait_id split: bind_splits if_splits)
  obtain q where q: "queue_at p s = Some q" using assms g s0 True
    by (cases "queue_at p s") (simp_all add: PVRSRVInsertCommandKM_def Let_def)
  obtain dst sd1 src sd2 where smp: "sample_syncs False (take (unat nd) dsts) (sync_data s) = (dst, sd1)"
      "sample_syncs True (take (unat ns) srcs) sd1 = (src, sd2)" by (metis surj_pair)
  have len: "unat nd \<le> length dsts" "unat ns \<le> length srcs"
    using assms g q s0 True by (auto simp: PVRSRVInsertCommandKM_def Let_def not_less split: if_splits)
  have "\<exists>c. s' = set_queue (q\<lparr>lin := lin_write (cmd_offset q a) c (lin q)\<rparr>) (s\<lparr>sync_data := sd2\<rparr>) \<and> cmd_syncs c = dst @ src \<and>
      cmd_DstSyncCount c = nd"
    using assms g q s0 smp True len by (auto simp: PVRSRVInsertCommandKM_def Let_def split: if_splits intro!: exI)
  then obtain c where c: "cmd_syncs c = dst @ src" "cmd_DstSyncCount c = nd"
      "s' = set_queue (q\<lparr>lin := lin_write (cmd_offset q a) c (lin q)\<rparr>) (s\<lparr>sync_data := sd2\<rparr>)" by blast
  have qp: "psQueueInfo q = p" using queue_at_SomeD [OF q] by simp
  have "queue_at p s' = Some (q\<lparr>lin := lin_write (cmd_offset q a) c (lin q)\<rparr>)"
    unfolding c(3) using q qp by (intro queue_at_set_queue) (simp_all add: queue_at_def)
  then have "cmd_at p a s' = Some c" by (simp add: cmd_at_def cmd_offset_def lin_write_def)
  then show ?thesis using yes True q smp c len by blast
qed

lemma set_queue_live:
  assumes "queues_live s" "distinct (map psQueueInfo (psQueueList s))" "queue_at p s = Some r" "psQueueInfo q = p" "pvLinQueueKM q = pvLinQueueKM r"
  shows "queues_live (set_queue q s)"
  using assms(1) set_queue_mem [OF assms(2-5)] by (simp add: queues_live_def) (simp add: set_queue_def)

lemma inv_insert:
  assumes "queue_inv sub s" "length dsts = unat nd" "length srcs = unat ns" "56 + 16 * (unat nd + unat ns) + unat uData + 6 < 2 ^ 32"
    "PVRSRVInsertCommandKM (\<lambda>_ s. s) t pid p dev ctype nd dsts ns srcs uData s = Some (e, a, s1)"
  shows "queue_inv sub s1"
    "e = PVRSRV_OK \<Longrightarrow> cmd_at p a s1 = Some c \<Longrightarrow> PVRSRVSubmitCommandKM p a s1 = Some (e2, s2) \<Longrightarrow> queue_inv (sub(p := sub p @ [c])) s2"
proof -
  have i: "fifo sub s" "queues_live s" "\<not> ui32Lock (sQProcessResource s)" "distinct (map psQueueInfo (psQueueList s))"
    using assms(1) by (auto simp: queue_inv_def fifo_def)
  show inv1: "queue_inv sub s1"
    using assms(5)
  proof (cases rule: insert_okD)
    case no
    then show ?thesis using assms(1) by simp
  next
    case (yes q c' dst sd1 src sd2)
    have o: "others_fifo sub p (\<lambda>_ s. s)" by (simp add: others_fifo_def)
    have "fifo sub s1" using insert_submit_fifo [OF o i(1) _ assms(2-4), of t pid dev ctype] yes(2) assms(5) by auto
    moreover have "queues_live s1" unfolding yes(7)
      using i(2,4) yes(2) queue_at_SomeD [OF yes(2)] by (intro set_queue_live [where p = p and r = q]) (simp_all add: queues_live_def queue_at_def)
    moreover have "sQProcessResource s1 = sQProcessResource s" unfolding yes(7) by (simp add: set_queue_def)
    ultimately show ?thesis using i(3) by (simp add: queue_inv_def)
  qed
  assume e: "e = PVRSRV_OK" and c: "cmd_at p a s1 = Some c" and sm: "PVRSRVSubmitCommandKM p a s1 = Some (e2, s2)"
  have o: "others_fifo sub p (\<lambda>_ s. s)" by (simp add: others_fifo_def)
  have q: "queue_at p s \<noteq> None" using assms(5) e by (cases rule: insert_okD) auto
  have f: "fifo (sub(p := sub p @ [c])) s2"
    using insert_submit_fifo [OF o i(1) q assms(2-4), of t pid dev ctype] assms(5) e c sm by auto
  obtain q1 c1 where q1: "queue_at p s1 = Some q1" "lin q1 (cmd_offset q1 a) = Some c1" using sm
    by (auto simp: PVRSRVSubmitCommandKM_def split: bind_splits)
  obtain q2 where q2: "s2 = set_queue q2 s1" "psQueueInfo q2 = psQueueInfo q1" "pvLinQueueKM q2 = pvLinQueueKM q1"
    using sm q1 by (auto simp: PVRSRVSubmitCommandKM_def Let_def UPDATE_QUEUE_WOFF_def split: if_splits)
  have "queues_live s2" unfolding q2(1) using inv1 q1(1) q2 queue_at_SomeD [OF q1(1)]
    by (intro set_queue_live [where p = p and r = q1]) (auto simp: queue_inv_def fifo_def)
  moreover have "sQProcessResource s2 = sQProcessResource s1" by (simp add: q2(1) set_queue_def)
  ultimately show "queue_inv (sub(p := sub p @ [c])) s2" using f inv1 by (simp add: queue_inv_def)
qed

lemma inv_process:
  assumes "drivers_ok D" "queue_inv sub s" "pend_fits sub s" "PVRSRVProcessQueues D (\<lambda>_ s. s) bFlush s = Some (e, s')"
  shows "queue_inv sub s'"
  using process_queues_ok [OF assms(1) _ assms(3), of "\<lambda>_ s. s" 0 bFlush] assms(2,4) by (auto simp: queue_inv_def)

lemma inv_env:
  "queue_inv sub s \<Longrightarrow> same_queues s s' \<Longrightarrow> queues_live s \<longrightarrow> queues_live s' \<Longrightarrow>
    ui32Lock (sQProcessResource s') = ui32Lock (sQProcessResource s) \<Longrightarrow> queue_inv sub s'"
  by (simp add: queue_inv_def same_queues_def fifo_def)

lemma inv_complete:
  assumes "drivers_ok D" "queue_inv sub s" "PVRSRVCommandCompleteKM D ck b s = Some s'"
  shows "queue_inv sub s'"
proof -
  obtain cc dst src where "cc_data s ck = Some cc" "cc_objs 0 (cc_DstSyncCount cc) cc = Some dst" "cc_objs (cc_psSrcSync cc) (cc_SrcSyncCount cc) cc = Some src"
    using assms(3) by (auto simp: PVRSRVCommandCompleteKM_def split: bind_splits)
  from command_complete_ok [OF assms(1) this, of b] have "same_frame s s'" "same_queues s s'" using assms(3) by auto
  then show ?thesis using inv_env [OF assms(2)] by (simp add: same_frame_def)
qed

lemma queue_reach_inv: "queue_reach D sub s \<Longrightarrow> drivers_ok D \<Longrightarrow> queue_inv sub s"
proof (induction rule: queue_reach.induct)
  case (start s sub)
  then show ?case by (simp add: queue_inv_def fifo_def queues_live_def queue_mem_def)
next
  case (create sub s n pid e p s')
  then show ?case by (intro inv_create) auto
next
  case (destroy sub s t p e s')
  then show ?case using inv_destroy by blast
next
  case (refuse sub s dsts nd srcs ns uData t pid p dev ctype e a s')
  then show ?case using inv_insert(1) by blast
next
  case (submit sub s dsts nd srcs ns uData t pid p dev ctype a s1 c e s')
  show ?case by (rule inv_insert(2) [OF submit.IH [OF submit.prems] submit.hyps(2-5) refl submit.hyps(6,7)])
next
  case (process sub s bFlush e s')
  then show ?case using inv_process by blast
next
  case (complete sub s ck b s')
  then show ?case using inv_complete by blast
next
  case (environment sub s s')
  then show ?case using inv_env by blast
qed

end
