(* ===== verification/Queue_Properties.thy ===== *)
theory Queue_Properties
  imports Queue_Machine
begin

text \<open>
  The properties of the command queues (\<open>queue.c\<close>), with a small system on which each is exercised: one queue
  of 1024 bytes, and a device with one command processor that accepts every command.
\<close>

section \<open>An example system\<close>

definition ex_qdata :: PVRSRV_SYNC_DATA where
  "ex_qdata = \<lparr>ui32WriteOpsPending = 5, ui32WriteOpsComplete = 5, ui32ReadOpsPending = 2, ui32ReadOpsComplete = 2\<rparr>"

definition ex_qs0 :: "unit Q_SYS_DATA" where
  "ex_qs0 = \<lparr>psQueueList = [], sQProcessResource = OSCreateResource, apsDeviceCommandData = (\<lambda>_. None), cc_data = (\<lambda>_. None),
     sync_data = (\<lambda>_. ex_qdata), q_psDeviceNodeList = [], q_misr = 0,
     q_os = \<lparr>os_allocs = [0x1000, 0x2000, 0x3000, 0x4000, 0x5000], os_live = [0x100]\<rparr>, q_world = (), q_log = (\<lambda>_. [])\<rparr>"

definition ex_drivers :: "unit DRIVERS" where
  "ex_drivers = \<lparr>dr_CmdProc = (\<lambda>f ck n d s. (True, s)), dr_DeviceCommandComplete = (\<lambda>f n s. s), dr_SetDCState = (\<lambda>f h x s. s)\<rparr>"

definition ex_junk_entry :: "nat \<Rightarrow> DEVICE_COMMAND_DATA" where
  "ex_junk_entry i = \<lparr>pfnCmdProc = 77, apsCmdCompleteData = [0x7777], ui32CCBOffset = 77\<rparr>"

definition ex_qs1 :: "unit Q_SYS_DATA" where
  "ex_qs1 = snd (the (PVRSRVRegisterCmdProcListKM ex_junk_entry 0 [0x99] [(2, 2)] 1 ex_qs0))"

definition ex_qs2 :: "unit Q_SYS_DATA" where
  "ex_qs2 = snd (snd (PVRSRVCreateCommandQueueKM 42 1000 ex_qs1))"

definition ex_ins :: "(PVRSRV_ERROR \<times> IMG_UINTPTR_T \<times> unit Q_SYS_DATA) option" where
  "ex_ins = PVRSRVInsertCommandKM (\<lambda>_ s. s) 1 42 0x3000 0 0 1 [0x500] 0 [] 30 ex_qs2"

definition ex_qs3 :: "unit Q_SYS_DATA" where
  "ex_qs3 = snd (snd (the ex_ins))"

definition ex_qs4 :: "unit Q_SYS_DATA" where
  "ex_qs4 = snd (the (PVRSRVSubmitCommandKM 0x3000 0x4000 ex_qs3))"

definition ex_cmd :: PVRSRV_COMMAND where
  "ex_cmd = \<lparr>uCmdSize = 104, cmd_DevIndex = 0, CommandType = 0, cmd_DstSyncCount = 1, cmd_SrcSyncCount = 0,
     cmd_psDstSync = 0x4038, cmd_psSrcSync = 0x4048, uDataSize = 32, cmd_ProcessID = 42, cmd_pvData = 0x4048,
     cmd_syncs = [\<lparr>psKernelSyncInfoKM = 0x500, so_WriteOpsPending = 5, so_ReadOpsPending = 2\<rparr>]\<rparr>"

lemma ex_drivers_ok: "drivers_ok ex_drivers"
  by (simp add: drivers_ok_def ex_drivers_def)

lemma ex_queue_alloc: "OSAllocMem n \<lparr>os_allocs = a # as, os_live = l\<rparr> =
  (if n > PAGE_SIZE then OSAllocMem n \<lparr>os_allocs = a # as, os_live = l\<rparr>
   else if a = IMG_NULL \<or> a \<in> set l then (PVRSRV_ERROR_OUT_OF_MEMORY, IMG_NULL, \<lparr>os_allocs = as, os_live = l\<rparr>)
   else (PVRSRV_OK, a, \<lparr>os_allocs = as, os_live = a # l\<rparr>))"
  by (simp add: OSAllocMem_def kmalloc_def)

lemma ex_qs1_eq:
  "PVRSRVRegisterCmdProcListKM ex_junk_entry 0 [0x99] [(2, 2)] 1 ex_qs0 = Some (PVRSRV_OK, ex_qs1)"
  "ex_qs1 = ex_qs0\<lparr>apsDeviceCommandData := (\<lambda>_. None)(0 \<mapsto> (0x1000, [\<lparr>pfnCmdProc = 0x99, apsCmdCompleteData = [0x2000], ui32CCBOffset = 0\<rparr>])),
     cc_data := (\<lambda>_. None)(0x2000 \<mapsto> \<lparr>bInUse = False, cc_DstSyncCount = 0, cc_SrcSyncCount = 0, cc_psSrcSync = 2, cc_AllocSize = 104,
       cc_syncs = replicate 4 zero_sync_object\<rparr>),
     q_os := \<lparr>os_allocs = [0x3000, 0x4000, 0x5000], os_live = [0x2000, 0x1000, 0x100]\<rparr>\<rparr>"
  unfolding ex_qs1_def
  by (simp_all add: PVRSRVRegisterCmdProcListKM_def ex_qs0_def Let_def queue_consts OSAllocMem_def kmalloc_def PAGE_SIZE_def
    set_entry_def set_cc_def ex_junk_entry_def fun_eq_iff)

lemma ex_power2: "NearestPower2 1000 = 1024"
  using NearestPower2_pow [of 1000 10] by simp

definition ex_queue :: PVRSRV_QUEUE_INFO where
  "ex_queue = \<lparr>psQueueInfo = 0x3000, pvLinQueueKM = 0x4000, pvLinQueueUM = 0x4000, ui32ReadOffset = 0, ui32WriteOffset = 0,
     ui32QueueSize = 1024, q_ProcessID = 42, lin_size = 2048, lin = Map.empty\<rparr>"

lemma ex_qs2_eq:
  "PVRSRVCreateCommandQueueKM 42 1000 ex_qs1 = (PVRSRV_OK, 0x3000, ex_qs2)"
  "ex_qs2 = ex_qs1\<lparr>psQueueList := [ex_queue], sQProcessResource := \<lparr>ui32Lock = False, ui32ID = 0\<rparr>,
     q_os := \<lparr>os_allocs = [0x5000], os_live = [0x4000, 0x3000, 0x2000, 0x1000, 0x100]\<rparr>\<rparr>"
  unfolding ex_qs2_def ex_qs1_eq(2)
  by (simp_all add: PVRSRVCreateCommandQueueKM_def ex_power2 ex_qs0_def ex_queue_def Let_def PVRSRV_MAX_CMD_SIZE_def sizeof_PVRSRV_QUEUE_INFO_def
    OSAllocMem_def kmalloc_def PAGE_SIZE_def OSCreateResource_def OSLockResource_def OSUnlockResource_def fun_eq_iff)

lemma ex_space: "PVRSRVGetQueueSpaceKM (\<lambda>_ s. s) 1 0x3000 104 ex_qs2 = Some (PVRSRV_OK, 0x4000, ex_qs2)"
  by (simp add: PVRSRVGetQueueSpaceKM_def ex_qs2_eq(2) ex_queue_def queue_at_def GET_SPACE_IN_CMDQ_def PVRSRV_MAX_CMD_SIZE_def)

lemma ex_lin: "lin_write 0 ex_cmd Map.empty = [0 \<mapsto> ex_cmd]"
  by (rule ext) (simp add: lin_write_def)

lemma ex_qs3_eq:
  "ex_ins = Some (PVRSRV_OK, 0x4000, ex_qs3)"
  "ex_qs3 = ex_qs2\<lparr>psQueueList := [ex_queue\<lparr>lin := [0 \<mapsto> ex_cmd]\<rparr>],
     sync_data := (\<lambda>_. ex_qdata)(0x500 := ex_qdata\<lparr>ui32WriteOpsPending := 6\<rparr>)\<rparr>"
proof -
  have q: "queue_at 0x3000 ex_qs2 = Some ex_queue" by (simp add: queue_at_def ex_qs2_eq(2) ex_queue_def)
  have sd: "sync_data ex_qs2 = (\<lambda>_. ex_qdata)" by (simp add: ex_qs2_eq(2) ex_qs1_eq(2) ex_qs0_def)
  have smp: "sample_syncs False [0x500] (\<lambda>_. ex_qdata) = ([\<lparr>psKernelSyncInfoKM = 0x500, so_WriteOpsPending = 5, so_ReadOpsPending = 2\<rparr>],
      (\<lambda>_. ex_qdata)(0x500 := ex_qdata\<lparr>ui32WriteOpsPending := 6\<rparr>))"
    by (simp add: PVRSRVGetWriteOpsPending_def PVRSRVGetReadOpsPending_def ex_qdata_def Let_def)
  have smp2: "sample_syncs False [0x500] (sync_data ex_qs2) = ([\<lparr>psKernelSyncInfoKM = 0x500, so_WriteOpsPending = 5, so_ReadOpsPending = 2\<rparr>],
      (\<lambda>_. ex_qdata)(0x500 := ex_qdata\<lparr>ui32WriteOpsPending := 6\<rparr>))"
    unfolding sd by (rule smp)
  have sz2: "cmd_size 1 0 32 = 104" by (simp add: cmd_size_def queue_consts)
  have sq: "set_queue (ex_queue\<lparr>lin := [0 \<mapsto> ex_cmd]\<rparr>) (ex_qs2\<lparr>sync_data := sd\<rparr>) = ex_qs2\<lparr>psQueueList := [ex_queue\<lparr>lin := [0 \<mapsto> ex_cmd]\<rparr>], sync_data := sd\<rparr>" for sd
    by (simp add: set_queue_def ex_qs2_eq(2) ex_queue_def)
  have sz: "cmd_size 1 0 ((30 + 3) AND NOT 3) = 104" by (simp add: cmd_size_def queue_consts)
  have a: "pvLinQueueKM ex_queue + ucast (ui32WriteOffset ex_queue) = 0x4000" "unat (ui32WriteOffset ex_queue) = 0" "lin ex_queue = Map.empty"
    by (simp_all add: ex_queue_def)
  have sp: "PVRSRVGetQueueSpaceKM (\<lambda>_ s. s) 1 0x3000 (cmd_size 1 0 ((30 + 3) AND NOT 3)) ex_qs2 =
      Some (PVRSRV_OK, pvLinQueueKM ex_queue + ucast (ui32WriteOffset ex_queue), ex_qs2)"
    unfolding sz a(1) by (rule ex_space)
  have cmd: "new_cmd ex_queue 42 0 0 1 0 30 ([\<lparr>psKernelSyncInfoKM = 0x500, so_WriteOpsPending = 5, so_ReadOpsPending = 2\<rparr>] @ []) = ex_cmd"
    by (simp add: new_cmd_def ex_cmd_def ex_queue_def Let_def queue_consts cmd_size_def)
  have qok: "queue_ok [] ex_queue" using new_queue_ok [of 10 42 "0x3000" "0x4000"]
    by (simp add: ex_queue_def new_queue_def PVRSRV_MAX_CMD_SIZE_def)
  have "ex_ins = Some (PVRSRV_OK, 0x4000, set_queue (ex_queue\<lparr>lin := lin_write 0 ex_cmd Map.empty\<rparr>)
      (ex_qs2\<lparr>sync_data := (\<lambda>_. ex_qdata)(0x500 := ex_qdata\<lparr>ui32WriteOpsPending := 6\<rparr>)\<rparr>))"
    unfolding ex_ins_def cmd [symmetric] a(1) [symmetric] a(2) [symmetric] a(3) [symmetric]
    by (rule insert_step [OF q qok sp _ _ _ _ smp2]) (simp_all add: sz2 PVRSRV_MAX_CMD_SIZE_def)
  then have r: "ex_ins = Some (PVRSRV_OK, 0x4000, ex_qs2\<lparr>psQueueList := [ex_queue\<lparr>lin := [0 \<mapsto> ex_cmd]\<rparr>],
      sync_data := (\<lambda>_. ex_qdata)(0x500 := ex_qdata\<lparr>ui32WriteOpsPending := 6\<rparr>)\<rparr>)"
    unfolding ex_lin sq .
  show "ex_ins = Some (PVRSRV_OK, 0x4000, ex_qs3)" "ex_qs3 = ex_qs2\<lparr>psQueueList := [ex_queue\<lparr>lin := [0 \<mapsto> ex_cmd]\<rparr>],
     sync_data := (\<lambda>_. ex_qdata)(0x500 := ex_qdata\<lparr>ui32WriteOpsPending := 6\<rparr>)\<rparr>"
    unfolding ex_qs3_def r by simp_all
qed

lemma ex_qs4_eq:
  "PVRSRVSubmitCommandKM 0x3000 0x4000 ex_qs3 = Some (PVRSRV_OK, ex_qs4)"
  "ex_qs4 = ex_qs3\<lparr>psQueueList := [ex_queue\<lparr>lin := [0 \<mapsto> ex_cmd], ui32WriteOffset := 104\<rparr>]\<rparr>"
  unfolding ex_qs4_def ex_qs3_eq(2) ex_qs2_eq(2) ex_qs1_eq(2)
  by (simp_all add: PVRSRVSubmitCommandKM_def ex_qs0_def ex_queue_def ex_cmd_def Let_def queue_consts queue_at_def cmd_offset_def
    set_queue_def UPDATE_QUEUE_WOFF_def)

lemma ex_reach1: "queue_reach ex_drivers (\<lambda>_. []) ex_qs1"
  by (rule queue_reach.start) (simp_all add: ex_qs1_eq(2) ex_qs0_def os_ok_def OSCreateResource_def)

lemma ex_reach2: "queue_reach ex_drivers (\<lambda>_. []) ex_qs2"
proof -
  have "queue_reach ex_drivers (if PVRSRV_OK = PVRSRV_OK then (\<lambda>_. [])(0x3000 := []) else (\<lambda>_. [])) ex_qs2"
    by (rule queue_reach.create [OF ex_reach1 _ _ ex_qs2_eq(1)]) simp_all
  then show ?thesis by (simp add: fun_upd_def)
qed

definition ex_sub :: "IMG_UINTPTR_T \<Rightarrow> PVRSRV_COMMAND list" where
  "ex_sub = (\<lambda>_. [])(0x3000 := [ex_cmd])"

lemma ex_at3: "cmd_at 0x3000 0x4000 ex_qs3 = Some ex_cmd"
  by (simp add: cmd_at_def queue_at_def ex_qs3_eq(2) ex_queue_def cmd_offset_def)

lemma ex_reach4: "queue_reach ex_drivers ex_sub ex_qs4"
proof -
  have "queue_reach ex_drivers ((\<lambda>_. [])(0x3000 := [] @ [ex_cmd])) ex_qs4"
    by (rule queue_reach.submit [OF ex_reach2 _ _ _ ex_qs3_eq(1) [unfolded ex_ins_def] ex_at3 ex_qs4_eq(1)]) simp_all
  then show ?thesis by (simp add: ex_sub_def)
qed

lemma ex_inv: "queue_inv (\<lambda>_. []) ex_qs2" "queue_inv ex_sub ex_qs4"
  by (rule queue_reach_inv [OF ex_reach2 ex_drivers_ok]) (rule queue_reach_inv [OF ex_reach4 ex_drivers_ok])

lemma ex_fits: "cmd_fits ex_qs4 ex_cmd"
  by (simp add: cmd_fits_def dev_entry_def cc_shape_def ex_qs4_eq(2) ex_qs3_eq(2) ex_qs2_eq(2) ex_qs1_eq(2) ex_cmd_def)

lemma ex_pend_fits: "pend_fits ex_sub ex_qs4"
  using ex_fits by (simp add: pend_fits_def ex_qs4_eq(2) ex_queue_def ex_sub_def ex_qs3_eq(2) ex_qs2_eq(2) ex_qs1_eq(2) ex_qs0_def)

lemma ex_at2: "queue_at 0x3000 ex_qs2 = Some ex_queue"
  by (simp add: queue_at_def ex_qs2_eq(2) ex_queue_def)

section \<open>Queues as lists of commands\<close>

text \<open>C32: Inserting a command waits until the ring has room for it and stores it without touching a pending command; submitting it puts it
  behind the pending ones, with the device, type, synchronisation objects and data room asked for. When the command exceeds the
  largest size or no room appears, the queue is as before and the error says which.\<close>

theorem queue_insert_submit:
  assumes "others_fifo sub p others" "fifo sub s" "queue_at p s \<noteq> None" "length dsts = unat nd" "length srcs = unat ns"
    "56 + 16 * (unat nd + unat ns) + unat uData + 6 < 2 ^ 32"
  shows "\<exists>e a s1. PVRSRVInsertCommandKM others turns pid p dev ctype nd dsts ns srcs uData s = Some (e, a, s1) \<and>
    fifo sub s1 \<and> queue_at p s1 \<noteq> None \<and>
    (if e = PVRSRV_OK
     then \<exists>c s2. PVRSRVSubmitCommandKM p a s1 = Some (PVRSRV_OK, s2) \<and> fifo (sub(p := sub p @ [c])) s2 \<and>
       cmd_ok a c \<and> cmd_at p a s1 = Some c \<and> cmd_DevIndex c = dev \<and> CommandType c = ucast ctype \<and>
       cmd_DstSyncCount c = nd \<and> cmd_SrcSyncCount c = ns \<and>
       map psKernelSyncInfoKM (cmd_syncs c) = dsts @ srcs \<and> unat uData \<le> unat (uDataSize c) \<and> cmd_ProcessID c = pid
     else e = (if 1024 < unat (cmd_size nd ns ((uData + 3) AND NOT 3)) then PVRSRV_ERROR_CMD_TOO_BIG
               else PVRSRV_ERROR_CANNOT_GET_QUEUE_SPACE))"
  by (rule insert_submit_fifo [OF assms])

theorem queue_insert_submit_witness:
  "\<exists>e a s1. PVRSRVInsertCommandKM (\<lambda>_ s. s) 1 42 0x3000 0 0 1 [0x500] 0 [] 30 ex_qs2 = Some (e, a, s1) \<and> fifo (\<lambda>_. []) s1"
  using queue_insert_submit [of "\<lambda>_. []" "0x3000" "\<lambda>_ s. s" ex_qs2 "[0x500]" 1 "[]" 0 30 1 42 0 0] ex_inv(1) ex_at2
  by (auto simp: others_fifo_def queue_inv_def)

text \<open>C33: Processing the queues ends as soon as the other threads have released their lock, and gives the lock up. In between it offers the pending
  commands to their drivers: the queues in the order of their list, the commands of a queue in the order in which they were submitted, from the first one
  that was never handed over, each in the state the one before it left. A command that is taken leaves its queue; the first one that is refused
  ends the work on its queue and stays the first there. Nothing else changes the queues, and the log of commands handed over only grows.\<close>

theorem queue_process_all:
  assumes "drivers_ok D" "fifo sub s" "pend_fits sub s" "freed_after others 0 t s"
    "\<And>t s. fifo sub s \<and> pend_fits sub s \<Longrightarrow> fifo sub (others t s) \<and> pend_fits sub (others t s)"
  shows "\<exists>s1 s2 s3 s'. process_lock others 0 s = Some s1 \<and> (\<not> ui32Lock (sQProcessResource s) \<longrightarrow> same_queues s s1) \<and>
    (if bFlush then PVRSRVSetDCState D DC_STATE_FLUSH_COMMANDS s1 else Some s1) = Some s2 \<and> same_queues s1 s2 \<and>
    hands_over_list sub D bFlush (map psQueueInfo (psQueueList s2)) s2 s3 \<and> same_queues s3 s' \<and>
    PVRSRVProcessQueues D others bFlush s = Some (PVRSRV_OK, s') \<and> fifo sub s' \<and> \<not> ui32Lock (sQProcessResource s') \<and>
    (\<not> ui32Lock (sQProcessResource s) \<longrightarrow> (\<forall>r. prefix (q_log s r) (q_log s' r)))"
  using process_queues_ok [OF assms] by blast

theorem queue_process_all_witness:
  "\<exists>s'. PVRSRVProcessQueues ex_drivers (\<lambda>_ s. s) False ex_qs4 = Some (PVRSRV_OK, s') \<and> fifo ex_sub s'"
  using queue_process_all [OF ex_drivers_ok, of ex_sub ex_qs4 "\<lambda>_ s. s" 0 False] ex_inv(2) ex_pend_fits by (auto simp: queue_inv_def)

lemma copy_objs_content:
  "copy_objs i xs a = Some b \<Longrightarrow> length b = length a \<and> take i b = take i a \<and> take (length xs) (drop i b) = xs \<and> (xs \<noteq> [] \<longrightarrow> i + length xs \<le> length a)"
proof (induction i xs a rule: copy_objs.induct)
  case (2 i x xs a)
  then have i: "i < length a" and r: "copy_objs (Suc i) xs (a[i := x]) = Some b" by (auto split: if_splits)
  have IH: "length b = length a" "take (Suc i) b = take (Suc i) (a[i := x])" "take (length xs) (drop (Suc i) b) = xs"
    "xs \<noteq> [] \<longrightarrow> Suc i + length xs \<le> length a" using "2.IH" [OF i r] by auto
  have "b ! i = x" using IH(2) i by (metis lessI nth_list_update_eq nth_take)
  moreover have "drop i b = b ! i # drop (Suc i) b" using i IH(1) by (simp add: Cons_nth_drop_Suc)
  moreover have "take i b = take i a" using IH(2) by (metis le_SucI min_def order_refl take_take take_update_cancel)
  ultimately show ?case using IH i by (cases xs) auto
qed simp

text \<open>The driver's view of a dispatched command: its objects are found through the cookie's two pointers.\<close>

definition carries :: "COMMAND_COMPLETE_DATA \<Rightarrow> PVRSRV_COMMAND \<Rightarrow> bool" where
  "carries cc c \<longleftrightarrow> bInUse cc \<and> cc_DstSyncCount cc = cmd_DstSyncCount c \<and> cc_SrcSyncCount cc = cmd_SrcSyncCount c \<and>
     cc_objs (cc_psSrcSync cc) (cc_SrcSyncCount cc) cc = Some (drop (unat (cmd_DstSyncCount c)) (cmd_syncs c)) \<and>
     (unat (cmd_DstSyncCount c) \<le> cc_psSrcSync cc \<longrightarrow>
        cc_objs 0 (cc_DstSyncCount cc) cc = Some (take (unat (cmd_DstSyncCount c)) (cmd_syncs c)))"

lemma filled_carries:
  assumes "cmd_ok a c" "copy_objs 0 (take (unat (cmd_DstSyncCount c)) (cmd_syncs c)) (cc_syncs cc) = Some a1"
    "copy_objs (cc_psSrcSync cc) (drop (unat (cmd_DstSyncCount c)) (cmd_syncs c)) a1 = Some a2"
  shows "carries (filled c cc a2) c"
proof -
  let ?nd = "unat (cmd_DstSyncCount c)" and ?ns = "unat (cmd_SrcSyncCount c)"
  have l: "length (cmd_syncs c) = ?nd + ?ns" using assms(1) by (simp add: cmd_ok_def)
  note d = copy_objs_content [OF assms(2)] and e = copy_objs_content [OF assms(3)]
  have "cc_objs (cc_psSrcSync cc) (cmd_SrcSyncCount c) (filled c cc a2) = Some (drop ?nd (cmd_syncs c))"
  proof (cases "cmd_SrcSyncCount c = 0")
    case True
    then show ?thesis using l by (simp add: cc_objs_def)
  next
    case False
    then have "0 < ?ns" by (simp add: unat_gt_0)
    then have "drop ?nd (cmd_syncs c) \<noteq> []" using l by simp
    then show ?thesis using e l False by (auto simp: cc_objs_def filled_def)
  qed
  moreover have "cc_objs 0 (cmd_DstSyncCount c) (filled c cc a2) = Some (take ?nd (cmd_syncs c))" if s: "?nd \<le> cc_psSrcSync cc"
  proof (cases "cmd_DstSyncCount c = 0")
    case True
    then show ?thesis by (simp add: cc_objs_def)
  next
    case False
    then have "0 < ?nd" by (simp add: unat_gt_0)
    then have "take ?nd (cmd_syncs c) \<noteq> []" using l by auto
    then have "?nd \<le> length a2" "take ?nd a1 = take ?nd (cmd_syncs c)" using d e l by auto
    moreover have "take ?nd a2 = take ?nd a1" using e s by (metis min.absorb1 take_take)
    ultimately show ?thesis using False by (simp add: cc_objs_def filled_def)
  qed
  ultimately show ?thesis by (simp add: carries_def filled_def)
qed

text \<open>C34: A command is handed to its driver exactly when the operations it depends on are complete (or, in a flush, stale), its device
  exists and the cookie of its type is free; otherwise it is refused with the error of the first failing test and nothing changes. The
  driver is called once with the cookie, which carries the command's objects; when it declines, the cookie is free again.\<close>

theorem queue_process_command:
  assumes "drivers_ok D" "cmd_at p a s = Some c" "cmd_ok a c" "cmd_fits s c"
  shows "(\<not> deps_met bFlush (sync_data s) c \<longrightarrow> PVRSRVProcessCommand D p a bFlush s = Some (PVRSRV_ERROR_FAILED_DEPENDENCIES, s)) \<and>
    (deps_met bFlush (sync_data s) c \<and> \<not> cmd_DevIndex c < SYS_DEVICE_COUNT \<longrightarrow>
      PVRSRVProcessCommand D p a bFlush s = Some (PVRSRV_ERROR_INVALID_PARAMS, s)) \<and>
    (deps_met bFlush (sync_data s) c \<and> cmd_DevIndex c < SYS_DEVICE_COUNT \<and> cookie_busy c s \<longrightarrow>
      PVRSRVProcessCommand D p a bFlush s = Some (PVRSRV_ERROR_FAILED_DEPENDENCIES, s)) \<and>
    (deps_met bFlush (sync_data s) c \<and> cmd_DevIndex c < SYS_DEVICE_COUNT \<and> \<not> cookie_busy c s \<longrightarrow>
      (\<exists>b es d ck cc. dev_entry c s = Some (b, es, d) \<and> cookie_of c s = Some ck \<and> carries cc c \<and>
        PVRSRVProcessCommand D p a bFlush s =
          Some (after_dispatch p ck c (dr_CmdProc D (pfnCmdProc d) ck (uDataSize c) (cmd_pvData c) (set_cc ck cc s)))))"
proof (intro conjI impI; (elim conjE)?)
  assume go: "deps_met bFlush (sync_data s) c" "cmd_DevIndex c < SYS_DEVICE_COUNT" "\<not> cookie_busy c s"
  obtain b es d ck cc a1 a2 where x: "dev_entry c s = Some (b, es, d)" "apsCmdCompleteData d = [ck]" "ui32CCBOffset d = 0"
    "cc_data s ck = Some cc" "copy_objs 0 (take (unat (cmd_DstSyncCount c)) (cmd_syncs c)) (cc_syncs cc) = Some a1"
    "copy_objs (cc_psSrcSync cc) (drop (unat (cmd_DstSyncCount c)) (cmd_syncs c)) a1 = Some a2" "length a2 = length (cc_syncs cc)"
    "cookie_busy c s = bInUse cc" "cookie_of c s = Some ck"
    by (rule cmd_fitsE [OF assms(4) go(2) assms(3)])
  from process_dispatch [OF assms(1-3) go(1,2) x(1-4) _ x(5-7)] x(8) go(3)
  have "PVRSRVProcessCommand D p a bFlush s =
      Some (after_dispatch p ck c (dr_CmdProc D (pfnCmdProc d) ck (uDataSize c) (cmd_pvData c) (set_cc ck (filled c cc a2) s)))" by simp
  then show "\<exists>b es d ck cc. dev_entry c s = Some (b, es, d) \<and> cookie_of c s = Some ck \<and> carries cc c \<and>
        PVRSRVProcessCommand D p a bFlush s =
          Some (after_dispatch p ck c (dr_CmdProc D (pfnCmdProc d) ck (uDataSize c) (cmd_pvData c) (set_cc ck cc s)))"
    using x(1,9) filled_carries [OF assms(3) x(5,6)] by blast
qed (use process_refused [OF assms(2,3)] in auto)

theorem queue_process_command_witness:
  "\<exists>b es d ck cc. dev_entry ex_cmd ex_qs4 = Some (b, es, d) \<and> cookie_of ex_cmd ex_qs4 = Some ck \<and> carries cc ex_cmd \<and>
     PVRSRVProcessCommand ex_drivers 0x3000 0x4000 False ex_qs4 =
       Some (after_dispatch 0x3000 ck ex_cmd (dr_CmdProc ex_drivers (pfnCmdProc d) ck (uDataSize ex_cmd) (cmd_pvData ex_cmd) (set_cc ck cc ex_qs4)))"
proof -
  have c: "cmd_at 0x3000 0x4000 ex_qs4 = Some ex_cmd" by (simp add: cmd_at_def queue_at_def ex_qs4_eq(2) ex_queue_def cmd_offset_def)
  have k: "cmd_ok 0x4000 ex_cmd" by (simp add: cmd_ok_def ex_cmd_def cmd_bytes_def queue_consts)
  have r: "deps_met False (sync_data ex_qs4) ex_cmd"
    by (simp add: deps_met_def obj_ready_def ex_cmd_def ex_qs4_eq(2) ex_qs3_eq(2) ex_qdata_def Let_def)
  have d: "cmd_DevIndex ex_cmd < SYS_DEVICE_COUNT" by (simp add: ex_cmd_def SYS_DEVICE_COUNT_def)
  have b: "\<not> cookie_busy ex_cmd ex_qs4"
    by (simp add: cookie_busy_def cookie_of_def dev_entry_def next_cookie_def ex_cmd_def ex_qs4_eq(2) ex_qs3_eq(2) ex_qs2_eq(2) ex_qs1_eq(2))
  show ?thesis using queue_process_command [OF ex_drivers_ok c k ex_fits, of False] r d b by blast
qed

text \<open>C35: In every reachable state each queue's buffer holds exactly the commands that were submitted and not yet handed over, in order;
  the lock on the queues is free; and every queue structure and buffer is a live block of its own.\<close>

theorem queue_reachable:
  assumes "queue_reach D sub s" "drivers_ok D"
  shows "(\<forall>q \<in> set (psQueueList s). \<exists>pend. queue_ok pend q \<and> sub (psQueueInfo q) = q_log s (psQueueInfo q) @ pend) \<and>
    \<not> ui32Lock (sQProcessResource s) \<and> queue_mem (psQueueList s) \<subseteq># blocks (q_os s) \<and> distinct (map psQueueInfo (psQueueList s))"
  using queue_reach_inv [OF assms] by (simp add: queue_inv_def fifo_def queues_live_def)

theorem queue_reachable_witness:
  "\<exists>pend. queue_ok pend (hd (psQueueList ex_qs4)) \<and> [ex_cmd] = q_log ex_qs4 0x3000 @ pend"
  using queue_reachable [OF ex_reach4 ex_drivers_ok] by (simp add: ex_qs4_eq(2) ex_queue_def ex_sub_def)

section \<open>Sizes, memory and registration\<close>

text \<open>The size of a ring is the least power of two that is not smaller than the size asked for; it is 0 when that is 0 or
  above 2 GB, where the power does not fit in 32 bits.\<close>

theorem queue_nearest_power2:
  "(if v = 0 \<or> 2 ^ 31 < unat v then NearestPower2 v = 0
    else \<exists>j < 32. unat (NearestPower2 v) = 2 ^ j \<and> unat v \<le> 2 ^ j \<and> (\<forall>i. unat v \<le> 2 ^ i \<longrightarrow> j \<le> i))"
proof (cases rule: NearestPower2_cases [of v])
  case (pow j)
  have "(2 :: nat) ^ j \<le> 2 ^ 31" using pow(2) by (intro power_increasing) auto
  then have "\<not> 2 ^ 31 < unat v" using pow(3) by simp
  moreover have "j \<le> i" if "unat v \<le> 2 ^ i" for i
  proof (rule ccontr)
    assume "\<not> j \<le> i"
    then have "(2 :: nat) ^ i \<le> 2 ^ (j - 1)" by (intro power_increasing) auto
    moreover have "j \<noteq> 0" using \<open>\<not> j \<le> i\<close> by simp
    ultimately show False using pow(4) that by linarith
  qed
  moreover have "unat (NearestPower2 v) = 2 ^ j" unfolding pow(5) by (rule unat_pow2 [OF pow(2)])
  ultimately show ?thesis using pow(1-3) by auto
qed auto

theorem queue_nearest_power2_witness:
  "\<exists>j < 32. unat (NearestPower2 1025) = 2 ^ j \<and> 1025 \<le> (2 :: nat) ^ j \<and> (\<forall>i. 1025 \<le> (2 :: nat) ^ i \<longrightarrow> j \<le> i)"
  using queue_nearest_power2 [of 1025] by simp

text \<open>Creating a queue either puts an empty ring of the rounded size on the list, with two fresh blocks, or fails and leaves the list and
  the memory alone; destroying the new queue gives back exactly the two blocks and the list.\<close>

theorem queue_create_destroy:
  assumes "queue_inv sub s" "n \<noteq> 0" "unat n \<le> 2 ^ 31" "PVRSRVCreateCommandQueueKM pid n s = (e, p, s')"
  shows "(e = PVRSRV_OK \<and> queue_inv (sub(p := [])) s' \<and> (\<exists>q. queue_at p s' = Some q \<and> queue_ok [] q \<and> ui32QueueSize q = NearestPower2 n \<and>
        psQueueList s' = q # psQueueList s \<and> blocks (q_os s') = blocks (q_os s) + {#psQueueInfo q, pvLinQueueKM q#}) \<and>
      (\<exists>s''. PVRSRVDestroyCommandQueueKM others (Suc t) p s' = Some (PVRSRV_OK, s'') \<and> psQueueList s'' = psQueueList s \<and>
        blocks (q_os s'') = blocks (q_os s) \<and> \<not> ui32Lock (sQProcessResource s''))) \<or>
    (e = PVRSRV_ERROR_OUT_OF_MEMORY \<and> p = IMG_NULL \<and> psQueueList s' = psQueueList s \<and> blocks (q_os s') = blocks (q_os s))"
  using assms(4)
proof (cases rule: create_cases)
  case (ok buf)
  let ?q = "new_queue pid (NearestPower2 n) p buf"
  have inv: "queue_inv (sub(p := [])) s'" using inv_create [OF assms] ok(1) by simp
  then have f: "distinct (map psQueueInfo (psQueueList s'))" "IMG_NULL \<notin> psQueueInfo ` set (psQueueList s')" by (auto simp: queue_inv_def fifo_def)
  have q: "psQueueInfo ?q = p" "pvLinQueueKM ?q = buf" "ui32QueueSize ?q = NearestPower2 n" "ui32ReadOffset ?q = ui32WriteOffset ?q"
    by (simp_all add: new_queue_def)
  have at: "queue_at p s' = Some ?q" by (simp add: queue_at_def ok(8) q(1))
  have ne: "filter (\<lambda>r. psQueueInfo r \<noteq> p) (psQueueList s) = psQueueList s"
    using f(1) ok(8) q(1) by (auto simp: filter_id_conv)
  from destroy_drained(2) [OF f at q(4) ok(10), of others t] obtain r where
    r: "PVRSRVDestroyCommandQueueKM others (Suc t) p s' = Some (PVRSRV_OK, (without_queue ?q s')\<lparr>sQProcessResource := r\<rparr>)" "\<not> ui32Lock r" by blast
  have w: "psQueueList (without_queue ?q s') = psQueueList s" "blocks (q_os (without_queue ?q s')) = blocks (q_os s)"
    by (simp_all add: without_queue_def free_queue_def ok(6,8) q(1,2) ne os_simps)
  obtain pend where pd: "queue_ok pend ?q" using fifo_queueD [OF _ at] inv by (auto simp: queue_inv_def)
  then have e: "queue_ok [] ?q" using queue_empty_iff [OF pd] q(4) by simp
  have "\<exists>q. queue_at p s' = Some q \<and> queue_ok [] q \<and> ui32QueueSize q = NearestPower2 n \<and>
      psQueueList s' = q # psQueueList s \<and> blocks (q_os s') = blocks (q_os s) + {#psQueueInfo q, pvLinQueueKM q#}"
    by (rule exI [of _ ?q]) (simp add: at e q ok(6,8))
  moreover have "\<exists>s''. PVRSRVDestroyCommandQueueKM others (Suc t) p s' = Some (PVRSRV_OK, s'') \<and> psQueueList s'' = psQueueList s \<and>
      blocks (q_os s'') = blocks (q_os s) \<and> \<not> ui32Lock (sQProcessResource s'')"
    by (rule exI [of _ "(without_queue ?q s')\<lparr>sQProcessResource := r\<rparr>"]) (simp add: r w)
  ultimately show ?thesis using ok(1) inv by blast
next
  case oom
  then show ?thesis by (metis Q_SYS_DATA.select_convs(1) Q_SYS_DATA.surjective Q_SYS_DATA.update_convs(8))
next
  case busy
  then show ?thesis using assms(1) by (simp add: queue_inv_def)
qed

theorem queue_create_destroy_witness:
  "\<exists>s''. PVRSRVDestroyCommandQueueKM (\<lambda>_ s. s) (Suc 0) 0x3000 ex_qs2 = Some (PVRSRV_OK, s'') \<and> psQueueList s'' = [] \<and>
     blocks (q_os s'') = blocks (q_os ex_qs1)"
proof -
  have "queue_inv (\<lambda>_. []) ex_qs1" by (rule queue_reach_inv [OF ex_reach1 ex_drivers_ok])
  from queue_create_destroy [OF this _ _ ex_qs2_eq(1), of "\<lambda>_ s. s" 0] show ?thesis
    by (simp add: ex_qs1_eq(2) ex_qs0_def) blast
qed

text \<open>Registering command processors gives every type its function and a cookie with room for the objects it was registered for, and removing
  them gives back exactly the memory. When the memory runs out half-way and the pointers not yet written happen to be null, everything is undone.\<close>

theorem queue_register_remove:
  assumes "dev < SYS_DEVICE_COUNT" "apsDeviceCommandData s dev = None" "os_ok (q_os s)" "\<forall>ck. cc_data s ck \<noteq> None \<longrightarrow> ck \<in># blocks (q_os s)"
    "length fns = unat n" "length syncs = unat n" "unat n < 2 ^ 27" "syncs_fit (zip fns syncs)"
  shows "case PVRSRVRegisterCmdProcListKM junk dev fns syncs n s of
      None \<Rightarrow> \<exists>i < unat n. \<exists>p \<in> set (apsCmdCompleteData (junk i)). p \<noteq> IMG_NULL
    | Some (e, s') \<Rightarrow>
        if e = PVRSRV_OK then
          \<exists>s'' a es ps. apsDeviceCommandData s' = (apsDeviceCommandData s)(dev \<mapsto> (a, es)) \<and> length es = unat n \<and> distinct ps \<and>
            (\<forall>j < unat n. apsCmdCompleteData (es ! j) = [ps ! j] \<and> ui32CCBOffset (es ! j) = 0 \<and> pfnCmdProc (es ! j) = fns ! j \<and>
               cc_shape s' (ps ! j) = Some (unat (fst (syncs ! j)), unat (fst (syncs ! j)) + unat (snd (syncs ! j)))) \<and>
            blocks (q_os s') = blocks (q_os s) + {#a#} + mset ps \<and>
            PVRSRVRemoveCmdProcListKM dev n s' = Some (PVRSRV_OK, s'') \<and> blocks (q_os s'') = blocks (q_os s) \<and> cc_data s'' = cc_data s \<and>
            apsDeviceCommandData s'' = apsDeviceCommandData s \<and> psQueueList s'' = psQueueList s
        else (\<forall>i < unat n. \<forall>p \<in> set (apsCmdCompleteData (junk i)). p = IMG_NULL) \<longrightarrow>
          e = PVRSRV_ERROR_OUT_OF_MEMORY \<and> blocks (q_os s') = blocks (q_os s) \<and> cc_data s' = cc_data s \<and>
          apsDeviceCommandData s' = apsDeviceCommandData s"
  using assms
proof (cases rule: register_cases [where junk = junk])
  case (ok s' s'' a es ps)
  then show ?thesis by simp (rule exI [of _ s''], rule exI [of _ a], rule exI [of _ es], simp, rule exI [of _ ps], simp)
next
  case oom
  have no: "\<forall>s'. PVRSRVRegisterCmdProcListKM junk dev fns syncs n s \<noteq> Some (PVRSRV_OK, s')" using oom(1) by blast
  show ?thesis using no oom(2) by (auto split: option.splits)
qed

theorem queue_register_remove_witness:
  "\<exists>s''. PVRSRVRemoveCmdProcListKM 0 1 ex_qs1 = Some (PVRSRV_OK, s'') \<and> blocks (q_os s'') = blocks (q_os ex_qs0)"
proof -
  have "(0 :: IMG_UINT32) < SYS_DEVICE_COUNT" by (simp add: SYS_DEVICE_COUNT_def)
  from queue_register_remove [OF this, of ex_qs0 "[0x99]" 1 "[(2, 2)]" ex_junk_entry] ex_qs1_eq(1) show ?thesis
    by (simp add: ex_qs0_def os_ok_def syncs_fit_def) blast
qed

section \<open>Flaws\<close>

text \<open>C36: The head of the list is read before the wait for the queue to drain and before the lock is taken. When the queue to destroy was the head
  and another thread creates a queue meanwhile, the new queue is dropped from the list with its memory still allocated.\<close>

theorem queue_destroy_race:
  assumes "psQueueList s = q # rest" "psQueueInfo q = p" "ui32ReadOffset q \<noteq> ui32WriteOffset q"
    and "psQueueList (others 1 s) = new # q' # rest" "psQueueInfo q' = p" "ui32ReadOffset q' = ui32WriteOffset q'"
    and "\<not> ui32Lock (sQProcessResource (others 1 s))" "psQueueInfo new \<noteq> p" "new \<notin> set rest"
  shows "\<exists>s'. PVRSRVDestroyCommandQueueKM others 2 p s = Some (PVRSRV_OK, s') \<and> psQueueList s' = rest \<and> new \<notin> set (psQueueList s') \<and>
    blocks (q_os s') = blocks (q_os (others 1 s)) - {#p, pvLinQueueKM q'#}"
proof -
  let ?s1 = "others 1 s"
  let ?r = "(sQProcessResource ?s1)\<lparr>ui32Lock := True, ui32ID := KERNEL_ID\<rparr>"
  let ?s2 = "?s1\<lparr>sQProcessResource := ?r\<rparr>"
  have at: "queue_at p s = Some q" "queue_at p ?s1 = Some q'" "queue_at p ?s2 = Some q'"
    using assms by (simp_all add: queue_at_def)
  have w: "queue_empty_wait others p 2 s = Some (False, ?s1)"
    using at assms(3,6) by (simp add: numeral_2_eq_2)
  have f: "from_queue p ?s2 = q' # rest" using assms(4,5,8) by (simp add: from_queue_def)
  have u: "unlink_queue p p q' ?s2 = Some (True, free_queue q' (?s2\<lparr>psQueueList := rest\<rparr>))"
    using f by (simp add: unlink_queue_def)
  have h: "head_queue (psQueueList s) = p" using assms(1,2) by (simp add: head_queue_def)
  have "PVRSRVDestroyCommandQueueKM others 2 p s =
      Some (PVRSRV_OK, (free_queue q' (?s1\<lparr>psQueueList := rest\<rparr>))\<lparr>sQProcessResource := ?r\<lparr>ui32ID := 0, ui32Lock := False\<rparr>\<rparr>)"
    unfolding PVRSRVDestroyCommandQueueKM_def h w using assms(7) at(3) u f
    by (auto simp: Let_def lock_free_same unlock_queues_def OSUnlockResource_def free_queue_def OSDestroyResource_def OSBreakResourceLock_def)
  then show ?thesis using assms(5,9) by (auto simp: free_queue_def os_simps)
qed

definition ex_queue4 :: PVRSRV_QUEUE_INFO where
  "ex_queue4 = ex_queue\<lparr>lin := [0 \<mapsto> ex_cmd], ui32WriteOffset := 104\<rparr>"

definition ex_new_queue :: PVRSRV_QUEUE_INFO where
  "ex_new_queue = ex_queue\<lparr>psQueueInfo := 0x8000\<rparr>"

definition ex_queue_others :: "nat \<Rightarrow> unit Q_SYS_DATA \<Rightarrow> unit Q_SYS_DATA" where
  "ex_queue_others t s = s\<lparr>psQueueList := [ex_new_queue, ex_queue4\<lparr>ui32ReadOffset := 104\<rparr>]\<rparr>"

theorem queue_destroy_race_witness:
  "\<exists>s'. PVRSRVDestroyCommandQueueKM ex_queue_others 2 0x3000 ex_qs4 = Some (PVRSRV_OK, s') \<and> psQueueList s' = []"
  using queue_destroy_race [of ex_qs4 ex_queue4 "[]" "0x3000" ex_queue_others ex_new_queue "ex_queue4\<lparr>ui32ReadOffset := 104\<rparr>"]
  by (simp add: ex_queue_others_def ex_new_queue_def ex_queue4_def ex_queue_def ex_qs4_eq(2) ex_qs3_eq(2) ex_qs2_eq(2)) blast

text \<open>A ring of size 0 has no limit on its space: a second large command is written behind the end of the buffer.\<close>

lemma queue_size_zero_overflows:
  assumes "queue_at p s = Some q" "ui32QueueSize q = 0" "ui32ReadOffset q = 0" "lin_size q = 1024" "ui32WriteOffset q = 1000"
    "pvLinQueueUM q = pvLinQueueKM q"
  shows "PVRSRVInsertCommandKM others (Suc t) pid p dev ctype 0 [] 0 [] 0 s = None"
proof -
  have sp: "PVRSRVGetQueueSpaceKM others (Suc t) p (cmd_size 0 0 ((0 + 3) AND NOT 3)) s = Some (PVRSRV_OK, pvLinQueueKM q + ucast (ui32WriteOffset q), s)"
    using assms by (simp add: PVRSRVGetQueueSpaceKM_def cmd_size_def queue_consts GET_SPACE_IN_CMDQ_def)
  show ?thesis
    unfolding PVRSRVInsertCommandKM_def Let_def sp using assms cmd_offset_woff [of q "ui32WriteOffset q"] by (simp add: cmd_bytes_def queue_consts)
qed

text \<open>The array of a registration is not cleared: when the memory for a cookie runs out, the clean-up frees whatever the unwritten pointers hold.\<close>

lemma queue_register_garbage:
  "PVRSRVRegisterCmdProcListKM ex_junk_entry 0 [0x99] [(2, 2)] 1 (ex_qs0\<lparr>q_os := \<lparr>os_allocs = [0x1000], os_live = [0x100]\<rparr>\<rparr>) = None"
  by (simp add: PVRSRVRegisterCmdProcListKM_def PVRSRVRemoveCmdProcListKM_def ex_qs0_def Let_def queue_consts OSAllocMem_def kmalloc_def PAGE_SIZE_def
    set_entry_def ex_junk_entry_def)

end
