(* ===== verification/Sgx_Mmu.thy ===== *)
theory Sgx_Mmu
  imports Resource_Arena "HOL-Library.Monad_Syntax"
begin

text \<open>
  The page tables of the SGX device, \<open>services4/srvkm/devices/sgx/mmu.c\<close>. The device translates a 32-bit virtual
  address in two steps: a page directory of 1024 entries, one for each 4 MB, and page tables of 1024 entries, one
  for each page. Every context has its directory; a heap is a range of the virtual addresses of one context, or, when it
  is shared, of all contexts. Tables are made when a range is allocated, filled in when memory is
  mapped into it, and given back when their last entry is cleared.

  A page of the tables is a function from the index of a 32-bit word to its value, kept under its physical
  address in \<open>mmu_mem\<close>; the CPU reaches it through a kernel address by the map \<open>cpu_map\<close>, the device by the
  address in a directory entry. The kernel's page allocator is a parameter, kept as data like the allocator of \<open>Pvr_Prelude\<close>:
  the list \<open>page_allocs\<close> of the address, the handle and the contents of the pages the next calls return. So are the mappings of device memory
  (\<open>io_maps\<close>) and the addresses behind a handle (\<open>area_va\<close>, \<open>area_pa\<close>: \<open>LinuxMemAreaToCpuVAddr\<close> and \<open>LinuxMemAreaToCpuPAddr\<close> of
  \<open>env/linux/mm.c\<close>). An access through a null pointer, to a page that is not allocated or beyond an array has
  no result (\<open>None\<close>).

  The arena of a heap calls \<open>MMU_FreePageTables\<close> when address space is freed. The model records the range of
  the call in the arena and makes the call when the arena has finished: the arena and the page tables are different memory, so the order of
  their steps does not matter. The build is the one of this repository's \<open>Kbuild\<close>: no parameter dump, no dummy pages, 4 KB pages, 32-bit
  addresses, several contexts, and none of the errata of other cores.
\<close>

section \<open>Data\<close>

type_synonym vm_arena = "(IMG_SIZE_T \<times> IMG_SIZE_T) list RA_ARENA"

record MMU_PT_INFO =
  psPTInfo :: IMG_UINTPTR_T
  hPTPageOSMemHandle :: IMG_UINTPTR_T
  PTPageCpuVAddr :: IMG_UINTPTR_T
  ui32ValidPTECount :: IMG_UINT32

record MMU_CONTEXT =
  psMMUContext :: IMG_UINTPTR_T
  pvPDCpuVAddr :: IMG_UINTPTR_T
  sPDDevPAddr :: IMG_UINTPTR_T
  hPDOSMemHandle :: IMG_UINTPTR_T
  apsPTInfoList :: "nat \<Rightarrow> MMU_PT_INFO option"

record DEV_ARENA_DESCRIPTOR =
  BaseDevVAddr :: IMG_UINT32
  da_ui32Size :: IMG_UINT32
  DevMemHeapType :: IMG_UINT32
  da_ui32DataPageSize :: IMG_UINT32

record MMU_HEAP =
  pMMUHeap :: IMG_UINTPTR_T
  heap_psMMUContext :: IMG_UINTPTR_T
  ui32PDBaseIndex :: IMG_UINT32
  ui32PageTableCount :: IMG_UINT32
  ui32PTETotalUsable :: IMG_UINT32
  ui32PDEPageSizeCtrl :: IMG_UINT32
  ui32DataPageSize :: IMG_UINT32
  ui32DataPageBitWidth :: IMG_UINT32
  ui32DataPageMask :: IMG_UINT32
  ui32PTShift :: IMG_UINT32
  ui32PTBitWidth :: IMG_UINT32
  ui32PTMask :: IMG_UINT32
  ui32PTSize :: IMG_UINT32
  ui32PTNumEntriesAllocated :: IMG_UINT32
  ui32PTNumEntriesUsable :: IMG_UINT32
  ui32PDShift :: IMG_UINT32
  ui32PDBitWidth :: IMG_UINT32
  ui32PDMask :: IMG_UINT32
  psVMArena :: "vm_arena option"
  psDevArena :: DEV_ARENA_DESCRIPTOR

text \<open>The state: the contexts in the order of \<open>pvMMUContextList\<close>, the cache control word of the device,
  the memory of the tables, the arena of local device memory (null on a system without one), the
  kernel's allocators and the heap.\<close>

type_synonym page = "nat \<Rightarrow> IMG_UINT32"

record MMU_STATE =
  pvMMUContextList :: "MMU_CONTEXT list"
  ui32CacheControl :: IMG_UINT32
  mmu_mem :: "IMG_UINTPTR_T \<rightharpoonup> page"
  cpu_map :: "IMG_UINTPTR_T \<Rightarrow> IMG_UINTPTR_T"
  area_va :: "IMG_UINTPTR_T \<Rightarrow> IMG_UINTPTR_T"
  area_pa :: "IMG_UINTPTR_T \<Rightarrow> IMG_UINT32 \<Rightarrow> IMG_UINTPTR_T"
  page_allocs :: "(IMG_UINTPTR_T \<times> IMG_UINTPTR_T \<times> page) list"
  io_maps :: "(IMG_UINTPTR_T \<times> IMG_UINTPTR_T \<times> page) list"
  psLocalDevMemArena :: "unit RA_ARENA option"
  mmu_os :: os

definition DEVICE_MEMORY_HEAP_PERCONTEXT :: IMG_UINT32 where "DEVICE_MEMORY_HEAP_PERCONTEXT = 0"
definition DEVICE_MEMORY_HEAP_KERNEL :: IMG_UINT32 where "DEVICE_MEMORY_HEAP_KERNEL = 1"
definition DEVICE_MEMORY_HEAP_SHARED :: IMG_UINT32 where "DEVICE_MEMORY_HEAP_SHARED = 2"
definition DEVICE_MEMORY_HEAP_SHARED_EXPORTED :: IMG_UINT32 where "DEVICE_MEMORY_HEAP_SHARED_EXPORTED = 3"

definition SGX_MMU_PAGE_SHIFT :: IMG_UINT32 where "SGX_MMU_PAGE_SHIFT = 12"
definition SGX_MMU_PAGE_SIZE :: IMG_UINT32 where "SGX_MMU_PAGE_SIZE = 0x1000"
definition SGX_MMU_PD_SIZE :: nat where "SGX_MMU_PD_SIZE = 1024"
definition SGX_MMU_PD_MASK :: IMG_UINT32 where "SGX_MMU_PD_MASK = 0xFFC00000"
definition SGX_MMU_PDE_ADDR_MASK :: IMG_UINT32 where "SGX_MMU_PDE_ADDR_MASK = 0xFFFFF000"
definition SGX_MMU_PDE_VALID :: IMG_UINT32 where "SGX_MMU_PDE_VALID = 1"
definition SGX_MMU_PDE_PAGE_SIZE_4K :: IMG_UINT32 where "SGX_MMU_PDE_PAGE_SIZE_4K = 0"
definition SGX_MMU_PT_SHIFT :: IMG_UINT32 where "SGX_MMU_PT_SHIFT = 10"
definition SGX_MMU_PT_MASK :: IMG_UINT32 where "SGX_MMU_PT_MASK = 0x003FF000"
definition SGX_MMU_PTE_ADDR_MASK :: IMG_UINT32 where "SGX_MMU_PTE_ADDR_MASK = 0xFFFFF000"
definition SGX_MMU_PTE_VALID :: IMG_UINT32 where "SGX_MMU_PTE_VALID = 1"
definition SGX_MMU_PTE_WRITEONLY :: IMG_UINT32 where "SGX_MMU_PTE_WRITEONLY = 2"
definition SGX_MMU_PTE_READONLY :: IMG_UINT32 where "SGX_MMU_PTE_READONLY = 4"
definition SGX_MMU_PTE_CACHECONSISTENT :: IMG_UINT32 where "SGX_MMU_PTE_CACHECONSISTENT = 8"
definition SGX_MMU_PTE_EDMPROTECT :: IMG_UINT32 where "SGX_MMU_PTE_EDMPROTECT = 0x10"
definition SGX_MAX_PD_ENTRIES :: nat where "SGX_MAX_PD_ENTRIES = 1024"
definition SGX_FEATURE_ADDRESS_SPACE_SIZE :: IMG_UINT32 where "SGX_FEATURE_ADDRESS_SPACE_SIZE = 32"
definition UINT32_MAX_VALUE :: IMG_UINT32 where "UINT32_MAX_VALUE = 0xFFFFFFFF"
definition SGXMKIF_CC_INVAL_BIF_PT :: IMG_UINT32 where "SGXMKIF_CC_INVAL_BIF_PT = 1"
definition SGXMKIF_CC_INVAL_BIF_PD :: IMG_UINT32 where "SGXMKIF_CC_INVAL_BIF_PD = 2"
definition PVRSRV_MEM_READ :: IMG_UINT32 where "PVRSRV_MEM_READ = 1"
definition PVRSRV_MEM_WRITE :: IMG_UINT32 where "PVRSRV_MEM_WRITE = 2"
definition PVRSRV_MEM_CACHE_CONSISTENT :: IMG_UINT32 where "PVRSRV_MEM_CACHE_CONSISTENT = 4"
definition PVRSRV_MEM_DUMMY :: IMG_UINT32 where "PVRSRV_MEM_DUMMY = 0x20"
definition PVRSRV_MEM_EDM_PROTECT :: IMG_UINT32 where "PVRSRV_MEM_EDM_PROTECT = 0x40"
definition PVRSRV_MEM_USER_SUPPLIED_DEVVADDR :: IMG_UINT32 where "PVRSRV_MEM_USER_SUPPLIED_DEVVADDR = 0x100"
definition sizeof_MMU_PT_INFO :: IMG_UINT32 where "sizeof_MMU_PT_INFO = 24"
definition sizeof_MMU_CONTEXT :: IMG_UINT32 where "sizeof_MMU_CONTEXT = 8240"
definition sizeof_MMU_HEAP :: IMG_UINT32 where "sizeof_MMU_HEAP = 88"

lemmas mmu_consts = SGX_MMU_PAGE_SHIFT_def SGX_MMU_PAGE_SIZE_def SGX_MMU_PD_SIZE_def SGX_MMU_PD_MASK_def
  SGX_MMU_PDE_ADDR_MASK_def SGX_MMU_PDE_VALID_def SGX_MMU_PDE_PAGE_SIZE_4K_def SGX_MMU_PT_SHIFT_def SGX_MMU_PT_MASK_def
  SGX_MMU_PTE_ADDR_MASK_def SGX_MMU_PTE_VALID_def SGX_MMU_PTE_WRITEONLY_def SGX_MMU_PTE_READONLY_def
  SGX_MMU_PTE_CACHECONSISTENT_def SGX_MMU_PTE_EDMPROTECT_def SGX_MAX_PD_ENTRIES_def SGX_FEATURE_ADDRESS_SPACE_SIZE_def
  UINT32_MAX_VALUE_def

lemmas heap_type_defs = DEVICE_MEMORY_HEAP_PERCONTEXT_def DEVICE_MEMORY_HEAP_KERNEL_def DEVICE_MEMORY_HEAP_SHARED_def
  DEVICE_MEMORY_HEAP_SHARED_EXPORTED_def

section \<open>Pages and addresses\<close>

text \<open>Reading and writing a page through a kernel address.\<close>

definition page_at :: "IMG_UINTPTR_T \<Rightarrow> MMU_STATE \<Rightarrow> page option" where
  "page_at va s = (if va = IMG_NULL then None else mmu_mem s (cpu_map s va))"

definition set_page :: "IMG_UINTPTR_T \<Rightarrow> page \<Rightarrow> MMU_STATE \<Rightarrow> MMU_STATE" where
  "set_page va p s = s\<lparr>mmu_mem := (mmu_mem s)(cpu_map s va \<mapsto> p)\<rparr>"

definition write_page :: "IMG_UINTPTR_T \<Rightarrow> nat \<Rightarrow> IMG_UINT32 \<Rightarrow> MMU_STATE \<Rightarrow> MMU_STATE option" where
  "write_page va i v s =
     do { p \<leftarrow> page_at va s; if i < 1024 then Some (set_page va (p(i := v)) s) else None }"

definition zero_page :: "IMG_UINTPTR_T \<Rightarrow> nat \<Rightarrow> MMU_STATE \<Rightarrow> MMU_STATE option" where
  "zero_page va n s =
     do { p \<leftarrow> page_at va s; if n \<le> 1024 then Some (set_page va (\<lambda>i. if i < n then 0 else p i) s) else None }"

definition OSAllocPages :: "MMU_STATE \<Rightarrow> bool \<times> IMG_UINTPTR_T \<times> IMG_UINTPTR_T \<times> MMU_STATE" where
  "OSAllocPages s =
     (case page_allocs s of
        [] \<Rightarrow> (False, IMG_NULL, IMG_NULL, s)
      | (va, h, p) # r \<Rightarrow>
          (let s1 = s\<lparr>page_allocs := r\<rparr>
           in if h = IMG_NULL \<or> mmu_mem s (cpu_map s va) \<noteq> None then (False, IMG_NULL, IMG_NULL, s1)
              else (True, va, h, if va = IMG_NULL then s1 else set_page va p s1)))"

text \<open>\<open>OSFreePages\<close> frees the area of the handle and does not look at the address it is given.\<close>

definition OSFreePages :: "IMG_UINTPTR_T \<Rightarrow> MMU_STATE \<Rightarrow> MMU_STATE option" where
  "OSFreePages h s =
     do { p \<leftarrow> page_at (area_va s h) s; Some (s\<lparr>mmu_mem := (mmu_mem s)(cpu_map s (area_va s h) := None)\<rparr>) }"

definition OSMapLinToCPUPhys :: "IMG_UINTPTR_T \<Rightarrow> IMG_UINTPTR_T \<Rightarrow> MMU_STATE \<Rightarrow> IMG_UINTPTR_T" where
  "OSMapLinToCPUPhys h pvLinAddr s = area_pa s h (ucast (pvLinAddr - area_va s h))"

definition OSMemHandleToCpuPAddr :: "IMG_UINTPTR_T \<Rightarrow> IMG_UINT32 \<Rightarrow> MMU_STATE \<Rightarrow> IMG_UINTPTR_T" where
  "OSMemHandleToCpuPAddr h ui32ByteOffset s = area_pa s h ui32ByteOffset"

definition OSMapPhysToLin :: "IMG_UINTPTR_T \<Rightarrow> MMU_STATE \<Rightarrow> IMG_UINTPTR_T \<times> IMG_UINTPTR_T \<times> MMU_STATE" where
  "OSMapPhysToLin pa s =
     (case io_maps s of
        [] \<Rightarrow> (IMG_NULL, IMG_NULL, s)
      | (va, h, p) # r \<Rightarrow>
          (let s1 = s\<lparr>io_maps := r\<rparr>
           in if va = IMG_NULL then (IMG_NULL, IMG_NULL, s1)
              else (va, h, s1\<lparr>cpu_map := (cpu_map s1)(va := pa), mmu_mem := (mmu_mem s1)(pa \<mapsto> p)\<rparr>)))"

definition OSUnMapPhysToLin :: "IMG_UINTPTR_T \<Rightarrow> MMU_STATE \<Rightarrow> MMU_STATE" where
  "OSUnMapPhysToLin va s = s\<lparr>mmu_mem := (mmu_mem s)(cpu_map s va := None)\<rparr>"

text \<open>The system layer of the CE5300: the addresses of the CPU, the system and the device are the same.\<close>

definition SysCpuPAddrToDevPAddr :: "IMG_UINTPTR_T \<Rightarrow> IMG_UINTPTR_T" where "SysCpuPAddrToDevPAddr a = a"
definition SysSysPAddrToCpuPAddr :: "IMG_UINTPTR_T \<Rightarrow> IMG_UINTPTR_T" where "SysSysPAddrToCpuPAddr a = a"
definition SysCpuPAddrToSysPAddr :: "IMG_UINTPTR_T \<Rightarrow> IMG_UINTPTR_T" where "SysCpuPAddrToSysPAddr a = a"
definition SysSysPAddrToDevPAddr :: "IMG_UINTPTR_T \<Rightarrow> IMG_UINTPTR_T" where "SysSysPAddrToDevPAddr a = a"

lemmas sys_addr_defs = SysCpuPAddrToDevPAddr_def SysSysPAddrToCpuPAddr_def SysCpuPAddrToSysPAddr_def SysSysPAddrToDevPAddr_def

text \<open>A block of one page from the arena of local memory, with the state's heap lent to the arena.\<close>

definition local_alloc :: "unit RA_ARENA \<Rightarrow> MMU_STATE \<Rightarrow> bool \<times> IMG_UINTPTR_T \<times> MMU_STATE" where
  "local_alloc A s =
     (let (ok, _, _, base, A1) = RA_Alloc SGX_MMU_PAGE_SIZE 0 SGX_MMU_PAGE_SIZE 0 (A\<lparr>ra_os := mmu_os s\<rparr>)
      in (ok, base, s\<lparr>psLocalDevMemArena := Some A1, mmu_os := ra_os A1\<rparr>))"

definition local_free :: "unit RA_ARENA \<Rightarrow> IMG_UINTPTR_T \<Rightarrow> MMU_STATE \<Rightarrow> MMU_STATE" where
  "local_free A base s =
     (let A1 = RA_Free base False (A\<lparr>ra_os := mmu_os s\<rparr>)
      in s\<lparr>psLocalDevMemArena := Some A1, mmu_os := ra_os A1\<rparr>)"

section \<open>Contexts and their slots\<close>

definition ctx_at :: "IMG_UINTPTR_T \<Rightarrow> MMU_STATE \<Rightarrow> MMU_CONTEXT option" where
  "ctx_at a s = List.find (\<lambda>c. psMMUContext c = a) (pvMMUContextList s)"

definition pt_slot :: "IMG_UINTPTR_T \<Rightarrow> nat \<Rightarrow> MMU_STATE \<Rightarrow> MMU_PT_INFO option option" where
  "pt_slot a i s = (if i < SGX_MAX_PD_ENTRIES then map_option (\<lambda>c. apsPTInfoList c i) (ctx_at a s) else None)"

definition set_slot :: "IMG_UINTPTR_T \<Rightarrow> nat \<Rightarrow> MMU_PT_INFO option \<Rightarrow> MMU_STATE \<Rightarrow> MMU_STATE" where
  "set_slot a i x s =
     s\<lparr>pvMMUContextList := map (\<lambda>c. if psMMUContext c = a then c\<lparr>apsPTInfoList := (apsPTInfoList c)(i := x)\<rparr> else c) (pvMMUContextList s)\<rparr>"

definition write_pde :: "IMG_UINTPTR_T \<Rightarrow> nat \<Rightarrow> IMG_UINT32 \<Rightarrow> MMU_STATE \<Rightarrow> MMU_STATE option" where
  "write_pde a i v s = do { c \<leftarrow> ctx_at a s; write_page (pvPDCpuVAddr c) i v s }"

fun write_pdes :: "IMG_UINTPTR_T list \<Rightarrow> nat \<Rightarrow> IMG_UINT32 \<Rightarrow> MMU_STATE \<Rightarrow> MMU_STATE option" where
  "write_pdes [] i v s = Some s"
| "write_pdes (a # as) i v s = do { s1 \<leftarrow> write_pde a i v s; write_pdes as i v s1 }"

definition MMU_IsHeapShared :: "MMU_HEAP \<Rightarrow> bool" where
  "MMU_IsHeapShared h =
     (let t = DevMemHeapType (psDevArena h)
      in if t = DEVICE_MEMORY_HEAP_SHARED \<or> t = DEVICE_MEMORY_HEAP_SHARED_EXPORTED then True
         else if t = DEVICE_MEMORY_HEAP_PERCONTEXT \<or> t = DEVICE_MEMORY_HEAP_KERNEL then False
         else False)"

text \<open>The contexts whose directories the entry of a heap is written to: all for a shared heap, the heap's own for
  the others, and none for an unknown type.\<close>

definition pd_targets :: "MMU_HEAP \<Rightarrow> MMU_STATE \<Rightarrow> IMG_UINTPTR_T list option" where
  "pd_targets h s =
     (let t = DevMemHeapType (psDevArena h)
      in if t = DEVICE_MEMORY_HEAP_SHARED \<or> t = DEVICE_MEMORY_HEAP_SHARED_EXPORTED
         then Some (map psMMUContext (pvMMUContextList s))
         else if t = DEVICE_MEMORY_HEAP_PERCONTEXT \<or> t = DEVICE_MEMORY_HEAP_KERNEL then Some [heap_psMMUContext h]
         else None)"

definition MMU_InvalidateDirectoryCache :: "MMU_STATE \<Rightarrow> MMU_STATE" where
  "MMU_InvalidateDirectoryCache s = s\<lparr>ui32CacheControl := ui32CacheControl s OR SGXMKIF_CC_INVAL_BIF_PD\<rparr>"

definition MMU_InvalidatePageTableCache :: "MMU_STATE \<Rightarrow> MMU_STATE" where
  "MMU_InvalidatePageTableCache s = s\<lparr>ui32CacheControl := ui32CacheControl s OR SGXMKIF_CC_INVAL_BIF_PT\<rparr>"

definition PDIndex :: "MMU_HEAP \<Rightarrow> IMG_UINT32 \<Rightarrow> IMG_UINT32" where
  "PDIndex h va = drop_bit (unat (ui32PDShift h)) va"

definition PTIndex :: "MMU_HEAP \<Rightarrow> IMG_UINT32 \<Rightarrow> IMG_UINT32" where
  "PTIndex h va = drop_bit (unat (ui32PTShift h)) (va AND ui32PTMask h)"

section \<open>Page tables\<close>

definition AllocPageTableMemory ::
  "MMU_HEAP \<Rightarrow> MMU_PT_INFO \<Rightarrow> MMU_STATE \<Rightarrow> (bool \<times> MMU_PT_INFO \<times> IMG_UINTPTR_T \<times> MMU_STATE) option" where
  "AllocPageTableMemory h pt s =
     (case psLocalDevMemArena s of
        None \<Rightarrow>
          (case OSAllocPages s of
             (False, _, _, s1) \<Rightarrow> Some (False, pt, 0, s1)
           | (True, va, hm, s1) \<Rightarrow>
               (let pa = SysCpuPAddrToDevPAddr (if va \<noteq> IMG_NULL then OSMapLinToCPUPhys hm va s1 else OSMemHandleToCpuPAddr hm 0 s1)
                in do {
                  s2 \<leftarrow> zero_page va (unat (ui32PTSize h) div 4) s1;
                  Some (True, pt\<lparr>PTPageCpuVAddr := va, hPTPageOSMemHandle := hm\<rparr>, pa, s2)
                }))
      | Some A \<Rightarrow>
          (case local_alloc A s of
             (False, _, s1) \<Rightarrow> Some (False, pt, 0, s1)
           | (True, base, s1) \<Rightarrow>
               (let cpa = SysSysPAddrToCpuPAddr base;
                    (va, hm, s2) = OSMapPhysToLin cpa s1
                in if va = IMG_NULL then Some (False, pt, 0, s2)
                   else do {
                     s3 \<leftarrow> zero_page va (unat (ui32PTSize h) div 4) s2;
                     Some (True, pt\<lparr>PTPageCpuVAddr := va, hPTPageOSMemHandle := hm\<rparr>, SysCpuPAddrToDevPAddr cpa, s3)
                   })))"

definition FreePageTableMemory :: "MMU_HEAP \<Rightarrow> MMU_PT_INFO \<Rightarrow> MMU_STATE \<Rightarrow> MMU_STATE option" where
  "FreePageTableMemory h pt s =
     (case psLocalDevMemArena s of
        None \<Rightarrow> OSFreePages (hPTPageOSMemHandle pt) s
      | Some A \<Rightarrow>
          (let sSysPAddr = SysCpuPAddrToSysPAddr (OSMapLinToCPUPhys (hPTPageOSMemHandle pt) (PTPageCpuVAddr pt) s)
           in Some (local_free A sSysPAddr (OSUnMapPhysToLin (PTPageCpuVAddr pt) s))))"

definition DeferredFreePageTable ::
  "MMU_HEAP \<Rightarrow> IMG_UINT32 \<Rightarrow> bool \<Rightarrow> MMU_STATE \<Rightarrow> (MMU_HEAP \<times> MMU_STATE) option" where
  "DeferredFreePageTable h ui32PTIndex bOSFreePT s =
     (let ui32PDIndex = unat (PDIndex h (BaseDevVAddr (psDevArena h)));
          i = ui32PDIndex + unat ui32PTIndex
      in case pd_targets h s of
           None \<Rightarrow> Some (h, s)
         | Some cs \<Rightarrow> do {
             s1 \<leftarrow> (if bOSFreePT then write_pdes cs i 0 s else Some s);
             slot \<leftarrow> pt_slot (heap_psMMUContext h) i s1;
             (case slot of
                None \<Rightarrow> Some (h\<lparr>ui32PTETotalUsable := ui32PTETotalUsable h - ui32PTNumEntriesUsable h\<rparr>, s1)
              | Some pt \<Rightarrow> do {
                  (n, s2) \<leftarrow>
                    (if PTPageCpuVAddr pt \<noteq> IMG_NULL then
                       (let n = min (ui32PTETotalUsable h) (ui32PTNumEntriesUsable h) in do {
                          s' \<leftarrow> zero_page (PTPageCpuVAddr pt) (unat n) s1;
                          s'' \<leftarrow> (if bOSFreePT then FreePageTableMemory h pt s' else Some s');
                          Some (n, s'')
                        })
                     else Some (ui32PTNumEntriesUsable h, s1));
                  Some (h\<lparr>ui32PTETotalUsable := ui32PTETotalUsable h - n\<rparr>,
                    if bOSFreePT
                    then set_slot (heap_psMMUContext h) i None (s2\<lparr>mmu_os := OSFreeMem (psPTInfo pt) (mmu_os s2)\<rparr>)
                    else s2)
                })
           })"

fun free_tables :: "IMG_UINT32 list \<Rightarrow> MMU_HEAP \<Rightarrow> MMU_STATE \<Rightarrow> (MMU_HEAP \<times> MMU_STATE) option" where
  "free_tables [] h s = Some (h, s)"
| "free_tables (i # is) h s = do { (h1, s1) \<leftarrow> DeferredFreePageTable h i True s; free_tables is h1 s1 }"

definition DeferredFreePageTables :: "MMU_HEAP \<Rightarrow> MMU_STATE \<Rightarrow> (MMU_HEAP \<times> MMU_STATE) option" where
  "DeferredFreePageTables h s =
     do {
       (h1, s1) \<leftarrow> free_tables (map of_nat [0..<unat (ui32PageTableCount h)]) h s;
       Some (h1, MMU_InvalidateDirectoryCache s1)
     }"

text \<open>The table information of a slot, made when the slot is empty.\<close>

definition pt_info_for :: "MMU_HEAP \<Rightarrow> nat \<Rightarrow> MMU_STATE \<Rightarrow> (MMU_PT_INFO option \<times> MMU_STATE) option" where
  "pt_info_for h i s =
     do {
       slot \<leftarrow> pt_slot (heap_psMMUContext h) i s;
       (case slot of
          Some pt \<Rightarrow> Some (Some pt, s)
        | None \<Rightarrow>
            (let (e, a, os1) = OSAllocMem sizeof_MMU_PT_INFO (mmu_os s);
                 s1 = s\<lparr>mmu_os := os1\<rparr>;
                 pt = \<lparr>psPTInfo = a, hPTPageOSMemHandle = IMG_NULL, PTPageCpuVAddr = IMG_NULL, ui32ValidPTECount = 0\<rparr>
             in if a = IMG_NULL then Some (None, s1)
                else Some (Some pt, set_slot (heap_psMMUContext h) i (Some pt) s1)))
     }"

fun alloc_tables :: "MMU_HEAP \<Rightarrow> nat list \<Rightarrow> MMU_STATE \<Rightarrow> (bool \<times> MMU_STATE) option" where
  "alloc_tables h [] s = Some (True, s)"
| "alloc_tables h (i # is) s =
     do {
       (x, s1) \<leftarrow> pt_info_for h i s;
       (case x of
          None \<Rightarrow> Some (False, s1)
        | Some pt \<Rightarrow>
            if hPTPageOSMemHandle pt = IMG_NULL \<and> PTPageCpuVAddr pt = IMG_NULL then do {
              (ok, pt1, sDevPAddr, s2) \<leftarrow> AllocPageTableMemory h pt s1;
              if \<not> ok then Some (False, s2)
              else
                (let s3 = set_slot (heap_psMMUContext h) i (Some pt1) s2
                 in case pd_targets h s3 of
                      None \<Rightarrow> Some (False, s3)
                    | Some cs \<Rightarrow> do {
                        s4 \<leftarrow> write_pdes cs i (ucast sDevPAddr OR ui32PDEPageSizeCtrl h OR SGX_MMU_PDE_VALID) s3;
                        alloc_tables h is s4
                      })
            }
            else alloc_tables h is s1)
     }"

definition table_count :: "MMU_HEAP \<Rightarrow> IMG_UINT32 \<Rightarrow> IMG_UINT32 \<Rightarrow> IMG_UINT32" where
  "table_count h DevVAddr ui32Size =
     (let n = ui32Size + ui32DataPageMask h + ui32PTMask h;
          sHigh = (if UINT32_MAX_VALUE - DevVAddr < n then UINT32_MAX_VALUE else DevVAddr + n);
          ui32PageTableCount = PDIndex h sHigh;
          ui32PageTableCount = (if ui32PageTableCount = 0 then 1024 else ui32PageTableCount)
      in ui32PageTableCount - PDIndex h DevVAddr)"

definition DeferredAllocPagetables ::
  "MMU_HEAP \<Rightarrow> IMG_UINT32 \<Rightarrow> IMG_UINT32 \<Rightarrow> MMU_STATE \<Rightarrow> (bool \<times> MMU_STATE) option" where
  "DeferredAllocPagetables h DevVAddr ui32Size s =
     (let i = unat (PDIndex h DevVAddr)
      in alloc_tables h [i..<i + unat (table_count h DevVAddr ui32Size)] s)"

section \<open>Contexts\<close>

definition MMU_Initialise :: "MMU_STATE \<Rightarrow> (PVRSRV_ERROR \<times> IMG_UINTPTR_T \<times> IMG_UINTPTR_T \<times> MMU_STATE) option" where
  "MMU_Initialise s =
     (let (e, a, os1) = OSAllocMem sizeof_MMU_CONTEXT (mmu_os s);
          s1 = s\<lparr>mmu_os := os1\<rparr>
      in if a = IMG_NULL then Some (PVRSRV_ERROR_OUT_OF_MEMORY, IMG_NULL, 0, s1)
         else
      (let (eError, va, hm, pa, s2) =
         (case psLocalDevMemArena s1 of
            None \<Rightarrow>
              (case OSAllocPages s1 of
                 (False, _, _, s2) \<Rightarrow> (PVRSRV_ERROR_FAILED_TO_ALLOC_PAGES, IMG_NULL, IMG_NULL, 0, s2)
               | (True, va, hm, s2) \<Rightarrow>
                   (PVRSRV_OK, va, hm,
                    SysCpuPAddrToDevPAddr (if va \<noteq> IMG_NULL then OSMapLinToCPUPhys hm va s2 else OSMemHandleToCpuPAddr hm 0 s2), s2))
          | Some A \<Rightarrow>
              (case local_alloc A s1 of
                 (False, _, s2) \<Rightarrow> (PVRSRV_ERROR_FAILED_TO_ALLOC_VIRT_MEMORY, IMG_NULL, IMG_NULL, 0, s2)
               | (True, base, s2) \<Rightarrow>
                   (let (va, hm, s3) = OSMapPhysToLin (SysSysPAddrToCpuPAddr base) s2
                    in if va = IMG_NULL then (PVRSRV_ERROR_FAILED_TO_MAP_PAGE_TABLE, IMG_NULL, IMG_NULL, 0, s3)
                       else (PVRSRV_OK, va, hm, SysSysPAddrToDevPAddr base, s3))))
       in if eError \<noteq> PVRSRV_OK then Some (eError, IMG_NULL, 0, s2)
          else if va = IMG_NULL then Some (PVRSRV_ERROR_INVALID_CPU_ADDR, IMG_NULL, 0, s2)
          else do {
            s3 \<leftarrow> zero_page va SGX_MMU_PD_SIZE s2;
            (let c = \<lparr>psMMUContext = a, pvPDCpuVAddr = va, sPDDevPAddr = pa, hPDOSMemHandle = hm, apsPTInfoList = (\<lambda>_. None)\<rparr>
             in Some (PVRSRV_OK, a, pa, s3\<lparr>pvMMUContextList := c # pvMMUContextList s3\<rparr>))
          }))"

definition MMU_Finalise :: "IMG_UINTPTR_T \<Rightarrow> MMU_STATE \<Rightarrow> MMU_STATE option" where
  "MMU_Finalise a s =
     do {
       c \<leftarrow> ctx_at a s;
       s1 \<leftarrow> zero_page (pvPDCpuVAddr c) SGX_MMU_PD_SIZE s;
       s2 \<leftarrow> (case psLocalDevMemArena s1 of
                None \<Rightarrow> OSFreePages (hPDOSMemHandle c) s1
              | Some A \<Rightarrow>
                  (let sSysPAddr = SysCpuPAddrToSysPAddr (OSMapLinToCPUPhys (hPDOSMemHandle c) (pvPDCpuVAddr c) s1)
                   in Some (local_free A sSysPAddr (OSUnMapPhysToLin (pvPDCpuVAddr c) s1))));
       Some (s2\<lparr>pvMMUContextList := remove1 c (pvMMUContextList s2), mmu_os := OSFreeMem a (mmu_os s2)\<rparr>)
     }"

fun copy_pdes :: "IMG_UINTPTR_T \<Rightarrow> IMG_UINTPTR_T \<Rightarrow> nat list \<Rightarrow> MMU_STATE \<Rightarrow> MMU_STATE option" where
  "copy_pdes dst src [] s = Some s"
| "copy_pdes dst src (i # is) s =
     do {
       c \<leftarrow> ctx_at src s;
       p \<leftarrow> page_at (pvPDCpuVAddr c) s;
       s1 \<leftarrow> write_pde dst i (p i) s;
       copy_pdes dst src is s1
     }"

definition MMU_InsertHeap :: "IMG_UINTPTR_T \<Rightarrow> MMU_HEAP \<Rightarrow> MMU_STATE \<Rightarrow> MMU_STATE option" where
  "MMU_InsertHeap a h s =
     (let i = unat (PDIndex h (BaseDevVAddr (psDevArena h)))
      in copy_pdes a (heap_psMMUContext h) [i..<i + unat (ui32PageTableCount h)] s)"

section \<open>Mapping and unmapping\<close>

definition pte_flags :: "IMG_UINT32 \<Rightarrow> IMG_UINT32" where
  "pte_flags ui32MemFlags =
     (let f = (if (PVRSRV_MEM_READ OR PVRSRV_MEM_WRITE) AND ui32MemFlags = PVRSRV_MEM_READ OR PVRSRV_MEM_WRITE then 0
               else if PVRSRV_MEM_READ AND ui32MemFlags \<noteq> 0 then SGX_MMU_PTE_READONLY
               else if PVRSRV_MEM_WRITE AND ui32MemFlags \<noteq> 0 then SGX_MMU_PTE_WRITEONLY
               else 0);
          f = (if PVRSRV_MEM_CACHE_CONSISTENT AND ui32MemFlags \<noteq> 0 then f OR SGX_MMU_PTE_CACHECONSISTENT else f)
      in if PVRSRV_MEM_EDM_PROTECT AND ui32MemFlags \<noteq> 0 then f OR SGX_MMU_PTE_EDMPROTECT else f)"

definition MMU_MapPage :: "MMU_HEAP \<Rightarrow> IMG_UINT32 \<Rightarrow> IMG_UINTPTR_T \<Rightarrow> IMG_UINT32 \<Rightarrow> MMU_STATE \<Rightarrow> MMU_STATE option" where
  "MMU_MapPage h DevVAddr DevPAddr ui32MemFlags s =
     (let i = unat (PDIndex h DevVAddr); j = unat (PTIndex h DevVAddr) in do {
        slot \<leftarrow> pt_slot (heap_psMMUContext h) i s;
        pt \<leftarrow> slot;
        p \<leftarrow> page_at (PTPageCpuVAddr pt) s;
        let s1 = set_slot (heap_psMMUContext h) i (Some (pt\<lparr>ui32ValidPTECount := ui32ValidPTECount pt + 1\<rparr>)) s;
        write_page (PTPageCpuVAddr pt) j
          (ucast (DevPAddr AND ucast (NOT (ui32DataPageMask h))) OR SGX_MMU_PTE_VALID OR pte_flags ui32MemFlags) s1
      })"

fun MMU_MapScatter_loop ::
  "MMU_HEAP \<Rightarrow> IMG_UINT32 \<Rightarrow> IMG_UINTPTR_T list \<Rightarrow> IMG_UINT32 \<Rightarrow> IMG_SIZE_T \<Rightarrow> IMG_UINT32 \<Rightarrow> MMU_STATE \<Rightarrow> MMU_STATE option" where
  "MMU_MapScatter_loop h DevVAddr [] uCnt uBytes fl s = (if uCnt < uBytes then None else Some s)"
| "MMU_MapScatter_loop h DevVAddr (a # as) uCnt uBytes fl s =
     (if uCnt < uBytes then do {
        s1 \<leftarrow> MMU_MapPage h DevVAddr (SysSysPAddrToDevPAddr a) fl s;
        MMU_MapScatter_loop h (DevVAddr + ui32DataPageSize h) as (uCnt + ui32DataPageSize h) uBytes fl s1
      }
      else Some s)"

definition MMU_MapScatter ::
  "MMU_HEAP \<Rightarrow> IMG_UINT32 \<Rightarrow> IMG_UINTPTR_T list \<Rightarrow> IMG_SIZE_T \<Rightarrow> IMG_UINT32 \<Rightarrow> MMU_STATE \<Rightarrow> MMU_STATE option" where
  "MMU_MapScatter h DevVAddr psSysAddr uBytes ui32MemFlags s = MMU_MapScatter_loop h DevVAddr psSysAddr 0 uBytes ui32MemFlags s"

partial_function (option) map_loop ::
  "MMU_HEAP \<Rightarrow> IMG_UINT32 \<Rightarrow> IMG_UINTPTR_T \<Rightarrow> IMG_UINT32 \<Rightarrow> IMG_UINT32 \<Rightarrow> IMG_SIZE_T \<Rightarrow> IMG_UINT32 \<Rightarrow> MMU_STATE \<Rightarrow> MMU_STATE option" where
  "map_loop h DevVAddr DevPAddr ui32PAdvance uCnt uBytes fl s =
     (if uCnt < uBytes then do {
        s1 \<leftarrow> MMU_MapPage h DevVAddr DevPAddr fl s;
        map_loop h (DevVAddr + ui32DataPageSize h) (DevPAddr + ucast ui32PAdvance) ui32PAdvance (uCnt + ui32DataPageSize h) uBytes fl s1
      }
      else Some s)"

definition p_advance :: "MMU_HEAP \<Rightarrow> IMG_UINT32 \<Rightarrow> IMG_UINT32" where
  "p_advance h ui32MemFlags = (if ui32MemFlags AND PVRSRV_MEM_DUMMY \<noteq> 0 then 0 else ui32DataPageSize h)"

definition MMU_MapPages ::
  "MMU_HEAP \<Rightarrow> IMG_UINT32 \<Rightarrow> IMG_UINTPTR_T \<Rightarrow> IMG_SIZE_T \<Rightarrow> IMG_UINT32 \<Rightarrow> MMU_STATE \<Rightarrow> MMU_STATE option" where
  "MMU_MapPages h DevVAddr SysPAddr uBytes ui32MemFlags s =
     map_loop h DevVAddr (SysSysPAddrToDevPAddr SysPAddr) (p_advance h ui32MemFlags) 0 uBytes ui32MemFlags s"

partial_function (option) shadow_loop ::
  "MMU_HEAP \<Rightarrow> IMG_UINT32 \<Rightarrow> IMG_UINTPTR_T \<Rightarrow> IMG_UINTPTR_T \<Rightarrow> IMG_UINT32 \<Rightarrow> IMG_UINT32 \<Rightarrow> IMG_UINT32 \<Rightarrow> IMG_SIZE_T \<Rightarrow> IMG_UINT32
    \<Rightarrow> MMU_STATE \<Rightarrow> MMU_STATE option" where
  "shadow_loop h MapDevVAddr CpuVAddr hOSMemHandle uOffset ui32PAdvance i uByteSize fl s =
     (if i < uByteSize then
        (let CpuPAddr = (if CpuVAddr \<noteq> IMG_NULL then OSMapLinToCPUPhys hOSMemHandle (CpuVAddr + ucast uOffset) s
                         else OSMemHandleToCpuPAddr hOSMemHandle uOffset s)
         in do {
           s1 \<leftarrow> MMU_MapPage h MapDevVAddr (SysCpuPAddrToDevPAddr CpuPAddr) fl s;
           shadow_loop h (MapDevVAddr + ui32DataPageSize h) CpuVAddr hOSMemHandle (uOffset + ui32PAdvance) ui32PAdvance
             (i + ui32DataPageSize h) uByteSize fl s1
         })
      else Some s)"

definition MMU_MapShadow ::
  "MMU_HEAP \<Rightarrow> IMG_UINT32 \<Rightarrow> IMG_SIZE_T \<Rightarrow> IMG_UINTPTR_T \<Rightarrow> IMG_UINTPTR_T \<Rightarrow> IMG_UINT32 \<Rightarrow> MMU_STATE \<Rightarrow> (IMG_UINT32 \<times> MMU_STATE) option" where
  "MMU_MapShadow h MapBaseDevVAddr uByteSize CpuVAddr hOSMemHandle ui32MemFlags s =
     do {
       s1 \<leftarrow> shadow_loop h MapBaseDevVAddr CpuVAddr hOSMemHandle 0 (p_advance h ui32MemFlags) 0 uByteSize ui32MemFlags s;
       Some (MapBaseDevVAddr, s1)
     }"

text \<open>Clearing one entry: the entry, and the count of the table when the entry was valid.\<close>

definition clear_entry :: "IMG_UINTPTR_T \<Rightarrow> nat \<Rightarrow> nat \<Rightarrow> MMU_PT_INFO \<Rightarrow> MMU_STATE \<Rightarrow> (MMU_PT_INFO \<times> MMU_STATE) option" where
  "clear_entry a i j pt s =
     do {
       p \<leftarrow> page_at (PTPageCpuVAddr pt) s;
       let pt1 = (if p j AND SGX_MMU_PTE_VALID \<noteq> 0 then pt\<lparr>ui32ValidPTECount := ui32ValidPTECount pt - 1\<rparr> else pt);
       s1 \<leftarrow> write_page (PTPageCpuVAddr pt) j 0 (set_slot a i (Some pt1) s);
       Some (pt1, s1)
     }"

fun unmap_loop :: "MMU_HEAP \<Rightarrow> IMG_UINT32 \<Rightarrow> nat \<Rightarrow> MMU_STATE \<Rightarrow> MMU_STATE option" where
  "unmap_loop h va 0 s = Some s"
| "unmap_loop h va (Suc n) s =
     (let i = unat (PDIndex h va); j = unat (PTIndex h va) in do {
        slot \<leftarrow> pt_slot (heap_psMMUContext h) i s;
        (case slot of
           None \<Rightarrow> unmap_loop h (va + ui32DataPageSize h) n s
         | Some pt \<Rightarrow> do {
             (_, s1) \<leftarrow> clear_entry (heap_psMMUContext h) i j pt s;
             unmap_loop h (va + ui32DataPageSize h) n s1
           })
      })"

definition MMU_UnmapPages :: "MMU_HEAP \<Rightarrow> IMG_UINT32 \<Rightarrow> IMG_UINT32 \<Rightarrow> MMU_STATE \<Rightarrow> MMU_STATE option" where
  "MMU_UnmapPages h sDevVAddr ui32PageCount s =
     do { s1 \<leftarrow> unmap_loop h sDevVAddr (unat ui32PageCount) s; Some (MMU_InvalidatePageTableCache s1) }"

text \<open>The walk that also frees the tables. It does not advance over a table without memory.\<close>

fun unmap_free_loop :: "IMG_UINT32 \<Rightarrow> nat \<Rightarrow> bool \<Rightarrow> MMU_HEAP \<Rightarrow> MMU_STATE \<Rightarrow> (bool \<times> MMU_HEAP \<times> MMU_STATE) option" where
  "unmap_free_loop va 0 b h s = Some (b, h, s)"
| "unmap_free_loop va (Suc n) b h s =
     (let i = PDIndex h va; j = unat (PTIndex h va) in do {
        slot \<leftarrow> pt_slot (heap_psMMUContext h) (unat i) s;
        (case slot of
           None \<Rightarrow> unmap_free_loop (va + ui32DataPageSize h) n b h s
         | Some pt \<Rightarrow>
             if PTPageCpuVAddr pt = IMG_NULL then unmap_free_loop va n b h s
             else do {
               (pt1, s1) \<leftarrow> clear_entry (heap_psMMUContext h) (unat i) j pt s;
               (b1, h1, s2) \<leftarrow>
                 (if ui32ValidPTECount pt1 = 0 then do {
                    (h1, s2) \<leftarrow> DeferredFreePageTable h (i - ui32PDBaseIndex h) True s1;
                    Some (True, h1, s2)
                  }
                  else Some (b, h, s1));
               unmap_free_loop (va + ui32DataPageSize h1) n b1 h1 s2
             })
      })"

definition MMU_UnmapPagesAndFreePTs ::
  "MMU_HEAP \<Rightarrow> IMG_UINT32 \<Rightarrow> IMG_UINT32 \<Rightarrow> MMU_STATE \<Rightarrow> (MMU_HEAP \<times> MMU_STATE) option" where
  "MMU_UnmapPagesAndFreePTs h sDevVAddr ui32PageCount s =
     do {
       (b, h1, s1) \<leftarrow> unmap_free_loop sDevVAddr (unat ui32PageCount) False h s;
       Some (h1, if b then MMU_InvalidateDirectoryCache s1 else MMU_InvalidatePageTableCache s1)
     }"

definition MMU_FreePageTables :: "MMU_HEAP \<Rightarrow> IMG_SIZE_T \<Rightarrow> IMG_SIZE_T \<Rightarrow> MMU_STATE \<Rightarrow> (MMU_HEAP \<times> MMU_STATE) option" where
  "MMU_FreePageTables h ui32Start ui32End s =
     MMU_UnmapPagesAndFreePTs h ui32Start (drop_bit (unat (ui32PTShift h)) (ui32End - ui32Start)) s"

section \<open>Heaps\<close>

text \<open>The callback of the arena of a heap notes the range for \<open>MMU_FreePageTables\<close>.\<close>

definition note_range :: "IMG_UINTPTR_T \<Rightarrow> IMG_SIZE_T \<Rightarrow> IMG_SIZE_T \<Rightarrow> (IMG_SIZE_T \<times> IMG_SIZE_T) list \<Rightarrow> (IMG_SIZE_T \<times> IMG_SIZE_T) list" where
  "note_range hImport ui32Start ui32End w = w @ [(ui32Start, ui32End)]"

definition MMU_Create ::
  "IMG_UINTPTR_T \<Rightarrow> DEV_ARENA_DESCRIPTOR \<Rightarrow> MMU_STATE \<Rightarrow> (MMU_HEAP option \<times> MMU_STATE) option" where
  "MMU_Create a_ctx d s =
     (let (e, a, os1) = OSAllocMem sizeof_MMU_HEAP (mmu_os s);
          s1 = s\<lparr>mmu_os := os1\<rparr>
      in if a = IMG_NULL then Some (None, s1)
         else if da_ui32DataPageSize d \<noteq> 0x1000 then Some (None, s1\<lparr>mmu_os := OSFreeMem a (mmu_os s1)\<rparr>)
         else
      (let ui32ScaleSize = 0;
           w = SGX_MMU_PAGE_SHIFT + ui32ScaleSize;
           b = SGX_MMU_PT_SHIFT - ui32ScaleSize;
           ptsize = push_bit (unat b) 1 * 4;
           ptsize = (if ptsize < 4 * 4 then 4 * 4 else ptsize);
           usable = push_bit (unat b) 1;
           total = drop_bit (unat w) (da_ui32Size d);
           pdmask = SGX_MMU_PD_MASK AND drop_bit (unat (32 - SGX_FEATURE_ADDRESS_SPACE_SIZE)) SGX_MMU_PD_MASK;
           h = \<lparr>pMMUHeap = a, heap_psMMUContext = a_ctx,
                ui32PDBaseIndex = drop_bit (unat (b + w)) (BaseDevVAddr d AND pdmask),
                ui32PageTableCount = drop_bit (unat b) (total + usable - 1),
                ui32PTETotalUsable = total, ui32PDEPageSizeCtrl = SGX_MMU_PDE_PAGE_SIZE_4K,
                ui32DataPageSize = da_ui32DataPageSize d, ui32DataPageBitWidth = w, ui32DataPageMask = da_ui32DataPageSize d - 1,
                ui32PTShift = w, ui32PTBitWidth = b, ui32PTMask = SGX_MMU_PT_MASK AND push_bit (unat ui32ScaleSize) SGX_MMU_PT_MASK,
                ui32PTSize = ptsize, ui32PTNumEntriesAllocated = drop_bit 2 ptsize, ui32PTNumEntriesUsable = usable,
                ui32PDShift = b + w, ui32PDBitWidth = SGX_FEATURE_ADDRESS_SPACE_SIZE - b - w, ui32PDMask = pdmask,
                psVMArena = None, psDevArena = d\<rparr>;
           (A, os2) = RA_Create (ucast (BaseDevVAddr d)) (da_ui32Size d) IMG_NULL (max PAGE_SIZE (da_ui32DataPageSize d)) None None
                        (Some note_range) a (\<lambda>_. 0) (mmu_os s1) [];
           s2 = s1\<lparr>mmu_os := os2\<rparr>
       in case A of
            Some A1 \<Rightarrow> Some (Some (h\<lparr>psVMArena := Some A1\<rparr>), s2)
          | None \<Rightarrow> do {
              (h1, s3) \<leftarrow> DeferredFreePageTables h s2;
              Some (None, s3\<lparr>mmu_os := OSFreeMem a (mmu_os s3)\<rparr>)
            }))"

definition MMU_Delete :: "MMU_HEAP \<Rightarrow> MMU_STATE \<Rightarrow> MMU_STATE option" where
  "MMU_Delete h s =
     (let s1 = (case psVMArena h of None \<Rightarrow> s | Some A \<Rightarrow> s\<lparr>mmu_os := RA_Delete (A\<lparr>ra_os := mmu_os s\<rparr>)\<rparr>) in do {
        (h1, s2) \<leftarrow> DeferredFreePageTables h s1;
        Some (s2\<lparr>mmu_os := OSFreeMem (pMMUHeap h) (mmu_os s2)\<rparr>)
      })"

text \<open>The arena of a heap, working on the state's heap.\<close>

definition heap_ra_free :: "IMG_UINT32 \<Rightarrow> bool \<Rightarrow> MMU_HEAP \<Rightarrow> MMU_STATE \<Rightarrow> (MMU_HEAP \<times> MMU_STATE) option" where
  "heap_ra_free va bFreeBackingStore h s =
     do {
       A \<leftarrow> psVMArena h;
       let A1 = RA_Free (ucast va) bFreeBackingStore (A\<lparr>ra_os := mmu_os s, ra_world := []\<rparr>);
       let h1 = h\<lparr>psVMArena := Some A1\<rparr>;
       let s1 = s\<lparr>mmu_os := ra_os A1\<rparr>;
       (case ra_world A1 of
          [] \<Rightarrow> Some (h1, s1)
        | (st, en) # _ \<Rightarrow> MMU_FreePageTables h1 st en s1)
     }"

definition MMU_Alloc ::
  "MMU_HEAP \<Rightarrow> IMG_SIZE_T \<Rightarrow> IMG_UINT32 \<Rightarrow> IMG_UINT32 \<Rightarrow> IMG_UINT32 \<Rightarrow> MMU_STATE
    \<Rightarrow> (bool \<times> IMG_UINT32 \<times> MMU_HEAP \<times> MMU_STATE) option" where
  "MMU_Alloc h uBytes uFlags uDevVAddrAlignment DevVAddr s =
     (let user = uFlags AND PVRSRV_MEM_USER_SUPPLIED_DEVVADDR \<noteq> 0 in do {
        (bStatus, va, h1, s1) \<leftarrow>
          (if user then Some (True, DevVAddr, h, s)
           else do {
             A \<leftarrow> psVMArena h;
             (let (ok, _, _, uiAddr, A1) = RA_Alloc uBytes 0 uDevVAddrAlignment 0 (A\<lparr>ra_os := mmu_os s\<rparr>)
              in Some (ok, if ok then ucast uiAddr else DevVAddr, h\<lparr>psVMArena := Some A1\<rparr>, s\<lparr>mmu_os := ra_os A1\<rparr>))
           });
        if \<not> bStatus then Some (False, va, h1, s1)
        else do {
          (ok, s2) \<leftarrow> DeferredAllocPagetables h1 va uBytes s1;
          if ok \<or> user then Some (ok, va, h1, s2)
          else do { (h2, s3) \<leftarrow> heap_ra_free va False h1 s2; Some (False, va, h2, s3) }
        }
      })"

definition MMU_Free :: "MMU_HEAP \<Rightarrow> IMG_UINT32 \<Rightarrow> IMG_UINT32 \<Rightarrow> MMU_STATE \<Rightarrow> (MMU_HEAP \<times> MMU_STATE) option" where
  "MMU_Free h DevVAddr ui32Size s =
     (let d = psDevArena h
      in if DevVAddr \<ge> BaseDevVAddr d \<and> DevVAddr + ui32Size \<le> BaseDevVAddr d + da_ui32Size d
         then heap_ra_free DevVAddr True h s
         else Some (h, s))"

section \<open>Queries\<close>

definition MMU_GetPhysPageAddr :: "MMU_HEAP \<Rightarrow> IMG_UINT32 \<Rightarrow> MMU_STATE \<Rightarrow> IMG_UINTPTR_T option" where
  "MMU_GetPhysPageAddr h sDevVPageAddr s =
     (let i = unat (PDIndex h sDevVPageAddr); j = unat (PTIndex h sDevVPageAddr) in do {
        slot \<leftarrow> pt_slot (heap_psMMUContext h) i s;
        (case slot of
           None \<Rightarrow> Some 0
         | Some pt \<Rightarrow> do {
             p \<leftarrow> page_at (PTPageCpuVAddr pt) s;
             if j < 1024 then Some (ucast (p j) AND ucast (NOT (ui32DataPageMask h))) else None
           })
      })"

definition MMU_GetPDDevPAddr :: "IMG_UINTPTR_T \<Rightarrow> MMU_STATE \<Rightarrow> IMG_UINTPTR_T option" where
  "MMU_GetPDDevPAddr a s = map_option sPDDevPAddr (ctx_at a s)"

definition SGXGetPhysPageAddrKM :: "MMU_HEAP \<Rightarrow> IMG_UINT32 \<Rightarrow> MMU_STATE \<Rightarrow> (PVRSRV_ERROR \<times> IMG_UINTPTR_T) option" where
  "SGXGetPhysPageAddrKM h sDevVAddr s =
     do {
       DevPAddr \<leftarrow> MMU_GetPhysPageAddr h sDevVAddr s;
       Some (if DevPAddr \<noteq> 0 then PVRSRV_OK else PVRSRV_ERROR_INVALID_PARAMS, DevPAddr)
     }"

end
