(* ===== verification/Mmu_Tables.thy ===== *)
theory Mmu_Tables
  imports Sgx_Mmu
begin

text \<open>
  The invariant of the page tables, \<open>mmu_inv\<close>, and the translation of the device, \<open>walk\<close>. A directory belongs to a context and a table to a slot of a context;
  the entry \<open>pte b n\<close> of page number \<open>n\<close> is looked up through the slots of context \<open>b\<close>, the way the driver does it. The invariant ties this
  to the directories the device reads: the entries of a directory point to the tables of the slots (of the context \<open>k\<close> for the entries \<open>SH\<close> of
  shared heaps), except for the entries \<open>U\<close> that a new context has not copied yet; no two pages share memory, all memory of the
  tables is one of them, the counts are the numbers of valid entries, and the kernel's blocks are those of the contexts and slots and the frame \<open>F\<close>.
\<close>

section \<open>Masks and indexes\<close>

lemma page_mask: "(0xFFFFF000 :: 'a :: len word) = push_bit 12 (mask 20)"
  by (simp add: mask_numeral push_bit_eq_mult)

lemma mask_entry:
  fixes p :: IMG_UINTPTR_T
  assumes "p AND 0xFFFFF000 = p"
  shows "(ucast p OR 1 :: 32 word) AND 1 \<noteq> 0" "ucast ((ucast p OR 1 :: 32 word) AND 0xFFFFF000) = p"
proof -
  show "(ucast p OR 1 :: 32 word) AND 1 \<noteq> 0"
    by (simp add: bit.conj_disj_distrib2)
  have b: "bit p n = (bit p n \<and> 12 \<le> n \<and> n < 32)" for n
  proof -
    have "bit p n = bit (p AND push_bit 12 (mask 20)) n"
      using assms by (simp only: page_mask)
    then show ?thesis
      by (auto simp: bit_and_iff bit_push_bit_iff bit_mask_iff)
  qed
  show "ucast ((ucast p OR 1 :: 32 word) AND 0xFFFFF000) = p"
    unfolding page_mask
  proof (rule bit_word_eqI)
    fix n assume n: "n < LENGTH(64)"
    show "bit (ucast ((ucast p OR 1 :: 32 word) AND push_bit 12 (mask 20)) :: 64 word) n = bit p n"
      using b [of n] n
      by (auto simp: bit_and_iff bit_or_iff bit_push_bit_iff bit_mask_iff bit_ucast_iff bit_1_iff)
  qed
qed

lemma unat_pd: "unat (drop_bit 22 (va :: 32 word)) = unat va div 4096 div 1024"
  by (simp add: unat_drop_bit_eq div_mult2_eq [symmetric] drop_bit_nat_def del: drop_bit_eq_div)

lemma unat_pt: "unat (drop_bit 12 (va AND 0x3FF000 :: 32 word)) = unat va div 4096 mod 1024"
proof -
  have "drop_bit 12 (va AND 0x3FF000 :: 32 word) = take_bit 10 (drop_bit 12 va)"
    by (simp add: drop_bit_and take_bit_eq_mask mask_numeral)
  then show ?thesis
    by (simp add: unsigned_take_bit_eq unat_drop_bit_eq take_bit_nat_def drop_bit_nat_def)
qed

section \<open>The shape of a heap\<close>

definition heap_geometry :: "MMU_HEAP \<Rightarrow> bool" where
  "heap_geometry h \<longleftrightarrow>
     ui32DataPageSize h = 0x1000 \<and> ui32DataPageMask h = 0xFFF \<and> ui32PTShift h = 12 \<and> ui32PTMask h = 0x3FF000 \<and>
     ui32PDShift h = 22 \<and> ui32PTSize h = 0x1000 \<and> ui32PTNumEntriesUsable h = 1024 \<and> ui32PDEPageSizeCtrl h = 0 \<and>
     ui32PDBaseIndex h = drop_bit 22 (BaseDevVAddr (psDevArena h))"

definition vpn :: "IMG_UINT32 \<Rightarrow> nat" where "vpn va = unat va div 4096"

lemma vpn_less: "vpn va < 1048576"
proof -
  have "unat va < 2 ^ LENGTH(32)"
    by (rule unsigned_less)
  then show ?thesis
    by (simp add: vpn_def)
qed

lemma heap_indexes:
  assumes "heap_geometry h"
  shows "unat (PDIndex h va) = vpn va div 1024" "unat (PTIndex h va) = vpn va mod 1024"
  using assms unat_pd [of va] unat_pt [of va]
  by (simp_all add: heap_geometry_def PDIndex_def PTIndex_def vpn_def del: drop_bit_eq_div)

lemma vpn_add:
  assumes "vpn va + 1 < 1048576"
  shows "vpn (va + 0x1000) = vpn va + 1"
proof -
  have "unat va + 4096 < 2 ^ 32"
    using assms by (simp add: vpn_def)
  then have "unat (va + 0x1000) = unat va + 4096"
    by (simp add: unat_word_ariths)
  then show ?thesis
    by (simp add: vpn_def)
qed

section \<open>Slots\<close>

lemma find_map_ctx:
  "\<forall>c. psMMUContext (f c) = psMMUContext c \<Longrightarrow>
     List.find (\<lambda>c. psMMUContext c = a) (map f cs) = map_option f (List.find (\<lambda>c. psMMUContext c = a) cs)"
  by (induction cs) auto

lemma find_ctx_id: "List.find (\<lambda>c. psMMUContext c = a) cs = Some c \<Longrightarrow> psMMUContext c = a \<and> c \<in> set cs"
  by (auto simp: find_Some_iff)

lemma ctx_at_id: "ctx_at a s = Some c \<Longrightarrow> psMMUContext c = a"
  by (auto simp: ctx_at_def dest: find_ctx_id)

lemma ctx_at_set_slot [simp]:
  "ctx_at a (set_slot b i x s) =
     map_option (\<lambda>c. if a = b then c\<lparr>apsPTInfoList := (apsPTInfoList c)(i := x)\<rparr> else c) (ctx_at a s)"
  unfolding ctx_at_def set_slot_def
  by (auto simp: find_map_ctx dest!: find_ctx_id split: option.splits intro!: map_option_cong)

lemma pt_slot_set_slot [simp]:
  "pt_slot a j (set_slot b i x s) =
     (if a = b \<and> i = j then map_option (\<lambda>_. x) (pt_slot a j s) else pt_slot a j s)"
  by (auto simp: pt_slot_def option.map_comp comp_def intro!: map_option_cong)

lemma set_slot_more [simp]:
  "mmu_mem (set_slot b i x s) = mmu_mem s" "cpu_map (set_slot b i x s) = cpu_map s"
  "area_va (set_slot b i x s) = area_va s" "area_pa (set_slot b i x s) = area_pa s"
  "page_allocs (set_slot b i x s) = page_allocs s" "psLocalDevMemArena (set_slot b i x s) = psLocalDevMemArena s"
  "mmu_os (set_slot b i x s) = mmu_os s" "ui32CacheControl (set_slot b i x s) = ui32CacheControl s"
  "map psMMUContext (pvMMUContextList (set_slot b i x s)) = map psMMUContext (pvMMUContextList s)"
  "page_at va (set_slot b i x s) = page_at va s"
  by (auto simp: set_slot_def page_at_def)

lemma ctx_at_cong: "pvMMUContextList s' = pvMMUContextList s \<Longrightarrow> ctx_at a s' = ctx_at a s"
  by (simp add: ctx_at_def)

lemma pt_slot_cong: "pvMMUContextList s' = pvMMUContextList s \<Longrightarrow> pt_slot a i s' = pt_slot a i s"
  by (simp add: pt_slot_def ctx_at_def)

lemma set_page_more [simp]:
  "mmu_mem (set_page v p s) = (mmu_mem s)(cpu_map s v \<mapsto> p)" "cpu_map (set_page v p s) = cpu_map s"
  "area_va (set_page v p s) = area_va s" "area_pa (set_page v p s) = area_pa s"
  "page_allocs (set_page v p s) = page_allocs s" "psLocalDevMemArena (set_page v p s) = psLocalDevMemArena s"
  "mmu_os (set_page v p s) = mmu_os s" "ui32CacheControl (set_page v p s) = ui32CacheControl s"
  "pvMMUContextList (set_page v p s) = pvMMUContextList s"
  "ctx_at a (set_page v p s) = ctx_at a s" "pt_slot a i (set_page v p s) = pt_slot a i s"
  by (auto simp: set_page_def ctx_at_def pt_slot_def)

section \<open>The invariant\<close>

text \<open>Where the pages of a state are: the directory of a context (\<open>(a, None)\<close>) and the table of a slot (\<open>(a, Some i)\<close>).\<close>

definition dir_pa :: "IMG_UINTPTR_T \<Rightarrow> MMU_STATE \<Rightarrow> IMG_UINTPTR_T option" where
  "dir_pa a s = map_option sPDDevPAddr (ctx_at a s)"

definition tab_pa :: "IMG_UINTPTR_T \<Rightarrow> nat \<Rightarrow> MMU_STATE \<Rightarrow> IMG_UINTPTR_T option" where
  "tab_pa b i s =
     (case pt_slot b i s of
        Some (Some pt) \<Rightarrow> if PTPageCpuVAddr pt = IMG_NULL then None else Some (cpu_map s (PTPageCpuVAddr pt))
      | _ \<Rightarrow> None)"

definition role_pa :: "IMG_UINTPTR_T \<times> nat option \<Rightarrow> MMU_STATE \<Rightarrow> IMG_UINTPTR_T option" where
  "role_pa r s = (case r of (a, None) \<Rightarrow> dir_pa a s | (a, Some i) \<Rightarrow> tab_pa a i s)"

definition pde :: "IMG_UINTPTR_T \<Rightarrow> nat \<Rightarrow> MMU_STATE \<Rightarrow> IMG_UINT32" where
  "pde b i s = (case tab_pa b i s of None \<Rightarrow> 0 | Some x \<Rightarrow> ucast x OR 1)"

definition pte :: "IMG_UINTPTR_T \<Rightarrow> nat \<Rightarrow> MMU_STATE \<Rightarrow> IMG_UINT32" where
  "pte b n s =
     (case tab_pa b (n div 1024) s of
        None \<Rightarrow> 0
      | Some x \<Rightarrow> (case mmu_mem s x of None \<Rightarrow> 0 | Some p \<Rightarrow> p (n mod 1024)))"

definition owner :: "IMG_UINTPTR_T \<Rightarrow> nat set \<Rightarrow> IMG_UINTPTR_T \<Rightarrow> nat \<Rightarrow> IMG_UINTPTR_T" where
  "owner k SH a i = (if i \<in> SH then k else a)"

definition page_entries :: "IMG_UINT32 \<Rightarrow> page \<Rightarrow> bool" where
  "page_entries n p \<longleftrightarrow> (\<forall>j < 1024. p j = 0 \<or> p j AND 1 \<noteq> 0) \<and> unat n = card {j. j < 1024 \<and> p j \<noteq> 0}"

definition slot_ok :: "MMU_STATE \<Rightarrow> MMU_PT_INFO \<Rightarrow> bool" where
  "slot_ok s pt \<longleftrightarrow>
     (if PTPageCpuVAddr pt = IMG_NULL then hPTPageOSMemHandle pt = IMG_NULL \<and> ui32ValidPTECount pt = 0
      else area_va s (hPTPageOSMemHandle pt) = PTPageCpuVAddr pt \<and>
        (\<exists>p. mmu_mem s (cpu_map s (PTPageCpuVAddr pt)) = Some p \<and> page_entries (ui32ValidPTECount pt) p))"

definition ctx_ok :: "MMU_STATE \<Rightarrow> MMU_CONTEXT \<Rightarrow> bool" where
  "ctx_ok s c \<longleftrightarrow>
     pvPDCpuVAddr c \<noteq> IMG_NULL \<and> cpu_map s (pvPDCpuVAddr c) = sPDDevPAddr c \<and> area_va s (hPDOSMemHandle c) = pvPDCpuVAddr c"

definition env_ok :: "MMU_STATE \<Rightarrow> bool" where
  "env_ok s \<longleftrightarrow>
     psLocalDevMemArena s = None \<and> os_ok (mmu_os s) \<and>
     (\<forall>(va, h, p) \<in> set (page_allocs s).
        h \<noteq> IMG_NULL \<longrightarrow> va \<noteq> IMG_NULL \<and> area_va s h = va \<and> area_pa s h 0 = cpu_map s va \<and>
          cpu_map s va AND 0xFFFFF000 = cpu_map s va)"

definition mem_ok :: "MMU_STATE \<Rightarrow> bool" where
  "mem_ok s \<longleftrightarrow>
     (\<forall>r r' x. role_pa r s = Some x \<longrightarrow> role_pa r' s = Some x \<longrightarrow> r = r') \<and>
     (\<forall>x. mmu_mem s x \<noteq> None \<longleftrightarrow> (\<exists>r. role_pa r s = Some x)) \<and>
     (\<forall>r x. role_pa r s = Some x \<longrightarrow> x AND 0xFFFFF000 = x)"

definition slots_ok :: "MMU_STATE \<Rightarrow> bool" where
  "slots_ok s \<longleftrightarrow> (\<forall>b i pt. pt_slot b i s = Some (Some pt) \<longrightarrow> slot_ok s pt)"

definition ctxs_ok :: "MMU_STATE \<Rightarrow> bool" where
  "ctxs_ok s \<longleftrightarrow> distinct (map psMMUContext (pvMMUContextList s)) \<and> (\<forall>a c. ctx_at a s = Some c \<longrightarrow> ctx_ok s c)"

definition dirs_ok :: "IMG_UINTPTR_T \<Rightarrow> nat set \<Rightarrow> (IMG_UINTPTR_T \<Rightarrow> nat set) \<Rightarrow> MMU_STATE \<Rightarrow> bool" where
  "dirs_ok k SH U s \<longleftrightarrow>
     (\<forall>a x d i. dir_pa a s = Some x \<longrightarrow> mmu_mem s x = Some d \<longrightarrow> i < 1024 \<longrightarrow>
        d i = pde (owner k SH a i) i s \<or> i \<in> U a \<and> d i = 0)"

definition shared_ok :: "IMG_UINTPTR_T \<Rightarrow> nat set \<Rightarrow> MMU_STATE \<Rightarrow> bool" where
  "shared_ok k SH s \<longleftrightarrow> (\<forall>b i pt. i \<in> SH \<longrightarrow> pt_slot b i s = Some (Some pt) \<longrightarrow> b = k)"

definition slot_block :: "MMU_PT_INFO option \<Rightarrow> IMG_UINTPTR_T multiset" where
  "slot_block x = (case x of None \<Rightarrow> {#} | Some pt \<Rightarrow> {#psPTInfo pt#})"

definition ctx_blocks :: "MMU_CONTEXT \<Rightarrow> IMG_UINTPTR_T multiset" where
  "ctx_blocks c = add_mset (psMMUContext c) (\<Sum>i\<leftarrow>[0..<1024]. slot_block (apsPTInfoList c i))"

definition mmu_blocks :: "MMU_STATE \<Rightarrow> IMG_UINTPTR_T multiset" where
  "mmu_blocks s = (\<Sum>c\<leftarrow>pvMMUContextList s. ctx_blocks c)"

definition mmu_inv ::
  "IMG_UINTPTR_T \<Rightarrow> nat set \<Rightarrow> (IMG_UINTPTR_T \<Rightarrow> nat set) \<Rightarrow> IMG_UINTPTR_T multiset \<Rightarrow> MMU_STATE \<Rightarrow> bool" where
  "mmu_inv k SH U F s \<longleftrightarrow>
     ctxs_ok s \<and> slots_ok s \<and> mem_ok s \<and> dirs_ok k SH U s \<and> shared_ok k SH s \<and> env_ok s \<and>
     blocks (mmu_os s) = mmu_blocks s + F"

section \<open>Writing an entry of a table\<close>

text \<open>Mapping and clearing a page both write one entry of the table of a slot and its count.\<close>

definition put_entry :: "IMG_UINTPTR_T \<Rightarrow> nat \<Rightarrow> MMU_PT_INFO \<Rightarrow> IMG_UINT32 \<Rightarrow> nat \<Rightarrow> IMG_UINT32 \<Rightarrow> page \<Rightarrow> MMU_STATE \<Rightarrow> MMU_STATE" where
  "put_entry b i pt c j e p s = set_page (PTPageCpuVAddr pt) (p(j := e)) (set_slot b i (Some (pt\<lparr>ui32ValidPTECount := c\<rparr>)) s)"

lemma put_entry_more [simp]:
  "cpu_map (put_entry b i pt c j e p s) = cpu_map s" "area_va (put_entry b i pt c j e p s) = area_va s"
  "area_pa (put_entry b i pt c j e p s) = area_pa s" "page_allocs (put_entry b i pt c j e p s) = page_allocs s"
  "psLocalDevMemArena (put_entry b i pt c j e p s) = psLocalDevMemArena s" "mmu_os (put_entry b i pt c j e p s) = mmu_os s"
  "ui32CacheControl (put_entry b i pt c j e p s) = ui32CacheControl s"
  "map psMMUContext (pvMMUContextList (put_entry b i pt c j e p s)) = map psMMUContext (pvMMUContextList s)"
  "mmu_mem (put_entry b i pt c j e p s) = (mmu_mem s)(cpu_map s (PTPageCpuVAddr pt) \<mapsto> p(j := e))"
  by (simp_all add: put_entry_def)

lemma dir_pa_put_entry [simp]: "dir_pa a (put_entry b i pt c j e p s) = dir_pa a s"
  by (simp add: dir_pa_def put_entry_def option.map_comp comp_def if_distrib [of sPDDevPAddr] cong: if_cong)

lemma pt_slot_put_entry:
  assumes "pt_slot b i s = Some (Some pt)"
  shows "pt_slot a n (put_entry b i pt c j e p s) =
    (if a = b \<and> n = i then Some (Some (pt\<lparr>ui32ValidPTECount := c\<rparr>)) else pt_slot a n s)"
  using assms by (auto simp: put_entry_def)

lemma tab_pa_put_entry:
  assumes "pt_slot b i s = Some (Some pt)"
  shows "tab_pa a n (put_entry b i pt c j e p s) = tab_pa a n s"
  using assms by (auto simp: tab_pa_def pt_slot_put_entry split: option.splits)

lemma role_pa_put_entry:
  assumes "pt_slot b i s = Some (Some pt)"
  shows "role_pa r (put_entry b i pt c j e p s) = role_pa r s"
  using assms by (auto simp: role_pa_def tab_pa_put_entry split: prod.splits option.splits)

lemma slot_tab:
  assumes "pt_slot b i s = Some (Some pt)" "page_at (PTPageCpuVAddr pt) s = Some p"
  shows "tab_pa b i s = Some (cpu_map s (PTPageCpuVAddr pt))" "mmu_mem s (cpu_map s (PTPageCpuVAddr pt)) = Some p"
    "PTPageCpuVAddr pt \<noteq> IMG_NULL"
  using assms by (auto simp: tab_pa_def page_at_def split: if_splits)

lemma mem_ok_inj: "mem_ok s \<Longrightarrow> role_pa r s = Some x \<Longrightarrow> role_pa r' s = Some x \<Longrightarrow> r = r'"
  unfolding mem_ok_def by blast

lemma mem_ok_tab_inj: "mem_ok s \<Longrightarrow> tab_pa b i s = Some x \<Longrightarrow> tab_pa b' i' s = Some x \<Longrightarrow> b = b' \<and> i = i'"
  using mem_ok_inj [of s "(b, Some i)" x "(b', Some i')"] by (simp add: role_pa_def)

lemma mem_ok_tab_dir: "mem_ok s \<Longrightarrow> tab_pa b i s = Some x \<Longrightarrow> dir_pa a s \<noteq> Some x"
  using mem_ok_inj [of s "(b, Some i)" x "(a, None)"] by (auto simp: role_pa_def)

lemma mem_ok_dir_inj: "mem_ok s \<Longrightarrow> dir_pa a s = Some x \<Longrightarrow> dir_pa a' s = Some x \<Longrightarrow> a = a'"
  using mem_ok_inj [of s "(a, None)" x "(a', None)"] by (simp add: role_pa_def)

lemma slot_block_sum:
  "i < n \<Longrightarrow> (\<Sum>j\<leftarrow>[0..<n]. slot_block ((f(i := x)) j)) + slot_block (f i) = (\<Sum>j\<leftarrow>[0..<n]. slot_block (f j)) + slot_block x"
proof (induction n)
  case (Suc n)
  have eq: "(\<Sum>j\<leftarrow>[0..<n]. slot_block ((f(n := x)) j)) = (\<Sum>j\<leftarrow>[0..<n]. slot_block (f j))"
    by (intro arg_cong [where f = sum_list] map_cong) auto
  show ?case
  proof (cases "i = n")
    case True
    then show ?thesis
      using eq by (simp add: ac_simps del: fun_upd_apply map_eq_conv) (simp add: ac_simps)
  next
    case False
    then show ?thesis
      using Suc by (simp add: ac_simps)
  qed
qed simp

lemma mmu_blocks_set_slot:
  assumes "ctxs_ok s" "pt_slot b i s = Some x"
  shows "mmu_blocks (set_slot b i y s) + slot_block x = mmu_blocks s + slot_block y"
proof -
  have *: "(\<Sum>c\<leftarrow>map (\<lambda>c. if psMMUContext c = b then c\<lparr>apsPTInfoList := (apsPTInfoList c)(i := y)\<rparr> else c) cs. ctx_blocks c) + slot_block x
      = (\<Sum>c\<leftarrow>cs. ctx_blocks c) + slot_block y"
    if "distinct (map psMMUContext cs)" "List.find (\<lambda>c. psMMUContext c = b) cs = Some c0" "apsPTInfoList c0 i = x" "i < 1024" for cs c0
    using that
  proof (induction cs)
    case (Cons c cs)
    show ?case
    proof (cases "psMMUContext c = b")
      case True
      then have "c = c0" "b \<notin> psMMUContext ` set cs"
        using Cons.prems by auto
      then have "map (\<lambda>c. if psMMUContext c = b then c\<lparr>apsPTInfoList := (apsPTInfoList c)(i := y)\<rparr> else c) cs = cs"
        by (intro map_idI) auto
      moreover have "ctx_blocks (c\<lparr>apsPTInfoList := (apsPTInfoList c)(i := y)\<rparr>) + slot_block x = ctx_blocks c + slot_block y"
        using slot_block_sum [of i 1024 "apsPTInfoList c" y] \<open>c = c0\<close> Cons.prems
        by (simp add: ctx_blocks_def)
      ultimately show ?thesis
        using True by (simp add: ac_simps)
    next
      case False
      then show ?thesis
        using Cons by (simp add: ac_simps)
    qed
  qed simp
  show ?thesis
    using assms * [of "pvMMUContextList s"]
    by (auto simp: mmu_blocks_def set_slot_def ctxs_ok_def pt_slot_def ctx_at_def SGX_MAX_PD_ENTRIES_def split: if_splits)
qed

lemma slot_block_put [simp]: "slot_block (Some (pt\<lparr>ui32ValidPTECount := c\<rparr>)) = slot_block (Some pt)"
  by (simp add: slot_block_def)

lemma mmu_blocks_set_page [simp]: "mmu_blocks (set_page v p s) = mmu_blocks s"
  by (simp add: mmu_blocks_def)

lemma role_pa_simps [simp]: "role_pa (a, None) s = dir_pa a s" "role_pa (a, Some i) s = tab_pa a i s"
  by (simp_all add: role_pa_def)

lemma put_entry_pte:
  assumes "mem_ok s" "pt_slot b i s = Some (Some pt)" "page_at (PTPageCpuVAddr pt) s = Some p" "j < 1024"
  shows "pte a n (put_entry b i pt c j e p s) = (if a = b \<and> n = 1024 * i + j then e else pte a n s)"
proof -
  note t = slot_tab [OF assms(2,3)]
  show ?thesis
  proof (cases "a = b \<and> n div 1024 = i")
    case True
    then have "(n = 1024 * i + j) = (n mod 1024 = j)"
      using assms(4) by (metis div_mult_mod_eq mult.commute div_mult_self4 mod_less mod_mult_self3 add_left_cancel)
    then show ?thesis
      using True t by (simp add: pte_def tab_pa_put_entry [OF assms(2)])
  next
    case False
    then have "\<not> (a = b \<and> n = 1024 * i + j)"
      using assms(4) by auto
    moreover have "tab_pa a (n div 1024) s \<noteq> Some (cpu_map s (PTPageCpuVAddr pt))"
      using False t(1) mem_ok_tab_inj [OF assms(1)] by blast
    ultimately show ?thesis
      by (auto simp: pte_def tab_pa_put_entry [OF assms(2)] split: option.splits)
  qed
qed

lemma put_entry_slots_ok:
  assumes "slots_ok s" "mem_ok s" and sl: "pt_slot b i s = Some (Some pt)" and pg: "page_at (PTPageCpuVAddr pt) s = Some p"
    and ok: "page_entries c (p(j := e))"
  shows "slots_ok (put_entry b i pt c j e p s)"
  unfolding slots_ok_def
proof (intro allI impI)
  fix b' i' q
  note t = slot_tab [OF sl pg]
  assume q: "pt_slot b' i' (put_entry b i pt c j e p s) = Some (Some q)"
  have ok0: "slot_ok s pt"
    using assms(1) sl by (simp add: slots_ok_def)
  show "slot_ok (put_entry b i pt c j e p s) q"
  proof (cases "b' = b \<and> i' = i")
    case True
    then show ?thesis
      using q t(3) ok0 ok by (auto simp: pt_slot_put_entry [OF sl] slot_ok_def)
  next
    case False
    then have q': "pt_slot b' i' s = Some (Some q)"
      using q by (auto simp: pt_slot_put_entry [OF sl] split: if_splits)
    then have "slot_ok s q"
      using assms(1) by (simp add: slots_ok_def)
    moreover have "PTPageCpuVAddr q \<noteq> IMG_NULL \<Longrightarrow> cpu_map s (PTPageCpuVAddr q) \<noteq> cpu_map s (PTPageCpuVAddr pt)"
      using mem_ok_tab_inj [OF assms(2) t(1), of b' i'] q' False by (auto simp: tab_pa_def)
    ultimately show ?thesis
      by (auto simp: slot_ok_def)
  qed
qed

lemma put_entry_mem_ok:
  assumes "mem_ok s" "pt_slot b i s = Some (Some pt)" "page_at (PTPageCpuVAddr pt) s = Some p"
  shows "mem_ok (put_entry b i pt c j e p s)"
proof -
  have "role_pa (b, Some i) s = Some (cpu_map s (PTPageCpuVAddr pt))"
    using slot_tab [OF assms(2,3)] by simp
  then show ?thesis
    using assms(1) unfolding mem_ok_def role_pa_put_entry [OF assms(2)]
    by (simp del: role_pa_simps) blast
qed

lemma put_entry_dirs_ok:
  assumes "dirs_ok k SH U s" "mem_ok s" "pt_slot b i s = Some (Some pt)" "page_at (PTPageCpuVAddr pt) s = Some p"
  shows "dirs_ok k SH U (put_entry b i pt c j e p s)"
proof -
  have "dir_pa a s \<noteq> Some (cpu_map s (PTPageCpuVAddr pt))" for a
    using slot_tab(1) [OF assms(3,4)] mem_ok_tab_dir [OF assms(2)] by blast
  then show ?thesis
    using assms(1) by (auto simp: dirs_ok_def pde_def tab_pa_put_entry [OF assms(3)])
qed

lemma put_entry_ctxs_ok: "ctxs_ok s \<Longrightarrow> ctxs_ok (put_entry b i pt c j e p s)"
  unfolding ctxs_ok_def put_entry_more ctx_ok_def
  by (auto simp: put_entry_def)

lemma put_entry_shared_ok: "shared_ok k SH s \<Longrightarrow> pt_slot b i s = Some (Some pt) \<Longrightarrow> shared_ok k SH (put_entry b i pt c j e p s)"
  by (auto simp: shared_ok_def pt_slot_put_entry split: if_splits)

lemma put_entry_inv:
  assumes "mmu_inv k SH U F s" "pt_slot b i s = Some (Some pt)" "page_at (PTPageCpuVAddr pt) s = Some p"
    "page_entries c (p(j := e))"
  shows "mmu_inv k SH U F (put_entry b i pt c j e p s)"
proof -
  have "mmu_blocks (put_entry b i pt c j e p s) = mmu_blocks s"
    using mmu_blocks_set_slot [of s b i "Some pt" "Some (pt\<lparr>ui32ValidPTECount := c\<rparr>)"] assms(1,2)
    by (simp add: put_entry_def mmu_inv_def)
  then show ?thesis
    using assms put_entry_ctxs_ok put_entry_slots_ok put_entry_mem_ok put_entry_dirs_ok put_entry_shared_ok
    by (simp add: mmu_inv_def env_ok_def)
qed

section \<open>The translation of the device\<close>

text \<open>The walk of the hardware: from the physical address of the directory, through an entry with the valid bit, to the entry of a page. The
  result is that entry, or \<open>None\<close> when one of the two is not valid or there is no memory behind it.\<close>

definition walk :: "IMG_UINTPTR_T \<Rightarrow> IMG_UINT32 \<Rightarrow> MMU_STATE \<Rightarrow> IMG_UINT32 option" where
  "walk a va s =
     do {
       pd \<leftarrow> dir_pa a s;
       d \<leftarrow> mmu_mem s pd;
       let e = d (unat (drop_bit 22 va));
       if e AND SGX_MMU_PDE_VALID = 0 then None else do {
         t \<leftarrow> mmu_mem s (ucast (e AND SGX_MMU_PDE_ADDR_MASK));
         let f = t (unat (drop_bit 12 (va AND SGX_MMU_PT_MASK)));
         if f AND SGX_MMU_PTE_VALID = 0 then None else Some f
       }
     }"

lemma mem_ok_mem: "mem_ok s \<Longrightarrow> role_pa r s = Some x \<Longrightarrow> \<exists>p. mmu_mem s x = Some p"
  unfolding mem_ok_def by blast

lemma table_pte:
  assumes "slots_ok s" "pt_slot b i s = Some (Some pt)" "mmu_mem s (cpu_map s (PTPageCpuVAddr pt)) = Some p" "PTPageCpuVAddr pt \<noteq> IMG_NULL"
  shows "page_entries (ui32ValidPTECount pt) p"
proof -
  have "slot_ok s pt"
    using assms(1,2) by (simp add: slots_ok_def)
  then show ?thesis
    using assms(3,4) by (simp add: slot_ok_def)
qed

lemma tab_pa_some:
  assumes "tab_pa b i s = Some x"
  obtains pt where "pt_slot b i s = Some (Some pt)" "PTPageCpuVAddr pt \<noteq> IMG_NULL" "x = cpu_map s (PTPageCpuVAddr pt)"
  using assms by (auto simp: tab_pa_def split: option.splits if_splits)

lemma walk_pte:
  assumes inv: "mmu_inv k SH U F s" and a: "ctx_at a s \<noteq> None" and u: "vpn va div 1024 \<notin> U a"
  shows "walk a va s = (let e = pte (owner k SH a (vpn va div 1024)) (vpn va) s in if e = 0 then None else Some e)"
proof -
  let ?i = "vpn va div 1024" let ?b = "owner k SH a ?i"
  have m: "mem_ok s" and sl: "slots_ok s" and dk: "dirs_ok k SH U s"
    using inv by (simp_all add: mmu_inv_def)
  have ix: "unat (drop_bit 22 va) = ?i" "unat (drop_bit 12 (va AND 0x3FF000)) = vpn va mod 1024"
    using unat_pd [of va] unat_pt [of va] by (simp_all add: vpn_def del: drop_bit_eq_div)
  note w = walk_def [of a va s, unfolded mmu_consts ix]
  obtain x where x: "dir_pa a s = Some x"
    using a by (auto simp: dir_pa_def)
  obtain d where d: "mmu_mem s x = Some d"
    using mem_ok_mem [OF m, of "(a, None)"] x by auto
  have "?i < 1024"
    using vpn_less [of va] by simp
  then have e: "d ?i = pde ?b ?i s"
    using dk x d u unfolding dirs_ok_def by blast
  show ?thesis
  proof (cases "tab_pa ?b ?i s")
    case None
    then show ?thesis
      using x d e by (simp add: w pde_def pte_def)
  next
    case (Some y)
    then obtain pt where pt: "pt_slot ?b ?i s = Some (Some pt)" "PTPageCpuVAddr pt \<noteq> IMG_NULL" "y = cpu_map s (PTPageCpuVAddr pt)"
      by (rule tab_pa_some)
    obtain p where p: "mmu_mem s y = Some p"
      using mem_ok_mem [OF m, of "(?b, Some ?i)"] Some by auto
    have ok: "page_entries (ui32ValidPTECount pt) p"
      using table_pte [OF sl pt(1)] p pt by simp
    have al: "y AND 0xFFFFF000 = y"
      using m Some unfolding mem_ok_def by (metis role_pa_simps(2))
    have "p (vpn va mod 1024) = 0 \<or> p (vpn va mod 1024) AND 1 \<noteq> 0"
      using ok by (simp add: page_entries_def)
    then show ?thesis
      using x d e p Some mask_entry [OF al]
      by (auto simp: w pde_def pte_def Let_def)
  qed
qed

end
