(* ===== verification/Mmu_Mapping.thy ===== *)
theory Mmu_Mapping
  imports Mmu_Tables
begin

text \<open>
  Mapping, unmapping and looking up pages of a heap, in terms of the entry \<open>pte\<close> of a page number.
\<close>

section \<open>Counts\<close>

lemma page_entries_bound: "page_entries c p \<Longrightarrow> unat c \<le> 1024"
  using card_mono [of "{..<1024 :: nat}" "{j. j < 1024 \<and> p j \<noteq> 0}"] by (auto simp: page_entries_def)

lemma page_entries_set:
  assumes "page_entries c p" "j < 1024" "p j = 0" "e AND 1 \<noteq> 0"
  shows "page_entries (c + 1) (p(j := e))"
proof -
  have "e \<noteq> 0"
    using assms(4) by auto
  then have "{i. i < 1024 \<and> (p(j := e)) i \<noteq> 0} = insert j {i. i < 1024 \<and> p i \<noteq> 0}"
    using assms(2) by auto
  moreover have "unat (c + 1) = unat c + 1"
    using page_entries_bound [OF assms(1)] by (simp add: unat_word_ariths)
  ultimately show ?thesis
    using assms by (simp add: page_entries_def)
qed

lemma page_entries_clear:
  assumes "page_entries c p" "j < 1024"
  shows "page_entries (if p j AND 1 \<noteq> 0 then c - 1 else c) (p(j := 0))"
proof -
  have eq: "{i. i < 1024 \<and> (p(j := 0)) i \<noteq> 0} = {i. i < 1024 \<and> p i \<noteq> 0} - {j}"
    by auto
  have j: "p j = 0 \<or> p j AND 1 \<noteq> 0"
    using assms by (auto simp: page_entries_def)
  show ?thesis
  proof (cases "p j AND 1 \<noteq> 0")
    case True
    then have "p j \<noteq> 0"
      by auto
    then have mem: "j \<in> {i. i < 1024 \<and> p i \<noteq> 0}"
      using assms(2) by simp
    then have "0 < unat c"
      using assms(1) by (auto simp: page_entries_def card_gt_0_iff)
    then have "unat (c - 1) = unat c - 1"
      by (simp add: unat_gt_0 unat_minus_one)
    moreover have "card {i. i < 1024 \<and> (p(j := 0)) i \<noteq> 0} = card {i. i < 1024 \<and> p i \<noteq> 0} - 1"
      unfolding eq using mem by (rule card_Diff_singleton)
    ultimately show ?thesis
      using assms True by (simp add: page_entries_def del: fun_upd_apply) simp
  next
    case False
    then have "p(j := 0) = p"
      using j by auto
    then show ?thesis
      using assms False by simp
  qed
qed

lemma page_entries_0: "page_entries 0 p \<Longrightarrow> i < 1024 \<Longrightarrow> p i = 0"
  by (simp add: page_entries_def)

lemma page_entries_zero: "page_entries 0 p \<longleftrightarrow> (\<forall>i < 1024. p i = 0)"
  by (auto simp: page_entries_def)

section \<open>Mapping one page\<close>

definition map_entry :: "IMG_UINTPTR_T \<Rightarrow> IMG_UINT32 \<Rightarrow> IMG_UINT32" where
  "map_entry pa fl = ucast (pa AND 0xFFFFF000) OR SGX_MMU_PTE_VALID OR pte_flags fl"

text \<open>What mapping and unmapping leave alone: where the tables and directories are, and the allocators.\<close>

definition same_tables :: "MMU_STATE \<Rightarrow> MMU_STATE \<Rightarrow> bool" where
  "same_tables s s' \<longleftrightarrow>
     (\<forall>r. role_pa r s' = role_pa r s) \<and>
     (\<forall>a i. (pt_slot a i s' = Some None) = (pt_slot a i s = Some None)) \<and> (\<forall>a. (ctx_at a s' = None) = (ctx_at a s = None)) \<and>
     map psMMUContext (pvMMUContextList s') = map psMMUContext (pvMMUContextList s) \<and>
     cpu_map s' = cpu_map s \<and> area_va s' = area_va s \<and> area_pa s' = area_pa s \<and>
     page_allocs s' = page_allocs s \<and> mmu_os s' = mmu_os s"

lemma same_tables_refl [simp]: "same_tables s s"
  by (simp add: same_tables_def)

lemma same_tables_trans: "same_tables s s' \<Longrightarrow> same_tables s' s'' \<Longrightarrow> same_tables s s''"
  by (simp add: same_tables_def)

lemma same_tables_tab: "same_tables s s' \<Longrightarrow> tab_pa b i s' = tab_pa b i s"
  unfolding same_tables_def by (metis role_pa_simps(2))

lemma put_entry_same_tables: "pt_slot b i s = Some (Some pt) \<Longrightarrow> same_tables s (put_entry b i pt c j e p s)"
  by (simp add: same_tables_def role_pa_put_entry pt_slot_put_entry) (simp add: put_entry_def)

lemma slot_of_tab:
  assumes "mmu_inv k SH U F s" "tab_pa b i s = Some x"
  obtains pt p where "pt_slot b i s = Some (Some pt)" "page_at (PTPageCpuVAddr pt) s = Some p"
    "page_entries (ui32ValidPTECount pt) p" "x = cpu_map s (PTPageCpuVAddr pt)" "mmu_mem s x = Some p"
proof -
  obtain pt where pt: "pt_slot b i s = Some (Some pt)" "PTPageCpuVAddr pt \<noteq> IMG_NULL" "x = cpu_map s (PTPageCpuVAddr pt)"
    using tab_pa_some [OF assms(2)] by blast
  moreover obtain p where p: "mmu_mem s x = Some p"
    using assms mem_ok_mem [of s "(b, Some i)" x] by (auto simp: mmu_inv_def)
  moreover have "page_entries (ui32ValidPTECount pt) p"
    using table_pte [of s b i pt p] assms(1) pt p by (simp add: mmu_inv_def)
  ultimately show ?thesis
    using that by (simp add: page_at_def)
qed

lemma map_page_effect:
  assumes inv: "mmu_inv k SH U F s" and g: "heap_geometry h"
    and t: "tab_pa (heap_psMMUContext h) (vpn va div 1024) s \<noteq> None" and z: "pte (heap_psMMUContext h) (vpn va) s = 0"
  shows "\<exists>s'. MMU_MapPage h va pa fl s = Some s' \<and> mmu_inv k SH U F s' \<and> same_tables s s' \<and>
    ui32CacheControl s' = ui32CacheControl s \<and>
    (\<forall>a n. pte a n s' = (if a = heap_psMMUContext h \<and> n = vpn va then map_entry pa fl else pte a n s))"
proof -
  let ?b = "heap_psMMUContext h" let ?i = "vpn va div 1024" let ?j = "vpn va mod 1024"
  obtain x where x: "tab_pa ?b ?i s = Some x"
    using t by auto
  obtain pt p where pt: "pt_slot ?b ?i s = Some (Some pt)" "page_at (PTPageCpuVAddr pt) s = Some p"
      "page_entries (ui32ValidPTECount pt) p" "mmu_mem s x = Some p"
    using slot_of_tab [OF inv x] by metis
  have e: "map_entry pa fl AND 1 \<noteq> 0"
    by (simp add: map_entry_def SGX_MMU_PTE_VALID_def bit.conj_disj_distrib2)
  have z': "p ?j = 0"
    using z x pt by (simp add: pte_def)
  have m: "mem_ok s"
    using inv by (simp add: mmu_inv_def)
  let ?s = "put_entry ?b ?i pt (ui32ValidPTECount pt + 1) ?j (map_entry pa fl) p s"
  have "MMU_MapPage h va pa fl s = Some ?s"
    using pt g by (simp add: MMU_MapPage_def heap_indexes [OF g] write_page_def put_entry_def map_entry_def heap_geometry_def)
  moreover have "mmu_inv k SH U F ?s"
    using put_entry_inv [OF inv pt(1,2) page_entries_set [OF pt(3) _ z' e]] by simp
  moreover have "\<forall>a n. pte a n ?s = (if a = ?b \<and> n = vpn va then map_entry pa fl else pte a n s)"
    using put_entry_pte [OF m pt(1,2)] by simp
  ultimately show ?thesis
    using put_entry_same_tables [OF pt(1)] put_entry_more(7) by blast
qed

section \<open>Mapping a range\<close>

text \<open>The three loops map the pages of a list one after the other.\<close>

fun map_seq :: "MMU_HEAP \<Rightarrow> IMG_UINT32 \<Rightarrow> IMG_UINTPTR_T list \<Rightarrow> IMG_UINT32 \<Rightarrow> MMU_STATE \<Rightarrow> MMU_STATE option" where
  "map_seq h va [] fl s = Some s"
| "map_seq h va (pa # pas) fl s = do { s1 \<leftarrow> MMU_MapPage h va pa fl s; map_seq h (va + 0x1000) pas fl s1 }"

definition pages_of :: "IMG_UINT32 \<Rightarrow> nat" where
  "pages_of uBytes = (unat uBytes + 4095) div 4096"

lemma count_step:
  assumes "unat (uBytes :: 32 word) \<le> 0xFFFFF000" "uCnt < uBytes"
  shows "unat (uCnt + 0x1000) = unat uCnt + 4096"
    "(unat uBytes - unat uCnt + 4095) div 4096 = Suc ((unat uBytes - unat (uCnt + 0x1000) + 4095) div 4096)"
proof -
  have lt: "unat uCnt < unat uBytes"
    using assms(2) by (simp add: word_less_nat_alt)
  then show *: "unat (uCnt + 0x1000) = unat uCnt + 4096"
    using assms(1) by (simp add: unat_word_ariths)
  show "(unat uBytes - unat uCnt + 4095) div 4096 = Suc ((unat uBytes - unat (uCnt + 0x1000) + 4095) div 4096)"
  proof (cases "4096 \<le> unat uBytes - unat uCnt")
    case True
    then have "unat uBytes - unat uCnt + 4095 = (unat uBytes - unat uCnt - 4096 + 4095) + 4096"
      by simp
    then show ?thesis
      unfolding * by (simp only: div_add_self2)
  next
    case False
    then have "(unat uBytes - unat uCnt + 4095) div 4096 = 1"
      using lt by (intro div_nat_eqI) auto
    then show ?thesis
      unfolding * using False by simp
  qed
qed

lemma map_loop_seq:
  assumes "ui32DataPageSize h = 0x1000" "unat uBytes \<le> 0xFFFFF000"
  shows "map_loop h va pa adv uCnt uBytes fl s =
    map_seq h va (map (\<lambda>k. pa + of_nat k * ucast adv) [0..<(unat uBytes - unat uCnt + 4095) div 4096]) fl s"
proof (induction "(unat uBytes - unat uCnt + 4095) div 4096" arbitrary: va pa uCnt s)
  case 0
  then have "\<not> uCnt < uBytes"
    by (simp add: word_less_nat_alt)
  then show ?case
    using 0 by (subst map_loop.simps) simp
next
  case (Suc m)
  then have lt: "uCnt < uBytes"
    by (cases "uCnt < uBytes") (simp_all add: word_less_nat_alt)
  note st = count_step [OF assms(2) lt]
  have m: "m = (unat uBytes - unat (uCnt + 0x1000) + 4095) div 4096"
    using Suc(2) st(2) by simp
  have IH: "map_loop h va' pa' adv (uCnt + 0x1000) uBytes fl s' = map_seq h va' (map (\<lambda>k. pa' + of_nat k * ucast adv) [0..<m]) fl s'"
    for va' pa' s'
    using Suc(1) [OF m] m by simp
  have "map_loop h va pa adv uCnt uBytes fl s =
      do { s1 \<leftarrow> MMU_MapPage h va pa fl s; map_loop h (va + 0x1000) (pa + ucast adv) adv (uCnt + 0x1000) uBytes fl s1 }"
    using lt assms(1) by (subst map_loop.simps) simp
  moreover have "map (\<lambda>k. pa + of_nat k * ucast adv) [0..<Suc m] = pa # map (\<lambda>k. pa + ucast adv + of_nat k * ucast adv) [0..<m]"
    unfolding upt_rec [of 0 "Suc m"] map_Suc_upt [symmetric] by (simp add: comp_def algebra_simps)
  ultimately show ?case
    unfolding Suc(2) [symmetric] by (simp only: IH map_seq.simps)
qed

lemma scatter_seq:
  assumes "ui32DataPageSize h = 0x1000" "unat uBytes \<le> 0xFFFFF000" "(unat uBytes - unat uCnt + 4095) div 4096 \<le> length as"
  shows "MMU_MapScatter_loop h va as uCnt uBytes fl s =
    map_seq h va (take ((unat uBytes - unat uCnt + 4095) div 4096) as) fl s"
  using assms(3)
proof (induction as arbitrary: va uCnt s)
  case Nil
  then show ?case
    by (simp add: word_less_nat_alt)
next
  case (Cons a as)
  show ?case
  proof (cases "uCnt < uBytes")
    case True
    note st = count_step [OF assms(2) True]
    show ?thesis
      using Cons.prems True by (simp add: st(2) assms(1) Cons.IH SysSysPAddrToDevPAddr_def cong: Option.bind_cong)
  next
    case False
    then show ?thesis
      by (simp add: word_less_nat_alt)
  qed
qed

definition shadow_pa :: "IMG_UINTPTR_T \<Rightarrow> IMG_UINTPTR_T \<Rightarrow> IMG_UINT32 \<Rightarrow> MMU_STATE \<Rightarrow> IMG_UINTPTR_T" where
  "shadow_pa CpuVAddr hm uOffset s =
     (if CpuVAddr \<noteq> IMG_NULL then OSMapLinToCPUPhys hm (CpuVAddr + ucast uOffset) s else OSMemHandleToCpuPAddr hm uOffset s)"

lemma map_page_frame:
  assumes "MMU_MapPage h va pa fl s = Some s1"
  shows "area_pa s1 = area_pa s" "area_va s1 = area_va s"
  using assms by (auto simp: MMU_MapPage_def write_page_def Let_def split: bind_splits if_splits option.splits)

lemma shadow_seq:
  assumes "ui32DataPageSize h = 0x1000" "unat uBytes \<le> 0xFFFFF000"
  shows "shadow_loop h va cva hm off adv uCnt uBytes fl s =
    map_seq h va (map (\<lambda>k. shadow_pa cva hm (off + of_nat k * adv) s) [0..<(unat uBytes - unat uCnt + 4095) div 4096]) fl s"
proof (induction "(unat uBytes - unat uCnt + 4095) div 4096" arbitrary: va off uCnt s)
  case 0
  then have "\<not> uCnt < uBytes"
    by (simp add: word_less_nat_alt)
  then show ?case
    using 0 by (subst shadow_loop.simps) simp
next
  case (Suc m)
  then have lt: "uCnt < uBytes"
    by (cases "uCnt < uBytes") (simp_all add: word_less_nat_alt)
  note st = count_step [OF assms(2) lt]
  have m: "m = (unat uBytes - unat (uCnt + 0x1000) + 4095) div 4096"
    using Suc(2) st(2) by simp
  have IH: "shadow_loop h va' cva hm off' adv (uCnt + 0x1000) uBytes fl s' =
      map_seq h va' (map (\<lambda>k. shadow_pa cva hm (off' + of_nat k * adv) s') [0..<m]) fl s'" for va' off' s'
    using Suc(1) [OF m] m by simp
  have keep: "shadow_pa cva hm o' s1 = shadow_pa cva hm o' s" if "MMU_MapPage h va q fl s = Some s1" for o' s1 q
    using map_page_frame [OF that] by (simp add: shadow_pa_def OSMapLinToCPUPhys_def OSMemHandleToCpuPAddr_def)
  have "shadow_loop h va cva hm off adv uCnt uBytes fl s =
      do { s1 \<leftarrow> MMU_MapPage h va (shadow_pa cva hm off s) fl s; shadow_loop h (va + 0x1000) cva hm (off + adv) adv (uCnt + 0x1000) uBytes fl s1 }"
    using lt assms(1) by (subst shadow_loop.simps) (simp add: shadow_pa_def SysCpuPAddrToDevPAddr_def)
  moreover have "map (\<lambda>k. shadow_pa cva hm (off + of_nat k * adv) s) [0..<Suc m] =
      shadow_pa cva hm off s # map (\<lambda>k. shadow_pa cva hm (off + adv + of_nat k * adv) s) [0..<m]"
    unfolding upt_rec [of 0 "Suc m"] map_Suc_upt [symmetric] by (simp add: comp_def algebra_simps)
  ultimately show ?case
    unfolding Suc(2) [symmetric] by (simp only: IH map_seq.simps keep cong: Option.bind_cong)
qed

text \<open>The pages of a range that have a table, and those that are free.\<close>

definition has_tables :: "IMG_UINTPTR_T \<Rightarrow> nat \<Rightarrow> nat \<Rightarrow> MMU_STATE \<Rightarrow> bool" where
  "has_tables b n m s \<longleftrightarrow> (\<forall>q. n \<le> q \<longrightarrow> q < n + m \<longrightarrow> tab_pa b (q div 1024) s \<noteq> None)"

definition unmapped :: "IMG_UINTPTR_T \<Rightarrow> nat \<Rightarrow> nat \<Rightarrow> MMU_STATE \<Rightarrow> bool" where
  "unmapped b n m s \<longleftrightarrow> (\<forall>q. n \<le> q \<longrightarrow> q < n + m \<longrightarrow> pte b q s = 0)"

definition mapped_at :: "nat \<Rightarrow> IMG_UINTPTR_T list \<Rightarrow> IMG_UINT32 \<Rightarrow> nat \<Rightarrow> IMG_UINT32 option" where
  "mapped_at n pas fl q = (if n \<le> q \<and> q < n + length pas then Some (map_entry (pas ! (q - n)) fl) else None)"

definition maps_to :: "IMG_UINTPTR_T \<Rightarrow> nat \<Rightarrow> IMG_UINTPTR_T list \<Rightarrow> IMG_UINT32 \<Rightarrow> MMU_STATE \<Rightarrow> MMU_STATE \<Rightarrow> bool" where
  "maps_to b n pas fl s s' \<longleftrightarrow>
     (\<forall>a q. pte a q s' = (if a = b \<and> n \<le> q \<and> q < n + length pas then map_entry (pas ! (q - n)) fl else pte a q s))"

lemma map_seq_effect:
  assumes "mmu_inv k SH U F s" "heap_geometry h" "vpn va + length pas \<le> 1048576"
    "has_tables (heap_psMMUContext h) (vpn va) (length pas) s" "unmapped (heap_psMMUContext h) (vpn va) (length pas) s"
  shows "\<exists>s'. map_seq h va pas fl s = Some s' \<and> mmu_inv k SH U F s' \<and> same_tables s s' \<and>
    ui32CacheControl s' = ui32CacheControl s \<and> maps_to (heap_psMMUContext h) (vpn va) pas fl s s'"
  using assms
proof (induction pas arbitrary: va s)
  case Nil
  then show ?case
    by (auto simp: maps_to_def)
next
  case (Cons pa pas)
  let ?b = "heap_psMMUContext h"
  have "tab_pa ?b (vpn va div 1024) s \<noteq> None" "pte ?b (vpn va) s = 0"
    using Cons.prems(4,5) by (simp_all add: has_tables_def unmapped_def)
  then obtain s1 where s1: "MMU_MapPage h va pa fl s = Some s1" "mmu_inv k SH U F s1" "same_tables s s1"
      "ui32CacheControl s1 = ui32CacheControl s"
      "\<And>a n. pte a n s1 = (if a = ?b \<and> n = vpn va then map_entry pa fl else pte a n s)"
    using map_page_effect [OF Cons.prems(1,2)] by blast
  show ?case
  proof (cases pas)
    case Nil
    then show ?thesis
      using s1 by (auto simp: maps_to_def)
  next
    case (Cons pb pbs)
    then have v: "vpn (va + 0x1000) = vpn va + 1"
      using Cons.prems(3) by (intro vpn_add) simp
    obtain s2 where s2: "map_seq h (va + 0x1000) pas fl s1 = Some s2" "mmu_inv k SH U F s2" "same_tables s1 s2"
        "ui32CacheControl s2 = ui32CacheControl s1" "maps_to ?b (vpn va + 1) pas fl s1 s2"
      using Cons.IH [of s1 "va + 0x1000"] s1(2,3,5) Cons.prems(2,3,4,5) v
      by (auto simp: has_tables_def unmapped_def same_tables_tab)
    have "maps_to ?b (vpn va) (pa # pas) fl s s2"
      using s2(5) s1(5) by (auto simp: maps_to_def nth_Cons' Suc_le_eq)
    then show ?thesis
      using s1 s2 same_tables_trans by (auto intro: exI [of _ s2])
  qed
qed

section \<open>Unmapping a range\<close>

lemma clear_entry_put:
  assumes "page_at (PTPageCpuVAddr pt) s = Some p" "j < 1024"
  shows "clear_entry b i j pt s =
    (let c = (if p j AND 1 \<noteq> 0 then ui32ValidPTECount pt - 1 else ui32ValidPTECount pt)
     in Some (pt\<lparr>ui32ValidPTECount := c\<rparr>, put_entry b i pt c j 0 p s))"
  using assms by (simp add: clear_entry_def write_page_def put_entry_def SGX_MMU_PTE_VALID_def Let_def)

lemma clear_effect:
  assumes inv: "mmu_inv k SH U F s" and pt: "pt_slot b i s = Some (Some pt)" and pg: "page_at (PTPageCpuVAddr pt) s = Some p" and j: "j < 1024"
  shows "\<exists>pt1 s1. clear_entry b i j pt s = Some (pt1, s1) \<and> mmu_inv k SH U F s1 \<and> same_tables s s1 \<and>
    ui32CacheControl s1 = ui32CacheControl s \<and> pt_slot b i s1 = Some (Some pt1) \<and>
    PTPageCpuVAddr pt1 = PTPageCpuVAddr pt \<and>
    (\<forall>a n. pte a n s1 = (if a = b \<and> n = 1024 * i + j then 0 else pte a n s))"
proof -
  let ?c = "if p j AND 1 \<noteq> 0 then ui32ValidPTECount pt - 1 else ui32ValidPTECount pt"
  let ?s = "put_entry b i pt ?c j 0 p s"
  have m: "mem_ok s"
    using inv by (simp add: mmu_inv_def)
  have "page_entries (ui32ValidPTECount pt) p"
    using table_pte [OF _ pt slot_tab(2,3) [OF pt pg]] inv by (simp add: mmu_inv_def)
  then have "mmu_inv k SH U F ?s"
    by (intro put_entry_inv [OF inv pt pg] page_entries_clear j)
  moreover have "\<forall>a n. pte a n ?s = (if a = b \<and> n = 1024 * i + j then 0 else pte a n s)"
    using put_entry_pte [OF m pt pg j] by simp
  ultimately show ?thesis
    using put_entry_same_tables [OF pt] clear_entry_put [OF pg j, of b i] pt_slot_put_entry [OF pt, of b i]
    by (auto simp: Let_def intro!: exI [of _ "pt\<lparr>ui32ValidPTECount := ?c\<rparr>"] exI [of _ ?s])
qed

text \<open>The slots of the range are empty or have a table.\<close>

definition slots_whole :: "IMG_UINTPTR_T \<Rightarrow> nat \<Rightarrow> nat \<Rightarrow> MMU_STATE \<Rightarrow> bool" where
  "slots_whole b n m s \<longleftrightarrow>
     (\<forall>q. n \<le> q \<longrightarrow> q < n + m \<longrightarrow> pt_slot b (q div 1024) s = Some None \<or> tab_pa b (q div 1024) s \<noteq> None)"

definition clears :: "IMG_UINTPTR_T \<Rightarrow> nat \<Rightarrow> nat \<Rightarrow> MMU_STATE \<Rightarrow> MMU_STATE \<Rightarrow> bool" where
  "clears b n m s s' \<longleftrightarrow> (\<forall>a q. pte a q s' = (if a = b \<and> n \<le> q \<and> q < n + m then 0 else pte a q s))"

lemma same_tables_whole: "same_tables s s1 \<Longrightarrow> slots_whole b n m s1 = slots_whole b n m s"
  by (simp add: slots_whole_def same_tables_tab) (simp add: same_tables_def)

lemma pte_empty: "pt_slot b (n div 1024) s = Some None \<Longrightarrow> pte b n s = 0"
  by (simp add: pte_def tab_pa_def)

lemma unmap_loop_effect:
  assumes "mmu_inv k SH U F s" "heap_geometry h" "vpn va + n \<le> 1048576" "slots_whole (heap_psMMUContext h) (vpn va) n s"
  shows "\<exists>s'. unmap_loop h va n s = Some s' \<and> mmu_inv k SH U F s' \<and> same_tables s s' \<and>
    ui32CacheControl s' = ui32CacheControl s \<and> clears (heap_psMMUContext h) (vpn va) n s s'"
  using assms
proof (induction n arbitrary: va s)
  case 0
  then show ?case
    by (auto simp: clears_def)
next
  case (Suc n)
  let ?b = "heap_psMMUContext h" let ?i = "vpn va div 1024" let ?j = "vpn va mod 1024"
  have v: "n = 0 \<or> vpn (va + 0x1000) = vpn va + 1"
    using Suc.prems(3) vpn_add [of va] by linarith
  have ps: "ui32DataPageSize h = 0x1000"
    using Suc.prems(2) by (simp add: heap_geometry_def)
  have rest: "\<exists>s'. unmap_loop h (va + 0x1000) n s1 = Some s' \<and> mmu_inv k SH U F s' \<and> same_tables s1 s' \<and>
      ui32CacheControl s' = ui32CacheControl s1 \<and> clears ?b (vpn va + 1) n s1 s'"
    if "mmu_inv k SH U F s1" "same_tables s s1" for s1
  proof (cases "n = 0")
    case True
    then show ?thesis
      using that by (auto simp: clears_def)
  next
    case False
    then have "vpn (va + 0x1000) = vpn va + 1"
      using v by simp
    moreover have "slots_whole ?b (vpn va + 1) n s"
      using Suc.prems(4) by (auto simp: slots_whole_def)
    then have "slots_whole ?b (vpn va + 1) n s1"
      using same_tables_whole [OF that(2)] by simp
    ultimately show ?thesis
      using Suc.IH [of s1 "va + 0x1000"] that Suc.prems by simp
  qed
  show ?case
  proof (cases "tab_pa ?b ?i s")
    case None
    then have e: "pt_slot ?b ?i s = Some None"
      using Suc.prems(4) by (auto simp: slots_whole_def)
    obtain s' where s': "unmap_loop h (va + 0x1000) n s = Some s'" "mmu_inv k SH U F s'" "same_tables s s'"
        "ui32CacheControl s' = ui32CacheControl s" "clears ?b (vpn va + 1) n s s'"
      using rest [of s] Suc.prems(1) by auto
    have "clears ?b (vpn va) (Suc n) s s'"
      using s'(5) pte_empty [OF e] by (auto simp: clears_def Suc_le_eq nat_less_le)
    then show ?thesis
      using s' e by (simp add: heap_indexes [OF Suc.prems(2)] ps)
  next
    case (Some x)
    obtain pt p where pt: "pt_slot ?b ?i s = Some (Some pt)" "page_at (PTPageCpuVAddr pt) s = Some p"
      using slot_of_tab [OF Suc.prems(1) Some] by metis
    obtain pt1 s1 where s1: "clear_entry ?b ?i ?j pt s = Some (pt1, s1)" "mmu_inv k SH U F s1" "same_tables s s1"
        "ui32CacheControl s1 = ui32CacheControl s" "\<And>a q. pte a q s1 = (if a = ?b \<and> q = vpn va then 0 else pte a q s)"
      using clear_effect [OF Suc.prems(1) pt, of ?j] by auto
    obtain s' where s': "unmap_loop h (va + 0x1000) n s1 = Some s'" "mmu_inv k SH U F s'" "same_tables s1 s'"
        "ui32CacheControl s' = ui32CacheControl s1" "clears ?b (vpn va + 1) n s1 s'"
      using rest [OF s1(2,3)] by auto
    have "clears ?b (vpn va) (Suc n) s s'"
      using s'(5) s1(5) by (auto simp: clears_def Suc_le_eq nat_less_le)
    then show ?thesis
      using s' s1 pt same_tables_trans [OF s1(3) s'(3)] by (simp add: heap_indexes [OF Suc.prems(2)] ps)
  qed
qed

section \<open>Looking up a page\<close>

lemma phys_page_addr:
  assumes inv: "mmu_inv k SH U F s" and g: "heap_geometry h" and w: "slots_whole (heap_psMMUContext h) (vpn va) 1 s"
  shows "MMU_GetPhysPageAddr h va s = Some (ucast (pte (heap_psMMUContext h) (vpn va) s) AND 0xFFFFF000)"
proof (cases "tab_pa (heap_psMMUContext h) (vpn va div 1024) s")
  case None
  then have e: "pt_slot (heap_psMMUContext h) (vpn va div 1024) s = Some None"
    using w by (auto simp: slots_whole_def)
  then show ?thesis
    by (simp add: MMU_GetPhysPageAddr_def heap_indexes [OF g] pte_empty)
next
  case (Some x)
  obtain pt p where pt: "pt_slot (heap_psMMUContext h) (vpn va div 1024) s = Some (Some pt)"
      "page_at (PTPageCpuVAddr pt) s = Some p" "mmu_mem s x = Some p"
    using slot_of_tab [OF inv Some] by metis
  have "ui32DataPageMask h = 0xFFF"
    using g by (simp add: heap_geometry_def)
  then show ?thesis
    using pt Some by (simp add: MMU_GetPhysPageAddr_def heap_indexes [OF g] pte_def)
qed

end
