(* ===== verification/Mmu_Allocation.thy ===== *)
theory Mmu_Allocation
  imports Mmu_Mapping
begin

text \<open>
  Making and freeing page tables: the entry in every directory that has to see the table, the memory and the slot change
  together, so that the translations of the pages that are not touched stay the same.
\<close>

section \<open>Writing an entry into directories\<close>

definition pde_mem :: "IMG_UINTPTR_T set \<Rightarrow> nat \<Rightarrow> IMG_UINT32 \<Rightarrow> MMU_STATE \<Rightarrow> (IMG_UINTPTR_T \<rightharpoonup> page)" where
  "pde_mem A i v s x =
     (if \<exists>a \<in> A. dir_pa a s = Some x then map_option (\<lambda>p. p(i := v)) (mmu_mem s x) else mmu_mem s x)"

definition dir_there :: "MMU_STATE \<Rightarrow> IMG_UINTPTR_T \<Rightarrow> bool" where
  "dir_there s a \<longleftrightarrow> (\<exists>c p. ctx_at a s = Some c \<and> pvPDCpuVAddr c \<noteq> IMG_NULL \<and>
     cpu_map s (pvPDCpuVAddr c) = sPDDevPAddr c \<and> mmu_mem s (sPDDevPAddr c) = Some p)"

lemma MMU_upd_more [simp]:
  "ctx_at a (s\<lparr>mmu_mem := M\<rparr>) = ctx_at a s" "pt_slot a i (s\<lparr>mmu_mem := M\<rparr>) = pt_slot a i s" "dir_pa a (s\<lparr>mmu_mem := M\<rparr>) = dir_pa a s"
  "ctx_at a (s\<lparr>mmu_os := os\<rparr>) = ctx_at a s" "pt_slot a i (s\<lparr>mmu_os := os\<rparr>) = pt_slot a i s" "dir_pa a (s\<lparr>mmu_os := os\<rparr>) = dir_pa a s"
  "ctx_at a (s\<lparr>page_allocs := r\<rparr>) = ctx_at a s" "pt_slot a i (s\<lparr>page_allocs := r\<rparr>) = pt_slot a i s" "dir_pa a (s\<lparr>page_allocs := r\<rparr>) = dir_pa a s"
  "ctx_at a (s\<lparr>ui32CacheControl := w\<rparr>) = ctx_at a s" "pt_slot a i (s\<lparr>ui32CacheControl := w\<rparr>) = pt_slot a i s"
  "dir_pa a (s\<lparr>ui32CacheControl := w\<rparr>) = dir_pa a s"
  by (simp_all add: ctx_at_def pt_slot_def dir_pa_def)

lemma tab_pa_upd_more [simp]:
  "tab_pa a i (s\<lparr>mmu_mem := M\<rparr>) = tab_pa a i s" "tab_pa a i (s\<lparr>mmu_os := os\<rparr>) = tab_pa a i s"
  "tab_pa a i (s\<lparr>page_allocs := r\<rparr>) = tab_pa a i s" "tab_pa a i (s\<lparr>ui32CacheControl := w\<rparr>) = tab_pa a i s"
  by (simp_all add: tab_pa_def split: option.splits)

lemma dir_pa_set_slot [simp]: "dir_pa a (set_slot b i y s) = dir_pa a s"
  by (auto simp: dir_pa_def option.map_comp comp_def intro!: map_option_cong)

lemma tab_pa_set_slot:
  assumes "pt_slot b i s = Some x"
  shows "tab_pa a j (set_slot b i y s) =
    (if a = b \<and> j = i then (case y of None \<Rightarrow> None | Some pt \<Rightarrow> if PTPageCpuVAddr pt = IMG_NULL then None else Some (cpu_map s (PTPageCpuVAddr pt)))
     else tab_pa a j s)"
  using assms by (auto simp: tab_pa_def split: option.splits)

lemma dir_there_inv:
  assumes "mmu_inv k SH U F s" "ctx_at a s \<noteq> None"
  shows "dir_there s a"
proof -
  obtain c where c: "ctx_at a s = Some c"
    using assms(2) by auto
  then have "role_pa (a, None) s = Some (sPDDevPAddr c)"
    by (simp add: dir_pa_def)
  then obtain p where "mmu_mem s (sPDDevPAddr c) = Some p"
    using assms(1) mem_ok_mem unfolding mmu_inv_def by blast
  then show ?thesis
    using assms(1) c by (auto simp: dir_there_def mmu_inv_def ctxs_ok_def ctx_ok_def)
qed

lemma dir_there_set_slot [simp]: "dir_there (set_slot b i y s) a = dir_there s a"
  by (cases "ctx_at a s") (auto simp: dir_there_def)

lemma write_pde_mem:
  assumes "dir_there s a" "i < 1024"
  shows "write_pde a i v s = Some (s\<lparr>mmu_mem := pde_mem {a} i v s\<rparr>)"
proof -
  obtain c p where c: "ctx_at a s = Some c" "pvPDCpuVAddr c \<noteq> IMG_NULL"
      "cpu_map s (pvPDCpuVAddr c) = sPDDevPAddr c" "mmu_mem s (sPDDevPAddr c) = Some p"
    using assms(1) by (auto simp: dir_there_def)
  then have "pde_mem {a} i v s = (mmu_mem s)(sPDDevPAddr c \<mapsto> p(i := v))"
    by (auto simp: pde_mem_def dir_pa_def)
  then show ?thesis
    using c assms(2) by (simp add: write_pde_def write_page_def page_at_def set_page_def)
qed

lemma write_pdes_mem:
  assumes "\<forall>a \<in> set as. dir_there s a" "i < 1024"
  shows "write_pdes as i v s = Some (s\<lparr>mmu_mem := pde_mem (set as) i v s\<rparr>)"
  using assms
proof (induction as arbitrary: s)
  case Nil
  then show ?case
    by (simp add: pde_mem_def cong: MMU_STATE.fold_congs)
next
  case (Cons a as)
  let ?s = "s\<lparr>mmu_mem := pde_mem {a} i v s\<rparr>"
  have "\<forall>a' \<in> set as. dir_there ?s a'"
    using Cons.prems(1) by (fastforce simp: dir_there_def pde_mem_def)
  moreover have "pde_mem (set as) i v ?s = pde_mem (set (a # as)) i v s"
    by (rule ext) (auto simp: pde_mem_def option.map_comp comp_def)
  ultimately show ?case
    using Cons by (simp add: write_pde_mem)
qed

section \<open>Which directories see a table\<close>

definition heap_of :: "IMG_UINTPTR_T \<Rightarrow> nat set \<Rightarrow> MMU_HEAP \<Rightarrow> nat \<Rightarrow> bool" where
  "heap_of k SH h i \<longleftrightarrow>
     (if MMU_IsHeapShared h then i \<in> SH \<and> heap_psMMUContext h = k
      else i \<notin> SH \<and> DevMemHeapType (psDevArena h) \<in> {DEVICE_MEMORY_HEAP_PERCONTEXT, DEVICE_MEMORY_HEAP_KERNEL})"

lemma ctx_at_iff: "ctx_at a s \<noteq> None \<longleftrightarrow> a \<in> set (map psMMUContext (pvMMUContextList s))"
proof -
  have "List.find (\<lambda>c. psMMUContext c = a) cs = None \<longleftrightarrow> a \<notin> psMMUContext ` set cs" for cs :: "MMU_CONTEXT list"
    by (auto simp: find_None_iff)
  then show ?thesis
    by (simp add: ctx_at_def)
qed

lemma heap_of_targets:
  assumes "heap_of k SH h i" "ctx_at (heap_psMMUContext h) s \<noteq> None"
  obtains cs where "pd_targets h s = Some cs" "\<forall>a \<in> set cs. ctx_at a s \<noteq> None"
    "\<forall>a. ctx_at a s \<noteq> None \<longrightarrow> (a \<in> set cs) = (owner k SH a i = heap_psMMUContext h)"
proof (cases "MMU_IsHeapShared h")
  case True
  then have "pd_targets h s = Some (map psMMUContext (pvMMUContextList s))"
    by (auto simp: MMU_IsHeapShared_def pd_targets_def Let_def split: if_splits)
  moreover have "owner k SH a i = heap_psMMUContext h" for a
    using assms(1) True by (auto simp: heap_of_def owner_def)
  ultimately show ?thesis
    using that ctx_at_iff [of _ s] by auto
next
  case False
  then have "pd_targets h s = Some [heap_psMMUContext h]"
    using assms(1) by (auto simp: MMU_IsHeapShared_def pd_targets_def heap_of_def Let_def heap_type_defs split: if_splits)
  moreover have "owner k SH a i = a" for a
    using assms(1) False by (auto simp: heap_of_def owner_def)
  ultimately show ?thesis
    using that assms(2) by auto
qed

section \<open>Changes of the allocators\<close>

lemma role_pa_cong:
  assumes "pvMMUContextList s' = pvMMUContextList s" "cpu_map s' = cpu_map s"
  shows "role_pa r s' = role_pa r s"
  using assms
  by (simp add: role_pa_def dir_pa_def tab_pa_def ctx_at_cong [OF assms(1)] pt_slot_cong [OF assms(1)] split: prod.splits option.splits)

lemma mmu_inv_cong:
  assumes "mmu_inv k SH U F s" and l: "pvMMUContextList s' = pvMMUContextList s"
    and m: "mmu_mem s' = mmu_mem s" "cpu_map s' = cpu_map s" "area_va s' = area_va s" "area_pa s' = area_pa s"
    and e: "set (page_allocs s') \<subseteq> set (page_allocs s)" "psLocalDevMemArena s' = psLocalDevMemArena s"
    and os: "os_ok (mmu_os s')" "blocks (mmu_os s') = blocks (mmu_os s) + G"
  shows "mmu_inv k SH U (F + G) s'"
proof -
  note c = ctx_at_cong [OF l] pt_slot_cong [OF l] role_pa_cong [OF l m(2)]
  have t: "dir_pa a s' = dir_pa a s" "tab_pa a i s' = tab_pa a i s" for a i
    using c(3) [of "(a, None)"] c(3) [of "(a, Some i)"] by simp_all
  have "slot_ok s' pt = slot_ok s pt" for pt
    by (simp add: slot_ok_def m)
  moreover have "ctx_ok s' d = ctx_ok s d" for d
    by (simp add: ctx_ok_def m)
  moreover have "pde a i s' = pde a i s" for a i
    by (simp add: pde_def t)
  moreover have "env_ok s'"
    using assms(1) e os(1) m unfolding mmu_inv_def env_ok_def by auto
  moreover have "mem_ok s'"
    using assms(1) unfolding mmu_inv_def mem_ok_def m c by blast
  ultimately show ?thesis
    using assms(1) os(2)
    by (simp add: mmu_inv_def ctxs_ok_def slots_ok_def dirs_ok_def shared_ok_def c t l m mmu_blocks_def ac_simps)
qed

lemma mmu_inv_oom:
  assumes "mmu_inv k SH U F s" "OSAllocMem n (mmu_os s) = (e, IMG_NULL, os1)"
  shows "mmu_inv k SH U F (s\<lparr>mmu_os := os1\<rparr>)"
proof -
  have "os_ok (mmu_os s)"
    using assms(1) by (simp add: mmu_inv_def env_ok_def)
  then have "mmu_inv k SH U (F + {#}) (s\<lparr>mmu_os := os1\<rparr>)"
    using OSAllocMem_blocks [OF assms(2)] OSAllocMem_os_ok [OF assms(2)]
    by (intro mmu_inv_cong [OF assms(1)]) simp_all
  then show ?thesis
    by simp
qed

lemma mmu_inv_cache [simp]: "mmu_inv k SH U F (s\<lparr>ui32CacheControl := w\<rparr>) = mmu_inv k SH U F s"
proof -
  have *: "mmu_inv k SH U (F + {#}) (s1\<lparr>ui32CacheControl := v\<rparr>)" if "mmu_inv k SH U F s1" for s1 v
    using that by (intro mmu_inv_cong [OF that]) (simp_all add: mmu_inv_def env_ok_def)
  show ?thesis
    using * [of s w] * [of "s\<lparr>ui32CacheControl := w\<rparr>" "ui32CacheControl s"] by auto
qed

section \<open>An empty table information\<close>

lemma mmu_inv_husk:
  assumes inv: "mmu_inv k SH U F s" and al: "OSAllocMem n (mmu_os s) = (e, a, os1)" "a \<noteq> IMG_NULL"
    and sl: "pt_slot b i s = Some None" and sh: "i \<in> SH \<longrightarrow> b = k"
    and pt: "pt = \<lparr>psPTInfo = a, hPTPageOSMemHandle = IMG_NULL, PTPageCpuVAddr = IMG_NULL, ui32ValidPTECount = 0\<rparr>"
  shows "mmu_inv k SH U F (set_slot b i (Some pt) (s\<lparr>mmu_os := os1\<rparr>))"
    and "role_pa rl (set_slot b i (Some pt) (s\<lparr>mmu_os := os1\<rparr>)) = role_pa rl s"
proof -
  let ?s = "set_slot b i (Some pt) (s\<lparr>mmu_os := os1\<rparr>)"
  have t: "tab_pa c j ?s = tab_pa c j s" for c j
    using sl pt by (simp add: tab_pa_set_slot [where x = None]) (simp add: tab_pa_def)
  then have r: "role_pa r ?s = role_pa r s" for r
    by (simp add: role_pa_def split: prod.splits option.splits)
  then show "role_pa rl ?s = role_pa rl s" .
  have "mmu_blocks ?s = mmu_blocks (s\<lparr>mmu_os := os1\<rparr>) + {#a#}"
    using mmu_blocks_set_slot [of "s\<lparr>mmu_os := os1\<rparr>" b i None "Some pt"] inv sl pt
    by (simp add: mmu_inv_def ctxs_ok_def ctx_ok_def slot_block_def)
  then have B: "mmu_blocks ?s = add_mset a (mmu_blocks s)"
    by (simp add: mmu_blocks_def)
  have "slots_ok ?s"
    using inv pt unfolding mmu_inv_def slots_ok_def
    by (auto simp: slot_ok_def split: if_splits)
  moreover have "ctxs_ok ?s"
    using inv unfolding mmu_inv_def ctxs_ok_def ctx_ok_def set_slot_more by auto
  moreover have "mem_ok ?s"
    using inv unfolding mmu_inv_def mem_ok_def r by simp
  moreover have "dirs_ok k SH U ?s"
    using inv by (simp add: mmu_inv_def dirs_ok_def pde_def t)
  moreover have "shared_ok k SH ?s"
    using inv sh by (auto simp: mmu_inv_def shared_ok_def)
  moreover have "env_ok ?s"
    using inv OSAllocMem_os_ok [OF al(1)] by (simp add: mmu_inv_def env_ok_def)
  moreover have "blocks (mmu_os ?s) = mmu_blocks ?s + F"
    using inv OSAllocMem_blocks [OF al(1)] al(2) B by (simp add: mmu_inv_def)
  ultimately show "mmu_inv k SH U F ?s"
    by (simp add: mmu_inv_def)
qed

section \<open>A new table\<close>

definition with_table :: "IMG_UINTPTR_T set \<Rightarrow> IMG_UINTPTR_T \<Rightarrow> nat \<Rightarrow> MMU_PT_INFO \<Rightarrow> IMG_UINT32 \<Rightarrow> page \<Rightarrow>
    (IMG_UINTPTR_T \<times> IMG_UINTPTR_T \<times> page) list \<Rightarrow> MMU_STATE \<Rightarrow> MMU_STATE" where
  "with_table A b i pt v z r s =
     (set_slot b i (Some pt) s)\<lparr>mmu_mem := (pde_mem A i v s)(cpu_map s (PTPageCpuVAddr pt) \<mapsto> z), page_allocs := r\<rparr>"

definition new_table :: "IMG_UINTPTR_T \<Rightarrow> nat set \<Rightarrow> IMG_UINTPTR_T set \<Rightarrow> IMG_UINTPTR_T \<Rightarrow> nat \<Rightarrow> MMU_PT_INFO \<Rightarrow> MMU_PT_INFO \<Rightarrow> page \<Rightarrow>
    (IMG_UINTPTR_T \<times> IMG_UINTPTR_T \<times> page) list \<Rightarrow> MMU_STATE \<Rightarrow> bool" where
  "new_table k SH A b i pt0 pt z r s \<longleftrightarrow>
     pt_slot b i s = Some (Some pt0) \<and> PTPageCpuVAddr pt0 = IMG_NULL \<and>
     (\<forall>a. ctx_at a s \<noteq> None \<longrightarrow> (a \<in> A) = (owner k SH a i = b)) \<and>
     PTPageCpuVAddr pt \<noteq> IMG_NULL \<and> psPTInfo pt = psPTInfo pt0 \<and> ui32ValidPTECount pt = 0 \<and>
     area_va s (hPTPageOSMemHandle pt) = PTPageCpuVAddr pt \<and>
     cpu_map s (PTPageCpuVAddr pt) AND 0xFFFFF000 = cpu_map s (PTPageCpuVAddr pt) \<and>
     mmu_mem s (cpu_map s (PTPageCpuVAddr pt)) = None \<and> (\<forall>j < 1024. z j = 0) \<and> set r \<subseteq> set (page_allocs s)"

lemma new_tableD:
  assumes "new_table k SH A b i pt0 pt z r s"
  shows "pt_slot b i s = Some (Some pt0)" "PTPageCpuVAddr pt0 = IMG_NULL" "PTPageCpuVAddr pt \<noteq> IMG_NULL"
    "ctx_at a s \<noteq> None \<Longrightarrow> (a \<in> A) = (owner k SH a i = b)" "psPTInfo pt = psPTInfo pt0" "ui32ValidPTECount pt = 0"
    "area_va s (hPTPageOSMemHandle pt) = PTPageCpuVAddr pt"
    "cpu_map s (PTPageCpuVAddr pt) AND 0xFFFFF000 = cpu_map s (PTPageCpuVAddr pt)"
    "mmu_mem s (cpu_map s (PTPageCpuVAddr pt)) = None" "j < 1024 \<Longrightarrow> z j = 0" "set r \<subseteq> set (page_allocs s)"
  using assms unfolding new_table_def by blast+

lemma with_table_more [simp]:
  "cpu_map (with_table A b i pt v z r s) = cpu_map s" "area_va (with_table A b i pt v z r s) = area_va s"
  "area_pa (with_table A b i pt v z r s) = area_pa s" "page_allocs (with_table A b i pt v z r s) = r"
  "psLocalDevMemArena (with_table A b i pt v z r s) = psLocalDevMemArena s" "mmu_os (with_table A b i pt v z r s) = mmu_os s"
  "ui32CacheControl (with_table A b i pt v z r s) = ui32CacheControl s"
  "mmu_mem (with_table A b i pt v z r s) = (pde_mem A i v s)(cpu_map s (PTPageCpuVAddr pt) \<mapsto> z)"
  "map psMMUContext (pvMMUContextList (with_table A b i pt v z r s)) = map psMMUContext (pvMMUContextList s)"
  "dir_pa a (with_table A b i pt v z r s) = dir_pa a s"
  by (simp_all add: with_table_def)

lemma with_table_tab:
  assumes "new_table k SH A b i pt0 pt z r s"
  shows "tab_pa a j (with_table A b i pt v z r s) = (if a = b \<and> j = i then Some (cpu_map s (PTPageCpuVAddr pt)) else tab_pa a j s)"
proof -
  have "tab_pa a j (with_table A b i pt v z r s) = tab_pa a j (set_slot b i (Some pt) s)"
    by (simp only: with_table_def tab_pa_upd_more)
  then show ?thesis
    using new_tableD(3) [OF assms] unfolding tab_pa_set_slot [OF new_tableD(1) [OF assms]] by simp
qed

lemma with_table_role:
  assumes "new_table k SH A b i pt0 pt z r s"
  shows "role_pa rl (with_table A b i pt v z r s) = (if rl = (b, Some i) then Some (cpu_map s (PTPageCpuVAddr pt)) else role_pa rl s)"
proof -
  obtain a q where "rl = (a, q)"
    by (cases rl)
  then show ?thesis
    by (cases q) (simp_all add: with_table_tab [OF assms])
qed

lemma pde_mem_dom: "(pde_mem A i v s x = None) = (mmu_mem s x = None)"
  by (simp add: pde_mem_def)

lemma pde_mem_tab:
  assumes "mem_ok s" "tab_pa a j s = Some x"
  shows "pde_mem A i v s x = mmu_mem s x"
  using mem_ok_tab_dir [OF assms] by (auto simp: pde_mem_def)

lemma pde_mem_dir:
  assumes "mem_ok s" "dir_pa a s = Some x"
  shows "pde_mem A i v s x = (if a \<in> A then map_option (\<lambda>p. p(i := v)) (mmu_mem s x) else mmu_mem s x)"
proof -
  have "(\<exists>a' \<in> A. dir_pa a' s = Some x) = (a \<in> A)"
    using mem_ok_dir_inj [OF assms] assms(2) by metis
  then show ?thesis
    by (simp only: pde_mem_def)
qed

lemma mem_ok_fresh: "mem_ok s \<Longrightarrow> mmu_mem s x = None \<Longrightarrow> role_pa r s \<noteq> Some x"
  using mem_ok_mem [of s r x] by auto

lemma mem_ok_align: "mem_ok s \<Longrightarrow> role_pa r s = Some x \<Longrightarrow> x AND 0xFFFFF000 = x"
  unfolding mem_ok_def by blast

lemma mem_ok_iff: "mem_ok s \<Longrightarrow> (mmu_mem s x \<noteq> None) = (\<exists>r. role_pa r s = Some x)"
  unfolding mem_ok_def by blast

lemma mem_okI:
  assumes "\<And>r r' x. role_pa r s = Some x \<Longrightarrow> role_pa r' s = Some x \<Longrightarrow> r = r'"
    "\<And>x. (mmu_mem s x \<noteq> None) = (\<exists>r. role_pa r s = Some x)"
    "\<And>r x. role_pa r s = Some x \<Longrightarrow> x AND 0xFFFFF000 = x"
  shows "mem_ok s"
  using assms unfolding mem_ok_def by blast

lemma with_table_mem_ok:
  assumes m: "mem_ok s" and n: "new_table k SH A b i pt0 pt z r s"
  shows "mem_ok (with_table A b i pt v z r s)"
proof -
  let ?x = "cpu_map s (PTPageCpuVAddr pt)" and ?s = "with_table A b i pt v z r s"
  have f: "role_pa rl s \<noteq> Some ?x" for rl
    using mem_ok_fresh [OF m new_tableD(9) [OF n]] .
  have e: "role_pa (b, Some i) s = None"
    using new_tableD(1,2) [OF n] by (simp add: tab_pa_def)
  have "rl = rl'" if "role_pa rl ?s = Some x" "role_pa rl' ?s = Some x" for rl rl' x
    using that f mem_ok_inj [OF m, of rl x rl'] by (auto simp: with_table_role [OF n] simp del: role_pa_simps split: if_splits)
  moreover have "(mmu_mem ?s x \<noteq> None) = (\<exists>rl. role_pa rl ?s = Some x)" for x
  proof (cases "x = ?x")
    case True
    then show ?thesis
      by (auto simp: with_table_role [OF n] simp del: role_pa_simps)
  next
    case False
    have "(\<exists>rl. role_pa rl ?s = Some x) = (\<exists>rl. role_pa rl s = Some x)"
      unfolding with_table_role [OF n] using False e by (metis option.distinct(1) option.inject)
    then show ?thesis
      using False mem_ok_iff [OF m, of x] by (simp add: pde_mem_dom del: role_pa_simps)
  qed
  moreover have "x AND 0xFFFFF000 = x" if "role_pa rl ?s = Some x" for rl x
    using that mem_ok_align [OF m, of rl x] new_tableD(8) [OF n]
    by (auto simp: with_table_role [OF n] simp del: role_pa_simps split: if_splits)
  ultimately show ?thesis
    by (intro mem_okI)
qed

lemma with_table_dirs_ok:
  assumes d: "dirs_ok k SH U s" and m: "mem_ok s" and n: "new_table k SH A b i pt0 pt z r s"
    and v: "v = ucast (cpu_map s (PTPageCpuVAddr pt)) OR 1"
  shows "dirs_ok k SH U (with_table A b i pt v z r s)"
  unfolding dirs_ok_def
proof (intro allI impI)
  fix a x p and j :: nat
  assume x: "dir_pa a (with_table A b i pt v z r s) = Some x" and p: "mmu_mem (with_table A b i pt v z r s) x = Some p" and j: "j < 1024"
  have dx: "dir_pa a s = Some x"
    using x by simp
  then have ca: "ctx_at a s \<noteq> None"
    by (auto simp: dir_pa_def)
  have "role_pa (a, None) s \<noteq> Some (cpu_map s (PTPageCpuVAddr pt))"
    using mem_ok_fresh [OF m new_tableD(9) [OF n]] .
  then have "pde_mem A i v s x = Some p"
    using p dx by (auto split: if_splits)
  then obtain p0 where p0: "mmu_mem s x = Some p0" "p = (if a \<in> A then p0(i := v) else p0)"
    by (auto simp: pde_mem_dir [OF m dx] split: if_splits)
  have old: "p0 j = pde (owner k SH a j) j s \<or> j \<in> U a \<and> p0 j = 0"
    using d dx p0(1) j by (auto simp: dirs_ok_def)
  have aA: "(a \<in> A) = (owner k SH a i = b)"
    using new_tableD(4) [OF n ca] .
  have new: "pde c j (with_table A b i pt v z r s) = (if c = b \<and> j = i then v else pde c j s)" for c j
    by (simp add: pde_def with_table_tab [OF n] v)
  show "p j = pde (owner k SH a j) j (with_table A b i pt v z r s) \<or> j \<in> U a \<and> p j = 0"
    unfolding new p0(2) using old aA by auto
qed

lemma with_table_slot:
  assumes "new_table k SH A b i pt0 pt z r s"
  shows "pt_slot a j (with_table A b i pt v z r s) = (if a = b \<and> j = i then Some (Some pt) else pt_slot a j s)"
  using new_tableD(1) [OF assms] by (simp add: with_table_def)

lemma with_table_slots_ok:
  assumes "slots_ok s" and m: "mem_ok s" and n: "new_table k SH A b i pt0 pt z r s"
  shows "slots_ok (with_table A b i pt v z r s)"
  unfolding slots_ok_def
proof (intro allI impI)
  let ?s = "with_table A b i pt v z r s"
  fix b' i' q
  assume q: "pt_slot b' i' ?s = Some (Some q)"
  show "slot_ok ?s q"
  proof (cases "b' = b \<and> i' = i")
    case True
    then have "q = pt"
      using q by (simp add: with_table_slot [OF n])
    moreover have "page_entries 0 z"
      using new_tableD(10) [OF n] by (simp add: page_entries_zero)
    ultimately show ?thesis
      using new_tableD(3,6,7) [OF n] by (simp add: slot_ok_def)
  next
    case False
    then have q': "pt_slot b' i' s = Some (Some q)"
      using q by (simp add: with_table_slot [OF n] split: if_splits)
    have ok: "slot_ok s q"
      using assms(1) q' by (simp add: slots_ok_def)
    show ?thesis
    proof (cases "PTPageCpuVAddr q = IMG_NULL")
      case True
      then show ?thesis
        using ok by (simp add: slot_ok_def)
    next
      case q0: False
      then have t: "tab_pa b' i' s = Some (cpu_map s (PTPageCpuVAddr q))"
        using q' by (simp add: tab_pa_def)
      then have "cpu_map s (PTPageCpuVAddr q) \<noteq> cpu_map s (PTPageCpuVAddr pt)"
        using mem_ok_fresh [OF m new_tableD(9) [OF n], of "(b', Some i')"] by auto
      then show ?thesis
        using ok q0 pde_mem_tab [OF m t] by (simp add: slot_ok_def)
    qed
  qed
qed

lemma ctxs_ok_upd:
  assumes "ctxs_ok s" "cpu_map s' = cpu_map s" "area_va s' = area_va s" "pvMMUContextList s' = pvMMUContextList (set_slot b i y s)"
  shows "ctxs_ok s'"
proof -
  have "ctx_at a s' = ctx_at a (set_slot b i y s)" for a
    using assms(4) by (rule ctx_at_cong)
  then show ?thesis
    using assms by (auto simp: ctxs_ok_def ctx_ok_def)
qed

lemma with_table_inv:
  assumes inv: "mmu_inv k SH U F s" and n: "new_table k SH A b i pt0 pt z r s" and v: "v = ucast (cpu_map s (PTPageCpuVAddr pt)) OR 1"
  shows "mmu_inv k SH U F (with_table A b i pt v z r s)"
proof -
  let ?s = "with_table A b i pt v z r s"
  have l: "pvMMUContextList ?s = pvMMUContextList (set_slot b i (Some pt) s)"
    by (simp add: with_table_def)
  have "ctxs_ok ?s"
    using inv ctxs_ok_upd [OF _ _ _ l] by (simp add: mmu_inv_def)
  moreover have "shared_ok k SH ?s"
    using inv new_tableD(1) [OF n] by (auto simp: mmu_inv_def shared_ok_def with_table_slot [OF n])
  moreover have "env_ok ?s"
    using inv new_tableD(11) [OF n] by (auto simp: mmu_inv_def env_ok_def)
  moreover have "mmu_blocks ?s = mmu_blocks s"
    using inv mmu_blocks_set_slot [OF _ new_tableD(1) [OF n], of "Some pt"] new_tableD(5) [OF n]
    by (simp add: mmu_inv_def slot_block_def with_table_def mmu_blocks_def)
  ultimately show ?thesis
    using inv with_table_slots_ok [OF _ _ n] with_table_mem_ok [OF _ n] with_table_dirs_ok [OF _ _ n v]
    by (simp add: mmu_inv_def)
qed

lemma with_table_pte:
  assumes m: "mem_ok s" and n: "new_table k SH A b i pt0 pt z r s"
  shows "pte a q (with_table A b i pt v z r s) = pte a q s"
proof (cases "a = b \<and> q div 1024 = i")
  case True
  then have "pte a q s = 0"
    using new_tableD(1,2) [OF n] by (simp add: pte_def tab_pa_def)
  then show ?thesis
    using True new_tableD(10) [OF n, of "q mod 1024"] by (simp add: pte_def with_table_tab [OF n])
next
  case False
  show ?thesis
  proof (cases "tab_pa a (q div 1024) s")
    case None
    then show ?thesis
      using False by (auto simp: pte_def with_table_tab [OF n])
  next
    case (Some x)
    then have "x \<noteq> cpu_map s (PTPageCpuVAddr pt)"
      using mem_ok_fresh [OF m new_tableD(9) [OF n], of "(a, Some (q div 1024))"] by auto
    then show ?thesis
      using False Some pde_mem_tab [OF m Some] by (auto simp: pte_def with_table_tab [OF n])
  qed
qed

section \<open>Allocating the tables of a range\<close>

lemma heap_of_shared: "heap_of k SH h i \<Longrightarrow> i \<in> SH \<Longrightarrow> heap_psMMUContext h = k"
  by (auto simp: heap_of_def split: if_splits)

lemma pd_targets_cong:
  "map psMMUContext (pvMMUContextList s') = map psMMUContext (pvMMUContextList s) \<Longrightarrow> pd_targets h s' = pd_targets h s"
  by (simp add: pd_targets_def Let_def del: map_eq_conv split: if_splits)

lemma alloc_memory_cases:
  assumes inv: "mmu_inv k SH U F s" and g: "heap_geometry h"
  obtains (fail) r where "AllocPageTableMemory h pt s = Some (False, pt, 0, s\<lparr>page_allocs := r\<rparr>)" "set r \<subseteq> set (page_allocs s)"
  | (got) va hm p r where
      "AllocPageTableMemory h pt s =
         Some (True, pt\<lparr>PTPageCpuVAddr := va, hPTPageOSMemHandle := hm\<rparr>, cpu_map s va,
           s\<lparr>mmu_mem := (mmu_mem s)(cpu_map s va \<mapsto> (\<lambda>j. if j < 1024 then 0 else p j)), page_allocs := r\<rparr>)"
      "va \<noteq> IMG_NULL" "hm \<noteq> IMG_NULL" "area_va s hm = va" "cpu_map s va AND 0xFFFFF000 = cpu_map s va"
      "mmu_mem s (cpu_map s va) = None" "set r \<subseteq> set (page_allocs s)"
proof -
  have arena: "psLocalDevMemArena s = None"
    using inv by (simp add: mmu_inv_def env_ok_def)
  have size: "unat (ui32PTSize h) div 4 = 1024"
    using g by (simp add: heap_geometry_def)
  show ?thesis
  proof (cases "page_allocs s")
    case Nil
    then show ?thesis
      using arena by (intro fail [of "[]"]) (simp_all add: AllocPageTableMemory_def OSAllocPages_def)
  next
    case (Cons x r)
    obtain va hm p where x: "x = (va, hm, p)"
      by (cases x)
    show ?thesis
    proof (cases "hm = IMG_NULL \<or> mmu_mem s (cpu_map s va) \<noteq> None")
      case True
      then show ?thesis
        using Cons x arena by (intro fail [of r]) (auto simp: AllocPageTableMemory_def OSAllocPages_def)
    next
      case False
      have e: "va \<noteq> IMG_NULL" "area_va s hm = va" "area_pa s hm 0 = cpu_map s va" "cpu_map s va AND 0xFFFFF000 = cpu_map s va"
        using inv False Cons x by (auto simp: mmu_inv_def env_ok_def)
      have "AllocPageTableMemory h pt s =
          Some (True, pt\<lparr>PTPageCpuVAddr := va, hPTPageOSMemHandle := hm\<rparr>, cpu_map s va,
            s\<lparr>mmu_mem := (mmu_mem s)(cpu_map s va \<mapsto> (\<lambda>j. if j < 1024 then 0 else p j)), page_allocs := r\<rparr>)"
        using Cons x arena False e
        by (simp add: AllocPageTableMemory_def OSAllocPages_def zero_page_def page_at_def size SysCpuPAddrToDevPAddr_def
            OSMapLinToCPUPhys_def set_page_def)
      then show ?thesis
        using False e Cons by (intro got) auto
    qed
  qed
qed

definition grows :: "IMG_UINTPTR_T \<Rightarrow> nat set \<Rightarrow> MMU_STATE \<Rightarrow> MMU_STATE \<Rightarrow> bool" where
  "grows b J s s' \<longleftrightarrow>
     (\<forall>a q. pte a q s' = pte a q s) \<and> (\<forall>a j x. tab_pa a j s = Some x \<longrightarrow> tab_pa a j s' = Some x) \<and>
     (\<forall>a j. \<not> (a = b \<and> j \<in> J) \<longrightarrow> pt_slot a j s' = pt_slot a j s) \<and>
     map psMMUContext (pvMMUContextList s') = map psMMUContext (pvMMUContextList s) \<and>
     cpu_map s' = cpu_map s \<and> area_va s' = area_va s \<and> area_pa s' = area_pa s \<and> ui32CacheControl s' = ui32CacheControl s"

lemma grows_refl [simp]: "grows b J s s"
  by (simp add: grows_def)

lemma grows_trans: "grows b J s s1 \<Longrightarrow> grows b J s1 s2 \<Longrightarrow> grows b J s s2"
  by (simp add: grows_def del: map_eq_conv)

lemma grows_mono: "grows b J s s1 \<Longrightarrow> J \<subseteq> K \<Longrightarrow> grows b K s s1"
  unfolding grows_def by blast

lemma grows_ctx: "grows b J s s1 \<Longrightarrow> (ctx_at a s1 \<noteq> None) = (ctx_at a s \<noteq> None)"
  unfolding ctx_at_iff by (simp add: grows_def del: map_eq_conv)

definition whole :: "MMU_STATE \<Rightarrow> bool" where
  "whole s \<longleftrightarrow> (\<forall>b i pt. pt_slot b i s = Some (Some pt) \<longrightarrow> PTPageCpuVAddr pt \<noteq> IMG_NULL)"

lemma pte_cong:
  assumes "\<And>b i. tab_pa b i s' = tab_pa b i s" "mmu_mem s' = mmu_mem s"
  shows "pte a q s' = pte a q s"
  by (simp add: pte_def assms split: option.splits)

text \<open>A slot that has its table information and no memory gets a table.\<close>

lemma fill_slot:
  assumes inv: "mmu_inv k SH U F s" and g: "heap_geometry h" and ho: "heap_of k SH h i" and i: "i < 1024"
    and sl: "pt_slot (heap_psMMUContext h) i s = Some (Some pt)" and e: "PTPageCpuVAddr pt = IMG_NULL"
  obtains (fail) s' where "alloc_tables h (i # is) s = Some (False, s')" "mmu_inv k SH U F s'" "grows (heap_psMMUContext h) {i} s s'"
  | (got) s' where "alloc_tables h (i # is) s = alloc_tables h is s'" "mmu_inv k SH U F s'" "grows (heap_psMMUContext h) {i} s s'"
      "tab_pa (heap_psMMUContext h) i s' \<noteq> None" "whole s' = (\<forall>a j q. \<not> (a = heap_psMMUContext h \<and> j = i) \<longrightarrow> pt_slot a j s = Some (Some q) \<longrightarrow> PTPageCpuVAddr q \<noteq> IMG_NULL)"
proof -
  let ?b = "heap_psMMUContext h"
  have hm0: "hPTPageOSMemHandle pt = IMG_NULL" "ui32ValidPTECount pt = 0"
    using inv sl e by (auto simp: mmu_inv_def slots_ok_def slot_ok_def)
  have m: "mem_ok s"
    using inv by (simp add: mmu_inv_def)
  have info: "pt_info_for h i s = Some (Some pt, s)"
    using sl by (simp add: pt_info_for_def)
  have ctx: "ctx_at ?b s \<noteq> None"
    using sl by (auto simp: pt_slot_def split: if_splits)
  obtain cs where cs: "pd_targets h s = Some cs" "\<forall>a \<in> set cs. ctx_at a s \<noteq> None"
      "\<forall>a. ctx_at a s \<noteq> None \<longrightarrow> (a \<in> set cs) = (owner k SH a i = ?b)"
    using heap_of_targets [OF ho ctx] by metis
  show ?thesis
  proof (rule alloc_memory_cases [OF inv g, of pt])
    fix r
    assume r: "AllocPageTableMemory h pt s = Some (False, pt, 0, s\<lparr>page_allocs := r\<rparr>)" "set r \<subseteq> set (page_allocs s)"
    have "mmu_inv k SH U (F + {#}) (s\<lparr>page_allocs := r\<rparr>)"
      using r(2) inv by (intro mmu_inv_cong [OF inv]) (simp_all add: mmu_inv_def env_ok_def)
    moreover have "grows ?b {i} s (s\<lparr>page_allocs := r\<rparr>)"
      by (auto simp: grows_def intro!: pte_cong)
    ultimately show ?thesis
      using info e hm0 r(1) by (intro fail) simp_all
  next
    fix va hm r and p :: page
    let ?z = "\<lambda>j :: nat. if j < 1024 then (0 :: 32 word) else p j"
    let ?pt = "pt\<lparr>PTPageCpuVAddr := va, hPTPageOSMemHandle := hm\<rparr>"
    let ?s2 = "s\<lparr>mmu_mem := (mmu_mem s)(cpu_map s va \<mapsto> ?z), page_allocs := r\<rparr>"
    let ?v = "ucast (cpu_map s va) OR 1 :: 32 word"
    assume al: "AllocPageTableMemory h pt s = Some (True, ?pt, cpu_map s va, ?s2)"
      and v: "va \<noteq> IMG_NULL" "hm \<noteq> IMG_NULL" "area_va s hm = va" "cpu_map s va AND 0xFFFFF000 = cpu_map s va"
      "mmu_mem s (cpu_map s va) = None" "set r \<subseteq> set (page_allocs s)"
    let ?s3 = "set_slot ?b i (Some ?pt) ?s2"
    let ?s4 = "with_table (set cs) ?b i ?pt ?v ?z r s"
    have n: "new_table k SH (set cs) ?b i pt ?pt ?z r s"
      using sl e cs(3) v hm0 by (simp add: new_table_def)
    have nd: "dir_pa a s \<noteq> Some (cpu_map s va)" for a
      using mem_ok_fresh [OF m v(5), of "(a, None)"] by simp
    have "dir_there ?s3 a" if "a \<in> set cs" for a
    proof -
      have d: "dir_there s a"
        using dir_there_inv [OF inv] cs(2) that by blast
      then have "dir_there ?s2 a"
        by (auto simp: dir_there_def)
      then show ?thesis
        by simp
    qed
    then have w: "write_pdes cs i ?v ?s3 = Some (?s3\<lparr>mmu_mem := pde_mem (set cs) i ?v ?s3\<rparr>)"
      using i by (intro write_pdes_mem) auto
    have "pde_mem (set cs) i ?v ?s3 = (pde_mem (set cs) i ?v s)(cpu_map s va \<mapsto> ?z)"
      using nd by (intro ext) (auto simp: pde_mem_def)
    then have s4: "?s3\<lparr>mmu_mem := pde_mem (set cs) i ?v ?s3\<rparr> = ?s4"
      by (simp add: with_table_def set_slot_def)
    have t3: "pd_targets h ?s3 = Some cs"
      using cs(1) pd_targets_cong [of ?s3 s h] by simp
    have "alloc_tables h (i # is) s = alloc_tables h is ?s4"
      using info e hm0 al t3 w s4 g by (simp add: heap_geometry_def SGX_MMU_PDE_VALID_def Let_def)
    moreover have "mmu_inv k SH U F ?s4"
      using with_table_inv [OF inv n] by simp
    moreover have "tab_pa ?b i s = None"
      using sl e by (simp add: tab_pa_def)
    then have "grows ?b {i} s ?s4"
      using with_table_pte [OF m n]
      by (auto simp: grows_def with_table_tab [OF n] with_table_slot [OF n] simp del: map_eq_conv)
    moreover have "tab_pa ?b i ?s4 \<noteq> None"
      by (simp add: with_table_tab [OF n])
    moreover have "whole ?s4 = (\<forall>a j q. \<not> (a = ?b \<and> j = i) \<longrightarrow> pt_slot a j s = Some (Some q) \<longrightarrow> PTPageCpuVAddr q \<noteq> IMG_NULL)"
      using v(1) by (auto simp: whole_def with_table_slot [OF n])
    ultimately show ?thesis
      by (rule got)
  qed
qed

lemma alloc_step:
  assumes inv: "mmu_inv k SH U F s" and g: "heap_geometry h" and ho: "heap_of k SH h i" and i: "i < 1024"
    and ctx: "ctx_at (heap_psMMUContext h) s \<noteq> None"
  obtains (fail) s' where "alloc_tables h (i # is) s = Some (False, s')" "mmu_inv k SH U F s'" "grows (heap_psMMUContext h) {i} s s'"
  | (got) s' where "alloc_tables h (i # is) s = alloc_tables h is s'" "mmu_inv k SH U F s'" "grows (heap_psMMUContext h) {i} s s'"
      "tab_pa (heap_psMMUContext h) i s' \<noteq> None" "whole s \<longrightarrow> whole s'"
proof -
  let ?b = "heap_psMMUContext h"
  obtain x where x: "pt_slot ?b i s = Some x"
    using ctx i by (auto simp: pt_slot_def SGX_MAX_PD_ENTRIES_def)
  show ?thesis
  proof (cases x)
    case (Some pt)
    show ?thesis
    proof (cases "PTPageCpuVAddr pt = IMG_NULL")
      case True
      show ?thesis
        by (rule fill_slot [OF inv g ho i x [unfolded Some] True, of "is"]) (auto intro: fail got simp: whole_def)
    next
      case False
      then have "alloc_tables h (i # is) s = alloc_tables h is s"
        using x Some by (simp add: pt_info_for_def)
      then show ?thesis
        using False inv x Some by (intro got [of s]) (simp_all add: tab_pa_def)
    qed
  next
    case None
    obtain e a os1 where al: "OSAllocMem sizeof_MMU_PT_INFO (mmu_os s) = (e, a, os1)"
      by (metis prod_cases3)
    show ?thesis
    proof (cases "a = IMG_NULL")
      case True
      have "alloc_tables h (i # is) s = Some (False, s\<lparr>mmu_os := os1\<rparr>)"
        using x None al True by (simp add: pt_info_for_def)
      moreover have "grows ?b {i} s (s\<lparr>mmu_os := os1\<rparr>)"
        by (auto simp: grows_def intro!: pte_cong)
      ultimately show ?thesis
        using mmu_inv_oom [OF inv] al True by (intro fail) simp_all
    next
      case False
      let ?pt = "\<lparr>psPTInfo = a, hPTPageOSMemHandle = IMG_NULL, PTPageCpuVAddr = IMG_NULL, ui32ValidPTECount = 0\<rparr>"
      let ?s = "set_slot ?b i (Some ?pt) (s\<lparr>mmu_os := os1\<rparr>)"
      have sh: "i \<in> SH \<longrightarrow> ?b = k"
        using heap_of_shared [OF ho] by simp
      have x': "pt_slot ?b i s = Some None"
        using x None by simp
      note husk = mmu_inv_husk [OF inv al False x' sh refl]
      have t: "tab_pa b j ?s = tab_pa b j s" for b j
        using husk(2) [of "(b, Some j)"] by simp
      have gr: "grows ?b {i} s ?s"
        by (auto simp: grows_def t intro!: pte_cong simp del: map_eq_conv)
      have go: "alloc_tables h (i # is) s = alloc_tables h (i # is) ?s"
        using x None al False by (simp add: pt_info_for_def Let_def)
      have sl: "pt_slot ?b i ?s = Some (Some ?pt)"
        using x by simp
      have em: "PTPageCpuVAddr ?pt = IMG_NULL"
        by simp
      show ?thesis
      proof (rule fill_slot [OF husk(1) g ho i sl em, of "is"])
        fix s'
        assume "alloc_tables h (i # is) ?s = Some (False, s')" "mmu_inv k SH U F s'" "grows ?b {i} ?s s'"
        then show ?thesis
          using grows_trans [OF gr] go by (intro fail [of s']) simp_all
      next
        fix s'
        assume a: "alloc_tables h (i # is) ?s = alloc_tables h is s'" "mmu_inv k SH U F s'" "grows ?b {i} ?s s'"
          "tab_pa ?b i s' \<noteq> None"
          and w: "whole s' = (\<forall>a j q. \<not> (a = ?b \<and> j = i) \<longrightarrow> pt_slot a j ?s = Some (Some q) \<longrightarrow> PTPageCpuVAddr q \<noteq> IMG_NULL)"
        have "whole s \<longrightarrow> whole s'"
          unfolding w by (auto simp: whole_def)
        then show ?thesis
          using a grows_trans [OF gr] go by (intro got [of s']) simp_all
      qed
    qed
  qed
qed

lemma alloc_tables_effect:
  assumes "mmu_inv k SH U F s" "heap_geometry h" "\<forall>i \<in> set is. heap_of k SH h i \<and> i < 1024" "ctx_at (heap_psMMUContext h) s \<noteq> None"
  shows "\<exists>ok s'. alloc_tables h is s = Some (ok, s') \<and> mmu_inv k SH U F s' \<and> grows (heap_psMMUContext h) (set is) s s' \<and>
    (ok \<longrightarrow> (\<forall>i \<in> set is. tab_pa (heap_psMMUContext h) i s' \<noteq> None) \<and> (whole s \<longrightarrow> whole s'))"
  using assms
proof (induction "is" arbitrary: s)
  case (Cons i "is")
  let ?b = "heap_psMMUContext h"
  have i: "heap_of k SH h i" "i < 1024"
    using Cons.prems(3) by simp_all
  show ?case
  proof (rule alloc_step [OF Cons.prems(1,2) i Cons.prems(4), of "is"])
    fix s'
    assume "alloc_tables h (i # is) s = Some (False, s')" "mmu_inv k SH U F s'" "grows ?b {i} s s'"
    moreover have "{i} \<subseteq> set (i # is)"
      by simp
    ultimately show ?thesis
      using grows_mono by blast
  next
    fix s1
    assume s1: "alloc_tables h (i # is) s = alloc_tables h is s1" "mmu_inv k SH U F s1" "grows ?b {i} s s1"
      "tab_pa ?b i s1 \<noteq> None" "whole s \<longrightarrow> whole s1"
    have c: "ctx_at ?b s1 \<noteq> None"
      using grows_ctx [OF s1(3)] Cons.prems(4) by simp
    obtain ok s' where s': "alloc_tables h is s1 = Some (ok, s')" "mmu_inv k SH U F s'" "grows ?b (set is) s1 s'"
        "ok \<longrightarrow> (\<forall>i \<in> set is. tab_pa ?b i s' \<noteq> None) \<and> (whole s1 \<longrightarrow> whole s')"
      using Cons.IH [OF s1(2) Cons.prems(2) _ c] Cons.prems(3) by auto
    have "grows ?b (set (i # is)) s s'"
 
      by (rule grows_trans [OF grows_mono [OF s1(3)] grows_mono [OF s'(3)]]) auto
    moreover have "tab_pa ?b i s' \<noteq> None"
      using s1(4) s'(3) by (auto simp: grows_def)
    ultimately show ?thesis
      using s1 s' by auto
  qed
qed auto

text \<open>How many tables a range needs. Below the last 4 MB the count covers the range; in the last 4 MB it is zero.\<close>

lemma pd_index_div: "heap_geometry h \<Longrightarrow> unat (PDIndex h va) = unat va div 4194304"
  using heap_indexes(1) [of h va] by (simp add: vpn_def div_mult2_eq [symmetric])

lemma table_count_below:
  assumes g: "heap_geometry h" and b: "unat va + unat n \<le> 0xFFC00000" and n: "0 < unat n"
  shows "unat (PDIndex h va) + unat (table_count h va n) = (unat va + unat n + 0x3FFFFF) div 4194304"
proof -
  let ?n = "n + ui32DataPageMask h + ui32PTMask h"
  have un: "unat ?n = unat n + 0x3FFFFF"
    using g b by (simp add: heap_geometry_def unat_word_ariths)
  have mx: "unat (UINT32_MAX_VALUE - va) = 0xFFFFFFFF - unat va"
    using b by (simp add: UINT32_MAX_VALUE_def unat_sub word_le_nat_alt)
  have "\<not> UINT32_MAX_VALUE - va < ?n"
    using b unfolding word_less_nat_alt un mx by simp
  moreover have hi: "unat (va + ?n) = unat va + unat n + 0x3FFFFF"
    using b un by (simp add: unat_word_ariths)
  have ix: "unat (PDIndex h (va + ?n)) = (unat va + unat n + 0x3FFFFF) div 4194304"
    unfolding pd_index_div [OF g] hi ..
  moreover have "unat va + unat n + 0x3FFFFF \<ge> 4194304"
    using n by simp
  then have "PDIndex h (va + ?n) \<noteq> 0"
    using ix by (metis div_greater_zero_iff less_numeral_extra(3) unat_0 zero_less_numeral)
  ultimately have tc: "table_count h va n = PDIndex h (va + ?n) - PDIndex h va"
    by (simp add: table_count_def Let_def)
  have "unat (PDIndex h va) \<le> unat (PDIndex h (va + ?n))"
    unfolding pd_index_div [OF g] hi by (intro div_le_mono) simp
  then show ?thesis
    unfolding tc ix [symmetric] by (simp add: unat_sub word_le_nat_alt)
qed

lemma table_count_covers:
  assumes g: "heap_geometry h" and b: "unat va + unat n \<le> 0xFFC00000" and al: "unat va mod 4096 = 0"
    and p: "vpn va \<le> q" "q < vpn va + pages_of n"
  shows "q div 1024 \<in> {unat (PDIndex h va)..<unat (PDIndex h va) + unat (table_count h va n)}"
proof -
  have n0: "0 < unat n"
    using p by (cases "unat n = 0") (simp_all add: pages_of_def)
  have va: "unat va = 4096 * vpn va"
    using al by (simp add: vpn_def mult.commute minus_mod_eq_mult_div [symmetric])
  have "4096 * q < unat va + unat n"
    using p(2) va by (simp add: pages_of_def)
  then have "4096 * q + 4194304 \<le> unat va + unat n + 0x3FFFFF + 4096"
    by simp
  have "q div 1024 = (4096 * q) div 4194304"
    using div_mult_mult1 [of 4096 q 1024] by simp
  also have "\<dots> < (unat va + unat n + 0x3FFFFF) div 4194304"
    using \<open>4096 * q < unat va + unat n\<close> by linarith
  finally have "q div 1024 < unat (PDIndex h va) + unat (table_count h va n)"
    unfolding table_count_below [OF g b n0] .
  moreover have "unat (PDIndex h va) \<le> q div 1024"
    unfolding heap_indexes(1) [OF g] using p(1) by (rule div_le_mono)
  ultimately show ?thesis
    by simp
qed

lemma table_count_top:
  assumes g: "heap_geometry h" and b: "0xFFC00000 \<le> unat va" and n: "0 < unat n" "unat va + unat n \<le> 4294967296"
  shows "table_count h va n = 0"
proof -
  have "unat va < 2 ^ LENGTH(32)"
    by (rule unsigned_less)
  then have v: "unat va \<le> 0xFFFFFFFF"
    by simp
  have mx: "unat (UINT32_MAX_VALUE - va) = 0xFFFFFFFF - unat va"
    using v by (simp add: UINT32_MAX_VALUE_def unat_sub word_le_nat_alt)
  have un: "unat (n + ui32DataPageMask h + ui32PTMask h) = unat n + 0x3FFFFF"
    using g b n by (simp add: heap_geometry_def unat_word_ariths)
  have "UINT32_MAX_VALUE - va < n + ui32DataPageMask h + ui32PTMask h"
    unfolding word_less_nat_alt un mx using b n by simp
  moreover have "unat (PDIndex h va) = 1023" "unat (PDIndex h UINT32_MAX_VALUE) = 1023"
    unfolding pd_index_div [OF g] using b v by (simp_all add: UINT32_MAX_VALUE_def div_nat_eqI)
  moreover from this have "PDIndex h va = PDIndex h UINT32_MAX_VALUE"
    by (metis word_unat_eq_iff)
  moreover have "PDIndex h UINT32_MAX_VALUE \<noteq> 0"
    using \<open>unat (PDIndex h UINT32_MAX_VALUE) = 1023\<close> by auto
  ultimately show ?thesis
    by (simp add: table_count_def Let_def)
qed

section \<open>Freeing a table\<close>

definition drop_slot :: "IMG_UINTPTR_T set \<Rightarrow> IMG_UINTPTR_T \<Rightarrow> nat \<Rightarrow> MMU_PT_INFO option \<Rightarrow> MMU_STATE \<Rightarrow> MMU_STATE" where
  "drop_slot A b i x s =
     (set_slot b i None s)\<lparr>
        mmu_mem := (\<lambda>y. if tab_pa b i s = Some y then None else pde_mem A i 0 s y),
        mmu_os := (case x of None \<Rightarrow> mmu_os s | Some pt \<Rightarrow> OSFreeMem (psPTInfo pt) (mmu_os s))\<rparr>"

lemma drop_slot_more [simp]:
  "cpu_map (drop_slot A b i x s) = cpu_map s" "area_va (drop_slot A b i x s) = area_va s"
  "area_pa (drop_slot A b i x s) = area_pa s" "page_allocs (drop_slot A b i x s) = page_allocs s"
  "psLocalDevMemArena (drop_slot A b i x s) = psLocalDevMemArena s" "ui32CacheControl (drop_slot A b i x s) = ui32CacheControl s"
  "mmu_mem (drop_slot A b i x s) = (\<lambda>y. if tab_pa b i s = Some y then None else pde_mem A i 0 s y)"
  "map psMMUContext (pvMMUContextList (drop_slot A b i x s)) = map psMMUContext (pvMMUContextList s)"
  "dir_pa a (drop_slot A b i x s) = dir_pa a s"
  by (simp_all add: drop_slot_def)

lemma drop_slot_slot:
  assumes "pt_slot b i s = Some x"
  shows "pt_slot a j (drop_slot A b i x s) = (if a = b \<and> j = i then Some None else pt_slot a j s)"
  using assms by (simp add: drop_slot_def)

lemma drop_slot_tab:
  assumes "pt_slot b i s = Some x"
  shows "tab_pa a j (drop_slot A b i x s) = (if a = b \<and> j = i then None else tab_pa a j s)"
proof -
  have "tab_pa a j (drop_slot A b i x s) = tab_pa a j (set_slot b i None s)"
    by (simp only: drop_slot_def tab_pa_upd_more)
  then show ?thesis
    unfolding tab_pa_set_slot [OF assms] by simp
qed

lemma drop_slot_role:
  assumes "pt_slot b i s = Some x"
  shows "role_pa rl (drop_slot A b i x s) = (if rl = (b, Some i) then None else role_pa rl s)"
proof -
  obtain a q where "rl = (a, q)"
    by (cases rl)
  then show ?thesis
    by (cases q) (simp_all add: drop_slot_tab [OF assms])
qed

lemma drop_slot_mem_ok:
  assumes m: "mem_ok s" and sl: "pt_slot b i s = Some x"
  shows "mem_ok (drop_slot A b i x s)"
proof -
  let ?s = "drop_slot A b i x s"
  have "rl = rl'" if "role_pa rl ?s = Some y" "role_pa rl' ?s = Some y" for rl rl' y
    using that mem_ok_inj [OF m, of rl y rl'] by (auto simp: drop_slot_role [OF sl] simp del: role_pa_simps split: if_splits)
  moreover have "(mmu_mem ?s y \<noteq> None) = (\<exists>rl. role_pa rl ?s = Some y)" for y
  proof (cases "tab_pa b i s = Some y")
    case True
    have "role_pa rl ?s \<noteq> Some y" for rl
      using True mem_ok_inj [OF m, of rl y "(b, Some i)"] by (auto simp: drop_slot_role [OF sl])
    then show ?thesis
      using True by (simp del: role_pa_simps)
  next
    case False
    then have "(\<exists>rl. role_pa rl ?s = Some y) = (\<exists>rl. role_pa rl s = Some y)"
      unfolding drop_slot_role [OF sl] by (metis option.distinct(1) role_pa_simps(2))
    then show ?thesis
      using False mem_ok_iff [OF m, of y] by (simp add: pde_mem_dom del: role_pa_simps)
  qed
  moreover have "y AND 0xFFFFF000 = y" if "role_pa rl ?s = Some y" for rl y
    using that mem_ok_align [OF m, of rl y] by (auto simp: drop_slot_role [OF sl] simp del: role_pa_simps split: if_splits)
  ultimately show ?thesis
    by (intro mem_okI)
qed

lemma drop_slot_slots_ok:
  assumes "slots_ok s" and m: "mem_ok s" and sl: "pt_slot b i s = Some x"
  shows "slots_ok (drop_slot A b i x s)"
  unfolding slots_ok_def
proof (intro allI impI)
  fix b' i' q
  assume "pt_slot b' i' (drop_slot A b i x s) = Some (Some q)"
  then have q: "pt_slot b' i' s = Some (Some q)" "\<not> (b' = b \<and> i' = i)"
    by (simp_all add: drop_slot_slot [OF sl] split: if_splits)
  have ok: "slot_ok s q"
    using assms(1) q by (simp add: slots_ok_def)
  show "slot_ok (drop_slot A b i x s) q"
  proof (cases "PTPageCpuVAddr q = IMG_NULL")
    case True
    then show ?thesis
      using ok by (simp add: slot_ok_def)
  next
    case False
    then have t: "tab_pa b' i' s = Some (cpu_map s (PTPageCpuVAddr q))"
      using q by (simp add: tab_pa_def)
    then have "tab_pa b i s \<noteq> Some (cpu_map s (PTPageCpuVAddr q))"
      using mem_ok_tab_inj [OF m] q(2) by blast
    then show ?thesis
      using ok False pde_mem_tab [OF m t] by (simp add: slot_ok_def)
  qed
qed

lemma drop_slot_dirs_ok:
  assumes d: "dirs_ok k SH U s" and m: "mem_ok s" and sl: "pt_slot b i s = Some x"
    and A: "\<forall>a. ctx_at a s \<noteq> None \<longrightarrow> (a \<in> A) = (owner k SH a i = b)"
  shows "dirs_ok k SH U (drop_slot A b i x s)"
  unfolding dirs_ok_def
proof (intro allI impI)
  fix a y p and j :: nat
  assume y: "dir_pa a (drop_slot A b i x s) = Some y" and p: "mmu_mem (drop_slot A b i x s) y = Some p" and j: "j < 1024"
  have dy: "dir_pa a s = Some y"
    using y by simp
  then have ca: "ctx_at a s \<noteq> None"
    by (auto simp: dir_pa_def)
  have "pde_mem A i 0 s y = Some p"
    using p by (simp split: if_splits)
  then obtain p0 where p0: "mmu_mem s y = Some p0" "p = (if a \<in> A then p0(i := 0) else p0)"
    by (auto simp: pde_mem_dir [OF m dy] split: if_splits)
  have old: "p0 j = pde (owner k SH a j) j s \<or> j \<in> U a \<and> p0 j = 0"
    using d dy p0(1) j by (auto simp: dirs_ok_def)
  have new: "pde c j (drop_slot A b i x s) = (if c = b \<and> j = i then 0 else pde c j s)" for c j
    by (simp add: pde_def drop_slot_tab [OF sl])
  show "p j = pde (owner k SH a j) j (drop_slot A b i x s) \<or> j \<in> U a \<and> p j = 0"
    unfolding new p0(2) using old A ca by auto
qed

lemma drop_slot_inv:
  assumes inv: "mmu_inv k SH U F s" and sl: "pt_slot b i s = Some x"
    and A: "\<forall>a. ctx_at a s \<noteq> None \<longrightarrow> (a \<in> A) = (owner k SH a i = b)"
  shows "mmu_inv k SH U F (drop_slot A b i x s)"
proof -
  let ?s = "drop_slot A b i x s"
  have l: "pvMMUContextList ?s = pvMMUContextList (set_slot b i None s)"
    by (simp add: drop_slot_def)
  have "ctxs_ok ?s"
    using inv ctxs_ok_upd [OF _ _ _ l] by (simp add: mmu_inv_def)
  moreover have "shared_ok k SH ?s"
    using inv by (auto simp: mmu_inv_def shared_ok_def drop_slot_slot [OF sl])
  moreover have "env_ok ?s"
    using inv OSFreeMem_os_ok by (auto simp: mmu_inv_def env_ok_def drop_slot_def split: option.splits)
  moreover have "mmu_blocks ?s + slot_block x = mmu_blocks s"
    using inv mmu_blocks_set_slot [OF _ sl, of None] by (simp add: mmu_inv_def slot_block_def drop_slot_def mmu_blocks_def)
  then have "mmu_blocks s + F - slot_block x = mmu_blocks ?s + F"
    by (metis add_diff_cancel_right' union_assoc union_commute)
  moreover have "blocks (mmu_os ?s) = blocks (mmu_os s) - slot_block x"
    by (simp add: drop_slot_def slot_block_def blocks_OSFreeMem split: option.splits)
  ultimately show ?thesis
    using inv drop_slot_slots_ok [OF _ _ sl] drop_slot_mem_ok [OF _ sl] drop_slot_dirs_ok [OF _ _ sl A]
    by (simp add: mmu_inv_def)
qed

lemma drop_slot_pte:
  assumes m: "mem_ok s" and sl: "pt_slot b i s = Some x"
  shows "pte a q (drop_slot A b i x s) = (if a = b \<and> q div 1024 = i then 0 else pte a q s)"
proof (cases "a = b \<and> q div 1024 = i")
  case True
  then show ?thesis
    by (simp add: pte_def drop_slot_tab [OF sl])
next
  case False
  show ?thesis
  proof (cases "tab_pa a (q div 1024) s")
    case None
    then show ?thesis
      using False by (auto simp: pte_def drop_slot_tab [OF sl])
  next
    case (Some y)
    then have "tab_pa b i s \<noteq> Some y"
      using mem_ok_tab_inj [OF m] False by blast
    then show ?thesis
      using False Some pde_mem_tab [OF m Some] by (auto simp: pte_def drop_slot_tab [OF sl])
  qed
qed

lemma set_slot_same:
  assumes "ctxs_ok s" "pt_slot b i s = Some x"
  shows "set_slot b i x s = s"
proof -
  obtain c where c: "ctx_at b s = Some c" "apsPTInfoList c i = x"
    using assms(2) by (auto simp: pt_slot_def split: if_splits)
  have "d = c" if "d \<in> set (pvMMUContextList s)" "psMMUContext d = b" for d
  proof -
    have "c \<in> set (pvMMUContextList s)" "psMMUContext c = b"
      using c(1) find_ctx_id by (auto simp: ctx_at_def)
    then show ?thesis
      using assms(1) that by (auto simp: ctxs_ok_def distinct_map inj_on_def)
  qed
  then have "map (\<lambda>d. if psMMUContext d = b then d\<lparr>apsPTInfoList := (apsPTInfoList d)(i := x)\<rparr> else d) (pvMMUContextList s) = pvMMUContextList s"
    using c(2) by (intro map_idI) auto
  then show ?thesis
    unfolding set_slot_def by simp
qed

lemma free_page_table:
  assumes inv: "mmu_inv k SH U F s" and g: "heap_geometry h" and ho: "heap_of k SH h i"
    and ix: "unat (PDIndex h (BaseDevVAddr (psDevArena h))) + unat t = i"
    and sl: "pt_slot (heap_psMMUContext h) i s = Some x"
  shows "\<exists>A n. DeferredFreePageTable h t True s = Some (h\<lparr>ui32PTETotalUsable := n\<rparr>, drop_slot A (heap_psMMUContext h) i x s) \<and>
    (\<forall>a. ctx_at a s \<noteq> None \<longrightarrow> (a \<in> A) = (owner k SH a i = heap_psMMUContext h))"
proof -
  let ?b = "heap_psMMUContext h"
  have i: "i < 1024" and ctx: "ctx_at ?b s \<noteq> None"
    using sl by (auto simp: pt_slot_def SGX_MAX_PD_ENTRIES_def split: if_splits)
  have m: "mem_ok s" and co: "ctxs_ok s"
    using inv by (simp_all add: mmu_inv_def)
  obtain cs where cs: "pd_targets h s = Some cs" "\<forall>a \<in> set cs. ctx_at a s \<noteq> None"
      "\<forall>a. ctx_at a s \<noteq> None \<longrightarrow> (a \<in> set cs) = (owner k SH a i = ?b)"
    using heap_of_targets [OF ho ctx] by metis
  let ?s1 = "s\<lparr>mmu_mem := pde_mem (set cs) i 0 s\<rparr>"
  have w: "write_pdes cs i 0 s = Some ?s1"
    using cs(2) dir_there_inv [OF inv] i by (intro write_pdes_mem) blast+
  have "\<exists>n. DeferredFreePageTable h t True s = Some (h\<lparr>ui32PTETotalUsable := n\<rparr>, drop_slot (set cs) ?b i x s)"
  proof (cases x)
    case None
    then have "drop_slot (set cs) ?b i x s = ?s1"
      using sl by (simp add: drop_slot_def set_slot_same [OF co] tab_pa_def cong: MMU_STATE.fold_congs)
    then show ?thesis
      using None sl cs(1) w ix by (auto simp: DeferredFreePageTable_def Let_def)
  next
    case (Some pt)
    show ?thesis
    proof (cases "PTPageCpuVAddr pt = IMG_NULL")
      case True
      then have "drop_slot (set cs) ?b i x s = set_slot ?b i None (?s1\<lparr>mmu_os := OSFreeMem (psPTInfo pt) (mmu_os s)\<rparr>)"
        using sl Some by (simp add: drop_slot_def tab_pa_def set_slot_def)
      then show ?thesis
        using Some True sl cs(1) w ix by (auto simp: DeferredFreePageTable_def Let_def)
    next
      case False
      let ?y = "cpu_map s (PTPageCpuVAddr pt)"
      let ?n = "min (ui32PTETotalUsable h) (ui32PTNumEntriesUsable h)"
      have t: "tab_pa ?b i s = Some ?y"
        using sl Some False by (simp add: tab_pa_def)
      obtain p where p: "mmu_mem s ?y = Some p"
        using mem_ok_mem [OF m, of "(?b, Some i)"] t by auto
      have ar: "area_va s (hPTPageOSMemHandle pt) = PTPageCpuVAddr pt" "psLocalDevMemArena s = None"
        using inv sl Some False by (auto simp: mmu_inv_def slots_ok_def slot_ok_def env_ok_def split: if_splits)
      have p1: "page_at (PTPageCpuVAddr pt) ?s1 = Some p"
        using False p pde_mem_tab [OF m t] by (simp add: page_at_def)
      have "ui32PTNumEntriesUsable h = 1024"
        using g by (simp add: heap_geometry_def)
      then have n: "unat ?n \<le> 1024"
        by (simp add: min_def word_le_nat_alt)
      let ?s2 = "?s1\<lparr>mmu_mem := (pde_mem (set cs) i 0 s)(?y := None)\<rparr>"
      have z: "zero_page (PTPageCpuVAddr pt) (unat ?n) ?s1 = Some (set_page (PTPageCpuVAddr pt) (\<lambda>j. if j < unat ?n then 0 else p j) ?s1)"
        using p1 n by (simp add: zero_page_def)
      have f: "FreePageTableMemory h pt (set_page (PTPageCpuVAddr pt) q ?s1) = Some ?s2" for q
        using ar False by (simp add: FreePageTableMemory_def OSFreePages_def page_at_def set_page_def)
      have mm: "(\<lambda>y. if tab_pa ?b i s = Some y then None else pde_mem (set cs) i 0 s y) = (pde_mem (set cs) i 0 s)(?y := None)"
        using t by (intro ext) auto
      have d: "drop_slot (set cs) ?b i x s = set_slot ?b i None (?s2\<lparr>mmu_os := OSFreeMem (psPTInfo pt) (mmu_os s)\<rparr>)"
        unfolding drop_slot_def mm using Some by (simp add: set_slot_def)
      show ?thesis
        using Some False sl cs(1) w ix z f d by (simp add: DeferredFreePageTable_def Let_def) blast
    qed
  qed
  then show ?thesis
    using cs(3) by blast
qed

end
