(* ===== verification/Mmu_Freeing.thy ===== *)
theory Mmu_Freeing
  imports Mmu_Allocation
begin

text \<open>
  The walk that clears the entries of a range and frees the tables it empties, and the operations of a context.
\<close>

section \<open>What freeing leaves alone\<close>

lemma heap_usable_upd [simp]:
  "heap_geometry (h\<lparr>ui32PTETotalUsable := n\<rparr>) = heap_geometry h" "heap_of k SH (h\<lparr>ui32PTETotalUsable := n\<rparr>) i = heap_of k SH h i"
  "PDIndex (h\<lparr>ui32PTETotalUsable := n\<rparr>) va = PDIndex h va" "PTIndex (h\<lparr>ui32PTETotalUsable := n\<rparr>) va = PTIndex h va"
  by (simp_all add: heap_geometry_def heap_of_def MMU_IsHeapShared_def PDIndex_def PTIndex_def)

definition pt_shrinks :: "IMG_UINTPTR_T \<Rightarrow> nat set \<Rightarrow> MMU_STATE \<Rightarrow> MMU_STATE \<Rightarrow> bool" where
  "pt_shrinks b J s s' \<longleftrightarrow>
     (\<forall>a j. tab_pa a j s' = tab_pa a j s \<or> a = b \<and> j \<in> J \<and> tab_pa a j s' = None \<and> pt_slot a j s' = Some None) \<and>
     (\<forall>a j. pt_slot a j s = Some None \<longrightarrow> pt_slot a j s' = Some None) \<and>
     map psMMUContext (pvMMUContextList s') = map psMMUContext (pvMMUContextList s) \<and>
     cpu_map s' = cpu_map s \<and> area_va s' = area_va s \<and> area_pa s' = area_pa s \<and> page_allocs s' = page_allocs s \<and>
     ui32CacheControl s' = ui32CacheControl s"

lemma pt_shrinks_refl [simp]: "pt_shrinks b J s s"
  by (simp add: pt_shrinks_def)

lemma pt_shrinks_trans: "pt_shrinks b J s s1 \<Longrightarrow> pt_shrinks b J s1 s2 \<Longrightarrow> pt_shrinks b J s s2"
  unfolding pt_shrinks_def by (elim conjE) (intro conjI; (metis | simp))

lemma pt_shrinks_mono: "pt_shrinks b J s s1 \<Longrightarrow> J \<subseteq> K \<Longrightarrow> pt_shrinks b K s s1"
  unfolding pt_shrinks_def by blast

lemma pt_shrinks_same_tables: "same_tables s s1 \<Longrightarrow> ui32CacheControl s1 = ui32CacheControl s \<Longrightarrow> pt_shrinks b J s s1"
  by (simp add: pt_shrinks_def same_tables_tab) (simp add: same_tables_def del: map_eq_conv)

lemma pt_shrinks_whole: "pt_shrinks b J s s1 \<Longrightarrow> slots_whole c n m s \<Longrightarrow> slots_whole c n m s1"
  unfolding pt_shrinks_def slots_whole_def by metis

lemma pt_shrinks_none: "pt_shrinks b J s s1 \<Longrightarrow> tab_pa a j s = None \<Longrightarrow> tab_pa a j s1 = None"
  unfolding pt_shrinks_def by metis

lemma drop_slot_pt_shrinks:
  "pt_slot b i s = Some x \<Longrightarrow> pt_shrinks b {i} s (drop_slot A b i x s)"
  by (auto simp: pt_shrinks_def drop_slot_tab drop_slot_slot simp del: map_eq_conv)

section \<open>Clearing a page and freeing its table\<close>

lemma count_zero_iff:
  assumes inv: "mmu_inv k SH U F s" and sl: "pt_slot b i s = Some (Some pt)" and nn: "PTPageCpuVAddr pt \<noteq> IMG_NULL"
  shows "ui32ValidPTECount pt = 0 \<longleftrightarrow> (\<forall>q. q div 1024 = i \<longrightarrow> pte b q s = 0)"
proof -
  have t: "tab_pa b i s = Some (cpu_map s (PTPageCpuVAddr pt))"
    using sl nn by (simp add: tab_pa_def)
  obtain p where p: "mmu_mem s (cpu_map s (PTPageCpuVAddr pt)) = Some p" "page_entries (ui32ValidPTECount pt) p"
    using slot_of_tab [OF inv t] sl by (metis option.inject)
  have *: "pte b q s = p (q mod 1024)" if "q div 1024 = i" for q
    using that t p by (simp add: pte_def)
  have "(\<forall>q. q div 1024 = i \<longrightarrow> pte b q s = 0) = (\<forall>j < 1024. p j = 0)"
  proof
    assume z: "\<forall>q. q div 1024 = i \<longrightarrow> pte b q s = 0"
    show "\<forall>j < 1024. p j = 0"
    proof (intro allI impI)
      fix j :: nat
      assume "j < 1024"
      then show "p j = 0"
        using z * [of "1024 * i + j"] by simp
    qed
  next
    assume "\<forall>j < 1024. p j = 0"
    then show "\<forall>q. q div 1024 = i \<longrightarrow> pte b q s = 0"
      using * by simp
  qed
  also have "\<dots> = (unat (ui32ValidPTECount pt) = 0)"
    using p(2) by (auto simp: page_entries_def)
  finally show ?thesis
    by (simp add: unat_eq_zero)
qed

text \<open>The table of a page is gone or some page of it is mapped.\<close>

definition tidy :: "IMG_UINTPTR_T \<Rightarrow> nat \<Rightarrow> MMU_STATE \<Rightarrow> bool" where
  "tidy b i s \<longleftrightarrow> tab_pa b i s = None \<or> (\<exists>q. q div 1024 = i \<and> pte b q s \<noteq> 0)"

lemma unmap_free_step:
  assumes inv: "mmu_inv k SH U F s" and g: "heap_geometry h" and t: "tab_pa (heap_psMMUContext h) (vpn va div 1024) s \<noteq> None"
    and ho: "heap_of k SH h (vpn va div 1024)" and ba: "unat (PDIndex h (BaseDevVAddr (psDevArena h))) \<le> vpn va div 1024"
  shows "\<exists>f n1 s1. unmap_free_loop va (Suc n) b h s = unmap_free_loop (va + 0x1000) n (b \<or> f) (h\<lparr>ui32PTETotalUsable := n1\<rparr>) s1 \<and>
    mmu_inv k SH U F s1 \<and> pt_shrinks (heap_psMMUContext h) {vpn va div 1024} s s1 \<and> clears (heap_psMMUContext h) (vpn va) 1 s s1 \<and>
    tidy (heap_psMMUContext h) (vpn va div 1024) s1 \<and> f = (tab_pa (heap_psMMUContext h) (vpn va div 1024) s1 = None)"
proof -
  let ?b = "heap_psMMUContext h" and ?i = "vpn va div 1024" and ?j = "vpn va mod 1024"
  have ps: "ui32DataPageSize h = 0x1000"
    using g by (simp add: heap_geometry_def)
  obtain x where x: "tab_pa ?b ?i s = Some x"
    using t by auto
  obtain pt p where pt: "pt_slot ?b ?i s = Some (Some pt)" "page_at (PTPageCpuVAddr pt) s = Some p"
    using slot_of_tab [OF inv x] by metis
  have nn: "PTPageCpuVAddr pt \<noteq> IMG_NULL"
    using slot_tab(3) [OF pt] .
  obtain pt1 s1 where s1: "clear_entry ?b ?i ?j pt s = Some (pt1, s1)" "mmu_inv k SH U F s1" "same_tables s s1"
      "ui32CacheControl s1 = ui32CacheControl s" "pt_slot ?b ?i s1 = Some (Some pt1)" "PTPageCpuVAddr pt1 = PTPageCpuVAddr pt"
      "\<And>a q. pte a q s1 = (if a = ?b \<and> q = vpn va then 0 else pte a q s)"
    using clear_effect [OF inv pt, of ?j] by auto
  have nn1: "PTPageCpuVAddr pt1 \<noteq> IMG_NULL"
    using s1(6) nn by simp
  have c1: "clears ?b (vpn va) 1 s s1"
    using s1(7) by (auto simp: clears_def)
  have sh1: "pt_shrinks ?b {?i} s s1"
    using pt_shrinks_same_tables s1(3,4) .
  show ?thesis
  proof (cases "ui32ValidPTECount pt1 = 0")
    case False
    then have "tidy ?b ?i s1"
      using count_zero_iff [OF s1(2,5) nn1] by (auto simp: tidy_def)
    moreover have "tab_pa ?b ?i s1 \<noteq> None"
      using same_tables_tab [OF s1(3)] x by simp
    moreover have "unmap_free_loop va (Suc n) b h s = unmap_free_loop (va + 0x1000) n b h s1"
      using pt s1(1) nn False by (simp add: heap_indexes [OF g] ps)
    ultimately show ?thesis
      using s1(2) c1 sh1 by (intro exI [of _ False] exI [of _ "ui32PTETotalUsable h"] exI [of _ s1]) simp
  next
    case True
    then have z: "q div 1024 = ?i \<Longrightarrow> pte ?b q s1 = 0" for q
      using count_zero_iff [OF s1(2,5) nn1] by simp
    have "ui32PDBaseIndex h = PDIndex h (BaseDevVAddr (psDevArena h))"
      using g by (simp add: heap_geometry_def PDIndex_def)
    then have "unat (PDIndex h va - ui32PDBaseIndex h) = ?i - unat (PDIndex h (BaseDevVAddr (psDevArena h)))"
      using ba heap_indexes(1) [OF g, of va] by (simp add: unat_sub word_le_nat_alt)
    then have ix: "unat (PDIndex h (BaseDevVAddr (psDevArena h))) + unat (PDIndex h va - ui32PDBaseIndex h) = ?i"
      using ba by simp
    obtain A n1 where fr: "DeferredFreePageTable h (PDIndex h va - ui32PDBaseIndex h) True s1 =
          Some (h\<lparr>ui32PTETotalUsable := n1\<rparr>, drop_slot A ?b ?i (Some pt1) s1)"
        and A: "\<forall>a. ctx_at a s1 \<noteq> None \<longrightarrow> (a \<in> A) = (owner k SH a ?i = ?b)"
      using free_page_table [OF s1(2) g ho ix s1(5)] by blast
    let ?s2 = "drop_slot A ?b ?i (Some pt1) s1"
    have m1: "mem_ok s1"
      using s1(2) by (simp add: mmu_inv_def)
    have "unmap_free_loop va (Suc n) b h s = unmap_free_loop (va + 0x1000) n True (h\<lparr>ui32PTETotalUsable := n1\<rparr>) ?s2"
      using pt s1(1) nn True fr by (simp add: heap_indexes [OF g] ps)
    moreover have "mmu_inv k SH U F ?s2"
      using drop_slot_inv [OF s1(2,5) A] .
    moreover have "pt_shrinks ?b {?i} s ?s2"
      using pt_shrinks_trans [OF sh1 drop_slot_pt_shrinks [OF s1(5)]] .
    moreover have "pte a q ?s2 = (if a = ?b \<and> q = vpn va then 0 else pte a q s)" for a q
      using s1(7) [of a q] z [of q] unfolding drop_slot_pte [OF m1 s1(5)] by (metis (full_types))
    then have "clears ?b (vpn va) 1 s ?s2"
      by (auto simp: clears_def)
    moreover have "tab_pa ?b ?i ?s2 = None"
      by (simp add: drop_slot_tab [OF s1(5)])
    ultimately show ?thesis
      by (intro exI [of _ True] exI [of _ n1] exI [of _ ?s2]) (simp add: tidy_def)
  qed
qed

definition freed_some :: "IMG_UINTPTR_T \<Rightarrow> MMU_STATE \<Rightarrow> MMU_STATE \<Rightarrow> bool" where
  "freed_some b s s' \<longleftrightarrow> (\<exists>i. tab_pa b i s \<noteq> None \<and> tab_pa b i s' = None)"

lemma clears_join:
  assumes "clears b n 1 s s1" "clears b (n + 1) m s1 s2"
  shows "clears b n (Suc m) s s2"
  using assms by (auto simp: clears_def Suc_le_eq nat_less_le)

lemma tidy_later:
  assumes "pt_shrinks b J s1 s2" "clears b n m s1 s2" "i \<notin> J" "\<And>q. n \<le> q \<Longrightarrow> q < n + m \<Longrightarrow> q div 1024 \<in> J" "tidy b i s1"
  shows "tidy b i s2"
proof -
  have "tab_pa b i s2 = tab_pa b i s1"
    using assms(1,3) by (auto simp: pt_shrinks_def)
  moreover have "pte b q s2 = pte b q s1" if "q div 1024 = i" for q
    using assms(2,3,4) that by (auto simp: clears_def)
  ultimately show ?thesis
    using assms(5) by (auto simp: tidy_def)
qed

lemma freed_some_join:
  assumes "pt_shrinks c J s s1" "pt_shrinks c' J' s1 s2"
  shows "(freed_some b s s1 \<or> freed_some b s1 s2) = freed_some b s s2"
proof -
  have "(tab_pa b i s \<noteq> None \<and> tab_pa b i s1 = None) \<or> (tab_pa b i s1 \<noteq> None \<and> tab_pa b i s2 = None) \<longleftrightarrow>
      tab_pa b i s \<noteq> None \<and> tab_pa b i s2 = None" for i
    using pt_shrinks_none [OF assms(1), of b i] pt_shrinks_none [OF assms(2), of b i] by argo
  then show ?thesis
    unfolding freed_some_def ex_disj_distrib [symmetric] by simp
qed

lemma unmap_free_loop_effect:
  assumes "mmu_inv k SH U F s" "heap_geometry h" "vpn va + n \<le> 1048576" "slots_whole (heap_psMMUContext h) (vpn va) n s"
    "\<forall>q. vpn va \<le> q \<longrightarrow> q < vpn va + n \<longrightarrow> heap_of k SH h (q div 1024)"
    "unat (PDIndex h (BaseDevVAddr (psDevArena h))) \<le> vpn va div 1024"
  shows "\<exists>f n1 s'. unmap_free_loop va n b h s = Some (b \<or> f, h\<lparr>ui32PTETotalUsable := n1\<rparr>, s') \<and> mmu_inv k SH U F s' \<and>
    pt_shrinks (heap_psMMUContext h) {q div 1024 | q. vpn va \<le> q \<and> q < vpn va + n} s s' \<and>
    clears (heap_psMMUContext h) (vpn va) n s s' \<and>
    (\<forall>q. vpn va \<le> q \<longrightarrow> q < vpn va + n \<longrightarrow> tidy (heap_psMMUContext h) (q div 1024) s') \<and>
    f = freed_some (heap_psMMUContext h) s s'"
  using assms
proof (induction n arbitrary: va b h s)
  case 0
  have "h\<lparr>ui32PTETotalUsable := ui32PTETotalUsable h\<rparr> = h"
    by simp
  then show ?case
    using 0 by (intro exI [of _ False] exI [of _ "ui32PTETotalUsable h"] exI [of _ s]) (auto simp: clears_def freed_some_def)
next
  case (Suc n)
  let ?b = "heap_psMMUContext h" and ?i = "vpn va div 1024" and ?J = "{q div 1024 | q. vpn va \<le> q \<and> q < vpn va + Suc n}"
    and ?J1 = "{q div 1024 | q. vpn va + 1 \<le> q \<and> q < vpn va + 1 + n}"
  have ps: "ui32DataPageSize h = 0x1000"
    using Suc.prems(2) by (simp add: heap_geometry_def)
  have iJ: "{?i} \<subseteq> ?J" "?J1 \<subseteq> ?J"
    by auto
  have first: "\<exists>f n1 s1. unmap_free_loop va (Suc n) b h s = unmap_free_loop (va + 0x1000) n (b \<or> f) (h\<lparr>ui32PTETotalUsable := n1\<rparr>) s1 \<and>
    mmu_inv k SH U F s1 \<and> pt_shrinks ?b {?i} s s1 \<and> clears ?b (vpn va) 1 s s1 \<and> tidy ?b ?i s1 \<and> f = freed_some ?b s s1"
  proof (cases "tab_pa ?b ?i s")
    case None
    then have e: "pt_slot ?b ?i s = Some None"
      using Suc.prems(4) by (auto simp: slots_whole_def)
    have "unmap_free_loop va (Suc n) b h s = unmap_free_loop (va + 0x1000) n b h s"
      using e by (simp add: heap_indexes [OF Suc.prems(2)] ps)
    moreover have "clears ?b (vpn va) 1 s s"
      using pte_empty [OF e] by (auto simp: clears_def less_Suc_eq_le dest: le_antisym)
    ultimately show ?thesis
      using Suc.prems(1) None
      by (intro exI [of _ False] exI [of _ "ui32PTETotalUsable h"] exI [of _ s])
        (auto simp: tidy_def freed_some_def simp del: unmap_free_loop.simps)
  next
    case (Some x)
    have "heap_of k SH h ?i"
      using Suc.prems(5) by auto
    then obtain f n1 s1 where s1: "unmap_free_loop va (Suc n) b h s = unmap_free_loop (va + 0x1000) n (b \<or> f) (h\<lparr>ui32PTETotalUsable := n1\<rparr>) s1"
        "mmu_inv k SH U F s1" "pt_shrinks ?b {?i} s s1" "clears ?b (vpn va) 1 s s1" "tidy ?b ?i s1" "f = (tab_pa ?b ?i s1 = None)"
      using unmap_free_step [OF Suc.prems(1,2) _ _ Suc.prems(6)] Some by blast
    have "(tab_pa ?b ?i s1 = None) = freed_some ?b s s1"
      using s1(3) Some unfolding freed_some_def pt_shrinks_def by (metis option.distinct(1) singletonD)
    then have "f = freed_some ?b s s1"
      using s1(6) by simp
    then show ?thesis
      using s1(1-5) by (intro exI [of _ f] exI [of _ n1] exI [of _ s1] conjI)
  qed
  then obtain f n1 s1 where s1: "unmap_free_loop va (Suc n) b h s = unmap_free_loop (va + 0x1000) n (b \<or> f) (h\<lparr>ui32PTETotalUsable := n1\<rparr>) s1"
      "mmu_inv k SH U F s1" "pt_shrinks ?b {?i} s s1" "clears ?b (vpn va) 1 s s1" "tidy ?b ?i s1" "f = freed_some ?b s s1"
    by blast
  let ?h = "h\<lparr>ui32PTETotalUsable := n1\<rparr>"
  have "\<exists>f2 n2 s2. unmap_free_loop (va + 0x1000) n (b \<or> f) ?h s1 = Some ((b \<or> f) \<or> f2, h\<lparr>ui32PTETotalUsable := n2\<rparr>, s2) \<and>
      mmu_inv k SH U F s2 \<and> pt_shrinks ?b ?J1 s1 s2 \<and> clears ?b (vpn va + 1) n s1 s2 \<and>
      (\<forall>q. vpn va + 1 \<le> q \<longrightarrow> q < vpn va + 1 + n \<longrightarrow> tidy ?b (q div 1024) s2) \<and> f2 = freed_some ?b s1 s2"
  proof (cases "n = 0")
    case True
    then show ?thesis
      using s1(2) by (intro exI [of _ False] exI [of _ n1] exI [of _ s1]) (auto simp: clears_def freed_some_def)
  next
    case False
    then have v: "vpn (va + 0x1000) = vpn va + 1"
      using Suc.prems(3) by (intro vpn_add) simp
    have "slots_whole ?b (vpn va + 1) n s"
      using Suc.prems(4) by (auto simp: slots_whole_def)
    then have w: "slots_whole ?b (vpn va + 1) n s1"
      using pt_shrinks_whole [OF s1(3)] by blast
    have d: "unat (PDIndex h (BaseDevVAddr (psDevArena h))) \<le> (vpn va + 1) div 1024"
      using Suc.prems(6) div_le_mono [of "vpn va" "vpn va + 1" 1024] by linarith
    have hs: "\<forall>q. vpn va + 1 \<le> q \<longrightarrow> q < vpn va + 1 + n \<longrightarrow> heap_of k SH h (q div 1024)"
      using Suc.prems(5) by simp
    have b3: "vpn va + 1 + n \<le> 1048576"
      using Suc.prems(3) by simp
    show ?thesis
      using Suc.IH [of s1 ?h "va + 0x1000" "b \<or> f"] s1(2) Suc.prems(2) w d hs b3 by (simp add: v)
  qed
  then obtain f2 n2 s2 where s2: "unmap_free_loop (va + 0x1000) n (b \<or> f) ?h s1 = Some ((b \<or> f) \<or> f2, h\<lparr>ui32PTETotalUsable := n2\<rparr>, s2)"
      "mmu_inv k SH U F s2" "pt_shrinks ?b ?J1 s1 s2" "clears ?b (vpn va + 1) n s1 s2"
      "\<forall>q. vpn va + 1 \<le> q \<longrightarrow> q < vpn va + 1 + n \<longrightarrow> tidy ?b (q div 1024) s2" "f2 = freed_some ?b s1 s2"
    by blast
  have "tidy ?b ?i s2"
  proof (cases "?i \<in> ?J1")
    case True
    then show ?thesis
      using s2(5) by force
  next
    case False
    show ?thesis
      by (rule tidy_later [OF s2(3,4) False _ s1(5)]) auto
  qed
  then have "\<forall>q. vpn va \<le> q \<longrightarrow> q < vpn va + Suc n \<longrightarrow> tidy ?b (q div 1024) s2"
    using s2(5) by (metis Suc_eq_plus1 Suc_leI add_Suc_right add_Suc_shift nat_less_le)
  moreover have "pt_shrinks ?b ?J s s2"
    using pt_shrinks_trans [OF pt_shrinks_mono [OF s1(3) iJ(1)] pt_shrinks_mono [OF s2(3) iJ(2)]] .
  moreover have "clears ?b (vpn va) (Suc n) s s2"
    using clears_join [OF s1(4) s2(4)] .
  moreover have "(f \<or> f2) = freed_some ?b s s2"
    unfolding s1(6) s2(6) by (rule freed_some_join [OF s1(3) s2(3)])
  ultimately show ?case
    using s1(1) s2(1,2) by (intro exI [of _ "f \<or> f2"] exI [of _ n2] exI [of _ s2] conjI)
      (simp_all only: disj_assoc)
qed

end
