(* ===== verification/Mmu_Contexts.thy ===== *)
theory Mmu_Contexts
  imports Mmu_Freeing
begin

text \<open>
  The contexts: a new context with an empty directory, the entries of shared heaps copied into it, the tables of a heap
  freed with the heap, and the end of a context.
\<close>

section \<open>A new context\<close>

lemma ctx_block:
  assumes "ctx_at a s \<noteq> None"
  shows "a \<in># mmu_blocks s"
proof -
  obtain c where "c \<in> set (pvMMUContextList s)" "psMMUContext c = a"
    using assms by (auto simp: ctx_at_def dest: find_ctx_id)
  moreover have "c \<in> set cs \<Longrightarrow> psMMUContext c \<in># (\<Sum>c\<leftarrow>cs. ctx_blocks c)" for cs
    by (induction cs) (auto simp: ctx_blocks_def)
  ultimately show ?thesis
    by (auto simp: mmu_blocks_def)
qed

definition new_ctx :: "IMG_UINTPTR_T \<Rightarrow> IMG_UINTPTR_T \<Rightarrow> IMG_UINTPTR_T \<Rightarrow> IMG_UINTPTR_T \<Rightarrow> MMU_CONTEXT" where
  "new_ctx a va pa hm = \<lparr>psMMUContext = a, pvPDCpuVAddr = va, sPDDevPAddr = pa, hPDOSMemHandle = hm, apsPTInfoList = (\<lambda>_. None)\<rparr>"

lemma new_ctx_sel [simp]:
  "psMMUContext (new_ctx a va pa hm) = a" "pvPDCpuVAddr (new_ctx a va pa hm) = va" "sPDDevPAddr (new_ctx a va pa hm) = pa"
  "hPDOSMemHandle (new_ctx a va pa hm) = hm" "apsPTInfoList (new_ctx a va pa hm) = (\<lambda>_. None)"
  by (simp_all add: new_ctx_def)

definition with_ctx :: "MMU_CONTEXT \<Rightarrow> page \<Rightarrow> (IMG_UINTPTR_T \<times> IMG_UINTPTR_T \<times> page) list \<Rightarrow> os \<Rightarrow> MMU_STATE \<Rightarrow> MMU_STATE" where
  "with_ctx c z r os s =
     s\<lparr>pvMMUContextList := c # pvMMUContextList s, mmu_mem := (mmu_mem s)(sPDDevPAddr c \<mapsto> z), page_allocs := r, mmu_os := os\<rparr>"

lemma with_ctx_more [simp]:
  "cpu_map (with_ctx c z r os s) = cpu_map s" "area_va (with_ctx c z r os s) = area_va s" "area_pa (with_ctx c z r os s) = area_pa s"
  "page_allocs (with_ctx c z r os s) = r" "psLocalDevMemArena (with_ctx c z r os s) = psLocalDevMemArena s"
  "mmu_os (with_ctx c z r os s) = os" "mmu_mem (with_ctx c z r os s) = (mmu_mem s)(sPDDevPAddr c \<mapsto> z)"
  "pvMMUContextList (with_ctx c z r os s) = c # pvMMUContextList s"
  "ctx_at b (with_ctx c z r os s) = (if b = psMMUContext c then Some c else ctx_at b s)"
  by (auto simp: with_ctx_def ctx_at_def)

lemma ctx_none: "ctx_at a s = None \<Longrightarrow> pt_slot a i s = None" "ctx_at a s = None \<Longrightarrow> dir_pa a s = None"
  by (simp_all add: pt_slot_def dir_pa_def)

lemma with_ctx_slot:
  "pt_slot b i (with_ctx (new_ctx a va pa hm) z r os s) =
     (if b = a then if i < 1024 then Some None else None else pt_slot b i s)"
  by (simp add: pt_slot_def SGX_MAX_PD_ENTRIES_def)

lemma with_ctx_tab:
  assumes "ctx_at a s = None"
  shows "tab_pa b i (with_ctx (new_ctx a va pa hm) z r os s) = tab_pa b i s"
  using ctx_none(1) [OF assms] by (simp add: tab_pa_def with_ctx_slot split: option.splits)

lemma with_ctx_role:
  assumes "ctx_at a s = None"
  shows "role_pa rl (with_ctx (new_ctx a va pa hm) z r os s) = (if rl = (a, None) then Some pa else role_pa rl s)"
proof -
  obtain b q where "rl = (b, q)"
    by (cases rl)
  then show ?thesis
    by (cases q) (simp_all add: with_ctx_tab [OF assms] dir_pa_def)
qed

lemma with_ctx_inv:
  assumes inv: "mmu_inv k SH U F s" and n: "ctx_at a s = None" and fresh: "mmu_mem s pa = None"
    and c: "va \<noteq> IMG_NULL" "cpu_map s va = pa" "area_va s hm = va" "pa AND 0xFFFFF000 = pa"
    and z: "\<forall>j < 1024. z j = 0" and r: "set r \<subseteq> set (page_allocs s)"
    and os: "os_ok os" "blocks os = add_mset a (blocks (mmu_os s))"
  shows "mmu_inv k SH (U(a := if a = k then {} else SH)) F (with_ctx (new_ctx a va pa hm) z r os s)"
proof -
  let ?s = "with_ctx (new_ctx a va pa hm) z r os s"
  note t = with_ctx_tab [OF n] and rl = with_ctx_role [OF n]
  have m: "mem_ok s"
    using inv by (simp add: mmu_inv_def)
  have f: "role_pa q s \<noteq> Some pa" for q
    using mem_ok_fresh [OF m fresh] .
  have e: "role_pa (a, None) s = None"
    using n by (simp add: dir_pa_def)
  have "distinct (map psMMUContext (pvMMUContextList ?s))"
    using inv n ctx_at_iff [of a s] by (auto simp: mmu_inv_def ctxs_ok_def)
  then have "ctxs_ok ?s"
    using inv c by (auto simp: mmu_inv_def ctxs_ok_def ctx_ok_def)
  moreover have "slots_ok ?s"
    unfolding slots_ok_def
  proof (intro allI impI)
    fix b i q
    assume "pt_slot b i ?s = Some (Some q)"
    then have q: "pt_slot b i s = Some (Some q)"
      by (simp add: with_ctx_slot split: if_splits)
    then have "slot_ok s q"
      using inv by (simp add: mmu_inv_def slots_ok_def)
    moreover have "PTPageCpuVAddr q \<noteq> IMG_NULL \<Longrightarrow> cpu_map s (PTPageCpuVAddr q) \<noteq> pa"
      using f [of "(b, Some i)"] q by (simp add: tab_pa_def)
    ultimately show "slot_ok ?s q"
      by (simp add: slot_ok_def)
  qed
  moreover have "mem_ok ?s"
  proof (rule mem_okI)
    fix q q' x
    show "role_pa q ?s = Some x \<Longrightarrow> role_pa q' ?s = Some x \<Longrightarrow> q = q'"
      using f mem_ok_inj [OF m, of q x q'] by (auto simp: rl simp del: role_pa_simps split: if_splits)
    show "role_pa q ?s = Some x \<Longrightarrow> x AND 0xFFFFF000 = x"
      using c(4) mem_ok_align [OF m, of q x] by (auto simp: rl simp del: role_pa_simps split: if_splits)
    show "(mmu_mem ?s x \<noteq> None) = (\<exists>q. role_pa q ?s = Some x)"
    proof (cases "x = pa")
      case True
      then show ?thesis
        by (auto simp: rl simp del: role_pa_simps)
    next
      case False
      then have "(\<exists>q. role_pa q ?s = Some x) = (\<exists>q. role_pa q s = Some x)"
        unfolding rl using e by (metis option.distinct(1) option.inject)
      then show ?thesis
        using False mem_ok_iff [OF m, of x] by (simp del: role_pa_simps)
    qed
  qed
  moreover have "dirs_ok k SH (U(a := if a = k then {} else SH)) ?s"
    unfolding dirs_ok_def
  proof (intro allI impI)
    fix b x d and i :: nat
    assume x: "dir_pa b ?s = Some x" and d: "mmu_mem ?s x = Some d" and i: "i < 1024"
    have p: "pde c i ?s = pde c i s" for c
      by (simp add: pde_def t)
    have n0: "pde a i s = 0"
      using ctx_none(1) [OF n] by (simp add: pde_def tab_pa_def)
    show "d i = pde (owner k SH b i) i ?s \<or> i \<in> (U(a := if a = k then {} else SH)) b \<and> d i = 0"
    proof (cases "b = a")
      case True
      then have "x = pa"
        using x by (simp add: dir_pa_def)
      then have "d i = 0"
        using d z i by simp
      then show ?thesis
        using True n0 by (auto simp: p owner_def)
    next
      case False
      then have "dir_pa b s = Some x"
        using x by (simp add: dir_pa_def)
      moreover from this have "mmu_mem s x = Some d"
        using d f [of "(b, None)"] by (auto split: if_splits)
      ultimately show ?thesis
        using inv i False by (auto simp: p mmu_inv_def dirs_ok_def)
    qed
  qed
  moreover have "shared_ok k SH ?s"
    using inv by (auto simp: mmu_inv_def shared_ok_def with_ctx_slot split: if_splits)
  moreover have "env_ok ?s"
    using inv r os(1) by (auto simp: mmu_inv_def env_ok_def)
  moreover have "ctx_blocks (new_ctx a va pa hm) = {#a#}"
    by (simp add: ctx_blocks_def slot_block_def)
  then have "blocks (mmu_os ?s) = mmu_blocks ?s + F"
    using inv os(2) by (simp add: mmu_inv_def mmu_blocks_def)
  ultimately show ?thesis
    by (simp add: mmu_inv_def)
qed

lemma with_ctx_pte:
  assumes m: "mem_ok s" and n: "ctx_at a s = None" and fresh: "mmu_mem s pa = None"
  shows "pte b q (with_ctx (new_ctx a va pa hm) z r os s) = pte b q s"
proof -
  have "tab_pa b (q div 1024) s \<noteq> Some pa"
    using mem_ok_fresh [OF m fresh, of "(b, Some (q div 1024))"] by simp
  then show ?thesis
    by (auto simp: pte_def with_ctx_tab [OF n] split: option.splits)
qed

lemma OSAllocPages_cases:
  assumes "env_ok s"
  obtains (fail) r where "OSAllocPages s = (False, IMG_NULL, IMG_NULL, s\<lparr>page_allocs := r\<rparr>)" "set r \<subseteq> set (page_allocs s)"
  | (got) va hm p r where
      "OSAllocPages s = (True, va, hm, s\<lparr>mmu_mem := (mmu_mem s)(cpu_map s va \<mapsto> p), page_allocs := r\<rparr>)"
      "va \<noteq> IMG_NULL" "area_va s hm = va" "area_pa s hm 0 = cpu_map s va" "cpu_map s va AND 0xFFFFF000 = cpu_map s va"
      "mmu_mem s (cpu_map s va) = None" "set r \<subseteq> set (page_allocs s)"
proof (cases "page_allocs s")
  case Nil
  then show ?thesis
    by (intro fail [of "[]"]) (simp_all add: OSAllocPages_def)
next
  case (Cons x r)
  obtain va hm p where x: "x = (va, hm, p)"
    by (cases x)
  show ?thesis
  proof (cases "hm = IMG_NULL \<or> mmu_mem s (cpu_map s va) \<noteq> None")
    case True
    then show ?thesis
      using Cons x by (intro fail [of r]) (auto simp: OSAllocPages_def)
  next
    case False
    then have e: "va \<noteq> IMG_NULL" "area_va s hm = va" "area_pa s hm 0 = cpu_map s va" "cpu_map s va AND 0xFFFFF000 = cpu_map s va"
      using assms Cons x by (auto simp: env_ok_def)
    have "OSAllocPages s = (True, va, hm, s\<lparr>mmu_mem := (mmu_mem s)(cpu_map s va \<mapsto> p), page_allocs := r\<rparr>)"
      using Cons x False e by (simp add: OSAllocPages_def set_page_def)
    then show ?thesis
      using False e Cons by (intro got) auto
  qed
qed

text \<open>The context that \<open>MMU_Initialise\<close> makes, or the state it leaves when it fails.\<close>

lemma initialise_cases:
  assumes inv: "mmu_inv k SH U F s"
  obtains (oom) os1 where "MMU_Initialise s = Some (PVRSRV_ERROR_OUT_OF_MEMORY, IMG_NULL, 0, s\<lparr>mmu_os := os1\<rparr>)"
      "mmu_inv k SH U F (s\<lparr>mmu_os := os1\<rparr>)"
  | (no_page) a os1 r where "MMU_Initialise s = Some (PVRSRV_ERROR_FAILED_TO_ALLOC_PAGES, IMG_NULL, 0, s\<lparr>mmu_os := os1, page_allocs := r\<rparr>)"
      "mmu_inv k SH U (add_mset a F) (s\<lparr>mmu_os := os1, page_allocs := r\<rparr>)"
  | (ok) a va hm z r os1 where
      "MMU_Initialise s = Some (PVRSRV_OK, a, cpu_map s va, with_ctx (new_ctx a va (cpu_map s va) hm) z r os1 s)"
      "ctx_at a s = None" "a \<noteq> IMG_NULL" "mmu_mem s (cpu_map s va) = None" "\<forall>j < 1024. z j = 0"
      "mmu_inv k SH (U(a := if a = k then {} else SH)) F (with_ctx (new_ctx a va (cpu_map s va) hm) z r os1 s)"
proof -
  obtain e a os1 where al: "OSAllocMem sizeof_MMU_CONTEXT (mmu_os s) = (e, a, os1)"
    by (metis prod_cases3)
  have env: "env_ok s"
    using inv by (simp add: mmu_inv_def)
  have oso: "os_ok os1"
    using OSAllocMem_os_ok [OF al] env by (simp add: env_ok_def)
  have bl: "blocks os1 = (if a = IMG_NULL then blocks (mmu_os s) else add_mset a (blocks (mmu_os s)))"
    using OSAllocMem_blocks [OF al] .
  show ?thesis
  proof (cases "a = IMG_NULL")
    case True
    then show ?thesis
      using mmu_inv_oom [OF inv] al by (intro oom [of os1]) (simp_all add: MMU_Initialise_def)
  next
    case a: False
    have env1: "env_ok (s\<lparr>mmu_os := os1\<rparr>)"
      using env oso by (simp add: env_ok_def)
    have arena: "psLocalDevMemArena s = None"
      using env by (simp add: env_ok_def)
    show ?thesis
    proof (rule OSAllocPages_cases [OF env1])
      fix r
      assume p: "OSAllocPages (s\<lparr>mmu_os := os1\<rparr>) = (False, IMG_NULL, IMG_NULL, s\<lparr>mmu_os := os1, page_allocs := r\<rparr>)"
        "set r \<subseteq> set (page_allocs (s\<lparr>mmu_os := os1\<rparr>))"
      have "mmu_inv k SH U (F + {#a#}) (s\<lparr>mmu_os := os1, page_allocs := r\<rparr>)"
        using p(2) oso bl a by (intro mmu_inv_cong [OF inv]) simp_all
      then show ?thesis
        using al a arena p(1) by (intro no_page [of r os1 a]) (simp_all add: MMU_Initialise_def)
    next
      fix va hm r and p :: page
      let ?s = "s\<lparr>mmu_os := os1\<rparr>"
      let ?z = "\<lambda>i :: nat. if i < SGX_MMU_PD_SIZE then (0 :: 32 word) else p i"
      assume "OSAllocPages ?s = (True, va, hm, ?s\<lparr>mmu_mem := (mmu_mem ?s)(cpu_map ?s va \<mapsto> p), page_allocs := r\<rparr>)"
        and "va \<noteq> IMG_NULL" "area_va ?s hm = va" "area_pa ?s hm 0 = cpu_map ?s va" "cpu_map ?s va AND 0xFFFFF000 = cpu_map ?s va"
        "mmu_mem ?s (cpu_map ?s va) = None" "set r \<subseteq> set (page_allocs ?s)"
      then have p: "OSAllocPages ?s = (True, va, hm, s\<lparr>mmu_os := os1, mmu_mem := (mmu_mem s)(cpu_map s va \<mapsto> p), page_allocs := r\<rparr>)"
        and v: "va \<noteq> IMG_NULL" "area_va s hm = va" "area_pa s hm 0 = cpu_map s va" "cpu_map s va AND 0xFFFFF000 = cpu_map s va"
        "mmu_mem s (cpu_map s va) = None" "set r \<subseteq> set (page_allocs s)"
        by simp_all
      have n: "ctx_at a s = None"
      proof (rule ccontr)
        assume "ctx_at a s \<noteq> None"
        then show False
          using ctx_block [of a s] OSAllocMem_fresh [OF al a] inv by (simp add: mmu_inv_def)
      qed
      have "mmu_inv k SH (U(a := if a = k then {} else SH)) F (with_ctx (new_ctx a va (cpu_map s va) hm) ?z r os1 s)"
        using bl a oso v by (intro with_ctx_inv [OF inv n]) (simp_all add: SGX_MMU_PD_SIZE_def)
      moreover have "MMU_Initialise s = Some (PVRSRV_OK, a, cpu_map s va, with_ctx (new_ctx a va (cpu_map s va) hm) ?z r os1 s)"
        using al a arena p v(1-3)
        by (simp add: MMU_Initialise_def zero_page_def page_at_def set_page_def with_ctx_def new_ctx_def SGX_MMU_PD_SIZE_def
            SysCpuPAddrToDevPAddr_def OSMapLinToCPUPhys_def Let_def)
      ultimately show ?thesis
        using n a v by (intro ok) (auto simp: SGX_MMU_PD_SIZE_def)
    qed
  qed
qed

section \<open>The end of a context\<close>

definition without_ctx :: "MMU_CONTEXT \<Rightarrow> MMU_STATE \<Rightarrow> MMU_STATE" where
  "without_ctx c s =
     s\<lparr>pvMMUContextList := remove1 c (pvMMUContextList s), mmu_mem := (mmu_mem s)(sPDDevPAddr c := None),
       mmu_os := OSFreeMem (psMMUContext c) (mmu_os s)\<rparr>"

lemma find_remove1:
  assumes "distinct (map psMMUContext cs)" "c \<in> set cs"
  shows "List.find (\<lambda>d. psMMUContext d = b) (remove1 c cs) = (if b = psMMUContext c then None else List.find (\<lambda>d. psMMUContext d = b) cs)"
  using assms
proof (induction cs)
  case (Cons d cs)
  show ?case
  proof (cases "d = c")
    case True
    then have "List.find (\<lambda>d. psMMUContext d = psMMUContext c) cs = None"
      using Cons.prems(1) True by (auto simp: find_None_iff image_iff)
    then show ?thesis
      using True by auto
  next
    case False
    then show ?thesis
      using Cons by auto
  qed
qed simp

lemma without_ctx_at:
  assumes "ctxs_ok s" "ctx_at a s = Some c"
  shows "ctx_at b (without_ctx c s) = (if b = a then None else ctx_at b s)"
proof -
  have "psMMUContext c = a" "c \<in> set (pvMMUContextList s)"
    using assms(2) find_ctx_id by (auto simp: ctx_at_def)
  then show ?thesis
    using assms(1) find_remove1 [of "pvMMUContextList s" c b] by (simp add: without_ctx_def ctx_at_def ctxs_ok_def)
qed

text \<open>A context can end when its slots are empty.\<close>

definition no_tables :: "IMG_UINTPTR_T \<Rightarrow> MMU_STATE \<Rightarrow> bool" where
  "no_tables a s \<longleftrightarrow> (\<forall>i < 1024. pt_slot a i s = Some None)"

lemma without_ctx_more [simp]:
  "cpu_map (without_ctx c s) = cpu_map s" "area_va (without_ctx c s) = area_va s" "area_pa (without_ctx c s) = area_pa s"
  "page_allocs (without_ctx c s) = page_allocs s" "psLocalDevMemArena (without_ctx c s) = psLocalDevMemArena s"
  "mmu_os (without_ctx c s) = OSFreeMem (psMMUContext c) (mmu_os s)"
  "mmu_mem (without_ctx c s) = (mmu_mem s)(sPDDevPAddr c := None)"
  "pvMMUContextList (without_ctx c s) = remove1 c (pvMMUContextList s)"
  by (simp_all add: without_ctx_def)

lemma without_ctx_slot:
  assumes "ctxs_ok s" "ctx_at a s = Some c"
  shows "pt_slot b i (without_ctx c s) = (if b = a then None else pt_slot b i s)"
  by (simp add: pt_slot_def without_ctx_at [OF assms])

lemma without_ctx_tab:
  assumes "ctxs_ok s" "ctx_at a s = Some c" "no_tables a s"
  shows "tab_pa b i (without_ctx c s) = tab_pa b i s"
proof -
  have "tab_pa a i s = None"
  proof (cases "i < 1024")
    case True
    then show ?thesis
      using assms(3) by (simp add: no_tables_def tab_pa_def)
  qed (simp add: tab_pa_def pt_slot_def SGX_MAX_PD_ENTRIES_def)
  then show ?thesis
    by (simp add: tab_pa_def without_ctx_slot [OF assms(1,2)] split: option.splits)
qed

lemma without_ctx_role:
  assumes "ctxs_ok s" "ctx_at a s = Some c" "no_tables a s"
  shows "role_pa rl (without_ctx c s) = (if rl = (a, None) then None else role_pa rl s)"
proof -
  obtain b q where "rl = (b, q)"
    by (cases rl)
  then show ?thesis
    by (cases q) (simp_all add: without_ctx_tab [OF assms] dir_pa_def without_ctx_at [OF assms(1,2)])
qed

lemma mmu_blocks_without:
  assumes co: "ctxs_ok s" and c: "ctx_at a s = Some c" and nt: "no_tables a s"
  shows "mmu_blocks s = add_mset a (mmu_blocks (without_ctx c s))"
proof -
  have id: "psMMUContext c = a" and mem: "c \<in> set (pvMMUContextList s)"
    using c find_ctx_id by (auto simp: ctx_at_def)
  have "slot_block (apsPTInfoList c i) = {#}" if "i < 1024" for i
    using nt c that by (simp add: no_tables_def pt_slot_def SGX_MAX_PD_ENTRIES_def slot_block_def)
  then have "map (\<lambda>i. slot_block (apsPTInfoList c i)) [0..<1024] = map (\<lambda>i. {#}) [0..<1024]"
    by (intro map_cong) auto
  moreover have "(\<Sum>i\<leftarrow>xs. {#}) = ({#} :: IMG_UINTPTR_T multiset)" for xs :: "nat list"
    by (induction xs) auto
  ultimately have cb: "ctx_blocks c = {#a#}"
    unfolding ctx_blocks_def by (simp only: id)
  have "d \<in> set cs \<Longrightarrow> (\<Sum>c\<leftarrow>cs. ctx_blocks c) = ctx_blocks d + (\<Sum>c\<leftarrow>remove1 d cs. ctx_blocks c)" for d cs
    by (induction cs) (auto simp: ac_simps)
  then show ?thesis
    using mem cb by (simp add: mmu_blocks_def without_ctx_def)
qed

lemma without_ctx_inv:
  assumes inv: "mmu_inv k SH U F s" and c: "ctx_at a s = Some c" and nt: "no_tables a s"
  shows "mmu_inv k SH U F (without_ctx c s)"
proof -
  let ?s = "without_ctx c s"
  have co: "ctxs_ok s" and m: "mem_ok s"
    using inv by (simp_all add: mmu_inv_def)
  note t = without_ctx_tab [OF co c nt] and rl = without_ctx_role [OF co c nt] and at = without_ctx_at [OF co c]
  have x: "role_pa (a, None) s = Some (sPDDevPAddr c)"
    using c by (simp add: dir_pa_def)
  have id: "psMMUContext c = a"
    using ctx_at_id [OF c] .
  have "set (remove1 c cs) \<subseteq> set cs" "distinct (map psMMUContext cs) \<Longrightarrow> distinct (map psMMUContext (remove1 c cs))" for cs
    by (induction cs) (auto dest: notin_set_remove1)
  then have "ctxs_ok ?s"
    using co by (auto simp: ctxs_ok_def ctx_ok_def at split: if_splits)
  moreover have "slots_ok ?s"
    unfolding slots_ok_def
  proof (intro allI impI)
    fix b i q
    assume "pt_slot b i ?s = Some (Some q)"
    then have q: "pt_slot b i s = Some (Some q)"
      by (simp add: without_ctx_slot [OF co c] split: if_splits)
    then have "slot_ok s q"
      using inv by (simp add: mmu_inv_def slots_ok_def)
    moreover have "PTPageCpuVAddr q \<noteq> IMG_NULL \<Longrightarrow> cpu_map s (PTPageCpuVAddr q) \<noteq> sPDDevPAddr c"
      using mem_ok_inj [OF m x, of "(b, Some i)"] q by (auto simp: tab_pa_def)
    ultimately show "slot_ok ?s q"
      by (simp add: slot_ok_def)
  qed
  moreover have "mem_ok ?s"
  proof (rule mem_okI)
    fix q q' y
    show "role_pa q ?s = Some y \<Longrightarrow> role_pa q' ?s = Some y \<Longrightarrow> q = q'"
      using mem_ok_inj [OF m, of q y q'] by (auto simp: rl simp del: role_pa_simps split: if_splits)
    show "role_pa q ?s = Some y \<Longrightarrow> y AND 0xFFFFF000 = y"
      using mem_ok_align [OF m, of q y] by (auto simp: rl simp del: role_pa_simps split: if_splits)
    show "(mmu_mem ?s y \<noteq> None) = (\<exists>q. role_pa q ?s = Some y)"
    proof (cases "y = sPDDevPAddr c")
      case True
      have "role_pa q ?s \<noteq> Some y" for q
        using True mem_ok_inj [OF m x, of q] by (auto simp: rl simp del: role_pa_simps)
      then show ?thesis
        using True by (simp del: role_pa_simps)
    next
      case False
      then have "(\<exists>q. role_pa q ?s = Some y) = (\<exists>q. role_pa q s = Some y)"
        unfolding rl using x by (metis option.distinct(1) option.inject)
      then show ?thesis
        using False mem_ok_iff [OF m, of y] by (simp del: role_pa_simps)
    qed
  qed
  moreover have "dirs_ok k SH U ?s"
    using inv by (auto simp: mmu_inv_def dirs_ok_def dir_pa_def at pde_def t split: if_splits)
  moreover have "shared_ok k SH ?s"
    using inv by (auto simp: mmu_inv_def shared_ok_def without_ctx_slot [OF co c] split: if_splits)
  moreover have "env_ok ?s"
    using inv OSFreeMem_os_ok by (auto simp: mmu_inv_def env_ok_def)
  moreover have "blocks (mmu_os ?s) = mmu_blocks ?s + F"
    using inv mmu_blocks_without [OF co c nt] by (simp add: mmu_inv_def blocks_OSFreeMem id)
  ultimately show ?thesis
    by (simp add: mmu_inv_def)
qed

lemma without_ctx_pte:
  assumes co: "ctxs_ok s" and m: "mem_ok s" and c: "ctx_at a s = Some c" and nt: "no_tables a s"
  shows "pte b q (without_ctx c s) = pte b q s"
proof -
  have "role_pa (a, None) s = Some (sPDDevPAddr c)"
    using c by (simp add: dir_pa_def)
  then have "tab_pa b (q div 1024) s \<noteq> Some (sPDDevPAddr c)"
    using mem_ok_inj [OF m, of "(a, None)" _ "(b, Some (q div 1024))"] by auto
  then show ?thesis
    by (auto simp: pte_def without_ctx_tab [OF co c nt] split: option.splits)
qed

lemma finalise_without:
  assumes inv: "mmu_inv k SH U F s" and c: "ctx_at a s = Some c"
  shows "MMU_Finalise a s = Some (without_ctx c s)"
proof -
  have ok: "ctx_ok s c" and arena: "psLocalDevMemArena s = None"
    using inv c by (simp_all add: mmu_inv_def ctxs_ok_def env_ok_def)
  have "role_pa (a, None) s = Some (sPDDevPAddr c)"
    using c by (simp add: dir_pa_def)
  then obtain p where p: "mmu_mem s (sPDDevPAddr c) = Some p"
    using mem_ok_mem inv unfolding mmu_inv_def by blast
  show ?thesis
    using c ok p arena ctx_at_id [OF c]
    by (simp add: MMU_Finalise_def ctx_ok_def zero_page_def page_at_def set_page_def SGX_MMU_PD_SIZE_def OSFreePages_def without_ctx_def)
qed

section \<open>Entries of shared heaps\<close>

lemma pde_write_inv:
  assumes inv: "mmu_inv k SH U F s" and a: "ctx_at a s \<noteq> None"
    and v: "v = pde (owner k SH a i) i s"
  shows "mmu_inv k SH (U(a := U a - {i})) F (s\<lparr>mmu_mem := pde_mem {a} i v s\<rparr>)"
proof -
  let ?s = "s\<lparr>mmu_mem := pde_mem {a} i v s\<rparr>"
  have m: "mem_ok s"
    using inv by (simp add: mmu_inv_def)
  have rl: "role_pa r ?s = role_pa r s" for r
    by (rule role_pa_cong) simp_all
  have "ctxs_ok ?s"
    using inv by (simp add: mmu_inv_def ctxs_ok_def ctx_ok_def)
  moreover have "slots_ok ?s"
    unfolding slots_ok_def
  proof (intro allI impI)
    fix b j q
    assume "pt_slot b j ?s = Some (Some q)"
    then have q: "pt_slot b j s = Some (Some q)"
      by simp
    then have "slot_ok s q"
      using inv by (simp add: mmu_inv_def slots_ok_def)
    moreover have "PTPageCpuVAddr q \<noteq> IMG_NULL \<Longrightarrow>
        pde_mem {a} i v s (cpu_map s (PTPageCpuVAddr q)) = mmu_mem s (cpu_map s (PTPageCpuVAddr q))"
      using q by (intro pde_mem_tab [OF m, of b j]) (simp add: tab_pa_def)
    ultimately show "slot_ok ?s q"
      by (simp add: slot_ok_def)
  qed
  moreover have "mem_ok ?s"
    using m unfolding mem_ok_def rl by (simp add: pde_mem_dom del: role_pa_simps not_None_eq)
  moreover have "dirs_ok k SH (U(a := U a - {i})) ?s"
    unfolding dirs_ok_def
  proof (intro allI impI)
    fix b x d and j :: nat
    assume "dir_pa b ?s = Some x" and d: "mmu_mem ?s x = Some d" and j: "j < 1024"
    then have x: "dir_pa b s = Some x"
      by simp
    then obtain d0 where d0: "mmu_mem s x = Some d0" "d = (if b = a then d0(i := v) else d0)"
      using d by (auto simp: pde_mem_dir [OF m x] split: if_splits)
    have "d0 j = pde (owner k SH b j) j s \<or> j \<in> U b \<and> d0 j = 0"
      using inv x d0(1) j by (auto simp: mmu_inv_def dirs_ok_def)
    then show "d j = pde (owner k SH b j) j ?s \<or> j \<in> (U(a := U a - {i})) b \<and> d j = 0"
      unfolding d0(2) v by (auto simp: pde_def)
  qed
  moreover have "shared_ok k SH ?s" "env_ok ?s" "mmu_blocks ?s = mmu_blocks s"
    using inv by (simp_all add: mmu_inv_def shared_ok_def env_ok_def mmu_blocks_def)
  ultimately show ?thesis
    using inv by (simp add: mmu_inv_def)
qed

lemma pde_write_pte:
  assumes "mem_ok s"
  shows "pte b q (s\<lparr>mmu_mem := pde_mem {a} i v s\<rparr>) = pte b q s"
  using pde_mem_tab [OF assms] by (auto simp: pte_def split: option.splits)

definition same_slots :: "MMU_STATE \<Rightarrow> MMU_STATE \<Rightarrow> bool" where
  "same_slots s s' \<longleftrightarrow>
     pvMMUContextList s' = pvMMUContextList s \<and> cpu_map s' = cpu_map s \<and> (\<forall>b q. pte b q s' = pte b q s) \<and> mmu_os s' = mmu_os s"

lemma copy_pdes_effect:
  assumes "mmu_inv k SH U F s" "ctx_at a s \<noteq> None" "ctx_at k s \<noteq> None" "U k = {}" "a \<noteq> k" "set is \<subseteq> SH" "\<forall>i \<in> set is. i < 1024"
  shows "\<exists>s'. copy_pdes a k is s = Some s' \<and> mmu_inv k SH (U(a := U a - set is)) F s' \<and> same_slots s s'"
  using assms
proof (induction "is" arbitrary: s U)
  case Nil
  then show ?case
    by (simp add: same_slots_def fun_upd_idem)
next
  case (Cons i "is")
  have m: "mem_ok s"
    using Cons.prems(1) by (simp add: mmu_inv_def)
  have i: "i \<in> SH" "i < 1024"
    using Cons.prems(6,7) by simp_all
  obtain c where c: "ctx_at k s = Some c"
    using Cons.prems(3) by auto
  obtain p where p: "page_at (pvPDCpuVAddr c) s = Some p" "mmu_mem s (sPDDevPAddr c) = Some p"
    using dir_there_inv [OF Cons.prems(1,3)] c by (auto simp: dir_there_def page_at_def)
  have "dir_pa k s = Some (sPDDevPAddr c)"
    using c by (simp add: dir_pa_def)
  moreover have "dirs_ok k SH U s"
    using Cons.prems(1) by (simp add: mmu_inv_def)
  ultimately have "p i = pde (owner k SH k i) i s"
    using Cons.prems(4) i p(2) unfolding dirs_ok_def by blast
  then have v: "p i = pde (owner k SH a i) i s"
    using i by (simp add: owner_def)
  let ?s = "s\<lparr>mmu_mem := pde_mem {a} i (p i) s\<rparr>"
  have w: "write_pde a i (p i) s = Some ?s"
    using write_pde_mem [OF dir_there_inv [OF Cons.prems(1,2)] i(2)] .
  have inv1: "mmu_inv k SH (U(a := U a - {i})) F ?s"
    using pde_write_inv [OF Cons.prems(1,2) v] .
  have "U a - {i} - set is = U a - set (i # is)"
    by auto
  then have U1: "(U(a := U a - {i}))(a := (U(a := U a - {i})) a - set is) = U(a := U a - set (i # is))"
    by simp
  have Uk: "(U(a := U a - {i})) k = {}" and at: "ctx_at a ?s \<noteq> None" "ctx_at k ?s \<noteq> None"
    and ss: "set is \<subseteq> SH" "\<forall>i \<in> set is. i < 1024"
    using Cons.prems(2-7) by simp_all
  obtain s' where s': "copy_pdes a k is ?s = Some s'" "mmu_inv k SH (U(a := U a - set (i # is))) F s'" "same_slots ?s s'"
    using Cons.IH [OF inv1 at Uk Cons.prems(5) ss, unfolded U1] by blast
  have "same_slots s s'"
    using s'(3) pde_write_pte [OF m] by (simp add: same_slots_def)
  moreover have "copy_pdes a k (i # is) s = Some s'"
    using c p(1) w s'(1) by simp
  ultimately show ?case
    using s'(2) by blast
qed

section \<open>The tables of a heap\<close>

lemma free_tables_effect:
  assumes "mmu_inv k SH U F s" "heap_geometry h" "ctx_at (heap_psMMUContext h) s \<noteq> None"
    "\<forall>t \<in> set ts. heap_of k SH h (unat (PDIndex h (BaseDevVAddr (psDevArena h))) + unat t) \<and>
      unat (PDIndex h (BaseDevVAddr (psDevArena h))) + unat t < 1024"
    "J = {unat (PDIndex h (BaseDevVAddr (psDevArena h))) + unat t | t. t \<in> set ts}"
  shows "\<exists>n s'. free_tables ts h s = Some (h\<lparr>ui32PTETotalUsable := n\<rparr>, s') \<and> mmu_inv k SH U F s' \<and>
    pt_shrinks (heap_psMMUContext h) J s s' \<and> (\<forall>i \<in> J. pt_slot (heap_psMMUContext h) i s' = Some None) \<and>
    (\<forall>b q. pte b q s' = (if b = heap_psMMUContext h \<and> q div 1024 \<in> J then 0 else pte b q s))"
  using assms
proof (induction ts arbitrary: h s J)
  case Nil
  have "h\<lparr>ui32PTETotalUsable := ui32PTETotalUsable h\<rparr> = h"
    by simp
  then show ?case
    using Nil by (intro exI [of _ "ui32PTETotalUsable h"] exI [of _ s]) simp
next
  case (Cons t ts)
  let ?b = "heap_psMMUContext h" and ?B = "unat (PDIndex h (BaseDevVAddr (psDevArena h)))"
  let ?i = "?B + unat t" and ?J = "{?B + unat t | t. t \<in> set ts}"
  have J: "J = insert ?i ?J"
    using Cons.prems(5) by auto
  have hi: "heap_of k SH h ?i" "?i < 1024"
    using Cons.prems(4) by simp_all
  obtain x where x: "pt_slot ?b ?i s = Some x"
    using Cons.prems(3) hi(2) by (auto simp: pt_slot_def SGX_MAX_PD_ENTRIES_def)
  obtain A n where fr: "DeferredFreePageTable h t True s = Some (h\<lparr>ui32PTETotalUsable := n\<rparr>, drop_slot A ?b ?i x s)"
      and A: "\<forall>a. ctx_at a s \<noteq> None \<longrightarrow> (a \<in> A) = (owner k SH a ?i = ?b)"
    using free_page_table [OF Cons.prems(1,2) hi(1) refl x] by blast
  let ?s = "drop_slot A ?b ?i x s" and ?h = "h\<lparr>ui32PTETotalUsable := n\<rparr>"
  have inv1: "mmu_inv k SH U F ?s"
    using drop_slot_inv [OF Cons.prems(1) x A] .
  have m: "mem_ok s"
    using Cons.prems(1) by (simp add: mmu_inv_def)
  have sh1: "pt_shrinks ?b {?i} s ?s"
    using drop_slot_pt_shrinks [OF x] .
  have c1: "ctx_at ?b ?s \<noteq> None"
    using Cons.prems(3) unfolding ctx_at_iff drop_slot_more .
  obtain n2 s' where s': "free_tables ts ?h ?s = Some (h\<lparr>ui32PTETotalUsable := n2\<rparr>, s')" "mmu_inv k SH U F s'" "pt_shrinks ?b ?J ?s s'"
      "\<forall>i \<in> ?J. pt_slot ?b i s' = Some None"
      "\<forall>b q. pte b q s' = (if b = ?b \<and> q div 1024 \<in> ?J then 0 else pte b q ?s)"
    using Cons.IH [of ?s ?h ?J] inv1 Cons.prems(2,4) c1 by auto
  have "pt_shrinks ?b J s s'"
    unfolding J by (rule pt_shrinks_trans [OF pt_shrinks_mono [OF sh1] pt_shrinks_mono [OF s'(3)]]) auto
  moreover have "pt_slot ?b ?i s' = Some None"
    using s'(3) drop_slot_slot [OF x, of ?b ?i A] by (auto simp: pt_shrinks_def)
  then have "\<forall>i \<in> J. pt_slot ?b i s' = Some None"
    using s'(4) unfolding J by blast
  moreover have "\<forall>b q. pte b q s' = (if b = ?b \<and> q div 1024 \<in> J then 0 else pte b q s)"
    using s'(5) unfolding J drop_slot_pte [OF m x] by auto
  ultimately show ?case
    using fr s'(1,2) by auto
qed

end
