(* ===== verification/Mmu_Walks.thy ===== *)
theory Mmu_Walks
  imports Mmu_Contexts
begin

text \<open>
  What the changes of the page tables mean for the walks of the device: a change of the entries of a table is seen through every directory that
  points to the table, and nothing else is seen.
\<close>

section \<open>Translations\<close>

lemma map_entry_nz: "map_entry pa fl \<noteq> 0"
proof -
  have "map_entry pa fl AND 1 \<noteq> 0"
    by (simp add: map_entry_def SGX_MMU_PTE_VALID_def bit.conj_disj_distrib2)
  then show ?thesis
    by auto
qed

text \<open>How the device reads an entry: the number of the page in bits 12 to 31 and, in the bits below, what it refuses and how it accesses the page.\<close>

definition entry_page :: "IMG_UINT32 \<Rightarrow> nat" where "entry_page e = unat e div 4096"

definition entry_reads :: "IMG_UINT32 \<Rightarrow> bool" where "entry_reads e \<longleftrightarrow> \<not> bit e 1"

definition entry_writes :: "IMG_UINT32 \<Rightarrow> bool" where "entry_writes e \<longleftrightarrow> \<not> bit e 2"

definition entry_coherent :: "IMG_UINT32 \<Rightarrow> bool" where "entry_coherent e \<longleftrightarrow> bit e 3"

definition entry_protected :: "IMG_UINT32 \<Rightarrow> bool" where "entry_protected e \<longleftrightarrow> bit e 4"

lemma pte_flag_bits:
  fixes fl :: IMG_UINT32
  shows "fl AND 1 = (if bit fl 0 then 1 else 0)" "fl AND 2 = (if bit fl 1 then 2 else 0)" "fl AND 4 = (if bit fl 2 then 4 else 0)"
    "fl AND 0x40 = (if bit fl 6 then 0x40 else 0)" "fl AND 3 = (fl AND 1) OR (fl AND 2)"
proof -
  have p: "fl AND 2 ^ n = (if bit fl n then 2 ^ n else 0)" for n
    by (intro bit_word_eqI) (auto simp: bit_and_iff bit_exp_iff)
  show "fl AND 1 = (if bit fl 0 then 1 else 0)" "fl AND 2 = (if bit fl 1 then 2 else 0)" "fl AND 4 = (if bit fl 2 then 4 else 0)"
    "fl AND 0x40 = (if bit fl 6 then 0x40 else 0)"
    using p [of 0] p [of 1] p [of 2] p [of 6] by simp_all
  show "fl AND 3 = (fl AND 1) OR (fl AND 2)"
    by (simp add: bit.conj_disj_distrib [symmetric])
qed

lemma map_entry_bit:
  assumes "n < 12" "0 < n"
  shows "bit (map_entry x fl) n \<longleftrightarrow> bit (pte_flags fl) n"
proof -
  have "(0xFFFFF000 :: 64 word) = push_bit 12 0xFFFFF"
    by simp
  then have "\<not> bit (0xFFFFF000 :: 64 word) n" "\<not> bit (1 :: 32 word) n"
    using assms by (simp_all only: bit_push_bit_iff bit_1_iff) simp_all
  then show ?thesis
    by (simp only: map_entry_def SGX_MMU_PTE_VALID_def bit_or_iff bit_and_iff bit_unsigned_iff) simp
qed

lemma map_entry_bits:
  "entry_reads (map_entry x fl) \<longleftrightarrow> fl AND PVRSRV_MEM_READ \<noteq> 0 \<or> fl AND PVRSRV_MEM_WRITE = 0"
  "entry_writes (map_entry x fl) \<longleftrightarrow> fl AND PVRSRV_MEM_WRITE \<noteq> 0 \<or> fl AND PVRSRV_MEM_READ = 0"
  "entry_coherent (map_entry x fl) \<longleftrightarrow> fl AND PVRSRV_MEM_CACHE_CONSISTENT \<noteq> 0"
  "entry_protected (map_entry x fl) \<longleftrightarrow> fl AND PVRSRV_MEM_EDM_PROTECT \<noteq> 0"
  unfolding entry_reads_def entry_writes_def entry_coherent_def entry_protected_def
  by (simp_all add: map_entry_bit pte_flags_def PVRSRV_MEM_READ_def PVRSRV_MEM_WRITE_def PVRSRV_MEM_CACHE_CONSISTENT_def
      PVRSRV_MEM_EDM_PROTECT_def SGX_MMU_PTE_READONLY_def SGX_MMU_PTE_WRITEONLY_def SGX_MMU_PTE_CACHECONSISTENT_def
      SGX_MMU_PTE_EDMPROTECT_def Let_def bit_or_iff and.commute [of _ fl] pte_flag_bits bit_numeral_rec)

lemma map_entry_page:
  assumes "unat x < 2 ^ 32"
  shows "entry_page (map_entry x fl) = unat x div 4096"
proof -
  let ?y = "ucast x :: 32 word"
  have y: "unat ?y = unat x"
    using assms by (simp add: unsigned_ucast_eq take_bit_nat_eq_self)
  have f: "drop_bit 12 (pte_flags fl) = 0"
    by (simp add: pte_flags_def SGX_MMU_PTE_READONLY_def SGX_MMU_PTE_WRITEONLY_def SGX_MMU_PTE_CACHECONSISTENT_def
        SGX_MMU_PTE_EDMPROTECT_def Let_def drop_bit_or)
  have "drop_bit 12 (ucast (x AND 0xFFFFF000) :: 32 word) = drop_bit 12 (?y AND 0xFFFFF000)"
    by (simp add: unsigned_and_eq)
  also have "\<dots> = drop_bit 12 ?y"
  proof -
    have "drop_bit 12 ?y AND 0xFFFFF = take_bit 20 (drop_bit 12 ?y)"
      by (simp add: take_bit_eq_mask mask_eq_exp_minus_1)
    also have "\<dots> = drop_bit 12 ?y"
      using bit_imp_le_length [of ?y] by (intro bit_word_eqI) (fastforce simp: bit_take_bit_iff bit_drop_bit_eq)
    finally show ?thesis
      by (simp add: drop_bit_and)
  qed
  finally have "drop_bit 12 (map_entry x fl) = drop_bit 12 ?y"
    by (simp add: map_entry_def SGX_MMU_PTE_VALID_def drop_bit_or f)
  then have "unat (drop_bit 12 (map_entry x fl)) = unat (drop_bit 12 ?y)"
    by simp
  then show ?thesis
    by (simp add: entry_page_def unat_drop_bit_eq y del: drop_bit_eq_div) (simp add: drop_bit_eq_div)
qed


lemma map_pages_page:
  assumes "unat pa div 4096 + (if fl AND PVRSRV_MEM_DUMMY \<noteq> 0 then 1 else n) \<le> 1048576" "i < n" "ui32DataPageSize h = 0x1000"
  shows "entry_page (map_entry (pa + of_nat i * ucast (p_advance h fl)) fl) =
    unat pa div 4096 + (if fl AND PVRSRV_MEM_DUMMY \<noteq> 0 then 0 else i)"
proof -
  let ?i = "if fl AND PVRSRV_MEM_DUMMY \<noteq> 0 then 0 else i"
  have b: "unat pa + ?i * 4096 < 2 ^ 32"
    using assms(1,2) by (auto split: if_splits)
  have x: "pa + of_nat i * ucast (p_advance h fl) = pa + of_nat (?i * 4096)"
    by (simp add: p_advance_def assms(3))
  have "unat (pa + of_nat (?i * 4096)) = unat pa + ?i * 4096"
    using b by (simp add: unat_word_ariths unat_of_nat)
  then show ?thesis
    unfolding x using map_entry_page [of "pa + of_nat (?i * 4096)" fl] b by simp
qed

text \<open>A change of the entries is seen by the walk of every context that shares the table.\<close>

lemma walk_change:
  assumes "mmu_inv k SH U F s" "mmu_inv k SH U F s'" "same_tables s s' \<or> pt_shrinks c J s s' \<or> grows c J s s'"
    and "ctx_at a s \<noteq> None" "vpn va div 1024 \<notin> U a"
  shows "walk a va s' = (if pte (owner k SH a (vpn va div 1024)) (vpn va) s' = pte (owner k SH a (vpn va div 1024)) (vpn va) s then walk a va s
    else if pte (owner k SH a (vpn va div 1024)) (vpn va) s' = 0 then None else Some (pte (owner k SH a (vpn va div 1024)) (vpn va) s'))"
proof -
  have "map psMMUContext (pvMMUContextList s') = map psMMUContext (pvMMUContextList s)"
    using assms(3) unfolding same_tables_def pt_shrinks_def grows_def by blast
  then have c: "ctx_at a s' \<noteq> None"
    using assms(4) unfolding ctx_at_iff by simp
  show ?thesis
    unfolding walk_pte [OF assms(1,4,5)] walk_pte [OF assms(2) c assms(5)] by (simp add: Let_def)
qed

lemma walk_cache [simp]: "walk a w (s\<lparr>ui32CacheControl := c\<rparr>) = walk a w s"
  by (simp add: walk_def Let_def cong: if_cong)

lemma pte_cache [simp]: "pte b q (s\<lparr>ui32CacheControl := c\<rparr>) = pte b q s"
  by (rule pte_cong) simp_all

definition in_range :: "IMG_UINT32 \<Rightarrow> nat \<Rightarrow> IMG_UINT32 \<Rightarrow> bool" where
  "in_range va n w \<longleftrightarrow> vpn va \<le> vpn w \<and> vpn w < vpn va + n"

lemma walk_maps_to:
  assumes "mmu_inv k SH U F s" "mmu_inv k SH U F s'" "same_tables s s'" "maps_to b (vpn va) pas fl s s'"
    and "unmapped b (vpn va) (length pas) s" "ctx_at a s \<noteq> None" "vpn w div 1024 \<notin> U a"
  shows "walk a w s' =
    (if owner k SH a (vpn w div 1024) = b \<and> in_range va (length pas) w then Some (map_entry (pas ! (vpn w - vpn va)) fl) else walk a w s)"
  unfolding walk_change [OF assms(1,2) disjI1 [OF assms(3)] assms(6,7)]
  using assms(4,5) map_entry_nz by (simp add: maps_to_def in_range_def unmapped_def)

lemma walk_clears:
  assumes "mmu_inv k SH U F s" "mmu_inv k SH U F s'" "same_tables s s' \<or> pt_shrinks c J s s'" "clears b (vpn va) n s s'"
    and "ctx_at a s \<noteq> None" "vpn w div 1024 \<notin> U a"
  shows "walk a w s' = (if owner k SH a (vpn w div 1024) = b \<and> in_range va n w then None else walk a w s)"
proof -
  have st: "same_tables s s' \<or> pt_shrinks c J s s' \<or> grows c J s s'"
    using assms(3) by blast
  show ?thesis
    unfolding walk_change [OF assms(1,2) st assms(5,6)]
    using assms(4) walk_pte [OF assms(1,5,6)] by (simp add: clears_def in_range_def Let_def)
qed

lemma valid_entry_table:
  assumes inv: "mmu_inv k SH U F s" and x: "dir_pa a s = Some x" "mmu_mem s x = Some d" "i < 1024" "d i AND 1 \<noteq> 0"
  shows "\<exists>p. mmu_mem s (ucast (d i AND 0xFFFFF000)) = Some p"
proof -
  have m: "mem_ok s"
    using inv by (simp add: mmu_inv_def)
  have "d i = pde (owner k SH a i) i s \<or> d i = 0"
    using inv x by (auto simp: mmu_inv_def dirs_ok_def)
  then have e: "d i = pde (owner k SH a i) i s"
    using x(4) by auto
  then obtain y where y: "tab_pa (owner k SH a i) i s = Some y" "d i = ucast y OR 1"
    using x(4) by (auto simp: pde_def split: option.splits)
  then have r: "role_pa (owner k SH a i, Some i) s = Some y"
    by simp
  show ?thesis
    unfolding y(2) mask_entry(2) [OF mem_ok_align [OF m r]] using mem_ok_mem [OF m r] .
qed

text \<open>More memory does not change a walk.\<close>

lemma walk_frame:
  assumes inv: "mmu_inv k SH U F s" and c: "ctx_at a s \<noteq> None" and d: "dir_pa a s' = dir_pa a s"
    and m: "\<And>x p. mmu_mem s x = Some p \<Longrightarrow> mmu_mem s' x = Some p"
  shows "walk a w s' = walk a w s"
proof -
  obtain x where x: "dir_pa a s = Some x"
    using c by (auto simp: dir_pa_def)
  obtain p where p: "mmu_mem s x = Some p"
    using mem_ok_mem [of s "(a, None)" x] x inv by (auto simp: mmu_inv_def)
  have i: "unat (drop_bit 22 w) < 1024"
    using vpn_less [of w] unat_pd [of w] by (simp add: vpn_def del: drop_bit_eq_div)
  show ?thesis
  proof (cases "p (unat (drop_bit 22 w)) AND 1 = 0")
    case True
    then show ?thesis
      using x p m [OF p] d by (simp add: walk_def mmu_consts del: drop_bit_eq_div)
  next
    case False
    then obtain t where t: "mmu_mem s (ucast (p (unat (drop_bit 22 w)) AND 0xFFFFF000)) = Some t"
      using valid_entry_table [OF inv x p i] by blast
    then show ?thesis
      using x p m [OF p] m [OF t] d by (simp add: walk_def mmu_consts Let_def cong: if_cong del: drop_bit_eq_div)
  qed
qed

text \<open>The heap serves the directory entries of a range of pages.\<close>

definition serves :: "IMG_UINTPTR_T \<Rightarrow> nat set \<Rightarrow> MMU_HEAP \<Rightarrow> nat \<Rightarrow> nat \<Rightarrow> bool" where
  "serves k SH h n m \<longleftrightarrow>
     (\<forall>q. n \<le> q \<longrightarrow> q < n + m \<longrightarrow> heap_of k SH h (q div 1024)) \<and> unat (PDIndex h (BaseDevVAddr (psDevArena h))) \<le> n div 1024"

text \<open>Unmapping a range and freeing its tables.\<close>

lemma unmap_free_walk:
  assumes "mmu_inv k SH U F s" "heap_geometry h" "vpn va + unat n \<le> 1048576" "slots_whole (heap_psMMUContext h) (vpn va) (unat n) s"
    and "serves k SH h (vpn va) (unat n)"
  shows "\<exists>t s'. MMU_UnmapPagesAndFreePTs h va n s = Some (h\<lparr>ui32PTETotalUsable := t\<rparr>, s') \<and> mmu_inv k SH U F s' \<and> map psMMUContext (pvMMUContextList s') = map psMMUContext (pvMMUContextList s) \<and>
    (\<forall>q. vpn va \<le> q \<and> q < vpn va + unat n \<longrightarrow> tidy (heap_psMMUContext h) (q div 1024) s') \<and>
    (\<forall>b i. tab_pa b i s' \<noteq> tab_pa b i s \<longrightarrow> b = heap_psMMUContext h \<and> (\<exists>q. vpn va \<le> q \<and> q < vpn va + unat n \<and> i = q div 1024)) \<and>
    ui32CacheControl s' = ui32CacheControl s OR
      (if freed_some (heap_psMMUContext h) s s' then SGXMKIF_CC_INVAL_BIF_PD else SGXMKIF_CC_INVAL_BIF_PT) \<and>
    (\<forall>a w. ctx_at a s \<noteq> None \<longrightarrow> vpn w div 1024 \<notin> U a \<longrightarrow>
       walk a w s' = (if owner k SH a (vpn w div 1024) = heap_psMMUContext h \<and> in_range va (unat n) w then None else walk a w s))"
proof -
  let ?b = "heap_psMMUContext h" and ?J = "{q div 1024 | q. vpn va \<le> q \<and> q < vpn va + unat n}"
  obtain f t s1 where s1: "unmap_free_loop va (unat n) False h s = Some (f, h\<lparr>ui32PTETotalUsable := t\<rparr>, s1)" "mmu_inv k SH U F s1"
      "pt_shrinks ?b ?J s s1" "clears ?b (vpn va) (unat n) s s1"
      "\<forall>q. vpn va \<le> q \<longrightarrow> q < vpn va + unat n \<longrightarrow> tidy ?b (q div 1024) s1" "f = freed_some ?b s s1"
    using unmap_free_loop_effect [OF assms(1-4), of False] assms(5) by (auto simp: serves_def)
  let ?s = "if f then MMU_InvalidateDirectoryCache s1 else MMU_InvalidatePageTableCache s1"
  obtain w where w: "?s = s1\<lparr>ui32CacheControl := w\<rparr>"
    by (cases f) (auto simp: MMU_InvalidatePageTableCache_def MMU_InvalidateDirectoryCache_def)
  have t: "tab_pa b i ?s = tab_pa b i s1" "pte b q ?s = pte b q s1" "walk b v ?s = walk b v s1" for b i q v
    unfolding w by simp_all
  have "mmu_inv k SH U F ?s"
    unfolding w using s1(2) by simp
  moreover have "MMU_UnmapPagesAndFreePTs h va n s = Some (h\<lparr>ui32PTETotalUsable := t\<rparr>, ?s)"
    using s1(1) by (simp add: MMU_UnmapPagesAndFreePTs_def)
  moreover have "map psMMUContext (pvMMUContextList ?s) = map psMMUContext (pvMMUContextList s)"
    unfolding w using s1(3) by (simp add: pt_shrinks_def del: map_eq_conv)
  moreover have "\<forall>q. vpn va \<le> q \<and> q < vpn va + unat n \<longrightarrow> tidy ?b (q div 1024) ?s"
    using s1(5) by (simp add: tidy_def t)
  moreover have "\<forall>b i. tab_pa b i ?s \<noteq> tab_pa b i s \<longrightarrow> b = ?b \<and> (\<exists>q. vpn va \<le> q \<and> q < vpn va + unat n \<and> i = q div 1024)"
    using s1(3) unfolding t pt_shrinks_def by blast
  moreover have "ui32CacheControl ?s = ui32CacheControl s OR (if freed_some ?b s ?s then SGXMKIF_CC_INVAL_BIF_PD else SGXMKIF_CC_INVAL_BIF_PT)"
  proof -
    have "freed_some ?b s ?s = freed_some ?b s s1"
      by (simp only: freed_some_def t)
    then have "freed_some ?b s ?s = f"
      using s1(6) by simp
    moreover have "ui32CacheControl s1 = ui32CacheControl s"
      using s1(3) by (simp add: pt_shrinks_def)
    ultimately show ?thesis
      by (simp add: MMU_InvalidatePageTableCache_def MMU_InvalidateDirectoryCache_def)
  qed
  moreover have "\<forall>a w. ctx_at a s \<noteq> None \<longrightarrow> vpn w div 1024 \<notin> U a \<longrightarrow>
       walk a w ?s = (if owner k SH a (vpn w div 1024) = ?b \<and> in_range va (unat n) w then None else walk a w s)"
    unfolding t using walk_clears [OF assms(1) s1(2) disjI2 [OF s1(3)] s1(4)] by blast
  ultimately show ?thesis
    by blast
qed

text \<open>Making the tables of a range.\<close>

lemma alloc_tables_walk:
  assumes "mmu_inv k SH U F s" "heap_geometry h" "ctx_at (heap_psMMUContext h) s \<noteq> None"
    and "unat va mod 4096 = 0" "0 < unat n" "unat va + unat n \<le> 0xFFC00000"
    and "\<forall>i. unat va div 4194304 \<le> i \<and> i < (unat va + unat n + 0x3FFFFF) div 4194304 \<longrightarrow> heap_of k SH h i"
  shows "\<exists>ok s'. DeferredAllocPagetables h va n s = Some (ok, s') \<and> mmu_inv k SH U F s' \<and> map psMMUContext (pvMMUContextList s') = map psMMUContext (pvMMUContextList s) \<and>
    (ok \<longrightarrow> has_tables (heap_psMMUContext h) (vpn va) (pages_of n) s') \<and>
    (\<forall>a w. ctx_at a s \<noteq> None \<longrightarrow> vpn w div 1024 \<notin> U a \<longrightarrow> walk a w s' = walk a w s)"
proof -
  let ?b = "heap_psMMUContext h" and ?i = "unat (PDIndex h va)"
  let ?is = "[?i..<?i + unat (table_count h va n)]"
  have m: "?i + unat (table_count h va n) = (unat va + unat n + 0x3FFFFF) div 4194304"
    using table_count_below [OF assms(2,6,5)] .
  have "(unat va + unat n + 0x3FFFFF) div 4194304 \<le> (0xFFC00000 + 0x3FFFFF) div 4194304"
    using assms(6) by (intro div_le_mono) simp
  then have "(unat va + unat n + 0x3FFFFF) div 4194304 \<le> 1024"
    by simp
  then have "\<forall>i \<in> set ?is. heap_of k SH h i \<and> i < 1024"
    using assms(7) m unfolding pd_index_div [OF assms(2)] by auto
  then obtain ok s' where s': "alloc_tables h ?is s = Some (ok, s')" "mmu_inv k SH U F s'" "grows ?b (set ?is) s s'"
      "ok \<longrightarrow> (\<forall>i \<in> set ?is. tab_pa ?b i s' \<noteq> None)"
    using alloc_tables_effect [OF assms(1,2) _ assms(3)] by metis
  have "ok \<longrightarrow> has_tables ?b (vpn va) (pages_of n) s'"
    using s'(4) table_count_covers [OF assms(2,6,4)] unfolding has_tables_def set_upt by blast
  moreover have "walk a w s' = walk a w s" if "ctx_at a s \<noteq> None" "vpn w div 1024 \<notin> U a" for a w
    using walk_change [OF assms(1) s'(2) disjI2 [OF disjI2 [OF s'(3)]] that] s'(3) by (simp add: grows_def)
  moreover have "map psMMUContext (pvMMUContextList s') = map psMMUContext (pvMMUContextList s)"
    using s'(3) unfolding grows_def by blast
  ultimately show ?thesis
    using s'(1,2) by (simp add: DeferredAllocPagetables_def Let_def del: map_eq_conv)
qed

text \<open>Mapping a range.\<close>

lemma map_pages_walk:
  assumes "mmu_inv k SH U F s" "heap_geometry h" "unat uBytes \<le> 0xFFFFF000" "vpn va + pages_of uBytes \<le> 1048576"
    and "has_tables (heap_psMMUContext h) (vpn va) (pages_of uBytes) s" "unmapped (heap_psMMUContext h) (vpn va) (pages_of uBytes) s"
  shows "\<exists>s'. MMU_MapPages h va pa uBytes fl s = Some s' \<and> mmu_inv k SH U F s' \<and> same_tables s s' \<and>
    (\<forall>a w. ctx_at a s \<noteq> None \<longrightarrow> vpn w div 1024 \<notin> U a \<longrightarrow>
       walk a w s' =
         (if owner k SH a (vpn w div 1024) = heap_psMMUContext h \<and> in_range va (pages_of uBytes) w
          then Some (map_entry (pa + of_nat (vpn w - vpn va) * ucast (p_advance h fl)) fl) else walk a w s))"
proof -
  let ?pas = "map (\<lambda>k. pa + of_nat k * ucast (p_advance h fl)) [0..<pages_of uBytes]"
  have "MMU_MapPages h va pa uBytes fl s = map_seq h va ?pas fl s"
    using map_loop_seq [OF _ assms(3), of h va pa "p_advance h fl" 0 fl s] assms(2)
    by (simp add: MMU_MapPages_def heap_geometry_def pages_of_def SysSysPAddrToDevPAddr_def)
  moreover obtain s' where s': "map_seq h va ?pas fl s = Some s'" "mmu_inv k SH U F s'" "same_tables s s'"
      "maps_to (heap_psMMUContext h) (vpn va) ?pas fl s s'"
    using map_seq_effect [OF assms(1,2), of va ?pas fl] assms(4-6) by auto
  moreover have "?pas ! (vpn w - vpn va) = pa + of_nat (vpn w - vpn va) * ucast (p_advance h fl)"
    if "in_range va (pages_of uBytes) w" for w
    using that by (simp add: in_range_def less_diff_conv2)
  ultimately show ?thesis
    using walk_maps_to [OF assms(1) s'(2,3,4)] assms(6) by auto
qed

end
