(* ===== verification/Mmu_Heaps.thy ===== *)
theory Mmu_Heaps
  imports Mmu_Walks
begin

text \<open>
  The heaps of a context: the geometry \<open>MMU_Create\<close> computes, the arena that hands out the addresses, and how allocation, freeing and deletion combine
  the arena with the page tables.
\<close>

section \<open>The callback of an arena\<close>

text \<open>What an arena without imported spans tells the owner of its backing store when it frees a block of whole pages.\<close>

lemma ra_world_simps [simp]:
  "ra_world (FreeListInsert p A) = ra_world A" "ra_world (FreeListRemove p A) = ra_world A"
  "ra_world (SegmentListRemove p A) = ra_world A" "ra_world (update_segment p f A) = ra_world A" "ra_world (ra_free_mem p A) = ra_world A"
  "ra_world (coalesce_prev p b A) = ra_world A" "ra_world (coalesce_next p b A) = ra_world A"
  by (simp_all add: FreeListInsert_def FreeListRemove_def SegmentListRemove_def update_segment_def ra_free_mem_def
      coalesce_prev_def coalesce_next_def Let_def split: option.splits)

lemma backing_range_pages:
  assumes b: "seg_ok b2" "bt_type b2 \<noteq> btt_span" and lo: "seg_lo b2 \<le> unat base" and hi: "unat base + unat n \<le> seg_hi b2"
    and al: "unat base mod 4096 = 0" "unat n mod 4096 = 0"
  shows "backing_range 0x1000 base n b2 = (base, base + ucast n)"
proof -
  obtain x y where x: "unat base = 4096 * x" and y: "unat n = 4096 * y"
    using al by (auto simp: mod_eq_0_iff_dvd elim!: dvdE)
  have h63: "seg_hi b2 < 2 ^ 63"
    using b by (simp add: seg_ok_def)
  have s: "base div 0x1000 * 0x1000 = base"
  proof -
    have "unat (base div 0x1000 * 0x1000) = unat base"
      using x hi h63 by (simp add: unat_word_ariths unat_div)
    then show ?thesis
      by (simp only: word_unat_eq_iff)
  qed
  have un: "unat (ucast n :: 64 word) = unat n"
    using unat_less32 [of n] by (simp add: unsigned_ucast_eq take_bit_nat_eq_self)
  have e: "unat (base + ucast n) = unat base + unat n"
    using un hi h63 by (simp add: unat_word_ariths)
  have "unat (base + ucast n + 0x1000 - 1) = unat base + unat n + 4095"
  proof -
    have "base + ucast n + 0x1000 - 1 = base + ucast n + 0xFFF"
      by simp
    then show ?thesis
      using e hi h63 by (simp add: unat_word_ariths)
  qed
  then have "unat ((base + ucast n + 0x1000 - 1) div 0x1000) = x + y"
    using x y by (simp add: unat_div)
  then have "unat ((base + ucast n + 0x1000 - 1) div 0x1000 * 0x1000) = unat (base + ucast n)"
    using x y e hi h63 by (simp add: unat_word_ariths)
  then have t: "(base + ucast n + 0x1000 - 1) div 0x1000 * 0x1000 = base + ucast n"
    by (simp only: word_unat_eq_iff)
  have "\<not> base < bt_base b2"
    using lo by (simp add: word_less_nat_alt seg_lo_def)
  moreover have "unat (bt_base b2 + ucast (bt_uSize b2)) = seg_hi b2"
    using b h63 unat_less32 [of "bt_uSize b2"]
    by (simp add: seg_hi_def seg_len_def seg_lo_def unat_word_ariths unsigned_ucast_eq take_bit_nat_eq_self)
  then have "\<not> base + ucast n > bt_base b2 + ucast (bt_uSize b2)"
    using hi e by (simp add: word_less_nat_alt)
  ultimately show ?thesis
    using s t by (simp add: backing_range_def Let_def)
qed

lemma RA_Free_world:
  assumes inv: "ra_ok F A" and m: "(base, n) \<in># live_blocks A" and al: "unat base mod 4096 = 0" "unat n mod 4096 = 0"
    and cfg: "pImportFree A = None" "pBackingStoreFree A = Some f0" "uQuantum A = 0x1000"
  shows "ra_world (RA_Free base True A) = f0 (pImportHandle A) (ucast base) (ucast (base + ucast n)) (ra_world A)"
proof -
  obtain us b vs where sg: "segments A = us @ b # vs" and b: "bt_type b = btt_live" "bt_base b = base" "bt_uSize b = n"
    by (rule live_block_segment [OF m])
  obtain p h s where hr: "HASH_Remove (pSegmentHash A) (bt_base b) (ra_os A) = (p, h, s)" by (metis prod_cases3)
  let ?A1 = "A\<lparr>pSegmentHash := h, ra_os := s\<rparr>"
  have p: "p = bt b" and i1: "ra_inv F {bt b} ?A1" using hash_remove_inv [OF inv sg b(1) _ hr] by auto
  have nz: "bt b \<noteq> IMG_NULL" using ra_inv_nonnull [OF inv, of b] sg by simp
  have R: "RA_Free base True A = FreeBT (bt b) True ?A1" using hr p nz b(2) by (simp add: RA_Free_def)
  have sg1: "segments ?A1 = us @ b # vs" and nsp: "bt_type b \<noteq> btt_span" using sg b(1) by simp_all
  have b0: "seg_at (bt b) ?A1 = Some b" using seg_at_found [OF i1, of b] sg1 by simp
  obtain us1 b1 where c1: "ra_inv F {bt b} (coalesce_prev (bt b) b ?A1)"
    "segments (coalesce_prev (bt b) b ?A1) = us1 @ b1 # vs" "grown us b vs us1 b1 vs"
    using coalesce_prev_inv [OF i1 sg1 nsp] by metis
  have bb1: "bt b1 = bt b" "bt_type b1 \<noteq> btt_span" using c1(3) nsp by (auto simp: grown_def)
  define A1 where "A1 = coalesce_prev (bt b) b ?A1"
  have s1: "seg_at (bt b) A1 = Some b1"
    using seg_at_found [of F "{bt b}" A1 b1] c1(1,2) bb1 by (simp add: A1_def)
  have i2: "ra_inv F {bt b1} A1" "segments A1 = us1 @ b1 # vs"
    using c1(1,2) bb1(1) by (simp_all add: A1_def)
  obtain b2 vs2 where c2: "ra_inv F {bt b} (coalesce_next (bt b) b1 A1)"
    "segments (coalesce_next (bt b) b1 A1) = us1 @ b2 # vs2" "grown us1 b1 vs us1 b2 vs2"
    by (rule coalesce_next_inv [OF i2 bb1(2), unfolded bb1(1)])
  have g2: "grown us b vs us1 b2 vs2" by (rule grown_trans [OF c1(3) c2(3)])
  have bb2: "bt b2 = bt b" "bt_type b2 \<noteq> btt_span" using g2 nsp by (auto simp: grown_def)
  define A2 where "A2 = coalesce_next (bt b) b1 A1"
  have s2: "seg_at (bt b) A2 = Some b2"
    using seg_at_found [of F "{bt b}" A2 b2] c2(1,2) bb2 by (simp add: A2_def)
  have cA2: "ra_config A2 = ra_config A"
    by (simp add: A2_def A1_def)
  have nospan: "\<forall>x \<in> set (segments A2). bt_type x \<noteq> btt_span"
    using c2(1) cA2 cfg by (auto simp: ra_inv_def ra_config_def A2_def)
  have "seg_ok b2"
    using c2(1,2) by (simp add: ra_inv_def geo_def)
  moreover have "seg_lo b = unat base" "seg_hi b = unat base + unat n"
    using b by (simp_all add: seg_lo_def seg_hi_def seg_len_def)
  then have "seg_lo b2 \<le> unat base" "unat base + unat n \<le> seg_hi b2"
    using g2 unfolding grown_def by simp_all
  ultimately have br: "backing_range 0x1000 base n b2 = (base, base + ucast n)" and h: "seg_hi b2 < 2 ^ 63"
    using backing_range_pages bb2(2) al by (auto simp: seg_ok_def)
  have "n \<noteq> 0"
    using inv sg b by (auto simp: ra_inv_def geo_def seg_ok_def)
  then have "base < base + ucast n"
    using \<open>unat base + unat n \<le> seg_hi b2\<close> h unat_less32 [of n]
    by (simp add: word_less_nat_alt unat_word_ariths unsigned_ucast_eq take_bit_nat_eq_self unat_gt_0)
  moreover have "ra_world A2 = ra_world A" "pBackingStoreFree A2 = Some f0" "uQuantum A2 = 0x1000" "pImportHandle A2 = pImportHandle A"
    using cA2 cfg by (simp_all add: ra_config_def) (simp add: A2_def A1_def)
  ultimately have w: "ra_world (free_backing base n b2 A2) = f0 (pImportHandle A) (ucast base) (ucast (base + ucast n)) (ra_world A)"
    using br by (simp add: free_backing_def)
  let ?A3 = "free_backing base n b2 A2"
  have "FreeBT (bt b) True ?A1 =
      (case (next_segment (bt b) (segments ?A3), prev_segment (bt b) (segments ?A3)) of
         (Some next, Some prev) \<Rightarrow>
           if bt_type next = btt_span \<and> bt_type prev = btt_span then
             ra_free_mem (bt b) (ra_free_mem (bt prev) (ra_free_mem (bt next)
               (call_import_free (bt_base b2) (bt_psMapping b2)
                 (SegmentListRemove (bt b) (SegmentListRemove (bt prev) (SegmentListRemove (bt next) ?A3))))))
           else FreeListInsert (bt b) ?A3
       | _ \<Rightarrow> FreeListInsert (bt b) ?A3)"
    by (simp only: FreeBT_def Let_def b0 option.case A1_def [symmetric] s1 A2_def [symmetric] s2 b if_True)
  moreover have "bt_type x \<noteq> btt_span" if "next_segment (bt b) (segments ?A3) = Some x" for x
  proof -
    have sg2: "segments A2 = us1 @ b2 # vs2"
      using c2(2) unfolding A2_def .
    have "bt b2 \<notin> bt ` set us1"
      using at_segD [OF ra_inv_at [OF c2(1,2)]] by simp
    then have "next_segment (bt b) (segments ?A3) = (case vs2 of [] \<Rightarrow> None | n # _ \<Rightarrow> Some n)"
      using next_segment_at [of b2 us1 vs2] unfolding free_backing_simps sg2 bb2(1) by simp
    then have "x \<in> set vs2"
      using that by (cases vs2) auto
    then show ?thesis
      using nospan unfolding sg2 by simp
  qed
  ultimately have "ra_world (FreeBT (bt b) True ?A1) = ra_world ?A3"
    by (auto split: option.splits)
  then show ?thesis
    unfolding R w .
qed

section \<open>Heaps and their arenas\<close>

lemma mmu_inv_blocks:
  assumes inv: "mmu_inv k SH U F s" and os: "os_ok os1" "blocks os1 = mmu_blocks s + G"
  shows "mmu_inv k SH U G (s\<lparr>mmu_os := os1\<rparr>)"
proof -
  let ?s = "s\<lparr>mmu_os := os1\<rparr>"
  have rl: "role_pa r ?s = role_pa r s" for r
    by (rule role_pa_cong) simp_all
  have "mem_ok ?s"
    using inv unfolding mmu_inv_def mem_ok_def rl by simp
  then show ?thesis
    using inv os
    by (simp add: mmu_inv_def ctxs_ok_def slots_ok_def dirs_ok_def shared_ok_def env_ok_def mmu_blocks_def slot_ok_def ctx_ok_def pde_def)
qed

definition heap_pages :: "MMU_HEAP \<Rightarrow> nat set" where
  "heap_pages h = {unat (BaseDevVAddr (psDevArena h)) ..< unat (BaseDevVAddr (psDevArena h)) + unat (da_ui32Size (psDevArena h))}"

definition heap_slots :: "MMU_HEAP \<Rightarrow> nat set" where
  "heap_slots h = {unat (PDIndex h (BaseDevVAddr (psDevArena h))) ..< unat (PDIndex h (BaseDevVAddr (psDevArena h))) + unat (ui32PageTableCount h)}"

lemma live_blocks_os [simp]: "live_blocks (A\<lparr>ra_os := s\<rparr>) = live_blocks A"
  by (simp add: live_blocks_def)

lemma delete_tables_effect:
  assumes inv: "mmu_inv k SH U F s" and g: "heap_geometry h" and c: "ctx_at (heap_psMMUContext h) s \<noteq> None"
    and hs: "\<forall>i \<in> heap_slots h. heap_of k SH h i" "heap_slots h \<subseteq> {..<1024}"
  shows "\<exists>n s'. DeferredFreePageTables h s = Some (h\<lparr>ui32PTETotalUsable := n\<rparr>, s'\<lparr>ui32CacheControl := ui32CacheControl s OR SGXMKIF_CC_INVAL_BIF_PD\<rparr>) \<and>
    mmu_inv k SH U F s' \<and> pt_shrinks (heap_psMMUContext h) (heap_slots h) s s' \<and>
    (\<forall>i \<in> heap_slots h. pt_slot (heap_psMMUContext h) i s' = Some None) \<and>
    (\<forall>b q. pte b q s' = (if b = heap_psMMUContext h \<and> q div 1024 \<in> heap_slots h then 0 else pte b q s))"
proof -
  let ?ts = "map of_nat [0..<unat (ui32PageTableCount h)] :: IMG_UINT32 list" and ?B = "unat (PDIndex h (BaseDevVAddr (psDevArena h)))"
  have u: "unat (of_nat j :: IMG_UINT32) = j" if "j < unat (ui32PageTableCount h)" for j
  proof -
    have "unat (ui32PageTableCount h) < 2 ^ LENGTH(32)"
      by (rule unsigned_less)
    then have "j < 2 ^ LENGTH(32)"
      using that by (rule order.strict_trans [rotated])
    then show ?thesis
      by (simp add: unsigned_of_nat take_bit_nat_eq_self)
  qed
  have st: "set ?ts = of_nat ` {0..<unat (ui32PageTableCount h)}"
    by simp
  have J: "heap_slots h = {?B + unat t | t. t \<in> set ?ts}"
  proof (intro set_eqI iffI)
    fix i
    assume "i \<in> heap_slots h"
    then have i: "?B \<le> i" "i - ?B < unat (ui32PageTableCount h)"
      unfolding heap_slots_def by auto
    have "of_nat (i - ?B) \<in> set ?ts"
      unfolding st using i(2) by (intro imageI) simp
    moreover have "i = ?B + unat (of_nat (i - ?B) :: IMG_UINT32)"
      unfolding u [OF i(2)] using i(1) by simp
    ultimately show "i \<in> {?B + unat t | t. t \<in> set ?ts}"
      by blast
  next
    fix i
    assume "i \<in> {?B + unat t | t. t \<in> set ?ts}"
    then show "i \<in> heap_slots h"
      unfolding st using u by (auto simp: heap_slots_def)
  qed
  have "\<forall>t \<in> set ?ts. heap_of k SH h (?B + unat t) \<and> ?B + unat t < 1024"
    using hs unfolding J by blast
  then obtain n s' where s': "free_tables ?ts h s = Some (h\<lparr>ui32PTETotalUsable := n\<rparr>, s')" "mmu_inv k SH U F s'"
      "pt_shrinks (heap_psMMUContext h) (heap_slots h) s s'" "\<forall>i \<in> heap_slots h. pt_slot (heap_psMMUContext h) i s' = Some None"
      "\<forall>b q. pte b q s' = (if b = heap_psMMUContext h \<and> q div 1024 \<in> heap_slots h then 0 else pte b q s)"
    using free_tables_effect [OF inv g c _ J] by metis
  have "ui32CacheControl s' = ui32CacheControl s"
    using s'(3) by (simp add: pt_shrinks_def)
  then have "DeferredFreePageTables h s =
      Some (h\<lparr>ui32PTETotalUsable := n\<rparr>, s'\<lparr>ui32CacheControl := ui32CacheControl s OR SGXMKIF_CC_INVAL_BIF_PD\<rparr>)"
    using s'(1) by (simp add: DeferredFreePageTables_def MMU_InvalidateDirectoryCache_def)
  then show ?thesis
    using s'(2-5) by blast
qed


lemma round_page:
  assumes "unat n mod 4096 = 0"
  shows "round_quantum 0x1000 n = n"
proof -
  obtain m where m: "unat n = 4096 * m"
    using assms by (auto simp: mod_eq_0_iff_dvd elim: dvdE)
  have "unat n < 2 ^ LENGTH(32)"
    by (rule unsigned_less)
  then have b: "m < 1048576"
    using m by simp
  have "unat (n + 0xFFF) = 4096 * m + 4095"
    using m b by (simp add: unat_word_ariths)
  then have "unat ((n + 0xFFF) div 0x1000) = m"
    by (simp add: unat_div)
  then have "unat ((n + 0xFFF) div 0x1000 * 0x1000) = unat n"
    using m b by (simp add: unat_word_ariths)
  then have "(n + 0xFFF) div 0x1000 * 0x1000 = n"
    by (simp only: word_unat_eq_iff)
  then show ?thesis
    by (simp add: round_quantum_def add.commute)
qed

lemma heap_create_ok:
  assumes "unat (sz :: IMG_SIZE_T) mod 4096 = 0"
  shows "create_ok (ucast (base :: IMG_UINT32)) sz 0x1000"
proof -
  have "unat base < 2 ^ LENGTH(32)" "unat sz < 2 ^ LENGTH(32)"
    by (rule unsigned_less)+
  then show ?thesis
    using round_page [OF assms] by (auto simp: create_ok_def unsigned_ucast_eq take_bit_nat_eq_self)
qed

text \<open>The heap that \<open>MMU_Create\<close> returns.\<close>

lemma heap_create_cases:
  assumes "MMU_Create a d s = Some (Some h, s')"
  obtains e p os1 A1 os2 h0 where "OSAllocMem sizeof_MMU_HEAP (mmu_os s) = (e, p, os1)" "p \<noteq> IMG_NULL" "da_ui32DataPageSize d = 0x1000"
    "RA_Create (ucast (BaseDevVAddr d)) (da_ui32Size d) IMG_NULL 0x1000 None None (Some note_range) p (\<lambda>_. 0) os1 [] = (Some A1, os2)"
    "h = h0\<lparr>psVMArena := Some A1\<rparr>" "s' = s\<lparr>mmu_os := os2\<rparr>" "pMMUHeap h0 = p" "heap_psMMUContext h0 = a" "psDevArena h0 = d"
    "heap_geometry h0" "ui32PageTableCount h0 = drop_bit 10 (drop_bit 12 (da_ui32Size d) + 1024 - 1)"
proof -
  obtain e p os1 where al: "OSAllocMem sizeof_MMU_HEAP (mmu_os s) = (e, p, os1)"
    by (metis prod_cases3)
  have p: "p \<noteq> IMG_NULL"
    using assms al by (cases "p = IMG_NULL") (simp_all add: MMU_Create_def Let_def)
  have ps: "da_ui32DataPageSize d = 0x1000"
    using assms al p by (cases "da_ui32DataPageSize d = 0x1000") (simp_all add: MMU_Create_def Let_def)
  obtain r os2 where rc: "RA_Create (ucast (BaseDevVAddr d)) (da_ui32Size d) IMG_NULL 0x1000 None None (Some note_range) p (\<lambda>_. 0) os1 [] = (r, os2)"
    by fastforce
  have mx: "max PAGE_SIZE 0x1000 = 0x1000"
    by (simp add: PAGE_SIZE_def)
  obtain A1 where A1: "r = Some A1"
    using assms al p ps rc mx by (cases r) (auto simp: MMU_Create_def Let_def split: bind_splits)
  let ?h = "\<lparr>pMMUHeap = p, heap_psMMUContext = a, ui32PDBaseIndex = drop_bit 22 (BaseDevVAddr d),
      ui32PageTableCount = drop_bit 10 (drop_bit 12 (da_ui32Size d) + 1024 - 1), ui32PTETotalUsable = drop_bit 12 (da_ui32Size d),
      ui32PDEPageSizeCtrl = 0, ui32DataPageSize = 0x1000, ui32DataPageBitWidth = 12, ui32DataPageMask = 0xFFF,
      ui32PTShift = 12, ui32PTBitWidth = 10, ui32PTMask = 0x3FF000, ui32PTSize = 0x1000, ui32PTNumEntriesAllocated = 1024,
      ui32PTNumEntriesUsable = 1024, ui32PDShift = 22, ui32PDBitWidth = 10, ui32PDMask = 0xFFC00000, psVMArena = None, psDevArena = d\<rparr>"
  have "drop_bit 22 (BaseDevVAddr d AND 0xFFC00000) = drop_bit 22 (BaseDevVAddr d)"
  proof -
    have "drop_bit 22 (0xFFC00000 :: 32 word) = mask 10"
      by (simp add: mask_numeral)
    moreover have "drop_bit 22 (BaseDevVAddr d) AND mask 10 = drop_bit 22 (BaseDevVAddr d)"
      by (rule bit_word_eqI) (auto simp: bit_and_iff bit_drop_bit_eq bit_mask_iff dest: bit_imp_le_length)
    ultimately show ?thesis
      by (simp only: drop_bit_and)
  qed
  then have "h = ?h\<lparr>psVMArena := Some A1\<rparr>" "s' = s\<lparr>mmu_os := os2\<rparr>"
    using assms al p ps rc mx A1
    by (simp_all add: MMU_Create_def mmu_consts Let_def del: drop_bit_eq_div)
  moreover have "heap_geometry ?h"
    by (simp add: heap_geometry_def)
  ultimately show ?thesis
    using that [of e p os1 A1 os2 ?h] al p ps rc A1 by simp
qed


text \<open>What RA_Free does to the range noted when the backing store is kept: nothing.\<close>

lemma RA_Free_quiet:
  assumes "pImportFree A = None"
  shows "ra_world (RA_Free base False A) = ra_world A"
proof -
  obtain p h os1 where "HASH_Remove (pSegmentHash A) base (ra_os A) = (p, h, os1)"
    by (metis prod_cases3)
  moreover have "ra_world (call_import_free x y B) = ra_world B" if "pImportFree B = None" for x y and B :: "'a RA_ARENA"
    using that by (simp add: call_import_free_def)
  moreover have "pImportFree B = None" if "ra_config B = ra_config A" for B
    using that assms by (simp add: ra_config_def)
  ultimately show ?thesis
    by (simp add: RA_Free_def FreeBT_def Let_def split: option.splits)
qed

lemma ra_config_RA_Free [simp]: "ra_config (RA_Free base f A) = ra_config A"
  by (simp add: RA_Free_def Let_def split: prod.splits)

text \<open>Without an import, an allocation is the search in the free segments.\<close>

lemma RA_Alloc_local:
  assumes inv: "ra_ok F A" and sz: "sz \<noteq> 0" and imp: "pImportAlloc A = RequestAllocFail"
    and r: "RA_Alloc sz fl al o' A = (ok, actual, m, base, A')"
  shows "ra_ok F A' \<and> ra_config A' = ra_config A \<and> (if ok then allocated sz fl al o' base m A A'
    else live_blocks A' = live_blocks A \<and> free_space (segments A') \<subseteq> free_space (segments A))"
proof -
  obtain ok1 base1 m1 A1 where a1: "AttemptAllocAligned sz fl al o' A = (ok1, base1, m1, A1)"
    by (metis prod_cases4)
  note t = AttemptAllocAligned_inv [OF inv sz a1]
  have c: "ra_config A1 = ra_config A"
    by (rule ra_config_AttemptAllocAligned [OF a1])
  then have i: "pImportAlloc A1 = RequestAllocFail"
    using imp by (simp add: ra_config_def)
  show ?thesis
  proof (cases ok1)
    case True
    then show ?thesis
      using r a1 t c by (simp add: RA_Alloc_def)
  next
    case False
    then have "\<not> ok" "A' = A1"
      using r a1 i by (auto simp: RA_Alloc_def RequestAllocFail_def Let_def)
    then show ?thesis
      using t c False by (auto simp: ra_inv_world live_blocks_def)
  qed
qed

section \<open>The invariant of a heap\<close>

text \<open>
  A heap \<open>h\<close> with the arena \<open>A\<close>: the arena hands out addresses of the heap, its memory and the memory of the page tables come from the same kernel
  heap, and each is foreign to the other; \<open>F\<close> is what belongs to neither.
\<close>

definition arena_blocks :: "'w RA_ARENA \<Rightarrow> IMG_UINTPTR_T multiset" where
  "arena_blocks A = hash_blocks (pSegmentHash A) + mset (pArena A # map bt (segments A))"

definition heap_shape :: "IMG_UINTPTR_T \<Rightarrow> nat set \<Rightarrow> MMU_HEAP \<Rightarrow> bool" where
  "heap_shape k SH h \<longleftrightarrow>
     heap_geometry h \<and> (\<lambda>x. x div 4194304) ` heap_pages h \<subseteq> heap_slots h \<and> heap_slots h \<subseteq> {..<1024} \<and>
     unat (BaseDevVAddr (psDevArena h)) + unat (da_ui32Size (psDevArena h)) < 4294967296 \<and>
     (\<forall>i \<in> heap_slots h. heap_of k SH h i)"

definition arena_in :: "MMU_HEAP \<Rightarrow> vm_arena \<Rightarrow> bool" where
  "arena_in h A \<longleftrightarrow>
     ra_config A = ((\<lambda>_. 0), RequestAllocFail, None, Some note_range, 0x1000, pMMUHeap h) \<and>
     free_space (segments A) \<subseteq> heap_pages h \<and> (\<forall>(b, m) \<in># live_blocks A. {unat b ..< unat b + unat m} \<subseteq> heap_pages h)"

definition heap_ok ::
  "IMG_UINTPTR_T \<Rightarrow> nat set \<Rightarrow> (IMG_UINTPTR_T \<Rightarrow> nat set) \<Rightarrow> IMG_UINTPTR_T multiset \<Rightarrow> MMU_HEAP \<Rightarrow> vm_arena \<Rightarrow> MMU_STATE \<Rightarrow> bool" where
  "heap_ok k SH U F h A s \<longleftrightarrow>
     psVMArena h = Some A \<and> heap_shape k SH h \<and> arena_in h A \<and> ctx_at (heap_psMMUContext h) s \<noteq> None \<and>
     ra_ok (mmu_blocks s + add_mset (pMMUHeap h) F) (A\<lparr>ra_os := mmu_os s\<rparr>) \<and>
     mmu_inv k SH U (arena_blocks A + add_mset (pMMUHeap h) F) s"

lemma heap_shape_upd [simp]:
  "heap_shape k SH (h\<lparr>psVMArena := x\<rparr>) = heap_shape k SH h" "heap_shape k SH (h\<lparr>ui32PTETotalUsable := n\<rparr>) = heap_shape k SH h"
  by (simp_all add: heap_shape_def heap_geometry_def heap_pages_def heap_slots_def heap_of_def MMU_IsHeapShared_def PDIndex_def)

lemma arena_in_upd [simp]:
  "arena_in (h\<lparr>psVMArena := x\<rparr>) A = arena_in h A" "arena_in (h\<lparr>ui32PTETotalUsable := n\<rparr>) A = arena_in h A"
  "arena_in h (A\<lparr>ra_os := os1\<rparr>) = arena_in h A" "arena_in h (A\<lparr>ra_world := w\<rparr>) = arena_in h A"
  by (simp_all add: arena_in_def heap_pages_def live_blocks_def)

lemma arena_blocks_upd [simp]:
  "arena_blocks (A\<lparr>ra_os := os1\<rparr>) = arena_blocks A" "arena_blocks (A\<lparr>ra_world := w\<rparr>) = arena_blocks A"
  by (simp_all add: arena_blocks_def)

lemma ra_ok_blocks: "ra_ok G A \<Longrightarrow> os_ok (ra_os A) \<and> blocks (ra_os A) = arena_blocks A + G"
  by (simp add: ra_inv_def arena_blocks_def)

lemma ra_ok_os: "ra_ok G (A\<lparr>ra_os := z\<rparr>) \<Longrightarrow> os_ok os1 \<Longrightarrow> blocks os1 = arena_blocks A + G1 \<Longrightarrow> ra_ok G1 (A\<lparr>ra_os := os1\<rparr>)"
  by (simp add: ra_inv_def arena_blocks_def)

lemma mmu_inv_os: "mmu_inv k SH U G s \<Longrightarrow> os_ok (mmu_os s) \<and> blocks (mmu_os s) = mmu_blocks s + G"
  by (simp add: mmu_inv_def env_ok_def)

text \<open>A step of the arena, and a step of the page tables.\<close>

lemma heap_arena_step:
  assumes "heap_ok k SH U F h A s" "ra_ok (mmu_blocks s + add_mset (pMMUHeap h) F) B" "arena_in h B"
  shows "heap_ok k SH U F (h\<lparr>psVMArena := Some B\<rparr>) B (s\<lparr>mmu_os := ra_os B\<rparr>)"
proof -
  have "mmu_inv k SH U (arena_blocks B + add_mset (pMMUHeap h) F) (s\<lparr>mmu_os := ra_os B\<rparr>)"
    using assms(1) ra_ok_blocks [OF assms(2)]
    by (intro mmu_inv_blocks [where F = "arena_blocks A + add_mset (pMMUHeap h) F"]) (simp_all add: heap_ok_def ac_simps)
  moreover have "mmu_blocks (s\<lparr>mmu_os := ra_os B\<rparr>) = mmu_blocks s" "ctx_at a (s\<lparr>mmu_os := ra_os B\<rparr>) = ctx_at a s" for a
    by (simp_all add: mmu_blocks_def ctx_at_def)
  ultimately show ?thesis
    using assms by (simp add: heap_ok_def)
qed

lemma heap_table_step:
  assumes "heap_ok k SH U F h A s" "mmu_inv k SH U (arena_blocks A + add_mset (pMMUHeap h) F) s'"
    and "map psMMUContext (pvMMUContextList s') = map psMMUContext (pvMMUContextList s)"
  shows "heap_ok k SH U F h A s'" "heap_ok k SH U F (h\<lparr>ui32PTETotalUsable := n\<rparr>) A s'"
proof -
  have "ra_ok (mmu_blocks s + add_mset (pMMUHeap h) F) (A\<lparr>ra_os := mmu_os s\<rparr>)"
    using assms(1) by (simp add: heap_ok_def)
  moreover have "os_ok (mmu_os s')" "blocks (mmu_os s') = arena_blocks A + (mmu_blocks s' + add_mset (pMMUHeap h) F)"
    using mmu_inv_os [OF assms(2)] by (simp_all add: ac_simps)
  ultimately have "ra_ok (mmu_blocks s' + add_mset (pMMUHeap h) F) (A\<lparr>ra_os := mmu_os s'\<rparr>)"
    by (rule ra_ok_os)
  moreover have "ctx_at a s' \<noteq> None" if "ctx_at a s \<noteq> None" for a
    using that assms(3) unfolding ctx_at_iff by simp
  ultimately show "heap_ok k SH U F h A s'" "heap_ok k SH U F (h\<lparr>ui32PTETotalUsable := n\<rparr>) A s'"
    using assms(1,2) by (simp_all add: heap_ok_def)
qed

lemma free_heap_block:
  assumes "mmu_inv k SH U (add_mset p F) s"
  shows "mmu_inv k SH U F (s\<lparr>mmu_os := OSFreeMem p (mmu_os s)\<rparr>)"
  using assms mmu_inv_os [OF assms]
  by (intro mmu_inv_blocks [OF assms]) (simp_all add: OSFreeMem_os_ok blocks_OSFreeMem)

section \<open>Creating and deleting a heap\<close>

lemma page_table_count:
  "unat (drop_bit 10 (drop_bit 12 sz + 1024 - 1 :: IMG_SIZE_T)) = (unat sz div 4096 + 1023) div 1024"
proof -
  have "unat sz < 2 ^ LENGTH(32)"
    by (rule unsigned_less)
  then have "unat sz div 4096 < 1048576"
    by simp
  then have *: "unat (drop_bit 12 sz + 1024 - 1 :: IMG_SIZE_T) = unat sz div 4096 + 1023"
    by (simp add: unat_word_ariths drop_bit_eq_div unat_div)
  show ?thesis
    unfolding * [symmetric] by (simp only: drop_bit_eq_div) (simp add: unat_div)
qed

lemma slots_cover:
  fixes b z :: nat
  assumes "4194304 * b + 4096 * z < 4294967296"
  shows "(\<lambda>x. x div 4194304) ` {4194304 * b ..< 4194304 * b + 4096 * z} \<subseteq> {b ..< b + (z + 1023) div 1024}"
    and "{b ..< b + (z + 1023) div 1024} \<subseteq> {..< 1024}"
proof -
  show "(\<lambda>x. x div 4194304) ` {4194304 * b ..< 4194304 * b + 4096 * z} \<subseteq> {b ..< b + (z + 1023) div 1024}"
  proof (rule image_subsetI)
    fix x
    assume "x \<in> {4194304 * b ..< 4194304 * b + 4096 * z}"
    then have x: "4194304 * b \<le> x" "x < 4194304 * b + 4096 * z"
      by auto
    have "x div 4096 < 1024 * b + z"
      using x(2) by (simp add: less_mult_imp_div_less)
    moreover have "z \<le> 1024 * ((z + 1023) div 1024)"
      using div_mult_mod_eq [of "z + 1023" 1024] mod_less_divisor [of 1024 "z + 1023"] by linarith
    ultimately have "x div 4096 < (b + (z + 1023) div 1024) * 1024"
      by simp
    then have "x div 4096 div 1024 < b + (z + 1023) div 1024"
      by (rule less_mult_imp_div_less)
    moreover have "b \<le> x div 4194304"
      using div_le_mono [OF x(1), of 4194304] by simp
    ultimately show "x div 4194304 \<in> {b ..< b + (z + 1023) div 1024}"
      by (simp add: div_mult2_eq [symmetric])
  qed
  have "1024 * b + z < 1048576"
    using assms by simp
  then have "b + (z + 1023) div 1024 \<le> 1024"
    using div_mult_mod_eq [of "z + 1023" 1024] by linarith
  then show "{b ..< b + (z + 1023) div 1024} \<subseteq> {..< 1024}"
    by auto
qed

lemma create_effect:
  assumes inv: "mmu_inv k SH U F s" and c: "ctx_at a s \<noteq> None" and cr: "MMU_Create a d s = Some (Some h, s')"
    and sz: "unat (da_ui32Size d) mod 4096 = 0" "unat (BaseDevVAddr d) mod 4194304 = 0"
      "unat (BaseDevVAddr d) + unat (da_ui32Size d) < 4294967296"
    and ho: "\<forall>i \<in> heap_slots h. heap_of k SH h i"
  shows "\<exists>A. heap_ok k SH U F h A s' \<and> live_blocks A = {#} \<and> free_space (segments A) = heap_pages h \<and>
    psDevArena h = d \<and> heap_psMMUContext h = a \<and> s' = s\<lparr>mmu_os := mmu_os s'\<rparr>"
proof -
  obtain e p os1 A1 os2 h0 where al: "OSAllocMem sizeof_MMU_HEAP (mmu_os s) = (e, p, os1)" "p \<noteq> IMG_NULL"
    and rc: "RA_Create (ucast (BaseDevVAddr d)) (da_ui32Size d) IMG_NULL 0x1000 None None (Some note_range) p (\<lambda>_. 0) os1 [] = (Some A1, os2)"
    and h: "h = h0\<lparr>psVMArena := Some A1\<rparr>" "s' = s\<lparr>mmu_os := os2\<rparr>" "pMMUHeap h0 = p" "heap_psMMUContext h0 = a" "psDevArena h0 = d"
    and g: "heap_geometry h0" and ct: "ui32PageTableCount h0 = drop_bit 10 (drop_bit 12 (da_ui32Size d) + 1024 - 1)"
    by (rule heap_create_cases [OF cr])
  have os1: "os_ok os1" "blocks os1 = add_mset p (mmu_blocks s + F)"
    using OSAllocMem_os_ok [OF al(1)] OSAllocMem_blocks [OF al(1)] al(2) mmu_inv_os [OF inv] by auto
  have A1: "ra_ok (blocks os1) A1" "ra_os A1 = os2" "live_blocks A1 = {#}"
      "free_space (segments A1) = (if da_ui32Size d > 0 then {unat (ucast (BaseDevVAddr d) :: IMG_UINTPTR_T) ..<
        unat (ucast (BaseDevVAddr d) :: IMG_UINTPTR_T) + unat (round_quantum 0x1000 (da_ui32Size d))} else {})"
    using RA_Create_inv [OF heap_create_ok [OF sz(1)] os1(1) rc] by simp_all
  have "unat (ucast (BaseDevVAddr d) :: IMG_UINTPTR_T) = unat (BaseDevVAddr d)"
    by (rule unat_ucast_widen)
  then have fs: "free_space (segments A1) = heap_pages h"
    using A1(4) round_page [OF sz(1)] by (auto simp: heap_pages_def h word_gt_0)
  obtain b z where bz: "unat (BaseDevVAddr d) = 4194304 * b" "unat (da_ui32Size d) = 4096 * z"
    using sz(1,2) by (auto simp: mod_eq_0_iff_dvd elim!: dvdE)
  have "unat (PDIndex h0 (BaseDevVAddr d)) = b"
    using bz(1) by (simp add: pd_index_div [OF g])
  then have hs: "heap_slots h = {b ..< b + (z + 1023) div 1024}"
    using ct page_table_count [of "da_ui32Size d"] bz(2) h by (simp add: heap_slots_def PDIndex_def)
  have "heap_pages h = {4194304 * b ..< 4194304 * b + 4096 * z}"
    using bz h by (simp add: heap_pages_def)
  moreover have "4194304 * b + 4096 * z < 4294967296"
    using sz(3) bz by simp
  moreover have "heap_geometry h"
    using g h by (simp add: heap_geometry_def)
  ultimately have shape: "heap_shape k SH h"
    using slots_cover [of b z] ho bz h(1,5) unfolding heap_shape_def hs by simp
  have "arena_in h A1"
    using RA_Create_config [OF rc] A1(3) fs h by (simp add: arena_in_def)
  moreover have "mmu_inv k SH U (arena_blocks A1 + add_mset p F) s'"
    using ra_ok_blocks [OF A1(1)] A1(2) os1(2) unfolding h(2)
    by (intro mmu_inv_blocks [OF inv]) (simp_all add: ac_simps)
  moreover have "mmu_blocks s' = mmu_blocks s" "ctx_at a s' = ctx_at a s"
    by (simp_all add: h(2) mmu_blocks_def ctx_at_def)
  moreover have "A1\<lparr>ra_os := mmu_os s'\<rparr> = A1"
    using A1(2) h(2) by simp
  moreover have "blocks os1 = mmu_blocks s + add_mset p F" "pMMUHeap h = p" "heap_psMMUContext h = a" "psVMArena h = Some A1"
    using os1(2) h by simp_all
  ultimately have "heap_ok k SH U F h A1 s'"
    using A1(1) shape c unfolding heap_ok_def by simp
  then show ?thesis
    using A1(3) fs h by auto
qed

text \<open>Deleting a heap without live blocks: its tables go, and with them every block the heap had.\<close>

lemma free_all_os_ok: "os_ok s \<Longrightarrow> os_ok (fold (\<lambda>b s. OSFreeMem (bt b) s) bs s)"
  by (induction bs arbitrary: s) (simp_all add: OSFreeMem_os_ok)

lemma RA_Delete_os_ok: "os_ok (ra_os A) \<Longrightarrow> os_ok (RA_Delete A)"
  unfolding RA_Delete_def HASH_Delete_def option.case by (intro OSFreeMem_os_ok free_all_os_ok)

lemma delete_effect:
  assumes ok: "heap_ok k SH U F h A s" and l: "live_blocks A = {#}"
  shows "\<exists>s'. MMU_Delete h s = Some s' \<and> mmu_inv k SH U F s' \<and>
    (\<forall>i \<in> heap_slots h. pt_slot (heap_psMMUContext h) i s' = Some None) \<and>
    ui32CacheControl s' = ui32CacheControl s OR SGXMKIF_CC_INVAL_BIF_PD \<and>
    (\<forall>a w. ctx_at a s \<noteq> None \<longrightarrow> vpn w div 1024 \<notin> U a \<longrightarrow> walk a w s' =
       (if owner k SH a (vpn w div 1024) = heap_psMMUContext h \<and> vpn w div 1024 \<in> heap_slots h then None else walk a w s))"
proof -
  let ?b = "heap_psMMUContext h" and ?A = "A\<lparr>ra_os := mmu_os s\<rparr>" and ?p = "pMMUHeap h"
  let ?s = "s\<lparr>mmu_os := RA_Delete ?A\<rparr>"
  have inv: "mmu_inv k SH U (arena_blocks A + add_mset ?p F) s" and ra: "ra_ok (mmu_blocks s + add_mset ?p F) ?A"
    and sh: "heap_shape k SH h" and va: "psVMArena h = Some A" and c: "ctx_at ?b s \<noteq> None"
    using ok by (simp_all add: heap_ok_def)
  have "hash_entries (pSegmentHash ?A) = {#}"
    using no_live_entries [OF ra] l by simp
  then have "blocks (RA_Delete ?A) = mmu_blocks s + add_mset ?p F"
    using RA_Delete_blocks [OF ra] by simp
  then have i1: "mmu_inv k SH U (add_mset ?p F) ?s"
    using RA_Delete_os_ok [of ?A] mmu_inv_os [OF inv] by (intro mmu_inv_blocks [OF inv]) simp_all
  have c1: "ctx_at a ?s = ctx_at a s" for a
    by (simp add: ctx_at_def)
  obtain n s2 where d: "DeferredFreePageTables h ?s =
        Some (h\<lparr>ui32PTETotalUsable := n\<rparr>, s2\<lparr>ui32CacheControl := ui32CacheControl ?s OR SGXMKIF_CC_INVAL_BIF_PD\<rparr>)"
      "mmu_inv k SH U (add_mset ?p F) s2" "pt_shrinks ?b (heap_slots h) ?s s2"
      "\<forall>i \<in> heap_slots h. pt_slot ?b i s2 = Some None"
      "\<forall>b q. pte b q s2 = (if b = ?b \<and> q div 1024 \<in> heap_slots h then 0 else pte b q ?s)"
    using delete_tables_effect [OF i1, of h] sh c c1 unfolding heap_shape_def by auto
  let ?s3 = "s2\<lparr>ui32CacheControl := ui32CacheControl s OR SGXMKIF_CC_INVAL_BIF_PD\<rparr>"
  let ?s4 = "?s3\<lparr>mmu_os := OSFreeMem ?p (mmu_os ?s3)\<rparr>"
  have "MMU_Delete h s = Some ?s4"
    using d(1) va by (simp add: MMU_Delete_def)
  moreover have "mmu_inv k SH U (add_mset ?p F) ?s3"
    using d(2) by simp
  then have "mmu_inv k SH U F ?s4"
    by (rule free_heap_block)
  moreover have "pt_slot b i ?s4 = pt_slot b i s2" "walk b v ?s4 = walk b v s2" for b i v
    by (simp_all add: pt_slot_def ctx_at_def walk_def dir_pa_def cong: if_cong)
  moreover have "walk a w s2 = (if owner k SH a (vpn w div 1024) = ?b \<and> vpn w div 1024 \<in> heap_slots h then None else walk a w s)"
    if "ctx_at a s \<noteq> None" "vpn w div 1024 \<notin> U a" for a w
  proof -
    have "walk a w ?s = walk a w s"
      by (simp add: walk_def dir_pa_def ctx_at_def cong: if_cong)
    moreover have cs: "ctx_at a ?s \<noteq> None"
      using that(1) c1 by simp
    ultimately show ?thesis
      using walk_change [OF i1 d(2) disjI2 [OF disjI1 [OF d(3)]] cs that(2)] d(5) walk_pte [OF i1 cs that(2)]
      by (auto simp: Let_def)
  qed
  ultimately show ?thesis
    using d(4) by auto
qed

section \<open>Allocating and freeing addresses of a heap\<close>

lemma live_in_heap:
  assumes "heap_shape k SH h" "{unat b ..< unat b + unat n} \<subseteq> heap_pages h" "n \<noteq> (0 :: IMG_SIZE_T)"
  shows "unat (BaseDevVAddr (psDevArena h)) \<le> unat (b :: IMG_UINTPTR_T)"
    "unat b + unat n \<le> unat (BaseDevVAddr (psDevArena h)) + unat (da_ui32Size (psDevArena h))"
    "unat (ucast b :: IMG_UINT32) = unat b"
proof -
  have n: "0 < unat n"
    using assms(3) by (simp add: unat_gt_0)
  then have "unat b \<in> heap_pages h" "unat b + (unat n - 1) \<in> heap_pages h"
    using assms(2) by auto
  then show 1: "unat (BaseDevVAddr (psDevArena h)) \<le> unat b"
    and 2: "unat b + unat n \<le> unat (BaseDevVAddr (psDevArena h)) + unat (da_ui32Size (psDevArena h))"
    using n by (auto simp: heap_pages_def)
  then have "unat b < 4294967296"
    using assms(1) n by (simp add: heap_shape_def)
  then show "unat (ucast b :: IMG_UINT32) = unat b"
    by (simp add: unsigned_ucast_eq take_bit_nat_eq_self)
qed

lemma block_slots:
  assumes "heap_shape k SH h" "{x ..< x + m} \<subseteq> heap_pages h" "0 < m"
    and "x div 4194304 \<le> i" "i < (x + m + 0x3FFFFF) div 4194304"
  shows "i \<in> heap_slots h"
proof -
  have s: "(\<lambda>x. x div 4194304) ` heap_pages h \<subseteq> heap_slots h"
    using assms(1) by (simp add: heap_shape_def)
  let ?y = "max x (4194304 * i)"
  have "4194304 * (i + 1) \<le> x + m + 0x3FFFFF"
    using assms(5) by (metis Suc_eq_plus1 Suc_leI less_eq_div_iff_mult_less_eq mult.commute zero_less_numeral)
  then have "?y \<in> {x ..< x + m}"
    using assms(3) by auto
  then have "?y div 4194304 \<in> heap_slots h"
    using assms(2) s by blast
  moreover have "?y div 4194304 = i"
    using assms(4) by (auto simp: max_def div_le_mono dest: div_le_mono [of x "4194304 * i" 4194304])
  ultimately show ?thesis
    by simp
qed

lemma freed_space:
  assumes "freed base n A B" "{unat base ..< unat base + unat n} \<subseteq> P" "free_space (segments A) \<subseteq> P"
  shows "free_space (segments B) \<subseteq> P" "live_blocks B = live_blocks A - {#(base, n)#}"
  using assms unfolding freed_def by blast+

lemma arena_in_sub:
  assumes "arena_in h A" "ra_config B = ra_config A" "free_space (segments B) \<subseteq> heap_pages h" "set_mset (live_blocks B) \<subseteq> set_mset (live_blocks A)"
  shows "arena_in h B"
proof -
  have "\<forall>x \<in># live_blocks B. case x of (b, m) \<Rightarrow> {unat b ..< unat b + unat m} \<subseteq> heap_pages h"
    using assms(1,4) unfolding arena_in_def by blast
  then show ?thesis
    using assms(1-3) unfolding arena_in_def by simp
qed

text \<open>Giving a block of the arena back.\<close>

lemma arena_free_step:
  fixes f :: bool
  assumes ok: "heap_ok k SH U F h A s" and m: "(base, n) \<in># live_blocks A"
  defines "B \<equiv> RA_Free base f (A\<lparr>ra_os := mmu_os s, ra_world := []\<rparr>)"
  shows "heap_ok k SH U F (h\<lparr>psVMArena := Some B\<rparr>) B (s\<lparr>mmu_os := ra_os B\<rparr>) \<and> live_blocks B = live_blocks A - {#(base, n)#} \<and>
    ra_world B = (if f \<and> unat base mod 4096 = 0 \<and> unat n mod 4096 = 0 then [(ucast base, ucast (base + ucast n))]
      else if f then ra_world B else [])"
proof -
  let ?A = "A\<lparr>ra_os := mmu_os s, ra_world := []\<rparr>"
  have ra: "ra_ok (mmu_blocks s + add_mset (pMMUHeap h) F) ?A" and ai: "arena_in h A"
    using ok unfolding heap_ok_def ra_inv_world by simp_all
  have l: "live_blocks ?A = live_blocks A"
    by (simp add: live_blocks_def)
  have B: "ra_ok (mmu_blocks s + add_mset (pMMUHeap h) F) B" "freed base n ?A B"
    using RA_Free_inv [OF ra, of base n f] m l unfolding B_def by simp_all
  have c: "ra_config B = ra_config A"
    by (simp add: B_def)
  have "{unat base ..< unat base + unat n} \<subseteq> heap_pages h" "free_space (segments ?A) \<subseteq> heap_pages h"
    using ai m by (auto simp: arena_in_def dest!: bspec [where x = "(base, n)"])
  then have "free_space (segments B) \<subseteq> heap_pages h" "live_blocks B = live_blocks A - {#(base, n)#}"
    using freed_space [OF B(2)] l by simp_all
  moreover from this have "arena_in h B"
    by (intro arena_in_sub [OF ai c]) (auto dest: in_diffD)
  moreover have cf: "pImportFree ?A = None" "pBackingStoreFree ?A = Some note_range" "uQuantum ?A = 0x1000"
    using ai by (simp_all add: arena_in_def ra_config_def)
  moreover have "ra_world B = [(ucast base, ucast (base + ucast n))]" if "f" "unat base mod 4096 = 0" "unat n mod 4096 = 0"
    using RA_Free_world [OF ra _ that(2,3) cf] m l that(1) by (simp add: B_def note_range_def)
  moreover have "ra_world B = []" if "\<not> f"
    using RA_Free_quiet [OF cf(1)] that by (simp add: B_def)
  ultimately show ?thesis
    using heap_arena_step [OF ok B(1)] by simp
qed

lemma heap_geometry_upd [simp]:
  "heap_geometry (h\<lparr>psVMArena := x\<rparr>) = heap_geometry h" "heap_of k SH (h\<lparr>psVMArena := x\<rparr>) i = heap_of k SH h i"
  "serves k SH (h\<lparr>psVMArena := x\<rparr>) n m = serves k SH h n m"
  by (simp_all add: heap_geometry_def heap_of_def MMU_IsHeapShared_def serves_def PDIndex_def)

lemma vpn_range:
  assumes "unat va mod 4096 = 0" "unat n mod 4096 = 0"
  shows "vpn va + unat n div 4096 = (unat va + unat n) div 4096" "4096 * vpn va = unat va"
  using assms unfolding vpn_def by (auto simp: mod_eq_0_iff_dvd elim!: dvdE)

text \<open>Allocation: addresses from the arena, then the tables for them; when there is no memory for the tables the addresses go back.\<close>

definition heap_alloced ::
  "IMG_UINTPTR_T \<Rightarrow> nat set \<Rightarrow> (IMG_UINTPTR_T \<Rightarrow> nat set) \<Rightarrow> IMG_UINTPTR_T multiset \<Rightarrow> IMG_SIZE_T \<Rightarrow> IMG_UINT32 \<Rightarrow> MMU_HEAP \<Rightarrow> vm_arena \<Rightarrow> MMU_STATE
     \<Rightarrow> bool \<Rightarrow> IMG_UINT32 \<Rightarrow> MMU_HEAP \<Rightarrow> vm_arena \<Rightarrow> MMU_STATE \<Rightarrow> bool" where
  "heap_alloced k SH U F n al h A s ok va h' B s' \<longleftrightarrow>
     heap_ok k SH U F h' B s' \<and>
     (if ok then live_blocks B = add_mset (ucast va, n) (live_blocks A) \<and> unat va mod unat al = 0 \<and>
        {unat va ..< unat va + unat n} \<subseteq> free_space (segments A) \<and> has_tables (heap_psMMUContext h) (vpn va) (pages_of n) s'
      else live_blocks B = live_blocks A) \<and>
     (\<forall>a w. ctx_at a s \<noteq> None \<longrightarrow> vpn w div 1024 \<notin> U a \<longrightarrow> walk a w s' = walk a w s)"

lemma alloc_effect:
  assumes ok: "heap_ok k SH U F h A s" and n: "n \<noteq> 0" and fl: "fl AND PVRSRV_MEM_USER_SUPPLIED_DEVVADDR = 0"
    and al: "1 < al" "unat al mod 4096 = 0" and top: "unat (BaseDevVAddr (psDevArena h)) + unat (da_ui32Size (psDevArena h)) \<le> 0xFFC00000"
  shows "\<exists>r va' h' B s'. MMU_Alloc h n fl al va s = Some (r, va', h', s') \<and> heap_alloced k SH U F n al h A s r va' h' B s'"
proof -
  let ?A = "A\<lparr>ra_os := mmu_os s\<rparr>" and ?b = "heap_psMMUContext h"
  have va: "psVMArena h = Some A" and sh: "heap_shape k SH h" and ai: "arena_in h ?A"
    and ra: "ra_ok (mmu_blocks s + add_mset (pMMUHeap h) F) ?A"
    using ok by (simp_all add: heap_ok_def)
  have l: "live_blocks ?A = live_blocks A" "free_space (segments ?A) = free_space (segments A)"
    by (simp_all add: live_blocks_def)
  obtain r1 ac m base B where rc: "RA_Alloc n 0 al 0 ?A = (r1, ac, m, base, B)"
    by (metis prod_cases5)
  have "pImportAlloc ?A = RequestAllocFail"
    using ai by (simp add: arena_in_def ra_config_def)
  note B = RA_Alloc_local [OF ra n this rc]
  have fsA: "free_space (segments A) \<subseteq> heap_pages h"
    using ai by (simp add: arena_in_def)
  let ?h1 = "h\<lparr>psVMArena := Some B\<rparr>" and ?s1 = "s\<lparr>mmu_os := ra_os B\<rparr>"
  have w1: "walk a w ?s1 = walk a w s" "ctx_at a ?s1 = ctx_at a s" for a w
    by (simp_all add: walk_def dir_pa_def ctx_at_def cong: if_cong)
  show ?thesis
  proof (cases r1)
    case False
    then have "live_blocks B = live_blocks A" "arena_in h B"
      using B l fsA by (auto intro!: arena_in_sub [OF ai])
    then have "heap_alloced k SH U F n al h A s False va ?h1 B ?s1"
      using heap_arena_step [OF ok _ \<open>arena_in h B\<close>] B w1 by (simp add: heap_alloced_def)
    moreover have "MMU_Alloc h n fl al va s = Some (False, va, ?h1, ?s1)"
      using rc False fl va by (simp add: MMU_Alloc_def Let_def)
    ultimately show ?thesis
      by blast
  next
    case True
    let ?va = "ucast base :: IMG_UINT32"
    have a: "live_blocks B = add_mset (base, n) (live_blocks A)" "{unat base ..< unat base + unat n} \<subseteq> free_space (segments A)"
        "free_space (segments B) \<subseteq> free_space (segments A)" "unat base mod unat al = 0"
      using B True l al(1) by (auto simp: allocated_def)
    have ih: "{unat base ..< unat base + unat n} \<subseteq> heap_pages h"
      using a(2) fsA by blast
    note lh = live_in_heap [OF sh ih n]
    have "base = ucast ?va"
      using lh(3) by (simp add: word_unat_eq_iff unat_ucast_widen)
    have aB: "arena_in h B"
      using ai B a(1,3) ih fsA unfolding arena_in_def l by auto
    have ok1: "heap_ok k SH U F ?h1 B ?s1"
      using heap_arena_step [OF ok _ aB] B by simp
    have i1: "mmu_inv k SH U (arena_blocks B + add_mset (pMMUHeap h) F) ?s1" and c1: "ctx_at ?b ?s1 \<noteq> None" and g: "heap_geometry h"
      using ok1 sh by (simp_all add: heap_ok_def heap_shape_def)
    have "\<forall>i. unat ?va div 4194304 \<le> i \<and> i < (unat ?va + unat n + 0x3FFFFF) div 4194304 \<longrightarrow> heap_of k SH ?h1 i"
      using block_slots [OF sh ih] n sh unfolding lh(3) by (auto simp: heap_shape_def unat_gt_0)
    moreover have "unat ?va mod 4096 = 0"
      unfolding lh(3) using a(4) al(2) by (meson mod_eq_0_iff_dvd dvd_trans)
    moreover have "unat ?va + unat n \<le> 0xFFC00000" "0 < unat n"
      using lh(2) top n unfolding lh(3) by (simp_all add: unat_gt_0)
    ultimately obtain r2 s2 where t: "DeferredAllocPagetables ?h1 ?va n ?s1 = Some (r2, s2)"
        "mmu_inv k SH U (arena_blocks B + add_mset (pMMUHeap h) F) s2"
        "map psMMUContext (pvMMUContextList s2) = map psMMUContext (pvMMUContextList ?s1)"
        "r2 \<longrightarrow> has_tables ?b (vpn ?va) (pages_of n) s2"
        "\<forall>a w. ctx_at a ?s1 \<noteq> None \<longrightarrow> vpn w div 1024 \<notin> U a \<longrightarrow> walk a w s2 = walk a w ?s1"
      using alloc_tables_walk [of k SH U "arena_blocks B + add_mset (pMMUHeap h) F" ?s1 ?h1 ?va n] i1 c1 g by auto
    have ok2: "heap_ok k SH U F ?h1 B s2"
      using heap_table_step(1) [OF ok1 _ t(3)] t(2) by simp
    show ?thesis
    proof (cases r2)
      case True
      have "heap_alloced k SH U F n al h A s True ?va ?h1 B s2"
        using ok2 a t(4,5) True w1 lh(3) \<open>base = ucast ?va\<close> by (auto simp: heap_alloced_def)
      moreover have "MMU_Alloc h n fl al va s = Some (True, ?va, ?h1, s2)"
        using rc \<open>r1\<close> True fl va t(1) by (simp add: MMU_Alloc_def Let_def)
      ultimately show ?thesis
        by blast
    next
      case False
      have "(base, n) \<in># live_blocks B"
        using a(1) by simp
      note fr = arena_free_step [OF ok2 this, of False]
      let ?C = "RA_Free base False (B\<lparr>ra_os := mmu_os s2, ra_world := []\<rparr>)"
      let ?h3 = "h\<lparr>psVMArena := Some ?C\<rparr>" and ?s3 = "s2\<lparr>mmu_os := ra_os ?C\<rparr>"
      have w3: "walk a w ?s3 = walk a w s2" for a w
        by (simp add: walk_def dir_pa_def ctx_at_def cong: if_cong)
      have "heap_alloced k SH U F n al h A s False ?va ?h3 ?C ?s3"
        using fr a(1) t(5) w1 w3 by (simp add: heap_alloced_def)
      moreover have "MMU_Alloc h n fl al va s = Some (False, ?va, ?h3, ?s3)"
        using rc \<open>r1\<close> False fl va t(1) fr \<open>base = ucast ?va\<close> by (simp add: MMU_Alloc_def heap_ra_free_def Let_def)
      ultimately show ?thesis
        by blast
    qed
  qed
qed

lemma tab_pa_os: "pt_slot b i (s\<lparr>mmu_os := z\<rparr>) = pt_slot b i s" "tab_pa b i (s\<lparr>mmu_os := z\<rparr>) = tab_pa b i s"
proof -
  have "role_pa (b, Some i) (s\<lparr>mmu_os := z\<rparr>) = role_pa (b, Some i) s"
    by (rule role_pa_cong) simp_all
  then show "tab_pa b i (s\<lparr>mmu_os := z\<rparr>) = tab_pa b i s"
    by simp
qed (rule pt_slot_cong; simp)

text \<open>Freeing: the addresses go back and the tables of the range are cleared and given back.\<close>

lemma free_effect:
  assumes ok: "heap_ok k SH U F h A s" and m: "(ucast va, n) \<in># live_blocks A" "n \<noteq> 0"
    and al: "unat va mod 4096 = 0" "unat n mod 4096 = 0" and wh: "slots_whole (heap_psMMUContext h) (vpn va) (unat n div 4096) s"
  shows "\<exists>h' B s'. MMU_Free h va n s = Some (h', s') \<and> heap_ok k SH U F h' B s' \<and> live_blocks B = live_blocks A - {#(ucast va, n)#} \<and>
    (\<forall>q. vpn va \<le> q \<and> q < vpn va + unat n div 4096 \<longrightarrow> tidy (heap_psMMUContext h) (q div 1024) s') \<and>
    (\<forall>a w. ctx_at a s \<noteq> None \<longrightarrow> vpn w div 1024 \<notin> U a \<longrightarrow>
       walk a w s' = (if owner k SH a (vpn w div 1024) = heap_psMMUContext h \<and> in_range va (unat n div 4096) w then None else walk a w s))"
proof -
  let ?base = "ucast va :: IMG_UINTPTR_T" and ?b = "heap_psMMUContext h"
  have ub: "unat ?base = unat va"
    by (rule unat_ucast_widen)
  have sh: "heap_shape k SH h" and ai: "arena_in h A" and vm: "psVMArena h = Some A"
    using ok by (simp_all add: heap_ok_def)
  have ih: "{unat ?base ..< unat ?base + unat n} \<subseteq> heap_pages h"
    using ai m(1) by (auto simp: arena_in_def)
  note lh = live_in_heap [OF sh ih m(2)]
  have uu: "ucast ?base = va"
    using lh(3) unfolding ub by (simp only: word_unat_eq_iff)
  have lim: "unat va + unat n < 4294967296"
    using lh(2) sh unfolding ub by (simp add: heap_shape_def)
  let ?C = "RA_Free ?base True (A\<lparr>ra_os := mmu_os s, ra_world := []\<rparr>)"
  let ?h1 = "h\<lparr>psVMArena := Some ?C\<rparr>" and ?s1 = "s\<lparr>mmu_os := ra_os ?C\<rparr>"
  have fr: "heap_ok k SH U F ?h1 ?C ?s1" "live_blocks ?C = live_blocks A - {#(?base, n)#}"
      "ra_world ?C = [(va, ucast (?base + ucast n))]"
    using arena_free_step [OF ok m(1), of True] al uu unfolding ub by simp_all
  have e: "ucast (?base + ucast n) = va + n"
  proof -
    have "unat (ucast n :: 64 word) = unat n"
      by (rule unat_ucast_widen)
    then have "unat (?base + ucast n) = unat va + unat n"
      using ub lim by (simp add: unat_word_ariths)
    then have "unat (ucast (?base + ucast n) :: 32 word) = unat (va + n)"
      using lim by (simp add: unsigned_ucast_eq take_bit_nat_eq_self unat_word_ariths)
    then show ?thesis
      by (simp only: word_unat_eq_iff)
  qed
  have pg: "unat (drop_bit 12 n) = unat n div 4096"
    by (simp only: drop_bit_eq_div) (simp add: unat_div)
  have i1: "mmu_inv k SH U (arena_blocks ?C + add_mset (pMMUHeap h) F) ?s1" and g: "heap_geometry h"
    using fr(1) sh by (simp_all add: heap_ok_def heap_shape_def)
  have w1: "walk a w ?s1 = walk a w s" "ctx_at a ?s1 = ctx_at a s" for a w
    by (simp_all add: walk_def dir_pa_def ctx_at_def cong: if_cong)
  have "slots_whole ?b (vpn va) (unat n div 4096) ?s1"
    using wh by (simp add: slots_whole_def tab_pa_os)
  moreover have "vpn va + unat n div 4096 \<le> 1048576"
    using vpn_range [OF al] lim by simp
  moreover have "serves k SH ?h1 (vpn va) (unat n div 4096)"
  proof -
    have "q div 1024 \<in> heap_slots h" if q: "vpn va \<le> q" "q < vpn va + unat n div 4096" for q
    proof -
      have "unat n = 4096 * (unat n div 4096)"
        using al(2) by (simp add: mod_eq_0_iff_dvd)
      then have "4096 * q \<in> {unat ?base ..< unat ?base + unat n}"
        using q vpn_range(2) [OF al] unfolding ub atLeastLessThan_iff by linarith
      then have "(4096 * q) div 4194304 \<in> heap_slots h"
        using ih sh unfolding heap_shape_def by blast
      moreover have "(4096 * q) div 4194304 = q div 1024"
        using div_mult_mult1 [of 4096 q 1024] by simp
      ultimately show ?thesis
        by simp
    qed
    moreover have "unat (PDIndex h (BaseDevVAddr (psDevArena h))) \<le> vpn va div 1024"
      using lh(1) unfolding heap_indexes(1) [OF g] ub vpn_def by (intro div_le_mono)
    ultimately have "serves k SH h (vpn va) (unat n div 4096)"
      using sh by (auto simp: serves_def heap_shape_def)
    then show ?thesis
      by simp
  qed
  ultimately obtain t s2 where f: "MMU_UnmapPagesAndFreePTs ?h1 va (drop_bit 12 n) ?s1 = Some (?h1\<lparr>ui32PTETotalUsable := t\<rparr>, s2)"
      "mmu_inv k SH U (arena_blocks ?C + add_mset (pMMUHeap h) F) s2"
      "map psMMUContext (pvMMUContextList s2) = map psMMUContext (pvMMUContextList ?s1)"
      "\<forall>q. vpn va \<le> q \<and> q < vpn va + unat n div 4096 \<longrightarrow> tidy ?b (q div 1024) s2"
      "\<forall>a w. ctx_at a ?s1 \<noteq> None \<longrightarrow> vpn w div 1024 \<notin> U a \<longrightarrow> walk a w s2 =
        (if owner k SH a (vpn w div 1024) = ?b \<and> in_range va (unat n div 4096) w then None else walk a w ?s1)"
    using unmap_free_walk [OF i1, of ?h1 va "drop_bit 12 n"] g unfolding pg by auto
  have "ui32PTShift h = 12"
    using g by (simp add: heap_geometry_def)
  then have "MMU_FreePageTables ?h1 va (va + n) ?s1 = Some (?h1\<lparr>ui32PTETotalUsable := t\<rparr>, s2)"
    using f(1) by (simp add: MMU_FreePageTables_def)
  moreover have "BaseDevVAddr (psDevArena h) \<le> va" "va + n \<le> BaseDevVAddr (psDevArena h) + da_ui32Size (psDevArena h)"
    using lh(1,2) lim sh unfolding ub heap_shape_def by (simp_all add: word_le_nat_alt unat_word_ariths)
  ultimately have "MMU_Free h va n s = Some (?h1\<lparr>ui32PTETotalUsable := t\<rparr>, s2)"
    using vm fr(3) unfolding e by (simp add: MMU_Free_def heap_ra_free_def Let_def)
  moreover have "heap_ok k SH U F (?h1\<lparr>ui32PTETotalUsable := t\<rparr>) ?C s2"
    using heap_table_step(2) [OF fr(1) _ f(3)] f(2) by simp
  ultimately show ?thesis
    using fr(2) f(4,5) unfolding w1 by blast
qed

end
