(* ===== verification/Mmu_Examples.thy ===== *)
theory Mmu_Examples
  imports Mmu_Heaps
begin

text \<open>
  Concrete states of the page tables, the inputs of the witnesses: a kernel with a few blocks and pages to give, a context made by \<open>MMU_Initialise\<close>,
  a heap with tables for two of its pages, and a heap made by \<open>MMU_Create\<close> with two pages allocated from its arena.
\<close>

section \<open>Concrete states\<close>

text \<open>A kernel with four blocks and four pages to give; page \<open>n\<close> of the kernel's addresses is at the physical address below it.\<close>

definition ex_mmu :: MMU_STATE where
  "ex_mmu =
     \<lparr>pvMMUContextList = [], ui32CacheControl = 0, mmu_mem = (\<lambda>_. None), cpu_map = (\<lambda>va. va - 0x80000000),
      area_va = (\<lambda>h. h + 0x80000000), area_pa = (\<lambda>h o'. h + ucast o'),
      page_allocs = [(0x80001000, 0x1000, (\<lambda>_. 7)), (0x80002000, 0x2000, (\<lambda>_. 7)), (0x80003000, 0x3000, (\<lambda>_. 7)), (0x80004000, 0x4000, (\<lambda>_. 7))],
      io_maps = [], psLocalDevMemArena = None, mmu_os = \<lparr>os_allocs = [0x100, 0x200, 0x300, 0x400, 0x500, 0x600, 0x700, 0x800, 0x900, 0xA00], os_live = []\<rparr>\<rparr>"

definition ex_heap :: "IMG_UINT32 \<Rightarrow> MMU_HEAP" where
  "ex_heap ty =
     \<lparr>pMMUHeap = 0x10, heap_psMMUContext = 0x100, ui32PDBaseIndex = 1, ui32PageTableCount = 2, ui32PTETotalUsable = 0x800,
      ui32PDEPageSizeCtrl = 0, ui32DataPageSize = 0x1000, ui32DataPageBitWidth = 12, ui32DataPageMask = 0xFFF,
      ui32PTShift = 12, ui32PTBitWidth = 10, ui32PTMask = 0x3FF000, ui32PTSize = 0x1000, ui32PTNumEntriesAllocated = 1024,
      ui32PTNumEntriesUsable = 1024, ui32PDShift = 22, ui32PDBitWidth = 10, ui32PDMask = 0xFFC00000, psVMArena = None,
      psDevArena = \<lparr>BaseDevVAddr = 0x400000, da_ui32Size = 0x800000, DevMemHeapType = ty, da_ui32DataPageSize = 0x1000\<rparr>\<rparr>"

lemma ex_heap_geometry: "heap_geometry (ex_heap ty)"
  by (simp add: heap_geometry_def ex_heap_def drop_bit_eq_div)

lemma ex_mmu_inv: "mmu_inv k SH U {#} ex_mmu"
proof -
  have "ctx_at a ex_mmu = None" for a
    by (simp add: ctx_at_def ex_mmu_def)
  then have n: "pt_slot a i ex_mmu = None" "dir_pa a ex_mmu = None" "tab_pa a i ex_mmu = None" "ctx_at a ex_mmu = None" for a i
    by (simp_all add: pt_slot_def dir_pa_def tab_pa_def)
  have "role_pa r ex_mmu = None" for r
    using n by (simp add: role_pa_def split: prod.splits option.splits)
  then show ?thesis
    using n by (simp add: mmu_inv_def ctxs_ok_def slots_ok_def mem_ok_def dirs_ok_def shared_ok_def env_ok_def mmu_blocks_def os_ok_def blocks_def)
      (simp add: ex_mmu_def)
qed

text \<open>With one context, and with a table for the pages from \<open>0x400000\<close>.\<close>

definition ex_mmu1 :: MMU_STATE where
  "ex_mmu1 = snd (snd (snd (the (MMU_Initialise ex_mmu))))"

lemma ex_mmu1: "MMU_Initialise ex_mmu = Some (PVRSRV_OK, 0x100, 0x1000, ex_mmu1)"
  by (simp add: ex_mmu1_def MMU_Initialise_def OSAllocMem_def kmalloc_def OSAllocPages_def PAGE_SIZE_def sizeof_MMU_CONTEXT_def
      zero_page_def page_at_def set_page_def SGX_MMU_PD_SIZE_def SysCpuPAddrToDevPAddr_def OSMapLinToCPUPhys_def ex_mmu_def Let_def)

lemma ex_mmu1_inv:
  assumes "k \<noteq> 0x100 \<longrightarrow> SH = {}"
  shows "mmu_inv k SH (\<lambda>_. {}) {#} ex_mmu1"
proof (rule initialise_cases [OF ex_mmu_inv, of k SH "\<lambda>_. {}"])
  fix a va hm z r os1
  assume i: "MMU_Initialise ex_mmu = Some (PVRSRV_OK, a, cpu_map ex_mmu va, with_ctx (new_ctx a va (cpu_map ex_mmu va) hm) z r os1 ex_mmu)"
    and inv: "mmu_inv k SH ((\<lambda>_. {})(a := if a = k then {} else SH)) {#} (with_ctx (new_ctx a va (cpu_map ex_mmu va) hm) z r os1 ex_mmu)"
  have e: "ex_mmu1 = with_ctx (new_ctx a va (cpu_map ex_mmu va) hm) z r os1 ex_mmu" and "a = 0x100"
    using trans [OF ex_mmu1 [symmetric] i] by (simp_all only: option.inject prod.inject)
  then have "(\<lambda>_ :: IMG_UINTPTR_T. {})(a := if a = k then {} else SH) = (\<lambda>_. {})"
    using assms by auto
  then show ?thesis
    unfolding e using inv by simp
qed (use ex_mmu1 in auto)

lemma ex_mmu1_eq:
  "ex_mmu1 =
     ex_mmu\<lparr>pvMMUContextList := [\<lparr>psMMUContext = 0x100, pvPDCpuVAddr = 0x80001000, sPDDevPAddr = 0x1000, hPDOSMemHandle = 0x1000,
         apsPTInfoList = (\<lambda>_. None)\<rparr>],
       mmu_mem := [0x1000 \<mapsto> (\<lambda>i. if i < 1024 then 0 else 7)],
       page_allocs := tl (page_allocs ex_mmu),
       mmu_os := \<lparr>os_allocs = [0x200, 0x300, 0x400, 0x500, 0x600, 0x700, 0x800, 0x900, 0xA00], os_live = [0x100]\<rparr>\<rparr>"
  by (simp add: ex_mmu1_def MMU_Initialise_def OSAllocMem_def kmalloc_def OSAllocPages_def PAGE_SIZE_def sizeof_MMU_CONTEXT_def
      zero_page_def page_at_def set_page_def SGX_MMU_PD_SIZE_def SysCpuPAddrToDevPAddr_def OSMapLinToCPUPhys_def ex_mmu_def Let_def)

definition ex_mmu2 :: MMU_STATE where
  "ex_mmu2 = snd (the (DeferredAllocPagetables (ex_heap DEVICE_MEMORY_HEAP_KERNEL) 0x400000 0x2000 ex_mmu1))"

lemma ex_mmu2: "DeferredAllocPagetables (ex_heap DEVICE_MEMORY_HEAP_KERNEL) 0x400000 0x2000 ex_mmu1 = Some (True, ex_mmu2)"
  by (simp add: ex_mmu2_def DeferredAllocPagetables_def table_count_def PDIndex_def ex_heap_def UINT32_MAX_VALUE_def
      pt_info_for_def pt_slot_def ctx_at_def set_slot_def AllocPageTableMemory_def OSAllocMem_def kmalloc_def OSAllocPages_def PAGE_SIZE_def sizeof_MMU_PT_INFO_def
      zero_page_def page_at_def set_page_def SGX_MAX_PD_ENTRIES_def SysCpuPAddrToDevPAddr_def OSMapLinToCPUPhys_def ex_mmu1_eq ex_mmu_def Let_def
      pd_targets_def heap_type_defs write_pde_def write_page_def SGX_MMU_PDE_VALID_def drop_bit_eq_div upt_rec)

text \<open>What holds there: the two pages have a table and are not mapped.\<close>

lemma ex_mmu1_ctx: "ctx_at 0x100 ex_mmu1 \<noteq> None"
  by (simp add: ctx_at_def ex_mmu1_eq)

lemma ex_mmu1_walk: "walk 0x100 w ex_mmu1 = None"
proof -
  have "unat (drop_bit 22 w) < 1024"
    using vpn_less [of w] unat_pd [of w] by (simp add: vpn_def del: drop_bit_eq_div)
  then show ?thesis
    by (simp add: walk_def dir_pa_def ctx_at_def ex_mmu1_eq del: drop_bit_eq_div)
qed

abbreviation ex_h :: MMU_HEAP where "ex_h \<equiv> ex_heap DEVICE_MEMORY_HEAP_KERNEL"

lemma ex_h_fields: "heap_psMMUContext ex_h = 0x100" "heap_of 0x100 {} ex_h i"
  by (simp_all add: ex_heap_def heap_of_def MMU_IsHeapShared_def heap_type_defs)

lemma ex_vpn: "vpn 0x400000 = 1024" "vpn 0x401000 = 1025" "pages_of 0x2000 = 2"
  by (simp_all add: vpn_def pages_of_def)

lemma ex_owner [simp]: "owner k {} a i = a"
  by (simp add: owner_def)

lemma ex_mmu2_ok:
  "mmu_inv 0x100 {} (\<lambda>_. {}) {#} ex_mmu2" "ctx_at 0x100 ex_mmu2 \<noteq> None"
  "has_tables 0x100 1024 2 ex_mmu2" "walk 0x100 w ex_mmu2 = None"
proof -
  have "mmu_inv 0x100 {} (\<lambda>_. {}) {#} ex_mmu1"
    by (rule ex_mmu1_inv) simp
  then obtain s' where s': "DeferredAllocPagetables ex_h 0x400000 0x2000 ex_mmu1 = Some (True, s')"
      "mmu_inv 0x100 {} (\<lambda>_. {}) {#} s'" "map psMMUContext (pvMMUContextList s') = map psMMUContext (pvMMUContextList ex_mmu1)"
      "has_tables 0x100 1024 2 s'" "\<forall>w. walk 0x100 w s' = walk 0x100 w ex_mmu1"
    using alloc_tables_walk [of "0x100" "{}" "\<lambda>_. {}" "{#}" ex_mmu1 ex_h "0x400000" "0x2000"]
      ex_heap_geometry ex_mmu1_ctx ex_h_fields ex_vpn ex_mmu2 by auto
  have "s' = ex_mmu2"
    using s'(1) ex_mmu2 by simp
  then show "mmu_inv 0x100 {} (\<lambda>_. {}) {#} ex_mmu2" "ctx_at 0x100 ex_mmu2 \<noteq> None"
      "has_tables 0x100 1024 2 ex_mmu2" "walk 0x100 w ex_mmu2 = None"
    using s'(2-5) ex_mmu1_ctx ex_mmu1_walk unfolding ctx_at_iff by simp_all
qed

lemma ex_mmu2_unmapped: "unmapped 0x100 1024 2 ex_mmu2"
proof -
  have "pte 0x100 q ex_mmu2 = 0" if "q = 1024 \<or> q = 1025" for q
    using that walk_pte [OF ex_mmu2_ok(1,2), of "0x400000"] walk_pte [OF ex_mmu2_ok(1,2), of "0x401000"] ex_mmu2_ok(4) ex_vpn
    by (auto simp: Let_def split: if_splits)
  moreover have "q = 1024 \<or> q = 1025" if "1024 \<le> q" "q < 1024 + 2" for q :: nat
    using that by linarith
  ultimately show ?thesis
    unfolding unmapped_def by blast
qed

lemma has_tables_whole: "has_tables b n m s \<Longrightarrow> slots_whole b n m s"
  by (simp add: has_tables_def slots_whole_def)

text \<open>A heap of its own with its arena.\<close>

definition ex_dev :: DEV_ARENA_DESCRIPTOR where
  "ex_dev = \<lparr>BaseDevVAddr = 0x400000, da_ui32Size = 0x800000, DevMemHeapType = DEVICE_MEMORY_HEAP_KERNEL, da_ui32DataPageSize = 0x1000\<rparr>"

definition ex_heap3 :: MMU_HEAP where "ex_heap3 = the (fst (the (MMU_Create 0x100 ex_dev ex_mmu1)))"
definition ex_mmu3 :: MMU_STATE where "ex_mmu3 = snd (the (MMU_Create 0x100 ex_dev ex_mmu1))"
definition ex_arena3 :: vm_arena where "ex_arena3 = the (psVMArena ex_heap3)"

lemma ex_alloc3:
  "case MMU_Create 0x100 ex_dev ex_mmu1 of Some (Some h, s) \<Rightarrow> (case psVMArena h of Some A \<Rightarrow>
    (case RA_Alloc 0x2000 0 0x1000 0 (A\<lparr>ra_os := mmu_os s\<rparr>) of (ok, _, _, b, B) \<Rightarrow>
      ok \<and> b = 0x400000 \<and> os_allocs (ra_os B) = [0x900, 0xA00] \<and> 0x900 \<notin> set (os_live (ra_os B))) | _ \<Rightarrow> False) | _ \<Rightarrow> False"
  unfolding ex_mmu1_eq ex_mmu_def ex_dev_def by code_simp

lemma ex_tables:
  assumes "heap_geometry h" "heap_psMMUContext h = 0x100" "DevMemHeapType (psDevArena h) = DEVICE_MEMORY_HEAP_KERNEL"
    "os_allocs os1 = a # r" "a \<noteq> 0" "a \<notin> set (os_live os1)"
  shows "\<exists>s'. DeferredAllocPagetables h 0x400000 0x2000 (ex_mmu1\<lparr>mmu_os := os1\<rparr>) = Some (True, s')"
  using assms
  by (simp add: DeferredAllocPagetables_def heap_geometry_def table_count_def PDIndex_def UINT32_MAX_VALUE_def
      pt_info_for_def pt_slot_def ctx_at_def set_slot_def AllocPageTableMemory_def OSAllocMem_def kmalloc_def OSAllocPages_def PAGE_SIZE_def sizeof_MMU_PT_INFO_def
      zero_page_def page_at_def set_page_def SGX_MAX_PD_ENTRIES_def SysCpuPAddrToDevPAddr_def OSMapLinToCPUPhys_def ex_mmu1_eq ex_mmu_def Let_def
      pd_targets_def heap_type_defs write_pde_def write_page_def SGX_MMU_PDE_VALID_def drop_bit_eq_div upt_rec)

lemma ex_create3: "MMU_Create 0x100 ex_dev ex_mmu1 = Some (Some ex_heap3, ex_mmu3)"
  using ex_alloc3 by (auto simp: ex_heap3_def ex_mmu3_def split: option.splits)

lemma create_fields:
  assumes "MMU_Create a d s = Some (Some h, s')"
  shows "psDevArena h = d" "heap_psMMUContext h = a"
proof -
  have "psDevArena h = d \<and> heap_psMMUContext h = a"
    using assms by (rule heap_create_cases) simp
  then show "psDevArena h = d" "heap_psMMUContext h = a"
    by blast+
qed

lemma ex_mmu3_ok:
  "heap_ok 0x100 {} (\<lambda>_. {}) {#} ex_heap3 ex_arena3 ex_mmu3" "live_blocks ex_arena3 = {#}" "psDevArena ex_heap3 = ex_dev"
  "heap_psMMUContext ex_heap3 = 0x100" "ex_mmu3 = ex_mmu1\<lparr>mmu_os := mmu_os ex_mmu3\<rparr>" "psVMArena ex_heap3 = Some ex_arena3"
proof -
  have i: "mmu_inv 0x100 {} (\<lambda>_. {}) {#} ex_mmu1"
    by (rule ex_mmu1_inv) simp
  have f: "psDevArena ex_heap3 = ex_dev" "heap_psMMUContext ex_heap3 = 0x100"
    using create_fields [OF ex_create3] by simp_all
  then have h: "\<forall>i \<in> heap_slots ex_heap3. heap_of 0x100 {} ex_heap3 i"
    by (simp add: heap_of_def MMU_IsHeapShared_def ex_dev_def heap_type_defs)
  have d: "unat (da_ui32Size ex_dev) mod 4096 = 0" "unat (BaseDevVAddr ex_dev) mod 4194304 = 0"
      "unat (BaseDevVAddr ex_dev) + unat (da_ui32Size ex_dev) < 4294967296"
    by (simp_all add: ex_dev_def)
  obtain A where A: "heap_ok 0x100 {} (\<lambda>_. {}) {#} ex_heap3 A ex_mmu3" "live_blocks A = {#}"
      "ex_mmu3 = ex_mmu1\<lparr>mmu_os := mmu_os ex_mmu3\<rparr>"
    using create_effect [OF i ex_mmu1_ctx ex_create3 d h] by blast
  have v: "psVMArena ex_heap3 = Some A"
    using A(1) by (simp add: heap_ok_def)
  then have "A = ex_arena3"
    by (simp add: ex_arena3_def)
  then show "heap_ok 0x100 {} (\<lambda>_. {}) {#} ex_heap3 ex_arena3 ex_mmu3" "live_blocks ex_arena3 = {#}" "psVMArena ex_heap3 = Some ex_arena3"
    using A(1,2) v by blast+
  show "psDevArena ex_heap3 = ex_dev" "heap_psMMUContext ex_heap3 = 0x100" "ex_mmu3 = ex_mmu1\<lparr>mmu_os := mmu_os ex_mmu3\<rparr>"
    by (rule f A(3))+
qed

text \<open>Two pages allocated from it.\<close>

lemma ex_alloc4: "\<exists>h4 s4. MMU_Alloc ex_heap3 0x2000 3 0x1000 0 ex_mmu3 = Some (True, 0x400000, h4, s4)"
proof -
  obtain ac m b B where r: "RA_Alloc 0x2000 0 0x1000 0 (ex_arena3\<lparr>ra_os := mmu_os ex_mmu3\<rparr>) = (True, ac, m, b, B)" "b = 0x400000"
      "os_allocs (ra_os B) = [0x900, 0xA00]" "0x900 \<notin> set (os_live (ra_os B))"
    using ex_alloc3 ex_create3 ex_mmu3_ok(6) by (auto split: prod.splits)
  have "heap_geometry ex_heap3"
    using ex_mmu3_ok(1) by (simp add: heap_ok_def heap_shape_def)
  moreover have "DevMemHeapType (psDevArena ex_heap3) = DEVICE_MEMORY_HEAP_KERNEL"
    by (simp add: ex_mmu3_ok(3)) (simp add: ex_dev_def)
  ultimately obtain s4 where
    d: "DeferredAllocPagetables (ex_heap3\<lparr>psVMArena := Some B\<rparr>) 0x400000 0x2000 (ex_mmu1\<lparr>mmu_os := ra_os B\<rparr>) = Some (True, s4)"
    using ex_tables [of "ex_heap3\<lparr>psVMArena := Some B\<rparr>" "ra_os B"] r(3,4) ex_mmu3_ok(4) by auto
  have "ex_mmu1\<lparr>mmu_os := ra_os B\<rparr> = ex_mmu3\<lparr>mmu_os := ra_os B\<rparr>"
    by (subst ex_mmu3_ok(5)) simp
  then show ?thesis
    using r d ex_mmu3_ok(6) by (simp add: MMU_Alloc_def PVRSRV_MEM_USER_SUPPLIED_DEVVADDR_def Let_def)
qed

text \<open>The two pages of the first heap mapped, for reading and writing.\<close>

definition ex_mmu5 :: MMU_STATE where
  "ex_mmu5 = the (MMU_MapPages ex_h 0x400000 0x5000 0x2000 3 ex_mmu2)"

lemma ex_mmu5:
  "MMU_MapPages ex_h 0x400000 0x5000 0x2000 3 ex_mmu2 = Some ex_mmu5" "mmu_inv 0x100 {} (\<lambda>_. {}) {#} ex_mmu5"
  "ctx_at 0x100 ex_mmu5 \<noteq> None" "has_tables 0x100 1024 2 ex_mmu5" "walk 0x100 0x401000 ex_mmu5 = Some 0x6001"
proof -
  have e: "map_entry (0x5000 + ucast (p_advance ex_h 3)) 3 = 0x6001"
    by (simp add: p_advance_def ex_heap_def PVRSRV_MEM_DUMMY_def map_entry_def SGX_MMU_PTE_VALID_def pte_flags_def
        PVRSRV_MEM_READ_def PVRSRV_MEM_WRITE_def PVRSRV_MEM_CACHE_CONSISTENT_def PVRSRV_MEM_EDM_PROTECT_def Let_def)
  have "unat (0x2000 :: IMG_UINT32) \<le> 0xFFFFF000" "vpn 0x400000 + pages_of 0x2000 \<le> 1048576"
    "has_tables (heap_psMMUContext ex_h) (vpn 0x400000) (pages_of 0x2000) ex_mmu2"
    "unmapped (heap_psMMUContext ex_h) (vpn 0x400000) (pages_of 0x2000) ex_mmu2"
    using ex_mmu2_ok(3) ex_mmu2_unmapped by (simp_all add: ex_vpn ex_h_fields)
  from map_pages_walk [OF ex_mmu2_ok(1) ex_heap_geometry this, of "0x5000" 3]
  obtain s' where s': "MMU_MapPages ex_h 0x400000 0x5000 0x2000 3 ex_mmu2 = Some s'" "mmu_inv 0x100 {} (\<lambda>_. {}) {#} s'"
      "same_tables ex_mmu2 s'" "walk 0x100 0x401000 s' = Some 0x6001"
    using ex_mmu2_ok(2) e by (auto simp: ex_h_fields ex_vpn in_range_def)
  moreover have "s' = ex_mmu5"
    using s'(1) by (simp add: ex_mmu5_def)
  moreover have "ctx_at 0x100 s' \<noteq> None"
    using s'(3) ex_mmu2_ok(2) unfolding ctx_at_iff same_tables_def by simp
  ultimately show "MMU_MapPages ex_h 0x400000 0x5000 0x2000 3 ex_mmu2 = Some ex_mmu5" "mmu_inv 0x100 {} (\<lambda>_. {}) {#} ex_mmu5"
      "ctx_at 0x100 ex_mmu5 \<noteq> None" "has_tables 0x100 1024 2 ex_mmu5" "walk 0x100 0x401000 ex_mmu5 = Some 0x6001"
    using ex_mmu2_ok(3) by (simp_all add: has_tables_def same_tables_tab)
qed

lemma MMU_Alloc_ctx:
  assumes "MMU_Alloc h n fl al va s = Some (True, va', h', s')"
  shows "heap_psMMUContext h' = heap_psMMUContext h"
  using assms by (auto simp: MMU_Alloc_def Let_def split: bind_splits if_splits prod.splits)

lemma ex_mmu4:
  "\<exists>h4 A s4. MMU_Alloc ex_heap3 0x2000 3 0x1000 0 ex_mmu3 = Some (True, 0x400000, h4, s4) \<and> heap_ok 0x100 {} (\<lambda>_. {}) {#} h4 A s4 \<and>
     live_blocks A = {#(0x400000, 0x2000)#} \<and> has_tables 0x100 1024 2 s4 \<and> heap_psMMUContext h4 = 0x100"
proof -
  have "(3 :: IMG_UINT32) AND PVRSRV_MEM_USER_SUPPLIED_DEVVADDR = 0" "(1 :: IMG_UINT32) < 0x1000" "unat (0x1000 :: IMG_UINT32) mod 4096 = 0"
      "unat (BaseDevVAddr (psDevArena ex_heap3)) + unat (da_ui32Size (psDevArena ex_heap3)) \<le> 0xFFC00000"
    by (simp_all add: PVRSRV_MEM_USER_SUPPLIED_DEVVADDR_def ex_mmu3_ok(3)) (simp add: ex_dev_def)
  from alloc_effect [OF ex_mmu3_ok(1) _ this, of "0x2000" 0]
  obtain h4 A s4 where a: "MMU_Alloc ex_heap3 0x2000 3 0x1000 0 ex_mmu3 = Some (True, 0x400000, h4, s4)"
      "heap_alloced 0x100 {} (\<lambda>_. {}) {#} 0x2000 0x1000 ex_heap3 ex_arena3 ex_mmu3 True 0x400000 h4 A s4"
    using ex_alloc4 by auto
  moreover have "heap_psMMUContext h4 = 0x100"
    using MMU_Alloc_ctx [OF a(1)] ex_mmu3_ok(4) by simp
  ultimately show ?thesis
    by (auto simp: heap_alloced_def ex_mmu3_ok(2,4) ex_vpn)
qed

text \<open>A second context beside the first, and a heap that is shared.\<close>

abbreviation ex_shared :: MMU_HEAP where "ex_shared \<equiv> ex_heap DEVICE_MEMORY_HEAP_SHARED"

definition ex_mmu6 :: MMU_STATE where
  "ex_mmu6 = snd (snd (snd (the (MMU_Initialise ex_mmu1))))"

lemma ex_mmu6: "MMU_Initialise ex_mmu1 = Some (PVRSRV_OK, 0x200, 0x2000, ex_mmu6)"
  by (simp add: ex_mmu6_def MMU_Initialise_def OSAllocMem_def kmalloc_def OSAllocPages_def PAGE_SIZE_def sizeof_MMU_CONTEXT_def
      zero_page_def page_at_def set_page_def SGX_MMU_PD_SIZE_def SysCpuPAddrToDevPAddr_def OSMapLinToCPUPhys_def ex_mmu1_eq ex_mmu_def Let_def)

lemma ex_mmu6_inv:
  "mmu_inv 0x100 {1, 2} ((\<lambda>_. {})(0x200 := {1, 2})) {#} ex_mmu6" "ctx_at 0x200 ex_mmu6 \<noteq> None" "ctx_at 0x100 ex_mmu6 \<noteq> None"
proof -
  have i: "mmu_inv 0x100 {1, 2} (\<lambda>_. {}) {#} ex_mmu1"
    by (rule ex_mmu1_inv) simp
  have "mmu_inv 0x100 {1, 2} ((\<lambda>_. {})(0x200 := {1, 2})) {#} ex_mmu6 \<and> ctx_at 0x200 ex_mmu6 \<noteq> None \<and> ctx_at 0x100 ex_mmu6 \<noteq> None"
    using i
  proof (cases rule: initialise_cases)
    case (ok a va hm z r os1)
    let ?s = "with_ctx (new_ctx a va (cpu_map ex_mmu1 va) hm) z r os1 ex_mmu1"
    have e: "ex_mmu6 = ?s" and a: "a = 0x200"
      using trans [OF ex_mmu6 [symmetric] ok(1)] by (simp_all only: option.inject prod.inject)
    have "ctx_at 0x200 ?s \<noteq> None" "ctx_at 0x100 ?s \<noteq> None"
      using ex_mmu1_ctx by (simp_all add: a)
    then show ?thesis
      using ok(6) unfolding e a by simp
  qed (use ex_mmu6 in auto)
  then show "mmu_inv 0x100 {1, 2} ((\<lambda>_. {})(0x200 := {1, 2})) {#} ex_mmu6" "ctx_at 0x200 ex_mmu6 \<noteq> None" "ctx_at 0x100 ex_mmu6 \<noteq> None"
    by blast+
qed

lemma ex_shared_ok:
  "heap_psMMUContext ex_shared = 0x100" "MMU_IsHeapShared ex_shared" "heap_slots ex_shared = {1, 2}" "heap_shape 0x100 {1, 2} ex_shared"
proof -
  have f: "psDevArena ex_shared = \<lparr>BaseDevVAddr = 0x400000, da_ui32Size = 0x800000, DevMemHeapType = DEVICE_MEMORY_HEAP_SHARED,
      da_ui32DataPageSize = 0x1000\<rparr>" "heap_psMMUContext ex_shared = 0x100" "ui32PageTableCount ex_shared = 2"
    by (simp_all add: ex_heap_def)
  show sh: "MMU_IsHeapShared ex_shared" "heap_psMMUContext ex_shared = 0x100"
    by (simp_all add: MMU_IsHeapShared_def f)
  have sl: "heap_slots ex_shared = {1 ..< 1 + (2048 + 1023) div 1024}"
    by (simp add: heap_slots_def f pd_index_div [OF ex_heap_geometry])
  have q: "(2048 + 1023) div 1024 = (2 :: nat)"
    by simp
  show sl2: "heap_slots ex_shared = {1, 2}"
    unfolding sl q by (rule set_eqI) (simp only: atLeastLessThan_iff insert_iff empty_iff, arith)
  have hp: "heap_pages ex_shared = {4194304 * 1 ..< 4194304 * 1 + 4096 * 2048}"
    by (simp add: heap_pages_def f)
  have "4194304 * 1 + 4096 * 2048 < (4294967296 :: nat)"
    by simp
  note sc = slots_cover [OF this]
  have "(\<lambda>x. x div 4194304) ` heap_pages ex_shared \<subseteq> heap_slots ex_shared" "heap_slots ex_shared \<subseteq> {..<1024}"
    unfolding sl hp by (rule sc)+
  moreover have "\<forall>i \<in> {1, 2}. heap_of 0x100 {1, 2} ex_shared i"
    using sh by (simp add: heap_of_def)
  ultimately show "heap_shape 0x100 {1, 2} ex_shared"
    using ex_heap_geometry unfolding heap_shape_def sl2 by (simp add: f)
qed

end
