(* ===== verification/Mmu_Properties.thy ===== *)
theory Mmu_Properties
  imports Mmu_Examples
begin

text \<open>
  What the MMU code promises, in terms of \<open>walk\<close>, the translation the device makes: what mapping, unmapping, freeing, allocating and the
  life of contexts and heaps do to the translations of every context, and what they leave alone.
\<close>

section \<open>Properties\<close>

text \<open>C2: Mapping a range makes the device see it. When the range has its tables and is not mapped yet, and the memory lies below 4 GB (the
  entries hold 32 bits), \<open>MMU_MapPages\<close> ends, keeps the invariant of the page tables and of the memory behind them, and every context that
  shares the table (all contexts for a shared heap, the heap's own otherwise) finds a valid entry for page \<open>i\<close> of the range: it leads to page
  \<open>i\<close> of the memory (to the first page for the dummy flag), the device may read it unless only writing was asked for, may write it unless only
  reading was asked for, and the coherence and protection bits are the requested ones. Every other address of every context is translated as before.\<close>

theorem mmu_map_pages:
  assumes "mmu_inv k SH U F s" "heap_geometry h" "unat uBytes \<le> 0xFFFFF000" "vpn va + pages_of uBytes \<le> 1048576"
    and "has_tables (heap_psMMUContext h) (vpn va) (pages_of uBytes) s" "unmapped (heap_psMMUContext h) (vpn va) (pages_of uBytes) s"
    and "unat pa div 4096 + (if fl AND PVRSRV_MEM_DUMMY \<noteq> 0 then 1 else pages_of uBytes) \<le> 1048576"
  shows "\<exists>s'. MMU_MapPages h va pa uBytes fl s = Some s' \<and> mmu_inv k SH U F s' \<and> same_tables s s' \<and>
    (\<forall>a w. ctx_at a s \<noteq> None \<longrightarrow> vpn w div 1024 \<notin> U a \<longrightarrow>
       (if owner k SH a (vpn w div 1024) = heap_psMMUContext h \<and> in_range va (pages_of uBytes) w
        then \<exists>e. walk a w s' = Some e \<and>
          entry_page e = unat pa div 4096 + (if fl AND PVRSRV_MEM_DUMMY \<noteq> 0 then 0 else vpn w - vpn va) \<and>
          entry_reads e = (fl AND PVRSRV_MEM_READ \<noteq> 0 \<or> fl AND PVRSRV_MEM_WRITE = 0) \<and>
          entry_writes e = (fl AND PVRSRV_MEM_WRITE \<noteq> 0 \<or> fl AND PVRSRV_MEM_READ = 0) \<and>
          entry_coherent e = (fl AND PVRSRV_MEM_CACHE_CONSISTENT \<noteq> 0) \<and>
          entry_protected e = (fl AND PVRSRV_MEM_EDM_PROTECT \<noteq> 0)
        else walk a w s' = walk a w s))"
proof -
  have ps: "ui32DataPageSize h = 0x1000"
    using assms(2) by (simp add: heap_geometry_def)
  have "entry_page (map_entry (pa + of_nat (vpn w - vpn va) * ucast (p_advance h fl)) fl) =
      unat pa div 4096 + (if fl AND PVRSRV_MEM_DUMMY \<noteq> 0 then 0 else vpn w - vpn va)"
    if "in_range va (pages_of uBytes) w" for w
    using that by (intro map_pages_page [OF assms(7) _ ps]) (auto simp: in_range_def)
  moreover obtain s' where "MMU_MapPages h va pa uBytes fl s = Some s'" "mmu_inv k SH U F s'" "same_tables s s'"
    "\<forall>a w. ctx_at a s \<noteq> None \<longrightarrow> vpn w div 1024 \<notin> U a \<longrightarrow>
       walk a w s' =
         (if owner k SH a (vpn w div 1024) = heap_psMMUContext h \<and> in_range va (pages_of uBytes) w
          then Some (map_entry (pa + of_nat (vpn w - vpn va) * ucast (p_advance h fl)) fl) else walk a w s)"
    using map_pages_walk [OF assms(1-6), of pa fl] by blast
  ultimately show ?thesis
    by (intro exI [of _ s']) (simp add: map_entry_bits)
qed

theorem mmu_map_pages_witness:
  "\<exists>s' e. MMU_MapPages ex_h 0x400000 0x5000 0x2000 1 ex_mmu2 = Some s' \<and> mmu_inv 0x100 {} (\<lambda>_. {}) {#} s' \<and>
     walk 0x100 0x401000 s' = Some e \<and> entry_page e = 6 \<and> entry_reads e \<and> \<not> entry_writes e"
proof -
  have "unat (0x2000 :: IMG_UINT32) \<le> 0xFFFFF000" "vpn 0x400000 + pages_of 0x2000 \<le> 1048576"
    "has_tables (heap_psMMUContext ex_h) (vpn 0x400000) (pages_of 0x2000) ex_mmu2"
    "unmapped (heap_psMMUContext ex_h) (vpn 0x400000) (pages_of 0x2000) ex_mmu2"
    "unat (0x5000 :: IMG_UINTPTR_T) div 4096 + (if (1 :: IMG_UINT32) AND PVRSRV_MEM_DUMMY \<noteq> 0 then 1 else pages_of 0x2000) \<le> 1048576"
    using ex_mmu2_ok(3) ex_mmu2_unmapped by (simp_all add: ex_vpn ex_h_fields)
  note m = mmu_map_pages [OF ex_mmu2_ok(1) ex_heap_geometry this]
  have c: "ctx_at 0x100 ex_mmu2 \<noteq> None" and r: "in_range 0x400000 (pages_of 0x2000) 0x401000"
    using ex_mmu2_ok(2) by (simp_all add: in_range_def ex_vpn)
  have f: "(1 :: IMG_UINT32) AND PVRSRV_MEM_READ \<noteq> 0" "(1 :: IMG_UINT32) AND PVRSRV_MEM_WRITE = 0" "(1 :: IMG_UINT32) AND PVRSRV_MEM_DUMMY = 0"
    by (simp_all add: PVRSRV_MEM_READ_def PVRSRV_MEM_WRITE_def PVRSRV_MEM_DUMMY_def)
  from m show ?thesis
    apply (elim exE conjE)
    apply (drule spec [where x = "0x100"], drule spec [where x = "0x401000"])
    using c r f by (auto simp: ex_h_fields ex_vpn)
qed

text \<open>The mapping routines agree: mapping a range of memory is mapping the list of its pages (the same page again for the dummy flag), and the
  routine for memory known by a handle maps the addresses of the pages of the handle.\<close>

theorem mmu_map_routines:
  assumes "ui32DataPageSize h = 0x1000" "unat uBytes \<le> 0xFFFFF000"
  shows "MMU_MapPages h va pa uBytes fl s =
      MMU_MapScatter h va (map (\<lambda>k. pa + of_nat k * ucast (p_advance h fl)) [0..<pages_of uBytes]) uBytes fl s \<and>
    MMU_MapShadow h va uBytes cva hm fl s =
      map_option (\<lambda>s'. (va, s'))
        (MMU_MapScatter h va (map (\<lambda>k. shadow_pa cva hm (of_nat k * p_advance h fl) s) [0..<pages_of uBytes]) uBytes fl s)"
proof -
  have sc: "MMU_MapScatter h va as uBytes fl s = map_seq h va as fl s" if "length as = pages_of uBytes" for as
    using scatter_seq [OF assms, of 0 as va fl s] that by (simp add: MMU_MapScatter_def pages_of_def)
  have "MMU_MapPages h va pa uBytes fl s = map_seq h va (map (\<lambda>k. pa + of_nat k * ucast (p_advance h fl)) [0..<pages_of uBytes]) fl s"
    using map_loop_seq [OF assms, of va pa "p_advance h fl" 0 fl s]
    by (simp add: MMU_MapPages_def pages_of_def SysSysPAddrToDevPAddr_def)
  moreover have "shadow_loop h va cva hm 0 (p_advance h fl) 0 uBytes fl s =
      map_seq h va (map (\<lambda>k. shadow_pa cva hm (of_nat k * p_advance h fl) s) [0..<pages_of uBytes]) fl s"
    using shadow_seq [OF assms, of va cva hm 0 "p_advance h fl" 0 fl s] by (simp add: pages_of_def)
  ultimately show ?thesis
    by (simp add: sc MMU_MapShadow_def) (simp split: bind_splits)
qed

text \<open>C37: The address the driver reports for a page is the one the device uses: \<open>MMU_GetPhysPageAddr\<close> gives the address bits
  of the entry that the walk of any context that shares the table ends in, and zero when the walk fails; \<open>SGXGetPhysPageAddrKM\<close>
  adds an error exactly when that address is zero.\<close>

theorem mmu_phys_addr:
  assumes "mmu_inv k SH U F s" "heap_geometry h" "slots_whole (heap_psMMUContext h) (vpn va) 1 s"
    and "ctx_at a s \<noteq> None" "vpn va div 1024 \<notin> U a" "owner k SH a (vpn va div 1024) = heap_psMMUContext h"
  defines "pa \<equiv> (case walk a va s of None \<Rightarrow> 0 | Some e \<Rightarrow> ucast (e AND SGX_MMU_PTE_ADDR_MASK))"
  shows "MMU_GetPhysPageAddr h va s = Some pa \<and>
    SGXGetPhysPageAddrKM h va s = Some (if pa = 0 then PVRSRV_ERROR_INVALID_PARAMS else PVRSRV_OK, pa)"
proof -
  have "ucast e AND 0xFFFFF000 = (ucast (e AND 0xFFFFF000) :: 64 word)" for e :: "32 word"
    by (simp add: unsigned_and_eq)
  then have "pa = ucast (pte (heap_psMMUContext h) (vpn va) s) AND 0xFFFFF000"
    unfolding pa_def walk_pte [OF assms(1,4,5)] by (simp add: assms(6) SGX_MMU_PTE_ADDR_MASK_def Let_def)
  then have "MMU_GetPhysPageAddr h va s = Some pa"
    using phys_page_addr [OF assms(1-3)] by simp
  then show ?thesis
    by (simp add: SGXGetPhysPageAddrKM_def)
qed

theorem mmu_phys_addr_witness: "SGXGetPhysPageAddrKM ex_h 0x401000 ex_mmu5 = Some (PVRSRV_OK, 0x6000)"
proof -
  have "slots_whole (heap_psMMUContext ex_h) (vpn 0x401000) 1 ex_mmu5"
    using ex_mmu5(4) by (simp add: slots_whole_def has_tables_def ex_h_fields ex_vpn)
  from mmu_phys_addr [OF ex_mmu5(2) ex_heap_geometry this ex_mmu5(3)] show ?thesis
    by (simp add: ex_h_fields ex_mmu5(5) SGX_MMU_PTE_ADDR_MASK_def)
qed

text \<open>C38: \<open>MMU_UnmapPages\<close> ends and makes exactly the pages of its range invalid, in every context that shares the tables; it keeps every
  table and tells the device to drop its cached entries.\<close>

theorem mmu_unmap_pages:
  assumes "mmu_inv k SH U F s" "heap_geometry h" "vpn va + unat n \<le> 1048576" "slots_whole (heap_psMMUContext h) (vpn va) (unat n) s"
  shows "\<exists>s'. MMU_UnmapPages h va n s = Some s' \<and> mmu_inv k SH U F s' \<and> (\<forall>r. role_pa r s' = role_pa r s) \<and>
    ui32CacheControl s' = ui32CacheControl s OR SGXMKIF_CC_INVAL_BIF_PT \<and>
    (\<forall>a w. ctx_at a s \<noteq> None \<longrightarrow> vpn w div 1024 \<notin> U a \<longrightarrow>
       walk a w s' = (if owner k SH a (vpn w div 1024) = heap_psMMUContext h \<and> in_range va (unat n) w then None else walk a w s))"
proof -
  obtain s1 where s1: "unmap_loop h va (unat n) s = Some s1" "mmu_inv k SH U F s1" "same_tables s s1"
      "ui32CacheControl s1 = ui32CacheControl s" "clears (heap_psMMUContext h) (vpn va) (unat n) s s1"
    using unmap_loop_effect [OF assms] by auto
  let ?s = "MMU_InvalidatePageTableCache s1"
  have "walk a w ?s = walk a w s1" for a w
    by (simp add: MMU_InvalidatePageTableCache_def)
  moreover have "role_pa r ?s = role_pa r s1" for r
    by (rule role_pa_cong) (simp_all add: MMU_InvalidatePageTableCache_def)
  moreover have "mmu_inv k SH U F ?s" "ui32CacheControl ?s = ui32CacheControl s OR SGXMKIF_CC_INVAL_BIF_PT"
    using s1(2,4) by (simp_all add: MMU_InvalidatePageTableCache_def)
  ultimately show ?thesis
    using s1 walk_clears [OF assms(1) s1(2) disjI1 [OF s1(3)] s1(5)] by (simp add: MMU_UnmapPages_def same_tables_def)
qed

theorem mmu_unmap_pages_witness:
  "\<exists>s'. MMU_UnmapPages ex_h 0x400000 2 ex_mmu5 = Some s' \<and> walk 0x100 0x401000 s' = None \<and> tab_pa 0x100 1 s' = tab_pa 0x100 1 ex_mmu5"
proof -
  have "vpn 0x400000 + unat (2 :: IMG_UINT32) \<le> 1048576" "slots_whole (heap_psMMUContext ex_h) (vpn 0x400000) (unat (2 :: IMG_UINT32)) ex_mmu5"
    using has_tables_whole [OF ex_mmu5(4)] by (simp_all add: ex_h_fields ex_vpn)
  from mmu_unmap_pages [OF ex_mmu5(2) ex_heap_geometry this] obtain s' where
    "MMU_UnmapPages ex_h 0x400000 2 ex_mmu5 = Some s'" "\<forall>r. role_pa r s' = role_pa r ex_mmu5"
    "\<forall>a w. ctx_at a ex_mmu5 \<noteq> None \<longrightarrow> walk a w s' = (if a = 0x100 \<and> in_range 0x400000 2 w then None else walk a w ex_mmu5)"
    by (auto simp: ex_h_fields)
  moreover from this(2) have "tab_pa 0x100 1 s' = tab_pa 0x100 1 ex_mmu5"
    by (metis role_pa_simps(2))
  ultimately show ?thesis
    using ex_mmu5(3) by (auto simp: in_range_def ex_vpn)
qed

text \<open>C5: \<open>MMU_UnmapPagesAndFreePTs\<close> makes exactly the pages of its range invalid and gives back the memory of the tables it empties: afterwards
  every table of the range is gone or has a page that is still mapped, no table outside the range is touched, and the accounts of the kernel's memory and
  of the pages balance (the invariant). The device drops its directory cache when a table was freed, its table cache otherwise.\<close>

theorem mmu_unmap_free:
  assumes "mmu_inv k SH U F s" "heap_geometry h" "vpn va + unat n \<le> 1048576" "slots_whole (heap_psMMUContext h) (vpn va) (unat n) s"
    and "serves k SH h (vpn va) (unat n)"
  shows "\<exists>t s'. MMU_UnmapPagesAndFreePTs h va n s = Some (h\<lparr>ui32PTETotalUsable := t\<rparr>, s') \<and> mmu_inv k SH U F s' \<and>
    (\<forall>q. vpn va \<le> q \<and> q < vpn va + unat n \<longrightarrow> tidy (heap_psMMUContext h) (q div 1024) s') \<and>
    (\<forall>b i. tab_pa b i s' \<noteq> tab_pa b i s \<longrightarrow> b = heap_psMMUContext h \<and> (\<exists>q. vpn va \<le> q \<and> q < vpn va + unat n \<and> i = q div 1024)) \<and>
    ui32CacheControl s' = ui32CacheControl s OR
      (if freed_some (heap_psMMUContext h) s s' then SGXMKIF_CC_INVAL_BIF_PD else SGXMKIF_CC_INVAL_BIF_PT) \<and>
    (\<forall>a w. ctx_at a s \<noteq> None \<longrightarrow> vpn w div 1024 \<notin> U a \<longrightarrow>
       walk a w s' = (if owner k SH a (vpn w div 1024) = heap_psMMUContext h \<and> in_range va (unat n) w then None else walk a w s))"
  using unmap_free_walk [OF assms] by blast

theorem mmu_unmap_free_witness:
  "\<exists>t s'. MMU_UnmapPagesAndFreePTs ex_h 0x400000 2 ex_mmu5 = Some (ex_h\<lparr>ui32PTETotalUsable := t\<rparr>, s') \<and>
     mmu_inv 0x100 {} (\<lambda>_. {}) {#} s' \<and> walk 0x100 0x401000 s' = None"
proof -
  have "vpn 0x400000 + unat (2 :: IMG_UINT32) \<le> 1048576" "slots_whole (heap_psMMUContext ex_h) (vpn 0x400000) (unat (2 :: IMG_UINT32)) ex_mmu5"
    using has_tables_whole [OF ex_mmu5(4)] by (simp_all add: ex_h_fields ex_vpn)
  moreover have "serves 0x100 {} ex_h (vpn 0x400000) (unat (2 :: IMG_UINT32))"
    by (simp add: serves_def ex_h_fields(2)) (simp add: ex_vpn PDIndex_def ex_heap_def drop_bit_eq_div)
  ultimately show ?thesis
    using mmu_unmap_free [OF ex_mmu5(2) ex_heap_geometry, of "0x400000" 2 DEVICE_MEMORY_HEAP_KERNEL] ex_mmu5(3)
    by (auto simp: ex_h_fields in_range_def ex_vpn)
qed

text \<open>Making the tables of a range does not change what the device sees, whether it succeeds or runs out of memory, and keeps the invariant. When it
  succeeds, every page of a range below the last 4 MB of the address space has its table.\<close>

theorem mmu_alloc_tables:
  assumes "mmu_inv k SH U F s" "heap_geometry h" "ctx_at (heap_psMMUContext h) s \<noteq> None"
    and "unat va mod 4096 = 0" "0 < unat n" "unat va + unat n \<le> 0xFFC00000"
    and "\<forall>i. unat va div 4194304 \<le> i \<and> i < (unat va + unat n + 0x3FFFFF) div 4194304 \<longrightarrow> heap_of k SH h i"
  shows "\<exists>ok s'. DeferredAllocPagetables h va n s = Some (ok, s') \<and> mmu_inv k SH U F s' \<and>
    (ok \<longrightarrow> has_tables (heap_psMMUContext h) (vpn va) (pages_of n) s') \<and>
    (\<forall>a w. ctx_at a s \<noteq> None \<longrightarrow> vpn w div 1024 \<notin> U a \<longrightarrow> walk a w s' = walk a w s)"
  using alloc_tables_walk [OF assms] by blast

theorem mmu_alloc_tables_witness:
  "has_tables 0x100 1024 2 ex_mmu2 \<and> walk 0x100 0x400000 ex_mmu2 = walk 0x100 0x400000 ex_mmu1"
proof -
  have i: "mmu_inv 0x100 {} (\<lambda>_. {}) {#} ex_mmu1"
    by (rule ex_mmu1_inv) simp
  show ?thesis
    using mmu_alloc_tables [OF i ex_heap_geometry, of DEVICE_MEMORY_HEAP_KERNEL "0x400000" "0x2000"] ex_mmu1_ctx ex_h_fields ex_vpn ex_mmu2
    by auto
qed

text \<open>C39: In the last 4 MB of the address space no table is made: the allocation of page tables reports success and changes nothing, and
  mapping a page there afterwards follows a null pointer. The texture heap of the device ends in this range.\<close>

theorem mmu_top_gap:
  assumes "heap_geometry h" "0xFFC00000 \<le> unat va" "0 < unat n" "unat va + unat n \<le> 4294967296"
    and "pt_slot (heap_psMMUContext h) 1023 s = Some None"
  shows "DeferredAllocPagetables h va n s = Some (True, s) \<and> MMU_MapPage h va pa fl s = None"
proof -
  have "unat va < 2 ^ LENGTH(32)"
    by (rule unsigned_less)
  then have "vpn va div 1024 = 1023"
    using assms(2) by (simp add: vpn_def div_mult2_eq [symmetric])
  then show ?thesis
    using assms(5) table_count_top [OF assms(1-4)]
    by (simp add: DeferredAllocPagetables_def MMU_MapPage_def heap_indexes [OF assms(1)] Let_def)
qed

theorem mmu_top_gap_witness:
  "DeferredAllocPagetables ex_h 0xFFFFE000 0x1000 ex_mmu1 = Some (True, ex_mmu1) \<and> MMU_MapPage ex_h 0xFFFFE000 0x5000 3 ex_mmu1 = None"
proof -
  have "pt_slot (heap_psMMUContext ex_h) 1023 ex_mmu1 = Some None"
    by (simp add: ex_h_fields pt_slot_def SGX_MAX_PD_ENTRIES_def ctx_at_def ex_mmu1_eq)
  from mmu_top_gap [OF ex_heap_geometry _ _ _ this, of "0xFFFFE000" "0x1000"] show ?thesis
    by simp
qed

text \<open>C11: A new context starts with an empty directory: when it can be made, it is fresh, it translates no address, every other context
  translates as before, the invariant holds with it, and ending it again restores the contexts, the memory and the kernel's accounts. When
  there is no memory for it, nothing is lost; when there is no page for its directory, the block of the context is lost.\<close>

theorem mmu_context_life:
  assumes "mmu_inv k SH U F s" "MMU_Initialise s = Some (e, a, pa, s')"
  shows "if e = PVRSRV_OK then
      ctx_at a s = None \<and> mmu_inv k SH (U(a := if a = k then {} else SH)) F s' \<and>
      MMU_GetPDDevPAddr a s' = Some pa \<and> (\<forall>w. walk a w s' = None) \<and>
      (\<forall>b w. ctx_at b s \<noteq> None \<longrightarrow> walk b w s' = walk b w s) \<and>
      (\<exists>s''. MMU_Finalise a s' = Some s'' \<and> pvMMUContextList s'' = pvMMUContextList s \<and> mmu_mem s'' = mmu_mem s \<and>
        blocks (mmu_os s'') = blocks (mmu_os s))
    else pvMMUContextList s' = pvMMUContextList s \<and> mmu_mem s' = mmu_mem s \<and>
      (if e = PVRSRV_ERROR_OUT_OF_MEMORY then mmu_inv k SH U F s'
       else e = PVRSRV_ERROR_FAILED_TO_ALLOC_PAGES \<and> (\<exists>p. mmu_inv k SH U (add_mset p F) s'))"
  using assms(1)
proof (cases rule: initialise_cases)
  case (oom os1)
  then show ?thesis
    using assms(2) by simp
next
  case (no_page b os1 r)
  then show ?thesis
    using assms(2) by auto
next
  case (ok b va hm z r os1)
  let ?pa = "cpu_map s va" and ?s = "with_ctx (new_ctx b va (cpu_map s va) hm) z r os1 s"
  have eq: "e = PVRSRV_OK" "a = b" "pa = ?pa" "s' = ?s"
 
    using trans [OF assms(2) [symmetric] ok(1)] by (simp_all only: option.inject prod.inject)
  have c: "ctx_at b ?s = Some (new_ctx b va ?pa hm)"
    by simp
  have "unat (drop_bit 22 w) < 1024" for w :: IMG_UINT32
    using vpn_less [of w] unat_pd [of w] by (simp add: vpn_def del: drop_bit_eq_div)
  then have "walk b w ?s = None" for w
    using ok(5) by (simp add: walk_def dir_pa_def del: drop_bit_eq_div)
  moreover have "walk q w ?s = walk q w s" if "ctx_at q s \<noteq> None" for q w
  proof (rule walk_frame [OF assms(1) that])
    show "dir_pa q ?s = dir_pa q s"
      using that ok(2) by (auto simp: dir_pa_def)
    show "mmu_mem s x = Some p \<Longrightarrow> mmu_mem ?s x = Some p" for x p
      using ok(4) by auto
  qed
  moreover have "MMU_Finalise b ?s = Some (without_ctx (new_ctx b va ?pa hm) ?s)"
    using finalise_without [OF ok(6) c] .
  moreover have "(mmu_mem s)(?pa := None) = mmu_mem s"
    using ok(4) by auto
  moreover have "ctx_blocks (new_ctx b va ?pa hm) = {#b#}"
    by (simp add: ctx_blocks_def slot_block_def)
  then have "blocks os1 = add_mset b (blocks (mmu_os s))"
    using ok(6) assms(1) by (simp add: mmu_inv_def mmu_blocks_def)
  ultimately show ?thesis
    using ok(2,6) unfolding eq by (simp add: MMU_GetPDDevPAddr_def blocks_OSFreeMem)
qed

theorem mmu_context_life_witness:
  "mmu_inv 0x100 {} (\<lambda>_. {}) {#} ex_mmu1 \<and> MMU_GetPDDevPAddr 0x100 ex_mmu1 = Some 0x1000 \<and> (\<forall>w. walk 0x100 w ex_mmu1 = None) \<and>
     (\<exists>s''. MMU_Finalise 0x100 ex_mmu1 = Some s'' \<and> mmu_mem s'' = mmu_mem ex_mmu)"
proof -
  have "(\<lambda>_ :: IMG_UINTPTR_T. {} :: nat set)(0x100 := {}) = (\<lambda>_. {})"
    by auto
  then show ?thesis
    using mmu_context_life [OF ex_mmu_inv ex_mmu1, of "0x100" "{}" "\<lambda>_. {}"] by auto
qed


text \<open>C10: A heap shared by all contexts is seen by a new context once it is inserted: \<open>MMU_InsertHeap\<close> ends, and from then on the context translates
  every address of the heap the way the context of the heap does, now and after every later change of the tables of the heap (its
  directory is no longer behind in these entries). No other translation of any context changes.\<close>

theorem mmu_insert_heap:
  assumes "mmu_inv (heap_psMMUContext h) SH U F s" "heap_shape (heap_psMMUContext h) SH h" "MMU_IsHeapShared h"
    and "ctx_at a s \<noteq> None" "ctx_at (heap_psMMUContext h) s \<noteq> None" "U (heap_psMMUContext h) = {}" "a \<noteq> heap_psMMUContext h"
  shows "\<exists>s'. MMU_InsertHeap a h s = Some s' \<and> mmu_inv (heap_psMMUContext h) SH (U(a := U a - heap_slots h)) F s' \<and>
    (\<forall>w. vpn w div 1024 \<in> heap_slots h \<longrightarrow> walk a w s' = walk (heap_psMMUContext h) w s) \<and>
    (\<forall>b w. ctx_at b s \<noteq> None \<longrightarrow> vpn w div 1024 \<notin> U b \<longrightarrow> walk b w s' = walk b w s)"
proof -
  let ?k = "heap_psMMUContext h" and ?i = "unat (PDIndex h (BaseDevVAddr (psDevArena h)))"
  let ?is = "[?i..<?i + unat (ui32PageTableCount h)]" and ?U = "U(a := U a - heap_slots h)"
  have st: "set ?is = heap_slots h"
    by (simp add: heap_slots_def)
  have "heap_slots h \<subseteq> SH" "\<forall>i \<in> heap_slots h. i < 1024"
    using assms(2,3) by (auto simp: heap_shape_def heap_of_def)
  then obtain s' where s': "copy_pdes a ?k ?is s = Some s'" "mmu_inv ?k SH ?U F s'" "same_slots s s'"
    using copy_pdes_effect [OF assms(1,4-7), of ?is] unfolding st by blast
  have c: "ctx_at b s' = ctx_at b s" for b
    using s'(3) by (simp add: same_slots_def ctx_at_def)
  have p: "pte b q s' = pte b q s" for b q
    using s'(3) by (simp add: same_slots_def)
  have same: "walk b w s' = walk b w s" if "ctx_at b s \<noteq> None" "vpn w div 1024 \<notin> U b" for b w
  proof -
    have "vpn w div 1024 \<notin> ?U b" "ctx_at b s' \<noteq> None"
      using that c by auto
    then show ?thesis
      using walk_pte [OF s'(2), of b w] walk_pte [OF assms(1) that] by (simp add: p)
  qed
  moreover have "walk a w s' = walk ?k w s" if "vpn w div 1024 \<in> heap_slots h" for w
  proof -
    have "owner ?k SH a (vpn w div 1024) = ?k" "owner ?k SH ?k (vpn w div 1024) = ?k"
      using that \<open>heap_slots h \<subseteq> SH\<close> by (auto simp: owner_def)
    moreover have "vpn w div 1024 \<notin> ?U a" "vpn w div 1024 \<notin> U ?k" "ctx_at a s' \<noteq> None"
      using that assms(4,6) c by auto
    ultimately show ?thesis
      using walk_pte [OF s'(2), of a w] walk_pte [OF assms(1,5), of w] by (simp add: p)
  qed
  ultimately show ?thesis
    using s'(1,2) by (simp add: MMU_InsertHeap_def)
qed

theorem mmu_insert_heap_witness:
  "\<exists>s'. MMU_InsertHeap 0x200 ex_shared ex_mmu6 = Some s' \<and> mmu_inv 0x100 {1, 2} (\<lambda>_. {}) {#} s' \<and>
     walk 0x200 0x400000 s' = walk 0x100 0x400000 ex_mmu6"
proof -
  have "(((\<lambda>_. {})(0x200 := {1, 2})) (0x200 := {}) :: IMG_UINTPTR_T \<Rightarrow> nat set) = (\<lambda>_. {})"
    by auto
  moreover have "vpn 0x400000 div 1024 \<in> heap_slots ex_shared"
    by (simp add: ex_shared_ok(3) ex_vpn)
  ultimately show ?thesis
    using mmu_insert_heap [of ex_shared "{1, 2}" "(\<lambda>_. {})(0x200 := {1, 2})" "{#}" ex_mmu6 "0x200"] ex_mmu6_inv ex_shared_ok
    by auto
qed

text \<open>C9: A heap is made well-formed: when \<open>MMU_Create\<close> returns a heap for a range of whole pages that starts with a page table, its
  geometry covers every page of the range by exactly the directory entries the page table count says, its arena is sound, hands out exactly the range and
  shares no memory with the page tables, and nothing but the kernel's memory changes; a page size that is not
  the system's gives no heap and gives the memory back.\<close>

theorem mmu_create_heap:
  assumes "mmu_inv k SH U F s" "ctx_at a s \<noteq> None" "MMU_Create a d s = Some (r, s')"
    and "unat (da_ui32Size d) mod 4096 = 0" "unat (BaseDevVAddr d) mod 4194304 = 0" "unat (BaseDevVAddr d) + unat (da_ui32Size d) < 4294967296"
    and "\<forall>h. r = Some h \<longrightarrow> (\<forall>i \<in> heap_slots h. heap_of k SH h i)"
  shows "(case r of
      None \<Rightarrow> da_ui32DataPageSize d \<noteq> 0x1000 \<longrightarrow> mmu_inv k SH U F s'
    | Some h \<Rightarrow> (\<exists>A. heap_ok k SH U F h A s' \<and> live_blocks A = {#} \<and> free_space (segments A) = heap_pages h) \<and>
        psDevArena h = d \<and> heap_psMMUContext h = a \<and> s' = s\<lparr>mmu_os := mmu_os s'\<rparr>)"
proof (cases r)
  case None
  obtain e p os1 where al: "OSAllocMem sizeof_MMU_HEAP (mmu_os s) = (e, p, os1)"
    by (metis prod_cases3)
  have "mmu_inv k SH U F s'" if "da_ui32DataPageSize d \<noteq> 0x1000"
  proof (cases "p = IMG_NULL")
    case True
    then show ?thesis
      using assms(3) al mmu_inv_oom [OF assms(1), of sizeof_MMU_HEAP e os1] by (auto simp: MMU_Create_def)
  next
    case False
    have "s' = s\<lparr>mmu_os := OSFreeMem p os1\<rparr>"
      using assms(3) al False that by (simp add: MMU_Create_def)
    moreover have "os_ok os1" "blocks os1 = add_mset p (blocks (mmu_os s))"
      using OSAllocMem_os_ok [OF al] OSAllocMem_blocks [OF al] False mmu_inv_os [OF assms(1)] by auto
    ultimately show ?thesis
      using mmu_inv_os [OF assms(1)] by (auto simp: OSFreeMem_os_ok blocks_OSFreeMem intro!: mmu_inv_blocks [OF assms(1)])
  qed
  then show ?thesis
    using None by simp
next
  case (Some h)
  then show ?thesis
    using create_effect [OF assms(1,2) _ assms(4-6), of h] assms(3,7) by auto
qed

theorem mmu_create_heap_witness:
  "(\<exists>A. heap_ok 0x100 {} (\<lambda>_. {}) {#} ex_heap3 A ex_mmu3 \<and> live_blocks A = {#} \<and> free_space (segments A) = heap_pages ex_heap3) \<and> psDevArena ex_heap3 = ex_dev"
proof -
  have i: "mmu_inv 0x100 {} (\<lambda>_. {}) {#} ex_mmu1"
    by (rule ex_mmu1_inv) simp
  have d: "unat (da_ui32Size ex_dev) mod 4096 = 0" "unat (BaseDevVAddr ex_dev) mod 4194304 = 0"
      "unat (BaseDevVAddr ex_dev) + unat (da_ui32Size ex_dev) < 4294967296"
    by (simp_all add: ex_dev_def)
  have "\<forall>h. Some ex_heap3 = Some h \<longrightarrow> (\<forall>i \<in> heap_slots h. heap_of 0x100 {} h i)"
    using ex_mmu3_ok(1) by (simp add: heap_ok_def heap_shape_def)
  from mmu_create_heap [OF i ex_mmu1_ctx ex_create3 d this] show ?thesis
    by simp
qed

text \<open>C4: Allocating from a heap combines its arena with the page tables: the call ends; on success the block is aligned, was free before, lies in the
  heap and has a table for each of its pages; on failure, of the arena or of the tables, no block is lost (the addresses go back to the arena).
  The heap stays sound and the device translates every address as before.\<close>

theorem mmu_alloc_block:
  assumes "heap_ok k SH U F h A s" "n \<noteq> 0" "fl AND PVRSRV_MEM_USER_SUPPLIED_DEVVADDR = 0" "1 < al" "unat al mod 4096 = 0"
    and "unat (BaseDevVAddr (psDevArena h)) + unat (da_ui32Size (psDevArena h)) \<le> 0xFFC00000"
  shows "\<exists>r va' h' B s'. MMU_Alloc h n fl al va s = Some (r, va', h', s') \<and> heap_ok k SH U F h' B s' \<and>
    (if r then live_blocks B = add_mset (ucast va', n) (live_blocks A) \<and> unat va' mod unat al = 0 \<and>
       {unat va' ..< unat va' + unat n} \<subseteq> free_space (segments A) \<and> has_tables (heap_psMMUContext h) (vpn va') (pages_of n) s'
     else live_blocks B = live_blocks A) \<and>
    (\<forall>a w. ctx_at a s \<noteq> None \<longrightarrow> vpn w div 1024 \<notin> U a \<longrightarrow> walk a w s' = walk a w s)"
  using alloc_effect [OF assms] unfolding heap_alloced_def by blast

theorem mmu_alloc_block_witness:
  "\<exists>h4 (B :: vm_arena) s4. MMU_Alloc ex_heap3 0x2000 3 0x1000 0 ex_mmu3 = Some (True, 0x400000, h4, s4) \<and> live_blocks B = {#(0x400000, 0x2000)#} \<and>
     has_tables 0x100 1024 2 s4"
proof -
  have "(3 :: IMG_UINT32) AND PVRSRV_MEM_USER_SUPPLIED_DEVVADDR = 0" "(1 :: IMG_UINT32) < 0x1000" "unat (0x1000 :: IMG_UINT32) mod 4096 = 0"
      "unat (BaseDevVAddr (psDevArena ex_heap3)) + unat (da_ui32Size (psDevArena ex_heap3)) \<le> 0xFFC00000"
    by (simp_all add: PVRSRV_MEM_USER_SUPPLIED_DEVVADDR_def ex_mmu3_ok(3)) (simp add: ex_dev_def)
  from mmu_alloc_block [OF ex_mmu3_ok(1) _ this, of "0x2000" 0]
  obtain h4 s4 and B :: vm_arena where "MMU_Alloc ex_heap3 0x2000 3 0x1000 0 ex_mmu3 = Some (True, 0x400000, h4, s4)"
      "live_blocks B = {#(0x400000, 0x2000)#}" "has_tables 0x100 1024 2 s4"
    using ex_alloc4 by (auto simp: ex_mmu3_ok(2,4) ex_vpn)
  then show ?thesis
    by blast
qed

text \<open>C3: Freeing a block of whole pages gives its addresses back to the arena and makes exactly its pages untranslated in every context that shares the
  tables: no stale translation of freed addresses is left, and no table of the range is left without a mapped page.\<close>

theorem mmu_free_block:
  assumes "heap_ok k SH U F h A s" "(ucast va, n) \<in># live_blocks A" "n \<noteq> 0" "unat va mod 4096 = 0" "unat n mod 4096 = 0"
    and "slots_whole (heap_psMMUContext h) (vpn va) (unat n div 4096) s"
  shows "\<exists>h' B s'. MMU_Free h va n s = Some (h', s') \<and> heap_ok k SH U F h' B s' \<and> live_blocks B = live_blocks A - {#(ucast va, n)#} \<and>
    (\<forall>q. vpn va \<le> q \<and> q < vpn va + unat n div 4096 \<longrightarrow> tidy (heap_psMMUContext h) (q div 1024) s') \<and>
    (\<forall>a w. ctx_at a s \<noteq> None \<longrightarrow> vpn w div 1024 \<notin> U a \<longrightarrow>
       walk a w s' = (if owner k SH a (vpn w div 1024) = heap_psMMUContext h \<and> in_range va (unat n div 4096) w then None else walk a w s))"
  by (rule free_effect [OF assms])

theorem mmu_free_block_witness:
  "\<exists>h4 s4 h5 B s5. MMU_Alloc ex_heap3 0x2000 3 0x1000 0 ex_mmu3 = Some (True, 0x400000, h4, s4) \<and>
     MMU_Free h4 0x400000 0x2000 s4 = Some (h5, s5) \<and> heap_ok 0x100 {} (\<lambda>_. {}) {#} h5 B s5 \<and> live_blocks B = {#}"
proof -
  obtain h4 A s4 where a: "MMU_Alloc ex_heap3 0x2000 3 0x1000 0 ex_mmu3 = Some (True, 0x400000, h4, s4)"
      "heap_ok 0x100 {} (\<lambda>_. {}) {#} h4 A s4" "live_blocks A = {#(0x400000, 0x2000)#}" "has_tables 0x100 1024 2 s4"
      "heap_psMMUContext h4 = 0x100"
    using ex_mmu4 by blast
  have "(ucast (0x400000 :: IMG_UINT32), 0x2000) \<in># live_blocks A" "(0x2000 :: IMG_UINT32) \<noteq> 0" "unat (0x400000 :: IMG_UINT32) mod 4096 = 0"
      "unat (0x2000 :: IMG_UINT32) mod 4096 = 0" "slots_whole (heap_psMMUContext h4) (vpn 0x400000) (unat (0x2000 :: IMG_UINT32) div 4096) s4"
    using a(3,5) has_tables_whole [OF a(4)] by (simp_all add: ex_vpn)
  from mmu_free_block [OF a(2) this] show ?thesis
    using a(1,3) by auto
qed

text \<open>C12: Deleting a heap whose blocks are all free ends and leaves nothing of it: its tables, its arena and its record are given back, its directory entries
  are cleared in every context that has them and the directory cache is dropped, so that no context translates an address of the heap any more; every
  other translation stays.\<close>

theorem mmu_delete_heap:
  assumes "heap_ok k SH U F h A s" "live_blocks A = {#}"
  shows "\<exists>s'. MMU_Delete h s = Some s' \<and> mmu_inv k SH U F s' \<and>
    (\<forall>i \<in> heap_slots h. pt_slot (heap_psMMUContext h) i s' = Some None) \<and>
    ui32CacheControl s' = ui32CacheControl s OR SGXMKIF_CC_INVAL_BIF_PD \<and>
    (\<forall>a w. ctx_at a s \<noteq> None \<longrightarrow> vpn w div 1024 \<notin> U a \<longrightarrow> walk a w s' =
       (if owner k SH a (vpn w div 1024) = heap_psMMUContext h \<and> vpn w div 1024 \<in> heap_slots h then None else walk a w s))"
  by (rule delete_effect [OF assms])

theorem mmu_delete_heap_witness:
  "\<exists>s'. MMU_Delete ex_heap3 ex_mmu3 = Some s' \<and> mmu_inv 0x100 {} (\<lambda>_. {}) {#} s'"
  using mmu_delete_heap [OF ex_mmu3_ok(1,2)] by blast

end
